(* ===== verification/Prelude.thy ===== *)
theory Prelude
  imports Complex_Main "HOL-Library.Word" "HOL-Library.Multiset" "HOL-Library.List_Lexorder"
begin

text \<open>
  Shared vocabulary of the Converse development.  It names the machine types of the C
  sources, the two ways a Converse routine can stop the program (a call of
  \<^verbatim>\<open>CmiAbort\<close> and a failed \<^verbatim>\<open>CmiAssert\<close>), the collections of rewrite rules
  that the component theories fill, and a few facts on lists that several components use.

  An access to memory that is not allocated, which the C language leaves undefined, is the
  error \<open>Fault\<close>.

  A pointer is a natural number and \<^verbatim>\<open>NULL\<close> is 0: the components compare pointers
  and store them, they never compute with them.  Memory obtained from \<^verbatim>\<open>malloc\<close> is a
  list of cells; cells the code has not written yet hold 0.
\<close>

type_synonym ptr = nat

abbreviation (input) NULL :: ptr where "NULL \<equiv> 0"

type_synonym u8 = "8 word"
type_synonym u16 = "16 word"
type_synonym u32 = "32 word"
type_synonym u64 = "64 word"

datatype cmi_error = Abort string | AssertFailed string | Exit int | Fault string

type_synonym 'a result = "cmi_error + 'a"

definition rbind :: "'a result \<Rightarrow> ('a \<Rightarrow> 'b result) \<Rightarrow> 'b result" where
  "rbind x f = (case x of Inl e \<Rightarrow> Inl e | Inr v \<Rightarrow> f v)"

lemma rbind_simps [simp]: "rbind (Inr v) f = f v" "rbind (Inl e) f = Inl e"
  by (simp_all add: rbind_def)

definition CmiAssert :: "bool \<Rightarrow> string \<Rightarrow> unit result" where
  "CmiAssert b what = (if b then Inr () else Inl (AssertFailed what))"

lemma CmiAssert_simps [simp]: "CmiAssert True w = Inr ()" "CmiAssert False w = Inl (AssertFailed w)"
  by (simp_all add: CmiAssert_def)

named_theorems deq_simps \<open>abstract effect of the operations on circular buffers\<close>
named_theorems prioq_simps \<open>frame and effect rules of the priority queue operations\<close>
named_theorems cbl_simps \<open>effect of the operations on callback lists\<close>
named_theorems qd_simps \<open>accessors of the quiescence detector\<close>

section \<open>Lists indexed like C arrays\<close>

lemma take_Suc_update:
  "n < length xs \<Longrightarrow> take (Suc n) (xs[n := x]) = take n xs @ [x]"
  by (simp add: take_Suc_conv_app_nth)

lemma drop_update_before [simp]: "n < m \<Longrightarrow> drop m (xs[n := x]) = drop m xs"
  by simp

lemma drop_Cons_nth: "n < length xs \<Longrightarrow> drop n xs = xs ! n # drop (Suc n) xs"
  by (rule Cons_nth_drop_Suc [symmetric])

lemma drop_update_at: "n < length xs \<Longrightarrow> drop n (xs[n := x]) = x # drop (Suc n) xs"
  by (simp add: drop_update_swap drop_Cons_nth [of n xs])

lemma take_drop_snoc_update:
  assumes "i \<le> n" "n < length xs"
  shows "take (Suc n - i) (drop i (xs[n := x])) = take (n - i) (drop i xs) @ [x]"
proof -
  have "drop i (xs[n := x]) = (drop i xs)[n - i := x]"
    using assms by (simp add: drop_update_swap)
  moreover have "n - i < length (drop i xs)" using assms by simp
  ultimately show ?thesis
    using assms take_Suc_update [of "n - i" "drop i xs" x] by (simp add: Suc_diff_le)
qed

lemma nat_half_less [simp]: "(1::nat) < n \<Longrightarrow> n div 2 < n"
  by simp

lemma mset_map_exists:
  "mset es = mset (map f xs) \<Longrightarrow> \<exists>ys. es = map f ys \<and> mset ys = mset xs"
proof (induction es arbitrary: xs)
  case (Cons e es)
  then have "e \<in> set (map f xs)" by (metis list.set_intros(1) set_mset_mset)
  then obtain x where x: "x \<in> set xs" "f x = e" by auto
  then have "mset xs = add_mset x (mset (remove1 x xs))" by simp
  then have "image_mset f (mset xs) = add_mset e (image_mset f (mset (remove1 x xs)))"
    using x(2) by (metis image_mset_add_mset)
  then have "mset es = mset (map f (remove1 x xs))" using Cons.prems by simp
  from Cons.IH [OF this] obtain ys where "es = map f ys" "mset ys = mset (remove1 x xs)" by blast
  then show ?case using x by (intro exI [of _ "x # ys"]) simp
qed simp

section \<open>Biased integers and 64-bit words\<close>

text \<open>
  Adding the sign bit turns the signed order of machine integers into the unsigned order;
  a 64-bit word is the pair of its halves.
\<close>

unbundle bit_operations_syntax

lemma uint_bias32: "uint (p + 2147483648 :: u32) = sint p + 2147483648"
  by (simp add: sint_uint signed_take_bit_eq_take_bit_shift uint_word_ariths take_bit_eq_mod)

lemma uint_bias64: "uint (p + 9223372036854775808 :: u64) = sint p + 9223372036854775808"
  by (simp add: sint_uint signed_take_bit_eq_take_bit_shift uint_word_ariths take_bit_eq_mod)

lemma bias32_less: "(p + 2147483648 :: u32) < q + 2147483648 \<longleftrightarrow> p <s q"
  unfolding word_less_def word_sless_alt uint_bias32 by simp

lemma bias64_less: "(p + 9223372036854775808 :: u64) < q + 9223372036854775808 \<longleftrightarrow> p <s q"
  unfolding word_less_def word_sless_alt uint_bias64 by simp

lemma mod_bias:
  fixes u A :: int
  assumes "0 \<le> u" "u < 2 * A"
  shows "(u + A) mod (2 * A) = (if u < A then u + A else u - A)"
proof (cases "u < A")
  case False
  have "(u + A) mod (2 * A) = ((u - A) + 2 * A) mod (2 * A)" by (simp add: algebra_simps)
  also have "\<dots> = u - A" using assms False by (simp only: mod_add_self2) simp
  finally show ?thesis using False by simp
qed (use assms in simp)

lemma bias32_neg: "(p + 2147483648 :: u32) <s 0 \<longleftrightarrow> \<not> p <s 0"
proof -
  have "sint (p + 2147483648) = uint p - 2147483648"
    using uint_bias32 [of "p + 2147483648"] uint_bounded [of p] by (simp add: uint_word_ariths mod_simps)
  moreover have "sint p = (uint p + 2147483648) mod (2 * 2147483648) - 2147483648"
    using uint_bias32 [of p] by (simp add: uint_word_ariths)
  ultimately show ?thesis using mod_bias [of "uint p" 2147483648] uint_bounded [of p]
    by (auto simp: word_sless_alt)
qed

lemma bias64_neg: "(p + 9223372036854775808 :: u64) <s 0 \<longleftrightarrow> \<not> p <s 0"
proof -
  have "sint (p + 9223372036854775808) = uint p - 9223372036854775808"
    using uint_bias64 [of "p + 9223372036854775808"] uint_bounded [of p] by (simp add: uint_word_ariths mod_simps)
  moreover have "sint p = (uint p + 9223372036854775808) mod (2 * 9223372036854775808) - 9223372036854775808"
    using uint_bias64 [of p] by (simp add: uint_word_ariths)
  ultimately show ?thesis using mod_bias [of "uint p" 9223372036854775808] uint_bounded [of p]
    by (auto simp: word_sless_alt)
qed

lemma words64:
  "ucast (drop_bit 32 (push_bit 32 (ucast (h :: u32)) OR ucast (l :: u32) :: u64)) = h"
  "ucast (push_bit 32 (ucast (h :: u32)) OR ucast (l :: u32) :: u64) = l"
proof -
  have "\<not> bit l (32 + n)" for n using bit_imp_le_length [of l "32 + n"] by auto
  then show "ucast (drop_bit 32 (push_bit 32 (ucast h) OR ucast l :: u64)) = h"
    by (auto intro!: bit_word_eqI simp: bit_simps)
qed (auto intro!: bit_word_eqI simp: bit_simps)

lemma long_split: "(push_bit 32 (ucast (ucast (drop_bit 32 v) :: u32)) OR ucast (ucast v :: u32) :: u64) = v"
  by (auto intro!: bit_word_eqI simp: bit_simps)

lemma uint_long: "uint (v :: u64) = uint (ucast (drop_bit 32 v) :: u32) * 4294967296 + uint (ucast v :: u32)"
proof -
  have "uint v div 4294967296 < 4294967296" "0 \<le> uint v div 4294967296"
    using uint_bounded [of v] by (auto simp: pos_imp_zdiv_nonneg_iff)
  then have "uint (ucast (drop_bit 32 v) :: u32) = uint v div 4294967296"
    by (simp add: unsigned_ucast_eq take_bit_eq_mod unsigned_drop_bit_eq drop_bit_eq_div uint_div)
  moreover have "uint (ucast v :: u32) = uint v mod 4294967296"
    by (simp add: unsigned_ucast_eq take_bit_eq_mod)
  ultimately show ?thesis by simp
qed

lemma long_less_iff: "(v :: u64) < w \<longleftrightarrow>
  [ucast (drop_bit 32 v), ucast v :: u32] < [ucast (drop_bit 32 w), ucast w :: u32]"
proof -
  have digits: "a * 4294967296 + b < c * 4294967296 + d \<longleftrightarrow> a < c \<or> a = c \<and> b < d"
    if "0 \<le> b" "b < 4294967296" "0 \<le> d" "d < 4294967296" for a b c d :: int
    using that by (cases a c rule: linorder_cases) linarith+
  have "0 \<le> uint x" "uint x < 4294967296" for x :: u32 using uint_bounded [of x] by simp_all
  then have "v < w \<longleftrightarrow> uint (ucast (drop_bit 32 v) :: u32) < uint (ucast (drop_bit 32 w) :: u32) \<or>
      uint (ucast (drop_bit 32 v) :: u32) = uint (ucast (drop_bit 32 w) :: u32) \<and> uint (ucast v :: u32) < uint (ucast w :: u32)"
    unfolding word_less_def uint_long [of v] uint_long [of w] by (intro digits)
  then show ?thesis by (simp only: word_uint_eq_iff [symmetric] word_less_def [symmetric]) simp
qed

end
