(* ===== verification/Deq.thy ===== *)
theory Deq
  imports Prelude
begin

text \<open>
  The double-ended queue of \<^verbatim>\<open>conv-core/queueing.C\<close> (\<^verbatim>\<open>struct deq_struct\<close>): a circular
  buffer of message pointers.  \<open>dvec\<close> is the array between \<^verbatim>\<open>bgn\<close> and \<^verbatim>\<open>end\<close>, \<open>dhead\<close> and
  \<open>dtail\<close> are the offsets of \<^verbatim>\<open>head\<close> and \<^verbatim>\<open>tail\<close> in it, and \<open>dinline\<close> says
  that \<^verbatim>\<open>bgn\<close> still points to the four cells of \<^verbatim>\<open>space\<close> inside the structure.
  \<open>deq_list\<close> is the abstract value; the lemmas show that each operation acts on it as on a
  list, and the locale \<open>deque\<close> is the contract the priority queue and the scheduler queue
  rely on.
\<close>

section \<open>State and operations\<close>

record deq =
  dvec :: "ptr list"
  dhead :: nat
  dtail :: nat
  dinline :: bool

definition dsize :: "deq \<Rightarrow> nat" where
  "dsize d = length (dvec d)"

definition CqsDeqInit :: "deq" where
  "CqsDeqInit = \<lparr>dvec = replicate 4 NULL, dhead = 0, dtail = 0, dinline = True\<rparr>"

definition CqsDeqExpand :: "deq \<Rightarrow> deq" where
  "CqsDeqExpand d =
     (let rsize = dsize d - dhead d;
          lsize = dhead d;
          oldsize = dsize d;
          newsize = 2 * oldsize;
          nvec = take rsize (drop (dhead d) (dvec d)) @ take lsize (dvec d)
                 @ replicate (newsize - (rsize + lsize)) NULL
      in \<lparr>dvec = nvec, dhead = 0, dtail = oldsize, dinline = False\<rparr>)"

definition CqsDeqEnqueueFifo :: "deq \<Rightarrow> ptr \<Rightarrow> deq" where
  "CqsDeqEnqueueFifo d data =
     (let vec = (dvec d)[dtail d := data];
          tail = (if dtail d + 1 = dsize d then 0 else dtail d + 1);
          d' = d\<lparr>dvec := vec, dtail := tail\<rparr>
      in if tail = dhead d' then CqsDeqExpand d' else d')"

definition CqsDeqEnqueueLifo :: "deq \<Rightarrow> ptr \<Rightarrow> deq" where
  "CqsDeqEnqueueLifo d data =
     (let head = (if dhead d = 0 then dsize d else dhead d) - 1;
          d' = d\<lparr>dvec := (dvec d)[head := data], dhead := head\<rparr>
      in if head = dtail d' then CqsDeqExpand d' else d')"

definition CqsDeqDequeue :: "deq \<Rightarrow> ptr \<times> deq" where
  "CqsDeqDequeue d =
     (if dhead d = dtail d then (NULL, d)
      else let data = dvec d ! dhead d;
               head = (if dhead d + 1 = dsize d then 0 else dhead d + 1)
           in (data, d\<lparr>dhead := head\<rparr>))"

definition deq_empty :: "deq \<Rightarrow> bool" where
  "deq_empty d \<longleftrightarrow> dhead d = dtail d"

definition deq_next :: "deq \<Rightarrow> nat \<Rightarrow> nat" where
  "deq_next d head = (if head + 1 = dsize d then 0 else head + 1)"

text \<open>
  The loops of \<^verbatim>\<open>CqsEnumerateDeq\<close> and \<^verbatim>\<open>CqsRemoveSpecificDeq\<close> walk a cursor from \<^verbatim>\<open>head\<close>
  until it meets \<^verbatim>\<open>tail\<close>.  On a malformed buffer the cursor may never meet it, so the loops
  are partial functions and their termination is a lemma.
\<close>

partial_function (option) deq_count_loop :: "deq \<Rightarrow> nat \<Rightarrow> nat \<Rightarrow> nat option" where
  "deq_count_loop d head n =
     (if head = dtail d then Some n
      else deq_count_loop d (deq_next d head) (n + 1))"

partial_function (option) deq_copy_loop :: "deq \<Rightarrow> nat \<Rightarrow> ptr list \<Rightarrow> nat \<Rightarrow> ptr list option" where
  "deq_copy_loop d head result i =
     (if head = dtail d then Some result
      else deq_copy_loop d (deq_next d head) (result[i := dvec d ! head]) (i + 1))"

definition CqsEnumerateDeq :: "deq \<Rightarrow> (ptr list \<times> nat) option" where
  "CqsEnumerateDeq q =
     (case deq_count_loop q (dhead q) 0 of
        None \<Rightarrow> None
      | Some num \<Rightarrow>
          (case deq_copy_loop q (dhead q) (replicate num NULL) 0 of
             None \<Rightarrow> None
           | Some result \<Rightarrow> Some (result, num)))"

partial_function (option) CqsRemoveSpecificDeq_loop :: "deq \<Rightarrow> ptr \<Rightarrow> nat \<Rightarrow> int option" where
  "CqsRemoveSpecificDeq_loop q msgPtr head =
     (if head = dtail q then Some 0
      else if dvec q ! head = msgPtr then Some 1
      else CqsRemoveSpecificDeq_loop q msgPtr (deq_next q head))"

definition CqsRemoveSpecificDeq :: "deq \<Rightarrow> ptr \<Rightarrow> (int \<times> deq) option" where
  "CqsRemoveSpecificDeq q msgPtr =
     map_option (\<lambda>r. (r, q)) (CqsRemoveSpecificDeq_loop q msgPtr (dhead q))"

section \<open>Abstract value and invariant\<close>

definition deq_inv :: "deq \<Rightarrow> bool" where
  "deq_inv d \<longleftrightarrow> dhead d < dsize d \<and> dtail d < dsize d \<and> 4 \<le> dsize d"

definition deq_list :: "deq \<Rightarrow> ptr list" where
  "deq_list d =
     (if dhead d \<le> dtail d then take (dtail d - dhead d) (drop (dhead d) (dvec d))
      else drop (dhead d) (dvec d) @ take (dtail d) (dvec d))"

lemmas deq_defs = dsize_def deq_inv_def deq_list_def Let_def

section \<open>Correctness of the operations\<close>

lemma deq_inv_init [deq_simps]: "deq_inv CqsDeqInit"
  by (simp add: deq_defs CqsDeqInit_def)

lemma deq_list_init [deq_simps]: "deq_list CqsDeqInit = []"
  by (simp add: deq_defs CqsDeqInit_def)

text \<open>Expansion is called when \<^verbatim>\<open>head\<close> meets \<^verbatim>\<open>tail\<close> on a full buffer.\<close>

lemma expand_inv:
  assumes "dhead d < dsize d" "4 \<le> dsize d"
  shows "deq_inv (CqsDeqExpand d)"
  using assms by (auto simp: deq_defs CqsDeqExpand_def)

lemma expand_list:
  assumes "dhead d < dsize d"
  shows "deq_list (CqsDeqExpand d) = drop (dhead d) (dvec d) @ take (dhead d) (dvec d)"
  using assms by (simp add: deq_defs CqsDeqExpand_def)

lemma enqueueFifo_inv [deq_simps]:
  "deq_inv d \<Longrightarrow> deq_inv (CqsDeqEnqueueFifo d x)"
  by (auto simp: CqsDeqEnqueueFifo_def Let_def intro!: expand_inv)
     (auto simp: deq_defs)

lemma enqueueFifo_list [deq_simps]:
  assumes "deq_inv d"
  shows "deq_list (CqsDeqEnqueueFifo d x) = deq_list d @ [x]"
proof -
  let ?h = "dhead d" and ?t = "dtail d" and ?v = "dvec d"
  have b: "?h < length ?v" "?t < length ?v" using assms by (auto simp: deq_defs)
  consider (wrap) "?t + 1 = length ?v" "?h = 0" | (wrap2) "?t + 1 = length ?v" "0 < ?h"
    | (mid) "?t + 1 < length ?v" "?h \<le> ?t" | (full) "?h = ?t + 1"
    | (low) "?t + 1 < length ?v" "?t + 1 < ?h"
    using b by linarith
  then show ?thesis
  proof cases
    case wrap
    then show ?thesis using b
      by (simp add: CqsDeqEnqueueFifo_def dsize_def expand_list)
         (simp add: deq_list_def take_Suc_update [symmetric])
  next
    case wrap2
    then show ?thesis using b take_drop_snoc_update [of ?h ?t ?v x]
      by (simp add: CqsDeqEnqueueFifo_def dsize_def Let_def deq_list_def)
  next
    case mid
    then show ?thesis using b take_drop_snoc_update [of ?h ?t ?v x]
      by (simp add: CqsDeqEnqueueFifo_def dsize_def Let_def deq_list_def)
  next
    case full
    then show ?thesis using b
      by (simp add: CqsDeqEnqueueFifo_def dsize_def Let_def expand_list)
         (simp add: deq_list_def take_Suc_update)
  next
    case low
    then show ?thesis using b
      by (simp add: CqsDeqEnqueueFifo_def dsize_def Let_def deq_list_def take_Suc_update)
  qed
qed

lemma enqueueLifo_inv [deq_simps]:
  "deq_inv d \<Longrightarrow> deq_inv (CqsDeqEnqueueLifo d x)"
  by (auto simp: CqsDeqEnqueueLifo_def Let_def intro!: expand_inv)
     (auto simp: deq_defs)

lemma enqueueLifo_list [deq_simps]:
  assumes "deq_inv d"
  shows "deq_list (CqsDeqEnqueueLifo d x) = x # deq_list d"
proof -
  let ?h = "dhead d" and ?t = "dtail d" and ?v = "dvec d"
  have b: "?h < length ?v" "?t < length ?v" "4 \<le> length ?v"
    using assms by (auto simp: deq_defs)
  consider (wrap) "?h = 0" "?t + 1 = length ?v" | (wrap2) "?h = 0" "?t + 1 < length ?v"
    | (mid) "0 < ?h" "?h \<le> ?t" | (full) "?h = ?t + 1" | (low) "?t + 1 < ?h"
    using b by linarith
  then show ?thesis
  proof cases
    case wrap
    then have "?t = length ?v - 1" by simp
    then show ?thesis using wrap b
      by (simp add: CqsDeqEnqueueLifo_def dsize_def Let_def expand_list)
         (simp add: deq_list_def drop_update_at)
  next
    case wrap2
    then have "length ?v - 1 \<noteq> ?t" "\<not> length ?v - 1 \<le> ?t" by auto
    then show ?thesis using wrap2 b
      by (simp add: CqsDeqEnqueueLifo_def dsize_def Let_def deq_list_def drop_update_at)
  next
    case mid
    then have "?t - (?h - 1) = Suc (?t - ?h)" "Suc (?h - 1) = ?h" "?h - 1 \<noteq> ?t" "?h - 1 \<le> ?t"
      by auto
    then show ?thesis using mid b
      by (simp add: CqsDeqEnqueueLifo_def dsize_def Let_def deq_list_def drop_update_at)
  next
    case full
    then show ?thesis using b
      by (simp add: CqsDeqEnqueueLifo_def dsize_def Let_def expand_list)
         (simp add: deq_list_def drop_update_at)
  next
    case low
    then have "?h - 1 \<noteq> ?t" "\<not> ?h - 1 \<le> ?t" "Suc (?h - 1) = ?h" by auto
    then show ?thesis using low b
      by (simp add: CqsDeqEnqueueLifo_def dsize_def Let_def deq_list_def drop_update_at)
  qed
qed

lemma dequeue_inv [deq_simps]: "deq_inv d \<Longrightarrow> deq_inv (snd (CqsDeqDequeue d))"
  by (auto simp: CqsDeqDequeue_def deq_defs)

lemma deq_empty_iff: "deq_inv d \<Longrightarrow> deq_empty d \<longleftrightarrow> deq_list d = []"
  by (auto simp: deq_empty_def deq_defs)

lemma dequeue_empty [deq_simps]:
  "deq_inv d \<Longrightarrow> deq_list d = [] \<Longrightarrow> CqsDeqDequeue d = (NULL, d)"
  by (auto simp: CqsDeqDequeue_def deq_defs split: if_splits)

lemma dequeue_Cons [deq_simps]:
  assumes inv: "deq_inv d" and l: "deq_list d = x # xs"
  shows "fst (CqsDeqDequeue d) = x" "deq_list (snd (CqsDeqDequeue d)) = xs"
proof -
  let ?h = "dhead d" and ?t = "dtail d" and ?v = "dvec d"
  have b: "?h < length ?v" "?t < length ?v" "?h \<noteq> ?t"
    using inv l by (auto simp: deq_defs)
  have dl: "drop ?h ?v = ?v ! ?h # drop (Suc ?h) ?v" using b by (simp add: drop_Cons_nth)
  show "fst (CqsDeqDequeue d) = x" "deq_list (snd (CqsDeqDequeue d)) = xs"
  proof (goal_cases)
    case 1
    then show ?case using b l dl
      by (auto simp: CqsDeqDequeue_def Let_def deq_list_def take_Cons' split: if_splits)
  next
    case 2
    consider (up) "?h < ?t" | (wrap) "?t < ?h" "?h + 1 = length ?v"
      | (down) "?t < ?h" "?h + 1 < length ?v" using b by linarith
    then show ?case
    proof cases
      case up
      then have "?t - ?h = Suc (?t - Suc ?h)" by simp
      with up b l dl show ?thesis
        by (auto simp: CqsDeqDequeue_def Let_def deq_list_def dsize_def)
    qed (use b l dl in \<open>auto simp: CqsDeqDequeue_def Let_def deq_list_def dsize_def\<close>)
  qed
qed

section \<open>The cursor loops\<close>

lemma deq_cursor_step:
  assumes "deq_inv (d\<lparr>dhead := h\<rparr>)" "h \<noteq> dtail d"
  shows "deq_list (d\<lparr>dhead := h\<rparr>) = dvec d ! h # deq_list (d\<lparr>dhead := deq_next d h\<rparr>)"
    and "deq_inv (d\<lparr>dhead := deq_next d h\<rparr>)"
proof -
  let ?d = "d\<lparr>dhead := h\<rparr>"
  have ne: "deq_list ?d \<noteq> []" using assms by (simp add: deq_empty_iff [symmetric] deq_empty_def)
  then obtain x xs where xs: "deq_list ?d = x # xs" by (cases "deq_list ?d") auto
  have "CqsDeqDequeue ?d = (dvec d ! h, d\<lparr>dhead := deq_next d h\<rparr>)"
    using assms(2) by (simp add: CqsDeqDequeue_def deq_next_def dsize_def Let_def)
  then show "deq_list ?d = dvec d ! h # deq_list (d\<lparr>dhead := deq_next d h\<rparr>)"
    and "deq_inv (d\<lparr>dhead := deq_next d h\<rparr>)"
    using dequeue_Cons [OF assms(1) xs] dequeue_inv [OF assms(1)] xs by auto
qed

lemma deq_cursor_cases [consumes 1, case_names stop step]:
  assumes "deq_inv (d\<lparr>dhead := h\<rparr>)"
  obtains (stop) "h = dtail d" "deq_list (d\<lparr>dhead := h\<rparr>) = []"
  | (step) "h \<noteq> dtail d" "deq_inv (d\<lparr>dhead := deq_next d h\<rparr>)"
      "deq_list (d\<lparr>dhead := h\<rparr>) = dvec d ! h # deq_list (d\<lparr>dhead := deq_next d h\<rparr>)"
  using assms deq_cursor_step [of h d] by (cases "h = dtail d") (auto simp: deq_list_def)

lemma deq_count_loop_eq:
  "deq_inv (d\<lparr>dhead := h\<rparr>) \<Longrightarrow>
   deq_count_loop d h n = Some (n + length (deq_list (d\<lparr>dhead := h\<rparr>)))"
proof (induction "deq_list (d\<lparr>dhead := h\<rparr>)" arbitrary: h n)
  case Nil
  then show ?case
    by (cases rule: deq_cursor_cases [OF Nil.prems]) (simp_all add: deq_count_loop.simps)
next
  case (Cons x xs)
  from Cons.prems show ?case
  proof (cases rule: deq_cursor_cases)
    case stop
    then show ?thesis using Cons.hyps by simp
  next
    case step
    with Cons.hyps have "xs = deq_list (d\<lparr>dhead := deq_next d h\<rparr>)" by simp
    then show ?thesis using step Cons.hyps(1) [of "deq_next d h" "n + 1"]
      by (simp add: deq_count_loop.simps [of d h])
  qed
qed

lemma deq_copy_loop_eq:
  "deq_inv (d\<lparr>dhead := h\<rparr>) \<Longrightarrow> i + length (deq_list (d\<lparr>dhead := h\<rparr>)) = length res \<Longrightarrow>
   deq_copy_loop d h res i = Some (take i res @ deq_list (d\<lparr>dhead := h\<rparr>))"
proof (induction "deq_list (d\<lparr>dhead := h\<rparr>)" arbitrary: h i res)
  case Nil
  then show ?case
    by (cases rule: deq_cursor_cases [OF Nil.prems(1)]) (simp_all add: deq_copy_loop.simps)
next
  case (Cons x xs)
  from Cons.prems(1) show ?case
  proof (cases rule: deq_cursor_cases)
    case stop
    then show ?thesis using Cons.hyps by simp
  next
    case step
    with Cons.hyps have xs: "xs = deq_list (d\<lparr>dhead := deq_next d h\<rparr>)" by simp
    have "i < length res" using step Cons.prems(2) by simp
    then show ?thesis
      using step xs Cons.prems(2) Cons.hyps(1) [of "deq_next d h" "i + 1" "res[i := dvec d ! h]"]
      by (simp add: deq_copy_loop.simps [of d h] take_Suc_update)
  qed
qed

lemma enumerate_deq [deq_simps]:
  "deq_inv d \<Longrightarrow> CqsEnumerateDeq d = Some (deq_list d, length (deq_list d))"
  using deq_count_loop_eq [of "dhead d" d 0]
    deq_copy_loop_eq [of "dhead d" d 0 "replicate (length (deq_list d)) NULL"]
  by (simp add: CqsEnumerateDeq_def)

lemma removeSpecific_loop_eq:
  "deq_inv (d\<lparr>dhead := h\<rparr>) \<Longrightarrow>
   CqsRemoveSpecificDeq_loop d m h =
     Some (if m \<in> set (deq_list (d\<lparr>dhead := h\<rparr>)) then 1 else 0)"
proof (induction "deq_list (d\<lparr>dhead := h\<rparr>)" arbitrary: h)
  case Nil
  then show ?case
    by (cases rule: deq_cursor_cases [OF Nil.prems])
       (simp_all add: CqsRemoveSpecificDeq_loop.simps)
next
  case (Cons x xs)
  from Cons.prems show ?case
  proof (cases rule: deq_cursor_cases)
    case stop
    then show ?thesis using Cons.hyps by simp
  next
    case step
    with Cons.hyps have "xs = deq_list (d\<lparr>dhead := deq_next d h\<rparr>)" by simp
    then show ?thesis using step Cons.hyps(1) [of "deq_next d h"]
      by (auto simp: CqsRemoveSpecificDeq_loop.simps [of d m h])
  qed
qed

lemma removeSpecificDeq_eq [deq_simps]:
  "deq_inv d \<Longrightarrow>
   CqsRemoveSpecificDeq d m = Some (if m \<in> set (deq_list d) then 1 else 0, d)"
  using removeSpecific_loop_eq [of "dhead d" d m] by (simp add: CqsRemoveSpecificDeq_def)

section \<open>The deque contract\<close>

text \<open>
  What the priority queue and the scheduler queue use of a deque: the four operations, an
  abstract list and an invariant.  Any sequence of operations on a provider behaves as the
  same sequence on the list.
\<close>

datatype deq_op = PutBack ptr | PutFront ptr | Get

fun list_run :: "deq_op list \<Rightarrow> ptr list \<Rightarrow> ptr list \<times> ptr list" where
  "list_run [] xs = ([], xs)"
| "list_run (PutBack x # ops) xs = list_run ops (xs @ [x])"
| "list_run (PutFront x # ops) xs = list_run ops (x # xs)"
| "list_run (Get # ops) xs =
     (let (outs, ys) = list_run ops (tl xs)
      in ((if xs = [] then NULL else hd xs) # outs, ys))"

fun deq_run :: "(deq \<Rightarrow> ptr \<Rightarrow> deq) \<Rightarrow> (deq \<Rightarrow> ptr \<Rightarrow> deq) \<Rightarrow> (deq \<Rightarrow> ptr \<times> deq) \<Rightarrow>
    deq_op list \<Rightarrow> deq \<Rightarrow> ptr list \<times> deq" where
  "deq_run fifo lifo get [] d = ([], d)"
| "deq_run fifo lifo get (PutBack x # ops) d = deq_run fifo lifo get ops (fifo d x)"
| "deq_run fifo lifo get (PutFront x # ops) d = deq_run fifo lifo get ops (lifo d x)"
| "deq_run fifo lifo get (Get # ops) d =
     (let (x, d') = get d; (outs, e) = deq_run fifo lifo get ops d' in (x # outs, e))"

locale deque =
  fixes fifo lifo :: "deq \<Rightarrow> ptr \<Rightarrow> deq"
    and get :: "deq \<Rightarrow> ptr \<times> deq"
    and contents :: "deq \<Rightarrow> ptr list"
    and inv :: "deq \<Rightarrow> bool"
  assumes fifo_inv: "inv d \<Longrightarrow> inv (fifo d x)"
    and fifo_contents: "inv d \<Longrightarrow> contents (fifo d x) = contents d @ [x]"
    and lifo_inv: "inv d \<Longrightarrow> inv (lifo d x)"
    and lifo_contents: "inv d \<Longrightarrow> contents (lifo d x) = x # contents d"
    and get_inv: "inv d \<Longrightarrow> inv (snd (get d))"
    and get_contents: "inv d \<Longrightarrow> contents (snd (get d)) = tl (contents d)"
    and get_value: "inv d \<Longrightarrow> fst (get d) = (if contents d = [] then NULL else hd (contents d))"
begin

lemma run_refines:
  assumes "inv d" "deq_run fifo lifo get ops d = (outs, e)"
  shows "list_run ops (contents d) = (outs, contents e) \<and> inv e"
  using assms
proof (induction ops arbitrary: d outs)
  case Nil
  then show ?case by simp
next
  case (Cons op ops)
  show ?case
  proof (cases op)
    case (PutBack x)
    with Cons.prems Cons.IH [of "fifo d x" outs] show ?thesis
      by (simp add: fifo_inv fifo_contents)
  next
    case (PutFront x)
    with Cons.prems Cons.IH [of "lifo d x" outs] show ?thesis
      by (simp add: lifo_inv lifo_contents)
  next
    case Get
    obtain x d' where g: "get d = (x, d')" by force
    obtain outs' where r: "deq_run fifo lifo get ops d' = (outs', e)"
      using Cons.prems(2) Get g by (auto split: prod.splits)
    have d': "inv d'" "contents d' = tl (contents d)"
      "x = (if contents d = [] then NULL else hd (contents d))"
      using g get_inv [of d] get_contents [of d] get_value [of d] Cons.prems(1) by auto
    from Cons.IH [OF d'(1) r] have "list_run ops (tl (contents d)) = (outs', contents e)" "inv e"
      using d'(2) by auto
    then show ?thesis using Cons.prems(2) Get g r d'(3) by auto
  qed
qed

end

interpretation cqs_deq: deque CqsDeqEnqueueFifo CqsDeqEnqueueLifo CqsDeqDequeue deq_list deq_inv
proof
  fix d x assume inv: "deq_inv d"
  show "deq_list (snd (CqsDeqDequeue d)) = tl (deq_list d)"
    "fst (CqsDeqDequeue d) = (if deq_list d = [] then NULL else hd (deq_list d))"
    using inv by (cases "deq_list d"; simp add: deq_simps)+
qed (simp_all add: deq_simps)

text \<open>
  C1.  Any sequence of insertions at either end and removals, run on the circular buffer of
  \<^verbatim>\<open>queueing.C\<close> from its initial state, returns exactly what the same sequence
  returns on a list (in particular \<^verbatim>\<open>NULL\<close> on an empty queue), across every wrap-around and
  every doubling of the buffer; the buffer ends well-formed and holds the list's contents.
\<close>

theorem deq_refines_list:
  assumes "deq_run CqsDeqEnqueueFifo CqsDeqEnqueueLifo CqsDeqDequeue ops CqsDeqInit = (outs, e)"
  shows "list_run ops [] = (outs, deq_list e) \<and> deq_inv e"
  using cqs_deq.run_refines [OF deq_inv_init assms] by (simp add: deq_list_init)

theorem deq_refines_list_witness:
  "list_run [PutBack 7, PutFront 8, Get, PutBack 9] [] = ([8], [7, 9])"
proof -
  have "deq_run CqsDeqEnqueueFifo CqsDeqEnqueueLifo CqsDeqDequeue
      [PutBack 7, PutFront 8, Get, PutBack 9] CqsDeqInit
      = ([8], \<lparr>dvec = [7, 9, 0, 8], dhead = 0, dtail = 2, dinline = True\<rparr>)"
    by code_simp
  from deq_refines_list [OF this] show ?thesis by (simp add: deq_list_def)
qed

end
