(* ===== verification/Prio.thy ===== *)
theory Prio
  imports Prelude
begin

text \<open>
  Message priorities (\<^verbatim>\<open>struct prio_struct\<close> of \<^verbatim>\<open>queueing.h\<close>): a bit length, the number
  of 32-bit words and the words themselves, most significant first.  The comparison
  \<^verbatim>\<open>CqsPrioGT\<close> reads the two word arrays through moving pointers; a pointer into an array is
  the function from an offset to the word found there.  The theorems show that the
  comparison is the lexicographic order of the word strings.
\<close>

section \<open>Priorities and their comparison\<close>

record prio =
  pbits :: u16
  pints :: u16
  pdata :: "u32 list"

fun CqsPrioGT_raw :: "nat \<Rightarrow> (nat \<Rightarrow> u32) \<Rightarrow> nat \<Rightarrow> (nat \<Rightarrow> u32) \<Rightarrow> bool" where
  "CqsPrioGT_raw 0 data1 ints2 data2 = False"
| "CqsPrioGT_raw (Suc ints1) data1 0 data2 = True"
| "CqsPrioGT_raw (Suc ints1) data1 (Suc ints2) data2 =
     (if data1 0 < data2 0 then False
      else if data1 0 > data2 0 then True
      else CqsPrioGT_raw ints1 (\<lambda>k. data1 (Suc k)) ints2 (\<lambda>k. data2 (Suc k)))"

definition CqsPrioGT :: "prio \<Rightarrow> prio \<Rightarrow> bool" where
  "CqsPrioGT prio1 prio2 =
     CqsPrioGT_raw (unat (pints prio1)) ((!) (pdata prio1)) (unat (pints prio2)) ((!) (pdata prio2))"

definition CINTBITS :: u32 where "CINTBITS = 32"

definition CLONGBITS :: u32 where "CLONGBITS = 64"

definition prio_ints :: "u32 \<Rightarrow> nat" where
  "prio_ints priobits = unat ((priobits + CINTBITS - 1) div CINTBITS)"

definition prio_hash :: "u32 \<Rightarrow> u32 list \<Rightarrow> u32" where
  "prio_hash bits data = fold (\<lambda>v h. h XOR v) data bits"

definition prio_slot :: "u32 \<Rightarrow> u32 list \<Rightarrow> nat \<Rightarrow> nat" where
  "prio_slot bits data tabsize = unat (prio_hash bits data AND 0x7FFFFFFF) mod tabsize"

section \<open>The order of priorities\<close>

definition prio_key :: "prio \<Rightarrow> u32 list" where
  "prio_key p = map ((!) (pdata p)) [0..<unat (pints p)]"

definition prio_wf :: "prio \<Rightarrow> bool" where
  "prio_wf p \<longleftrightarrow>
     length (pdata p) = unat (pints p) \<and> unat (pints p) = prio_ints (ucast (pbits p))"

lemma prio_key_wf: "prio_wf p \<Longrightarrow> prio_key p = pdata p"
  by (metis prio_key_def prio_wf_def map_nth)

lemma CqsPrioGT_lex: "CqsPrioGT_raw m d n e \<longleftrightarrow> map e [0..<n] < map d [0..<m]"
proof (induction m d n e rule: CqsPrioGT_raw.induct)
  case (3 m d n e)
  then show ?case
    by (auto simp: map_upt_Suc simp del: upt_Suc)
qed (simp_all add: map_upt_Suc del: upt_Suc)

lemma CqsPrioGT_iff: "CqsPrioGT p q \<longleftrightarrow> prio_key q < prio_key p"
  by (simp add: CqsPrioGT_def prio_key_def CqsPrioGT_lex)

lemma prio_slot_less: "0 < n \<Longrightarrow> prio_slot bits data n < n"
  by (simp add: prio_slot_def)

lemma prio_ints_32 [simp]: "prio_ints CINTBITS = 1"
  by (simp add: prio_ints_def CINTBITS_def)

lemma prio_ints_64 [simp]: "prio_ints CLONGBITS = 2"
  by (simp add: prio_ints_def CINTBITS_def CLONGBITS_def)

lemma prio_ints_bound:
  assumes "unat b < 65536"
  shows "prio_ints b \<le> 2048"
proof -
  have "unat (b + 32 - 1) \<le> 65535 + 31"
    using assms by (simp add: unat_word_ariths flip: add.assoc) 
  then show ?thesis by (simp add: prio_ints_def CINTBITS_def unat_div)
qed

end
