(* ===== verification/Binheap.thy ===== *)
theory Binheap
  imports Prelude
begin

text \<open>
  Array-based binary heaps, as Converse keeps them twice: the buckets of a priority queue
  (\<^verbatim>\<open>queueing.C\<close>) and the timed callbacks (\<^verbatim>\<open>conv-conds.c\<close>).  Both store the
  heap in cells \<open>1 \<dots> n - 1\<close> of an array and restore it by moving a hole up or down.  The
  two loops are defined once over the comparisons the code makes; the locale \<open>heap_order\<close>
  says what the comparisons must promise about the order of the keys, and its lemmas are the
  heap invariants both components use.
\<close>

section \<open>The two loops\<close>

function sift_up :: "('a \<Rightarrow> 'a \<Rightarrow> bool) \<Rightarrow> 'a list \<Rightarrow> nat \<Rightarrow> 'a \<Rightarrow> 'a list" where
  "sift_up stop h pos e =
     (if 1 < pos then
        let parentpos = pos div 2; parent = h ! parentpos
        in if stop e parent then h[pos := e] else sift_up stop (h[pos := parent]) parentpos e
      else h[pos := e])"
  by pat_completeness auto
termination
  by (relation "measure (\<lambda>(stop, h, pos, e). pos)") auto

text \<open>The loop down starts at the root; position 0 has no children and is not used.\<close>

definition smaller_child :: "('a \<Rightarrow> 'a \<Rightarrow> bool) \<Rightarrow> 'a list \<Rightarrow> nat \<Rightarrow> nat \<Rightarrow> nat" where
  "smaller_child gt h n pos =
     (if n \<le> 2 * pos + 1 then 2 * pos
      else if gt (h ! (2 * pos)) (h ! (2 * pos + 1)) then 2 * pos + 1 else 2 * pos)"

function sift_down ::
    "('a \<Rightarrow> 'a \<Rightarrow> bool) \<Rightarrow> ('a \<Rightarrow> 'a \<Rightarrow> bool) \<Rightarrow> 'a list \<Rightarrow> nat \<Rightarrow> nat \<Rightarrow> 'a \<Rightarrow> 'a list" where
  "sift_down gt stop h n pos e =
     (if pos = 0 \<or> n \<le> 2 * pos then h[pos := e]
      else let childpos = smaller_child gt h n pos; child = h ! childpos
           in if stop child e then h[pos := e]
              else sift_down gt stop (h[pos := child]) n childpos e)"
  by pat_completeness auto
termination
  by (relation "measure (\<lambda>(gt, stop, h, n, pos, e). n - pos)") (auto simp: smaller_child_def)

declare sift_up.simps [simp del] sift_down.simps [simp del]

section \<open>Heap order and heap contents\<close>

definition heap_ord :: "('a \<Rightarrow> 'k::linorder) \<Rightarrow> 'a list \<Rightarrow> nat \<Rightarrow> bool" where
  "heap_ord key h n \<longleftrightarrow> (\<forall>i. 2 \<le> i \<and> i < n \<longrightarrow> key (h ! (i div 2)) \<le> key (h ! i))"

definition heap_elems :: "'a list \<Rightarrow> nat \<Rightarrow> 'a list" where
  "heap_elems h n = take (n - 1) (drop 1 h)"

lemma length_heap_elems [simp]: "n \<le> length h \<Longrightarrow> length (heap_elems h n) = n - 1"
  by (simp add: heap_elems_def)

lemma nth_heap_elems: "n \<le> length h \<Longrightarrow> j < n - 1 \<Longrightarrow> heap_elems h n ! j = h ! Suc j"
  by (simp add: heap_elems_def)

lemma set_heap_elems:
  assumes "n \<le> length h"
  shows "set (heap_elems h n) = {h ! i |i. 1 \<le> i \<and> i < n}"
proof -
  have "x \<in> set (heap_elems h n) \<longleftrightarrow> (\<exists>j < n - 1. x = h ! Suc j)" for x
    using assms nth_heap_elems [OF assms] by (auto simp: in_set_conv_nth)
  moreover have "(\<exists>j < n - 1. x = h ! Suc j) \<longleftrightarrow> (\<exists>i. x = h ! i \<and> 1 \<le> i \<and> i < n)" for x
  proof
    assume "\<exists>i. x = h ! i \<and> 1 \<le> i \<and> i < n"
    then obtain i where "1 \<le> i" "i < n" "x = h ! i" by blast
    then show "\<exists>j < n - 1. x = h ! Suc j" by (intro exI [of _ "i - 1"]) auto
  qed auto
  ultimately show ?thesis by auto
qed

lemma heap_ord_root:
  assumes "heap_ord key h n" "1 \<le> i" "i < n"
  shows "key (h ! 1) \<le> key (h ! i)"
  using assms(2,3)
proof (induction i rule: less_induct)
  case (less i)
  show ?case
  proof (cases "i = 1")
    case False
    with less.prems have "key (h ! 1) \<le> key (h ! (i div 2))" by (intro less.IH) auto
    also have "\<dots> \<le> key (h ! i)" using assms(1) less.prems False by (auto simp: heap_ord_def)
    finally show ?thesis .
  qed simp
qed

lemma heap_ord_root_min:
  assumes "heap_ord key h n" "n \<le> length h" "x \<in> set (heap_elems h n)"
  shows "key (h ! 1) \<le> key x"
  using assms heap_ord_root [OF assms(1)] by (auto simp: set_heap_elems)

lemma heap_ord_cong:
  assumes "\<And>i. 1 \<le> i \<Longrightarrow> i < n \<Longrightarrow> key (h ! i) = key' (h' ! i)"
  shows "heap_ord key h n = heap_ord key' h' n"
proof -
  have "key (h ! (i div 2)) = key' (h' ! (i div 2))" if "2 \<le> i" "i < n" for i
    using that by (intro assms) auto
  then show ?thesis using assms by (auto simp: heap_ord_def)
qed

section \<open>What the loops move\<close>

lemma length_sift_up [simp]: "length (sift_up stop h pos e) = length h"
  by (induction stop h pos e rule: sift_up.induct) (subst sift_up.simps, simp add: Let_def)

lemma length_sift_down [simp]: "length (sift_down gt stop h n pos e) = length h"
  by (induction gt stop h n pos e rule: sift_down.induct)
     (subst sift_down.simps, simp add: Let_def)

lemma mset_hole_move:
  assumes "i < length h" "j < length h" "i \<noteq> j"
  shows "mset (h[i := h ! j, j := e]) = mset (h[i := e])"
proof -
  have "h[i := h ! j, j := e] = (h[i := e])[i := (h[i := e]) ! j, j := (h[i := e]) ! i]"
    using assms by (simp add: list_update_swap)
  then show ?thesis using assms mset_swap [of j "h[i := e]" i] by (simp add: list_update_swap)
qed

lemma mset_sift_up:
  "1 \<le> pos \<Longrightarrow> pos < length h \<Longrightarrow> mset (sift_up stop h pos e) = mset (h[pos := e])"
proof (induction stop h pos e rule: sift_up.induct)
  case (1 stop h pos e)
  show ?case
  proof (cases "1 < pos \<and> \<not> stop e (h ! (pos div 2))")
    case True
    then have "sift_up stop h pos e = sift_up stop (h[pos := h ! (pos div 2)]) (pos div 2) e"
      by (subst sift_up.simps) (simp add: Let_def)
    moreover have "mset (sift_up stop (h[pos := h ! (pos div 2)]) (pos div 2) e) =
        mset (h[pos := h ! (pos div 2), pos div 2 := e])"
      using True "1.prems" by (intro "1.IH" [OF _ refl refl]) auto
    ultimately show ?thesis
      using True "1.prems" mset_hole_move [of pos h "pos div 2" e] by simp
  next
    case False
    then show ?thesis by (subst sift_up.simps) (auto simp: Let_def)
  qed
qed

lemma sift_up_beyond:
  "1 \<le> pos \<Longrightarrow> pos < j \<Longrightarrow> sift_up stop h pos e ! j = h ! j"
proof (induction stop h pos e rule: sift_up.induct)
  case (1 stop h pos e)
  have "pos div 2 < j" using "1.prems" by simp
  with 1 show ?case by (subst sift_up.simps) (auto simp: Let_def)
qed

lemma sift_up_zero: "1 \<le> pos \<Longrightarrow> sift_up stop h pos e ! 0 = h ! 0"
proof (induction stop h pos e rule: sift_up.induct)
  case (1 stop h pos e)
  then show ?case by (subst sift_up.simps) (auto simp: Let_def)
qed

lemma smaller_child_bounds:
  "pos \<noteq> 0 \<Longrightarrow> 2 * pos < n \<Longrightarrow>
   pos < smaller_child gt h n pos \<and> smaller_child gt h n pos < n
   \<and> smaller_child gt h n pos div 2 = pos"
  by (auto simp: smaller_child_def)

lemma mset_sift_down:
  "1 \<le> pos \<Longrightarrow> pos < length h \<Longrightarrow> n \<le> length h \<Longrightarrow>
   mset (sift_down gt stop h n pos e) = mset (h[pos := e])"
proof (induction gt stop h n pos e rule: sift_down.induct)
  case (1 gt stop h n pos e)
  let ?c = "smaller_child gt h n pos"
  show ?case
  proof (cases "2 * pos < n \<and> \<not> stop (h ! ?c) e")
    case True
    with "1.prems" have c: "pos < ?c" "?c < n" using smaller_child_bounds [of pos n gt h] by auto
    have "sift_down gt stop h n pos e = sift_down gt stop (h[pos := h ! ?c]) n ?c e"
      using True "1.prems" by (subst sift_down.simps) (simp add: Let_def)
    moreover have "mset (sift_down gt stop (h[pos := h ! ?c]) n ?c e) = mset (h[pos := h ! ?c, ?c := e])"
      using True "1.prems" c by (intro "1.IH" [OF _ refl refl]) auto
    ultimately show ?thesis using "1.prems" c mset_hole_move [of pos h ?c e] by simp
  next
    case False
    then show ?thesis by (subst sift_down.simps) (auto simp: Let_def)
  qed
qed

lemma sift_down_beyond:
  "1 \<le> pos \<Longrightarrow> pos \<noteq> j \<Longrightarrow> j = 0 \<or> n \<le> j \<Longrightarrow> sift_down gt stop h n pos e ! j = h ! j"
proof (induction gt stop h n pos e rule: sift_down.induct)
  case (1 gt stop h n pos e)
  let ?c = "smaller_child gt h n pos"
  show ?case
  proof (cases "2 * pos < n \<and> \<not> stop (h ! ?c) e")
    case True
    with "1.prems" have c: "pos < ?c" "?c < n" using smaller_child_bounds [of pos n gt h] by auto
    have "sift_down gt stop h n pos e = sift_down gt stop (h[pos := h ! ?c]) n ?c e"
      using True "1.prems" by (subst sift_down.simps) (simp add: Let_def)
    moreover have "sift_down gt stop (h[pos := h ! ?c]) n ?c e ! j = h[pos := h ! ?c] ! j"
      using True "1.prems" c by (intro "1.IH" [OF _ refl refl]) auto
    ultimately show ?thesis using "1.prems" by simp
  next
    case False
    then show ?thesis using "1.prems" by (subst sift_down.simps) (auto simp: Let_def)
  qed
qed

lemma sift_down_upd:
  "1 \<le> pos \<Longrightarrow> pos < n \<Longrightarrow> n \<le> j \<Longrightarrow>
   sift_down gt stop (h[j := x]) n pos e = (sift_down gt stop h n pos e)[j := x]"
proof (induction gt stop h n pos e rule: sift_down.induct)
  case (1 gt stop h n pos e)
  let ?c = "smaller_child gt h n pos"
  have c: "smaller_child gt (h[j := x]) n pos = ?c" using "1.prems" by (simp add: smaller_child_def)
  show ?case
  proof (cases "2 * pos < n \<and> \<not> stop (h ! ?c) e")
    case True
    with "1.prems" have b: "pos < ?c" "?c < n" using smaller_child_bounds [of pos n gt h] by auto
    have "sift_down gt stop (h[j := x]) n pos e = sift_down gt stop ((h[pos := h ! ?c])[j := x]) n ?c e"
      using True "1.prems" b c by (subst sift_down.simps) (simp add: Let_def list_update_swap)
    also have "\<dots> = (sift_down gt stop (h[pos := h ! ?c]) n ?c e)[j := x]"
      using True "1.prems" b by (intro "1.IH" [OF _ refl refl]) auto
    finally show ?thesis using True "1.prems" by (subst (2) sift_down.simps) (simp add: Let_def)
  next
    case False
    have swap: "h[j := x, pos := e] = h[pos := e, j := x]" using "1.prems" by (simp add: list_update_swap)
    show ?thesis
    proof (cases "2 * pos < n")
      case True
      then have b: "?c < n" "stop (h ! ?c) e" using False "1.prems" smaller_child_bounds [of pos n gt h] by auto
      then show ?thesis using True "1.prems" c swap by (simp add: sift_down.simps [of gt stop _ n pos e] Let_def)
    next
      case False
      then show ?thesis using swap by (simp add: sift_down.simps [of gt stop _ n pos e])
    qed
  qed
qed

lemma heap_elems_upd: "n \<le> j \<Longrightarrow> 1 \<le> n \<Longrightarrow> heap_elems (h[j := x]) n = heap_elems h n"
  by (simp add: heap_elems_def drop_update_swap take_update_cancel)

text \<open>Equal arrays outside a window and equal as multisets: equal as multisets in the window.\<close>

lemma list_split3: "n \<le> length h \<Longrightarrow> 1 \<le> n \<Longrightarrow> h = h ! 0 # heap_elems h n @ drop n h"
  by (cases h) (auto simp: heap_elems_def take_drop [symmetric] drop_Cons' append_take_drop_id)

lemma mset_heap_elems_eq:
  assumes "length g = length h" "1 \<le> n" "n \<le> length h" "mset g = mset h" "g ! 0 = h ! 0"
    and "\<And>j. n \<le> j \<Longrightarrow> j < length h \<Longrightarrow> g ! j = h ! j"
  shows "mset (heap_elems g n) = mset (heap_elems h n)"
proof -
  have "drop n g = drop n h" using assms by (intro nth_equalityI) auto
  moreover have "mset (g ! 0 # heap_elems g n @ drop n g) = mset (h ! 0 # heap_elems h n @ drop n h)"
    using assms list_split3 [of n g] list_split3 [of n h] by simp
  ultimately show ?thesis using assms(5) by simp
qed

lemma heap_elems_snoc:
  assumes "1 \<le> n" "n < length h"
  shows "heap_elems (h[n := e]) (Suc n) = heap_elems h n @ [e]"
proof -
  have "Suc n - 1 = Suc (n - 1)" "n - 1 < length (drop 1 h)" using assms by auto
  moreover have "drop 1 (h[n := e]) = (drop 1 h)[n - 1 := e]"
    using assms by (simp add: drop_update_swap)
  ultimately show ?thesis
    unfolding heap_elems_def by (simp only: take_Suc_update)
qed

section \<open>The order contract\<close>

text \<open>
  \<open>gt\<close> chooses between two children, \<open>stop_up\<close> ends the way up and \<open>stop_down\<close> the way down.
  Each must agree with the order of the keys; ties may go either way.
\<close>

locale heap_order =
  fixes key :: "'a \<Rightarrow> 'k::linorder"
    and gt stop_up stop_down :: "'a \<Rightarrow> 'a \<Rightarrow> bool"
  assumes gt_yes: "gt a b \<Longrightarrow> key b \<le> key a"
    and gt_no: "\<not> gt a b \<Longrightarrow> key a \<le> key b"
    and up_yes: "stop_up e p \<Longrightarrow> key p \<le> key e"
    and up_no: "\<not> stop_up e p \<Longrightarrow> key e \<le> key p"
    and down_yes: "stop_down c e \<Longrightarrow> key e \<le> key c"
    and down_no: "\<not> stop_down c e \<Longrightarrow> key c \<le> key e"
begin

lemma sift_up_step:
  assumes "1 \<le> pos" "pos < n" "n \<le> length h"
    and "\<And>i. 2 \<le> i \<Longrightarrow> i < n \<Longrightarrow> i \<noteq> pos \<Longrightarrow>
           key (h[pos := e] ! (i div 2)) \<le> key (h[pos := e] ! i)"
    and "\<And>i. i < n \<Longrightarrow> i div 2 = pos \<Longrightarrow> 1 < pos \<Longrightarrow> key (h ! (pos div 2)) \<le> key (h ! i)"
  shows "heap_ord key (sift_up stop_up h pos e) n"
  using assms
proof (induction pos arbitrary: h rule: less_induct)
  case (less pos)
  note old = less.prems(4) and grand = less.prems(5)
  let ?p = "pos div 2"
  show ?case
  proof (cases "1 < pos \<and> \<not> stop_up e (h ! ?p)")
    case True
    have p: "1 \<le> ?p" "?p < pos" "?p < length h" "pos < length h" using True less.prems by auto
    have le: "key e \<le> key (h ! ?p)" using True by (auto intro: up_no)
    have ord: "key (h[pos := h ! ?p, ?p := e] ! (i div 2)) \<le> key (h[pos := h ! ?p, ?p := e] ! i)"
      if i: "2 \<le> i" "i < n" "i \<noteq> ?p" for i
    proof (cases "i = pos")
      case True
      then show ?thesis using p le by (simp add: nth_list_update)
    next
      case False
      then have o: "key (h[pos := e] ! (i div 2)) \<le> key (h[pos := e] ! i)" using old i by blast
      consider "i div 2 = pos" | "i div 2 = ?p" "i div 2 \<noteq> pos" | "i div 2 \<noteq> pos" "i div 2 \<noteq> ?p"
        by blast
      then show ?thesis
      proof cases
        case 1
        then show ?thesis using p False i grand [of i] True by (simp add: nth_list_update)
      next
        case 2
        then have "key (h ! ?p) \<le> key (h ! i)" using o p False by (simp add: nth_list_update)
        then have "key e \<le> key (h ! i)" using le by (rule order_trans [rotated])
        then show ?thesis using 2 p False i by (simp add: nth_list_update)
      next
        case 3
        then show ?thesis using o p False i by (simp add: nth_list_update)
      qed
    qed
    have grand': "key (h[pos := h ! ?p] ! (?p div 2)) \<le> key (h[pos := h ! ?p] ! i)"
      if i: "i < n" "i div 2 = ?p" "1 < ?p" for i
    proof -
      have 1: "key (h ! (?p div 2)) \<le> key (h ! ?p)"
        using i p old [of ?p] less.prems(1-3) by (simp add: nth_list_update)
      show ?thesis
      proof (cases "i = pos")
        case False
        then have "key (h ! ?p) \<le> key (h ! i)"
          using i p old [of i] less.prems(1-3) by (simp add: nth_list_update)
        then show ?thesis using 1 False p by (simp add: nth_list_update)
      qed (use 1 p in \<open>simp add: nth_list_update\<close>)
    qed
    have "heap_ord key (sift_up stop_up (h[pos := h ! ?p]) ?p e) n"
      using less.prems(1-3) p ord grand' by (intro less.IH) auto
    then show ?thesis using True by (subst sift_up.simps) (simp add: Let_def)
  next
    case False
    have "key (h[pos := e] ! (i div 2)) \<le> key (h[pos := e] ! i)" if i: "2 \<le> i" "i < n" for i
    proof (cases "i = pos")
      case True
      with i False have "stop_up e (h ! ?p)" by auto
      then show ?thesis using True i less.prems(1-3) up_yes [of e "h ! ?p"]
        by (simp add: nth_list_update)
    qed (use i old in auto)
    then have "heap_ord key (h[pos := e]) n" by (simp add: heap_ord_def)
    then show ?thesis using False by (subst sift_up.simps) (auto simp: Let_def)
  qed
qed

lemma sift_up_ord:
  assumes "heap_ord key h n" "1 \<le> n" "n < length h"
  shows "heap_ord key (sift_up stop_up h n e) (Suc n)"
  using assms by (intro sift_up_step) (auto simp: heap_ord_def nth_list_update)

lemma sift_up_elems:
  assumes "1 \<le> n" "n < length h"
  shows "mset (heap_elems (sift_up stop_up h n e) (Suc n)) = add_mset e (mset (heap_elems h n))"
proof -
  have "mset (heap_elems (sift_up stop_up h n e) (Suc n)) = mset (heap_elems (h[n := e]) (Suc n))"
    using assms by (intro mset_heap_elems_eq) (auto simp: mset_sift_up sift_up_zero sift_up_beyond)
  then show ?thesis using assms by (simp add: heap_elems_snoc)
qed

lemma smaller_child_min:
  assumes "pos \<noteq> 0" "i < n" "i div 2 = pos"
  shows "key (h ! smaller_child gt h n pos) \<le> key (h ! i)"
proof -
  have "i = 2 * pos \<or> i = 2 * pos + 1" using assms(3) by auto
  then show ?thesis
    using assms gt_yes [of "h ! (2 * pos)" "h ! (2 * pos + 1)"]
      gt_no [of "h ! (2 * pos)" "h ! (2 * pos + 1)"]
    by (auto simp: smaller_child_def)
qed

lemma sift_down_step:
  assumes "1 \<le> pos" "pos < n" "n \<le> length h"
    and "\<And>i. 2 \<le> i \<Longrightarrow> i < n \<Longrightarrow> i div 2 \<noteq> pos \<Longrightarrow>
           key (h[pos := e] ! (i div 2)) \<le> key (h[pos := e] ! i)"
    and "\<And>i. i < n \<Longrightarrow> i div 2 = pos \<Longrightarrow> 1 < pos \<Longrightarrow> key (h ! (pos div 2)) \<le> key (h ! i)"
  shows "heap_ord key (sift_down gt stop_down h n pos e) n"
  using assms
proof (induction "n - pos" arbitrary: h pos rule: less_induct)
  case less
  note old = less.prems(4) and grand = less.prems(5)
  let ?c = "smaller_child gt h n pos"
  show ?case
  proof (cases "2 * pos < n \<and> \<not> stop_down (h ! ?c) e")
    case True
    have c: "pos < ?c" "?c < n" "?c div 2 = pos" "?c < length h" "pos < length h"
      using True less.prems(1-3) smaller_child_bounds [of pos n gt h] by auto
    have le: "key (h ! ?c) \<le> key e" using True by (auto intro: down_no)
    have ord: "key (h[pos := h ! ?c, ?c := e] ! (i div 2)) \<le> key (h[pos := h ! ?c, ?c := e] ! i)"
      if i: "2 \<le> i" "i < n" "i div 2 \<noteq> ?c" for i
    proof -
      consider "i = ?c" | "i \<noteq> ?c" "i div 2 = pos" | "i = pos" | "i \<noteq> pos" "i \<noteq> ?c" "i div 2 \<noteq> pos"
        by blast
      then show ?thesis
      proof cases
        case 1
        then show ?thesis using c le by (simp add: nth_list_update)
      next
        case 2
        then have "i \<noteq> pos" "key (h ! ?c) \<le> key (h ! i)"
          using i less.prems(1-3) by (auto intro: smaller_child_min)
        then show ?thesis using 2 c i by (simp add: nth_list_update)
      next
        case 3
        then have "key (h ! (pos div 2)) \<le> key (h ! ?c)" using i c by (intro grand) auto
        moreover have "pos div 2 \<noteq> pos" using less.prems(1) by simp
        ultimately show ?thesis using 3 c i by (simp add: nth_list_update)
      next
        case 4
        then show ?thesis using c i old [of i] by (simp add: nth_list_update)
      qed
    qed
    have grand': "key (h[pos := h ! ?c] ! (?c div 2)) \<le> key (h[pos := h ! ?c] ! i)"
      if i: "i < n" "i div 2 = ?c" for i
    proof -
      have "2 \<le> i" "i \<noteq> pos" using i c less.prems(1) by auto
      then show ?thesis using i c old [of i] by (simp add: nth_list_update)
    qed
    have "heap_ord key (sift_down gt stop_down (h[pos := h ! ?c]) n ?c e) n"
      using less.prems(1-3) c ord grand' by (intro less.hyps) auto
    then show ?thesis using True less.prems(1) by (subst sift_down.simps) (simp add: Let_def)
  next
    case False
    have "key (h[pos := e] ! (i div 2)) \<le> key (h[pos := e] ! i)" if i: "2 \<le> i" "i < n" for i
    proof (cases "i div 2 = pos")
      case True
      then have ip: "2 * pos < n" "i \<noteq> pos" using i by auto
      with False have "key e \<le> key (h ! ?c)" by (auto intro: down_yes)
      also have "\<dots> \<le> key (h ! i)" using True i less.prems(1) by (intro smaller_child_min) auto
      finally show ?thesis using True i less.prems(1-3) ip by (simp add: nth_list_update)
    qed (use i old in auto)
    then have "heap_ord key (h[pos := e]) n" by (simp add: heap_ord_def)
    then show ?thesis using False by (subst sift_down.simps) (auto simp: Let_def)
  qed
qed

lemma sift_down_ord:
  assumes "heap_ord key h n" "n \<le> length h"
  shows "heap_ord key (sift_down gt stop_down h n 1 e) n"
proof (cases "1 < n")
  case True
  then show ?thesis using assms
    by (intro sift_down_step) (auto simp: heap_ord_def nth_list_update)
qed (auto simp: heap_ord_def)

lemma sift_down_elems:
  assumes "1 \<le> n" "n < length h"
  shows "mset (heap_elems (sift_down gt stop_down h n 1 (h ! n)) n) =
         mset (heap_elems h (Suc n)) - {# h ! 1 #}"
proof (cases "n = 1")
  case True
  then show ?thesis using heap_elems_snoc [of 1 h "h ! 1"] assms by (simp add: heap_elems_def)
next
  case False
  have "mset (heap_elems (sift_down gt stop_down h n 1 (h ! n)) n)
      = mset (heap_elems (h[1 := h ! n]) n)"
    using assms False by (intro mset_heap_elems_eq) (auto simp: mset_sift_down sift_down_beyond)
  moreover have "heap_elems (h[1 := h ! n]) n = (heap_elems h n)[0 := h ! n]"
    by (simp add: heap_elems_def drop_update_swap take_update_swap)
  moreover have "heap_elems h (Suc n) = heap_elems h n @ [h ! n]"
    using heap_elems_snoc [of n h "h ! n"] assms by simp
  moreover have "heap_elems h n ! 0 = h ! 1" "0 < length (heap_elems h n)"
    using assms False by (auto simp: heap_elems_def)
  moreover from this have "h ! 1 \<in># mset (heap_elems h n)" by (metis nth_mem set_mset_mset)
  ultimately show ?thesis by (simp add: mset_update)
qed

end

end
