(* ===== verification/Prioq.thy ===== *)
theory Prioq
  imports Deq Prio Binheap
begin

text \<open>
  The priority queue of \<^verbatim>\<open>conv-core/queueing.C\<close> (\<^verbatim>\<open>struct prioq_struct\<close>): one bucket per
  priority, each bucket a deque of messages.  The buckets hang in two structures at once: a
  binary heap ordered by priority and a hash table whose chains are doubly linked (\<^verbatim>\<open>ht_next\<close>
  and \<^verbatim>\<open>ht_handle\<close>, the address of the pointer that points to the bucket).  The pointers are
  kept: \<open>elts\<close> is the memory of allocated buckets and \<open>fresh\<close> the next address
  \<^verbatim>\<open>malloc\<close> returns; freeing a bucket removes it from \<open>elts\<close>, so a dangling pointer shows.
\<close>

section \<open>State\<close>

text \<open>A handle is the address of a pointer: a slot of the table or the link of a bucket.\<close>

datatype handle = Slot nat | NextOf ptr

record prioqelt =
  edata :: deq
  ht_next :: ptr
  ht_handle :: handle
  epri :: prio

type_synonym eltmem = "ptr \<Rightarrow> prioqelt option"

record prioq =
  heapsize :: nat
  heapnext :: nat
  heap :: "ptr list"
  hashtab :: "ptr list"
  hash_key_size :: nat
  hash_entry_size :: nat
  elts :: eltmem
  fresh :: ptr

definition PRIOQ_TABSIZE :: nat where "PRIOQ_TABSIZE = 1017"

definition upd_elt :: "eltmem \<Rightarrow> ptr \<Rightarrow> (prioqelt \<Rightarrow> prioqelt) \<Rightarrow> eltmem" where
  "upd_elt m p f = m(p := map_option f (m p))"

definition elt_pri :: "eltmem \<Rightarrow> ptr \<Rightarrow> prio" where
  "elt_pri m p = epri (the (m p))"

definition elt_gt :: "eltmem \<Rightarrow> ptr \<Rightarrow> ptr \<Rightarrow> bool" where
  "elt_gt m p q = CqsPrioGT (elt_pri m p) (elt_pri m q)"

section \<open>Operations\<close>

definition CqsPrioqInit :: prioq where
  "CqsPrioqInit =
     \<lparr>heapsize = 100, heapnext = 1, heap = replicate 100 NULL,
      hashtab = replicate PRIOQ_TABSIZE NULL, hash_key_size = PRIOQ_TABSIZE,
      hash_entry_size = 0, elts = Map.empty, fresh = 1\<rparr>"

definition CqsPrioqExpand :: "prioq \<Rightarrow> prioq" where
  "CqsPrioqExpand pq =
     (let oldsize = heapsize pq; newsize = oldsize * 2
      in pq\<lparr>heap := take oldsize (heap pq) @ replicate (newsize - oldsize) NULL,
            heapsize := newsize\<rparr>)"

text \<open>
  The inner loop of \<^verbatim>\<open>CqsPrioqRehash\<close> moves one chain of the old table, bucket by bucket,
  to the front of the chains of the new table.
\<close>

partial_function (option) rehash_chain ::
    "eltmem \<Rightarrow> ptr list \<Rightarrow> nat \<Rightarrow> ptr \<Rightarrow> (eltmem \<times> ptr list) option" where
  "rehash_chain m nhashtab newHsize pe =
     (if pe = NULL then Some (m, nhashtab)
      else (case m pe of
          None \<Rightarrow> None
        | Some e \<Rightarrow>
            (let pe2 = ht_next e;
                 hashval = prio_slot (ucast (pbits (epri e)))
                   (take (unat (pints (epri e))) (pdata (epri e))) newHsize;
                 pe1 = nhashtab ! hashval;
                 m1 = m(pe \<mapsto> e\<lparr>ht_next := pe1, ht_handle := Slot hashval\<rparr>);
                 m2 = (if pe1 = NULL then m1 else upd_elt m1 pe1 (\<lambda>x. x\<lparr>ht_handle := NextOf pe\<rparr>))
             in rehash_chain m2 (nhashtab[hashval := pe]) newHsize pe2)))"

fun rehash_slots :: "eltmem \<Rightarrow> ptr list \<Rightarrow> nat \<Rightarrow> ptr list \<Rightarrow> (eltmem \<times> ptr list) option" where
  "rehash_slots m nhashtab newHsize [] = Some (m, nhashtab)"
| "rehash_slots m nhashtab newHsize (pe # ohashtab) =
     (case rehash_chain m nhashtab newHsize pe of
        None \<Rightarrow> None
      | Some (m', nhashtab') \<Rightarrow> rehash_slots m' nhashtab' newHsize ohashtab)"

definition CqsPrioqRehash :: "prioq \<Rightarrow> prioq option" where
  "CqsPrioqRehash pq =
     (let newHsize = hash_key_size pq * 2
      in case rehash_slots (elts pq) (replicate newHsize NULL) newHsize
                (take (hash_key_size pq) (hashtab pq)) of
           None \<Rightarrow> None
         | Some (m, nhashtab) \<Rightarrow>
             Some (pq\<lparr>elts := m, hashtab := nhashtab, hash_key_size := newHsize\<rparr>))"

text \<open>The scan of a hash chain: \<^verbatim>\<open>NULL\<close> when no bucket of the chain has the priority.\<close>

partial_function (option) find_chain :: "eltmem \<Rightarrow> u32 \<Rightarrow> u32 list \<Rightarrow> ptr \<Rightarrow> ptr option" where
  "find_chain m priobits priodata pe =
     (if pe = NULL then Some NULL
      else (case m pe of
          None \<Rightarrow> None
        | Some e \<Rightarrow>
            (if priobits = ucast (pbits (epri e)) \<and>
                take (prio_ints priobits) priodata = take (prio_ints priobits) (pdata (epri e))
             then Some pe
             else find_chain m priobits priodata (ht_next e))))"

definition new_elt :: "u32 \<Rightarrow> u32 list \<Rightarrow> ptr \<Rightarrow> nat \<Rightarrow> prioqelt" where
  "new_elt priobits priodata next_elt hashval =
     \<lparr>edata = CqsDeqInit, ht_next = next_elt, ht_handle = Slot hashval,
      epri = \<lparr>pbits = ucast priobits, pints = of_nat (prio_ints priobits),
             pdata = take (prio_ints priobits) priodata\<rparr>\<rparr>"

text \<open>Allocate a bucket and put it at the front of its chain.\<close>

definition hash_insert :: "prioq \<Rightarrow> u32 \<Rightarrow> u32 list \<Rightarrow> nat \<Rightarrow> prioq" where
  "hash_insert pq priobits priodata hashval =
     (let pe = fresh pq;
          next_elt = hashtab pq ! hashval;
          m = (elts pq)(pe \<mapsto> new_elt priobits priodata next_elt hashval);
          m' = (if next_elt = NULL then m
                else upd_elt m next_elt (\<lambda>x. x\<lparr>ht_handle := NextOf pe\<rparr>))
      in pq\<lparr>elts := m', fresh := fresh pq + 1, hashtab := (hashtab pq)[hashval := pe],
            hash_entry_size := hash_entry_size pq + 1\<rparr>)"

definition heap_insert :: "prioq \<Rightarrow> ptr \<Rightarrow> prioq" where
  "heap_insert pq pe =
     (let heappos = heapnext pq;
          pq1 = pq\<lparr>heapnext := heappos + 1\<rparr>;
          pq2 = (if heappos = heapsize pq1 then CqsPrioqExpand pq1 else pq1)
      in pq2\<lparr>heap := sift_up (elt_gt (elts pq2)) (heap pq2) heappos pe\<rparr>)"

definition CqsPrioqGetDeq :: "prioq \<Rightarrow> u32 \<Rightarrow> u32 list \<Rightarrow> (prioq \<times> ptr) option" where
  "CqsPrioqGetDeq pq priobits priodata =
     (let hashval = prio_slot priobits (take (prio_ints priobits) priodata) PRIOQ_TABSIZE
      in case find_chain (elts pq) priobits priodata (hashtab pq ! hashval) of
           None \<Rightarrow> None
         | Some pe \<Rightarrow>
             if pe \<noteq> NULL then Some (pq, pe)
             else let pe = fresh pq;
                      pq1 = hash_insert pq priobits priodata hashval
                  in case (if hash_entry_size pq1 > 2 * hash_key_size pq1
                           then CqsPrioqRehash pq1 else Some pq1) of
                       None \<Rightarrow> None
                     | Some pq2 \<Rightarrow> Some (heap_insert pq2 pe, pe))"

text \<open>
  The pair of calls every prioritised enqueue makes: get the bucket of the priority and
  insert the message at one of its ends.
\<close>

definition prioq_enqueue :: "bool \<Rightarrow> prioq \<Rightarrow> u32 \<Rightarrow> u32 list \<Rightarrow> ptr \<Rightarrow> prioq option" where
  "prioq_enqueue fifo pq priobits priodata msg =
     (case CqsPrioqGetDeq pq priobits priodata of
        None \<Rightarrow> None
      | Some (pq', d) \<Rightarrow>
          Some (pq'\<lparr>elts := upd_elt (elts pq') d (\<lambda>x. x\<lparr>edata :=
            (if fifo then CqsDeqEnqueueFifo (edata x) msg
             else CqsDeqEnqueueLifo (edata x) msg)\<rparr>)\<rparr>))"

text \<open>Store \<open>q\<close> through a handle.\<close>

definition store_handle :: "prioq \<Rightarrow> handle \<Rightarrow> ptr \<Rightarrow> prioq" where
  "store_handle pq h q =
     (case h of
        Slot i \<Rightarrow> pq\<lparr>hashtab := (hashtab pq)[i := q]\<rparr>
      | NextOf p \<Rightarrow> pq\<lparr>elts := upd_elt (elts pq) p (\<lambda>x. x\<lparr>ht_next := q\<rparr>)\<rparr>)"

definition hash_unlink :: "prioq \<Rightarrow> ptr \<Rightarrow> prioq" where
  "hash_unlink pq pe =
     (let e = the (elts pq pe);
          next_elt = ht_next e;
          hd = ht_handle e;
          pq1 = (if next_elt = NULL then pq
                 else pq\<lparr>elts := upd_elt (elts pq) next_elt (\<lambda>x. x\<lparr>ht_handle := hd\<rparr>)\<rparr>)
      in store_handle pq1 hd next_elt)"

definition CqsPrioqDequeue :: "prioq \<Rightarrow> ptr \<times> prioq" where
  "CqsPrioqDequeue pq =
     (if heapnext pq = 1 then (NULL, pq)
      else let pe = heap pq ! 1;
               (data, d) = CqsDeqDequeue (edata (the (elts pq pe)));
               pq1 = pq\<lparr>elts := upd_elt (elts pq) pe (\<lambda>x. x\<lparr>edata := d\<rparr>)\<rparr>
           in if deq_empty d
              then let pq2 = hash_unlink pq1 pe;
                       n = heapnext pq2 - 1;
                       h = sift_down (elt_gt (elts pq2)) (elt_gt (elts pq2)) (heap pq2) n 1
                             (heap pq2 ! n)
                   in (data, pq2\<lparr>hash_entry_size := hash_entry_size pq2 - 1, heapnext := n,
                                 heap := h, elts := (elts pq2)(pe := None)\<rparr>)
              else (data, pq1))"

section \<open>Hash chains\<close>

fun chain :: "eltmem \<Rightarrow> ptr \<Rightarrow> handle \<Rightarrow> ptr list \<Rightarrow> bool" where
  "chain m p h [] \<longleftrightarrow> p = NULL"
| "chain m p h (b # bs) \<longleftrightarrow>
     p = b \<and> b \<noteq> NULL \<and>
     (\<exists>e. m b = Some e \<and> ht_handle e = h \<and> chain m (ht_next e) (NextOf b) bs)"

fun path :: "eltmem \<Rightarrow> ptr \<Rightarrow> ptr list \<Rightarrow> bool" where
  "path m p [] \<longleftrightarrow> p = NULL"
| "path m p (b # bs) \<longleftrightarrow> p = b \<and> b \<noteq> NULL \<and> (\<exists>e. m b = Some e \<and> path m (ht_next e) bs)"

lemma chain_path: "chain m p h bs \<Longrightarrow> path m p bs"
  by (induction m p h bs rule: chain.induct) auto

lemma chain_dom: "chain m p h bs \<Longrightarrow> set bs \<subseteq> dom m"
  by (induction m p h bs rule: chain.induct) auto

lemma chain_nonnull: "chain m p h bs \<Longrightarrow> NULL \<notin> set bs"
  by (induction m p h bs rule: chain.induct) auto

lemma chain_head: "chain m p h bs \<Longrightarrow> p = (if bs = [] then NULL else hd bs)"
  by (cases bs) auto

text \<open>Two memories agree on the links of a set of buckets.\<close>

definition same_links :: "eltmem \<Rightarrow> eltmem \<Rightarrow> ptr set \<Rightarrow> bool" where
  "same_links m m' S \<longleftrightarrow>
     (\<forall>b \<in> S. map_option (\<lambda>e. (ht_next e, ht_handle e)) (m b)
            = map_option (\<lambda>e. (ht_next e, ht_handle e)) (m' b))"

lemma chain_cong: "same_links m m' (set bs) \<Longrightarrow> chain m p h bs = chain m' p h bs"
proof (induction bs arbitrary: p h)
  case (Cons b bs)
  then have "map_option (\<lambda>e. (ht_next e, ht_handle e)) (m b)
      = map_option (\<lambda>e. (ht_next e, ht_handle e)) (m' b)"
    and "same_links m m' (set bs)" by (auto simp: same_links_def)
  with Cons.IH show ?case by (auto simp: map_option_case split: option.splits)
qed simp

definition same_next :: "eltmem \<Rightarrow> eltmem \<Rightarrow> ptr set \<Rightarrow> bool" where
  "same_next m m' S \<longleftrightarrow> (\<forall>b \<in> S. map_option ht_next (m b) = map_option ht_next (m' b))"

lemma path_cong: "same_next m m' (set bs) \<Longrightarrow> path m p bs = path m' p bs"
proof (induction bs arbitrary: p)
  case (Cons b bs)
  then have "map_option ht_next (m b) = map_option ht_next (m' b)" and "same_next m m' (set bs)"
    by (auto simp: same_next_def)
  with Cons.IH show ?case by (auto simp: map_option_case split: option.splits)
qed simp

fun cseg :: "eltmem \<Rightarrow> ptr \<Rightarrow> handle \<Rightarrow> ptr list \<Rightarrow> ptr \<Rightarrow> bool" where
  "cseg m p h [] q \<longleftrightarrow> p = q"
| "cseg m p h (b # bs) q \<longleftrightarrow>
     p = b \<and> b \<noteq> NULL \<and>
     (\<exists>e. m b = Some e \<and> ht_handle e = h \<and> cseg m (ht_next e) (NextOf b) bs q)"

definition last_handle :: "handle \<Rightarrow> ptr list \<Rightarrow> handle" where
  "last_handle h xs = (if xs = [] then h else NextOf (last xs))"

lemma last_handle_simps [simp]:
  "last_handle h [] = h" "last_handle h (xs @ [a]) = NextOf a"
  "last_handle (NextOf b) xs = last_handle h (b # xs)"
  by (simp_all add: last_handle_def)

lemma cseg_cong: "same_links m m' (set bs) \<Longrightarrow> cseg m p h bs q = cseg m' p h bs q"
proof (induction bs arbitrary: p h)
  case (Cons b bs)
  then have "map_option (\<lambda>e. (ht_next e, ht_handle e)) (m b)
      = map_option (\<lambda>e. (ht_next e, ht_handle e)) (m' b)"
    and "same_links m m' (set bs)" by (auto simp: same_links_def)
  with Cons.IH show ?case by (auto simp: map_option_case split: option.splits)
qed simp

lemma chain_append:
  "chain m p h (xs @ ys) \<longleftrightarrow> (\<exists>q. cseg m p h xs q \<and> chain m q (last_handle h xs) ys)"
  by (induction xs arbitrary: p h) (auto simp: last_handle_def)

lemma cseg_snoc:
  "cseg m p h (xs @ [a]) q \<longleftrightarrow>
   cseg m p h xs a \<and> a \<noteq> NULL \<and> (\<exists>e. m a = Some e \<and> ht_handle e = last_handle h xs \<and> ht_next e = q)"
  by (induction xs arbitrary: p h) (auto simp: last_handle_def)

lemma same_links_refl [simp]: "same_links m m S"
  by (simp add: same_links_def)

lemma same_links_upd [simp]: "p \<notin> S \<Longrightarrow> same_links m (m'(p := x)) S = same_links m m' S"
  "p \<notin> S \<Longrightarrow> same_links (m'(p := x)) m S = same_links m' m S"
  by (auto simp: same_links_def)

lemma same_links_upd_elt [simp]:
  "p \<notin> S \<Longrightarrow> same_links m (upd_elt m' p f) S = same_links m m' S"
  by (simp add: upd_elt_def)

lemma upd_elt_simps [simp]:
  "upd_elt m p f p = map_option f (m p)"
  "q \<noteq> p \<Longrightarrow> upd_elt m p f q = m q"
  "dom (upd_elt m p f) = dom m"
  by (auto simp: upd_elt_def)

text \<open>The first bucket of a chain gets a new handle, or there is none.\<close>

definition set_first_handle :: "eltmem \<Rightarrow> ptr \<Rightarrow> handle \<Rightarrow> eltmem" where
  "set_first_handle m q h = (if q = NULL then m else upd_elt m q (\<lambda>x. x\<lparr>ht_handle := h\<rparr>))"

lemma chain_rehandle:
  assumes "chain m q h bs" "distinct bs"
  shows "chain (set_first_handle m q h') q h' bs"
proof (cases bs)
  case (Cons b cs)
  with assms have b: "q = b" "b \<notin> set cs" and "\<exists>e. m b = Some e \<and> chain m (ht_next e) (NextOf b) cs"
    "b \<noteq> NULL"
    by auto
  moreover from b have "same_links m (set_first_handle m q h') (set cs)"
    by (simp add: set_first_handle_def)
  ultimately show ?thesis using Cons chain_cong [of m "set_first_handle m q h'" cs]
    by (auto simp: set_first_handle_def)
qed (use assms in \<open>simp add: set_first_handle_def\<close>)

lemma set_first_handle_frame:
  "chain m q h bs \<Longrightarrow> set bs \<inter> S = {} \<Longrightarrow> same_links m (set_first_handle m q h') S"
  by (cases bs) (auto simp: set_first_handle_def)

section \<open>The table of chains\<close>

definition hash_wf :: "eltmem \<Rightarrow> ptr list \<Rightarrow> ptr list list \<Rightarrow> bool" where
  "hash_wf m tab cs \<longleftrightarrow>
     length cs = length tab \<and>
     (\<forall>i < length tab. chain m (tab ! i) (Slot i) (cs ! i) \<and> distinct (cs ! i)) \<and>
     (\<forall>i < length tab. \<forall>j < length tab. i \<noteq> j \<longrightarrow> set (cs ! i) \<inter> set (cs ! j) = {})"

lemma hash_wf_chain:
  assumes "hash_wf m tab cs" "i < length tab"
  shows "chain m (tab ! i) (Slot i) (cs ! i)" "distinct (cs ! i)" "length cs = length tab"
  using assms by (auto simp: hash_wf_def)

definition chains_set :: "ptr list list \<Rightarrow> ptr set" where
  "chains_set cs = (\<Union>i < length cs. set (cs ! i))"

lemma chains_setI: "i < length cs \<Longrightarrow> b \<in> set (cs ! i) \<Longrightarrow> b \<in> chains_set cs"
  by (auto simp: chains_set_def)

lemma chains_set_update:
  "i < length cs \<Longrightarrow> chains_set (cs[i := x]) = set x \<union> (\<Union>j \<in> {..<length cs} - {i}. set (cs ! j))"
  by (auto simp: chains_set_def nth_list_update split: if_splits)

lemma hash_wf_links:
  assumes "hash_wf m tab cs" "same_links m m' (chains_set cs)"
  shows "hash_wf m' tab cs"
proof -
  have "chain m' (tab ! i) (Slot i) (cs ! i)" if "i < length tab" for i
  proof -
    have "set (cs ! i) \<subseteq> chains_set cs"
      using hash_wf_chain(3) [OF assms(1) that] that by (auto intro: chains_setI)
    then have "same_links m m' (set (cs ! i))"
      using assms(2) by (auto simp: same_links_def)
    then show ?thesis using hash_wf_chain(1) [OF assms(1) that] chain_cong by blast
  qed
  then show ?thesis using assms by (simp add: hash_wf_def)
qed

lemma hash_wf_empty: "hash_wf m (replicate n NULL) (replicate n [])"
  by (simp add: hash_wf_def)

lemma hash_wf_replace:
  assumes wf: "hash_wf m tab cs" and s: "s < length tab" and len: "length tab' = length tab"
    and new: "chain m' (tab' ! s) (Slot s) bs" "distinct bs"
    and other: "\<And>i. i < length tab \<Longrightarrow> i \<noteq> s \<Longrightarrow>
      chain m' (tab' ! i) (Slot i) (cs ! i) \<and> set bs \<inter> set (cs ! i) = {}"
  shows "hash_wf m' tab' (cs[s := bs])"
proof -
  have dis: "set (cs ! i) \<inter> set (cs ! j) = {}" if "i < length tab" "j < length tab" "i \<noteq> j" for i j
    using wf that by (simp add: hash_wf_def)
  have "set (cs[s := bs] ! i) \<inter> set (cs[s := bs] ! j) = {}"
    if "i < length tab" "j < length tab" "i \<noteq> j" for i j
    using that dis [OF that] other [of i] other [of j] hash_wf_chain(3) [OF wf s] s
    by (cases "i = s"; cases "j = s") (simp_all add: Int_commute)
  moreover have "chain m' (tab' ! i) (Slot i) (cs[s := bs] ! i) \<and> distinct (cs[s := bs] ! i)"
    if "i < length tab" for i
    using that new other [of i] hash_wf_chain(2,3) [OF wf that] s by (cases "i = s") simp_all
  ultimately show ?thesis using len hash_wf_chain(3) [OF wf s] by (simp add: hash_wf_def)
qed

text \<open>Linking a bucket in front of chain \<open>s\<close>: the step of an insertion and of a rehash.\<close>

definition link_front :: "eltmem \<Rightarrow> ptr list \<Rightarrow> nat \<Rightarrow> ptr \<Rightarrow> prioqelt \<Rightarrow> eltmem" where
  "link_front m tab s pe e =
     set_first_handle (m(pe \<mapsto> e\<lparr>ht_next := tab ! s, ht_handle := Slot s\<rparr>)) (tab ! s) (NextOf pe)"

lemma link_front_wf:
  assumes wf: "hash_wf m tab cs" and s: "s < length tab"
    and pe: "pe \<noteq> NULL" "pe \<notin> chains_set cs"
  shows "hash_wf (link_front m tab s pe e) (tab[s := pe]) (cs[s := pe # cs ! s])"
proof -
  let ?m1 = "m(pe \<mapsto> e\<lparr>ht_next := tab ! s, ht_handle := Slot s\<rparr>)"
  let ?m' = "link_front m tab s pe e"
  have len: "length cs = length tab" using wf by (simp add: hash_wf_def)
  have nin: "pe \<notin> set (cs ! i)" if "i < length tab" for i
    using pe that len by (auto simp: chains_set_def)
  have ch1: "chain ?m1 (tab ! i) (Slot i) (cs ! i)" if "i < length tab" for i
    using hash_wf_chain(1) [OF wf that] nin [OF that] chain_cong [of m ?m1 "cs ! i"] by simp
  have "chain ?m' (tab ! s) (NextOf pe) (cs ! s)"
    unfolding link_front_def using ch1 [OF s] wf s
    by (intro chain_rehandle) (auto simp: hash_wf_def)
  moreover have "tab ! s \<noteq> pe"
    using ch1 [OF s] nin [OF s] pe by (cases "cs ! s") auto
  then have "?m' pe = Some (e\<lparr>ht_next := tab ! s, ht_handle := Slot s\<rparr>)"
    by (simp add: link_front_def set_first_handle_def)
  ultimately have front: "chain ?m' pe (Slot s) (pe # cs ! s)" using pe by simp
  have "chain ?m' (tab ! i) (Slot i) (cs ! i)" if i: "i < length tab" "i \<noteq> s" for i
  proof -
    have "set (cs ! s) \<inter> set (cs ! i) = {}" using wf s i by (simp add: hash_wf_def)
    then have "same_links ?m1 ?m' (set (cs ! i))"
      unfolding link_front_def by (rule set_first_handle_frame [OF ch1 [OF s]])
    then show ?thesis using ch1 [OF i(1)] chain_cong by blast
  qed
  moreover have "set (pe # cs ! s) \<inter> set (cs ! i) = {}" if "i < length tab" "i \<noteq> s" for i
    using wf s nin that by (auto simp: hash_wf_def)
  ultimately show ?thesis
    using front nin [OF s] hash_wf_chain(2) [OF wf s] s by (intro hash_wf_replace [OF wf s]) auto
qed

text \<open>Unlinking a bucket through its handle.\<close>

definition unlink_mem :: "eltmem \<Rightarrow> ptr \<Rightarrow> eltmem" where
  "unlink_mem m pe =
     (let e = the (m pe); m1 = set_first_handle m (ht_next e) (ht_handle e)
      in case ht_handle e of
           Slot i \<Rightarrow> m1
         | NextOf p \<Rightarrow> upd_elt m1 p (\<lambda>x. x\<lparr>ht_next := ht_next e\<rparr>))"

definition unlink_tab :: "eltmem \<Rightarrow> ptr list \<Rightarrow> ptr \<Rightarrow> ptr list" where
  "unlink_tab m tab pe =
     (let e = the (m pe) in
      case ht_handle e of Slot i \<Rightarrow> tab[i := ht_next e] | NextOf p \<Rightarrow> tab)"

lemma hash_unlink_eq:
  "hash_unlink pq pe =
     pq\<lparr>elts := unlink_mem (elts pq) pe, hashtab := unlink_tab (elts pq) (hashtab pq) pe\<rparr>"
  by (simp add: hash_unlink_def unlink_mem_def unlink_tab_def store_handle_def
      set_first_handle_def Let_def split: handle.split)

lemma unlink_chain_first:
  assumes "chain m p (Slot s) (pe # ys)" "distinct (pe # ys)"
  shows "chain (unlink_mem m pe) (ht_next (the (m pe))) (Slot s) ys"
    and "ht_handle (the (m pe)) = Slot s"
  using assms by (auto simp: unlink_mem_def Let_def intro: chain_rehandle)

lemma unlink_chain_mid:
  assumes ch: "chain m p h (xs @ a # pe # ys)" and d: "distinct (xs @ a # pe # ys)"
  shows "chain (unlink_mem m pe) p h (xs @ a # ys)"
    and "ht_handle (the (m pe)) = NextOf a"
proof -
  from ch have seg: "cseg m p h (xs @ [a]) pe" and "chain m pe (NextOf a) (pe # ys)"
    using chain_append [of m p h "xs @ [a]" "pe # ys"]
    by (auto simp del: chain.simps(2)) (auto)
  then obtain e where e: "m pe = Some e" "ht_handle e = NextOf a" "chain m (ht_next e) (NextOf pe) ys"
    by auto
  then show "ht_handle (the (m pe)) = NextOf a" by simp
  let ?m1 = "set_first_handle m (ht_next e) (NextOf a)"
  let ?m' = "unlink_mem m pe"
  have m': "?m' = upd_elt ?m1 a (\<lambda>x. x\<lparr>ht_next := ht_next e\<rparr>)"
    using e by (simp add: unlink_mem_def)
  have "chain ?m1 (ht_next e) (NextOf a) ys" using e d by (intro chain_rehandle) auto
  moreover have "same_links ?m1 ?m' (set ys)" using d m' by simp
  ultimately have tl: "chain ?m' (ht_next e) (NextOf a) ys" using chain_cong by blast
  have "same_links m ?m1 (set (xs @ [a]))" using d by (intro set_first_handle_frame [OF e(3)]) auto
  with seg have seg1: "cseg ?m1 p h (xs @ [a]) pe" using cseg_cong by blast
  have "same_links ?m1 ?m' (set xs)" using d m' by simp
  with seg1 have "cseg ?m' p h (xs @ [a]) (ht_next e)"
    using m' cseg_cong [of ?m1 ?m' xs] by (auto simp: cseg_snoc)
  with tl show "chain ?m' p h (xs @ a # ys)"
    using chain_append [of ?m' p h "xs @ [a]" ys] by auto
qed

lemma unlink_frame:
  assumes "chain m p h bs" "distinct bs" "pe \<in> set bs" "set bs \<inter> S = {}" "h = Slot s"
  shows "same_links m (unlink_mem m pe) S"
proof -
  from assms(3) obtain xs ys where bs: "bs = xs @ pe # ys" by (auto simp: in_set_conv_decomp)
  show ?thesis
  proof (cases xs rule: rev_cases)
    case Nil
    with bs assms obtain e where "m pe = Some e" "chain m (ht_next e) (NextOf pe) ys"
      "ht_handle e = Slot s" by auto
    moreover have "set ys \<inter> S = {}" using assms bs by auto
    ultimately show ?thesis
      by (auto simp: unlink_mem_def Let_def intro: set_first_handle_frame)
  next
    case (snoc zs a)
    with bs assms have "chain m p h (zs @ a # pe # ys)" by simp
    then obtain e where e: "m pe = Some e" "chain m (ht_next e) (NextOf pe) ys"
        "ht_handle e = NextOf a"
      using chain_append [of m p h "zs @ [a]" "pe # ys"] by auto
    have "set ys \<inter> S = {}" "a \<notin> S" using assms bs snoc by auto
    with e show ?thesis
      by (auto simp: unlink_mem_def Let_def intro: set_first_handle_frame)
  qed
qed

lemma unlink_wf:
  assumes wf: "hash_wf m tab cs" and s: "s < length tab" and pe: "pe \<in> set (cs ! s)"
  shows "hash_wf ((unlink_mem m pe)(pe := None)) (unlink_tab m tab pe) (cs[s := remove1 pe (cs ! s)])"
proof -
  let ?m' = "(unlink_mem m pe)(pe := None)" and ?t' = "unlink_tab m tab pe"
  note ch = hash_wf_chain [OF wf]
  obtain xs ys where bs: "cs ! s = xs @ pe # ys" using pe by (auto simp: in_set_conv_decomp)
  have d: "distinct (xs @ pe # ys)" using ch(2) [OF s] bs by simp
  have rm: "remove1 pe (cs ! s) = xs @ ys" using bs d by (simp add: remove1_append)
  have "chain (unlink_mem m pe) (?t' ! s) (Slot s) (xs @ ys) \<and> length ?t' = length tab
      \<and> (\<forall>i. i \<noteq> s \<longrightarrow> ?t' ! i = tab ! i)"
  proof (cases xs rule: rev_cases)
    case Nil
    then show ?thesis
      using unlink_chain_first [of m "tab ! s" s pe ys] ch(1) [OF s] bs d s
      by (simp add: unlink_tab_def)
  next
    case (snoc zs a)
    then show ?thesis
      using unlink_chain_mid [of m "tab ! s" "Slot s" zs a pe ys] ch(1) [OF s] bs d
      by (simp add: unlink_tab_def)
  qed
  then have main: "chain ?m' (?t' ! s) (Slot s) (xs @ ys)" "length ?t' = length tab"
    and tab: "\<And>i. i \<noteq> s \<Longrightarrow> ?t' ! i = tab ! i"
    using chain_cong [of "unlink_mem m pe" ?m' "xs @ ys"] d by auto
  have other: "chain ?m' (?t' ! i) (Slot i) (cs ! i)" if i: "i < length tab" "i \<noteq> s" for i
  proof -
    have dis: "set (cs ! s) \<inter> set (cs ! i) = {}" using wf i s by (simp add: hash_wf_def)
    have "same_links m (unlink_mem m pe) (set (cs ! i))"
      by (rule unlink_frame [OF ch(1) [OF s] ch(2) [OF s] pe dis refl])
    moreover have "pe \<notin> set (cs ! i)" using dis pe by auto
    ultimately show ?thesis using ch(1) [OF i(1)] tab [OF i(2)] chain_cong [of m ?m' "cs ! i"] by simp
  qed
  have dis: "set (xs @ ys) \<inter> set (cs ! i) = {}" if i: "i < length tab" "i \<noteq> s" for i
  proof -
    have "set (cs ! s) \<inter> set (cs ! i) = {}" using wf i s by (simp add: hash_wf_def)
    then show ?thesis using bs by auto
  qed
  show ?thesis
    unfolding rm using main other dis d by (intro hash_wf_replace [OF wf s]) auto
qed

section \<open>Rehashing\<close>

text \<open>A rehash moves links only: contents and priorities of the buckets stay.\<close>

definition same_payload :: "eltmem \<Rightarrow> eltmem \<Rightarrow> bool" where
  "same_payload m m' \<longleftrightarrow>
     (\<forall>b. map_option (\<lambda>e. (edata e, epri e)) (m b) = map_option (\<lambda>e. (edata e, epri e)) (m' b))"

lemma same_payload_refl [simp]: "same_payload m m"
  by (simp add: same_payload_def)

lemma same_payload_trans: "same_payload m m' \<Longrightarrow> same_payload m' m'' \<Longrightarrow> same_payload m m''"
  by (simp add: same_payload_def)

lemma same_payload_cases:
  assumes "same_payload m m'"
  obtains "m b = None" "m' b = None"
  | e e' where "m b = Some e" "m' b = Some e'" "edata e' = edata e" "epri e' = epri e"
proof -
  have "map_option (\<lambda>e. (edata e, epri e)) (m b) = map_option (\<lambda>e. (edata e, epri e)) (m' b)"
    using assms by (simp add: same_payload_def)
  then show ?thesis using that by (cases "m b"; cases "m' b") simp_all
qed

lemma same_payload_dom:
  assumes "same_payload m m'"
  shows "dom m = dom m'"
proof (intro set_eqI)
  fix b
  from assms show "b \<in> dom m \<longleftrightarrow> b \<in> dom m'" by (rule same_payload_cases [where b = b]) auto
qed

lemma same_payload_elt:
  assumes "same_payload m m'" "b \<in> dom m"
  shows "edata (the (m' b)) = edata (the (m b)) \<and> epri (the (m' b)) = epri (the (m b))"
  by (rule same_payload_cases [OF assms(1), of b]) (use assms(2) in auto)

lemma set_first_handle_payload: "same_payload m (set_first_handle m q h)"
  by (auto simp: same_payload_def set_first_handle_def upd_elt_def option.map_comp comp_def)

lemma link_front_payload:
  "m pe = Some e \<Longrightarrow> same_payload m (link_front m tab s pe e)"
  unfolding link_front_def
  by (rule same_payload_trans [OF _ set_first_handle_payload]) (simp add: same_payload_def)

lemma link_front_next:
  "same_next m (link_front m tab s pe e) (- {pe})"
  by (auto simp: same_next_def link_front_def set_first_handle_def upd_elt_def option.map_comp comp_def)

definition elt_slot :: "eltmem \<Rightarrow> ptr \<Rightarrow> nat \<Rightarrow> nat" where
  "elt_slot m b n = prio_slot (ucast (pbits (elt_pri m b)))
     (take (unat (pints (elt_pri m b))) (pdata (elt_pri m b))) n"

definition placed :: "eltmem \<Rightarrow> ptr list list \<Rightarrow> nat \<Rightarrow> bool" where
  "placed m cs n \<longleftrightarrow> (\<forall>i < length cs. \<forall>b \<in> set (cs ! i). elt_slot m b n = i)"

lemma elt_slot_payload: "same_payload m m' \<Longrightarrow> b \<in> dom m \<Longrightarrow> elt_slot m' b n = elt_slot m b n"
  using same_payload_elt [of m m' b] by (simp add: elt_slot_def elt_pri_def)

lemma placed_payload:
  assumes "placed m cs n" "same_payload m m'" "chains_set cs \<subseteq> dom m"
  shows "placed m' cs n"
  unfolding placed_def
proof (intro allI impI ballI)
  fix i b assume ib: "i < length cs" "b \<in> set (cs ! i)"
  then have "b \<in> dom m" using assms(3) chains_setI by blast
  then have "elt_slot m' b n = elt_slot m b n" by (rule elt_slot_payload [OF assms(2)])
  then show "elt_slot m' b n = i" using assms(1) ib by (simp add: placed_def)
qed

definition rehashed ::
    "eltmem \<Rightarrow> ptr list list \<Rightarrow> ptr set \<Rightarrow> eltmem \<Rightarrow> ptr list \<Rightarrow> ptr list list \<Rightarrow> nat \<Rightarrow> bool" where
  "rehashed m cs S m' nh' cs' n \<longleftrightarrow>
     hash_wf m' nh' cs' \<and> length nh' = n \<and> chains_set cs' = chains_set cs \<union> S \<and>
     same_payload m m' \<and> same_next m m' (- S) \<and> placed m' cs' n"

lemma rehash_chain_step:
  assumes "pe \<noteq> NULL" "m pe = Some e"
  shows "rehash_chain m nh n pe =
    (let s = elt_slot m pe n in rehash_chain (link_front m nh s pe e) (nh[s := pe]) n (ht_next e))"
  using assms
  by (simp add: rehash_chain.simps [of m nh n pe] Let_def link_front_def set_first_handle_def
      elt_slot_def elt_pri_def)

lemma link_front_placed:
  assumes "placed m cs n" "m pe = Some e" "chains_set cs \<subseteq> dom m" "length cs = n" "0 < n"
  shows "placed (link_front m nh (elt_slot m pe n) pe e) (cs[elt_slot m pe n := pe # cs ! elt_slot m pe n]) n"
proof -
  let ?s = "elt_slot m pe n" and ?m' = "link_front m nh (elt_slot m pe n) pe e"
  have pay: "same_payload m ?m'" using assms(2) by (rule link_front_payload)
  have "placed ?m' cs n" by (rule placed_payload [OF assms(1) pay assms(3)])
  moreover have "elt_slot ?m' pe n = ?s" using assms(2) by (intro elt_slot_payload [OF pay]) auto
  moreover have "?s < length cs" using assms(4,5) by (simp add: elt_slot_def prio_slot_less)
  ultimately show ?thesis using assms(4)
    by (auto simp: placed_def nth_list_update split: if_splits)
qed

lemma chains_set_link:
  "s < length cs \<Longrightarrow> chains_set (cs[s := pe # cs ! s]) = insert pe (chains_set cs)"
  by (auto simp: chains_set_def nth_list_update split: if_splits)

lemma rehash_chain_ok:
  "path m pe rest \<Longrightarrow> distinct rest \<Longrightarrow> hash_wf m nh cs \<Longrightarrow> length nh = n \<Longrightarrow> 0 < n \<Longrightarrow>
   chains_set cs \<inter> set rest = {} \<Longrightarrow> placed m cs n \<Longrightarrow> chains_set cs \<subseteq> dom m \<Longrightarrow>
   \<exists>m' nh' cs'. rehash_chain m nh n pe = Some (m', nh') \<and> rehashed m cs (set rest) m' nh' cs' n"
proof (induction rest arbitrary: m pe nh cs)
  case Nil
  then have "rehash_chain m nh n pe = Some (m, nh)" by (simp add: rehash_chain.simps)
  with Nil show ?case by (auto simp: rehashed_def same_next_def)
next
  case (Cons b rest)
  from Cons.prems(1) obtain e where b: "pe = b" "b \<noteq> NULL" "m b = Some e" "path m (ht_next e) rest"
    by auto
  let ?s = "elt_slot m b n"
  let ?m1 = "link_front m nh ?s b e" and ?nh1 = "nh[?s := b]" and ?cs1 = "cs[?s := b # cs ! ?s]"
  have s: "?s < length nh" using Cons.prems by (simp add: elt_slot_def prio_slot_less)
  have lcs: "length cs = length nh" using hash_wf_chain(3) [OF Cons.prems(3) s] .
  have cs1: "chains_set ?cs1 = insert b (chains_set cs)" using s lcs by (simp add: chains_set_link)
  have next1: "same_next m ?m1 (- {b})" by (rule link_front_next)
  have pay1: "same_payload m ?m1" using b(3) by (rule link_front_payload)
  have "same_next m ?m1 (set rest)" using next1 Cons.prems(2) by (auto simp: same_next_def)
  then have path1: "path ?m1 (ht_next e) rest" using b(4) path_cong by blast
  have wf1: "hash_wf ?m1 ?nh1 ?cs1"
    using Cons.prems b s by (intro link_front_wf) auto
  have pl1: "placed ?m1 ?cs1 n" using Cons.prems b lcs by (intro link_front_placed) auto
  have "\<exists>m' nh' cs'. rehash_chain ?m1 ?nh1 n (ht_next e) = Some (m', nh')
      \<and> rehashed ?m1 ?cs1 (set rest) m' nh' cs' n"
    using path1 Cons.prems wf1 pl1 cs1 b same_payload_dom [OF pay1] by (intro Cons.IH) auto
  then obtain m' nh' cs' where r: "rehash_chain ?m1 ?nh1 n (ht_next e) = Some (m', nh')"
    and R: "rehashed ?m1 ?cs1 (set rest) m' nh' cs' n" by blast
  have "same_next m m' (- set (b # rest))"
    using next1 R by (auto simp: same_next_def rehashed_def)
  then have "rehashed m cs (set (b # rest)) m' nh' cs' n"
    using R cs1 same_payload_trans [OF pay1] by (auto simp: rehashed_def)
  moreover have "rehash_chain m nh n pe = Some (m', nh')"
    using rehash_chain_step [of b m e nh n] b r by (simp add: Let_def)
  ultimately show ?case by blast
qed

lemma rehash_slots_ok:
  "list_all2 (path m) ps rs \<Longrightarrow> distinct (concat rs) \<Longrightarrow> hash_wf m nh cs \<Longrightarrow> length nh = n \<Longrightarrow>
   0 < n \<Longrightarrow> chains_set cs \<inter> set (concat rs) = {} \<Longrightarrow> placed m cs n \<Longrightarrow> chains_set cs \<subseteq> dom m \<Longrightarrow>
   set (concat rs) \<subseteq> dom m \<Longrightarrow>
   \<exists>m' nh' cs'. rehash_slots m nh n ps = Some (m', nh')
     \<and> rehashed m cs (set (concat rs)) m' nh' cs' n"
proof (induction ps arbitrary: rs m nh cs)
  case Nil
  then show ?case by (auto simp: rehashed_def same_next_def)
next
  case (Cons p ps)
  then obtain r rs' where rs: "rs = r # rs'" "path m p r" "list_all2 (path m) ps rs'"
    by (auto simp: list_all2_Cons1)
  from rs Cons.prems obtain m1 nh1 cs1 where r1: "rehash_chain m nh n p = Some (m1, nh1)"
    and R1: "rehashed m cs (set r) m1 nh1 cs1 n"
    using rehash_chain_ok [of m p r nh cs n] by auto
  have dom1: "dom m1 = dom m" using R1 same_payload_dom [of m m1] by (simp add: rehashed_def)
  have "path m1 q rq" if "path m q rq" "rq \<in> set rs'" for q rq
  proof -
    have "set rq \<inter> set r = {}" using Cons.prems(2) rs that(2) by auto
    then have "same_next m m1 (set rq)" using R1 by (auto simp: rehashed_def same_next_def)
    then show ?thesis using that(1) path_cong by blast
  qed
  then have paths: "list_all2 (path m1) ps rs'"
    using rs(3) by (auto simp: list_all2_conv_all_nth)
  have "\<exists>m' nh' cs'. rehash_slots m1 nh1 n ps = Some (m', nh')
      \<and> rehashed m1 cs1 (set (concat rs')) m' nh' cs' n"
    using paths Cons.prems rs R1 dom1 by (intro Cons.IH) (auto simp: rehashed_def)
  then obtain m' nh' cs' where r: "rehash_slots m1 nh1 n ps = Some (m', nh')"
    and R: "rehashed m1 cs1 (set (concat rs')) m' nh' cs' n" by blast
  have "rehashed m cs (set (concat rs)) m' nh' cs' n"
    using R R1 rs(1) same_payload_trans [of m m1 m'] by (auto simp: rehashed_def same_next_def)
  then show ?case using r r1 by auto
qed

lemma distinct_concat_nth:
  "(\<And>i. i < length rs \<Longrightarrow> distinct (rs ! i)) \<Longrightarrow>
   (\<And>i j. i < length rs \<Longrightarrow> j < length rs \<Longrightarrow> i \<noteq> j \<Longrightarrow> set (rs ! i) \<inter> set (rs ! j) = {}) \<Longrightarrow>
   distinct (concat rs)"
proof (induction rs)
  case (Cons r rs)
  have "set r \<inter> set (rs ! i) = {}" if "i < length rs" for i
    using Cons.prems(2) [of 0 "Suc i"] that by simp
  then have "set r \<inter> set (concat rs) = {}" by (fastforce simp: in_set_conv_nth)
  moreover have "distinct (concat rs)"
    using Cons.prems(1) [of "Suc _"] Cons.prems(2) [of "Suc _" "Suc _"] by (intro Cons.IH) auto
  ultimately show ?case using Cons.prems(1) [of 0] by simp
qed simp

lemma chains_set_concat: "chains_set cs = set (concat cs)"
  by (force simp: chains_set_def in_set_conv_nth)

lemma hash_wf_concat: "hash_wf m tab cs \<Longrightarrow> distinct (concat cs)"
  by (rule distinct_concat_nth) (auto simp: hash_wf_def)

lemma hash_wf_dom: "hash_wf m tab cs \<Longrightarrow> chains_set cs \<subseteq> dom m"
  using chain_dom by (fastforce simp: chains_set_def hash_wf_def)

lemma CqsPrioqRehash_ok:
  assumes wf: "hash_wf (elts pq) (hashtab pq) cs"
    and len: "hash_key_size pq = length (hashtab pq)" "0 < length (hashtab pq)"
  shows "\<exists>m nh cs'. CqsPrioqRehash pq =
      Some (pq\<lparr>elts := m, hashtab := nh, hash_key_size := 2 * hash_key_size pq\<rparr>)
    \<and> hash_wf m nh cs' \<and> length nh = 2 * hash_key_size pq \<and> chains_set cs' = chains_set cs
    \<and> same_payload (elts pq) m \<and> placed m cs' (2 * hash_key_size pq)"
proof -
  let ?n = "hash_key_size pq * 2"
  have "list_all2 (path (elts pq)) (hashtab pq) cs"
    using wf chain_path by (fastforce simp: list_all2_conv_all_nth hash_wf_def)
  then obtain m nh cs' where
    r: "rehash_slots (elts pq) (replicate ?n NULL) ?n (hashtab pq) = Some (m, nh)"
    and R: "rehashed (elts pq) (replicate ?n []) (set (concat cs)) m nh cs' ?n"
    using hash_wf_concat [OF wf] hash_wf_dom [OF wf] len hash_wf_empty
      rehash_slots_ok [of "elts pq" "hashtab pq" cs "replicate ?n NULL" "replicate ?n []" ?n]
    by (auto simp: chains_set_concat placed_def)
  have "CqsPrioqRehash pq = Some (pq\<lparr>elts := m, hashtab := nh, hash_key_size := 2 * hash_key_size pq\<rparr>)"
    using r len by (simp add: CqsPrioqRehash_def Let_def mult.commute)
  moreover have "chains_set cs' = chains_set cs"
    using R by (simp add: rehashed_def chains_set_concat)
  ultimately show ?thesis
    using R by (intro exI [of _ m] exI [of _ nh] exI [of _ cs']) (simp add: rehashed_def mult.commute)
qed

end
