(* ===== verification/PrioqCorrect.thy ===== *)
theory PrioqCorrect
  imports Prioq
begin

text \<open>
  Correctness of the priority queue.  \<open>prioq_wf\<close> ties the heap, the hash chains and the
  memory of buckets together; every operation keeps it, whatever the number of priorities
  and however often the table is rehashed.  \<open>prioq_entries\<close> is the abstract value: the
  messages with their priorities in the order of the heap array.
\<close>

section \<open>Invariant and abstract value\<close>

definition elt_key :: "eltmem \<Rightarrow> ptr \<Rightarrow> u32 list" where
  "elt_key m b = prio_key (elt_pri m b)"

definition bucket_list :: "eltmem \<Rightarrow> ptr \<Rightarrow> ptr list" where
  "bucket_list m b = deq_list (edata (the (m b)))"

definition prioq_buckets :: "prioq \<Rightarrow> ptr list" where
  "prioq_buckets pq = heap_elems (heap pq) (heapnext pq)"

definition prioq_entries :: "prioq \<Rightarrow> (u32 list \<times> ptr) list" where
  "prioq_entries pq =
     concat (map (\<lambda>b. map (Pair (elt_key (elts pq) b)) (bucket_list (elts pq) b)) (prioq_buckets pq))"

interpretation prioq_heap: heap_order "elt_key m" "elt_gt m" "elt_gt m" "elt_gt m" for m
  by unfold_locales (auto simp: elt_gt_def elt_key_def CqsPrioGT_iff)

definition heap_wf :: "prioq \<Rightarrow> ptr set \<Rightarrow> bool" where
  "heap_wf pq B \<longleftrightarrow>
     1 \<le> heapnext pq \<and> heapnext pq \<le> heapsize pq \<and> heapsize pq = length (heap pq) \<and>
     2 \<le> heapsize pq \<and> distinct (prioq_buckets pq) \<and> set (prioq_buckets pq) = B \<and>
     heap_ord (elt_key (elts pq)) (heap pq) (heapnext pq)"

definition mem_wf :: "eltmem \<Rightarrow> ptr \<Rightarrow> ptr set \<Rightarrow> bool" where
  "mem_wf m fr X \<longleftrightarrow>
     NULL \<notin> dom m \<and> 0 < fr \<and> (\<forall>b \<in> dom m. b < fr) \<and>
     (\<forall>b \<in> dom m. deq_inv (edata (the (m b))) \<and> prio_wf (elt_pri m b)) \<and>
     (\<forall>b \<in> dom m - X. bucket_list m b \<noteq> [])"

definition table_wf :: "prioq \<Rightarrow> bool" where
  "table_wf pq \<longleftrightarrow>
     hash_key_size pq = length (hashtab pq) \<and> PRIOQ_TABSIZE \<le> length (hashtab pq) \<and>
     (\<exists>cs. hash_wf (elts pq) (hashtab pq) cs \<and> chains_set cs = dom (elts pq))"

text \<open>\<open>X\<close> holds the bucket a caller is about to fill: it may still be empty.\<close>

definition prioq_wf :: "ptr set \<Rightarrow> prioq \<Rightarrow> bool" where
  "prioq_wf X pq \<longleftrightarrow>
     heap_wf pq (dom (elts pq)) \<and> mem_wf (elts pq) (fresh pq) X \<and> table_wf pq \<and>
     hash_entry_size pq = heapnext pq - 1"

lemma prioq_wf_init: "prioq_wf {} CqsPrioqInit"
  unfolding prioq_wf_def
proof (intro conjI)
  show "heap_wf CqsPrioqInit (dom (elts CqsPrioqInit))"
    by (auto simp: heap_wf_def CqsPrioqInit_def prioq_buckets_def heap_elems_def heap_ord_def)
  show "mem_wf (elts CqsPrioqInit) (fresh CqsPrioqInit) {}"
    by (simp add: mem_wf_def CqsPrioqInit_def)
  show "table_wf CqsPrioqInit"
    unfolding table_wf_def
    by (intro conjI exI [of _ "replicate PRIOQ_TABSIZE []"])
       (simp_all add: CqsPrioqInit_def hash_wf_empty chains_set_def)
qed (simp add: CqsPrioqInit_def)

lemma prioq_entries_init [simp]: "prioq_entries CqsPrioqInit = []"
  by (simp add: prioq_entries_def CqsPrioqInit_def prioq_buckets_def heap_elems_def)

lemma prioq_wf_weaken: "prioq_wf X pq \<Longrightarrow> X \<subseteq> Y \<Longrightarrow> prioq_wf Y pq"
  by (auto simp: prioq_wf_def mem_wf_def)

section \<open>Finding a bucket\<close>

definition elt_matches :: "eltmem \<Rightarrow> u32 \<Rightarrow> u32 list \<Rightarrow> ptr \<Rightarrow> bool" where
  "elt_matches m priobits priodata b \<longleftrightarrow>
     priobits = ucast (pbits (elt_pri m b)) \<and>
     take (prio_ints priobits) priodata = take (prio_ints priobits) (pdata (elt_pri m b))"

lemma find_chain_eq:
  "path m p bs \<Longrightarrow>
   find_chain m bits data p =
     Some (case find (elt_matches m bits data) bs of None \<Rightarrow> NULL | Some b \<Rightarrow> b)"
proof (induction bs arbitrary: p)
  case Nil
  then show ?case by (simp add: find_chain.simps)
next
  case (Cons b bs)
  then obtain e where b: "p = b" "b \<noteq> NULL" "m b = Some e" "path m (ht_next e) bs" by auto
  then have "find_chain m bits data p =
      (if elt_matches m bits data b then Some b else find_chain m bits data (ht_next e))"
    by (subst find_chain.simps) (auto simp: elt_matches_def elt_pri_def)
  then show ?case using Cons.IH [OF b(4)] by simp
qed

lemma find_chain_cases:
  assumes "path m p bs" "NULL \<notin> set bs"
  obtains "find_chain m bits data p = Some NULL" "\<And>b. b \<in> set bs \<Longrightarrow> \<not> elt_matches m bits data b"
  | b where "find_chain m bits data p = Some b" "b \<in> set bs" "b \<noteq> NULL" "elt_matches m bits data b"
proof (cases "find (elt_matches m bits data) bs")
  case None
  then have "find_chain m bits data p = Some NULL" using find_chain_eq [OF assms(1)] by simp
  moreover have "\<not> elt_matches m bits data b" if "b \<in> set bs" for b
    using None that by (auto simp: find_None_iff)
  ultimately show ?thesis by (rule that(1))
next
  case (Some b)
  then have "b \<in> set bs" "elt_matches m bits data b" by (auto simp: find_Some_iff)
  then show ?thesis using that(2) [of b] Some assms find_chain_eq [OF assms(1)] by auto
qed

section \<open>Inserting a bucket\<close>

lemma hash_insert_eq:
  "hash_insert pq bits data s =
     pq\<lparr>elts := link_front (elts pq) (hashtab pq) s (fresh pq) (new_elt bits data NULL s),
        fresh := fresh pq + 1, hashtab := (hashtab pq)[s := fresh pq],
        hash_entry_size := hash_entry_size pq + 1\<rparr>"
  by (simp add: hash_insert_def link_front_def set_first_handle_def new_elt_def Let_def)

text \<open>Payloads agree except at one bucket.\<close>

definition payload_except :: "ptr \<Rightarrow> eltmem \<Rightarrow> eltmem \<Rightarrow> bool" where
  "payload_except p m m' \<longleftrightarrow>
     (\<forall>b. b \<noteq> p \<longrightarrow>
       map_option (\<lambda>e. (edata e, epri e)) (m b) = map_option (\<lambda>e. (edata e, epri e)) (m' b))"

lemma payload_exceptD:
  assumes "payload_except p m m'" "b \<noteq> p"
  shows "b \<in> dom m \<longleftrightarrow> b \<in> dom m'"
    and "b \<in> dom m \<Longrightarrow> edata (the (m' b)) = edata (the (m b))"
    and "b \<in> dom m \<Longrightarrow> elt_pri m' b = elt_pri m b"
    and "b \<in> dom m \<Longrightarrow> elt_key m' b = elt_key m b"
    and "b \<in> dom m \<Longrightarrow> bucket_list m' b = bucket_list m b"
proof -
  have "map_option (\<lambda>e. (edata e, epri e)) (m b) = map_option (\<lambda>e. (edata e, epri e)) (m' b)"
    using assms by (simp add: payload_except_def)
  then have "m b = None \<and> m' b = None \<or> (\<exists>e e'. m b = Some e \<and> m' b = Some e'
      \<and> edata e' = edata e \<and> epri e' = epri e)"
    by (cases "m b"; cases "m' b") auto
  then show "b \<in> dom m \<longleftrightarrow> b \<in> dom m'"
    and "b \<in> dom m \<Longrightarrow> edata (the (m' b)) = edata (the (m b))"
    and "b \<in> dom m \<Longrightarrow> elt_pri m' b = elt_pri m b"
    and "b \<in> dom m \<Longrightarrow> elt_key m' b = elt_key m b"
    and "b \<in> dom m \<Longrightarrow> bucket_list m' b = bucket_list m b"
    by (auto simp: elt_pri_def elt_key_def bucket_list_def)
qed

lemma payload_except_trans:
  "payload_except p m m' \<Longrightarrow> payload_except p m' m'' \<Longrightarrow> payload_except p m m''"
  by (simp add: payload_except_def)

lemma same_payload_except: "same_payload m m' \<Longrightarrow> payload_except p m m'"
  by (simp add: payload_except_def same_payload_def)

lemma payload_except_upd [simp]: "payload_except p m (m(p := x))" "payload_except p m (upd_elt m p f)"
  by (auto simp: payload_except_def)

lemma link_front_except: "payload_except pe m (link_front m tab s pe e)"
  unfolding link_front_def
  by (rule payload_except_trans [OF payload_except_upd(1)])
     (rule same_payload_except [OF set_first_handle_payload])

lemma link_front_at:
  assumes "chain m (tab ! s) h bs" "pe \<notin> set bs" "pe \<noteq> NULL"
  shows "link_front m tab s pe e pe = Some (e\<lparr>ht_next := tab ! s, ht_handle := Slot s\<rparr>)"
proof -
  have "tab ! s \<noteq> pe" using assms by (cases bs) auto
  then show ?thesis by (simp add: link_front_def set_first_handle_def)
qed

lemma link_front_dom:
  "dom (link_front m tab s pe e) = insert pe (dom m)"
  by (simp add: link_front_def set_first_handle_def)

lemma heap_ord_payload:
  assumes "heap_ord (elt_key m) h n" "n \<le> length h" "payload_except p m m'"
    and "set (heap_elems h n) \<subseteq> dom m - {p}"
  shows "heap_ord (elt_key m') h n"
proof -
  have "elt_key m (h ! i) = elt_key m' (h ! i)" if "1 \<le> i" "i < n" for i
  proof -
    have "h ! i \<in> set (heap_elems h n)" using that assms(2) by (auto simp: set_heap_elems)
    then have "h ! i \<in> dom m" "h ! i \<noteq> p" using assms(4) by auto
    then show ?thesis using payload_exceptD(4) [OF assms(3)] by simp
  qed
  then show ?thesis using assms(1) heap_ord_cong [of n "elt_key m" h "elt_key m'" h] by simp
qed

lemma heap_wf_nth: "heap_wf pq B \<Longrightarrow> 1 \<le> i \<Longrightarrow> i < heapnext pq \<Longrightarrow> heap pq ! i \<in> B"
  by (auto simp: heap_wf_def prioq_buckets_def set_heap_elems)

lemma heap_insert_ok:
  assumes wf: "heap_wf pq (dom (elts pq) - {pe})" and pe: "pe \<in> dom (elts pq)"
  shows "heap_wf (heap_insert pq pe) (dom (elts pq))"
    and "mset (prioq_buckets (heap_insert pq pe)) = add_mset pe (mset (prioq_buckets pq))"
    and "heapnext (heap_insert pq pe) = heapnext pq + 1"
    and "elts (heap_insert pq pe) = elts pq" "fresh (heap_insert pq pe) = fresh pq"
      "hashtab (heap_insert pq pe) = hashtab pq"
      "hash_key_size (heap_insert pq pe) = hash_key_size pq"
      "hash_entry_size (heap_insert pq pe) = hash_entry_size pq"
proof -
  let ?n = "heapnext pq" and ?m = "elts pq"
  let ?h = "heap pq @ (if ?n = heapsize pq then replicate (heapsize pq) NULL else [])"
  let ?q = "heap_insert pq pe"
  have h: "heap ?q = sift_up (elt_gt ?m) ?h ?n pe" "heapsize ?q = length ?h"
    "heapnext ?q = ?n + 1"
    using wf by (auto simp: heap_insert_def CqsPrioqExpand_def Let_def heap_wf_def)
  show fields: "heapnext ?q = ?n + 1" "elts ?q = ?m" "fresh ?q = fresh pq" "hashtab ?q = hashtab pq"
    "hash_key_size ?q = hash_key_size pq" "hash_entry_size ?q = hash_entry_size pq"
    by (auto simp: heap_insert_def CqsPrioqExpand_def Let_def)
  have n: "1 \<le> ?n" "?n < length ?h" using wf by (auto simp: heap_wf_def)
  have el: "heap_elems ?h ?n = prioq_buckets pq"
    using wf by (auto simp: prioq_buckets_def heap_elems_def heap_wf_def)
  have "heap_ord (elt_key ?m) ?h ?n"
    using wf heap_ord_cong [of ?n "elt_key ?m" ?h "elt_key ?m" "heap pq"]
    by (auto simp: heap_wf_def nth_append)
  then have ord: "heap_ord (elt_key ?m) (heap ?q) (heapnext ?q)"
    using n h prioq_heap.sift_up_ord by simp
  show ms: "mset (prioq_buckets ?q) = add_mset pe (mset (prioq_buckets pq))"
    using n h el prioq_heap.sift_up_elems [of ?n ?h ?m pe] by (simp add: prioq_buckets_def)
  have "pe \<notin> set (prioq_buckets pq)" "distinct (prioq_buckets pq)" using wf by (auto simp: heap_wf_def)
  then have "distinct (prioq_buckets ?q)" using ms by (metis distinct.simps(2) mset.simps(2) mset_eq_imp_distinct_iff)
  moreover have "set (prioq_buckets ?q) = insert pe (set (prioq_buckets pq))"
    using ms by (metis set_mset_add_mset_insert set_mset_mset)
  ultimately show "heap_wf ?q (dom ?m)"
    using wf pe n ord h fields(1,2) by (auto simp: heap_wf_def)
qed

lemma mem_wfD:
  assumes "mem_wf m fr X" "b \<in> dom m"
  shows "b \<noteq> NULL" "b < fr" "deq_inv (edata (the (m b)))" "prio_wf (elt_pri m b)"
    "b \<notin> X \<Longrightarrow> bucket_list m b \<noteq> []"
  using assms unfolding mem_wf_def by - (metis, blast+)

lemma mem_wfI:
  assumes "0 < fr"
    and "\<And>b. b \<in> dom m \<Longrightarrow> b \<noteq> NULL \<and> b < fr \<and> deq_inv (edata (the (m b))) \<and> prio_wf (elt_pri m b)
      \<and> (b \<in> X \<or> bucket_list m b \<noteq> [])"
  shows "mem_wf m fr X"
  using assms unfolding mem_wf_def by blast

lemma mem_wf_payload:
  assumes wf: "mem_wf m fr X" and pe: "payload_except p m m'"
    and at: "p \<in> dom m' \<Longrightarrow> p \<noteq> NULL \<and> p < fr' \<and> deq_inv (edata (the (m' p)))
      \<and> prio_wf (elt_pri m' p) \<and> (p \<in> X' \<or> bucket_list m' p \<noteq> [])"
    and fr: "fr \<le> fr'" "X \<subseteq> X'"
  shows "mem_wf m' fr' X'"
proof (rule mem_wfI)
  show "0 < fr'" using wf fr(1) by (simp add: mem_wf_def)
  fix b assume b: "b \<in> dom m'"
  show "b \<noteq> NULL \<and> b < fr' \<and> deq_inv (edata (the (m' b))) \<and> prio_wf (elt_pri m' b)
      \<and> (b \<in> X' \<or> bucket_list m' b \<noteq> [])"
  proof (cases "b = p")
    case True
    then show ?thesis using at b by simp
  next
    case False
    note P = payload_exceptD [OF pe False]
    then have d: "b \<in> dom m" using b by simp
    note M = mem_wfD [OF wf d]
    have "b < fr'" using M(2) fr(1) by simp
    moreover have "b \<in> X' \<or> bucket_list m' b \<noteq> []" using M(5) P(5) [OF d] fr(2) by auto
    ultimately show ?thesis using M(1,3,4) P(2,3) [OF d] by simp
  qed
qed

lemma maybe_rehash_ok:
  assumes "table_wf pq"
  shows "\<exists>m t k. (if c then CqsPrioqRehash pq else Some pq)
      = Some (pq\<lparr>elts := m, hashtab := t, hash_key_size := k\<rparr>)
    \<and> table_wf (pq\<lparr>elts := m, hashtab := t, hash_key_size := k\<rparr>) \<and> same_payload (elts pq) m
    \<and> (\<not> c \<longrightarrow> m = elts pq \<and> t = hashtab pq \<and> k = hash_key_size pq)"
proof (cases c)
  case True
  from assms obtain cs where cs: "hash_wf (elts pq) (hashtab pq) cs" "chains_set cs = dom (elts pq)"
    and len: "hash_key_size pq = length (hashtab pq)" "PRIOQ_TABSIZE \<le> length (hashtab pq)"
    by (auto simp: table_wf_def)
  then have "0 < length (hashtab pq)" unfolding PRIOQ_TABSIZE_def by linarith
  from CqsPrioqRehash_ok [OF cs(1) len(1) this] obtain m nh cs' where r:
    "CqsPrioqRehash pq = Some (pq\<lparr>elts := m, hashtab := nh, hash_key_size := 2 * hash_key_size pq\<rparr>)"
    "hash_wf m nh cs'" "length nh = 2 * hash_key_size pq" "chains_set cs' = chains_set cs"
    "same_payload (elts pq) m" by blast
  then have "table_wf (pq\<lparr>elts := m, hashtab := nh, hash_key_size := 2 * hash_key_size pq\<rparr>)"
    using cs(2) len same_payload_dom [OF r(5)] by (auto simp: table_wf_def)
  with r True show ?thesis by (simp only: if_True) blast
next
  case False
  then show ?thesis using assms
    by (intro exI [of _ "elts pq"] exI [of _ "hashtab pq"] exI [of _ "hash_key_size pq"]) simp
qed

lemma ucast_u16_back: "unat (bits :: u32) < 65536 \<Longrightarrow> ucast (ucast bits :: u16) = bits"
  by (intro word_unat_eq_iff [THEN iffD2]) (simp add: unsigned_ucast_eq unsigned_take_bit_eq take_bit_nat_eq_self)

lemma new_elt_wf:
  assumes "unat bits < 65536" "prio_ints bits \<le> length data"
  shows "prio_wf (epri (new_elt bits data q s))"
proof -
  have "prio_ints bits \<le> 2048" using assms(1) by (rule prio_ints_bound)
  then have "unat (of_nat (prio_ints bits) :: u16) = prio_ints bits"
    by (simp add: unat_of_nat)
  moreover have "ucast (ucast bits :: u16) = bits"
    using assms(1) by (rule ucast_u16_back)
  ultimately show ?thesis using assms(2) by (simp add: prio_wf_def new_elt_def)
qed

lemma hash_insert_ok:
  assumes wf: "prioq_wf {} pq" and s: "s < PRIOQ_TABSIZE"
    and ok: "unat bits < 65536" "prio_ints bits \<le> length data"
  defines "pq1 \<equiv> hash_insert pq bits data s"
  shows "table_wf pq1" "mem_wf (elts pq1) (fresh pq1) {fresh pq}"
    "payload_except (fresh pq) (elts pq) (elts pq1)" "dom (elts pq1) = insert (fresh pq) (dom (elts pq))"
    "fresh pq \<notin> dom (elts pq)"
    "epri (the (elts pq1 (fresh pq))) = epri (new_elt bits data NULL s)"
    "edata (the (elts pq1 (fresh pq))) = CqsDeqInit"
proof -
  let ?p = "fresh pq" and ?e = "new_elt bits data NULL s"
  let ?m = "elts pq" and ?m' = "link_front (elts pq) (hashtab pq) s (fresh pq) (new_elt bits data NULL s)"
  have e1: "elts pq1 = ?m'" "fresh pq1 = ?p + 1" "hashtab pq1 = (hashtab pq)[s := ?p]"
    "hash_key_size pq1 = hash_key_size pq"
    by (simp_all add: pq1_def hash_insert_eq)
  from wf obtain cs where cs: "hash_wf ?m (hashtab pq) cs" "chains_set cs = dom ?m"
    and len: "hash_key_size pq = length (hashtab pq)" "PRIOQ_TABSIZE \<le> length (hashtab pq)"
    by (auto simp: prioq_wf_def table_wf_def)
  have st: "s < length (hashtab pq)" using s len by simp
  have memw: "mem_wf ?m ?p {}" using wf by (simp add: prioq_wf_def)
  then show nd: "?p \<notin> dom ?m" unfolding mem_wf_def by fastforce
  have p0: "?p \<noteq> NULL" using memw by (simp add: mem_wf_def)
  show dom: "dom (elts pq1) = insert ?p (dom ?m)" by (simp add: e1 link_front_dom)
  show pe: "payload_except ?p ?m (elts pq1)" by (simp add: e1 link_front_except)
  have "?p \<notin> set (cs ! s)"
    using nd cs(2) chains_setI [of s cs ?p] hash_wf_chain(3) [OF cs(1) st] st by auto
  then have at: "?m' ?p = Some (?e\<lparr>ht_next := hashtab pq ! s, ht_handle := Slot s\<rparr>)"
    using hash_wf_chain(1) [OF cs(1) st] p0 by (intro link_front_at)
  then show pri: "epri (the (elts pq1 ?p)) = epri ?e" and dat: "edata (the (elts pq1 ?p)) = CqsDeqInit"
    by (simp_all add: e1 new_elt_def)
  have "chains_set (cs[s := ?p # cs ! s]) = dom ?m'"
    using st hash_wf_chain(3) [OF cs(1) st] cs(2) by (simp add: chains_set_link link_front_dom)
  moreover have "hash_wf ?m' ((hashtab pq)[s := ?p]) (cs[s := ?p # cs ! s])"
    using cs st p0 nd by (intro link_front_wf) auto
  ultimately show "table_wf pq1" using len e1 by (auto simp: table_wf_def)
  show "mem_wf (elts pq1) (fresh pq1) {?p}"
    by (rule mem_wf_payload [OF memw pe])
       (use p0 pri dat new_elt_wf [OF ok, of NULL s] e1(2) in \<open>simp_all add: deq_simps elt_pri_def\<close>)
qed

lemma heap_wf_payload:
  assumes "heap_wf pq B" "payload_except p (elts pq) (elts pq')" "B \<subseteq> dom (elts pq) - {p}"
    and "heap pq' = heap pq" "heapnext pq' = heapnext pq" "heapsize pq' = heapsize pq"
  shows "heap_wf pq' B"
  using assms heap_ord_payload [of "elts pq" "heap pq" "heapnext pq" p "elts pq'"]
  by (auto simp: heap_wf_def prioq_buckets_def)

text \<open>The bucket a caller gets: it has the requested priority and holds what it held before.\<close>

lemma getDeq_new:
  assumes wf: "prioq_wf {} pq" and ok: "unat bits < 65536" "prio_ints bits \<le> length data"
    and miss: "find_chain (elts pq) bits data
      (hashtab pq ! prio_slot bits (take (prio_ints bits) data) PRIOQ_TABSIZE) = Some NULL"
  shows "\<exists>pq'. CqsPrioqGetDeq pq bits data = Some (pq', fresh pq) \<and> prioq_wf {fresh pq} pq'
    \<and> payload_except (fresh pq) (elts pq) (elts pq') \<and> fresh pq \<notin> dom (elts pq)
    \<and> fresh pq \<in> dom (elts pq') \<and> fresh pq' = fresh pq + 1
    \<and> epri (the (elts pq' (fresh pq))) = epri (new_elt bits data NULL 0)
    \<and> bucket_list (elts pq') (fresh pq) = []
    \<and> mset (prioq_buckets pq') = add_mset (fresh pq) (mset (prioq_buckets pq))"
proof -
  define s where "s = prio_slot bits (take (prio_ints bits) data) PRIOQ_TABSIZE"
  have s: "s < PRIOQ_TABSIZE" by (simp add: s_def prio_slot_less PRIOQ_TABSIZE_def)
  let ?p = "fresh pq" and ?q1 = "hash_insert pq bits data s"
  note ins = hash_insert_ok [OF wf s ok]
  from maybe_rehash_ok [OF ins(1), of "hash_entry_size ?q1 > 2 * hash_key_size ?q1"]
  obtain m t k where r: "(if hash_entry_size ?q1 > 2 * hash_key_size ?q1 then CqsPrioqRehash ?q1
        else Some ?q1) = Some (?q1\<lparr>elts := m, hashtab := t, hash_key_size := k\<rparr>)"
    and tw: "table_wf (?q1\<lparr>elts := m, hashtab := t, hash_key_size := k\<rparr>)"
    and pay: "same_payload (elts ?q1) m" by blast
  let ?q2 = "?q1\<lparr>elts := m, hashtab := t, hash_key_size := k\<rparr>"
  have dom2: "dom m = insert ?p (dom (elts pq))" using same_payload_dom [OF pay] ins(4) by simp
  have pe2: "payload_except ?p (elts pq) m"
    using ins(3) same_payload_except [OF pay] by (rule payload_except_trans)
  have at2: "edata (the (m ?p)) = CqsDeqInit" "epri (the (m ?p)) = epri (new_elt bits data NULL 0)"
    using same_payload_elt [OF pay, of ?p] ins(4,6,7) by (auto simp: new_elt_def)
  have hw0: "heap_wf pq (dom (elts pq))" using wf by (simp add: prioq_wf_def)
  have deq: "dom (elts ?q2) - {?p} = dom (elts pq)" using dom2 ins(5) by simp
  have hw: "heap_wf ?q2 (dom (elts ?q2) - {?p})"
    unfolding deq using pe2 ins(5)
    by (intro heap_wf_payload [OF hw0, of ?p]) (simp_all add: hash_insert_eq)
  have "?p \<in> dom (elts ?q2)" using dom2 by simp
  note hi = heap_insert_ok [OF hw this]
  have "mem_wf m (fresh ?q1) {?p}"
    by (rule mem_wf_payload [OF ins(2) same_payload_except [OF pay, of ?p]])
       (use mem_wfD(1,2) [OF ins(2), of ?p] at2 ins(4) new_elt_wf [OF ok, of NULL 0] in \<open>simp_all add: elt_pri_def deq_simps\<close>)
  moreover have "table_wf (heap_insert ?q2 ?p)" using tw hi by (simp add: table_wf_def)
  moreover have "hash_entry_size ?q2 = heapnext ?q2" "fresh ?q2 = fresh ?q1"
    using wf by (simp_all add: prioq_wf_def heap_wf_def hash_insert_eq)
  ultimately have "prioq_wf {?p} (heap_insert ?q2 ?p)"
    unfolding prioq_wf_def using hi by simp
  moreover have "CqsPrioqGetDeq pq bits data = Some (heap_insert ?q2 ?p, ?p)"
    using miss r by (simp add: CqsPrioqGetDeq_def s_def [symmetric] Let_def)
  moreover have "prioq_buckets ?q2 = prioq_buckets pq" by (simp add: prioq_buckets_def hash_insert_eq)
  ultimately show ?thesis
    using hi pe2 ins(5) dom2 at2
    by (intro exI [of _ "heap_insert ?q2 ?p"])
       (simp add: bucket_list_def deq_simps, simp add: hash_insert_eq)
qed

lemma getDeq_ok:
  assumes wf: "prioq_wf {} pq" and ok: "unat bits < 65536" "prio_ints bits \<le> length data"
  obtains (found) b where "CqsPrioqGetDeq pq bits data = Some (pq, b)" "b \<in> dom (elts pq)"
      "elt_matches (elts pq) bits data b"
  | (new) pq' where "CqsPrioqGetDeq pq bits data = Some (pq', fresh pq)" "prioq_wf {fresh pq} pq'"
      "payload_except (fresh pq) (elts pq) (elts pq')" "fresh pq \<notin> dom (elts pq)"
      "fresh pq \<in> dom (elts pq')" "fresh pq' = fresh pq + 1"
      "epri (the (elts pq' (fresh pq))) = epri (new_elt bits data NULL 0)"
      "bucket_list (elts pq') (fresh pq) = []"
      "mset (prioq_buckets pq') = add_mset (fresh pq) (mset (prioq_buckets pq))"
      "find_chain (elts pq) bits data
        (hashtab pq ! prio_slot bits (take (prio_ints bits) data) PRIOQ_TABSIZE) = Some NULL"
proof -
  let ?s = "prio_slot bits (take (prio_ints bits) data) PRIOQ_TABSIZE"
  from wf obtain cs where cs: "hash_wf (elts pq) (hashtab pq) cs"
    and len: "PRIOQ_TABSIZE \<le> length (hashtab pq)"
    by (auto simp: prioq_wf_def table_wf_def)
  have s: "?s < length (hashtab pq)"
    using prio_slot_less [of PRIOQ_TABSIZE bits] len
    by (rule less_le_trans) (simp add: PRIOQ_TABSIZE_def)
  note ch = hash_wf_chain(1) [OF cs s]
  show ?thesis
  proof (rule find_chain_cases [OF chain_path [OF ch] chain_nonnull [OF ch], of bits data])
    assume miss: "find_chain (elts pq) bits data (hashtab pq ! ?s) = Some NULL"
    from getDeq_new [OF wf ok miss] miss show ?thesis using new by blast
  next
    fix b assume "find_chain (elts pq) bits data (hashtab pq ! ?s) = Some b" "b \<in> set (cs ! ?s)"
      "b \<noteq> NULL" "elt_matches (elts pq) bits data b"
    then show ?thesis using chain_dom [OF ch]
      by (intro found [of b]) (auto simp: CqsPrioqGetDeq_def Let_def)
  qed
qed

section \<open>Filling and emptying a bucket\<close>

definition upd_edata :: "prioq \<Rightarrow> ptr \<Rightarrow> deq \<Rightarrow> prioq" where
  "upd_edata pq b d = pq\<lparr>elts := upd_elt (elts pq) b (\<lambda>x. x\<lparr>edata := d\<rparr>)\<rparr>"

lemma upd_edata_simps [simp]:
  "dom (elts (upd_edata pq b d)) = dom (elts pq)"
  "heap (upd_edata pq b d) = heap pq" "heapnext (upd_edata pq b d) = heapnext pq"
  "heapsize (upd_edata pq b d) = heapsize pq" "fresh (upd_edata pq b d) = fresh pq"
  "hashtab (upd_edata pq b d) = hashtab pq" "hash_key_size (upd_edata pq b d) = hash_key_size pq"
  "hash_entry_size (upd_edata pq b d) = hash_entry_size pq"
  "prioq_buckets (upd_edata pq b d) = prioq_buckets pq"
  by (simp_all add: upd_edata_def prioq_buckets_def)

lemma upd_edata_at:
  assumes "b \<in> dom (elts pq)"
  shows "elt_pri (elts (upd_edata pq b d)) c = elt_pri (elts pq) c"
    and "elt_key (elts (upd_edata pq b d)) c = elt_key (elts pq) c"
    and "edata (the (elts (upd_edata pq b d) b)) = d"
    and "bucket_list (elts (upd_edata pq b d)) b = deq_list d"
    and "c \<noteq> b \<Longrightarrow> bucket_list (elts (upd_edata pq b d)) c = bucket_list (elts pq) c"
    and "payload_except b (elts pq) (elts (upd_edata pq b d))"
proof -
  show pri: "elt_pri (elts (upd_edata pq b d)) c = elt_pri (elts pq) c" for c
    using assms by (cases "c = b") (auto simp: upd_edata_def elt_pri_def)
  then show "elt_key (elts (upd_edata pq b d)) c = elt_key (elts pq) c" by (simp add: elt_key_def)
  show "edata (the (elts (upd_edata pq b d) b)) = d" "bucket_list (elts (upd_edata pq b d)) b = deq_list d"
    using assms by (auto simp: upd_edata_def bucket_list_def)
qed (auto simp: upd_edata_def bucket_list_def)

lemma upd_edata_wf:
  assumes wf: "prioq_wf X pq" and b: "b \<in> dom (elts pq)"
    and d: "deq_inv d" "b \<in> Y \<or> deq_list d \<noteq> []" "X \<subseteq> insert b Y"
  shows "prioq_wf Y (upd_edata pq b d)"
proof -
  let ?q = "upd_edata pq b d"
  note at = upd_edata_at [OF b, where d = d]
  have hw: "heap_wf pq (dom (elts pq))" and mw: "mem_wf (elts pq) (fresh pq) X"
    using wf by (auto simp: prioq_wf_def)
  have key: "elt_key (elts ?q) = elt_key (elts pq)" using at(2) by (rule ext)
  have "heap_wf ?q (dom (elts ?q))" using hw key by (simp add: heap_wf_def)
  moreover have "mem_wf (elts ?q) (fresh ?q) Y"
  proof (rule mem_wfI)
    show "0 < fresh ?q" using mw by (simp add: mem_wf_def)
    fix c assume "c \<in> dom (elts ?q)"
    then have c: "c \<in> dom (elts pq)" by simp
    have "edata (the (elts ?q c)) = edata (the (elts pq c))" if "c \<noteq> b"
      using that by (simp add: upd_edata_def)
    moreover have "c \<in> Y \<or> bucket_list (elts ?q) c \<noteq> []"
      using mem_wfD(5) [OF mw c] d(2,3) at(4) at(5) [where c = c] by (cases "c = b") auto
    ultimately show "c \<noteq> NULL \<and> c < fresh ?q \<and> deq_inv (edata (the (elts ?q c))) \<and>
        prio_wf (elt_pri (elts ?q) c) \<and> (c \<in> Y \<or> bucket_list (elts ?q) c \<noteq> [])"
      using mem_wfD(1-4) [OF mw c] at(1,3) d(1) by (cases "c = b") simp_all
  qed
  moreover have "same_links (elts pq) (elts ?q) S" for S
    by (auto simp: same_links_def upd_edata_def upd_elt_def option.map_comp comp_def)
  then have "table_wf ?q" using wf hash_wf_links by (fastforce simp: prioq_wf_def table_wf_def)
  ultimately show ?thesis using wf by (simp add: prioq_wf_def)
qed

definition bucket_bag :: "eltmem \<Rightarrow> ptr \<Rightarrow> (u32 list \<times> ptr) multiset" where
  "bucket_bag m b = image_mset (Pair (elt_key m b)) (mset (bucket_list m b))"

lemma prioq_wf_buckets:
  assumes "prioq_wf X pq"
  shows "set (prioq_buckets pq) = dom (elts pq)" "distinct (prioq_buckets pq)" "finite (dom (elts pq))"
proof -
  show s: "set (prioq_buckets pq) = dom (elts pq)" and "distinct (prioq_buckets pq)"
    using assms by (auto simp: prioq_wf_def heap_wf_def)
  show "finite (dom (elts pq))" unfolding s [symmetric] by simp
qed

lemma mset_entries:
  assumes "prioq_wf X pq"
  shows "mset (prioq_entries pq) = (\<Sum>b \<in> dom (elts pq). bucket_bag (elts pq) b)"
  using prioq_wf_buckets [OF assms]
  by (simp add: prioq_entries_def mset_concat comp_def bucket_bag_def
      sum_list_distinct_conv_sum_set)

lemma set_entries:
  "prioq_wf X pq \<Longrightarrow>
   set (prioq_entries pq) = {(elt_key (elts pq) b, x) |b x. b \<in> dom (elts pq) \<and> x \<in> set (bucket_list (elts pq) b)}"
  using prioq_wf_buckets(1) [of X pq] by (auto simp: prioq_entries_def)

lemma sum_change_one:
  fixes f g :: "'a \<Rightarrow> 'b multiset"
  assumes "finite A" "b \<in> A" "\<And>c. c \<in> A \<Longrightarrow> c \<noteq> b \<Longrightarrow> g c = f c"
  shows "sum g A + f b = sum f A + g b"
proof -
  have "sum g (A - {b}) = sum f (A - {b})" using assms(3) by (intro sum.cong) auto
  then show ?thesis using sum.remove [OF assms(1,2), of f] sum.remove [OF assms(1,2), of g]
    by (simp add: ac_simps)
qed

lemma upd_edata_entries:
  assumes wf: "prioq_wf X pq" "prioq_wf Y (upd_edata pq b d)" and b: "b \<in> dom (elts pq)"
  shows "mset (prioq_entries (upd_edata pq b d)) + image_mset (Pair (elt_key (elts pq) b)) (mset (bucket_list (elts pq) b))
    = mset (prioq_entries pq) + image_mset (Pair (elt_key (elts pq) b)) (mset (deq_list d))"
proof -
  note at = upd_edata_at [OF b, where d = d]
  have "sum (bucket_bag (elts (upd_edata pq b d))) (dom (elts pq)) + bucket_bag (elts pq) b
      = sum (bucket_bag (elts pq)) (dom (elts pq)) + bucket_bag (elts (upd_edata pq b d)) b"
    using prioq_wf_buckets(3) [OF wf(1)] b at
    by (intro sum_change_one) (simp_all add: bucket_bag_def)
  then show ?thesis using mset_entries [OF wf(1)] mset_entries [OF wf(2)] at
    by (simp add: bucket_bag_def)
qed

lemma elt_matches_key:
  assumes "elt_matches m bits data b" "prio_wf (elt_pri m b)"
  shows "elt_key m b = take (prio_ints bits) data"
  using assms by (auto simp: elt_matches_def elt_key_def prio_key_wf prio_wf_def)

lemma elt_matches_new:
  assumes "epri (the (m b)) = epri (new_elt bits data q s)" "unat bits < 65536"
  shows "elt_matches m bits data b"
  using assms(1) ucast_u16_back [OF assms(2)] by (simp add: elt_matches_def elt_pri_def new_elt_def)

lemma prioq_enqueue_eq:
  "CqsPrioqGetDeq pq bits data = Some (pq', b) \<Longrightarrow>
   prioq_enqueue fifo pq bits data msg =
     Some (upd_edata pq' b (if fifo then CqsDeqEnqueueFifo (edata (the (elts pq' b))) msg
       else CqsDeqEnqueueLifo (edata (the (elts pq' b))) msg))"
  by (cases "elts pq' b") (auto simp: prioq_enqueue_def upd_edata_def upd_elt_def)

definition put_end :: "bool \<Rightarrow> ptr list \<Rightarrow> ptr \<Rightarrow> ptr list" where
  "put_end fifo xs x = (if fifo then xs @ [x] else x # xs)"

lemma mset_put_end [simp]: "mset (put_end fifo xs x) = add_mset x (mset xs)"
  by (simp add: put_end_def)

text \<open>
  A prioritised enqueue: some bucket with the requested priority gets the message at the
  chosen end, every other bucket keeps its messages.
\<close>

lemma prioq_enqueue_ok:
  assumes wf: "prioq_wf {} pq" and ok: "unat bits < 65536" "prio_ints bits \<le> length data"
  obtains pq' b where "prioq_enqueue fifo pq bits data msg = Some pq'" "prioq_wf {} pq'"
    "b \<in> dom (elts pq')" "elt_matches (elts pq') bits data b"
    "dom (elts pq') = insert b (dom (elts pq))" "payload_except b (elts pq) (elts pq')"
    "bucket_list (elts pq') b =
      put_end fifo (if b \<in> dom (elts pq) then bucket_list (elts pq) b else []) msg"
    "mset (prioq_entries pq') = add_mset (take (prio_ints bits) data, msg) (mset (prioq_entries pq))"
    "b \<notin> dom (elts pq) \<Longrightarrow> find_chain (elts pq) bits data
        (hashtab pq ! prio_slot bits (take (prio_ints bits) data) PRIOQ_TABSIZE) = Some NULL"
    "b \<in> dom (elts pq) \<Longrightarrow> elt_pri (elts pq') b = elt_pri (elts pq) b"
proof -
  note result = that
  have fin: thesis if g: "CqsPrioqGetDeq pq bits data = Some (pq1, b)" and wf1: "prioq_wf {b} pq1"
    and b: "b \<in> dom (elts pq1)" and mt: "elt_matches (elts pq1) bits data b"
    and D: "dom (elts pq1) = insert b (dom (elts pq))" and P: "payload_except b (elts pq) (elts pq1)"
    and L: "bucket_list (elts pq1) b = (if b \<in> dom (elts pq) then bucket_list (elts pq) b else [])"
    and E: "mset (prioq_entries pq1) = mset (prioq_entries pq)"
    and F: "b \<notin> dom (elts pq) \<Longrightarrow> find_chain (elts pq) bits data
        (hashtab pq ! prio_slot bits (take (prio_ints bits) data) PRIOQ_TABSIZE) = Some NULL"
    and K: "b \<in> dom (elts pq) \<Longrightarrow> elt_pri (elts pq1) b = elt_pri (elts pq) b"
    for pq1 b
  proof -
    let ?old = "edata (the (elts pq1 b))"
    let ?d = "if fifo then CqsDeqEnqueueFifo ?old msg else CqsDeqEnqueueLifo ?old msg"
    let ?q = "upd_edata pq1 b ?d"
    have mw: "mem_wf (elts pq1) (fresh pq1) {b}" using wf1 by (simp add: prioq_wf_def)
    note M = mem_wfD [OF mw b]
    have d: "deq_inv ?d" "deq_list ?d = put_end fifo (bucket_list (elts pq1) b) msg"
      using M(3) by (auto simp: deq_simps put_end_def bucket_list_def)
    note at = upd_edata_at [OF b, where d = ?d]
    have wf': "prioq_wf {} ?q"
      using d by (intro upd_edata_wf [OF wf1 b]) (auto simp: put_end_def)
    have key: "elt_key (elts pq1) b = take (prio_ints bits) data"
      using mt M(4) by (rule elt_matches_key)
    have "mset (prioq_entries ?q) = add_mset (take (prio_ints bits) data, msg) (mset (prioq_entries pq))"
      using upd_edata_entries [OF wf1 wf' b] d(2) key E by simp
    moreover have "elt_matches (elts ?q) bits data b" using mt unfolding elt_matches_def at(1) .
    moreover have "payload_except b (elts pq) (elts ?q)" using P at(6) by (rule payload_except_trans)
    ultimately show thesis
      using prioq_enqueue_eq [OF g, of fifo msg] wf' b D L d(2) at(1,4) F K by (intro result [of ?q b]) simp_all
  qed
  from wf ok show thesis
  proof (cases rule: getDeq_ok)
    case (found b)
    then show ?thesis using wf
      by (intro fin [of pq b]) (auto intro: prioq_wf_weaken simp: payload_except_def)
  next
    case (new pq1)
    let ?b = "fresh pq"
    have D: "dom (elts pq1) = insert ?b (dom (elts pq))"
    proof (intro set_eqI)
      fix c show "c \<in> dom (elts pq1) \<longleftrightarrow> c \<in> insert ?b (dom (elts pq))"
        using payload_exceptD(1) [OF new(3), of c] new(5) by (cases "c = ?b") simp_all
    qed
    have "sum (bucket_bag (elts pq1)) (dom (elts pq)) = sum (bucket_bag (elts pq)) (dom (elts pq))"
    proof (rule sum.cong [OF refl])
      fix c assume c: "c \<in> dom (elts pq)"
      then have "c \<noteq> ?b" using new(4) by blast
      then show "bucket_bag (elts pq1) c = bucket_bag (elts pq) c"
        using payload_exceptD(4,5) [OF new(3) _ c] by (simp add: bucket_bag_def)
    qed
    then have "mset (prioq_entries pq1) = mset (prioq_entries pq)"
      using mset_entries [OF new(2)] mset_entries [OF wf] D new(4,8) prioq_wf_buckets(3) [OF wf]
      by (simp add: bucket_bag_def)
    then show ?thesis using new D ok(1)
      by (intro fin [of pq1 ?b]) (auto intro: elt_matches_new)
  qed
qed

section \<open>Dequeue\<close>

lemma unlink_payload: "same_payload m (unlink_mem m pe)"
proof -
  have "same_payload m (upd_elt m p (\<lambda>x. x\<lparr>ht_next := q\<rparr>))" for m p q
    by (auto simp: same_payload_def upd_elt_def option.map_comp comp_def)
  note next_upd = this
  show ?thesis
  proof (cases "ht_handle (the (m pe))")
    case (Slot i)
    then show ?thesis by (simp add: unlink_mem_def set_first_handle_payload)
  next
    case (NextOf p)
    then show ?thesis
      using same_payload_trans [OF set_first_handle_payload next_upd]
      by (simp add: unlink_mem_def Let_def)
  qed
qed

lemma unlink_chains:
  assumes cs: "hash_wf m tab cs" "chains_set cs = dom m" and pe: "pe \<in> dom m"
  obtains cs' where "hash_wf ((unlink_mem m pe)(pe := None)) (unlink_tab m tab pe) cs'"
    "chains_set cs' = dom m - {pe}" "length cs' = length cs" "\<And>i. i < length cs \<Longrightarrow> set (cs' ! i) \<subseteq> set (cs ! i)"
proof -
  obtain s where s: "s < length cs" "pe \<in> set (cs ! s)" using pe cs(2) by (auto simp: chains_set_def)
  have st: "s < length tab" using cs(1) s by (simp add: hash_wf_def)
  have "set (remove1 pe (cs ! s)) = set (cs ! s) - {pe}"
    using hash_wf_chain(2) [OF cs(1) st] by (rule set_remove1_eq)
  moreover have "pe \<notin> set (cs ! j)" if "j < length cs" "j \<noteq> s" for j
    using cs(1) s st that by (auto simp: hash_wf_def)
  moreover have "chains_set cs = set (cs ! s) \<union> (\<Union>j \<in> {..<length cs} - {s}. set (cs ! j))"
    using s(1) by (auto simp: chains_set_def)
  ultimately have "chains_set (cs[s := remove1 pe (cs ! s)]) = chains_set cs - {pe}"
    using chains_set_update [OF s(1)] by auto
  moreover have "set (cs[s := remove1 pe (cs ! s)] ! i) \<subseteq> set (cs ! i)" if "i < length cs" for i
    using that set_remove1_subset [of pe "cs ! s"] by (cases "i = s") simp_all
  ultimately show ?thesis using unlink_wf [OF cs(1) st s(2)] cs(2)
    by (intro that [of "cs[s := remove1 pe (cs ! s)]"]) simp_all
qed

lemma unlink_tab_length [simp]: "length (unlink_tab m tab pe) = length tab"
  by (simp add: unlink_tab_def Let_def split: handle.split)

lemma dom_unlink_mem: "dom (unlink_mem m pe) = dom m"
  using same_payload_dom [OF unlink_payload] by blast

lemma table_wf_unlink:
  assumes wf: "table_wf pq" and pe: "pe \<in> dom (elts pq)"
  shows "table_wf ((hash_unlink pq pe)\<lparr>elts := (elts (hash_unlink pq pe))(pe := None)\<rparr>)"
proof -
  from wf obtain cs where cs: "hash_wf (elts pq) (hashtab pq) cs" "chains_set cs = dom (elts pq)"
    by (auto simp: table_wf_def)
  obtain cs' where "hash_wf ((unlink_mem (elts pq) pe)(pe := None)) (unlink_tab (elts pq) (hashtab pq) pe) cs'"
    "chains_set cs' = dom (elts pq) - {pe}" using unlink_chains [OF cs pe] by metis
  then show ?thesis using wf by (auto simp: table_wf_def hash_unlink_eq dom_unlink_mem)
qed

lemma prioq_wf_root:
  assumes wf: "prioq_wf {} pq" and ne: "heapnext pq \<noteq> 1"
  defines "pe \<equiv> heap pq ! 1"
  shows "pe \<in> dom (elts pq)" "bucket_list (elts pq) pe \<noteq> []" "deq_inv (edata (the (elts pq pe)))"
    "\<And>b. b \<in> dom (elts pq) \<Longrightarrow> elt_key (elts pq) pe \<le> elt_key (elts pq) b"
proof -
  have hw: "heap_wf pq (dom (elts pq))" and mw: "mem_wf (elts pq) (fresh pq) {}"
    using wf by (auto simp: prioq_wf_def)
  then have n: "1 < heapnext pq" "heapnext pq \<le> length (heap pq)" using ne by (auto simp: heap_wf_def)
  then show pe: "pe \<in> dom (elts pq)" unfolding pe_def by (intro heap_wf_nth [OF hw]) auto
  show "bucket_list (elts pq) pe \<noteq> []" "deq_inv (edata (the (elts pq pe)))"
    using mem_wfD [OF mw pe] by auto
  show "elt_key (elts pq) pe \<le> elt_key (elts pq) b" if "b \<in> dom (elts pq)" for b
    using hw n that prioq_wf_buckets(1) [OF wf] unfolding pe_def prioq_buckets_def
    by (intro heap_ord_root_min [of _ _ "heapnext pq"]) (auto simp: heap_wf_def)
qed

text \<open>Removing the root bucket once it is empty.\<close>

definition drop_root :: "prioq \<Rightarrow> prioq" where
  "drop_root pq =
     (let pe = heap pq ! 1; pq2 = hash_unlink pq pe; n = heapnext pq2 - 1
      in pq2\<lparr>hash_entry_size := hash_entry_size pq2 - 1, heapnext := n,
             heap := sift_down (elt_gt (elts pq2)) (elt_gt (elts pq2)) (heap pq2) n 1 (heap pq2 ! n),
             elts := (elts pq2)(pe := None)\<rparr>)"

lemma CqsPrioqDequeue_eq:
  "CqsPrioqDequeue pq =
     (if heapnext pq = 1 then (NULL, pq)
      else let r = CqsDeqDequeue (edata (the (elts pq (heap pq ! 1))));
               pq1 = upd_edata pq (heap pq ! 1) (snd r)
           in (fst r, if deq_empty (snd r) then drop_root pq1 else pq1))"
  by (auto simp: CqsPrioqDequeue_def drop_root_def upd_edata_def Let_def split: prod.split)

lemma drop_root_ok:
  assumes wf: "prioq_wf {heap pq ! 1} pq" and ne: "heapnext pq \<noteq> 1"
  shows "prioq_wf {} (drop_root pq)" "dom (elts (drop_root pq)) = dom (elts pq) - {heap pq ! 1}"
    "payload_except (heap pq ! 1) (elts pq) (elts (drop_root pq))"
proof -
  let ?pe = "heap pq ! 1" and ?q = "drop_root pq"
  let ?m = "unlink_mem (elts pq) (heap pq ! 1)" and ?n = "heapnext pq - 1"
  have hw: "heap_wf pq (dom (elts pq))" and mw: "mem_wf (elts pq) (fresh pq) {?pe}"
    and tw: "table_wf pq" and hs: "hash_entry_size pq = heapnext pq - 1"
    using wf by (auto simp: prioq_wf_def)
  have n: "1 \<le> ?n" "?n < length (heap pq)" "heapnext pq = Suc ?n" using hw ne by (auto simp: heap_wf_def)
  have pe: "?pe \<in> dom (elts pq)" using n by (intro heap_wf_nth [OF hw]) auto
  have q: "heap ?q = sift_down (elt_gt ?m) (elt_gt ?m) (heap pq) ?n 1 (heap pq ! ?n)"
    "heapnext ?q = ?n" "heapsize ?q = heapsize pq" "elts ?q = ?m(?pe := None)" "fresh ?q = fresh pq"
    "hash_entry_size ?q = hash_entry_size pq - 1"
    by (simp_all add: drop_root_def hash_unlink_eq Let_def)
  have pay: "same_payload (elts pq) ?m" by (rule unlink_payload)
  show dom: "dom (elts ?q) = dom (elts pq) - {?pe}" using q(4) same_payload_dom [OF pay] by simp
  show pex: "payload_except ?pe (elts pq) (elts ?q)"
    unfolding q(4) using same_payload_except [OF pay] by (rule payload_except_trans) simp
  have "mset (prioq_buckets ?q) = mset (prioq_buckets pq) - {#?pe#}"
    using prioq_heap.sift_down_elems [OF n(1,2), of ?m] n(3) by (simp add: prioq_buckets_def q)
  then have ms: "mset (prioq_buckets ?q) = mset (remove1 ?pe (prioq_buckets pq))" by simp
  have bk: "distinct (prioq_buckets ?q)" "set (prioq_buckets ?q) = dom (elts ?q)"
    using ms prioq_wf_buckets [OF wf] dom mset_eq_imp_distinct_iff [OF ms] mset_eq_setD [OF ms]
    by (auto simp: distinct_remove1 set_remove1_eq)
  have "elt_key ?m b = elt_key (elts pq) b" if "b \<in> dom (elts pq)" for b
    using same_payload_elt [OF pay that] by (simp add: elt_key_def elt_pri_def)
  then have "elt_key (elts pq) (heap pq ! i) = elt_key ?m (heap pq ! i)" if "1 \<le> i" "i < heapnext pq" for i
    using heap_wf_nth [OF hw that] by simp
  then have "heap_ord (elt_key ?m) (heap pq) (heapnext pq)"
    using hw heap_ord_cong [of "heapnext pq" "elt_key (elts pq)" "heap pq" "elt_key ?m" "heap pq"]
    by (simp add: heap_wf_def)
  then have "heap_ord (elt_key ?m) (heap pq) ?n" by (auto simp: heap_ord_def)
  then have "heap_ord (elt_key ?m) (heap ?q) ?n"
    using n prioq_heap.sift_down_ord [of ?m "heap pq" ?n "heap pq ! ?n"] by (simp add: q)
  then have "heap_ord (elt_key (elts ?q)) (heap ?q) ?n"
    using heap_ord_payload [of ?m "heap ?q" ?n ?pe "elts ?q"] n bk(2) dom same_payload_dom [OF pay]
    by (simp add: q prioq_buckets_def)
  then have "heap_wf ?q (dom (elts ?q))" using hw n bk by (auto simp: heap_wf_def q)
  moreover have "mem_wf (elts ?q) (fresh ?q) {}"
  proof (rule mem_wfI)
    show "0 < fresh ?q" using mw by (simp add: mem_wf_def q)
    fix b assume "b \<in> dom (elts ?q)"
    then have b: "b \<in> dom (elts pq)" "b \<noteq> ?pe" unfolding dom by auto
    then show "b \<noteq> NULL \<and> b < fresh ?q \<and> deq_inv (edata (the (elts ?q b))) \<and>
        prio_wf (elt_pri (elts ?q) b) \<and> (b \<in> {} \<or> bucket_list (elts ?q) b \<noteq> [])"
      using mem_wfD [OF mw b(1)] payload_exceptD [OF pex b(2)] by (simp add: q(5))
  qed
  moreover have "table_wf ?q" using table_wf_unlink [OF tw pe]
    by (simp add: table_wf_def drop_root_def Let_def hash_unlink_eq)
  ultimately show "prioq_wf {} ?q" using hs by (simp add: prioq_wf_def q)
qed

lemma drop_root_entries:
  assumes wf: "prioq_wf {heap pq ! 1} pq" and ne: "heapnext pq \<noteq> 1"
    and empty: "bucket_list (elts pq) (heap pq ! 1) = []"
  shows "mset (prioq_entries (drop_root pq)) = mset (prioq_entries pq)"
proof -
  let ?pe = "heap pq ! 1" and ?A = "dom (elts pq) - {heap pq ! 1}"
  note D = drop_root_ok [OF wf ne]
  have "bucket_bag (elts (drop_root pq)) b = bucket_bag (elts pq) b" if "b \<in> ?A" for b
    using that payload_exceptD(4,5) [OF D(3), of b] by (simp add: bucket_bag_def)
  then have "sum (bucket_bag (elts (drop_root pq))) ?A = sum (bucket_bag (elts pq)) ?A"
    by (rule sum.cong [OF refl])
  also have "\<dots> = sum (bucket_bag (elts pq)) (dom (elts pq))"
    using prioq_wf_buckets(3) [OF wf] empty by (intro sum.mono_neutral_left) (auto simp: bucket_bag_def)
  finally show ?thesis using mset_entries [OF D(1)] mset_entries [OF wf] D(2) by simp
qed

lemma prioq_empty_iff:
  assumes wf: "prioq_wf {} pq"
  shows "prioq_entries pq = [] \<longleftrightarrow> heapnext pq = 1"
proof
  assume "heapnext pq = 1"
  then show "prioq_entries pq = []" by (simp add: prioq_entries_def prioq_buckets_def heap_elems_def)
next
  assume e: "prioq_entries pq = []"
  show "heapnext pq = 1"
  proof (rule ccontr)
    assume "heapnext pq \<noteq> 1"
    note R = prioq_wf_root [OF wf this]
    then have "hd (bucket_list (elts pq) (heap pq ! 1)) \<in> set (bucket_list (elts pq) (heap pq ! 1))"
      by simp
    with R(1) have "(elt_key (elts pq) (heap pq ! 1), hd (bucket_list (elts pq) (heap pq ! 1)))
        \<in> set (prioq_entries pq)"
      unfolding set_entries [OF wf] by blast
    with e show False by simp
  qed
qed

lemma prioq_dequeue_ok:
  assumes wf: "prioq_wf {} pq" and ne: "heapnext pq \<noteq> 1"
  defines "pe \<equiv> heap pq ! 1"
  obtains x xs pq' where "CqsPrioqDequeue pq = (x, pq')" "bucket_list (elts pq) pe = x # xs"
    "prioq_wf {} pq'" "payload_except pe (elts pq) (elts pq')"
    "mset (prioq_entries pq) = add_mset (elt_key (elts pq) pe, x) (mset (prioq_entries pq'))"
    "dom (elts pq') = (if xs = [] then dom (elts pq) - {pe} else dom (elts pq))"
    "xs \<noteq> [] \<Longrightarrow> bucket_list (elts pq') pe = xs \<and> elt_pri (elts pq') pe = elt_pri (elts pq) pe"
proof -
  note R = prioq_wf_root [OF wf ne, folded pe_def]
  obtain x xs where l: "bucket_list (elts pq) pe = x # xs" using R(2) by (auto simp: neq_Nil_conv)
  let ?r = "CqsDeqDequeue (edata (the (elts pq pe)))"
  have r: "fst ?r = x" "deq_list (snd ?r) = xs" "deq_inv (snd ?r)"
    using l R(3) by (auto simp: bucket_list_def deq_simps)
  let ?q1 = "upd_edata pq pe (snd ?r)"
  note at = upd_edata_at [OF R(1), where d = "snd ?r"]
  have h1: "heap ?q1 ! 1 = pe" "heapnext ?q1 \<noteq> 1" using ne by (simp_all add: pe_def)
  have wf1: "prioq_wf {pe} ?q1" using r by (intro upd_edata_wf [OF wf R(1)]) auto
  have E1: "mset (prioq_entries pq) = add_mset (elt_key (elts pq) pe, x) (mset (prioq_entries ?q1))"
    using upd_edata_entries [OF wf wf1 R(1)] l r(2) by simp
  have eq: "CqsPrioqDequeue pq = (x, if xs = [] then drop_root ?q1 else ?q1)"
    using ne r deq_empty_iff [OF r(3)]
    by (simp add: CqsPrioqDequeue_eq pe_def [symmetric] Let_def del: One_nat_def)
  show thesis
  proof (cases "xs = []")
    case True
    have wfr: "prioq_wf {heap ?q1 ! 1} ?q1" using wf1 h1(1) by simp
    have mt: "bucket_list (elts ?q1) (heap ?q1 ! 1) = []" using at(4) r(2) True h1(1) by simp
    note D = drop_root_ok [OF wfr h1(2)]
    have "payload_except pe (elts pq) (elts (drop_root ?q1))"
      using at(6) D(3) unfolding h1(1) by (rule payload_except_trans)
    then show thesis
      using eq l D(1,2) E1 drop_root_entries [OF wfr h1(2) mt] True h1(1)
      by (intro that [of x "drop_root ?q1" xs]) simp_all
  next
    case False
    then have "prioq_wf {} ?q1" using r by (intro upd_edata_wf [OF wf R(1)]) auto
    then show thesis using eq l E1 False at r(2) by (intro that [of x ?q1 xs]) simp_all
  qed
qed

section \<open>Properties of the priority queue\<close>

lemma sample_prioq: "\<exists>pq. prioq_wf {} pq \<and> mset (prioq_entries pq) = {#([5], 77)#}"
proof -
  have "unat (32 :: u32) < 65536" "prio_ints 32 \<le> length [5 :: u32]"
    by (simp_all add: prio_ints_def CINTBITS_def)
  from prioq_enqueue_ok [OF prioq_wf_init this, of True 77] show ?thesis
    by (metis CINTBITS_def One_nat_def mset_zero_iff prio_ints_32 prioq_entries_init take_Suc_Cons take0)
qed

text \<open>
  C2.  A prioritised enqueue always returns (no chain of the hash table is cyclic and no
  pointer dangles, before and after any rehash), keeps the queue well-formed and adds
  exactly the message with its priority to the contents.
\<close>

theorem prioq_enqueue_adds:
  assumes "prioq_wf {} pq" "unat bits < 65536" "prio_ints bits \<le> length data"
  shows "\<exists>pq'. prioq_enqueue fifo pq bits data msg = Some pq' \<and> prioq_wf {} pq' \<and>
    mset (prioq_entries pq') = add_mset (take (prio_ints bits) data, msg) (mset (prioq_entries pq))"
  using prioq_enqueue_ok [OF assms, of fifo msg] by metis

theorem prioq_enqueue_adds_witness:
  "\<exists>pq'. prioq_enqueue True CqsPrioqInit 32 [5] 77 = Some pq' \<and> prioq_wf {} pq' \<and>
     mset (prioq_entries pq') = {#([5], 77)#}"
  using prioq_enqueue_adds [OF prioq_wf_init, of 32 "[5]" True 77]
  by (simp add: prio_ints_def CINTBITS_def)

text \<open>
  C3.  A dequeue from a non-empty priority queue returns a message of the numerically
  smallest priority (in the lexicographic order of the priority words), removes exactly
  that message and keeps the queue well-formed; on an empty queue it returns
  \<^verbatim>\<open>NULL\<close> and changes nothing.
\<close>

theorem prioq_dequeue_min:
  assumes "prioq_wf {} pq" "CqsPrioqDequeue pq = (x, pq')"
  shows "prioq_wf {} pq' \<and>
    (if prioq_entries pq = [] then x = NULL \<and> pq' = pq
     else \<exists>k. mset (prioq_entries pq) = add_mset (k, x) (mset (prioq_entries pq')) \<and>
            (\<forall>(k', y) \<in> set (prioq_entries pq). k \<le> k'))"
proof (cases "heapnext pq = 1")
  case True
  then show ?thesis using assms prioq_empty_iff [OF assms(1)] by (auto simp: CqsPrioqDequeue_eq)
next
  case False
  then have ne: "prioq_entries pq \<noteq> []" using prioq_empty_iff [OF assms(1)] by simp
  from prioq_dequeue_ok [OF assms(1) False] assms(2)
  have "prioq_wf {} pq'" "mset (prioq_entries pq) =
      add_mset (elt_key (elts pq) (heap pq ! 1), x) (mset (prioq_entries pq'))" by (metis prod.inject)+
  moreover have "\<forall>(k', y) \<in> set (prioq_entries pq). elt_key (elts pq) (heap pq ! 1) \<le> k'"
    using prioq_wf_root(4) [OF assms(1) False] set_entries [OF assms(1)] by auto
  ultimately show ?thesis using ne by auto
qed

theorem prioq_dequeue_min_witness:
  "\<exists>pq x pq'. prioq_entries pq \<noteq> [] \<and> CqsPrioqDequeue pq = (x, pq') \<and> prioq_wf {} pq' \<and> x = 77"
proof -
  obtain pq where pq: "prioq_wf {} pq" "mset (prioq_entries pq) = {#([5], 77)#}"
    using sample_prioq by blast
  obtain x pq' where d: "CqsPrioqDequeue pq = (x, pq')" by force
  have "prioq_entries pq \<noteq> []" using pq(2) by auto
  moreover from this have "prioq_wf {} pq' \<and> x = 77"
    using prioq_dequeue_min [OF pq(1) d] pq(2) by auto
  ultimately show ?thesis using d by blast
qed

end
