(* ===== verification/PrioqOrder.thy ===== *)
theory PrioqOrder
  imports PrioqCorrect
begin

text \<open>
  Order within one priority.  As long as the hash table has its initial size every priority
  has at most one bucket, so messages of equal priority leave in the order of the queueing
  strategy.  The lookup of a bucket always reduces the hash modulo \<^verbatim>\<open>PRIOQ_TABSIZE\<close>
  while \<^verbatim>\<open>CqsPrioqRehash\<close> distributes the buckets modulo the new size; the last theorem of
  this theory shows what that costs after a rehash.
\<close>

section \<open>One bucket per priority\<close>

definition prio_id :: "eltmem \<Rightarrow> ptr \<Rightarrow> u16 \<times> u32 list" where
  "prio_id m b = (pbits (elt_pri m b), pdata (elt_pri m b))"

definition table_placed :: "prioq \<Rightarrow> bool" where
  "table_placed pq \<longleftrightarrow>
     length (hashtab pq) = PRIOQ_TABSIZE \<and>
     (\<exists>cs. hash_wf (elts pq) (hashtab pq) cs \<and> chains_set cs = dom (elts pq) \<and>
           placed (elts pq) cs PRIOQ_TABSIZE)"

definition prioq_uniq :: "prioq \<Rightarrow> bool" where
  "prioq_uniq pq \<longleftrightarrow>
     prioq_wf {} pq \<and> table_placed pq \<and> inj_on (prio_id (elts pq)) (dom (elts pq))"

definition prioq_lookup :: "prioq \<Rightarrow> u32 \<Rightarrow> u32 list \<Rightarrow> ptr list" where
  "prioq_lookup pq bits data =
     concat (map (bucket_list (elts pq)) (filter (elt_matches (elts pq) bits data) (prioq_buckets pq)))"

lemma prioq_uniq_init: "prioq_uniq CqsPrioqInit"
proof -
  have "table_placed CqsPrioqInit"
    unfolding table_placed_def
    by (intro conjI exI [of _ "replicate PRIOQ_TABSIZE []"])
       (simp_all add: CqsPrioqInit_def hash_wf_empty chains_set_def placed_def)
  then show ?thesis using prioq_wf_init by (simp add: prioq_uniq_def) (simp add: CqsPrioqInit_def)
qed

lemma ucast_u16_u32 [simp]: "ucast (ucast (x :: u16) :: u32) = x"
  by (rule ucast_up_ucast_id) (simp add: is_up)

lemma elt_matches_id:
  assumes "elt_matches m bits data b" "prio_wf (elt_pri m b)"
  shows "prio_id m b = (ucast bits, take (prio_ints bits) data)"
proof -
  have "bits = ucast (pbits (elt_pri m b))" using assms(1) unfolding elt_matches_def by blast
  then have "ucast bits = pbits (elt_pri m b)" by (simp only: ucast_u16_u32)
  moreover have "pdata (elt_pri m b) = take (prio_ints bits) data"
    using elt_matches_key [OF assms] prio_key_wf [OF assms(2)] by (simp add: elt_key_def)
  ultimately show ?thesis by (simp add: prio_id_def)
qed

lemma elt_matches_slot:
  assumes "elt_matches m bits data b" "prio_wf (elt_pri m b)"
  shows "elt_slot m b n = prio_slot bits (take (prio_ints bits) data) n"
proof -
  have "take (unat (pints (elt_pri m b))) (pdata (elt_pri m b)) = pdata (elt_pri m b)"
    using assms(2) by (simp add: prio_wf_def)
  moreover have "pdata (elt_pri m b) = take (prio_ints bits) data"
    using elt_matches_key [OF assms] prio_key_wf [OF assms(2)] by (simp add: elt_key_def)
  moreover have "ucast (pbits (elt_pri m b)) = bits" using assms(1) by (simp add: elt_matches_def)
  ultimately show ?thesis by (simp add: elt_slot_def)
qed

lemma elt_matches_cong:
  "elt_pri m' b = elt_pri m b \<Longrightarrow> elt_matches m' bits data b = elt_matches m bits data b"
  unfolding elt_matches_def by (erule ssubst) (rule refl)

lemma wf_prio: "prioq_wf X pq \<Longrightarrow> b \<in> dom (elts pq) \<Longrightarrow> prio_wf (elt_pri (elts pq) b)"
  by (rule mem_wfD(4)) (auto simp: prioq_wf_def)

lemma uniq_match:
  assumes "prioq_uniq pq" "b \<in> dom (elts pq)" "c \<in> dom (elts pq)"
    "elt_matches (elts pq) bits data b" "elt_matches (elts pq) bits data c"
  shows "b = c"
proof -
  have wf: "prioq_wf {} pq" and inj: "inj_on (prio_id (elts pq)) (dom (elts pq))"
    using assms(1) by (auto simp: prioq_uniq_def)
  have "prio_id (elts pq) b = prio_id (elts pq) c"
    using elt_matches_id assms(2-5) wf_prio [OF wf] by metis
  then show ?thesis using inj assms(2,3) by (auto dest: inj_onD)
qed

lemma filter_single:
  assumes "distinct xs" "b \<in> set xs" "P b" "\<And>c. c \<in> set xs \<Longrightarrow> P c \<Longrightarrow> c = b"
  shows "filter P xs = [b]"
  using assms
proof (induction xs)
  case (Cons x xs)
  show ?case
  proof (cases "x = b")
    case True
    have "\<not> P c" if "c \<in> set xs" for c
      using that Cons.prems(1) Cons.prems(4) [of c] True by auto
    then have "filter P xs = []" by (simp add: filter_empty_conv)
    with True Cons.prems(3) show ?thesis by simp
  next
    case False
    then have "filter P xs = [b]" using Cons.prems(1-3) by (intro Cons.IH Cons.prems(4)) simp_all
    moreover have "\<not> P x" using Cons.prems(4) [of x] False by auto
    ultimately show ?thesis by simp
  qed
qed simp

lemma lookup_match:
  assumes u: "prioq_uniq pq" and b: "b \<in> dom (elts pq)" "elt_matches (elts pq) bits data b"
  shows "prioq_lookup pq bits data = bucket_list (elts pq) b"
proof -
  have wf: "prioq_wf {} pq" using u by (simp add: prioq_uniq_def)
  have "filter (elt_matches (elts pq) bits data) (prioq_buckets pq) = [b]"
    using prioq_wf_buckets(1,2) [OF wf] b uniq_match [OF u] by (intro filter_single) auto
  then show ?thesis by (simp add: prioq_lookup_def)
qed

lemma lookup_nomatch:
  assumes "prioq_wf X pq" "\<And>b. b \<in> dom (elts pq) \<Longrightarrow> \<not> elt_matches (elts pq) bits data b"
  shows "prioq_lookup pq bits data = []"
proof -
  have "filter (elt_matches (elts pq) bits data) (prioq_buckets pq) = []"
    using prioq_wf_buckets(1) [OF assms(1)] assms(2) by (simp add: filter_empty_conv)
  then show ?thesis by (simp add: prioq_lookup_def)
qed

text \<open>The lookup sees a priority through the one bucket that has it.\<close>

lemma lookup_transfer:
  assumes u: "prioq_uniq pq" "prioq_uniq pq'" and P: "payload_except b (elts pq) (elts pq')"
    and nb: "b \<in> dom (elts pq) \<Longrightarrow> \<not> elt_matches (elts pq) bits data b"
    and nb': "b \<in> dom (elts pq') \<Longrightarrow> \<not> elt_matches (elts pq') bits data b"
  shows "prioq_lookup pq' bits data = prioq_lookup pq bits data"
proof (cases "\<exists>c \<in> dom (elts pq). elt_matches (elts pq) bits data c")
  case True
  then obtain c where c: "c \<in> dom (elts pq)" "elt_matches (elts pq) bits data c" by blast
  then have "c \<noteq> b" using nb by blast
  note D = payload_exceptD [OF P this]
  have "c \<in> dom (elts pq')" using c(1) D(1) by simp
  moreover have "elt_matches (elts pq') bits data c"
    using c(2) elt_matches_cong [OF D(3) [OF c(1)]] by blast
  ultimately show ?thesis using lookup_match [OF u(1) c] lookup_match [OF u(2)] D(5) [OF c(1)] by simp
next
  case False
  have "\<not> elt_matches (elts pq') bits data c" if c: "c \<in> dom (elts pq')" for c
  proof (cases "c = b")
    case False
    note D = payload_exceptD [OF P False]
    have "c \<in> dom (elts pq)" using c D(1) by simp
    then show ?thesis
      using \<open>\<not> (\<exists>c \<in> dom (elts pq). elt_matches (elts pq) bits data c)\<close>
        elt_matches_cong [OF D(3) [OF \<open>c \<in> dom (elts pq)\<close>]] \<open>c \<in> dom (elts pq)\<close> by blast
  qed (use nb' c in simp)
  then show ?thesis
    using lookup_nomatch [of "{}" pq] lookup_nomatch [of "{}" pq'] False u by (auto simp: prioq_uniq_def)
qed

section \<open>The operations keep one bucket per priority\<close>

lemma placed_slot:
  assumes "table_placed pq" "hash_wf (elts pq) (hashtab pq) cs" "placed (elts pq) cs PRIOQ_TABSIZE"
    "chains_set cs = dom (elts pq)" "b \<in> dom (elts pq)"
  shows "b \<in> set (cs ! elt_slot (elts pq) b PRIOQ_TABSIZE)"
proof -
  obtain i where "i < length cs" "b \<in> set (cs ! i)" using assms(4,5) by (auto simp: chains_set_def)
  then show ?thesis using assms(3) by (auto simp: placed_def)
qed

lemma table_placed_upd:
  assumes "table_placed pq" "b \<in> dom (elts pq)"
  shows "table_placed (upd_edata pq b d)"
proof -
  let ?m = "elts pq" and ?m' = "elts (upd_edata pq b d)"
  from assms(1) obtain cs where cs: "hash_wf ?m (hashtab pq) cs" "chains_set cs = dom ?m"
    "placed ?m cs PRIOQ_TABSIZE" by (auto simp: table_placed_def)
  have "same_links ?m ?m' (chains_set cs)"
    by (auto simp: same_links_def upd_edata_def upd_elt_def option.map_comp comp_def)
  then have "hash_wf ?m' (hashtab pq) cs" using cs(1) hash_wf_links by blast
  moreover have "placed ?m' cs PRIOQ_TABSIZE"
    using cs(3) upd_edata_at(1) [OF assms(2)] by (simp add: placed_def elt_slot_def)
  ultimately show ?thesis using cs(2) assms(1) by (auto simp: table_placed_def)
qed

lemma uniq_upd_edata:
  assumes u: "prioq_wf X pq" "table_placed pq" "inj_on (prio_id (elts pq)) (dom (elts pq))"
    and b: "b \<in> dom (elts pq)" and wf: "prioq_wf {} (upd_edata pq b d)"
  shows "prioq_uniq (upd_edata pq b d)"
proof -
  have "prio_id (elts (upd_edata pq b d)) = prio_id (elts pq)"
    using upd_edata_at(1) [OF b] by (simp add: prio_id_def fun_eq_iff)
  then show ?thesis using assms table_placed_upd [OF u(2) b] by (simp add: prioq_uniq_def)
qed

lemma table_placed_insert:
  assumes tp: "table_placed pq" and wf: "prioq_wf {} pq" and ok: "unat bits < 65536"
    "prio_ints bits \<le> length data"
  defines "s \<equiv> prio_slot bits (take (prio_ints bits) data) PRIOQ_TABSIZE"
  shows "table_placed (hash_insert pq bits data s)"
proof -
  let ?p = "fresh pq" and ?q = "hash_insert pq bits data s"
  let ?m = "elts pq" and ?e = "new_elt bits data NULL s"
  from tp obtain cs where len: "length (hashtab pq) = PRIOQ_TABSIZE"
    and cs: "hash_wf ?m (hashtab pq) cs" "chains_set cs = dom ?m" "placed ?m cs PRIOQ_TABSIZE"
    by (auto simp: table_placed_def)
  have s: "s < PRIOQ_TABSIZE" by (simp add: s_def prio_slot_less PRIOQ_TABSIZE_def)
  note H = hash_insert_ok [OF wf s ok]
  have lcs: "length cs = PRIOQ_TABSIZE" using cs(1) len by (simp add: hash_wf_def)
  have p0: "?p \<noteq> NULL" using wf by (auto simp: prioq_wf_def mem_wf_def)
  have "hash_wf (elts ?q) (hashtab ?q) (cs[s := ?p # cs ! s])"
    using cs H(5) p0 s len by (simp add: hash_insert_eq link_front_wf)
  moreover have "chains_set (cs[s := ?p # cs ! s]) = dom (elts ?q)"
    using s lcs cs(2) H(4) by (simp add: chains_set_link)
  moreover have "placed (elts ?q) (cs[s := ?p # cs ! s]) PRIOQ_TABSIZE"
    unfolding placed_def
  proof (intro allI impI ballI)
    fix i b assume i: "i < length (cs[s := ?p # cs ! s])" and b: "b \<in> set (cs[s := ?p # cs ! s] ! i)"
    show "elt_slot (elts ?q) b PRIOQ_TABSIZE = i"
    proof (cases "b = ?p")
      case True
      have "elt_slot (elts ?q) ?p PRIOQ_TABSIZE = s"
        using H(6) mem_wfD(4) [OF H(2), of ?p] H(4) ok(1)
        unfolding s_def
        by (intro elt_matches_slot elt_matches_new [where q = NULL and s = s]) (simp_all add: s_def)
      moreover have "i = s"
        using b True i s lcs H(5) cs(2) chains_setI [of i cs ?p] by (cases "i = s") auto
      ultimately show ?thesis using True by simp
    next
      case False
      have bi: "b \<in> set (cs ! i)" "i < length cs" using b False i s lcs by (cases "i = s"; simp)+
      then have "b \<in> dom ?m" using cs(2) chains_setI by blast
      then have "elt_pri (elts ?q) b = elt_pri ?m b" by (rule payload_exceptD(3) [OF H(3) False])
      then show ?thesis using cs(3) bi by (simp add: placed_def elt_slot_def)
    qed
  qed
  ultimately show ?thesis using len by (auto simp: table_placed_def hash_insert_eq)
qed

lemma id_matches:
  assumes "prio_id m b = (ucast bits, take (prio_ints bits) data)" "unat bits < 65536"
  shows "elt_matches m bits data b"
  using assms(1) ucast_u16_back [OF assms(2)] by (simp add: elt_matches_def prio_id_def)

lemma placed_miss:
  assumes tp: "table_placed pq" and wf: "prioq_wf X pq" and b: "b \<in> dom (elts pq)"
    and miss: "find_chain (elts pq) bits data
      (hashtab pq ! prio_slot bits (take (prio_ints bits) data) PRIOQ_TABSIZE) = Some NULL"
  shows "\<not> elt_matches (elts pq) bits data b"
proof
  assume mt: "elt_matches (elts pq) bits data b"
  let ?s = "prio_slot bits (take (prio_ints bits) data) PRIOQ_TABSIZE"
  from tp obtain cs where len: "length (hashtab pq) = PRIOQ_TABSIZE"
    and cs: "hash_wf (elts pq) (hashtab pq) cs" "chains_set cs = dom (elts pq)"
      "placed (elts pq) cs PRIOQ_TABSIZE" by (auto simp: table_placed_def)
  have "?s < length (hashtab pq)" unfolding len by (simp add: prio_slot_less PRIOQ_TABSIZE_def)
  note ch = hash_wf_chain(1) [OF cs(1) this]
  have "b \<in> set (cs ! ?s)"
    using placed_slot [OF tp cs(1,3,2) b] elt_matches_slot [OF mt wf_prio [OF wf b]] by simp
  then show False
    using mt miss by (rule_tac find_chain_cases [OF chain_path [OF ch] chain_nonnull [OF ch], of bits data]) auto
qed

lemma getDeq_uniq:
  assumes u: "prioq_uniq pq" and ok: "unat bits < 65536" "prio_ints bits \<le> length data"
    and room: "hash_entry_size pq < 2 * PRIOQ_TABSIZE"
    and g: "CqsPrioqGetDeq pq bits data = Some (pq1, b)"
  shows "table_placed pq1" "inj_on (prio_id (elts pq1)) (dom (elts pq1))"
    "b \<in> dom (elts pq1)" "prioq_wf {b} pq1"
proof -
  have wf: "prioq_wf {} pq" and tp: "table_placed pq" and inj: "inj_on (prio_id (elts pq)) (dom (elts pq))"
    using u by (auto simp: prioq_uniq_def)
  have "table_placed pq1 \<and> inj_on (prio_id (elts pq1)) (dom (elts pq1)) \<and> b \<in> dom (elts pq1) \<and>
      prioq_wf {b} pq1"
    using wf ok
  proof (cases rule: getDeq_ok)
    case (found c)
    then show ?thesis using g tp inj wf by (auto intro: prioq_wf_weaken)
  next
    case (new pq')
    let ?s = "prio_slot bits (take (prio_ints bits) data) PRIOQ_TABSIZE"
    let ?q = "hash_insert pq bits data ?s" and ?p = "fresh pq"
    have s: "?s < PRIOQ_TABSIZE" by (simp add: prio_slot_less PRIOQ_TABSIZE_def)
    note H = hash_insert_ok [OF wf s ok]
    have eq: "pq1 = pq'" "b = ?p" using g new(1) by auto
    have "hash_key_size pq = PRIOQ_TABSIZE"
      using wf tp by (auto simp: prioq_wf_def table_wf_def table_placed_def)
    then have nr: "\<not> 2 * hash_key_size ?q < hash_entry_size ?q"
      using room by (simp add: hash_insert_eq)
    have q: "pq1 = heap_insert ?q ?p"
      using g new(10) nr by (auto simp: CqsPrioqGetDeq_def Let_def)
    have el: "elts pq1 = elts ?q" "hashtab pq1 = hashtab ?q"
      unfolding q by (auto simp: heap_insert_def CqsPrioqExpand_def Let_def)
    have "table_placed ?q" by (rule table_placed_insert [OF tp wf ok])
    then have "table_placed pq1" by (simp add: table_placed_def el)
    moreover have "inj_on (prio_id (elts ?q)) (insert ?p (dom (elts pq)))"
    proof -
      have same: "prio_id (elts ?q) c = prio_id (elts pq) c" if "c \<in> dom (elts pq)" for c
        using payload_exceptD(3) [OF H(3) _ that] H(5) that by (cases "c = ?p") (auto simp: prio_id_def)
      have "prio_id (elts ?q) ?p = (ucast bits, take (prio_ints bits) data)"
        using H(6) by (simp add: prio_id_def elt_pri_def new_elt_def)
      then have "prio_id (elts ?q) ?p \<noteq> prio_id (elts pq) c" if "c \<in> dom (elts pq)" for c
        using placed_miss [OF tp wf that new(10)] id_matches [OF _ ok(1)] by metis
      then show ?thesis using inj same H(5)
        by (simp add: inj_on_insert inj_on_cong [OF same]) (auto simp: same)
    qed
    ultimately show ?thesis using new(2,5) eq el H(4) by simp
  qed
  then show "table_placed pq1" "inj_on (prio_id (elts pq1)) (dom (elts pq1))"
    "b \<in> dom (elts pq1)" "prioq_wf {b} pq1" by auto
qed

lemma matches_same:
  "elt_matches m bits data b \<Longrightarrow> elt_matches m bits' data' b \<Longrightarrow>
   (bits', take (prio_ints bits') data') = (bits, take (prio_ints bits) data)"
  unfolding elt_matches_def by auto

lemma enqueue_uniq:
  assumes u: "prioq_uniq pq" and ok: "unat bits < 65536" "prio_ints bits \<le> length data"
    and room: "hash_entry_size pq < 2 * PRIOQ_TABSIZE"
    and e: "prioq_enqueue fifo pq bits data msg = Some pq'" and wf': "prioq_wf {} pq'"
  shows "prioq_uniq pq'"
proof -
  from e obtain pq1 b where g: "CqsPrioqGetDeq pq bits data = Some (pq1, b)"
    by (auto simp: prioq_enqueue_def split: option.splits)
  note G = getDeq_uniq [OF u ok room g]
  from e wf' show ?thesis
    using uniq_upd_edata [OF G(4,1,2,3)] prioq_enqueue_eq [OF g, of fifo msg] by auto
qed

lemma drop_root_uniq:
  assumes tp: "table_placed pq" and inj: "inj_on (prio_id (elts pq)) (dom (elts pq))"
    and wf: "prioq_wf {heap pq ! 1} pq" and ne: "heapnext pq \<noteq> 1"
  shows "prioq_uniq (drop_root pq)"
proof -
  let ?pe = "heap pq ! 1" and ?q = "drop_root pq"
  note D = drop_root_ok [OF wf ne]
  have pri: "elt_pri (elts ?q) c = elt_pri (elts pq) c" if "c \<in> dom (elts ?q)" for c
  proof -
    from that have "c \<in> dom (elts pq)" "c \<noteq> ?pe" unfolding D(2) by blast+
    then show ?thesis by (intro payload_exceptD(3) [OF D(3)])
  qed
  have pe: "?pe \<in> dom (elts pq)"
    using wf ne by (intro heap_wf_nth [of pq]) (auto simp: prioq_wf_def heap_wf_def)
  from tp obtain cs where len: "length (hashtab pq) = PRIOQ_TABSIZE"
    and cs: "hash_wf (elts pq) (hashtab pq) cs" "chains_set cs = dom (elts pq)"
      "placed (elts pq) cs PRIOQ_TABSIZE" by (auto simp: table_placed_def)
  obtain cs' where cs': "hash_wf ((unlink_mem (elts pq) ?pe)(?pe := None)) (unlink_tab (elts pq) (hashtab pq) ?pe) cs'"
    "chains_set cs' = dom (elts pq) - {?pe}" "length cs' = length cs"
    "\<And>i. i < length cs \<Longrightarrow> set (cs' ! i) \<subseteq> set (cs ! i)" using unlink_chains [OF cs(1,2) pe] by metis
  have q: "elts ?q = (unlink_mem (elts pq) ?pe)(?pe := None)"
    "hashtab ?q = unlink_tab (elts pq) (hashtab pq) ?pe"
    by (simp_all add: drop_root_def hash_unlink_eq Let_def)
  have "placed (elts ?q) cs' PRIOQ_TABSIZE"
    unfolding placed_def
  proof (intro allI impI ballI)
    fix i b assume i: "i < length cs'" and b: "b \<in> set (cs' ! i)"
    then have "b \<in> dom (elts ?q)" using chains_setI [OF i b] cs'(2) D(2) by blast
    then have "elt_slot (elts ?q) b PRIOQ_TABSIZE = elt_slot (elts pq) b PRIOQ_TABSIZE"
      using pri by (simp add: elt_slot_def)
    moreover have "i < length cs" "b \<in> set (cs ! i)" using cs'(3) cs'(4) [of i] i b by auto
    ultimately show "elt_slot (elts ?q) b PRIOQ_TABSIZE = i" using cs(3) by (simp add: placed_def)
  qed
  then have "table_placed ?q" using cs' D(2) len by (auto simp: table_placed_def q)
  moreover have "inj_on (prio_id (elts ?q)) (dom (elts ?q))"
  proof -
    have "prio_id (elts ?q) c = prio_id (elts pq) c" if "c \<in> dom (elts ?q)" for c
      using pri [OF that] by (simp add: prio_id_def)
    then have "inj_on (prio_id (elts ?q)) (dom (elts ?q)) = inj_on (prio_id (elts pq)) (dom (elts ?q))"
      by (rule inj_on_cong)
    moreover have "dom (elts ?q) \<subseteq> dom (elts pq)" unfolding D(2) by blast
    ultimately show ?thesis using inj_on_subset [OF inj] by simp
  qed
  ultimately show ?thesis using D(1) by (simp add: prioq_uniq_def)
qed

lemma dequeue_uniq:
  assumes u: "prioq_uniq pq"
  shows "prioq_uniq (snd (CqsPrioqDequeue pq))"
proof (cases "heapnext pq = 1")
  case True
  then show ?thesis using u by (simp add: CqsPrioqDequeue_eq)
next
  case False
  let ?pe = "heap pq ! 1" and ?d = "snd (CqsDeqDequeue (edata (the (elts pq (heap pq ! 1)))))"
  let ?q = "upd_edata pq ?pe ?d"
  have wf: "prioq_wf {} pq" and tp: "table_placed pq" and inj: "inj_on (prio_id (elts pq)) (dom (elts pq))"
    using u by (auto simp: prioq_uniq_def)
  note R = prioq_wf_root [OF wf False]
  have d: "deq_inv ?d" using R(3) by (simp add: deq_simps)
  have id: "prio_id (elts ?q) = prio_id (elts pq)"
    using upd_edata_at(1) [OF R(1)] by (simp add: prio_id_def fun_eq_iff)
  show ?thesis
  proof (cases "deq_empty ?d")
    case True
    have "prioq_wf {?pe} ?q" using d by (intro upd_edata_wf [OF wf R(1)]) auto
    then have "prioq_uniq (drop_root ?q)"
      using table_placed_upd [OF tp R(1)] inj id False by (intro drop_root_uniq) simp_all
    then show ?thesis using True False by (simp add: CqsPrioqDequeue_eq Let_def del: One_nat_def)
  next
    case ne: False
    then have "prioq_wf {} ?q"
      using d deq_empty_iff [OF d] by (intro upd_edata_wf [OF wf R(1)]) auto
    then have "prioq_uniq ?q" by (rule uniq_upd_edata [OF wf tp inj R(1)])
    then show ?thesis using ne False by (simp add: CqsPrioqDequeue_eq Let_def del: One_nat_def)
  qed
qed

section \<open>After a rehash\<close>

lemma rehash_misses:
  assumes wf: "prioq_wf {} pq" and r: "CqsPrioqRehash pq = Some pq'"
    and far: "PRIOQ_TABSIZE \<le> prio_slot bits (take (prio_ints bits) data) (2 * hash_key_size pq)"
  shows "prioq_wf {} pq'" "same_payload (elts pq) (elts pq')" "fresh pq' = fresh pq"
    "find_chain (elts pq') bits data
       (hashtab pq' ! prio_slot bits (take (prio_ints bits) data) PRIOQ_TABSIZE) = Some NULL"
proof -
  let ?n = "2 * hash_key_size pq" and ?s = "prio_slot bits (take (prio_ints bits) data) PRIOQ_TABSIZE"
  from wf obtain cs where cs: "hash_wf (elts pq) (hashtab pq) cs" "chains_set cs = dom (elts pq)"
    and len: "hash_key_size pq = length (hashtab pq)" "PRIOQ_TABSIZE \<le> length (hashtab pq)"
    by (auto simp: prioq_wf_def table_wf_def)
  then have "0 < length (hashtab pq)" unfolding PRIOQ_TABSIZE_def by linarith
  from CqsPrioqRehash_ok [OF cs(1) len(1) this] r obtain m nh cs' where
    q: "pq' = pq\<lparr>elts := m, hashtab := nh, hash_key_size := ?n\<rparr>"
    and H: "hash_wf m nh cs'" "length nh = ?n" "chains_set cs' = chains_set cs"
      "same_payload (elts pq) m" "placed m cs' ?n" by auto
  show pay: "same_payload (elts pq) (elts pq')" and fr: "fresh pq' = fresh pq" using H(4) by (simp_all add: q)
  have dom: "dom (elts pq') = dom (elts pq)" using same_payload_dom [OF pay] by simp
  have mw: "mem_wf (elts pq) (fresh pq) {}" and hw: "heap_wf pq (dom (elts pq))"
    using wf by (auto simp: prioq_wf_def)
  have n0: "NULL \<notin> dom (elts pq)" using mw by (simp add: mem_wf_def)
  have "dom (elts pq) \<subseteq> dom (elts pq) - {NULL}" using n0 by blast
  then have "heap_wf pq' (dom (elts pq'))"
    unfolding dom using same_payload_except [OF pay, of NULL]
    by (intro heap_wf_payload [OF hw]) (simp_all add: q)
  moreover have "mem_wf (elts pq') (fresh pq') {}"
    using n0 fr unfolding dom [symmetric]
    by (intro mem_wf_payload [OF mw same_payload_except [OF pay, of NULL]]) auto
  moreover have "table_wf pq'" using H cs(2) len dom by (auto simp: table_wf_def q)
  ultimately show wf': "prioq_wf {} pq'" using wf by (simp add: prioq_wf_def) (simp add: q)
  have st: "?s < PRIOQ_TABSIZE" by (simp add: prio_slot_less PRIOQ_TABSIZE_def)
  then have s: "?s < length nh" using H(2) len by simp
  note ch = hash_wf_chain [OF H(1) s]
  have "\<not> elt_matches m bits data b" if b: "b \<in> set (cs' ! ?s)" for b
  proof
    assume mt: "elt_matches m bits data b"
    have "b \<in> dom (elts pq')" using chain_dom [OF ch(1)] b by (auto simp: q)
    then have "prio_wf (elt_pri m b)" using wf_prio [OF wf'] by (simp add: q)
    then have "elt_slot m b ?n = prio_slot bits (take (prio_ints bits) data) ?n"
      by (rule elt_matches_slot [OF mt])
    moreover have "elt_slot m b ?n = ?s" using H(5) s ch(3) b by (simp add: placed_def)
    ultimately show False using far st by simp
  qed
  then have "find_chain m bits data (nh ! ?s) = Some NULL"
    by (rule_tac find_chain_cases [OF chain_path [OF ch(1)] chain_nonnull [OF ch(1)], of bits data]) auto
  then show "find_chain (elts pq') bits data (hashtab pq' ! ?s) = Some NULL" by (simp add: q)
qed

lemma sample_uniq:
  "\<exists>pq b. prioq_uniq pq \<and> mset (prioq_entries pq) = {#([985], 77)#} \<and> hash_key_size pq = PRIOQ_TABSIZE \<and>
     b \<in> dom (elts pq) \<and> elt_matches (elts pq) 32 [985] b"
proof -
  have ok: "unat (32 :: u32) < 65536" "prio_ints 32 \<le> length [985 :: u32]"
    by (simp_all add: prio_ints_def CINTBITS_def)
  obtain pq b where q: "prioq_enqueue True CqsPrioqInit 32 [985] 77 = Some pq" "prioq_wf {} pq"
    "b \<in> dom (elts pq)" "elt_matches (elts pq) 32 [985] b"
    "mset (prioq_entries pq) = add_mset (take (prio_ints 32) [985], 77) (mset (prioq_entries CqsPrioqInit))"
    by (rule prioq_enqueue_ok [OF prioq_wf_init ok]) blast
  have "prioq_uniq pq"
    by (rule enqueue_uniq [OF prioq_uniq_init ok _ q(1,2)]) (simp add: CqsPrioqInit_def PRIOQ_TABSIZE_def)
  moreover from this have "hash_key_size pq = PRIOQ_TABSIZE"
    by (auto simp: prioq_uniq_def table_placed_def prioq_wf_def table_wf_def)
  ultimately show ?thesis using q(3-5) by (auto simp: prio_ints_def CINTBITS_def)
qed

section \<open>Properties of the order\<close>

text \<open>
  C4.  While the table has not been rehashed every priority has one queue: an enqueue puts
  the message at the end (FIFO) or at the front (LIFO) of the queue of its own priority and
  leaves the queue of every other priority as it was.
\<close>

theorem prioq_enqueue_order:
  assumes "prioq_uniq pq" "unat bits < 65536" "prio_ints bits \<le> length data"
    "hash_entry_size pq < 2 * PRIOQ_TABSIZE"
  shows "\<exists>pq'. prioq_enqueue fifo pq bits data msg = Some pq' \<and> prioq_uniq pq' \<and>
    prioq_lookup pq' bits data = put_end fifo (prioq_lookup pq bits data) msg \<and>
    (\<forall>bits' data'. (bits', take (prio_ints bits') data') \<noteq> (bits, take (prio_ints bits) data) \<longrightarrow>
       prioq_lookup pq' bits' data' = prioq_lookup pq bits' data')"
proof -
  have wf: "prioq_wf {} pq" and tp: "table_placed pq" using assms(1) by (auto simp: prioq_uniq_def)
  obtain pq' b where E: "prioq_enqueue fifo pq bits data msg = Some pq'" "prioq_wf {} pq'"
    "b \<in> dom (elts pq')" "elt_matches (elts pq') bits data b" "payload_except b (elts pq) (elts pq')"
    "bucket_list (elts pq') b =
      put_end fifo (if b \<in> dom (elts pq) then bucket_list (elts pq) b else []) msg"
    and miss: "b \<notin> dom (elts pq) \<Longrightarrow> find_chain (elts pq) bits data
        (hashtab pq ! prio_slot bits (take (prio_ints bits) data) PRIOQ_TABSIZE) = Some NULL"
    and pri: "b \<in> dom (elts pq) \<Longrightarrow> elt_pri (elts pq') b = elt_pri (elts pq) b"
    by (rule prioq_enqueue_ok [OF wf assms(2,3)]) blast
  have u': "prioq_uniq pq'" by (rule enqueue_uniq [OF assms E(1,2)])
  have b_pq: "elt_matches (elts pq) bits' data' b = elt_matches (elts pq') bits' data' b"
    if "b \<in> dom (elts pq)" for bits' data'
    using elt_matches_cong [OF pri [OF that]] by blast
  have "prioq_lookup pq bits data = (if b \<in> dom (elts pq) then bucket_list (elts pq) b else [])"
  proof (cases "b \<in> dom (elts pq)")
    case True
    then show ?thesis using lookup_match [OF assms(1) True] b_pq [OF True] E(4) by simp
  next
    case False
    then show ?thesis using lookup_nomatch [OF wf placed_miss [OF tp wf _ miss [OF False]]] by simp
  qed
  then have "prioq_lookup pq' bits data = put_end fifo (prioq_lookup pq bits data) msg"
    using lookup_match [OF u' E(3,4)] E(6) by simp
  moreover have "prioq_lookup pq' bits' data' = prioq_lookup pq bits' data'"
    if "(bits', take (prio_ints bits') data') \<noteq> (bits, take (prio_ints bits) data)" for bits' data'
    using matches_same [OF E(4)] that b_pq by (intro lookup_transfer [OF assms(1) u' E(5)]) metis+
  ultimately show ?thesis using E(1) u' by blast
qed

theorem prioq_enqueue_order_witness:
  "\<exists>pq'. prioq_enqueue True CqsPrioqInit 32 [5] 77 = Some pq' \<and> prioq_uniq pq' \<and>
     prioq_lookup pq' 32 [5] = [77]"
proof -
  have "prioq_lookup CqsPrioqInit 32 [5] = []"
    by (rule lookup_nomatch [OF prioq_wf_init]) (simp add: CqsPrioqInit_def)
  then show ?thesis
    using prioq_enqueue_order [OF prioq_uniq_init, of 32 "[5]" True 77]
    by (auto simp: put_end_def prio_ints_def CINTBITS_def PRIOQ_TABSIZE_def CqsPrioqInit_def)
qed

text \<open>
  C5.  As long as no rehash has given a priority a second bucket (\<open>prioq_uniq\<close>, which C4 keeps until
  the table is enlarged; C6 shows what happens then), a dequeue from a queue that is not empty takes
  the message at the front of the queue of the numerically smallest priority, leaves the queue of
  every other priority as it was and gives no priority a second bucket.
\<close>

theorem prioq_dequeue_order:
  assumes "prioq_uniq pq" "prioq_entries pq \<noteq> []" "CqsPrioqDequeue pq = (x, pq')"
  shows "prioq_uniq pq' \<and>
    (\<exists>bits data. prioq_lookup pq bits data = x # prioq_lookup pq' bits data \<and>
       (\<forall>(k, y) \<in> set (prioq_entries pq). take (prio_ints bits) data \<le> k) \<and>
       (\<forall>bits' data'. (bits', take (prio_ints bits') data') \<noteq> (bits, take (prio_ints bits) data) \<longrightarrow>
          prioq_lookup pq' bits' data' = prioq_lookup pq bits' data'))"
proof -
  let ?pe = "heap pq ! 1"
  define bits :: u32 where "bits = ucast (pbits (elt_pri (elts pq) ?pe))"
  define data where "data = pdata (elt_pri (elts pq) ?pe)"
  have wf: "prioq_wf {} pq" using assms(1) by (simp add: prioq_uniq_def)
  have ne: "heapnext pq \<noteq> 1" using prioq_empty_iff [OF wf] assms(2) by simp
  note R = prioq_wf_root [OF wf ne]
  have u': "prioq_uniq pq'" using dequeue_uniq [OF assms(1)] assms(3) by simp
  then have wf': "prioq_wf {} pq'" by (simp add: prioq_uniq_def)
  obtain xs where D: "bucket_list (elts pq) ?pe = x # xs" "payload_except ?pe (elts pq) (elts pq')"
    "dom (elts pq') = (if xs = [] then dom (elts pq) - {?pe} else dom (elts pq))"
    "xs \<noteq> [] \<Longrightarrow> bucket_list (elts pq') ?pe = xs \<and> elt_pri (elts pq') ?pe = elt_pri (elts pq) ?pe"
    using prioq_dequeue_ok [OF wf ne] assms(3) by (metis prod.inject)
  have m: "elt_matches (elts pq) bits data ?pe" by (simp add: elt_matches_def bits_def data_def)
  have lk: "prioq_lookup pq bits data = x # xs" using lookup_match [OF assms(1) R(1) m] D(1) by simp
  have "prioq_lookup pq' bits data = xs"
  proof (cases "xs = []")
    case True
    have "\<not> elt_matches (elts pq') bits data c" if c: "c \<in> dom (elts pq')" for c
    proof
      assume mc: "elt_matches (elts pq') bits data c"
      have c': "c \<in> dom (elts pq)" "c \<noteq> ?pe" using c D(3) True by auto
      then have "elt_matches (elts pq) bits data c"
        using mc elt_matches_cong [OF payload_exceptD(3) [OF D(2) c'(2,1)]] by blast
      then show False using uniq_match [OF assms(1) c'(1) R(1) _ m] c'(2) by blast
    qed
    then show ?thesis using lookup_nomatch [OF wf'] True by simp
  next
    case False
    then have "elt_matches (elts pq') bits data ?pe" using m D(4) elt_matches_cong by blast
    then show ?thesis using lookup_match [OF u'] D(3,4) R(1) False by simp
  qed
  then have "prioq_lookup pq bits data = x # prioq_lookup pq' bits data" using lk by simp
  moreover have "\<forall>(k, y) \<in> set (prioq_entries pq). take (prio_ints bits) data \<le> k"
    using R(4) elt_matches_key [OF m wf_prio [OF wf R(1)]] set_entries [OF wf] by auto
  moreover have "prioq_lookup pq' bits' data' = prioq_lookup pq bits' data'"
    if other: "(bits', take (prio_ints bits') data') \<noteq> (bits, take (prio_ints bits) data)" for bits' data'
  proof (rule lookup_transfer [OF assms(1) u' D(2)])
    show n: "\<not> elt_matches (elts pq) bits' data' ?pe" using matches_same [OF m] other by blast
    assume "?pe \<in> dom (elts pq')"
    then have "xs \<noteq> []" using D(3) by auto
    then show "\<not> elt_matches (elts pq') bits' data' ?pe" using n D(4) elt_matches_cong by blast
  qed
  ultimately show ?thesis using u' by blast
qed

theorem prioq_dequeue_order_witness:
  "\<exists>pq pq' bits data. CqsPrioqDequeue pq = (77, pq') \<and> prioq_uniq pq' \<and>
     prioq_lookup pq bits data = 77 # prioq_lookup pq' bits data"
proof -
  obtain pq where pq: "prioq_uniq pq" "mset (prioq_entries pq) = {#([985], 77)#}"
    using sample_uniq by blast
  obtain x pq' where d: "CqsPrioqDequeue pq = (x, pq')" by force
  have ne: "prioq_entries pq \<noteq> []" using pq(2) by auto
  note P = prioq_dequeue_order [OF pq(1) ne d]
  have wf: "prioq_wf {} pq" using pq(1) by (simp add: prioq_uniq_def)
  then have "heapnext pq \<noteq> 1" using ne prioq_empty_iff by blast
  from prioq_dequeue_ok [OF wf this] d pq(2) have "x = 77"
    by (metis Pair_inject add_mset_eq_single)
  then show ?thesis using P d by blast
qed

text \<open>
  C6.  What the rehash costs.  \<^verbatim>\<open>CqsPrioqRehash\<close> distributes the buckets modulo the new table
  size, the lookup of \<^verbatim>\<open>CqsPrioqGetDeq\<close> still reduces modulo \<^verbatim>\<open>PRIOQ_TABSIZE\<close>.  A bucket
  whose hash falls in the upper half of the doubled table is therefore not found any more:
  the next enqueue with its priority allocates a second bucket for the same priority, so
  the messages of that priority no longer form one queue.
\<close>

theorem rehash_splits_priority:
  assumes "prioq_wf {} pq" "CqsPrioqRehash pq = Some pq'" "b \<in> dom (elts pq)"
    "elt_matches (elts pq) bits data b" "unat bits < 65536" "prio_ints bits \<le> length data"
    "PRIOQ_TABSIZE \<le> prio_slot bits (take (prio_ints bits) data) (2 * hash_key_size pq)"
  shows "\<exists>pq'' c. CqsPrioqGetDeq pq' bits data = Some (pq'', c) \<and> c \<noteq> b \<and>
    b \<in> set (prioq_buckets pq'') \<and> c \<in> set (prioq_buckets pq'') \<and>
    elt_matches (elts pq'') bits data b \<and> elt_matches (elts pq'') bits data c"
proof -
  note R = rehash_misses [OF assms(1,2,7)]
  from getDeq_new [OF R(1) assms(5,6) R(4)] obtain pq'' where
    g: "CqsPrioqGetDeq pq' bits data = Some (pq'', fresh pq)" "prioq_wf {fresh pq} pq''"
      "payload_except (fresh pq) (elts pq') (elts pq'')" "fresh pq \<notin> dom (elts pq')"
      "fresh pq \<in> dom (elts pq'')" "epri (the (elts pq'' (fresh pq))) = epri (new_elt bits data NULL 0)"
    unfolding R(3) by blast
  have b: "b \<in> dom (elts pq')" using assms(3) same_payload_dom [OF R(2)] by simp
  then have ne: "b \<noteq> fresh pq" using g(4) by blast
  note P = payload_exceptD [OF g(3) ne]
  have "b \<in> dom (elts pq'')" using P(1) b by simp
  moreover have "elt_pri (elts pq'') b = elt_pri (elts pq) b"
    using P(3) [OF b] same_payload_elt [OF R(2) assms(3)] by (simp add: elt_pri_def)
  then have "elt_matches (elts pq'') bits data b" using assms(4) elt_matches_cong by blast
  moreover have "elt_matches (elts pq'') bits data (fresh pq)" 
    using g(6) assms(5) by (rule elt_matches_new)
  ultimately show ?thesis using g(1,5) ne prioq_wf_buckets(1) [OF g(2)] by (intro exI [of _ pq''] exI [of _ "fresh pq"]) simp
qed

theorem rehash_splits_priority_witness:
  "\<exists>pq pq' pq'' b c. prioq_uniq pq \<and> CqsPrioqRehash pq = Some pq' \<and>
     CqsPrioqGetDeq pq' 32 [985] = Some (pq'', c) \<and> c \<noteq> b \<and>
     elt_matches (elts pq'') 32 [985] b \<and> elt_matches (elts pq'') 32 [985] c"
proof -
  obtain pq b where pq: "prioq_uniq pq" "hash_key_size pq = PRIOQ_TABSIZE" "b \<in> dom (elts pq)"
    "elt_matches (elts pq) 32 [985] b" using sample_uniq by blast
  have wf: "prioq_wf {} pq" using pq(1) by (simp add: prioq_uniq_def)
  then have "table_wf pq" by (simp add: prioq_wf_def)
  from maybe_rehash_ok [OF this, of True] obtain pq' where r: "CqsPrioqRehash pq = Some pq'" by auto
  have "prio_slot 32 (take (prio_ints 32) [985]) (2 * hash_key_size pq) = 1017"
    unfolding pq(2) by (simp add: prio_slot_def prio_hash_def prio_ints_def CINTBITS_def PRIOQ_TABSIZE_def)
  then have "\<exists>pq'' c. CqsPrioqGetDeq pq' 32 [985] = Some (pq'', c) \<and> c \<noteq> b \<and>
      b \<in> set (prioq_buckets pq'') \<and> c \<in> set (prioq_buckets pq'') \<and>
      elt_matches (elts pq'') 32 [985] b \<and> elt_matches (elts pq'') 32 [985] c"
    by (intro rehash_splits_priority [OF wf r pq(3,4)])
       (simp_all add: PRIOQ_TABSIZE_def prio_ints_def CINTBITS_def)
  then show ?thesis using pq(1) r by blast
qed

end
