(* ===== verification/Cqs.thy ===== *)
theory Cqs
  imports PrioqOrder
begin

text \<open>
  The scheduler queue of \<^verbatim>\<open>conv-core/queueing.C\<close> (\<^verbatim>\<open>struct Queue_struct\<close>): a priority queue
  for the priorities below zero, a circular buffer for messages without priority and a
  priority queue for the priorities from zero on, with a message counter and its maximum.
  The definitions follow the build without \<^verbatim>\<open>CMK_USE_STL_MSGQ\<close>.  A routine returns
  \<open>None\<close> when it would follow a dangling pointer or loop for ever, and an error value when
  it calls \<^verbatim>\<open>CmiAbort\<close> or fails a \<^verbatim>\<open>CmiAssert\<close>; the theorems show that a queue built by
  these operations never gives \<open>None\<close>.
\<close>

section \<open>State and operations\<close>

record queue =
  qlength :: u32
  qmaxlen :: u32
  zeroprio :: deq
  negprioq :: prioq
  posprioq :: prioq

definition CqsCreate :: queue where
  "CqsCreate = \<lparr>qlength = 0, qmaxlen = 0, zeroprio = CqsDeqInit,
     negprioq = CqsPrioqInit, posprioq = CqsPrioqInit\<rparr>"

definition CqsMaxLength :: "queue \<Rightarrow> u32" where
  "CqsMaxLength q = qmaxlen q"

definition CqsLength :: "queue \<Rightarrow> u32" where
  "CqsLength q = qlength q"

definition CqsEmpty :: "queue \<Rightarrow> bool" where
  "CqsEmpty q \<longleftrightarrow> qlength q = 0"

text \<open>\<^verbatim>\<open>q->length++; if (q->length>q->maxlen) q->maxlen=q->length;\<close>\<close>

definition count_msg :: "queue \<Rightarrow> queue" where
  "count_msg q =
     (let q' = q\<lparr>qlength := qlength q + 1\<rparr>
      in if qlength q' > qmaxlen q' then q'\<lparr>qmaxlen := qlength q'\<rparr> else q')"

definition CQS_QUEUEING_FIFO :: int where "CQS_QUEUEING_FIFO = 2"
definition CQS_QUEUEING_LIFO :: int where "CQS_QUEUEING_LIFO = 3"
definition CQS_QUEUEING_IFIFO :: int where "CQS_QUEUEING_IFIFO = 4"
definition CQS_QUEUEING_ILIFO :: int where "CQS_QUEUEING_ILIFO = 5"
definition CQS_QUEUEING_BFIFO :: int where "CQS_QUEUEING_BFIFO = 6"
definition CQS_QUEUEING_BLIFO :: int where "CQS_QUEUEING_BLIFO = 7"
definition CQS_QUEUEING_LFIFO :: int where "CQS_QUEUEING_LFIFO = 8"
definition CQS_QUEUEING_LLIFO :: int where "CQS_QUEUEING_LLIFO = 9"

lemmas strategy_defs = CQS_QUEUEING_FIFO_def CQS_QUEUEING_LIFO_def CQS_QUEUEING_IFIFO_def
  CQS_QUEUEING_ILIFO_def CQS_QUEUEING_BFIFO_def CQS_QUEUEING_BLIFO_def CQS_QUEUEING_LFIFO_def
  CQS_QUEUEING_LLIFO_def

text \<open>The choice between the two priority queues and the insertion into it.\<close>

definition enqueue_side :: "bool \<Rightarrow> bool \<Rightarrow> queue \<Rightarrow> u32 \<Rightarrow> u32 list \<Rightarrow> ptr \<Rightarrow> queue option" where
  "enqueue_side fifo pos q priobits priodata data =
     (if pos then map_option (\<lambda>p. q\<lparr>posprioq := p\<rparr>) (prioq_enqueue fifo (posprioq q) priobits priodata data)
      else map_option (\<lambda>p. q\<lparr>negprioq := p\<rparr>) (prioq_enqueue fifo (negprioq q) priobits priodata data))"

definition enqueue_int :: "bool \<Rightarrow> queue \<Rightarrow> ptr \<Rightarrow> u32 list \<Rightarrow> queue option" where
  "enqueue_int fifo q data prioptr =
     (let iprio = prioptr ! 0 + push_bit 31 1
      in enqueue_side fifo (iprio <s 0) q CINTBITS [iprio] data)"

definition enqueue_bits :: "bool \<Rightarrow> queue \<Rightarrow> ptr \<Rightarrow> u32 \<Rightarrow> u32 list \<Rightarrow> queue option" where
  "enqueue_bits fifo q data priobits prioptr =
     enqueue_side fifo (priobits \<noteq> 0 \<and> prioptr ! 0 <s 0) q priobits prioptr data"

text \<open>
  A 64-bit value lies in memory as two 32-bit words, the low word first on a little-endian
  machine.  \<open>endian\<close> is the value of \<^verbatim>\<open>CmiEndianness()\<close>, 0 on such a machine.
\<close>

definition words_to_long :: "int \<Rightarrow> u32 list \<Rightarrow> u64" where
  "words_to_long endian w =
     (if endian = 0 then push_bit 32 (ucast (w ! 1)) OR ucast (w ! 0)
      else push_bit 32 (ucast (w ! 0)) OR ucast (w ! 1))"

definition long_to_words :: "int \<Rightarrow> u64 \<Rightarrow> u32 list" where
  "long_to_words endian v =
     (if endian = 0 then [ucast v, ucast (drop_bit 32 v)] else [ucast (drop_bit 32 v), ucast v])"

definition enqueue_long :: "int \<Rightarrow> bool \<Rightarrow> queue \<Rightarrow> ptr \<Rightarrow> u32 \<Rightarrow> u32 list \<Rightarrow> queue option" where
  "enqueue_long endian fifo q data priobits prioptr =
     (let lprio0 = words_to_long endian prioptr + push_bit 63 1;
          halves = long_to_words endian lprio0;
          lprio = (if endian = 0 then push_bit 32 (ucast (halves ! 0)) OR ucast (halves ! 1) else lprio0)
      in enqueue_side fifo (lprio0 <s 0) q priobits (long_to_words endian lprio) data)"

definition CqsEnqueueGeneral ::
    "int \<Rightarrow> queue \<Rightarrow> ptr \<Rightarrow> int \<Rightarrow> u32 \<Rightarrow> u32 list \<Rightarrow> queue result option" where
  "CqsEnqueueGeneral endian q data strategy priobits prioptr =
     (let finish = map_option (\<lambda>q'. Inr (count_msg q'))
      in if strategy = CQS_QUEUEING_FIFO then
           finish (Some (q\<lparr>zeroprio := CqsDeqEnqueueFifo (zeroprio q) data\<rparr>))
         else if strategy = CQS_QUEUEING_LIFO then
           finish (Some (q\<lparr>zeroprio := CqsDeqEnqueueLifo (zeroprio q) data\<rparr>))
         else if strategy = CQS_QUEUEING_IFIFO then finish (enqueue_int True q data prioptr)
         else if strategy = CQS_QUEUEING_ILIFO then finish (enqueue_int False q data prioptr)
         else if strategy = CQS_QUEUEING_BFIFO then finish (enqueue_bits True q data priobits prioptr)
         else if strategy = CQS_QUEUEING_BLIFO then finish (enqueue_bits False q data priobits prioptr)
         else if strategy = CQS_QUEUEING_LFIFO then
           (if priobits \<noteq> CLONGBITS then Some (Inl (AssertFailed ''priobits == CLONGBITS''))
            else finish (enqueue_long endian True q data priobits prioptr))
         else if strategy = CQS_QUEUEING_LLIFO then
           finish (enqueue_long endian False q data priobits prioptr)
         else Some (Inl (Abort ''CqsEnqueueGeneral: invalid queueing strategy.'')))"

definition CqsEnqueueFifo :: "queue \<Rightarrow> ptr \<Rightarrow> queue" where
  "CqsEnqueueFifo q data = count_msg (q\<lparr>zeroprio := CqsDeqEnqueueFifo (zeroprio q) data\<rparr>)"

definition CqsEnqueueLifo :: "queue \<Rightarrow> ptr \<Rightarrow> queue" where
  "CqsEnqueueLifo q data = count_msg (q\<lparr>zeroprio := CqsDeqEnqueueLifo (zeroprio q) data\<rparr>)"

definition CqsEnqueue :: "queue \<Rightarrow> ptr \<Rightarrow> queue" where
  "CqsEnqueue q data = count_msg (q\<lparr>zeroprio := CqsDeqEnqueueFifo (zeroprio q) data\<rparr>)"

definition CqsDequeue :: "queue \<Rightarrow> ptr \<times> queue" where
  "CqsDequeue q =
     (if qlength q = 0 then (NULL, q)
      else if heapnext (negprioq q) > 1 then
        (let (r, p) = CqsPrioqDequeue (negprioq q) in (r, q\<lparr>negprioq := p, qlength := qlength q - 1\<rparr>))
      else if \<not> deq_empty (zeroprio q) then
        (let (r, d) = CqsDeqDequeue (zeroprio q) in (r, q\<lparr>zeroprio := d, qlength := qlength q - 1\<rparr>))
      else if heapnext (posprioq q) > 1 then
        (let (r, p) = CqsPrioqDequeue (posprioq q) in (r, q\<lparr>posprioq := p, qlength := qlength q - 1\<rparr>))
      else (NULL, q))"

definition kprio_zero :: prio where
  "kprio_zero = \<lparr>pbits = 0, pints = 0, pdata = [0]\<rparr>"

definition kprio_max :: prio where
  "kprio_max = \<lparr>pbits = 32, pints = 1, pdata = [- 1]\<rparr>"

definition CqsGetPriority :: "queue \<Rightarrow> prio" where
  "CqsGetPriority q =
     (if heapnext (negprioq q) > 1 then elt_pri (elts (negprioq q)) (heap (negprioq q) ! 1)
      else if \<not> deq_empty (zeroprio q) then kprio_zero
      else if heapnext (posprioq q) > 1 then elt_pri (elts (posprioq q)) (heap (posprioq q) ! 1)
      else kprio_max)"

section \<open>Enumeration\<close>

text \<open>
  \<^verbatim>\<open>CqsEnumeratePrioq\<close> walks the buckets of the heap array twice: once to count the messages
  and once to copy them.  The list of buckets is the array from index 1 to \<^verbatim>\<open>heapnext - 1\<close>.
\<close>

primrec count_buckets :: "eltmem \<Rightarrow> ptr list \<Rightarrow> nat \<Rightarrow> nat option" where
  "count_buckets m [] n = Some n"
| "count_buckets m (pe # pes) n =
     (case m pe of
        None \<Rightarrow> None
      | Some e \<Rightarrow>
          (case deq_count_loop (edata e) (dhead (edata e)) n of
             None \<Rightarrow> None
           | Some n' \<Rightarrow> count_buckets m pes n'))"

partial_function (option) bucket_copy_loop ::
    "deq \<Rightarrow> nat \<Rightarrow> ptr list \<Rightarrow> nat \<Rightarrow> (ptr list \<times> nat) option" where
  "bucket_copy_loop d head result j =
     (if head = dtail d then Some (result, j)
      else bucket_copy_loop d (deq_next d head) (result[j := dvec d ! head]) (j + 1))"

primrec copy_buckets :: "eltmem \<Rightarrow> ptr list \<Rightarrow> ptr list \<Rightarrow> nat \<Rightarrow> ptr list option" where
  "copy_buckets m [] result j = Some result"
| "copy_buckets m (pe # pes) result j =
     (case m pe of
        None \<Rightarrow> None
      | Some e \<Rightarrow>
          (case bucket_copy_loop (edata e) (dhead (edata e)) result j of
             None \<Rightarrow> None
           | Some (result', j') \<Rightarrow> copy_buckets m pes result' j'))"

definition CqsEnumeratePrioq :: "prioq \<Rightarrow> (ptr list \<times> nat) option" where
  "CqsEnumeratePrioq q =
     (let pes = map ((!) (heap q)) [1..<heapnext q]
      in case count_buckets (elts q) pes 0 of
           None \<Rightarrow> None
         | Some num \<Rightarrow>
             map_option (\<lambda>result. (result, num)) (copy_buckets (elts q) pes (replicate num NULL) 0))"

text \<open>Copy \<open>num\<close> entries of \<open>result\<close> behind position \<open>j\<close>; a write past the end is an error.\<close>

primrec append_result :: "ptr list \<Rightarrow> nat \<Rightarrow> ptr list \<Rightarrow> (ptr list \<times> nat) option" where
  "append_result resp j [] = Some (resp, j)"
| "append_result resp j (r # result) =
     (if j < length resp then append_result (resp[j := r]) (j + 1) result else None)"

definition append_enumerated ::
    "(ptr list \<times> nat) option \<Rightarrow> (ptr list \<times> nat) option \<Rightarrow> (ptr list \<times> nat) option" where
  "append_enumerated acc part =
     (case acc of
        None \<Rightarrow> None
      | Some (resp, j) \<Rightarrow>
          (case part of None \<Rightarrow> None | Some (result, num) \<Rightarrow> append_result resp j (take num result)))"

definition CqsEnumerateQueue :: "queue \<Rightarrow> ptr list option" where
  "CqsEnumerateQueue q =
     map_option fst
       (append_enumerated
         (append_enumerated
           (append_enumerated (Some (replicate (unat (qlength q)) NULL, 0))
             (CqsEnumeratePrioq (negprioq q)))
           (CqsEnumerateDeq (zeroprio q)))
         (CqsEnumeratePrioq (posprioq q)))"

section \<open>Removing a message\<close>

partial_function (option) remove_bucket_loop :: "deq \<Rightarrow> ptr \<Rightarrow> nat \<Rightarrow> (int \<times> deq) option" where
  "remove_bucket_loop d msgPtr head =
     (if head = dtail d then Some (0, d)
      else if dvec d ! head = msgPtr then Some (1, d\<lparr>dvec := (dvec d)[head := NULL]\<rparr>)
      else remove_bucket_loop d msgPtr (deq_next d head))"

primrec remove_buckets :: "eltmem \<Rightarrow> ptr list \<Rightarrow> ptr \<Rightarrow> (int \<times> eltmem) option" where
  "remove_buckets m [] msgPtr = Some (0, m)"
| "remove_buckets m (pe # pes) msgPtr =
     (case m pe of
        None \<Rightarrow> None
      | Some e \<Rightarrow>
          (case remove_bucket_loop (edata e) msgPtr (dhead (edata e)) of
             None \<Rightarrow> None
           | Some (r, d) \<Rightarrow>
               if r = 1 then Some (1, m(pe \<mapsto> e\<lparr>edata := d\<rparr>)) else remove_buckets m pes msgPtr))"

definition CqsRemoveSpecificPrioq :: "prioq \<Rightarrow> ptr \<Rightarrow> (int \<times> prioq) option" where
  "CqsRemoveSpecificPrioq q msgPtr =
     map_option (\<lambda>(r, m). (r, q\<lparr>elts := m\<rparr>))
       (remove_buckets (elts q) (map ((!) (heap q)) [1..<heapnext q]) msgPtr)"

text \<open>The second component is the text printed when the message was not found.\<close>

definition CqsRemoveSpecific :: "queue \<Rightarrow> ptr \<Rightarrow> (queue \<times> string) option" where
  "CqsRemoveSpecific q msgPtr =
     (case CqsRemoveSpecificPrioq (negprioq q) msgPtr of
        None \<Rightarrow> None
      | Some (r1, p1) \<Rightarrow>
          (let q1 = q\<lparr>negprioq := p1\<rparr>
           in if r1 \<noteq> 0 then Some (q1, [])
              else case CqsRemoveSpecificDeq (zeroprio q1) msgPtr of
                     None \<Rightarrow> None
                   | Some (r2, d) \<Rightarrow>
                       (let q2 = q1\<lparr>zeroprio := d\<rparr>
                        in if r2 \<noteq> 0 then Some (q2, [])
                           else case CqsRemoveSpecificPrioq (posprioq q2) msgPtr of
                                  None \<Rightarrow> None
                                | Some (r3, p3) \<Rightarrow>
                                    Some (q2\<lparr>posprioq := p3\<rparr>,
                                      if r3 = 0 then ''Didn't remove the specified entry because it was not found''
                                      else []))))"

end
