(* ===== verification/CqsCorrect.thy ===== *)
theory CqsCorrect
  imports Cqs
begin

text \<open>
  Correctness of the scheduler queue.  \<open>queue_entries\<close> lists the messages with their class
  (0 below zero, 1 no priority, 2 from zero on) and the words of their priority;
  \<open>queue_wf\<close> says that the three parts are well-formed and that the counter is the number of
  messages.
\<close>

section \<open>Abstract value and invariant\<close>

type_synonym entry = "nat \<times> u32 list \<times> ptr"

definition queue_entries :: "queue \<Rightarrow> entry list" where
  "queue_entries q =
     map (Pair 0) (prioq_entries (negprioq q)) @ map (\<lambda>x. (1, [], x)) (deq_list (zeroprio q))
     @ map (Pair 2) (prioq_entries (posprioq q))"

definition queue_wf :: "queue \<Rightarrow> bool" where
  "queue_wf q \<longleftrightarrow>
     deq_inv (zeroprio q) \<and> prioq_wf {} (negprioq q) \<and> prioq_wf {} (posprioq q) \<and>
     length (queue_entries q) < 2 ^ 32 \<and> qlength q = of_nat (length (queue_entries q)) \<and>
     qlength q \<le> qmaxlen q"

definition entry_le :: "entry \<Rightarrow> entry \<Rightarrow> bool" where
  "entry_le e f \<longleftrightarrow> fst e < fst f \<or> fst e = fst f \<and> fst (snd e) \<le> fst (snd f)"

lemma queue_wf_create: "queue_wf CqsCreate" "queue_entries CqsCreate = []"
  by (simp_all add: queue_wf_def queue_entries_def CqsCreate_def prioq_wf_init deq_simps)

lemma queue_length: "queue_wf q \<Longrightarrow> unat (qlength q) = length (queue_entries q)"
  by (simp add: queue_wf_def unat_of_nat)

lemma count_msg_wf:
  assumes parts: "deq_inv (zeroprio q)" "prioq_wf {} (negprioq q)" "prioq_wf {} (posprioq q)"
    and n: "length (queue_entries q) = Suc k" "Suc k < 2 ^ 32" "qlength q = of_nat k"
  shows "queue_wf (count_msg q)" "queue_entries (count_msg q) = queue_entries q"
    "qlength (count_msg q) = of_nat (Suc k)"
proof -
  have e: "zeroprio (count_msg q) = zeroprio q" "negprioq (count_msg q) = negprioq q"
    "posprioq (count_msg q) = posprioq q"
    by (simp_all add: count_msg_def Let_def)
  show eq: "queue_entries (count_msg q) = queue_entries q" by (simp add: queue_entries_def e)
  show l: "qlength (count_msg q) = of_nat (Suc k)" using n(3) by (simp add: count_msg_def Let_def)
  have "qlength (count_msg q) \<le> qmaxlen (count_msg q)" by (simp add: count_msg_def Let_def not_less)
  then show "queue_wf (count_msg q)" using parts n l by (simp add: queue_wf_def e eq)
qed

section \<open>Where a message goes\<close>

text \<open>The class and the priority words the strategies document for a message.\<close>

definition msg_class :: "int \<Rightarrow> int \<Rightarrow> u32 \<Rightarrow> u32 list \<Rightarrow> nat \<times> u32 list" where
  "msg_class endian strategy bits prioptr =
     (if strategy \<in> {CQS_QUEUEING_FIFO, CQS_QUEUEING_LIFO} then (1, [])
      else if strategy \<in> {CQS_QUEUEING_IFIFO, CQS_QUEUEING_ILIFO} then
        (if sint (prioptr ! 0) < 0 then 0 else 2, [prioptr ! 0 + 2 ^ 31])
      else if strategy \<in> {CQS_QUEUEING_BFIFO, CQS_QUEUEING_BLIFO} then
        (if bits \<noteq> 0 \<and> sint (prioptr ! 0) < 0 then 2 else 0, take (prio_ints bits) prioptr)
      else let v = words_to_long endian prioptr
           in (if sint v < 0 then 0 else 2, [ucast (drop_bit 32 (v + 2 ^ 63)), ucast (v + 2 ^ 63)]))"

definition strategy_fifo :: "int \<Rightarrow> bool" where
  "strategy_fifo strategy \<longleftrightarrow>
     strategy \<in> {CQS_QUEUEING_FIFO, CQS_QUEUEING_IFIFO, CQS_QUEUEING_BFIFO, CQS_QUEUEING_LFIFO}"

definition valid_request :: "int \<Rightarrow> u32 \<Rightarrow> u32 list \<Rightarrow> bool" where
  "valid_request strategy bits prioptr \<longleftrightarrow>
     2 \<le> strategy \<and> strategy \<le> 9 \<and>
     (strategy \<in> {CQS_QUEUEING_IFIFO, CQS_QUEUEING_ILIFO} \<longrightarrow> prioptr \<noteq> []) \<and>
     (strategy \<in> {CQS_QUEUEING_BFIFO, CQS_QUEUEING_BLIFO} \<longrightarrow>
        unat bits < 65536 \<and> prio_ints bits \<le> length prioptr) \<and>
     (strategy \<in> {CQS_QUEUEING_LFIFO, CQS_QUEUEING_LLIFO} \<longrightarrow> bits = CLONGBITS)"

text \<open>The insertion into one of the three parts.\<close>

definition place :: "bool \<Rightarrow> queue \<Rightarrow> nat \<Rightarrow> u32 \<Rightarrow> u32 list \<Rightarrow> ptr \<Rightarrow> queue option" where
  "place fifo q c bits data msg =
     (if c = 1 then Some (q\<lparr>zeroprio := (if fifo then CqsDeqEnqueueFifo (zeroprio q) msg
                                       else CqsDeqEnqueueLifo (zeroprio q) msg)\<rparr>)
      else enqueue_side fifo (c = 2) q bits data msg)"

lemma place_ok:
  assumes wf: "queue_wf q" and ok: "unat bits < 65536" "prio_ints bits \<le> length data"
    and c: "c \<le> 2" and room: "Suc (length (queue_entries q)) < 2 ^ 32"
  obtains q' where "place fifo q c bits data msg = Some q'" "queue_wf (count_msg q')"
    "mset (queue_entries (count_msg q')) =
       add_mset (c, if c = 1 then [] else take (prio_ints bits) data, msg) (mset (queue_entries q))"
    "qlength (count_msg q') = qlength q + 1"
proof -
  note result = that
  have parts: "deq_inv (zeroprio q)" "prioq_wf {} (negprioq q)" "prioq_wf {} (posprioq q)"
    "qlength q = of_nat (length (queue_entries q))" using wf by (auto simp: queue_wf_def)
  have fin: thesis if p: "place fifo q c bits data msg = Some q'"
    and parts': "deq_inv (zeroprio q')" "prioq_wf {} (negprioq q')" "prioq_wf {} (posprioq q')"
    and len: "qlength q' = qlength q"
    and ms: "mset (queue_entries q') =
       add_mset (c, if c = 1 then [] else take (prio_ints bits) data, msg) (mset (queue_entries q))" for q'
  proof -
    have l: "length (queue_entries q') = Suc (length (queue_entries q))"
      using ms by (metis size_add_mset size_mset)
    note C = count_msg_wf [OF parts' l room, unfolded len, OF parts(4)]
    show thesis using p C ms parts(4) by (intro result [of q']) simp_all
  qed
  consider "c = 0" | "c = 1" | "c = 2" using c by linarith
  then show thesis
  proof cases
    case 1
    obtain p where "prioq_enqueue fifo (negprioq q) bits data msg = Some p" "prioq_wf {} p"
      "mset (prioq_entries p) = add_mset (take (prio_ints bits) data, msg) (mset (prioq_entries (negprioq q)))"
      by (rule prioq_enqueue_ok [OF parts(2) ok]) blast
    then show thesis using 1 parts
      by (intro fin [of "q\<lparr>negprioq := p\<rparr>"]) (simp_all add: place_def enqueue_side_def queue_entries_def)
  next
    case 2
    then show thesis using parts
      by (intro fin [of "q\<lparr>zeroprio := (if fifo then CqsDeqEnqueueFifo (zeroprio q) msg
            else CqsDeqEnqueueLifo (zeroprio q) msg)\<rparr>"])
         (simp_all add: place_def queue_entries_def deq_simps)
  next
    case 3
    obtain p where "prioq_enqueue fifo (posprioq q) bits data msg = Some p" "prioq_wf {} p"
      "mset (prioq_entries p) = add_mset (take (prio_ints bits) data, msg) (mset (prioq_entries (posprioq q)))"
      by (rule prioq_enqueue_ok [OF parts(3) ok]) blast
    then show thesis using 3 parts
      by (intro fin [of "q\<lparr>posprioq := p\<rparr>"]) (simp_all add: place_def enqueue_side_def queue_entries_def)
  qed
qed

lemma long_words_data:
  "long_to_words endian (if endian = 0 then push_bit 32 (ucast (long_to_words endian v ! 0))
       OR ucast (long_to_words endian v ! 1) else v) = [ucast (drop_bit 32 v), ucast v]"
proof (cases "endian = 0")
  case True
  then show ?thesis using words64 [of "ucast v" "ucast (drop_bit 32 v)"]
    by (simp only: long_to_words_def if_True nth_Cons_0 nth_Cons_Suc One_nat_def simp_thms)
qed (simp add: long_to_words_def)

text \<open>\<^verbatim>\<open>CqsEnqueueGeneral\<close> puts the message where its strategy and priority say.\<close>

lemma enqueueGeneral_place:
  fixes endian :: int
  assumes "valid_request strategy bits prioptr"
  defines "c \<equiv> msg_class endian strategy bits prioptr"
  obtains bits' data' where
    "CqsEnqueueGeneral endian q msg strategy bits prioptr =
       map_option (\<lambda>q'. Inr (count_msg q')) (place (strategy_fifo strategy) q (fst c) bits' data' msg)"
    "unat bits' < 65536" "prio_ints bits' \<le> length data'" "fst c \<le> 2"
    "snd c = (if fst c = 1 then [] else take (prio_ints bits') data')"
proof -
  have u: "unat CINTBITS < 65536" "unat CLONGBITS < 65536" by (simp_all add: CINTBITS_def CLONGBITS_def)
  have sign: "(p :: 'a :: len word) <s 0 \<longleftrightarrow> sint p < 0" for p by (simp add: word_sless_alt)
  have s: "2 \<le> strategy" "strategy \<le> 9" using assms(1) unfolding valid_request_def by blast+
  consider (zero) "strategy = 2 \<or> strategy = 3" | (int) "strategy = 4 \<or> strategy = 5"
    | (bits) "strategy = 6 \<or> strategy = 7" | (long) "strategy = 8 \<or> strategy = 9" using s by linarith
  then show thesis
  proof cases
    case zero
    then show thesis
      by (intro that [of CINTBITS "[0]"])
         (auto simp: CqsEnqueueGeneral_def place_def c_def msg_class_def strategy_fifo_def strategy_defs u Let_def)
  next
    case int
    have c: "c = (if sint (prioptr ! 0) < 0 then 0 else 2, [prioptr ! 0 + 2 ^ 31])"
      using int by (elim disjE) (simp_all add: c_def msg_class_def strategy_defs)
    have e: "CqsEnqueueGeneral endian q msg strategy bits prioptr =
        map_option (\<lambda>q'. Inr (count_msg q')) (enqueue_int (strategy_fifo strategy) q msg prioptr)"
      using int by (auto simp: CqsEnqueueGeneral_def strategy_fifo_def strategy_defs Let_def)
    have "(prioptr ! 0 + 2 ^ 31) <s 0 \<longleftrightarrow> \<not> sint (prioptr ! 0) < 0"
      using bias32_neg [of "prioptr ! 0"] by (simp add: sign)
    then show thesis
      by (intro that [of CINTBITS "[prioptr ! 0 + 2 ^ 31]"])
         (simp_all add: place_def enqueue_int_def push_bit_eq_mult u Let_def c e)
  next
    case bits
    then show thesis using assms(1)
      by (intro that [of bits prioptr])
         (auto simp: CqsEnqueueGeneral_def place_def c_def msg_class_def strategy_fifo_def strategy_defs Let_def
            enqueue_bits_def sign valid_request_def)
  next
    case long
    then have b: "bits = CLONGBITS" using assms(1) by (auto simp: valid_request_def strategy_defs)
    let ?v = "words_to_long endian prioptr"
    have c: "c = (if sint ?v < 0 then 0 else 2, [ucast (drop_bit 32 (?v + 2 ^ 63)), ucast (?v + 2 ^ 63)])"
      using long by (elim disjE) (simp_all add: c_def msg_class_def strategy_defs Let_def)
    have e: "CqsEnqueueGeneral endian q msg strategy bits prioptr =
        map_option (\<lambda>q'. Inr (count_msg q')) (enqueue_long endian (strategy_fifo strategy) q msg CLONGBITS prioptr)"
      using long b by (auto simp: CqsEnqueueGeneral_def strategy_fifo_def strategy_defs Let_def)
    have "(?v + 2 ^ 63) <s 0 \<longleftrightarrow> \<not> sint ?v < 0"
      using bias64_neg [of ?v] by (simp add: sign)
    then show thesis
      by (intro that [of CLONGBITS "[ucast (drop_bit 32 (?v + 2 ^ 63)), ucast (?v + 2 ^ 63)]"])
         (simp_all add: place_def enqueue_long_def push_bit_eq_mult u Let_def c e long_words_data)
  qed
qed

section \<open>Dequeue\<close>

lemma prioq_parts_entries:
  assumes "queue_wf q"
  shows "heapnext (negprioq q) > 1 \<longleftrightarrow> prioq_entries (negprioq q) \<noteq> []"
    "heapnext (posprioq q) > 1 \<longleftrightarrow> prioq_entries (posprioq q) \<noteq> []"
    "\<not> deq_empty (zeroprio q) \<longleftrightarrow> deq_list (zeroprio q) \<noteq> []"
proof -
  have w: "prioq_wf {} (negprioq q)" "prioq_wf {} (posprioq q)" "deq_inv (zeroprio q)"
    using assms by (auto simp: queue_wf_def)
  have "1 \<le> heapnext (negprioq q)" "1 \<le> heapnext (posprioq q)"
    using w(1,2) by (auto simp: prioq_wf_def heap_wf_def)
  then show "heapnext (negprioq q) > 1 \<longleftrightarrow> prioq_entries (negprioq q) \<noteq> []"
    "heapnext (posprioq q) > 1 \<longleftrightarrow> prioq_entries (posprioq q) \<noteq> []"
    using prioq_empty_iff [OF w(1)] prioq_empty_iff [OF w(2)] by auto
  show "\<not> deq_empty (zeroprio q) \<longleftrightarrow> deq_list (zeroprio q) \<noteq> []"
    using deq_empty_iff [OF w(3)] by simp
qed

lemma prioq_dequeue_step:
  assumes wf: "prioq_wf {} p" and ne: "prioq_entries p \<noteq> []"
  obtains x k p' where "CqsPrioqDequeue p = (x, p')" "prioq_wf {} p'"
    "mset (prioq_entries p) = add_mset (k, x) (mset (prioq_entries p'))"
    "\<And>k' y. (k', y) \<in> set (prioq_entries p) \<Longrightarrow> k \<le> k'"
proof -
  have n: "heapnext p \<noteq> 1" using prioq_empty_iff [OF wf] ne by simp
  note R = prioq_wf_root [OF wf n]
  obtain x p' where d: "CqsPrioqDequeue p = (x, p')" "prioq_wf {} p'"
    "mset (prioq_entries p) = add_mset (elt_key (elts p) (heap p ! 1), x) (mset (prioq_entries p'))"
    by (rule prioq_dequeue_ok [OF wf n]) blast
  moreover have "elt_key (elts p) (heap p ! 1) \<le> k'" if "(k', y) \<in> set (prioq_entries p)" for k' y
    using R(4) that unfolding set_entries [OF wf] by blast
  ultimately show ?thesis by (rule that)
qed

lemma dequeue_wf:
  assumes wf: "queue_wf q" and ms: "mset (queue_entries q) = add_mset e (mset (queue_entries q'))"
    and parts: "deq_inv (zeroprio q')" "prioq_wf {} (negprioq q')" "prioq_wf {} (posprioq q')"
    and l: "qlength q' = qlength q - 1" "qmaxlen q' = qmaxlen q"
  shows "queue_wf q'"
proof -
  have n: "length (queue_entries q) = Suc (length (queue_entries q'))"
    using ms by (metis size_add_mset size_mset)
  have Q: "length (queue_entries q) < 2 ^ 32" "qlength q = of_nat (length (queue_entries q))"
    "qlength q \<le> qmaxlen q" using wf by (auto simp: queue_wf_def)
  have l': "qlength q' = of_nat (length (queue_entries q'))" using l(1) Q(2) n by simp
  have "unat (qlength q') = length (queue_entries q')" using Q(1) n unfolding l' by (simp add: unat_of_nat)
  then have "unat (qlength q') \<le> unat (qlength q)" using queue_length [OF wf] n by simp
  then have "qlength q' \<le> qmaxlen q'" using Q(3) l(2) by (simp add: word_le_nat_alt)
  then show ?thesis using parts Q n l' by (simp add: queue_wf_def)
qed

lemma dequeue_ok:
  assumes wf: "queue_wf q" and ne: "queue_entries q \<noteq> []"
  obtains x c k q' where "CqsDequeue q = (x, q')" "queue_wf q'"
    "mset (queue_entries q) = add_mset (c, k, x) (mset (queue_entries q'))"
    "\<And>e. e \<in> set (queue_entries q) \<Longrightarrow> entry_le (c, k, x) e" "qlength q' = qlength q - 1"
proof -
  have parts: "deq_inv (zeroprio q)" "prioq_wf {} (negprioq q)" "prioq_wf {} (posprioq q)"
    using wf by (auto simp: queue_wf_def)
  note P = prioq_parts_entries [OF wf]
  have l0: "qlength q \<noteq> 0" using queue_length [OF wf] ne by auto
  consider (neg) "prioq_entries (negprioq q) \<noteq> []"
    | (zero) "prioq_entries (negprioq q) = []" "deq_list (zeroprio q) \<noteq> []"
    | (pos) "prioq_entries (negprioq q) = []" "deq_list (zeroprio q) = []" "prioq_entries (posprioq q) \<noteq> []"
    using ne by (auto simp: queue_entries_def)
  then show thesis
  proof cases
    case neg
    obtain x k p' where d: "CqsPrioqDequeue (negprioq q) = (x, p')" "prioq_wf {} p'"
      "mset (prioq_entries (negprioq q)) = add_mset (k, x) (mset (prioq_entries p'))"
      "\<And>k' y. (k', y) \<in> set (prioq_entries (negprioq q)) \<Longrightarrow> k \<le> k'"
      by (rule prioq_dequeue_step [OF parts(2) neg]) blast
    let ?q = "q\<lparr>negprioq := p', qlength := qlength q - 1\<rparr>"
    have ms: "mset (queue_entries q) = add_mset (0, k, x) (mset (queue_entries ?q))"
      using d(3) by (simp add: queue_entries_def)
    then have "queue_wf ?q" using parts d(2) by (intro dequeue_wf [OF wf ms]) simp_all
    moreover have "CqsDequeue q = (x, ?q)" using l0 P(1) neg d(1) by (simp add: CqsDequeue_def)
    ultimately show thesis using ms d(4) by (intro that [of x ?q 0 k]) (auto simp: queue_entries_def entry_le_def)
  next
    case zero
    then obtain x xs where x: "deq_list (zeroprio q) = x # xs" by (auto simp: neq_Nil_conv)
    obtain d where d: "CqsDeqDequeue (zeroprio q) = (x, d)" "deq_list d = xs" "deq_inv d"
      using dequeue_Cons [OF parts(1) x] dequeue_inv [OF parts(1)] by (cases "CqsDeqDequeue (zeroprio q)") auto
    let ?q = "q\<lparr>zeroprio := d, qlength := qlength q - 1\<rparr>"
    have ms: "mset (queue_entries q) = add_mset (1, [], x) (mset (queue_entries ?q))"
      using d(2) x by (simp add: queue_entries_def)
    then have "queue_wf ?q" using parts d(3) by (intro dequeue_wf [OF wf ms]) simp_all
    moreover have "CqsDequeue q = (x, ?q)" using l0 P zero d(1) by (simp add: CqsDequeue_def)
    ultimately show thesis using ms zero
      by (intro that [of x ?q 1 "[]"]) (auto simp: queue_entries_def entry_le_def)
  next
    case pos
    obtain x k p' where d: "CqsPrioqDequeue (posprioq q) = (x, p')" "prioq_wf {} p'"
      "mset (prioq_entries (posprioq q)) = add_mset (k, x) (mset (prioq_entries p'))"
      "\<And>k' y. (k', y) \<in> set (prioq_entries (posprioq q)) \<Longrightarrow> k \<le> k'"
      by (rule prioq_dequeue_step [OF parts(3) pos(3)]) blast
    let ?q = "q\<lparr>posprioq := p', qlength := qlength q - 1\<rparr>"
    have ms: "mset (queue_entries q) = add_mset (2, k, x) (mset (queue_entries ?q))"
      using d(3) by (simp add: queue_entries_def)
    then have "queue_wf ?q" using parts d(2) by (intro dequeue_wf [OF wf ms]) simp_all
    moreover have "CqsDequeue q = (x, ?q)" using l0 P pos d(1) by (simp add: CqsDequeue_def)
    ultimately show thesis using ms d(4) pos
      by (intro that [of x ?q 2 k]) (auto simp: queue_entries_def entry_le_def)
  qed
qed

section \<open>The contract of a scheduler queue\<close>

text \<open>
  What a scheduler relies on: a dequeue from a non-empty queue returns a least entry and
  removes it.  Draining such a queue yields its entries in order.
\<close>

fun drain :: "('q \<Rightarrow> ptr \<times> 'q) \<Rightarrow> nat \<Rightarrow> 'q \<Rightarrow> ptr list" where
  "drain deq 0 q = []"
| "drain deq (Suc n) q = (let (x, q') = deq q in x # drain deq n q')"

locale sched_queue =
  fixes wf :: "'q \<Rightarrow> bool" and entries :: "'q \<Rightarrow> 'e list" and deq :: "'q \<Rightarrow> ptr \<times> 'q"
    and le :: "'e \<Rightarrow> 'e \<Rightarrow> bool" and msg :: "'e \<Rightarrow> ptr"
  assumes deq_least: "wf q \<Longrightarrow> entries q \<noteq> [] \<Longrightarrow>
    \<exists>e q'. deq q = (msg e, q') \<and> wf q' \<and> mset (entries q) = add_mset e (mset (entries q')) \<and>
      (\<forall>f \<in> set (entries q). le e f)"
begin

lemma drain_ordered:
  "wf q \<Longrightarrow> length (entries q) = n \<Longrightarrow>
   \<exists>es. drain deq n q = map msg es \<and> mset es = mset (entries q) \<and> sorted_wrt le es"
proof (induction n arbitrary: q)
  case (Suc n)
  then have "entries q \<noteq> []" by auto
  from deq_least [OF Suc.prems(1) this] obtain e q' where d: "deq q = (msg e, q')" "wf q'"
    "mset (entries q) = add_mset e (mset (entries q'))" "\<forall>f \<in> set (entries q). le e f" by blast
  have "size (mset (entries q)) = Suc (size (mset (entries q')))" using d(3) by simp
  then have "length (entries q') = n" using Suc.prems(2) by simp
  from Suc.IH [OF d(2) this] obtain es where es: "drain deq n q' = map msg es"
    "mset es = mset (entries q')" "sorted_wrt le es" by blast
  have "set es \<subseteq> set (entries q)"
    using mset_eq_setD [OF es(2)] d(3) by (metis set_mset_add_mset_insert set_mset_mset subset_insertI)
  then show ?case using es d by (intro exI [of _ "e # es"]) auto
qed simp

end

interpretation cqs_queue: sched_queue queue_wf queue_entries CqsDequeue entry_le "\<lambda>e. snd (snd e)"
proof
  fix q assume "queue_wf q" "queue_entries q \<noteq> []"
  then show "\<exists>e q'. CqsDequeue q = (snd (snd e), q') \<and> queue_wf q' \<and>
      mset (queue_entries q) = add_mset e (mset (queue_entries q')) \<and>
      (\<forall>f \<in> set (queue_entries q). entry_le e f)"
    by (rule dequeue_ok) (metis snd_conv)
qed

section \<open>Integer priorities\<close>

fun enqueue_ints :: "queue \<Rightarrow> (u32 \<times> ptr) list \<Rightarrow> queue result option" where
  "enqueue_ints q [] = Some (Inr q)"
| "enqueue_ints q ((p, m) # xs) =
     (case CqsEnqueueGeneral 0 q m CQS_QUEUEING_IFIFO 32 [p] of
        Some (Inr q') \<Rightarrow> enqueue_ints q' xs
      | r \<Rightarrow> r)"

definition int_entry :: "u32 \<times> ptr \<Rightarrow> entry" where
  "int_entry pm = (if sint (fst pm) < 0 then 0 else 2, [fst pm + 2 ^ 31], snd pm)"

lemma enqueueGeneral_ok:
  assumes "queue_wf q" "valid_request strategy bits prioptr" "Suc (length (queue_entries q)) < 2 ^ 32"
  obtains q' where "CqsEnqueueGeneral endian q msg strategy bits prioptr = Some (Inr q')" "queue_wf q'"
    "mset (queue_entries q') = add_mset (fst (msg_class endian strategy bits prioptr),
       snd (msg_class endian strategy bits prioptr), msg) (mset (queue_entries q))"
    "qlength q' = qlength q + 1"
proof -
  let ?c = "msg_class endian strategy bits prioptr"
  obtain bits' data' where e: "CqsEnqueueGeneral endian q msg strategy bits prioptr =
       map_option (\<lambda>q'. Inr (count_msg q')) (place (strategy_fifo strategy) q (fst ?c) bits' data' msg)"
    and ok: "unat bits' < 65536" "prio_ints bits' \<le> length data'" "fst ?c \<le> 2"
      "snd ?c = (if fst ?c = 1 then [] else take (prio_ints bits') data')"
    by (rule enqueueGeneral_place [OF assms(2)]) blast
  obtain q' where "place (strategy_fifo strategy) q (fst ?c) bits' data' msg = Some q'" "queue_wf (count_msg q')"
    "mset (queue_entries (count_msg q')) = add_mset (fst ?c, if fst ?c = 1 then [] else take (prio_ints bits') data', msg)
       (mset (queue_entries q))" "qlength (count_msg q') = qlength q + 1"
    by (rule place_ok [OF assms(1) ok(1,2,3) assms(3)]) blast
  then show thesis using e ok(4) by (intro that [of "count_msg q'"]) simp_all
qed

lemma int_request: "valid_request CQS_QUEUEING_IFIFO 32 [p]"
  by (simp add: valid_request_def strategy_defs)

lemma int_class:
  "msg_class e CQS_QUEUEING_IFIFO b [p] = (fst (int_entry (p, m)), fst (snd (int_entry (p, m))))"
  by (simp add: msg_class_def strategy_defs int_entry_def)

lemma enqueue_ints_ok:
  "queue_wf q \<Longrightarrow> length (queue_entries q) + length xs < 2 ^ 32 \<Longrightarrow>
   \<exists>q'. enqueue_ints q xs = Some (Inr q') \<and> queue_wf q' \<and>
     mset (queue_entries q') = mset (queue_entries q) + mset (map int_entry xs)"
proof (induction xs arbitrary: q)
  case (Cons pm xs)
  obtain p m where pm: "pm = (p, m)" by force
  have room: "Suc (length (queue_entries q)) < 2 ^ 32" using Cons.prems(2) by simp
  obtain q' where q': "CqsEnqueueGeneral 0 q m CQS_QUEUEING_IFIFO 32 [p] = Some (Inr q')" "queue_wf q'"
    "mset (queue_entries q') = add_mset (int_entry pm) (mset (queue_entries q))"
    by (rule enqueueGeneral_ok [OF Cons.prems(1) int_request room, of 0 m])
       (auto simp: int_class [of _ _ _ m] pm int_entry_def)
  have "length (queue_entries q') = Suc (length (queue_entries q))"
    using q'(3) by (metis size_add_mset size_mset)
  with Cons.IH [OF q'(2)] Cons.prems(2) q' show ?case by (auto simp: pm)
qed simp

lemma entry_le_int:
  "entry_le (int_entry x) (int_entry y) \<Longrightarrow> sint (fst x) \<le> sint (fst y)"
proof (rule ccontr)
  assume a: "entry_le (int_entry x) (int_entry y)" and "\<not> sint (fst x) \<le> sint (fst y)"
  then have lt: "sint (fst y) < sint (fst x)" by simp
  then have "fst y + 2147483648 < fst x + 2147483648" unfolding bias32_less word_sless_alt .
  then have "\<not> [fst x + 2 ^ 31] \<le> [fst y + 2 ^ 31]" by auto
  then have "fst (int_entry x) < fst (int_entry y)" using a by (simp add: entry_le_def int_entry_def)
  then show False using lt by (auto simp: int_entry_def split: if_splits)
qed

section \<open>Enumeration and removal\<close>

lemma bucket_copy_loop_eq:
  "deq_inv (d\<lparr>dhead := h\<rparr>) \<Longrightarrow> j + length (deq_list (d\<lparr>dhead := h\<rparr>)) \<le> length res \<Longrightarrow>
   bucket_copy_loop d h res j =
     Some (take j res @ deq_list (d\<lparr>dhead := h\<rparr>) @ drop (j + length (deq_list (d\<lparr>dhead := h\<rparr>))) res,
       j + length (deq_list (d\<lparr>dhead := h\<rparr>)))"
proof (induction "deq_list (d\<lparr>dhead := h\<rparr>)" arbitrary: h j res)
  case Nil
  then show ?case
    by (cases rule: deq_cursor_cases [OF Nil.prems(1)]) (simp_all add: bucket_copy_loop.simps)
next
  case (Cons x xs)
  from Cons.prems(1) show ?case
  proof (cases rule: deq_cursor_cases)
    case stop
    then show ?thesis using Cons.hyps by simp
  next
    case step
    with Cons.hyps have xs: "xs = deq_list (d\<lparr>dhead := deq_next d h\<rparr>)" by simp
    have "j < length res" using step Cons.prems(2) by simp
    then show ?thesis
      using step xs Cons.prems(2) Cons.hyps(1) [of "deq_next d h" "j + 1" "res[j := dvec d ! h]"]
      by (simp add: bucket_copy_loop.simps [of d h] take_Suc_update)
  qed
qed

lemma bucket_copy_eq:
  "deq_inv d \<Longrightarrow> j + length (deq_list d) \<le> length res \<Longrightarrow>
   bucket_copy_loop d (dhead d) res j =
     Some (take j res @ deq_list d @ drop (j + length (deq_list d)) res, j + length (deq_list d))"
  using bucket_copy_loop_eq [of "dhead d" d j res] by simp

definition bucket_msgs :: "eltmem \<Rightarrow> ptr list \<Rightarrow> ptr list" where
  "bucket_msgs m pes = concat (map (bucket_list m) pes)"

lemma count_buckets_eq:
  "\<forall>pe \<in> set pes. pe \<in> dom m \<and> deq_inv (edata (the (m pe))) \<Longrightarrow>
   count_buckets m pes n = Some (n + length (bucket_msgs m pes))"
proof (induction pes arbitrary: n)
  case (Cons pe pes)
  then obtain e where e: "m pe = Some e" "deq_inv (edata e)" by auto
  then have "deq_count_loop (edata e) (dhead (edata e)) n = Some (n + length (deq_list (edata e)))"
    using deq_count_loop_eq [of "dhead (edata e)" "edata e" n] by simp
  then show ?case using Cons e by (simp add: bucket_msgs_def bucket_list_def)
qed (simp add: bucket_msgs_def)

lemma copy_buckets_eq:
  "\<forall>pe \<in> set pes. pe \<in> dom m \<and> deq_inv (edata (the (m pe))) \<Longrightarrow>
   j + length (bucket_msgs m pes) = length res \<Longrightarrow>
   copy_buckets m pes res j = Some (take j res @ bucket_msgs m pes)"
proof (induction pes arbitrary: res j)
  case (Cons pe pes)
  then obtain e where e: "m pe = Some e" "deq_inv (edata e)" by auto
  let ?l = "deq_list (edata e)"
  have b: "bucket_msgs m (pe # pes) = ?l @ bucket_msgs m pes"
    using e(1) by (simp add: bucket_msgs_def bucket_list_def)
  have len: "j + length ?l \<le> length res" using Cons.prems(2) b by simp
  let ?r = "take j res @ ?l @ drop (j + length ?l) res"
  have "copy_buckets m pes ?r (j + length ?l) = Some (take (j + length ?l) ?r @ bucket_msgs m pes)"
    using Cons.prems b len by (intro Cons.IH) auto
  then show ?case using bucket_copy_eq [OF e(2) len] e(1) b len by simp
qed (simp add: bucket_msgs_def)

lemma heap_elems_map: "n \<le> length h \<Longrightarrow> map ((!) h) [1..<n] = heap_elems h n"
  by (rule nth_equalityI) (simp_all add: nth_heap_elems)

lemma prioq_wf_pes:
  assumes "prioq_wf {} p"
  shows "map ((!) (heap p)) [1..<heapnext p] = prioq_buckets p"
    "\<forall>pe \<in> set (prioq_buckets p). pe \<in> dom (elts p) \<and> deq_inv (edata (the (elts p pe)))"
proof -
  have "heapnext p \<le> length (heap p)" using assms by (auto simp: prioq_wf_def heap_wf_def)
  then show "map ((!) (heap p)) [1..<heapnext p] = prioq_buckets p"
    by (simp only: heap_elems_map prioq_buckets_def)
  have "mem_wf (elts p) (fresh p) {}" using assms by (simp add: prioq_wf_def)
  then show "\<forall>pe \<in> set (prioq_buckets p). pe \<in> dom (elts p) \<and> deq_inv (edata (the (elts p pe)))"
    using prioq_wf_buckets(1) [OF assms] mem_wfD(3) by blast
qed

lemma bucket_msgs_entries: "bucket_msgs (elts p) (prioq_buckets p) = map snd (prioq_entries p)"
  by (simp add: bucket_msgs_def prioq_entries_def map_concat comp_def)

lemma enumerate_prioq:
  "prioq_wf {} p \<Longrightarrow> CqsEnumeratePrioq p = Some (map snd (prioq_entries p), length (prioq_entries p))"
  using prioq_wf_pes [of p] count_buckets_eq [of "prioq_buckets p" "elts p" 0]
    copy_buckets_eq [of "prioq_buckets p" "elts p" 0 "replicate (length (prioq_entries p)) NULL"]
  by (simp add: CqsEnumeratePrioq_def bucket_msgs_entries)

lemma append_result_eq:
  "j + length xs \<le> length resp \<Longrightarrow>
   append_result resp j xs = Some (take j resp @ xs @ drop (j + length xs) resp, j + length xs)"
proof (induction xs arbitrary: resp j)
  case (Cons x xs)
  then show ?case by (simp add: take_Suc_update)
qed simp

lemma enumerate_queue:
  assumes "queue_wf q"
  shows "CqsEnumerateQueue q = Some (map (\<lambda>e. snd (snd e)) (queue_entries q))"
proof -
  have w: "prioq_wf {} (negprioq q)" "prioq_wf {} (posprioq q)" "deq_inv (zeroprio q)"
    using assms by (auto simp: queue_wf_def)
  have "unat (qlength q) = length (prioq_entries (negprioq q)) + length (deq_list (zeroprio q))
      + length (prioq_entries (posprioq q))"
    using queue_length [OF assms] by (simp add: queue_entries_def)
  then show ?thesis
    using enumerate_prioq [OF w(1)] enumerate_prioq [OF w(2)] enumerate_deq [OF w(3)]
    by (simp add: CqsEnumerateQueue_def append_enumerated_def append_result_eq queue_entries_def comp_def)
qed

text \<open>Overwriting the first occurrence of a message.\<close>

fun null_first :: "ptr \<Rightarrow> ptr list \<Rightarrow> ptr list" where
  "null_first x [] = []"
| "null_first x (y # ys) = (if y = x then NULL # ys else y # null_first x ys)"

lemma null_first_append:
  "null_first x (xs @ ys) = (if x \<in> set xs then null_first x xs @ ys else xs @ null_first x ys)"
  by (induction xs) auto

lemma null_first_id: "x \<notin> set xs \<Longrightarrow> null_first x xs = xs"
  by (induction xs) auto

lemma length_null_first [simp]: "length (null_first x xs) = length xs"
  by (induction x xs rule: null_first.induct) auto

lemma remove_bucket_loop_eq:
  "deq_inv (d\<lparr>dhead := h\<rparr>) \<Longrightarrow>
   (if x \<in> set (deq_list (d\<lparr>dhead := h\<rparr>))
    then \<exists>i < dsize d. dvec d ! i = x \<and>
       remove_bucket_loop d x h = Some (1, d\<lparr>dvec := (dvec d)[i := NULL]\<rparr>) \<and>
       deq_list (d\<lparr>dvec := (dvec d)[i := NULL], dhead := h\<rparr>) = null_first x (deq_list (d\<lparr>dhead := h\<rparr>))
    else remove_bucket_loop d x h = Some (0, d))"
proof (induction "deq_list (d\<lparr>dhead := h\<rparr>)" arbitrary: h)
  case Nil
  then show ?case
    by (cases rule: deq_cursor_cases [OF Nil.prems]) (simp_all add: remove_bucket_loop.simps)
next
  case (Cons y ys)
  from Cons.prems show ?case
  proof (cases rule: deq_cursor_cases)
    case stop
    then show ?thesis using Cons.hyps by simp
  next
    case step
    with Cons.hyps have ys: "ys = deq_list (d\<lparr>dhead := deq_next d h\<rparr>)" by simp
    have h: "h < dsize d" using Cons.prems by (simp add: deq_inv_def dsize_def)
    have upd: "deq_list (d\<lparr>dvec := (dvec d)[i := NULL], dhead := h\<rparr>) =
        (dvec d)[i := NULL] ! h # deq_list (d\<lparr>dvec := (dvec d)[i := NULL], dhead := deq_next d h\<rparr>)" for i
      using deq_cursor_step(1) [of h "d\<lparr>dvec := (dvec d)[i := NULL]\<rparr>"] Cons.prems step(1)
      by (simp add: deq_inv_def dsize_def deq_next_def)
    show ?thesis
    proof (cases "dvec d ! h = x")
      case True
      have "deq_list (d\<lparr>dvec := (dvec d)[h := NULL], dhead := deq_next d h\<rparr>) = deq_list (d\<lparr>dhead := deq_next d h\<rparr>)"
        using h step(1) Cons.prems
        by (auto simp: deq_list_def deq_next_def dsize_def deq_inv_def)
      then show ?thesis using True h step upd [of h]
        by (auto simp: remove_bucket_loop.simps [of d x h] dsize_def intro!: exI [of _ h])
    next
      case False
      note IH = Cons.hyps(1) [OF ys step(2)]
      have s: "remove_bucket_loop d x h = remove_bucket_loop d x (deq_next d h)"
        using False step(1) by (simp add: remove_bucket_loop.simps [of d x h])
      show ?thesis
      proof (cases "x \<in> set (deq_list (d\<lparr>dhead := deq_next d h\<rparr>))")
        case True
        with IH obtain i where i: "i < dsize d" "dvec d ! i = x"
          "remove_bucket_loop d x (deq_next d h) = Some (1, d\<lparr>dvec := (dvec d)[i := NULL]\<rparr>)"
          "deq_list (d\<lparr>dvec := (dvec d)[i := NULL], dhead := deq_next d h\<rparr>)
             = null_first x (deq_list (d\<lparr>dhead := deq_next d h\<rparr>))" by auto
        moreover have "i \<noteq> h" using i(2) False by blast
        ultimately show ?thesis using True False s step(3) upd [of i] by (simp, intro exI [of _ i]) simp
      qed (use IH False s step(3) in simp)
    qed
  qed
qed

lemma remove_bucket_ok:
  assumes "deq_inv d" "x \<in> set (deq_list d)"
  obtains d' where "remove_bucket_loop d x (dhead d) = Some (1, d')" "deq_inv d'"
    "deq_list d' = null_first x (deq_list d)"
proof -
  from remove_bucket_loop_eq [of "dhead d" d x] assms obtain i where
    "remove_bucket_loop d x (dhead d) = Some (1, d\<lparr>dvec := (dvec d)[i := NULL]\<rparr>)"
    "deq_list (d\<lparr>dvec := (dvec d)[i := NULL], dhead := dhead d\<rparr>) = null_first x (deq_list d)" by auto
  moreover have "d\<lparr>dvec := (dvec d)[i := NULL], dhead := dhead d\<rparr> = d\<lparr>dvec := (dvec d)[i := NULL]\<rparr>" by simp
  moreover have "deq_inv (d\<lparr>dvec := (dvec d)[i := NULL]\<rparr>)"
    using assms(1) by (simp add: deq_inv_def dsize_def)
  ultimately show thesis by (intro that) simp_all
qed

abbreviation set_edata :: "eltmem \<Rightarrow> ptr \<Rightarrow> deq \<Rightarrow> eltmem" where
  "set_edata m b d \<equiv> upd_elt m b (\<lambda>e. e\<lparr>edata := d\<rparr>)"

lemma bucket_msgs_other: "b \<notin> set pes \<Longrightarrow> bucket_msgs (set_edata m b d) pes = bucket_msgs m pes"
  by (induction pes) (auto simp: bucket_msgs_def bucket_list_def)

lemma remove_buckets_found:
  assumes "distinct pes" "\<forall>pe \<in> set pes. pe \<in> dom m \<and> deq_inv (edata (the (m pe)))"
    and "x \<in> set (bucket_msgs m pes)"
  shows "\<exists>b \<in> set pes. \<exists>d. remove_buckets m pes x = Some (1, set_edata m b d) \<and> deq_inv d \<and>
    length (deq_list d) = length (bucket_list m b) \<and>
    bucket_msgs (set_edata m b d) pes = null_first x (bucket_msgs m pes)"
  using assms
proof (induction pes)
  case (Cons pe pes)
  then obtain e where e: "m pe = Some e" "deq_inv (edata e)" by auto
  have msgs: "bucket_msgs m' (pe # pes) = bucket_list m' pe @ bucket_msgs m' pes" for m'
    by (simp add: bucket_msgs_def)
  have bl: "bucket_list m pe = deq_list (edata e)" using e(1) by (simp add: bucket_list_def)
  show ?case
  proof (cases "x \<in> set (deq_list (edata e))")
    case True
    from remove_bucket_ok [OF e(2) True] obtain d where d:
      "remove_bucket_loop (edata e) x (dhead (edata e)) = Some (1, d)" "deq_inv d"
      "deq_list d = null_first x (deq_list (edata e))" .
    have "remove_buckets m (pe # pes) x = Some (1, set_edata m pe d)"
      using e(1) d(1) by (simp add: upd_elt_def)
    moreover have "bucket_list (set_edata m pe d) pe = deq_list d" using e(1) by (simp add: bucket_list_def)
    ultimately show ?thesis
      using d True bl Cons.prems(1) msgs bucket_msgs_other [of pe pes m d]
      by (intro bexI [of _ pe] exI [of _ d]) (simp_all add: null_first_append)
  next
    case False
    then have "remove_bucket_loop (edata e) x (dhead (edata e)) = Some (0, edata e)"
      using remove_bucket_loop_eq [of "dhead (edata e)" "edata e" x] e(2) by simp
    then have r: "remove_buckets m (pe # pes) x = remove_buckets m pes x" using e(1) by simp
    from Cons.IH Cons.prems False msgs bl obtain b d where b: "b \<in> set pes"
      "remove_buckets m pes x = Some (1, set_edata m b d)" "deq_inv d"
      "length (deq_list d) = length (bucket_list m b)"
      "bucket_msgs (set_edata m b d) pes = null_first x (bucket_msgs m pes)" by auto
    have "pe \<noteq> b" using b(1) Cons.prems(1) by auto
    then have "bucket_list (set_edata m b d) pe = bucket_list m pe" by (simp add: bucket_list_def)
    then show ?thesis using b r msgs bl False
      by (intro bexI [of _ b] exI [of _ d]) (simp_all add: null_first_append)
  qed
qed (simp add: bucket_msgs_def)

lemma remove_buckets_absent:
  "\<forall>pe \<in> set pes. pe \<in> dom m \<and> deq_inv (edata (the (m pe))) \<Longrightarrow> x \<notin> set (bucket_msgs m pes) \<Longrightarrow>
   remove_buckets m pes x = Some (0, m)"
proof (induction pes)
  case (Cons pe pes)
  then obtain e where e: "m pe = Some e" "deq_inv (edata e)" by auto
  then have "x \<notin> set (deq_list (edata e))" using Cons.prems(2) by (simp add: bucket_msgs_def bucket_list_def)
  then have "remove_bucket_loop (edata e) x (dhead (edata e)) = Some (0, edata e)"
    using remove_bucket_loop_eq [of "dhead (edata e)" "edata e" x] e(2) by simp
  then show ?case using Cons e by (simp add: bucket_msgs_def)
qed simp

lemma entries_fst:
  "map fst (prioq_entries p) =
   concat (map (\<lambda>b. replicate (length (bucket_list (elts p) b)) (elt_key (elts p) b)) (prioq_buckets p))"
  by (simp add: prioq_entries_def map_concat comp_def map_replicate_const)

lemma removeSpecificPrioq_ok:
  assumes wf: "prioq_wf {} p"
  obtains p' where
    "CqsRemoveSpecificPrioq p x = Some (if x \<in> set (map snd (prioq_entries p)) then 1 else 0, p')"
    "prioq_wf {} p'" "map snd (prioq_entries p') = null_first x (map snd (prioq_entries p))"
    "map fst (prioq_entries p') = map fst (prioq_entries p)"
proof (cases "x \<in> set (map snd (prioq_entries p))")
  case False
  then have "CqsRemoveSpecificPrioq p x = Some (0, p)"
    using prioq_wf_pes [OF wf] remove_buckets_absent [of "prioq_buckets p" "elts p" x]
    by (simp only: CqsRemoveSpecificPrioq_def bucket_msgs_entries) simp
  then show thesis using False wf by (intro that [of p]) (simp_all add: null_first_id)
next
  case True
  note W = prioq_wf_pes [OF wf] and B = prioq_wf_buckets [OF wf]
  from remove_buckets_found [OF B(2) W(2), of x] True obtain b d where b: "b \<in> set (prioq_buckets p)"
    "remove_buckets (elts p) (prioq_buckets p) x = Some (1, set_edata (elts p) b d)" "deq_inv d"
    "length (deq_list d) = length (bucket_list (elts p) b)"
    "bucket_msgs (set_edata (elts p) b d) (prioq_buckets p) = null_first x (map snd (prioq_entries p))"
    by (auto simp: bucket_msgs_entries)
  let ?q = "upd_edata p b d"
  have bd: "b \<in> dom (elts p)" using b(1) B(1) by simp
  have mw: "mem_wf (elts p) (fresh p) {}" using wf by (simp add: prioq_wf_def)
  have "deq_list d \<noteq> []" using mem_wfD(5) [OF mw bd] b(4) by auto
  then have wf': "prioq_wf {} ?q" using b(3) by (intro upd_edata_wf [OF wf bd]) auto
  have e: "elts ?q = set_edata (elts p) b d" by (simp add: upd_edata_def)
  have "map snd (prioq_entries ?q) = null_first x (map snd (prioq_entries p))"
    using b(5) by (simp add: bucket_msgs_entries [symmetric] e)
  moreover have "length (bucket_list (elts ?q) c) = length (bucket_list (elts p) c)" for c
    using upd_edata_at(4,5) [OF bd, where d = d] b(4) by (cases "c = b") simp_all
  then have "map fst (prioq_entries ?q) = map fst (prioq_entries p)"
    using upd_edata_at(2) [OF bd, where d = d] by (simp add: entries_fst)
  moreover have "CqsRemoveSpecificPrioq p x = Some (1, ?q)"
    using b(2) by (simp only: CqsRemoveSpecificPrioq_def W(1)) (simp add: upd_edata_def)
  ultimately show thesis using wf' True by (intro that [of ?q]) simp_all
qed

definition queue_msgs :: "queue \<Rightarrow> ptr list" where
  "queue_msgs q = map (\<lambda>e. snd (snd e)) (queue_entries q)"

definition queue_keys :: "queue \<Rightarrow> (nat \<times> u32 list) list" where
  "queue_keys q = map (\<lambda>e. (fst e, fst (snd e))) (queue_entries q)"

lemma queue_msgs_eq:
  "queue_msgs q = map snd (prioq_entries (negprioq q)) @ deq_list (zeroprio q) @ map snd (prioq_entries (posprioq q))"
  by (simp add: queue_msgs_def queue_entries_def comp_def)

lemma queue_keys_eq:
  "queue_keys q = map (Pair 0) (map fst (prioq_entries (negprioq q))) @ map (\<lambda>x. (1, [])) (deq_list (zeroprio q))
     @ map (Pair 2) (map fst (prioq_entries (posprioq q)))"
  by (simp add: queue_keys_def queue_entries_def comp_def)

lemma queue_wf_keys:
  assumes "queue_wf q" "queue_keys q' = queue_keys q" "qlength q' = qlength q" "qmaxlen q' = qmaxlen q"
    and "deq_inv (zeroprio q')" "prioq_wf {} (negprioq q')" "prioq_wf {} (posprioq q')"
  shows "queue_wf q'"
proof -
  have "length (queue_keys q') = length (queue_keys q)" using assms(2) by simp
  then have "length (queue_entries q') = length (queue_entries q)" by (simp add: queue_keys_def)
  then show ?thesis using assms unfolding queue_wf_def by metis
qed

lemma removeSpecific_ok:
  assumes wf: "queue_wf q"
  obtains q' out where "CqsRemoveSpecific q x = Some (q', out)" "queue_wf q'" "queue_keys q' = queue_keys q"
    "queue_msgs q' = (if x \<in> set (deq_list (zeroprio q)) \<and> x \<notin> snd ` set (prioq_entries (negprioq q))
       then queue_msgs q else null_first x (queue_msgs q))" "out = [] \<longleftrightarrow> x \<in> set (queue_msgs q)"
proof -
  have w: "prioq_wf {} (negprioq q)" "prioq_wf {} (posprioq q)" "deq_inv (zeroprio q)"
    using wf by (auto simp: queue_wf_def)
  let ?n = "map snd (prioq_entries (negprioq q))" and ?p = "map snd (prioq_entries (posprioq q))"
  let ?z = "deq_list (zeroprio q)"
  obtain p1 where p1: "CqsRemoveSpecificPrioq (negprioq q) x = Some (if x \<in> set ?n then 1 else 0, p1)"
    "prioq_wf {} p1" "map snd (prioq_entries p1) = null_first x ?n"
    "map fst (prioq_entries p1) = map fst (prioq_entries (negprioq q))" by (rule removeSpecificPrioq_ok [OF w(1)])
  obtain p3 where p3: "CqsRemoveSpecificPrioq (posprioq q) x = Some (if x \<in> set ?p then 1 else 0, p3)"
    "prioq_wf {} p3" "map snd (prioq_entries p3) = null_first x ?p"
    "map fst (prioq_entries p3) = map fst (prioq_entries (posprioq q))" by (rule removeSpecificPrioq_ok [OF w(2)])
  note z = removeSpecificDeq_eq [OF w(3), of x]
  let ?q1 = "q\<lparr>negprioq := p1\<rparr>" and ?q3 = "q\<lparr>negprioq := p1, posprioq := p3\<rparr>"
  have k: "queue_keys ?q1 = queue_keys q" "queue_keys ?q3 = queue_keys q"
    using p1(4) p3(4) by (simp_all add: queue_keys_eq)
  have W: "queue_wf ?q1" "queue_wf ?q3"
    using p1(2) p3(2) w by (auto intro: queue_wf_keys [OF wf k(1)] queue_wf_keys [OF wf k(2)])
  have m: "queue_msgs ?q1 = null_first x ?n @ ?z @ ?p" "queue_msgs ?q3 = null_first x ?n @ ?z @ null_first x ?p"
    using p1(3) p3(3) by (simp_all add: queue_msgs_eq)
  have im: "snd ` set (prioq_entries (negprioq q)) = set ?n" by simp
  consider (neg) "x \<in> set ?n" | (zero) "x \<notin> set ?n" "x \<in> set ?z" | (pos) "x \<notin> set ?n" "x \<notin> set ?z"
    by blast
  then show thesis
  proof cases
    case neg
    then have "CqsRemoveSpecific q x = Some (?q1, [])" using p1(1) by (simp add: CqsRemoveSpecific_def)
    then show thesis using W(1) k(1) m(1) neg unfolding im
      by (intro that [of ?q1 "[]"]) (simp_all only: queue_msgs_eq null_first_append set_append, simp_all)
  next
    case zero
    then have "CqsRemoveSpecific q x = Some (?q1, [])" using p1(1) z by (simp add: CqsRemoveSpecific_def)
    then show thesis using W(1) k(1) m(1) zero null_first_id [OF zero(1)] unfolding im
      by (intro that [of ?q1 "[]"]) (simp_all only: queue_msgs_eq set_append, simp_all)
  next
    case pos
    then have "CqsRemoveSpecific q x = Some (?q3, if x \<in> set ?p then []
        else ''Didn't remove the specified entry because it was not found'')"
      using p1(1) p3(1) z by (simp add: CqsRemoveSpecific_def)
    then show thesis using W(2) k(2) m(2) pos null_first_id [OF pos(1)] unfolding im
      by (intro that [of ?q3]) (simp_all only: queue_msgs_eq null_first_append set_append, simp_all)
  qed
qed

section \<open>Properties of the scheduler queue\<close>

text \<open>
  C7.  For every valid queueing strategy \<^verbatim>\<open>CqsEnqueueGeneral\<close> returns, keeps the queue
  well-formed, adds exactly the message under the class and priority words of its strategy,
  and counts it.
\<close>

theorem enqueueGeneral_adds:
  assumes "queue_wf q" "valid_request strategy bits prioptr" "Suc (length (queue_entries q)) < 2 ^ 32"
  shows "\<exists>q'. CqsEnqueueGeneral endian q msg strategy bits prioptr = Some (Inr q') \<and> queue_wf q' \<and>
    mset (queue_entries q') = add_mset (fst (msg_class endian strategy bits prioptr),
       snd (msg_class endian strategy bits prioptr), msg) (mset (queue_entries q)) \<and>
    CqsLength q' = CqsLength q + 1"
  by (rule enqueueGeneral_ok [OF assms, of endian msg]) (simp add: CqsLength_def)

theorem enqueueGeneral_adds_witness:
  "\<exists>q'. CqsEnqueueGeneral 0 CqsCreate 77 CQS_QUEUEING_LFIFO 64 [5, 0] = Some (Inr q') \<and> queue_wf q' \<and>
     mset (queue_entries q') = {#(2, [2147483648, 5], 77)#} \<and> CqsLength q' = 1"
proof -
  have "valid_request CQS_QUEUEING_LFIFO 64 [5, 0]" by (simp add: valid_request_def strategy_defs CLONGBITS_def)
  moreover have "msg_class 0 CQS_QUEUEING_LFIFO 64 [5, 0] = (2, [2147483648, 5])"
    by (simp add: msg_class_def strategy_defs words_to_long_def Let_def)
  ultimately show ?thesis
    using enqueueGeneral_adds [OF queue_wf_create(1), of CQS_QUEUEING_LFIFO 64 "[5, 0]" 0 77]
    by (simp add: queue_wf_create(2)) (simp add: CqsCreate_def CqsLength_def)
qed

text \<open>
  C8.  A dequeue from a non-empty scheduler queue returns a message that precedes every
  other one (priorities below zero, then no priority, then priorities from zero on, and
  within a class the smaller priority words), removes exactly it and counts it; on an empty
  queue it returns \<^verbatim>\<open>NULL\<close> and changes nothing.
\<close>

theorem queue_dequeue_least:
  assumes "queue_wf q" "CqsDequeue q = (x, q')"
  shows "queue_wf q' \<and>
    (if queue_entries q = [] then x = NULL \<and> q' = q \<and> CqsEmpty q
     else \<exists>c k. mset (queue_entries q) = add_mset (c, k, x) (mset (queue_entries q')) \<and>
       (\<forall>e \<in> set (queue_entries q). entry_le (c, k, x) e) \<and> CqsLength q' = CqsLength q - 1)"
proof (cases "queue_entries q = []")
  case True
  then have "qlength q = 0" using assms(1) by (simp add: queue_wf_def)
  then show ?thesis using True assms by (auto simp: CqsDequeue_def CqsEmpty_def)
next
  case False
  show ?thesis
    by (rule dequeue_ok [OF assms(1) False]) (use assms(2) False in \<open>auto simp: CqsLength_def\<close>)
qed

theorem queue_dequeue_least_witness:
  "\<exists>q x q'. queue_entries q \<noteq> [] \<and> CqsDequeue q = (x, q') \<and> queue_wf q' \<and> x = 77"
proof -
  obtain q where q: "queue_wf q" "mset (queue_entries q) = {#int_entry (5, 77)#}"
    using enqueue_ints_ok [OF queue_wf_create(1), of "[(5, 77)]"] by (auto simp: queue_wf_create(2))
  obtain x q' where d: "CqsDequeue q = (x, q')" by force
  have ne: "queue_entries q \<noteq> []" using q(2) by auto
  then have "queue_wf q' \<and> x = 77"
    using queue_dequeue_least [OF q(1) d] q(2) by (auto simp: int_entry_def)
  then show ?thesis using d ne by blast
qed

text \<open>
  C9.  Messages enqueued with integer priorities leave the scheduler in the order of their
  priorities as signed integers: every message comes out exactly once, negative priorities
  before the others.
\<close>

theorem int_priority_schedule:
  assumes "length xs < 2 ^ 32"
  shows "\<exists>q ys. enqueue_ints CqsCreate xs = Some (Inr q) \<and> mset ys = mset xs \<and>
    drain CqsDequeue (length xs) q = map snd ys \<and> sorted (map (\<lambda>y. sint (fst y)) ys)"
proof -
  obtain q where q: "enqueue_ints CqsCreate xs = Some (Inr q)" "queue_wf q"
    "mset (queue_entries q) = mset (map int_entry xs)"
    using enqueue_ints_ok [OF queue_wf_create(1), of xs] assms by (auto simp: queue_wf_create(2))
  have "length (queue_entries q) = length xs" using q(3) by (metis length_map size_mset)
  from cqs_queue.drain_ordered [OF q(2) this] obtain es where
    es: "drain CqsDequeue (length xs) q = map (\<lambda>e. snd (snd e)) es" "mset es = mset (queue_entries q)"
      "sorted_wrt entry_le es" by blast
  have "mset es = mset (map int_entry xs)" using es(2) q(3) by simp
  then obtain ys where ys: "es = map int_entry ys" "mset ys = mset xs" using mset_map_exists by blast
  have "sorted (map (\<lambda>y. sint (fst y)) ys)"
    using es(3) unfolding ys(1) sorted_wrt_map
    by (rule sorted_wrt_mono_rel [rotated]) (rule entry_le_int)
  moreover have "drain CqsDequeue (length xs) q = map snd ys"
    using es(1) by (simp add: ys(1) comp_def int_entry_def)
  ultimately show ?thesis using q(1) ys(2) by blast
qed

theorem int_priority_schedule_witness:
  "\<exists>q ys. enqueue_ints CqsCreate [(5, 77), (- 3, 78)] = Some (Inr q) \<and> mset ys = {#(5 :: u32, 77), (- 3, 78)#} \<and>
     drain CqsDequeue 2 q = map snd ys \<and> sorted (map (\<lambda>y. sint (fst y)) ys)"
proof -
  have l: "length [(5 :: u32, 77 :: ptr), (- 3, 78)] = 2" by simp
  then have "length [(5 :: u32, 77 :: ptr), (- 3, 78)] < 2 ^ 32" by simp
  from int_priority_schedule [OF this] show ?thesis unfolding l mset.simps .
qed

text \<open>
  C10.  \<^verbatim>\<open>CqsEnumerateQueue\<close> returns all messages of the queue: the array it allocates from
  the counter is large enough, every slot is filled, and the walk over the buckets ends.
\<close>

theorem enumerate_queue_complete:
  assumes "queue_wf q"
  shows "CqsEnumerateQueue q = Some (queue_msgs q) \<and> length (queue_msgs q) = unat (CqsLength q)"
  using enumerate_queue [OF assms] queue_length [OF assms]
  by (simp add: queue_msgs_def CqsLength_def)

theorem enumerate_queue_complete_witness:
  "CqsEnumerateQueue CqsCreate = Some (queue_msgs CqsCreate) \<and> queue_msgs CqsCreate = []"
  using enumerate_queue_complete [OF queue_wf_create(1)] by (simp add: queue_msgs_def queue_wf_create(2))

text \<open>
  C11.  \<^verbatim>\<open>CqsRemoveSpecific\<close> overwrites the first occurrence of the message in the order of
  enumeration with \<^verbatim>\<open>NULL\<close> and keeps all priorities, except that a message found in the
  buffer of messages without priority stays where it is; it reports a missing message.
\<close>

theorem removeSpecific_effect:
  assumes "queue_wf q"
  shows "\<exists>q' out. CqsRemoveSpecific q x = Some (q', out) \<and> queue_wf q' \<and> queue_keys q' = queue_keys q \<and>
    queue_msgs q' = (if x \<in> set (deq_list (zeroprio q)) \<and> x \<notin> snd ` set (prioq_entries (negprioq q))
       then queue_msgs q else null_first x (queue_msgs q)) \<and> (out = [] \<longleftrightarrow> x \<in> set (queue_msgs q))"
  by (rule removeSpecific_ok [OF assms, of x]) blast

theorem removeSpecific_effect_witness:
  "\<exists>q q' out. queue_msgs q = [77] \<and> CqsRemoveSpecific q 77 = Some (q', out) \<and> queue_msgs q' = [77]"
proof -
  let ?q = "CqsEnqueueFifo CqsCreate 77"
  have parts: "zeroprio ?q = CqsDeqEnqueueFifo CqsDeqInit 77" "negprioq ?q = CqsPrioqInit" "posprioq ?q = CqsPrioqInit"
    by (simp_all add: CqsEnqueueFifo_def CqsCreate_def count_msg_def Let_def)
  have l: "deq_list (zeroprio ?q) = [77]" by (simp add: parts deq_simps)
  have "queue_wf ?q"
    unfolding CqsEnqueueFifo_def
    by (rule count_msg_wf(1) [where k = 0])
       (simp_all add: CqsCreate_def deq_simps prioq_wf_init queue_entries_def)
  moreover have m: "queue_msgs ?q = [77]" by (simp add: queue_msgs_eq l) (simp add: parts)
  moreover have "77 \<notin> snd ` set (prioq_entries (negprioq ?q))" by (simp add: parts)
  ultimately obtain q' out where "CqsRemoveSpecific ?q 77 = Some (q', out)" "queue_msgs q' = [77]"
    using removeSpecific_effect [of ?q 77] l by auto
  with m show ?thesis by blast
qed

end
