(* ===== verification/Pup.thy ===== *)
theory Pup
  imports Prelude
begin

text \<open>
  The pack/unpack interface the C sources of Converse use (\<^verbatim>\<open>util/pup_c.C\<close>,
  \<^verbatim>\<open>util/pup_util.C\<close>): one routine describes an object and is run three times, to measure,
  to write and to read it.  \<open>pup_bytes\<close> is the common bottleneck with the three
  implementations for memory buffers.  A result \<open>None\<close> is an access outside the buffer or
  the abort of the sizer on absurd requests.  The locale \<open>pupable\<close> is the contract of a pup
  routine: it measures, writes and reads one and the same encoding.
\<close>

section \<open>Memory packers\<close>

datatype pup_dir = Sizing | Packing | Unpacking

record pup_er =
  pup_mode :: pup_dir
  pup_deleting :: bool
  pup_buf :: "u8 list"
  pup_pos :: nat

definition pup_isUnpacking :: "pup_er \<Rightarrow> bool" where
  "pup_isUnpacking p \<longleftrightarrow> pup_mode p = Unpacking"

definition pup_isDeleting :: "pup_er \<Rightarrow> bool" where
  "pup_isDeleting p \<longleftrightarrow> pup_deleting p"

definition maxPupBytes :: nat where "maxPupBytes = 1024 * 1024 * 1024"

definition sizer_bytes :: "pup_er \<Rightarrow> u8 list \<Rightarrow> (pup_er \<times> u8 list) option" where
  "sizer_bytes p bs =
     (if length bs > maxPupBytes then None else Some (p\<lparr>pup_pos := pup_pos p + length bs\<rparr>, bs))"

definition toMem_bytes :: "pup_er \<Rightarrow> u8 list \<Rightarrow> (pup_er \<times> u8 list) option" where
  "toMem_bytes p bs =
     (let n = length bs
      in if pup_pos p + n \<le> length (pup_buf p)
         then Some (p\<lparr>pup_buf := take (pup_pos p) (pup_buf p) @ bs @ drop (pup_pos p + n) (pup_buf p),
                      pup_pos := pup_pos p + n\<rparr>, bs)
         else None)"

definition fromMem_bytes :: "pup_er \<Rightarrow> u8 list \<Rightarrow> (pup_er \<times> u8 list) option" where
  "fromMem_bytes p bs =
     (let n = length bs
      in if pup_pos p + n \<le> length (pup_buf p)
         then Some (p\<lparr>pup_pos := pup_pos p + n\<rparr>, take n (drop (pup_pos p) (pup_buf p)))
         else None)"

definition pup_bytes :: "pup_er \<Rightarrow> u8 list \<Rightarrow> (pup_er \<times> u8 list) option" where
  "pup_bytes p bs =
     (case pup_mode p of
        Sizing \<Rightarrow> sizer_bytes p bs
      | Packing \<Rightarrow> toMem_bytes p bs
      | Unpacking \<Rightarrow> fromMem_bytes p bs)"

text \<open>The bytes of an \<^verbatim>\<open>int\<close> in memory, low byte first.\<close>

definition int_bytes :: "u32 \<Rightarrow> u8 list" where
  "int_bytes x = [ucast x, ucast (drop_bit 8 x), ucast (drop_bit 16 x), ucast (drop_bit 24 x)]"

definition bytes_int :: "u8 list \<Rightarrow> u32" where
  "bytes_int bs = ucast (bs ! 0) OR push_bit 8 (ucast (bs ! 1)) OR push_bit 16 (ucast (bs ! 2))
     OR push_bit 24 (ucast (bs ! 3))"

fun bytes_ints :: "nat \<Rightarrow> u8 list \<Rightarrow> u32 list" where
  "bytes_ints 0 bs = []"
| "bytes_ints (Suc n) bs = bytes_int (take 4 bs) # bytes_ints n (drop 4 bs)"

definition pup_int :: "pup_er \<Rightarrow> u32 \<Rightarrow> (pup_er \<times> u32) option" where
  "pup_int p v = map_option (\<lambda>(p', bs). (p', bytes_int bs)) (pup_bytes p (int_bytes v))"

definition pup_ints :: "pup_er \<Rightarrow> u32 list \<Rightarrow> (pup_er \<times> u32 list) option" where
  "pup_ints p vs =
     map_option (\<lambda>(p', bs). (p', bytes_ints (length vs) bs)) (pup_bytes p (concat (map int_bytes vs)))"

lemma length_int_bytes [simp]: "length (int_bytes x) = 4"
  by (simp add: int_bytes_def)

lemma bytes_int_bytes [simp]: "bytes_int (int_bytes x) = x"
proof (rule bit_word_eqI)
  fix n assume "n < LENGTH(32)"
  then consider "n < 8" | "8 \<le> n" "n < 16" | "16 \<le> n" "n < 24" | "24 \<le> n" "n < 32"
    by (auto simp: not_less) linarith
  then show "bit (bytes_int (int_bytes x)) n \<longleftrightarrow> bit x n"
    by cases (auto simp: bytes_int_def int_bytes_def bit_simps)
qed

lemma bytes_ints_concat [simp]: "bytes_ints (length vs) (concat (map int_bytes vs)) = vs"
  by (induction vs) auto

lemma length_concat_int_bytes [simp]: "length (concat (map int_bytes vs)) = 4 * length vs"
  by (induction vs) auto

section \<open>The contract of a pup routine\<close>

definition pup_skip :: "pup_er \<Rightarrow> nat \<Rightarrow> pup_er" where
  "pup_skip p n = p\<lparr>pup_pos := pup_pos p + n\<rparr>"

definition pup_write :: "pup_er \<Rightarrow> u8 list \<Rightarrow> pup_er" where
  "pup_write p bs = p\<lparr>pup_buf := take (pup_pos p) (pup_buf p) @ bs @ drop (pup_pos p + length bs) (pup_buf p),
     pup_pos := pup_pos p + length bs\<rparr>"

definition pup_at :: "pup_er \<Rightarrow> u8 list \<Rightarrow> bool" where
  "pup_at p bs \<longleftrightarrow> (\<exists>pre post. pup_buf p = pre @ bs @ post \<and> length pre = pup_pos p)"

locale pupable =
  fixes pup :: "pup_er \<Rightarrow> 'a \<Rightarrow> (pup_er \<times> 'a) option" and enc :: "'a \<Rightarrow> u8 list"
    and shape :: "'a \<Rightarrow> 'a \<Rightarrow> bool"
  assumes pup_size: "pup_mode p = Sizing \<Longrightarrow> shape v v \<Longrightarrow> length (enc v) \<le> maxPupBytes \<Longrightarrow>
      pup p v = Some (pup_skip p (length (enc v)), v)"
    and pup_pack: "pup_mode p = Packing \<Longrightarrow> shape v v \<Longrightarrow> pup_pos p + length (enc v) \<le> length (pup_buf p) \<Longrightarrow>
      pup p v = Some (pup_write p (enc v), v)"
    and pup_unpack: "pup_mode p = Unpacking \<Longrightarrow> pup_at p (enc v) \<Longrightarrow> shape u v \<Longrightarrow>
      pup p u = Some (pup_skip p (length (enc v)), v)"

lemma pup_skip_simps [simp]:
  "pup_mode (pup_skip p n) = pup_mode p" "pup_deleting (pup_skip p n) = pup_deleting p"
  "pup_buf (pup_skip p n) = pup_buf p" "pup_pos (pup_skip p n) = pup_pos p + n"
  "pup_skip (pup_skip p n) m = pup_skip p (n + m)"
  by (simp_all add: pup_skip_def)

lemma pup_write_simps [simp]:
  "pup_mode (pup_write p bs) = pup_mode p" "pup_deleting (pup_write p bs) = pup_deleting p"
  "pup_pos (pup_write p bs) = pup_pos p + length bs"
  by (simp_all add: pup_write_def)

lemma length_pup_write [simp]:
  "pup_pos p + length bs \<le> length (pup_buf p) \<Longrightarrow> length (pup_buf (pup_write p bs)) = length (pup_buf p)"
  by (simp add: pup_write_def)

lemma pup_write_append:
  "pup_pos p + length bs + length cs \<le> length (pup_buf p) \<Longrightarrow>
   pup_write (pup_write p bs) cs = pup_write p (bs @ cs)"
proof -
  assume a: "pup_pos p + length bs + length cs \<le> length (pup_buf p)"
  then have "min (length (pup_buf p)) (pup_pos p) = pup_pos p" by simp
  then show ?thesis by (simp add: pup_write_def ac_simps)
qed

lemma pup_at_append:
  "pup_at p (bs @ cs) \<longleftrightarrow> pup_at p bs \<and> pup_at (pup_skip p (length bs)) cs"
proof
  assume "pup_at p (bs @ cs)"
  then obtain pre post where b: "pup_buf p = pre @ bs @ cs @ post" "length pre = pup_pos p"
    by (auto simp: pup_at_def)
  then have "pup_at p bs" by (auto simp: pup_at_def)
  moreover have "pup_at (pup_skip p (length bs)) cs"
    unfolding pup_at_def using b by (intro exI [of _ "pre @ bs"] exI [of _ post]) simp
  ultimately show "pup_at p bs \<and> pup_at (pup_skip p (length bs)) cs" ..
next
  assume a: "pup_at p bs \<and> pup_at (pup_skip p (length bs)) cs"
  then obtain pre post pre' post' where b: "pup_buf p = pre @ bs @ post" "length pre = pup_pos p"
    "pup_buf p = pre' @ cs @ post'" "length pre' = pup_pos p + length bs"
    by (auto simp: pup_at_def)
  have "pre' = take (length pre') (pup_buf p)" using b(3) by simp
  then have "pre' = pre @ bs" using b by simp
  then show "pup_at p (bs @ cs)" using b by (auto simp: pup_at_def)
qed

lemma pup_at_write:
  assumes "pup_pos p + length bs \<le> length (pup_buf p)"
  shows "pup_at ((pup_write p bs)\<lparr>pup_pos := pup_pos p, pup_mode := Unpacking\<rparr>) bs"
  unfolding pup_at_def
  using assms
  by (intro exI [of _ "take (pup_pos p) (pup_buf p)"] exI [of _ "drop (pup_pos p + length bs) (pup_buf p)"])
     (simp add: pup_write_def)

text \<open>Measuring and writing as one operation: the packer moves on by an encoding.\<close>

definition pup_adv :: "pup_er \<Rightarrow> u8 list \<Rightarrow> pup_er" where
  "pup_adv p bs = (if pup_mode p = Sizing then pup_skip p (length bs) else pup_write p bs)"

definition pup_room :: "pup_er \<Rightarrow> u8 list \<Rightarrow> bool" where
  "pup_room p bs \<longleftrightarrow> pup_mode p = Sizing \<or>
     pup_mode p = Packing \<and> pup_pos p + length bs \<le> length (pup_buf p)"

lemma pup_adv_simps [simp]:
  "pup_mode (pup_adv p bs) = pup_mode p" "pup_deleting (pup_adv p bs) = pup_deleting p"
  by (simp_all add: pup_adv_def)

lemma pup_room_append: "pup_room p (bs @ cs) \<longleftrightarrow> pup_room p bs \<and> pup_room (pup_adv p bs) cs"
  by (auto simp: pup_room_def pup_adv_def)

lemma pup_adv_append: "pup_room p (bs @ cs) \<Longrightarrow> pup_adv (pup_adv p bs) cs = pup_adv p (bs @ cs)"
  by (auto simp: pup_room_def pup_adv_def pup_write_append)

lemma pup_adv_nil [simp]: "pup_adv p [] = p"
  by (simp add: pup_adv_def pup_skip_def pup_write_def)

context pupable
begin

lemma pup_out:
  "pup_room p (enc v) \<Longrightarrow> shape v v \<Longrightarrow> length (enc v) \<le> maxPupBytes \<Longrightarrow> pup p v = Some (pup_adv p (enc v), v)"
  by (auto simp: pup_room_def pup_adv_def pup_size pup_pack)

end

interpretation bytes: pupable pup_bytes "\<lambda>bs. bs" "\<lambda>u v. length u = length v"
  by unfold_locales
     (auto simp: pup_bytes_def sizer_bytes_def toMem_bytes_def fromMem_bytes_def pup_skip_def pup_write_def
        pup_at_def Let_def)

interpretation int: pupable pup_int int_bytes "\<lambda>_ _. True"
proof
  fix p :: pup_er and v :: u32
  assume "pup_mode p = Sizing" "length (int_bytes v) \<le> maxPupBytes"
  then show "pup_int p v = Some (pup_skip p (length (int_bytes v)), v)"
    using bytes.pup_size [of p "int_bytes v"] by (simp add: pup_int_def)
next
  fix p :: pup_er and v :: u32
  assume "pup_mode p = Packing" "pup_pos p + length (int_bytes v) \<le> length (pup_buf p)"
  then show "pup_int p v = Some (pup_write p (int_bytes v), v)"
    using bytes.pup_pack [of p "int_bytes v"] by (simp add: pup_int_def)
next
  fix p :: pup_er and u v :: u32
  assume "pup_mode p = Unpacking" "pup_at p (int_bytes v)"
  then show "pup_int p u = Some (pup_skip p (length (int_bytes v)), v)"
    using bytes.pup_unpack [of p "int_bytes v" "int_bytes u"] by (simp add: pup_int_def)
qed

definition ints_bytes :: "u32 list \<Rightarrow> u8 list" where
  "ints_bytes vs = concat (map int_bytes vs)"

lemma length_ints_bytes [simp]: "length (ints_bytes vs) = 4 * length vs"
  by (simp add: ints_bytes_def)

interpretation ints: pupable pup_ints ints_bytes "\<lambda>u v. length u = length v"
proof
  fix p :: pup_er and v :: "u32 list"
  assume "pup_mode p = Sizing" "length (ints_bytes v) \<le> maxPupBytes"
  then show "pup_ints p v = Some (pup_skip p (length (ints_bytes v)), v)"
    using bytes.pup_size [of p "ints_bytes v"] by (simp add: pup_ints_def ints_bytes_def)
next
  fix p :: pup_er and v :: "u32 list"
  assume "pup_mode p = Packing" "pup_pos p + length (ints_bytes v) \<le> length (pup_buf p)"
  then show "pup_ints p v = Some (pup_write p (ints_bytes v), v)"
    using bytes.pup_pack [of p "ints_bytes v"] by (simp add: pup_ints_def ints_bytes_def)
next
  fix p :: pup_er and u v :: "u32 list"
  assume a: "pup_mode p = Unpacking" "pup_at p (ints_bytes v)" and l: "length u = length v"
  have "length (ints_bytes u) = length (ints_bytes v)" using l by simp
  from bytes.pup_unpack [OF a this] show "pup_ints p u = Some (pup_skip p (length (ints_bytes v)), v)"
    unfolding pup_ints_def ints_bytes_def l by simp
qed

end
