(* ===== verification/Msgmgr.thy ===== *)
theory Msgmgr
  imports Pup
begin

text \<open>
  The tagged message tables of \<^verbatim>\<open>conv-core/msgmgr.c\<close>.  A table is a singly linked list of
  entries with a pointer to its last link (\<^verbatim>\<open>lasth\<close>): the address of \<^verbatim>\<open>first\<close> or of the
  \<^verbatim>\<open>next\<close> field of an entry.  \<open>ct_mem\<close> is the memory of the entries.  \<open>cmm_rep\<close> relates a
  table to the list of its tagged messages; the theorems show that every operation acts on
  that list, that the receive takes the oldest matching message and that no loop follows a
  dangling pointer.
\<close>

section \<open>Tables\<close>

datatype cmm_link = FirstLink | NextLink ptr

record cmm_entry =
  ce_next :: ptr
  ce_msg :: ptr
  ce_ntags :: nat
  ce_tags :: "u32 list"

record cmm_table =
  ct_first :: ptr
  ct_lasth :: cmm_link
  ct_mem :: "ptr \<Rightarrow> cmm_entry option"
  ct_fresh :: ptr

definition CmmWildCard :: u32 where "CmmWildCard = - 1"

definition CmmNew :: cmm_table where
  "CmmNew = \<lparr>ct_first = NULL, ct_lasth = FirstLink, ct_mem = Map.empty, ct_fresh = 1\<rparr>"

text \<open>A table pointer may be \<^verbatim>\<open>NULL\<close>; freeing returns nothing.\<close>

definition CmmFree :: "cmm_table option \<Rightarrow> unit result" where
  "CmmFree t =
     (case t of
        None \<Rightarrow> Inr ()
      | Some t \<Rightarrow>
          if ct_first t \<noteq> NULL then Inl (Abort ''Cannot free a non-empty message table!'') else Inr ())"

partial_function (option) freeAll_loop :: "cmm_table \<Rightarrow> ptr \<Rightarrow> cmm_table option" where
  "freeAll_loop t cur =
     (if cur = NULL then Some t
      else (case ct_mem t cur of
              None \<Rightarrow> None
            | Some e \<Rightarrow> freeAll_loop (t\<lparr>ct_mem := (ct_mem t)(cur := None)\<rparr>) (ce_next e)))"

definition CmmFreeAll :: "cmm_table option \<Rightarrow> cmm_table option option" where
  "CmmFreeAll t =
     (case t of None \<Rightarrow> Some None | Some t \<Rightarrow> map_option Some (freeAll_loop t (ct_first t)))"

definition load_link :: "cmm_table \<Rightarrow> cmm_link \<Rightarrow> ptr" where
  "load_link t l = (case l of FirstLink \<Rightarrow> ct_first t | NextLink p \<Rightarrow> ce_next (the (ct_mem t p)))"

definition store_link :: "cmm_table \<Rightarrow> cmm_link \<Rightarrow> ptr \<Rightarrow> cmm_table" where
  "store_link t l q =
     (case l of
        FirstLink \<Rightarrow> t\<lparr>ct_first := q\<rparr>
      | NextLink p \<Rightarrow> t\<lparr>ct_mem := (ct_mem t)(p := map_option (\<lambda>e. e\<lparr>ce_next := q\<rparr>) (ct_mem t p))\<rparr>)"

definition CmmPut :: "cmm_table \<Rightarrow> nat \<Rightarrow> u32 list \<Rightarrow> ptr \<Rightarrow> cmm_table" where
  "CmmPut t ntags tags msg =
     (let e = ct_fresh t;
          t1 = t\<lparr>ct_mem := (ct_mem t)(e \<mapsto> \<lparr>ce_next = NULL, ce_msg = msg, ce_ntags = ntags,
                                       ce_tags = take ntags tags\<rparr>), ct_fresh := e + 1\<rparr>;
          t2 = store_link t1 (ct_lasth t1) e
      in t2\<lparr>ct_lasth := NextLink e\<rparr>)"

text \<open>
  The comparison loop reads the two arrays through pointers; reading past the end of an
  array gives \<open>None\<close>.
\<close>

fun tags_match_loop :: "nat \<Rightarrow> u32 list \<Rightarrow> u32 list \<Rightarrow> bool option" where
  "tags_match_loop 0 tags1 tags2 = Some True"
| "tags_match_loop (Suc ntags) (tag1 # tags1) (tag2 # tags2) =
     (if tag1 = tag2 then tags_match_loop ntags tags1 tags2
      else if tag1 = CmmWildCard then tags_match_loop ntags tags1 tags2
      else if tag2 = CmmWildCard then tags_match_loop ntags tags1 tags2
      else Some False)"
| "tags_match_loop (Suc ntags) _ _ = None"

definition CmmTagsMatch :: "nat \<Rightarrow> u32 list \<Rightarrow> nat \<Rightarrow> u32 list \<Rightarrow> bool option" where
  "CmmTagsMatch ntags1 tags1 ntags2 tags2 =
     (if ntags1 \<noteq> ntags2 then Some False else tags_match_loop ntags1 tags1 tags2)"

text \<open>\<open>rtags\<close> is the array the tags of the message are copied to, if the caller gives one.\<close>

definition copy_tags :: "nat \<Rightarrow> u32 list option \<Rightarrow> u32 list \<Rightarrow> u32 list option" where
  "copy_tags ntags rtags tags = map_option (\<lambda>r. take ntags tags @ drop ntags r) rtags"

partial_function (option) CmmFind_loop ::
    "cmm_table \<Rightarrow> nat \<Rightarrow> u32 list \<Rightarrow> u32 list option \<Rightarrow> bool \<Rightarrow> cmm_link \<Rightarrow>
     (ptr \<times> u32 list option \<times> cmm_table) option" where
  "CmmFind_loop t ntags tags rtags del enth =
     (let ent = load_link t enth
      in if ent = NULL then Some (NULL, rtags, t)
         else case ct_mem t ent of
           None \<Rightarrow> None
         | Some e \<Rightarrow>
             (case CmmTagsMatch ntags tags (ce_ntags e) (ce_tags e) of
                None \<Rightarrow> None
              | Some match \<Rightarrow>
                  if match then
                  (let t1 = store_link t enth (ce_next e);
                       t2 = (if ce_next e = NULL then t1\<lparr>ct_lasth := enth\<rparr> else t1);
                       t3 = t2\<lparr>ct_mem := (ct_mem t2)(ent := None)\<rparr>
                   in Some (ce_msg e, copy_tags ntags rtags (ce_tags e), if del then t3 else t))
                  else CmmFind_loop t ntags tags rtags del (NextLink ent)))"

definition CmmFind :: "cmm_table option \<Rightarrow> nat \<Rightarrow> u32 list \<Rightarrow> u32 list option \<Rightarrow> bool \<Rightarrow>
    (ptr \<times> u32 list option \<times> cmm_table option) option" where
  "CmmFind t ntags tags rtags del =
     (case t of
        None \<Rightarrow> Some (NULL, rtags, None)
      | Some t \<Rightarrow> map_option (\<lambda>(m, r, t'). (m, r, Some t')) (CmmFind_loop t ntags tags rtags del FirstLink))"

partial_function (option) CmmGetLastTag_loop :: "cmm_table \<Rightarrow> nat \<Rightarrow> u32 list \<Rightarrow> ptr \<Rightarrow> u32 option" where
  "CmmGetLastTag_loop t ntags tags ent =
     (if ent = NULL then Some (- 1)
      else case ct_mem t ent of
        None \<Rightarrow> None
      | Some e \<Rightarrow>
          (case CmmTagsMatch ntags tags ntags (ce_tags e) of
             None \<Rightarrow> None
           | Some match \<Rightarrow>
               if match then (if ce_ntags e = 0 then None else Some (ce_tags e ! (ce_ntags e - 1)))
               else CmmGetLastTag_loop t ntags tags (ce_next e)))"

definition CmmGetLastTag :: "cmm_table \<Rightarrow> nat \<Rightarrow> u32 list \<Rightarrow> u32 option" where
  "CmmGetLastTag t ntags tags = CmmGetLastTag_loop t ntags tags (ct_first t)"

partial_function (option) CmmEntries_loop :: "cmm_table \<Rightarrow> ptr \<Rightarrow> nat \<Rightarrow> nat option" where
  "CmmEntries_loop t e n =
     (if e = NULL then Some n
      else case ct_mem t e of None \<Rightarrow> None | Some x \<Rightarrow> CmmEntries_loop t (ce_next x) (n + 1))"

definition CmmEntries :: "cmm_table \<Rightarrow> nat option" where
  "CmmEntries t = CmmEntries_loop t (ct_first t) 0"

text \<open>
  \<^verbatim>\<open>CmmPup\<close> with the message routine \<^verbatim>\<open>msgpup\<close> as a parameter.  While a table is not being
  unpacked every entry is pupped in place and freed if the packer deletes.  The number of entries and the numbers of
  tags are read back as signed integers: with a negative number of entries the loop does not run, and a
  negative number of tags is no size of an array.
\<close>

type_synonym msgpup = "pup_er \<Rightarrow> ptr \<Rightarrow> (pup_er \<times> ptr) option"

definition pup_entry :: "msgpup \<Rightarrow> pup_er \<Rightarrow> cmm_entry \<Rightarrow> (pup_er \<times> cmm_entry) option" where
  "pup_entry msgpup p e =
     (case pup_int p (of_nat (ce_ntags e)) of
        None \<Rightarrow> None
      | Some (p1, n) \<Rightarrow>
          if sint n < 0 then None
          else (case pup_ints p1 (take (nat (sint n)) (ce_tags e)) of
             None \<Rightarrow> None
           | Some (p2, tags) \<Rightarrow>
               (case msgpup p2 (ce_msg e) of
                  None \<Rightarrow> None
                | Some (p3, m) \<Rightarrow> Some (p3, e\<lparr>ce_ntags := nat (sint n), ce_tags := tags, ce_msg := m\<rparr>))))"

partial_function (option) CmmPup_out_loop ::
    "msgpup \<Rightarrow> pup_er \<Rightarrow> cmm_table \<Rightarrow> ptr \<Rightarrow> (pup_er \<times> cmm_table) option" where
  "CmmPup_out_loop msgpup p t e =
     (if e = NULL then Some (p, t)
      else case ct_mem t e of
        None \<Rightarrow> None
      | Some x \<Rightarrow>
          (case pup_entry msgpup p x of
             None \<Rightarrow> None
           | Some px \<Rightarrow>
               (let t' = t\<lparr>ct_mem := (ct_mem t)(e := if pup_isDeleting (fst px) then None else Some (snd px))\<rparr>
                in CmmPup_out_loop msgpup (fst px) t' (ce_next (snd px)))))"

fun CmmPup_in_loop :: "msgpup \<Rightarrow> pup_er \<Rightarrow> cmm_table \<Rightarrow> nat \<Rightarrow> (pup_er \<times> cmm_table) option" where
  "CmmPup_in_loop msgpup p t 0 = Some (p, t)"
| "CmmPup_in_loop msgpup p t (Suc n) =
     (case pup_int p 0 of
        None \<Rightarrow> None
      | Some (p1, ntags) \<Rightarrow>
          if sint ntags < 0 then None
          else (case pup_ints p1 (replicate (nat (sint ntags)) 0) of
             None \<Rightarrow> None
           | Some (p2, tags) \<Rightarrow>
               (case msgpup p2 NULL of
                  None \<Rightarrow> None
                | Some (p3, msg) \<Rightarrow> CmmPup_in_loop msgpup p3 (CmmPut t (nat (sint ntags)) tags msg) n)))"

definition CmmPup :: "msgpup \<Rightarrow> pup_er \<Rightarrow> cmm_table \<Rightarrow> (pup_er \<times> cmm_table option) option" where
  "CmmPup msgpup p t =
     (if \<not> pup_isUnpacking p then
        (case CmmEntries t of
           None \<Rightarrow> None
         | Some nentries \<Rightarrow>
             (case pup_int p (of_nat nentries) of
                None \<Rightarrow> None
              | Some (p1, _) \<Rightarrow>
                  (case CmmPup_out_loop msgpup p1 t (ct_first t) of
                     None \<Rightarrow> None
                   | Some (p2, t') \<Rightarrow>
                       if pup_isDeleting p2 then
                         (case CmmFree (Some (t'\<lparr>ct_first := NULL\<rparr>)) of Inl _ \<Rightarrow> None | Inr _ \<Rightarrow> Some (p2, None))
                       else Some (p2, Some t'))))
      else
        (case pup_int p 0 of
           None \<Rightarrow> None
         | Some (p1, nentries) \<Rightarrow>
             map_option (\<lambda>(p2, t'). (p2, Some t')) (CmmPup_in_loop msgpup p1 CmmNew (nat (sint nentries)))))"

section \<open>The list of a table\<close>

fun cmm_path :: "(ptr \<Rightarrow> cmm_entry option) \<Rightarrow> ptr \<Rightarrow> ptr list \<Rightarrow> bool" where
  "cmm_path m p [] \<longleftrightarrow> p = NULL"
| "cmm_path m p (b # bs) \<longleftrightarrow> p = b \<and> b \<noteq> NULL \<and> (\<exists>e. m b = Some e \<and> cmm_path m (ce_next e) bs)"

definition cmm_last :: "cmm_link \<Rightarrow> ptr list \<Rightarrow> cmm_link" where
  "cmm_last l ps = (if ps = [] then l else NextLink (last ps))"

type_synonym tagged = "u32 list \<times> ptr"

definition cmm_val :: "(ptr \<Rightarrow> cmm_entry option) \<Rightarrow> ptr \<Rightarrow> tagged" where
  "cmm_val m p = (ce_tags (the (m p)), ce_msg (the (m p)))"

definition cmm_inv :: "cmm_table \<Rightarrow> ptr list \<Rightarrow> bool" where
  "cmm_inv t ps \<longleftrightarrow>
     cmm_path (ct_mem t) (ct_first t) ps \<and> distinct ps \<and> dom (ct_mem t) = set ps \<and>
     ct_lasth t = cmm_last FirstLink ps \<and> 0 < ct_fresh t \<and> (\<forall>p \<in> set ps. p < ct_fresh t) \<and>
     (\<forall>p \<in> set ps. ce_ntags (the (ct_mem t p)) = length (ce_tags (the (ct_mem t p))))"

definition cmm_rep :: "cmm_table \<Rightarrow> tagged list \<Rightarrow> bool" where
  "cmm_rep t es \<longleftrightarrow> (\<exists>ps. cmm_inv t ps \<and> es = map (cmm_val (ct_mem t)) ps)"

lemma cmm_rep_new: "cmm_rep CmmNew []"
  by (simp add: cmm_rep_def cmm_inv_def CmmNew_def cmm_last_def)

lemma cmm_path_cong:
  "(\<And>b. b \<in> set bs \<Longrightarrow> map_option ce_next (m b) = map_option ce_next (m' b)) \<Longrightarrow>
   cmm_path m p bs = cmm_path m' p bs"
proof (induction bs arbitrary: p)
  case (Cons b bs)
  from Cons.prems [of b] have "map_option ce_next (m b) = map_option ce_next (m' b)" by simp
  moreover have "cmm_path m q bs = cmm_path m' q bs" for q using Cons by simp
  ultimately show ?case by (auto simp: map_option_case split: option.splits)
qed simp

lemma cmm_path_nonnull: "cmm_path m p bs \<Longrightarrow> NULL \<notin> set bs"
  by (induction bs arbitrary: p) auto

text \<open>Appending and removing a node.\<close>

lemma cmm_path_snoc:
  "cmm_path m p (bs @ [b]) \<Longrightarrow> distinct (bs @ [b]) \<Longrightarrow> c \<notin> set (bs @ [b]) \<Longrightarrow> c \<noteq> NULL \<Longrightarrow>
   m c = Some e \<Longrightarrow> ce_next e = NULL \<Longrightarrow>
   cmm_path (m(b := map_option (\<lambda>e. e\<lparr>ce_next := c\<rparr>) (m b))) p (bs @ [b, c])"
  by (induction bs arbitrary: p) auto

lemma cmm_path_unlink:
  "cmm_path m p (xs @ [a, b] @ ys) \<Longrightarrow> distinct (xs @ [a, b] @ ys) \<Longrightarrow>
   cmm_path (m(a := map_option (\<lambda>e. e\<lparr>ce_next := ce_next (the (m b))\<rparr>) (m a), b := None)) p (xs @ [a] @ ys)"
proof (induction xs arbitrary: p)
  case Nil
  then obtain ea eb where e: "m a = Some ea" "m b = Some eb" "cmm_path m (ce_next eb) ys" by auto
  define m' where "m' = m(a := map_option (\<lambda>e. e\<lparr>ce_next := ce_next (the (m b))\<rparr>) (m a), b := None)"
  have "cmm_path m' q ys = cmm_path m q ys" for q
    using Nil.prems(2) by (intro cmm_path_cong) (auto simp: m'_def)
  moreover have "m' a = Some (ea\<lparr>ce_next := ce_next eb\<rparr>)" using e Nil.prems(2) by (simp add: m'_def)
  ultimately have "cmm_path m' p ([] @ [a] @ ys)" using Nil.prems(1) e(3) by simp
  then show ?case unfolding m'_def .
qed auto

section \<open>Put\<close>

lemma cmm_rep_put:
  assumes "cmm_rep t es" "ntags \<le> length tags"
  shows "cmm_rep (CmmPut t ntags tags msg) (es @ [(take ntags tags, msg)])"
proof -
  from assms obtain ps where inv: "cmm_inv t ps" and es: "es = map (cmm_val (ct_mem t)) ps"
    by (auto simp: cmm_rep_def)
  let ?e = "\<lparr>ce_next = NULL, ce_msg = msg, ce_ntags = ntags, ce_tags = take ntags tags\<rparr>"
  let ?c = "ct_fresh t" and ?t' = "CmmPut t ntags tags msg"
  have I: "cmm_path (ct_mem t) (ct_first t) ps" "distinct ps" "dom (ct_mem t) = set ps"
    "ct_lasth t = cmm_last FirstLink ps" "0 < ?c" "\<forall>p \<in> set ps. p < ?c" using inv by (auto simp: cmm_inv_def)
  then have new: "?c \<notin> set ps" by auto
  have "cmm_path (ct_mem ?t') (ct_first ?t') (ps @ [?c]) \<and> dom (ct_mem ?t') = set (ps @ [?c]) \<and>
    (\<forall>p \<in> set ps. cmm_val (ct_mem ?t') p = cmm_val (ct_mem t) p \<and> ce_ntags (the (ct_mem ?t' p)) = ce_ntags (the (ct_mem t p))) \<and>
    ce_ntags (the (ct_mem ?t' ?c)) = ntags \<and> cmm_val (ct_mem ?t' ) ?c = (take ntags tags, msg)"
  proof (cases ps rule: rev_cases)
    case Nil
    then show ?thesis using I by (simp add: CmmPut_def Let_def store_link_def cmm_last_def cmm_val_def)
  next
    case (snoc bs b)
    let ?m = "(ct_mem t)(?c \<mapsto> ?e)"
    define m' where "m' = ?m(b := map_option (\<lambda>e. e\<lparr>ce_next := ?c\<rparr>) (?m b))"
    have t': "ct_mem ?t' = m'" "ct_first ?t' = ct_first t"
      using I(4) snoc by (simp_all add: CmmPut_def Let_def store_link_def cmm_last_def m'_def)
    have bc: "b \<noteq> ?c" "b \<in> dom (ct_mem t)" using new snoc I(3) by auto
    have "cmm_path (ct_mem t) (ct_first t) ps = cmm_path ?m (ct_first t) ps"
      using new by (intro cmm_path_cong) auto
    then have "cmm_path ?m (ct_first t) (bs @ [b])" using I(1) snoc by simp
    then have path: "cmm_path m' (ct_first t) (bs @ [b, ?c])"
      unfolding m'_def using I(2,5) new snoc by (intro cmm_path_snoc) auto
    have dom: "dom m' = set (ps @ [?c])" using bc I(3) by (auto simp: m'_def)
    have val: "cmm_val m' p = cmm_val (ct_mem t) p \<and> ce_ntags (the (m' p)) = ce_ntags (the (ct_mem t p))"
      if "p \<in> set ps" for p
    proof -
      have "p \<noteq> ?c" "p \<in> dom (ct_mem t)" using that new I(3) by auto
      then show ?thesis by (auto simp: cmm_val_def m'_def)
    qed
    have "m' ?c = Some ?e" using bc by (simp add: m'_def)
    then show ?thesis unfolding t' using path dom val snoc by (simp add: cmm_val_def)
  qed
  moreover have "ct_lasth ?t' = cmm_last FirstLink (ps @ [?c])" "ct_fresh ?t' = ?c + 1"
    by (simp_all add: CmmPut_def Let_def store_link_def cmm_last_def split: cmm_link.split)
  ultimately have "cmm_inv ?t' (ps @ [?c])"
    using inv new assms(2) by (auto simp: cmm_inv_def cmm_val_def)
  moreover have "map (cmm_val (ct_mem ?t')) (ps @ [?c]) = es @ [(take ntags tags, msg)]"
    using \<open>_ \<and> _\<close> es by simp
  ultimately show ?thesis unfolding cmm_rep_def by metis
qed

section \<open>Find\<close>

definition tag_match :: "u32 \<Rightarrow> u32 \<Rightarrow> bool" where
  "tag_match a b \<longleftrightarrow> a = b \<or> a = CmmWildCard \<or> b = CmmWildCard"

lemma tags_match_loop_eq:
  "n \<le> length as \<Longrightarrow> n \<le> length bs \<Longrightarrow>
   tags_match_loop n as bs = Some (list_all2 tag_match (take n as) (take n bs))"
  by (induction n as bs rule: tags_match_loop.induct) (auto simp: tag_match_def)

lemma tagsMatch_eq:
  assumes "n \<le> length as"
  shows "CmmTagsMatch n as (length bs) bs = Some (list_all2 tag_match (take n as) bs)"
proof (cases "n = length bs")
  case True
  then show ?thesis using assms by (simp add: CmmTagsMatch_def tags_match_loop_eq)
next
  case False
  then have "\<not> list_all2 tag_match (take n as) bs" using assms by (auto dest: list_all2_lengthD)
  with False show ?thesis by (simp add: CmmTagsMatch_def)
qed

text \<open>The loop stands at the link after \<open>xs\<close>; none of the entries of \<open>xs\<close> matched.\<close>

definition del_node :: "cmm_table \<Rightarrow> cmm_link \<Rightarrow> ptr \<Rightarrow> cmm_table" where
  "del_node t enth ent =
     (let e = the (ct_mem t ent); t1 = store_link t enth (ce_next e);
          t2 = (if ce_next e = NULL then t1\<lparr>ct_lasth := enth\<rparr> else t1)
      in t2\<lparr>ct_mem := (ct_mem t2)(ent := None)\<rparr>)"

lemma cmm_path_load:
  "cmm_path (ct_mem t) (ct_first t) (xs @ ys) \<Longrightarrow> cmm_path (ct_mem t) (load_link t (cmm_last FirstLink xs)) ys"
proof (induction ys rule: rev_induct)
  case Nil
  have "cmm_path m p xs \<Longrightarrow> xs \<noteq> [] \<Longrightarrow> ce_next (the (m (last xs))) = NULL" for m p
    by (induction xs arbitrary: p) auto
  with Nil show ?case by (auto simp: load_link_def cmm_last_def)
next
  case (snoc y ys)
  have "cmm_path m p (xs @ zs) \<Longrightarrow> xs \<noteq> [] \<Longrightarrow> cmm_path m (ce_next (the (m (last xs)))) zs" for m p zs
    by (induction xs arbitrary: p) (auto split: if_splits)
  from this [of "ct_mem t" "ct_first t" "ys @ [y]"] snoc.prems show ?case
    by (cases "xs = []") (auto simp: load_link_def cmm_last_def)
qed

lemma cmm_inv_wf:
  assumes "cmm_inv t ps" "p \<in> set ps"
  shows "p \<noteq> NULL" "\<exists>e. ct_mem t p = Some e \<and> ce_ntags e = length (ce_tags e)"
proof -
  show "p \<noteq> NULL" using assms cmm_path_nonnull by (auto simp: cmm_inv_def)
  have "p \<in> dom (ct_mem t)" using assms by (auto simp: cmm_inv_def)
  then obtain e where "ct_mem t p = Some e" by blast
  then show "\<exists>e. ct_mem t p = Some e \<and> ce_ntags e = length (ce_tags e)"
    using assms by (auto simp: cmm_inv_def)
qed

definition entry_match :: "nat \<Rightarrow> u32 list \<Rightarrow> tagged \<Rightarrow> bool" where
  "entry_match ntags tags e \<longleftrightarrow> list_all2 tag_match (take ntags tags) (fst e)"

lemma CmmFind_step:
  assumes inv: "cmm_inv t (xs @ p # ys)" and n: "ntags \<le> length tags"
  defines "enth \<equiv> cmm_last FirstLink xs"
  shows "CmmFind_loop t ntags tags rtags del enth =
    (if entry_match ntags tags (cmm_val (ct_mem t) p)
     then Some (ce_msg (the (ct_mem t p)), copy_tags ntags rtags (ce_tags (the (ct_mem t p))),
            if del then del_node t enth p else t)
     else CmmFind_loop t ntags tags rtags del (cmm_last FirstLink (xs @ [p])))"
proof -
  have "cmm_path (ct_mem t) (load_link t enth) (p # ys)"
    unfolding enth_def using inv by (intro cmm_path_load) (simp add: cmm_inv_def)
  then have l: "load_link t enth = p" by simp
  obtain e where e: "ct_mem t p = Some e" "ce_ntags e = length (ce_tags e)" "p \<noteq> NULL"
    using cmm_inv_wf [OF inv, of p] by auto
  have "CmmTagsMatch ntags tags (ce_ntags e) (ce_tags e) = Some (entry_match ntags tags (cmm_val (ct_mem t) p))"
    using tagsMatch_eq [OF n] e by (simp add: entry_match_def cmm_val_def)
  then show ?thesis using e l
    by (subst CmmFind_loop.simps) (simp add: Let_def del_node_def cmm_last_def)
qed

lemma CmmFind_loop_eq:
  assumes "cmm_inv t (xs @ ys)" "ntags \<le> length tags"
  shows "CmmFind_loop t ntags tags rtags del (cmm_last FirstLink xs) = Some (NULL, rtags, t) \<and>
      (\<forall>p \<in> set ys. \<not> entry_match ntags tags (cmm_val (ct_mem t) p))
    \<or> (\<exists>us p vs. ys = us @ p # vs \<and> (\<forall>q \<in> set us. \<not> entry_match ntags tags (cmm_val (ct_mem t) q)) \<and>
        entry_match ntags tags (cmm_val (ct_mem t) p) \<and>
        CmmFind_loop t ntags tags rtags del (cmm_last FirstLink xs) =
          Some (ce_msg (the (ct_mem t p)), copy_tags ntags rtags (ce_tags (the (ct_mem t p))),
            if del then del_node t (cmm_last FirstLink (xs @ us)) p else t))"
  using assms
proof (induction ys arbitrary: xs)
  case Nil
  then have "load_link t (cmm_last FirstLink xs) = NULL"
    using cmm_path_load [of t xs "[]"] by (simp add: cmm_inv_def)
  then show ?case by (simp add: CmmFind_loop.simps)
next
  case (Cons p ys)
  note step = CmmFind_step [OF Cons.prems, of rtags del]
  show ?case
  proof (cases "entry_match ntags tags (cmm_val (ct_mem t) p)")
    case True
    then show ?thesis using step by (intro disjI2 exI [of _ "[]"]) auto
  next
    case False
    have "cmm_inv t ((xs @ [p]) @ ys)" using Cons.prems(1) by simp
    from Cons.IH [OF this Cons.prems(2)] show ?thesis
    proof (elim disjE exE conjE)
      fix us q vs
      assume a: "ys = us @ q # vs" "\<forall>r \<in> set us. \<not> entry_match ntags tags (cmm_val (ct_mem t) r)"
        "entry_match ntags tags (cmm_val (ct_mem t) q)"
        "CmmFind_loop t ntags tags rtags del (cmm_last FirstLink (xs @ [p])) =
          Some (ce_msg (the (ct_mem t q)), copy_tags ntags rtags (ce_tags (the (ct_mem t q))),
            if del then del_node t (cmm_last FirstLink ((xs @ [p]) @ us)) q else t)"
      then show ?thesis using step False by (intro disjI2 exI [of _ "p # us"] exI [of _ q] exI [of _ vs]) simp
    qed (use step False in auto)
  qed
qed

lemma del_node_inv:
  assumes inv: "cmm_inv t (us @ p # vs)"
  defines "t' \<equiv> del_node t (cmm_last FirstLink us) p"
  shows "cmm_inv t' (us @ vs)" "\<And>q. q \<in> set (us @ vs) \<Longrightarrow> cmm_val (ct_mem t') q = cmm_val (ct_mem t) q"
proof -
  let ?m = "ct_mem t" and ?n = "ce_next (the (ct_mem t p))"
  have I: "cmm_path ?m (ct_first t) (us @ p # vs)" "distinct (us @ p # vs)" "dom ?m = set (us @ p # vs)"
    "ct_lasth t = cmm_last FirstLink (us @ p # vs)" "0 < ct_fresh t" "\<forall>q \<in> set (us @ p # vs). q < ct_fresh t"
    using inv by (auto simp: cmm_inv_def)
  have vs: "cmm_path ?m ?n vs"
    using cmm_path_load [of t "us @ [p]" vs] I(1) by (simp add: load_link_def cmm_last_def)
  have nz: "?n = NULL \<longleftrightarrow> vs = []" using vs by (cases vs) auto
  have fresh: "ct_fresh t' = ct_fresh t"
    by (simp add: t'_def del_node_def Let_def store_link_def split: cmm_link.split)
  have last: "ct_lasth t' = cmm_last FirstLink (us @ vs)"
    using I(4) nz by (auto simp: t'_def del_node_def Let_def store_link_def cmm_last_def split: cmm_link.split)
  have "cmm_path (ct_mem t') (ct_first t') (us @ vs) \<and> dom (ct_mem t') = set (us @ vs) \<and>
      (\<forall>q \<in> set (us @ vs). cmm_val (ct_mem t') q = cmm_val ?m q \<and> ce_ntags (the (ct_mem t' q)) = ce_ntags (the (?m q)))"
  proof (cases us rule: rev_cases)
    case Nil
    have t': "ct_mem t' = ?m(p := None)" "ct_first t' = ?n"
      using Nil by (simp_all add: t'_def del_node_def Let_def store_link_def cmm_last_def)
    have "cmm_path (?m(p := None)) ?n vs = cmm_path ?m ?n vs"
      using I(2) by (intro cmm_path_cong) auto
    then show ?thesis unfolding t' using vs I(2,3) Nil by (auto simp: cmm_val_def)
  next
    case (snoc ws a)
    have a: "a \<noteq> p" "a \<in> dom ?m" using I(2,3) snoc by auto
    define m' where "m' = ?m(a := map_option (\<lambda>e. e\<lparr>ce_next := ?n\<rparr>) (?m a), p := None)"
    have t': "ct_mem t' = m'" "ct_first t' = ct_first t"
      using snoc by (simp_all add: t'_def del_node_def Let_def store_link_def cmm_last_def m'_def)
    have "cmm_path m' (ct_first t) (ws @ [a] @ vs)"
      unfolding m'_def using I(1,2) snoc by (intro cmm_path_unlink) simp_all
    moreover have "dom m' = dom ?m - {p}" using a by (auto simp: m'_def)
    moreover have "cmm_val m' q = cmm_val ?m q \<and> ce_ntags (the (m' q)) = ce_ntags (the (?m q))"
      if "q \<in> dom ?m - {p}" for q using that by (auto simp: m'_def cmm_val_def)
    moreover have "dom ?m - {p} = set (us @ vs)" unfolding I(3) using I(2) by auto
    ultimately show ?thesis unfolding t' using snoc by simp
  qed
  then show "cmm_inv t' (us @ vs)" "\<And>q. q \<in> set (us @ vs) \<Longrightarrow> cmm_val (ct_mem t') q = cmm_val ?m q"
    using inv last fresh by (auto simp: cmm_inv_def cmm_val_def)
qed

fun remove_match :: "('a \<Rightarrow> bool) \<Rightarrow> 'a list \<Rightarrow> 'a list" where
  "remove_match P [] = []"
| "remove_match P (x # xs) = (if P x then xs else x # remove_match P xs)"

lemma remove_match_split: "\<forall>x \<in> set us. \<not> P x \<Longrightarrow> P x \<Longrightarrow> remove_match P (us @ x # vs) = us @ vs"
  by (induction us) auto

lemma find_split: "\<forall>x \<in> set us. \<not> P x \<Longrightarrow> P x \<Longrightarrow> find P (us @ x # vs) = Some x"
  by (induction us) auto

lemma find_none: "\<forall>x \<in> set us. \<not> P x \<Longrightarrow> find P us = None \<and> remove_match P us = us"
  by (induction us) auto

lemma CmmFind_rep:
  assumes "cmm_rep t es" "ntags \<le> length tags"
  obtains t' where
    "CmmFind (Some t) ntags tags rtags del =
       Some (case find (entry_match ntags tags) es of
               None \<Rightarrow> (NULL, rtags, Some t')
             | Some (tg, m) \<Rightarrow> (m, copy_tags ntags rtags tg, Some t'))"
    "cmm_rep t' (if del then remove_match (entry_match ntags tags) es else es)"
proof -
  from assms(1) obtain ps where inv: "cmm_inv t ps" and es: "es = map (cmm_val (ct_mem t)) ps"
    by (auto simp: cmm_rep_def)
  from inv have "cmm_inv t ([] @ ps)" by simp
  from CmmFind_loop_eq [OF this assms(2), of rtags del] show thesis
  proof (elim disjE exE conjE)
    assume a: "CmmFind_loop t ntags tags rtags del (cmm_last FirstLink []) = Some (NULL, rtags, t)"
      "\<forall>p \<in> set ps. \<not> entry_match ntags tags (cmm_val (ct_mem t) p)"
    then have "find (entry_match ntags tags) es = None \<and> remove_match (entry_match ntags tags) es = es"
      unfolding es by (intro find_none) auto
    then show thesis using a(1) assms(1) by (intro that [of t]) (simp_all add: CmmFind_def cmm_last_def)
  next
    fix us p vs
    assume a: "ps = us @ p # vs" "\<forall>q \<in> set us. \<not> entry_match ntags tags (cmm_val (ct_mem t) q)"
      "entry_match ntags tags (cmm_val (ct_mem t) p)"
      "CmmFind_loop t ntags tags rtags del (cmm_last FirstLink []) =
        Some (ce_msg (the (ct_mem t p)), copy_tags ntags rtags (ce_tags (the (ct_mem t p))),
          if del then del_node t (cmm_last FirstLink ([] @ us)) p else t)"
    let ?t' = "if del then del_node t (cmm_last FirstLink us) p else t"
    have f: "find (entry_match ntags tags) es = Some (cmm_val (ct_mem t) p)"
      "remove_match (entry_match ntags tags) es = map (cmm_val (ct_mem t)) (us @ vs)"
      unfolding es a(1) using a(2,3) by (simp_all add: find_split remove_match_split)
    note D = del_node_inv [OF inv [unfolded a(1)]]
    have "cmm_rep (del_node t (cmm_last FirstLink us) p) (map (cmm_val (ct_mem t)) (us @ vs))"
      unfolding cmm_rep_def using D by (intro exI [of _ "us @ vs"]) auto
    then have "cmm_rep ?t' (if del then remove_match (entry_match ntags tags) es else es)"
      using f(2) assms(1) by simp
    then show thesis using a(4) f(1) by (intro that [of ?t']) (simp_all add: CmmFind_def cmm_last_def cmm_val_def)
  qed
qed

lemma CmmEntries_rep:
  assumes "cmm_rep t es"
  shows "CmmEntries t = Some (length es)"
proof -
  have "cmm_path (ct_mem t) p ps \<Longrightarrow> CmmEntries_loop t p n = Some (n + length ps)" for p ps n
    by (induction ps arbitrary: p n) (auto simp: CmmEntries_loop.simps)
  with assms show ?thesis by (fastforce simp: cmm_rep_def cmm_inv_def CmmEntries_def)
qed

lemma freeAll_rep:
  assumes "cmm_rep t es"
  shows "CmmFreeAll (Some t) = Some (Some (t\<lparr>ct_mem := Map.empty\<rparr>))"
proof -
  have "cmm_path (ct_mem t) p ps \<Longrightarrow> distinct ps \<Longrightarrow>
      freeAll_loop t p = Some (t\<lparr>ct_mem := (ct_mem t) |` (- set ps)\<rparr>)" for t p ps
  proof (induction ps arbitrary: t p)
    case Nil
    then show ?case by (simp add: freeAll_loop.simps)
  next
    case (Cons b ps)
    then obtain e where e: "p = b" "b \<noteq> NULL" "ct_mem t b = Some e" "cmm_path (ct_mem t) (ce_next e) ps" by auto
    let ?t = "t\<lparr>ct_mem := (ct_mem t)(b := None)\<rparr>"
    have "cmm_path (ct_mem t) (ce_next e) ps = cmm_path (ct_mem ?t) (ce_next e) ps"
      using Cons.prems(2) by (intro cmm_path_cong) auto
    then have path: "cmm_path (ct_mem ?t) (ce_next e) ps" using e(4) by blast
    have "distinct ps" using Cons.prems(2) by simp
    note IH = Cons.IH [OF path this]
    have rest: "(ct_mem ?t) |` (- set ps) = (ct_mem t) |` (- set (b # ps))"
      by (auto simp: restrict_map_def fun_eq_iff)
    have "freeAll_loop ?t (ce_next e) = Some (t\<lparr>ct_mem := (ct_mem t) |` (- set (b # ps))\<rparr>)"
      using IH [unfolded rest] by simp
    then show ?case using e by (simp add: freeAll_loop.simps [of t b])
  qed
  moreover have "(ct_mem t) |` (- set ps) = Map.empty" if "dom (ct_mem t) = set ps" for ps
    by (rule ext) (auto simp: restrict_map_def simp flip: that)
  ultimately show ?thesis using assms by (auto simp: cmm_rep_def cmm_inv_def CmmFreeAll_def)
qed

section \<open>The contract of a mailbox\<close>

text \<open>
  A mailbox keeps tagged messages in arrival order.  A receive or a probe returns the oldest
  message whose tags match, where a wild card on either side matches every tag.
\<close>

datatype mail_op = Put "u32 list" ptr | Get "u32 list" | Probe "u32 list"

definition mail_match :: "u32 list \<Rightarrow> tagged \<Rightarrow> bool" where
  "mail_match tags e \<longleftrightarrow> list_all2 tag_match tags (fst e)"

definition mail_reply :: "u32 list \<Rightarrow> tagged option \<Rightarrow> ptr \<times> u32 list" where
  "mail_reply tags r = (case r of None \<Rightarrow> (NULL, replicate (length tags) 0) | Some (tg, m) \<Rightarrow> (m, tg))"

fun mail_spec :: "mail_op list \<Rightarrow> tagged list \<Rightarrow> (ptr \<times> u32 list) list \<times> tagged list" where
  "mail_spec [] es = ([], es)"
| "mail_spec (Put tags m # ops) es = mail_spec ops (es @ [(tags, m)])"
| "mail_spec (Get tags # ops) es =
     (let (outs, es') = mail_spec ops (remove_match (mail_match tags) es)
      in (mail_reply tags (find (mail_match tags) es) # outs, es'))"
| "mail_spec (Probe tags # ops) es =
     (let (outs, es') = mail_spec ops es in (mail_reply tags (find (mail_match tags) es) # outs, es'))"

fun mail_run :: "('t \<Rightarrow> u32 list \<Rightarrow> ptr \<Rightarrow> 't) \<Rightarrow> ('t \<Rightarrow> u32 list \<Rightarrow> bool \<Rightarrow> ((ptr \<times> u32 list) \<times> 't) option) \<Rightarrow>
    mail_op list \<Rightarrow> 't \<Rightarrow> ((ptr \<times> u32 list) list \<times> 't) option" where
  "mail_run put recv [] t = Some ([], t)"
| "mail_run put recv (Put tags m # ops) t = mail_run put recv ops (put t tags m)"
| "mail_run put recv (Get tags # ops) t =
     (case recv t tags True of
        None \<Rightarrow> None
      | Some (r, t') \<Rightarrow> map_option (\<lambda>(outs, t''). (r # outs, t'')) (mail_run put recv ops t'))"
| "mail_run put recv (Probe tags # ops) t =
     (case recv t tags False of
        None \<Rightarrow> None
      | Some (r, t') \<Rightarrow> map_option (\<lambda>(outs, t''). (r # outs, t'')) (mail_run put recv ops t'))"

locale mailbox =
  fixes rep :: "'t \<Rightarrow> tagged list \<Rightarrow> bool"
    and put :: "'t \<Rightarrow> u32 list \<Rightarrow> ptr \<Rightarrow> 't"
    and recv :: "'t \<Rightarrow> u32 list \<Rightarrow> bool \<Rightarrow> ((ptr \<times> u32 list) \<times> 't) option"
  assumes rep_put: "rep t es \<Longrightarrow> rep (put t tags m) (es @ [(tags, m)])"
    and rep_recv: "rep t es \<Longrightarrow>
      \<exists>t'. recv t tags del = Some (mail_reply tags (find (mail_match tags) es), t') \<and>
        rep t' (if del then remove_match (mail_match tags) es else es)"
begin

lemma cmm_run_refines:
  "rep t es \<Longrightarrow>
   \<exists>t'. mail_run put recv ops t = Some (fst (mail_spec ops es), t') \<and> rep t' (snd (mail_spec ops es))"
proof (induction ops arbitrary: t es)
  case (Cons op ops)
  show ?case
  proof (cases op)
    case (Put tags m)
    then show ?thesis using Cons.IH [OF rep_put [OF Cons.prems]] by simp
  next
    case (Get tags)
    obtain t' where t': "recv t tags True = Some (mail_reply tags (find (mail_match tags) es), t')"
      "rep t' (remove_match (mail_match tags) es)" using rep_recv [OF Cons.prems, of tags True] by auto
    then show ?thesis using Cons.IH [OF t'(2)] Get by (auto simp: case_prod_beta)
  next
    case (Probe tags)
    obtain t' where t': "recv t tags False = Some (mail_reply tags (find (mail_match tags) es), t')"
      "rep t' es" using rep_recv [OF Cons.prems, of tags False] by auto
    then show ?thesis using Cons.IH [OF t'(2)] Probe by (auto simp: case_prod_beta)
  qed
qed simp

end

text \<open>The calls a client makes: all tags of the array count, and the tags are returned.\<close>

definition cmm_put :: "cmm_table \<Rightarrow> u32 list \<Rightarrow> ptr \<Rightarrow> cmm_table" where
  "cmm_put t tags m = CmmPut t (length tags) tags m"

definition cmm_recv :: "cmm_table \<Rightarrow> u32 list \<Rightarrow> bool \<Rightarrow> ((ptr \<times> u32 list) \<times> cmm_table) option" where
  "cmm_recv t tags del =
     map_option (\<lambda>(m, r, t'). ((m, the r), the t'))
       (CmmFind (Some t) (length tags) tags (Some (replicate (length tags) 0)) del)"

lemma entry_match_all: "entry_match (length tags) tags = mail_match tags"
  by (simp add: entry_match_def mail_match_def fun_eq_iff)

interpretation cmm: mailbox cmm_rep cmm_put cmm_recv
proof
  fix t es tags m
  assume "cmm_rep t es"
  then show "cmm_rep (cmm_put t tags m) (es @ [(tags, m)])"
    using cmm_rep_put [of t es "length tags" tags m] by (simp add: cmm_put_def)
next
  fix t es tags del
  assume rep: "cmm_rep t es"
  let ?f = "find (mail_match tags) es"
  obtain t' where t': "CmmFind (Some t) (length tags) tags (Some (replicate (length tags) 0)) del =
       Some (case ?f of None \<Rightarrow> (NULL, Some (replicate (length tags) 0), Some t')
             | Some (tg, m) \<Rightarrow> (m, copy_tags (length tags) (Some (replicate (length tags) 0)) tg, Some t'))"
    "cmm_rep t' (if del then remove_match (mail_match tags) es else es)"
    using CmmFind_rep [OF rep, of "length tags" tags "Some (replicate (length tags) 0)" del]
    unfolding entry_match_all by blast
  have "length tg = length tags" if "?f = Some (tg, m)" for tg m
    using that by (auto simp: find_Some_iff mail_match_def) (metis fst_conv list_all2_lengthD)
  then have "cmm_recv t tags del = Some (mail_reply tags ?f, t')"
    using t'(1) by (auto simp: cmm_recv_def mail_reply_def copy_tags_def split: option.split)
  then show "\<exists>t'. cmm_recv t tags del = Some (mail_reply tags ?f, t') \<and>
      cmm_rep t' (if del then remove_match (mail_match tags) es else es)" using t'(2) by blast
qed

section \<open>Packing a table\<close>

definition entry_enc :: "(ptr \<Rightarrow> u8 list) \<Rightarrow> tagged \<Rightarrow> u8 list" where
  "entry_enc enc e = int_bytes (of_nat (length (fst e))) @ ints_bytes (fst e) @ enc (snd e)"

definition entries_enc :: "(ptr \<Rightarrow> u8 list) \<Rightarrow> tagged list \<Rightarrow> u8 list" where
  "entries_enc enc es = concat (map (entry_enc enc) es)"

definition table_enc :: "(ptr \<Rightarrow> u8 list) \<Rightarrow> tagged list \<Rightarrow> u8 list" where
  "table_enc enc es = int_bytes (of_nat (length es)) @ entries_enc enc es"

text \<open>No array is larger than the sizer accepts, and the message routine handles the message.\<close>

definition entry_fits :: "(ptr \<Rightarrow> u8 list) \<Rightarrow> (ptr \<Rightarrow> ptr \<Rightarrow> bool) \<Rightarrow> tagged \<Rightarrow> bool" where
  "entry_fits enc S e \<longleftrightarrow> 4 * length (fst e) \<le> maxPupBytes \<and> length (enc (snd e)) \<le> maxPupBytes \<and>
     S NULL (snd e) \<and> S (snd e) (snd e)"

lemma sint_of_count: "n < 2 ^ 31 \<Longrightarrow> sint (of_nat n :: u32) = int n"
  by (simp add: signed_of_nat signed_take_bit_int_eq_self)

lemma entry_fits_small: "entry_fits enc S e \<Longrightarrow> sint (of_nat (length (fst e)) :: u32) = int (length (fst e))"
  by (rule sint_of_count) (simp add: entry_fits_def maxPupBytes_def)

lemma int_size: "length (int_bytes v) \<le> maxPupBytes"
  by (simp add: maxPupBytes_def)

lemma pup_entry_out:
  assumes msg: "pupable msgpup enc S" and wf: "ce_ntags e = length (ce_tags e)"
    and fits: "entry_fits enc S (ce_tags e, ce_msg e)" and room: "pup_room p (entry_enc enc (ce_tags e, ce_msg e))"
  shows "pup_entry msgpup p e = Some (pup_adv p (entry_enc enc (ce_tags e, ce_msg e)), e)"
proof -
  let ?n = "int_bytes (of_nat (length (ce_tags e)))" and ?t = "ints_bytes (ce_tags e)"
  let ?p1 = "pup_adv p ?n" and ?m = "enc (ce_msg e)"
  have r: "pup_room p ?n" "pup_room ?p1 ?t" "pup_room (pup_adv ?p1 ?t) ?m" "pup_room ?p1 (?t @ ?m)"
    using room by (auto simp: entry_enc_def pup_room_append)
  have un: "sint (of_nat (length (ce_tags e)) :: u32) = int (length (ce_tags e))"
    using entry_fits_small [OF fits] by simp
  have "pup_int p (of_nat (ce_ntags e)) = Some (?p1, of_nat (length (ce_tags e)))"
    unfolding wf using r(1) int_size by (intro int.pup_out) simp_all
  moreover have "pup_ints ?p1 (ce_tags e) = Some (pup_adv ?p1 ?t, ce_tags e)"
    using r(2) fits by (intro ints.pup_out) (simp_all add: entry_fits_def)
  moreover have "msgpup (pup_adv ?p1 ?t) (ce_msg e) = Some (pup_adv (pup_adv ?p1 ?t) ?m, ce_msg e)"
    using r(3) fits by (intro pupable.pup_out [OF msg]) (simp_all add: entry_fits_def)
  moreover have "pup_adv (pup_adv ?p1 ?t) ?m = pup_adv p (entry_enc enc (ce_tags e, ce_msg e))"
    using room r(4) by (simp add: pup_adv_append entry_enc_def)
  ultimately show ?thesis using wf un by (simp add: pup_entry_def)
qed

lemma CmmPup_out_loop_eq:
  assumes msg: "pupable msgpup enc S"
  shows "cmm_path (ct_mem t) e ps \<Longrightarrow> distinct ps \<Longrightarrow>
    \<forall>q \<in> set ps. ce_ntags (the (ct_mem t q)) = length (ce_tags (the (ct_mem t q))) \<and>
      entry_fits enc S (cmm_val (ct_mem t) q) \<Longrightarrow>
    pup_room p (entries_enc enc (map (cmm_val (ct_mem t)) ps)) \<Longrightarrow>
    CmmPup_out_loop msgpup p t e =
      Some (pup_adv p (entries_enc enc (map (cmm_val (ct_mem t)) ps)),
        if pup_deleting p then t\<lparr>ct_mem := ct_mem t |` (- set ps)\<rparr> else t)"
proof (induction ps arbitrary: t e p)
  case Nil
  then show ?case by (auto simp: CmmPup_out_loop.simps entries_enc_def restrict_map_def)
next
  case (Cons b ps)
  then obtain x where x: "e = b" "b \<noteq> NULL" "ct_mem t b = Some x" "cmm_path (ct_mem t) (ce_next x) ps" by auto
  let ?v = "cmm_val (ct_mem t)" and ?q = "pup_adv p (entry_enc enc (cmm_val (ct_mem t) b))"
  have v: "?v b = (ce_tags x, ce_msg x)" using x(3) by (simp add: cmm_val_def)
  have room: "pup_room p (entry_enc enc (?v b))" "pup_room ?q (entries_enc enc (map ?v ps))"
    using Cons.prems(4) by (simp_all add: entries_enc_def pup_room_append)
  have "pup_entry msgpup p x = Some (?q, x)"
    unfolding v using Cons.prems(3) x(3) v room(1) by (intro pup_entry_out [OF msg]) auto
  moreover define t' where "t' = t\<lparr>ct_mem := (ct_mem t)(b := if pup_deleting p then None else Some x)\<rparr>"
  ultimately have step: "CmmPup_out_loop msgpup p t e = CmmPup_out_loop msgpup ?q t' (ce_next x)"
    using x by (simp add: CmmPup_out_loop.simps [of msgpup p t b] pup_isDeleting_def)
  have same: "ct_mem t' q = ct_mem t q" if "q \<in> set ps" for q
    using that Cons.prems(2) by (auto simp: t'_def)
  have path: "cmm_path (ct_mem t') (ce_next x) ps"
    using x(4) cmm_path_cong [of ps "ct_mem t" "ct_mem t'"] same by simp
  have vals: "map (cmm_val (ct_mem t')) ps = map ?v ps" using same by (simp add: cmm_val_def)
  have IH: "CmmPup_out_loop msgpup ?q t' (ce_next x) =
      Some (pup_adv ?q (entries_enc enc (map (cmm_val (ct_mem t')) ps)),
        if pup_deleting ?q then t'\<lparr>ct_mem := ct_mem t' |` (- set ps)\<rparr> else t')"
  proof (rule Cons.IH [OF path])
    show "distinct ps" using Cons.prems(2) by simp
    show "\<forall>q \<in> set ps. ce_ntags (the (ct_mem t' q)) = length (ce_tags (the (ct_mem t' q))) \<and>
        entry_fits enc S (cmm_val (ct_mem t') q)" using Cons.prems(3) same by (simp add: cmm_val_def)
    show "pup_room ?q (entries_enc enc (map (cmm_val (ct_mem t')) ps))" using room(2) unfolding vals .
  qed
  have "pup_adv ?q (entries_enc enc (map ?v ps)) = pup_adv p (entries_enc enc (map ?v (b # ps)))"
    using Cons.prems(4) by (simp add: entries_enc_def pup_adv_append)
  moreover have "(if pup_deleting p then t'\<lparr>ct_mem := ct_mem t' |` (- set ps)\<rparr> else t') =
      (if pup_deleting p then t\<lparr>ct_mem := ct_mem t |` (- set (b # ps))\<rparr> else t)"
  proof (cases "pup_deleting p")
    case True
    have "ct_mem t' |` (- set ps) = ct_mem t |` (- set (b # ps))"
      using True by (auto simp: restrict_map_def t'_def fun_eq_iff)
    then show ?thesis using True by (simp add: t'_def)
  next
    case False
    then have "(ct_mem t)(b := if pup_deleting p then None else Some x) = ct_mem t"
      using x(3) by (auto simp: fun_eq_iff)
    then show ?thesis using False by (simp add: t'_def)
  qed
  ultimately show ?case using step IH unfolding vals by simp
qed

lemma CmmPup_out:
  assumes msg: "pupable msgpup enc S" and rep: "cmm_rep t es"
    and fits: "\<forall>e \<in> set es. entry_fits enc S e" and room: "pup_room p (table_enc enc es)"
  shows "CmmPup msgpup p t = Some (pup_adv p (table_enc enc es), if pup_deleting p then None else Some t)"
proof -
  from rep obtain ps where inv: "cmm_inv t ps" and es: "es = map (cmm_val (ct_mem t)) ps"
    by (auto simp: cmm_rep_def)
  let ?n = "int_bytes (of_nat (length es))"
  have r: "pup_room p ?n" "pup_room (pup_adv p ?n) (entries_enc enc es)"
    using room by (simp_all add: table_enc_def pup_room_append)
  have "CmmPup_out_loop msgpup (pup_adv p ?n) t (ct_first t) =
      Some (pup_adv (pup_adv p ?n) (entries_enc enc es),
        if pup_deleting p then t\<lparr>ct_mem := ct_mem t |` (- set ps)\<rparr> else t)"
    unfolding es
    using CmmPup_out_loop_eq [OF msg, of t "ct_first t" ps "pup_adv p ?n"] inv fits r(2)
    by (simp add: cmm_inv_def es)
  moreover have "pup_int p (of_nat (length es)) = Some (pup_adv p ?n, of_nat (length es))"
    using r(1) int_size by (intro int.pup_out) simp_all
  moreover have "pup_adv (pup_adv p ?n) (entries_enc enc es) = pup_adv p (table_enc enc es)"
    using room by (simp add: table_enc_def pup_adv_append)
  moreover have "pup_mode p \<noteq> Unpacking" using room by (auto simp: pup_room_def)
  ultimately show ?thesis
    using CmmEntries_rep [OF rep]
    by (simp add: CmmPup_def pup_isUnpacking_def pup_isDeleting_def CmmFree_def)
qed

lemma CmmPup_in_loop_eq:
  assumes msg: "pupable msgpup enc S"
  shows "cmm_rep t es0 \<Longrightarrow> pup_mode p = Unpacking \<Longrightarrow> pup_at p (entries_enc enc es) \<Longrightarrow>
    \<forall>e \<in> set es. entry_fits enc S e \<Longrightarrow>
    \<exists>t'. CmmPup_in_loop msgpup p t (length es) = Some (pup_skip p (length (entries_enc enc es)), t') \<and>
      cmm_rep t' (es0 @ es)"
proof (induction es arbitrary: t es0 p)
  case Nil
  then show ?case by (simp add: entries_enc_def pup_skip_def)
next
  case (Cons e es)
  obtain tg m where e: "e = (tg, m)" by force
  let ?n = "int_bytes (of_nat (length tg))" and ?t = "ints_bytes tg"
  let ?p1 = "pup_skip p (length ?n)" and ?p2 = "pup_skip p (length ?n + length ?t)"
  let ?p3 = "pup_skip p (length (entry_enc enc e))"
  have at: "pup_at p ?n" "pup_at ?p1 ?t" "pup_at ?p2 (enc m)" "pup_at ?p3 (entries_enc enc es)"
    using Cons.prems(3) by (simp_all add: entries_enc_def entry_enc_def e pup_at_append add.assoc)
  have un: "sint (of_nat (length tg) :: u32) = int (length tg)"
    using entry_fits_small [of enc S e] Cons.prems(4) e by simp
  have "pup_int p 0 = Some (?p1, of_nat (length tg))"
    using int.pup_unpack [OF Cons.prems(2) at(1)] by simp
  moreover have "pup_ints ?p1 (replicate (length tg) 0) = Some (?p2, tg)"
    using ints.pup_unpack [of ?p1 tg "replicate (length tg) 0"] at(2) Cons.prems(2) by simp
  moreover have "msgpup ?p2 NULL = Some (?p3, m)"
    using pupable.pup_unpack [OF msg, of ?p2 m NULL] at(3) Cons.prems(2,4)
    by (simp add: entry_enc_def e add.assoc entry_fits_def)
  ultimately have "CmmPup_in_loop msgpup p t (length (e # es)) =
      CmmPup_in_loop msgpup ?p3 (CmmPut t (length tg) tg m) (length es)" using un by simp
  moreover have "cmm_rep (CmmPut t (length tg) tg m) (es0 @ [e])"
    using cmm_rep_put [OF Cons.prems(1), of "length tg" tg m] e by simp
  ultimately show ?case
    using Cons.IH [of "CmmPut t (length tg) tg m" "es0 @ [e]" ?p3] Cons.prems at(4)
    by (simp add: entries_enc_def)
qed

lemma CmmPup_in:
  assumes msg: "pupable msgpup enc S" and p: "pup_mode p = Unpacking" "pup_at p (table_enc enc es)"
    and fits: "\<forall>e \<in> set es. entry_fits enc S e" "length es < 2 ^ 31"
  shows "\<exists>t'. CmmPup msgpup p t = Some (pup_skip p (length (table_enc enc es)), Some t') \<and> cmm_rep t' es"
proof -
  let ?n = "int_bytes (of_nat (length es))"
  have at: "pup_at p ?n" "pup_at (pup_skip p (length ?n)) (entries_enc enc es)"
    using p(2) by (simp_all add: table_enc_def pup_at_append)
  have un: "sint (of_nat (length es) :: u32) = int (length es)" by (rule sint_of_count [OF fits(2)])
  have "pup_int p 0 = Some (pup_skip p (length ?n), of_nat (length es))"
    using int.pup_unpack [OF p(1) at(1)] by simp
  moreover obtain t' where "CmmPup_in_loop msgpup (pup_skip p (length ?n)) CmmNew (length es) =
      Some (pup_skip (pup_skip p (length ?n)) (length (entries_enc enc es)), t')" "cmm_rep t' es"
    using CmmPup_in_loop_eq [OF msg cmm_rep_new, of "pup_skip p (length ?n)" es] p(1) at(2) fits(1) by auto
  ultimately show ?thesis using p(1) un by (simp add: CmmPup_def pup_isUnpacking_def table_enc_def)
qed

section \<open>Properties of message tables\<close>

text \<open>
  C12.  Every sequence of puts, receives and probes on a message table behaves as on the
  list of its messages: a receive takes the oldest message whose tags match (wild cards on
  either side included) and returns its tags, a probe leaves it in the table, both return
  \<^verbatim>\<open>NULL\<close> when nothing matches, and no operation fails.
\<close>

theorem cmm_refines_mailbox:
  "\<exists>t'. mail_run cmm_put cmm_recv ops CmmNew = Some (fst (mail_spec ops []), t') \<and>
     cmm_rep t' (snd (mail_spec ops [])) \<and> CmmEntries t' = Some (length (snd (mail_spec ops [])))"
  using cmm.cmm_run_refines [OF cmm_rep_new, of ops] CmmEntries_rep by blast

text \<open>
  C13.  Packing and unpacking a message table of fewer than \<open>2\<^sup>3\<^sup>1\<close> entries, each of which the packers accept
  (\<open>entry_fits\<close>).  For a message routine that measures, writes
  and reads one encoding, the sizer returns the exact number of bytes, packing fits a buffer
  of that size, and unpacking the buffer gives a table with the same messages and tags in
  the same order, whether or not the packer deletes the original.
\<close>

theorem cmm_pup_roundtrip:
  assumes "pupable msgpup enc S" "cmm_rep t es" "length es < 2 ^ 31"
    "\<forall>e \<in> set es. entry_fits enc S e"
  shows "\<exists>n p1 p2 p3 t'.
    CmmPup msgpup \<lparr>pup_mode = Sizing, pup_deleting = False, pup_buf = [], pup_pos = 0\<rparr> t = Some (p1, Some t) \<and>
    pup_pos p1 = n \<and>
    CmmPup msgpup \<lparr>pup_mode = Packing, pup_deleting = d, pup_buf = replicate n 0, pup_pos = 0\<rparr> t
      = Some (p2, if d then None else Some t) \<and>
    CmmPup msgpup \<lparr>pup_mode = Unpacking, pup_deleting = False, pup_buf = pup_buf p2, pup_pos = 0\<rparr> CmmNew
      = Some (p3, Some t') \<and> pup_pos p3 = n \<and> cmm_rep t' es"
proof -
  let ?e = "table_enc enc es"
  let ?s = "\<lparr>pup_mode = Sizing, pup_deleting = False, pup_buf = [], pup_pos = 0\<rparr>"
  let ?w = "\<lparr>pup_mode = Packing, pup_deleting = d, pup_buf = replicate (length ?e) 0, pup_pos = 0\<rparr>"
  let ?r = "\<lparr>pup_mode = Unpacking, pup_deleting = False, pup_buf = ?e, pup_pos = 0\<rparr>"
  have "CmmPup msgpup ?s t = Some (pup_adv ?s ?e, Some t)"
    using CmmPup_out [OF assms(1,2,4), of ?s] by (simp add: pup_room_def)
  moreover have "CmmPup msgpup ?w t = Some (pup_adv ?w ?e, if d then None else Some t)"
    using CmmPup_out [OF assms(1,2,4), of ?w] by (simp add: pup_room_def)
  moreover have "pup_buf (pup_adv ?w ?e) = ?e" by (simp add: pup_adv_def pup_write_def)
  moreover have "pup_at ?r ?e" by (auto simp: pup_at_def)
  then obtain t' where "CmmPup msgpup ?r CmmNew = Some (pup_skip ?r (length ?e), Some t')" "cmm_rep t' es"
    using CmmPup_in [OF assms(1) _ _ assms(4,3), of ?r CmmNew] by auto
  moreover have "pup_pos (pup_adv ?s ?e) = length ?e" "pup_pos (pup_skip ?r (length ?e)) = length ?e"
    by (simp_all add: pup_adv_def)
  ultimately show ?thesis by (metis (no_types, lifting))
qed

text \<open>A message routine that packs the message as a 32-bit handle.\<close>

definition handle_pup :: msgpup where
  "handle_pup p m = map_option (\<lambda>(p', v). (p', unat v)) (pup_int p (of_nat m))"

lemma handle_pupable: "pupable handle_pup (\<lambda>m. int_bytes (of_nat m)) (\<lambda>u v. v < 2 ^ 32)"
proof
  fix p :: pup_er and v :: ptr
  assume "pup_mode p = Sizing" "v < 2 ^ 32"
  then show "handle_pup p v = Some (pup_skip p (length (int_bytes (of_nat v))), v)"
    using int.pup_size [of p "of_nat v"] int_size by (simp add: handle_pup_def unat_of_nat)
next
  fix p :: pup_er and v :: ptr
  assume "pup_mode p = Packing" "v < 2 ^ 32" "pup_pos p + length (int_bytes (of_nat v)) \<le> length (pup_buf p)"
  then show "handle_pup p v = Some (pup_write p (int_bytes (of_nat v)), v)"
    using int.pup_pack [of p "of_nat v"] by (simp add: handle_pup_def unat_of_nat)
next
  fix p :: pup_er and u v :: ptr
  assume "pup_mode p = Unpacking" "pup_at p (int_bytes (of_nat v))" "v < 2 ^ 32"
  then show "handle_pup p u = Some (pup_skip p (length (int_bytes (of_nat v))), v)"
    using int.pup_unpack [of p "of_nat v" "of_nat u"] by (simp add: handle_pup_def unat_of_nat)
qed

theorem cmm_pup_roundtrip_witness:
  "\<exists>p2 p3 t'.
     CmmPup handle_pup \<lparr>pup_mode = Packing, pup_deleting = True, pup_buf = replicate 20 0, pup_pos = 0\<rparr>
       (cmm_put CmmNew [7, - 1] 42) = Some (p2, None) \<and>
     CmmPup handle_pup \<lparr>pup_mode = Unpacking, pup_deleting = False, pup_buf = pup_buf p2, pup_pos = 0\<rparr> CmmNew
       = Some (p3, Some t') \<and> cmm_rep t' [([7, - 1], 42)]"
proof -
  let ?t = "cmm_put CmmNew [7, - 1] 42"
  let ?s = "\<lparr>pup_mode = Sizing, pup_deleting = False, pup_buf = [], pup_pos = 0\<rparr>"
  have rep: "cmm_rep ?t [([7, - 1], 42)]" using cmm.rep_put [OF cmm_rep_new, of "[7, - 1]" 42] by simp
  have fits: "\<forall>e \<in> set [([7, - 1], 42)]. entry_fits (\<lambda>m. int_bytes (of_nat m)) (\<lambda>u v. v < 2 ^ 32) e"
    by (simp add: entry_fits_def maxPupBytes_def)
  have "CmmPup handle_pup ?s ?t = Some (pup_adv ?s (table_enc (\<lambda>m. int_bytes (of_nat m)) [([7, - 1], 42)]), Some ?t)"
    using CmmPup_out [OF handle_pupable rep fits, of ?s] by (simp add: pup_room_def)
  then have "pup_pos p1 = 20" if "CmmPup handle_pup ?s ?t = Some (p1, Some ?t)" for p1
    using that by (auto simp: pup_adv_def table_enc_def entries_enc_def entry_enc_def)
  then show ?thesis using cmm_pup_roundtrip [OF handle_pupable rep _ fits, of True] by fastforce
qed

end
