(* ===== verification/Cblist.thy ===== *)
theory Cblist
  imports Prelude
begin

text \<open>
  The callback lists of \<^verbatim>\<open>conv-core/conv-conds.c\<close> (\<^verbatim>\<open>ccd_cblist\<close>): a doubly linked list and
  a free list threaded through one array by integer links, \<^verbatim>\<open>-1\<close> marking an end.
  \<open>cbl_inv l us fs\<close> says that \<open>us\<close> are the busy slots in list order and \<open>fs\<close> the free
  ones; the operations are shown to act on the list of callbacks of the busy slots.
\<close>

section \<open>State and operations\<close>

record ccd_callback =
  cb_fn :: ptr
  cb_arg :: ptr
  cb_pe :: int

record ccd_cblist_elem =
  el_cb :: ccd_callback
  el_next :: int
  el_prev :: int

record ccd_cblist =
  cl_maxlen :: nat
  cl_len :: nat
  cl_first :: int
  cl_last :: int
  cl_first_free :: int
  cl_elems :: "ccd_cblist_elem list"
  cl_flag :: bool

definition no_cb :: ccd_callback where
  "no_cb = \<lparr>cb_fn = NULL, cb_arg = NULL, cb_pe = 0\<rparr>"

text \<open>Slot \<open>i\<close> of a freshly threaded free list.\<close>

definition fresh_elem :: "nat \<Rightarrow> ccd_cblist_elem" where
  "fresh_elem i = \<lparr>el_cb = no_cb, el_next = int i + 1, el_prev = int i - 1\<rparr>"

abbreviation upd_next :: "ccd_cblist_elem list \<Rightarrow> nat \<Rightarrow> int \<Rightarrow> ccd_cblist_elem list" where
  "upd_next e i n \<equiv> e[i := (e ! i)\<lparr>el_next := n\<rparr>]"

abbreviation upd_prev :: "ccd_cblist_elem list \<Rightarrow> nat \<Rightarrow> int \<Rightarrow> ccd_cblist_elem list" where
  "upd_prev e i n \<equiv> e[i := (e ! i)\<lparr>el_prev := n\<rparr>]"

definition init_cblist :: "nat \<Rightarrow> ccd_cblist" where
  "init_cblist ml =
     \<lparr>cl_maxlen = ml, cl_len = 0, cl_first = - 1, cl_last = - 1, cl_first_free = 0,
      cl_elems = upd_next (map fresh_elem [0..<ml]) (ml - 1) (- 1), cl_flag = False\<rparr>"

definition expand_cblist :: "ccd_cblist \<Rightarrow> nat \<Rightarrow> ccd_cblist" where
  "expand_cblist l ml =
     (let e0 = take (cl_len l) (cl_elems l) @ map fresh_elem [cl_len l..<ml];
          e1 = upd_next e0 (ml - 1) (- 1);
          e2 = upd_prev e1 (cl_len l) (- 1)
      in l\<lparr>cl_elems := e2, cl_maxlen := ml, cl_first_free := int (cl_len l)\<rparr>)"

definition remove_elem :: "ccd_cblist \<Rightarrow> nat \<Rightarrow> ccd_cblist" where
  "remove_elem l idx =
     (let e = cl_elems l;
          nx = el_next (e ! idx);
          e1 = (if nx \<noteq> - 1 then upd_prev e (nat nx) (el_prev (e ! idx)) else e);
          pv = el_prev (e1 ! idx);
          e2 = (if pv \<noteq> - 1 then upd_next e1 (nat pv) (el_next (e1 ! idx)) else e1);
          first = (if int idx = cl_first l then el_next (e2 ! idx) else cl_first l);
          last = (if int idx = cl_last l then el_prev (e2 ! idx) else cl_last l);
          e3 = upd_prev e2 idx (- 1);
          e4 = upd_next e3 idx (cl_first_free l);
          e5 = (if el_next (e4 ! idx) \<noteq> - 1 then upd_prev e4 (nat (el_next (e4 ! idx))) (int idx) else e4)
      in l\<lparr>cl_elems := e5, cl_first := first, cl_last := last, cl_first_free := int idx,
           cl_len := cl_len l - 1\<rparr>)"

fun remove_firsts :: "ccd_cblist \<Rightarrow> nat \<Rightarrow> ccd_cblist" where
  "remove_firsts l 0 = l"
| "remove_firsts l (Suc n) = remove_firsts (remove_elem l (nat (cl_first l))) n"

definition remove_n_elems :: "ccd_cblist \<Rightarrow> nat \<Rightarrow> ccd_cblist" where
  "remove_n_elems l n = (if n = 0 \<or> cl_len l < n then l else remove_firsts l n)"

definition append_elem :: "ccd_cblist \<Rightarrow> ptr \<Rightarrow> ptr \<Rightarrow> int \<Rightarrow> nat \<times> ccd_cblist" where
  "append_elem l0 fn arg pe =
     (let l = (if cl_len l0 = cl_maxlen l0 then expand_cblist l0 (cl_maxlen l0 * 2) else l0);
          idx = nat (cl_first_free l);
          e = cl_elems l;
          free = el_next (e ! idx);
          e1 = upd_next e idx (- 1);
          e2 = upd_prev e1 idx (cl_last l);
          first = (if cl_first l = - 1 then int idx else cl_first l);
          e3 = (if cl_last l \<noteq> - 1 then upd_next e2 (nat (cl_last l)) (int idx) else e2);
          e4 = e3[idx := (e3 ! idx)\<lparr>el_cb := \<lparr>cb_fn = fn, cb_arg = arg, cb_pe = pe\<rparr>\<rparr>]
      in (idx, l\<lparr>cl_elems := e4, cl_first_free := free, cl_first := first, cl_last := int idx,
                 cl_len := cl_len l + 1\<rparr>))"

section \<open>Linked segments\<close>

definition hdi :: "nat list \<Rightarrow> int \<Rightarrow> int" where
  "hdi ys n = (if ys = [] then n else int (hd ys))"

definition lasti :: "int \<Rightarrow> nat list \<Rightarrow> int" where
  "lasti p xs = (if xs = [] then p else int (last xs))"

lemma hdi_lasti_simps [simp]:
  "hdi [] n = n" "hdi (a # as) n = int a" "lasti p [] = p" "lasti p (as @ [a]) = int a"
  "lasti p (a # as) = lasti (int a) as" "hdi (xs @ ys) n = hdi xs (hdi ys n)"
  "lasti p (xs @ ys) = lasti (lasti p xs) ys"
  by (simp_all add: hdi_def lasti_def)

fun dseg :: "ccd_cblist_elem list \<Rightarrow> int \<Rightarrow> nat list \<Rightarrow> int \<Rightarrow> bool" where
  "dseg e p [] n \<longleftrightarrow> True"
| "dseg e p (a # as) n \<longleftrightarrow> el_prev (e ! a) = p \<and> el_next (e ! a) = hdi as n \<and> dseg e (int a) as n"

fun fseg :: "ccd_cblist_elem list \<Rightarrow> nat list \<Rightarrow> bool" where
  "fseg e [] \<longleftrightarrow> True"
| "fseg e (a # as) \<longleftrightarrow> el_next (e ! a) = hdi as (- 1) \<and> fseg e as"

lemma dseg_append: "dseg e p (xs @ ys) n \<longleftrightarrow> dseg e p xs (hdi ys n) \<and> dseg e (lasti p xs) ys n"
  by (induction xs arbitrary: p) (auto simp: lasti_def)

lemma dseg_cong:
  "(\<And>a. a \<in> set as \<Longrightarrow> el_prev (e ! a) = el_prev (e' ! a) \<and> el_next (e ! a) = el_next (e' ! a)) \<Longrightarrow>
   dseg e p as n = dseg e' p as n"
  by (induction as arbitrary: p) auto

lemma fseg_cong:
  "(\<And>a. a \<in> set as \<Longrightarrow> el_next (e ! a) = el_next (e' ! a)) \<Longrightarrow> fseg e as = fseg e' as"
  by (induction as) auto

lemma link_upd [simp]:
  "el_next (upd_prev e a n ! i) = el_next (e ! i)" "el_prev (upd_next e a n ! i) = el_prev (e ! i)"
  "a < length e \<Longrightarrow> el_prev (upd_prev e a n ! i) = (if i = a then n else el_prev (e ! i))"
  "a < length e \<Longrightarrow> el_next (upd_next e a n ! i) = (if i = a then n else el_next (e ! i))"
  "el_cb (upd_prev e a n ! i) = el_cb (e ! i)" "el_cb (upd_next e a n ! i) = el_cb (e ! i)"
proof -
  have u: "e[a := x] ! i = (if i = a \<and> a < length e then x else e ! i)" for x
    by (cases "i = a") (auto simp: list_update_beyond)
  show "el_next (upd_prev e a n ! i) = el_next (e ! i)" "el_prev (upd_next e a n ! i) = el_prev (e ! i)"
    "a < length e \<Longrightarrow> el_prev (upd_prev e a n ! i) = (if i = a then n else el_prev (e ! i))"
    "a < length e \<Longrightarrow> el_next (upd_next e a n ! i) = (if i = a then n else el_next (e ! i))"
    "el_cb (upd_prev e a n ! i) = el_cb (e ! i)" "el_cb (upd_next e a n ! i) = el_cb (e ! i)"
    unfolding u by simp_all
qed

lemma dseg_first:
  assumes "dseg e p ys n" "distinct ys" "set ys \<subseteq> {..<length e}" "ys \<noteq> []"
  shows "dseg (upd_prev e (hd ys) p') p' ys n"
proof (cases ys)
  case (Cons a as)
  with assms have "dseg (upd_prev e a p') (int a) as n = dseg e (int a) as n"
    by (intro dseg_cong) auto
  with Cons assms show ?thesis by auto
qed (use assms in simp)

lemma dseg_last:
  assumes "dseg e p xs n" "distinct xs" "set xs \<subseteq> {..<length e}" "xs \<noteq> []"
  shows "dseg (upd_next e (last xs) n') p xs n'"
proof (cases xs rule: rev_cases)
  case (snoc as a)
  with assms have "dseg (upd_next e a n') p as (int a) = dseg e p as (int a)"
    by (intro dseg_cong) auto
  with snoc assms show ?thesis by (auto simp: dseg_append)
qed (use assms in simp)

section \<open>Invariant\<close>

definition cbl_inv :: "ccd_cblist \<Rightarrow> nat list \<Rightarrow> nat list \<Rightarrow> bool" where
  "cbl_inv l us fs \<longleftrightarrow>
     length (cl_elems l) = cl_maxlen l \<and> 0 < cl_maxlen l \<and> distinct (us @ fs) \<and>
     set (us @ fs) = {..<cl_maxlen l} \<and> cl_len l = length us \<and>
     dseg (cl_elems l) (- 1) us (- 1) \<and> fseg (cl_elems l) fs \<and>
     cl_first l = hdi us (- 1) \<and> cl_last l = lasti (- 1) us \<and> cl_first_free l = hdi fs (- 1)"

lemma cbl_invI:
  assumes "length (cl_elems l) = n" "cl_maxlen l = n" "0 < n" "distinct (us @ fs)" "set (us @ fs) = {..<n}"
    "cl_len l = length us" "dseg (cl_elems l) (- 1) us (- 1)" "fseg (cl_elems l) fs"
    "cl_first l = hdi us (- 1)" "cl_last l = lasti (- 1) us" "cl_first_free l = hdi fs (- 1)"
  shows "cbl_inv l us fs"
  unfolding cbl_inv_def assms(1,2) using assms by (intro conjI) (rule refl | assumption)+

lemma cbl_invD:
  assumes "cbl_inv l us fs"
  shows "length (cl_elems l) = cl_maxlen l" "0 < cl_maxlen l" "distinct (us @ fs)"
    "set (us @ fs) = {..<cl_maxlen l}" "cl_len l = length us" "dseg (cl_elems l) (- 1) us (- 1)"
    "fseg (cl_elems l) fs" "cl_first l = hdi us (- 1)" "cl_last l = lasti (- 1) us"
    "cl_first_free l = hdi fs (- 1)"
  using assms unfolding cbl_inv_def by blast+

definition cbl_vals :: "ccd_cblist \<Rightarrow> nat list \<Rightarrow> ccd_callback list" where
  "cbl_vals l us = map (\<lambda>i. el_cb (cl_elems l ! i)) us"

lemma fseg_upt:
  assumes "m < ml" "\<And>i. m \<le> i \<Longrightarrow> i < ml \<Longrightarrow> el_next (e ! i) = (if i = ml - 1 then - 1 else int i + 1)"
  shows "fseg e [m..<ml]"
proof -
  have "fseg e [k..<ml]" if "m \<le> k" "k \<le> ml" for k
    using that(2,1)
  proof (induction rule: inc_induct)
    case (step k)
    then have "[k..<ml] = k # [Suc k..<ml]" by (simp add: upt_conv_Cons)
    moreover have "el_next (e ! k) = hdi [Suc k..<ml] (- 1)"
      using assms(2) [of k] step by (auto simp: hdi_def)
    ultimately show ?case using step by simp
  qed simp
  then show ?thesis using assms(1) by simp
qed

lemma init_cblist_inv: "0 < ml \<Longrightarrow> cbl_inv (init_cblist ml) [] [0..<ml]"
  by (auto simp: cbl_inv_def init_cblist_def hdi_def nth_list_update fresh_elem_def intro!: fseg_upt)

lemma expand_cblist_inv:
  assumes inv: "cbl_inv l us []"
  shows "cbl_inv (expand_cblist l (cl_maxlen l * 2)) us [cl_maxlen l..<cl_maxlen l * 2]"
    and "cbl_vals (expand_cblist l (cl_maxlen l * 2)) us = cbl_vals l us"
proof -
  let ?n = "cl_maxlen l" and ?l' = "expand_cblist l (cl_maxlen l * 2)"
  note D = cbl_invD [OF inv]
  have I: "length (cl_elems l) = ?n" "0 < ?n" "distinct us" "set us = {..<?n}" using D(1-4) by simp_all
  have len: "cl_len l = ?n" using distinct_card [OF I(3)] D(5) unfolding I(4) by simp
  have e: "cl_elems ?l' ! i = cl_elems l ! i" if "i < ?n" for i
    using that I(1,2) len by (simp add: expand_cblist_def Let_def nth_append)
  have f: "el_next (cl_elems ?l' ! i) = (if i = ?n * 2 - 1 then - 1 else int i + 1)"
    if "?n \<le> i" "i < ?n * 2" for i
    using that I(1,2) len by (auto simp: expand_cblist_def Let_def nth_append nth_list_update fresh_elem_def)
  have "dseg (cl_elems ?l') (- 1) us (- 1) = dseg (cl_elems l) (- 1) us (- 1)"
    using e I(4) by (intro dseg_cong) auto
  moreover have "fseg (cl_elems ?l') [?n..<?n * 2]" using I(2) f by (intro fseg_upt) auto
  moreover have "cl_maxlen ?l' = ?n * 2" "cl_len ?l' = length us" "cl_first ?l' = hdi us (- 1)"
    "cl_last ?l' = lasti (- 1) us" "cl_first_free ?l' = hdi [?n..<?n * 2] (- 1)"
    "length (cl_elems ?l') = ?n * 2"
    using I(1,2) len D(5,8,9) by (simp_all add: expand_cblist_def Let_def) (simp add: hdi_def)
  moreover have "set (us @ [?n..<?n * 2]) = {..<?n * 2}" "distinct (us @ [?n..<?n * 2])"
    using I(3) unfolding set_append distinct_append I(4) by auto
  ultimately show "cbl_inv ?l' us [?n..<?n * 2]"
    using I(2) D(6) by (intro cbl_invI [where n = "?n * 2"]) simp_all
  show "cbl_vals ?l' us = cbl_vals l us" using e I(4) by (auto simp: cbl_vals_def)
qed

section \<open>Append and remove\<close>

lemma append_free:
  fixes fn arg :: ptr and pe :: int
  assumes inv: "cbl_inv l us (a # fs)" and ne: "cl_len l \<noteq> cl_maxlen l"
  defines "l' \<equiv> snd (append_elem l fn arg pe)"
  shows "fst (append_elem l fn arg pe) = a" "cbl_inv l' (us @ [a]) fs"
    "cbl_vals l' (us @ [a]) = cbl_vals l us @ [\<lparr>cb_fn = fn, cb_arg = arg, cb_pe = pe\<rparr>]"
proof -
  note I = cbl_invD [OF inv]
  let ?e = "cl_elems l" and ?e' = "cl_elems l'"
  have idx: "nat (cl_first_free l) = a" using I(10) by simp
  then show "fst (append_elem l fn arg pe) = a" using ne by (simp add: append_elem_def Let_def)
  have a: "a < length ?e" "a \<notin> set us" "a \<notin> set fs" "set us \<subseteq> {..<length ?e}" "distinct us" "distinct fs"
    "set us \<inter> set fs = {}" using I(1,3,4) by auto
  define e2 where "e2 = upd_prev (upd_next ?e a (- 1)) a (cl_last l)"
  define e3 where "e3 = (if us \<noteq> [] then upd_next e2 (last us) (int a) else e2)"
  have len: "length e2 = length ?e" "length e3 = length ?e" by (simp_all add: e2_def e3_def)
  have lastn: "cl_last l \<noteq> - 1 \<longleftrightarrow> us \<noteq> []" "us \<noteq> [] \<Longrightarrow> nat (cl_last l) = last us"
    using I(9) by (auto simp: lasti_def)
  have e': "?e' = e3[a := (e3 ! a)\<lparr>el_cb := \<lparr>cb_fn = fn, cb_arg = arg, cb_pe = pe\<rparr>\<rparr>]"
    using ne lastn by (auto simp: l'_def append_elem_def Let_def idx e2_def e3_def)
  have links: "el_next (?e' ! i) = el_next (e3 ! i)" "el_prev (?e' ! i) = el_prev (e3 ! i)" for i
    using a(1) len(2) unfolding e' by (cases "i = a"; simp)+
  have at2: "el_prev (e2 ! i) = (if i = a then cl_last l else el_prev (?e ! i))"
    "el_next (e2 ! i) = (if i = a then - 1 else el_next (?e ! i))" for i
    using a(1) by (cases "i = a"; simp add: e2_def)+
  have "dseg e2 (- 1) us (- 1) = dseg ?e (- 1) us (- 1)"
    using a(2) by (intro dseg_cong) (auto simp: at2)
  then have "dseg e3 (- 1) us (int a)"
    using I(6) dseg_last [of e2 "- 1" us "- 1" "int a"] a(4,5) len(1) by (auto simp: e3_def)
  moreover have "el_prev (e3 ! a) = lasti (- 1) us" "el_next (e3 ! a) = - 1"
  proof -
    have "us \<noteq> [] \<Longrightarrow> last us \<noteq> a" "us \<noteq> [] \<Longrightarrow> last us < length e2"
      using a(2,4) last_in_set [of us] unfolding len(1) by blast+
    then show "el_prev (e3 ! a) = lasti (- 1) us" "el_next (e3 ! a) = - 1"
      using I(9) by (auto simp: e3_def at2)
  qed
  ultimately have "dseg e3 (- 1) (us @ [a]) (- 1)" by (simp add: dseg_append)
  then have D: "dseg ?e' (- 1) (us @ [a]) (- 1)" using dseg_cong [of "us @ [a]" ?e' e3] links by simp
  have "el_next (?e' ! i) = el_next (?e ! i)" if "i \<in> set fs" for i
  proof -
    have "i \<noteq> a" "us \<noteq> [] \<Longrightarrow> i \<noteq> last us" "us \<noteq> [] \<Longrightarrow> last us < length e2"
      using that a(3,4,7) last_in_set [of us] unfolding len(1) by blast+
    then show ?thesis using links by (auto simp: e3_def at2)
  qed
  then have F: "fseg ?e' fs" using I(7) fseg_cong [of fs ?e' ?e] by simp
  have fields: "cl_maxlen l' = cl_maxlen l" "cl_len l' = length (us @ [a])"
    "cl_first l' = hdi (us @ [a]) (- 1)" "cl_last l' = int a" "cl_first_free l' = hdi fs (- 1)"
    using ne I(5,7,8) idx by (auto simp: l'_def append_elem_def Let_def hdi_def)
  show "cbl_inv l' (us @ [a]) fs"
    using fields D F I(1-4) len(2) by (intro cbl_invI [where n = "cl_maxlen l"]) (auto simp: e')
  have "el_cb (?e' ! i) = el_cb (?e ! i)" if "i \<noteq> a" for i
    using that by (simp add: e' e3_def e2_def)
  moreover have "el_cb (?e' ! a) = \<lparr>cb_fn = fn, cb_arg = arg, cb_pe = pe\<rparr>" using a(1) len(2) by (simp add: e')
  moreover have "i \<noteq> a" if "i \<in> set us" for i using that a(2) by blast
  ultimately show "cbl_vals l' (us @ [a]) = cbl_vals l us @ [\<lparr>cb_fn = fn, cb_arg = arg, cb_pe = pe\<rparr>]"
    by (simp add: cbl_vals_def)
qed

lemma append_elem_inv:
  fixes fn arg :: ptr and pe :: int
  assumes inv: "cbl_inv l us fs"
  obtains a fs' where "fst (append_elem l fn arg pe) = a" "a \<notin> set us"
    "cbl_inv (snd (append_elem l fn arg pe)) (us @ [a]) fs'"
    "cbl_vals (snd (append_elem l fn arg pe)) (us @ [a]) = cbl_vals l us @ [\<lparr>cb_fn = fn, cb_arg = arg, cb_pe = pe\<rparr>]"
proof (cases "cl_len l = cl_maxlen l")
  case True
  note I = cbl_invD [OF inv]
  have "length (us @ fs) = cl_maxlen l" using distinct_card [OF I(3)] unfolding I(4) by simp
  then have fs: "fs = []" using I(5) True by simp
  let ?l = "expand_cblist l (cl_maxlen l * 2)"
  note E = expand_cblist_inv [OF inv [unfolded fs]]
  have "[cl_maxlen l..<cl_maxlen l * 2] = cl_maxlen l # [Suc (cl_maxlen l)..<cl_maxlen l * 2]"
    using I(2) by (simp add: upt_conv_Cons)
  note E' = E(1) [unfolded this]
  have ne: "cl_len ?l \<noteq> cl_maxlen ?l" using True I(2) by (simp add: expand_cblist_def Let_def)
  have eq: "append_elem l fn arg pe = append_elem ?l fn arg pe"
    using True ne by (simp add: append_elem_def)
  have "cl_maxlen l \<notin> set us" using cbl_invD(3) [OF E'] by simp
  then show thesis using append_free [OF E' ne, of fn arg pe] E(2)
    by (intro that [of "cl_maxlen l" "[Suc (cl_maxlen l)..<cl_maxlen l * 2]"]) (simp_all add: eq)
next
  case False
  note I = cbl_invD [OF inv]
  have "length (us @ fs) = cl_maxlen l" using distinct_card [OF I(3)] unfolding I(4) by simp
  then obtain a fs' where fs: "fs = a # fs'" using I(5) False by (cases fs) auto
  show thesis using append_free [OF inv [unfolded fs] False, of fn arg pe] I(3) fs
    by (intro that [of a fs']) simp_all
qed

lemma remove_elem_inv:
  assumes inv: "cbl_inv l (xs @ a # ys) fs"
  shows "cbl_inv (remove_elem l a) (xs @ ys) (a # fs)"
    "cbl_vals (remove_elem l a) us = cbl_vals l us"
proof -
  note I = cbl_invD [OF inv]
  let ?e = "cl_elems l" and ?p = "lasti (- 1) xs" and ?n = "hdi ys (- 1)"
  have a: "a < length ?e" "a \<notin> set xs" "a \<notin> set ys" "a \<notin> set fs" "set xs \<subseteq> {..<length ?e}"
    "set ys \<subseteq> {..<length ?e}" "set fs \<subseteq> {..<length ?e}" "distinct xs" "distinct ys" "distinct fs"
    "set xs \<inter> set ys = {}" "set fs \<inter> set xs = {}" "set fs \<inter> set ys = {}"
    using I(1,3,4) by auto
  have seg: "dseg ?e (- 1) xs (int a)" "el_prev (?e ! a) = ?p" "el_next (?e ! a) = ?n" "dseg ?e (int a) ys (- 1)"
    using I(6) by (simp_all add: dseg_append)
  define e1 where "e1 = (if ys \<noteq> [] then upd_prev ?e (hd ys) ?p else ?e)"
  define e2 where "e2 = (if xs \<noteq> [] then upd_next e1 (last xs) ?n else e1)"
  define e4 where "e4 = upd_next (upd_prev e2 a (- 1)) a (hdi fs (- 1))"
  define e5 where "e5 = (if fs \<noteq> [] then upd_prev e4 (hd fs) (int a) else e4)"
  have len: "length e1 = length ?e" "length e2 = length ?e" "length e4 = length ?e" "length e5 = length ?e"
    by (simp_all add: e1_def e2_def e4_def e5_def)
  have hd_ys: "ys \<noteq> [] \<Longrightarrow> hd ys \<in> set ys" "xs \<noteq> [] \<Longrightarrow> last xs \<in> set xs" "fs \<noteq> [] \<Longrightarrow> hd fs \<in> set fs"
    by simp_all
  have ne: "ys \<noteq> [] \<Longrightarrow> hd ys \<noteq> a" "xs \<noteq> [] \<Longrightarrow> last xs \<noteq> a" "fs \<noteq> [] \<Longrightarrow> hd fs \<noteq> a"
    "ys \<noteq> [] \<Longrightarrow> hd ys < length ?e" "xs \<noteq> [] \<Longrightarrow> last xs < length ?e" "fs \<noteq> [] \<Longrightarrow> hd fs < length ?e"
    using hd_ys a(2-7) by blast+
  have at: "el_prev (e1 ! a) = ?p" "el_next (e1 ! a) = ?n" "el_prev (e2 ! a) = ?p" "el_next (e2 ! a) = ?n"
    "el_next (e4 ! a) = hdi fs (- 1)"
    using ne seg(2,3) a(1) len by (auto simp: e1_def) (auto simp: e2_def e1_def e4_def)
  have pn: "?n \<noteq> - 1 \<longleftrightarrow> ys \<noteq> []" "ys \<noteq> [] \<Longrightarrow> nat ?n = hd ys" "?p \<noteq> - 1 \<longleftrightarrow> xs \<noteq> []" "xs \<noteq> [] \<Longrightarrow> nat ?p = last xs"
    "hdi fs (- 1) \<noteq> - 1 \<longleftrightarrow> fs \<noteq> []" "fs \<noteq> [] \<Longrightarrow> nat (hdi fs (- 1)) = hd fs"
    by (auto simp: hdi_def lasti_def)
  have E1: "(if ?n \<noteq> - 1 then upd_prev ?e (nat ?n) ?p else ?e) = e1" using pn(1,2) by (simp add: e1_def)
  have E2: "(if ?p \<noteq> - 1 then upd_next e1 (nat ?p) ?n else e1) = e2" using pn(3,4) by (simp add: e2_def)
  have E5: "(if hdi fs (- 1) \<noteq> - 1 then upd_prev e4 (nat (hdi fs (- 1))) (int a) else e4) = e5"
    using pn(5,6) by (simp add: e5_def)
  have fi: "(if int a = cl_first l then ?n else cl_first l) = hdi (xs @ ys) (- 1)"
    using I(8) a(2) by (cases xs) auto
  have la: "(if int a = cl_last l then ?p else cl_last l) = lasti (- 1) (xs @ ys)"
    using I(9) a(3) by (cases ys rule: rev_cases) auto
  have r: "remove_elem l a = l\<lparr>cl_elems := e5, cl_first := hdi (xs @ ys) (- 1), cl_last := lasti (- 1) (xs @ ys),
      cl_first_free := int a, cl_len := cl_len l - 1\<rparr>"
    unfolding remove_elem_def Let_def seg(2,3) E1 at(1,2) E2 at(3,4) I(10) e4_def [symmetric] at(5) E5 fi la ..
  have same5: "el_prev (e5 ! i) = el_prev (e2 ! i)" "el_next (e5 ! i) = el_next (e2 ! i)"
    if "i \<in> set (xs @ ys)" for i
  proof -
    have "i \<in> set xs \<or> i \<in> set ys" using that by simp
    then have "i \<noteq> a" "fs \<noteq> [] \<Longrightarrow> i \<noteq> hd fs" using a(2,3,12,13) hd_ys(3) by blast+
    then show "el_prev (e5 ! i) = el_prev (e2 ! i)" "el_next (e5 ! i) = el_next (e2 ! i)"
      using a(1) ne(6) len by (auto simp: e5_def) (auto simp: e4_def)
  qed
  have ysx: "ys \<noteq> [] \<Longrightarrow> hd ys \<notin> set xs" using a(11) hd_ys(1) by blast
  have "dseg e1 (- 1) xs (int a) = dseg ?e (- 1) xs (int a)"
    using ysx ne(4) by (intro dseg_cong) (auto simp: e1_def)
  moreover have "dseg e1 ?p ys (- 1)"
    using dseg_first [OF seg(4) a(9,6)] by (auto simp: e1_def)
  moreover have "xs \<noteq> [] \<Longrightarrow> last xs \<notin> set ys" using a(11) hd_ys(2) by blast
  then have "dseg e2 ?p ys (- 1) = dseg e1 ?p ys (- 1)"
    using ne(5) len(1) by (intro dseg_cong) (auto simp: e2_def)
  ultimately have "dseg e2 (- 1) xs ?n" "dseg e2 ?p ys (- 1)"
    using seg(1) dseg_last [of e1 "- 1" xs "int a" ?n] a(5,8) len(1) by (auto simp: e2_def)
  then have "dseg e2 (- 1) (xs @ ys) (- 1)" by (simp add: dseg_append)
  then have D: "dseg e5 (- 1) (xs @ ys) (- 1)" using dseg_cong [of "xs @ ys" e5 e2] same5 by simp
  have "el_next (e5 ! i) = el_next (?e ! i)" if "i \<in> set fs" for i
  proof -
    have "i \<noteq> a" "xs \<noteq> [] \<Longrightarrow> i \<noteq> last xs" using that a(4,12) hd_ys(2) by blast+
    then show ?thesis using a(1) ne(5) len by (auto simp: e5_def e4_def e2_def) (auto simp: e1_def)
  qed
  then have "fseg e5 fs" using I(7) fseg_cong [of fs e5 ?e] by simp
  moreover have "el_next (e5 ! a) = hdi fs (- 1)" using at(5) ne(3) by (simp add: e5_def)
  ultimately have F: "fseg e5 (a # fs)" by simp
  have "set ((xs @ ys) @ a # fs) = set ((xs @ a # ys) @ fs)" by auto
  then have S: "set ((xs @ ys) @ a # fs) = {..<cl_maxlen l}" using I(4) by simp
  have "distinct ((xs @ ys) @ a # fs)" using I(3) by auto
  then show "cbl_inv (remove_elem l a) (xs @ ys) (a # fs)"
    using D F S I(1,2,5) len(4) unfolding r by (intro cbl_invI [where n = "cl_maxlen l"]) simp_all
  have "el_cb (e1 ! i) = el_cb (?e ! i)" "el_cb (e2 ! i) = el_cb (e1 ! i)" "el_cb (e4 ! i) = el_cb (e2 ! i)"
    "el_cb (e5 ! i) = el_cb (e4 ! i)" for i
    by (simp_all only: e1_def e2_def e4_def e5_def link_upd split: if_split) simp_all
  then have "el_cb (e5 ! i) = el_cb (?e ! i)" for i by simp
  then show "cbl_vals (remove_elem l a) us = cbl_vals l us" unfolding r by (simp add: cbl_vals_def)
qed

section \<open>The list of registered callbacks\<close>

text \<open>Every registered callback with the index its registration returned.\<close>

definition cbl_rep :: "ccd_cblist \<Rightarrow> (nat \<times> ccd_callback) list \<Rightarrow> bool" where
  "cbl_rep l ivs \<longleftrightarrow> (\<exists>fs. cbl_inv l (map fst ivs) fs) \<and> cbl_vals l (map fst ivs) = map snd ivs"

lemma cbl_rep_init: "0 < ml \<Longrightarrow> cbl_rep (init_cblist ml) []"
  using init_cblist_inv by (auto simp: cbl_rep_def cbl_vals_def)

lemma cbl_rep_distinct: "cbl_rep l ivs \<Longrightarrow> distinct (map fst ivs)"
  by (auto simp: cbl_rep_def dest: cbl_invD(3))

lemma cbl_rep_len: "cbl_rep l ivs \<Longrightarrow> cl_len l = length ivs"
  by (auto simp: cbl_rep_def dest: cbl_invD(5))

lemma cbl_rep_append:
  assumes "cbl_rep l ivs"
  shows "fst (append_elem l fn arg pe) \<notin> fst ` set ivs"
    "cbl_rep (snd (append_elem l fn arg pe))
       (ivs @ [(fst (append_elem l fn arg pe), \<lparr>cb_fn = fn, cb_arg = arg, cb_pe = pe\<rparr>)])"
proof -
  from assms obtain fs where inv: "cbl_inv l (map fst ivs) fs" and v: "cbl_vals l (map fst ivs) = map snd ivs"
    by (auto simp: cbl_rep_def)
  obtain a fs' where a: "fst (append_elem l fn arg pe) = a" "a \<notin> set (map fst ivs)"
    "cbl_inv (snd (append_elem l fn arg pe)) (map fst ivs @ [a]) fs'"
    "cbl_vals (snd (append_elem l fn arg pe)) (map fst ivs @ [a]) =
       cbl_vals l (map fst ivs) @ [\<lparr>cb_fn = fn, cb_arg = arg, cb_pe = pe\<rparr>]"
    by (rule append_elem_inv [OF inv])
  show "fst (append_elem l fn arg pe) \<notin> fst ` set ivs" using a(1,2) by simp
  show "cbl_rep (snd (append_elem l fn arg pe))
       (ivs @ [(fst (append_elem l fn arg pe), \<lparr>cb_fn = fn, cb_arg = arg, cb_pe = pe\<rparr>)])"
    using a v by (auto simp: cbl_rep_def)
qed

lemma cbl_rep_remove:
  assumes "cbl_rep l (xs @ (a, c) # ys)"
  shows "cbl_rep (remove_elem l a) (xs @ ys)"
proof -
  from assms obtain fs where inv: "cbl_inv l (map fst xs @ a # map fst ys) fs"
    and v: "cbl_vals l (map fst (xs @ (a, c) # ys)) = map snd (xs @ (a, c) # ys)"
    by (auto simp: cbl_rep_def)
  from v have "cbl_vals l (map fst (xs @ ys)) = map snd (xs @ ys)" by (auto simp: cbl_vals_def)
  then show ?thesis using remove_elem_inv [OF inv] by (auto simp: cbl_rep_def)
qed

lemma cbl_rep_first: "cbl_rep l ((a, c) # ivs) \<Longrightarrow> cl_first l = int a"
  by (auto simp: cbl_rep_def dest: cbl_invD(8))

lemma cbl_rep_remove_n:
  assumes "cbl_rep l ivs" "n \<le> length ivs"
  shows "cbl_rep (remove_n_elems l n) (drop n ivs)"
proof -
  have "n \<le> length ivs \<Longrightarrow> cbl_rep l ivs \<Longrightarrow> cbl_rep (remove_firsts l n) (drop n ivs)" for n l ivs
  proof (induction n arbitrary: l ivs)
    case (Suc n)
    then obtain a c ivs' where i: "ivs = (a, c) # ivs'" by (cases ivs) auto
    have "cbl_rep (remove_elem l a) ivs'" using cbl_rep_remove [of l "[]" a c ivs'] Suc.prems i by simp
    then show ?case using Suc.IH [of ivs'] Suc.prems i cbl_rep_first [of l a c ivs'] by simp
  qed simp
  then show ?thesis using assms cbl_rep_len [OF assms(1)] by (auto simp: remove_n_elems_def)
qed

lemma cbl_rep_next:
  assumes "cbl_rep l (xs @ (a, c) # ys)"
  shows "el_cb (cl_elems l ! a) = c" "ys = (b, d) # zs \<Longrightarrow> el_next (cl_elems l ! a) = int b"
proof -
  from assms obtain fs where inv: "cbl_inv l (map fst xs @ a # map fst ys) fs"
    and v: "cbl_vals l (map fst (xs @ (a, c) # ys)) = map snd (xs @ (a, c) # ys)"
    by (auto simp: cbl_rep_def)
  from v show "el_cb (cl_elems l ! a) = c" by (auto simp: cbl_vals_def)
  show "ys = (b, d) # zs \<Longrightarrow> el_next (cl_elems l ! a) = int b"
    using cbl_invD(6) [OF inv] by (simp add: dseg_append)
qed

lemma cbl_flag [simp]:
  "cl_flag (snd (append_elem l fn arg pe)) = cl_flag l" "cl_flag (remove_elem l i) = cl_flag l"
  "cl_flag (init_cblist n) = False"
  by (simp_all add: append_elem_def expand_cblist_def remove_elem_def init_cblist_def Let_def)

lemma cbl_rep_flag [simp]: "cbl_rep (l\<lparr>cl_flag := b\<rparr>) = cbl_rep l"
  by (simp add: fun_eq_iff cbl_rep_def cbl_inv_def cbl_vals_def)

section \<open>Properties of callback lists\<close>

text \<open>
  C14.  Registering and cancelling callbacks.  Whatever slots the free list reuses and
  however often the array grows, a registration appends the callback to the list under an
  index no live registration has, and cancelling that index later removes exactly that
  callback and keeps the order of the others.
\<close>

theorem append_then_cancel:
  assumes "cbl_rep l ivs" "append_elem l fn arg pe = (a, l1)" "append_elem l1 fn' arg' pe' = (b, l2)"
  shows "a \<notin> fst ` set ivs \<and> b \<notin> insert a (fst ` set ivs) \<and>
    cbl_rep l2 (ivs @ [(a, \<lparr>cb_fn = fn, cb_arg = arg, cb_pe = pe\<rparr>), (b, \<lparr>cb_fn = fn', cb_arg = arg', cb_pe = pe'\<rparr>)]) \<and>
    cbl_rep (remove_elem l2 a) (ivs @ [(b, \<lparr>cb_fn = fn', cb_arg = arg', cb_pe = pe'\<rparr>)])"
proof -
  let ?c = "\<lparr>cb_fn = fn, cb_arg = arg, cb_pe = pe\<rparr>" and ?d = "\<lparr>cb_fn = fn', cb_arg = arg', cb_pe = pe'\<rparr>"
  have 1: "a \<notin> fst ` set ivs" "cbl_rep l1 (ivs @ [(a, ?c)])"
    using cbl_rep_append [OF assms(1), of fn arg pe] assms(2) by simp_all
  have 2: "b \<notin> insert a (fst ` set ivs)" "cbl_rep l2 (ivs @ [(a, ?c), (b, ?d)])"
    using cbl_rep_append [OF 1(2), of fn' arg' pe'] assms(3) by simp_all
  then have "cbl_rep (remove_elem l2 a) (ivs @ [(b, ?d)])"
    using cbl_rep_remove [of l2 ivs a ?c "[(b, ?d)]"] by simp
  with 1 2 show ?thesis by blast
qed

theorem append_then_cancel_witness:
  "\<exists>a l1 b l2. append_elem (init_cblist 8) 5 0 (- 2) = (a, l1) \<and> append_elem l1 6 0 (- 2) = (b, l2) \<and> a \<noteq> b \<and>
     cbl_rep (remove_elem l2 a) [(b, \<lparr>cb_fn = 6, cb_arg = 0, cb_pe = - 2\<rparr>)]"
proof -
  obtain a l1 b l2 where ab: "append_elem (init_cblist 8) 5 0 (- 2) = (a, l1)" "append_elem l1 6 0 (- 2) = (b, l2)"
    by (metis surj_pair)
  from append_then_cancel [OF cbl_rep_init [of 8] ab] ab show ?thesis by auto
qed

end
