(* ===== verification/CcdHeap.thy ===== *)
theory CcdHeap
  imports Binheap Cblist
begin

text \<open>
  The timed callbacks of \<^verbatim>\<open>conv-core/conv-conds.c\<close>: a binary heap in cells \<open>1 \<dots> len\<close> of an
  array of \<open>2 * (max + 1)\<close> cells, whose upper half (from cell \<open>max\<close> on) receives the
  expired entries while they wait to be called.  Times are rationals, so the model has no
  rounding.  The swapping loops of the source are shown to be the hole-moving loops of
  \<open>Binheap\<close>; \<open>hp_id\<close> numbers the allocations of the array, so that a pointer into an array
  that has been replaced can be recognised.
\<close>

section \<open>State and operations\<close>

type_synonym time = rat

record ccd_heap_elem =
  he_time :: time
  he_cb :: ccd_callback

record ccd_heap =
  hp_arr :: "ccd_heap_elem list"
  hp_len :: nat
  hp_max :: nat
  hp_id :: nat

definition MAXTIMERHEAPENTRIES :: nat where "MAXTIMERHEAPENTRIES = 256"

definition no_elem :: ccd_heap_elem where
  "no_elem = \<lparr>he_time = 0, he_cb = no_cb\<rparr>"

definition new_heap :: ccd_heap where
  "new_heap = \<lparr>hp_arr = replicate (2 * (MAXTIMERHEAPENTRIES + 1)) no_elem, hp_len = 0,
     hp_max = MAXTIMERHEAPENTRIES, hp_id = 0\<rparr>"

definition ccd_heap_swap :: "ccd_heap_elem list \<Rightarrow> nat \<Rightarrow> nat \<Rightarrow> ccd_heap_elem list" where
  "ccd_heap_swap h index1 index2 = h[index1 := h ! index2, index2 := h ! index1]"

definition expand_ccd_heap :: "ccd_heap \<Rightarrow> ccd_heap" where
  "expand_ccd_heap s =
     (let oldlen = hp_max s; newlen = oldlen * 2;
          newheap = map (\<lambda>j. if j \<le> oldlen then hp_arr s ! j
                            else if newlen \<le> j \<and> j \<le> newlen + oldlen then hp_arr s ! (j - newlen + oldlen)
                            else no_elem) [0..<2 * (newlen + 1)]
      in s\<lparr>hp_arr := newheap, hp_max := newlen, hp_id := hp_id s + 1\<rparr>)"

function insert_loop :: "ccd_heap_elem list \<Rightarrow> nat \<Rightarrow> ccd_heap_elem list" where
  "insert_loop h child =
     (let parent = child div 2
      in if 0 < parent \<and> he_time (h ! child) < he_time (h ! parent)
         then insert_loop (ccd_heap_swap h child parent) parent else h)"
  by pat_completeness auto
termination
  by (relation "measure snd") auto

definition ccd_heap_insert :: "ccd_heap \<Rightarrow> time \<Rightarrow> ptr \<Rightarrow> ptr \<Rightarrow> int \<Rightarrow> ccd_heap" where
  "ccd_heap_insert s0 t fnp arg pe =
     (let s = (if hp_max s0 \<le> hp_len s0 then expand_ccd_heap s0 else s0);
          child = hp_len s + 1;
          e = \<lparr>he_time = t, he_cb = \<lparr>cb_fn = fnp, cb_arg = arg, cb_pe = pe\<rparr>\<rparr>
      in s\<lparr>hp_len := child, hp_arr := insert_loop ((hp_arr s)[child := e]) child\<rparr>)"

function remove_loop :: "ccd_heap_elem list \<Rightarrow> nat \<Rightarrow> nat \<Rightarrow> ccd_heap_elem list" where
  "remove_loop h len parent =
     (if parent = 0 \<or> len < 2 * parent then h
      else let child = (if 2 * parent + 1 \<le> len \<and> he_time (h ! (2 * parent)) > he_time (h ! (2 * parent + 1))
                        then 2 * parent + 1 else 2 * parent)
           in if he_time (h ! parent) \<le> he_time (h ! child) then h
              else remove_loop (ccd_heap_swap h parent child) len child)"
  by pat_completeness auto
termination
  by (relation "measure (\<lambda>(h, len, parent). len - parent)") (auto split: if_splits)

declare insert_loop.simps [simp del] remove_loop.simps [simp del]

definition ccd_heap_remove :: "ccd_heap \<Rightarrow> ccd_heap" where
  "ccd_heap_remove s =
     (if 0 < hp_len s then
        (let h = ccd_heap_swap (hp_arr s) 1 (hp_len s); len = hp_len s - 1
         in s\<lparr>hp_len := len, hp_arr := (if len \<noteq> 0 then remove_loop h len 1 else h)\<rparr>)
      else s)"

lemma hp_len_remove [simp]: "hp_len (ccd_heap_remove s) = hp_len s - 1"
  by (simp add: ccd_heap_remove_def Let_def)

text \<open>The first loop of \<^verbatim>\<open>ccd_heap_update\<close>: pull out the expired entries.\<close>

function pull_loop :: "ccd_heap \<Rightarrow> time \<Rightarrow> nat \<Rightarrow> ccd_heap \<times> nat" where
  "pull_loop s now ne =
     (if 0 < hp_len s \<and> he_time (hp_arr s ! 1) < now then
        pull_loop (ccd_heap_remove (s\<lparr>hp_arr := (hp_arr s)[hp_max s + ne := hp_arr s ! 1]\<rparr>)) now (ne + 1)
      else (s, ne))"
  by pat_completeness auto
termination
  by (relation "measure (\<lambda>(s, now, ne). hp_len s)") auto

declare pull_loop.simps [simp del]

section \<open>The loops of the source and the loops of Binheap\<close>

abbreviation later :: "ccd_heap_elem \<Rightarrow> ccd_heap_elem \<Rightarrow> bool" where
  "later a b \<equiv> he_time b < he_time a"

abbreviation not_before :: "ccd_heap_elem \<Rightarrow> ccd_heap_elem \<Rightarrow> bool" where
  "not_before a b \<equiv> he_time b \<le> he_time a"

interpretation timer_heap: heap_order he_time later not_before not_before
  by unfold_locales auto

lemma insert_loop_sift:
  "pos < length h \<Longrightarrow> insert_loop (h[pos := e]) pos = sift_up not_before h pos e"
proof (induction pos arbitrary: h rule: less_induct)
  case (less pos)
  let ?p = "pos div 2"
  show ?case
  proof (cases "1 < pos \<and> he_time e < he_time (h ! ?p)")
    case True
    then have p: "?p < pos" "0 < ?p" "?p < length h" "?p \<noteq> pos" using less.prems by auto
    have "insert_loop (h[pos := e]) pos = insert_loop (ccd_heap_swap (h[pos := e]) pos ?p) ?p"
      using True p less.prems by (subst insert_loop.simps) (simp add: Let_def)
    also have "ccd_heap_swap (h[pos := e]) pos ?p = (h[pos := h ! ?p])[?p := e]"
      using p less.prems by (simp add: ccd_heap_swap_def)
    also have "insert_loop \<dots> ?p = sift_up not_before (h[pos := h ! ?p]) ?p e"
      using p by (intro less.IH) simp_all
    finally show ?thesis using True by (subst sift_up.simps) (simp add: Let_def not_le)
  next
    case False
    have "?p \<noteq> pos \<or> pos = 0" by auto
    then have "\<not> (0 < ?p \<and> he_time e < he_time (h[pos := e] ! ?p))" using False by auto
    then have "insert_loop (h[pos := e]) pos = h[pos := e]"
      using less.prems by (subst insert_loop.simps) (auto simp: Let_def)
    then show ?thesis using False by (subst sift_up.simps) (auto simp: Let_def not_le)
  qed
qed

lemma remove_loop_sift:
  "pos < length h \<Longrightarrow> len < length h \<Longrightarrow> pos \<noteq> 0 \<Longrightarrow>
   remove_loop (h[pos := e]) len pos = sift_down later not_before h (Suc len) pos e"
proof (induction "len - pos" arbitrary: h pos rule: less_induct)
  case less
  show ?case
  proof (cases "len < 2 * pos")
    case True
    then show ?thesis by (subst remove_loop.simps, subst sift_down.simps) auto
  next
    case False
    define c where "c = smaller_child later h (Suc len) pos"
    have c: "pos < c" "c \<le> len" "c \<noteq> 0" using False less.prems(3) by (auto simp: c_def smaller_child_def)
    have ch: "(if 2 * pos + 1 \<le> len \<and> he_time (h[pos := e] ! (2 * pos)) > he_time (h[pos := e] ! (2 * pos + 1))
        then 2 * pos + 1 else 2 * pos) = c"
      using less.prems(3) by (auto simp: c_def smaller_child_def)
    have hc: "h[pos := e] ! c = h ! c" "h[pos := e] ! pos = e" using c less.prems by auto
    have L: "remove_loop (h[pos := e]) len pos =
        (if he_time e \<le> he_time (h ! c) then h[pos := e]
         else remove_loop (ccd_heap_swap (h[pos := e]) pos c) len c)"
      using False less.prems(3) ch hc by (subst remove_loop.simps) (simp add: Let_def)
    have "ccd_heap_swap (h[pos := e]) pos c = (h[pos := h ! c])[c := e]"
      using c less.prems hc by (simp add: ccd_heap_swap_def)
    then have "remove_loop (ccd_heap_swap (h[pos := e]) pos c) len c
        = sift_down later not_before (h[pos := h ! c]) (Suc len) c e"
      using less.hyps [of c "h[pos := h ! c]"] c less.prems False by simp
    then show ?thesis using L False less.prems(3) c_def
      by (subst sift_down.simps) (simp add: Let_def)
  qed
qed

section \<open>Invariant and effect of the operations\<close>

definition timers :: "ccd_heap \<Rightarrow> ccd_heap_elem list" where
  "timers s = heap_elems (hp_arr s) (Suc (hp_len s))"

definition timer_wf :: "ccd_heap \<Rightarrow> bool" where
  "timer_wf s \<longleftrightarrow>
     length (hp_arr s) = 2 * (hp_max s + 1) \<and> hp_len s \<le> hp_max s \<and> 0 < hp_max s \<and>
     heap_ord he_time (hp_arr s) (Suc (hp_len s))"

lemma timer_wf_new: "timer_wf new_heap" "timers new_heap = []"
  by (simp_all add: timer_wf_def timers_def new_heap_def MAXTIMERHEAPENTRIES_def heap_ord_def heap_elems_def)

lemma timers_length: "timer_wf s \<Longrightarrow> length (timers s) = hp_len s"
  by (simp add: timers_def timer_wf_def)

lemma heap_elems_cong:
  assumes "n \<le> length h" "n \<le> length h'" "\<And>i. 1 \<le> i \<Longrightarrow> i < n \<Longrightarrow> h ! i = h' ! i"
  shows "heap_elems h n = heap_elems h' n"
  using assms by (intro nth_equalityI) (auto simp: nth_heap_elems)

lemma expand_wf:
  assumes "timer_wf s"
  shows "timer_wf (expand_ccd_heap s)" "timers (expand_ccd_heap s) = timers s"
    "hp_len (expand_ccd_heap s) = hp_len s" "hp_max (expand_ccd_heap s) = 2 * hp_max s"
proof -
  let ?s = "expand_ccd_heap s"
  show f: "hp_len ?s = hp_len s" "hp_max ?s = 2 * hp_max s" by (simp_all add: expand_ccd_heap_def Let_def)
  have l: "length (hp_arr ?s) = 2 * (hp_max ?s + 1)" by (simp add: expand_ccd_heap_def Let_def)
  have e: "hp_arr ?s ! i = hp_arr s ! i" if "i \<le> hp_max s" for i
  proof -
    have "i < 2 * (hp_max s * 2 + 1)" using that by simp
    then show ?thesis using that by (simp add: expand_ccd_heap_def Let_def del: upt_Suc)
  qed
  have "heap_ord he_time (hp_arr ?s) (Suc (hp_len s)) = heap_ord he_time (hp_arr s) (Suc (hp_len s))"
    using assms e by (intro heap_ord_cong) (simp add: timer_wf_def)
  then show "timer_wf ?s" using assms f l by (simp add: timer_wf_def)
  show "timers ?s = timers s"
    unfolding timers_def f using assms e l f by (intro heap_elems_cong) (auto simp: timer_wf_def)
qed

lemma insert_ok:
  fixes t :: time and fnp arg :: ptr and pe :: int
  assumes wf: "timer_wf s"
  defines "s' \<equiv> ccd_heap_insert s t fnp arg pe"
    and "e \<equiv> \<lparr>he_time = t, he_cb = \<lparr>cb_fn = fnp, cb_arg = arg, cb_pe = pe\<rparr>\<rparr>"
  shows "timer_wf s'" "mset (timers s') = add_mset e (mset (timers s))"
proof -
  define s1 where "s1 = (if hp_max s \<le> hp_len s then expand_ccd_heap s else s)"
  have s1: "timer_wf s1" "timers s1 = timers s" "hp_len s1 < hp_max s1"
    using wf expand_wf [OF wf] by (auto simp: s1_def timer_wf_def)
  let ?n = "hp_len s1 + 1"
  have n: "?n < length (hp_arr s1)" "heap_ord he_time (hp_arr s1) ?n" using s1 by (auto simp: timer_wf_def)
  have s': "hp_arr s' = sift_up not_before (hp_arr s1) ?n e" "hp_len s' = ?n" "hp_max s' = hp_max s1"
    using insert_loop_sift [OF n(1), of e] by (simp_all add: s'_def ccd_heap_insert_def Let_def s1_def e_def)
  show "timer_wf s'"
    using timer_heap.sift_up_ord [OF n(2) _ n(1), of e] s1 by (auto simp: timer_wf_def s')
  show "mset (timers s') = add_mset e (mset (timers s))"
    using timer_heap.sift_up_elems [OF _ n(1), of e] s1(2) by (simp add: timers_def s')
qed

lemma remove_ok:
  assumes wf: "timer_wf s" and ne: "0 < hp_len s"
  defines "s' \<equiv> ccd_heap_remove s"
  shows "timer_wf s'" "mset (timers s) = add_mset (hp_arr s ! 1) (mset (timers s'))"
    "hp_max s' = hp_max s" "hp_id s' = hp_id s" "\<And>i. hp_len s < i \<Longrightarrow> hp_arr s' ! i = hp_arr s ! i"
    "length (hp_arr s') = length (hp_arr s)"
proof -
  let ?n = "hp_len s" and ?h = "hp_arr s"
  let ?g = "?h[?n := ?h ! 1]"
  have n: "1 \<le> ?n" "?n < length ?h" "1 < length ?h" using wf ne by (auto simp: timer_wf_def)
  have ord: "heap_ord he_time ?h (Suc ?n)" using wf by (simp add: timer_wf_def)
  have sw: "ccd_heap_swap ?h 1 ?n = ?g[1 := ?h ! ?n]"
    using n by (cases "?n = 1") (auto simp: ccd_heap_swap_def list_update_swap)
  have arr: "hp_arr s' = sift_down later not_before ?g ?n 1 (?h ! ?n)"
  proof (cases "?n = 1")
    case True
    then show ?thesis using ne sw
      by (subst sift_down.simps) (simp add: s'_def ccd_heap_remove_def Let_def)
  next
    case False
    then have "Suc (?n - 1) = ?n" "?n - 1 \<noteq> 0" using n by auto
    then show ?thesis using remove_loop_sift [of 1 ?g "?n - 1" "?h ! ?n"] n ne sw
      by (simp add: s'_def ccd_heap_remove_def Let_def del: One_nat_def)
  qed
  show f: "hp_max s' = hp_max s" "hp_id s' = hp_id s" "length (hp_arr s') = length ?h"
    by (simp_all add: arr) (simp_all add: s'_def ccd_heap_remove_def Let_def)
  have len: "hp_len s' = ?n - 1" by (simp add: s'_def)
  have "heap_ord he_time ?g ?n = heap_ord he_time ?h ?n" by (intro heap_ord_cong) auto
  then have og: "heap_ord he_time ?g ?n" using ord by (auto simp: heap_ord_def)
  then have "heap_ord he_time (hp_arr s') (Suc (hp_len s'))"
    using timer_heap.sift_down_ord [OF og, of "?h ! ?n"] n len by (simp add: arr)
  then show "timer_wf s'" using wf f len by (auto simp: timer_wf_def)
  show "mset (timers s) = add_mset (?h ! 1) (mset (timers s'))"
  proof (cases "?n = 1")
    case True
    then have "timers s = [?h ! 1]" "timers s' = []"
      using n(2) len heap_elems_snoc [of 1 ?h "?h ! 1"] by (simp_all add: timers_def heap_elems_def)
    then show ?thesis by simp
  next
    case False
    have "hp_arr s' = (sift_down later not_before ?h ?n 1 (?h ! ?n))[?n := ?h ! 1]"
      unfolding arr using n False by (intro sift_down_upd) auto
    then have "timers s' = heap_elems (sift_down later not_before ?h ?n 1 (?h ! ?n)) ?n"
      using n len by (simp add: timers_def heap_elems_upd)
    then have "mset (timers s') = mset (timers s) - {#?h ! 1#}"
      using timer_heap.sift_down_elems [OF n(1,2)] by (simp add: timers_def)
    moreover have "?h ! 1 \<in> set (timers s)" using n by (auto simp: timers_def set_heap_elems)
    ultimately show ?thesis by simp
  qed
  show "hp_arr s' ! i = ?h ! i" if "?n < i" for i
    using that n by (simp add: arr sift_down_beyond)
qed

lemma root_least:
  assumes "timer_wf s" "e \<in> set (timers s)"
  shows "he_time (hp_arr s ! 1) \<le> he_time e"
  using assms heap_ord_root_min [of he_time "hp_arr s" "Suc (hp_len s)" e] by (auto simp: timer_wf_def timers_def)

text \<open>
  One round of the pull loop: the root goes to the waiting area and leaves the heap.  The
  waiting area must not overlap the heap.
\<close>

lemma pull_step:
  assumes wf: "timer_wf s" and ne: "0 < hp_len s" and sep: "hp_len s < hp_max s + ne" "ne + hp_len s \<le> hp_max s"
  defines "s1 \<equiv> ccd_heap_remove (s\<lparr>hp_arr := (hp_arr s)[hp_max s + ne := hp_arr s ! 1]\<rparr>)"
  shows "timer_wf s1" "mset (timers s) = add_mset (hp_arr s ! 1) (mset (timers s1))"
    "hp_max s1 = hp_max s" "hp_id s1 = hp_id s" "hp_arr s1 ! (hp_max s + ne) = hp_arr s ! 1"
    "\<And>i. hp_len s < i \<Longrightarrow> i \<noteq> hp_max s + ne \<Longrightarrow> hp_arr s1 ! i = hp_arr s ! i"
proof -
  let ?s0 = "s\<lparr>hp_arr := (hp_arr s)[hp_max s + ne := hp_arr s ! 1]\<rparr>"
  have k: "hp_max s + ne < length (hp_arr s)" using wf sep ne by (auto simp: timer_wf_def)
  have "heap_ord he_time (hp_arr ?s0) (Suc (hp_len s)) = heap_ord he_time (hp_arr s) (Suc (hp_len s))"
    using sep by (intro heap_ord_cong) auto
  then have wf0: "timer_wf ?s0" using wf by (simp add: timer_wf_def)
  have t0: "timers ?s0 = timers s" using sep by (simp add: timers_def heap_elems_upd)
  have r0: "hp_arr ?s0 ! 1 = hp_arr s ! 1" using sep ne by auto
  have "0 < hp_len ?s0" using ne by simp
  note R = remove_ok [OF wf0 this, folded s1_def]
  show "timer_wf s1" "mset (timers s) = add_mset (hp_arr s ! 1) (mset (timers s1))"
    "hp_max s1 = hp_max s" "hp_id s1 = hp_id s" using R(1-4) t0 r0 by simp_all
  show "hp_arr s1 ! (hp_max s + ne) = hp_arr s ! 1" using R(5) [of "hp_max s + ne"] sep k by simp
  show "hp_arr s1 ! i = hp_arr s ! i" if "hp_len s < i" "i \<noteq> hp_max s + ne" for i
    using R(5) [of i] that by simp
qed

lemma pull_loop_ok:
  assumes "timer_wf s" "hp_len s < hp_max s + ne" "ne + hp_len s \<le> hp_max s"
  shows "\<exists>s' es. pull_loop s now ne = (s', ne + length es) \<and> timer_wf s' \<and> hp_max s' = hp_max s \<and>
    hp_id s' = hp_id s \<and> mset (timers s) = mset es + mset (timers s') \<and>
    sorted (map he_time es) \<and> (\<forall>e \<in> set es. he_time e < now) \<and> (\<forall>e \<in> set (timers s'). now \<le> he_time e) \<and>
    (\<forall>i < length es. hp_arr s' ! (hp_max s + ne + i) = es ! i) \<and>
    (\<forall>i < ne. hp_len s < hp_max s + i \<longrightarrow> hp_arr s' ! (hp_max s + i) = hp_arr s ! (hp_max s + i))"
  using assms
proof (induction "hp_len s" arbitrary: s ne)
  case 0
  then have "timers s = []" using timers_length [of s] by simp
  moreover have "pull_loop s now ne = (s, ne)" using 0(1) by (subst pull_loop.simps) simp
  ultimately show ?case using 0 by (intro exI [of _ s] exI [of _ "[]"]) simp
next
  case (Suc n)
  show ?case
  proof (cases "he_time (hp_arr s ! 1) < now")
    case False
    then have "pull_loop s now ne = (s, ne)" by (subst pull_loop.simps) simp
    moreover have "now \<le> he_time e" if "e \<in> set (timers s)" for e
      using root_least [OF Suc.prems(1) that] False by simp
    ultimately show ?thesis using Suc.prems by (intro exI [of _ s] exI [of _ "[]"]) simp
  next
    case True
    have pos: "0 < hp_len s" using Suc.hyps(2) by simp
    let ?s1 = "ccd_heap_remove (s\<lparr>hp_arr := (hp_arr s)[hp_max s + ne := hp_arr s ! 1]\<rparr>)"
    note P = pull_step [OF Suc.prems(1) pos Suc.prems(2,3)]
    have l1: "hp_len ?s1 = n" using Suc.hyps(2) by simp
    have step: "pull_loop s now ne = pull_loop ?s1 now (ne + 1)"
      using True pos by (subst pull_loop.simps) simp
    have "\<exists>s' es. pull_loop ?s1 now (ne + 1) = (s', ne + 1 + length es) \<and> timer_wf s' \<and> hp_max s' = hp_max ?s1 \<and>
        hp_id s' = hp_id ?s1 \<and> mset (timers ?s1) = mset es + mset (timers s') \<and>
        sorted (map he_time es) \<and> (\<forall>e \<in> set es. he_time e < now) \<and> (\<forall>e \<in> set (timers s'). now \<le> he_time e) \<and>
        (\<forall>i < length es. hp_arr s' ! (hp_max ?s1 + (ne + 1) + i) = es ! i) \<and>
        (\<forall>i < ne + 1. hp_len ?s1 < hp_max ?s1 + i \<longrightarrow> hp_arr s' ! (hp_max ?s1 + i) = hp_arr ?s1 ! (hp_max ?s1 + i))"
      using P(1,3) Suc.prems(2,3) Suc.hyps(2) l1 by (intro Suc.hyps(1)) auto
    then obtain s' es where s': "pull_loop s now ne = (s', ne + 1 + length es)" "timer_wf s'" "hp_max s' = hp_max s"
      "hp_id s' = hp_id s" "mset (timers ?s1) = mset es + mset (timers s')" "sorted (map he_time es)"
      "\<forall>e \<in> set es. he_time e < now" "\<forall>e \<in> set (timers s'). now \<le> he_time e"
      "\<forall>i < length es. hp_arr s' ! (hp_max s + (ne + 1) + i) = es ! i"
      "\<forall>i < ne + 1. n < hp_max s + i \<longrightarrow> hp_arr s' ! (hp_max s + i) = hp_arr ?s1 ! (hp_max s + i)"
      unfolding step P(3,4) l1 by blast
    let ?r = "hp_arr s ! 1"
    have ms: "mset (timers s) = mset (?r # es) + mset (timers s')" using P(2) s'(5) by simp
    have "set es \<subseteq> set (timers s)" using ms by (metis mset_subset_eq_add_left set_mset_mono set_mset_mset mset.simps(2) set_subset_Cons subset_trans)
    then have srt: "sorted (map he_time (?r # es))" using s'(6) root_least [OF Suc.prems(1)] by auto
    have kept: "hp_arr s' ! (hp_max s + ne) = ?r"
      using s'(10) P(5) Suc.prems(2) Suc.hyps(2) by simp
    have "hp_arr s' ! (hp_max s + ne + i) = (?r # es) ! i" if "i < length (?r # es)" for i
      using kept s'(9) that by (cases i) (simp_all add: add.assoc)
    moreover have "hp_arr s' ! (hp_max s + i) = hp_arr s ! (hp_max s + i)"
      if "i < ne" "hp_len s < hp_max s + i" for i
      using s'(10) P(6) [of "hp_max s + i"] that Suc.hyps(2) by simp
    ultimately show ?thesis using s' ms srt True by (intro exI [of _ s'] exI [of _ "?r # es"]) simp
  qed
qed

lemma pull_loop_first:
  assumes wf: "timer_wf s" and ne: "0 < hp_len s" and sep: "hp_len s < hp_max s + ne" "ne + hp_len s \<le> hp_max s"
    and due: "he_time (hp_arr s ! 1) < now"
  shows "ne < snd (pull_loop s now ne)" "hp_arr (fst (pull_loop s now ne)) ! (hp_max s + ne) = hp_arr s ! 1"
proof -
  define s1 where "s1 = ccd_heap_remove (s\<lparr>hp_arr := (hp_arr s)[hp_max s + ne := hp_arr s ! 1]\<rparr>)"
  note P = pull_step [OF wf ne sep, folded s1_def]
  have step: "pull_loop s now ne = pull_loop s1 now (ne + 1)"
    using due ne by (subst pull_loop.simps) (simp add: s1_def)
  have l1: "hp_len s1 < hp_len s" using ne by (simp add: s1_def)
  then have "hp_len s1 < hp_max s1 + (ne + 1)" "ne + 1 + hp_len s1 \<le> hp_max s1" using P(3) sep by auto
  from pull_loop_ok [OF P(1) this, of now] obtain s' and es :: "ccd_heap_elem list" where s': "pull_loop s now ne = (s', ne + 1 + length es)"
    "\<forall>i < ne + 1. hp_len s1 < hp_max s + i \<longrightarrow> hp_arr s' ! (hp_max s + i) = hp_arr s1 ! (hp_max s + i)"
    unfolding P(3) step [symmetric] by blast
  show "ne < snd (pull_loop s now ne)" using s'(1) by simp
  show "hp_arr (fst (pull_loop s now ne)) ! (hp_max s + ne) = hp_arr s ! 1" using s' P(5) sep(1) l1 by simp
qed

text \<open>
  The same loop when the heap fills its array: the first write into the waiting area hits
  the last heap cell, so the root is pulled twice and the last entry is gone.
\<close>

lemma pull_full_step:
  assumes wf: "timer_wf s" and full: "hp_len s = hp_max s" and two: "1 < hp_len s" and due: "he_time (hp_arr s ! 1) < now"
  defines "s1 \<equiv> s\<lparr>hp_arr := (hp_arr s)[hp_max s := hp_arr s ! 1], hp_len := hp_len s - 1\<rparr>"
  shows "pull_loop s now 0 = pull_loop s1 now 1" "timer_wf s1"
    "mset (timers s) = add_mset (hp_arr s ! hp_len s) (mset (timers s1))"
proof -
  let ?n = "hp_len s" and ?h = "(hp_arr s)[hp_max s := hp_arr s ! 1]"
  have n: "?n < length (hp_arr s)" using wf full by (simp add: timer_wf_def)
  have ord: "heap_ord he_time (hp_arr s) (Suc ?n)" using wf by (simp add: timer_wf_def)
  have "?h ! 1 = ?h ! ?n" using n two full by simp
  then have sw: "ccd_heap_swap ?h 1 ?n = ?h"
    unfolding ccd_heap_swap_def by (metis list_update_id)
  have le: "he_time (hp_arr s ! 1) \<le> he_time (hp_arr s ! i)" if "1 \<le> i" "i \<le> ?n" for i
  proof -
    have "hp_arr s ! i \<in> set (timers s)" using that n by (auto simp: timers_def set_heap_elems)
    then show ?thesis by (rule root_least [OF wf])
  qed
  have "?h ! i = (if i = ?n then hp_arr s ! 1 else hp_arr s ! i)" for i
    using full n by (auto simp: nth_list_update)
  then have "remove_loop ?h (?n - 1) 1 = ?h"
    using two le [of 2] le [of 3] by (subst remove_loop.simps) (auto simp: Let_def numeral_3_eq_3)
  then have "ccd_heap_remove (s\<lparr>hp_arr := ?h\<rparr>) = s1"
    using two sw unfolding ccd_heap_remove_def Let_def by (simp add: s1_def del: One_nat_def)
  then show "pull_loop s now 0 = pull_loop s1 now 1"
    using due two by (subst pull_loop.simps) simp
  have "heap_ord he_time ?h ?n = heap_ord he_time (hp_arr s) ?n"
    using full by (intro heap_ord_cong) auto
  then show "timer_wf s1" using wf ord two by (auto simp: timer_wf_def s1_def heap_ord_def)
  have "timers s1 = heap_elems (hp_arr s) ?n"
    using two full by (simp add: timers_def s1_def heap_elems_upd)
  moreover have "timers s = heap_elems (hp_arr s) ?n @ [hp_arr s ! ?n]"
    using n two heap_elems_snoc [of ?n "hp_arr s" "hp_arr s ! ?n"] by (simp add: timers_def)
  ultimately show "mset (timers s) = add_mset (hp_arr s ! ?n) (mset (timers s1))" by simp
qed

definition waiting_kept :: "ccd_heap \<Rightarrow> ccd_heap \<Rightarrow> bool" where
  "waiting_kept h h' \<longleftrightarrow> hp_id h' = hp_id h \<and> hp_max h' = hp_max h \<and> (\<forall>i > hp_max h. hp_arr h' ! i = hp_arr h ! i)"

lemma insert_keeps_waiting:
  assumes "timer_wf h" "hp_len h < hp_max h"
  shows "waiting_kept h (ccd_heap_insert h t fnp arg pe)"
proof -
  let ?e = "\<lparr>he_time = t, he_cb = \<lparr>cb_fn = fnp, cb_arg = arg, cb_pe = pe\<rparr>\<rparr>"
  have n: "hp_len h + 1 < length (hp_arr h)" using assms by (simp add: timer_wf_def)
  have "hp_arr (ccd_heap_insert h t fnp arg pe) = sift_up not_before (hp_arr h) (hp_len h + 1) ?e"
    using assms(2) insert_loop_sift [OF n, of ?e] by (simp add: ccd_heap_insert_def Let_def)
  then show ?thesis using assms(2) by (auto simp: waiting_kept_def sift_up_beyond) (auto simp: ccd_heap_insert_def Let_def)
qed

end
