(* ===== verification/Ccd.thy ===== *)
theory Ccd
  imports CcdHeap
begin

text \<open>
  The module \<^verbatim>\<open>conv-core/conv-conds.c\<close> itself: callbacks on conditions, timed callbacks and
  the periodic conditions.  A callback is code of the caller; \<open>run cb t s\<close> is the state after
  calling \<open>cb\<close> at wall time \<open>t\<close> and may use every operation of the module.  The state record is
  extensible, so that \<open>run\<close> also sees whatever else the program keeps.  \<open>clk\<close> is the sequence of
  the readings of \<^verbatim>\<open>CmiWallTimer\<close>.  A read outside an array or through a pointer to a freed
  array gives \<open>None\<close>.  \<^verbatim>\<open>CmiSwitchToPE\<close> is the identity in this build
  (\<^verbatim>\<open>conv-core/converse.h\<close>, line 1680).
\<close>

section \<open>State\<close>

definition CBLIST_INIT_LEN :: nat where "CBLIST_INIT_LEN = 8"
definition MAXNUMCONDS :: nat where "MAXNUMCONDS = 512"
definition CCD_PERIODIC_MAX :: nat where "CCD_PERIODIC_MAX = 13"
definition CcdPROCESSOR_END_IDLE :: nat where "CcdPROCESSOR_END_IDLE = 0"
definition CcdPROCESSOR_BEGIN_IDLE :: nat where "CcdPROCESSOR_BEGIN_IDLE = 1"
definition CcdPERIODIC :: nat where "CcdPERIODIC = 16"
definition CcdIGNOREPE :: int where "CcdIGNOREPE = - 2"

definition periodicCallInterval :: "time list" where
  "periodicCallInterval =
     [1/1000, 1/100, 1/10, 1, 5, 10, 60, 2*60, 5*60, 10*60, 3600, 12*3600, 24*3600]"

record ccd =
  condcb :: "ccd_cblist list"
  condcb_keep :: "ccd_cblist list"
  tmr :: ccd_heap
  nSkip :: u32
  lastCheck :: time
  nextCall :: "time list"
  numchecks :: u32
  clk :: "nat \<Rightarrow> time"
  clk_reads :: nat

type_synonym 'w runner = "ccd_callback \<Rightarrow> time \<Rightarrow> 'w ccd_scheme \<Rightarrow> 'w ccd_scheme"

definition CmiWallTimer :: "'w ccd_scheme \<Rightarrow> time \<times> 'w ccd_scheme" where
  "CmiWallTimer s = (clk s (clk_reads s), s\<lparr>clk_reads := clk_reads s + 1\<rparr>)"

section \<open>Calling the callbacks of a list\<close>

text \<open>The loop of both calling routines; \<open>get\<close> reads the list from the state.\<close>

fun call_loop :: "'w runner \<Rightarrow> ('w ccd_scheme \<Rightarrow> ccd_cblist) \<Rightarrow> time \<Rightarrow> nat \<Rightarrow> int \<Rightarrow> 'w ccd_scheme \<Rightarrow> 'w ccd_scheme option" where
  "call_loop run get t 0 idx s = Some s"
| "call_loop run get t (Suc n) idx s =
     (if idx < 0 \<or> int (length (cl_elems (get s))) \<le> idx then None
      else let s1 = run (el_cb (cl_elems (get s) ! nat idx)) t s
           in if int (length (cl_elems (get s1))) \<le> idx then None
              else call_loop run get t n (el_next (cl_elems (get s1) ! nat idx)) s1)"

definition call_cblist_keep :: "'w runner \<Rightarrow> nat \<Rightarrow> time \<Rightarrow> 'w ccd_scheme \<Rightarrow> 'w ccd_scheme option" where
  "call_cblist_keep run c t s =
     call_loop run (\<lambda>s. condcb_keep s ! c) t (cl_len (condcb_keep s ! c)) (cl_first (condcb_keep s ! c)) s"

definition upd_condcb :: "nat \<Rightarrow> (ccd_cblist \<Rightarrow> ccd_cblist) \<Rightarrow> 'w ccd_scheme \<Rightarrow> 'w ccd_scheme" where
  "upd_condcb c f s = s\<lparr>condcb := (condcb s)[c := f (condcb s ! c)]\<rparr>"

definition call_cblist_remove :: "'w runner \<Rightarrow> nat \<Rightarrow> time \<Rightarrow> 'w ccd_scheme \<Rightarrow> 'w ccd_scheme option" where
  "call_cblist_remove run c t s =
     (let l = condcb s ! c; len = cl_len l
      in if cl_flag l then Some s
         else case call_loop run (\<lambda>s. condcb s ! c) t len (cl_first l)
                     (upd_condcb c (\<lambda>l. l\<lparr>cl_flag := True\<rparr>) s) of
             None \<Rightarrow> None
           | Some s1 \<Rightarrow> Some (upd_condcb c (\<lambda>l. (remove_n_elems l len)\<lparr>cl_flag := False\<rparr>) s1))"

section \<open>Registration\<close>

definition CcdCallOnConditionOnPE :: "nat \<Rightarrow> ptr \<Rightarrow> ptr \<Rightarrow> int \<Rightarrow> 'w ccd_scheme \<Rightarrow> nat \<times> 'w ccd_scheme" where
  "CcdCallOnConditionOnPE condnum fnp arg pe s =
     (let (i, l) = append_elem (condcb s ! condnum) fnp arg pe in (i, s\<lparr>condcb := (condcb s)[condnum := l]\<rparr>))"

definition CcdCallOnCondition :: "nat \<Rightarrow> ptr \<Rightarrow> ptr \<Rightarrow> 'w ccd_scheme \<Rightarrow> nat \<times> 'w ccd_scheme" where
  "CcdCallOnCondition condnum fnp arg s =
     (let (i, l) = append_elem (condcb s ! condnum) fnp arg CcdIGNOREPE in (i, s\<lparr>condcb := (condcb s)[condnum := l]\<rparr>))"

definition CcdCallOnConditionKeepOnPE :: "nat \<Rightarrow> ptr \<Rightarrow> ptr \<Rightarrow> int \<Rightarrow> 'w ccd_scheme \<Rightarrow> nat \<times> 'w ccd_scheme" where
  "CcdCallOnConditionKeepOnPE condnum fnp arg pe s =
     (let (i, l) = append_elem (condcb_keep s ! condnum) fnp arg pe in (i, s\<lparr>condcb_keep := (condcb_keep s)[condnum := l]\<rparr>))"

definition CcdCallOnConditionKeep :: "nat \<Rightarrow> ptr \<Rightarrow> ptr \<Rightarrow> 'w ccd_scheme \<Rightarrow> nat \<times> 'w ccd_scheme" where
  "CcdCallOnConditionKeep condnum fnp arg s =
     (let (i, l) = append_elem (condcb_keep s ! condnum) fnp arg CcdIGNOREPE in (i, s\<lparr>condcb_keep := (condcb_keep s)[condnum := l]\<rparr>))"

definition CcdCancelCallOnCondition :: "nat \<Rightarrow> nat \<Rightarrow> 'w ccd_scheme \<Rightarrow> 'w ccd_scheme" where
  "CcdCancelCallOnCondition condnum idx s =
     s\<lparr>condcb := (condcb s)[condnum := remove_elem (condcb s ! condnum) idx]\<rparr>"

definition CcdCancelCallOnConditionKeep :: "nat \<Rightarrow> nat \<Rightarrow> 'w ccd_scheme \<Rightarrow> 'w ccd_scheme" where
  "CcdCancelCallOnConditionKeep condnum idx s =
     s\<lparr>condcb_keep := (condcb_keep s)[condnum := remove_elem (condcb_keep s ! condnum) idx]\<rparr>"

definition CcdCallFnAfterOnPE :: "ptr \<Rightarrow> ptr \<Rightarrow> time \<Rightarrow> int \<Rightarrow> 'w ccd_scheme \<Rightarrow> 'w ccd_scheme" where
  "CcdCallFnAfterOnPE fnp arg deltaT pe s =
     (let (ctime, s1) = CmiWallTimer s; tcall = ctime + deltaT / 1000
      in s1\<lparr>tmr := ccd_heap_insert (tmr s1) tcall fnp arg pe\<rparr>)"

definition CcdCallFnAfter :: "ptr \<Rightarrow> ptr \<Rightarrow> time \<Rightarrow> 'w ccd_scheme \<Rightarrow> 'w ccd_scheme" where
  "CcdCallFnAfter fnp arg deltaT s = CcdCallFnAfterOnPE fnp arg deltaT CcdIGNOREPE s"

section \<open>Initialisation, raising and the periodic check\<close>

text \<open>The callback installed on the begin and end of idleness.\<close>

definition CcdCallBacksReset :: "time \<Rightarrow> 'w ccd_scheme \<Rightarrow> 'w ccd_scheme" where
  "CcdCallBacksReset curWallTime s = s\<lparr>numchecks := 1, nSkip := 1, lastCheck := curWallTime\<rparr>"

text \<open>\<open>reset\<close> is the address of \<^verbatim>\<open>CcdCallBacksReset\<close>.\<close>

definition CcdModuleInit :: "ptr \<Rightarrow> 'w ccd_scheme \<Rightarrow> 'w ccd_scheme" where
  "CcdModuleInit reset s0 =
     (let s1 = s0\<lparr>tmr := new_heap, condcb := replicate MAXNUMCONDS (init_cblist CBLIST_INIT_LEN),
                  condcb_keep := replicate MAXNUMCONDS (init_cblist CBLIST_INIT_LEN), numchecks := 1, nSkip := 1\<rparr>;
          (curTime, s2) = CmiWallTimer s1;
          s3 = s2\<lparr>lastCheck := curTime,
                  nextCall := map (\<lambda>i. curTime + periodicCallInterval ! i) [0..<CCD_PERIODIC_MAX]\<rparr>;
          s4 = snd (CcdCallOnConditionKeep CcdPROCESSOR_BEGIN_IDLE reset 0 s3)
      in snd (CcdCallOnConditionKeep CcdPROCESSOR_END_IDLE reset 0 s4))"

definition CcdRaiseCondition :: "'w runner \<Rightarrow> nat \<Rightarrow> 'w ccd_scheme \<Rightarrow> 'w ccd_scheme option" where
  "CcdRaiseCondition run condnum s =
     (let (curWallTime, s1) = CmiWallTimer s
      in case call_cblist_remove run condnum curWallTime s1 of
           None \<Rightarrow> None
         | Some s2 \<Rightarrow> call_cblist_keep run condnum curWallTime s2)"

text \<open>The second loop of \<^verbatim>\<open>ccd_heap_update\<close>: \<open>e\<close> points into the array numbered \<open>hid\<close>.\<close>

fun heap_calls :: "'w runner \<Rightarrow> time \<Rightarrow> nat \<Rightarrow> nat \<Rightarrow> nat \<Rightarrow> 'w ccd_scheme \<Rightarrow> 'w ccd_scheme option" where
  "heap_calls run now hid e 0 s = Some s"
| "heap_calls run now hid e (Suc k) s =
     (if hp_id (tmr s) \<noteq> hid then None
      else heap_calls run now hid (e + 1) k (run (he_cb (hp_arr (tmr s) ! e)) now s))"

definition ccd_heap_update :: "'w runner \<Rightarrow> time \<Rightarrow> 'w ccd_scheme \<Rightarrow> 'w ccd_scheme option" where
  "ccd_heap_update run curWallTime s =
     (let e = hp_max (tmr s); (h, ne) = pull_loop (tmr s) curWallTime 0
      in heap_calls run curWallTime (hp_id (tmr s)) e ne (s\<lparr>tmr := h\<rparr>))"

definition minSkip :: u32 where "minSkip = 1"
definition maxSkip :: u32 where "maxSkip = 20"
definition targetElapsed :: time where "targetElapsed = 5 / 1000"

definition adjust_skip :: "time \<Rightarrow> u32 \<Rightarrow> u32" where
  "adjust_skip elapsed n0 =
     (let n = (if elapsed < targetElapsed then n0 * 2 else n0 div 2)
      in if n < minSkip then minSkip else if maxSkip < n then maxSkip else n)"

text \<open>The loop over the periodic conditions, from \<open>i\<close> on with \<open>k\<close> of them left.\<close>

fun periodic_loop :: "'w runner \<Rightarrow> time \<Rightarrow> nat \<Rightarrow> nat \<Rightarrow> 'w ccd_scheme \<Rightarrow> 'w ccd_scheme option" where
  "periodic_loop run now i 0 s = Some s"
| "periodic_loop run now i (Suc k) s =
     (if nextCall s ! i \<le> now then
        (case CcdRaiseCondition run (CcdPERIODIC + i) s of
           None \<Rightarrow> None
         | Some s1 \<Rightarrow> periodic_loop run now (i + 1) k
                        (s1\<lparr>nextCall := (nextCall s1)[i := now + periodicCallInterval ! i]\<rparr>))
      else Some s)"

definition CcdCallBacks :: "'w runner \<Rightarrow> 'w ccd_scheme \<Rightarrow> 'w ccd_scheme option" where
  "CcdCallBacks run s0 =
     (let (curWallTime, s) = CmiWallTimer s0;
          n = adjust_skip (curWallTime - lastCheck s) (nSkip s);
          s1 = s\<lparr>numchecks := n, nSkip := n, lastCheck := curWallTime\<rparr>
      in case ccd_heap_update run curWallTime s1 of
           None \<Rightarrow> None
         | Some s2 \<Rightarrow> periodic_loop run curWallTime 0 CCD_PERIODIC_MAX s2)"


section \<open>Timed callbacks\<close>

definition called :: "'w runner \<Rightarrow> time \<Rightarrow> ccd_callback list \<Rightarrow> 'w ccd_scheme \<Rightarrow> 'w ccd_scheme" where
  "called run t cbs s = fold (\<lambda>cb. run cb t) cbs s"

lemma called_simps [simp]:
  "called run t [] s = s" "called run t (cb # cbs) s = called run t cbs (run cb t s)"
  "called run t (xs @ ys) s = called run t ys (called run t xs s)"
  by (simp_all add: called_def)

text \<open>
  The specification of the periodic check: the periodic conditions of a given list, and no others,
  are raised one after the other and each is scheduled anew once its callbacks have been called.
\<close>

primrec raise_periodic :: "'w runner \<Rightarrow> time \<Rightarrow> nat list \<Rightarrow> 'w ccd_scheme \<Rightarrow> 'w ccd_scheme option" where
  "raise_periodic run now [] s = Some s"
| "raise_periodic run now (j # js) s =
     Option.bind (CcdRaiseCondition run (CcdPERIODIC + j) s)
       (\<lambda>s1. raise_periodic run now js (s1\<lparr>nextCall := (nextCall s1)[j := now + periodicCallInterval ! j]\<rparr>))"

text \<open>The callbacks leave the waiting area alone until the last of them is called.\<close>

fun undisturbed :: "'w runner \<Rightarrow> time \<Rightarrow> ccd_heap_elem list \<Rightarrow> 'w ccd_scheme \<Rightarrow> bool" where
  "undisturbed run t [] s \<longleftrightarrow> True"
| "undisturbed run t (e # es) s \<longleftrightarrow>
     (es \<noteq> [] \<longrightarrow> waiting_kept (tmr s) (tmr (run (he_cb e) t s))) \<and> undisturbed run t es (run (he_cb e) t s)"

definition waiting :: "ccd_heap \<Rightarrow> nat \<Rightarrow> ccd_heap_elem list" where
  "waiting h n = map (\<lambda>i. hp_arr h ! (hp_max h + i)) [0..<n]"

lemma heap_calls_undisturbed:
  assumes "undisturbed run t es s" "hp_id (tmr s) = hid" "hp_max (tmr s) \<le> e"
    "\<And>i. i < length es \<Longrightarrow> hp_arr (tmr s) ! (e + i) = es ! i"
  shows "heap_calls run t hid e (length es) s = Some (called run t (map he_cb es) s)"
  using assms
proof (induction es arbitrary: s e)
  case (Cons x es)
  let ?s = "run (he_cb x) t s"
  have x: "hp_arr (tmr s) ! e = x" using Cons.prems(4) [of 0] by simp
  have "heap_calls run t hid (e + 1) (length es) ?s = Some (called run t (map he_cb es) ?s)"
  proof (cases "es = []")
    case False
    then have k: "waiting_kept (tmr s) (tmr ?s)" using Cons.prems(1) by simp
    have "hp_arr (tmr ?s) ! (e + 1 + i) = es ! i" if "i < length es" for i
      using k Cons.prems(3) Cons.prems(4) [of "Suc i"] that by (simp add: waiting_kept_def)
    then show ?thesis using k Cons.prems by (intro Cons.IH) (auto simp: waiting_kept_def)
  qed simp
  then show ?case using Cons.prems(2) x by simp
qed simp

lemma heap_update_waiting:
  assumes "pull_loop (tmr s) now 0 = (h, ne)" "hp_max h = hp_max (tmr s)" "hp_id h = hp_id (tmr s)"
    "undisturbed run now (waiting h ne) (s\<lparr>tmr := h\<rparr>)"
  shows "ccd_heap_update run now s = Some (called run now (map he_cb (waiting h ne)) (s\<lparr>tmr := h\<rparr>))"
proof -
  have "heap_calls run now (hp_id (tmr s)) (hp_max (tmr s)) (length (waiting h ne)) (s\<lparr>tmr := h\<rparr>)
      = Some (called run now (map he_cb (waiting h ne)) (s\<lparr>tmr := h\<rparr>))"
    using assms by (intro heap_calls_undisturbed) (simp_all add: waiting_def)
  then show ?thesis using assms(1) by (simp add: ccd_heap_update_def waiting_def)
qed

lemma waiting_eq:
  assumes "\<forall>i < length es. hp_arr h ! (hp_max h + i) = es ! i"
  shows "waiting h (length es) = es"
  using assms by (intro nth_equalityI) (simp_all add: waiting_def)

lemma heap_update_dangling:
  assumes "pull_loop (tmr s) now 0 = (h, Suc (Suc k))"
    and "hp_id (tmr (run (he_cb (hp_arr h ! hp_max (tmr s))) now (s\<lparr>tmr := h\<rparr>))) \<noteq> hp_id (tmr s)"
  shows "ccd_heap_update run now s = None"
  using assms by (simp add: ccd_heap_update_def Let_def)

lemma insert_full_reallocates:
  "hp_len h = hp_max h \<Longrightarrow> hp_id (ccd_heap_insert h t fnp arg pe) \<noteq> hp_id h"
  by (simp add: ccd_heap_insert_def expand_ccd_heap_def Let_def)


section \<open>Condition lists\<close>

text \<open>
  What callbacks may do to the list they are called from: they may register further
  callbacks, and they must not cancel (the sources call that illegal).
\<close>

definition appends_only :: "'w runner \<Rightarrow> ('w ccd_scheme \<Rightarrow> ccd_cblist) \<Rightarrow> ('w ccd_scheme \<Rightarrow> bool) \<Rightarrow> bool" where
  "appends_only run get P \<longleftrightarrow>
     (\<forall>cb t s ivs. P s \<longrightarrow> cbl_rep (get s) ivs \<longrightarrow>
        P (run cb t s) \<and> (\<exists>new. cbl_rep (get (run cb t s)) (ivs @ new)))"

lemma cbl_rep_index: "cbl_rep l ivs \<Longrightarrow> (a, c) \<in> set ivs \<Longrightarrow> a < length (cl_elems l)"
proof -
  assume r: "cbl_rep l ivs" and a: "(a, c) \<in> set ivs"
  then obtain fs where inv: "cbl_inv l (map fst ivs) fs" by (auto simp: cbl_rep_def)
  have "a \<in> set (map fst ivs @ fs)" using a by force
  then show ?thesis using cbl_invD(1,4) [OF inv] by (metis lessThan_iff)
qed

lemma call_loop_calls:
  assumes ap: "appends_only run get P"
  shows "P s \<Longrightarrow> cbl_rep (get s) (xs @ ys @ zs) \<Longrightarrow> (ys \<noteq> [] \<Longrightarrow> idx = int (fst (hd ys))) \<Longrightarrow>
    call_loop run get t (length ys) idx s = Some (called run t (map snd ys) s) \<and>
    P (called run t (map snd ys) s) \<and>
    (\<exists>new. cbl_rep (get (called run t (map snd ys) s)) (xs @ ys @ zs @ new))"
proof (induction ys arbitrary: s xs zs idx)
  case Nil
  then show ?case by (auto intro: exI [of _ "[]"])
next
  case (Cons y ys)
  obtain a c where y: "y = (a, c)" by (cases y)
  let ?s = "run c t s"
  have idx: "idx = int a" using Cons.prems(3) y by simp
  have r: "cbl_rep (get s) (xs @ (a, c) # ys @ zs)" using Cons.prems(2) y by simp
  have c: "el_cb (cl_elems (get s) ! a) = c" "a < length (cl_elems (get s))"
    using cbl_rep_next(1) [OF r] cbl_rep_index [OF r, of a c] by simp_all
  obtain new where new: "P ?s" "cbl_rep (get ?s) (xs @ (a, c) # ys @ zs @ new)"
    using ap Cons.prems(1) r unfolding appends_only_def by (metis append_Cons append_assoc)
  have a1: "a < length (cl_elems (get ?s))" using cbl_rep_index [OF new(2), of a c] by simp
  have nx: "ys \<noteq> [] \<Longrightarrow> el_next (cl_elems (get ?s) ! a) = int (fst (hd ys))"
    using cbl_rep_next(2) [OF new(2)] by (cases ys) auto
  have "cbl_rep (get ?s) ((xs @ [y]) @ ys @ (zs @ new))" using new(2) y by simp
  from Cons.IH [OF new(1) this nx] show ?case
    using c a1 idx y by (auto simp: Let_def)
qed

lemma call_cblist_remove_calls:
  fixes t :: time
  assumes ap: "appends_only run (\<lambda>s. condcb s ! c) P"
    and s: "c < length (condcb s)" "\<not> cl_flag (condcb s ! c)" "cbl_rep (condcb s ! c) ivs"
    and P: "P (upd_condcb c (\<lambda>l. l\<lparr>cl_flag := True\<rparr>) s)"
  defines "s2 \<equiv> called run t (map snd ivs) (upd_condcb c (\<lambda>l. l\<lparr>cl_flag := True\<rparr>) s)"
  shows "call_cblist_remove run c t s =
      Some (upd_condcb c (\<lambda>l. (remove_n_elems l (length ivs))\<lparr>cl_flag := False\<rparr>) s2)"
    "P s2" "\<exists>new. cbl_rep (condcb s2 ! c) (ivs @ new)"
proof -
  let ?s = "upd_condcb c (\<lambda>l. l\<lparr>cl_flag := True\<rparr>) s"
  have rep: "cbl_rep (condcb ?s ! c) ([] @ ivs @ [])" using s by (simp add: upd_condcb_def)
  have first: "ivs \<noteq> [] \<Longrightarrow> cl_first (condcb s ! c) = int (fst (hd ivs))"
    using s(3) cbl_rep_first by (cases ivs) auto
  note L = call_loop_calls [OF ap P rep first, of t]
  then show "\<exists>new. cbl_rep (condcb s2 ! c) (ivs @ new)" "P s2" unfolding s2_def by auto
  show "call_cblist_remove run c t s =
      Some (upd_condcb c (\<lambda>l. (remove_n_elems l (length ivs))\<lparr>cl_flag := False\<rparr>) s2)"
    using L s(2) cbl_rep_len [OF s(3)] unfolding s2_def by (simp add: call_cblist_remove_def Let_def)
qed

lemma call_cblist_keep_calls:
  assumes ap: "appends_only run (\<lambda>s. condcb_keep s ! c) P" and P: "P s"
    and rep: "cbl_rep (condcb_keep s ! c) ivs"
  shows "call_cblist_keep run c t s = Some (called run t (map snd ivs) s)"
proof -
  have first: "ivs \<noteq> [] \<Longrightarrow> cl_first (condcb_keep s ! c) = int (fst (hd ivs))"
    using rep cbl_rep_first by (cases ivs) auto
  have "cbl_rep (condcb_keep s ! c) ([] @ ivs @ [])" using rep by simp
  from call_loop_calls [OF ap P this first, of t] show ?thesis
    using cbl_rep_len [OF rep] by (simp add: call_cblist_keep_def)
qed

section \<open>Nested use\<close>

text \<open>
  The contract of callbacks.  A step that a callback may take keeps all lists well formed,
  keeps the schedule of the periodic conditions and the flags, and only adds to the list of a
  condition that is being raised and to the permanent lists.
\<close>

definition grows :: "ccd_cblist \<Rightarrow> ccd_cblist \<Rightarrow> bool" where
  "grows l l' \<longleftrightarrow> (\<forall>ivs. cbl_rep l ivs \<longrightarrow> (\<exists>new. cbl_rep l' (ivs @ new)))"

definition ccd_inv :: "'w ccd_scheme \<Rightarrow> bool" where
  "ccd_inv s \<longleftrightarrow> length (condcb s) = MAXNUMCONDS \<and> length (condcb_keep s) = MAXNUMCONDS \<and>
     (\<forall>c < MAXNUMCONDS. (\<exists>ivs. cbl_rep (condcb s ! c) ivs) \<and> (\<exists>ivs. cbl_rep (condcb_keep s ! c) ivs))"

definition callback_step :: "'w ccd_scheme \<Rightarrow> 'w ccd_scheme \<Rightarrow> bool" where
  "callback_step s s' \<longleftrightarrow> (ccd_inv s \<longrightarrow> ccd_inv s' \<and> nextCall s' = nextCall s \<and>
     (\<forall>c < MAXNUMCONDS. cl_flag (condcb s' ! c) = cl_flag (condcb s ! c) \<and>
        (cl_flag (condcb s ! c) \<longrightarrow> grows (condcb s ! c) (condcb s' ! c)) \<and>
        grows (condcb_keep s ! c) (condcb_keep s' ! c)))"

lemma grows_refl [simp]: "grows l l"
  by (auto simp: grows_def intro: exI [of _ "[]"])

lemma grows_trans: "grows a b \<Longrightarrow> grows b c \<Longrightarrow> grows a c"
  unfolding grows_def by (metis append_assoc)

lemma grows_rep: "grows l l' \<Longrightarrow> cbl_rep l ivs \<Longrightarrow> \<exists>new. cbl_rep l' (ivs @ new)"
  by (simp add: grows_def)

lemma grows_append: "grows l (snd (append_elem l fn arg pe))"
  unfolding grows_def using cbl_rep_append(2) by blast

lemma callback_step_refl: "callback_step s s"
  by (simp add: callback_step_def)

lemma callback_stepD:
  assumes "callback_step s s'" "ccd_inv s"
  shows "ccd_inv s'" "nextCall s' = nextCall s"
    "c < MAXNUMCONDS \<Longrightarrow> cl_flag (condcb s' ! c) = cl_flag (condcb s ! c)"
    "c < MAXNUMCONDS \<Longrightarrow> cl_flag (condcb s ! c) \<Longrightarrow> grows (condcb s ! c) (condcb s' ! c)"
    "c < MAXNUMCONDS \<Longrightarrow> grows (condcb_keep s ! c) (condcb_keep s' ! c)"
  using assms by (auto simp: callback_step_def)

lemma callback_step_trans:
  assumes "callback_step a b" "callback_step b c"
  shows "callback_step a c"
  unfolding callback_step_def
proof (intro impI conjI allI)
  assume a: "ccd_inv a"
  note A = callback_stepD [OF assms(1) a]
  note B = callback_stepD [OF assms(2) A(1)]
  show "ccd_inv c" "nextCall c = nextCall a" using A B by simp_all
  fix i assume i: "i < MAXNUMCONDS"
  show "cl_flag (condcb c ! i) = cl_flag (condcb a ! i)" using A(3) B(3) i by simp
  show "grows (condcb_keep a ! i) (condcb_keep c ! i)" using A(5) B(5) i grows_trans by blast
  assume "cl_flag (condcb a ! i)"
  then show "grows (condcb a ! i) (condcb c ! i)" using A(3,4) B(4) i grows_trans by blast
qed

lemma ccd_invD:
  assumes "ccd_inv s" "c < MAXNUMCONDS"
  shows "c < length (condcb s)" "c < length (condcb_keep s)" "\<exists>ivs. cbl_rep (condcb s ! c) ivs"
    "\<exists>ivs. cbl_rep (condcb_keep s ! c) ivs"
  using assms by (simp_all add: ccd_inv_def)

lemma callback_stepI:
  assumes "length (condcb s') = length (condcb s)" "length (condcb_keep s') = length (condcb_keep s)"
    "nextCall s' = nextCall s"
    "\<And>c. c < MAXNUMCONDS \<Longrightarrow> ccd_inv s \<Longrightarrow> cl_flag (condcb s' ! c) = cl_flag (condcb s ! c)"
    "\<And>c. c < MAXNUMCONDS \<Longrightarrow> ccd_inv s \<Longrightarrow> grows (condcb s ! c) (condcb s' ! c)"
    "\<And>c. c < MAXNUMCONDS \<Longrightarrow> ccd_inv s \<Longrightarrow> grows (condcb_keep s ! c) (condcb_keep s' ! c)"
  shows "callback_step s s'"
  unfolding callback_step_def
proof (intro impI)
  assume inv: "ccd_inv s"
  have "\<exists>ivs. cbl_rep (condcb s' ! c) ivs" "\<exists>ivs. cbl_rep (condcb_keep s' ! c) ivs" if "c < MAXNUMCONDS" for c
    using ccd_invD(3,4) [OF inv that] assms(5,6) [OF that inv] grows_rep by blast+
  then have "ccd_inv s'" using inv assms(1,2) by (simp add: ccd_inv_def)
  then show "ccd_inv s' \<and> nextCall s' = nextCall s \<and>
     (\<forall>c < MAXNUMCONDS. cl_flag (condcb s' ! c) = cl_flag (condcb s ! c) \<and>
        (cl_flag (condcb s ! c) \<longrightarrow> grows (condcb s ! c) (condcb s' ! c)) \<and>
        grows (condcb_keep s ! c) (condcb_keep s' ! c))"
    using assms(3-6) inv by simp
qed

lemma nth_upd_cases: "xs[i := x] ! j = (if i = j \<and> i < length xs then x else xs ! j)"
  by (cases "i < length xs") (auto simp: list_update_beyond)

lemma registration_steps:
  "callback_step s (snd (CcdCallOnConditionOnPE c fn arg pe s))"
  "callback_step s (snd (CcdCallOnCondition c fn arg s))"
  "callback_step s (snd (CcdCallOnConditionKeepOnPE c fn arg pe s))"
  "callback_step s (snd (CcdCallOnConditionKeep c fn arg s))"
  "callback_step s (CcdCallFnAfterOnPE fn arg d pe s)" "callback_step s (CcdCallFnAfter fn arg d s)"
  "callback_step s (CcdCallBacksReset t s)" "callback_step s (snd (CmiWallTimer s))"
  by (rule callback_stepI; simp add: CcdCallOnConditionOnPE_def CcdCallOnCondition_def
        CcdCallOnConditionKeepOnPE_def CcdCallOnConditionKeep_def CcdCallFnAfterOnPE_def CcdCallFnAfter_def
        CcdCallBacksReset_def CmiWallTimer_def case_prod_beta nth_upd_cases grows_append)+


locale callbacks =
  fixes run :: "'w runner"
  assumes run_step: "callback_step s (run cb t s)"
begin

lemma called_step: "callback_step s (called run t cbs s)"
  by (induction cbs arbitrary: s) (auto intro: callback_step_refl callback_step_trans run_step)

lemma appends_once:
  assumes "c < MAXNUMCONDS"
  shows "appends_only run (\<lambda>s. condcb s ! c) (\<lambda>s. ccd_inv s \<and> cl_flag (condcb s ! c))"
  unfolding appends_only_def
proof (intro allI impI)
  fix cb t ivs and s :: "'w ccd_scheme" assume P: "ccd_inv s \<and> cl_flag (condcb s ! c)" and r: "cbl_rep (condcb s ! c) ivs"
  note D = callback_stepD [OF run_step [where cb = cb and t = t] conjunct1 [OF P]]
  show "(ccd_inv (run cb t s) \<and> cl_flag (condcb (run cb t s) ! c)) \<and> (\<exists>new. cbl_rep (condcb (run cb t s) ! c) (ivs @ new))"
    using D(1) D(3,4) [OF assms] P grows_rep [OF _ r] by simp
qed

lemma appends_keep:
  assumes "c < MAXNUMCONDS"
  shows "appends_only run (\<lambda>s. condcb_keep s ! c) ccd_inv"
  unfolding appends_only_def
proof (intro allI impI)
  fix cb t ivs and s :: "'w ccd_scheme" assume P: "ccd_inv s" and r: "cbl_rep (condcb_keep s ! c) ivs"
  note D = callback_stepD [OF run_step [where cb = cb and t = t] P]
  show "ccd_inv (run cb t s) \<and> (\<exists>new. cbl_rep (condcb_keep (run cb t s) ! c) (ivs @ new))"
    using D(1) D(5) [OF assms] grows_rep [OF _ r] by simp
qed

lemma keep_step:
  assumes "ccd_inv s" "c < MAXNUMCONDS" "cbl_rep (condcb_keep s ! c) jvs"
  shows "call_cblist_keep run c t s = Some (called run t (map snd jvs) s)"
  using call_cblist_keep_calls [OF appends_keep [OF assms(2)] assms(1,3)] .

lemma remove_step:
  fixes t :: time
  assumes inv: "ccd_inv s" and c: "c < MAXNUMCONDS" and flag: "\<not> cl_flag (condcb s ! c)"
    and once: "cbl_rep (condcb s ! c) ivs"
  defines "s2 \<equiv> called run t (map snd ivs) (upd_condcb c (\<lambda>l. l\<lparr>cl_flag := True\<rparr>) s)"
  defines "s3 \<equiv> upd_condcb c (\<lambda>l. (remove_n_elems l (length ivs))\<lparr>cl_flag := False\<rparr>) s2"
  shows "call_cblist_remove run c t s = Some s3" "callback_step s s3"
    "\<exists>new. cbl_rep (condcb s2 ! c) (ivs @ new) \<and> cbl_rep (condcb s3 ! c) new"
proof -
  let ?s = "upd_condcb c (\<lambda>l. l\<lparr>cl_flag := True\<rparr>) s"
  have len: "c < length (condcb s)" using ccd_invD [OF inv c] by simp
  have s: "condcb ?s ! d = (if d = c then (condcb s ! c)\<lparr>cl_flag := True\<rparr> else condcb s ! d)"
    "condcb_keep ?s = condcb_keep s" "length (condcb ?s) = length (condcb s)" "nextCall ?s = nextCall s" for d
    using len by (simp_all add: upd_condcb_def nth_upd_cases)
  have inv': "ccd_inv ?s" using inv by (auto simp: ccd_inv_def s)
  then have P: "ccd_inv ?s \<and> cl_flag (condcb ?s ! c)" by (simp add: s)
  note R = call_cblist_remove_calls [where P = "\<lambda>s. ccd_inv s \<and> cl_flag (condcb s ! c)", OF appends_once [OF c] len flag once P, of t, folded s2_def]
  show "call_cblist_remove run c t s = Some s3" using R(1) by (simp add: s3_def)
  obtain new where new: "cbl_rep (condcb s2 ! c) (ivs @ new)" using R(3) by blast
  have "c < length (condcb s2)" using R(2) ccd_invD(1) c by blast
  then have s3: "condcb s3 ! d = (if d = c then (remove_n_elems (condcb s2 ! c) (length ivs))\<lparr>cl_flag := False\<rparr> else condcb s2 ! d)"
    "condcb_keep s3 = condcb_keep s2" "length (condcb s3) = length (condcb s2)" "nextCall s3 = nextCall s2" for d
    by (simp_all add: s3_def upd_condcb_def nth_upd_cases)
  have rep3: "cbl_rep (condcb s3 ! c) new" using cbl_rep_remove_n [OF new, of "length ivs"] by (simp add: s3)
  then show "\<exists>new. cbl_rep (condcb s2 ! c) (ivs @ new) \<and> cbl_rep (condcb s3 ! c) new" using new by blast
  note D = callback_stepD [OF called_step [of ?s t "map snd ivs", folded s2_def] inv']
  have "ccd_inv s3" using D(1) rep3 unfolding ccd_inv_def by (auto simp: s3)
  moreover have "cl_flag (condcb s3 ! d) = cl_flag (condcb s ! d)" "grows (condcb_keep s ! d) (condcb_keep s3 ! d)"
    "cl_flag (condcb s ! d) \<longrightarrow> grows (condcb s ! d) (condcb s3 ! d)" if "d < MAXNUMCONDS" for d
    using D(3-5) [OF that] flag by (auto simp: s s3)
  ultimately show "callback_step s s3" using D(2) by (simp add: callback_step_def s s3)
qed

text \<open>Raising a condition, nested or not, is itself a step a callback may take.\<close>

lemma raise_step:
  assumes inv: "ccd_inv s" and c: "c < MAXNUMCONDS"
  shows "\<exists>s'. CcdRaiseCondition run c s = Some s' \<and> callback_step s s'"
proof -
  let ?t = "fst (CmiWallTimer s)" and ?s1 = "snd (CmiWallTimer s)"
  have s1: "callback_step s ?s1" by (rule registration_steps)
  then have inv1: "ccd_inv ?s1" using callback_stepD(1) inv by blast
  obtain s3 where s3: "call_cblist_remove run c ?t ?s1 = Some s3" "callback_step ?s1 s3"
  proof (cases "cl_flag (condcb ?s1 ! c)")
    case True
    then show ?thesis using that [of ?s1] by (simp add: call_cblist_remove_def callback_step_refl)
  next
    case False
    obtain ivs where "cbl_rep (condcb ?s1 ! c) ivs" using ccd_invD(3) [OF inv1 c] by blast
    from remove_step(1,2) [OF inv1 c False this] show ?thesis using that by blast
  qed
  have inv3: "ccd_inv s3" using callback_stepD(1) [OF s3(2) inv1] .
  obtain jvs where j: "cbl_rep (condcb_keep s3 ! c) jvs" using ccd_invD(4) [OF inv3 c] by blast
  have "CcdRaiseCondition run c s = Some (called run ?t (map snd jvs) s3)"
    using s3(1) keep_step [OF inv3 c j] by (simp add: CcdRaiseCondition_def case_prod_beta)
  moreover have "callback_step s (called run ?t (map snd jvs) s3)"
    using s1 s3(2) called_step callback_step_trans by blast
  ultimately show ?thesis by blast
qed

text \<open>
  The check of the periodic conditions: condition \<open>j\<close> is raised, and scheduled anew, exactly
  if it and all shorter ones are due.
\<close>

lemma periodic_step:
  "ccd_inv s \<Longrightarrow> length (nextCall s) = CCD_PERIODIC_MAX \<Longrightarrow> i + k = CCD_PERIODIC_MAX \<Longrightarrow>
   \<exists>s'. periodic_loop run now i k s = Some s' \<and>
     raise_periodic run now [i..<i + length (takeWhile (\<lambda>t. t \<le> now) (drop i (nextCall s)))] s = Some s' \<and>
     ccd_inv s' \<and> length (nextCall s') = CCD_PERIODIC_MAX \<and>
     (\<forall>j < CCD_PERIODIC_MAX. nextCall s' ! j =
        (if i \<le> j \<and> (\<forall>l \<in> {i..j}. nextCall s ! l \<le> now) then now + periodicCallInterval ! j else nextCall s ! j))"
proof (induction k arbitrary: i s)
  case 0
  then show ?case by simp
next
  case (Suc k)
  show ?case
  proof (cases "nextCall s ! i \<le> now")
    case False
    have "takeWhile (\<lambda>t. t \<le> now) (drop i (nextCall s)) = []"
      using False Suc.prems(2,3) by (simp add: Cons_nth_drop_Suc [symmetric])
    then show ?thesis using False Suc.prems by (auto intro!: exI [of _ s])
  next
    case True
    have i: "i < CCD_PERIODIC_MAX" "CcdPERIODIC + i < MAXNUMCONDS"
      using Suc.prems(3) by (simp_all add: CCD_PERIODIC_MAX_def CcdPERIODIC_def MAXNUMCONDS_def)
    obtain s1 where s1: "CcdRaiseCondition run (CcdPERIODIC + i) s = Some s1" "callback_step s s1"
      using raise_step [OF Suc.prems(1) i(2)] by blast
    note D = callback_stepD [OF s1(2) Suc.prems(1)]
    let ?s = "s1\<lparr>nextCall := (nextCall s1)[i := now + periodicCallInterval ! i]\<rparr>"
    have "ccd_inv ?s" "length (nextCall ?s) = CCD_PERIODIC_MAX" "i + 1 + k = CCD_PERIODIC_MAX"
      using D(1,2) Suc.prems by (simp_all add: ccd_inv_def)
    from Suc.IH [OF this] obtain s' where s': "periodic_loop run now (i + 1) k ?s = Some s'" "ccd_inv s'"
      "length (nextCall s') = CCD_PERIODIC_MAX"
      "\<forall>j < CCD_PERIODIC_MAX. nextCall s' ! j = (if i + 1 \<le> j \<and> (\<forall>l \<in> {i + 1..j}. nextCall ?s ! l \<le> now)
          then now + periodicCallInterval ! j else nextCall ?s ! j)"
      "raise_periodic run now [i + 1..<i + 1 + length (takeWhile (\<lambda>t. t \<le> now) (drop (i + 1) (nextCall ?s)))] ?s = Some s'"
      by blast
    have "drop i (nextCall s) = nextCall s ! i # drop (i + 1) (nextCall ?s)"
      using i(1) D(2) Suc.prems(2) by (simp add: Cons_nth_drop_Suc)
    then have raised: "raise_periodic run now [i..<i + length (takeWhile (\<lambda>t. t \<le> now) (drop i (nextCall s)))] s = Some s'"
      using s'(5) s1(1) True by (simp add: upt_conv_Cons del: upt_Suc)
    have "nextCall s' ! j = (if i \<le> j \<and> (\<forall>l \<in> {i..j}. nextCall s ! l \<le> now)
        then now + periodicCallInterval ! j else nextCall s ! j)" if j: "j < CCD_PERIODIC_MAX" for j
    proof -
      have same: "nextCall ?s ! l = nextCall s ! l" if "l \<noteq> i" for l using that D(2) by simp
      have ati: "nextCall ?s ! i = now + periodicCallInterval ! i" using i(1) D(2) Suc.prems(2) by simp
      have range: "i \<le> j \<Longrightarrow> {i..j} = insert i {i + 1..j}" by auto
      have "(\<forall>l \<in> {i + 1..j}. nextCall ?s ! l \<le> now) \<longleftrightarrow> (\<forall>l \<in> {i + 1..j}. nextCall s ! l \<le> now)"
        using same by (intro ball_cong) auto
      then show ?thesis using s'(4) j True same ati range by (cases "j = i") auto
    qed
    then show ?thesis using s'(1-3) s1(1) True raised by auto
  qed
qed

lemma heap_update_step:
  assumes "timer_wf (tmr s)" "hp_len (tmr s) < hp_max (tmr s)" "pull_loop (tmr s) now 0 = (h, ne)"
    "undisturbed run now (waiting h ne) (s\<lparr>tmr := h\<rparr>)"
  shows "ccd_heap_update run now s = Some (called run now (map he_cb (waiting h ne)) (s\<lparr>tmr := h\<rparr>))"
    "callback_step s (called run now (map he_cb (waiting h ne)) (s\<lparr>tmr := h\<rparr>))"
proof -
  have "hp_max h = hp_max (tmr s)" "hp_id h = hp_id (tmr s)"
    using pull_loop_ok [OF assms(1), of 0 now] assms(2,3) by auto
  then show "ccd_heap_update run now s = Some (called run now (map he_cb (waiting h ne)) (s\<lparr>tmr := h\<rparr>))"
    using heap_update_waiting assms(3,4) by blast
  have "callback_step s (s\<lparr>tmr := h\<rparr>)" by (rule callback_stepI) simp_all
  then show "callback_step s (called run now (map he_cb (waiting h ne)) (s\<lparr>tmr := h\<rparr>))"
    using called_step callback_step_trans by blast
qed

end

text \<open>
  The module's own callback and callbacks that only register further ones keep the contract, and
  so does a callback that raises a condition, nested to any depth.
\<close>

interpretation idle_reset: callbacks "\<lambda>cb t s. CcdCallBacksReset t s"
  by unfold_locales (rule registration_steps)

interpretation registering: callbacks "\<lambda>cb t s. snd (CcdCallOnCondition c fn arg s)" for c fn arg
  by unfold_locales (rule registration_steps)

interpretation deferring: callbacks "\<lambda>cb t s. CcdCallFnAfter fn arg d s" for fn arg d
  by unfold_locales (rule registration_steps)

lemma nested_raise_step:
  assumes "callbacks run" "c < MAXNUMCONDS"
  shows "callbacks (\<lambda>cb t s. case CcdRaiseCondition run c s of None \<Rightarrow> s | Some s' \<Rightarrow> s')"
proof (unfold_locales)
  fix s cb t
  show "callback_step s (case CcdRaiseCondition run c s of None \<Rightarrow> s | Some s' \<Rightarrow> s')"
    using callbacks.raise_step [OF assms(1) _ assms(2), of s]
    by (cases "ccd_inv s") (auto simp: callback_step_def [of s])
qed

lemma ccd_inv_init: "ccd_inv (CcdModuleInit reset s)" "timer_wf (tmr (CcdModuleInit reset s))"
  "length (nextCall (CcdModuleInit reset s)) = CCD_PERIODIC_MAX"
proof -
  let ?c = "s\<lparr>tmr := new_heap, condcb := replicate MAXNUMCONDS (init_cblist CBLIST_INIT_LEN),
    condcb_keep := replicate MAXNUMCONDS (init_cblist CBLIST_INIT_LEN), numchecks := 1, nSkip := 1\<rparr>"
  let ?s3 = "(snd (CmiWallTimer ?c))\<lparr>lastCheck := fst (CmiWallTimer ?c),
    nextCall := map (\<lambda>i. fst (CmiWallTimer ?c) + periodicCallInterval ! i) [0..<CCD_PERIODIC_MAX]\<rparr>"
  let ?s4 = "snd (CcdCallOnConditionKeep CcdPROCESSOR_BEGIN_IDLE reset 0 ?s3)"
  have i: "CcdModuleInit reset s = snd (CcdCallOnConditionKeep CcdPROCESSOR_END_IDLE reset 0 ?s4)"
    by (simp add: CcdModuleInit_def Let_def case_prod_beta)
  have "ccd_inv ?s3"
    using cbl_rep_init [of CBLIST_INIT_LEN] by (auto simp: ccd_inv_def CmiWallTimer_def CBLIST_INIT_LEN_def)
  moreover have "callback_step ?s3 (CcdModuleInit reset s)"
    unfolding i by (rule callback_step_trans; rule registration_steps)
  ultimately show "ccd_inv (CcdModuleInit reset s)" "length (nextCall (CcdModuleInit reset s)) = CCD_PERIODIC_MAX"
    using callback_stepD(1,2) by fastforce+
  have "tmr (CcdModuleInit reset s) = new_heap"
    unfolding i by (simp add: CcdCallOnConditionKeep_def case_prod_beta CmiWallTimer_def)
  then show "timer_wf (tmr (CcdModuleInit reset s))" by (simp add: timer_wf_new)
qed

section \<open>Properties\<close>

text \<open>A small state for the instances below: two timers, no registered callbacks.\<close>

definition demo_timer :: "time \<Rightarrow> ptr \<Rightarrow> ccd_heap_elem" where
  "demo_timer t f = \<lparr>he_time = t, he_cb = \<lparr>cb_fn = f, cb_arg = 0, cb_pe = CcdIGNOREPE\<rparr>\<rparr>"

definition demo_heap :: "nat \<Rightarrow> ccd_heap" where
  "demo_heap m = \<lparr>hp_arr = [no_elem, demo_timer 1 11, demo_timer 2 12] @ replicate (2 * m - 1) no_elem,
     hp_len = 2, hp_max = m, hp_id = 0\<rparr>"

definition demo_ccd :: "nat \<Rightarrow> ccd" where
  "demo_ccd m = \<lparr>condcb = replicate MAXNUMCONDS (init_cblist CBLIST_INIT_LEN),
     condcb_keep = replicate MAXNUMCONDS (init_cblist CBLIST_INIT_LEN), tmr = demo_heap m, nSkip = 1, lastCheck = 0,
     nextCall = [4, 4, 9, 4, 9, 9, 9, 9, 9, 9, 9, 9, 9], numchecks = 1, clk = (\<lambda>n. 5 + of_nat n), clk_reads = 0\<rparr>"

lemma demo_heap_wf: "2 \<le> m \<Longrightarrow> timer_wf (demo_heap m)"
proof -
  assume m: "2 \<le> m"
  have "heap_ord he_time (hp_arr (demo_heap m)) 3"
    by (auto simp: heap_ord_def demo_heap_def demo_timer_def numeral_eq_Suc less_Suc_eq)
  then show ?thesis using m by (simp add: timer_wf_def demo_heap_def numeral_3_eq_3)
qed

lemma demo_inv: "ccd_inv (demo_ccd m)"
  using cbl_rep_init [of CBLIST_INIT_LEN] by (auto simp: ccd_inv_def demo_ccd_def CBLIST_INIT_LEN_def)

text \<open>
  C15.  The timed callbacks.  While the heap does not fill its array, a check at time \<open>now\<close>
  calls exactly the callbacks whose time has passed, each once and in the order of their times,
  and the later ones stay scheduled.  It is enough that a called callback leaves the waiting
  area alone, which every callback does that registers timers while the heap has room.
\<close>

theorem heap_update_calls_expired:
  assumes wf: "timer_wf (tmr s)" and room: "hp_len (tmr s) < hp_max (tmr s)"
    and pull: "pull_loop (tmr s) now 0 = (h, ne)"
    and und: "undisturbed run now (waiting h ne) (s\<lparr>tmr := h\<rparr>)"
  shows "ccd_heap_update run now s = Some (called run now (map he_cb (waiting h ne)) (s\<lparr>tmr := h\<rparr>)) \<and>
    timer_wf h \<and> mset (timers (tmr s)) = mset (waiting h ne) + mset (timers h) \<and>
    sorted (map he_time (waiting h ne)) \<and> (\<forall>e \<in> set (waiting h ne). he_time e < now) \<and>
    (\<forall>e \<in> set (timers h). now \<le> he_time e)"
proof -
  have "hp_len (tmr s) < hp_max (tmr s) + 0" "0 + hp_len (tmr s) \<le> hp_max (tmr s)" using room by simp_all
  from pull_loop_ok [OF wf this, of now] obtain es where es: "ne = length es" "timer_wf h" "hp_max h = hp_max (tmr s)"
    "hp_id h = hp_id (tmr s)" "mset (timers (tmr s)) = mset es + mset (timers h)" "sorted (map he_time es)"
    "\<forall>e \<in> set es. he_time e < now" "\<forall>e \<in> set (timers h). now \<le> he_time e"
    "\<forall>i < length es. hp_arr h ! (hp_max h + i) = es ! i"
    unfolding pull by auto
  have w: "waiting h ne = es" using waiting_eq es(1,9) by blast
  show ?thesis using heap_update_waiting [OF pull es(3,4) und] es w by simp
qed

lemma demo_pull:
  "pull_loop (demo_heap 3) 5 0 = (fst (pull_loop (demo_heap 3) 5 0), 2)"
  "waiting (fst (pull_loop (demo_heap 3) 5 0)) 2 = [demo_timer 1 11, demo_timer 2 12]"
  "timer_wf (fst (pull_loop (demo_heap 3) 5 0))" "hp_len (fst (pull_loop (demo_heap 3) 5 0)) < hp_max (fst (pull_loop (demo_heap 3) 5 0))"
proof -
  have "snd (pull_loop (demo_heap 3) 5 0) = 2" by code_simp
  then show "pull_loop (demo_heap 3) 5 0 = (fst (pull_loop (demo_heap 3) 5 0), 2)" by (metis prod.collapse)
  show "waiting (fst (pull_loop (demo_heap 3) 5 0)) 2 = [demo_timer 1 11, demo_timer 2 12]" by code_simp
  show "hp_len (fst (pull_loop (demo_heap 3) 5 0)) < hp_max (fst (pull_loop (demo_heap 3) 5 0))" by code_simp
  show "timer_wf (fst (pull_loop (demo_heap 3) 5 0))"
    using pull_loop_ok [of "demo_heap 3" 0 5] demo_heap_wf [of 3] by (auto simp: demo_heap_def)
qed

lemma undisturbed_deferring:
  assumes "timer_wf (tmr s)" "hp_len (tmr s) < hp_max (tmr s)"
  shows "undisturbed (\<lambda>cb t s. CcdCallFnAfter fn arg d s) now [e, e'] s"
  using insert_keeps_waiting [OF assms] by (simp add: CcdCallFnAfter_def CcdCallFnAfterOnPE_def CmiWallTimer_def)

theorem heap_update_calls_expired_witness:
  "\<exists>h. ccd_heap_update (\<lambda>cb t s. CcdCallFnAfter 9 0 1000 s) 5 (demo_ccd 3) =
    Some (called (\<lambda>cb t s. CcdCallFnAfter 9 0 1000 s) 5 (map he_cb [demo_timer 1 11, demo_timer 2 12]) ((demo_ccd 3)\<lparr>tmr := h\<rparr>)) \<and>
    mset (timers (demo_heap 3)) = mset [demo_timer 1 11, demo_timer 2 12] + mset (timers h)"
proof -
  let ?h = "fst (pull_loop (demo_heap 3) 5 0)" and ?run = "\<lambda>cb t s. CcdCallFnAfter 9 0 1000 s"
  have t: "tmr (demo_ccd 3) = demo_heap 3" by (simp add: demo_ccd_def)
  have u: "undisturbed ?run 5 (waiting ?h 2) ((demo_ccd 3)\<lparr>tmr := ?h\<rparr>)"
    unfolding demo_pull(2) using demo_pull(3,4) by (intro undisturbed_deferring) simp_all
  have "timer_wf (tmr (demo_ccd 3))" "hp_len (tmr (demo_ccd 3)) < hp_max (tmr (demo_ccd 3))"
    unfolding t by (simp_all add: demo_heap_wf) (simp add: demo_heap_def)
  from heap_update_calls_expired [OF this demo_pull(1) [folded t] u [folded t]] show ?thesis
    unfolding t demo_pull(2) by blast
qed

text \<open>
  C16.  The same check when the heap exactly fills its array (256 timers, then 512, and so
  on) and holds at least two timers, the earliest of which is due.  The first entry copied to
  the waiting area overwrites the last heap entry: the timer in that cell is neither called nor
  scheduled any longer, and the called list starts with the earliest timer twice.  Every other due
  timer is called once, in the order of the times, and every other later one stays scheduled.
  As in C15 the called callbacks leave the waiting area alone.
\<close>

theorem full_heap_loses_timer:
  assumes wf: "timer_wf (tmr s)" and full: "hp_len (tmr s) = hp_max (tmr s)" "1 < hp_len (tmr s)"
    and due: "he_time (hp_arr (tmr s) ! 1) < now"
    and pull: "pull_loop (tmr s) now 0 = (h, ne)"
    and und: "undisturbed run now (waiting h ne) (s\<lparr>tmr := h\<rparr>)"
  shows "ccd_heap_update run now s = Some (called run now (map he_cb (waiting h ne)) (s\<lparr>tmr := h\<rparr>)) \<and>
    (\<exists>rest. waiting h ne = hp_arr (tmr s) ! 1 # hp_arr (tmr s) ! 1 # rest \<and> sorted (map he_time rest) \<and>
      (\<forall>e \<in> set rest. he_time e < now) \<and> (\<forall>e \<in> set (timers h). now \<le> he_time e) \<and>
      mset (timers (tmr s)) = {#hp_arr (tmr s) ! 1, hp_arr (tmr s) ! hp_len (tmr s)#} + mset rest + mset (timers h))"
proof -
  let ?r = "hp_arr (tmr s) ! 1"
  let ?s1 = "(tmr s)\<lparr>hp_arr := (hp_arr (tmr s))[hp_max (tmr s) := ?r], hp_len := hp_len (tmr s) - 1\<rparr>"
  note F = pull_full_step [OF wf full due]
  have sep: "hp_len ?s1 < hp_max ?s1 + 1" "1 + hp_len ?s1 \<le> hp_max ?s1" using full by simp_all
  from pull_loop_ok [OF F(2) sep, of now] obtain es where es: "ne = 1 + length es" "hp_max h = hp_max (tmr s)"
    "hp_id h = hp_id (tmr s)" "mset (timers ?s1) = mset es + mset (timers h)"
    "\<forall>i < length es. hp_arr h ! (hp_max h + 1 + i) = es ! i" "hp_arr h ! hp_max h = hp_arr ?s1 ! hp_max (tmr s)"
    "sorted (map he_time es)" "\<forall>e \<in> set es. he_time e < now" "\<forall>e \<in> set (timers h). now \<le> he_time e"
    unfolding F(1) [symmetric] pull using full by fastforce
  have r1: "hp_arr ?s1 ! 1 = ?r" "0 < hp_len ?s1" using full by simp_all
  have "1 < ne" "hp_arr h ! (hp_max h + 1) = ?r"
    using pull_loop_first [OF F(2) r1(2) sep, of now] due es(2) unfolding r1(1) F(1) [symmetric] pull by simp_all
  then obtain rest where rest: "es = ?r # rest" using es(1,5) by (cases es) auto
  have "hp_max (tmr s) < length (hp_arr (tmr s))" using wf by (simp add: timer_wf_def)
  then have "hp_arr h ! hp_max h = ?r" using es(6) by simp
  then have "\<forall>i < length (?r # es). hp_arr h ! (hp_max h + i) = (?r # es) ! i"
    using es(5) by (auto simp: nth_Cons split: nat.split)
  from waiting_eq [OF this] have w: "waiting h ne = ?r # es" using es(1) by simp
  show ?thesis using heap_update_waiting [OF pull es(2,3) und] es(4,7-9) F(3) w rest by simp
qed

theorem full_heap_loses_timer_witness:
  "\<exists>h rest. ccd_heap_update (\<lambda>cb t s. s) 5 (demo_ccd 2) = Some ((demo_ccd 2)\<lparr>tmr := h\<rparr>) \<and>
    waiting h 2 = demo_timer 1 11 # demo_timer 1 11 # rest \<and>
    mset (timers (demo_heap 2)) = {#demo_timer 1 11, demo_timer 2 12#} + mset rest + mset (timers h)"
proof -
  let ?h = "fst (pull_loop (demo_heap 2) 5 0)" and ?run = "\<lambda>cb t s. s"
  have t: "tmr (demo_ccd 2) = demo_heap 2" by (simp add: demo_ccd_def)
  have "snd (pull_loop (demo_heap 2) 5 0) = 2" by code_simp
  then have p: "pull_loop (tmr (demo_ccd 2)) 5 0 = (?h, 2)" unfolding t by (metis prod.collapse)
  have w: "waiting ?h 2 = [demo_timer 1 11, demo_timer 1 11]" by code_simp
  have u: "undisturbed ?run 5 (waiting ?h 2) ((demo_ccd 2)\<lparr>tmr := ?h\<rparr>)"
    unfolding w by (simp add: waiting_kept_def)
  have "timer_wf (tmr (demo_ccd 2))" "hp_len (tmr (demo_ccd 2)) = hp_max (tmr (demo_ccd 2))"
    "1 < hp_len (tmr (demo_ccd 2))" "he_time (hp_arr (tmr (demo_ccd 2)) ! 1) < 5"
    unfolding t by (simp_all add: demo_heap_wf) (simp_all add: demo_heap_def demo_timer_def)
  from full_heap_loses_timer [OF this p u] obtain rest where
    "ccd_heap_update ?run 5 (demo_ccd 2) = Some (called ?run 5 (map he_cb (waiting ?h 2)) ((demo_ccd 2)\<lparr>tmr := ?h\<rparr>))"
    "waiting ?h 2 = hp_arr (demo_heap 2) ! 1 # hp_arr (demo_heap 2) ! 1 # rest"
    "mset (timers (demo_heap 2)) = {#hp_arr (demo_heap 2) ! 1, hp_arr (demo_heap 2) ! hp_len (demo_heap 2)#} + mset rest + mset (timers ?h)"
    unfolding t by blast
  moreover have "hp_arr (demo_heap 2) ! 1 = demo_timer 1 11" "hp_arr (demo_heap 2) ! hp_len (demo_heap 2) = demo_timer 2 12"
    by (simp_all add: demo_heap_def)
  moreover have "called ?run 5 (map he_cb (waiting ?h 2)) ((demo_ccd 2)\<lparr>tmr := ?h\<rparr>) = (demo_ccd 2)\<lparr>tmr := ?h\<rparr>"
    unfolding w by simp
  ultimately show ?thesis by metis
qed

text \<open>
  C17.  Raising a condition.  If the condition is not already being raised, all one-shot
  callbacks registered for it are called in registration order and exactly these are taken off
  the list, those they register on the way (\<open>new\<close>) stay for the next time; then the permanent
  callbacks are called in order, including those (\<open>new_keep\<close>) the one-shot callbacks have just
  added.  The callbacks may register, set timers and raise conditions as they like.
\<close>

theorem raise_calls_registered:
  assumes contract: "\<forall>cb t s. callback_step s (run cb t s)"
    and inv: "ccd_inv s" and c: "c < MAXNUMCONDS" and flag: "\<not> cl_flag (condcb s ! c)"
    and once: "cbl_rep (condcb s ! c) ivs" and keep: "cbl_rep (condcb_keep s ! c) jvs"
  shows "\<exists>s2 s3 new new_keep.
    s2 = called run (fst (CmiWallTimer s)) (map snd ivs) (upd_condcb c (\<lambda>l. l\<lparr>cl_flag := True\<rparr>) (snd (CmiWallTimer s))) \<and>
    s3 = upd_condcb c (\<lambda>l. (remove_n_elems l (length ivs))\<lparr>cl_flag := False\<rparr>) s2 \<and>
    cbl_rep (condcb s2 ! c) (ivs @ new) \<and> cbl_rep (condcb s3 ! c) new \<and>
    cbl_rep (condcb_keep s3 ! c) (jvs @ new_keep) \<and>
    CcdRaiseCondition run c s = Some (called run (fst (CmiWallTimer s)) (map snd (jvs @ new_keep)) s3)"
proof -
  have cb: "callbacks run" using contract by unfold_locales blast
  define t s1 where "t = fst (CmiWallTimer s)" and "s1 = snd (CmiWallTimer s)"
  define s2 where "s2 = called run t (map snd ivs) (upd_condcb c (\<lambda>l. l\<lparr>cl_flag := True\<rparr>) s1)"
  define s3 where "s3 = upd_condcb c (\<lambda>l. (remove_n_elems l (length ivs))\<lparr>cl_flag := False\<rparr>) s2"
  have same: "condcb s1 = condcb s" "condcb_keep s1 = condcb_keep s" by (simp_all add: s1_def CmiWallTimer_def)
  have inv1: "ccd_inv s1" using inv by (simp add: ccd_inv_def same)
  note R = callbacks.remove_step [OF cb inv1 c, where ivs = ivs and t = t, unfolded same, OF flag once, folded s2_def, folded s3_def]
  obtain new where new: "cbl_rep (condcb s2 ! c) (ivs @ new)" "cbl_rep (condcb s3 ! c) new" using R(3) by blast
  note D = callback_stepD [OF R(2) inv1]
  obtain nk where nk: "cbl_rep (condcb_keep s3 ! c) (jvs @ nk)"
    using grows_rep [OF D(5) [OF c]] keep unfolding same by blast
  have "CcdRaiseCondition run c s = Some (called run t (map snd (jvs @ nk)) s3)"
    using R(1) callbacks.keep_step [OF cb D(1) c nk, of t]
    by (simp add: CcdRaiseCondition_def case_prod_beta t_def [symmetric] s1_def [symmetric])
  then show ?thesis using new nk unfolding t_def [symmetric] s1_def [symmetric]
    by (intro exI [of _ s2] exI [of _ s3] exI [of _ new] exI [of _ nk]) (simp add: s2_def s3_def)
qed

theorem raise_calls_registered_witness:
  "\<exists>s i s3 cbs. snd (CcdCallOnCondition 5 11 0 (demo_ccd 3)) = s \<and> cbl_rep (condcb s ! 5) [(i, \<lparr>cb_fn = 11, cb_arg = 0, cb_pe = - 2\<rparr>)] \<and>
     cbl_rep (condcb s3 ! 5) [] \<and>
     CcdRaiseCondition (\<lambda>cb t s. CcdCallBacksReset t s) 5 s = Some (called (\<lambda>cb t s. CcdCallBacksReset t s) 5 cbs s3)"
proof -
  let ?s = "snd (CcdCallOnCondition 5 11 0 (demo_ccd 3))" and ?run = "\<lambda>cb t (s :: ccd). CcdCallBacksReset t s"
  let ?l = "init_cblist CBLIST_INIT_LEN" and ?cb = "\<lparr>cb_fn = 11, cb_arg = 0, cb_pe = - 2\<rparr>"
  have inv: "ccd_inv ?s" using callback_stepD(1) [OF registration_steps(2) demo_inv] .
  have l: "condcb ?s ! 5 = snd (append_elem ?l 11 0 CcdIGNOREPE)" "condcb_keep ?s ! 5 = ?l" "fst (CmiWallTimer ?s) = 5"
    by (simp_all add: CcdCallOnCondition_def demo_ccd_def case_prod_beta MAXNUMCONDS_def CmiWallTimer_def)
  have r0: "cbl_rep ?l []" by (simp add: cbl_rep_init CBLIST_INIT_LEN_def)
  obtain i where r: "cbl_rep (condcb ?s ! 5) [(i, ?cb)]"
    using cbl_rep_append(2) [OF r0, of 11 0 CcdIGNOREPE] unfolding l by (auto simp: CcdIGNOREPE_def)
  have f: "\<not> cl_flag (condcb ?s ! 5)" unfolding l by simp
  have k: "cbl_rep (condcb_keep ?s ! 5) []" using r0 unfolding l .
  have "5 < MAXNUMCONDS" "\<forall>cb t s. callback_step s (?run cb t s)"
    by (simp_all add: MAXNUMCONDS_def registration_steps)
  from raise_calls_registered [OF this(2) inv this(1) f r k] obtain s2 s3 new nk where
    R: "s2 = called ?run 5 (map snd [(i, ?cb)]) (upd_condcb 5 (\<lambda>l. l\<lparr>cl_flag := True\<rparr>) (snd (CmiWallTimer ?s)))"
    "s3 = upd_condcb 5 (\<lambda>l. (remove_n_elems l (length [(i, ?cb)]))\<lparr>cl_flag := False\<rparr>) s2"
    "cbl_rep (condcb s2 ! 5) ([(i, ?cb)] @ new)" "cbl_rep (condcb s3 ! 5) new"
    "cbl_rep (condcb_keep s3 ! 5) ([] @ nk)" "CcdRaiseCondition ?run 5 ?s = Some (called ?run 5 (map snd ([] @ nk)) s3)"
    unfolding l(3) by (elim exE conjE) (rule that)
  have "condcb s2 ! 5 = (condcb ?s ! 5)\<lparr>cl_flag := True\<rparr>"
    unfolding R(1) by (simp add: CcdCallBacksReset_def upd_condcb_def CmiWallTimer_def nth_upd_cases
        CcdCallOnCondition_def demo_ccd_def case_prod_beta MAXNUMCONDS_def)
  then have "cl_len (condcb s2 ! 5) = 1" using cbl_rep_len [OF r] by simp
  then have "new = []" using cbl_rep_len [OF R(3)] by simp
  then have "cbl_rep (condcb s3 ! 5) []" "CcdRaiseCondition ?run 5 ?s = Some (called ?run 5 (map snd nk) s3)"
    using R(4,6) by simp_all
  with r show ?thesis by blast
qed

text \<open>
  C18.  Nesting is safe.  Raising any condition, also one that is being raised, always returns
  and keeps the contract of callbacks: all lists stay well formed, a condition in progress loses
  none of its callbacks, and no permanent callback is lost.
\<close>

theorem raise_nests:
  assumes "\<forall>cb t s. callback_step s (run cb t s)" "ccd_inv s" "c < MAXNUMCONDS"
  shows "\<exists>s'. CcdRaiseCondition run c s = Some s' \<and> callback_step s s'"
proof -
  have "callbacks run" using assms(1) by unfold_locales blast
  then show ?thesis using callbacks.raise_step assms(2,3) by blast
qed

theorem raise_nests_witness:
  "\<exists>s'. CcdRaiseCondition (\<lambda>cb t s. snd (CcdCallOnCondition 5 11 0 s)) 5 (demo_ccd 3) = Some s' \<and> callback_step (demo_ccd 3) s'"
  using raise_nests [of "\<lambda>cb t s. snd (CcdCallOnCondition 5 11 0 s)" "demo_ccd 3" 5]
  by (simp add: registration_steps demo_inv MAXNUMCONDS_def)

text \<open>
  C19.  One periodic check.  It returns.  First the expired timers are called, then exactly the
  leading periodic conditions that are due, up to the first that is not, are raised in order of
  their periods and scheduled anew; a condition that is due while a shorter one is not stays due and is left
  for a later check.  The conditions are those of the parts: the callbacks keep their contract
  (they register, set timers and raise, C17), and, as in C15, the timer heap does not fill its
  array and the callbacks of expired timers leave the waiting area alone.
\<close>

theorem periodic_check:
  fixes run :: "'w runner" and s0 :: "'w ccd_scheme"
  defines "now \<equiv> fst (CmiWallTimer s0)" and "s \<equiv> snd (CmiWallTimer s0)"
  defines "s1 \<equiv> s\<lparr>numchecks := adjust_skip (now - lastCheck s) (nSkip s), nSkip := adjust_skip (now - lastCheck s) (nSkip s), lastCheck := now\<rparr>"
  assumes contract: "\<forall>cb t s. callback_step s (run cb t s)" and inv: "ccd_inv s0"
    and len: "length (nextCall s0) = CCD_PERIODIC_MAX"
    and wf: "timer_wf (tmr s0)" and room: "hp_len (tmr s0) < hp_max (tmr s0)"
    and pull: "pull_loop (tmr s0) now 0 = (h, ne)"
    and und: "undisturbed run now (waiting h ne) (s1\<lparr>tmr := h\<rparr>)"
  shows "\<exists>s'. CcdCallBacks run s0 = Some s' \<and>
    raise_periodic run now [0..<length (takeWhile (\<lambda>t. t \<le> now) (nextCall s0))]
      (called run now (map he_cb (waiting h ne)) (s1\<lparr>tmr := h\<rparr>)) = Some s' \<and>
    ccd_inv s' \<and> length (nextCall s') = CCD_PERIODIC_MAX \<and>
    (\<forall>j < CCD_PERIODIC_MAX. nextCall s' ! j =
       (if \<forall>l \<le> j. nextCall s0 ! l \<le> now then now + periodicCallInterval ! j else nextCall s0 ! j))"
proof -
  have cb: "callbacks run" using contract by unfold_locales blast
  have s1: "tmr s1 = tmr s0" "nextCall s1 = nextCall s0" "condcb s1 = condcb s0" "condcb_keep s1 = condcb_keep s0"
    by (simp_all add: s1_def s_def CmiWallTimer_def)
  have inv1: "ccd_inv s1" using inv by (simp add: ccd_inv_def s1)
  define s2 where "s2 = called run now (map he_cb (waiting h ne)) (s1\<lparr>tmr := h\<rparr>)"
  have s2: "ccd_heap_update run now s1 = Some s2" "callback_step s1 s2"
    using callbacks.heap_update_step [OF cb, of s1 now h ne] wf room pull und s1 by (auto simp: s2_def)
  note D = callback_stepD [OF s2(2) inv1]
  have "length (nextCall s2) = CCD_PERIODIC_MAX" using D(2) len s1 by simp
  from callbacks.periodic_step [OF cb D(1) this, of 0 CCD_PERIODIC_MAX now] obtain s' where
    s': "periodic_loop run now 0 CCD_PERIODIC_MAX s2 = Some s'" "ccd_inv s'" "length (nextCall s') = CCD_PERIODIC_MAX"
    "\<forall>j < CCD_PERIODIC_MAX. nextCall s' ! j = (if \<forall>l \<in> {0..j}. nextCall s2 ! l \<le> now
        then now + periodicCallInterval ! j else nextCall s2 ! j)"
    "raise_periodic run now [0..<length (takeWhile (\<lambda>t. t \<le> now) (nextCall s2))] s2 = Some s'"
    by auto
  have "CcdCallBacks run s0 = Some s'"
    using s2(1) s'(1) unfolding s1_def now_def s_def by (simp add: CcdCallBacks_def Let_def case_prod_beta)
  then show ?thesis using s' D(2) s1(2) unfolding s2_def [symmetric] by auto
qed

theorem periodic_check_witness:
  "\<exists>s' s2. CcdCallBacks (\<lambda>cb t s. CcdCallFnAfter 9 0 1000 s) (demo_ccd 3) = Some s' \<and>
     raise_periodic (\<lambda>cb t s. CcdCallFnAfter 9 0 1000 s) 5 [0, 1] s2 = Some s' \<and>
     nextCall s' ! 1 = 5 + 1 / 100 \<and> nextCall s' ! 2 = 9 \<and> nextCall s' ! 3 = 4"
proof -
  let ?h = "fst (pull_loop (demo_heap 3) 5 0)" and ?run = "\<lambda>cb t (s :: ccd). CcdCallFnAfter 9 0 1000 s"
  have t: "tmr (demo_ccd 3) = demo_heap 3" "fst (CmiWallTimer (demo_ccd 3)) = 5"
    by (simp_all add: demo_ccd_def CmiWallTimer_def)
  have und: "undisturbed ?run 5 (waiting ?h 2) (s\<lparr>tmr := ?h\<rparr>)" for s
    unfolding demo_pull(2) using demo_pull(3,4) by (intro undisturbed_deferring) simp_all
  have 1: "\<forall>cb t s. callback_step s (?run cb t s)" "length (nextCall (demo_ccd 3)) = CCD_PERIODIC_MAX"
    "timer_wf (tmr (demo_ccd 3))" "hp_len (tmr (demo_ccd 3)) < hp_max (tmr (demo_ccd 3))"
    "pull_loop (tmr (demo_ccd 3)) (fst (CmiWallTimer (demo_ccd 3))) 0 = (?h, 2)"
    unfolding t by (simp_all add: registration_steps demo_heap_wf demo_pull(1) [symmetric])
      (simp_all add: demo_ccd_def demo_heap_def CCD_PERIODIC_MAX_def)
  from periodic_check [OF 1(1) demo_inv 1(2-5), unfolded t, OF und] obtain s' s2 where
    s': "CcdCallBacks ?run (demo_ccd 3) = Some s'" "\<forall>j < CCD_PERIODIC_MAX. nextCall s' ! j =
      (if \<forall>l \<le> j. nextCall (demo_ccd 3) ! l \<le> 5 then 5 + periodicCallInterval ! j else nextCall (demo_ccd 3) ! j)"
      "raise_periodic ?run 5 [0..<length (takeWhile (\<lambda>t. t \<le> 5) (nextCall (demo_ccd 3)))] s2 = Some s'"
    by blast
  have n: "nextCall (demo_ccd 3) = [4, 4, 9, 4, 9, 9, 9, 9, 9, 9, 9, 9, 9]" by (simp add: demo_ccd_def)
  have "nextCall s' ! 1 = 5 + 1 / 100"
    using s'(2) [rule_format, of 1] by (simp add: n CCD_PERIODIC_MAX_def periodicCallInterval_def le_Suc_eq)
  moreover have late: "\<not> (\<forall>l \<le> j. nextCall (demo_ccd 3) ! l \<le> 5)" if "j = 2 \<or> j = 3" for j
    using that by (intro notI) (drule spec [of _ 2], auto simp: n)
  have "nextCall s' ! 2 = nextCall (demo_ccd 3) ! 2" "nextCall s' ! 3 = nextCall (demo_ccd 3) ! 3"
    using s'(2) [rule_format, of 2, unfolded if_not_P [OF late [OF disjI1 [OF refl]]]]
      s'(2) [rule_format, of 3, unfolded if_not_P [OF late [OF disjI2 [OF refl]]]]
    by (simp_all add: CCD_PERIODIC_MAX_def)
  then have "nextCall s' ! 2 = 9" "nextCall s' ! 3 = 4" by (simp_all add: n)
  moreover have "raise_periodic ?run 5 [0, 1] s2 = Some s'"
    using s'(3) unfolding n by (simp add: upt_rec)
  ultimately show ?thesis using s'(1) by blast
qed

lemma skip_table:
  "list_all (\<lambda>k. (adjust_skip 0 ^^ 5) (of_nat k) = 20 \<and> (adjust_skip 1 ^^ 5) (of_nat k) = 1) [1..<21]"
  by code_simp

text \<open>
  The number of scheduler rounds between two checks stays between 1 and 20 whatever
  the stored value was, and adapts: six checks that come too early raise it to 20, six that come
  too late bring it down to 1.
\<close>

theorem skip_adapts:
  "1 \<le> adjust_skip e n \<and> adjust_skip e n \<le> 20 \<and>
   (adjust_skip e ^^ 6) n = (if e < targetElapsed then 20 else 1)"
proof -
  have pos: "1 \<le> x \<longleftrightarrow> x \<noteq> 0" for x :: u32 by (metis linorder_not_less word_less_1)
  have b: "1 \<le> adjust_skip e n \<and> adjust_skip e n \<le> 20" for n
    by (auto simp: adjust_skip_def Let_def minSkip_def maxSkip_def not_less pos)
  define m where "m = adjust_skip e n"
  have m: "unat m \<in> {1..20}" using b [of n] by (simp add: m_def word_le_nat_alt)
  have eq: "m = of_nat (unat m)" by simp
  have "unat m \<in> set [1..<21]" using m by auto
  then have "(adjust_skip 0 ^^ 5) m = 20" "(adjust_skip 1 ^^ 5) m = 1"
    using skip_table eq unfolding list_all_iff by metis+
  moreover have "adjust_skip e = adjust_skip (if e < targetElapsed then 0 else 1)"
    by (auto simp: adjust_skip_def targetElapsed_def fun_eq_iff)
  ultimately have "(adjust_skip e ^^ 5) m = (if e < targetElapsed then 20 else 1)" by simp
  then show ?thesis using b [of n] by (simp add: m_def funpow_swap1 numeral_eq_Suc)
qed

end
