(* ===== verification/Spantree.thy ===== *)
theory Spantree
  imports Prelude
begin

text \<open>
  The spanning tree macros of \<^verbatim>\<open>conv-core/converse.h\<close>: a tree of width
  \<^verbatim>\<open>CMK_SPANTREE_MAXSPAN\<close> over the nodes, and inside every node a tree of the same width over its
  processors, hanging below the first one.  How processors are numbered is a parameter
  (\<open>topology\<close>); the two numberings that \<^verbatim>\<open>converse.h\<close> fixes itself are instances.
\<close>

section \<open>The macros\<close>

record topology =
  CmiNumNodes :: nat
  CmiNodeFirst :: "nat \<Rightarrow> nat"
  CmiNodeSize :: "nat \<Rightarrow> nat"
  CmiNodeOf :: "nat \<Rightarrow> nat"
  CmiRankOf :: "nat \<Rightarrow> nat"
  CmiNumPes :: nat

definition CST_W :: nat where "CST_W = 4"

definition CmiNodeSpanTreeParent :: "nat \<Rightarrow> int" where
  "CmiNodeSpanTreeParent n = (if n \<noteq> 0 then int ((n - 1) div CST_W) else - 1)"

text \<open>The children below position \<open>n\<close> of a tree over \<open>nn\<close> positions, and their number.\<close>

definition tree_children :: "nat \<Rightarrow> nat \<Rightarrow> nat list" where
  "tree_children nn n = filter (\<lambda>x. x < nn) (map (\<lambda>i. n * CST_W + i + 1) [0..<CST_W])"

definition num_tree_children :: "nat \<Rightarrow> nat \<Rightarrow> nat" where
  "num_tree_children nn n =
     (if (n + 1) * CST_W < nn then CST_W else if n * CST_W + 1 \<ge> nn then 0 else (nn - 1) - n * CST_W)"

definition CmiNodeSpanTreeChildren :: "topology \<Rightarrow> nat \<Rightarrow> nat list" where
  "CmiNodeSpanTreeChildren T n = tree_children (CmiNumNodes T) n"

definition CmiNumNodeSpanTreeChildren :: "topology \<Rightarrow> nat \<Rightarrow> nat" where
  "CmiNumNodeSpanTreeChildren T n = num_tree_children (CmiNumNodes T) n"

definition CmiSpanTreeParent :: "topology \<Rightarrow> nat \<Rightarrow> int" where
  "CmiSpanTreeParent T p =
     (if p \<noteq> 0 then
        (if CmiRankOf T p \<noteq> 0 then int (CmiNodeFirst T (CmiNodeOf T p) + (CmiRankOf T p - 1) div CST_W)
         else int (CmiNodeFirst T (nat (CmiNodeSpanTreeParent (CmiNodeOf T p)))))
      else - 1)"

definition CST_C :: "topology \<Rightarrow> nat \<Rightarrow> nat" where
  "CST_C T p = num_tree_children (CmiNodeSize T (CmiNodeOf T p)) (CmiRankOf T p)"

definition CmiNumSpanTreeChildren :: "topology \<Rightarrow> nat \<Rightarrow> nat" where
  "CmiNumSpanTreeChildren T p =
     (if CmiRankOf T p \<noteq> 0 then CST_C T p else CmiNumNodeSpanTreeChildren T (CmiNodeOf T p) + CST_C T p)"

definition CmiSpanTreeChildren :: "topology \<Rightarrow> nat \<Rightarrow> nat list" where
  "CmiSpanTreeChildren T p =
     (if CmiRankOf T p = 0 then map (CmiNodeFirst T) (tree_children (CmiNumNodes T) (CmiNodeOf T p)) else []) @
     map (\<lambda>x. CmiNodeFirst T (CmiNodeOf T p) + x) (tree_children (CmiNodeSize T (CmiNodeOf T p)) (CmiRankOf T p))"

text \<open>One processor per node, and one node with all processors.\<close>

definition single_topology :: "nat \<Rightarrow> topology" where
  "single_topology n = \<lparr>CmiNumNodes = n, CmiNodeFirst = (\<lambda>m. m), CmiNodeSize = (\<lambda>_. 1), CmiNodeOf = (\<lambda>p. p),
     CmiRankOf = (\<lambda>_. 0), CmiNumPes = n\<rparr>"

definition multicore_topology :: "nat \<Rightarrow> topology" where
  "multicore_topology n = \<lparr>CmiNumNodes = 1, CmiNodeFirst = (\<lambda>_. 0), CmiNodeSize = (\<lambda>_. n), CmiNodeOf = (\<lambda>_. 0),
     CmiRankOf = (\<lambda>p. p), CmiNumPes = n\<rparr>"

section \<open>The tree over consecutive positions\<close>

lemma tree_children_iff:
  "x \<in> set (tree_children nn n) \<longleftrightarrow> x < nn \<and> x \<noteq> 0 \<and> (x - 1) div CST_W = n"
proof
  assume "x \<in> set (tree_children nn n)"
  then obtain i where "i < CST_W" "x = n * CST_W + i + 1" "x < nn" by (auto simp: tree_children_def)
  then show "x < nn \<and> x \<noteq> 0 \<and> (x - 1) div CST_W = n" by simp
next
  assume x: "x < nn \<and> x \<noteq> 0 \<and> (x - 1) div CST_W = n"
  have "x - 1 = n * CST_W + (x - 1) mod CST_W" using x by (metis div_mult_mod_eq)
  moreover have "(x - 1) mod CST_W < CST_W" by (simp add: CST_W_def)
  ultimately show "x \<in> set (tree_children nn n)"
    using x by (auto simp: tree_children_def intro!: image_eqI [of _ _ "(x - 1) mod CST_W"])
qed

lemma distinct_tree_children: "distinct (tree_children nn n)"
  by (auto simp: tree_children_def distinct_map inj_on_def)

lemma length_tree_children: "length (tree_children nn n) = num_tree_children nn n"
proof -
  have "set (tree_children nn n) = {n * CST_W + 1..<min nn (n * CST_W + CST_W + 1)}"
  proof (intro set_eqI)
    fix x
    show "x \<in> set (tree_children nn n) \<longleftrightarrow> x \<in> {n * CST_W + 1..<min nn (n * CST_W + CST_W + 1)}"
      unfolding tree_children_iff by (auto simp: CST_W_def)
  qed
  then have "length (tree_children nn n) = min nn (n * CST_W + CST_W + 1) - (n * CST_W + 1)"
    using distinct_card [OF distinct_tree_children, of nn n] by simp
  then show ?thesis by (auto simp: num_tree_children_def CST_W_def min_def)
qed

section \<open>The tree over the processors\<close>

definition topo_wf :: "topology \<Rightarrow> bool" where
  "topo_wf T \<longleftrightarrow> CmiNodeFirst T 0 = 0 \<and>
     (\<forall>p < CmiNumPes T. CmiNodeOf T p < CmiNumNodes T \<and> CmiRankOf T p < CmiNodeSize T (CmiNodeOf T p) \<and>
        p = CmiNodeFirst T (CmiNodeOf T p) + CmiRankOf T p) \<and>
     (\<forall>n < CmiNumNodes T. 0 < CmiNodeSize T n \<and> (\<forall>r < CmiNodeSize T n. CmiNodeFirst T n + r < CmiNumPes T \<and>
        CmiNodeOf T (CmiNodeFirst T n + r) = n \<and> CmiRankOf T (CmiNodeFirst T n + r) = r)) \<and>
     (\<forall>m n. m < n \<and> n < CmiNumNodes T \<longrightarrow> CmiNodeFirst T m < CmiNodeFirst T n)"

lemma topo_wf_instances: "0 < n \<Longrightarrow> topo_wf (single_topology n)" "0 < n \<Longrightarrow> topo_wf (multicore_topology n)"
  by (auto simp: topo_wf_def single_topology_def multicore_topology_def)

lemma topo_wfD:
  assumes "topo_wf T"
  shows "CmiNodeFirst T 0 = 0"
    "p < CmiNumPes T \<Longrightarrow> CmiNodeOf T p < CmiNumNodes T" "p < CmiNumPes T \<Longrightarrow> CmiRankOf T p < CmiNodeSize T (CmiNodeOf T p)"
    "p < CmiNumPes T \<Longrightarrow> CmiNodeFirst T (CmiNodeOf T p) + CmiRankOf T p = p"
    "n < CmiNumNodes T \<Longrightarrow> 0 < CmiNodeSize T n"
    "n < CmiNumNodes T \<Longrightarrow> r < CmiNodeSize T n \<Longrightarrow> CmiNodeFirst T n + r < CmiNumPes T"
    "n < CmiNumNodes T \<Longrightarrow> r < CmiNodeSize T n \<Longrightarrow> CmiNodeOf T (CmiNodeFirst T n + r) = n"
    "n < CmiNumNodes T \<Longrightarrow> r < CmiNodeSize T n \<Longrightarrow> CmiRankOf T (CmiNodeFirst T n + r) = r"
    "m < n \<Longrightarrow> n < CmiNumNodes T \<Longrightarrow> CmiNodeFirst T m < CmiNodeFirst T n"
  using assms unfolding topo_wf_def by auto

text \<open>The first processor of a node hangs below a first processor, the others below one of their node.\<close>

lemma spantree_parent_cases:
  assumes wf: "topo_wf T" and q: "q < CmiNumPes T" "q \<noteq> 0"
  shows "CmiRankOf T q \<noteq> 0 \<Longrightarrow> CmiSpanTreeParent T q = int (CmiNodeFirst T (CmiNodeOf T q) + (CmiRankOf T q - 1) div CST_W)"
    "CmiRankOf T q = 0 \<Longrightarrow> CmiNodeOf T q \<noteq> 0"
    "CmiRankOf T q = 0 \<Longrightarrow> CmiSpanTreeParent T q = int (CmiNodeFirst T ((CmiNodeOf T q - 1) div CST_W))"
proof -
  show n: "CmiNodeOf T q \<noteq> 0" if "CmiRankOf T q = 0"
    using topo_wfD(1) [OF wf] topo_wfD(4) [OF wf q(1)] q(2) that by (metis add.right_neutral)
  show "CmiSpanTreeParent T q = int (CmiNodeFirst T ((CmiNodeOf T q - 1) div CST_W))" if "CmiRankOf T q = 0"
    using n [OF that] that q by (simp add: CmiSpanTreeParent_def CmiNodeSpanTreeParent_def)
qed (use q in \<open>simp add: CmiSpanTreeParent_def\<close>)

lemma spantree_child_iff:
  assumes wf: "topo_wf T" and p: "p < CmiNumPes T"
  shows "q \<in> set (CmiSpanTreeChildren T p) \<longleftrightarrow> q < CmiNumPes T \<and> q \<noteq> 0 \<and> CmiSpanTreeParent T q = int p"
proof
  note D = topo_wfD [OF wf]
  let ?n = "CmiNodeOf T p" and ?r = "CmiRankOf T p"
  have n: "?n < CmiNumNodes T" "?r < CmiNodeSize T ?n" "CmiNodeFirst T ?n + ?r = p" using D(2-4) p by simp_all
  {
    assume "q \<in> set (CmiSpanTreeChildren T p)"
    then consider (node) x where "?r = 0" "q = CmiNodeFirst T x" "x \<in> set (tree_children (CmiNumNodes T) ?n)"
      | (rank) x where "q = CmiNodeFirst T ?n + x" "x \<in> set (tree_children (CmiNodeSize T ?n) ?r)"
      by (auto simp: CmiSpanTreeChildren_def split: if_splits)
    then show "q < CmiNumPes T \<and> q \<noteq> 0 \<and> CmiSpanTreeParent T q = int p"
    proof cases
      case node
      then have x: "x < CmiNumNodes T" "x \<noteq> 0" "(x - 1) div CST_W = ?n" by (simp_all add: tree_children_iff)
      have q: "q < CmiNumPes T" "CmiNodeOf T q = x" "CmiRankOf T q = 0"
        using D(6-8) [OF x(1), of 0] D(5) [OF x(1)] node(2) by simp_all
      moreover have "q \<noteq> 0" using D(1) D(9) [of 0 x] x node(2) by simp
      ultimately show ?thesis using spantree_parent_cases(3) [OF wf, of q] x n node(1) by simp
    next
      case rank
      then have x: "x < CmiNodeSize T ?n" "x \<noteq> 0" "(x - 1) div CST_W = ?r" by (simp_all add: tree_children_iff)
      have q: "q < CmiNumPes T" "CmiNodeOf T q = ?n" "CmiRankOf T q = x"
        using D(6-8) [OF n(1) x(1)] rank(1) by simp_all
      moreover have "q \<noteq> 0" using rank(1) x(2) by simp
      ultimately show ?thesis using spantree_parent_cases(1) [OF wf, of q] x n by simp
    qed
  next
    assume q: "q < CmiNumPes T \<and> q \<noteq> 0 \<and> CmiSpanTreeParent T q = int p"
    let ?m = "CmiNodeOf T q" and ?s = "CmiRankOf T q"
    have m: "?m < CmiNumNodes T" "?s < CmiNodeSize T ?m" "CmiNodeFirst T ?m + ?s = q" using D(2-4) q by simp_all
    show "q \<in> set (CmiSpanTreeChildren T p)"
    proof (cases "?s = 0")
      case True
      then have "?m \<noteq> 0" and par: "p = CmiNodeFirst T ((?m - 1) div CST_W)"
        using spantree_parent_cases(2,3) [OF wf, of q] q by simp_all
      moreover have less: "(?m - 1) div CST_W < CmiNumNodes T"
        using m(1) by (meson diff_le_self div_le_dividend le_less_trans)
      ultimately have "?n = (?m - 1) div CST_W" "?r = 0"
        using D(7,8) [OF less, of 0] D(5) [OF less] by simp_all
      then have "?m \<in> set (tree_children (CmiNumNodes T) ?n)" using m(1) \<open>?m \<noteq> 0\<close> by (simp add: tree_children_iff)
      then show ?thesis using m(3) True \<open>?r = 0\<close> by (auto simp: CmiSpanTreeChildren_def intro!: image_eqI [of q _ ?m])
    next
      case False
      then have par: "p = CmiNodeFirst T ?m + (?s - 1) div CST_W"
        using spantree_parent_cases(1) [OF wf, of q] q by simp
      have less: "(?s - 1) div CST_W < CmiNodeSize T ?m"
        using m(2) by (meson diff_le_self div_le_dividend le_less_trans)
      have "?n = ?m" "?r = (?s - 1) div CST_W" using D(7,8) [OF m(1) less] par by simp_all
      then have "?s \<in> set (tree_children (CmiNodeSize T ?n) ?r)" using m(2) False by (simp add: tree_children_iff)
      then show ?thesis using m(3) \<open>?n = ?m\<close> by (auto simp: CmiSpanTreeChildren_def intro!: image_eqI [of q _ ?s])
    qed
  }
qed

lemma spantree_distinct:
  assumes wf: "topo_wf T" and p: "p < CmiNumPes T"
  shows "distinct (CmiSpanTreeChildren T p)" "length (CmiSpanTreeChildren T p) = CmiNumSpanTreeChildren T p"
proof -
  note D = topo_wfD [OF wf]
  let ?n = "CmiNodeOf T p"
  have inj: "inj_on (CmiNodeFirst T) (set (tree_children (CmiNumNodes T) ?n))"
  proof (rule inj_onI)
    fix x y assume "x \<in> set (tree_children (CmiNumNodes T) ?n)" "y \<in> set (tree_children (CmiNumNodes T) ?n)"
      "CmiNodeFirst T x = CmiNodeFirst T y"
    then show "x = y" using D(9) [of x y] D(9) [of y x] by (auto simp: tree_children_iff intro: linorder_cases)
  qed
  have "CmiNodeFirst T x \<noteq> CmiNodeFirst T ?n + y"
    if "x \<in> set (tree_children (CmiNumNodes T) ?n)" "y \<in> set (tree_children (CmiNodeSize T ?n) 0)" for x y
  proof
    assume e: "CmiNodeFirst T x = CmiNodeFirst T ?n + y"
    have "x < CmiNumNodes T" "y < CmiNodeSize T ?n" "y \<noteq> 0" using that by (simp_all add: tree_children_iff)
    then have "CmiRankOf T (CmiNodeFirst T x) = 0" "CmiRankOf T (CmiNodeFirst T ?n + y) = y"
      using D(8) [of x 0] D(5) [of x] D(8) [of ?n y] D(2) [OF p] by simp_all
    with e \<open>y \<noteq> 0\<close> show False by simp
  qed
  then show "distinct (CmiSpanTreeChildren T p)"
    using inj by (auto simp: CmiSpanTreeChildren_def distinct_map distinct_tree_children inj_on_def)
  show "length (CmiSpanTreeChildren T p) = CmiNumSpanTreeChildren T p"
    by (simp add: CmiSpanTreeChildren_def CmiNumSpanTreeChildren_def length_tree_children CmiNumNodeSpanTreeChildren_def CST_C_def)
qed

lemma spantree_parent_less:
  assumes wf: "topo_wf T" and p: "p < CmiNumPes T" "p \<noteq> 0"
  shows "0 \<le> CmiSpanTreeParent T p" "CmiSpanTreeParent T p < int p"
proof -
  note D = topo_wfD [OF wf]
  have "0 \<le> CmiSpanTreeParent T p \<and> CmiSpanTreeParent T p < int p"
  proof (cases "CmiRankOf T p = 0")
    case True
    then have n: "CmiNodeOf T p \<noteq> 0" using spantree_parent_cases(2) [OF wf p] by simp
    then have "(CmiNodeOf T p - 1) div CST_W < CmiNodeOf T p"
      by (metis One_nat_def Suc_pred div_le_dividend le_imp_less_Suc neq0_conv)
    then have "CmiNodeFirst T ((CmiNodeOf T p - 1) div CST_W) < p"
      using D(2,4,9) p True by (metis add.right_neutral)
    then show ?thesis using spantree_parent_cases(3) [OF wf p True] by simp
  next
    case False
    then have "(CmiRankOf T p - 1) div CST_W < CmiRankOf T p"
      by (metis One_nat_def Suc_pred div_le_dividend le_imp_less_Suc neq0_conv)
    then show ?thesis using spantree_parent_cases(1) [OF wf p False] D(4) [OF p(1)] by linarith
  qed
  then show "0 \<le> CmiSpanTreeParent T p" "CmiSpanTreeParent T p < int p" by simp_all
qed

section \<open>The contract of a spanning tree\<close>

text \<open>What the collective algorithms need of the tree; sums over the tree are computed bottom up.\<close>

locale span_tree =
  fixes npes :: nat and parent :: "nat \<Rightarrow> nat" and children :: "nat \<Rightarrow> nat list"
  assumes npes_pos: "0 < npes"
    and child_iff: "i < npes \<Longrightarrow> j \<in> set (children i) \<longleftrightarrow> j < npes \<and> j \<noteq> 0 \<and> parent j = i"
    and children_distinct: "i < npes \<Longrightarrow> distinct (children i)"
    and parent_less: "j < npes \<Longrightarrow> j \<noteq> 0 \<Longrightarrow> parent j < j"
begin

lemma parent_npes: "j < npes \<Longrightarrow> j \<noteq> 0 \<Longrightarrow> parent j < npes"
  using parent_less less_trans by blast

lemma tree_induct:
  assumes "j < npes" "P 0" "\<And>j. j < npes \<Longrightarrow> j \<noteq> 0 \<Longrightarrow> P (parent j) \<Longrightarrow> P j"
  shows "P j"
  using assms(1)
proof (induction j rule: less_induct)
  case (less j)
  then show ?case using assms(2,3) parent_less parent_npes by (cases "j = 0") auto
qed

text \<open>If every processor but the root adds its own value to those of its children, the children of the root carry the rest.\<close>

lemma sum_children:
  fixes v g :: "nat \<Rightarrow> 'a :: cancel_comm_monoid_add"
  assumes "\<And>j. j < npes \<Longrightarrow> j \<noteq> 0 \<Longrightarrow> v j = g j + (\<Sum>c \<in> set (children j). v c)"
  shows "g 0 + (\<Sum>c \<in> set (children 0). v c) = (\<Sum>j < npes. g j)"
proof -
  let ?R = "{1..<npes}" and ?k = "\<lambda>j. \<Sum>c \<in> set (children j). v c"
  have fam: "(\<Union>j \<in> {..<npes}. set (children j)) = ?R" using child_iff parent_npes by auto
  have "(\<Sum>j < npes. ?k j) = (\<Sum>c \<in> ?R. v c)"
    unfolding fam [symmetric]
    by (rule sum.UNION_disjoint [symmetric]) (auto simp: child_iff)
  moreover have split: "{..<npes} = insert 0 ?R" using npes_pos by auto
  ultimately have "?k 0 + (\<Sum>j \<in> ?R. ?k j) = (\<Sum>c \<in> ?R. v c)" by simp
  also have "\<dots> = (\<Sum>j \<in> ?R. g j) + (\<Sum>j \<in> ?R. ?k j)" using assms by (simp add: sum.distrib [symmetric])
  finally have "?k 0 = (\<Sum>j \<in> ?R. g j)" by simp
  then show ?thesis using split by simp
qed

end

lemma span_tree_topology:
  assumes "topo_wf T" "0 < CmiNumPes T"
  shows "span_tree (CmiNumPes T) (\<lambda>p. nat (CmiSpanTreeParent T p)) (CmiSpanTreeChildren T)"
proof
  fix i j assume "i < CmiNumPes T"
  then show "j \<in> set (CmiSpanTreeChildren T i) \<longleftrightarrow> j < CmiNumPes T \<and> j \<noteq> 0 \<and> nat (CmiSpanTreeParent T j) = i"
    using spantree_child_iff [OF assms(1)] spantree_parent_less(1) [OF assms(1)] by auto
next
  fix j assume "j < CmiNumPes T" "j \<noteq> 0"
  then show "nat (CmiSpanTreeParent T j) < j" using spantree_parent_less [OF assms(1)] by fastforce
qed (use assms spantree_distinct in auto)

interpretation single_tree: span_tree "Suc n" "\<lambda>p. nat (CmiSpanTreeParent (single_topology (Suc n)) p)"
  "CmiSpanTreeChildren (single_topology (Suc n))" for n
  using span_tree_topology [OF topo_wf_instances(1), of "Suc n"] by (simp add: single_topology_def)

interpretation multicore_tree: span_tree "Suc n" "\<lambda>p. nat (CmiSpanTreeParent (multicore_topology (Suc n)) p)"
  "CmiSpanTreeChildren (multicore_topology (Suc n))" for n
  using span_tree_topology [OF topo_wf_instances(2), of "Suc n"] by (simp add: multicore_topology_def)

section \<open>Property\<close>

text \<open>
  C21.  The macros describe one tree.  For every numbering of processors by nodes, the children
  a processor is given are exactly the processors that name it as their parent, none twice, as
  many as the count macro says, and a parent always has a smaller number than its child.
\<close>

theorem spantree_consistent:
  assumes "topo_wf T" "p < CmiNumPes T"
  shows "distinct (CmiSpanTreeChildren T p) \<and> length (CmiSpanTreeChildren T p) = CmiNumSpanTreeChildren T p \<and>
    set (CmiSpanTreeChildren T p) = {q. q < CmiNumPes T \<and> q \<noteq> 0 \<and> CmiSpanTreeParent T q = int p} \<and>
    (if p = 0 then CmiSpanTreeParent T p = - 1 else 0 \<le> CmiSpanTreeParent T p \<and> CmiSpanTreeParent T p < int p)"
proof (intro conjI)
  show "set (CmiSpanTreeChildren T p) = {q. q < CmiNumPes T \<and> q \<noteq> 0 \<and> CmiSpanTreeParent T q = int p}"
    using spantree_child_iff [OF assms] by blast
  show "if p = 0 then CmiSpanTreeParent T p = - 1 else 0 \<le> CmiSpanTreeParent T p \<and> CmiSpanTreeParent T p < int p"
    using spantree_parent_less [OF assms] by (simp add: CmiSpanTreeParent_def [of T 0])
qed (rule spantree_distinct [OF assms])+

text \<open>Nodes of equal size, for instance two of six processors each.\<close>

definition equal_nodes :: "nat \<Rightarrow> nat \<Rightarrow> topology" where
  "equal_nodes k s = \<lparr>CmiNumNodes = k, CmiNodeFirst = (\<lambda>n. s * n), CmiNodeSize = (\<lambda>_. s), CmiNodeOf = (\<lambda>p. p div s),
     CmiRankOf = (\<lambda>p. p mod s), CmiNumPes = k * s\<rparr>"

abbreviation two_nodes :: topology where "two_nodes \<equiv> equal_nodes 2 6"

lemma topo_wf_equal:
  assumes "0 < s"
  shows "topo_wf (equal_nodes k s)"
proof -
  have "s * n + r < k * s" if "n < k" "r < s" for n r
  proof -
    have "s * n + r < s * Suc n" using that by simp
    also have "\<dots> \<le> s * k" using that by (intro mult_le_mono2) simp
    finally show ?thesis by (simp add: mult.commute)
  qed
  moreover have "p < k * s \<Longrightarrow> p div s < k" for p by (rule less_mult_imp_div_less)
  ultimately show ?thesis using assms unfolding topo_wf_def by (simp add: equal_nodes_def)
qed

theorem spantree_consistent_witness:
  "CmiSpanTreeChildren two_nodes 0 = [6, 1, 2, 3, 4] \<and> CmiNumSpanTreeChildren two_nodes 0 = 5 \<and>
   {q. q < 12 \<and> q \<noteq> 0 \<and> CmiSpanTreeParent two_nodes q = 0} = {6, 1, 2, 3, 4}"
proof -
  have "topo_wf two_nodes" by (rule topo_wf_equal) simp
  moreover have n: "CmiNumPes two_nodes = 12" by (simp add: equal_nodes_def)
  moreover have c: "CmiSpanTreeChildren two_nodes 0 = [6, 1, 2, 3, 4]" by code_simp
  ultimately have "5 = CmiNumSpanTreeChildren two_nodes 0 \<and> {6, 1, 2, 3, 4} = {q. q < 12 \<and> q \<noteq> 0 \<and> CmiSpanTreeParent two_nodes q = int 0}"
    using spantree_consistent [of two_nodes 0] by (simp only: c n) simp
  then show ?thesis using c by simp
qed

end
