(* ===== verification/Quiescence.thy ===== *)
theory Quiescence
  imports Ccd Spantree
begin

text \<open>
  Quiescence detection, \<^verbatim>\<open>conv-core/quiescence.c\<close>: two waves over the spanning tree decide
  whether any application message is still in transit.  This theory has the state and the
  handlers of one processor; \<open>QdSystem\<close> puts the processors together.

  The counters are C integers; they are modelled as unbounded integers, so the results speak
  about runs in which none of them overflows.  \<open>qm_u0\<close> and \<open>qm_u1\<close> are the two words of the
  union in the message: \<^verbatim>\<open>created\<close> and \<^verbatim>\<open>dirty\<close> share the first.  A failed \<^verbatim>\<open>CmiAssert\<close> and a
  call of \<^verbatim>\<open>CmiAbort\<close> are error results.  The handlers return the messages they send; sending
  counts one created message, as the machine layer does
  (\<^verbatim>\<open>arch/util/machine-common-core.c\<close>, \<^verbatim>\<open>CmiInterFreeSendFn\<close>).
\<close>

section \<open>Messages and states\<close>

record qd_msg =
  qm_phase :: int
  qm_u0 :: int
  qm_u1 :: int

record qd_state =
  qs_stage :: int
  oProcessed :: int
  mCreated :: int
  mProcessed :: int
  cCreated :: int
  cProcessed :: int
  cDirty :: int
  nReported :: int
  nChildren :: int
  qs_parent :: int
  qs_children :: "nat list"

datatype qd_out = QdSend nat qd_msg | QdAnnounce qd_msg

definition CQdMsgGetPhase :: "qd_msg \<Rightarrow> int" where "CQdMsgGetPhase m = qm_phase m"

definition CQdMsgSetPhase :: "qd_msg \<Rightarrow> int \<Rightarrow> qd_msg" where "CQdMsgSetPhase m p = m\<lparr>qm_phase := p\<rparr>"

definition CQdMsgGetCreated :: "qd_msg \<Rightarrow> int result" where
  "CQdMsgGetCreated m = rbind (CmiAssert (qm_phase m = 1) ''msg->phase==1'') (\<lambda>_. Inr (qm_u0 m))"

definition CQdMsgSetCreated :: "qd_msg \<Rightarrow> int \<Rightarrow> qd_msg result" where
  "CQdMsgSetCreated m c = rbind (CmiAssert (qm_phase m = 1) ''msg->phase==1'') (\<lambda>_. Inr (m\<lparr>qm_u0 := c\<rparr>))"

definition CQdMsgGetProcessed :: "qd_msg \<Rightarrow> int result" where
  "CQdMsgGetProcessed m = rbind (CmiAssert (qm_phase m = 1) ''msg->phase==1'') (\<lambda>_. Inr (qm_u1 m))"

definition CQdMsgSetProcessed :: "qd_msg \<Rightarrow> int \<Rightarrow> qd_msg result" where
  "CQdMsgSetProcessed m p = rbind (CmiAssert (qm_phase m = 1) ''msg->phase==1'') (\<lambda>_. Inr (m\<lparr>qm_u1 := p\<rparr>))"

definition CQdMsgGetDirty :: "qd_msg \<Rightarrow> int result" where
  "CQdMsgGetDirty m = rbind (CmiAssert (qm_phase m = 2) ''msg->phase==2'') (\<lambda>_. Inr (qm_u0 m))"

definition CQdMsgSetDirty :: "qd_msg \<Rightarrow> int \<Rightarrow> qd_msg result" where
  "CQdMsgSetDirty m d = rbind (CmiAssert (qm_phase m = 2) ''msg->phase==2'') (\<lambda>_. Inr (m\<lparr>qm_u0 := d\<rparr>))"

definition CQdGetCreated :: "qd_state \<Rightarrow> int" where "CQdGetCreated s = mCreated s"
definition CQdCreate :: "qd_state \<Rightarrow> int \<Rightarrow> qd_state" where "CQdCreate s n = s\<lparr>mCreated := mCreated s + n\<rparr>"
definition CQdGetProcessed :: "qd_state \<Rightarrow> int" where "CQdGetProcessed s = mProcessed s"
definition CQdProcess :: "qd_state \<Rightarrow> int \<Rightarrow> qd_state" where "CQdProcess s n = s\<lparr>mProcessed := mProcessed s + n\<rparr>"
definition CQdGetParent :: "qd_state \<Rightarrow> int" where "CQdGetParent s = qs_parent s"
definition CQdGetCCreated :: "qd_state \<Rightarrow> int" where "CQdGetCCreated s = cCreated s"
definition CQdGetCProcessed :: "qd_state \<Rightarrow> int" where "CQdGetCProcessed s = cProcessed s"
definition CQdSubtreeCreate :: "qd_state \<Rightarrow> int \<Rightarrow> qd_state" where "CQdSubtreeCreate s c = s\<lparr>cCreated := cCreated s + c\<rparr>"
definition CQdSubtreeProcess :: "qd_state \<Rightarrow> int \<Rightarrow> qd_state" where "CQdSubtreeProcess s p = s\<lparr>cProcessed := cProcessed s + p\<rparr>"
definition CQdGetStage :: "qd_state \<Rightarrow> int" where "CQdGetStage s = qs_stage s"
definition CQdSetStage :: "qd_state \<Rightarrow> int \<Rightarrow> qd_state" where "CQdSetStage s p = s\<lparr>qs_stage := p\<rparr>"
definition CQdReported :: "qd_state \<Rightarrow> qd_state" where "CQdReported s = s\<lparr>nReported := nReported s + 1\<rparr>"
definition CQdAllReported :: "qd_state \<Rightarrow> bool" where "CQdAllReported s \<longleftrightarrow> nReported s = nChildren s + 1"

definition CQdReset :: "qd_state \<Rightarrow> qd_state" where
  "CQdReset s = s\<lparr>nReported := 0, cCreated := 0, cProcessed := 0, cDirty := 0\<rparr>"

definition CQdMarkProcessed :: "qd_state \<Rightarrow> qd_state" where "CQdMarkProcessed s = s\<lparr>oProcessed := mProcessed s\<rparr>"

definition CQdIsDirty :: "qd_state \<Rightarrow> int" where
  "CQdIsDirty s = (if mProcessed s > oProcessed s \<or> cDirty s \<noteq> 0 then 1 else 0)"

definition CQdSubtreeSetDirty :: "qd_state \<Rightarrow> int \<Rightarrow> qd_state" where
  "CQdSubtreeSetDirty s d = s\<lparr>cDirty := (if cDirty s \<noteq> 0 \<or> d \<noteq> 0 then 1 else 0)\<rparr>"

definition CQdStateCreate :: "topology \<Rightarrow> nat \<Rightarrow> qd_state" where
  "CQdStateCreate T pe =
     \<lparr>qs_stage = 0, oProcessed = 0, mCreated = 0, mProcessed = 0, cCreated = 0, cProcessed = 0, cDirty = 0,
      nReported = 0, nChildren = int (CmiNumSpanTreeChildren T pe), qs_parent = CmiSpanTreeParent T pe,
      qs_children = CmiSpanTreeChildren T pe\<rparr>"

section \<open>Sending\<close>

type_synonym qd_io = "qd_state \<times> qd_out list"

text \<open>Sending to one processor and to all; the machine layer counts what it sends.\<close>

definition CmiSyncSend :: "nat \<Rightarrow> qd_msg \<Rightarrow> qd_io \<Rightarrow> qd_io" where
  "CmiSyncSend dest m = (\<lambda>(s, out). (CQdCreate s 1, out @ [QdSend dest m]))"

definition CmiSyncBroadcastAll :: "nat \<Rightarrow> qd_msg \<Rightarrow> qd_io \<Rightarrow> qd_io" where
  "CmiSyncBroadcastAll n m = (\<lambda>(s, out). (CQdCreate s (int n), out @ [QdAnnounce m]))"

fun propagate_loop :: "qd_msg \<Rightarrow> nat list \<Rightarrow> qd_io \<Rightarrow> qd_io" where
  "propagate_loop m [] io = io"
| "propagate_loop m (c # cs) (s, out) = propagate_loop m cs (CmiSyncSend c m (CQdCreate s (- 1), out))"

definition CQdPropagate :: "qd_msg \<Rightarrow> qd_io \<Rightarrow> qd_io" where
  "CQdPropagate m io = propagate_loop m (take (nat (nChildren (fst io))) (qs_children (fst io))) io"

definition CQdBcastQD1 :: "nat \<Rightarrow> qd_state \<Rightarrow> qd_msg \<Rightarrow> qd_io result" where
  "CQdBcastQD1 me s0 m0 =
     (let (s, out) = CQdPropagate (CQdMsgSetPhase m0 0) (s0, []);
          m1 = CQdMsgSetPhase m0 1
      in rbind (CQdMsgSetCreated m1 (CQdGetCreated s)) (\<lambda>m2.
         rbind (CQdMsgSetProcessed m2 (CQdGetProcessed s)) (\<lambda>m3.
         let (s1, out1) = CmiSyncSend me m3 (CQdCreate s (- 1), out)
         in Inr (CQdSetStage (CQdReset (CQdMarkProcessed s1)) 1, out1))))"

definition CQdBcastQD2 :: "nat \<Rightarrow> qd_state \<Rightarrow> qd_msg \<Rightarrow> qd_io result" where
  "CQdBcastQD2 me s0 m0 =
     (let (s, out) = CQdPropagate (CQdMsgSetPhase m0 1) (s0, []);
          m1 = CQdMsgSetPhase m0 2
      in rbind (CQdMsgSetDirty m1 (CQdIsDirty s)) (\<lambda>m2.
         let (s1, out1) = CmiSyncSend me m2 (CQdCreate s (- 1), out)
         in Inr (CQdSetStage (CQdReset s1) 2, out1)))"

section \<open>Handlers\<close>

definition CQdHandlePhase0 :: "nat \<Rightarrow> qd_state \<Rightarrow> qd_msg \<Rightarrow> qd_io result" where
  "CQdHandlePhase0 me s m =
     rbind (CmiAssert (me = 0 \<or> CQdGetStage s = 0) ''CmiMyPe()==0 || CQdGetStage(state)==0'') (\<lambda>_.
       if CQdGetStage s = 0 then CQdBcastQD1 me s m else Inr (s, []))"

text \<open>Report to the parent and return to stage 0.\<close>

definition qd_report :: "qd_state \<Rightarrow> qd_msg \<Rightarrow> qd_io" where
  "qd_report s m =
     (let (s1, out) = CmiSyncSend (nat (CQdGetParent s)) m (CQdCreate s (- 1), [])
      in (CQdSetStage (CQdReset s1) 0, out))"

definition CQdHandlePhase1 :: "nat \<Rightarrow> qd_state \<Rightarrow> qd_msg \<Rightarrow> qd_io result" where
  "CQdHandlePhase1 me s m =
     (if CQdGetStage s = 0 then
        rbind (CmiAssert (me \<noteq> 0) ''CmiMyPe()!=0'') (\<lambda>_. CQdBcastQD2 me s m)
      else if CQdGetStage s = 1 then
        rbind (CQdMsgGetCreated m) (\<lambda>c. rbind (CQdMsgGetProcessed m) (\<lambda>p.
          let s1 = CQdReported (CQdSubtreeProcess (CQdSubtreeCreate s c) p)
          in if CQdAllReported s1 then
               (if me = 0 then
                  (if CQdGetCCreated s1 = CQdGetCProcessed s1 then CQdBcastQD2 me s1 m else CQdBcastQD1 me s1 m)
                else rbind (CQdMsgSetCreated m (CQdGetCCreated s1)) (\<lambda>m1.
                     rbind (CQdMsgSetProcessed m1 (CQdGetCProcessed s1)) (\<lambda>m2. Inr (qd_report s1 m2))))
             else Inr (s1, [])))
      else Inl (Abort ''Internal QD Error. Contact Developers.!''))"

definition CQdHandlePhase2 :: "nat \<Rightarrow> nat \<Rightarrow> qd_state \<Rightarrow> qd_msg \<Rightarrow> qd_io result" where
  "CQdHandlePhase2 npes me s m =
     rbind (CmiAssert (CQdGetStage s = 2) ''CQdGetStage(state)==2'') (\<lambda>_.
     rbind (CQdMsgGetDirty m) (\<lambda>d.
       let s1 = CQdReported (CQdSubtreeSetDirty s d)
       in if CQdAllReported s1 then
            (if me = 0 then
               (if CQdIsDirty s1 \<noteq> 0 then CQdBcastQD1 me s1 m
                else let (s2, out) = CmiSyncBroadcastAll npes m (CQdCreate s1 (0 - int npes), [])
                     in Inr (CQdSetStage (CQdReset s2) 0, out))
             else rbind (CQdMsgSetDirty m (CQdIsDirty s1)) (\<lambda>m1. Inr (qd_report s1 m1)))
          else Inr (s1, [])))"

definition CQdCallWhenIdle :: "nat \<Rightarrow> nat \<Rightarrow> qd_state \<Rightarrow> qd_msg \<Rightarrow> qd_io result" where
  "CQdCallWhenIdle npes me s m =
     (if CQdMsgGetPhase m = 0 then CQdHandlePhase0 me s m
      else if CQdMsgGetPhase m = 1 then CQdHandlePhase1 me s m
      else if CQdMsgGetPhase m = 2 then CQdHandlePhase2 npes me s m
      else Inl (Abort ''Internal QD Error. Contact Developers.!''))"

text \<open>
  The entry points that use the condition module: \<open>idle_fn\<close> is the address of
  \<^verbatim>\<open>CQdCallWhenIdle\<close> and \<open>mp\<close> that of the message.
\<close>

definition CcdPROCESSOR_STILL_IDLE :: nat where "CcdPROCESSOR_STILL_IDLE = 2"
definition CcdQUIESCENCE :: nat where "CcdQUIESCENCE = 30"

definition CQdHandler :: "ptr \<Rightarrow> ptr \<Rightarrow> qd_state \<Rightarrow> 'w ccd_scheme \<Rightarrow> qd_state \<times> 'w ccd_scheme" where
  "CQdHandler idle_fn mp s cc =
     (CQdProcess s (- 1), snd (CcdCallOnCondition CcdPROCESSOR_STILL_IDLE idle_fn mp cc))"

definition CQdRegisterCallback :: "ptr \<Rightarrow> ptr \<Rightarrow> 'w ccd_scheme \<Rightarrow> 'w ccd_scheme" where
  "CQdRegisterCallback fn arg cc = snd (CcdCallOnCondition CcdQUIESCENCE fn arg cc)"

definition CQdAnnounceHandler :: "'w runner \<Rightarrow> qd_state \<Rightarrow> 'w ccd_scheme \<Rightarrow> qd_state \<times> 'w ccd_scheme option" where
  "CQdAnnounceHandler run s cc = (CQdProcess s (- 1), CcdRaiseCondition run CcdQUIESCENCE cc)"

definition qd_start_io :: "qd_state \<Rightarrow> qd_msg \<Rightarrow> qd_io" where
  "qd_start_io s m = CmiSyncSend 0 (CQdMsgSetPhase m 0) (CQdCreate s (- 1), [])"

text \<open>\<open>m\<close> is the message as allocated.\<close>

definition CmiStartQD :: "ptr \<Rightarrow> ptr \<Rightarrow> qd_msg \<Rightarrow> qd_state \<Rightarrow> 'w ccd_scheme \<Rightarrow> qd_io \<times> 'w ccd_scheme" where
  "CmiStartQD fn arg m s cc = (qd_start_io s m, CQdRegisterCallback fn arg cc)"

section \<open>Effect of the sending routines\<close>

lemmas qd_access = CQdMsgGetPhase_def CQdMsgSetPhase_def CQdMsgGetCreated_def CQdMsgSetCreated_def
  CQdMsgGetProcessed_def CQdMsgSetProcessed_def CQdMsgGetDirty_def CQdMsgSetDirty_def CQdGetCreated_def
  CQdCreate_def CQdGetProcessed_def CQdProcess_def CQdGetParent_def CQdGetCCreated_def CQdGetCProcessed_def
  CQdSubtreeCreate_def CQdSubtreeProcess_def CQdGetStage_def CQdSetStage_def CQdReported_def CQdReset_def
  CQdMarkProcessed_def CQdSubtreeSetDirty_def

declare qd_access [qd_simps]

lemma propagate_loop_eq: "propagate_loop m cs (s, out) = (s, out @ map (\<lambda>c. QdSend c m) cs)"
  by (induction cs arbitrary: s out) (simp_all add: CmiSyncSend_def qd_simps)

lemma bcast1_eq:
  assumes "nChildren s = int (length (qs_children s))"
  shows "CQdBcastQD1 me s m = Inr (s\<lparr>oProcessed := mProcessed s, nReported := 0, cCreated := 0, cProcessed := 0, cDirty := 0, qs_stage := 1\<rparr>,
    map (\<lambda>c. QdSend c (m\<lparr>qm_phase := 0\<rparr>)) (qs_children s) @
    [QdSend me (m\<lparr>qm_phase := 1, qm_u0 := mCreated s, qm_u1 := mProcessed s\<rparr>)])"
  using assms by (simp add: CQdBcastQD1_def CQdPropagate_def propagate_loop_eq CmiSyncSend_def qd_simps)

lemma bcast2_eq:
  assumes "nChildren s = int (length (qs_children s))"
  shows "CQdBcastQD2 me s m = Inr (s\<lparr>nReported := 0, cCreated := 0, cProcessed := 0, cDirty := 0, qs_stage := 2\<rparr>,
    map (\<lambda>c. QdSend c (m\<lparr>qm_phase := 1\<rparr>)) (qs_children s) @
    [QdSend me (m\<lparr>qm_phase := 2, qm_u0 := CQdIsDirty s\<rparr>)])"
  using assms by (simp add: CQdBcastQD2_def CQdPropagate_def propagate_loop_eq CmiSyncSend_def qd_simps)

lemma qd_report_eq:
  "qd_report s m = (s\<lparr>nReported := 0, cCreated := 0, cProcessed := 0, cDirty := 0, qs_stage := 0\<rparr>,
     [QdSend (nat (qs_parent s)) m])"
  by (simp add: qd_report_def CmiSyncSend_def qd_simps)

lemma qd_start_eq: "qd_start_io s m = (s, [QdSend 0 (m\<lparr>qm_phase := 0\<rparr>)])"
  by (simp add: qd_start_io_def CmiSyncSend_def qd_simps)

section \<open>Effect of a report\<close>

definition qd_acc :: "int \<Rightarrow> qd_msg \<Rightarrow> qd_state \<Rightarrow> qd_state" where
  "qd_acc w m s = (if w = 1 then CQdReported (CQdSubtreeProcess (CQdSubtreeCreate s (qm_u0 m)) (qm_u1 m))
     else CQdReported (CQdSubtreeSetDirty s (qm_u0 m)))"

definition qd_result :: "int \<Rightarrow> qd_msg \<Rightarrow> qd_state \<Rightarrow> qd_msg" where
  "qd_result w m s = (if w = 1 then m\<lparr>qm_u0 := cCreated s, qm_u1 := cProcessed s\<rparr> else m\<lparr>qm_u0 := CQdIsDirty s\<rparr>)"

lemma report_effect:
  assumes w: "w = 1 \<or> w = 2" and st: "qs_stage s = w" "qm_phase m = w"
  shows "\<not> CQdAllReported (qd_acc w m s) \<Longrightarrow> CQdCallWhenIdle npes me s m = Inr (qd_acc w m s, [])"
    "CQdAllReported (qd_acc w m s) \<Longrightarrow> me \<noteq> 0 \<Longrightarrow>
      CQdCallWhenIdle npes me s m = Inr (qd_report (qd_acc w m s) (qd_result w m (qd_acc w m s)))"
    "CQdAllReported (qd_acc w m s) \<Longrightarrow> w = 1 \<Longrightarrow> CQdCallWhenIdle npes 0 s m =
      (if cCreated (qd_acc w m s) = cProcessed (qd_acc w m s) then CQdBcastQD2 0 (qd_acc w m s) m else CQdBcastQD1 0 (qd_acc w m s) m)"
    "CQdAllReported (qd_acc w m s) \<Longrightarrow> w = 2 \<Longrightarrow> CQdCallWhenIdle npes 0 s m =
      (if CQdIsDirty (qd_acc w m s) \<noteq> 0 then CQdBcastQD1 0 (qd_acc w m s) m
       else Inr ((qd_acc w m s)\<lparr>nReported := 0, cCreated := 0, cProcessed := 0, cDirty := 0, qs_stage := 0\<rparr>, [QdAnnounce m]))"
proof -
  have 1: "CQdCallWhenIdle npes me s m = (if CQdAllReported (qd_acc 1 m s) then
      (if me = 0 then (if cCreated (qd_acc 1 m s) = cProcessed (qd_acc 1 m s) then CQdBcastQD2 me (qd_acc 1 m s) m else CQdBcastQD1 me (qd_acc 1 m s) m)
       else Inr (qd_report (qd_acc 1 m s) (qd_result 1 m (qd_acc 1 m s)))) else Inr (qd_acc 1 m s, []))" if "w = 1" for me
    using that st by (simp add: CQdCallWhenIdle_def CQdHandlePhase1_def CQdGetStage_def CQdMsgGetPhase_def CQdMsgGetCreated_def
        CQdMsgGetProcessed_def CQdMsgSetCreated_def CQdMsgSetProcessed_def CQdGetCCreated_def CQdGetCProcessed_def qd_acc_def qd_result_def Let_def)
  have 2: "CQdCallWhenIdle npes me s m = (if CQdAllReported (qd_acc 2 m s) then
      (if me = 0 then (if CQdIsDirty (qd_acc 2 m s) \<noteq> 0 then CQdBcastQD1 me (qd_acc 2 m s) m
         else let (s2, out) = CmiSyncBroadcastAll npes m (CQdCreate (qd_acc 2 m s) (0 - int npes), []) in Inr (CQdSetStage (CQdReset s2) 0, out))
       else Inr (qd_report (qd_acc 2 m s) (qd_result 2 m (qd_acc 2 m s)))) else Inr (qd_acc 2 m s, []))" if "w = 2" for me
    using that st by (simp add: CQdCallWhenIdle_def CQdHandlePhase2_def CQdGetStage_def CQdMsgGetPhase_def CQdMsgGetDirty_def
        CQdMsgSetDirty_def qd_acc_def qd_result_def Let_def)
  show "\<not> CQdAllReported (qd_acc w m s) \<Longrightarrow> CQdCallWhenIdle npes me s m = Inr (qd_acc w m s, [])"
    "CQdAllReported (qd_acc w m s) \<Longrightarrow> me \<noteq> 0 \<Longrightarrow>
      CQdCallWhenIdle npes me s m = Inr (qd_report (qd_acc w m s) (qd_result w m (qd_acc w m s)))"
    using w 1 2 by (auto split: if_splits)
  show "CQdAllReported (qd_acc w m s) \<Longrightarrow> w = 1 \<Longrightarrow> CQdCallWhenIdle npes 0 s m =
      (if cCreated (qd_acc w m s) = cProcessed (qd_acc w m s) then CQdBcastQD2 0 (qd_acc w m s) m else CQdBcastQD1 0 (qd_acc w m s) m)"
    using 1 [of 0] by simp
  show "CQdAllReported (qd_acc w m s) \<Longrightarrow> w = 2 \<Longrightarrow> CQdCallWhenIdle npes 0 s m =
      (if CQdIsDirty (qd_acc w m s) \<noteq> 0 then CQdBcastQD1 0 (qd_acc w m s) m
       else Inr ((qd_acc w m s)\<lparr>nReported := 0, cCreated := 0, cProcessed := 0, cDirty := 0, qs_stage := 0\<rparr>, [QdAnnounce m]))"
    using 2 [of 0] by (simp add: CmiSyncBroadcastAll_def CQdCreate_def CQdSetStage_def CQdReset_def)
qed

end
