(* ===== verification/QdSystem.thy ===== *)
theory QdSystem
  imports Quiescence
begin

text \<open>
  The processors of \<open>Quiescence\<close> put together.  A system state has the detector state of every
  processor, the detector messages in transit and the number of application messages in
  transit.  Application messages only matter by their number: processing one may create any
  number of new ones.  Detector messages are handled when their processor is idle, so the
  processing of an application message is one step.  Messages may be delivered in any order.
  The invariant describes a wave over the spanning tree by a status of every processor.
\<close>

section \<open>Steps\<close>

record qd_sys =
  sys_pe :: "nat \<Rightarrow> qd_state"
  sys_net :: "(nat \<times> qd_msg) multiset"
  sys_app :: nat

definition qd_sends :: "qd_out list \<Rightarrow> (nat \<times> qd_msg) multiset" where
  "qd_sends out = mset (concat (map (\<lambda>x. case x of QdSend d m \<Rightarrow> [(d, m)] | QdAnnounce m \<Rightarrow> []) out))"

text \<open>On arrival the scheduler counts the message as processed and \<^verbatim>\<open>CQdHandler\<close> takes that back.\<close>

definition qd_arrive :: "qd_state \<Rightarrow> qd_state" where
  "qd_arrive s = CQdProcess (CQdProcess s 1) (- 1)"

definition qd_set :: "nat \<Rightarrow> qd_state \<Rightarrow> qd_sys \<Rightarrow> qd_sys" where
  "qd_set i st s = s\<lparr>sys_pe := (sys_pe s)(i := st)\<rparr>"

inductive qd_step :: "topology \<Rightarrow> qd_sys \<Rightarrow> qd_sys \<Rightarrow> bool" for T where
  app: "i < CmiNumPes T \<Longrightarrow> 0 < sys_app s \<Longrightarrow>
    qd_step T s (qd_set i (CQdCreate (CQdProcess (sys_pe s i) 1) (int k)) (s\<lparr>sys_app := sys_app s - 1 + k\<rparr>))"
| start: "i < CmiNumPes T \<Longrightarrow> qd_start_io (sys_pe s i) m = (st, out) \<Longrightarrow>
    qd_step T s (qd_set i st (s\<lparr>sys_net := sys_net s + qd_sends out\<rparr>))"
| deliver: "(i, m) \<in># sys_net s \<Longrightarrow> CQdCallWhenIdle (CmiNumPes T) i (qd_arrive (sys_pe s i)) m = Inr (st, out) \<Longrightarrow>
    qd_step T s (qd_set i st (s\<lparr>sys_net := sys_net s - {#(i, m)#} + qd_sends out\<rparr>))"

definition qd_init :: "topology \<Rightarrow> qd_sys \<Rightarrow> bool" where
  "qd_init T s \<longleftrightarrow> sys_net s = {#} \<and> (\<forall>i < CmiNumPes T. \<exists>k. sys_pe s i = CQdCreate (CQdStateCreate T i) (int k)) \<and>
     int (sys_app s) = (\<Sum>i < CmiNumPes T. mCreated (sys_pe s i))"

inductive qd_reach :: "topology \<Rightarrow> qd_sys \<Rightarrow> bool" for T where
  init: "qd_init T s \<Longrightarrow> qd_reach T s"
| step: "qd_reach T s \<Longrightarrow> qd_step T s s' \<Longrightarrow> qd_reach T s'"

section \<open>Waves over the tree\<close>

text \<open>
  During a wave a processor waits for the start message, is active, or has reported to its
  parent.  \<open>gown\<close> and \<open>gdel\<close> say that the processor's message to itself and its report have been
  delivered; \<open>gw\<close>, \<open>go\<close> and \<open>gr\<close> are its start message, the message to itself and its report.
\<close>

datatype wstat = QWait | QAct | QDone

record wave =
  gstat :: "nat \<Rightarrow> wstat"
  gown :: "nat \<Rightarrow> bool"
  gdel :: "nat \<Rightarrow> bool"
  gw :: "nat \<Rightarrow> qd_msg"
  go :: "nat \<Rightarrow> qd_msg"
  gr :: "nat \<Rightarrow> qd_msg"

lemma sum_one_change:
  fixes f g :: "nat \<Rightarrow> 'a :: comm_monoid_add"
  assumes "i < n" "\<And>j. j < n \<Longrightarrow> j \<noteq> i \<Longrightarrow> g j = f j"
  shows "(\<Sum>j < n. g j) + f i = (\<Sum>j < n. f j) + g i"
proof -
  have "(\<Sum>j < n. h j) = h i + (\<Sum>j \<in> {..<n} - {i}. h j)" for h :: "nat \<Rightarrow> 'a"
    using assms(1) by (intro sum.remove) auto
  moreover have "(\<Sum>j \<in> {..<n} - {i}. g j) = (\<Sum>j \<in> {..<n} - {i}. f j)" using assms(2) by (intro sum.cong) auto
  ultimately show ?thesis by (simp add: ac_simps)
qed

lemma sum_singletons: "distinct cs \<Longrightarrow> (\<Sum>c \<in> set cs. {#f c#}) = mset (map f cs)"
  by (induction cs) auto

context span_tree
begin

definition contrib :: "wave \<Rightarrow> nat \<Rightarrow> (nat \<times> qd_msg) multiset" where
  "contrib g i = (case gstat g i of
      QWait \<Rightarrow> if i \<noteq> 0 \<and> gstat g (parent i) \<noteq> QWait then {#(i, gw g i)#} else {#}
    | QAct \<Rightarrow> if gown g i then {#} else {#(i, go g i)#}
    | QDone \<Rightarrow> if gdel g i then {#} else {#(parent i, gr g i)#})"

definition wnet :: "wave \<Rightarrow> (nat \<times> qd_msg) multiset" where
  "wnet g = (\<Sum>i < npes. contrib g i)"

definition wave_ok :: "wave \<Rightarrow> bool" where
  "wave_ok g \<longleftrightarrow> gstat g 0 \<noteq> QDone \<and> (\<forall>i. i < npes \<longrightarrow> i \<noteq> 0 \<longrightarrow> (case gstat g (parent i) of
      QWait \<Rightarrow> gstat g i = QWait | QAct \<Rightarrow> True | QDone \<Rightarrow> gstat g i = QDone \<and> gdel g i))"

definition reported :: "wave \<Rightarrow> nat \<Rightarrow> nat set" where
  "reported g i = {j \<in> set (children i). gstat g j = QDone \<and> gdel g j}"

definition reports :: "wave \<Rightarrow> nat \<Rightarrow> nat" where
  "reports g i = (if gown g i then 1 else 0) + card (reported g i)"

definition begin_wave :: "wave \<Rightarrow> nat \<Rightarrow> qd_msg \<Rightarrow> qd_msg \<Rightarrow> wave" where
  "begin_wave g i m om = g\<lparr>gstat := (gstat g)(i := QAct), gown := (gown g)(i := False),
     gw := (\<lambda>j. if j \<in> set (children i) then m else gw g j), go := (go g)(i := om)\<rparr>"

lemma reports_full:
  assumes "i < npes"
  shows "reports g i = length (children i) + 1 \<longleftrightarrow> gown g i \<and> reported g i = set (children i)"
proof -
  have c: "card (set (children i)) = length (children i)" using children_distinct [OF assms] distinct_card by blast
  have sub: "reported g i \<subseteq> set (children i)" by (auto simp: reported_def)
  then have "card (reported g i) \<le> length (children i)" using c card_mono [OF finite_set sub] by simp
  moreover have "card (reported g i) = length (children i) \<longleftrightarrow> reported g i = set (children i)"
    using card_subset_eq [OF finite_set sub] c by auto
  ultimately show ?thesis by (auto simp: reports_def)
qed

lemma wnet_cases:
  assumes "(d, m) \<in># wnet g" "wave_ok g"
  obtains (start) "d < npes" "d \<noteq> 0" "gstat g d = QWait" "gstat g (parent d) = QAct" "m = gw g d"
    | (own) "d < npes" "gstat g d = QAct" "\<not> gown g d" "m = go g d"
    | (child) j where "j < npes" "j \<noteq> 0" "parent j = d" "d < npes" "gstat g j = QDone" "\<not> gdel g j" "m = gr g j" "gstat g d = QAct"
proof -
  obtain i where i: "i < npes" "(d, m) \<in># contrib g i"
    using assms(1) by (auto simp: wnet_def set_mset_sum)
  have ok: "case gstat g (parent i) of QWait \<Rightarrow> gstat g i = QWait | QAct \<Rightarrow> True | QDone \<Rightarrow> gstat g i = QDone \<and> gdel g i"
    if "i \<noteq> 0" using assms(2) i(1) that by (simp add: wave_ok_def)
  show thesis
  proof (cases "gstat g i")
    case QWait
    then show ?thesis using i ok start by (cases "gstat g (parent i)") (auto simp: contrib_def split: if_splits)
  next
    case QAct
    then show ?thesis using i own by (auto simp: contrib_def split: if_splits)
  next
    case QDone
    then have "i \<noteq> 0" using assms(2) by (intro notI) (simp add: wave_ok_def)
    then show ?thesis using i ok QDone child [of i] parent_npes [of i]
      by (cases "gstat g (parent i)") (auto simp: contrib_def split: if_splits)
  qed
qed

lemma wave_okD:
  assumes "wave_ok g" "i < npes" "i \<noteq> 0"
  shows "gstat g (parent i) = QWait \<Longrightarrow> gstat g i = QWait"
    "gstat g (parent i) = QDone \<Longrightarrow> gstat g i = QDone \<and> gdel g i"
    "gstat g i = QAct \<Longrightarrow> gstat g (parent i) = QAct"
proof -
  have "case gstat g (parent i) of QWait \<Rightarrow> gstat g i = QWait | QAct \<Rightarrow> True | QDone \<Rightarrow> gstat g i = QDone \<and> gdel g i"
    using assms by (simp add: wave_ok_def)
  then show "gstat g (parent i) = QWait \<Longrightarrow> gstat g i = QWait"
    "gstat g (parent i) = QDone \<Longrightarrow> gstat g i = QDone \<and> gdel g i"
    "gstat g i = QAct \<Longrightarrow> gstat g (parent i) = QAct"
    by (cases "gstat g (parent i)"; simp)+
qed

lemma wave_ok_upd:
  assumes "wave_ok g" "gstat g' 0 \<noteq> QDone"
    and "\<And>i. i < npes \<Longrightarrow> i \<noteq> 0 \<Longrightarrow> gstat g' (parent i) = gstat g (parent i) \<and> gstat g' i = gstat g i \<and> (gdel g i \<longrightarrow> gdel g' i) \<or>
      gstat g' (parent i) = QAct \<or> gstat g' (parent i) = QDone \<and> gstat g' i = QDone \<and> gdel g' i"
  shows "wave_ok g'"
  unfolding wave_ok_def
proof (intro conjI allI impI)
  fix i assume i: "i < npes" "i \<noteq> 0"
  show "case gstat g' (parent i) of QWait \<Rightarrow> gstat g' i = QWait | QAct \<Rightarrow> True | QDone \<Rightarrow> gstat g' i = QDone \<and> gdel g' i"
    using assms(3) [OF i]
  proof (elim disjE conjE)
    assume e: "gstat g' (parent i) = gstat g (parent i)" "gstat g' i = gstat g i" "gdel g i \<longrightarrow> gdel g' i"
    show ?thesis unfolding e(1,2) using wave_okD(1,2) [OF assms(1) i] e(3) by (cases "gstat g (parent i)") simp_all
  qed simp_all
qed (rule assms)

text \<open>A processor receives its own message.\<close>

lemma own_delivered:
  assumes ok: "wave_ok g" and i: "i < npes" "gstat g i = QAct" "\<not> gown g i"
  defines "g' \<equiv> g\<lparr>gown := (gown g)(i := True)\<rparr>"
  shows "wave_ok g'" "wnet g = add_mset (i, go g i) (wnet g')" "reported g' = reported g" "reports g' i = reports g i + 1"
proof -
  have f: "gstat g' = gstat g" "gdel g' = gdel g" "gw g' = gw g" "go g' = go g" "gr g' = gr g" "gown g' = (gown g)(i := True)"
    by (simp_all add: g'_def)
  show "wave_ok g'" using ok unfolding wave_ok_def f .
  have "contrib g' k = contrib g k" if "k \<noteq> i" for k using that by (cases "gstat g k") (simp_all add: contrib_def f)
  then have "wnet g' + contrib g i = wnet g + contrib g' i"
    unfolding wnet_def using i(1) by (intro sum_one_change) simp_all
  then show "wnet g = add_mset (i, go g i) (wnet g')" using i(2,3) by (simp add: contrib_def f)
  show "reported g' = reported g" by (simp add: reported_def f fun_eq_iff)
  then show "reports g' i = reports g i + 1" using i(3) by (simp add: reports_def f)
qed

text \<open>A parent receives the report of a child.\<close>

lemma report_delivered:
  assumes ok: "wave_ok g" and j: "j < npes" "j \<noteq> 0" "gstat g j = QDone" "\<not> gdel g j"
  defines "g' \<equiv> g\<lparr>gdel := (gdel g)(j := True)\<rparr>"
  shows "wave_ok g'" "wnet g = add_mset (parent j, gr g j) (wnet g')"
    "reported g' (parent j) = insert j (reported g (parent j))" "j \<notin> reported g (parent j)"
    "i < npes \<Longrightarrow> i \<noteq> parent j \<Longrightarrow> reported g' i = reported g i" "reports g' (parent j) = reports g (parent j) + 1"
proof -
  have f: "gstat g' = gstat g" "gown g' = gown g" "gw g' = gw g" "go g' = go g" "gr g' = gr g" "gdel g' = (gdel g)(j := True)"
    by (simp_all add: g'_def)
  have "gstat g' 0 \<noteq> QDone" using ok by (simp add: f wave_ok_def)
  then show "wave_ok g'" using ok by (intro wave_ok_upd [of g g']) (simp_all add: f)
  have "contrib g' k = contrib g k" if "k \<noteq> j" for k using that by (cases "gstat g k") (simp_all add: contrib_def f)
  then have "wnet g' + contrib g j = wnet g + contrib g' j"
    unfolding wnet_def using j(1) by (intro sum_one_change) simp_all
  then show "wnet g = add_mset (parent j, gr g j) (wnet g')" using j(3,4) by (simp add: contrib_def f)
  have mem: "j \<in> set (children (parent j))" using j(1,2) child_iff parent_npes by blast
  then show r: "reported g' (parent j) = insert j (reported g (parent j))" using j(3) by (auto simp: reported_def f)
  show n: "j \<notin> reported g (parent j)" using j(4) by (simp add: reported_def)
  show "reported g' i = reported g i" if "i < npes" "i \<noteq> parent j" for i
    using that child_iff by (auto simp: reported_def f)
  have "finite (reported g (parent j))" by (simp add: reported_def)
  then show "reports g' (parent j) = reports g (parent j) + 1"
    using r n by (simp add: reports_def f)
qed

text \<open>A processor begins its part of the wave.\<close>

lemma wave_begun:
  fixes m om :: qd_msg
  assumes ok: "wave_ok g" and i: "i < npes" "gstat g i = QWait" and par: "i = 0 \<or> gstat g (parent i) = QAct"
  defines "g' \<equiv> begin_wave g i m om"
  shows "wave_ok g'" "wnet g' + contrib g i = wnet g + mset (map (\<lambda>c. (c, m)) (children i)) + {#(i, om)#}"
    "reported g' i = {}" "k < npes \<Longrightarrow> k \<noteq> i \<Longrightarrow> reported g' k = reported g k" "reports g' i = 0"
proof -
  have kids: "gstat g c = QWait" "c < npes" "c \<noteq> 0" "c \<noteq> i" if "c \<in> set (children i)" for c
    using that child_iff [OF i(1)] wave_okD(1) [OF ok, of c] i(2) parent_less [of c] by auto
  have f: "gstat g' = (gstat g)(i := QAct)" "gown g' = (gown g)(i := False)" "gdel g' = gdel g" "gr g' = gr g"
    "gw g' = (\<lambda>j. if j \<in> set (children i) then m else gw g j)" "go g' = (go g)(i := om)"
    by (simp_all add: g'_def begin_wave_def)
  show "wave_ok g'"
  proof (rule wave_ok_upd [OF ok])
    show "gstat g' 0 \<noteq> QDone" using ok by (simp add: f wave_ok_def)
    fix k assume k: "k < npes" "k \<noteq> 0"
    show "gstat g' (parent k) = gstat g (parent k) \<and> gstat g' k = gstat g k \<and> (gdel g k \<longrightarrow> gdel g' k) \<or>
      gstat g' (parent k) = QAct \<or> gstat g' (parent k) = QDone \<and> gstat g' k = QDone \<and> gdel g' k"
      using par k by (auto simp: f)
  qed
  have st: "gstat g' k = (if k = i then QAct else gstat g k)" for k by (simp add: f)
  show "reported g' i = {}" using kids by (auto simp: reported_def st)
  then show "reports g' i = 0" by (simp add: reports_def f)
  show "reported g' k = reported g k" if "k < npes" "k \<noteq> i" for k
    using i(2) by (auto simp: reported_def f)
  let ?K = "\<lambda>k. if k \<in> set (children i) then {#(k, m)#} else {#}"
  let ?O = "\<lambda>k. if k = i then {#(i, om)#} else {#}" and ?C = "\<lambda>k. if k = i then contrib g i else {#}"
  have "contrib g' k + ?C k = contrib g k + ?K k + ?O k" if k: "k < npes" for k
  proof (cases "k = i \<or> k \<in> set (children i)")
    case True
    then show ?thesis
    proof
      assume "k = i"
      then show ?thesis using kids by (auto simp: contrib_def [of g'] f)
    next
      assume c: "k \<in> set (children i)"
      then have "parent k = i" using child_iff i(1) by blast
      then show ?thesis using kids [OF c] c i(2) by (simp add: contrib_def f)
    qed
  next
    case False
    then have "k \<noteq> 0 \<Longrightarrow> parent k \<noteq> i" using child_iff i(1) k by blast
    then show ?thesis using False by (cases "gstat g k") (auto simp: contrib_def f)
  qed
  then have "(\<Sum>k < npes. contrib g' k + ?C k) = (\<Sum>k < npes. contrib g k + ?K k + ?O k)" by (intro sum.cong) auto
  moreover have "(\<Sum>k < npes. ?K k) = mset (map (\<lambda>c. (c, m)) (children i))"
  proof -
    have "(\<Sum>k < npes. ?K k) = (\<Sum>c \<in> set (children i). {#(c, m)#})"
      using kids(2) by (subst sum.If_cases) (auto intro!: sum.cong)
    then show ?thesis using sum_singletons [OF children_distinct [OF i(1)], of "\<lambda>c. (c, m)"] by simp
  qed
  ultimately show "wnet g' + contrib g i = wnet g + mset (map (\<lambda>c. (c, m)) (children i)) + {#(i, om)#}"
    using i(1) by (simp add: wnet_def sum.distrib)
qed

text \<open>A processor other than the root has all reports and sends its own.\<close>

lemma wave_reported:
  fixes m :: qd_msg
  assumes ok: "wave_ok g" and i: "i < npes" "i \<noteq> 0" "gstat g i = QAct" "gown g i" "reported g i = set (children i)"
  defines "g' \<equiv> g\<lparr>gstat := (gstat g)(i := QDone), gdel := (gdel g)(i := False), gr := (gr g)(i := m)\<rparr>"
  shows "wave_ok g'" "wnet g' = add_mset (parent i, m) (wnet g)" "k < npes \<Longrightarrow> reported g' k = reported g k"
proof -
  have f: "gstat g' = (gstat g)(i := QDone)" "gown g' = gown g" "gdel g' = (gdel g)(i := False)" "gr g' = (gr g)(i := m)"
    "gw g' = gw g" "go g' = go g"
    by (simp_all add: g'_def)
  have par: "gstat g (parent i) = QAct" "parent i \<noteq> i" using wave_okD(3) [OF ok i(1,2,3)] parent_less [OF i(1,2)] by simp_all
  have kids: "gstat g c = QDone \<and> gdel g c \<and> c \<noteq> i" if "c < npes" "c \<noteq> 0" "parent c = i" for c
  proof -
    have "c \<in> set (children i)" using that child_iff i(1) by blast
    then have "c \<in> reported g i" using i(5) by simp
    then show ?thesis using i(3) by (auto simp: reported_def)
  qed
  show "wave_ok g'" using ok
  proof (rule wave_ok_upd)
    show "gstat g' 0 \<noteq> QDone" using ok i(2) by (simp add: f wave_ok_def)
    fix k assume k: "k < npes" "k \<noteq> 0"
    show "gstat g' (parent k) = gstat g (parent k) \<and> gstat g' k = gstat g k \<and> (gdel g k \<longrightarrow> gdel g' k) \<or>
      gstat g' (parent k) = QAct \<or> gstat g' (parent k) = QDone \<and> gstat g' k = QDone \<and> gdel g' k"
      using kids [OF k] par by (cases "k = i"; cases "parent k = i") (auto simp: f)
  qed
  have "contrib g' k = contrib g k" if "k < npes" "k \<noteq> i" for k
    using that kids [of k] by (cases "gstat g k") (auto simp: contrib_def f)
  then have "wnet g' + contrib g i = wnet g + contrib g' i" unfolding wnet_def using i(1) by (intro sum_one_change) auto
  then show "wnet g' = add_mset (parent i, m) (wnet g)" using i(3,4) by (simp add: contrib_def f)
  show "reported g' k = reported g k" if "k < npes" for k
    using i(3) by (auto simp: reported_def f)
qed

text \<open>The root has all reports: the wave is over and no message of it is left.\<close>

lemma wave_complete:
  assumes ok: "wave_ok g" and r: "gstat g 0 = QAct" "gown g 0" "reported g 0 = set (children 0)"
  shows "i < npes \<Longrightarrow> i \<noteq> 0 \<Longrightarrow> gstat g i = QDone \<and> gdel g i" "wnet g = {#}"
proof -
  have d: "i \<noteq> 0 \<longrightarrow> gstat g i = QDone \<and> gdel g i" if "i < npes" for i
  proof (rule tree_induct [OF that])
    fix j assume j: "j < npes" "j \<noteq> 0" and IH: "parent j \<noteq> 0 \<longrightarrow> gstat g (parent j) = QDone \<and> gdel g (parent j)"
    show "j \<noteq> 0 \<longrightarrow> gstat g j = QDone \<and> gdel g j"
    proof (cases "parent j = 0")
      case True
      then have "j \<in> set (children 0)" using j child_iff npes_pos by blast
      then have "j \<in> reported g 0" using r(3) by simp
      then show ?thesis by (simp add: reported_def)
    next
      case False
      then show ?thesis using IH j wave_okD(2) [OF ok, of j] by simp
    qed
  qed simp
  then show "i < npes \<Longrightarrow> i \<noteq> 0 \<Longrightarrow> gstat g i = QDone \<and> gdel g i" by simp
  have "contrib g i = {#}" if "i < npes" for i
    using d [OF that] r by (cases "i = 0") (auto simp: contrib_def)
  then show "wnet g = {#}" by (simp add: wnet_def)
qed

definition total :: "(qd_msg \<Rightarrow> int) \<Rightarrow> wave \<Rightarrow> nat \<Rightarrow> int" where
  "total f g i = (if gown g i then f (go g i) else 0) + (\<Sum>j \<in> reported g i. f (gr g j))"

text \<open>An active processor receives a message of the wave, its own or a report.\<close>

lemma receive:
  assumes ok: "wave_ok g" and m: "(d, m) \<in># wnet g" and act: "gstat g d = QAct"
  obtains g1 where "wave_ok g1" "wnet g = add_mset (d, m) (wnet g1)" "gstat g1 = gstat g" "gw g1 = gw g" "go g1 = go g"
    "gr g1 = gr g" "reports g1 d = reports g d + 1" "\<And>f. total f g1 d = total f g d + f m"
    "\<And>k. k < npes \<Longrightarrow> k \<noteq> d \<Longrightarrow> gown g1 k = gown g k \<and> reported g1 k = reported g k"
    "reported g1 d \<subseteq> reported g d \<union> {j. gr g j = m}" "m = go g d \<or> (\<exists>j. m = gr g j)" "d < npes"
  using m ok
proof (cases rule: wnet_cases)
  case start
  then show thesis using act by simp
next
  case own
  let ?g = "g\<lparr>gown := (gown g)(d := True)\<rparr>"
  note O = own_delivered [OF ok own(1-3)]
  have t: "total f ?g d = total f g d + f m" for f
    using O(3) own(3,4) by (simp add: total_def)
  show thesis using O own t by (intro that [of ?g]) simp_all
next
  case (child j)
  let ?g = "g\<lparr>gdel := (gdel g)(j := True)\<rparr>"
  note R = report_delivered [OF ok child(1,2,5,6), unfolded child(3)]
  have "finite (reported g d)" by (simp add: reported_def)
  then have t: "total f ?g d = total f g d + f m" for f
    using R(3,4) child(7) by (simp add: total_def)
  show thesis using R child t by (intro that [of ?g]) auto
qed

section \<open>The invariant\<close>

definition node_static :: "nat \<Rightarrow> qd_state \<Rightarrow> bool" where
  "node_static i st \<longleftrightarrow> nChildren st = int (length (children i)) \<and> qs_children st = children i \<and>
     (i \<noteq> 0 \<longrightarrow> qs_parent st = int (parent i))"

definition node_stage :: "int \<Rightarrow> wave \<Rightarrow> nat \<Rightarrow> qd_state \<Rightarrow> bool" where
  "node_stage w g i st \<longleftrightarrow> qs_stage st = (if gstat g i = QAct then w else 0) \<and>
     (gstat g i = QAct \<longrightarrow> nReported st = int (reports g i))"

text \<open>
  First wave: \<open>gc\<close> are the created counts the processors have put into their messages.  As long as
  nothing has been processed since, the counts are current.
\<close>

definition node_count :: "wave \<Rightarrow> (nat \<Rightarrow> int) \<Rightarrow> nat \<Rightarrow> qd_state \<Rightarrow> bool" where
  "node_count g gc i st \<longleftrightarrow>
     (gstat g i \<noteq> QWait \<longrightarrow> oProcessed st \<le> mProcessed st \<and> (mProcessed st = oProcessed st \<longrightarrow> mCreated st = gc i)) \<and>
     (gstat g i = QAct \<longrightarrow> qm_u0 (go g i) = gc i \<and> qm_u1 (go g i) = oProcessed st \<and>
        cCreated st = total qm_u0 g i \<and> cProcessed st = total qm_u1 g i) \<and>
     (gstat g i = QDone \<longrightarrow> qm_u0 (gr g i) = gc i + (\<Sum>c \<in> set (children i). qm_u0 (gr g c)) \<and>
        qm_u1 (gr g i) = oProcessed st + (\<Sum>c \<in> set (children i). qm_u1 (gr g c)))"

text \<open>Second wave: the activity at processor \<open>i0\<close> since the first wave is reported up the tree.\<close>

definition node_dirty :: "wave \<Rightarrow> nat \<Rightarrow> nat \<Rightarrow> qd_state \<Rightarrow> bool" where
  "node_dirty g i0 i st \<longleftrightarrow> (i = i0 \<longrightarrow> oProcessed st < mProcessed st) \<and>
     (gstat g i = QAct \<longrightarrow> (\<exists>j \<in> reported g i. qm_u0 (gr g j) \<noteq> 0) \<longrightarrow> cDirty st \<noteq> 0) \<and>
     (gstat g i = QDone \<longrightarrow> i = i0 \<or> (\<exists>c \<in> set (children i). qm_u0 (gr g c) \<noteq> 0) \<longrightarrow> qm_u0 (gr g i) \<noteq> 0)"

definition phases :: "int \<Rightarrow> wave \<Rightarrow> bool" where
  "phases w g \<longleftrightarrow> (\<forall>i. qm_phase (gw g i) = w - 1 \<and> qm_phase (go g i) = w \<and> qm_phase (gr g i) = w)"

definition strays :: "(nat \<times> qd_msg) multiset \<Rightarrow> bool" where
  "strays S \<longleftrightarrow> (\<forall>x \<in># S. fst x = 0 \<and> qm_phase (snd x) = 0)"

definition qd_wave :: "int \<Rightarrow> wave \<Rightarrow> (nat \<times> qd_msg) multiset \<Rightarrow> qd_sys \<Rightarrow> bool" where
  "qd_wave w g S s \<longleftrightarrow> sys_net s = S + wnet g \<and> strays S \<and> wave_ok g \<and> phases w g \<and>
     (\<forall>i < npes. node_stage w g i (sys_pe s i)) \<and>
     (w = 1 \<and> (\<exists>gc. \<forall>i < npes. node_count g gc i (sys_pe s i)) \<or>
      w = 2 \<and> (sys_app s = 0 \<or> (\<exists>i0 < npes. \<forall>i < npes. node_dirty g i0 i (sys_pe s i))))"

definition qd_inv :: "qd_sys \<Rightarrow> bool" where
  "qd_inv s \<longleftrightarrow> (\<forall>i < npes. node_static i (sys_pe s i)) \<and>
     (\<Sum>i < npes. mCreated (sys_pe s i) - mProcessed (sys_pe s i)) = int (sys_app s) \<and>
     (\<exists>w g S. qd_wave w g S s)"

text \<open>Two waves that look alike from processor \<open>k\<close>.\<close>

definition agree :: "wave \<Rightarrow> wave \<Rightarrow> nat \<Rightarrow> bool" where
  "agree g g' k \<longleftrightarrow> gstat g' k = gstat g k \<and> gown g' k = gown g k \<and> go g' k = go g k \<and> reported g' k = reported g k \<and>
     (\<forall>j \<in> reported g k. gr g' j = gr g j) \<and>
     (gstat g k = QDone \<longrightarrow> gr g' k = gr g k \<and> (\<forall>c \<in> set (children k). gr g' c = gr g c))"

lemma agree_nodes:
  assumes "agree g g' k"
  shows "node_stage w g' k st = node_stage w g k st" "node_count g' gc k st = node_count g gc k st"
    "node_dirty g' i0 k st = node_dirty g i0 k st"
proof -
  note A = assms [unfolded agree_def]
  have r: "reports g' k = reports g k" using A by (simp add: reports_def)
  have t: "total f g' k = total f g k" for f using A by (simp add: total_def)
  show "node_stage w g' k st = node_stage w g k st" using A r by (simp add: node_stage_def)
  show "node_count g' gc k st = node_count g gc k st" using A t by (auto simp: node_count_def)
  show "node_dirty g' i0 k st = node_dirty g i0 k st" using A by (auto simp: node_dirty_def)
qed

lemma qd_set_simps [simp]:
  "sys_pe (qd_set d st s) = (sys_pe s)(d := st)" "sys_net (qd_set d st s) = sys_net s" "sys_app (qd_set d st s) = sys_app s"
  by (simp_all add: qd_set_def)

lemma balance_upd:
  assumes "d < npes" "mCreated st - mProcessed st = mCreated (sys_pe s d) - mProcessed (sys_pe s d) + x"
  shows "(\<Sum>i < npes. mCreated (((sys_pe s)(d := st)) i) - mProcessed (((sys_pe s)(d := st)) i)) =
    (\<Sum>i < npes. mCreated (sys_pe s i) - mProcessed (sys_pe s i)) + x"
proof -
  let ?f = "\<lambda>i. mCreated (sys_pe s i) - mProcessed (sys_pe s i)"
  let ?g = "\<lambda>i. mCreated (((sys_pe s)(d := st)) i) - mProcessed (((sys_pe s)(d := st)) i)"
  have "sum ?g {..<npes} + ?f d = sum ?f {..<npes} + ?g d" using assms(1) by (intro sum_one_change) auto
  then show ?thesis using assms(2) by simp
qed

text \<open>A step of the wave at processor \<open>d\<close> that all other processors do not see.\<close>

lemma inv_local:
  assumes inv: "\<forall>i < npes. node_static i (sys_pe s i)"
      "(\<Sum>i < npes. mCreated (sys_pe s i) - mProcessed (sys_pe s i)) = int (sys_app s)" "qd_wave w g S s"
    and d: "d < npes" "node_static d st" "mCreated st - mProcessed st = mCreated (sys_pe s d) - mProcessed (sys_pe s d)"
    and ag: "\<And>k. k < npes \<Longrightarrow> k \<noteq> d \<Longrightarrow> agree g g' k"
    and net: "net' = S + wnet g'" "wave_ok g'" "phases w g'" "node_stage w g' d st"
    and cnt: "\<And>gc. w = 1 \<Longrightarrow> node_count g gc d (sys_pe s d) \<Longrightarrow> \<exists>x. node_count g' (gc(d := x)) d st"
    and dirt: "\<And>i0. w = 2 \<Longrightarrow> node_dirty g i0 d (sys_pe s d) \<Longrightarrow> node_dirty g' i0 d st"
  shows "qd_inv (qd_set d st (s\<lparr>sys_net := net'\<rparr>))"
proof -
  let ?s = "qd_set d st (s\<lparr>sys_net := net'\<rparr>)"
  note W = inv(3) [unfolded qd_wave_def]
  have stage: "\<forall>i < npes. node_stage w g' i (sys_pe ?s i)" using W net(4) agree_nodes(1) [OF ag] by simp
  have pay: "w = 1 \<and> (\<exists>gc. \<forall>i < npes. node_count g' gc i (sys_pe ?s i)) \<or>
      w = 2 \<and> (sys_app ?s = 0 \<or> (\<exists>i0 < npes. \<forall>i < npes. node_dirty g' i0 i (sys_pe ?s i)))"
  proof (cases "w = 1")
    case True
    with W obtain gc where gc: "\<forall>i < npes. node_count g gc i (sys_pe s i)" by auto
    with cnt [OF True] d(1) obtain x where x: "node_count g' (gc(d := x)) d st" by blast
    have "node_count g' (gc(d := x)) k (sys_pe s k)" if "k < npes" "k \<noteq> d" for k
      using gc that agree_nodes(2) [OF ag [OF that], of "gc(d := x)" "sys_pe s k"] by (simp add: node_count_def)
    with x have "\<forall>i < npes. node_count g' (gc(d := x)) i (sys_pe ?s i)" by simp
    with True show ?thesis by blast
  next
    case False
    with W have w: "w = 2" "sys_app s = 0 \<or> (\<exists>i0 < npes. \<forall>i < npes. node_dirty g i0 i (sys_pe s i))" by auto
    have "\<forall>i < npes. node_dirty g' i0 i (sys_pe ?s i)" if "\<forall>i < npes. node_dirty g i0 i (sys_pe s i)" for i0
      using that agree_nodes(3) [OF ag] dirt [OF w(1)] d(1) by simp
    moreover have app: "sys_app ?s = sys_app s" by simp
    ultimately show ?thesis using w unfolding app by blast
  qed
  have "qd_wave w g' S ?s" unfolding qd_wave_def using W net stage pay by simp
  moreover have "\<forall>i < npes. node_static i (sys_pe ?s i)" using inv(1) d(2) by simp
  moreover have "(\<Sum>i < npes. mCreated (sys_pe ?s i) - mProcessed (sys_pe ?s i)) = int (sys_app ?s)"
    using balance_upd [OF d(1), of st s 0] d(3) inv(2) by simp
  ultimately show ?thesis unfolding qd_inv_def by blast
qed

text \<open>The root begins a wave when every other processor is in stage 0.\<close>

definition blank :: "int \<Rightarrow> wave" where
  "blank w = (let m = \<lambda>p. \<lparr>qm_phase = p, qm_u0 = 0, qm_u1 = 0\<rparr> in
     \<lparr>gstat = (\<lambda>_. QWait), gown = (\<lambda>_. False), gdel = (\<lambda>_. False), gw = (\<lambda>_. m (w - 1)), go = (\<lambda>_. m w), gr = (\<lambda>_. m w)\<rparr>)"

lemma blank_wave: "gstat (blank w) i = QWait" "wave_ok (blank w)" "wnet (blank w) = {#}" "contrib (blank w) i = {#}" "phases w (blank w)"
  by (simp_all add: blank_def Let_def wave_ok_def wnet_def contrib_def phases_def)

lemma begin_blank:
  fixes m om :: qd_msg and w :: int
  defines "g \<equiv> begin_wave (blank w) 0 m om"
  assumes "qm_phase m = w - 1" "qm_phase om = w"
  shows "wave_ok g" "wnet g = mset (map (\<lambda>c. (c, m)) (children 0)) + {#(0, om)#}" "phases w g" "reports g 0 = 0"
    "reported g 0 = {}" "gstat g k = (if k = 0 then QAct else QWait)" "go g 0 = om" "gown g 0 = False"
proof -
  note B = wave_begun [OF blank_wave(2) npes_pos blank_wave(1), where m = m and om = om, OF disjI1 [OF refl]]
  show "wave_ok g" "wnet g = mset (map (\<lambda>c. (c, m)) (children 0)) + {#(0, om)#}" "reports g 0 = 0" "reported g 0 = {}"
    using B(1-3,5) by (simp_all add: g_def blank_wave)
  show "phases w g" using assms(2,3) blank_wave(5) [of w] by (auto simp: g_def begin_wave_def phases_def)
  show "gstat g k = (if k = 0 then QAct else QWait)" "go g 0 = om" "gown g 0 = False"
    by (simp_all add: g_def begin_wave_def blank_wave)
qed

lemma inv_new_wave:
  fixes m om :: qd_msg
  assumes inv: "\<forall>i < npes. node_static i (sys_pe s i)"
      "(\<Sum>i < npes. mCreated (sys_pe s i) - mProcessed (sys_pe s i)) = int (sys_app s)"
    and idle: "\<And>k. k < npes \<Longrightarrow> k \<noteq> 0 \<Longrightarrow> qs_stage (sys_pe s k) = 0"
    and d: "node_static 0 st" "mCreated st - mProcessed st = mCreated (sys_pe s 0) - mProcessed (sys_pe s 0)"
    and ph: "qm_phase m = w - 1" "qm_phase om = w" and S: "strays S"
    and st: "qs_stage st = w" "nReported st = 0"
    and cnt: "w = 1 \<Longrightarrow> oProcessed st = mProcessed st \<and> qm_u0 om = mCreated st \<and> qm_u1 om = oProcessed st \<and> cCreated st = 0 \<and> cProcessed st = 0"
    and dirt: "w = 2 \<Longrightarrow> sys_app s = 0 \<or> (\<exists>i0 < npes. oProcessed (((sys_pe s)(0 := st)) i0) < mProcessed (((sys_pe s)(0 := st)) i0))"
    and w: "w = 1 \<or> w = 2"
  shows "qd_inv (qd_set 0 st (s\<lparr>sys_net := S + (mset (map (\<lambda>c. (c, m)) (children 0)) + {#(0, om)#})\<rparr>))"
proof -
  let ?g = "begin_wave (blank w) 0 m om"
  let ?s = "qd_set 0 st (s\<lparr>sys_net := S + (mset (map (\<lambda>c. (c, m)) (children 0)) + {#(0, om)#})\<rparr>)"
  note B = begin_blank [OF ph]
  have stage: "\<forall>i < npes. node_stage w ?g i (sys_pe ?s i)"
    using idle st by (simp add: node_stage_def B)
  have t: "total f ?g 0 = 0" for f by (simp add: total_def B)
  have count: "\<forall>i < npes. node_count ?g (\<lambda>_. mCreated st) i (sys_pe ?s i)" if "w = 1"
    using cnt [OF that] by (simp add: node_count_def B t)
  have dirty: "\<forall>i < npes. node_dirty ?g i0 i (sys_pe ?s i)"
    if "oProcessed (((sys_pe s)(0 := st)) i0) < mProcessed (((sys_pe s)(0 := st)) i0)" for i0
    using that by (auto simp: node_dirty_def B)
  have "w = 1 \<and> (\<exists>gc. \<forall>i < npes. node_count ?g gc i (sys_pe ?s i)) \<or>
      w = 2 \<and> (sys_app ?s = 0 \<or> (\<exists>i0 < npes. \<forall>i < npes. node_dirty ?g i0 i (sys_pe ?s i)))"
    using w
  proof
    assume "w = 1" then show ?thesis using count by blast
  next
    have app: "sys_app ?s = sys_app s" by simp
    assume "w = 2" then show ?thesis using dirt dirty unfolding app by blast
  qed
  then have "qd_wave w ?g S ?s" unfolding qd_wave_def using S B stage by simp
  moreover have "\<forall>i < npes. node_static i (sys_pe ?s i)" using inv(1) d(1) by simp
  moreover have "(\<Sum>i < npes. mCreated (sys_pe ?s i) - mProcessed (sys_pe ?s i)) = int (sys_app ?s)"
    using balance_upd [OF npes_pos, of st s 0] d(2) inv(2) by simp
  ultimately show ?thesis unfolding qd_inv_def by blast
qed

section \<open>Delivering a message\<close>

lemma qd_sends_simps [simp]:
  "qd_sends [] = {#}" "qd_sends (x # xs) = (case x of QdSend d m \<Rightarrow> {#(d, m)#} | QdAnnounce m \<Rightarrow> {#}) + qd_sends xs"
  "qd_sends (xs @ ys) = qd_sends xs + qd_sends ys" "qd_sends (map (\<lambda>c. QdSend c m) cs) = mset (map (\<lambda>c. (c, m)) cs)"
  by (simp_all add: qd_sends_def comp_def split: qd_out.split)

lemma qd_arrive_id [simp]: "qd_arrive s = s"
  by (simp add: qd_arrive_def qd_simps)

lemma net_swap:
  fixes A B K S :: "'a multiset"
  assumes "x \<in># A" "B + {#x#} = A + K"
  shows "S + A - {#x#} + K = S + B"
proof -
  obtain A' where A': "A = add_mset x A'" using assms(1) by (metis insert_DiffM)
  then have "B = A' + K" using assms(2) by simp
  then show ?thesis using A' by simp
qed

definition deliver_ok :: "qd_sys \<Rightarrow> nat \<Rightarrow> qd_msg \<Rightarrow> bool" where
  "deliver_ok s d m \<longleftrightarrow> (\<exists>st out. CQdCallWhenIdle npes d (sys_pe s d) m = Inr (st, out) \<and>
     qd_inv (qd_set d st (s\<lparr>sys_net := sys_net s - {#(d, m)#} + qd_sends out\<rparr>)) \<and>
     ((\<exists>a. QdAnnounce a \<in> set out) \<longrightarrow> sys_app s = 0))"

lemma deliver_okI:
  assumes "CQdCallWhenIdle npes d (sys_pe s d) m = Inr (st, out)"
    "qd_inv (qd_set d st (s\<lparr>sys_net := sys_net s - {#(d, m)#} + qd_sends out\<rparr>))"
    "\<And>a. QdAnnounce a \<in> set out \<Longrightarrow> sys_app s = 0"
  shows "deliver_ok s d m"
  unfolding deliver_ok_def using assms by blast

lemma qd_waveD:
  assumes "qd_wave w g S s"
  shows "sys_net s = S + wnet g" "strays S" "wave_ok g" "phases w g" "i < npes \<Longrightarrow> node_stage w g i (sys_pe s i)" "w = 1 \<or> w = 2"
    "w = 1 \<Longrightarrow> \<exists>gc. \<forall>i < npes. node_count g gc i (sys_pe s i)"
    "w = 2 \<Longrightarrow> sys_app s = 0 \<or> (\<exists>i0 < npes. \<forall>i < npes. node_dirty g i0 i (sys_pe s i))"
  using assms by (auto simp: qd_wave_def)

text \<open>The first wave and the second wave reach a processor below the root.\<close>

lemma deliver_start:
  assumes inv: "\<forall>i < npes. node_static i (sys_pe s i)"
      "(\<Sum>i < npes. mCreated (sys_pe s i) - mProcessed (sys_pe s i)) = int (sys_app s)" "qd_wave w g S s"
    and d: "d < npes" "d \<noteq> 0" "gstat g d = QWait" "gstat g (parent d) = QAct" "m = gw g d" "(d, m) \<in># wnet g"
  shows "deliver_ok s d m"
proof -
  note W = qd_waveD [OF inv(3)]
  let ?st = "sys_pe s d"
  have static: "node_static d ?st" using inv(1) d(1) by blast
  then have kids: "nChildren ?st = int (length (qs_children ?st))" "qs_children ?st = children d" by (simp_all add: node_static_def)
  have stage: "qs_stage ?st = 0" using W(5) [OF d(1)] d(3) by (simp add: node_stage_def)
  have ph: "qm_phase m = w - 1" using W(4) d(5) by (simp add: phases_def)
  define om where "om = (if w = 1 then m\<lparr>qm_phase := 1, qm_u0 := mCreated ?st, qm_u1 := mProcessed ?st\<rparr>
      else m\<lparr>qm_phase := 2, qm_u0 := CQdIsDirty ?st\<rparr>)"
  define st' where "st' = ?st\<lparr>oProcessed := (if w = 1 then mProcessed ?st else oProcessed ?st), nReported := 0,
      cCreated := 0, cProcessed := 0, cDirty := 0, qs_stage := w\<rparr>"
  let ?out = "map (\<lambda>c. QdSend c m) (children d) @ [QdSend d om]"
  have om: "w = 1 \<Longrightarrow> qm_u0 om = mCreated ?st" "w = 1 \<Longrightarrow> qm_u1 om = mProcessed ?st" "w = 1 \<or> w = 2 \<Longrightarrow> qm_phase om = w"
    by (auto simp: om_def)
  have run: "CQdCallWhenIdle npes d ?st m = Inr (st', ?out)"
  proof (cases "w = 1")
    case True
    moreover have "m\<lparr>qm_phase := 0\<rparr> = m" using ph True by simp
    ultimately show ?thesis using ph stage bcast1_eq [OF kids(1), of d m] d(2) kids(2)
      by (simp add: CQdCallWhenIdle_def CQdHandlePhase0_def qd_simps om_def st'_def)
  next
    case False
    then have w: "w = 2" using W(6) by simp
    moreover have "m\<lparr>qm_phase := 1\<rparr> = m" using ph w by simp
    ultimately show ?thesis using ph stage bcast2_eq [OF kids(1), of d m] d(2) kids(2)
      by (simp add: CQdCallWhenIdle_def CQdHandlePhase1_def qd_simps om_def st'_def)
  qed
  let ?g = "begin_wave g d m om"
  have f: "gstat ?g = (gstat g)(d := QAct)" "gown ?g = (gown g)(d := False)" "gr ?g = gr g" "go ?g = (go g)(d := om)"
    by (simp_all add: begin_wave_def)
  note B = wave_begun [OF W(3) d(1,3) disjI2 [OF d(4)], where m = m and om = om]
  have c: "contrib g d = {#(d, m)#}" using d by (simp add: contrib_def)
  have t: "total h ?g d = 0" for h using B(3) by (simp add: total_def f)
  have inv': "qd_inv (qd_set d st' (s\<lparr>sys_net := S + wnet ?g\<rparr>))"
  proof (rule inv_local [OF inv d(1)])
    show "node_static d st'" using static by (simp add: st'_def node_static_def)
    show "agree g ?g k" if "k < npes" "k \<noteq> d" for k using that B(4) [OF that] by (simp add: agree_def f)
    show "phases w ?g" using W(4,6) ph om(3) by (simp add: phases_def begin_wave_def)
    show "node_stage w ?g d st'" using B(5) by (simp add: node_stage_def f st'_def)
    show "\<exists>x. node_count ?g (gc(d := x)) d st'" if "w = 1" for gc
      using that t by (intro exI [of _ "mCreated ?st"]) (simp add: node_count_def f st'_def om)
    show "node_dirty ?g i0 d st'" if "w = 2" "node_dirty g i0 d ?st" for i0
      using that B(3) by (simp add: node_dirty_def f st'_def)
  qed (use B(1) in \<open>simp_all add: st'_def\<close>)
  have "sys_net s - {#(d, m)#} + qd_sends ?out = S + wnet ?g"
    unfolding W(1) using d(6) B(2) c by (intro net_swap) simp_all
  with run inv' show ?thesis by (intro deliver_okI [of _ _ _ st' ?out]) auto
qed

text \<open>What a handler does with a report before it looks whether it was the last one.\<close>

definition accumulated :: "int \<Rightarrow> qd_msg \<Rightarrow> qd_state \<Rightarrow> qd_state \<Rightarrow> bool" where
  "accumulated w m st s1 \<longleftrightarrow> qs_stage s1 = qs_stage st \<and> nReported s1 = nReported st + 1 \<and> oProcessed s1 = oProcessed st \<and>
     mProcessed s1 = mProcessed st \<and> mCreated s1 = mCreated st \<and> nChildren s1 = nChildren st \<and>
     qs_children s1 = qs_children st \<and> qs_parent s1 = qs_parent st \<and>
     (w = 1 \<longrightarrow> cCreated s1 = cCreated st + qm_u0 m \<and> cProcessed s1 = cProcessed st + qm_u1 m) \<and>
     (w = 2 \<longrightarrow> cDirty st \<noteq> 0 \<or> qm_u0 m \<noteq> 0 \<longrightarrow> cDirty s1 \<noteq> 0)"

lemma recv_nodes:
  assumes acc: "accumulated w m st s1" and act: "gstat g d = QAct"
    and g1: "gstat g1 = gstat g" "go g1 = go g" "gr g1 = gr g" "reports g1 d = reports g d + 1"
      "\<And>f. total f g1 d = total f g d + f m" "reported g1 d \<subseteq> reported g d \<union> {j. gr g j = m}"
  shows "node_static d st \<Longrightarrow> node_static d s1" "node_stage w g d st \<Longrightarrow> node_stage w g1 d s1"
    "w = 1 \<Longrightarrow> node_count g gc d st \<Longrightarrow> node_count g1 gc d s1" "w = 2 \<Longrightarrow> node_dirty g i0 d st \<Longrightarrow> node_dirty g1 i0 d s1"
proof -
  note A = acc [unfolded accumulated_def]
  show "node_static d st \<Longrightarrow> node_static d s1" using A by (simp add: node_static_def)
  show "node_stage w g d st \<Longrightarrow> node_stage w g1 d s1" using A act g1(1,4) by (simp add: node_stage_def)
  show "w = 1 \<Longrightarrow> node_count g gc d st \<Longrightarrow> node_count g1 gc d s1"
    using A act g1(1-3,5) by (simp add: node_count_def)
  show "w = 2 \<Longrightarrow> node_dirty g i0 d st \<Longrightarrow> node_dirty g1 i0 d s1"
    using A act g1(1-3,6) unfolding node_dirty_def by fastforce
qed

text \<open>Not the last report.\<close>

lemma recv_partial:
  assumes inv: "\<forall>i < npes. node_static i (sys_pe s i)"
      "(\<Sum>i < npes. mCreated (sys_pe s i) - mProcessed (sys_pe s i)) = int (sys_app s)" "qd_wave w g S s"
    and acc: "accumulated w m (sys_pe s d) s1" and act: "gstat g d = QAct" and d: "d < npes"
    and g1: "gstat g1 = gstat g" "go g1 = go g" "gr g1 = gr g" "reports g1 d = reports g d + 1"
      "\<And>f. total f g1 d = total f g d + f m" "reported g1 d \<subseteq> reported g d \<union> {j. gr g j = m}"
    and g1': "wave_ok g1" "wnet g = add_mset (d, m) (wnet g1)" "gw g1 = gw g"
      "\<And>k. k < npes \<Longrightarrow> k \<noteq> d \<Longrightarrow> gown g1 k = gown g k \<and> reported g1 k = reported g k"
  shows "qd_inv (qd_set d s1 (s\<lparr>sys_net := sys_net s - {#(d, m)#} + {#}\<rparr>))"
proof -
  note W = qd_waveD [OF inv(3)] and N = recv_nodes [OF acc act g1] and A = acc [unfolded accumulated_def]
  have net: "sys_net s - {#(d, m)#} + {#} = S + wnet g1" unfolding W(1) g1'(2) by simp
  show ?thesis unfolding net
  proof (rule inv_local [OF inv d])
    show "node_static d s1" "node_stage w g1 d s1" using N(1,2) inv(1) W(5) d by blast+
    show "phases w g1" using W(4) by (simp add: phases_def g1 g1')
    show "agree g g1 k" if "k < npes" "k \<noteq> d" for k using g1'(4) [OF that] by (simp add: agree_def g1)
    show "\<exists>x. node_count g1 (gc(d := x)) d s1" if "w = 1" "node_count g gc d (sys_pe s d)" for gc
      using N(3) [OF that] by (intro exI [of _ "gc d"]) simp
  qed (use A g1'(1) N(4) in simp_all)
qed

text \<open>The last report at a processor below the root, which then reports itself.\<close>

lemma recv_report:
  assumes inv: "\<forall>i < npes. node_static i (sys_pe s i)"
      "(\<Sum>i < npes. mCreated (sys_pe s i) - mProcessed (sys_pe s i)) = int (sys_app s)" "qd_wave w g S s"
    and acc: "accumulated w m (sys_pe s d) s1" and act: "gstat g d = QAct" and d: "d < npes" "d \<noteq> 0"
    and g1: "gstat g1 = gstat g" "go g1 = go g" "gr g1 = gr g" "reports g1 d = reports g d + 1"
      "\<And>f. total f g1 d = total f g d + f m" "reported g1 d \<subseteq> reported g d \<union> {j. gr g j = m}"
    and g1': "wave_ok g1" "wnet g = add_mset (d, m) (wnet g1)" "gw g1 = gw g"
      "\<And>k. k < npes \<Longrightarrow> k \<noteq> d \<Longrightarrow> gown g1 k = gown g k \<and> reported g1 k = reported g k"
    and all: "gown g1 d" "reported g1 d = set (children d)"
    and m': "qm_phase m' = w" "w = 1 \<Longrightarrow> qm_u0 m' = cCreated s1 \<and> qm_u1 m' = cProcessed s1" "w = 2 \<Longrightarrow> qm_u0 m' = CQdIsDirty s1"
  shows "qd_inv (qd_set d (fst (qd_report s1 m')) (s\<lparr>sys_net := sys_net s - {#(d, m)#} + qd_sends (snd (qd_report s1 m'))\<rparr>))"
proof -
  note W = qd_waveD [OF inv(3)] and N = recv_nodes [OF acc act g1] and A = acc [unfolded accumulated_def]
  let ?g = "g1\<lparr>gstat := (gstat g1)(d := QDone), gdel := (gdel g1)(d := False), gr := (gr g1)(d := m')\<rparr>"
  have act1: "gstat g1 d = QAct" using act g1(1) by simp
  note R = wave_reported [OF g1'(1) d act1 all, where m = m']
  have f: "gstat ?g = (gstat g)(d := QDone)" "gown ?g = gown g1" "gr ?g = (gr g)(d := m')" "go ?g = go g"
    by (simp_all add: g1)
  have static: "node_static d s1" using N(1) inv(1) d(1) by blast
  have net: "sys_net s - {#(d, m)#} + qd_sends (snd (qd_report s1 m')) = S + wnet ?g"
    unfolding W(1) g1'(2) R(2) using static d(2) by (simp add: qd_report_eq node_static_def)
  have par: "gstat g (parent d) = QAct" using wave_okD(3) [OF W(3) d act] .
  have kid: "c \<noteq> d" "c < npes" if "c \<in> set (children d)" for c
    using that child_iff [OF d(1)] parent_less [of c] by auto
  have self: "(\<Sum>c \<in> set (children d). h (gr ?g c)) = (\<Sum>c \<in> set (children d). h (gr g c))" for h :: "qd_msg \<Rightarrow> int"
    using kid by (intro sum.cong) (auto simp: f)
  show ?thesis unfolding net
  proof (rule inv_local [OF inv d(1)])
    let ?st = "fst (qd_report s1 m')"
    show "node_static d ?st" using static by (simp add: qd_report_eq node_static_def)
    show "mCreated ?st - mProcessed ?st = mCreated (sys_pe s d) - mProcessed (sys_pe s d)"
      using A by (simp add: qd_report_eq)
    show "phases w ?g" using W(4) m'(1) by (simp add: phases_def g1 g1')
    show "node_stage w ?g d ?st" by (simp add: node_stage_def qd_report_eq)
    show "agree g ?g k" if k: "k < npes" "k \<noteq> d" for k
    proof -
      have r: "reported ?g k = reported g k" using R(3) [OF k(1)] g1'(4) [OF k] by simp
      have "d \<notin> reported g k" using act by (simp add: reported_def)
      moreover have "d \<notin> set (children k)" if "gstat g k = QDone"
      proof
        assume "d \<in> set (children k)"
        then have "parent d = k" using child_iff [OF k(1)] by blast
        with par that show False by simp
      qed
      ultimately show ?thesis using r k g1'(4) [OF k] unfolding agree_def f by auto
    qed
    show "\<exists>x. node_count ?g (gc(d := x)) d ?st" if w: "w = 1" "node_count g gc d (sys_pe s d)" for gc
    proof -
      have c: "node_count g1 gc d s1" using N(3) w by blast
      then have "cCreated s1 = gc d + (\<Sum>c \<in> set (children d). qm_u0 (gr g c))"
        "cProcessed s1 = oProcessed s1 + (\<Sum>c \<in> set (children d). qm_u1 (gr g c))"
        using act all by (simp_all add: node_count_def total_def g1)
      then have "node_count ?g gc d ?st"
        using c m'(2) [OF w(1)] self [of qm_u0] self [of qm_u1] act
        by (simp add: node_count_def f qd_report_eq g1)
      then show ?thesis by (intro exI [of _ "gc d"]) simp
    qed
    show "node_dirty ?g i0 d ?st" if w: "w = 2" "node_dirty g i0 d (sys_pe s d)" for i0
    proof -
      have n: "node_dirty g1 i0 d s1" using N(4) w by blast
      have "CQdIsDirty s1 \<noteq> 0" if "d = i0 \<or> (\<exists>c \<in> set (children d). qm_u0 (gr ?g c) \<noteq> 0)"
        using that n act all kid by (auto simp: node_dirty_def CQdIsDirty_def f g1)
      then show ?thesis using n m'(3) [OF w(1)] by (simp add: node_dirty_def f qd_report_eq)
    qed
  qed (use R(1) in simp_all)
qed

text \<open>
  The verdicts at the root.  Equal sums after the first wave: either nothing is in transit or
  some processor has been active since it was asked.  After the second wave such activity
  has reached the root.
\<close>

lemma wave1_verdict:
  assumes ok: "wave_ok g" and r: "gstat g 0 = QAct" "gown g 0" "reported g 0 = set (children 0)"
    and c: "\<forall>i < npes. node_count g gc i (P i)" and eq: "cCreated (P 0) = cProcessed (P 0)"
    and bal: "(\<Sum>i < npes. mCreated (P i) - mProcessed (P i)) = int app"
  shows "app = 0 \<or> (\<exists>i0 < npes. oProcessed (P i0) < mProcessed (P i0))"
proof (rule disjCI)
  assume quiet: "\<not> (\<exists>i0 < npes. oProcessed (P i0) < mProcessed (P i0))"
  have dn: "gstat g i = QDone" if "i < npes" "i \<noteq> 0" for i using wave_complete(1) [OF ok r that] by simp
  have "cCreated (P 0) = (\<Sum>i < npes. gc i)"
  proof -
    have "qm_u0 (gr g j) = gc j + (\<Sum>c \<in> set (children j). qm_u0 (gr g c))" if "j < npes" "j \<noteq> 0" for j
      using c dn [OF that] that by (simp add: node_count_def)
    from sum_children [OF this] show ?thesis using c npes_pos r by (simp add: node_count_def total_def)
  qed
  moreover have "cProcessed (P 0) = (\<Sum>i < npes. oProcessed (P i))"
  proof -
    have "qm_u1 (gr g j) = oProcessed (P j) + (\<Sum>c \<in> set (children j). qm_u1 (gr g c))" if "j < npes" "j \<noteq> 0" for j
      using c dn [OF that] that by (simp add: node_count_def)
    from sum_children [OF this] show ?thesis using c npes_pos r by (simp add: node_count_def total_def)
  qed
  moreover have "mCreated (P i) = gc i \<and> mProcessed (P i) = oProcessed (P i)" if i: "i < npes" for i
  proof -
    have "gstat g i \<noteq> QWait" using dn [OF i] r(1) by (cases "i = 0") simp_all
    then have "oProcessed (P i) \<le> mProcessed (P i)" "mProcessed (P i) = oProcessed (P i) \<longrightarrow> mCreated (P i) = gc i"
      using c i by (simp_all add: node_count_def)
    moreover have "\<not> oProcessed (P i) < mProcessed (P i)" using quiet i by blast
    ultimately show ?thesis by simp
  qed
  then have "(\<Sum>i < npes. mCreated (P i) - mProcessed (P i)) = (\<Sum>i < npes. gc i - oProcessed (P i))"
    by (intro sum.cong) simp_all
  ultimately show "app = 0" using eq bal by (simp add: sum_subtractf)
qed

lemma wave2_verdict:
  assumes ok: "wave_ok g" and r: "gstat g 0 = QAct" "gown g 0" "reported g 0 = set (children 0)"
    and dt: "\<forall>i < npes. node_dirty g i0 i (P i)" and i0: "i0 < npes"
  shows "CQdIsDirty (P 0) \<noteq> 0"
proof (cases "i0 = 0")
  case True
  then show ?thesis using dt npes_pos by (simp add: node_dirty_def CQdIsDirty_def)
next
  case False
  have dn: "gstat g i = QDone" if "i < npes" "i \<noteq> 0" for i using wave_complete(1) [OF ok r that] by simp
  have up: "\<exists>c \<in> set (children 0). qm_u0 (gr g c) \<noteq> 0" if "j < npes" "j \<noteq> 0" "qm_u0 (gr g j) \<noteq> 0" for j
    using that
  proof (induction j rule: less_induct)
    case (less j)
    note p = parent_less [OF less.prems(1,2)] parent_npes [OF less.prems(1,2)]
    have c: "j \<in> set (children (parent j))" using child_iff [OF p(2)] less.prems by blast
    show ?case
    proof (cases "parent j = 0")
      case True then show ?thesis using c less.prems by auto
    next
      case False
      then have "qm_u0 (gr g (parent j)) \<noteq> 0"
        using dt p(2) dn [OF p(2) False] c less.prems(3) unfolding node_dirty_def by blast
      then show ?thesis using less.IH [OF p] False by blast
    qed
  qed
  have "qm_u0 (gr g i0) \<noteq> 0" using dt i0 dn [OF i0 False] unfolding node_dirty_def by blast
  then have "\<exists>c \<in> reported g 0. qm_u0 (gr g c) \<noteq> 0" using up i0 False r(3) by simp
  then have "cDirty (P 0) \<noteq> 0" using dt npes_pos r(1) unfolding node_dirty_def by blast
  then show ?thesis by (simp add: CQdIsDirty_def)
qed

text \<open>The last report reaches the root.\<close>

lemma deliver_root:
  assumes inv: "\<forall>i < npes. node_static i (sys_pe s i)"
      "(\<Sum>i < npes. mCreated (sys_pe s i) - mProcessed (sys_pe s i)) = int (sys_app s)" "qd_wave w g S s"
    and act: "gstat g 0 = QAct" and acc: "accumulated w m (sys_pe s 0) (qd_acc w m (sys_pe s 0))"
    and g1: "gstat g1 = gstat g" "go g1 = go g" "gr g1 = gr g" "reports g1 0 = reports g 0 + 1"
      "\<And>f. total f g1 0 = total f g 0 + f m" "reported g1 0 \<subseteq> reported g 0 \<union> {j. gr g j = m}"
    and g1': "wave_ok g1" "wnet g = add_mset (0, m) (wnet g1)" "gw g1 = gw g"
      "\<And>k. k < npes \<Longrightarrow> k \<noteq> 0 \<Longrightarrow> gown g1 k = gown g k \<and> reported g1 k = reported g k"
    and full: "gown g1 0" "reported g1 0 = set (children 0)" "CQdAllReported (qd_acc w m (sys_pe s 0))" and ph: "qm_phase m = w"
  shows "deliver_ok s 0 m"
proof -
  note W = qd_waveD [OF inv(3)] and N = recv_nodes [OF acc act g1] and A = acc [unfolded accumulated_def]
  let ?st = "sys_pe s 0"
  let ?s1 = "qd_acc w m ?st"
  let ?P = "(sys_pe s)(0 := ?s1)"
  have act1: "gstat g1 0 = QAct" using act g1(1) by simp
  note C = wave_complete [OF g1'(1) act1 full(1,2)] and R = act1 full(1,2)
  have stage: "qs_stage ?st = w" using W(5) [OF npes_pos] act by (simp add: node_stage_def)
  have static: "node_static 0 ?s1" using N(1) inv(1) npes_pos by blast
  then have kids: "nChildren ?s1 = int (length (qs_children ?s1))" "qs_children ?s1 = children 0" by (simp_all add: node_static_def)
  have net: "sys_net s - {#(0, m)#} = S" unfolding W(1) g1'(2) C(2) by simp
  have idle: "qs_stage (sys_pe s k) = 0" if "k < npes" "k \<noteq> 0" for k
    using W(5) [OF that(1)] C(1) [OF that] g1(1) by (simp add: node_stage_def)
  have ag: "agree g g1 k" if "k < npes" "k \<noteq> 0" for k using g1'(4) [OF that] by (simp add: agree_def g1)
  have bal: "(\<Sum>i < npes. mCreated (?P i) - mProcessed (?P i)) = int (sys_app s)"
    using balance_upd [OF npes_pos, of ?s1 s 0] A inv(2) by simp
  let ?z = "?s1\<lparr>nReported := 0, cCreated := 0, cProcessed := 0, cDirty := 0\<rparr>"
  let ?m1 = "m\<lparr>qm_phase := 1, qm_u0 := mCreated ?s1, qm_u1 := mProcessed ?s1\<rparr>"
  let ?out1 = "map (\<lambda>c. QdSend c (m\<lparr>qm_phase := 0\<rparr>)) (children 0) @ [QdSend 0 ?m1]"
  have sends1: "qd_sends ?out1 = mset (map (\<lambda>c. (c, m\<lparr>qm_phase := 0\<rparr>)) (children 0)) + {#(0, ?m1)#}" by simp
  have again: "deliver_ok s 0 m" if run: "CQdCallWhenIdle npes 0 ?st m = CQdBcastQD1 0 ?s1 m"
  proof (rule deliver_okI)
    show "CQdCallWhenIdle npes 0 ?st m = Inr (?s1\<lparr>oProcessed := mProcessed ?s1, nReported := 0, cCreated := 0, cProcessed := 0, cDirty := 0, qs_stage := 1\<rparr>, ?out1)"
      unfolding run bcast1_eq [OF kids(1)] kids(2) ..
    show "qd_inv (qd_set 0 (?s1\<lparr>oProcessed := mProcessed ?s1, nReported := 0, cCreated := 0, cProcessed := 0, cDirty := 0, qs_stage := 1\<rparr>)
        (s\<lparr>sys_net := sys_net s - {#(0, m)#} + qd_sends ?out1\<rparr>))"
      unfolding net sends1 using static A W(2)
      by (intro inv_new_wave [where w = 1, OF inv(1,2) idle]) (simp_all add: node_static_def)
  qed auto
  show ?thesis using W(6)
  proof
    assume w: "w = 1"
    obtain gc where gc: "\<forall>i < npes. node_count g gc i (sys_pe s i)" using W(7) [OF w] by blast
    have "\<forall>i < npes. node_count g1 gc i (?P i)" using gc N(3) [OF w] agree_nodes(2) [OF ag] npes_pos by simp
    note V = wave1_verdict [OF g1'(1) R this _ bal]
    note E = report_effect(3) [where npes = npes, OF W(6) stage ph full(3) w]
    show ?thesis
    proof (cases "cCreated ?s1 = cProcessed ?s1")
      case True
      let ?m2 = "m\<lparr>qm_phase := 2, qm_u0 := CQdIsDirty ?s1\<rparr>"
      let ?out = "map (\<lambda>c. QdSend c (m\<lparr>qm_phase := 1\<rparr>)) (children 0) @ [QdSend 0 ?m2]"
      let ?st2 = "?s1\<lparr>nReported := 0, cCreated := 0, cProcessed := 0, cDirty := 0, qs_stage := 2\<rparr>"
      have sends2: "qd_sends ?out = mset (map (\<lambda>c. (c, m\<lparr>qm_phase := 1\<rparr>)) (children 0)) + {#(0, ?m2)#}" by simp
      show ?thesis
      proof (rule deliver_okI)
        show "CQdCallWhenIdle npes 0 ?st m = Inr (?st2, ?out)"
          using E True unfolding bcast2_eq [OF kids(1)] kids(2) by simp
        have same: "oProcessed (((sys_pe s)(0 := ?st2)) i) = oProcessed (?P i)"
          "mProcessed (((sys_pe s)(0 := ?st2)) i) = mProcessed (?P i)" for i by (cases "i = 0"; simp)+
        have "sys_app s = 0 \<or> (\<exists>i0 < npes. oProcessed (?P i0) < mProcessed (?P i0))" using True by (intro V) simp
        then have "sys_app s = 0 \<or> (\<exists>i0 < npes. oProcessed (((sys_pe s)(0 := ?st2)) i0) < mProcessed (((sys_pe s)(0 := ?st2)) i0))"
          unfolding same .
        then show "qd_inv (qd_set 0 ?st2 (s\<lparr>sys_net := sys_net s - {#(0, m)#} + qd_sends ?out\<rparr>))"
          unfolding net sends2 using static A W(2) ph w
          by (intro inv_new_wave [where w = 2, OF inv(1,2) idle]) (simp_all add: node_static_def)
      qed auto
    next
      case False
      then show ?thesis using again E by simp
    qed
  next
    assume w: "w = 2"
    note E = report_effect(4) [where npes = npes, OF W(6) stage ph full(3) w]
    show ?thesis
    proof (cases "CQdIsDirty ?s1 = 0")
      case False
      then show ?thesis using again E by simp
    next
      case True
      let ?sz = "?s1\<lparr>nReported := 0, cCreated := 0, cProcessed := 0, cDirty := 0, qs_stage := 0\<rparr>"
      have app: "sys_app s = 0"
      proof (rule ccontr)
        assume "sys_app s \<noteq> 0"
        with W(8) [OF w] have "\<exists>i0 < npes. \<forall>i < npes. node_dirty g i0 i (sys_pe s i)" by simp
        then obtain i0 where i0: "i0 < npes" "\<forall>i < npes. node_dirty g i0 i (sys_pe s i)" by blast
        then have "\<forall>i < npes. node_dirty g1 i0 i (?P i)" using N(4) [OF w] agree_nodes(3) [OF ag] npes_pos by simp
        from wave2_verdict [OF g1'(1) R this i0(1)] True show False by simp
      qed
      let ?s = "qd_set 0 ?sz (s\<lparr>sys_net := sys_net s - {#(0, m)#} + qd_sends [QdAnnounce m]\<rparr>)"
      have run: "CQdCallWhenIdle npes 0 ?st m = Inr (?sz, [QdAnnounce m])" using E True by simp
      have "qd_wave 1 (blank 1) S ?s"
        unfolding qd_wave_def using W(2) idle net by (simp add: blank_wave node_stage_def node_count_def)
      moreover have "\<forall>i < npes. node_static i (sys_pe ?s i)" using inv(1) static by (simp add: node_static_def)
      moreover have "(\<Sum>i < npes. mCreated (sys_pe ?s i) - mProcessed (sys_pe ?s i)) = int (sys_app ?s)"
        using balance_upd [OF npes_pos, of ?sz s 0] A inv(2) by simp
      ultimately have "qd_inv ?s" unfolding qd_inv_def by blast
      then show ?thesis using run app unfolding deliver_ok_def by blast
    qed
  qed
qed

text \<open>A message of the wave reaches an active processor.\<close>

lemma deliver_receive:
  assumes inv: "\<forall>i < npes. node_static i (sys_pe s i)"
      "(\<Sum>i < npes. mCreated (sys_pe s i) - mProcessed (sys_pe s i)) = int (sys_app s)" "qd_wave w g S s"
    and m: "(d, m) \<in># wnet g" and act: "gstat g d = QAct"
  shows "deliver_ok s d m"
proof -
  note W = qd_waveD [OF inv(3)]
  obtain g1 where g1: "wave_ok g1" "wnet g = add_mset (d, m) (wnet g1)" "gstat g1 = gstat g" "gw g1 = gw g" "go g1 = go g"
    "gr g1 = gr g" "reports g1 d = reports g d + 1" "\<And>f. total f g1 d = total f g d + f m"
    "\<And>k. k < npes \<Longrightarrow> k \<noteq> d \<Longrightarrow> gown g1 k = gown g k \<and> reported g1 k = reported g k"
    "reported g1 d \<subseteq> reported g d \<union> {j. gr g j = m}" "m = go g d \<or> (\<exists>j. m = gr g j)" "d < npes"
    using receive [OF W(3) m act] by blast
  let ?st = "sys_pe s d"
  let ?s1 = "qd_acc w m ?st"
  have acc: "accumulated w m ?st ?s1" by (simp add: accumulated_def qd_acc_def qd_simps)
  note A = acc [unfolded accumulated_def] and N = recv_nodes [OF acc act g1(3,5,6,7,8,10)]
  have static: "node_static d ?s1" using inv(1) N(1) g1(12) by blast
  have st: "qs_stage ?st = w" "nReported ?st = int (reports g d)" using W(5) [OF g1(12)] act by (simp_all add: node_stage_def)
  have ph: "qm_phase m = w" using W(4) g1(11) by (auto simp: phases_def)
  note E = report_effect [where npes = npes, OF W(6) st(1) ph]
  have "nReported ?s1 = int (reports g1 d)" using A st(2) g1(7) by simp
  then have all: "CQdAllReported ?s1 \<longleftrightarrow> gown g1 d \<and> reported g1 d = set (children d)"
    using reports_full [OF g1(12), of g1] static by (simp add: CQdAllReported_def node_static_def) linarith
  show ?thesis
  proof (cases "CQdAllReported ?s1")
    case False
    show ?thesis using E(1) [OF False]
      recv_partial [OF inv acc act g1(12) g1(3,5,6,7,8,10) g1(1,2,4,9)]
      by (intro deliver_okI [of _ _ _ ?s1 "[]"]) simp_all
  next
    case True
    with all have full: "gown g1 d" "reported g1 d = set (children d)" by simp_all
    show ?thesis
    proof (cases "d = 0")
      case False
      let ?m = "qd_result w m ?s1"
      have "qd_inv (qd_set d (fst (qd_report ?s1 ?m)) (s\<lparr>sys_net := sys_net s - {#(d, m)#} + qd_sends (snd (qd_report ?s1 ?m))\<rparr>))"
        using False full ph W(6) by (intro recv_report [OF inv acc act g1(12) _ g1(3,5,6,7,8,10) g1(1,2,4,9)]) (auto simp: qd_result_def)
      then show ?thesis using E(2) [OF True False]
        by (intro deliver_okI [of _ _ _ "fst (qd_report ?s1 ?m)" "snd (qd_report ?s1 ?m)"]) (simp_all add: qd_report_eq)
    next
      case d0: True
      show ?thesis using act acc g1(3,5,6,7,8,10) g1(1,2,4,9) full True ph unfolding d0
        by (intro deliver_root [OF inv]) assumption+
    qed
  qed
qed

text \<open>A request to start the detection reaches the root.\<close>

lemma waiting_root:
  assumes "wave_ok g" "gstat g 0 = QWait"
  shows "i < npes \<Longrightarrow> gstat g i = QWait" "wnet g = {#}"
proof -
  have w: "gstat g i = QWait" if "i < npes" for i
    using tree_induct [OF that, of "\<lambda>i. gstat g i = QWait"] wave_okD(1) [OF assms(1)] assms(2) by blast
  then show "i < npes \<Longrightarrow> gstat g i = QWait" .
  have "contrib g i = {#}" if "i < npes" for i
    using w that parent_npes by (cases "i = 0") (simp_all add: contrib_def)
  then show "wnet g = {#}" by (simp add: wnet_def)
qed

lemma deliver_stray:
  assumes inv: "\<forall>i < npes. node_static i (sys_pe s i)"
      "(\<Sum>i < npes. mCreated (sys_pe s i) - mProcessed (sys_pe s i)) = int (sys_app s)" "qd_wave w g S s"
    and m: "(0, m) \<in># S"
  shows "deliver_ok s 0 m"
proof -
  note W = qd_waveD [OF inv(3)]
  let ?st = "sys_pe s 0"
  have ph: "qm_phase m = 0" using W(2) m by (auto simp: strays_def)
  have S': "strays (S - {#(0, m)#})" using W(2) by (auto simp: strays_def dest: in_diffD)
  have net: "sys_net s - {#(0, m)#} = S - {#(0, m)#} + wnet g" unfolding W(1) using m by simp
  have static: "node_static 0 ?st" using inv(1) npes_pos by blast
  show ?thesis
  proof (cases "gstat g 0 = QAct")
    case True
    then have "qs_stage ?st \<noteq> 0" using W(5) [OF npes_pos] W(6) by (auto simp: node_stage_def)
    then have run: "CQdCallWhenIdle npes 0 ?st m = Inr (?st, [])"
      using ph by (simp add: CQdCallWhenIdle_def CQdHandlePhase0_def CQdMsgGetPhase_def CQdGetStage_def)
    let ?s = "qd_set 0 ?st (s\<lparr>sys_net := sys_net s - {#(0, m)#} + qd_sends []\<rparr>)"
    have "qd_wave w g (S - {#(0, m)#}) ?s"
      using inv(3) S' net unfolding qd_wave_def by simp
    then have "qd_inv ?s" using inv(1,2) unfolding qd_inv_def by auto
    with run show ?thesis by (intro deliver_okI) auto
  next
    case False
    then have "gstat g 0 = QWait" using W(3) by (cases "gstat g 0") (simp_all add: wave_ok_def)
    note Z = waiting_root [OF W(3) this]
    have idle: "qs_stage (sys_pe s k) = 0" if "k < npes" for k
      using W(5) [OF that] Z(1) [OF that] by (simp add: node_stage_def)
    have kids: "nChildren ?st = int (length (qs_children ?st))" "qs_children ?st = children 0"
      using static by (simp_all add: node_static_def)
    let ?om = "m\<lparr>qm_phase := 1, qm_u0 := mCreated ?st, qm_u1 := mProcessed ?st\<rparr>"
    let ?out = "map (\<lambda>c. QdSend c (m\<lparr>qm_phase := 0\<rparr>)) (children 0) @ [QdSend 0 ?om]"
    let ?sz = "?st\<lparr>oProcessed := mProcessed ?st, nReported := 0, cCreated := 0, cProcessed := 0, cDirty := 0, qs_stage := 1\<rparr>"
    have run: "CQdCallWhenIdle npes 0 ?st m = Inr (?sz, ?out)"
      using ph idle [OF npes_pos] bcast1_eq [OF kids(1), of 0 m] kids(2)
      by (simp add: CQdCallWhenIdle_def CQdHandlePhase0_def CQdMsgGetPhase_def CQdGetStage_def)
    have sends: "sys_net s - {#(0, m)#} + qd_sends ?out =
        (S - {#(0, m)#}) + (mset (map (\<lambda>c. (c, m\<lparr>qm_phase := 0\<rparr>)) (children 0)) + {#(0, ?om)#})"
      unfolding net Z(2) by simp
    have "qd_inv (qd_set 0 ?sz (s\<lparr>sys_net := sys_net s - {#(0, m)#} + qd_sends ?out\<rparr>))"
      unfolding sends using static S' idle by (intro inv_new_wave [where w = 1, OF inv(1,2)]) (simp_all add: node_static_def)
    with run show ?thesis by (intro deliver_okI) auto
  qed
qed

lemma deliver_any:
  assumes "qd_inv s" "(d, m) \<in># sys_net s"
  shows "deliver_ok s d m"
proof -
  obtain w g S where inv: "\<forall>i < npes. node_static i (sys_pe s i)"
    "(\<Sum>i < npes. mCreated (sys_pe s i) - mProcessed (sys_pe s i)) = int (sys_app s)" "qd_wave w g S s"
    using assms(1) unfolding qd_inv_def by blast
  note W = qd_waveD [OF inv(3)]
  consider "(d, m) \<in># S" | "(d, m) \<in># wnet g" using assms(2) W(1) by auto
  then show ?thesis
  proof cases
    case 1
    then have "d = 0" using W(2) by (auto simp: strays_def)
    then show ?thesis using deliver_stray [OF inv] 1 by blast
  next
    case 2
    show ?thesis using 2 W(3)
    proof (cases rule: wnet_cases)
      case start
      then show ?thesis using deliver_start [OF inv] 2 by blast
    qed (use deliver_receive [OF inv 2] in blast)+
  qed
qed

section \<open>Reachable states\<close>

lemma inv_app:
  assumes "qd_inv s" "d < npes" "0 < sys_app s"
  shows "qd_inv (qd_set d (CQdCreate (CQdProcess (sys_pe s d) 1) (int k)) (s\<lparr>sys_app := sys_app s - 1 + k\<rparr>))"
proof -
  let ?st = "CQdCreate (CQdProcess (sys_pe s d) 1) (int k)" and ?app = "sys_app s - 1 + k"
  let ?s = "qd_set d ?st (s\<lparr>sys_app := ?app\<rparr>)"
  obtain w g S where inv: "\<forall>i < npes. node_static i (sys_pe s i)"
    "(\<Sum>i < npes. mCreated (sys_pe s i) - mProcessed (sys_pe s i)) = int (sys_app s)" "qd_wave w g S s"
    using assms(1) unfolding qd_inv_def by blast
  note W = qd_waveD [OF inv(3)]
  have st: "qs_stage ?st = qs_stage (sys_pe s d)" "nReported ?st = nReported (sys_pe s d)" "oProcessed ?st = oProcessed (sys_pe s d)"
    "mProcessed ?st = mProcessed (sys_pe s d) + 1" "cCreated ?st = cCreated (sys_pe s d)" "cProcessed ?st = cProcessed (sys_pe s d)"
    "cDirty ?st = cDirty (sys_pe s d)" "mCreated ?st = mCreated (sys_pe s d) + int k" "nChildren ?st = nChildren (sys_pe s d)"
    "qs_children ?st = qs_children (sys_pe s d)" "qs_parent ?st = qs_parent (sys_pe s d)"
    by (simp_all add: qd_simps)
  have n: "node_static d (sys_pe s d) \<Longrightarrow> node_static d ?st" "node_stage w g d (sys_pe s d) \<Longrightarrow> node_stage w g d ?st"
    "node_count g gc d (sys_pe s d) \<Longrightarrow> node_count g gc d ?st" "node_dirty g i0 d (sys_pe s d) \<Longrightarrow> node_dirty g i0 d ?st" for gc i0
    by (simp_all only: node_static_def node_stage_def node_count_def node_dirty_def st) auto
  have pay: "w = 1 \<and> (\<exists>gc. \<forall>i < npes. node_count g gc i (sys_pe ?s i)) \<or>
      w = 2 \<and> (sys_app ?s = 0 \<or> (\<exists>i0 < npes. \<forall>i < npes. node_dirty g i0 i (sys_pe ?s i)))"
    using W(6)
  proof
    assume w: "w = 1"
    from W(7) [OF w] obtain gc where gc: "\<forall>i < npes. node_count g gc i (sys_pe s i)" by blast
    have "\<forall>i < npes. node_count g gc i (sys_pe ?s i)"
    proof (intro allI impI)
      fix i assume "i < npes" then show "node_count g gc i (sys_pe ?s i)" using gc n(3) by (cases "i = d") simp_all
    qed
    with w show ?thesis by blast
  next
    assume w: "w = 2"
    have "\<exists>i0 < npes. \<forall>i < npes. node_dirty g i0 i (sys_pe s i)" using W(8) [OF w] assms(3) by simp
    then obtain i0 where i0: "i0 < npes" "\<forall>i < npes. node_dirty g i0 i (sys_pe s i)" by blast
    have "\<forall>i < npes. node_dirty g i0 i (sys_pe ?s i)"
    proof (intro allI impI)
      fix i assume "i < npes" then show "node_dirty g i0 i (sys_pe ?s i)" using i0(2) n(4) by (cases "i = d") simp_all
    qed
    with w i0(1) show ?thesis by blast
  qed
  have stage: "\<forall>i < npes. node_stage w g i (sys_pe ?s i)" using W(5) n(2) by simp
  have "sys_net ?s = S + wnet g" using W(1) by simp
  then have "qd_wave w g S ?s" unfolding qd_wave_def using W(2,3,4) stage pay by blast
  moreover have "\<forall>i < npes. node_static i (sys_pe ?s i)" using inv(1) n(1) by simp
  moreover have "(\<Sum>i < npes. mCreated (sys_pe ?s i) - mProcessed (sys_pe ?s i)) = int (sys_app ?s)"
    using balance_upd [OF assms(2), of ?st s "int k - 1"] st(4,8) inv(2) assms(3) by (simp add: of_nat_diff)
  ultimately show ?thesis unfolding qd_inv_def by blast
qed

lemma inv_start:
  assumes "qd_inv s"
  shows "qd_inv (qd_set d (sys_pe s d) (s\<lparr>sys_net := sys_net s + {#(0, m\<lparr>qm_phase := 0\<rparr>)#}\<rparr>))"
proof -
  obtain w g S where inv: "\<forall>i < npes. node_static i (sys_pe s i)"
    "(\<Sum>i < npes. mCreated (sys_pe s i) - mProcessed (sys_pe s i)) = int (sys_app s)" "qd_wave w g S s"
    using assms(1) unfolding qd_inv_def by blast
  let ?s = "qd_set d (sys_pe s d) (s\<lparr>sys_net := sys_net s + {#(0, m\<lparr>qm_phase := 0\<rparr>)#}\<rparr>)"
  have "qd_wave w g (add_mset (0, m\<lparr>qm_phase := 0\<rparr>) S) ?s"
    using inv(3) unfolding qd_wave_def by (simp add: strays_def)
  then show ?thesis using inv(1,2) unfolding qd_inv_def by auto
qed

end

definition topo_parent :: "topology \<Rightarrow> nat \<Rightarrow> nat" where
  "topo_parent T p = nat (CmiSpanTreeParent T p)"

lemma span_tree_topo:
  assumes "topo_wf T" "0 < CmiNumPes T"
  shows "span_tree (CmiNumPes T) (topo_parent T) (CmiSpanTreeChildren T)"
proof -
  have "topo_parent T = (\<lambda>p. nat (CmiSpanTreeParent T p))" by (simp add: topo_parent_def fun_eq_iff)
  then show ?thesis using span_tree_topology [OF assms] by simp
qed

abbreviation sys_inv :: "topology \<Rightarrow> qd_sys \<Rightarrow> bool" where
  "sys_inv T \<equiv> span_tree.qd_inv (CmiNumPes T) (topo_parent T) (CmiSpanTreeChildren T)"

lemma init_inv:
  assumes wf: "topo_wf T" "0 < CmiNumPes T" and i: "qd_init T s"
  shows "sys_inv T s"
proof -
  note t = span_tree_topo [OF wf]
  have pe: "\<exists>k. sys_pe s i = CQdCreate (CQdStateCreate T i) (int k)" if "i < CmiNumPes T" for i
    using i that by (simp add: qd_init_def)
  have st: "qs_stage (sys_pe s i) = 0" "mProcessed (sys_pe s i) = 0"
    "span_tree.node_static (topo_parent T) (CmiSpanTreeChildren T) i (sys_pe s i)" if i: "i < CmiNumPes T" for i
  proof -
    obtain k where k: "sys_pe s i = CQdCreate (CQdStateCreate T i) (int k)" using pe [OF i] by blast
    then show "qs_stage (sys_pe s i) = 0" "mProcessed (sys_pe s i) = 0" by (simp_all add: CQdCreate_def CQdStateCreate_def)
    show "span_tree.node_static (topo_parent T) (CmiSpanTreeChildren T) i (sys_pe s i)"
      unfolding span_tree.node_static_def [OF t] k
      using spantree_distinct(2) [OF wf(1) i] spantree_parent_less(1) [OF wf(1) i]
      by (simp add: CQdCreate_def CQdStateCreate_def topo_parent_def)
  qed
  have "(\<Sum>i < CmiNumPes T. mCreated (sys_pe s i) - mProcessed (sys_pe s i)) = (\<Sum>i < CmiNumPes T. mCreated (sys_pe s i))"
    using st(2) by (intro sum.cong) simp_all
  then have bal: "(\<Sum>i < CmiNumPes T. mCreated (sys_pe s i) - mProcessed (sys_pe s i)) = int (sys_app s)"
    using i by (simp add: qd_init_def)
  note B = span_tree.blank_wave [OF t]
  have "span_tree.qd_wave (CmiNumPes T) (topo_parent T) (CmiSpanTreeChildren T) 1 (span_tree.blank 1) {#} s"
    unfolding span_tree.qd_wave_def [OF t] span_tree.node_stage_def [OF t] span_tree.node_count_def [OF t] span_tree.strays_def [OF t]
    using i st(1) B by (simp add: qd_init_def)
  then show ?thesis unfolding span_tree.qd_inv_def [OF t] using bal st(3) by blast
qed

lemma step_inv:
  assumes wf: "topo_wf T" "0 < CmiNumPes T" and s: "qd_step T s s'" "sys_inv T s"
  shows "sys_inv T s'"
  using s
proof (cases rule: qd_step.cases)
  case (app i k)
  then show ?thesis using span_tree.inv_app [OF span_tree_topo [OF wf] s(2)] by blast
next
  case (start i m st out)
  then show ?thesis using span_tree.inv_start [OF span_tree_topo [OF wf] s(2), of i m] by (auto simp: qd_start_eq)
next
  case (deliver i m st out)
  then show ?thesis using span_tree.deliver_any [OF span_tree_topo [OF wf] s(2), of i m]
    by (simp add: span_tree.deliver_ok_def [OF span_tree_topo [OF wf]])
qed

lemma reach_inv:
  assumes wf: "topo_wf T" "0 < CmiNumPes T" and r: "qd_reach T s"
  shows "sys_inv T s"
  using r by (induction rule: qd_reach.induct) (blast intro: init_inv [OF wf] step_inv [OF wf])+

section \<open>Properties\<close>

text \<open>
  C22.  The detector never fails.  In every state the processors can reach, in whatever order
  messages are delivered and however many detections are requested at once, handling any
  detector message in transit fails no assertion and does not abort.
\<close>

theorem qd_never_fails:
  assumes "topo_wf T" "0 < CmiNumPes T" "qd_reach T s" "(i, m) \<in># sys_net s"
  shows "\<exists>st out. CQdCallWhenIdle (CmiNumPes T) i (qd_arrive (sys_pe s i)) m = Inr (st, out)"
proof -
  note t = span_tree_topo [OF assms(1,2)]
  from span_tree.deliver_any [OF t reach_inv [OF assms(1,2,3)] assms(4)]
  show ?thesis unfolding span_tree.deliver_ok_def [OF t] by auto
qed

text \<open>
  C23.  Soundness of quiescence detection.  When the root announces quiescence, no
  application message is in transit, although the counts were collected at different times
  on different processors while the application was running.
\<close>

theorem qd_sound:
  assumes "topo_wf T" "0 < CmiNumPes T" "qd_reach T s" "(i, m) \<in># sys_net s"
    and "CQdCallWhenIdle (CmiNumPes T) i (qd_arrive (sys_pe s i)) m = Inr (st, out)" "QdAnnounce a \<in> set out"
  shows "sys_app s = 0"
proof -
  note t = span_tree_topo [OF assms(1,2)]
  from span_tree.deliver_any [OF t reach_inv [OF assms(1,2,3)] assms(4)] assms(5,6)
  show ?thesis unfolding span_tree.deliver_ok_def [OF t] by auto
qed

text \<open>One processor: the states of a detection from the request to the announcement.\<close>

definition qd1 :: "int \<Rightarrow> int \<Rightarrow> qd_sys" where
  "qd1 stage phase = \<lparr>sys_pe = (\<lambda>i. CQdStateCreate (single_topology 1) i)(0 := (CQdStateCreate (single_topology 1) 0)\<lparr>qs_stage := stage\<rparr>),
     sys_net = {#(0, \<lparr>qm_phase = phase, qm_u0 = 0, qm_u1 = 0\<rparr>)#}, sys_app = 0\<rparr>"

lemma state0: "CQdStateCreate (single_topology 1) 0 =
  \<lparr>qs_stage = 0, oProcessed = 0, mCreated = 0, mProcessed = 0, cCreated = 0, cProcessed = 0, cDirty = 0,
   nReported = 0, nChildren = 0, qs_parent = - 1, qs_children = []\<rparr>"
  by code_simp

lemma qd1_steps:
  "CQdCallWhenIdle 1 0 (sys_pe (qd1 0 0) 0) \<lparr>qm_phase = 0, qm_u0 = 0, qm_u1 = 0\<rparr> =
     Inr (sys_pe (qd1 1 1) 0, [QdSend 0 \<lparr>qm_phase = 1, qm_u0 = 0, qm_u1 = 0\<rparr>])"
  "CQdCallWhenIdle 1 0 (sys_pe (qd1 1 1) 0) \<lparr>qm_phase = 1, qm_u0 = 0, qm_u1 = 0\<rparr> =
     Inr (sys_pe (qd1 2 2) 0, [QdSend 0 \<lparr>qm_phase = 2, qm_u0 = 0, qm_u1 = 0\<rparr>])"
  "CQdCallWhenIdle 1 0 (sys_pe (qd1 2 2) 0) \<lparr>qm_phase = 2, qm_u0 = 0, qm_u1 = 0\<rparr> =
     Inr (sys_pe (qd1 0 0) 0, [QdAnnounce \<lparr>qm_phase = 2, qm_u0 = 0, qm_u1 = 0\<rparr>])"
  unfolding qd1_def qd_sys.simps fun_upd_same state0 by code_simp+

lemma qd1_reach: "qd_reach (single_topology 1) (qd1 0 0)" "qd_reach (single_topology 1) (qd1 1 1)" "qd_reach (single_topology 1) (qd1 2 2)"
proof -
  let ?T = "single_topology 1"
  have n: "CmiNumPes ?T = 1" by (simp add: single_topology_def)
  let ?s = "\<lparr>sys_pe = \<lambda>i. CQdStateCreate ?T i, sys_net = {#}, sys_app = 0\<rparr>"
  have "qd_init ?T ?s"
    unfolding qd_init_def n by (auto simp: CQdStateCreate_def CQdCreate_def intro!: exI [of _ 0])
  then have 0: "qd_reach ?T ?s" by (rule qd_reach.init)
  have next_state: "qd_reach ?T s'" if "qd_reach ?T (qd1 a p)"
    "CQdCallWhenIdle 1 0 (sys_pe (qd1 a p) 0) \<lparr>qm_phase = p, qm_u0 = 0, qm_u1 = 0\<rparr> = Inr (st, out)"
    "s' = qd_set 0 st ((qd1 a p)\<lparr>sys_net := qd_sends out\<rparr>)" for a p st out s'
    using qd_step.deliver [of 0 "\<lparr>qm_phase = p, qm_u0 = 0, qm_u1 = 0\<rparr>" "qd1 a p" ?T st out] that
    by (intro qd_reach.step [OF that(1)]) (simp add: n [unfolded One_nat_def] qd1_def qd_arrive_def CQdProcess_def)
  have "qd_step ?T ?s (qd_set 0 (CQdStateCreate ?T 0) (?s\<lparr>sys_net := sys_net ?s + qd_sends [QdSend 0 \<lparr>qm_phase = 0, qm_u0 = 0, qm_u1 = 0\<rparr>]\<rparr>))"
    by (rule qd_step.start [where m = "\<lparr>qm_phase = 0, qm_u0 = 0, qm_u1 = 0\<rparr>"]) (simp_all add: n [unfolded One_nat_def] qd_start_eq)
  moreover have "qd_set 0 (CQdStateCreate ?T 0) (?s\<lparr>sys_net := sys_net ?s + qd_sends [QdSend 0 \<lparr>qm_phase = 0, qm_u0 = 0, qm_u1 = 0\<rparr>]\<rparr>) = qd1 0 0"
    unfolding qd1_def qd_set_def state0 by (simp add: qd_sends_def)
  ultimately show 1: "qd_reach ?T (qd1 0 0)" using qd_reach.step [OF 0] by metis
  show 2: "qd_reach ?T (qd1 1 1)"
    by (rule next_state [OF 1 qd1_steps(1)]) (simp add: qd1_def qd_set_def qd_sends_def)
  show "qd_reach ?T (qd1 2 2)"
    by (rule next_state [OF 2 qd1_steps(2)]) (simp add: qd1_def qd_set_def qd_sends_def)
qed

theorem qd_never_fails_witness:
  "\<exists>st out. CQdCallWhenIdle 1 0 (qd_arrive (sys_pe (qd1 1 1) 0)) \<lparr>qm_phase = 1, qm_u0 = 0, qm_u1 = 0\<rparr> = Inr (st, out)"
  using qd_never_fails [of "single_topology 1" "qd1 1 1" 0] topo_wf_instances(1) [of 1] qd1_reach(2)
  by (simp add: single_topology_def qd1_def)

theorem qd_sound_witness:
  "CQdCallWhenIdle 1 0 (qd_arrive (sys_pe (qd1 2 2) 0)) \<lparr>qm_phase = 2, qm_u0 = 0, qm_u1 = 0\<rparr> =
     Inr (sys_pe (qd1 0 0) 0, [QdAnnounce \<lparr>qm_phase = 2, qm_u0 = 0, qm_u1 = 0\<rparr>]) \<and> sys_app (qd1 2 2) = 0"
proof -
  let ?T = "single_topology 1" and ?m = "\<lparr>qm_phase = 2, qm_u0 = 0, qm_u1 = 0\<rparr>"
  have n: "CmiNumPes ?T = 1" "0 < CmiNumPes ?T" by (simp_all add: single_topology_def)
  have run: "CQdCallWhenIdle (CmiNumPes ?T) 0 (qd_arrive (sys_pe (qd1 2 2) 0)) ?m = Inr (sys_pe (qd1 0 0) 0, [QdAnnounce ?m])"
    unfolding n using qd1_steps(3) by (simp add: qd_arrive_def CQdProcess_def)
  have m: "(0, ?m) \<in># sys_net (qd1 2 2)" by (simp add: qd1_def)
  have "sys_app (qd1 2 2) = 0"
    by (rule qd_sound [OF topo_wf_instances(1) n(2) qd1_reach(3) m run]) simp_all
  with run show ?thesis unfolding n by blast
qed

end
