(* ===== verification/Crc32.thy ===== *)
theory Crc32
  imports Prelude
begin

text \<open>
  The checksums of \<^verbatim>\<open>util/crc32.c\<close>: a CRC by table lookup, one byte at a time, and a word-wise
  exclusive or.  The table routine is compared with the bit-wise shift register of the
  polynomial \<^verbatim>\<open>0x04c11db7\<close>, which is linear and can be run backwards; that gives the
  detection of all error bursts of up to four bytes.
\<close>

section \<open>The routines\<close>

definition crctab :: "u32 list" where
  "crctab =
     [
      0x00000000, 0x04c11db7, 0x09823b6e, 0x0d4326d9, 0x130476dc, 0x17c56b6b, 0x1a864db2, 0x1e475005,
      0x2608edb8, 0x22c9f00f, 0x2f8ad6d6, 0x2b4bcb61, 0x350c9b64, 0x31cd86d3, 0x3c8ea00a, 0x384fbdbd,
      0x4c11db70, 0x48d0c6c7, 0x4593e01e, 0x4152fda9, 0x5f15adac, 0x5bd4b01b, 0x569796c2, 0x52568b75,
      0x6a1936c8, 0x6ed82b7f, 0x639b0da6, 0x675a1011, 0x791d4014, 0x7ddc5da3, 0x709f7b7a, 0x745e66cd,
      0x9823b6e0, 0x9ce2ab57, 0x91a18d8e, 0x95609039, 0x8b27c03c, 0x8fe6dd8b, 0x82a5fb52, 0x8664e6e5,
      0xbe2b5b58, 0xbaea46ef, 0xb7a96036, 0xb3687d81, 0xad2f2d84, 0xa9ee3033, 0xa4ad16ea, 0xa06c0b5d,
      0xd4326d90, 0xd0f37027, 0xddb056fe, 0xd9714b49, 0xc7361b4c, 0xc3f706fb, 0xceb42022, 0xca753d95,
      0xf23a8028, 0xf6fb9d9f, 0xfbb8bb46, 0xff79a6f1, 0xe13ef6f4, 0xe5ffeb43, 0xe8bccd9a, 0xec7dd02d,
      0x34867077, 0x30476dc0, 0x3d044b19, 0x39c556ae, 0x278206ab, 0x23431b1c, 0x2e003dc5, 0x2ac12072,
      0x128e9dcf, 0x164f8078, 0x1b0ca6a1, 0x1fcdbb16, 0x018aeb13, 0x054bf6a4, 0x0808d07d, 0x0cc9cdca,
      0x7897ab07, 0x7c56b6b0, 0x71159069, 0x75d48dde, 0x6b93dddb, 0x6f52c06c, 0x6211e6b5, 0x66d0fb02,
      0x5e9f46bf, 0x5a5e5b08, 0x571d7dd1, 0x53dc6066, 0x4d9b3063, 0x495a2dd4, 0x44190b0d, 0x40d816ba,
      0xaca5c697, 0xa864db20, 0xa527fdf9, 0xa1e6e04e, 0xbfa1b04b, 0xbb60adfc, 0xb6238b25, 0xb2e29692,
      0x8aad2b2f, 0x8e6c3698, 0x832f1041, 0x87ee0df6, 0x99a95df3, 0x9d684044, 0x902b669d, 0x94ea7b2a,
      0xe0b41de7, 0xe4750050, 0xe9362689, 0xedf73b3e, 0xf3b06b3b, 0xf771768c, 0xfa325055, 0xfef34de2,
      0xc6bcf05f, 0xc27dede8, 0xcf3ecb31, 0xcbffd686, 0xd5b88683, 0xd1799b34, 0xdc3abded, 0xd8fba05a,
      0x690ce0ee, 0x6dcdfd59, 0x608edb80, 0x644fc637, 0x7a089632, 0x7ec98b85, 0x738aad5c, 0x774bb0eb,
      0x4f040d56, 0x4bc510e1, 0x46863638, 0x42472b8f, 0x5c007b8a, 0x58c1663d, 0x558240e4, 0x51435d53,
      0x251d3b9e, 0x21dc2629, 0x2c9f00f0, 0x285e1d47, 0x36194d42, 0x32d850f5, 0x3f9b762c, 0x3b5a6b9b,
      0x0315d626, 0x07d4cb91, 0x0a97ed48, 0x0e56f0ff, 0x1011a0fa, 0x14d0bd4d, 0x19939b94, 0x1d528623,
      0xf12f560e, 0xf5ee4bb9, 0xf8ad6d60, 0xfc6c70d7, 0xe22b20d2, 0xe6ea3d65, 0xeba91bbc, 0xef68060b,
      0xd727bbb6, 0xd3e6a601, 0xdea580d8, 0xda649d6f, 0xc423cd6a, 0xc0e2d0dd, 0xcda1f604, 0xc960ebb3,
      0xbd3e8d7e, 0xb9ff90c9, 0xb4bcb610, 0xb07daba7, 0xae3afba2, 0xaafbe615, 0xa7b8c0cc, 0xa379dd7b,
      0x9b3660c6, 0x9ff77d71, 0x92b45ba8, 0x9675461f, 0x8832161a, 0x8cf30bad, 0x81b02d74, 0x857130c3,
      0x5d8a9099, 0x594b8d2e, 0x5408abf7, 0x50c9b640, 0x4e8ee645, 0x4a4ffbf2, 0x470cdd2b, 0x43cdc09c,
      0x7b827d21, 0x7f436096, 0x7200464f, 0x76c15bf8, 0x68860bfd, 0x6c47164a, 0x61043093, 0x65c52d24,
      0x119b4be9, 0x155a565e, 0x18197087, 0x1cd86d30, 0x029f3d35, 0x065e2082, 0x0b1d065b, 0x0fdc1bec,
      0x3793a651, 0x3352bbe6, 0x3e119d3f, 0x3ad08088, 0x2497d08d, 0x2056cd3a, 0x2d15ebe3, 0x29d4f654,
      0xc5a92679, 0xc1683bce, 0xcc2b1d17, 0xc8ea00a0, 0xd6ad50a5, 0xd26c4d12, 0xdf2f6bcb, 0xdbee767c,
      0xe3a1cbc1, 0xe760d676, 0xea23f0af, 0xeee2ed18, 0xf0a5bd1d, 0xf464a0aa, 0xf9278673, 0xfde69bc4,
      0x89b8fd09, 0x8d79e0be, 0x803ac667, 0x84fbdbd0, 0x9abc8bd5, 0x9e7d9662, 0x933eb0bb, 0x97ffad0c,
      0xafb010b1, 0xab710d06, 0xa6322bdf, 0xa2f33668, 0xbcb4666d, 0xb8757bda, 0xb5365d03, 0xb1f740b4
     ]"

definition crc_byte :: "u32 \<Rightarrow> u8 \<Rightarrow> u32" where
  "crc_byte result b = (push_bit 8 result OR ucast b) XOR crctab ! unat (drop_bit 24 result)"

definition crc32_update :: "u8 list \<Rightarrow> u32 \<Rightarrow> u32" where
  "crc32_update data previous = NOT (foldl crc_byte (NOT previous) data)"

definition crc32_initial :: "u8 list \<Rightarrow> u32" where
  "crc32_initial data =
     (if length data < 4 then foldl (\<lambda>result b. push_bit 8 result OR ucast b) 0 data
      else let result = push_bit 24 (ucast (data ! 0)) OR push_bit 16 (ucast (data ! 1)) OR
                        push_bit 8 (ucast (data ! 2)) OR ucast (data ! 3)
           in NOT (foldl crc_byte (NOT result) (drop 4 data)))"

text \<open>
  The second checksum reads its data as words.  \<open>mem\<close> is the memory from \<^verbatim>\<open>data\<close> on, of which
  the first \<open>len\<close> bytes are the data; a read beyond it gives \<open>None\<close>.
\<close>

definition load_word :: "u8 list \<Rightarrow> nat \<Rightarrow> u32 option" where
  "load_word mem i =
     (if 4 * i + 4 \<le> length mem
      then Some (ucast (mem ! (4 * i)) OR push_bit 8 (ucast (mem ! (4 * i + 1))) OR
                 push_bit 16 (ucast (mem ! (4 * i + 2))) OR push_bit 24 (ucast (mem ! (4 * i + 3))))
      else None)"

definition checksum_array :: "u8 list" where "checksum_array = [0xFF, 0xFF, 0xFF, 0, 0, 0, 0]"

fun checksum_loop :: "u8 list \<Rightarrow> nat \<Rightarrow> nat \<Rightarrow> u32 \<Rightarrow> u32 option" where
  "checksum_loop mem i 0 result = Some result"
| "checksum_loop mem i (Suc n) result =
     (case load_word mem i of None \<Rightarrow> None | Some w \<Rightarrow> checksum_loop mem (i + 1) n (result XOR w))"

definition checksum_update :: "u8 list \<Rightarrow> nat \<Rightarrow> u32 \<Rightarrow> u32 option" where
  "checksum_update mem len previous =
     (let n = len div 4
      in case checksum_loop mem 0 n previous of
           None \<Rightarrow> None
         | Some result \<Rightarrow>
             (case load_word mem n of
                None \<Rightarrow> None
              | Some w \<Rightarrow> map_option (\<lambda>mask. result XOR (w AND mask)) (load_word (drop (3 - len mod 4) checksum_array) 0)))"

definition checksum_initial :: "u8 list \<Rightarrow> nat \<Rightarrow> u32 option" where
  "checksum_initial mem len = checksum_update mem len 0"

section \<open>The shift register\<close>

definition crc_poly :: u32 where "crc_poly = 0x04c11db7"

definition shift_in :: "u32 \<Rightarrow> bool \<Rightarrow> u32" where
  "shift_in r b = (push_bit 1 r OR (if b then 1 else 0)) XOR (if bit r 31 then crc_poly else 0)"

definition byte_bits :: "u8 \<Rightarrow> bool list" where
  "byte_bits b = map (bit b) [7, 6, 5, 4, 3, 2, 1, 0]"

definition shift_byte :: "u32 \<Rightarrow> u8 \<Rightarrow> u32" where
  "shift_byte r b = foldl shift_in r (byte_bits b)"

text \<open>The table as the exclusive ors of eight basis elements.\<close>

fun crc_table :: "u32 list \<Rightarrow> u32 list" where
  "crc_table [] = [0]"
| "crc_table (v # vs) = crc_table vs @ map (\<lambda>w. w XOR v) (crc_table vs)"

definition crc_basis :: "u32 list" where
  "crc_basis = [0x690ce0ee, 0x34867077, 0x9823b6e0, 0x4c11db70, 0x2608edb8, 0x130476dc, 0x09823b6e, 0x04c11db7]"

lemma crctab_table: "crctab = crc_table crc_basis"
  by (simp add: crctab_def crc_basis_def)

lemma crc_basis_correct: "crc_basis = map (\<lambda>k. shift_byte (push_bit (24 + k) 1) 0) [7, 6, 5, 4, 3, 2, 1, 0]"
  by (simp add: crc_basis_def shift_byte_def byte_bits_def shift_in_def crc_poly_def)

section \<open>Linearity\<close>

lemma bit_shift_in:
  "bit (shift_in r b) n \<longleftrightarrow> n < 32 \<and> (if n = 0 then b else bit r (n - 1)) \<noteq> (bit r 31 \<and> bit crc_poly n)"
proof (cases "n < 32")
  case True
  then show ?thesis unfolding shift_in_def bit_xor_iff bit_or_iff bit_push_bit_iff by (auto simp: bit_1_iff)
next
  case False
  then show ?thesis using bit_imp_le_length [of "shift_in r b" n] by auto
qed

lemma shift_in_linear: "shift_in (r XOR s) (b \<noteq> c) = shift_in r b XOR shift_in s c"
  by (rule bit_word_eqI) (auto simp: bit_shift_in bit_xor_iff)

lemma byte_bits_xor: "byte_bits (x XOR y) = map2 (\<noteq>) (byte_bits x) (byte_bits y)"
  by (simp add: byte_bits_def bit_xor_iff)

lemma shift_bits_linear:
  "length bs = length cs \<Longrightarrow>
   foldl shift_in (r XOR s) (map2 (\<noteq>) bs cs) = foldl shift_in r bs XOR foldl shift_in s cs"
proof (induction bs cs arbitrary: r s rule: list_induct2)
  case (Cons b bs c cs)
  then show ?case unfolding list.map zip_Cons_Cons prod.case foldl_Cons shift_in_linear by blast
qed simp

lemma shift_byte_linear: "shift_byte (r XOR s) (x XOR y) = shift_byte r x XOR shift_byte s y"
  unfolding shift_byte_def byte_bits_xor by (rule shift_bits_linear) (simp add: byte_bits_def)

lemma shift_byte_zero [simp]: "shift_byte 0 0 = 0"
  by (simp add: shift_byte_def byte_bits_def shift_in_def)

text \<open>As long as nothing leaves the register, bits are only shifted in.\<close>

lemma shift_bits_small:
  "\<forall>n. 32 - length bs \<le> n \<longrightarrow> \<not> bit r n \<Longrightarrow> length bs \<le> 32 \<Longrightarrow>
   bit (foldl shift_in r bs) n \<longleftrightarrow> n < 32 \<and> (if n < length bs then rev bs ! n else bit r (n - length bs))"
proof (induction bs arbitrary: r)
  case Nil
  then show ?case using bit_imp_le_length [of r n] by auto
next
  case (Cons b bs)
  have top: "\<not> bit r 31" using Cons.prems by auto
  have r': "bit (shift_in r b) k \<longleftrightarrow> k < 32 \<and> (if k = 0 then b else bit r (k - 1))" for k
    by (simp add: bit_shift_in top)
  have "\<forall>k. 32 - length bs \<le> k \<longrightarrow> \<not> bit (shift_in r b) k"
  proof (intro allI impI)
    fix k assume "32 - length bs \<le> k"
    moreover have "length bs < 32" using Cons.prems(2) by simp
    ultimately have "k \<noteq> 0" "32 - length (b # bs) \<le> k - 1" by auto
    then show "\<not> bit (shift_in r b) k" using Cons.prems(1) by (simp add: r')
  qed
  from Cons.IH [OF this] Cons.prems(2)
  have "bit (foldl shift_in r (b # bs)) n \<longleftrightarrow> n < 32 \<and> (if n < length bs then rev bs ! n else bit (shift_in r b) (n - length bs))" by simp
  then show ?case by (auto simp: r' nth_append)
qed

lemma shift_byte_small:
  assumes "take_bit 24 r = r"
  shows "shift_byte r x = push_bit 8 r OR ucast x"
proof (rule bit_word_eqI)
  fix n :: nat assume n: "n < LENGTH(32)"
  have len: "length (byte_bits x) = 8" by (simp add: byte_bits_def)
  have "\<not> bit r k" if "24 \<le> k" for k
  proof
    assume "bit r k"
    then have "bit (take_bit 24 r) k" using assms by simp
    then show False using that by (simp add: bit_take_bit_iff)
  qed
  then have small: "\<forall>k. 32 - length (byte_bits x) \<le> k \<longrightarrow> \<not> bit r k" by (simp add: len)
  have nth: "rev (byte_bits x) ! n = bit x n" if "n < 8"
  proof -
    have "rev (byte_bits x) = map (bit x) [0..<8]" by (simp add: byte_bits_def upt_rec eval_nat_numeral)
    then show ?thesis using that by simp
  qed
  have "bit (shift_byte r x) n \<longleftrightarrow> (if n < 8 then rev (byte_bits x) ! n else bit r (n - 8))"
    using shift_bits_small [OF small, of n] n by (simp add: len shift_byte_def)
  moreover have "bit x n \<Longrightarrow> n < 8" using bit_imp_le_length [of x n] by simp
  ultimately show "bit (shift_byte r x) n = bit (push_bit 8 r OR ucast x) n"
    unfolding bit_or_iff bit_push_bit_iff bit_unsigned_iff using n nth by auto
qed

section \<open>The table\<close>

definition top_byte :: "u8 \<Rightarrow> u32" where
  "top_byte x = shift_byte (push_bit 24 (ucast x)) 0"

lemma top_byte_linear: "top_byte (x XOR y) = top_byte x XOR top_byte y"
proof -
  have "push_bit 24 (ucast (x XOR y) :: u32) = push_bit 24 (ucast x) XOR push_bit 24 (ucast y)"
    by (rule bit_word_eqI) (auto simp: bit_simps)
  then show ?thesis unfolding top_byte_def using shift_byte_linear [of "push_bit 24 (ucast x)" "push_bit 24 (ucast y)" 0 0] by simp
qed

lemma length_crc_table [simp]: "length (crc_table vs) = 2 ^ length vs"
  by (induction vs) auto

lemma add_power_xor:
  assumes "i < 2 ^ k"
  shows "2 ^ k + i = (2 ^ k XOR i :: nat)"
proof -
  have "2 ^ k AND i = (0::nat)"
  proof (rule bit_eqI)
    fix n
    have "\<not> bit i k" using assms by (metis bit_take_bit_iff less_irrefl take_bit_nat_eq_self)
    then show "bit (2 ^ k AND i) n = bit (0::nat) n" by (auto simp: bit_and_iff bit_exp_iff)
  qed
  then show ?thesis by (rule disjunctive_add_eq_xor)
qed

lemma crc_table_nth:
  "i < 2 ^ k \<Longrightarrow> crc_table (map (\<lambda>j. top_byte (2 ^ j)) (rev [0..<k])) ! i = top_byte (of_nat i)"
proof (induction k arbitrary: i)
  case 0
  then show ?case by (simp add: top_byte_def)
next
  case (Suc k)
  show ?case
  proof (cases "i < 2 ^ k")
    case True
    then show ?thesis using Suc.IH [OF True] by (simp add: nth_append)
  next
    case False
    define i' where "i' = i - 2 ^ k"
    have i': "i' < 2 ^ k" "i = 2 ^ k + i'" using False Suc.prems by (auto simp: i'_def)
    have "(of_nat i :: u8) = 2 ^ k XOR of_nat i'"
      unfolding i'(2) add_power_xor [OF i'(1)] by (simp add: of_nat_xor_eq)
    then show ?thesis using i' Suc.IH [OF i'(1)]
      by (simp add: nth_append top_byte_linear xor.commute)
  qed
qed

lemma crctab_nth: "crctab ! unat x = top_byte x" for x :: u8
proof -
  have "crc_basis = map (\<lambda>j. top_byte (2 ^ j)) (rev [0..<8])"
    by (simp add: crc_basis_def top_byte_def upt_rec shift_byte_def byte_bits_def shift_in_def crc_poly_def)
  moreover have "unat x < 2 ^ 8" using unsigned_less [of x] by simp
  ultimately show ?thesis using crc_table_nth [of "unat x" 8] by (simp add: crctab_table)
qed

lemma crc_byte_shift: "crc_byte = shift_byte"
proof (intro ext)
  fix r :: u32 and x :: u8
  define h where "h = (ucast (drop_bit 24 r) :: u8)"
  have up: "ucast h = drop_bit 24 r"
  proof (rule bit_word_eqI)
    fix n assume "n < LENGTH(32)"
    show "bit (ucast h :: u32) n = bit (drop_bit 24 r) n"
      using bit_imp_le_length [of r "24 + n"] by (auto simp: h_def bit_simps)
  qed
  have h: "unat (drop_bit 24 r) = unat h"
    unfolding up [symmetric] using unsigned_less [of h, where 'a = nat]
    by (simp add: unsigned_ucast_eq take_bit_nat_eq_self)
  have "r = take_bit 24 r XOR push_bit 24 (ucast h)"
    unfolding up by (rule bit_word_eqI) (auto simp: bit_simps)
  then have "shift_byte r x = shift_byte (take_bit 24 r) x XOR top_byte h"
    using shift_byte_linear [of "take_bit 24 r" "push_bit 24 (ucast h)" x 0] by (simp add: top_byte_def)
  moreover have "shift_byte (take_bit 24 r) x = push_bit 8 (take_bit 24 r) OR ucast x"
    by (rule shift_byte_small) simp
  moreover have "push_bit 8 (take_bit 24 r) = push_bit 8 r"
    by (rule bit_word_eqI) (auto simp: bit_simps)
  ultimately show "crc_byte r x = shift_byte r x" by (simp add: crc_byte_def h crctab_nth)
qed

section \<open>Messages as bit strings\<close>

definition message_bits :: "u8 list \<Rightarrow> bool list" where
  "message_bits data = concat (map byte_bits data)"

lemma length_byte_bits [simp]: "length (byte_bits x) = 8"
  by (simp add: byte_bits_def)

lemma length_message_bits [simp]: "length (message_bits data) = 8 * length data"
  by (induction data) (auto simp: message_bits_def)

lemma byte_bits_inject: "byte_bits x = byte_bits y \<longleftrightarrow> x = y"
proof
  assume eq: "byte_bits x = byte_bits y"
  show "x = y"
  proof (rule bit_word_eqI)
    fix n assume "n < LENGTH(8)"
    then have "n \<in> {0,1,2,3,4,5,6,7}" by auto
    then show "bit x n = bit y n" using eq by (auto simp: byte_bits_def)
  qed
qed simp

lemma message_bits_inject:
  "length d = length d' \<Longrightarrow> message_bits d = message_bits d' \<longleftrightarrow> d = d'"
  by (induction d d' rule: list_induct2) (auto simp: message_bits_def byte_bits_inject)

lemma shift_message: "foldl shift_byte r data = foldl shift_in r (message_bits data)"
  by (induction data arbitrary: r) (auto simp: message_bits_def shift_byte_def)

lemma crc32_initial_shift:
  "crc32_initial data =
     (if length data < 4 then foldl shift_byte 0 data
      else NOT (foldl shift_byte (NOT (foldl shift_byte 0 (take 4 data))) (drop 4 data)))"
proof (cases "length data < 4")
  case True
  have "foldl (\<lambda>result b. push_bit 8 result OR ucast b) r data = foldl shift_byte r data"
    if "\<forall>n. 32 - 8 * length data \<le> n \<longrightarrow> \<not> bit r n" "length data < 4" for r :: u32
    using that
  proof (induction data arbitrary: r)
    case (Cons x data)
    have "\<not> bit r n" if "24 \<le> n" for n using Cons.prems that by auto
    then have "take_bit 24 r = r" by (intro bit_word_eqI) (auto simp: bit_take_bit_iff not_le intro: ccontr)
    then have step: "shift_byte r x = push_bit 8 r OR ucast x" by (rule shift_byte_small)
    have "\<forall>n. 32 - 8 * length data \<le> n \<longrightarrow> \<not> bit (push_bit 8 r OR ucast x) n"
    proof (intro allI impI)
      fix n assume n: "32 - 8 * length data \<le> n"
      then have "8 \<le> n" "32 - 8 * length (x # data) \<le> n - 8" using Cons.prems(2) by auto
      then show "\<not> bit (push_bit 8 r OR ucast x) n"
        using Cons.prems(1) bit_imp_le_length [of x n] by (auto simp: bit_simps)
    qed
    from Cons.IH [OF this] Cons.prems(2) step show ?case by simp
  qed simp
  from this [of 0] True show ?thesis by (simp add: crc32_initial_def)
next
  case False
  then obtain a b c d rest where data: "data = a # b # c # d # rest"
    by (auto simp: not_less eval_nat_numeral Suc_le_length_iff)
  have "push_bit 24 (ucast a) OR push_bit 16 (ucast b) OR push_bit 8 (ucast c) OR ucast d = (foldl shift_byte 0 [a, b, c, d] :: u32)"
  proof -
    have s: "shift_byte r x = push_bit 8 r OR ucast x" if "\<And>n. 24 \<le> n \<Longrightarrow> \<not> bit r n" for r x
      using that by (intro shift_byte_small bit_word_eqI) (auto simp: bit_take_bit_iff not_le intro: ccontr)
    have lt: "bit x n \<Longrightarrow> n < 8" for x :: u8 and n using bit_imp_le_length [of x n] by simp
    have 1: "shift_byte 0 a = ucast a" by (simp add: s)
    have 2: "shift_byte (ucast a) b = push_bit 8 (ucast a) OR ucast b"
      by (rule s) (auto simp: bit_simps dest: lt)
    have 3: "shift_byte (push_bit 8 (ucast a) OR ucast b) c = push_bit 8 (push_bit 8 (ucast a) OR ucast b) OR ucast c"
      by (rule s) (auto simp: bit_simps dest: lt)
    have 4: "shift_byte (push_bit 8 (push_bit 8 (ucast a) OR ucast b) OR ucast c) d =
             push_bit 8 (push_bit 8 (push_bit 8 (ucast a) OR ucast b) OR ucast c) OR ucast d"
      by (rule s) (auto simp: bit_simps dest: lt)
    show ?thesis unfolding foldl_Cons foldl_Nil 1 2 3 4
      by (simp only: push_bit_or push_bit_push_bit or.assoc) simp
  qed
  then show ?thesis by (simp add: crc32_initial_def crc_byte_shift data)
qed

section \<open>The checksum of two messages of the same length\<close>

lemma xor_not_not: "NOT a XOR NOT b = a XOR b" for a b :: u32
  by (rule bit_word_eqI) (auto simp: bit_simps)

lemma shift_bytes_linear:
  "length d = length d' \<Longrightarrow>
   foldl shift_byte r d XOR foldl shift_byte s d' = foldl shift_byte (r XOR s) (map2 (XOR) d d')"
  by (induction d d' arbitrary: r s rule: list_induct2) (auto simp: shift_byte_linear)

lemma crc32_update_shift: "crc32_update data previous = NOT (foldl shift_byte (NOT previous) data)"
  by (simp add: crc32_update_def crc_byte_shift)

lemma update_difference:
  "length d = length d' \<Longrightarrow>
   crc32_update d previous XOR crc32_update d' previous = foldl shift_byte 0 (map2 (XOR) d d')"
  by (simp add: crc32_update_shift xor_not_not shift_bytes_linear)

lemma initial_difference:
  assumes len: "length d = length d'"
  shows "crc32_initial d XOR crc32_initial d' = foldl shift_byte 0 (map2 (XOR) d d')"
proof (cases "length d < 4")
  case True
  then show ?thesis using len by (simp add: crc32_initial_shift shift_bytes_linear)
next
  case False
  have "crc32_initial d XOR crc32_initial d' =
        foldl shift_byte (foldl shift_byte 0 (map2 (XOR) (take 4 d) (take 4 d'))) (map2 (XOR) (drop 4 d) (drop 4 d'))"
    using False len by (simp add: crc32_initial_shift xor_not_not shift_bytes_linear)
  also have "\<dots> = foldl shift_byte 0 (map2 (XOR) (take 4 d) (take 4 d') @ map2 (XOR) (drop 4 d) (drop 4 d'))" by simp
  also have "map2 (XOR) (take 4 d) (take 4 d') @ map2 (XOR) (drop 4 d) (drop 4 d') = map2 (XOR) d d'"
    by (simp add: take_zip [symmetric] drop_zip [symmetric] map_append [symmetric] del: map_append)
  finally show ?thesis .
qed

lemma message_bits_xor:
  "length d = length d' \<Longrightarrow> message_bits (map2 (XOR) d d') = map2 (\<noteq>) (message_bits d) (message_bits d')"
  by (induction d d' rule: list_induct2) (auto simp: message_bits_def byte_bits_xor)

text \<open>The register can be run backwards: no error dies out.\<close>

lemma shift_in_nonzero:
  assumes "r \<noteq> 0"
  shows "shift_in r False \<noteq> 0"
proof
  assume zero: "shift_in r False = 0"
  have "bit crc_poly 0" by (simp add: crc_poly_def)
  then have top: "\<not> bit r 31" using bit_shift_in [of r False 0] zero by simp
  have "\<not> bit r n" for n
  proof (cases "n < 31")
    case True
    then show ?thesis using bit_shift_in [of r False "Suc n"] zero top by simp
  next
    case False
    then show ?thesis using top bit_imp_le_length [of r n] by (cases "n = 31") auto
  qed
  then show False using assms by (auto intro: bit_word_eqI)
qed

lemma shift_zeros_nonzero: "r \<noteq> 0 \<Longrightarrow> foldl shift_in r (replicate n False) \<noteq> 0"
  by (induction n arbitrary: r) (auto simp: shift_in_nonzero)

lemma shift_zeros: "foldl shift_in 0 (replicate n False) = 0"
  by (induction n) (auto simp: shift_in_def)

lemma shift_burst_nonzero:
  assumes "length bs \<le> 32" "True \<in> set bs"
  shows "foldl shift_in 0 (replicate m False @ bs @ replicate n False) \<noteq> 0"
proof -
  from assms(2) obtain i where i: "i < length (rev bs)" "rev bs ! i" by (metis in_set_conv_nth set_rev)
  then have "bit (foldl shift_in 0 bs) i" using shift_bits_small [of bs 0 i] assms(1) by simp
  then have "foldl shift_in 0 bs \<noteq> 0" by auto
  then show ?thesis by (simp add: shift_zeros shift_zeros_nonzero)
qed

text \<open>A bit string that is False outside a window of 32 places.\<close>

lemma burst_split:
  assumes "\<forall>i < length bs. i < k \<or> k + 32 \<le> i \<longrightarrow> \<not> bs ! i"
  shows "bs = replicate (min k (length bs)) False @ take 32 (drop k bs) @ replicate (length bs - (k + 32)) False"
proof -
  have "take k bs = replicate (min k (length bs)) False"
    using assms by (intro nth_equalityI) auto
  moreover have "drop (k + 32) bs = replicate (length bs - (k + 32)) False"
    using assms by (intro nth_equalityI) auto
  moreover have "bs = take k bs @ take 32 (drop k bs) @ drop (k + 32) bs"
    by (metis append_take_drop_id drop_drop add.commute)
  ultimately show ?thesis by metis
qed

lemma burst_difference_nonzero:
  assumes len: "length d = length d'" and neq: "d \<noteq> d'"
    and burst: "\<forall>i < 8 * length d. i < k \<or> k + 32 \<le> i \<longrightarrow> message_bits d ! i = message_bits d' ! i"
  shows "foldl shift_byte 0 (map2 (XOR) d d') \<noteq> 0"
proof -
  define bs where "bs = map2 (\<noteq>) (message_bits d) (message_bits d')"
  have "\<forall>i < length bs. i < k \<or> k + 32 \<le> i \<longrightarrow> \<not> bs ! i" using burst len by (simp add: bs_def)
  from burst_split [OF this] obtain m n where
    bs: "bs = replicate m False @ take 32 (drop k bs) @ replicate n False" by blast
  have "True \<in> set bs"
  proof (rule ccontr)
    assume "True \<notin> set bs"
    then have "\<forall>i < length bs. \<not> bs ! i" by (metis nth_mem)
    then have "message_bits d = message_bits d'" using len by (intro nth_equalityI) (auto simp: bs_def)
    then show False using neq message_bits_inject [OF len] by simp
  qed
  then have "True \<in> set (take 32 (drop k bs))" by (subst (asm) bs) auto
  then have "foldl shift_in 0 bs \<noteq> 0" by (subst bs) (rule shift_burst_nonzero, auto)
  then show ?thesis by (simp add: shift_message message_bits_xor [OF len] bs_def)
qed

section \<open>The word-wise checksum\<close>

definition word_of :: "u8 \<Rightarrow> u8 \<Rightarrow> u8 \<Rightarrow> u8 \<Rightarrow> u32" where
  "word_of a b c d = ucast a OR push_bit 8 (ucast b) OR push_bit 16 (ucast c) OR push_bit 24 (ucast d)"

text \<open>The data as little-endian words, the last one filled up with zeros.\<close>

fun padded_words :: "u8 list \<Rightarrow> u32 list" where
  "padded_words [] = []"
| "padded_words [a] = [word_of a 0 0 0]"
| "padded_words [a, b] = [word_of a b 0 0]"
| "padded_words [a, b, c] = [word_of a b c 0]"
| "padded_words (a # b # c # d # rest) = word_of a b c d # padded_words rest"

lemma load_word_first: "load_word (a # b # c # d # mem) 0 = Some (word_of a b c d)"
  by (simp add: load_word_def word_of_def numeral_3_eq_3 numeral_2_eq_2)

lemma load_word_later: "load_word (a # b # c # d # mem) (Suc i) = load_word mem i"
  by (simp add: load_word_def nth_Cons' add.commute)

lemma checksum_loop_later:
  "checksum_loop (a # b # c # d # mem) (Suc i) n result = checksum_loop mem i n result"
  by (induction n arbitrary: i result) (auto simp: load_word_later split: option.splits)

lemma checksum_step:
  "checksum_update (a # b # c # d # mem) (4 + len) previous = checksum_update mem len (previous XOR word_of a b c d)"
proof -
  have "(4 + len) div 4 = Suc (len div 4)" "(4 + len) mod 4 = len mod 4" by simp_all
  note dm = this
  show ?thesis
    unfolding checksum_update_def Let_def dm checksum_loop.simps load_word_first option.case add_0 One_nat_def
      checksum_loop_later load_word_later ..
qed

lemma bit_word_of:
  "bit (word_of a b c d) n =
     (if n < 8 then bit a n else if n < 16 then bit b (n - 8) else if n < 24 then bit c (n - 16) else bit d (n - 24))"
proof -
  have lt: "8 \<le> k \<Longrightarrow> \<not> bit x k" for x :: u8 and k using bit_imp_le_length [of x k] by auto
  show ?thesis
    unfolding word_of_def bit_or_iff bit_push_bit_iff bit_unsigned_iff using lt [of "n - 24" d]
    by (cases "n < 32") (auto simp: lt)
qed

lemma word_of_mask: "word_of a b c d AND word_of a' b' c' d' = word_of (a AND a') (b AND b') (c AND c') (d AND d')"
  by (rule bit_word_eqI) (simp add: bit_and_iff bit_word_of)

lemma byte_mask: "x AND 0xFF = x" for x :: u8
proof (rule bit_word_eqI)
  fix n assume "n < LENGTH(8)"
  then have "n \<in> {0,1,2,3,4,5,6,7}" by auto
  then show "bit (x AND 0xFF) n = bit x n" by (auto simp: bit_and_iff)
qed

text \<open>The mask read from \<^verbatim>\<open>checksum_array\<close> keeps the \<open>len mod 4\<close> bytes left over.\<close>

lemma checksum_mask:
  assumes "r < 4"
  shows "load_word (drop (3 - r) checksum_array) 0 =
    Some (word_of (if 0 < r then 0xFF else 0) (if 1 < r then 0xFF else 0) (if 2 < r then 0xFF else 0) 0)"
proof -
  from assms consider "r = 0" | "r = 1" | "r = 2" | "r = 3" by linarith
  then show ?thesis by cases (simp_all add: checksum_array_def load_word_first)
qed

lemma padded_words_short:
  assumes "r < 4"
  shows "foldl (XOR) previous (padded_words (take r (a # b # c # d # rest))) =
         previous XOR word_of (if 0 < r then a else 0) (if 1 < r then b else 0) (if 2 < r then c else 0) 0"
proof -
  from assms consider "r = 0" | "r = 1" | "r = Suc 1" | "r = Suc (Suc 1)" by linarith
  then show ?thesis by cases (simp_all add: word_of_def)
qed

lemma checksum_last:
  assumes "len < 4" "4 \<le> length mem"
  shows "checksum_update mem len previous = Some (foldl (XOR) previous (padded_words (take len mem)))"
proof -
  from assms(2) obtain a b c d rest where mem: "mem = a # b # c # d # rest"
    by (auto simp: eval_nat_numeral Suc_le_length_iff)
  have len: "len div 4 = 0" "len mod 4 = len" using assms(1) by simp_all
  have "(x AND (if p then 0xFF else 0)) = (if p then x else 0)" for x :: u8 and p by (simp add: byte_mask)
  note mask = this
  show ?thesis
    unfolding mem checksum_update_def Let_def len checksum_loop.simps option.case load_word_first
      checksum_mask [OF assms(1)] option.map word_of_mask mask padded_words_short [OF assms(1)]
    by simp
qed

lemma checksum_short:
  "len < 4 \<Longrightarrow> length mem < 4 \<Longrightarrow> checksum_update mem len previous = None"
  by (simp add: checksum_update_def load_word_def)

lemma checksum_none:
  assumes "4 \<le> len" "length mem < 4"
  shows "checksum_update mem len previous = None"
proof -
  have "load_word mem 0 = None" using assms(2) by (simp add: load_word_def)
  moreover obtain n where "len div 4 = Suc n" using assms(1) by (metis Suc_pred div_greater_zero_iff zero_less_numeral)
  ultimately show ?thesis by (simp add: checksum_update_def)
qed

section \<open>Properties\<close>

text \<open>
  C24.  The table-driven CRC is the division by the polynomial done one bit at a time: updating
  a checksum shifts the bits of the data, most significant first, through the complemented
  register.  Checksums can be computed in pieces: an update with two consecutive blocks is the
  update with the second after the update with the first, and a checksum started on at least
  four bytes and updated with the rest is the checksum of the whole.
\<close>

theorem crc32_is_division:
  "crc32_update data previous = NOT (foldl shift_in (NOT previous) (message_bits data)) \<and>
   crc32_update (a @ b) previous = crc32_update b (crc32_update a previous) \<and>
   (4 \<le> length a \<longrightarrow> crc32_initial (a @ b) = crc32_update b (crc32_initial a))"
proof (intro conjI impI)
  show "crc32_update data previous = NOT (foldl shift_in (NOT previous) (message_bits data))"
    by (simp add: crc32_update_shift shift_message)
  show "crc32_update (a @ b) previous = crc32_update b (crc32_update a previous)"
    by (simp add: crc32_update_shift)
  show "crc32_initial (a @ b) = crc32_update b (crc32_initial a)" if "4 \<le> length a"
    using that by (simp add: crc32_update_shift crc32_initial_shift)
qed

theorem crc32_is_division_witness:
  "crc32_initial ([1, 2, 3, 4] @ [5]) = crc32_update [5] (crc32_initial [1, 2, 3, 4])"
  using crc32_is_division [of "[]" 0 "[1, 2, 3, 4]" "[5]"] by simp

text \<open>
  C25.  Two different messages of the same length that agree outside a window of 32 consecutive
  bits have different checksums, whether the checksum is computed from the start or continued:
  the CRC detects every error burst of up to 32 bits.
\<close>

theorem crc32_detects_bursts:
  assumes "length d = length d'" "d \<noteq> d'"
    and "\<forall>i < 8 * length d. i < k \<or> k + 32 \<le> i \<longrightarrow> message_bits d ! i = message_bits d' ! i"
  shows "crc32_update d previous \<noteq> crc32_update d' previous \<and> crc32_initial d \<noteq> crc32_initial d'"
proof -
  note nz = burst_difference_nonzero [OF assms]
  show ?thesis using update_difference [OF assms(1), of previous] initial_difference [OF assms(1)] nz
    by auto
qed

theorem crc32_detects_bursts_witness:
  "crc32_update [7, 255] 0 \<noteq> crc32_update [9, 1] 0 \<and> crc32_initial [7, 255] \<noteq> crc32_initial [9, 1]"
  using crc32_detects_bursts [of "[7, 255]" "[9, 1]" 0 0] by simp

text \<open>
  C26.  The word-wise checksum is the exclusive or of the little-endian words of the data, the
  last one filled up with zeros - if the memory extends past the last whole word of the data by
  four bytes.  Otherwise, and so for every block whose length is a multiple of four and which ends
  where its memory ends, the routine reads outside of the block.
\<close>

theorem checksum_update_reads:
  "checksum_update mem len previous =
     (if 4 * (len div 4) + 4 \<le> length mem then Some (foldl (XOR) previous (padded_words (take len mem))) else None)"
proof (induction len arbitrary: mem previous rule: less_induct)
  case (less len)
  show ?case
  proof (cases "len < 4")
    case True
    then have "len div 4 = 0" by simp
    then show ?thesis using True checksum_last [of len mem] checksum_short [of len mem] by auto
  next
    case False
    then obtain l where len: "len = 4 + l" by (metis le_Suc_ex not_less)
    show ?thesis
    proof (cases "length mem < 4")
      case True
      then show ?thesis using False checksum_none [of len mem] by auto
    next
      case long: False
      then obtain a b c d rest where mem: "mem = a # b # c # d # rest"
        by (auto simp: not_less eval_nat_numeral Suc_le_length_iff)
      have "l < len" by (simp add: len)
      moreover have "(4 + l) div 4 = Suc (l div 4)" by simp
      moreover have "take (4 + l) mem = a # b # c # d # take l rest" by (simp add: mem eval_nat_numeral)
      ultimately show ?thesis using less.IH [of l rest] checksum_step [of a b c d rest l]
        by (simp add: len mem)
    qed
  qed
qed

end
