(* ===== verification/Cmipool.thy ===== *)
theory Cmipool
  imports Prelude
begin

text \<open>
  The pooling allocator of \<^verbatim>\<open>conv-core/cmipool.c\<close>: free lists of blocks whose sizes are
  powers of two.  The eight bytes before a block, its header, hold the next block of the free list
  while the block is free and the number of its bin while it is in use.

  The system allocator is a parameter: \<open>malloc live n\<close> is the address it returns for a request of
  \<open>n\<close> bytes when the blocks \<open>live\<close> are allocated, 0 if it has no memory.  A block is known by the
  address \<open>p\<close> behind its header, as in the code.  The parameter \<open>stats\<close> is \<^verbatim>\<open>CMK_WITH_STATS\<close>.
  An operation is \<open>None\<close> when it does not return or indexes the bins out of range.
\<close>

section \<open>The allocator\<close>

record cmipool =
  initialized :: bool
  bins :: "ptr list"
  binLengths :: "int list"
  maxBin :: int
  numKallocs :: nat
  numMallocs :: nat
  numOallocs :: nat
  numFrees :: nat
  numOFrees :: nat
  header :: "ptr \<Rightarrow> nat"
  live :: "ptr \<rightharpoonup> nat"

definition CMI_POOL_HEADER_SIZE :: nat where "CMI_POOL_HEADER_SIZE = 8"

definition CmiPoolAllocInit :: "nat \<Rightarrow> cmipool \<Rightarrow> cmipool" where
  "CmiPoolAllocInit numBins st =
     (if initialized st then st
      else st\<lparr>initialized := True, bins := replicate numBins NULL, binLengths := replicate numBins 0,
              maxBin := int numBins - 1, numKallocs := 0, numMallocs := 0, numFrees := 0, numOFrees := 0\<rparr>)"

text \<open>The loop that finds the bin works on a signed integer.\<close>

partial_function (option) find_bin :: "u32 \<Rightarrow> nat \<Rightarrow> nat option" where
  "find_bin n bin = (if n \<noteq> 0 then find_bin (signed_drop_bit 1 n) (bin + 1) else Some bin)"

definition bin_bytes :: "nat \<Rightarrow> nat" where
  "bin_bytes bin = unat (scast (push_bit bin 1 :: u32) :: u64)"

definition pool_take :: "bool \<Rightarrow> nat \<Rightarrow> cmipool \<Rightarrow> ptr \<times> cmipool" where
  "pool_take stats bin st =
     (let p = bins st ! bin
      in if stats
         then let len = binLengths st ! bin - 1
              in (p, st\<lparr>numKallocs := numKallocs st + 1, binLengths := (binLengths st)[bin := len],
                        bins := (bins st)[bin := (if len \<noteq> 0 then header st p else NULL)]\<rparr>)
         else (p, st\<lparr>bins := (bins st)[bin := header st p]\<rparr>))"

definition system_block :: "((ptr \<rightharpoonup> nat) \<Rightarrow> nat \<Rightarrow> ptr) \<Rightarrow> nat \<Rightarrow> cmipool \<Rightarrow> ptr \<times> cmipool" where
  "system_block malloc n st =
     (let h = malloc (live st) n
      in (h + CMI_POOL_HEADER_SIZE, if h = NULL then st else st\<lparr>live := (live st)(h \<mapsto> n)\<rparr>))"

definition CmiPoolAlloc ::
  "bool \<Rightarrow> ((ptr \<rightharpoonup> nat) \<Rightarrow> nat \<Rightarrow> ptr) \<Rightarrow> u32 \<Rightarrow> cmipool \<Rightarrow> (ptr \<times> cmipool) result option" where
  "CmiPoolAlloc stats malloc numBytes st =
     (let n = numBytes + of_nat CMI_POOL_HEADER_SIZE
      in case find_bin n 0 of
           None \<Rightarrow> None
         | Some bin \<Rightarrow>
             (if int bin < maxBin st \<and> bin = 0 then Some (Inl (AssertFailed ''bin>0''))
              else let (p, st', bin') =
                     (if int bin < maxBin st
                      then if bins st ! bin \<noteq> NULL
                           then let (p, st') = pool_take stats bin st in (p, st', bin)
                           else let (p, st') = system_block malloc (bin_bytes bin)
                                                 (if stats then st\<lparr>numMallocs := numMallocs st + 1\<rparr> else st)
                                in (p, st', bin)
                      else let (p, st') = system_block malloc (unat n)
                                            (if stats then st\<lparr>numOallocs := numOallocs st + 1\<rparr> else st)
                           in (p, st', 0))
                   in Some (if p - CMI_POOL_HEADER_SIZE = NULL then Inl (AssertFailed ''header !=NULL'')
                            else Inr (p, st'\<lparr>header := (header st')(p := bin')\<rparr>))))"

definition CmiPoolFree :: "bool \<Rightarrow> ptr \<Rightarrow> cmipool \<Rightarrow> cmipool result option" where
  "CmiPoolFree stats p st =
     (let bin = sint (of_nat (header st p) :: u32)
      in if bin = 0
         then Some (Inr ((if stats then st\<lparr>numOFrees := numOFrees st + 1\<rparr> else st)
                           \<lparr>live := (live st)(p - CMI_POOL_HEADER_SIZE := None)\<rparr>))
         else if bin < maxBin st
         then if bin < 0 then None
              else let b = nat bin;
                       st1 = st\<lparr>header := (header st)(p := bins st ! b), bins := (bins st)[b := p]\<rparr>
                   in Some (Inr (if stats
                                 then st1\<lparr>numFrees := numFrees st + 1,
                                          binLengths := (binLengths st)[b := binLengths st ! b + 1]\<rparr>
                                 else st1))
         else Some (Inl (Abort ''CmiPoolFree: Invalid Bin'')))"

text \<open>The bins that \<^verbatim>\<open>CmiPoolAllocStats\<close> prints, with their lengths.\<close>

definition CmiPoolAllocStats :: "cmipool \<Rightarrow> (nat \<times> int) list" where
  "CmiPoolAllocStats st =
     map (\<lambda>i. (i, binLengths st ! i)) (filter (\<lambda>i. binLengths st ! i \<noteq> 0) [0..<nat (maxBin st + 1)])"

section \<open>The search for the bin\<close>

lemma find_bin_zero [simp]: "find_bin 0 b = Some b"
  by (subst find_bin.simps) simp

lemma find_bin_step: "n \<noteq> 0 \<Longrightarrow> find_bin n b = find_bin (signed_drop_bit 1 n) (b + 1)"
  by (subst find_bin.simps) simp

lemma signed_drop_bit_nonneg:
  fixes n :: u32
  assumes "\<not> n <s 0"
  shows "signed_drop_bit 1 n = drop_bit 1 n"
proof (rule bit_word_eqI)
  fix k assume "k < LENGTH(32)"
  have "\<not> bit n 31" using assms bit_last_iff [of n] by (simp add: word_sless_alt)
  then show "bit (signed_drop_bit 1 n) k = bit (drop_bit 1 n) k"
    using bit_imp_le_length [of n "k + 1"] by (cases "k = 31") (auto simp: bit_simps)
qed

lemma find_bin_finds:
  assumes "unat n < 2 ^ 31"
  shows "\<exists>bin. find_bin n b = Some (b + bin) \<and> unat n < 2 ^ bin \<and> (0 < bin \<longrightarrow> 2 ^ (bin - 1) \<le> unat n)"
  using assms
proof (induction "unat n" arbitrary: n b rule: less_induct)
  case less
  show ?case
  proof (cases "n = 0")
    case True
    then show ?thesis by (intro exI [of _ 0]) simp
  next
    case False
    have half: "unat (drop_bit 1 n) = unat n div 2" by (simp add: drop_bit_eq_div unat_div)
    have "0 < unat n" using False by (simp add: unat_gt_0)
    then have "unat (drop_bit 1 n) < unat n" "unat (drop_bit 1 n) < 2 ^ 31" using half less.prems by auto
    from less.hyps [OF this, of "b + 1"] obtain bin where
      bin: "find_bin (drop_bit 1 n) (b + 1) = Some (b + 1 + bin)" "unat n div 2 < 2 ^ bin"
      "0 < bin \<longrightarrow> 2 ^ (bin - 1) \<le> unat n div 2" unfolding half by blast
    have "\<not> bit (unat n) 31" using less.prems by (simp add: bit_iff_odd)
    then have "\<not> n <s 0" using bit_last_iff [of n] by (simp add: word_sless_alt bit_unsigned_iff)
    then have "find_bin n b = Some (b + Suc bin)"
      using bin(1) find_bin_step [OF False, of b] signed_drop_bit_nonneg [of n] by simp
    moreover have "unat n < 2 ^ Suc bin" using bin(2) by simp
    moreover have "2 ^ bin \<le> unat n"
    proof (cases bin)
      case (Suc k)
      then show ?thesis using bin(3) by simp
    qed (use \<open>0 < unat n\<close> in simp)
    ultimately show ?thesis by (intro exI [of _ "Suc bin"]) simp
  qed
qed

text \<open>On a negative number the arithmetic shift never reaches zero.\<close>

lemma signed_drop_bit_negative:
  fixes n :: u32
  assumes "n <s 0"
  shows "signed_drop_bit 1 n <s 0"
proof -
  have "bit n 31" using assms bit_last_iff [of n] by (simp add: word_sless_alt)
  then have "bit (signed_drop_bit 1 n) 31" by (simp add: bit_signed_drop_bit_iff)
  then show ?thesis using bit_last_iff [of "signed_drop_bit 1 n"] by (simp add: word_sless_alt)
qed

lemma find_bin_diverges: "n <s 0 \<Longrightarrow> find_bin n b = None"
proof -
  have "find_bin n b = Some r \<Longrightarrow> \<not> n <s 0" for n b r
  proof (erule find_bin.raw_induct [rotated])
    fix f :: "u32 \<Rightarrow> nat \<Rightarrow> nat option" and n b r
    assume IH: "\<And>n b r. f n b = Some r \<Longrightarrow> \<not> n <s 0"
      and eq: "(if n \<noteq> 0 then f (signed_drop_bit 1 n) (b + 1) else Some b) = Some r"
    show "\<not> n <s 0"
    proof (cases "n = 0")
      case False
      then have "\<not> signed_drop_bit 1 n <s 0" using eq IH [of "signed_drop_bit 1 n"] by auto
      then show ?thesis using signed_drop_bit_negative by blast
    qed (simp add: word_sless_alt)
  qed
  then show "n <s 0 \<Longrightarrow> find_bin n b = None" by (cases "find_bin n b") auto
qed

lemma bin_bytes_power:
  assumes "bin < 31"
  shows "bin_bytes bin = 2 ^ bin"
proof -
  have "(scast (push_bit bin 1 :: u32) :: u64) = push_bit bin 1"
  proof (rule bit_word_eqI)
    fix n
    show "bit (scast (push_bit bin 1 :: u32) :: u64) n = bit (push_bit bin 1 :: u64) n" if "n < LENGTH(64)"
      using assms that unfolding bit_signed_iff bit_push_bit_iff by (auto simp: bit_1_iff min_def)
  qed
  moreover have "unat (push_bit bin 1 :: u64) = 2 ^ bin"
  proof -
    have "(2::nat) ^ bin < 2 ^ 64" using assms by (intro power_strict_increasing) auto
    then have "unat (of_nat (2 ^ bin) :: u64) = 2 ^ bin" by (simp only: unsigned_of_nat) (use assms in \<open>simp add: take_bit_nat_eq_self\<close>)
    then show ?thesis by (simp add: push_bit_eq_mult)
  qed
  ultimately show ?thesis by (simp only: bin_bytes_def)
qed

section \<open>The invariant\<close>

text \<open>
  \<open>used\<close> holds the blocks the application has, with the sizes it asked for.  The free list of a
  bin runs through the headers of its blocks; the blocks of a bin have the size of the bin.
\<close>

fun chain :: "(ptr \<Rightarrow> nat) \<Rightarrow> ptr \<Rightarrow> ptr list \<Rightarrow> bool" where
  "chain f p [] \<longleftrightarrow> p = NULL"
| "chain f p (x # xs) \<longleftrightarrow> p = x \<and> x \<noteq> NULL \<and> chain f (f x) xs"

definition free_list :: "bool \<Rightarrow> (ptr \<rightharpoonup> u32) \<Rightarrow> cmipool \<Rightarrow> nat \<Rightarrow> ptr list \<Rightarrow> bool" where
  "free_list stats used st b xs \<longleftrightarrow>
     chain (header st) (bins st ! b) xs \<and> distinct xs \<and> (stats \<longrightarrow> binLengths st ! b = int (length xs)) \<and>
     (\<forall>p \<in> set xs. used p = None \<and> 8 < p \<and> live st (p - 8) = Some (2 ^ b))"

definition block_ok :: "cmipool \<Rightarrow> ptr \<Rightarrow> u32 \<Rightarrow> bool" where
  "block_ok st p n \<longleftrightarrow> 8 < p \<and>
     (if header st p = 0 then live st (p - 8) = Some (unat n + 8)
      else int (header st p) < maxBin st \<and> live st (p - 8) = Some (2 ^ header st p) \<and> unat n + 8 < 2 ^ header st p)"

definition disjoint_blocks :: "(ptr \<rightharpoonup> nat) \<Rightarrow> bool" where
  "disjoint_blocks L \<longleftrightarrow>
     (\<forall>h s h' s'. L h = Some s \<longrightarrow> L h' = Some s' \<longrightarrow> h \<noteq> h' \<longrightarrow> h + s \<le> h' \<or> h' + s' \<le> h)"

definition pool_inv :: "bool \<Rightarrow> (ptr \<rightharpoonup> u32) \<Rightarrow> cmipool \<Rightarrow> bool" where
  "pool_inv stats used st \<longleftrightarrow>
     int (length (bins st)) = maxBin st + 1 \<and> length (binLengths st) = length (bins st) \<and> maxBin st \<le> 31 \<and>
     (\<exists>fl. \<forall>b. 0 < b \<and> int b < maxBin st \<longrightarrow> free_list stats used st b (fl b)) \<and>
     (\<forall>p n. used p = Some n \<longrightarrow> block_ok st p n) \<and>
     disjoint_blocks (live st) \<and> (\<forall>h s. live st h = Some s \<longrightarrow> 0 < h \<and> 0 < s)"

definition malloc_ok :: "((ptr \<rightharpoonup> nat) \<Rightarrow> nat \<Rightarrow> ptr) \<Rightarrow> bool" where
  "malloc_ok malloc \<longleftrightarrow>
     (\<forall>L n h s. 0 < malloc L n \<longrightarrow> L h = Some s \<longrightarrow> h + s \<le> malloc L n \<or> malloc L n + n \<le> h)"

lemma pool_chain_cong: "(\<forall>x \<in> set xs. g x = f x) \<Longrightarrow> chain g p xs = chain f p xs"
  by (induction xs arbitrary: p) auto

lemma chain_update [simp]: "p \<notin> set xs \<Longrightarrow> chain (f(p := v)) q xs = chain f q xs"
  by (rule pool_chain_cong) auto

lemma free_list_frame:
  assumes "free_list stats used st b xs"
    and "bins st' ! b = bins st ! b" "stats \<longrightarrow> binLengths st' ! b = binLengths st ! b"
    and "\<forall>x \<in> set xs. header st' x = header st x \<and> live st' (x - 8) = live st (x - 8) \<and> used' x = used x"
  shows "free_list stats used' st' b xs"
  using assms pool_chain_cong [of xs "header st'" "header st"] unfolding free_list_def by auto

lemma free_list_head:
  assumes "free_list stats used st b xs" "bins st ! b \<noteq> NULL"
  obtains ys where "xs = (bins st ! b) # ys" "chain (header st) (header st (bins st ! b)) ys"
  using assms by (cases xs) (auto simp: free_list_def)

text \<open>What a successful allocation did.\<close>

lemma alloc_outcome:
  assumes alloc: "CmiPoolAlloc stats malloc nb st = Some (Inr (p, st'))"
    and small: "unat nb + 8 < 2 ^ 32" and max: "maxBin st \<le> 31"
  obtains (reuse) bin where "0 < bin" "int bin < maxBin st" "unat nb + 8 < 2 ^ bin" "bins st ! bin \<noteq> NULL"
      "p = bins st ! bin" "st' = (snd (pool_take stats bin st))\<lparr>header := (header st)(p := bin)\<rparr>"
    | (fresh) bin n where "malloc (live st) n \<noteq> NULL" "p = malloc (live st) n + 8"
      "if bin = 0 then n = unat nb + 8 else int bin < maxBin st \<and> n = 2 ^ bin \<and> unat nb + 8 < 2 ^ bin"
      "header st' = (header st)(p := bin)" "live st' = (live st)(malloc (live st) n \<mapsto> n)"
      "bins st' = bins st" "binLengths st' = binLengths st" "maxBin st' = maxBin st"
proof -
  let ?n = "nb + of_nat CMI_POOL_HEADER_SIZE"
  have n: "unat ?n = unat nb + 8"
    using small by (simp add: CMI_POOL_HEADER_SIZE_def unat_word_ariths)
  from alloc obtain bin where bin: "find_bin ?n 0 = Some bin"
    by (auto simp: CmiPoolAlloc_def Let_def split: option.splits)
  have "\<not> ?n <s 0" using bin find_bin_diverges [of ?n 0] by auto
  then have "\<not> bit (unat ?n) 31" using bit_last_iff [of ?n] by (simp add: word_sless_alt bit_unsigned_iff)
  have lt: "unat ?n < 2 ^ 31"
  proof (rule ccontr)
    assume "\<not> unat ?n < 2 ^ 31"
    then have "unat ?n div 2 ^ 31 = 1" using small n by (intro div_nat_eqI) auto
    then show False using \<open>\<not> bit (unat ?n) 31\<close> by (simp add: bit_iff_odd)
  qed
  from find_bin_finds [OF this, of 0] bin have size: "unat nb + 8 < 2 ^ bin" using n by auto
  have pos: "0 < bin" using size by (cases bin) auto
  have bytes: "int bin < maxBin st \<Longrightarrow> bin_bytes bin = 2 ^ bin" using max by (intro bin_bytes_power) linarith
  consider "int bin < maxBin st" "bins st ! bin \<noteq> NULL" | "int bin < maxBin st" "bins st ! bin = NULL" | "\<not> int bin < maxBin st" by blast
  then show thesis
  proof cases
    case 1
    have "header (snd (pool_take stats bin st)) = header st" "fst (pool_take stats bin st) = bins st ! bin"
      by (simp_all add: pool_take_def Let_def)
    then show thesis using alloc bin pos 1 size
      by (intro reuse [of bin]) (auto simp: CmiPoolAlloc_def Let_def case_prod_beta split: if_splits)
  next
    case 2
    let ?h = "malloc (live st) (2 ^ bin)"
    have "Some (if ?h = NULL then Inl (AssertFailed ''header !=NULL'')
               else Inr (?h + 8, (if stats then st\<lparr>numMallocs := numMallocs st + 1\<rparr> else st)
                 \<lparr>live := (live st)(?h \<mapsto> 2 ^ bin), header := (header st)(?h + 8 := bin)\<rparr>)) = Some (Inr (p, st'))"
      using alloc bin pos 2 bytes by (simp add: CmiPoolAlloc_def Let_def system_block_def CMI_POOL_HEADER_SIZE_def split: if_splits)
    then show thesis using 2 pos size by (intro fresh [of "2 ^ bin" bin]) (auto split: if_splits)
  next
    case 3
    let ?h = "malloc (live st) (unat nb + 8)"
    have "Some (if ?h = NULL then Inl (AssertFailed ''header !=NULL'')
               else Inr (?h + 8, (if stats then st\<lparr>numOallocs := numOallocs st + 1\<rparr> else st)
                 \<lparr>live := (live st)(?h \<mapsto> unat nb + 8), header := (header st)(?h + 8 := 0)\<rparr>)) = Some (Inr (p, st'))"
      using alloc bin pos 3 n by (simp add: CmiPoolAlloc_def Let_def system_block_def CMI_POOL_HEADER_SIZE_def split: if_splits)
    then show thesis by (intro fresh [of "unat nb + 8" 0]) (auto split: if_splits)
  qed
qed

lemma pool_inv_free_lists:
  assumes "pool_inv stats used st"
  obtains fl where "\<And>b. 0 < b \<Longrightarrow> int b < maxBin st \<Longrightarrow> free_list stats used st b (fl b)"
  using assms unfolding pool_inv_def by blast

lemma inv_reuse:
  assumes inv: "pool_inv stats used st" and bin: "0 < bin" "int bin < maxBin st"
    and p: "p = bins st ! bin" "p \<noteq> NULL" and size: "unat nb + 8 < 2 ^ bin"
    and st': "st' = (snd (pool_take stats bin st))\<lparr>header := (header st)(p := bin)\<rparr>"
  shows "used p = None \<and> pool_inv stats (used(p \<mapsto> nb)) st'"
proof -
  obtain fl where fl: "\<And>b. 0 < b \<Longrightarrow> int b < maxBin st \<Longrightarrow> free_list stats used st b (fl b)"
    using inv by (rule pool_inv_free_lists) blast
  obtain ys where ys: "fl bin = p # ys" "chain (header st) (header st p) ys"
    using fl [OF bin] p by (metis free_list_head)
  note head = fl [OF bin, unfolded ys(1) free_list_def]
  have len: "bin < length (bins st)" "bin < length (binLengths st)" using inv bin by (auto simp: pool_inv_def)
  have [simp]: "maxBin st' = maxBin st" "live st' = live st" "header st' = (header st)(p := bin)"
    "length (bins st') = length (bins st)" "length (binLengths st') = length (binLengths st)"
    by (auto simp: st' pool_take_def Let_def)
  have "free_list stats (used(p \<mapsto> nb)) st' b ((fl(bin := ys)) b)" if b: "0 < b" "int b < maxBin st" for b
  proof (cases "b = bin")
    case True
    have next_ok: "bins st' ! bin = (if stats \<and> ys = [] then NULL else header st p)"
      using len head by (auto simp: st' pool_take_def Let_def p)
    moreover have "stats \<longrightarrow> binLengths st' ! bin = int (length ys)"
      using len head by (auto simp: st' pool_take_def Let_def)
    ultimately show ?thesis using True head ys(2) by (auto simp: free_list_def)
  next
    case False
    have "p \<notin> set (fl b)"
    proof
      assume "p \<in> set (fl b)"
      then have "live st (p - 8) = Some (2 ^ b)" using fl [OF b] by (simp add: free_list_def)
      then show False using head False by simp
    qed
    then show ?thesis using False
      by (simp, intro free_list_frame [OF fl [OF b]]) (auto simp: st' pool_take_def Let_def)
  qed
  moreover have "block_ok st' q n" if "(used(p \<mapsto> nb)) q = Some n" for q n
  proof (cases "q = p")
    case True
    then show ?thesis using that head bin size by (simp add: block_ok_def)
  next
    case False
    then show ?thesis using that inv by (auto simp: block_ok_def pool_inv_def)
  qed
  ultimately show ?thesis using inv head unfolding pool_inv_def
    by (intro conjI exI [of _ "fl(bin := ys)"]) auto
qed

lemma inv_fresh:
  assumes inv: "pool_inv stats used st" and ok: "malloc_ok malloc"
    and h: "h = malloc (live st) n" "h \<noteq> NULL"
    and size: "if bin = 0 then n = unat nb + 8 else int bin < maxBin st \<and> n = 2 ^ bin \<and> unat nb + 8 < 2 ^ bin"
    and st': "header st' = (header st)(h + 8 := bin)" "live st' = (live st)(h \<mapsto> n)"
      "bins st' = bins st" "binLengths st' = binLengths st" "maxBin st' = maxBin st"
  shows "used (h + 8) = None \<and> pool_inv stats (used(h + 8 \<mapsto> nb)) st'"
proof -
  obtain fl where fl: "\<And>b. 0 < b \<Longrightarrow> int b < maxBin st \<Longrightarrow> free_list stats used st b (fl b)"
    using inv by (rule pool_inv_free_lists) blast
  have n: "0 < n" using size by (auto split: if_splits)
  have away: "k + s \<le> h \<or> h + n \<le> k" if "live st k = Some s" for k s
    using ok h that unfolding malloc_ok_def by (metis gr0I)
  have new: "live st h = None"
  proof (cases "live st h")
    case (Some s)
    then have "0 < s" using inv by (auto simp: pool_inv_def)
    then show ?thesis using away [OF Some] n by auto
  qed
  have used_live: "used q = Some m \<Longrightarrow> 8 < q \<and> live st (q - 8) \<noteq> None" for q m
    using inv by (fastforce simp: pool_inv_def block_ok_def split: if_splits)
  have other: "q \<noteq> h + 8" "q - 8 \<noteq> h" if "8 < q" "live st (q - 8) \<noteq> None" for q
    using that new by (cases "q = h + 8"; auto)+
  have "free_list stats (used(h + 8 \<mapsto> nb)) st' b (fl b)" if b: "0 < b" "int b < maxBin st" for b
  proof (rule free_list_frame [OF fl [OF b]])
    show "\<forall>x \<in> set (fl b). header st' x = header st x \<and> live st' (x - 8) = live st (x - 8) \<and> (used(h + 8 \<mapsto> nb)) x = used x"
    proof
      fix x assume "x \<in> set (fl b)"
      then have "8 < x" "live st (x - 8) \<noteq> None" using fl [OF b] by (auto simp: free_list_def)
      from other [OF this] show "header st' x = header st x \<and> live st' (x - 8) = live st (x - 8) \<and> (used(h + 8 \<mapsto> nb)) x = used x"
        by (simp add: st')
    qed
  qed (simp_all add: st')
  moreover have "block_ok st' q m" if q: "(used(h + 8 \<mapsto> nb)) q = Some m" for q m
  proof (cases "q = h + 8")
    case True
    then show ?thesis using q size h by (auto simp: block_ok_def st' split: if_splits)
  next
    case False
    then have "used q = Some m" using q by simp
    then show ?thesis using inv other [of q] used_live [of q m] by (auto simp: block_ok_def pool_inv_def st')
  qed
  moreover have "disjoint_blocks (live st')"
    using inv away unfolding pool_inv_def disjoint_blocks_def st'(2) by (metis fun_upd_apply option.inject)
  moreover have "used (h + 8) = None" using used_live [of "h + 8"] new by (cases "used (h + 8)") auto
  ultimately show ?thesis using inv n h unfolding pool_inv_def
    by (intro conjI exI [of _ fl]) (auto simp: st')
qed

lemma inv_alloc:
  assumes "pool_inv stats used st" "malloc_ok malloc" "unat nb + 8 < 2 ^ 32"
    and alloc: "CmiPoolAlloc stats malloc nb st = Some (Inr (p, st'))"
  shows "used p = None \<and> pool_inv stats (used(p \<mapsto> nb)) st'"
proof -
  have "maxBin st \<le> 31" using assms(1) by (simp add: pool_inv_def)
  from alloc assms(3) this show ?thesis
  proof (cases rule: alloc_outcome)
    case (reuse bin)
    then show ?thesis using inv_reuse [OF assms(1)] by metis
  next
    case (fresh bin n)
    then show ?thesis using inv_fresh [OF assms(1,2) refl fresh(1,3)] by metis
  qed
qed

lemma free_outcome:
  assumes inv: "pool_inv stats used st" and p: "used p = Some n"
  shows "sint (of_nat (header st p) :: u32) = int (header st p)"
proof -
  have "header st p < 2 ^ 31" using inv p by (fastforce simp: pool_inv_def block_ok_def split: if_splits)
  then show ?thesis by (simp add: signed_of_nat signed_take_bit_int_eq_self)
qed

lemma inv_free:
  assumes inv: "pool_inv stats used st" and p: "used p = Some n"
  obtains st' where "CmiPoolFree stats p st = Some (Inr st')" "pool_inv stats (used(p := None)) st'"
    "maxBin st' = maxBin st"
    "header st p = 0 \<longrightarrow> live st' = (live st)(p - 8 := None)"
    "header st p \<noteq> 0 \<longrightarrow> bins st' ! header st p = p \<and> header st' p = bins st ! header st p \<and> live st' = live st \<and>
       binLengths st' ! header st p = binLengths st ! header st p + (if stats then 1 else 0)"
proof -
  obtain fl where fl: "\<And>b. 0 < b \<Longrightarrow> int b < maxBin st \<Longrightarrow> free_list stats used st b (fl b)"
    using inv by (rule pool_inv_free_lists) blast
  let ?b = "header st p"
  note bin = free_outcome [OF inv p]
  have block: "block_ok st p n" using inv p by (simp add: pool_inv_def)
  have not_free: "p \<notin> set (fl b)" if "0 < b" "int b < maxBin st" for b
    using fl [OF that] p by (auto simp: free_list_def)
  have other: "8 < q \<and> q \<noteq> p \<Longrightarrow> q - 8 \<noteq> p - 8" for q using block by (auto simp: block_ok_def)
  have others: "block_ok st q m" "8 < q" if "used q = Some m" for q m
    using inv that by (auto simp: pool_inv_def block_ok_def)
  show thesis
  proof (cases "?b = 0")
    case True
    define st' where "st' = (if stats then st\<lparr>numOFrees := numOFrees st + 1\<rparr> else st)\<lparr>live := (live st)(p - 8 := None)\<rparr>"
    have st'_sel: "header st' = header st" "live st' = (live st)(p - 8 := None)" "bins st' = bins st"
      "binLengths st' = binLengths st" "maxBin st' = maxBin st" by (simp_all add: st'_def)
    have "free_list stats (used(p := None)) st' b (fl b)" if b: "0 < b" "int b < maxBin st" for b
    proof (rule free_list_frame [OF fl [OF b]])
      show "\<forall>x \<in> set (fl b). header st' x = header st x \<and> live st' (x - 8) = live st (x - 8) \<and> (used(p := None)) x = used x"
        using fl [OF b] not_free [OF b] other by (fastforce simp: free_list_def st'_sel)
    qed (simp_all add: st'_sel)
    moreover have "block_ok st' q m" if "(used(p := None)) q = Some m" for q m
      using that others [of q m] other [of q] by (auto simp: block_ok_def st'_sel split: if_splits)
    ultimately have "pool_inv stats (used(p := None)) st'" using inv unfolding pool_inv_def disjoint_blocks_def
      by (intro conjI exI [of _ fl]) (auto simp: st'_sel)
    moreover have "CmiPoolFree stats p st = Some (Inr st')"
      using True bin by (simp add: CmiPoolFree_def Let_def st'_def CMI_POOL_HEADER_SIZE_def)
    ultimately show thesis using that [of st'] True by (simp add: st'_sel)
  next
    case False
    have b: "0 < ?b" "int ?b < maxBin st" using False block by (auto simp: block_ok_def)
    have len: "?b < length (bins st)" "?b < length (binLengths st)" using inv b by (auto simp: pool_inv_def)
    define st1 where "st1 = st\<lparr>header := (header st)(p := bins st ! ?b), bins := (bins st)[?b := p]\<rparr>"
    define st' where "st' = (if stats then st1\<lparr>numFrees := numFrees st + 1, binLengths := (binLengths st)[?b := binLengths st ! ?b + 1]\<rparr> else st1)"
    have st'_sel: "header st' = (header st)(p := bins st ! ?b)" "live st' = live st" "bins st' = (bins st)[?b := p]"
      "binLengths st' = (if stats then (binLengths st)[?b := binLengths st ! ?b + 1] else binLengths st)" "maxBin st' = maxBin st"
      by (simp_all add: st'_def st1_def)
    have "free_list stats (used(p := None)) st' b ((fl(?b := p # fl ?b)) b)" if b': "0 < b" "int b < maxBin st" for b
    proof (cases "b = ?b")
      case True
      then show ?thesis using fl [OF b] not_free [OF b] len block False
        by (auto simp: free_list_def st'_sel block_ok_def)
    next
      case other_bin: False
      then show ?thesis using not_free [OF b']
        by (simp, intro free_list_frame [OF fl [OF b']]) (auto simp: st'_sel)
    qed
    moreover have "block_ok st' q m" if "(used(p := None)) q = Some m" for q m
      using that others [of q m] by (auto simp: block_ok_def st'_sel split: if_splits)
    ultimately have "pool_inv stats (used(p := None)) st'" using inv unfolding pool_inv_def
      by (intro conjI exI [of _ "fl(?b := p # fl ?b)"]) (auto simp: st'_sel)
    moreover have "CmiPoolFree stats p st = Some (Inr st')"
      using False bin b by (simp add: CmiPoolFree_def Let_def st'_def st1_def)
    ultimately show thesis using that [of st'] False len by (simp add: st'_sel)
  qed
qed

lemma inv_init:
  assumes "\<not> initialized st" "live st = Map.empty" "0 < numBins" "numBins \<le> 32"
  shows "pool_inv stats Map.empty (CmiPoolAllocInit numBins st)"
proof -
  have "free_list stats Map.empty (CmiPoolAllocInit numBins st) b []" if "0 < b" "int b < int numBins - 1" for b
    using assms that by (simp add: CmiPoolAllocInit_def free_list_def)
  then show ?thesis using assms unfolding pool_inv_def
    by (intro conjI exI [of _ "\<lambda>b. []"]) (auto simp: CmiPoolAllocInit_def disjoint_blocks_def)
qed

section \<open>Runs of the allocator\<close>

text \<open>
  \<open>used\<close> are the blocks the application holds with the sizes it asked for.  An application of the
  runs below asks for fewer than \<open>2 ^ 32 - 8\<close> bytes at a time: from there on \<^verbatim>\<open>numBytes + CMI_POOL_HEADER_SIZE\<close>
  wraps around and the block returned is smaller than its header.
\<close>

inductive pool_run :: "bool \<Rightarrow> ((ptr \<rightharpoonup> nat) \<Rightarrow> nat \<Rightarrow> ptr) \<Rightarrow> (ptr \<rightharpoonup> u32) \<Rightarrow> cmipool \<Rightarrow> bool"
  for stats malloc where
  start: "\<not> initialized st \<Longrightarrow> live st = Map.empty \<Longrightarrow> 0 < numBins \<Longrightarrow> numBins \<le> 32 \<Longrightarrow>
    pool_run stats malloc Map.empty (CmiPoolAllocInit numBins st)"
| alloc: "pool_run stats malloc used st \<Longrightarrow> unat nb + 8 < 2 ^ 32 \<Longrightarrow>
    CmiPoolAlloc stats malloc nb st = Some (Inr (p, st')) \<Longrightarrow> pool_run stats malloc (used(p \<mapsto> nb)) st'"
| free: "pool_run stats malloc used st \<Longrightarrow> used p \<noteq> None \<Longrightarrow>
    CmiPoolFree stats p st = Some (Inr st') \<Longrightarrow> pool_run stats malloc (used(p := None)) st'"

lemma run_inv:
  assumes "pool_run stats malloc used st" "malloc_ok malloc"
  shows "pool_inv stats used st"
  using assms
proof (induction rule: pool_run.induct)
  case (start st numBins)
  then show ?case by (intro inv_init)
next
  case (alloc used st nb p st')
  then show ?case using inv_alloc by blast
next
  case (free used st p st')
  then obtain n where "used p = Some n" by auto
  then show ?case using free inv_free [of stats used st p n] by (metis option.inject sum.inject(2))
qed

lemma find_bin_exact:
  assumes "unat n < 2 ^ bin" "2 ^ (bin - 1) \<le> unat n" "0 < bin" "bin \<le> 31"
  shows "find_bin n 0 = Some bin"
proof -
  have "(2::nat) ^ bin \<le> 2 ^ 31" using assms(4) by (intro power_increasing) auto
  then have "unat n < 2 ^ 31" using assms(1) by linarith
  from find_bin_finds [OF this, of 0] obtain k where
    k: "find_bin n 0 = Some k" "unat n < 2 ^ k" "0 < k \<longrightarrow> 2 ^ (k - 1) \<le> unat n" by auto
  have "k = bin"
  proof (rule linorder_cases [of k bin])
    assume "k < bin"
    then have "(2::nat) ^ k \<le> 2 ^ (bin - 1)" by (intro power_increasing) auto
    then show ?thesis using assms(2) k(2) by linarith
  next
    assume "bin < k"
    then have "(2::nat) ^ bin \<le> 2 ^ (k - 1)" by (intro power_increasing) auto
    then show ?thesis using assms(1) k(3) \<open>bin < k\<close> by linarith
  qed
  then show ?thesis using k(1) by simp
qed

lemma unat_with_header:
  "unat nb + 8 < 2 ^ 32 \<Longrightarrow> unat (nb + of_nat CMI_POOL_HEADER_SIZE :: u32) = unat nb + 8"
  by (simp add: CMI_POOL_HEADER_SIZE_def unat_word_ariths)

section \<open>A concrete system allocator\<close>

definition fits :: "(ptr \<rightharpoonup> nat) \<Rightarrow> nat \<Rightarrow> ptr \<Rightarrow> bool" where
  "fits L n a \<longleftrightarrow> a + n \<le> 64 \<and> list_all (\<lambda>h. case L h of None \<Rightarrow> True | Some s \<Rightarrow> h + s \<le> a \<or> a + n \<le> h) [0..<64]"

definition slot_malloc :: "(ptr \<rightharpoonup> nat) \<Rightarrow> nat \<Rightarrow> ptr" where
  "slot_malloc L n = (case find (fits L n) [8, 24, 40] of None \<Rightarrow> NULL | Some a \<Rightarrow> a)"

lemma slot_malloc_fits: "0 < slot_malloc L n \<Longrightarrow> fits L n (slot_malloc L n)"
  unfolding slot_malloc_def using find_Some_iff [of "fits L n" "[8, 24, 40]"] by (auto split: option.splits)

lemma slot_malloc_ok: "malloc_ok slot_malloc"
  unfolding malloc_ok_def
proof (intro allI impI)
  fix L n h s
  assume pos: "0 < slot_malloc L n" and L: "L h = Some s"
  note fit = slot_malloc_fits [OF pos, unfolded fits_def list_all_iff]
  show "h + s \<le> slot_malloc L n \<or> slot_malloc L n + n \<le> h"
  proof (cases "h < 64")
    case True
    then have "case L h of None \<Rightarrow> True | Some s \<Rightarrow> h + s \<le> slot_malloc L n \<or> slot_malloc L n + n \<le> h" using fit by simp
    then show ?thesis by (simp add: L)
  qed (use fit in linarith)
qed

definition empty_pool :: cmipool where
  "empty_pool = \<lparr>initialized = False, bins = [], binLengths = [], maxBin = 0, numKallocs = 0, numMallocs = 0,
     numOallocs = 0, numFrees = 0, numOFrees = 0, header = (\<lambda>_. 0), live = Map.empty\<rparr>"

lemma demo_alloc:
  "CmiPoolAlloc False slot_malloc 3 (CmiPoolAllocInit 8 empty_pool) =
     Some (Inr (16, (CmiPoolAllocInit 8 empty_pool)\<lparr>live := [8 \<mapsto> 16], header := (\<lambda>_. 0)(16 := 4)\<rparr>))"
proof -
  have "find_bin 11 0 = Some 4" by (rule find_bin_exact) simp_all
  moreover have "bin_bytes 4 = 16" by (simp add: bin_bytes_power)
  moreover have "slot_malloc Map.empty 16 = 8" by (simp add: slot_malloc_def fits_def list_all_iff)
  ultimately show ?thesis
    by (simp add: CmiPoolAlloc_def Let_def system_block_def CMI_POOL_HEADER_SIZE_def CmiPoolAllocInit_def empty_pool_def)
qed

lemma demo_run: "pool_run False slot_malloc [16 \<mapsto> 3] ((CmiPoolAllocInit 8 empty_pool)\<lparr>live := [8 \<mapsto> 16], header := (\<lambda>_. 0)(16 := 4)\<rparr>)"
  by (rule pool_run.alloc [OF pool_run.start _ demo_alloc]) (simp_all add: empty_pool_def)

section \<open>Properties\<close>

text \<open>
  C27.  After any sequence of frees and of allocations of fewer than \<open>2 ^ 32 - 8\<close> bytes each, so that
  the size with the header does not wrap around, from a pool of 1 to 32 bins and with a system
  allocator that hands out disjoint blocks, the blocks the application holds lie with their
  headers inside allocated memory and do not overlap one another; freeing one of them succeeds, and such
  an allocation never returns a block that is still held.
\<close>

theorem pool_blocks_disjoint:
  assumes "pool_run stats malloc used st" "malloc_ok malloc" "used p = Some n"
  shows "(\<exists>s. live st (p - 8) = Some s \<and> 8 < p \<and> unat n + 8 \<le> s) \<and>
    (\<forall>q m. used q = Some m \<and> q \<noteq> p \<longrightarrow> p + unat n \<le> q - 8 \<or> q + unat m \<le> p - 8) \<and>
    (\<exists>st'. CmiPoolFree stats p st = Some (Inr st')) \<and>
    (\<forall>nb q st'. unat nb + 8 < 2 ^ 32 \<and> CmiPoolAlloc stats malloc nb st = Some (Inr (q, st')) \<longrightarrow> used q = None)"
proof (intro conjI allI impI)
  note inv = run_inv [OF assms(1,2)]
  have block: "8 < q \<and> (\<exists>s. live st (q - 8) = Some s \<and> unat m + 8 \<le> s)" if "used q = Some m" for q m
    using inv that by (fastforce simp: pool_inv_def block_ok_def split: if_splits)
  from block [OF assms(3)] show "\<exists>s. live st (p - 8) = Some s \<and> 8 < p \<and> unat n + 8 \<le> s" by blast
  show "\<exists>st'. CmiPoolFree stats p st = Some (Inr st')" using inv_free [OF inv assms(3)] by metis
  show "p + unat n \<le> q - 8 \<or> q + unat m \<le> p - 8" if q: "used q = Some m \<and> q \<noteq> p" for q m
  proof -
    from block [OF assms(3)] obtain s where s: "8 < p" "live st (p - 8) = Some s" "unat n + 8 \<le> s" by blast
    from block [of q m] q obtain r where r: "8 < q" "live st (q - 8) = Some r" "unat m + 8 \<le> r" by blast
    have "p - 8 \<noteq> q - 8" using s r q by auto
    then have "p - 8 + s \<le> q - 8 \<or> q - 8 + r \<le> p - 8" using inv s(2) r(2) unfolding pool_inv_def disjoint_blocks_def by blast
    then show ?thesis using s r by linarith
  qed
  show "used q = None" if "unat nb + 8 < 2 ^ 32 \<and> CmiPoolAlloc stats malloc nb st = Some (Inr (q, st'))" for nb q st'
    using inv_alloc [OF inv assms(2)] that by blast
qed

theorem pool_blocks_disjoint_witness:
  "\<exists>st. CmiPoolAlloc False slot_malloc 3 (CmiPoolAllocInit 8 empty_pool) = Some (Inr (16, st)) \<and>
     (\<exists>st'. CmiPoolFree False 16 st = Some (Inr st'))"
  using pool_blocks_disjoint [OF demo_run slot_malloc_ok, of 16 3] demo_alloc by auto

text \<open>
  C28.  A request of fewer than \<open>2^31 - 8\<close> bytes returns, and fails only when the system has no
  memory.  A larger one, up to the point where adding the header wraps around, never returns: the
  loop that looks for the bin shifts a negative number.
\<close>

theorem pool_alloc_returns:
  "(unat nb < 2 ^ 31 - 8 \<longrightarrow>
      (\<exists>r. CmiPoolAlloc stats malloc nb st = Some r \<and> (\<forall>e. r = Inl e \<longrightarrow> e = AssertFailed ''header !=NULL''))) \<and>
   (2 ^ 31 - 8 \<le> unat nb \<and> unat nb < 2 ^ 32 - 8 \<longrightarrow> CmiPoolAlloc stats malloc nb st = None)"
proof (intro conjI impI)
  let ?n = "nb + of_nat CMI_POOL_HEADER_SIZE"
  assume nb: "unat nb < 2 ^ 31 - 8"
  then have n: "unat ?n = unat nb + 8" "unat ?n < 2 ^ 31" by (auto simp: unat_with_header)
  from find_bin_finds [OF n(2), of 0] obtain bin where bin: "find_bin ?n 0 = Some bin" "unat ?n < 2 ^ bin" by auto
  then have "0 < bin" using n(1) by (cases bin) auto
  then show "\<exists>r. CmiPoolAlloc stats malloc nb st = Some r \<and> (\<forall>e. r = Inl e \<longrightarrow> e = AssertFailed ''header !=NULL'')"
    using bin(1) by (simp add: CmiPoolAlloc_def Let_def case_prod_beta)
next
  let ?n = "nb + of_nat CMI_POOL_HEADER_SIZE"
  assume nb: "2 ^ 31 - 8 \<le> unat nb \<and> unat nb < 2 ^ 32 - 8"
  then have n: "unat ?n = unat nb + 8" by (intro unat_with_header) simp
  then have "unat ?n div 2 ^ 31 = 1" using nb by (intro div_nat_eqI) auto
  then have "bit (unat ?n) 31" by (simp add: bit_iff_odd)
  then have "?n <s 0" using bit_last_iff [of ?n] by (simp add: word_sless_alt bit_unsigned_iff)
  then show "CmiPoolAlloc stats malloc nb st = None" by (simp add: CmiPoolAlloc_def Let_def find_bin_diverges)
qed

theorem pool_alloc_returns_witness:
  "(\<exists>r. CmiPoolAlloc False slot_malloc 3 empty_pool = Some r) \<and> CmiPoolAlloc False slot_malloc 0x80000000 empty_pool = None"
  using pool_alloc_returns [where nb = 3 and stats = False and malloc = slot_malloc and st = empty_pool]
     pool_alloc_returns [where nb = "0x80000000" and stats = False and malloc = slot_malloc and st = empty_pool] by auto

text \<open>
  Freeing a pooled block and then asking for a size of the same bin gives the same block
  back, without the system allocator, and restores the free lists.
\<close>

theorem pool_free_alloc:
  assumes run: "pool_run stats malloc used st" "malloc_ok malloc" and p: "used p = Some n"
    and bin: "header st p \<noteq> 0" "2 ^ (header st p - 1) \<le> unat nb + 8" "unat nb + 8 < 2 ^ header st p"
  shows "\<exists>st' st''. CmiPoolFree stats p st = Some (Inr st') \<and> CmiPoolAlloc stats malloc nb st' = Some (Inr (p, st'')) \<and>
    bins st'' = bins st \<and> header st'' p = header st p \<and> live st'' = live st"
proof -
  note inv = run_inv [OF run]
  let ?b = "header st p"
  have "8 < p" "int ?b < maxBin st" "maxBin st \<le> 31" using inv p bin(1) by (auto simp: pool_inv_def block_ok_def)
  moreover from this have "?b < length (bins st)" "?b < length (binLengths st)" using inv by (auto simp: pool_inv_def)
  ultimately have block: "8 < p" "int ?b < maxBin st" "maxBin st \<le> 31" "?b < length (bins st)" "?b < length (binLengths st)" by simp_all
  from inv p obtain xs where xs: "free_list stats used st ?b xs" using bin(1) block by (auto simp: pool_inv_def)
  have "find_bin (nb + of_nat CMI_POOL_HEADER_SIZE) 0 = Some ?b"
  proof (rule find_bin_exact)
    have "(2::nat) ^ ?b \<le> 2 ^ 31" using block by (intro power_increasing) auto
    then have "unat nb + 8 < 2 ^ 31" using bin(3) by linarith
    then have "unat nb + 8 < 2 ^ 32" by simp
    from unat_with_header [OF this] bin
    show "unat (nb + of_nat CMI_POOL_HEADER_SIZE) < 2 ^ ?b" "2 ^ (?b - 1) \<le> unat (nb + of_nat CMI_POOL_HEADER_SIZE)" by simp_all
  qed (use bin block in auto)
  moreover have "stats \<and> binLengths st ! ?b = 0 \<longrightarrow> bins st ! ?b = NULL" using xs by (auto simp: free_list_def)
  moreover have "bins st ! ?b = NULL \<longrightarrow> (bins st)[?b := NULL] = bins st" by (metis list_update_id)
  ultimately show ?thesis
    using free_outcome [OF inv p] bin(1) block
    by (auto simp: CmiPoolFree_def CmiPoolAlloc_def Let_def pool_take_def CMI_POOL_HEADER_SIZE_def)
qed

theorem pool_free_alloc_witness:
  "\<exists>st st' st''. CmiPoolAlloc False slot_malloc 3 (CmiPoolAllocInit 8 empty_pool) = Some (Inr (16, st)) \<and>
     CmiPoolFree False 16 st = Some (Inr st') \<and> CmiPoolAlloc False slot_malloc 5 st' = Some (Inr (16, st'')) \<and> bins st'' = bins st"
proof -
  let ?st = "(CmiPoolAllocInit 8 empty_pool)\<lparr>live := [8 \<mapsto> 16], header := (\<lambda>_. 0)(16 := 4)\<rparr>"
  have "\<exists>st' st''. CmiPoolFree False 16 ?st = Some (Inr st') \<and> CmiPoolAlloc False slot_malloc 5 st' = Some (Inr (16, st'')) \<and>
    bins st'' = bins ?st \<and> header st'' 16 = header ?st 16 \<and> live st'' = live ?st"
    by (rule pool_free_alloc [OF demo_run slot_malloc_ok]) simp_all
  then show ?thesis using demo_alloc by blast
qed

end
