(* ===== verification/PCQueue.thy ===== *)
theory PCQueue
  imports Prelude
begin

text \<open>
  The producer-consumer queue of \<^verbatim>\<open>arch/util/pcqueue.h\<close> (the version with linked buffers) in
  the configuration of shared-memory builds: producers hold a lock while they push, the one
  consumer pops without a lock.  Each access to shared memory is a step of its own and the steps of
  the producer that holds the lock and of the consumer interleave freely.  A step is \<open>None\<close> when it
  touches a buffer that is not allocated or fails the assertion of \<^verbatim>\<open>PCQueuePop\<close>.  All threads see the
  steps in one order: the memory fences of the source, which enforce the order of its accesses, are no steps.
\<close>

section \<open>The queue\<close>

definition PCQueueSize :: nat where "PCQueueSize = 256"

record CircQueue =
  c_next :: ptr
  c_push :: nat
  c_pull :: nat
  c_data :: "ptr list"

text \<open>The lock holder, by the statement of \<^verbatim>\<open>PCQueuePush\<close> it executes next.\<close>

datatype producer =
    PIdle
  | PTail (pdata: ptr)
  | PRead (pdata: ptr) ptr
  | PBump (pdata: ptr) ptr nat
  | PFull (pdata: ptr) ptr nat
  | PLink (pdata: ptr) ptr nat ptr
  | PMove (pdata: ptr) ptr nat ptr
  | PStore (pdata: ptr) ptr nat
  | PCount
  | PUnlock

text \<open>The consumer, by the statement of \<^verbatim>\<open>PCQueuePop\<close> it executes next.\<close>

datatype consumer =
    CIdle
  | CHead
  | CPull ptr
  | CData ptr nat
  | CBump ptr nat ptr
  | CClear ptr nat ptr
  | CNext ptr ptr
  | CFree ptr ptr
  | CCount ptr

record pcqueue =
  head :: ptr
  tail :: ptr
  len :: int
  circs :: "ptr \<rightharpoonup> CircQueue"
  prod :: producer
  cons :: consumer

definition new_circ :: CircQueue where
  "new_circ = \<lparr>c_next = NULL, c_push = 0, c_pull = 0, c_data = replicate PCQueueSize NULL\<rparr>"

definition PCQueueCreate :: "ptr \<Rightarrow> pcqueue" where
  "PCQueueCreate circ = \<lparr>head = circ, tail = circ, len = 0, circs = [circ \<mapsto> new_circ], prod = PIdle, cons = CIdle\<rparr>"

definition with_circ :: "pcqueue \<Rightarrow> ptr \<Rightarrow> (CircQueue \<Rightarrow> 'a option) \<Rightarrow> 'a option" where
  "with_circ Q c f = (case circs Q c of None \<Rightarrow> None | Some cq \<Rightarrow> f cq)"

definition set_circ :: "ptr \<Rightarrow> CircQueue \<Rightarrow> pcqueue \<Rightarrow> pcqueue" where
  "set_circ c cq Q = Q\<lparr>circs := (circs Q)(c \<mapsto> cq)\<rparr>"

text \<open>
  \<^verbatim>\<open>PCQueuePush\<close>: \<open>data\<close> is the argument of a call that takes the lock now, \<open>a\<close> the address
  \<^verbatim>\<open>calloc\<close> returns.
\<close>

definition PCQueuePush_step :: "ptr \<Rightarrow> ptr \<Rightarrow> pcqueue \<Rightarrow> pcqueue option" where
  "PCQueuePush_step data a Q =
     (case prod Q of
        PIdle \<Rightarrow> Some (Q\<lparr>prod := PTail data\<rparr>)
      | PTail d \<Rightarrow> Some (Q\<lparr>prod := PRead d (tail Q)\<rparr>)
      | PRead d circ1 \<Rightarrow> with_circ Q circ1 (\<lambda>cq. Some (Q\<lparr>prod := PBump d circ1 (c_push cq)\<rparr>))
      | PBump d circ1 push \<Rightarrow>
          with_circ Q circ1 (\<lambda>cq.
            Some ((set_circ circ1 (cq\<lparr>c_push := push + 1\<rparr>) Q)
                    \<lparr>prod := (if push = PCQueueSize - 1 then PFull d circ1 push else PStore d circ1 push)\<rparr>))
      | PFull d circ1 push \<Rightarrow> Some ((set_circ a new_circ Q)\<lparr>prod := PLink d circ1 push a\<rparr>)
      | PLink d circ1 push circ \<Rightarrow>
          with_circ Q (tail Q) (\<lambda>cq.
            Some ((set_circ (tail Q) (cq\<lparr>c_next := circ\<rparr>) Q)\<lparr>prod := PMove d circ1 push circ\<rparr>))
      | PMove d circ1 push circ \<Rightarrow> Some (Q\<lparr>tail := circ, prod := PStore d circ1 push\<rparr>)
      | PStore d circ1 push \<Rightarrow>
          with_circ Q circ1 (\<lambda>cq.
            Some ((set_circ circ1 (cq\<lparr>c_data := (c_data cq)[push := d]\<rparr>) Q)\<lparr>prod := PCount\<rparr>))
      | PCount \<Rightarrow> Some (Q\<lparr>len := len Q + 1, prod := PUnlock\<rparr>)
      | PUnlock \<Rightarrow> Some (Q\<lparr>prod := PIdle\<rparr>))"

definition PCQueuePop_step :: "pcqueue \<Rightarrow> pcqueue option" where
  "PCQueuePop_step Q =
     (case cons Q of
        CIdle \<Rightarrow> Some (Q\<lparr>cons := CHead\<rparr>)
      | CHead \<Rightarrow> Some (Q\<lparr>cons := CPull (head Q)\<rparr>)
      | CPull circ \<Rightarrow> with_circ Q circ (\<lambda>cq. Some (Q\<lparr>cons := CData circ (c_pull cq)\<rparr>))
      | CData circ pull \<Rightarrow>
          with_circ Q circ (\<lambda>cq.
            let data = c_data cq ! pull
            in Some (Q\<lparr>cons := (if data \<noteq> NULL then CBump circ pull data else CIdle)\<rparr>))
      | CBump circ pull data \<Rightarrow>
          with_circ Q circ (\<lambda>cq.
            Some ((set_circ circ (cq\<lparr>c_pull := pull + 1\<rparr>) Q)\<lparr>cons := CClear circ pull data\<rparr>))
      | CClear circ pull data \<Rightarrow>
          with_circ Q circ (\<lambda>cq.
            Some ((set_circ circ (cq\<lparr>c_data := (c_data cq)[pull := NULL]\<rparr>) Q)
                    \<lparr>cons := (if pull = PCQueueSize - 1 then CNext circ data else CCount data)\<rparr>))
      | CNext circ data \<Rightarrow>
          with_circ Q circ (\<lambda>cq.
            if c_next cq = NULL then None else Some (Q\<lparr>head := c_next cq, cons := CFree circ data\<rparr>))
      | CFree circ data \<Rightarrow>
          with_circ Q circ (\<lambda>cq. Some (Q\<lparr>circs := (circs Q)(circ := None), cons := CCount data\<rparr>))
      | CCount data \<Rightarrow> Some (Q\<lparr>len := len Q - 1, cons := CIdle\<rparr>))"

definition PCQueueEmpty :: "pcqueue \<Rightarrow> bool" where "PCQueueEmpty Q \<longleftrightarrow> len Q = 0"

definition PCQueueLength :: "pcqueue \<Rightarrow> int" where "PCQueueLength Q = len Q"

definition PCQueueTop :: "pcqueue \<Rightarrow> ptr option" where
  "PCQueueTop Q = with_circ Q (head Q) (\<lambda>cq. Some (c_data cq ! c_pull cq))"

text \<open>\<^verbatim>\<open>PCQueueDestroy\<close> reads the link of a buffer after it has freed it.\<close>

partial_function (option) destroy_loop :: "pcqueue \<Rightarrow> ptr \<Rightarrow> pcqueue option" where
  "destroy_loop Q circ =
     (if circ \<noteq> tail Q
      then case circs Q circ of
             None \<Rightarrow> None
           | Some _ \<Rightarrow>
               (case ((circs Q)(circ := None)) circ of
                  None \<Rightarrow> None
                | Some cq \<Rightarrow> destroy_loop (Q\<lparr>circs := (circs Q)(circ := None)\<rparr>) (c_next cq))
      else Some (Q\<lparr>circs := (circs Q)(circ := None)\<rparr>))"

definition PCQueueDestroy :: "pcqueue \<Rightarrow> pcqueue option" where
  "PCQueueDestroy Q = destroy_loop Q (head Q)"

lemma destroy_outcome: "PCQueueDestroy Q = (if head Q = tail Q then Some (Q\<lparr>circs := (circs Q)(head Q := None)\<rparr>) else None)"
  unfolding PCQueueDestroy_def by (subst destroy_loop.simps) (auto split: option.splits)

section \<open>Executions\<close>

text \<open>
  \<open>pushed\<close> lists the data stored in the queue so far, \<open>popped\<close> the data returned by pops so far.
\<close>

inductive pcq_run :: "pcqueue \<Rightarrow> ptr list \<Rightarrow> ptr list \<Rightarrow> bool" where
  create: "c \<noteq> NULL \<Longrightarrow> pcq_run (PCQueueCreate c) [] []"
| push: "pcq_run Q pushed popped \<Longrightarrow> data \<noteq> NULL \<Longrightarrow> a \<noteq> NULL \<Longrightarrow> circs Q a = None \<Longrightarrow>
    PCQueuePush_step data a Q = Some Q' \<Longrightarrow>
    pcq_run Q' (pushed @ (case prod Q of PStore d c p \<Rightarrow> [d] | _ \<Rightarrow> [])) popped"
| pop: "pcq_run Q pushed popped \<Longrightarrow> PCQueuePop_step Q = Some Q' \<Longrightarrow>
    pcq_run Q' pushed (popped @ (case cons Q of CCount d \<Rightarrow> [d] | _ \<Rightarrow> []))"

section \<open>Blocks of equal length\<close>

lemma concat_block_nth:
  assumes "\<forall>xs \<in> set xss. length xs = N" "i < length xss" "p < N"
  shows "concat xss ! (i * N + p) = xss ! i ! p"
  using assms
proof (induction xss arbitrary: i)
  case (Cons xs xss)
  show ?case
  proof (cases i)
    case (Suc j)
    then have "i * N + p = length xs + (j * N + p)" using Cons.prems(1) by simp
    then have "concat (xs # xss) ! (i * N + p) = concat xss ! (j * N + p)" by (simp add: nth_append)
    then show ?thesis using Cons Suc by simp
  qed (use Cons.prems in \<open>simp add: nth_append\<close>)
qed simp

lemma concat_block_update:
  assumes "\<forall>xs \<in> set xss. length xs = N" "i < length xss" "p < N"
  shows "concat (xss[i := (xss ! i)[p := v]]) = (concat xss)[i * N + p := v]"
  using assms
proof (induction xss arbitrary: i)
  case (Cons xs xss)
  show ?case
  proof (cases i)
    case (Suc j)
    then have "i * N + p = length xs + (j * N + p)" using Cons.prems(1) by simp
    then show ?thesis using Cons Suc by (simp add: list_update_append)
  qed (use Cons.prems in \<open>simp add: list_update_append\<close>)
qed simp

lemma length_concat_blocks: "\<forall>xs \<in> set xss. length xs = N \<Longrightarrow> length (concat xss) = length xss * N"
  by (induction xss) auto

section \<open>The invariant\<close>

text \<open>
  \<open>cs\<close> are the linked buffers from head to tail.  Read one after the other, their slots are \<open>pl\<close>
  empty slots, the data \<open>rest\<close> waiting to be popped, and empty slots again.
\<close>

definition circ_at :: "pcqueue \<Rightarrow> ptr \<Rightarrow> CircQueue" where "circ_at Q c = the (circs Q c)"

definition slots :: "pcqueue \<Rightarrow> ptr list \<Rightarrow> ptr list" where
  "slots Q cs = concat (map (\<lambda>c. c_data (circ_at Q c)) cs)"

definition buffers_ok :: "pcqueue \<Rightarrow> ptr list \<Rightarrow> bool" where
  "buffers_ok Q cs \<longleftrightarrow> cs \<noteq> [] \<and> distinct cs \<and> NULL \<notin> set cs \<and> hd cs = head Q \<and> last cs = tail Q \<and>
     (\<forall>c \<in> set cs. circs Q c \<noteq> None \<and> length (c_data (circ_at Q c)) = PCQueueSize) \<and>
     (\<forall>i. Suc i < length cs \<longrightarrow> c_next (circ_at Q (cs ! i)) = cs ! Suc i) \<and>
     (\<forall>c \<in> set (tl cs). c_pull (circ_at Q c) = 0)"

definition slots_ok :: "pcqueue \<Rightarrow> ptr list \<Rightarrow> nat \<Rightarrow> ptr list \<Rightarrow> bool" where
  "slots_ok Q cs pl rest \<longleftrightarrow> NULL \<notin> set rest \<and> pl + length rest \<le> length cs * PCQueueSize \<and>
     slots Q cs = replicate pl NULL @ rest @ replicate (length cs * PCQueueSize - (pl + length rest)) NULL"

definition aligned :: "pcqueue \<Rightarrow> ptr list \<Rightarrow> nat \<Rightarrow> bool" where
  "aligned Q cs w \<longleftrightarrow> w = (length cs - 1) * PCQueueSize + c_push (circ_at Q (tail Q)) \<and> c_push (circ_at Q (tail Q)) < PCQueueSize"

definition growing :: "pcqueue \<Rightarrow> ptr list \<Rightarrow> nat \<Rightarrow> ptr \<Rightarrow> nat \<Rightarrow> bool" where
  "growing Q cs w circ1 push \<longleftrightarrow> circ1 = tail Q \<and> push = PCQueueSize - 1 \<and> w = (length cs - 1) * PCQueueSize + push"

definition retired :: "pcqueue \<Rightarrow> ptr \<Rightarrow> bool" where
  "retired Q c \<longleftrightarrow> (\<exists>d. cons Q = CFree c d)"

fun producer_ok :: "producer \<Rightarrow> pcqueue \<Rightarrow> ptr list \<Rightarrow> nat \<Rightarrow> bool" where
  "producer_ok (PTail d) Q cs w \<longleftrightarrow> d \<noteq> NULL \<and> aligned Q cs w"
| "producer_ok (PRead d circ1) Q cs w \<longleftrightarrow> d \<noteq> NULL \<and> aligned Q cs w \<and> circ1 = tail Q"
| "producer_ok (PBump d circ1 push) Q cs w \<longleftrightarrow> d \<noteq> NULL \<and> aligned Q cs w \<and> circ1 = tail Q \<and> push = c_push (circ_at Q (tail Q))"
| "producer_ok (PFull d circ1 push) Q cs w \<longleftrightarrow> d \<noteq> NULL \<and> growing Q cs w circ1 push"
| "producer_ok (PLink d circ1 push circ) Q cs w \<longleftrightarrow> d \<noteq> NULL \<and> growing Q cs w circ1 push \<and>
     circ \<notin> set cs \<and> circ \<noteq> NULL \<and> circs Q circ = Some new_circ \<and> \<not> retired Q circ"
| "producer_ok (PMove d circ1 push circ) Q cs w \<longleftrightarrow> d \<noteq> NULL \<and> growing Q cs w circ1 push \<and>
     circ \<notin> set cs \<and> circ \<noteq> NULL \<and> circs Q circ = Some new_circ \<and> \<not> retired Q circ \<and> c_next (circ_at Q (tail Q)) = circ"
| "producer_ok (PStore d circ1 push) Q cs w \<longleftrightarrow> d \<noteq> NULL \<and> w < length cs * PCQueueSize \<and>
     circ1 = cs ! (w div PCQueueSize) \<and> push = w mod PCQueueSize \<and> aligned Q cs (w + 1)"
| "producer_ok _ Q cs w \<longleftrightarrow> aligned Q cs w"

definition pulling :: "pcqueue \<Rightarrow> nat \<Rightarrow> bool" where
  "pulling Q pl \<longleftrightarrow> pl = c_pull (circ_at Q (head Q)) \<and> pl < PCQueueSize"

fun consumer_ok :: "consumer \<Rightarrow> pcqueue \<Rightarrow> ptr list \<Rightarrow> nat \<Rightarrow> ptr list \<Rightarrow> bool" where
  "consumer_ok (CPull circ) Q cs pl rest \<longleftrightarrow> pulling Q pl \<and> circ = head Q"
| "consumer_ok (CData circ pull) Q cs pl rest \<longleftrightarrow> pulling Q pl \<and> circ = head Q \<and> pull = pl"
| "consumer_ok (CBump circ pull d) Q cs pl rest \<longleftrightarrow> pulling Q pl \<and> circ = head Q \<and> pull = pl \<and> rest \<noteq> [] \<and> hd rest = d"
| "consumer_ok (CClear circ pull d) Q cs pl rest \<longleftrightarrow> c_pull (circ_at Q (head Q)) = Suc pl \<and> pl < PCQueueSize \<and>
     circ = head Q \<and> pull = pl \<and> rest \<noteq> [] \<and> hd rest = d"
| "consumer_ok (CNext circ d) Q cs pl rest \<longleftrightarrow> circ = head Q \<and> pl = PCQueueSize"
| "consumer_ok (CFree circ d) Q cs pl rest \<longleftrightarrow> pulling Q pl \<and> circ \<notin> set cs \<and> circs Q circ \<noteq> None"
| "consumer_ok _ Q cs pl rest \<longleftrightarrow> pulling Q pl"

fun taken :: "consumer \<Rightarrow> ptr list" where
  "taken (CNext circ d) = [d]"
| "taken (CFree circ d) = [d]"
| "taken (CCount d) = [d]"
| "taken _ = []"

definition uncounted :: "producer \<Rightarrow> int" where
  "uncounted p = (if p = PCount then 1 else 0)"

definition pcq_inv :: "pcqueue \<Rightarrow> ptr list \<Rightarrow> nat \<Rightarrow> ptr list \<Rightarrow> ptr list \<Rightarrow> ptr list \<Rightarrow> bool" where
  "pcq_inv Q cs pl rest pushed popped \<longleftrightarrow>
     buffers_ok Q cs \<and> slots_ok Q cs pl rest \<and>
     producer_ok (prod Q) Q cs (pl + length rest) \<and> consumer_ok (cons Q) Q cs pl rest \<and>
     pushed = popped @ taken (cons Q) @ rest \<and>
     len Q = int (length pushed) - uncounted (prod Q) - int (length popped)"

lemma PCQueueSize_pos [simp]: "0 < PCQueueSize"
  by (simp add: PCQueueSize_def)

lemma slots_nth:
  assumes "buffers_ok Q cs" "i < length cs" "p < PCQueueSize"
  shows "slots Q cs ! (i * PCQueueSize + p) = c_data (circ_at Q (cs ! i)) ! p"
  unfolding slots_def using assms
  by (subst concat_block_nth) (auto simp: buffers_ok_def)

lemma circ_at_set [simp]:
  "circ_at (set_circ c cq Q) x = (if x = c then cq else circ_at Q x)"
  "circ_at (Q\<lparr>prod := p\<rparr>) x = circ_at Q x" "circ_at (Q\<lparr>cons := q\<rparr>) x = circ_at Q x"
  "circ_at (Q\<lparr>len := n\<rparr>) x = circ_at Q x" "circ_at (Q\<lparr>head := h\<rparr>) x = circ_at Q x" "circ_at (Q\<lparr>tail := h\<rparr>) x = circ_at Q x"
  by (auto simp: circ_at_def set_circ_def)

lemma set_circ_sel [simp]:
  "head (set_circ c cq Q) = head Q" "tail (set_circ c cq Q) = tail Q" "len (set_circ c cq Q) = len Q"
  "prod (set_circ c cq Q) = prod Q" "cons (set_circ c cq Q) = cons Q" "circs (set_circ c cq Q) = (circs Q)(c \<mapsto> cq)"
  by (simp_all add: set_circ_def)

lemma slots_update:
  assumes "buffers_ok Q cs" "i < length cs" "p < PCQueueSize" "cq = circ_at Q (cs ! i)"
  shows "slots (set_circ (cs ! i) (cq\<lparr>c_data := (c_data cq)[p := v]\<rparr>) Q) cs = (slots Q cs)[i * PCQueueSize + p := v]"
proof -
  let ?d = "\<lambda>c. c_data (circ_at Q c)"
  have "map (\<lambda>c. c_data (circ_at (set_circ (cs ! i) (cq\<lparr>c_data := (c_data cq)[p := v]\<rparr>) Q) c)) cs = (map ?d cs)[i := (map ?d cs ! i)[p := v]]"
    using assms by (intro nth_equalityI) (auto simp: nth_list_update buffers_ok_def nth_eq_iff_index_eq)
  then show ?thesis unfolding slots_def using assms
    by (subst concat_block_update [symmetric]) (auto simp: buffers_ok_def)
qed

lemma slots_cong: "(\<forall>c \<in> set cs. c_data (circ_at Q' c) = c_data (circ_at Q c)) \<Longrightarrow> slots Q' cs = slots Q cs"
  unfolding slots_def by (intro arg_cong [where f = concat] map_cong) auto

lemma tail_in: "buffers_ok Q cs \<Longrightarrow> tail Q \<in> set cs \<and> circs Q (tail Q) = Some (circ_at Q (tail Q))"
  unfolding buffers_ok_def circ_at_def by (metis last_in_set option.collapse)

lemma head_in: "buffers_ok Q cs \<Longrightarrow> head Q \<in> set cs \<and> circs Q (head Q) = Some (circ_at Q (head Q))"
  unfolding buffers_ok_def circ_at_def by (metis hd_in_set option.collapse)

lemma head_not_tl: "buffers_ok Q cs \<Longrightarrow> head Q \<notin> set (tl cs)"
  unfolding buffers_ok_def by (metis distinct.simps(2) list.exhaust_sel)

text \<open>Changing a field that the shape does not depend on.\<close>

lemma shape_frame:
  assumes "buffers_ok Q cs" "slots_ok Q cs pl rest" "head Q' = head Q" "tail Q' = tail Q"
    and "\<forall>c \<in> set cs. circs Q' c \<noteq> None \<and> c_data (circ_at Q' c) = c_data (circ_at Q c) \<and>
           (c \<noteq> tail Q \<longrightarrow> c_next (circ_at Q' c) = c_next (circ_at Q c)) \<and>
           (c \<noteq> head Q \<longrightarrow> c_pull (circ_at Q' c) = c_pull (circ_at Q c))"
  shows "buffers_ok Q' cs \<and> slots_ok Q' cs pl rest"
proof
  have inner: "cs ! i \<noteq> tail Q" if "Suc i < length cs" for i
  proof -
    have "tail Q = cs ! (length cs - 1)" using assms(1) by (metis buffers_ok_def last_conv_nth)
    then show ?thesis using that assms(1) by (simp add: buffers_ok_def nth_eq_iff_index_eq)
  qed
  have "c_next (circ_at Q' (cs ! i)) = cs ! Suc i" if "Suc i < length cs" for i
  proof -
    have "cs ! i \<in> set cs" using that by simp
    then show ?thesis using assms inner [OF that] that by (simp add: buffers_ok_def)
  qed
  moreover have "c_pull (circ_at Q' c) = 0" if "c \<in> set (tl cs)" for c
  proof -
    have "c \<noteq> head Q" "c \<in> set cs" using that assms(1) head_not_tl [of Q cs] by (auto dest: list.set_sel(2) simp: buffers_ok_def)
    then show ?thesis using assms that by (simp add: buffers_ok_def)
  qed
  ultimately show "buffers_ok Q' cs" using assms by (simp add: buffers_ok_def)
  have "slots Q' cs = slots Q cs" using assms(5) by (intro slots_cong) simp
  then show "slots_ok Q' cs pl rest" using assms(2) by (simp add: slots_ok_def)
qed

lemma add_replicate_nth:
  assumes "pl + length rest < n"
  shows "(replicate pl x @ rest @ replicate (n - (pl + length rest)) x)[pl + length rest := v] =
         replicate pl x @ (rest @ [v]) @ replicate (n - (pl + length (rest @ [v]))) x"
proof -
  obtain k where "n - (pl + length rest) = Suc k" using assms by (metis Suc_diff_Suc)
  then show ?thesis by (simp add: list_update_append)
qed

lemma store_slots:
  assumes ok: "buffers_ok Q cs" "slots_ok Q cs pl rest" and w: "w = pl + length rest" "w < length cs * PCQueueSize" and d: "d \<noteq> NULL"
    and cq: "cq = circ_at Q (cs ! (w div PCQueueSize))"
  shows "slots_ok (set_circ (cs ! (w div PCQueueSize)) (cq\<lparr>c_data := (c_data cq)[w mod PCQueueSize := d]\<rparr>) Q) cs pl (rest @ [d])"
proof -
  have i: "w div PCQueueSize < length cs" using w(2) by (simp add: div_less_iff_less_mult)
  have "slots (set_circ (cs ! (w div PCQueueSize)) (cq\<lparr>c_data := (c_data cq)[w mod PCQueueSize := d]\<rparr>) Q) cs = (slots Q cs)[w := d]"
    using slots_update [OF ok(1) i _ cq, of "w mod PCQueueSize" d] by simp
  then show ?thesis using ok(2) w d add_replicate_nth [of pl rest "length cs * PCQueueSize" NULL d]
    by (simp add: slots_ok_def)
qed

lemma clear_slots:
  assumes ok: "buffers_ok Q cs" "slots_ok Q cs pl (d # rest)" and pl: "pl < PCQueueSize" and cq: "cq = circ_at Q (head Q)"
  shows "slots_ok (set_circ (head Q) (cq\<lparr>c_data := (c_data cq)[pl := NULL]\<rparr>) Q) cs (Suc pl) rest"
proof -
  have h: "head Q = cs ! 0" "0 < length cs" using ok(1) by (auto simp: buffers_ok_def hd_conv_nth)
  have "slots (set_circ (head Q) (cq\<lparr>c_data := (c_data cq)[pl := NULL]\<rparr>) Q) cs = (slots Q cs)[pl := NULL]"
    using slots_update [OF ok(1) h(2) pl, of cq NULL] cq h(1) by simp
  also have "\<dots> = replicate (Suc pl) NULL @ rest @ replicate (length cs * PCQueueSize - (Suc pl + length rest)) NULL"
    using ok(2) by (simp add: slots_ok_def list_update_append replicate_app_Cons_same)
  finally show ?thesis using ok(2) by (simp add: slots_ok_def)
qed

lemma append_circ:
  assumes ok: "buffers_ok Q cs" "slots_ok Q cs pl rest" and a: "a \<notin> set cs" "a \<noteq> NULL" "circs Q a = Some new_circ"
    and nxt: "c_next (circ_at Q (tail Q)) = a"
  shows "buffers_ok (Q\<lparr>tail := a\<rparr>) (cs @ [a]) \<and> slots_ok (Q\<lparr>tail := a\<rparr>) (cs @ [a]) pl rest"
proof
  have new: "circ_at Q a = new_circ" using a(3) by (simp add: circ_at_def)
  have tl: "tail Q = cs ! (length cs - 1)" using ok(1) by (metis buffers_ok_def last_conv_nth)
  have "c_next (circ_at Q ((cs @ [a]) ! i)) = (cs @ [a]) ! Suc i" if "Suc i < length (cs @ [a])" for i
  proof (cases "Suc i < length cs")
    case True
    then show ?thesis using ok(1) by (simp add: buffers_ok_def nth_append)
  next
    case False
    then have i: "Suc i = length cs" using that ok(1) by (auto simp: buffers_ok_def)
    then have "length cs - 1 = i" "i < length cs" by auto
    then have "(cs @ [a]) ! i = tail Q" "(cs @ [a]) ! Suc i = a" using tl i by (auto simp: nth_append)
    then show ?thesis using nxt by simp
  qed
  then show "buffers_ok (Q\<lparr>tail := a\<rparr>) (cs @ [a])"
    using ok(1) a new by (auto simp: buffers_ok_def new_circ_def)
  have "slots (Q\<lparr>tail := a\<rparr>) (cs @ [a]) = slots Q cs @ replicate PCQueueSize NULL"
    by (simp add: slots_def new new_circ_def)
  moreover have "replicate (length (cs @ [a]) * PCQueueSize - (pl + length rest)) NULL =
      replicate (length cs * PCQueueSize - (pl + length rest)) NULL @ replicate PCQueueSize NULL"
    using ok(2) unfolding slots_ok_def by (subst replicate_add [symmetric]) (simp add: add.commute)
  ultimately show "slots_ok (Q\<lparr>tail := a\<rparr>) (cs @ [a]) pl rest" using ok(2) unfolding slots_ok_def by simp
qed

lemma drop_circ:
  assumes ok: "buffers_ok Q (c # cs)" "slots_ok Q (c # cs) PCQueueSize rest" and cs: "cs \<noteq> []"
  shows "buffers_ok (Q\<lparr>head := hd cs\<rparr>) cs \<and> slots_ok (Q\<lparr>head := hd cs\<rparr>) cs 0 rest"
proof
  have "c_next (circ_at Q (cs ! i)) = cs ! Suc i" if "Suc i < length cs" for i
    using ok(1) that by (auto simp: buffers_ok_def dest!: spec [of _ "Suc i"])
  then show "buffers_ok (Q\<lparr>head := hd cs\<rparr>) cs" using ok(1) cs by (cases cs) (auto simp: buffers_ok_def)
  have "slots Q (c # cs) = c_data (circ_at Q c) @ slots Q cs" by (simp add: slots_def)
  moreover have "length (c_data (circ_at Q c)) = PCQueueSize" using ok(1) by (auto simp: buffers_ok_def)
  ultimately have "slots Q cs = drop PCQueueSize (slots Q (c # cs))" by simp
  then have "slots Q cs = rest @ replicate (length cs * PCQueueSize - length rest) NULL" using ok(2) by (simp add: slots_ok_def)
  moreover have "slots (Q\<lparr>head := hd cs\<rparr>) cs = slots Q cs" by (simp add: slots_def)
  ultimately show "slots_ok (Q\<lparr>head := hd cs\<rparr>) cs 0 rest" using ok(2) by (simp add: slots_ok_def)
qed

lemma shape_update [simp]:
  "buffers_ok (Q\<lparr>prod := p\<rparr>) cs = buffers_ok Q cs" "buffers_ok (Q\<lparr>cons := q\<rparr>) cs = buffers_ok Q cs" "buffers_ok (Q\<lparr>len := n\<rparr>) cs = buffers_ok Q cs"
  "slots_ok (Q\<lparr>prod := p\<rparr>) cs pl rest = slots_ok Q cs pl rest" "slots_ok (Q\<lparr>cons := q\<rparr>) cs pl rest = slots_ok Q cs pl rest"
  "slots_ok (Q\<lparr>len := n\<rparr>) cs pl rest = slots_ok Q cs pl rest"
  by (simp_all add: buffers_ok_def slots_ok_def slots_def)

lemma view_update [simp]:
  "aligned (Q\<lparr>prod := p\<rparr>) cs w = aligned Q cs w" "aligned (Q\<lparr>cons := q\<rparr>) cs w = aligned Q cs w" "aligned (Q\<lparr>len := n\<rparr>) cs w = aligned Q cs w"
  "growing (Q\<lparr>prod := p\<rparr>) cs w c n' = growing Q cs w c n'" "growing (Q\<lparr>cons := q\<rparr>) cs w c n' = growing Q cs w c n'"
  "growing (Q\<lparr>len := n\<rparr>) cs w c n' = growing Q cs w c n'"
  "pulling (Q\<lparr>prod := p\<rparr>) pl = pulling Q pl" "pulling (Q\<lparr>cons := q\<rparr>) pl = pulling Q pl" "pulling (Q\<lparr>len := n\<rparr>) pl = pulling Q pl"
  by (simp_all add: aligned_def growing_def pulling_def)

lemma growing_set [simp]: "growing (set_circ c cq Q) cs w c' n = growing Q cs w c' n"
  by (simp add: growing_def)

lemma consumer_ok_prod [simp]: "consumer_ok q (Q\<lparr>prod := p\<rparr>) cs pl rest = consumer_ok q Q cs pl rest"
  by (cases q) auto

lemma consumer_ok_len [simp]: "consumer_ok q (Q\<lparr>len := n\<rparr>) cs pl rest = consumer_ok q Q cs pl rest"
  by (cases q) auto

lemma producer_ok_len [simp]: "producer_ok p (Q\<lparr>len := n\<rparr>) cs w = producer_ok p Q cs w"
  by (cases p) (auto simp: retired_def)

lemma producer_ok_cons:
  "producer_ok p Q cs w \<Longrightarrow> (\<forall>c d. q = CFree c d \<longrightarrow> retired Q c) \<Longrightarrow> producer_ok p (Q\<lparr>cons := q\<rparr>) cs w"
  by (cases p) (auto simp: retired_def)

lemma consumer_ok_frame:
  assumes "consumer_ok q Q cs pl rest" "head Q' = head Q" "c_pull (circ_at Q' (head Q)) = c_pull (circ_at Q (head Q))"
    and "rest \<noteq> [] \<Longrightarrow> rest' \<noteq> [] \<and> hd rest' = hd rest"
    and "\<And>c d. q = CFree c d \<Longrightarrow> c \<notin> set cs' \<and> circs Q' c \<noteq> None"
  shows "consumer_ok q Q' cs' pl rest'"
  using assms by (cases q) (auto simp: pulling_def)

lemma with_circ_Some [simp]: "circs Q c = Some cq \<Longrightarrow> with_circ Q c f = f cq"
  by (simp add: with_circ_def)

lemma pcq_inv_bump_push:
  assumes inv: "pcq_inv Q cs pl rest pushed popped" and pc: "prod Q = PBump d circ1 push"
  shows "\<exists>Q'. PCQueuePush_step data a Q = Some Q' \<and> pcq_inv Q' cs pl rest pushed popped"
proof -
  note inv' = inv [unfolded pcq_inv_def pc producer_ok.simps]
  have ok: "buffers_ok Q cs" "slots_ok Q cs pl rest" using inv' by simp_all
  note tl = tail_in [OF ok(1)]
  let ?cq = "circ_at Q circ1"
  let ?R = "set_circ circ1 (?cq\<lparr>c_push := push + 1\<rparr>) Q"
  let ?Q = "?R\<lparr>prod := (if push = PCQueueSize - 1 then PFull d circ1 push else PStore d circ1 push)\<rparr>"
  have circ1: "circ1 = tail Q" "push = c_push (circ_at Q (tail Q))" "aligned Q cs (pl + length rest)" "d \<noteq> NULL" using inv' by simp_all
  have w: "pl + length rest = (length cs - 1) * PCQueueSize + push" "push < PCQueueSize" using circ1 by (auto simp: aligned_def)
  have len_cs: "0 < length cs" using ok(1) by (simp add: buffers_ok_def)
  have "PCQueuePush_step data a Q = Some ?Q" using pc circ1 tl by (simp add: PCQueuePush_step_def)
  moreover have shape: "buffers_ok ?R cs \<and> slots_ok ?R cs pl rest" by (rule shape_frame [OF ok]) (use ok(1) circ1 in \<open>auto simp: buffers_ok_def\<close>)
  moreover have "consumer_ok (cons Q) ?R cs pl rest"
  proof (rule consumer_ok_frame)
    show "consumer_ok (cons Q) Q cs pl rest" using inv' by simp
    show "c \<notin> set cs \<and> circs ?R c \<noteq> None" if "cons Q = CFree c e" for c e using inv' that by auto
  qed auto
  moreover have "producer_ok (prod ?Q) ?Q cs (pl + length rest)"
  proof (cases "push = PCQueueSize - 1")
    case True
    then have "growing Q cs (pl + length rest) circ1 push" unfolding growing_def using circ1(1) w(1) by blast
    then show ?thesis using circ1(4) True by simp
  next
    case False
    have "(pl + length rest) div PCQueueSize = length cs - 1" "(pl + length rest) mod PCQueueSize = push" using w by auto
    moreover have "pl + length rest < length cs * PCQueueSize"
      using w len_cs by (cases "length cs") (auto simp: algebra_simps)
    moreover have "tail Q = cs ! (length cs - 1)" using ok(1) by (metis buffers_ok_def last_conv_nth)
    moreover have "aligned ?R cs (pl + length rest + 1)" using w False circ1 by (auto simp: aligned_def)
    ultimately show ?thesis using False circ1 by simp
  qed
  ultimately show ?thesis using inv' pc by (intro exI [of _ ?Q]) (simp add: pcq_inv_def uncounted_def)
qed

lemma pcq_inv_full:
  assumes inv: "pcq_inv Q cs pl rest pushed popped" and pc: "prod Q = PFull d circ1 push" and a: "a \<noteq> NULL" "circs Q a = None"
  shows "\<exists>Q'. PCQueuePush_step data a Q = Some Q' \<and> pcq_inv Q' cs pl rest pushed popped"
proof -
  note inv' = inv [unfolded pcq_inv_def pc producer_ok.simps]
  have ok: "buffers_ok Q cs" "slots_ok Q cs pl rest" using inv' by simp_all
  let ?R = "set_circ a new_circ Q"
  have out: "a \<notin> set cs" using ok(1) a by (auto simp: buffers_ok_def)
  then have ne: "c \<noteq> a" if "c \<in> set cs" for c using that by auto
  have shape: "buffers_ok ?R cs \<and> slots_ok ?R cs pl rest"
    by (rule shape_frame [OF ok]) (use ok(1) ne in \<open>auto simp: buffers_ok_def\<close>)
  have hd: "head Q \<noteq> a" using head_in [OF ok(1)] ne by simp
  have free: "c \<notin> set cs \<and> circs Q c \<noteq> None" if "cons Q = CFree c e" for c e using inv' that by auto
  have cons: "consumer_ok (cons Q) ?R cs pl rest"
    by (rule consumer_ok_frame [where Q = Q and cs = cs and rest = rest]) (use inv' hd free in auto)
  have "\<not> retired Q a" using free a(2) by (auto simp: retired_def)
  then have "producer_ok (PLink d circ1 push a) (?R\<lparr>prod := PLink d circ1 push a\<rparr>) cs (pl + length rest)"
    using inv' out a by (simp add: growing_def retired_def)
  then show ?thesis using inv' pc shape cons
    by (intro exI [of _ "?R\<lparr>prod := PLink d circ1 push a\<rparr>"]) (simp add: pcq_inv_def uncounted_def PCQueuePush_step_def)
qed

lemma pcq_inv_link:
  assumes inv: "pcq_inv Q cs pl rest pushed popped" and pc: "prod Q = PLink d circ1 push circ"
  shows "\<exists>Q'. PCQueuePush_step data a Q = Some Q' \<and> pcq_inv Q' cs pl rest pushed popped"
proof -
  note inv' = inv [unfolded pcq_inv_def pc producer_ok.simps]
  have ok: "buffers_ok Q cs" "slots_ok Q cs pl rest" using inv' by simp_all
  note tl = tail_in [OF ok(1)]
  let ?R = "set_circ (tail Q) ((circ_at Q (tail Q))\<lparr>c_next := circ\<rparr>) Q"
  have shape: "buffers_ok ?R cs \<and> slots_ok ?R cs pl rest"
    by (rule shape_frame [OF ok]) (use ok(1) in \<open>auto simp: buffers_ok_def\<close>)
  have free: "c \<notin> set cs \<and> circs Q c \<noteq> None" if "cons Q = CFree c e" for c e using inv' that by auto
  have cons: "consumer_ok (cons Q) ?R cs pl rest"
    by (rule consumer_ok_frame [where Q = Q and cs = cs and rest = rest]) (use inv' free in auto)
  have "circ \<noteq> tail Q" using inv' tl by auto
  then have "producer_ok (PMove d circ1 push circ) (?R\<lparr>prod := PMove d circ1 push circ\<rparr>) cs (pl + length rest)"
    using inv' by (simp add: growing_def retired_def)
  then show ?thesis using inv' pc shape cons tl
    by (intro exI [of _ "?R\<lparr>prod := PMove d circ1 push circ\<rparr>"]) (simp add: pcq_inv_def uncounted_def PCQueuePush_step_def)
qed

lemma pcq_inv_move:
  assumes inv: "pcq_inv Q cs pl rest pushed popped" and pc: "prod Q = PMove d circ1 push circ"
  shows "\<exists>Q'. PCQueuePush_step data a Q = Some Q' \<and> pcq_inv Q' (cs @ [circ]) pl rest pushed popped"
proof -
  note inv' = inv [unfolded pcq_inv_def pc producer_ok.simps]
  have ok: "buffers_ok Q cs" "slots_ok Q cs pl rest" using inv' by simp_all
  let ?R = "Q\<lparr>tail := circ\<rparr>"
  have shape: "buffers_ok ?R (cs @ [circ]) \<and> slots_ok ?R (cs @ [circ]) pl rest"
    by (rule append_circ [OF ok]) (use inv' in auto)
  have cons: "consumer_ok (cons Q) ?R (cs @ [circ]) pl rest"
  proof (rule consumer_ok_frame)
    show "consumer_ok (cons Q) Q cs pl rest" using inv' by blast
    show "c \<notin> set (cs @ [circ]) \<and> circs ?R c \<noteq> None" if "cons Q = CFree c e" for c e using inv' that by (auto simp: retired_def)
  qed simp_all
  let ?w = "pl + length rest"
  have len_cs: "0 < length cs" using ok(1) by (simp add: buffers_ok_def)
  have w: "?w = (length cs - 1) * PCQueueSize + push" "push = PCQueueSize - 1" "circ1 = tail Q" using inv' by (auto simp: growing_def)
  have "?w div PCQueueSize = length cs - 1" "?w mod PCQueueSize = push" using w by auto
  moreover have "?w < length (cs @ [circ]) * PCQueueSize" using w len_cs by (cases "length cs") (auto simp: PCQueueSize_def)
  moreover have "circ1 = (cs @ [circ]) ! (length cs - 1)" 
  proof -
    have "tail Q = cs ! (length cs - 1)" using ok(1) by (metis buffers_ok_def last_conv_nth)
    then show ?thesis using w(3) len_cs by (simp add: nth_append)
  qed
  moreover have "circ_at Q circ = new_circ" using inv' by (simp add: circ_at_def)
  then have "aligned ?R (cs @ [circ]) (?w + 1)" using w len_cs by (cases "length cs") (auto simp: aligned_def new_circ_def algebra_simps)
  ultimately have "producer_ok (PStore d circ1 push) (?R\<lparr>prod := PStore d circ1 push\<rparr>) (cs @ [circ]) ?w" using inv' by simp
  then show ?thesis using inv' pc shape cons
    by (intro exI [of _ "?R\<lparr>prod := PStore d circ1 push\<rparr>"]) (simp add: pcq_inv_def uncounted_def PCQueuePush_step_def)
qed

lemma pcq_inv_store:
  assumes inv: "pcq_inv Q cs pl rest pushed popped" and pc: "prod Q = PStore d circ1 push"
  shows "\<exists>Q'. PCQueuePush_step data a Q = Some Q' \<and> pcq_inv Q' cs pl (rest @ [d]) (pushed @ [d]) popped"
proof -
  note inv' = inv [unfolded pcq_inv_def pc producer_ok.simps]
  have ok: "buffers_ok Q cs" "slots_ok Q cs pl rest" using inv' by simp_all
  let ?w = "pl + length rest"
  have w: "?w < length cs * PCQueueSize" "circ1 = cs ! (?w div PCQueueSize)" "push = ?w mod PCQueueSize" "d \<noteq> NULL" using inv' by simp_all
  let ?cq = "circ_at Q circ1"
  let ?R = "set_circ circ1 (?cq\<lparr>c_data := (c_data ?cq)[push := d]\<rparr>) Q"
  have "circ1 \<in> set cs" using w(1,2) by (simp add: div_less_iff_less_mult)
  then have circ1: "circs Q circ1 = Some ?cq" "length (c_data ?cq) = PCQueueSize" using ok(1) by (auto simp: buffers_ok_def circ_at_def)
  have "slots_ok ?R cs pl (rest @ [d])" using store_slots [OF ok refl w(1,4) refl] w by simp
  moreover have "buffers_ok ?R cs" using ok(1) circ1(2) by (auto simp: buffers_ok_def)
  moreover have "consumer_ok (cons Q) ?R cs pl (rest @ [d])"
  proof (rule consumer_ok_frame)
    show "consumer_ok (cons Q) Q cs pl rest" using inv' by blast
    show "c \<notin> set cs \<and> circs ?R c \<noteq> None" if "cons Q = CFree c e" for c e using inv' that by auto
  qed simp_all
  moreover have "aligned ?R cs (pl + length (rest @ [d]))" using inv' by (auto simp: aligned_def)
  ultimately show ?thesis using inv' pc circ1
    by (intro exI [of _ "?R\<lparr>prod := PCount\<rparr>"]) (simp add: pcq_inv_def uncounted_def PCQueuePush_step_def)
qed

lemma pcq_inv_push:
  assumes inv: "pcq_inv Q cs pl rest pushed popped" and new: "data \<noteq> NULL" "a \<noteq> NULL" "circs Q a = None"
  shows "\<exists>Q' cs' rest'. PCQueuePush_step data a Q = Some Q' \<and>
    pcq_inv Q' cs' pl rest' (pushed @ (case prod Q of PStore d c p \<Rightarrow> [d] | _ \<Rightarrow> [])) popped"
proof -
  note inv' = inv [unfolded pcq_inv_def]
  have ok: "buffers_ok Q cs" using inv' by simp
  have same: ?thesis if "PCQueuePush_step data a Q = Some Q'" "\<forall>d c p. prod Q \<noteq> PStore d c p" "pcq_inv Q' cs pl rest pushed popped" for Q'
    using that by (auto split: producer.splits)
  show ?thesis
  proof (cases "prod Q")
    case PIdle
    then show ?thesis using inv' new by (intro same [of "Q\<lparr>prod := PTail data\<rparr>"]) (simp_all add: PCQueuePush_step_def pcq_inv_def uncounted_def)
  next
    case (PTail d)
    then show ?thesis using inv' by (intro same [of "Q\<lparr>prod := PRead d (tail Q)\<rparr>"]) (simp_all add: PCQueuePush_step_def pcq_inv_def uncounted_def)
  next
    case (PRead d circ1)
    then show ?thesis using inv' tail_in [OF ok]
      by (intro same [of "Q\<lparr>prod := PBump d circ1 (c_push (circ_at Q circ1))\<rparr>"]) (auto simp: PCQueuePush_step_def pcq_inv_def uncounted_def)
  next
    case (PBump d circ1 push)
    from pcq_inv_bump_push [OF inv this, of data a] show ?thesis by (simp add: PBump) blast
  next
    case (PFull d circ1 push)
    from pcq_inv_full [OF inv this new(2,3), of data] show ?thesis by (simp add: PFull) blast
  next
    case (PLink d circ1 push circ)
    from pcq_inv_link [OF inv this, of data a] show ?thesis by (simp add: PLink) blast
  next
    case (PMove d circ1 push circ)
    from pcq_inv_move [OF inv this, of data a] show ?thesis by (simp add: PMove) blast
  next
    case (PStore d circ1 push)
    from pcq_inv_store [OF inv this, of data a] show ?thesis by (simp add: PStore) blast
  next
    case PCount
    then show ?thesis using inv' by (intro same [of "Q\<lparr>len := len Q + 1, prod := PUnlock\<rparr>"]) (simp_all add: PCQueuePush_step_def pcq_inv_def uncounted_def)
  next
    case PUnlock
    then show ?thesis using inv' by (intro same [of "Q\<lparr>prod := PIdle\<rparr>"]) (simp_all add: PCQueuePush_step_def pcq_inv_def uncounted_def)
  qed
qed

section \<open>Steps of the consumer\<close>

lemma producer_ok_frame:
  assumes "producer_ok p Q cs w" "tail Q' = tail Q" "c_push (circ_at Q' (tail Q)) = c_push (circ_at Q (tail Q))"
    "c_next (circ_at Q' (tail Q)) = c_next (circ_at Q (tail Q))"
    and "\<And>c. c \<notin> set cs \<Longrightarrow> circs Q c = Some new_circ \<Longrightarrow> \<not> retired Q c \<Longrightarrow> circs Q' c = Some new_circ \<and> \<not> retired Q' c"
  shows "producer_ok p Q' cs w"
  using assms by (cases p) (auto simp: aligned_def growing_def)

lemma pcq_slots_first:
  assumes "buffers_ok Q cs" "slots_ok Q cs pl rest" "pl < PCQueueSize"
  shows "c_data (circ_at Q (head Q)) ! pl = (case rest of [] \<Rightarrow> NULL | d # _ \<Rightarrow> d)"
proof -
  have h: "head Q = cs ! 0" "0 < length cs" using assms(1) by (auto simp: buffers_ok_def hd_conv_nth)
  then have "PCQueueSize \<le> length cs * PCQueueSize" by (cases "length cs") simp_all
  then have "pl < length cs * PCQueueSize" using assms(3) by linarith
  then have "slots Q cs ! pl = (case rest of [] \<Rightarrow> NULL | d # _ \<Rightarrow> d)"
    using assms(2,3) by (auto simp: slots_ok_def nth_append split: list.splits)
  then show ?thesis using slots_nth [OF assms(1) h(2) assms(3)] h(1) by simp
qed

lemma pcq_inv_read_data:
  assumes inv: "pcq_inv Q cs pl rest pushed popped" and pc: "cons Q = CData circ pull"
  shows "\<exists>Q'. PCQueuePop_step Q = Some Q' \<and> pcq_inv Q' cs pl rest pushed popped \<and> (cons Q' = CIdle \<longleftrightarrow> rest = [])"
proof -
  note inv' = inv [unfolded pcq_inv_def pc consumer_ok.simps]
  have ok: "buffers_ok Q cs" "slots_ok Q cs pl rest" using inv' by simp_all
  have pl: "pl < PCQueueSize" "circ = head Q" "pull = pl" "pulling Q pl" using inv' by (auto simp: pulling_def)
  note first = pcq_slots_first [OF ok pl(1)]
  let ?d = "c_data (circ_at Q circ) ! pull"
  let ?Q = "Q\<lparr>cons := (if ?d \<noteq> NULL then CBump circ pull ?d else CIdle)\<rparr>"
  have "?d = NULL \<longleftrightarrow> rest = []" using first pl ok(2) by (auto simp: slots_ok_def split: list.splits)
  moreover have "rest \<noteq> [] \<longrightarrow> hd rest = ?d" using first pl by (auto split: list.splits)
  moreover have "producer_ok (prod Q) ?Q cs (pl + length rest)" using inv' by (intro producer_ok_cons) auto
  ultimately have "pcq_inv ?Q cs pl rest pushed popped" using inv' pl pc by (simp add: pcq_inv_def)
  moreover have "PCQueuePop_step Q = Some ?Q" using pc pl head_in [OF ok(1)] by (simp add: PCQueuePop_step_def Let_def)
  ultimately show ?thesis using \<open>?d = NULL \<longleftrightarrow> rest = []\<close> by auto
qed

lemma pcq_inv_bump_pull:
  assumes inv: "pcq_inv Q cs pl rest pushed popped" and pc: "cons Q = CBump circ pull d"
  shows "\<exists>Q'. PCQueuePop_step Q = Some Q' \<and> pcq_inv Q' cs pl rest pushed popped"
proof -
  note inv' = inv [unfolded pcq_inv_def pc consumer_ok.simps]
  have ok: "buffers_ok Q cs" "slots_ok Q cs pl rest" using inv' by simp_all
  note hd = head_in [OF ok(1)]
  have pl: "circ = head Q" "pull = pl" using inv' by simp_all
  let ?R = "set_circ circ ((circ_at Q circ)\<lparr>c_pull := pull + 1\<rparr>) Q"
  let ?Q = "?R\<lparr>cons := CClear circ pull d\<rparr>"
  have shape: "buffers_ok ?R cs \<and> slots_ok ?R cs pl rest"
    by (rule shape_frame [OF ok]) (use ok(1) pl in \<open>auto simp: buffers_ok_def\<close>)
  have "producer_ok (prod Q) ?Q cs (pl + length rest)"
  proof (rule producer_ok_frame)
    show "producer_ok (prod Q) Q cs (pl + length rest)" using inv' by blast
    show "circs ?Q c = Some new_circ \<and> \<not> retired ?Q c" if "c \<notin> set cs" "circs Q c = Some new_circ" for c
      using that hd pl by (auto simp: retired_def)
  qed simp_all
  then have "pcq_inv ?Q cs pl rest pushed popped" using inv' shape pc by (simp add: pcq_inv_def pulling_def)
  moreover have "PCQueuePop_step Q = Some ?Q" using pc pl hd by (simp add: PCQueuePop_step_def)
  ultimately show ?thesis by blast
qed

lemma pcq_inv_clear:
  assumes inv: "pcq_inv Q cs pl rest pushed popped" and pc: "cons Q = CClear circ pull d"
  shows "\<exists>Q'. PCQueuePop_step Q = Some Q' \<and> pcq_inv Q' cs (Suc pl) (tl rest) pushed popped"
proof -
  note inv' = inv [unfolded pcq_inv_def pc consumer_ok.simps]
  have ok: "buffers_ok Q cs" "slots_ok Q cs pl rest" using inv' by simp_all
  note hd = head_in [OF ok(1)]
  have pl: "circ = head Q" "pull = pl" "pl < PCQueueSize" "c_pull (circ_at Q (head Q)) = Suc pl" using inv' by simp_all
  obtain rest' where rest: "rest = d # rest'" using inv' by (cases rest) auto
  let ?cq = "circ_at Q circ"
  let ?R = "set_circ circ (?cq\<lparr>c_data := (c_data ?cq)[pull := NULL]\<rparr>) Q"
  let ?c = "if pull = PCQueueSize - 1 then CNext circ d else CCount d"
  let ?Q = "?R\<lparr>cons := ?c\<rparr>"
  have "slots_ok ?R cs (Suc pl) rest'" using clear_slots [OF ok(1) ok(2) [unfolded rest] pl(3) refl] pl by simp
  moreover have "buffers_ok ?R cs" using ok(1) pl by (auto simp: buffers_ok_def)
  moreover have "producer_ok (prod Q) ?Q cs (pl + length rest)"
  proof (rule producer_ok_frame)
    show "producer_ok (prod Q) Q cs (pl + length rest)" using inv' by blast
    show "circs ?Q c = Some new_circ \<and> \<not> retired ?Q c" if "c \<notin> set cs" "circs Q c = Some new_circ" for c
      using that hd pl by (auto simp: retired_def)
  qed simp_all
  moreover have "consumer_ok ?c ?Q cs (Suc pl) rest'" using pl by (auto simp: pulling_def)
  moreover have "taken ?c = [d]" by simp
  ultimately have "pcq_inv ?Q cs (Suc pl) rest' pushed popped" using inv' rest pc by (simp add: pcq_inv_def)
  moreover have "PCQueuePop_step Q = Some ?Q" using pc pl hd by (simp add: PCQueuePop_step_def)
  ultimately show ?thesis using rest by auto
qed

lemma pcq_inv_next:
  assumes inv: "pcq_inv Q cs pl rest pushed popped" and pc: "cons Q = CNext circ d"
  shows "\<exists>Q'. PCQueuePop_step Q = Some Q' \<and> pcq_inv Q' (tl cs) 0 rest pushed popped"
proof -
  note inv' = inv [unfolded pcq_inv_def pc consumer_ok.simps]
  have ok: "buffers_ok Q cs" "slots_ok Q cs PCQueueSize rest" and pl: "circ = head Q" "pl = PCQueueSize" using inv' by auto
  let ?w = "PCQueueSize + length rest"
  obtain cs' where cs: "cs = circ # cs'" using ok(1) pl(1) by (cases cs) (auto simp: buffers_ok_def)
  have prod: "producer_ok (prod Q) Q cs ?w" using inv' pl by simp
  have "cs' \<noteq> []"
  proof
    assume "cs' = []"
    then have "length cs = 1" using cs by simp
    then show False using prod by (cases "prod Q") (auto simp: aligned_def growing_def PCQueueSize_def)
  qed
  then obtain c2 cs2 where cs': "cs' = c2 # cs2" by (cases cs') auto
  have nxt: "c_next (circ_at Q circ) = c2" "c2 \<noteq> NULL" "circ \<notin> set cs'" "c_pull (circ_at Q c2) = 0"
    using ok(1) cs cs' by (auto simp: buffers_ok_def)
  let ?Q = "Q\<lparr>head := c2, cons := CFree circ d\<rparr>"
  have shape: "buffers_ok (Q\<lparr>head := c2\<rparr>) cs' \<and> slots_ok (Q\<lparr>head := c2\<rparr>) cs' 0 rest"
    using drop_circ [OF ok [unfolded cs] \<open>cs' \<noteq> []\<close>] cs' by simp
  have len: "length cs' = length cs - 1" "0 < length cs'" using cs cs' by simp_all
  have "?w div PCQueueSize = Suc (length rest div PCQueueSize)" "?w mod PCQueueSize = length rest mod PCQueueSize" by simp_all
  then have "producer_ok (prod Q) ?Q cs' (0 + length rest)"
    using prod len cs nxt(3) head_in [OF ok(1)] pl(1)
    by (cases "prod Q") (auto simp: aligned_def growing_def retired_def cs' PCQueueSize_def)
  moreover have "consumer_ok (cons ?Q) ?Q cs' 0 rest" using nxt head_in [OF ok(1)] pl(1) by (simp add: pulling_def)
  ultimately have "pcq_inv ?Q cs' 0 rest pushed popped" using inv' shape pc by (simp add: pcq_inv_def)
  moreover have "PCQueuePop_step Q = Some ?Q" using pc pl nxt head_in [OF ok(1)] by (simp add: PCQueuePop_step_def)
  ultimately show ?thesis using cs by auto
qed

lemma pcq_inv_free:
  assumes inv: "pcq_inv Q cs pl rest pushed popped" and pc: "cons Q = CFree circ d"
  shows "\<exists>Q'. PCQueuePop_step Q = Some Q' \<and> pcq_inv Q' cs pl rest pushed popped"
proof -
  note inv' = inv [unfolded pcq_inv_def pc consumer_ok.simps]
  have ok: "buffers_ok Q cs" "slots_ok Q cs pl rest" and out: "circ \<notin> set cs" "circs Q circ \<noteq> None" "pulling Q pl" using inv' by simp_all
  let ?R = "Q\<lparr>circs := (circs Q)(circ := None)\<rparr>"
  let ?Q = "?R\<lparr>cons := CCount d\<rparr>"
  have at: "circ_at ?R c = circ_at Q c" "circs ?R c = circs Q c" if "c \<in> set cs" for c using that out(1) by (auto simp: circ_at_def)
  note ht = at [OF conjunct1 [OF head_in [OF ok(1)]]] at [OF conjunct1 [OF tail_in [OF ok(1)]]]
  have shape: "buffers_ok ?R cs \<and> slots_ok ?R cs pl rest"
    by (rule shape_frame [OF ok]) (use ok(1) at in \<open>auto simp: buffers_ok_def\<close>)
  have "producer_ok (prod Q) ?Q cs (pl + length rest)"
  proof (rule producer_ok_frame)
    show "producer_ok (prod Q) Q cs (pl + length rest)" using inv' by blast
    show "circs ?Q c = Some new_circ \<and> \<not> retired ?Q c" if "\<not> retired Q c" "circs Q c = Some new_circ" for c
      using that pc by (auto simp: retired_def)
  qed (use ht in simp_all)
  moreover have "consumer_ok (CCount d) ?Q cs pl rest" using out(3) ht by (simp add: pulling_def)
  ultimately have "pcq_inv ?Q cs pl rest pushed popped" using inv' shape pc by (simp add: pcq_inv_def)
  moreover have "PCQueuePop_step Q = Some ?Q" using pc out(2) by (auto simp: PCQueuePop_step_def)
  ultimately show ?thesis by blast
qed

lemma pcq_inv_pop:
  assumes inv: "pcq_inv Q cs pl rest pushed popped"
  shows "\<exists>Q' cs' pl' rest'. PCQueuePop_step Q = Some Q' \<and>
    pcq_inv Q' cs' pl' rest' pushed (popped @ (case cons Q of CCount d \<Rightarrow> [d] | _ \<Rightarrow> []))"
proof -
  note inv' = inv [unfolded pcq_inv_def]
  have ok: "buffers_ok Q cs" using inv' by simp
  have prod: "producer_ok (prod Q) (Q\<lparr>cons := q\<rparr>) cs (pl + length rest)" if "\<forall>c d. q \<noteq> CFree c d" for q
    using inv' that by (intro producer_ok_cons) auto
  have same: ?thesis if "PCQueuePop_step Q = Some Q'" "\<forall>d. cons Q \<noteq> CCount d" "pcq_inv Q' cs pl rest pushed popped" for Q'
    using that by (auto split: consumer.splits)
  show ?thesis
  proof (cases "cons Q")
    case CIdle
    then show ?thesis using inv' prod by (intro same [of "Q\<lparr>cons := CHead\<rparr>"]) (simp_all add: PCQueuePop_step_def pcq_inv_def)
  next
    case CHead
    then show ?thesis using inv' prod by (intro same [of "Q\<lparr>cons := CPull (head Q)\<rparr>"]) (simp_all add: PCQueuePop_step_def pcq_inv_def)
  next
    case (CPull circ)
    then show ?thesis using inv' prod head_in [OF ok]
      by (intro same [of "Q\<lparr>cons := CData circ (c_pull (circ_at Q circ))\<rparr>"]) (auto simp: PCQueuePop_step_def pcq_inv_def pulling_def)
  next
    case (CData circ pull)
    from pcq_inv_read_data [OF inv this] show ?thesis by (simp add: CData) blast
  next
    case (CBump circ pull d)
    from pcq_inv_bump_pull [OF inv this] show ?thesis by (simp add: CBump) blast
  next
    case (CClear circ pull d)
    from pcq_inv_clear [OF inv this] show ?thesis by (simp add: CClear) blast
  next
    case (CNext circ d)
    from pcq_inv_next [OF inv this] show ?thesis by (simp add: CNext) blast
  next
    case (CFree circ d)
    from pcq_inv_free [OF inv this] show ?thesis by (simp add: CFree) blast
  next
    case (CCount d)
    have "producer_ok (prod Q) (Q\<lparr>len := len Q - 1, cons := CIdle\<rparr>) cs (pl + length rest)"
      using inv' by (intro producer_ok_cons) auto
    then have "pcq_inv (Q\<lparr>len := len Q - 1, cons := CIdle\<rparr>) cs pl rest pushed (popped @ [d])"
      using inv' CCount by (simp add: pcq_inv_def)
    then show ?thesis using CCount by (simp add: PCQueuePop_step_def) blast
  qed
qed

lemma pcq_run_inv: "pcq_run Q pushed popped \<Longrightarrow> \<exists>cs pl rest. pcq_inv Q cs pl rest pushed popped"
proof (induction rule: pcq_run.induct)
  case (create c)
  have "pcq_inv (PCQueueCreate c) [c] 0 [] [] []"
    using create by (simp add: pcq_inv_def buffers_ok_def slots_ok_def slots_def circ_at_def PCQueueCreate_def new_circ_def
      aligned_def pulling_def uncounted_def)
  then show ?case by blast
next
  case (push Q pushed popped data a Q')
  then show ?case using pcq_inv_push [where data = data and a = a and Q = Q] by (metis option.inject)
next
  case (pop Q pushed popped Q')
  then show ?case using pcq_inv_pop [where Q = Q] by (metis option.inject)
qed

section \<open>A push and the start of a pop\<close>

definition demo_circ :: CircQueue where
  "demo_circ = \<lparr>c_next = NULL, c_push = 1, c_pull = 0, c_data = (replicate PCQueueSize NULL)[0 := 7]\<rparr>"

definition demo_queue :: "consumer \<Rightarrow> pcqueue" where
  "demo_queue c = \<lparr>head = 1, tail = 1, len = 1, circs = [1 \<mapsto> demo_circ], prod = PIdle, cons = c\<rparr>"

lemma demo_push: "pcq_run (demo_queue CIdle) [7] []"
proof -
  have push: "pcq_run Q' (xs @ (case prod Q of PStore d c p \<Rightarrow> [d] | _ \<Rightarrow> [])) ys"
    if "pcq_run Q xs ys" "circs Q 2 = None" "PCQueuePush_step 7 2 Q = Some Q'" for Q Q' xs ys
    using pcq_run.push [OF that(1) _ _ that(2,3)] by simp
  let ?Q = "\<lambda>n cq p. \<lparr>head = 1, tail = 1, len = n, circs = [1 \<mapsto> cq], prod = p, cons = CIdle\<rparr>"
  note step = PCQueuePush_step_def with_circ_def set_circ_def new_circ_def PCQueueSize_def
  let ?c = "new_circ\<lparr>c_push := 1\<rparr>"
  have 0: "pcq_run (?Q 0 new_circ PIdle) [] []" using pcq_run.create [of 1] by (simp add: PCQueueCreate_def)
  have 1: "pcq_run (?Q 0 new_circ (PTail 7)) [] []" using push [OF 0] by (simp add: step)
  have 2: "pcq_run (?Q 0 new_circ (PRead 7 1)) [] []" using push [OF 1] by (simp add: step)
  have 3: "pcq_run (?Q 0 new_circ (PBump 7 1 0)) [] []" using push [OF 2] by (simp add: step)
  have 4: "pcq_run (?Q 0 ?c (PStore 7 1 0)) [] []" using push [OF 3] by (simp add: step)
  have 5: "pcq_run (?Q 0 demo_circ PCount) [7] []" using push [OF 4] by (simp add: step demo_circ_def)
  have 6: "pcq_run (?Q 1 demo_circ PUnlock) [7] []" using push [OF 5] by (simp add: step)
  show ?thesis using push [OF 6] by (simp add: step demo_queue_def)
qed

lemma demo_pop: "pcq_run (demo_queue (CData 1 0)) [7] []"
proof -
  note step = PCQueuePop_step_def with_circ_def demo_queue_def demo_circ_def
  have 1: "pcq_run (demo_queue CHead) [7] []" using pcq_run.pop [OF demo_push] by (simp add: step)
  have 2: "pcq_run (demo_queue (CPull 1)) [7] []" using pcq_run.pop [OF 1] by (simp add: step)
  show ?thesis using pcq_run.pop [OF 2] by (simp add: step)
qed

section \<open>Properties\<close>

text \<open>
  C30.  Under every interleaving of the producers and the consumer the queue is first-in first-out
  and loses and duplicates nothing: the data popped so far, the datum a pop in progress has taken
  and the data still stored are, in this order, the data pushed so far.  No step of either side
  touches a buffer that has been freed or fails the assertion of the pop, and a pop reports an
  empty queue only if at the moment it looked every datum pushed had been popped.
\<close>

theorem pcq_fifo:
  assumes "pcq_run Q pushed popped"
  shows "(\<exists>rest. pushed = popped @ taken (cons Q) @ rest) \<and>
    PCQueuePop_step Q \<noteq> None \<and>
    (\<forall>data a. data \<noteq> NULL \<and> a \<noteq> NULL \<and> circs Q a = None \<longrightarrow> PCQueuePush_step data a Q \<noteq> None) \<and>
    (\<forall>circ pull Q'. cons Q = CData circ pull \<and> PCQueuePop_step Q = Some Q' \<longrightarrow> (cons Q' = CIdle \<longleftrightarrow> popped = pushed))"
proof -
  obtain cs pl rest where inv: "pcq_inv Q cs pl rest pushed popped" using pcq_run_inv [OF assms] by blast
  have "cons Q' = CIdle \<longleftrightarrow> popped = pushed" if "cons Q = CData circ pull" "PCQueuePop_step Q = Some Q'" for circ pull Q'
    using pcq_inv_read_data [OF inv that(1)] that inv by (auto simp: pcq_inv_def)
  moreover have "\<exists>rest. pushed = popped @ taken (cons Q) @ rest" using inv by (auto simp: pcq_inv_def)
  ultimately show ?thesis using pcq_inv_pop [OF inv] pcq_inv_push [OF inv] by blast
qed

theorem pcq_fifo_witness: "PCQueuePop_step (demo_queue (CData 1 0)) \<noteq> None \<and> demo_queue (CData 1 0) \<noteq> PCQueueCreate 1"
  using pcq_fifo [OF demo_pop] by (simp add: demo_queue_def PCQueueCreate_def)

text \<open>
  The counter of the queue is exact whenever no push is between storing its datum and
  counting it: it is the number of data pushed whose pop has not returned.  In particular, when both
  sides are idle, the queue is reported empty exactly if everything pushed has been popped, and the
  top of the queue is the oldest datum not yet popped.  Destroying the idle queue is possible if all
  its data are in one buffer; otherwise it reads a buffer it has freed.
\<close>

theorem pcq_length:
  assumes "pcq_run Q pushed popped" "prod Q = PIdle" "cons Q = CIdle"
  shows "PCQueueLength Q = int (length pushed) - int (length popped) \<and>
    (PCQueueEmpty Q \<longleftrightarrow> popped = pushed) \<and>
    PCQueueTop Q = Some (if popped = pushed then NULL else pushed ! length popped) \<and>
    (PCQueueDestroy Q = None \<longleftrightarrow> head Q \<noteq> tail Q)"
proof -
  obtain cs pl rest where inv: "pcq_inv Q cs pl rest pushed popped" using pcq_run_inv [OF assms(1)] by blast
  note inv' = inv [unfolded pcq_inv_def assms(2,3) producer_ok.simps consumer_ok.simps]
  have ok: "buffers_ok Q cs" "slots_ok Q cs pl rest" "pulling Q pl" using inv' by simp_all
  have "c_data (circ_at Q (head Q)) ! pl = (case rest of [] \<Rightarrow> NULL | d # _ \<Rightarrow> d)"
    using ok by (intro pcq_slots_first) (auto simp: pulling_def)
  then have "PCQueueTop Q = Some (case rest of [] \<Rightarrow> NULL | d # _ \<Rightarrow> d)"
    using head_in [OF ok(1)] ok(3) by (simp add: PCQueueTop_def pulling_def)
  then show ?thesis using inv' by (auto simp: PCQueueLength_def PCQueueEmpty_def uncounted_def destroy_outcome split: list.splits)
qed

theorem pcq_length_witness: "PCQueueLength (demo_queue CIdle) = 1 \<and> PCQueueTop (demo_queue CIdle) = Some 7"
  using pcq_length [OF demo_push] by (simp add: demo_queue_def)

end
