(* ===== verification/CkQ.thy ===== *)
theory CkQ
  imports Prelude
begin

text \<open>
  The queue class \<^verbatim>\<open>CkQ\<close> of \<^verbatim>\<open>util/cklists.h\<close>, a circular buffer whose size is a power of two,
  and the \<^verbatim>\<open>CdsFifo\<close> routines of \<^verbatim>\<open>util/conv-lists.C\<close>, which are \<^verbatim>\<open>CkQ\<close> of pointers.
  \<open>block\<close> is the array (its length is \<^verbatim>\<open>blklen\<close>); cells that \<^verbatim>\<open>new T[n]\<close> leaves uninitialised hold 0.
  The locale \<open>fifo\<close> is the contract the clients rely on.
\<close>

section \<open>The class\<close>

record ckq =
  block :: "ptr list"
  first :: nat
  qlen :: nat
  qmask :: nat

definition blklen :: "ckq \<Rightarrow> nat" where "blklen q = length (block q)"

definition CkQ_new :: ckq where
  "CkQ_new = \<lparr>block = [], first = 0, qlen = 0, qmask = 0\<rparr>"

function size_loop :: "nat \<Rightarrow> nat \<Rightarrow> nat \<Rightarrow> nat \<times> nat" where
  "size_loop sz n m = (if 2 ^ n < sz then size_loop sz (n + 1) (m OR 2 ^ n) else (n, m))"
  by auto
termination
proof (relation "measure (\<lambda>(sz, n, m). sz - 2 ^ n)")
  fix sz n m :: nat
  assume "2 ^ n < sz"
  moreover from this have "sz - 2 * 2 ^ n < sz - 2 ^ n" by (intro diff_less_mono2) simp_all
  ultimately show "((sz, n + 1, m OR 2 ^ n), sz, n, m) \<in> measure (\<lambda>(sz, n, m). sz - 2 ^ n)" by simp
qed simp

declare size_loop.simps [simp del]

definition CkQ_new_size :: "nat \<Rightarrow> ckq" where
  "CkQ_new_size sz =
     (let (n, m) = size_loop sz 2 3 in \<lparr>block = replicate (2 ^ n) NULL, first = 0, qlen = 0, qmask = m\<rparr>)"

definition ckq_expand :: "ckq \<Rightarrow> ckq" where
  "ckq_expand q =
     (let newlen = (if blklen q = 0 then 16 else 2 * blklen q);
          m = (if blklen q = 0 then 0x0f else qmask q OR blklen q);
          copied = take (blklen q - first q) (drop (first q) (block q)) @ take (first q) (block q)
      in q\<lparr>block := copied @ replicate (newlen - length copied) NULL, first := 0, qmask := m\<rparr>)"

definition ckq_slot :: "ckq \<Rightarrow> nat \<Rightarrow> nat" where
  "ckq_slot q i = (i + first q) AND qmask q"

definition ckq_room :: "ckq \<Rightarrow> ckq" where
  "ckq_room q = (if qlen q = blklen q then ckq_expand q else q)"

definition ckq_deq :: "ckq \<Rightarrow> ptr \<times> ckq" where
  "ckq_deq q =
     (if 0 < qlen q
      then (block q ! first q, q\<lparr>first := (first q + 1) AND qmask q, qlen := qlen q - 1\<rparr>)
      else (NULL, q))"

definition ckq_enq :: "ptr \<Rightarrow> ckq \<Rightarrow> ckq" where
  "ckq_enq elt q =
     (let q' = ckq_room q
      in q'\<lparr>block := (block q')[(first q' + qlen q') AND qmask q' := elt], qlen := qlen q' + 1\<rparr>)"

definition ckq_push :: "ptr \<Rightarrow> ckq \<Rightarrow> ckq" where
  "ckq_push elt q =
     (let q' = ckq_room q;
          f = (first q' + blklen q' - 1) AND qmask q'
      in q'\<lparr>first := f, block := (block q')[f := elt], qlen := qlen q' + 1\<rparr>)"

definition ckq_peek :: "ckq \<Rightarrow> ptr" where
  "ckq_peek q = block q ! first q"

definition ckq_index :: "ckq \<Rightarrow> nat \<Rightarrow> ptr" where
  "ckq_index q n = block q ! ckq_slot q n"

text \<open>Growing in \<^verbatim>\<open>insert\<close>: the loop ends because each round at least doubles the buffer.\<close>

lemma ckq_expand_grows: "blklen q < blklen (ckq_expand q)"
  by (auto simp: ckq_expand_def blklen_def Let_def)

function insert_room :: "nat \<Rightarrow> ckq \<Rightarrow> ckq" where
  "insert_room pos q = (if qlen q = blklen q \<or> blklen q \<le> pos then insert_room pos (ckq_expand q) else q)"
  by auto
termination
proof (relation "measure (\<lambda>(pos, q). (pos + qlen q + 1) - blklen q)")
  fix pos q
  assume "qlen q = blklen q \<or> blklen q \<le> pos"
  moreover have "qlen (ckq_expand q) = qlen q" by (simp add: ckq_expand_def Let_def)
  ultimately show "((pos, ckq_expand q), pos, q) \<in> measure (\<lambda>(pos, q). (pos + qlen q + 1) - blklen q)"
    using ckq_expand_grows [of q] by auto
qed simp

declare insert_room.simps [simp del]

fun shift_up :: "nat \<Rightarrow> nat \<Rightarrow> ckq \<Rightarrow> ckq" where
  "shift_up pos 0 q = q"
| "shift_up pos (Suc i) q =
     (if pos < Suc i then shift_up pos i (q\<lparr>block := (block q)[ckq_slot q (Suc i) := block q ! ckq_slot q i]\<rparr>) else q)"

definition ckq_insert :: "nat \<Rightarrow> ptr \<Rightarrow> ckq \<Rightarrow> ckq" where
  "ckq_insert pos elt q =
     (let q1 = insert_room pos q;
          q2 = shift_up pos (qlen q1) q1
      in q2\<lparr>block := (block q2)[ckq_slot q2 pos := elt], qlen := (if qlen q2 < pos then pos + 1 else qlen q2 + 1)\<rparr>)"

function shift_down :: "nat \<Rightarrow> ckq \<Rightarrow> ckq" where
  "shift_down i q =
     (if i < qlen q - 1 then shift_down (i + 1) (q\<lparr>block := (block q)[ckq_slot q i := block q ! ckq_slot q (i + 1)]\<rparr>) else q)"
  by auto
termination by (relation "measure (\<lambda>(i, q). qlen q - i)") auto

declare shift_down.simps [simp del]

definition ckq_remove :: "nat \<Rightarrow> ckq \<Rightarrow> ptr \<times> ckq" where
  "ckq_remove pos q =
     (if qlen q \<le> pos then (NULL, q)
      else let ret = block q ! ckq_slot q pos;
               q' = shift_down pos q
           in (ret, q'\<lparr>qlen := qlen q' - 1\<rparr>))"

definition ckq_removeFrom :: "nat \<Rightarrow> ckq \<Rightarrow> ckq result" where
  "ckq_removeFrom pos q = rbind (CmiAssert (pos < qlen q) ''pos < len && pos>=0'') (\<lambda>_. Inr (q\<lparr>qlen := pos\<rparr>))"

fun array_loop :: "ckq \<Rightarrow> nat \<Rightarrow> nat \<Rightarrow> ptr list" where
  "array_loop q 0 j = []"
| "array_loop q (Suc n) j = block q ! j # array_loop q n ((j + 1) AND qmask q)"

definition ckq_getArray :: "ckq \<Rightarrow> ptr list" where
  "ckq_getArray q = array_loop q (qlen q) (first q)"

section \<open>The C interface\<close>

definition CdsFifo_Create :: ckq where "CdsFifo_Create = CkQ_new"
definition CdsFifo_Create_len :: "nat \<Rightarrow> ckq" where "CdsFifo_Create_len n = CkQ_new_size n"
definition CdsFifo_Enqueue :: "ckq \<Rightarrow> ptr \<Rightarrow> ckq" where "CdsFifo_Enqueue q elt = ckq_enq elt q"
definition CdsFifo_Dequeue :: "ckq \<Rightarrow> ptr \<times> ckq" where "CdsFifo_Dequeue q = ckq_deq q"
definition CdsFifo_Push :: "ckq \<Rightarrow> ptr \<Rightarrow> ckq" where "CdsFifo_Push q elt = ckq_push elt q"
definition CdsFifo_Pop :: "ckq \<Rightarrow> ptr \<times> ckq" where "CdsFifo_Pop q = ckq_deq q"
definition CdsFifo_Enumerate :: "ckq \<Rightarrow> ptr list" where "CdsFifo_Enumerate q = ckq_getArray q"
definition CdsFifo_Empty :: "ckq \<Rightarrow> bool" where "CdsFifo_Empty q \<longleftrightarrow> qlen q = 0"
definition CdsFifo_Peek :: "ckq \<Rightarrow> ptr" where "CdsFifo_Peek q = (if qlen q \<noteq> 0 then ckq_index q 0 else NULL)"
definition CdsFifo_Length :: "ckq \<Rightarrow> nat" where "CdsFifo_Length q = qlen q"

section \<open>Abstract value and invariant\<close>

definition ckq_ok :: "ckq \<Rightarrow> bool" where
  "ckq_ok q \<longleftrightarrow> qlen q \<le> blklen q \<and>
     (if blklen q = 0 then first q = 0 \<and> qmask q = 0
      else first q < blklen q \<and> (\<exists>k. blklen q = 2 ^ k) \<and> qmask q = blklen q - 1)"

lemma blklen_update [simp]:
  "blklen (q\<lparr>block := (block q)[s := v]\<rparr>) = blklen q" "blklen (q\<lparr>first := f\<rparr>) = blklen q" "blklen (q\<lparr>qlen := n\<rparr>) = blklen q"
  by (simp_all add: blklen_def)

text \<open>The cells of the buffer, starting from \<^verbatim>\<open>first\<close>; the first \<^verbatim>\<open>len\<close> of them are the elements.\<close>

definition ckq_cells :: "ckq \<Rightarrow> ptr list" where
  "ckq_cells q = rotate (first q) (block q)"

definition ckq_list :: "ckq \<Rightarrow> ptr list" where
  "ckq_list q = take (qlen q) (ckq_cells q)"

lemma and_mask: "i AND (2 ^ k - 1) = i mod (2 ^ k :: nat)"
  using take_bit_eq_mask [of k i] by (simp add: take_bit_eq_mod mask_eq_exp_minus_1)

lemma slot_mod: "ckq_ok q \<Longrightarrow> 0 < blklen q \<Longrightarrow> i AND qmask q = i mod blklen q"
  unfolding ckq_ok_def by (metis and_mask less_irrefl)

lemma length_cells [simp]: "length (ckq_cells q) = blklen q"
  by (simp add: ckq_cells_def blklen_def)

lemma length_ckq_list: "ckq_ok q \<Longrightarrow> length (ckq_list q) = qlen q"
  by (simp add: ckq_list_def ckq_ok_def)

lemma cells_nth: "i < blklen q \<Longrightarrow> ckq_cells q ! i = block q ! ((i + first q) mod blklen q)"
  by (simp add: ckq_cells_def blklen_def nth_rotate add.commute)

lemma cells_slot: "ckq_ok q \<Longrightarrow> i < blklen q \<Longrightarrow> block q ! ckq_slot q i = ckq_cells q ! i"
  by (simp add: ckq_slot_def slot_mod cells_nth)

lemma slot_inj:
  assumes "i < n" "j < n" "(i + f) mod n = (j + f) mod (n::nat)"
  shows "i = j"
proof -
  have "(int i + int f) mod int n = (int j + int f) mod int n" using assms(3) by (metis of_nat_add zmod_int)
  then have "int i mod int n = int j mod int n" by (metis mod_add_cong add_diff_cancel_right' mod_diff_left_eq)
  then show ?thesis using assms by simp
qed

lemma cells_update:
  assumes "ckq_ok q" "i < blklen q"
  shows "ckq_cells (q\<lparr>block := (block q)[ckq_slot q i := v]\<rparr>) = (ckq_cells q)[i := v]"
proof (rule nth_equalityI)
  fix j assume "j < length (ckq_cells (q\<lparr>block := (block q)[ckq_slot q i := v]\<rparr>))"
  then have j: "j < blklen q" by (simp add: blklen_def)
  have s: "ckq_slot q i = (i + first q) mod blklen q" using assms by (simp add: ckq_slot_def slot_mod)
  have "ckq_cells (q\<lparr>block := (block q)[ckq_slot q i := v]\<rparr>) ! j = ((block q)[ckq_slot q i := v]) ! ((j + first q) mod blklen q)"
    using j cells_nth [of j "q\<lparr>block := (block q)[ckq_slot q i := v]\<rparr>"] by (simp add: blklen_def)
  also have "\<dots> = (if j = i then v else ckq_cells q ! j)"
  proof (cases "j = i")
    case True
    have "(i + first q) mod blklen q < length (block q)" using assms(2) unfolding blklen_def by (intro mod_less_divisor) linarith
    then show ?thesis using True by (simp add: s)
  next
    case False
    then have "(i + first q) mod blklen q \<noteq> (j + first q) mod blklen q" using slot_inj [OF assms(2) j] by metis
    then show ?thesis using False j by (simp add: s cells_nth)
  qed
  finally show "ckq_cells (q\<lparr>block := (block q)[ckq_slot q i := v]\<rparr>) ! j = (ckq_cells q)[i := v] ! j"
    using j assms(2) by (simp add: nth_list_update)
qed (simp add: blklen_def)

lemma ok_block_update: "ckq_ok q \<Longrightarrow> ckq_ok (q\<lparr>block := (block q)[s := v]\<rparr>)"
  unfolding ckq_ok_def by simp

lemma ok_qlen_update: "ckq_ok q \<Longrightarrow> n \<le> blklen q \<Longrightarrow> ckq_ok (q\<lparr>qlen := n\<rparr>)"
  by (auto simp: ckq_ok_def)

section \<open>The operations on the abstract value\<close>

lemma expand_cells:
  assumes "ckq_ok q"
  shows "ckq_ok (ckq_expand q)" "\<exists>k>0. ckq_cells (ckq_expand q) = ckq_cells q @ replicate k NULL"
    "qlen (ckq_expand q) = qlen q"
proof -
  show "qlen (ckq_expand q) = qlen q" by (simp add: ckq_expand_def Let_def)
  have f: "first q \<le> blklen q" using assms by (auto simp: ckq_ok_def split: if_splits)
  have copied: "take (blklen q - first q) (drop (first q) (block q)) @ take (first q) (block q) = ckq_cells q"
  proof (cases "block q = []")
    case False
    then have "first q < length (block q)" using assms by (auto simp: ckq_ok_def blklen_def)
    then show ?thesis by (simp add: ckq_cells_def rotate_drop_take blklen_def)
  qed (simp add: ckq_cells_def blklen_def)
  let ?n = "if blklen q = 0 then 16 else 2 * blklen q"
  have cells: "ckq_cells (ckq_expand q) = ckq_cells q @ replicate (?n - blklen q) NULL"
    unfolding ckq_expand_def Let_def copied by (simp add: ckq_cells_def blklen_def)
  then show "\<exists>k>0. ckq_cells (ckq_expand q) = ckq_cells q @ replicate k NULL"
    by (intro exI [of _ "?n - blklen q"]) auto
  have n: "blklen (ckq_expand q) = ?n" using length_cells [of "ckq_expand q"] unfolding cells by simp
  show "ckq_ok (ckq_expand q)"
  proof (cases "blklen q = 0")
    case True
    then have "blklen (ckq_expand q) = 2 ^ 4" "qmask (ckq_expand q) = 2 ^ 4 - 1" using n by (simp_all add: ckq_expand_def Let_def)
    then show ?thesis using assms True by (auto simp: ckq_ok_def ckq_expand_def Let_def intro: exI [of _ 4])
  next
    case False
    then obtain k where k: "blklen q = 2 ^ k" "qmask q = 2 ^ k - 1" using assms by (auto simp: ckq_ok_def)
    have "(2 ^ k - 1) OR 2 ^ k = (2 ^ Suc k - 1 :: nat)"
      using mask_Suc_exp [of k, where 'a = nat] by (simp add: mask_eq_exp_minus_1 or.commute)
    then have "qmask (ckq_expand q) = 2 ^ Suc k - 1" using k by (simp add: ckq_expand_def Let_def)
    moreover have "blklen (ckq_expand q) = 2 ^ Suc k" "first (ckq_expand q) = 0" using n k by (simp_all add: ckq_expand_def Let_def)
    ultimately show ?thesis using assms False k \<open>qlen (ckq_expand q) = qlen q\<close> by (auto simp: ckq_ok_def intro: exI [of _ "Suc k"])
  qed
qed

lemma room:
  assumes "ckq_ok q"
  shows "ckq_ok (ckq_room q)" "ckq_list (ckq_room q) = ckq_list q" "qlen (ckq_room q) = qlen q" "qlen q < blklen (ckq_room q)"
proof -
  obtain k where k: "k > 0" "ckq_cells (ckq_expand q) = ckq_cells q @ replicate k NULL" using expand_cells [OF assms] by blast
  have n: "blklen (ckq_expand q) = blklen q + k" using length_cells [of "ckq_expand q"] unfolding k(2) by simp
  have "qlen q \<le> blklen q" using assms by (simp add: ckq_ok_def)
  then show "ckq_ok (ckq_room q)" "ckq_list (ckq_room q) = ckq_list q" "qlen (ckq_room q) = qlen q" "qlen q < blklen (ckq_room q)"
    using expand_cells [OF assms] k n assms by (auto simp: ckq_room_def ckq_list_def)
qed

lemma enq_spec:
  assumes "ckq_ok q"
  shows "ckq_ok (ckq_enq x q) \<and> ckq_list (ckq_enq x q) = ckq_list q @ [x]"
proof -
  let ?q = "ckq_room q"
  note r = room [OF assms]
  have s: "(first ?q + qlen ?q) AND qmask ?q = ckq_slot ?q (qlen ?q)" by (simp add: ckq_slot_def add.commute)
  have "ckq_list (ckq_enq x q) = take (Suc (qlen ?q)) ((ckq_cells ?q)[qlen ?q := x])"
    unfolding ckq_enq_def Let_def s using cells_update [OF r(1), of "qlen ?q" x] r by (simp add: ckq_list_def ckq_cells_def)
  then have "ckq_list (ckq_enq x q) = ckq_list ?q @ [x]" using r by (simp add: take_Suc_update ckq_list_def)
  moreover have "ckq_ok (ckq_enq x q)"
    using r ok_block_update [OF r(1)] by (simp add: ckq_enq_def Let_def ckq_ok_def)
  ultimately show ?thesis using r by simp
qed

lemma deq_spec:
  assumes "ckq_ok q"
  shows "fst (ckq_deq q) = (case ckq_list q of [] \<Rightarrow> NULL | x # _ \<Rightarrow> x)" "ckq_ok (snd (ckq_deq q))" "ckq_list (snd (ckq_deq q)) = tl (ckq_list q)"
proof -
  consider "qlen q = 0" | "0 < qlen q" by auto
  then have "fst (ckq_deq q) = (case ckq_list q of [] \<Rightarrow> NULL | x # _ \<Rightarrow> x) \<and> ckq_ok (snd (ckq_deq q)) \<and> ckq_list (snd (ckq_deq q)) = tl (ckq_list q)"
  proof cases
    case 1
    then show ?thesis using assms by (simp add: ckq_deq_def ckq_list_def)
  next
    case 2
    then have n: "0 < blklen q" "qlen q \<le> blklen q" "first q < blklen q" using assms by (auto simp: ckq_ok_def split: if_splits)
    have f: "(first q + 1) AND qmask q = Suc (first q) mod blklen q" using slot_mod [OF assms n(1)] by simp
    have rot: "ckq_cells (q\<lparr>first := Suc (first q) mod blklen q, qlen := m\<rparr>) = rotate1 (ckq_cells q)" for m
      by (simp add: ckq_cells_def blklen_def flip: rotate_conv_mod)
    obtain x xs where cells: "ckq_cells q = x # xs" using n length_cells [of q] by (cases "ckq_cells q") auto
    have "x = block q ! first q" using cells_nth [OF n(1)] n cells by simp
    moreover have "length xs = blklen q - 1" using cells length_cells [of q] by simp
    moreover have "ckq_ok (q\<lparr>first := Suc (first q) mod blklen q, qlen := qlen q - 1\<rparr>)" using assms n by (auto simp: ckq_ok_def blklen_def)
    ultimately show ?thesis using 2 n f cells
      by (cases "qlen q") (simp_all add: ckq_deq_def ckq_list_def rot)
  qed
  then show "fst (ckq_deq q) = (case ckq_list q of [] \<Rightarrow> NULL | x # _ \<Rightarrow> x)" "ckq_ok (snd (ckq_deq q))" "ckq_list (snd (ckq_deq q)) = tl (ckq_list q)" by auto
qed

lemma push_spec:
  assumes "ckq_ok q"
  shows "ckq_ok (ckq_push x q) \<and> ckq_list (ckq_push x q) = x # ckq_list q"
proof -
  let ?q = "ckq_room q"
  note r = room [OF assms]
  let ?n = "blklen ?q"
  have n: "0 < ?n" "first ?q < ?n" using r by (auto simp: ckq_ok_def split: if_splits)
  let ?f = "(first ?q + ?n - 1) mod ?n"
  have f: "(first ?q + blklen ?q - 1) AND qmask ?q = ?f" by (rule slot_mod [OF r(1) n(1)])
  let ?p = "?q\<lparr>first := ?f\<rparr>"
  have ok: "ckq_ok ?p" using r(1) n by (simp add: ckq_ok_def)
  have slot: "ckq_slot ?p 0 = ?f" using slot_mod [OF ok] n(1) by (simp add: ckq_slot_def)
  have cells: "ckq_cells ?p = last (ckq_cells ?q) # butlast (ckq_cells ?q)"
  proof -
    have "rotate1 (ckq_cells ?p) = rotate (Suc ?f) (block ?q)" by (simp add: ckq_cells_def)
    also have "\<dots> = rotate (Suc (first ?q + ?n - 1)) (block ?q)"
      by (metis blklen_def mod_Suc_eq rotate_conv_mod)
    also have "\<dots> = ckq_cells ?q" using n(1) by (simp add: ckq_cells_def blklen_def flip: rotate_rotate)
    finally have rot: "rotate1 (ckq_cells ?p) = ckq_cells ?q" .
    have "length (ckq_cells ?p) = ?n" by (simp del: length_0_conv)
    then have "ckq_cells ?p \<noteq> []" using n(1) by (metis list.size(3) less_irrefl)
    then obtain y ys where "ckq_cells ?p = y # ys" by (meson list.exhaust)
    then show ?thesis using rot by (metis butlast_snoc last_snoc rotate1.simps(2))
  qed
  have push: "ckq_push x q = ?p\<lparr>block := (block ?p)[ckq_slot ?p 0 := x], qlen := qlen ?q + 1\<rparr>"
    unfolding ckq_push_def Let_def f slot by simp
  have "ckq_cells (ckq_push x q) = x # butlast (ckq_cells ?q)"
    using cells_update [OF ok, of 0 x] n(1) unfolding push cells by (simp add: ckq_cells_def)
  moreover have "take (qlen q) (butlast (ckq_cells ?q)) = take (qlen q) (ckq_cells ?q)"
    using r(4) by (simp add: take_butlast)
  moreover have "ckq_ok (ckq_push x q)" unfolding push
    by (rule ok_qlen_update [OF ok_block_update [OF ok]]) (use r(3,4) in \<open>simp add: blklen_def\<close>)
  ultimately show ?thesis using r by (simp add: ckq_list_def push)
qed

lemma shift_up_cells:
  "ckq_ok q \<Longrightarrow> i < blklen q \<Longrightarrow>
   ckq_ok (shift_up pos i q) \<and> qlen (shift_up pos i q) = qlen q \<and> blklen (shift_up pos i q) = blklen q \<and>
   (\<forall>j < blklen q. ckq_cells (shift_up pos i q) ! j = ckq_cells q ! (if pos < j \<and> j \<le> i then j - 1 else j))"
proof (induction i arbitrary: q)
  case (Suc i)
  show ?case
  proof (cases "pos < Suc i")
    case True
    let ?q = "q\<lparr>block := (block q)[ckq_slot q (Suc i) := block q ! ckq_slot q i]\<rparr>"
    have "ckq_cells ?q = (ckq_cells q)[Suc i := ckq_cells q ! i]"
      using cells_update [OF Suc.prems] cells_slot [OF Suc.prems(1), of i] Suc.prems(2) by simp
    moreover have "ckq_ok ?q" by (rule ok_block_update [OF Suc.prems(1)])
    moreover have "i < blklen ?q" using Suc.prems(2) by simp
    ultimately have IH: "ckq_ok (shift_up pos i ?q)" "qlen (shift_up pos i ?q) = qlen q" "blklen (shift_up pos i ?q) = blklen q"
      and cells: "\<And>j. j < blklen q \<Longrightarrow> ckq_cells (shift_up pos i ?q) ! j =
        (ckq_cells q)[Suc i := ckq_cells q ! i] ! (if pos < j \<and> j \<le> i then j - 1 else j)"
      using Suc.IH [of ?q] by auto
    have "ckq_cells (shift_up pos i ?q) ! j = ckq_cells q ! (if pos < j \<and> j \<le> Suc i then j - 1 else j)" if "j < blklen q" for j
      using cells [OF that] that True by (cases "j = Suc i") (auto simp: nth_list_update)
    then show ?thesis using IH True by simp
  next
    case False
    then show ?thesis using Suc.prems by auto
  qed
qed simp

lemma shift_down_cells:
  "ckq_ok q \<Longrightarrow>
   ckq_ok (shift_down i q) \<and> qlen (shift_down i q) = qlen q \<and> blklen (shift_down i q) = blklen q \<and>
   (\<forall>j < blklen q. ckq_cells (shift_down i q) ! j = ckq_cells q ! (if i \<le> j \<and> j < qlen q - 1 then j + 1 else j))"
proof (induction i q rule: shift_down.induct)
  case (1 i q)
  show ?case
  proof (cases "i < qlen q - 1")
    case True
    then have n: "i < blklen q" "i + 1 < blklen q" using 1(2) by (auto simp: ckq_ok_def)
    let ?q = "q\<lparr>block := (block q)[ckq_slot q i := block q ! ckq_slot q (i + 1)]\<rparr>"
    have "ckq_cells ?q = (ckq_cells q)[i := ckq_cells q ! (i + 1)]"
      using cells_update [OF 1(2) n(1)] cells_slot [OF 1(2) n(2)] by simp
    moreover have "ckq_ok ?q" by (rule ok_block_update [OF 1(2)])
    moreover have "shift_down i q = shift_down (i + 1) ?q" using True by (subst shift_down.simps) simp
    ultimately show ?thesis using 1(1) [OF True] True n by (auto simp: nth_list_update)
  next
    case False
    then show ?thesis using 1(2) by (subst (1 2 3 4) shift_down.simps) auto
  qed
qed

lemma insert_room_spec:
  "ckq_ok q \<Longrightarrow> ckq_ok (insert_room pos q) \<and> ckq_list (insert_room pos q) = ckq_list q \<and> qlen (insert_room pos q) = qlen q \<and>
     pos < blklen (insert_room pos q) \<and> qlen q < blklen (insert_room pos q)"
proof (induction pos q rule: insert_room.induct)
  case (1 pos q)
  show ?case
  proof (cases "qlen q = blklen q \<or> blklen q \<le> pos")
    case True
    have "ckq_list (ckq_expand q) = ckq_list q"
      using expand_cells [OF 1(2)] 1(2) by (auto simp: ckq_list_def ckq_ok_def)
    then show ?thesis using 1(1) [OF True] True expand_cells [OF 1(2)] by (subst (1 2 3 4 5) insert_room.simps) simp
  next
    case False
    then show ?thesis using 1(2) by (subst (1 2 3 4 5) insert_room.simps) (auto simp: ckq_ok_def)
  qed
qed

lemma insert_spec:
  assumes "ckq_ok q" "pos \<le> qlen q"
  shows "ckq_ok (ckq_insert pos x q) \<and> ckq_list (ckq_insert pos x q) = take pos (ckq_list q) @ x # drop pos (ckq_list q)"
proof -
  let ?q1 = "insert_room pos q"
  let ?q2 = "shift_up pos (qlen ?q1) ?q1"
  note r = insert_room_spec [OF assms(1), of pos]
  note s = shift_up_cells [of ?q1 "qlen ?q1" pos]
  have q2: "ckq_ok ?q2" "qlen ?q2 = qlen q" "blklen ?q2 = blklen ?q1" "pos < blklen ?q2" using r s by auto
  have ins: "ckq_insert pos x q = ?q2\<lparr>block := (block ?q2)[ckq_slot ?q2 pos := x], qlen := qlen q + 1\<rparr>"
    using assms(2) q2(2) by (simp add: ckq_insert_def Let_def)
  have cells: "ckq_cells (ckq_insert pos x q) = (ckq_cells ?q2)[pos := x]"
    using cells_update [OF q2(1,4)] unfolding ins by (simp add: ckq_cells_def)
  have "ckq_list (ckq_insert pos x q) = take pos (ckq_list ?q1) @ x # drop pos (ckq_list ?q1)"
  proof (rule nth_equalityI)
    show "length (ckq_list (ckq_insert pos x q)) = length (take pos (ckq_list ?q1) @ x # drop pos (ckq_list ?q1))"
      using r q2 assms(2) by (simp add: ckq_list_def cells, simp add: ins)
    fix j assume "j < length (ckq_list (ckq_insert pos x q))"
    then have j: "j \<le> qlen q" by (simp add: ckq_list_def ins)
    then have "ckq_cells ?q2 ! j = ckq_cells ?q1 ! (if pos < j then j - 1 else j)" using s r by auto
    then show "ckq_list (ckq_insert pos x q) ! j = (take pos (ckq_list ?q1) @ x # drop pos (ckq_list ?q1)) ! j"
      using j r q2 assms(2) unfolding ckq_list_def cells by (auto simp: ins nth_append nth_list_update nth_Cons')
  qed
  moreover have "ckq_ok (ckq_insert pos x q)" using ok_block_update [OF q2(1)] q2 r unfolding ins by (simp add: ckq_ok_def)
  ultimately show ?thesis using r by simp
qed

lemma remove_spec:
  assumes "ckq_ok q" "pos < qlen q"
  shows "fst (ckq_remove pos q) = ckq_list q ! pos \<and> ckq_ok (snd (ckq_remove pos q)) \<and>
    ckq_list (snd (ckq_remove pos q)) = take pos (ckq_list q) @ drop (Suc pos) (ckq_list q)"
proof -
  let ?q = "shift_down pos q"
  note s = shift_down_cells [OF assms(1), of pos]
  have n: "qlen q \<le> blklen q" using assms(1) by (simp add: ckq_ok_def)
  have rem: "ckq_remove pos q = (block q ! ckq_slot q pos, ?q\<lparr>qlen := qlen q - 1\<rparr>)"
    using assms(2) s by (simp add: ckq_remove_def Let_def)
  have cells: "ckq_cells (?q\<lparr>qlen := m\<rparr>) = ckq_cells ?q" for m by (simp add: ckq_cells_def)
  have "take (qlen q - 1) (ckq_cells ?q) = take pos (ckq_list q) @ drop (Suc pos) (ckq_list q)"
    by (rule nth_equalityI) (use s n assms(2) in \<open>auto simp: ckq_list_def nth_append\<close>)
  moreover have "ckq_ok (?q\<lparr>qlen := qlen q - 1\<rparr>)" using s by (auto simp: ckq_ok_def)
  ultimately show ?thesis using assms n cells_slot [OF assms(1), of pos] by (simp add: rem cells ckq_list_def)
qed

lemma array_loop_spec:
  assumes "ckq_ok q" "i + n \<le> blklen q"
  shows "array_loop q n ((i + first q) mod blklen q) = take n (drop i (ckq_cells q))"
  using assms(2)
proof (induction n arbitrary: i)
  case (Suc n)
  then have i: "i < blklen q" by simp
  have "((i + first q) mod blklen q + 1) AND qmask q = (Suc i + first q) mod blklen q"
    using slot_mod [OF assms(1)] i by (simp add: mod_Suc_eq)
  then show ?case using Suc.IH [of "Suc i"] Suc.prems i cells_nth [OF i]
    by (simp add: Cons_nth_drop_Suc [symmetric, of i "ckq_cells q"])
qed simp

lemma getArray_spec: "ckq_ok q \<Longrightarrow> ckq_getArray q = ckq_list q"
  using array_loop_spec [of q 0 "qlen q"]
  by (cases "blklen q = 0") (auto simp: ckq_getArray_def ckq_list_def ckq_ok_def)

lemma index_spec: "ckq_ok q \<Longrightarrow> i < qlen q \<Longrightarrow> ckq_index q i = ckq_list q ! i"
  by (simp add: ckq_index_def cells_slot ckq_list_def ckq_ok_def)

lemma size_loop_spec:
  "m = 2 ^ n - 1 \<Longrightarrow> snd (size_loop sz n m) = 2 ^ fst (size_loop sz n m) - 1 \<and> sz \<le> 2 ^ fst (size_loop sz n m)"
proof (induction sz n m rule: size_loop.induct)
  case (1 sz n m)
  show ?case
  proof (cases "2 ^ n < sz")
    case True
    have "(2 ^ n - 1) OR 2 ^ n = (2 ^ Suc n - 1 :: nat)"
      using mask_Suc_exp [of n, where 'a = nat] by (simp add: mask_eq_exp_minus_1 or.commute)
    then show ?thesis using 1 True by (subst (1 2 3) size_loop.simps) simp
  next
    case False
    then show ?thesis using 1 by (subst (1 2 3) size_loop.simps) simp
  qed
qed

lemma new_spec: "ckq_ok CkQ_new \<and> ckq_list CkQ_new = []" "ckq_ok (CkQ_new_size n) \<and> ckq_list (CkQ_new_size n) = []"
proof -
  show "ckq_ok CkQ_new \<and> ckq_list CkQ_new = []" by (simp add: CkQ_new_def ckq_ok_def ckq_list_def blklen_def)
  show "ckq_ok (CkQ_new_size n) \<and> ckq_list (CkQ_new_size n) = []"
    using size_loop_spec [of 3 2 n]
    by (auto simp: CkQ_new_size_def ckq_ok_def ckq_list_def blklen_def case_prod_beta)
qed

section \<open>The contract\<close>

locale fifo =
  fixes ok :: "'q \<Rightarrow> bool" and abs :: "'q \<Rightarrow> ptr list"
    and create :: 'q and enq :: "'q \<Rightarrow> ptr \<Rightarrow> 'q" and deq :: "'q \<Rightarrow> ptr \<times> 'q"
    and peek :: "'q \<Rightarrow> ptr" and empty :: "'q \<Rightarrow> bool"
  assumes create: "ok create" "abs create = []"
    and enq: "ok q \<Longrightarrow> ok (enq q x)" "ok q \<Longrightarrow> abs (enq q x) = abs q @ [x]"
    and deq: "ok q \<Longrightarrow> ok (snd (deq q))" "ok q \<Longrightarrow> abs (snd (deq q)) = tl (abs q)"
      "ok q \<Longrightarrow> fst (deq q) = (case abs q of [] \<Rightarrow> NULL | x # _ \<Rightarrow> x)"
    and peek: "ok q \<Longrightarrow> peek q = (case abs q of [] \<Rightarrow> NULL | x # _ \<Rightarrow> x)"
    and empty: "ok q \<Longrightarrow> empty q \<longleftrightarrow> abs q = []"
begin

text \<open>A newcomer is first exactly if the queue was empty; the successor of the first is seen after removing it.\<close>

lemma peek_enq: "ok q \<Longrightarrow> x \<notin> set (abs q) \<Longrightarrow> peek (enq q x) = x \<longleftrightarrow> abs q = []"
  by (cases "abs q") (auto simp: peek enq)

lemma peek_deq: "ok q \<Longrightarrow> peek (snd (deq q)) = (case abs q of _ # y # _ \<Rightarrow> y | _ \<Rightarrow> NULL)"
  by (auto simp: peek deq split: list.splits)

lemma deq_null: "ok q \<Longrightarrow> NULL \<notin> set (abs q) \<Longrightarrow> fst (deq q) = NULL \<longleftrightarrow> abs q = []"
  by (auto simp: deq split: list.splits)

end

interpretation cds: fifo ckq_ok ckq_list CdsFifo_Create CdsFifo_Enqueue CdsFifo_Dequeue CdsFifo_Peek CdsFifo_Empty
proof unfold_locales
  show "ckq_ok CdsFifo_Create" "ckq_list CdsFifo_Create = []" using new_spec by (simp_all add: CdsFifo_Create_def)
  fix q x assume ok: "ckq_ok q"
  show "ckq_ok (CdsFifo_Enqueue q x)" "ckq_list (CdsFifo_Enqueue q x) = ckq_list q @ [x]"
    using enq_spec [OF ok] by (simp_all add: CdsFifo_Enqueue_def)
  show "ckq_ok (snd (CdsFifo_Dequeue q))" "ckq_list (snd (CdsFifo_Dequeue q)) = tl (ckq_list q)"
    "fst (CdsFifo_Dequeue q) = (case ckq_list q of [] \<Rightarrow> NULL | x # _ \<Rightarrow> x)"
    using deq_spec [OF ok] by (simp_all add: CdsFifo_Dequeue_def)
  have len: "length (ckq_list q) = qlen q" by (rule length_ckq_list [OF ok])
  then show "CdsFifo_Peek q = (case ckq_list q of [] \<Rightarrow> NULL | x # _ \<Rightarrow> x)"
    using index_spec [OF ok, of 0] by (cases "ckq_list q") (auto simp: CdsFifo_Peek_def)
  show "CdsFifo_Empty q \<longleftrightarrow> ckq_list q = []" using len by (auto simp: CdsFifo_Empty_def)
qed

section \<open>Properties\<close>

text \<open>
  C32.  On a well-formed queue these operations of the class act on the list of its elements and
  leave the queue well-formed: appending, taking from the front (a null pointer when there is
  nothing), pushing to the front, reading a position, inserting at a position up to the length, removing
  from a position, and copying all elements out.  This includes the rounds in which the circular buffer grows.
\<close>

theorem ckq_is_list:
  assumes "ckq_ok q"
  shows "ckq_list (ckq_enq x q) = ckq_list q @ [x] \<and>
    fst (ckq_deq q) = (case ckq_list q of [] \<Rightarrow> NULL | y # _ \<Rightarrow> y) \<and> ckq_list (snd (ckq_deq q)) = tl (ckq_list q) \<and>
    ckq_list (ckq_push x q) = x # ckq_list q \<and>
    (\<forall>i < length (ckq_list q). ckq_index q i = ckq_list q ! i) \<and>
    (\<forall>pos \<le> length (ckq_list q). ckq_list (ckq_insert pos x q) = take pos (ckq_list q) @ x # drop pos (ckq_list q)) \<and>
    (\<forall>pos < length (ckq_list q). fst (ckq_remove pos q) = ckq_list q ! pos \<and>
       ckq_list (snd (ckq_remove pos q)) = take pos (ckq_list q) @ drop (Suc pos) (ckq_list q)) \<and>
    ckq_getArray q = ckq_list q \<and>
    ckq_ok (ckq_enq x q) \<and> ckq_ok (snd (ckq_deq q)) \<and> ckq_ok (ckq_push x q) \<and>
    (\<forall>pos \<le> length (ckq_list q). ckq_ok (ckq_insert pos x q)) \<and> (\<forall>pos. ckq_ok (snd (ckq_remove pos q)))"
proof -
  have "ckq_ok (snd (ckq_remove pos q))" for pos
    using remove_spec [OF assms, of pos] assms by (cases "pos < qlen q") (auto simp: ckq_remove_def)
  then show ?thesis
    using enq_spec [OF assms] deq_spec [OF assms] push_spec [OF assms] index_spec [OF assms] insert_spec [OF assms]
      remove_spec [OF assms] getArray_spec [OF assms] by (simp add: length_ckq_list [OF assms])
qed

theorem ckq_is_list_witness:
  "ckq_list (ckq_enq 7 CkQ_new) = [7] \<and> fst (ckq_deq CkQ_new) = NULL"
  using ckq_is_list [of CkQ_new 7] new_spec(1) by simp

end
