(* ===== verification/Cth.thy ===== *)
theory Cth
  imports Prelude
begin

text \<open>
  User-level threads: the scheduling and the thread-private storage of \<^verbatim>\<open>conv-core/threads.c\<close>
  and the default strategy of \<^verbatim>\<open>conv-core/convcore.c\<close>, by which an awakened thread is put in the
  scheduler queue and a suspended one gives control to the scheduling thread.  A thread is known by
  its address; what it executes is not part of the state.  The stacks, the listeners and the
  migration of threads are not modelled, and neither is a suspension of the scheduling thread itself.

  \<open>threads\<close> holds the allocated threads, \<open>tokens\<close> the allocated tokens with their field
  \<^verbatim>\<open>thread\<close>, \<open>schedq\<close> the tokens in the scheduler queue.  A variable in the private data of a thread
  is known by its offset.
\<close>

section \<open>Threads\<close>

record CthThreadBase =
  token :: ptr
  scheduled :: int
  nxt :: ptr
  suspendable :: bool
  exiting :: bool
  tdata :: "int \<Rightarrow> ptr"
  datasize :: int

record cth =
  CthCurrent :: ptr
  CthDatasize :: int
  CthSchedulingThread :: ptr
  numSwitches :: nat
  threads :: "ptr \<rightharpoonup> CthThreadBase"
  tokens :: "ptr \<rightharpoonup> ptr"
  schedq :: "ptr list"

definition get_thread :: "'a cth_scheme \<Rightarrow> ptr \<Rightarrow> CthThreadBase result" where
  "get_thread st t = (case threads st t of None \<Rightarrow> Inl (Fault ''thread'') | Some th \<Rightarrow> Inr th)"

definition set_thread :: "ptr \<Rightarrow> CthThreadBase \<Rightarrow> 'a cth_scheme \<Rightarrow> 'a cth_scheme" where
  "set_thread t th st = st\<lparr>threads := (threads st)(t \<mapsto> th)\<rparr>"

section \<open>Thread-private storage\<close>

definition CthFixData :: "int \<Rightarrow> CthThreadBase \<Rightarrow> CthThreadBase" where
  "CthFixData newsize t =
     (if datasize t < newsize
      then t\<lparr>datasize := 2 * newsize, tdata := (\<lambda>i. if datasize t \<le> i then 0 else tdata t i)\<rparr>
      else t)"

function align_loop :: "int \<Rightarrow> int \<Rightarrow> int" where
  "align_loop sz align = (if 0 < align \<and> align < sz then align_loop sz (2 * align) else align)"
  by auto
termination by (relation "measure (\<lambda>(sz, align). nat (sz - align))") auto

declare align_loop.simps [simp del]

definition CthRegister :: "int \<Rightarrow> 'a cth_scheme \<Rightarrow> (int \<times> 'a cth_scheme) result" where
  "CthRegister sz st =
     (let align = align_loop sz 1;
          offset = (CthDatasize st + align - 1) AND NOT (align - 1);
          st1 = st\<lparr>CthDatasize := offset + sz\<rparr>
      in rbind (get_thread st1 (CthCurrent st)) (\<lambda>th.
           Inr (offset, set_thread (CthCurrent st) (CthFixData (CthDatasize st1) th) st1)))"

definition CthRegistered :: "int \<Rightarrow> 'a cth_scheme \<Rightarrow> 'a cth_scheme result" where
  "CthRegistered maxOffset st =
     (if CthDatasize st < maxOffset
      then rbind (get_thread st (CthCurrent st)) (\<lambda>th.
             Inr (set_thread (CthCurrent st) (CthFixData maxOffset th) (st\<lparr>CthDatasize := maxOffset\<rparr>)))
      else Inr st)"

section \<open>Creation and deletion\<close>

text \<open>\<open>t\<close> and \<open>k\<close> are the addresses of the new thread and of its token.\<close>

definition CthThreadBaseInit :: "ptr \<Rightarrow> CthThreadBase" where
  "CthThreadBaseInit k =
     \<lparr>token = k, scheduled = 0, nxt = NULL, suspendable = True, exiting = False, tdata = (\<lambda>_. 0), datasize = 0\<rparr>"

definition CthCreate :: "ptr \<Rightarrow> ptr \<Rightarrow> 'a cth_scheme \<Rightarrow> 'a cth_scheme" where
  "CthCreate t k st =
     set_thread t (CthFixData (CthDatasize st) (CthThreadBaseInit k)) (st\<lparr>tokens := (tokens st)(k \<mapsto> t)\<rparr>)"

definition CthThreadFree :: "ptr \<Rightarrow> 'a cth_scheme \<Rightarrow> 'a cth_scheme result" where
  "CthThreadFree t st =
     rbind (get_thread st t) (\<lambda>th.
       Inr (st\<lparr>tokens := (if scheduled th = 0 then (tokens st)(token th := None) else (tokens st)(token th \<mapsto> NULL)),
               threads := (threads st)(t := None)\<rparr>))"

definition CthFree :: "ptr \<Rightarrow> 'a cth_scheme \<Rightarrow> 'a cth_scheme result" where
  "CthFree t st =
     (if t = NULL then Inr st
      else if t = CthCurrent st
      then rbind (get_thread st t) (\<lambda>th. Inr (set_thread t (th\<lparr>exiting := True\<rparr>) st))
      else CthThreadFree t st)"

section \<open>Scheduling\<close>

definition CthSetNext :: "ptr \<Rightarrow> ptr \<Rightarrow> 'a cth_scheme \<Rightarrow> 'a cth_scheme result" where
  "CthSetNext t v st = rbind (get_thread st t) (\<lambda>th. Inr (set_thread t (th\<lparr>nxt := v\<rparr>) st))"

definition CthGetNext :: "ptr \<Rightarrow> 'a cth_scheme \<Rightarrow> ptr result" where
  "CthGetNext t st = rbind (get_thread st t) (\<lambda>th. Inr (nxt th))"

definition CthSetSuspendable :: "ptr \<Rightarrow> bool \<Rightarrow> 'a cth_scheme \<Rightarrow> 'a cth_scheme result" where
  "CthSetSuspendable t val st = rbind (get_thread st t) (\<lambda>th. Inr (set_thread t (th\<lparr>suspendable := val\<rparr>) st))"

definition CthIsSuspendable :: "ptr \<Rightarrow> 'a cth_scheme \<Rightarrow> bool result" where
  "CthIsSuspendable t st = rbind (get_thread st t) (\<lambda>th. Inr (suspendable th))"

definition CthBaseResume :: "ptr \<Rightarrow> 'a cth_scheme \<Rightarrow> 'a cth_scheme result" where
  "CthBaseResume t st =
     rbind (get_thread st t) (\<lambda>th.
       Inr ((set_thread t (CthFixData (CthDatasize st) th) st)\<lparr>numSwitches := numSwitches st + 1, CthCurrent := t\<rparr>))"

definition CthResume :: "ptr \<Rightarrow> 'a cth_scheme \<Rightarrow> 'a cth_scheme result" where
  "CthResume t st =
     (let tc = CthCurrent st
      in if t = tc then Inr st
         else rbind (CthBaseResume t st) (\<lambda>st1.
                rbind (get_thread st1 tc) (\<lambda>th. if exiting th then CthThreadFree tc st1 else Inr st1)))"

definition CthSuspend :: "'a cth_scheme \<Rightarrow> 'a cth_scheme result" where
  "CthSuspend st =
     rbind (get_thread st (CthCurrent st)) (\<lambda>cur.
       if \<not> suspendable cur then Inl (Abort ''trying to suspend a non-suspendable thread'')
       else CthResume (CthSchedulingThread st)
              (if 0 < scheduled cur then set_thread (CthCurrent st) (cur\<lparr>scheduled := scheduled cur - 1\<rparr>) st else st))"

definition CthEnqueueNormalThread :: "ptr \<Rightarrow> 'a cth_scheme \<Rightarrow> 'a cth_scheme" where
  "CthEnqueueNormalThread k st = st\<lparr>schedq := schedq st @ [k]\<rparr>"

definition CthAwaken :: "ptr \<Rightarrow> 'a cth_scheme \<Rightarrow> 'a cth_scheme result" where
  "CthAwaken t st =
     rbind (get_thread st t) (\<lambda>th.
       Inr (set_thread t (th\<lparr>scheduled := scheduled th + 1\<rparr>) (CthEnqueueNormalThread (token th) st)))"

definition CthYield :: "'a cth_scheme \<Rightarrow> 'a cth_scheme result" where
  "CthYield st = rbind (CthAwaken (CthCurrent st) st) CthSuspend"

definition CthThreadFinished :: "ptr \<Rightarrow> 'a cth_scheme \<Rightarrow> 'a cth_scheme result" where
  "CthThreadFinished t st =
     rbind (get_thread st t) (\<lambda>th. CthSuspend (set_thread t (th\<lparr>exiting := True\<rparr>) st))"

definition CthResumeNormalThread :: "ptr \<Rightarrow> 'a cth_scheme \<Rightarrow> 'a cth_scheme result" where
  "CthResumeNormalThread k st =
     (case tokens st k of
        None \<Rightarrow> Inl (Fault ''token'')
      | Some t \<Rightarrow> if t = NULL then Inr (st\<lparr>tokens := (tokens st)(k := None)\<rparr>) else CthResume t st)"

text \<open>One round of the scheduler with a token at the front of its queue.\<close>

definition schedule :: "'a cth_scheme \<Rightarrow> 'a cth_scheme result" where
  "schedule st =
     (case schedq st of [] \<Rightarrow> Inr st | k # ks \<Rightarrow> CthResumeNormalThread k (st\<lparr>schedq := ks\<rparr>))"

section \<open>Registration of private variables\<close>

lemma align_loop_power:
  "align = 2 ^ k \<Longrightarrow> \<exists>n \<ge> k. align_loop sz align = 2 ^ n \<and> sz \<le> 2 ^ n"
proof (induction sz align arbitrary: k rule: align_loop.induct)
  case (1 sz align)
  show ?case
  proof (cases "0 < align \<and> align < sz")
    case True
    have "2 * align = 2 ^ Suc k" using 1(2) by simp
    from 1(1) [OF True this] obtain n where "n \<ge> Suc k" "align_loop sz (2 * align) = 2 ^ n" "sz \<le> 2 ^ n" by blast
    moreover have "align_loop sz align = align_loop sz (2 * align)" using True by (subst align_loop.simps) simp
    ultimately show ?thesis by (metis Suc_leD)
  next
    case False
    then have "align_loop sz align = align" by (subst align_loop.simps) auto
    moreover have "sz \<le> align" using False 1(2) by auto
    ultimately show ?thesis using 1(2) by blast
  qed
qed

lemma round_up:
  fixes d :: int
  shows "(d + 2 ^ k - 1) AND NOT (2 ^ k - 1) = 2 ^ k * ((d + 2 ^ k - 1) div 2 ^ k)"
proof -
  have "x AND NOT (mask k) = push_bit k (drop_bit k x)" for x :: int
    by (rule bit_eqI) (auto simp: bit_simps)
  then show ?thesis by (simp add: mask_eq_exp_minus_1 push_bit_eq_mult drop_bit_eq_div mult.commute)
qed

lemma round_up_bounds:
  fixes d a :: int
  assumes "0 < a"
  shows "d \<le> a * ((d + a - 1) div a)" "a * ((d + a - 1) div a) < d + a"
proof -
  have "a * ((d + a - 1) div a) = d + a - 1 - (d + a - 1) mod a" by (simp add: minus_mod_eq_mult_div)
  moreover have "0 \<le> (d + a - 1) mod a" "(d + a - 1) mod a < a" using assms by simp_all
  ultimately show "d \<le> a * ((d + a - 1) div a)" "a * ((d + a - 1) div a) < d + a" by linarith+
qed

lemma register_effect:
  assumes "threads st (CthCurrent st) = Some th" "0 < sz" "0 \<le> CthDatasize st"
  shows "\<exists>offset st' th' k. CthRegister sz st = Inr (offset, st') \<and> sz \<le> 2 ^ k \<and> 2 ^ k dvd offset \<and>
    CthDatasize st \<le> offset \<and> offset < CthDatasize st + 2 ^ k \<and> CthDatasize st' = offset + sz \<and>
    threads st' (CthCurrent st) = Some th' \<and> offset + sz \<le> datasize th' \<and>
    (\<forall>i. tdata th' i = (if datasize th < offset + sz \<and> datasize th \<le> i then 0 else tdata th i))"
proof -
  obtain k where k: "align_loop sz 1 = 2 ^ k" "sz \<le> 2 ^ k" using align_loop_power [of 1 0 sz] by auto
  define offset where "offset = 2 ^ k * ((CthDatasize st + 2 ^ k - 1) div 2 ^ k)"
  have off: "(CthDatasize st + align_loop sz 1 - 1) AND NOT (align_loop sz 1 - 1) = offset"
    unfolding k(1) offset_def by (rule round_up)
  have bounds: "CthDatasize st \<le> offset" "offset < CthDatasize st + 2 ^ k"
    using round_up_bounds [of "2 ^ k" "CthDatasize st"] by (auto simp: offset_def)
  let ?st = "set_thread (CthCurrent st) (CthFixData (offset + sz) th) (st\<lparr>CthDatasize := offset + sz\<rparr>)"
  have "CthRegister sz st = Inr (offset, ?st)"
    using assms(1) off by (simp add: CthRegister_def Let_def get_thread_def)
  moreover have "2 ^ k dvd offset" by (simp add: offset_def)
  moreover have "\<exists>th'. threads ?st (CthCurrent st) = Some th' \<and> offset + sz \<le> datasize th' \<and>
    (\<forall>i. tdata th' i = (if datasize th < offset + sz \<and> datasize th \<le> i then 0 else tdata th i))"
    using assms bounds(1) by (simp add: set_thread_def CthFixData_def)
  ultimately show ?thesis using k(2) bounds
    by (intro exI [of _ offset] exI [of _ ?st]) (auto simp: set_thread_def)
qed

text \<open>
  Registering a private variable gives it an offset that is a multiple of a power of two not
  smaller than its size, behind all variables registered before; afterwards the running thread has
  room for it, the bytes it had keep their values and new ones are zero.
\<close>

theorem CthRegister_fresh:
  assumes "threads st (CthCurrent st) = Some th" "0 < sz" "0 \<le> CthDatasize st"
  shows "\<exists>offset st' th' k. CthRegister sz st = Inr (offset, st') \<and> sz \<le> 2 ^ k \<and> 2 ^ k dvd offset \<and>
    CthDatasize st \<le> offset \<and> offset < CthDatasize st + 2 ^ k \<and> CthDatasize st' = offset + sz \<and>
    threads st' (CthCurrent st) = Some th' \<and> offset + sz \<le> datasize th' \<and>
    (\<forall>i. tdata th' i = (if datasize th < offset + sz \<and> datasize th \<le> i then 0 else tdata th i))"
  by (rule register_effect [OF assms])

definition demo_cth :: cth where
  "demo_cth = \<lparr>CthCurrent = 1, CthDatasize = 5, CthSchedulingThread = 9, numSwitches = 0,
     threads = [1 \<mapsto> CthThreadBaseInit 2], tokens = [2 \<mapsto> 1], schedq = []\<rparr>"

theorem CthRegister_fresh_witness: "\<exists>offset st'. CthRegister 8 demo_cth = Inr (offset, st') \<and> 5 \<le> offset"
  using CthRegister_fresh [of demo_cth "CthThreadBaseInit 2" 8] by (auto simp: demo_cth_def)

end
