(* ===== verification/Cpthreads.thy ===== *)
theory Cpthreads
  imports Cth CkQ
begin

text \<open>
  POSIX-style threads on top of the user-level threads: \<^verbatim>\<open>conv-core/cpthreads.c\<close>.  The structures
  live in maps from addresses.  A call that may suspend its thread is split where it does: the first
  part returns \<open>None\<close> when the thread has been suspended, and the second part is what the thread
  executes when it is resumed.  Functions given by the application are known by their addresses; the
  calls made to them are logged with their first argument.
\<close>

section \<open>Structures\<close>

definition PT_MAGIC :: u32 where "PT_MAGIC = 0x8173292a"
definition ATTR_MAGIC :: u32 where "ATTR_MAGIC = 0x783a2004"
definition KEY_MAGIC :: u32 where "KEY_MAGIC = 0x99934315"
definition FKEY_MAGIC :: u32 where "FKEY_MAGIC = 0x99934315"
definition MATTR_MAGIC :: u32 where "MATTR_MAGIC = 0x12673434"
definition CATTR_MAGIC :: u32 where "CATTR_MAGIC = 0xA865B812"
definition MUTEX_MAGIC :: u32 where "MUTEX_MAGIC = 0x13237770"
definition COND_MAGIC :: u32 where "COND_MAGIC = 0x99431664"

abbreviation (input) EPERM :: int where "EPERM \<equiv> 1"
abbreviation (input) EBUSY :: int where "EBUSY \<equiv> 16"
abbreviation (input) EINVAL :: int where "EINVAL \<equiv> 22"

record Cpthread_s =
  pt_magic :: u32
  startfn :: ptr
  startargs :: "ptr \<times> ptr \<times> ptr"
  detached :: bool
  joinstatus :: ptr
  cleanups :: ptr
  waiting :: ptr
  pt_thread :: ptr

record Cpthread_key_s =
  k_magic :: u32
  offset :: int
  destructo :: ptr
  k_next :: ptr

record Cpthread_cleanup_s =
  routine :: ptr
  argument :: ptr
  cl_next :: ptr

record Cpthread_attr_s =
  at_magic :: u32
  at_detached :: bool
  at_stacksize :: int

record Cpthread_syncattr_s =
  sa_magic :: u32
  pshared :: int

record Cpthread_sync_s =
  s_magic :: u32
  onpe :: int
  users :: ckq

record cpt = cth +
  mype :: int
  myrank :: nat
  pthreads :: "ptr \<rightharpoonup> Cpthread_s"
  pkeys :: "ptr \<rightharpoonup> Cpthread_key_s"
  keys_active :: ptr
  keys_inactive :: ptr
  pcleanups :: "ptr \<rightharpoonup> Cpthread_cleanup_s"
  Cpthread_current :: "ptr \<Rightarrow> ptr"
  Cpthread_errcode :: "ptr \<Rightarrow> int"
  mutexes :: "ptr \<rightharpoonup> Cpthread_sync_s"
  conds :: "ptr \<rightharpoonup> Cpthread_sync_s"
  calls :: "(ptr \<times> ptr) list"

definition errcode :: "int \<Rightarrow> cpt \<Rightarrow> (int \<times> cpt) result" where
  "errcode n st = Inr (-1, st\<lparr>Cpthread_errcode := (Cpthread_errcode st)(CthCurrent st := n)\<rparr>)"

definition deref :: "string \<Rightarrow> (ptr \<rightharpoonup> 'a) \<Rightarrow> ptr \<Rightarrow> 'a result" where
  "deref what m p = (case m p of None \<Rightarrow> Inl (Fault what) | Some x \<Rightarrow> Inr x)"

section \<open>Thread-private data\<close>

definition Cpthread_key_create :: "ptr \<Rightarrow> ptr \<Rightarrow> cpt \<Rightarrow> (ptr \<times> cpt) result" where
  "Cpthread_key_create a destr st =
     rbind (if keys_inactive st \<noteq> NULL
            then rbind (deref ''key'' (pkeys st) (keys_inactive st)) (\<lambda>k.
                   Inr (keys_inactive st, offset k, st\<lparr>keys_inactive := k_next k\<rparr>))
            else rbind (CthRegister 8 st) (\<lambda>(off, st1). Inr (a, off, st1)))
       (\<lambda>(key, off, st1).
          Inr (key, st1\<lparr>pkeys := (pkeys st1)(key \<mapsto> \<lparr>k_magic = KEY_MAGIC, offset = off, destructo = destr, k_next = keys_active st1\<rparr>),
                        keys_active := key\<rparr>))"

text \<open>The search for the predecessor of \<open>key\<close>; \<open>None\<close> if the list of keys is broken or has no end.\<close>

partial_function (option) key_pred :: "(ptr \<rightharpoonup> Cpthread_key_s) \<Rightarrow> ptr \<Rightarrow> ptr \<Rightarrow> ptr option" where
  "key_pred ks active key =
     (if active = NULL then Some NULL
      else case ks active of
             None \<Rightarrow> None
           | Some k \<Rightarrow> if k_next k = key then Some active else key_pred ks (k_next k) key)"

definition key_retire :: "ptr \<Rightarrow> Cpthread_key_s \<Rightarrow> cpt \<Rightarrow> (int \<times> cpt) result" where
  "key_retire key k st =
     Inr (0, st\<lparr>pkeys := (pkeys st)(key \<mapsto> k\<lparr>k_magic := FKEY_MAGIC, k_next := keys_inactive st\<rparr>), keys_inactive := key\<rparr>)"

definition Cpthread_key_delete :: "ptr \<Rightarrow> cpt \<Rightarrow> (int \<times> cpt) result" where
  "Cpthread_key_delete key st =
     rbind (deref ''key'' (pkeys st) key) (\<lambda>k.
       if k_magic k \<noteq> KEY_MAGIC then errcode EINVAL st
       else if keys_active st = key then key_retire key k (st\<lparr>keys_active := k_next k\<rparr>)
       else case key_pred (pkeys st) (keys_active st) key of
              None \<Rightarrow> Inl (Fault ''keys_active'')
            | Some p \<Rightarrow>
                if p = NULL then Inr (-1, st)
                else rbind (deref ''key'' (pkeys st) p) (\<lambda>kp.
                       key_retire key k (st\<lparr>pkeys := (pkeys st)(p \<mapsto> kp\<lparr>k_next := k_next k\<rparr>)\<rparr>)))"

definition Cpthread_setspecific :: "ptr \<Rightarrow> ptr \<Rightarrow> cpt \<Rightarrow> (int \<times> cpt) result" where
  "Cpthread_setspecific key val st =
     rbind (deref ''key'' (pkeys st) key) (\<lambda>k.
       if k_magic k \<noteq> KEY_MAGIC then errcode EINVAL st
       else rbind (get_thread st (CthCurrent st)) (\<lambda>th.
              Inr (0, set_thread (CthCurrent st) (th\<lparr>tdata := (tdata th)(offset k := val)\<rparr>) st)))"

definition Cpthread_getspecific :: "ptr \<Rightarrow> cpt \<Rightarrow> ptr result" where
  "Cpthread_getspecific key st =
     rbind (deref ''key'' (pkeys st) key) (\<lambda>k.
       if k_magic k \<noteq> KEY_MAGIC then Inr NULL
       else rbind (get_thread st (CthCurrent st)) (\<lambda>th. Inr (tdata th (offset k))))"

section \<open>Cleanup routines\<close>

definition current_pt :: "cpt \<Rightarrow> Cpthread_s result" where
  "current_pt st = deref ''pthread'' (pthreads st) (Cpthread_current st (CthCurrent st))"

definition set_current_pt :: "Cpthread_s \<Rightarrow> cpt \<Rightarrow> cpt" where
  "set_current_pt pt st = st\<lparr>pthreads := (pthreads st)(Cpthread_current st (CthCurrent st) \<mapsto> pt)\<rparr>"

definition Cpthread_cleanup_push :: "ptr \<Rightarrow> ptr \<Rightarrow> ptr \<Rightarrow> cpt \<Rightarrow> cpt result" where
  "Cpthread_cleanup_push a fn arg st =
     rbind (current_pt st) (\<lambda>pt.
       Inr (set_current_pt (pt\<lparr>cleanups := a\<rparr>)
              (st\<lparr>pcleanups := (pcleanups st)(a \<mapsto> \<lparr>routine = fn, argument = arg, cl_next = cleanups pt\<rparr>)\<rparr>)))"

definition Cpthread_cleanup_pop :: "bool \<Rightarrow> cpt \<Rightarrow> cpt result" where
  "Cpthread_cleanup_pop execute st =
     rbind (current_pt st) (\<lambda>pt.
       let c = cleanups pt
       in if c = NULL then Inr st
          else rbind (deref ''cleanup'' (pcleanups st) c) (\<lambda>cl.
                 let st1 = set_current_pt (pt\<lparr>cleanups := cl_next cl\<rparr>) st;
                     st2 = (if execute then st1\<lparr>calls := calls st1 @ [(routine cl, argument cl)]\<rparr> else st1)
                 in Inr (st2\<lparr>pcleanups := (pcleanups st2)(c := None)\<rparr>)))"

section \<open>Attributes\<close>

definition Cpthread_attr_init :: Cpthread_attr_s where
  "Cpthread_attr_init = \<lparr>at_magic = ATTR_MAGIC, at_detached = False, at_stacksize = 0\<rparr>"

definition attr_checked :: "Cpthread_attr_s \<Rightarrow> 'a \<Rightarrow> int + 'a" where
  "attr_checked attr r = (if at_magic attr \<noteq> ATTR_MAGIC then Inl EINVAL else Inr r)"

definition Cpthread_attr_destroy :: "Cpthread_attr_s \<Rightarrow> int + Cpthread_attr_s" where
  "Cpthread_attr_destroy attr = attr_checked attr (attr\<lparr>at_magic := 0\<rparr>)"

definition Cpthread_attr_getstacksize :: "Cpthread_attr_s \<Rightarrow> int + int" where
  "Cpthread_attr_getstacksize attr = attr_checked attr (at_stacksize attr)"

definition Cpthread_attr_setstacksize :: "int \<Rightarrow> Cpthread_attr_s \<Rightarrow> int + Cpthread_attr_s" where
  "Cpthread_attr_setstacksize n attr = attr_checked attr (attr\<lparr>at_stacksize := n\<rparr>)"

definition Cpthread_attr_getdetachstate :: "Cpthread_attr_s \<Rightarrow> int + bool" where
  "Cpthread_attr_getdetachstate attr = attr_checked attr (at_detached attr)"

definition Cpthread_attr_setdetachstate :: "bool \<Rightarrow> Cpthread_attr_s \<Rightarrow> int + Cpthread_attr_s" where
  "Cpthread_attr_setdetachstate b attr = attr_checked attr (attr\<lparr>at_detached := b\<rparr>)"

section \<open>Threads\<close>

text \<open>
  \<open>p\<close>, \<open>t\<close> and \<open>k\<close> are the addresses of the new structures (the POSIX thread, the thread, its token).
\<close>

definition Cpthread_create3 ::
  "ptr \<Rightarrow> ptr \<Rightarrow> ptr \<Rightarrow> Cpthread_attr_s \<Rightarrow> ptr \<Rightarrow> ptr \<times> ptr \<times> ptr \<Rightarrow> cpt \<Rightarrow> (int \<times> cpt) result" where
  "Cpthread_create3 p t k attr fn args st =
     (if at_magic attr \<noteq> ATTR_MAGIC then errcode EINVAL st
      else let pt = \<lparr>pt_magic = PT_MAGIC, startfn = fn, startargs = args, detached = at_detached attr,
                     joinstatus = NULL, cleanups = NULL, waiting = NULL, pt_thread = t\<rparr>
           in rbind (CthAwaken t (CthCreate t k (st\<lparr>pthreads := (pthreads st)(p \<mapsto> pt)\<rparr>))) (\<lambda>st1. Inr (0, st1)))"

definition Cpthread_create :: "ptr \<Rightarrow> ptr \<Rightarrow> ptr \<Rightarrow> Cpthread_attr_s \<Rightarrow> ptr \<Rightarrow> ptr \<Rightarrow> cpt \<Rightarrow> (int \<times> cpt) result" where
  "Cpthread_create p t k attr fn arg st = Cpthread_create3 p t k attr fn (arg, NULL, NULL) st"

text \<open>The active keys in the order of the list, \<open>None\<close> if the list is broken or has no end.\<close>

partial_function (option) key_walk :: "(ptr \<rightharpoonup> Cpthread_key_s) \<Rightarrow> ptr \<Rightarrow> Cpthread_key_s list \<Rightarrow> Cpthread_key_s list option" where
  "key_walk ks k acc =
     (if k = NULL then Some (rev acc)
      else case ks k of None \<Rightarrow> None | Some key \<Rightarrow> key_walk ks (k_next key) (key # acc))"

partial_function (option) cleanup_walk ::
  "(ptr \<rightharpoonup> Cpthread_cleanup_s) \<Rightarrow> ptr \<Rightarrow> (ptr \<times> ptr) list \<Rightarrow> ((ptr \<rightharpoonup> Cpthread_cleanup_s) \<times> (ptr \<times> ptr) list) option" where
  "cleanup_walk cs c acc =
     (if c = NULL then Some (cs, rev acc)
      else case cs c of
             None \<Rightarrow> None
           | Some cl \<Rightarrow> cleanup_walk (cs(c := None)) (cl_next cl) ((routine cl, argument cl) # acc))"

text \<open>\<^verbatim>\<open>Cpthread_top\<close> up to the call of the start function.\<close>

definition Cpthread_top :: "ptr \<Rightarrow> cpt \<Rightarrow> cpt result" where
  "Cpthread_top p st =
     rbind (get_thread st (CthCurrent st)) (\<lambda>th.
       rbind (deref ''pthread'' (pthreads st) p) (\<lambda>pt.
         case key_walk (pkeys st) (keys_active st) [] of
           None \<Rightarrow> Inl (Fault ''keys_active'')
         | Some ks \<Rightarrow>
             Inr ((set_thread (CthCurrent st) (th\<lparr>tdata := foldl (\<lambda>d k. d(offset k := NULL)) (tdata th) ks\<rparr>) st)
                    \<lparr>Cpthread_errcode := (Cpthread_errcode st)(CthCurrent st := 0),
                     Cpthread_current := (Cpthread_current st)(CthCurrent st := p),
                     calls := calls st @ [(startfn pt, fst (startargs pt))]\<rparr>)))"

definition destructor_calls :: "(int \<Rightarrow> ptr) \<Rightarrow> Cpthread_key_s list \<Rightarrow> (ptr \<times> ptr) list" where
  "destructor_calls data ks = [(destructo k, data (offset k)). k \<leftarrow> ks, destructo k \<noteq> NULL \<and> data (offset k) \<noteq> NULL]"

definition Cpthread_exit :: "ptr \<Rightarrow> cpt \<Rightarrow> cpt result" where
  "Cpthread_exit status st =
     rbind (current_pt st) (\<lambda>pt.
       rbind (get_thread st (CthCurrent st)) (\<lambda>th.
         case (cleanup_walk (pcleanups st) (cleanups pt) [], key_walk (pkeys st) (keys_active st) []) of
           (Some (cs, cl), Some ks) \<Rightarrow>
             let st1 = st\<lparr>pcleanups := cs, calls := calls st @ cl @ destructor_calls (tdata th) ks\<rparr>
             in rbind (if detached pt
                       then Inr (st1\<lparr>pthreads := (pthreads st1)(Cpthread_current st (CthCurrent st) := None)\<rparr>)
                       else let st2 = set_current_pt (pt\<lparr>joinstatus := status, pt_thread := NULL\<rparr>) st1
                            in if waiting pt \<noteq> NULL then CthAwaken (waiting pt) st2 else Inr st2)
                  (\<lambda>st3. rbind (CthFree (pt_thread pt) st3) CthSuspend)
         | _ \<Rightarrow> Inl (Fault ''list'')))"

definition Cpthread_equal :: "ptr \<Rightarrow> ptr \<Rightarrow> bool" where "Cpthread_equal t1 t2 \<longleftrightarrow> t1 = t2"

definition Cpthread_detach :: "ptr \<Rightarrow> cpt \<Rightarrow> (int \<times> cpt) result" where
  "Cpthread_detach p st =
     rbind (deref ''pthread'' (pthreads st) p) (\<lambda>pt.
       if pt_magic pt \<noteq> PT_MAGIC then errcode EINVAL st
       else if pt_thread pt = NULL then Inr (0, st\<lparr>pthreads := (pthreads st)(p := None)\<rparr>)
       else Inr (0, st\<lparr>pthreads := (pthreads st)(p \<mapsto> pt\<lparr>detached := True\<rparr>)\<rparr>))"

text \<open>The result of a join: an error, or the status once the thread has ended.\<close>

datatype join_outcome = JError | JSuspended | JStatus ptr

definition Cpthread_join_end :: "ptr \<Rightarrow> cpt \<Rightarrow> (join_outcome \<times> cpt) result" where
  "Cpthread_join_end p st =
     rbind (deref ''pthread'' (pthreads st) p) (\<lambda>pt.
       Inr (JStatus (joinstatus pt), st\<lparr>pthreads := (pthreads st)(p := None)\<rparr>))"

definition Cpthread_join :: "ptr \<Rightarrow> cpt \<Rightarrow> (join_outcome \<times> cpt) result" where
  "Cpthread_join p st =
     rbind (deref ''pthread'' (pthreads st) p) (\<lambda>pt.
       if pt_magic pt \<noteq> PT_MAGIC then rbind (errcode EINVAL st) (\<lambda>(_, st1). Inr (JError, st1))
       else if pt_thread pt \<noteq> NULL
       then rbind (CthSuspend (st\<lparr>pthreads := (pthreads st)(p \<mapsto> pt\<lparr>waiting := CthCurrent st\<rparr>)\<rparr>)) (\<lambda>st1. Inr (JSuspended, st1))
       else Cpthread_join_end p st)"

definition Cpthread_once :: "bool list \<Rightarrow> ptr \<Rightarrow> cpt \<Rightarrow> (int \<times> bool list \<times> cpt) result" where
  "Cpthread_once flags fn st =
     (if 32 \<le> myrank st then Inl (Exit 1)
      else if flags ! myrank st then Inr (0, flags, st)
      else Inr (1, flags[myrank st := True], st\<lparr>calls := calls st @ [(fn, NULL)]\<rparr>))"

definition Cpthread_start_main :: "ptr \<Rightarrow> ptr \<Rightarrow> ptr \<Rightarrow> ptr \<Rightarrow> ptr \<Rightarrow> ptr \<Rightarrow> cpt \<Rightarrow> cpt result" where
  "Cpthread_start_main p t k fn argc argv st =
     (if myrank st = 0
      then case Cpthread_attr_setdetachstate True Cpthread_attr_init of
             Inl e \<Rightarrow> Inr st
           | Inr attrib \<Rightarrow> rbind (Cpthread_create3 p t k attrib fn (argc, argv, NULL) st) (\<lambda>(_, st1). Inr st1)
      else Inr st)"

section \<open>Mutexes\<close>

definition Cpthread_mutexattr_init :: "Cpthread_syncattr_s \<Rightarrow> Cpthread_syncattr_s" where
  "Cpthread_mutexattr_init a = a\<lparr>sa_magic := MATTR_MAGIC\<rparr>"

definition Cpthread_mutexattr_destroy :: "Cpthread_syncattr_s \<Rightarrow> int + Cpthread_syncattr_s" where
  "Cpthread_mutexattr_destroy a = (if sa_magic a \<noteq> MATTR_MAGIC then Inl EINVAL else Inr (a\<lparr>sa_magic := 0\<rparr>))"

definition Cpthread_mutexattr_getpshared :: "Cpthread_syncattr_s \<Rightarrow> int + int" where
  "Cpthread_mutexattr_getpshared a = (if sa_magic a \<noteq> MATTR_MAGIC then Inl EINVAL else Inr (pshared a))"

definition Cpthread_mutexattr_setpshared :: "int \<Rightarrow> Cpthread_syncattr_s \<Rightarrow> int + Cpthread_syncattr_s" where
  "Cpthread_mutexattr_setpshared v a = (if sa_magic a \<noteq> MATTR_MAGIC then Inl EINVAL else Inr (a\<lparr>pshared := v\<rparr>))"

definition set_users :: "ptr \<Rightarrow> ckq \<Rightarrow> cpt \<Rightarrow> cpt" where
  "set_users m q st = st\<lparr>mutexes := (mutexes st)(m := map_option (\<lambda>s. s\<lparr>users := q\<rparr>) (mutexes st m))\<rparr>"

definition set_cond_users :: "ptr \<Rightarrow> ckq \<Rightarrow> cpt \<Rightarrow> cpt" where
  "set_cond_users c q st = st\<lparr>conds := (conds st)(c := map_option (\<lambda>s. s\<lparr>users := q\<rparr>) (conds st c))\<rparr>"

definition Cpthread_mutex_init :: "ptr \<Rightarrow> Cpthread_syncattr_s \<Rightarrow> cpt \<Rightarrow> (int \<times> cpt) result" where
  "Cpthread_mutex_init m mattr st =
     (if sa_magic mattr \<noteq> MATTR_MAGIC then errcode EINVAL st
      else Inr (0, st\<lparr>mutexes := (mutexes st)(m \<mapsto> \<lparr>s_magic = MUTEX_MAGIC, onpe = mype st, users = CdsFifo_Create\<rparr>)\<rparr>))"

text \<open>The checks at the start of the operations on a mutex; \<open>f\<close> gets the queue of its users.\<close>

definition with_mutex :: "ptr \<Rightarrow> cpt \<Rightarrow> (int \<Rightarrow> 'r) \<Rightarrow> (ckq \<Rightarrow> ('r \<times> cpt) result) \<Rightarrow> ('r \<times> cpt) result" where
  "with_mutex m st ret f =
     rbind (deref ''mutex'' (mutexes st) m) (\<lambda>mx.
       if s_magic mx \<noteq> MUTEX_MAGIC then rbind (errcode EINVAL st) (\<lambda>(r, st1). Inr (ret r, st1))
       else if onpe mx \<noteq> mype st then Inl (Exit 1)
       else f (users mx))"

definition Cpthread_mutex_destroy :: "ptr \<Rightarrow> cpt \<Rightarrow> (int \<times> cpt) result" where
  "Cpthread_mutex_destroy m st =
     with_mutex m st id (\<lambda>q.
       if \<not> CdsFifo_Empty q then errcode EBUSY st
       else Inr (0, st\<lparr>mutexes := (mutexes st)(m := map_option (\<lambda>s. s\<lparr>s_magic := 0\<rparr>) (mutexes st m))\<rparr>))"

text \<open>Joining the users of a mutex, and waiting if it is not free.\<close>

definition mutex_enter :: "ptr \<Rightarrow> ckq \<Rightarrow> cpt \<Rightarrow> (int option \<times> cpt) result" where
  "mutex_enter m q st =
     (let q1 = CdsFifo_Enqueue q (CthCurrent st);
          st1 = set_users m q1 st
      in if CdsFifo_Peek q1 \<noteq> CthCurrent st
         then rbind (CthSuspend st1) (\<lambda>st2. Inr (None, st2))
         else Inr (Some 0, st1))"

definition Cpthread_mutex_lock :: "ptr \<Rightarrow> cpt \<Rightarrow> (int option \<times> cpt) result" where
  "Cpthread_mutex_lock m st = with_mutex m st Some (\<lambda>q. mutex_enter m q st)"

definition Cpthread_mutex_trylock :: "ptr \<Rightarrow> cpt \<Rightarrow> (int \<times> cpt) result" where
  "Cpthread_mutex_trylock m st =
     with_mutex m st id (\<lambda>q.
       if \<not> CdsFifo_Empty q then errcode EBUSY st
       else Inr (0, set_users m (CdsFifo_Enqueue q (CthCurrent st)) st))"

text \<open>Giving up a mutex: the next user, if there is one, is awakened.\<close>

definition mutex_leave :: "ptr \<Rightarrow> ckq \<Rightarrow> cpt \<Rightarrow> cpt result" where
  "mutex_leave m q st =
     (let q1 = snd (CdsFifo_Pop q);
          st1 = set_users m q1 st;
          sleeper = CdsFifo_Peek q1
      in if sleeper \<noteq> NULL then CthAwaken sleeper st1 else Inr st1)"

definition Cpthread_mutex_unlock :: "ptr \<Rightarrow> cpt \<Rightarrow> (int \<times> cpt) result" where
  "Cpthread_mutex_unlock m st =
     with_mutex m st id (\<lambda>q.
       if CdsFifo_Peek q \<noteq> CthCurrent st then errcode EPERM st
       else rbind (mutex_leave m q st) (\<lambda>st1. Inr (0, st1)))"

section \<open>Condition variables\<close>

definition Cpthread_condattr_init :: "Cpthread_syncattr_s \<Rightarrow> Cpthread_syncattr_s" where
  "Cpthread_condattr_init a = a\<lparr>sa_magic := CATTR_MAGIC\<rparr>"

definition Cpthread_condattr_destroy :: "Cpthread_syncattr_s \<Rightarrow> int + Cpthread_syncattr_s" where
  "Cpthread_condattr_destroy a = (if sa_magic a \<noteq> CATTR_MAGIC then Inl EINVAL else Inr a)"

definition Cpthread_condattr_getpshared :: "Cpthread_syncattr_s \<Rightarrow> int + int" where
  "Cpthread_condattr_getpshared a = (if sa_magic a \<noteq> CATTR_MAGIC then Inl EINVAL else Inr (pshared a))"

definition Cpthread_condattr_setpshared :: "int \<Rightarrow> Cpthread_syncattr_s \<Rightarrow> int + Cpthread_syncattr_s" where
  "Cpthread_condattr_setpshared v a = (if sa_magic a \<noteq> CATTR_MAGIC then Inl EINVAL else Inr (a\<lparr>pshared := v\<rparr>))"

definition Cpthread_cond_init :: "ptr \<Rightarrow> Cpthread_syncattr_s \<Rightarrow> cpt \<Rightarrow> (int \<times> cpt) result" where
  "Cpthread_cond_init c cattr st =
     (if sa_magic cattr \<noteq> CATTR_MAGIC then errcode EINVAL st
      else Inr (0, st\<lparr>conds := (conds st)(c \<mapsto> \<lparr>s_magic = COND_MAGIC, onpe = mype st, users = CdsFifo_Create\<rparr>)\<rparr>))"

definition with_cond :: "ptr \<Rightarrow> cpt \<Rightarrow> (ckq \<Rightarrow> (int \<times> cpt) result) \<Rightarrow> (int \<times> cpt) result" where
  "with_cond c st f =
     rbind (deref ''cond'' (conds st) c) (\<lambda>cv.
       if s_magic cv \<noteq> COND_MAGIC then errcode EINVAL st
       else if onpe cv \<noteq> mype st then Inl (Exit 1)
       else f (users cv))"

definition Cpthread_cond_destroy :: "ptr \<Rightarrow> cpt \<Rightarrow> (int \<times> cpt) result" where
  "Cpthread_cond_destroy c st =
     with_cond c st (\<lambda>q. Inr (0, st\<lparr>conds := (conds st)(c := map_option (\<lambda>s. s\<lparr>s_magic := 0\<rparr>) (conds st c))\<rparr>))"

text \<open>The part of the wait up to its first suspension, and what the thread does when it is awakened.\<close>

definition Cpthread_cond_wait :: "ptr \<Rightarrow> ptr \<Rightarrow> cpt \<Rightarrow> (int option \<times> cpt) result" where
  "Cpthread_cond_wait c m st =
     rbind (deref ''cond'' (conds st) c) (\<lambda>cv.
       rbind (deref ''mutex'' (mutexes st) m) (\<lambda>mx.
         if s_magic cv \<noteq> COND_MAGIC \<or> s_magic mx \<noteq> MUTEX_MAGIC
         then rbind (errcode EINVAL st) (\<lambda>(r, st1). Inr (Some r, st1))
         else if onpe cv \<noteq> mype st \<or> onpe mx \<noteq> mype st then Inl (Exit 1)
         else if CdsFifo_Peek (users mx) \<noteq> CthCurrent st then rbind (errcode EPERM st) (\<lambda>(r, st1). Inr (Some r, st1))
         else rbind (mutex_leave m (users mx) st) (\<lambda>st1.
                rbind (CthSuspend (set_cond_users c (CdsFifo_Enqueue (users cv) (CthCurrent st)) st1)) (\<lambda>st2. Inr (None, st2)))))"

definition cond_wait_resumed :: "ptr \<Rightarrow> cpt \<Rightarrow> (int option \<times> cpt) result" where
  "cond_wait_resumed m st = rbind (deref ''mutex'' (mutexes st) m) (\<lambda>mx. mutex_enter m (users mx) st)"

definition Cpthread_cond_signal :: "ptr \<Rightarrow> cpt \<Rightarrow> (int \<times> cpt) result" where
  "Cpthread_cond_signal c st =
     with_cond c st (\<lambda>q.
       let (sleeper, q1) = CdsFifo_Dequeue q;
           st1 = set_cond_users c q1 st
       in rbind (if sleeper \<noteq> NULL then CthAwaken sleeper st1 else Inr st1) (\<lambda>st2. Inr (0, st2)))"

function broadcast_loop :: "ckq \<Rightarrow> cpt \<Rightarrow> (ckq \<times> cpt) result" where
  "broadcast_loop q st =
     (if fst (CdsFifo_Dequeue q) = NULL then Inr (snd (CdsFifo_Dequeue q), st)
      else case CthAwaken (fst (CdsFifo_Dequeue q)) st of
             Inl e \<Rightarrow> Inl e
           | Inr st1 \<Rightarrow> broadcast_loop (snd (CdsFifo_Dequeue q)) st1)"
  by auto
termination
  by (relation "measure (\<lambda>(q, st). qlen q)") (auto simp: CdsFifo_Dequeue_def ckq_deq_def split: if_splits)

declare broadcast_loop.simps [simp del]

definition Cpthread_cond_broadcast :: "ptr \<Rightarrow> cpt \<Rightarrow> (int \<times> cpt) result" where
  "Cpthread_cond_broadcast c st =
     with_cond c st (\<lambda>q. rbind (broadcast_loop q st) (\<lambda>(q1, st1). Inr (0, set_cond_users c q1 st1)))"

end
