(* ===== verification/CptSystem.thy ===== *)
theory CptSystem
  imports Cpthreads
begin

text \<open>
  A system of POSIX-style threads that use mutexes and condition variables: the running thread
  calls the operations of \<^verbatim>\<open>conv-core/cpthreads.c\<close> in any order, and when it suspends the
  scheduler resumes the thread at the front of its queue.  The invariant is stated on an abstract view
  of the state: the threads ready to run, and the lists of users of mutexes and condition variables.
\<close>

section \<open>The abstract view\<close>

definition ready :: "cpt \<Rightarrow> ptr list" where
  "ready st = map (\<lambda>k. the (tokens st k)) (schedq st)"

definition musers :: "cpt \<Rightarrow> ptr \<Rightarrow> ptr list" where
  "musers st m = (case mutexes st m of None \<Rightarrow> [] | Some mx \<Rightarrow> ckq_list (users mx))"

definition cusers :: "cpt \<Rightarrow> ptr \<Rightarrow> ptr list" where
  "cusers st c = (case conds st c of None \<Rightarrow> [] | Some cv \<Rightarrow> ckq_list (users cv))"

definition normal :: "cpt \<Rightarrow> ptr set" where
  "normal st = dom (threads st) - {CthSchedulingThread st}"

definition threads_ok :: "cpt \<Rightarrow> bool" where
  "threads_ok st \<longleftrightarrow>
     NULL \<notin> dom (threads st) \<and>
     (\<exists>th. threads st (CthSchedulingThread st) = Some th \<and> \<not> exiting th) \<and>
     (\<forall>t \<in> normal st. \<forall>th. threads st t = Some th \<longrightarrow> suspendable th \<and> \<not> exiting th \<and> tokens st (token th) = Some t) \<and>
     (\<forall>k \<in> set (schedq st). \<exists>t \<in> normal st. tokens st k = Some t)"

definition queues_ok :: "cpt \<Rightarrow> bool" where
  "queues_ok st \<longleftrightarrow>
     (\<forall>m mx. mutexes st m = Some mx \<longrightarrow> ckq_ok (users mx)) \<and> (\<forall>c cv. conds st c = Some cv \<longrightarrow> ckq_ok (users cv))"

text \<open>Two states that agree on everything but the scheduling.\<close>

definition same_sync :: "cpt \<Rightarrow> cpt \<Rightarrow> bool" where
  "same_sync st st' \<longleftrightarrow> mutexes st' = mutexes st \<and> conds st' = conds st \<and> mype st' = mype st \<and>
     CthSchedulingThread st' = CthSchedulingThread st \<and> normal st' = normal st"

lemma same_syncD:
  assumes "same_sync st st'"
  shows "musers st' = musers st" "cusers st' = cusers st" "normal st' = normal st" "mutexes st' = mutexes st" "conds st' = conds st"
    "CthSchedulingThread st' = CthSchedulingThread st" "mype st' = mype st" "queues_ok st' = queues_ok st"
  using assms by (auto simp: same_sync_def musers_def cusers_def queues_ok_def fun_eq_iff)

lemma CthFixData_sel [simp]:
  "token (CthFixData n t) = token t" "suspendable (CthFixData n t) = suspendable t" "exiting (CthFixData n t) = exiting t"
  "scheduled (CthFixData n t) = scheduled t"
  by (simp_all add: CthFixData_def)

lemma awaken_effect:
  assumes ok: "threads_ok st" and t: "t \<in> normal st"
  shows "\<exists>st'. CthAwaken t st = Inr st' \<and> threads_ok st' \<and> same_sync st st' \<and> ready st' = ready st @ [t] \<and> CthCurrent st' = CthCurrent st"
proof -
  obtain th where th: "threads st t = Some th" "tokens st (token th) = Some t" using ok t by (auto simp: normal_def threads_ok_def)
  let ?st = "set_thread t (th\<lparr>scheduled := scheduled th + 1\<rparr>) (CthEnqueueNormalThread (token th) st)"
  have norm: "normal ?st = normal st" using th by (auto simp: normal_def set_thread_def CthEnqueueNormalThread_def)
  have "CthAwaken t st = Inr ?st" using th by (simp add: CthAwaken_def get_thread_def)
  moreover have "threads_ok ?st" using ok t th unfolding threads_ok_def norm
    by (auto simp: set_thread_def CthEnqueueNormalThread_def)
  moreover have "same_sync st ?st" unfolding same_sync_def norm by (simp add: set_thread_def CthEnqueueNormalThread_def)
  moreover have "ready ?st = ready st @ [t]" using th by (simp add: ready_def set_thread_def CthEnqueueNormalThread_def)
  ultimately show ?thesis by (intro exI [of _ ?st]) (simp add: set_thread_def CthEnqueueNormalThread_def)
qed

lemma resume_effect:
  assumes ok: "threads_ok st" and t: "t \<in> dom (threads st)" and cur: "CthCurrent st \<in> dom (threads st)" "t \<noteq> CthCurrent st"
  shows "\<exists>st'. CthResume t st = Inr st' \<and> threads_ok st' \<and> same_sync st st' \<and> ready st' = ready st \<and> CthCurrent st' = t"
proof -
  obtain th where th: "threads st t = Some th" using t by auto
  obtain tc where tc: "threads st (CthCurrent st) = Some tc" using cur by auto
  have "\<not> exiting tc" using ok tc cur by (cases "CthCurrent st = CthSchedulingThread st") (auto simp: threads_ok_def normal_def)
  let ?st = "(set_thread t (CthFixData (CthDatasize st) th) st)\<lparr>numSwitches := numSwitches st + 1, CthCurrent := t\<rparr>"
  have norm: "normal ?st = normal st" using th by (auto simp: normal_def set_thread_def)
  have "CthResume t st = Inr ?st"
    using th tc cur \<open>\<not> exiting tc\<close> by (simp add: CthResume_def Let_def CthBaseResume_def get_thread_def set_thread_def)
  moreover have "threads_ok ?st" using ok th unfolding threads_ok_def norm by (auto simp: set_thread_def)
  moreover have "same_sync st ?st" unfolding same_sync_def norm by (simp add: set_thread_def)
  ultimately show ?thesis by (intro exI [of _ ?st]) (simp add: set_thread_def ready_def)
qed

lemma suspend_effect:
  assumes ok: "threads_ok st" and t: "CthCurrent st \<in> normal st"
  shows "\<exists>st'. CthSuspend st = Inr st' \<and> threads_ok st' \<and> same_sync st st' \<and> ready st' = ready st \<and>
    CthCurrent st' = CthSchedulingThread st"
proof -
  let ?t = "CthCurrent st"
  obtain th where th: "threads st ?t = Some th" "suspendable th" using ok t by (auto simp: normal_def threads_ok_def)
  let ?st = "if 0 < scheduled th then set_thread ?t (th\<lparr>scheduled := scheduled th - 1\<rparr>) st else st"
  have norm: "normal ?st = normal st" "dom (threads ?st) = dom (threads st)" using th by (auto simp: normal_def set_thread_def)
  have ok': "threads_ok ?st" using ok t th unfolding threads_ok_def norm by (auto simp: set_thread_def)
  have same: "same_sync st ?st" unfolding same_sync_def norm by (simp add: set_thread_def)
  have cur: "CthCurrent ?st = ?t" "CthSchedulingThread ?st = CthSchedulingThread st" "ready ?st = ready st" by (simp_all add: set_thread_def ready_def)
  have "CthSchedulingThread st \<in> dom (threads ?st)" "?t \<in> dom (threads ?st)" "CthSchedulingThread st \<noteq> ?t"
    using ok t unfolding norm by (auto simp: threads_ok_def normal_def)
  from resume_effect [OF ok' this(1)] this(2,3) obtain st' where
    st': "CthResume (CthSchedulingThread st) ?st = Inr st'" "threads_ok st'" "same_sync ?st st'" "ready st' = ready ?st"
      "CthCurrent st' = CthSchedulingThread st" unfolding cur by blast
  have "CthSuspend st = Inr st'" using th st'(1) by (simp add: CthSuspend_def get_thread_def)
  then show ?thesis using st' same cur by (intro exI [of _ st']) (simp add: same_sync_def)
qed

lemma schedule_effect:
  assumes ok: "threads_ok st" and cur: "CthCurrent st = CthSchedulingThread st" and r: "ready st = t # ts"
  shows "\<exists>st'. schedule st = Inr st' \<and> threads_ok st' \<and> same_sync st st' \<and> ready st' = ts \<and> CthCurrent st' = t"
proof -
  obtain k ks where q: "schedq st = k # ks" "t = the (tokens st k)" "ts = map (\<lambda>k. the (tokens st k)) ks"
    using r by (cases "schedq st") (auto simp: ready_def)
  then have k: "tokens st k = Some t" "t \<in> normal st" using ok by (auto simp: threads_ok_def)
  let ?st = "st\<lparr>schedq := ks\<rparr>"
  have norm: "normal ?st = normal st" by (simp add: normal_def)
  have ok': "threads_ok ?st" using ok q unfolding threads_ok_def norm by auto
  have same: "same_sync st ?st" unfolding same_sync_def norm by simp
  have "t \<in> dom (threads ?st)" "CthCurrent ?st \<in> dom (threads ?st)" "t \<noteq> CthCurrent ?st" "t \<noteq> NULL"
    using ok k cur by (auto simp: threads_ok_def normal_def)
  from resume_effect [OF ok' this(1-3)] obtain st' where
    st': "CthResume t ?st = Inr st'" "threads_ok st'" "same_sync ?st st'" "ready st' = ready ?st" "CthCurrent st' = t" by blast
  have "schedule st = Inr st'" using q k st'(1) \<open>t \<noteq> NULL\<close> by (simp add: schedule_def CthResumeNormalThread_def)
  then show ?thesis using st' same q by (intro exI [of _ st']) (simp add: same_sync_def ready_def)
qed

section \<open>Where a thread is\<close>

text \<open>
  A thread executes its own code, or is suspended in \<^verbatim>\<open>Cpthread_mutex_lock\<close>, in the first or the second
  suspension of \<^verbatim>\<open>Cpthread_cond_wait\<close>, or in a yield.
\<close>

datatype pc = Run | InLock ptr | InWait ptr ptr | InRelock ptr | Yielded

definition waits_on :: "pc \<Rightarrow> ptr \<Rightarrow> bool" where
  "waits_on p m \<longleftrightarrow> p = InLock m \<or> p = InRelock m"

text \<open>The threads that ought to be resumed.\<close>

definition wants :: "(ptr \<Rightarrow> ptr list) \<Rightarrow> (ptr \<Rightarrow> ptr list) \<Rightarrow> pc \<Rightarrow> ptr \<Rightarrow> bool" where
  "wants mu cv p t =
     (case p of
        Run \<Rightarrow> False
      | Yielded \<Rightarrow> True
      | InLock m \<Rightarrow> mu m \<noteq> [] \<and> hd (mu m) = t
      | InRelock m \<Rightarrow> mu m \<noteq> [] \<and> hd (mu m) = t
      | InWait c m \<Rightarrow> t \<notin> set (cv c))"

definition queue_inv :: "ptr set \<Rightarrow> (ptr \<Rightarrow> ptr list) \<Rightarrow> (ptr \<Rightarrow> ptr list) \<Rightarrow> (ptr \<Rightarrow> pc) \<Rightarrow> (ptr \<times> ptr) set \<Rightarrow> bool" where
  "queue_inv T mu cv pcs owns \<longleftrightarrow>
     (\<forall>m. distinct (mu m) \<and> set (mu m) \<subseteq> T) \<and> (\<forall>c. distinct (cv c) \<and> set (cv c) \<subseteq> T) \<and>
     (\<forall>m t. t \<in> set (mu m) \<longleftrightarrow> (t, m) \<in> owns \<or> t \<in> T \<and> waits_on (pcs t) m) \<and>
     (\<forall>m t. (t, m) \<in> owns \<longrightarrow> mu m \<noteq> [] \<and> hd (mu m) = t \<and> \<not> waits_on (pcs t) m \<and> (\<forall>c. pcs t \<noteq> InWait c m)) \<and>
     (\<forall>c t. t \<in> set (cv c) \<longrightarrow> (\<exists>m. pcs t = InWait c m))"

definition ready_inv ::
  "ptr set \<Rightarrow> ptr \<Rightarrow> ptr list \<Rightarrow> (ptr \<Rightarrow> ptr list) \<Rightarrow> (ptr \<Rightarrow> ptr list) \<Rightarrow> (ptr \<Rightarrow> pc) \<Rightarrow> bool" where
  "ready_inv T cur rdy mu cv pcs \<longleftrightarrow>
     distinct rdy \<and> set rdy = {t \<in> T - {cur}. wants mu cv (pcs t) t} \<and>
     (cur \<in> T \<longrightarrow> pcs cur = Run \<or> wants mu cv (pcs cur) cur) \<and> (\<forall>t \<in> T. t \<noteq> cur \<longrightarrow> pcs t \<noteq> Run)"

definition sync_inv where
  "sync_inv T cur rdy mu cv pcs owns \<longleftrightarrow> queue_inv T mu cv pcs owns \<and> ready_inv T cur rdy mu cv pcs"

lemma queue_invD:
  assumes "queue_inv T mu cv pcs owns"
  shows "distinct (mu m)" "set (mu m) \<subseteq> T" "distinct (cv c)" "set (cv c) \<subseteq> T"
    "t \<in> set (mu m) \<longleftrightarrow> (t, m) \<in> owns \<or> t \<in> T \<and> waits_on (pcs t) m"
    "(t, m) \<in> owns \<Longrightarrow> mu m \<noteq> [] \<and> hd (mu m) = t \<and> \<not> waits_on (pcs t) m \<and> (\<forall>c. pcs t \<noteq> InWait c m)"
    "t \<in> set (cv c) \<Longrightarrow> \<exists>m. pcs t = InWait c m"
  using assms unfolding queue_inv_def by blast+

lemma queue_invI:
  assumes "\<And>m. distinct (mu m) \<and> set (mu m) \<subseteq> T" "\<And>c. distinct (cv c) \<and> set (cv c) \<subseteq> T"
    and "\<And>m t. t \<in> set (mu m) \<longleftrightarrow> (t, m) \<in> owns \<or> t \<in> T \<and> waits_on (pcs t) m"
    and "\<And>m t. (t, m) \<in> owns \<Longrightarrow> mu m \<noteq> [] \<and> hd (mu m) = t \<and> \<not> waits_on (pcs t) m \<and> (\<forall>c. pcs t \<noteq> InWait c m)"
    and "\<And>c t. t \<in> set (cv c) \<Longrightarrow> \<exists>m. pcs t = InWait c m"
  shows "queue_inv T mu cv pcs owns"
  unfolding queue_inv_def
proof (intro conjI)
  show "\<forall>m t. t \<in> set (mu m) \<longleftrightarrow> (t, m) \<in> owns \<or> t \<in> T \<and> waits_on (pcs t) m" by (intro allI) (rule assms(3))
  show "\<forall>m t. (t, m) \<in> owns \<longrightarrow> mu m \<noteq> [] \<and> hd (mu m) = t \<and> \<not> waits_on (pcs t) m \<and> (\<forall>c. pcs t \<noteq> InWait c m)"
    by (intro allI impI) (rule assms(4))
qed (intro allI impI, rule assms, assumption?)+

lemma not_user:
  assumes "queue_inv T mu cv pcs owns" "pcs t = Run \<or> (\<exists>c. pcs t = InWait c m)"
  shows "t \<in> set (mu m) \<longleftrightarrow> (t, m) \<in> owns \<and> pcs t = Run"
  using queue_invD(5) [OF assms(1), of t m] queue_invD(6) [OF assms(1), of t m] assms(2) by (auto simp: waits_on_def)

text \<open>The running thread takes a free mutex.\<close>

lemma enter_free:
  assumes inv: "sync_inv T t rdy mu cv pcs owns" and t: "t \<in> T" "mu m = []"
    and pc: "pcs t = Run \<or> (\<exists>c. pcs t = InWait c m)"
  shows "sync_inv T t rdy (mu(m := [t])) cv (pcs(t := Run)) (insert (t, m) owns)"
proof -
  have q: "queue_inv T mu cv pcs owns" and r: "ready_inv T t rdy mu cv pcs" using inv by (auto simp: sync_inv_def)
  have none: "(s, m) \<notin> owns" "s \<in> T \<Longrightarrow> \<not> waits_on (pcs s) m" for s using queue_invD(5) [OF q, of s m] t(2) by auto
  have not_cv: "t \<notin> set (cv c)" for c using queue_invD(7) [OF q, of t c] r t(1) pc by (auto simp: ready_inv_def wants_def)
  have "queue_inv T (mu(m := [t])) cv (pcs(t := Run)) (insert (t, m) owns)"
    using q t none not_cv pc unfolding queue_inv_def by (auto simp: waits_on_def)
  moreover have "wants (mu(m := [t])) cv (pcs s) s = wants mu cv (pcs s) s" if "s \<in> T" for s
    using none(2) [OF that] by (auto simp: wants_def waits_on_def split: pc.splits)
  then have "ready_inv T t rdy (mu(m := [t])) cv (pcs(t := Run))" using r unfolding ready_inv_def by auto
  ultimately show ?thesis by (simp add: sync_inv_def)
qed

text \<open>The running thread queues up behind the users of a mutex and suspends.\<close>

lemma enter_busy:
  assumes inv: "sync_inv T t rdy mu cv pcs owns" and t: "t \<in> T" "mu m \<noteq> []" "t \<notin> set (mu m)" "S \<notin> T"
    and pc: "pcs t = Run \<or> (\<exists>c. pcs t = InWait c m)" and p: "waits_on p m"
  shows "sync_inv T S rdy (mu(m := mu m @ [t])) cv (pcs(t := p)) owns"
proof -
  have q: "queue_inv T mu cv pcs owns" and r: "ready_inv T t rdy mu cv pcs" using inv by (auto simp: sync_inv_def)
  have not_cv: "t \<notin> set (cv c)" for c using queue_invD(7) [OF q, of t c] r t(1) pc by (auto simp: ready_inv_def wants_def)
  have no: "(t, m) \<notin> owns" using queue_invD(6) [OF q, of t m] t hd_in_set by metis
  have other: "\<not> waits_on p k \<and> \<not> waits_on (pcs t) k \<and> (\<forall>c. p \<noteq> InWait c k)" if "k \<noteq> m" for k using that p pc by (auto simp: waits_on_def)
  have mu: "set (mu k) = {s. (s, k) \<in> owns \<or> s \<in> T \<and> waits_on (pcs s) k}" for k using queue_invD(5) [OF q] by blast
  have "s \<in> set ((mu(m := mu m @ [t])) k) \<longleftrightarrow> (s, k) \<in> owns \<or> s \<in> T \<and> waits_on ((pcs(t := p)) s) k" for s k
    using other [of k] t p by (cases "k = m"; cases "s = t") (auto simp: mu)
  moreover have "(mu(m := mu m @ [t])) k \<noteq> [] \<and> hd ((mu(m := mu m @ [t])) k) = s \<and> \<not> waits_on ((pcs(t := p)) s) k \<and> (\<forall>c. (pcs(t := p)) s \<noteq> InWait c k)"
    if "(s, k) \<in> owns" for s k
    using queue_invD(6) [OF q that] other [of k] no that t(2) by (cases "k = m"; cases "s = t") auto
  ultimately have "queue_inv T (mu(m := mu m @ [t])) cv (pcs(t := p)) owns"
    using q t not_cv unfolding queue_inv_def by auto
  moreover have "wants (mu(m := mu m @ [t])) cv (pcs s) s = wants mu cv (pcs s) s" for s
    using t(2) by (auto simp: wants_def split: pc.splits)
  moreover have "\<not> wants (mu(m := mu m @ [t])) cv p t" using p t by (auto simp: wants_def waits_on_def)
  moreover have "p \<noteq> Run" using p by (auto simp: waits_on_def)
  ultimately show ?thesis using r t unfolding sync_inv_def ready_inv_def by auto
qed

text \<open>The running thread gives up a mutex; the next user is awakened.\<close>

lemma leave:
  assumes inv: "sync_inv T t rdy mu cv pcs owns" and t: "t \<in> T" "pcs t = Run" "mu m = t # us"
  shows "sync_inv T t (rdy @ (case us of [] \<Rightarrow> [] | s # _ \<Rightarrow> [s])) (mu(m := us)) cv pcs (owns - {(t, m)})"
proof -
  have q: "queue_inv T mu cv pcs owns" and r: "ready_inv T t rdy mu cv pcs" using inv by (auto simp: sync_inv_def)
  have d: "distinct (t # us)" using queue_invD(1) [OF q, of m] t by simp
  have own: "(t, m) \<in> owns" using queue_invD(5) [OF q, of t m] t by (auto simp: waits_on_def)
  have others: "s \<in> set us \<Longrightarrow> s \<in> T \<and> waits_on (pcs s) m" for s
    using queue_invD(5) [OF q, of s m] queue_invD(6) [OF q, of s m] t(3) d by auto
  have only: "(s, m) \<in> owns \<Longrightarrow> s = t" for s using queue_invD(6) [OF q, of s m] t(3) by auto
  have "s \<in> set ((mu(m := us)) k) \<longleftrightarrow> (s, k) \<in> owns - {(t, m)} \<or> s \<in> T \<and> waits_on (pcs s) k" for s k
    using queue_invD(5) [OF q, of s k] others [of s] only [of s] t d by (cases "k = m") (auto simp: waits_on_def)
  then have "queue_inv T (mu(m := us)) cv pcs (owns - {(t, m)})"
    using q t d only others unfolding queue_inv_def by auto
  moreover have "ready_inv T t (rdy @ (case us of [] \<Rightarrow> [] | s # _ \<Rightarrow> [s])) (mu(m := us)) cv pcs"
  proof (cases us)
    case Nil
    then have "\<not> waits_on (pcs s) m" if "s \<in> T" "s \<noteq> t" for s using queue_invD(5) [OF q, of s m] that t by auto
    then have "wants (mu(m := us)) cv (pcs s) s = wants mu cv (pcs s) s" if "s \<in> T" "s \<noteq> t" for s
      using that by (auto simp: wants_def waits_on_def split: pc.splits)
    then show ?thesis using r t Nil unfolding ready_inv_def by auto
  next
    case (Cons n ns)
    have n: "n \<in> T" "waits_on (pcs n) m" "n \<noteq> t" using others [of n] d Cons by auto
    have "wants (mu(m := us)) cv (pcs s) s \<longleftrightarrow> wants mu cv (pcs s) s \<or> s = n" if "s \<noteq> t" for s
      using that n t Cons by (auto simp: wants_def waits_on_def split: pc.splits)
    moreover have "\<not> wants mu cv (pcs n) n" using n t by (auto simp: wants_def waits_on_def)
    ultimately show ?thesis using r t Cons n unfolding ready_inv_def by auto
  qed
  ultimately show ?thesis by (simp add: sync_inv_def)
qed

text \<open>The running thread joins the waiters of a condition and suspends.\<close>

lemma start_wait:
  assumes inv: "sync_inv T t rdy mu cv pcs owns" and t: "t \<in> T" "pcs t = Run" "(t, m) \<notin> owns" "S \<notin> T"
  shows "sync_inv T S rdy mu (cv(c := cv c @ [t])) (pcs(t := InWait c m)) owns"
proof -
  have q: "queue_inv T mu cv pcs owns" and r: "ready_inv T t rdy mu cv pcs" using inv by (auto simp: sync_inv_def)
  have not_cv: "t \<notin> set (cv k)" for k using queue_invD(7) [OF q, of t k] t by auto
  have "queue_inv T mu (cv(c := cv c @ [t])) (pcs(t := InWait c m)) owns"
    using q t not_cv unfolding queue_inv_def by (auto simp: waits_on_def)
  moreover have "wants mu (cv(c := cv c @ [t])) (pcs s) s = wants mu cv (pcs s) s" if "s \<noteq> t" for s
    using that by (auto simp: wants_def split: pc.splits)
  moreover have "\<not> wants mu (cv(c := cv c @ [t])) (InWait c m) t" by (simp add: wants_def)
  ultimately show ?thesis using r t unfolding sync_inv_def ready_inv_def by auto
qed

lemma view_signal:
  assumes inv: "sync_inv T t rdy mu cv pcs owns" and t: "t \<in> T" "pcs t = Run" "cv c = s # cs"
  shows "s \<in> T \<and> sync_inv T t (rdy @ [s]) mu (cv(c := cs)) pcs owns"
proof -
  have q: "queue_inv T mu cv pcs owns" and r: "ready_inv T t rdy mu cv pcs" using inv by (auto simp: sync_inv_def)
  have d: "distinct (s # cs)" "s \<in> T" using queue_invD(3,4) [OF q, of c] t by auto
  obtain m where m: "pcs s = InWait c m" using queue_invD(7) [OF q, of s c] t by auto
  have "set cs \<subseteq> T" using queue_invD(4) [OF q, of c] t by auto
  moreover have "\<exists>m. pcs x = InWait c m" if "x \<in> set cs" for x using queue_invD(7) [OF q, of x c] t that by auto
  ultimately have "queue_inv T mu (cv(c := cs)) pcs owns" using q d unfolding queue_inv_def by auto
  moreover have "wants mu (cv(c := cs)) (pcs x) x \<longleftrightarrow> wants mu cv (pcs x) x \<or> x = s" for x
    using t d m by (auto simp: wants_def split: pc.splits)
  moreover have "\<not> wants mu cv (pcs s) s" "s \<noteq> t" using m t by (auto simp: wants_def)
  ultimately show ?thesis using r t d unfolding sync_inv_def ready_inv_def by auto
qed

lemma view_yield:
  assumes inv: "sync_inv T t rdy mu cv pcs owns" and t: "t \<in> T" "pcs t = Run" "S \<notin> T"
  shows "sync_inv T S (rdy @ [t]) mu cv (pcs(t := Yielded)) owns"
proof -
  have q: "queue_inv T mu cv pcs owns" and r: "ready_inv T t rdy mu cv pcs" using inv by (auto simp: sync_inv_def)
  have "t \<notin> set (cv k)" for k using queue_invD(7) [OF q, of t k] t by auto
  then have "queue_inv T mu cv (pcs(t := Yielded)) owns" using q t unfolding queue_inv_def by (auto simp: waits_on_def)
  then show ?thesis using r t unfolding sync_inv_def ready_inv_def by (auto simp: wants_def)
qed

lemma view_pick:
  assumes inv: "sync_inv T S (t # ts) mu cv pcs owns" and S: "S \<notin> T"
  shows "t \<in> T \<and> sync_inv T t ts mu cv pcs owns"
  using assms unfolding sync_inv_def ready_inv_def by (auto simp: wants_def)

text \<open>A resumed thread returns from a suspended call.\<close>

lemma return_lock:
  assumes inv: "sync_inv T t rdy mu cv pcs owns" and t: "t \<in> T" "waits_on (pcs t) m"
  shows "sync_inv T t rdy mu cv (pcs(t := Run)) (insert (t, m) owns)"
proof -
  have q: "queue_inv T mu cv pcs owns" and r: "ready_inv T t rdy mu cv pcs" using inv by (auto simp: sync_inv_def)
  have hd: "mu m \<noteq> [] \<and> hd (mu m) = t" using r t by (auto simp: ready_inv_def wants_def waits_on_def)
  have cv: "t \<notin> set (cv c)" for c using queue_invD(7) [OF q, of t c] t by (auto simp: waits_on_def)
  have only: "k = m" if "waits_on (pcs t) k" for k using that t by (auto simp: waits_on_def)
  have in_m: "t \<in> set (mu m)" using hd by (metis hd_in_set)
  have "queue_inv T mu cv (pcs(t := Run)) (insert (t, m) owns)"
  proof (rule queue_invI)
    show "distinct (mu k) \<and> set (mu k) \<subseteq> T" "distinct (cv c) \<and> set (cv c) \<subseteq> T" for k c using queue_invD(1-4) [OF q] by auto
    show "s \<in> set (mu k) \<longleftrightarrow> (s, k) \<in> insert (t, m) owns \<or> s \<in> T \<and> waits_on ((pcs(t := Run)) s) k" for s k
      using queue_invD(5) [OF q, of s k] in_m only [of k] t by (cases "s = t") (auto simp: waits_on_def)
    show "mu k \<noteq> [] \<and> hd (mu k) = s \<and> \<not> waits_on ((pcs(t := Run)) s) k \<and> (\<forall>c. (pcs(t := Run)) s \<noteq> InWait c k)"
      if "(s, k) \<in> insert (t, m) owns" for s k
      using that hd queue_invD(6) [OF q, of s k] by (cases "s = t") (auto simp: waits_on_def)
    show "\<exists>k. (pcs(t := Run)) s = InWait c k" if "s \<in> set (cv c)" for s c
      using that cv [of c] queue_invD(7) [OF q that] by (cases "s = t") auto
  qed
  then show ?thesis using r t unfolding sync_inv_def ready_inv_def by auto
qed

lemma return_yield:
  assumes inv: "sync_inv T t rdy mu cv pcs owns" and t: "t \<in> T" "pcs t = Yielded"
  shows "sync_inv T t rdy mu cv (pcs(t := Run)) owns"
proof -
  have q: "queue_inv T mu cv pcs owns" and r: "ready_inv T t rdy mu cv pcs" using inv by (auto simp: sync_inv_def)
  have "t \<notin> set (cv c)" for c using queue_invD(7) [OF q, of t c] t by auto
  then have "queue_inv T mu cv (pcs(t := Run)) owns" using q t unfolding queue_inv_def by (auto simp: waits_on_def)
  then show ?thesis using r t unfolding sync_inv_def ready_inv_def by auto
qed

section \<open>Executions\<close>

text \<open>
  \<open>owns\<close> records which thread has returned from taking which mutex and has not given it up.  The threads
  exist from the start, all in the scheduler queue.  No thread locks a mutex whose queue it is already
  in.  \<^verbatim>\<open>Cpthread_mutex_lock\<close> does not prevent this: it returns 0 to the owner and enqueues it once more, the
  first \<^verbatim>\<open>Cpthread_mutex_unlock\<close> then awakens the owner although it is running, and this wakeup can end
  a later wait of that thread for another mutex.
\<close>

inductive cpt_run :: "cpt \<Rightarrow> (ptr \<Rightarrow> pc) \<Rightarrow> (ptr \<times> ptr) set \<Rightarrow> bool" where
  start: "threads_ok st \<Longrightarrow> queues_ok st \<Longrightarrow> CthCurrent st = CthSchedulingThread st \<Longrightarrow> distinct (ready st) \<Longrightarrow>
    set (ready st) = normal st \<Longrightarrow> \<forall>m. musers st m = [] \<Longrightarrow> \<forall>c. cusers st c = [] \<Longrightarrow> cpt_run st (\<lambda>_. Yielded) {}"
| pick: "cpt_run st pcs owns \<Longrightarrow> CthCurrent st = CthSchedulingThread st \<Longrightarrow> ready st \<noteq> [] \<Longrightarrow> schedule st = Inr st' \<Longrightarrow>
    cpt_run st' pcs owns"
| lock: "cpt_run st pcs owns \<Longrightarrow> t = CthCurrent st \<Longrightarrow> t \<in> normal st \<Longrightarrow> pcs t = Run \<Longrightarrow> t \<notin> set (musers st m) \<Longrightarrow>
    Cpthread_mutex_lock m st = Inr (r, st') \<Longrightarrow>
    cpt_run st' (pcs(t := if r = None then InLock m else Run)) (if r = Some 0 then insert (t, m) owns else owns)"
| locked: "cpt_run st pcs owns \<Longrightarrow> t = CthCurrent st \<Longrightarrow> t \<in> normal st \<Longrightarrow> waits_on (pcs t) m \<Longrightarrow>
    cpt_run st (pcs(t := Run)) (insert (t, m) owns)"
| trylock: "cpt_run st pcs owns \<Longrightarrow> t = CthCurrent st \<Longrightarrow> t \<in> normal st \<Longrightarrow> pcs t = Run \<Longrightarrow>
    Cpthread_mutex_trylock m st = Inr (r, st') \<Longrightarrow> cpt_run st' pcs (if r = 0 then insert (t, m) owns else owns)"
| unlock: "cpt_run st pcs owns \<Longrightarrow> t = CthCurrent st \<Longrightarrow> t \<in> normal st \<Longrightarrow> pcs t = Run \<Longrightarrow>
    Cpthread_mutex_unlock m st = Inr (r, st') \<Longrightarrow> cpt_run st' pcs (if r = 0 then owns - {(t, m)} else owns)"
| wait: "cpt_run st pcs owns \<Longrightarrow> t = CthCurrent st \<Longrightarrow> t \<in> normal st \<Longrightarrow> pcs t = Run \<Longrightarrow>
    Cpthread_cond_wait c m st = Inr (r, st') \<Longrightarrow>
    cpt_run st' (pcs(t := if r = None then InWait c m else Run)) (if r = None then owns - {(t, m)} else owns)"
| awakened: "cpt_run st pcs owns \<Longrightarrow> t = CthCurrent st \<Longrightarrow> t \<in> normal st \<Longrightarrow> pcs t = InWait c m \<Longrightarrow>
    cond_wait_resumed m st = Inr (r, st') \<Longrightarrow>
    cpt_run st' (pcs(t := if r = None then InRelock m else Run)) (if r = None then owns else insert (t, m) owns)"
| signal: "cpt_run st pcs owns \<Longrightarrow> t = CthCurrent st \<Longrightarrow> t \<in> normal st \<Longrightarrow> pcs t = Run \<Longrightarrow>
    Cpthread_cond_signal c st = Inr (r, st') \<Longrightarrow> cpt_run st' pcs owns"
| broadcast: "cpt_run st pcs owns \<Longrightarrow> t = CthCurrent st \<Longrightarrow> t \<in> normal st \<Longrightarrow> pcs t = Run \<Longrightarrow>
    Cpthread_cond_broadcast c st = Inr (r, st') \<Longrightarrow> cpt_run st' pcs owns"
| yield: "cpt_run st pcs owns \<Longrightarrow> t = CthCurrent st \<Longrightarrow> t \<in> normal st \<Longrightarrow> pcs t = Run \<Longrightarrow>
    CthYield st = Inr st' \<Longrightarrow> cpt_run st' (pcs(t := Yielded)) owns"
| yielded: "cpt_run st pcs owns \<Longrightarrow> t = CthCurrent st \<Longrightarrow> t \<in> normal st \<Longrightarrow> pcs t = Yielded \<Longrightarrow>
    cpt_run st (pcs(t := Run)) owns"

definition sys_inv :: "cpt \<Rightarrow> (ptr \<Rightarrow> pc) \<Rightarrow> (ptr \<times> ptr) set \<Rightarrow> bool" where
  "sys_inv st pcs owns \<longleftrightarrow> threads_ok st \<and> queues_ok st \<and>
     sync_inv (normal st) (CthCurrent st) (ready st) (musers st) (cusers st) pcs owns"

lemma set_users_view:
  assumes "mutexes st m = Some mx" "ckq_ok q"
  shows "musers (set_users m q st) = (musers st)(m := ckq_list q)" "cusers (set_users m q st) = cusers st"
    "normal (set_users m q st) = normal st" "ready (set_users m q st) = ready st" "CthCurrent (set_users m q st) = CthCurrent st"
    "CthSchedulingThread (set_users m q st) = CthSchedulingThread st" "conds (set_users m q st) = conds st" "mype (set_users m q st) = mype st"
    "threads_ok (set_users m q st) = threads_ok st" "queues_ok st \<Longrightarrow> queues_ok (set_users m q st)"
  using assms by (auto simp: set_users_def musers_def cusers_def normal_def ready_def threads_ok_def queues_ok_def fun_eq_iff)

lemma set_cond_users_view:
  assumes "conds st c = Some cv" "ckq_ok q"
  shows "cusers (set_cond_users c q st) = (cusers st)(c := ckq_list q)" "musers (set_cond_users c q st) = musers st"
    "normal (set_cond_users c q st) = normal st" "ready (set_cond_users c q st) = ready st" "CthCurrent (set_cond_users c q st) = CthCurrent st"
    "CthSchedulingThread (set_cond_users c q st) = CthSchedulingThread st"
    "threads_ok (set_cond_users c q st) = threads_ok st" "queues_ok st \<Longrightarrow> queues_ok (set_cond_users c q st)"
  using assms by (auto simp: set_cond_users_def musers_def cusers_def normal_def ready_def threads_ok_def queues_ok_def fun_eq_iff)

lemma sched_not_normal [simp]: "CthSchedulingThread st \<notin> normal st"
  by (simp add: normal_def)

lemma errcode_inv:
  assumes "sys_inv st pcs owns" "errcode n st = Inr (r, st')"
  shows "r = -1 \<and> sys_inv st' pcs owns"
proof -
  have "st' = st\<lparr>Cpthread_errcode := (Cpthread_errcode st)(CthCurrent st := n)\<rparr>" "r = -1" using assms(2) by (simp_all add: errcode_def)
  moreover have "musers (st\<lparr>Cpthread_errcode := e\<rparr>) = musers st" "cusers (st\<lparr>Cpthread_errcode := e\<rparr>) = cusers st"
    "normal (st\<lparr>Cpthread_errcode := e\<rparr>) = normal st" "ready (st\<lparr>Cpthread_errcode := e\<rparr>) = ready st"
    "threads_ok (st\<lparr>Cpthread_errcode := e\<rparr>) = threads_ok st" "queues_ok (st\<lparr>Cpthread_errcode := e\<rparr>) = queues_ok st" for e
    by (simp_all add: musers_def cusers_def normal_def ready_def threads_ok_def queues_ok_def fun_eq_iff)
  ultimately show ?thesis using assms(1) by (simp add: sys_inv_def)
qed

lemma mutex_enter_inv:
  assumes inv: "sys_inv st pcs owns" and t: "t = CthCurrent st" "t \<in> normal st" "t \<notin> set (musers st m)"
    and mx: "mutexes st m = Some mx" and pc: "pcs t = Run \<or> (\<exists>c. pcs t = InWait c m)" and p: "waits_on p m"
    and enter: "mutex_enter m (users mx) st = Inr (r, st')"
  shows "(r = None \<or> r = Some 0) \<and>
    sys_inv st' (pcs(t := if r = None then p else Run)) (if r = None then owns else insert (t, m) owns)"
proof -
  let ?q = "users mx"
  let ?q1 = "CdsFifo_Enqueue ?q t"
  let ?st = "set_users m ?q1 st"
  have ok: "ckq_ok ?q" "threads_ok st" "queues_ok st" using inv mx by (auto simp: sys_inv_def queues_ok_def)
  have ok1: "ckq_ok ?q1" "ckq_list ?q1 = musers st m @ [t]" using cds.enq [OF ok(1)] mx by (simp_all add: musers_def)
  have peek: "CdsFifo_Peek ?q1 = t \<longleftrightarrow> musers st m = []" using cds.peek_enq [OF ok(1), of t] t(3) mx by (simp add: musers_def)
  note v = set_users_view [OF mx ok1(1)]
  have s: "sync_inv (normal st) t (ready st) (musers st) (cusers st) pcs owns" using inv t by (simp add: sys_inv_def)
  show ?thesis
  proof (cases "musers st m = []")
    case True
    then have "r = Some 0" "st' = ?st" using enter peek t by (simp_all add: mutex_enter_def Let_def)
    then show ?thesis using enter_free [OF s t(2) True pc] v ok ok1(2) True t by (simp add: sys_inv_def)
  next
    case False
    have "threads_ok ?st" "CthCurrent ?st \<in> normal ?st" using v ok t by simp_all
    from suspend_effect [OF this] obtain st2 where
      st2: "CthSuspend ?st = Inr st2" "threads_ok st2" "same_sync ?st st2" "ready st2 = ready ?st" "CthCurrent st2 = CthSchedulingThread ?st" by blast
    then have r: "r = None" "st' = st2" using enter peek False t by (simp_all add: mutex_enter_def Let_def)
    have "sync_inv (normal st) (CthSchedulingThread st) (ready st) ((musers st)(m := musers st m @ [t])) (cusers st) (pcs(t := p)) owns"
      by (rule enter_busy [OF s t(2) False t(3) _ pc p]) simp
    then show ?thesis using r st2 same_syncD [OF st2(3)] v ok ok1(2) by (simp add: sys_inv_def)
  qed
qed

lemma mutex_leave_inv:
  assumes inv: "sys_inv st pcs owns" and t: "t = CthCurrent st" "t \<in> normal st" "pcs t = Run"
    and mx: "mutexes st m = Some mx" and peek: "CdsFifo_Peek (users mx) = t"
  shows "\<exists>st'. mutex_leave m (users mx) st = Inr st' \<and> sys_inv st' pcs (owns - {(t, m)}) \<and> CthCurrent st' = t \<and> normal st' = normal st \<and>
    CthSchedulingThread st' = CthSchedulingThread st \<and> conds st' = conds st"
proof -
  let ?q = "users mx"
  have ok: "ckq_ok ?q" "threads_ok st" "queues_ok st" and s: "sync_inv (normal st) t (ready st) (musers st) (cusers st) pcs owns"
    using inv mx t by (auto simp: sys_inv_def queues_ok_def)
  have tn: "t \<noteq> NULL" using ok(2) t(2) by (auto simp: threads_ok_def normal_def)
  obtain us where us: "musers st m = t # us" using cds.peek [OF ok(1)] peek tn mx by (auto simp: musers_def split: list.splits)
  let ?q1 = "snd (CdsFifo_Pop ?q)"
  have pop: "CdsFifo_Pop = CdsFifo_Dequeue" by (simp add: fun_eq_iff CdsFifo_Pop_def CdsFifo_Dequeue_def)
  have q1: "ckq_ok ?q1" "ckq_list ?q1 = us" using cds.deq [OF ok(1)] us mx by (simp_all add: pop musers_def)
  let ?st = "set_users m ?q1 st"
  note v = set_users_view [OF mx q1(1)]
  have peek1: "CdsFifo_Peek ?q1 = (case us of [] \<Rightarrow> NULL | s # _ \<Rightarrow> s)" using cds.peek [OF q1(1)] q1(2) by simp
  have inv': "sync_inv (normal st) t (ready st @ (case us of [] \<Rightarrow> [] | s # _ \<Rightarrow> [s])) ((musers st)(m := us)) (cusers st) pcs (owns - {(t, m)})"
    by (rule leave [OF s t(2,3) us])
  show ?thesis
  proof (cases us)
    case Nil
    then show ?thesis using inv' v ok q1 peek1 t by (intro exI [of _ ?st]) (simp add: mutex_leave_def Let_def sys_inv_def)
  next
    case (Cons n ns)
    have "queue_inv (normal st) (musers st) (cusers st) pcs owns" using s by (simp add: sync_inv_def)
    then have "n \<in> normal ?st" using queue_invD(2) [of "normal st" "musers st" "cusers st" pcs owns m] us Cons v(3) by auto
    moreover from this have "n \<noteq> NULL" using ok(2) v by (auto simp: threads_ok_def normal_def)
    ultimately obtain st2 where
      st2: "CthAwaken n ?st = Inr st2" "threads_ok st2" "same_sync ?st st2" "ready st2 = ready ?st @ [n]" "CthCurrent st2 = CthCurrent ?st"
      using awaken_effect [of ?st n] v ok by auto
    then show ?thesis using Cons inv' v ok q1 peek1 t same_syncD [OF st2(3)] \<open>n \<noteq> NULL\<close>
      by (intro exI [of _ st2]) (simp add: mutex_leave_def Let_def sys_inv_def)
  qed
qed

lemma with_mutex_cases:
  assumes "with_mutex m st ret f = Inr (r, st')"
  obtains (error) n k where "errcode n st = Inr (k, st')" "r = ret k"
    | (ok) mx where "mutexes st m = Some mx" "f (users mx) = Inr (r, st')"
  using assms
  by (auto simp: with_mutex_def deref_def errcode_def split: option.splits if_splits)

lemma with_cond_cases:
  assumes "with_cond c st f = Inr (r, st')"
  obtains (error) n where "errcode n st = Inr (r, st')"
    | (ok) cv where "conds st c = Some cv" "f (users cv) = Inr (r, st')"
  using assms by (auto simp: with_cond_def deref_def errcode_def split: option.splits if_splits)

lemma lock_inv:
  assumes inv: "sys_inv st pcs owns" and t: "t = CthCurrent st" "t \<in> normal st" "pcs t = Run" "t \<notin> set (musers st m)"
    and step: "Cpthread_mutex_lock m st = Inr (r, st')"
  shows "sys_inv st' (pcs(t := if r = None then InLock m else Run)) (if r = Some 0 then insert (t, m) owns else owns)"
  using step [unfolded Cpthread_mutex_lock_def]
proof (cases rule: with_mutex_cases)
  case (error n k)
  then show ?thesis using errcode_inv [OF inv error(1)] t(3) by (simp add: fun_upd_idem)
next
  case (ok mx)
  have "(r = None \<or> r = Some 0) \<and> sys_inv st' (pcs(t := if r = None then InLock m else Run)) (if r = None then owns else insert (t, m) owns)"
    by (rule mutex_enter_inv [OF inv t(1,2,4) ok(1) _ _ ok(2)]) (use t(3) in \<open>simp_all add: waits_on_def\<close>)
  then show ?thesis by auto
qed

lemma trylock_inv:
  assumes inv: "sys_inv st pcs owns" and t: "t = CthCurrent st" "t \<in> normal st" "pcs t = Run"
    and step: "Cpthread_mutex_trylock m st = Inr (r, st')"
  shows "sys_inv st' pcs (if r = 0 then insert (t, m) owns else owns)"
  using step [unfolded Cpthread_mutex_trylock_def]
proof (cases rule: with_mutex_cases)
  case (error n k)
  then show ?thesis using errcode_inv [OF inv error(1)] by simp
next
  case (ok mx)
  have q: "ckq_ok (users mx)" using inv ok(1) by (auto simp: sys_inv_def queues_ok_def)
  show ?thesis
  proof (cases "CdsFifo_Empty (users mx)")
    case False
    then show ?thesis using errcode_inv [OF inv, of "EBUSY" r st'] ok(2) by simp
  next
    case True
    then have mu: "musers st m = []" using cds.empty [OF q] ok(1) by (simp add: musers_def)
    have "CdsFifo_Peek (CdsFifo_Enqueue (users mx) t) = t" using cds.peek_enq [OF q, of t] cds.empty [OF q] True by simp
    then have "mutex_enter m (users mx) st = Inr (Some r, st')" "r = 0" using True ok(2) t by (simp_all add: mutex_enter_def Let_def)
    then show ?thesis using mutex_enter_inv [OF inv t(1,2) _ ok(1), of "InLock m" "Some r" st'] mu t(3)
      by (simp add: waits_on_def fun_upd_idem)
  qed
qed

lemma unlock_inv:
  assumes inv: "sys_inv st pcs owns" and t: "t = CthCurrent st" "t \<in> normal st" "pcs t = Run"
    and step: "Cpthread_mutex_unlock m st = Inr (r, st')"
  shows "sys_inv st' pcs (if r = 0 then owns - {(t, m)} else owns)"
  using step [unfolded Cpthread_mutex_unlock_def]
proof (cases rule: with_mutex_cases)
  case (error n k)
  then show ?thesis using errcode_inv [OF inv error(1)] by simp
next
  case (ok mx)
  show ?thesis
  proof (cases "CdsFifo_Peek (users mx) = t")
    case False
    then show ?thesis using errcode_inv [OF inv, of "EPERM" r st'] ok(2) t by simp
  next
    case True
    then show ?thesis using mutex_leave_inv [OF inv t ok(1) True] ok(2) t by auto
  qed
qed

lemma wait_inv:
  assumes inv: "sys_inv st pcs owns" and t: "t = CthCurrent st" "t \<in> normal st" "pcs t = Run"
    and step: "Cpthread_cond_wait c m st = Inr (r, st')"
  shows "sys_inv st' (pcs(t := if r = None then InWait c m else Run)) (if r = None then owns - {(t, m)} else owns)"
proof -
  have upd: "pcs(t := Run) = pcs" using t(3) by (simp add: fun_upd_idem)
  obtain cv mx where cm: "conds st c = Some cv" "mutexes st m = Some mx"
    using step by (auto simp: Cpthread_cond_wait_def deref_def split: option.splits)
  consider n k where "errcode n st = Inr (k, st')" "r = Some k"
    | st1 where "CdsFifo_Peek (users mx) = t" "mutex_leave m (users mx) st = Inr st1"
      "CthSuspend (set_cond_users c (CdsFifo_Enqueue (users cv) t) st1) = Inr st'" "r = None"
    using step cm t by (auto simp: Cpthread_cond_wait_def deref_def errcode_def rbind_def split: option.splits if_splits sum.splits)
  then show ?thesis
  proof cases
    case 1
    then show ?thesis using errcode_inv [OF inv 1(1)] upd by simp
  next
    case 2
    from mutex_leave_inv [OF inv t cm(2) 2(1)] 2(2) have
      s1: "sys_inv st1 pcs (owns - {(t, m)})" "CthCurrent st1 = t" "normal st1 = normal st"
        "CthSchedulingThread st1 = CthSchedulingThread st" "conds st1 = conds st" by auto
    have q: "ckq_ok (users cv)" "ckq_list (users cv) = cusers st1 c" using inv cm s1(5) by (auto simp: sys_inv_def queues_ok_def cusers_def)
    let ?q = "CdsFifo_Enqueue (users cv) t"
    have q1: "ckq_ok ?q" "ckq_list ?q = cusers st1 c @ [t]" using cds.enq [OF q(1)] q(2) by simp_all
    have "conds st1 c = Some cv" using cm s1 by simp
    note v = set_cond_users_view [OF this q1(1)]
    let ?st = "set_cond_users c ?q st1"
    have "sync_inv (normal st1) t (ready st1) (musers st1) (cusers st1) pcs (owns - {(t, m)})" using s1 by (simp add: sys_inv_def)
    then have w: "sync_inv (normal st1) (CthSchedulingThread st1) (ready st1) (musers st1) ((cusers st1)(c := cusers st1 c @ [t]))
        (pcs(t := InWait c m)) (owns - {(t, m)})"
      by (rule start_wait) (use t s1 in \<open>simp_all add: normal_def\<close>)
    have ok: "threads_ok ?st" "queues_ok ?st" "CthCurrent ?st \<in> normal ?st" using v s1 t by (simp_all add: sys_inv_def)
    from suspend_effect [OF ok(1,3)] 2(3) obtain st2 where
      st2: "st2 = st'" "threads_ok st2" "same_sync ?st st2" "ready st2 = ready ?st" "CthCurrent st2 = CthSchedulingThread ?st" by auto
    then show ?thesis using same_syncD [OF st2(3)] v ok q1 w 2(4) by (simp add: sys_inv_def)
  qed
qed

lemma awakened_inv:
  assumes inv: "sys_inv st pcs owns" and t: "t = CthCurrent st" "t \<in> normal st" "pcs t = InWait c m"
    and step: "cond_wait_resumed m st = Inr (r, st')"
  shows "sys_inv st' (pcs(t := if r = None then InRelock m else Run)) (if r = None then owns else insert (t, m) owns)"
proof -
  obtain mx where mx: "mutexes st m = Some mx" "mutex_enter m (users mx) st = Inr (r, st')"
    using step by (auto simp: cond_wait_resumed_def deref_def split: option.splits)
  have "queue_inv (normal st) (musers st) (cusers st) pcs owns" using inv by (simp add: sys_inv_def sync_inv_def)
  from not_user [OF this, of t m] have "t \<notin> set (musers st m)" using t(3) by auto
  from mutex_enter_inv [OF inv t(1,2) this mx(1) _ _ mx(2), of "InRelock m"] show ?thesis using t(3) by (auto simp: waits_on_def)
qed

text \<open>Awakening the first waiter of a condition; \<open>q\<close> is its queue, which is stored afterwards.\<close>

lemma wake_first:
  assumes inv: "sys_inv (set_cond_users c q st) pcs owns" and c: "conds st c = Some cv" and q: "ckq_ok q"
    and t: "t = CthCurrent st" "t \<in> normal st" "pcs t = Run" and s: "fst (CdsFifo_Dequeue q) = s" "s \<noteq> NULL"
  shows "\<exists>st'. CthAwaken s st = Inr st' \<and> sys_inv (set_cond_users c (snd (CdsFifo_Dequeue q)) st') pcs owns \<and>
    conds st' c = Some cv \<and> CthCurrent st' = t \<and> normal st' = normal st"
proof -
  note v = set_cond_users_view [OF c q]
  obtain cs where cs: "ckq_list q = s # cs" using cds.deq(3) [OF q] s by (auto split: list.splits)
  let ?q = "snd (CdsFifo_Dequeue q)"
  have q1: "ckq_ok ?q" "ckq_list ?q = cs" using cds.deq [OF q] cs by simp_all
  have ok: "threads_ok st" using inv v by (simp add: sys_inv_def)
  have "sync_inv (normal st) t (ready st) (musers st) ((cusers st)(c := s # cs)) pcs owns" using inv v t cs by (simp add: sys_inv_def)
  from view_signal [OF this t(2,3), of c s cs] have sg: "s \<in> normal st"
    "sync_inv (normal st) t (ready st @ [s]) (musers st) ((cusers st)(c := cs)) pcs owns" by simp_all
  from awaken_effect [OF ok sg(1)] obtain st' where
    st': "CthAwaken s st = Inr st'" "threads_ok st'" "same_sync st st'" "ready st' = ready st @ [s]" "CthCurrent st' = CthCurrent st" by blast
  note same = same_syncD [OF st'(3)]
  have c': "conds st' c = Some cv" using c same by simp
  note v' = set_cond_users_view [OF c' q1(1)]
  have "queues_ok (set_cond_users c ?q st')"
    using inv q1 same unfolding sys_inv_def queues_ok_def by (auto simp: set_cond_users_def c split: if_splits)
  then have "sys_inv (set_cond_users c ?q st') pcs owns" using v' same st' sg q1 t by (simp add: sys_inv_def)
  then show ?thesis using st' c' same t by auto
qed

lemma set_cond_users_id: "conds st c = Some cv \<Longrightarrow> set_cond_users c (users cv) st = st"
  by (simp add: set_cond_users_def fun_upd_idem)

lemma signal_inv:
  assumes inv: "sys_inv st pcs owns" and t: "t = CthCurrent st" "t \<in> normal st" "pcs t = Run"
    and step: "Cpthread_cond_signal c st = Inr (r, st')"
  shows "sys_inv st' pcs owns"
  using step [unfolded Cpthread_cond_signal_def]
proof (cases rule: with_cond_cases)
  case (error n)
  then show ?thesis using errcode_inv [OF inv error(1)] by simp
next
  case (ok cv)
  let ?q = "users cv"
  have q: "ckq_ok ?q" "threads_ok st" using inv ok(1) by (auto simp: sys_inv_def queues_ok_def)
  have inv': "sys_inv (set_cond_users c ?q st) pcs owns" using inv set_cond_users_id [OF ok(1)] by simp
  let ?s = "fst (CdsFifo_Dequeue ?q)"
  let ?q1 = "snd (CdsFifo_Dequeue ?q)"
  show ?thesis
  proof (cases "?s = NULL")
    case True
    have "NULL \<notin> set (ckq_list ?q)"
    proof -
      have "set (cusers st c) \<subseteq> normal st" using inv unfolding sys_inv_def sync_inv_def queue_inv_def by blast
      then show ?thesis using q(2) ok(1) by (auto simp: cusers_def threads_ok_def normal_def)
    qed
    then have "ckq_list ?q = []" using cds.deq_null [OF q(1)] True by simp
    then have "ckq_list ?q1 = ckq_list ?q" "ckq_ok ?q1" using cds.deq [OF q(1)] by simp_all
    moreover have "st' = set_cond_users c ?q1 st" using ok(2) True by (auto simp: Let_def case_prod_beta)
    moreover have "(cusers st)(c := ckq_list ?q) = cusers st" using ok(1) by (simp add: cusers_def fun_upd_idem)
    ultimately show ?thesis using inv set_cond_users_view [OF ok(1), of ?q1] by (simp add: sys_inv_def)
  next
    case False
    from wake_first [OF inv' ok(1) q(1) t refl False] obtain st1 where
      st1: "CthAwaken ?s st = Inr st1" "sys_inv (set_cond_users c ?q1 st1) pcs owns" by blast
    have "CthAwaken ?s (set_cond_users c ?q1 st) = Inr (set_cond_users c ?q1 st1)"
      using st1(1) by (auto simp: CthAwaken_def get_thread_def set_thread_def CthEnqueueNormalThread_def set_cond_users_def split: option.splits)
    then show ?thesis using ok(2) False st1(2) by (auto simp: Let_def case_prod_beta)
  qed
qed

lemma broadcast_loop_inv:
  "sys_inv (set_cond_users c q st) pcs owns \<Longrightarrow> conds st c = Some cv \<Longrightarrow> ckq_ok q \<Longrightarrow> t = CthCurrent st \<Longrightarrow> t \<in> normal st \<Longrightarrow>
   pcs t = Run \<Longrightarrow> broadcast_loop q st = Inr (q', st') \<Longrightarrow> sys_inv (set_cond_users c q' st') pcs owns"
proof (induction q st rule: broadcast_loop.induct)
  case (1 q st)
  let ?s = "fst (CdsFifo_Dequeue q)"
  let ?q1 = "snd (CdsFifo_Dequeue q)"
  note deq = cds.deq [OF 1(4)]
  show ?case
  proof (cases "?s = NULL")
    case True
    have "set (ckq_list q) \<subseteq> normal st" "threads_ok st"
      using 1(2) set_cond_users_view [OF 1(3,4)] unfolding sys_inv_def sync_inv_def queue_inv_def by (auto dest!: spec [of _ c])
    then have "NULL \<notin> set (ckq_list q)" by (auto simp: threads_ok_def normal_def)
    then have "ckq_list q = []" using cds.deq_null [OF 1(4)] True by simp
    then have eq: "ckq_list ?q1 = ckq_list q" using deq by simp
    have "q' = ?q1" "st' = st" using 1(8) True by (subst (asm) broadcast_loop.simps; simp)+
    moreover have "queues_ok (set_cond_users c ?q1 st)"
      using 1(2) deq unfolding sys_inv_def queues_ok_def by (auto simp: set_cond_users_def 1(3) split: if_splits)
    ultimately show ?thesis using 1(2) set_cond_users_view [OF 1(3,4)] set_cond_users_view [OF 1(3) deq(1)] eq by (simp add: sys_inv_def)
  next
    case False
    from wake_first [OF 1(2-7) refl False] obtain st1 where
      st1: "CthAwaken ?s st = Inr st1" "sys_inv (set_cond_users c ?q1 st1) pcs owns" "conds st1 c = Some cv" "CthCurrent st1 = t" "normal st1 = normal st" by blast
    have "broadcast_loop ?q1 st1 = Inr (q', st')" using 1(8) False st1(1) by (subst (asm) broadcast_loop.simps) simp
    then show ?thesis using 1(1) [OF False st1(1) st1(2,3) deq(1)] st1 1(6,7) by simp
  qed
qed

lemma broadcast_inv:
  assumes inv: "sys_inv st pcs owns" and t: "t = CthCurrent st" "t \<in> normal st" "pcs t = Run"
    and step: "Cpthread_cond_broadcast c st = Inr (r, st')"
  shows "sys_inv st' pcs owns"
  using step [unfolded Cpthread_cond_broadcast_def]
proof (cases rule: with_cond_cases)
  case (error n)
  then show ?thesis using errcode_inv [OF inv error(1)] by simp
next
  case (ok cv)
  have q: "ckq_ok (users cv)" using inv ok(1) by (auto simp: sys_inv_def queues_ok_def)
  obtain q1 st1 where l: "broadcast_loop (users cv) st = Inr (q1, st1)" "st' = set_cond_users c q1 st1"
    using ok(2) by (auto simp: rbind_def split: sum.splits)
  have "sys_inv (set_cond_users c (users cv) st) pcs owns" using inv set_cond_users_id [OF ok(1)] by simp
  from broadcast_loop_inv [OF this ok(1) q t l(1)] show ?thesis using l(2) by simp
qed

lemma yield_inv:
  assumes inv: "sys_inv st pcs owns" and t: "t = CthCurrent st" "t \<in> normal st" "pcs t = Run" and step: "CthYield st = Inr st'"
  shows "sys_inv st' (pcs(t := Yielded)) owns"
proof -
  have ok: "threads_ok st" "queues_ok st" and s: "sync_inv (normal st) t (ready st) (musers st) (cusers st) pcs owns" using inv t by (auto simp: sys_inv_def)
  from awaken_effect [OF ok(1) t(2)] obtain st1 where
    st1: "CthAwaken t st = Inr st1" "threads_ok st1" "same_sync st st1" "ready st1 = ready st @ [t]" "CthCurrent st1 = CthCurrent st" by blast
  note same = same_syncD [OF st1(3)]
  from suspend_effect [OF st1(2)] obtain st2 where
    st2: "CthSuspend st1 = Inr st2" "threads_ok st2" "same_sync st1 st2" "ready st2 = ready st1" "CthCurrent st2 = CthSchedulingThread st1"
    using st1(5) t same by auto
  note same2 = same_syncD [OF st2(3)]
  have "st' = st2" using step t st1(1) st2(1) by (simp add: CthYield_def)
  moreover have "sync_inv (normal st) (CthSchedulingThread st) (ready st @ [t]) (musers st) (cusers st) (pcs(t := Yielded)) owns"
    by (rule view_yield [OF s t(2,3)]) simp
  ultimately show ?thesis using st1 st2 same same2 ok by (simp add: sys_inv_def)
qed

lemma cpt_run_inv: "cpt_run st pcs owns \<Longrightarrow> sys_inv st pcs owns"
proof (induction rule: cpt_run.induct)
  case (start st)
  then have "sync_inv (normal st) (CthCurrent st) (ready st) (musers st) (cusers st) (\<lambda>_. Yielded) {}"
    by (auto simp: sync_inv_def queue_inv_def ready_inv_def waits_on_def wants_def)
  then show ?case using start by (simp add: sys_inv_def)
next
  case (pick st pcs owns st')
  then obtain t ts where r: "ready st = t # ts" by (cases "ready st") auto
  have ok: "threads_ok st" "queues_ok st" and s: "sync_inv (normal st) (CthSchedulingThread st) (t # ts) (musers st) (cusers st) pcs owns"
    using pick r by (auto simp: sys_inv_def)
  from schedule_effect [OF ok(1) pick(2) r] pick(4) have
    st': "threads_ok st'" "same_sync st st'" "ready st' = ts" "CthCurrent st' = t" by auto
  then show ?case using same_syncD [OF st'(2)] view_pick [OF s] ok by (simp add: sys_inv_def)
next
  case (locked st pcs owns t m)
  then have "threads_ok st" "queues_ok st" "sync_inv (normal st) t (ready st) (musers st) (cusers st) pcs owns" by (auto simp: sys_inv_def)
  then show ?case using return_lock [of _ t _ _ _ pcs owns m] locked unfolding sys_inv_def by blast
next
  case (yielded st pcs owns t)
  then have "threads_ok st" "queues_ok st" "sync_inv (normal st) t (ready st) (musers st) (cusers st) pcs owns" by (auto simp: sys_inv_def)
  then show ?case using return_yield [of _ t _ _ _ pcs owns] yielded unfolding sys_inv_def by blast
qed (rule lock_inv trylock_inv unlock_inv wait_inv awakened_inv signal_inv broadcast_inv yield_inv; assumption)+

section \<open>Properties\<close>

definition demo_cpt :: cpt where
  "demo_cpt = \<lparr>CthCurrent = 9, CthDatasize = 0, CthSchedulingThread = 9, numSwitches = 0,
     threads = [9 \<mapsto> CthThreadBaseInit 8, 1 \<mapsto> CthThreadBaseInit 2], tokens = [8 \<mapsto> 9, 2 \<mapsto> 1], schedq = [2],
     mype = 0, myrank = 0, pthreads = Map.empty, pkeys = Map.empty, keys_active = NULL, keys_inactive = NULL,
     pcleanups = Map.empty, Cpthread_current = (\<lambda>_. NULL), Cpthread_errcode = (\<lambda>_. 0),
     mutexes = [5 \<mapsto> \<lparr>s_magic = MUTEX_MAGIC, onpe = 0, users = CdsFifo_Create\<rparr>], conds = Map.empty, calls = []\<rparr>"

lemma demo_start: "cpt_run demo_cpt (\<lambda>_. Yielded) {}"
proof (rule cpt_run.start)
  have normal: "normal demo_cpt = {1}" by (auto simp: normal_def demo_cpt_def)
  show "threads_ok demo_cpt" unfolding threads_ok_def normal by (simp add: demo_cpt_def CthThreadBaseInit_def)
  show "queues_ok demo_cpt" using new_spec by (auto simp: queues_ok_def demo_cpt_def CdsFifo_Create_def split: if_splits)
  show "set (ready demo_cpt) = normal demo_cpt" unfolding normal by (simp add: ready_def demo_cpt_def)
  show "\<forall>m. musers demo_cpt m = []" using new_spec by (simp add: musers_def demo_cpt_def CdsFifo_Create_def)
qed (simp_all add: ready_def cusers_def demo_cpt_def)

lemma demo_locked:
  "\<exists>st pcs. cpt_run st pcs {(1, 5)} \<and> CthCurrent st = 1"
proof -
  have normal: "normal demo_cpt = {1}" by (auto simp: normal_def demo_cpt_def)
  have inv: "threads_ok demo_cpt" using cpt_run_inv [OF demo_start] by (simp add: sys_inv_def)
  have r: "ready demo_cpt = [1]" "CthCurrent demo_cpt = CthSchedulingThread demo_cpt" by (simp_all add: ready_def demo_cpt_def)
  from schedule_effect [OF inv r(2,1)] obtain st where
    st: "schedule demo_cpt = Inr st" "same_sync demo_cpt st" "CthCurrent st = 1" by blast
  note same = same_syncD [OF st(2)]
  have "cpt_run st (\<lambda>_. Yielded) {}" by (rule cpt_run.pick [OF demo_start r(2) _ st(1)]) (simp add: r)
  then have run: "cpt_run st ((\<lambda>_. Yielded)(1 := Run)) {}" by (rule cpt_run.yielded) (simp_all add: st same normal)
  let ?q = "CdsFifo_Enqueue CdsFifo_Create 1"
  have peek: "CdsFifo_Peek ?q = 1" using cds.peek_enq [OF cds.create(1), of 1] cds.create(2) by simp
  have "Cpthread_mutex_lock 5 st = Inr (Some 0, set_users 5 ?q st)"
    using peek st(3) same by (simp add: Cpthread_mutex_lock_def with_mutex_def mutex_enter_def Let_def deref_def demo_cpt_def)
  from cpt_run.lock [OF run _ _ _ _ this, of 1] st(3) same normal
  have "cpt_run (set_users 5 ?q st) ((\<lambda>_. Yielded)(1 := Run)) {(1, 5)}"
    using new_spec by (simp add: musers_def demo_cpt_def CdsFifo_Create_def fun_upd_idem)
  moreover have "CthCurrent (set_users 5 ?q st) = 1" using st(3) by (simp add: set_users_def)
  ultimately show ?thesis by blast
qed

text \<open>
  C34.  Mutexes exclude and hand over correctly: in every state reached by threads that use the
  operations in any order, except that no thread locks a mutex it already owns, a mutex is owned by at
  most one thread, which is the first in its queue.  No
  wakeup is lost: the first in the queue of a mutex owns it, is running, or is in the scheduler queue;
  a thread suspended on a condition is among its waiters or in the scheduler queue.  And no
  wakeup is spurious: every thread in the scheduler queue is there once, and it has yielded, has
  been handed the mutex it waits for, or has been signalled.
\<close>

theorem mutex_exclusion:
  assumes "cpt_run st pcs owns"
  shows "(\<forall>m t t'. (t, m) \<in> owns \<and> (t', m) \<in> owns \<longrightarrow> t = t') \<and>
    (\<forall>m t. (t, m) \<in> owns \<longrightarrow> (\<exists>mx. mutexes st m = Some mx \<and> CdsFifo_Peek (users mx) = t)) \<and>
    (\<forall>m t ts. musers st m = t # ts \<longrightarrow> (t, m) \<in> owns \<or> t = CthCurrent st \<or> t \<in> set (ready st)) \<and>
    (\<forall>c m t. t \<in> normal st \<and> pcs t = InWait c m \<longrightarrow> t \<in> set (cusers st c) \<or> t = CthCurrent st \<or> t \<in> set (ready st)) \<and>
    distinct (ready st) \<and> (\<forall>t \<in> set (ready st). wants (musers st) (cusers st) (pcs t) t)"
proof -
  have inv: "threads_ok st" "queues_ok st" "queue_inv (normal st) (musers st) (cusers st) pcs owns"
    "ready_inv (normal st) (CthCurrent st) (ready st) (musers st) (cusers st) pcs"
    using cpt_run_inv [OF assms] by (auto simp: sys_inv_def sync_inv_def)
  have rdy: "set (ready st) = {t \<in> normal st - {CthCurrent st}. wants (musers st) (cusers st) (pcs t) t}"
    using inv(4) by (simp add: ready_inv_def)
  have own: "musers st m \<noteq> [] \<and> hd (musers st m) = t" if "(t, m) \<in> owns" for t m using queue_invD(6) [OF inv(3) that] by blast
  have peek: "\<exists>mx. mutexes st m = Some mx \<and> CdsFifo_Peek (users mx) = t" if o: "(t, m) \<in> owns" for t m
  proof -
    from own [OF o] obtain mx where mx: "mutexes st m = Some mx" by (auto simp: musers_def split: option.splits)
    then have "ckq_ok (users mx)" using inv(2) by (simp add: queues_ok_def)
    from cds.peek [OF this] show ?thesis using own [OF o] mx by (auto simp: musers_def split: list.splits)
  qed
  have first: "(t, m) \<in> owns \<or> t = CthCurrent st \<or> t \<in> set (ready st)" if m: "musers st m = t # ts" for t m ts
  proof (cases "(t, m) \<in> owns")
    case False
    then have "t \<in> normal st" "waits_on (pcs t) m" using queue_invD(5) [OF inv(3), of t m] m by auto
    moreover from this have "wants (musers st) (cusers st) (pcs t) t" using m by (auto simp: wants_def waits_on_def)
    ultimately show ?thesis using rdy by blast
  qed simp
  have waiter: "t \<in> set (cusers st c) \<or> t = CthCurrent st \<or> t \<in> set (ready st)" if "t \<in> normal st" "pcs t = InWait c m" for c m t
  proof (cases "t \<in> set (cusers st c)")
    case False
    then have "wants (musers st) (cusers st) (pcs t) t" using that(2) by (simp add: wants_def)
    then show ?thesis using rdy that(1) by blast
  qed simp
  show ?thesis
  proof (intro conjI allI impI ballI)
    show "t = t'" if "(t, m) \<in> owns \<and> (t', m) \<in> owns" for m t t' using that own by metis
    show "\<exists>mx. mutexes st m = Some mx \<and> CdsFifo_Peek (users mx) = t" if "(t, m) \<in> owns" for m t by (rule peek [OF that])
    show "(t, m) \<in> owns \<or> t = CthCurrent st \<or> t \<in> set (ready st)" if "musers st m = t # ts" for m t ts by (rule first [OF that])
    show "t \<in> set (cusers st c) \<or> t = CthCurrent st \<or> t \<in> set (ready st)" if "t \<in> normal st \<and> pcs t = InWait c m" for c m t
      using waiter that by blast
    show "distinct (ready st)" using inv(4) by (simp add: ready_inv_def)
    show "wants (musers st) (cusers st) (pcs t) t" if "t \<in> set (ready st)" for t using that rdy by simp
  qed
qed

theorem mutex_exclusion_witness:
  "\<exists>(st :: cpt) mx. CthCurrent st = 1 \<and> mutexes st 5 = Some mx \<and> CdsFifo_Peek (users mx) = 1"
proof -
  obtain st pcs where st: "cpt_run st pcs {(1, 5)}" "CthCurrent st = 1" using demo_locked by blast
  have "\<exists>mx. mutexes st 5 = Some mx \<and> CdsFifo_Peek (users mx) = 1"
    by (rule mutex_exclusion [OF st(1), THEN conjunct2, THEN conjunct1, rule_format]) simp
  then show ?thesis using st(2) by (intro exI [of _ st]) simp
qed

end
