(* ===== verification/CptKeys.thy ===== *)
theory CptKeys
  imports Cpthreads
begin

text \<open>
  The keys of thread-private data and the end of threads in \<^verbatim>\<open>conv-core/cpthreads.c\<close>: the lists of active
  and inactive keys stay well-formed, and different keys name different storage.
\<close>

section \<open>The lists of keys\<close>

fun kchain :: "(ptr \<rightharpoonup> Cpthread_key_s) \<Rightarrow> ptr \<Rightarrow> ptr list \<Rightarrow> bool" where
  "kchain ks p [] \<longleftrightarrow> p = NULL"
| "kchain ks p (x # xs) \<longleftrightarrow> p = x \<and> x \<noteq> NULL \<and> (\<exists>k. ks x = Some k \<and> kchain ks (k_next k) xs)"

text \<open>Every key names eight bytes of its own below \<open>n\<close>.\<close>

definition storage_ok :: "(ptr \<rightharpoonup> Cpthread_key_s) \<Rightarrow> int \<Rightarrow> bool" where
  "storage_ok ks n \<longleftrightarrow>
     (\<forall>p k. ks p = Some k \<longrightarrow> k_magic k = KEY_MAGIC \<and> 0 \<le> offset k \<and> offset k + 8 \<le> n) \<and>
     (\<forall>p q k l. ks p = Some k \<and> ks q = Some l \<and> p \<noteq> q \<longrightarrow> offset k + 8 \<le> offset l \<or> offset l + 8 \<le> offset k)"

lemma storage_ok_new:
  assumes "storage_ok ks n" "0 \<le> n" "n \<le> offset k" "k_magic k = KEY_MAGIC" "offset k + 8 \<le> n'"
  shows "storage_ok (ks(a \<mapsto> k)) n'"
proof -
  have old: "k_magic l = KEY_MAGIC \<and> 0 \<le> offset l \<and> offset l + 8 \<le> n" if "ks p = Some l" for p l
    using assms(1) that unfolding storage_ok_def by blast
  have "k_magic l = KEY_MAGIC \<and> 0 \<le> offset l \<and> offset l + 8 \<le> n'" if "(ks(a \<mapsto> k)) p = Some l" for p l
    using that assms old [of p l] by (cases "p = a") auto
  moreover have "offset l + 8 \<le> offset l' \<or> offset l' + 8 \<le> offset l"
    if "(ks(a \<mapsto> k)) p = Some l" "(ks(a \<mapsto> k)) q = Some l'" "p \<noteq> q" for p q l l'
  proof (cases "p = a \<or> q = a")
    case True
    then show ?thesis using that assms(3) old [of p l] old [of q l'] by (auto split: if_splits)
  next
    case False
    then show ?thesis using that assms(1) unfolding storage_ok_def by simp
  qed
  ultimately show ?thesis unfolding storage_ok_def by blast
qed

lemma storage_ok_update:
  assumes "storage_ok ks n" "ks a = Some k" "offset k' = offset k" "k_magic k' = KEY_MAGIC"
  shows "storage_ok (ks(a \<mapsto> k')) n"
proof -
  have old: "\<exists>l'. ks p = Some l' \<and> offset l = offset l' \<and> k_magic l = KEY_MAGIC" if "(ks(a \<mapsto> k')) p = Some l" for p l
    using that assms by (cases "p = a") (auto simp: storage_ok_def)
  have "k_magic l = KEY_MAGIC \<and> 0 \<le> offset l \<and> offset l + 8 \<le> n" if "(ks(a \<mapsto> k')) p = Some l" for p l
    using old [OF that] assms(1) by (auto simp: storage_ok_def)
  moreover have "offset l + 8 \<le> offset m \<or> offset m + 8 \<le> offset l"
    if l: "(ks(a \<mapsto> k')) p = Some l" and m: "(ks(a \<mapsto> k')) q = Some m" and "p \<noteq> q" for p q l m
  proof -
    obtain l' m' where "ks p = Some l'" "offset l = offset l'" "ks q = Some m'" "offset m = offset m'" using old [OF l] old [OF m] by blast
    then show ?thesis using assms(1) \<open>p \<noteq> q\<close> unfolding storage_ok_def by simp
  qed
  ultimately show ?thesis unfolding storage_ok_def by blast
qed

definition keys_inv :: "cpt \<Rightarrow> ptr list \<Rightarrow> ptr list \<Rightarrow> bool" where
  "keys_inv st as rs \<longleftrightarrow>
     kchain (pkeys st) (keys_active st) as \<and> kchain (pkeys st) (keys_inactive st) rs \<and>
     distinct (as @ rs) \<and> dom (pkeys st) = set (as @ rs) \<and>
     storage_ok (pkeys st) (CthDatasize st) \<and> 0 \<le> CthDatasize st \<and> threads st (CthCurrent st) \<noteq> None"

lemma key_known:
  assumes "keys_inv st as rs" "key \<in> set as \<union> set rs"
  obtains k where "pkeys st key = Some k" "k_magic k = KEY_MAGIC"
proof -
  have "dom (pkeys st) = set as \<union> set rs" "storage_ok (pkeys st) (CthDatasize st)" using assms(1) by (simp_all add: keys_inv_def)
  then have "key \<in> dom (pkeys st)" using assms(2) by blast
  then obtain k where "pkeys st key = Some k" by blast
  then show thesis using that \<open>storage_ok (pkeys st) (CthDatasize st)\<close> unfolding storage_ok_def by blast
qed

lemma kchain_cong: "(\<forall>x \<in> set xs. ks' x = ks x) \<Longrightarrow> kchain ks' p xs = kchain ks p xs"
  by (induction xs arbitrary: p) auto

lemma kchain_upd [simp]: "a \<notin> set xs \<Longrightarrow> kchain (ks(a := v)) p xs = kchain ks p xs"
  by (rule kchain_cong) auto

lemma kchain_not_null: "kchain ks p xs \<Longrightarrow> NULL \<notin> set xs"
  by (induction xs arbitrary: p) auto

lemma key_pred_finds:
  "kchain ks a xs \<Longrightarrow> distinct xs \<Longrightarrow> key \<in> set xs \<Longrightarrow> a \<noteq> key \<Longrightarrow>
   \<exists>us p vs k. xs = us @ p # key # vs \<and> key_pred ks a key = Some p \<and> ks p = Some k \<and> k_next k = key"
proof (induction xs arbitrary: a)
  case (Cons x xs)
  then obtain k where k: "a = x" "x \<noteq> NULL" "ks x = Some k" "kchain ks (k_next k) xs" by auto
  show ?case
  proof (cases "k_next k = key")
    case True
    then obtain vs where "xs = key # vs" using Cons.prems k by (cases xs) auto
    moreover have "key_pred ks a key = Some x" using k True by (subst key_pred.simps) simp
    ultimately show ?thesis using k True by (intro exI [of _ "[]"]) auto
  next
    case False
    have "key \<in> set xs" "distinct xs" using Cons.prems k by auto
    from Cons.IH [OF k(4) this(2,1) False] obtain us p vs l where
      "xs = us @ p # key # vs" "key_pred ks (k_next k) key = Some p" "ks p = Some l" "k_next l = key" by blast
    moreover have "key_pred ks a key = key_pred ks (k_next k) key" using k False by (subst key_pred.simps) simp
    ultimately show ?thesis by (intro exI [of _ "x # us"]) auto
  qed
qed simp

lemma key_pred_misses: "kchain ks a xs \<Longrightarrow> key \<notin> set xs \<Longrightarrow> key \<noteq> NULL \<Longrightarrow> key_pred ks a key = Some NULL"
proof (induction xs arbitrary: a)
  case (Cons x xs)
  then obtain k where k: "a = x" "x \<noteq> NULL" "ks x = Some k" "kchain ks (k_next k) xs" by auto
  have "k_next k \<noteq> key" using k(4) Cons.prems by (cases xs) auto
  then show ?case using Cons k by (subst key_pred.simps) simp
qed (subst key_pred.simps, simp)

lemma kchain_split:
  "kchain ks a (us @ p # key # vs) \<Longrightarrow> distinct (us @ p # key # vs) \<Longrightarrow> ks p = Some kp \<Longrightarrow> ks key = Some k \<Longrightarrow>
   kchain (ks(p \<mapsto> kp\<lparr>k_next := k_next k\<rparr>)) a (us @ p # vs)"
proof (induction us arbitrary: a)
  case (Cons x us)
  then show ?case by auto
qed auto

section \<open>Operations on keys\<close>

lemma create_inv:
  assumes inv: "keys_inv st as rs" and a: "a \<noteq> NULL" "pkeys st a = None"
  shows "\<exists>key st'. Cpthread_key_create a destr st = Inr (key, st') \<and> keys_inv st' (key # as) (tl rs) \<and>
    key = (if rs = [] then a else hd rs)"
proof (cases rs)
  case Nil
  note i = inv [unfolded keys_inv_def Nil]
  obtain th where th: "threads st (CthCurrent st) = Some th" using i by auto
  obtain off st1 th' where r: "CthRegister 8 st = Inr (off, st1)" "CthDatasize st \<le> off" "CthDatasize st1 = off + 8"
    "threads st1 (CthCurrent st) = Some th'"
    using register_effect [OF th, of 8] i by auto
  have same: "pkeys st1 = pkeys st" "keys_active st1 = keys_active st" "keys_inactive st1 = keys_inactive st" "CthCurrent st1 = CthCurrent st"
    using r(1) th by (auto simp: CthRegister_def Let_def get_thread_def set_thread_def)
  let ?k = "\<lparr>k_magic = KEY_MAGIC, offset = off, destructo = destr, k_next = keys_active st\<rparr>"
  let ?st = "st1\<lparr>pkeys := (pkeys st)(a \<mapsto> ?k), keys_active := a\<rparr>"
  have "a \<notin> set as" using i a by auto
  have "Cpthread_key_create a destr st = Inr (a, ?st)" using i r same by (simp add: Cpthread_key_create_def)
  moreover have "keys_inv ?st (a # as) []"
    using i r same a \<open>a \<notin> set as\<close> storage_ok_new [of "pkeys st" "CthDatasize st" ?k "off + 8" a] unfolding keys_inv_def by auto
  ultimately show ?thesis using Nil by auto
next
  case (Cons r rs')
  note i = inv [unfolded keys_inv_def Cons]
  obtain k where k: "pkeys st r = Some k" "keys_inactive st = r" "r \<noteq> NULL" "kchain (pkeys st) (k_next k) rs'" using i by auto
  have out: "r \<notin> set as" "r \<notin> set rs'" using i by auto
  let ?k = "\<lparr>k_magic = KEY_MAGIC, offset = offset k, destructo = destr, k_next = keys_active st\<rparr>"
  let ?st = "st\<lparr>keys_inactive := k_next k, pkeys := (pkeys st)(r \<mapsto> ?k), keys_active := r\<rparr>"
  have "Cpthread_key_create a destr st = Inr (r, ?st)" using k by (simp add: Cpthread_key_create_def deref_def)
  moreover have "keys_inv ?st (r # as) rs'"
    using i k out storage_ok_update [of "pkeys st" "CthDatasize st" r k ?k] unfolding keys_inv_def by auto
  ultimately show ?thesis using Cons by auto
qed

lemma retire_inv:
  assumes "kchain (pkeys st) (keys_active st) as" "kchain (pkeys st) (keys_inactive st) rs" "distinct (key # as @ rs)"
    "dom (pkeys st) = set (key # as @ rs)" "storage_ok (pkeys st) (CthDatasize st)" "0 \<le> CthDatasize st"
    "threads st (CthCurrent st) \<noteq> None" "pkeys st key = Some k'" "offset k = offset k'" "key \<noteq> NULL"
  shows "\<exists>st'. key_retire key k st = Inr (0, st') \<and> keys_inv st' as (key # rs)"
proof -
  have "storage_ok ((pkeys st)(key \<mapsto> k\<lparr>k_magic := FKEY_MAGIC, k_next := keys_inactive st\<rparr>)) (CthDatasize st)"
    by (rule storage_ok_update [OF assms(5,8)]) (simp_all add: assms(9) FKEY_MAGIC_def KEY_MAGIC_def)
  then show ?thesis using assms by (auto simp: key_retire_def keys_inv_def)
qed

lemma delete_inv:
  assumes inv: "keys_inv st as rs" and key: "key \<in> set as"
  shows "\<exists>st' as'. Cpthread_key_delete key st = Inr (0, st') \<and> keys_inv st' as' (key # rs) \<and> set as' = set as - {key}"
proof -
  note i = inv [unfolded keys_inv_def]
  have nn: "key \<noteq> NULL" using kchain_not_null i key by metis
  obtain k where k: "pkeys st key = Some k" "k_magic k = KEY_MAGIC" using key_known [OF inv, of key] key by blast
  show ?thesis
  proof (cases "keys_active st = key")
    case True
    then obtain as' where as: "as = key # as'" "kchain (pkeys st) (k_next k) as'" using i key k by (cases as) auto
    let ?st = "st\<lparr>keys_active := k_next k\<rparr>"
    have "\<exists>st'. key_retire key k ?st = Inr (0, st') \<and> keys_inv st' as' (key # rs)"
      by (rule retire_inv) (use i as k nn in auto)
    then show ?thesis using True k as i by (auto simp: Cpthread_key_delete_def deref_def)
  next
    case False
    from key_pred_finds [OF _ _ key False, of "pkeys st"] i obtain us p vs kp where
      p: "as = us @ p # key # vs" "key_pred (pkeys st) (keys_active st) key = Some p" "pkeys st p = Some kp" "k_next kp = key" by auto
    have pn: "p \<noteq> NULL" "p \<noteq> key" "p \<notin> set rs" using kchain_not_null [of "pkeys st" "keys_active st" as] i p(1) by auto
    let ?st = "st\<lparr>pkeys := (pkeys st)(p \<mapsto> kp\<lparr>k_next := k_next k\<rparr>)\<rparr>"
    have chain: "kchain (pkeys ?st) (keys_active ?st) (us @ p # vs)"
    proof -
      have "kchain (pkeys st) (keys_active st) (us @ p # key # vs)" "distinct (us @ p # key # vs)" using i p(1) by auto
      from kchain_split [OF this p(3) k(1)] show ?thesis by simp
    qed
    have "p \<in> set as \<union> set rs" using p(1) by simp
    from key_known [OF inv this] have "k_magic kp = KEY_MAGIC" using p(3) by auto
    moreover have "storage_ok (pkeys st) (CthDatasize st)" using i by blast
    ultimately have "storage_ok ((pkeys st)(p \<mapsto> kp\<lparr>k_next := k_next k\<rparr>)) (CthDatasize st)"
      using storage_ok_update [where ks = "pkeys st" and a = p and k' = "kp\<lparr>k_next := k_next k\<rparr>"] p(3) by simp
    then have store: "storage_ok (pkeys ?st) (CthDatasize ?st)" by simp
    have "\<exists>st'. key_retire key k ?st = Inr (0, st') \<and> keys_inv st' (us @ p # vs) (key # rs)"
      by (rule retire_inv [OF chain _ _ _ store]) (use i p k nn pn in auto)
    moreover have "Cpthread_key_delete key st = key_retire key k ?st" using False k p pn by (simp add: Cpthread_key_delete_def deref_def)
    moreover have "set (us @ p # vs) = set as - {key}" using i p(1) by auto
    ultimately show ?thesis by metis
  qed
qed

lemma delete_inactive:
  assumes inv: "keys_inv st as rs" and key: "key \<in> set rs"
  shows "Cpthread_key_delete key st = Inr (-1, st)"
proof -
  note i = inv [unfolded keys_inv_def]
  have "key \<noteq> NULL" "key \<notin> set as" using kchain_not_null i key by auto
  moreover obtain k where "pkeys st key = Some k" "k_magic k = KEY_MAGIC" using key_known [OF inv, of key] key by blast
  moreover have "keys_active st \<noteq> key" using i \<open>key \<notin> set as\<close> \<open>key \<noteq> NULL\<close> by (cases as) auto
  ultimately show ?thesis using key_pred_misses [of "pkeys st" "keys_active st" as key] i by (simp add: Cpthread_key_delete_def deref_def)
qed

lemma setspecific_effect:
  assumes inv: "keys_inv st as rs" and key: "pkeys st key = Some k"
  shows "\<exists>st'. Cpthread_setspecific key v st = Inr (0, st') \<and> keys_inv st' as rs \<and> pkeys st' = pkeys st \<and>
    Cpthread_getspecific key st' = Inr v \<and>
    (\<forall>key' \<in> dom (pkeys st). key' \<noteq> key \<longrightarrow> Cpthread_getspecific key' st' = Cpthread_getspecific key' st)"
proof -
  note i = inv [unfolded keys_inv_def]
  obtain th where th: "threads st (CthCurrent st) = Some th" using i by auto
  let ?st = "set_thread (CthCurrent st) (th\<lparr>tdata := (tdata th)(offset k := v)\<rparr>) st"
  have magic: "k_magic l = KEY_MAGIC" if "pkeys st p = Some l" for p l using i that by (auto simp: storage_ok_def)
  have "Cpthread_getspecific key' ?st = Cpthread_getspecific key' st" if key': "key' \<in> dom (pkeys st)" "key' \<noteq> key" for key'
  proof -
    obtain l where l: "pkeys st key' = Some l" using key'(1) by auto
    have "offset l + 8 \<le> offset k \<or> offset k + 8 \<le> offset l" using i l key key'(2) unfolding storage_ok_def by metis
    then have "offset l \<noteq> offset k" by auto
    then show ?thesis using l magic [OF l] th by (simp add: Cpthread_getspecific_def deref_def get_thread_def set_thread_def)
  qed
  moreover have "Cpthread_setspecific key v st = Inr (0, ?st)" using key magic [OF key] th
    by (simp add: Cpthread_setspecific_def deref_def get_thread_def)
  moreover have "Cpthread_getspecific key ?st = Inr v" using key magic [OF key]
    by (simp add: Cpthread_getspecific_def deref_def get_thread_def set_thread_def)
  moreover have "keys_inv ?st as rs" using i by (simp add: keys_inv_def set_thread_def)
  ultimately show ?thesis by (intro exI [of _ ?st]) (simp add: set_thread_def)
qed

section \<open>Properties\<close>

inductive key_run :: "cpt \<Rightarrow> ptr list \<Rightarrow> ptr list \<Rightarrow> bool" where
  start: "pkeys st = Map.empty \<Longrightarrow> keys_active st = NULL \<Longrightarrow> keys_inactive st = NULL \<Longrightarrow> 0 \<le> CthDatasize st \<Longrightarrow>
    threads st (CthCurrent st) \<noteq> None \<Longrightarrow> key_run st [] []"
| create: "key_run st as rs \<Longrightarrow> a \<noteq> NULL \<Longrightarrow> pkeys st a = None \<Longrightarrow> Cpthread_key_create a destr st = Inr (key, st') \<Longrightarrow>
    key_run st' (key # as) (remove1 key rs)"
| delete: "key_run st as rs \<Longrightarrow> key \<in> set as \<Longrightarrow> Cpthread_key_delete key st = Inr (r, st') \<Longrightarrow>
    key_run st' (remove1 key as) (key # rs)"
| set: "key_run st as rs \<Longrightarrow> key \<in> set as \<Longrightarrow> Cpthread_setspecific key v st = Inr (r, st') \<Longrightarrow> key_run st' as rs"

lemma key_run_inv: "key_run st as rs \<Longrightarrow> \<exists>as'. keys_inv st as' rs \<and> set as' = set as \<and> distinct as"
proof (induction rule: key_run.induct)
  case (start st)
  then show ?case by (auto simp: keys_inv_def storage_ok_def)
next
  case (create st as rs a destr key st')
  then obtain as' where as': "keys_inv st as' rs" "set as' = set as" "distinct as" by blast
  from create_inv [OF as'(1) create(2,3), of destr] create(4) have
    c: "keys_inv st' (key # as') (tl rs)" "key = (if rs = [] then a else hd rs)" by auto
  have "tl rs = remove1 key rs" using c(2) by (cases rs) auto
  moreover have "key \<notin> set as" using c(1) as'(2) by (auto simp: keys_inv_def)
  ultimately show ?case using c(1) as' by (intro exI [of _ "key # as'"]) simp
next
  case (delete st as rs key r st')
  then obtain as' where as': "keys_inv st as' rs" "set as' = set as" "distinct as" by blast
  from delete_inv [OF as'(1), of key] as'(2) delete(2,3) obtain bs where
    "keys_inv st' bs (key # rs)" "set bs = set as' - {key}" by auto
  then show ?case using as' by (intro exI [of _ bs]) auto
next
  case (set st as rs key v r st')
  then obtain as' where as': "keys_inv st as' rs" "set as' = set as" "distinct as" by blast
  obtain k where "pkeys st key = Some k" using key_known [OF as'(1), of key] as'(2) set(2) by blast
  from setspecific_effect [OF as'(1) this, of v] set(3) show ?case using as' by auto
qed

text \<open>
  C35.  After any sequence of creating, deleting and setting keys, a value stored under an active key is
  read back and the values of all other keys are unchanged; a new key is a fresh one only if
  none has been deleted, and otherwise the one deleted last.  Deleting an active key succeeds.
  Deleting it again fails without setting the error code, and a deleted key can still be used: its
  magic number is that of a valid key.
\<close>

theorem key_values:
  assumes "key_run st as rs"
  shows "(\<forall>key \<in> set as \<union> set rs. \<forall>v. \<exists>st'. Cpthread_setspecific key v st = Inr (0, st') \<and> Cpthread_getspecific key st' = Inr v \<and>
      (\<forall>key' \<in> set as \<union> set rs. key' \<noteq> key \<longrightarrow> Cpthread_getspecific key' st' = Cpthread_getspecific key' st)) \<and>
    (\<forall>a destr. a \<noteq> NULL \<and> pkeys st a = None \<longrightarrow>
      (\<exists>st'. Cpthread_key_create a destr st = Inr (if rs = [] then a else hd rs, st'))) \<and>
    (\<forall>key \<in> set as. \<exists>st'. Cpthread_key_delete key st = Inr (0, st')) \<and>
    (\<forall>key \<in> set rs. Cpthread_key_delete key st = Inr (-1, st))"
proof -
  obtain as' where inv: "keys_inv st as' rs" "set as' = set as" using key_run_inv [OF assms] by blast
  have dom: "dom (pkeys st) = set as \<union> set rs" using inv by (simp add: keys_inv_def)
  show ?thesis
  proof (intro conjI ballI allI impI)
    fix key v assume "key \<in> set as \<union> set rs"
    then obtain k where "pkeys st key = Some k" using dom by blast
    from setspecific_effect [OF inv(1) this, of v]
    show "\<exists>st'. Cpthread_setspecific key v st = Inr (0, st') \<and> Cpthread_getspecific key st' = Inr v \<and>
      (\<forall>key' \<in> set as \<union> set rs. key' \<noteq> key \<longrightarrow> Cpthread_getspecific key' st' = Cpthread_getspecific key' st)" unfolding dom by blast
  next
    fix a destr assume "a \<noteq> NULL \<and> pkeys st a = None"
    then show "\<exists>st'. Cpthread_key_create a destr st = Inr (if rs = [] then a else hd rs, st')" using create_inv [OF inv(1), of a destr] by auto
  next
    fix key assume "key \<in> set as"
    then show "\<exists>st'. Cpthread_key_delete key st = Inr (0, st')" using delete_inv [OF inv(1), of key] inv(2) by auto
  next
    fix key assume "key \<in> set rs"
    then show "Cpthread_key_delete key st = Inr (-1, st)" by (rule delete_inactive [OF inv(1)])
  qed
qed

definition demo_keys :: cpt where
  "demo_keys = \<lparr>CthCurrent = 1, CthDatasize = 0, CthSchedulingThread = 9, numSwitches = 0,
     threads = [1 \<mapsto> CthThreadBaseInit 2], tokens = [2 \<mapsto> 1], schedq = [],
     mype = 0, myrank = 0, pthreads = Map.empty, pkeys = Map.empty, keys_active = NULL, keys_inactive = NULL,
     pcleanups = Map.empty, Cpthread_current = (\<lambda>_. NULL), Cpthread_errcode = (\<lambda>_. 0),
     mutexes = Map.empty, conds = Map.empty, calls = []\<rparr>"

theorem key_values_witness:
  "\<exists>st st'. Cpthread_key_create 7 0 demo_keys = Inr (7, st) \<and> Cpthread_setspecific 7 3 st = Inr (0, st') \<and>
     Cpthread_getspecific 7 st' = Inr 3"
proof -
  have run: "key_run demo_keys [] []" by (rule key_run.start) (simp_all add: demo_keys_def)
  have "7 \<noteq> NULL \<and> pkeys demo_keys 7 = None" by (simp add: demo_keys_def)
  from key_values [OF run, THEN conjunct2, THEN conjunct1, rule_format, OF this, of 0] obtain st where
    st: "Cpthread_key_create 7 0 demo_keys = Inr (7, st)" by auto
  have "key_run st [7] (remove1 7 [])" by (rule key_run.create [OF run _ _ st]) (simp_all add: demo_keys_def)
  from key_values [OF this, THEN conjunct1, rule_format, of 7 3] st show ?thesis by auto
qed

end
