(* ===== verification/Multicast.thy ===== *)
theory Multicast
  imports Prelude
begin

text \<open>
  Groups of processors and the multicast to a group, the common code of \<^verbatim>\<open>conv-core/convcore.c\<close>.  A
  group is defined on one processor and its definition is broadcast; every processor keeps the
  definitions in a hash table.  A multicast travels down a binary tree over the positions in the group,
  and a processor that does not know the group yet sends the message to itself until it does.

  The chains of the hash table are lists.  Of a message in transit the bytes of its struct, which
  depend on the machine, are kept as \<open>m_hdr\<close> next to the fields the code reads; the bytes that
  follow the struct are \<open>m_body\<close>.
\<close>

section \<open>Groups\<close>

record CmiGroup =
  g_id :: u32
  g_pe :: u32

record GroupDef =
  d_group :: CmiGroup
  d_pes :: "nat list"

type_synonym group_table = "GroupDef list list"

record groupstate =
  CmiGroupTable :: group_table
  CmiGroupCounter :: u32

definition GROUPTAB_SIZE :: nat where "GROUPTAB_SIZE = 101"

definition CmiGroupInit :: groupstate where
  "CmiGroupInit = \<lparr>CmiGroupTable = replicate GROUPTAB_SIZE [], CmiGroupCounter = 0\<rparr>"

definition group_bucket :: "CmiGroup \<Rightarrow> nat" where
  "group_bucket grp = unat (g_id grp XOR g_pe grp) mod GROUPTAB_SIZE"

definition CmiGroupHandler :: "GroupDef \<Rightarrow> group_table \<Rightarrow> group_table" where
  "CmiGroupHandler def table =
     (let bucket = group_bucket (d_group def) in table[bucket := def # table ! bucket])"

text \<open>The group and its definition, which is broadcast to all processors.\<close>

definition CmiEstablishGroup :: "u32 \<Rightarrow> nat list \<Rightarrow> groupstate \<Rightarrow> CmiGroup \<times> GroupDef \<times> groupstate" where
  "CmiEstablishGroup mype pes st =
     (let grp = \<lparr>g_id = CmiGroupCounter st, g_pe = mype\<rparr>
      in (grp, \<lparr>d_group = grp, d_pes = pes\<rparr>, st\<lparr>CmiGroupCounter := CmiGroupCounter st + 1\<rparr>))"

fun lookup_chain :: "CmiGroup \<Rightarrow> GroupDef list \<Rightarrow> nat list option" where
  "lookup_chain grp [] = None"
| "lookup_chain grp (def # ds) =
     (if g_id (d_group def) = g_id grp \<and> g_pe (d_group def) = g_pe grp then Some (d_pes def) else lookup_chain grp ds)"

definition CmiLookupGroup :: "CmiGroup \<Rightarrow> group_table \<Rightarrow> nat list option" where
  "CmiLookupGroup grp table = lookup_chain grp (table ! group_bucket grp)"

section \<open>Multicast\<close>

record MultiMsg =
  m_hdr :: "u8 list"
  m_group :: CmiGroup
  m_pos :: int
  m_origlen :: nat
  m_body :: "u8 list"

text \<open>\<open>Resend\<close> is a send of the message in transit, \<open>Original\<close> of the restored one to the processor itself.\<close>

datatype mc_effect = Resend nat MultiMsg | Original "u8 list" | FreeMulti

definition multi_restore :: "nat \<Rightarrow> nat \<Rightarrow> u8 list \<Rightarrow> u8 list" where
  "multi_restore S olen m =
     (if olen < S then take olen (drop S m) @ drop olen m else take S (drop olen m) @ drop S m)"

definition CmiMulticastDeliver :: "nat \<Rightarrow> nat \<Rightarrow> group_table \<Rightarrow> MultiMsg \<Rightarrow> mc_effect list" where
  "CmiMulticastDeliver S mype table msg =
     (case CmiLookupGroup (m_group msg) table of
        None \<Rightarrow> [Resend mype msg]
      | Some pes \<Rightarrow>
          let npes = int (length pes)
          in if npes = 0 then [FreeMulti]
             else if m_pos msg = - 1 then [Resend (pes ! 0) (msg\<lparr>m_pos := 0\<rparr>)]
             else let pos = m_pos msg; child1 = (pos + 1) * 2; child2 = child1 - 1
                  in (if child1 < npes then [Resend (pes ! nat child1) (msg\<lparr>m_pos := child1\<rparr>)] else []) @
                     (if child2 < npes then [Resend (pes ! nat child2) (msg\<lparr>m_pos := child2\<rparr>)] else []) @
                     [Original (take (m_origlen msg) (multi_restore S (m_origlen msg) (m_hdr msg @ m_body msg)))])"

definition CmiMulticastHandler :: "nat \<Rightarrow> nat \<Rightarrow> group_table \<Rightarrow> MultiMsg \<Rightarrow> mc_effect list" where
  "CmiMulticastHandler S mype table msg = CmiMulticastDeliver S mype table msg"

definition new_multi :: "nat \<Rightarrow> u8 list \<Rightarrow> CmiGroup \<Rightarrow> u8 list \<Rightarrow> MultiMsg" where
  "new_multi S hdr grp msg =
     \<lparr>m_hdr = hdr, m_group = grp, m_pos = - 1, m_origlen = length msg,
      m_body = (if length msg < S then msg else drop S msg @ take S msg)\<rparr>"

definition CmiSyncMulticastFn :: "nat \<Rightarrow> u8 list \<Rightarrow> nat \<Rightarrow> group_table \<Rightarrow> CmiGroup \<Rightarrow> u8 list \<Rightarrow> mc_effect list" where
  "CmiSyncMulticastFn S hdr mype table grp msg = CmiMulticastDeliver S mype table (new_multi S hdr grp msg)"

section \<open>The tables\<close>

lemma lookup_after_define:
  assumes "length table = GROUPTAB_SIZE"
  shows "CmiLookupGroup grp (CmiGroupHandler def table) = (if d_group def = grp then Some (d_pes def) else CmiLookupGroup grp table)"
proof -
  have "group_bucket g < length table" for g using assms by (simp add: group_bucket_def GROUPTAB_SIZE_def)
  moreover have "g_id (d_group def) = g_id grp \<and> g_pe (d_group def) = g_pe grp \<longleftrightarrow> d_group def = grp"
    by (metis CmiGroup.surjective old.unit.exhaust)
  ultimately show ?thesis
    by (cases "group_bucket (d_group def) = group_bucket grp") (auto simp: CmiLookupGroup_def CmiGroupHandler_def Let_def)
qed

lemma length_GroupHandler [simp]: "length (CmiGroupHandler def table) = length table"
  by (simp add: CmiGroupHandler_def Let_def)

lemma restore_new:
  assumes "length hdr = S" "x = new_multi S hdr grp msg"
  shows "take (m_origlen x) (multi_restore S (m_origlen x) (m_hdr x @ m_body x)) = msg"
  using assms by (auto simp: new_multi_def multi_restore_def)

section \<open>The tree of positions\<close>

function sub :: "nat \<Rightarrow> nat \<Rightarrow> nat list" where
  "sub n p = (if p < n then p # sub n (2 * p + 1) @ sub n (2 * p + 2) else [])"
  by auto
termination by (relation "measure (\<lambda>(n, p). n - p)") auto

declare sub.simps [simp del]

lemma sub_above: "x \<in> set (sub n p) \<Longrightarrow> \<exists>k. (x + 1) div 2 ^ k = p + 1"
proof (induction n p rule: sub.induct)
  case (1 n p)
  then consider "x = p" | "x \<in> set (sub n (2 * p + 1))" "p < n" | "x \<in> set (sub n (2 * p + 2))" "p < n"
    by (subst (asm) sub.simps [of n p]) (auto split: if_splits)
  then show ?case
  proof cases
    case 1
    then show ?thesis by (intro exI [of _ 0]) simp
  next
    case 2
    then obtain k where "(x + 1) div 2 ^ k = 2 * p + 1 + 1" using "1.IH"(1) by blast
    then have "(x + 1) div 2 ^ Suc k = p + 1" by (simp add: div_mult2_eq mult.commute [of 2])
    then show ?thesis by blast
  next
    case 3
    then obtain k where "(x + 1) div 2 ^ k = 2 * p + 2 + 1" using "1.IH"(2) by blast
    then have "(x + 1) div 2 ^ Suc k = p + 1" by (simp add: div_mult2_eq mult.commute [of 2])
    then show ?thesis by blast
  qed
qed

lemma sub_disjoint: "set (sub n (2 * p + 1)) \<inter> set (sub n (2 * p + 2)) = {}"
proof (rule equals0I)
  fix x assume x: "x \<in> set (sub n (2 * p + 1)) \<inter> set (sub n (2 * p + 2))"
  then obtain k j where k: "(x + 1) div 2 ^ k = 2 * p + 1 + 1" and j: "(x + 1) div 2 ^ j = 2 * p + 2 + 1"
    using sub_above [of x n "2 * p + 1"] sub_above [of x n "2 * p + 2"] by blast
  have shift: "(x + 1) div 2 ^ b = (x + 1) div 2 ^ a div 2 ^ (b - a)" if "a \<le> b" for a b
    using that by (simp add: div_mult2_eq [symmetric] power_add [symmetric])
  have half: "m div 2 ^ Suc d \<le> m div 2" for m d :: nat by (simp add: div_le_mono2 div_mult2_eq)
  have later: False if "(x + 1) div 2 ^ a = u" "(x + 1) div 2 ^ b = w" "a < b" "u div 2 < w" for a b u w
  proof -
    obtain d where "b - a = Suc d" using \<open>a < b\<close> by (metis Suc_diff_Suc)
    then have "w = u div 2 ^ Suc d" using shift [of a b] that(1,2,3) by simp
    then show False using half [of u d] that(4) by simp
  qed
  show False
  proof (cases k j rule: linorder_cases)
    case less
    then show False by (rule later [OF k j]) simp
  next
    case equal
    then show False using k j by simp
  next
    case greater
    then show False by (rule later [OF j k]) simp
  qed
qed

lemma sub_range: "x \<in> set (sub n p) \<Longrightarrow> p \<le> x \<and> x < n"
proof (induction n p rule: sub.induct)
  case (1 n p)
  then show ?case by (subst (asm) sub.simps [of n p]) (fastforce split: if_splits)
qed

lemma distinct_sub: "distinct (sub n p)"
proof (induction n p rule: sub.induct)
  case (1 n p)
  show ?case
  proof (cases "p < n")
    case True
    have "p \<notin> set (sub n (2 * p + 1))" "p \<notin> set (sub n (2 * p + 2))" using sub_range [of p n] by fastforce+
    then show ?thesis using True "1.IH" sub_disjoint [of n p] by (subst sub.simps) simp
  qed (subst sub.simps, simp)
qed

lemma sub_child:
  assumes "x \<in> set (sub n p)" "c = 2 * x + 1 \<or> c = 2 * x + 2" "c < n"
  shows "c \<in> set (sub n p)"
  using assms
proof (induction n p rule: sub.induct)
  case (1 n p)
  have pn: "p < n" using "1.prems"(1) by (subst (asm) sub.simps) (auto split: if_splits)
  have unf: "set (sub n p) = insert p (set (sub n (2 * p + 1)) \<union> set (sub n (2 * p + 2)))" using pn by (subst sub.simps) simp
  have self: "c \<in> set (sub n c)" using "1.prems"(3) by (subst sub.simps) simp
  show ?case
  proof (cases "x = p")
    case True
    then show ?thesis using "1.prems"(2) self unfolding unf by auto
  next
    case False
    then show ?thesis using "1.IH" [OF pn] "1.prems" unfolding unf by blast
  qed
qed

lemma sub_all: "mset (sub n 0) = mset_set {..<n}"
proof -
  have "x \<in> set (sub n 0)" if "x < n" for x
    using that
  proof (induction x rule: less_induct)
    case (less x)
    show ?case
    proof (cases x)
      case 0
      then show ?thesis using less.prems by (subst sub.simps) simp
    next
      case (Suc y)
      then have "x = 2 * (y div 2) + 1 \<or> x = 2 * (y div 2) + 2" by presburger
      moreover have "y div 2 < x" using Suc by simp
      then have "y div 2 \<in> set (sub n 0)" using less by simp
      ultimately show ?thesis by (intro sub_child [OF _ _ less.prems])
    qed
  qed
  then have "set (sub n 0) = {..<n}" using sub_range by blast
  then show ?thesis using mset_set_set [OF distinct_sub, of n 0] by simp
qed

section \<open>A multicast on all processors\<close>

fun resends :: "mc_effect list \<Rightarrow> (nat \<times> MultiMsg) multiset" where
  "resends [] = {#}"
| "resends (Resend p x # es) = add_mset (p, x) (resends es)"
| "resends (e # es) = resends es"

fun originals :: "nat \<Rightarrow> mc_effect list \<Rightarrow> (nat \<times> u8 list) multiset" where
  "originals p [] = {#}"
| "originals p (Original m # es) = add_mset (p, m) (originals p es)"
| "originals p (e # es) = originals p es"

lemma effects_append [simp]:
  "resends (es @ fs) = resends es + resends fs" "originals p (es @ fs) = originals p es + originals p fs"
proof -
  show "resends (es @ fs) = resends es + resends fs" by (induction es rule: resends.induct) auto
  show "originals p (es @ fs) = originals p es + originals p fs" by (induction p es rule: originals.induct) auto
qed

text \<open>
  One multicast of \<open>m\<close> to the group \<open>g\<close> with the members \<open>pes\<close>, while definitions arrive at the processors.
  \<open>k\<close> counts the deliveries to processors that know the group.
\<close>

inductive mc_run ::
  "nat \<Rightarrow> CmiGroup \<Rightarrow> nat list \<Rightarrow> u8 list \<Rightarrow> (nat \<Rightarrow> group_table) \<Rightarrow> (nat \<times> MultiMsg) multiset \<Rightarrow> (nat \<times> u8 list) multiset \<Rightarrow> nat \<Rightarrow> bool"
  for S g pes m where
  start: "length hdr = S \<Longrightarrow> (\<And>q. length (tabs q) = GROUPTAB_SIZE) \<Longrightarrow> (\<And>q. CmiLookupGroup g (tabs q) \<in> {None, Some pes}) \<Longrightarrow>
    es = CmiSyncMulticastFn S hdr p (tabs p) g m \<Longrightarrow> mc_run S g pes m tabs (resends es) (originals p es) 0"
| defined: "mc_run S g pes m tabs net recv k \<Longrightarrow> (d_group def = g \<Longrightarrow> d_pes def = pes) \<Longrightarrow>
    mc_run S g pes m (tabs(q := CmiGroupHandler def (tabs q))) net recv k"
| deliver: "mc_run S g pes m tabs net recv k \<Longrightarrow> (q, x) \<in># net \<Longrightarrow> es = CmiMulticastHandler S q (tabs q) x \<Longrightarrow>
    mc_run S g pes m tabs (net - {#(q, x)#} + resends es) (recv + originals q es)
      (if CmiLookupGroup g (tabs q) = None then k else Suc k)"

definition tabs_ok :: "CmiGroup \<Rightarrow> nat list \<Rightarrow> (nat \<Rightarrow> group_table) \<Rightarrow> bool" where
  "tabs_ok g pes tabs \<longleftrightarrow> (\<forall>q. length (tabs q) = GROUPTAB_SIZE \<and> CmiLookupGroup g (tabs q) \<in> {None, Some pes})"

definition mc_inv where
  "mc_inv S g pes m net recv k \<longleftrightarrow>
     (\<exists>hdr. length hdr = S \<and>
       ((\<exists>p. net = {#(p, new_multi S hdr g m)#}) \<and> recv = {#} \<and> k = 0 \<or>
        (\<exists>F R. net = image_mset (\<lambda>i. (pes ! i, (new_multi S hdr g m)\<lparr>m_pos := int i\<rparr>)) F \<and>
           recv = image_mset (\<lambda>i. (pes ! i, m)) R \<and> (\<Sum>i \<in># F. mset (sub (length pes) i)) + R = mset_set {..<length pes} \<and>
           (\<forall>i \<in># F. i < length pes) \<and> k \<le> Suc (size R))))"

lemma deliver_first:
  assumes "CmiLookupGroup g table = Some pes" "x = new_multi S hdr g m"
  shows "CmiMulticastDeliver S q table x = (if pes = [] then [FreeMulti] else [Resend (pes ! 0) (x\<lparr>m_pos := int 0\<rparr>)])"
  using assms by (simp add: CmiMulticastDeliver_def new_multi_def)

lemma deliver_at:
  assumes "CmiLookupGroup g table = Some pes" "length hdr = S" "i < length pes"
  shows "resends (CmiMulticastDeliver S q table ((new_multi S hdr g m)\<lparr>m_pos := int i\<rparr>)) =
      image_mset (\<lambda>i. (pes ! i, (new_multi S hdr g m)\<lparr>m_pos := int i\<rparr>)) (filter_mset (\<lambda>c. c < length pes) {#2 * i + 1, 2 * i + 2#})"
    "originals q (CmiMulticastDeliver S q table ((new_multi S hdr g m)\<lparr>m_pos := int i\<rparr>)) = {#(q, m)#}"
proof -
  let ?x = "new_multi S hdr g m"
  have rest: "take (length m) (multi_restore S (length m) (hdr @ m_body ?x)) = m"
    using restore_new [OF assms(2), of ?x g m] by (simp add: new_multi_def)
  have c: "(int i + 1) * 2 = int (2 * i + 2)" "int (2 * i + 2) - 1 = int (2 * i + 1)" by simp_all
  have es: "CmiMulticastDeliver S q table (?x\<lparr>m_pos := int i\<rparr>) =
      (if 2 * i + 2 < length pes then [Resend (pes ! (2 * i + 2)) (?x\<lparr>m_pos := int (2 * i + 2)\<rparr>)] else []) @
      (if 2 * i + 1 < length pes then [Resend (pes ! (2 * i + 1)) (?x\<lparr>m_pos := int (2 * i + 1)\<rparr>)] else []) @ [Original m]"
  proof -
    have "nat (int i * 2 + 2) = Suc (Suc (2 * i))" "nat (1 + int i * 2) = Suc (2 * i)" "pes \<noteq> []" using assms(3) by auto
    then show ?thesis using assms rest unfolding CmiMulticastDeliver_def
      by (simp add: Let_def c of_nat_less_iff nat_int new_multi_def del: of_nat_add of_nat_mult of_nat_Suc)
  qed
  show "resends (CmiMulticastDeliver S q table (?x\<lparr>m_pos := int i\<rparr>)) =
      image_mset (\<lambda>i. (pes ! i, ?x\<lparr>m_pos := int i\<rparr>)) (filter_mset (\<lambda>c. c < length pes) {#2 * i + 1, 2 * i + 2#})"
    "originals q (CmiMulticastDeliver S q table (?x\<lparr>m_pos := int i\<rparr>)) = {#(q, m)#}"
    unfolding es by simp_all
qed

lemma mc_inv_first:
  assumes "CmiLookupGroup g table \<in> {None, Some pes}" "length hdr = S" "x = new_multi S hdr g m" "es = CmiMulticastDeliver S q table x"
    "k \<le> (if CmiLookupGroup g table = None then 0 else 1)"
  shows "mc_inv S g pes m (resends es) (originals q es) k"
proof (cases "CmiLookupGroup g table")
  case None
  then have "es = [Resend q x]" using assms(3,4) by (simp add: CmiMulticastDeliver_def new_multi_def)
  then show ?thesis using assms None unfolding mc_inv_def by (intro exI [of _ hdr]) auto
next
  case (Some ps)
  then have ps: "CmiLookupGroup g table = Some pes" using assms(1) by simp
  let ?F = "if pes = [] then {#} else {#0#}"
  have "resends es = image_mset (\<lambda>i. (pes ! i, (new_multi S hdr g m)\<lparr>m_pos := int i\<rparr>)) ?F" "originals q es = {#}"
    using deliver_first [OF ps assms(3)] assms(3,4) by simp_all
  moreover have "(\<Sum>i \<in># ?F. mset (sub (length pes) i)) + {#} = mset_set {..<length pes}" "\<forall>i \<in># ?F. i < length pes"
    using sub_all [of "length pes"] by auto
  moreover have "k \<le> Suc 0" using assms(5) ps by simp
  ultimately show ?thesis unfolding mc_inv_def using assms(2) by (intro exI [of _ hdr] conjI disjI2 exI [of _ ?F] exI [of _ "{#}"]) auto
qed

lemma mc_inv_deliver:
  assumes inv: "mc_inv S g pes m net recv k" and tab: "CmiLookupGroup g table \<in> {None, Some pes}" and x: "(q, x) \<in># net"
    and es: "es = CmiMulticastDeliver S q table x"
  shows "mc_inv S g pes m (net - {#(q, x)#} + resends es) (recv + originals q es) (if CmiLookupGroup g table = None then k else Suc k)"
proof (cases "CmiLookupGroup g table")
  case None
  have "m_group x = g" using inv x by (auto simp: mc_inv_def new_multi_def)
  then have "es = [Resend q x]" using None es by (simp add: CmiMulticastDeliver_def)
  then have "net - {#(q, x)#} + resends es = net" "originals q es = {#}" using x by simp_all
  then show ?thesis using inv None by simp
next
  case (Some ps)
  then have ps: "CmiLookupGroup g table = Some pes" using tab by simp
  obtain hdr where hdr: "length hdr = S" and "(\<exists>p. net = {#(p, new_multi S hdr g m)#}) \<and> recv = {#} \<and> k = 0 \<or>
      (\<exists>F R. net = image_mset (\<lambda>i. (pes ! i, (new_multi S hdr g m)\<lparr>m_pos := int i\<rparr>)) F \<and>
         recv = image_mset (\<lambda>i. (pes ! i, m)) R \<and> (\<Sum>i \<in># F. mset (sub (length pes) i)) + R = mset_set {..<length pes} \<and>
         (\<forall>i \<in># F. i < length pes) \<and> k \<le> Suc (size R))" using inv unfolding mc_inv_def by blast
  then consider (first) "net = {#(q, x)#}" "x = new_multi S hdr g m" "recv = {#}" "k = 0"
    | (tree) F R where "net = image_mset (\<lambda>i. (pes ! i, (new_multi S hdr g m)\<lparr>m_pos := int i\<rparr>)) F"
        "recv = image_mset (\<lambda>i. (pes ! i, m)) R" "(\<Sum>i \<in># F. mset (sub (length pes) i)) + R = mset_set {..<length pes}"
        "\<forall>i \<in># F. i < length pes" "k \<le> Suc (size R)" using x by auto
  then show ?thesis
  proof cases
    case first
    then show ?thesis using mc_inv_first [OF tab hdr first(2) es, of 1] ps by simp
  next
    case tree
    let ?at = "\<lambda>i. (pes ! i, (new_multi S hdr g m)\<lparr>m_pos := int i\<rparr>)" and ?n = "length pes"
    obtain i where i: "i \<in># F" "(q, x) = ?at i" using x tree(1) by auto
    let ?C = "filter_mset (\<lambda>c. c < ?n) {#2 * i + 1, 2 * i + 2#}"
    obtain F' where F': "F = add_mset i F'" using i(1) by (metis insert_DiffM)
    have "i < ?n" using i(1) tree(4) by blast
    have "resends es = image_mset ?at ?C" "originals q es = {#(pes ! i, m)#}"
      using deliver_at [OF ps hdr \<open>i < ?n\<close>, of q m] i(2) es by auto
    then have "net - {#(q, x)#} + resends es = image_mset ?at (F' + ?C)"
      "recv + originals q es = image_mset (\<lambda>i. (pes ! i, m)) (add_mset i R)" using tree(1,2) F' i(2) by simp_all
    moreover have "mset (sub ?n i) = add_mset i (\<Sum>c \<in># ?C. mset (sub ?n c))"
    proof -
      have "mset (sub ?n i) = add_mset i (mset (sub ?n (2 * i + 1)) + mset (sub ?n (2 * i + 2)))"
        using \<open>i < ?n\<close> by (subst sub.simps) simp
      moreover have "sub ?n c = []" if "\<not> c < ?n" for c using that by (subst sub.simps) simp
      ultimately show ?thesis by simp
    qed
    then have "(\<Sum>i \<in># F' + ?C. mset (sub ?n i)) + add_mset i R = mset_set {..<?n}" using tree(3) F' by (simp add: ac_simps)
    moreover have "\<forall>j \<in># F' + ?C. j < ?n" using tree(4) F' by auto
    moreover have "(if CmiLookupGroup g table = None then k else Suc k) \<le> Suc (size (add_mset i R))" using ps tree(5) by simp
    ultimately show ?thesis unfolding mc_inv_def using hdr by blast
  qed
qed

lemma mc_run_inv:
  "mc_run S g pes m tabs net recv k \<Longrightarrow> tabs_ok g pes tabs \<and> mc_inv S g pes m net recv k"
proof (induction rule: mc_run.induct)
  case (start hdr tabs es p)
  then show ?case using mc_inv_first [where table = "tabs p" and x = "new_multi S hdr g m" and hdr = hdr and es = es and q = p and k = 0]
    by (simp add: tabs_ok_def CmiSyncMulticastFn_def)
next
  case (defined tabs net recv k def q)
  then have "tabs_ok g pes (tabs(q := CmiGroupHandler def (tabs q)))" by (auto simp: tabs_ok_def lookup_after_define)
  then show ?case using defined.IH by blast
next
  case (deliver tabs net recv k q x es)
  then show ?case using mc_inv_deliver [of S g pes m net recv k "tabs q" q x es] by (simp add: tabs_ok_def CmiMulticastHandler_def)
qed

section \<open>Property\<close>

text \<open>
  C38.  A multicast reaches every member of the group once.  Whatever the order in which messages
  and group definitions arrive, the message is delivered unchanged and at most once for every position
  in the group; when no message is in flight it has been delivered to all of them; and after at most one
  delivery more than the group has members to processors that know the group, none is in flight.
\<close>

theorem multicast_once:
  assumes "mc_run S g pes m tabs net recv k"
  shows "recv \<subseteq># mset (map (\<lambda>p. (p, m)) pes) \<and> (net = {#} \<longrightarrow> recv = mset (map (\<lambda>p. (p, m)) pes)) \<and>
    k \<le> length pes + 1"
proof -
  have pos: "mset (map (\<lambda>p. (p, m)) pes) = image_mset (\<lambda>i. (pes ! i, m)) (mset_set {..<length pes})"
  proof -
    have "map (\<lambda>p. (p, m)) pes = map (\<lambda>i. (pes ! i, m)) [0..<length pes]" by (rule nth_equalityI) simp_all
    then have "mset (map (\<lambda>p. (p, m)) pes) = image_mset (\<lambda>i. (pes ! i, m)) (mset [0..<length pes])" by (metis mset_map)
    then show ?thesis by (simp add: lessThan_atLeast0)
  qed
  from mc_run_inv [OF assms] consider "net \<noteq> {#}" "recv = {#}" "k = 0"
    | F R where "recv = image_mset (\<lambda>i. (pes ! i, m)) R" "(\<Sum>i \<in># F. mset (sub (length pes) i)) + R = mset_set {..<length pes}"
      "net = {#} \<longrightarrow> F = {#}" "k \<le> Suc (size R)" unfolding mc_inv_def by fastforce
  then show ?thesis
  proof cases
    case (2 F R)
    then have "R \<subseteq># mset_set {..<length pes}" by (metis mset_subset_eq_add_right)
    then have "recv \<subseteq># mset (map (\<lambda>p. (p, m)) pes)" "size R \<le> length pes"
      using 2(1) pos size_mset_mono [of R "mset_set {..<length pes}"] by (simp_all add: image_mset_subseteq_mono)
    moreover have "net = {#} \<longrightarrow> recv = mset (map (\<lambda>p. (p, m)) pes)" using 2 pos by auto
    ultimately show ?thesis using 2(4) by simp
  qed simp
qed

definition demo_group :: CmiGroup where "demo_group = \<lparr>g_id = 0, g_pe = 2\<rparr>"

theorem multicast_once_witness:
  "\<exists>tabs k. mc_run 1 demo_group [7, 4] [5, 6] tabs {#} {#(7, [5, 6]), (4, [5, 6])#} k"
proof -
  let ?tab = "CmiGroupHandler \<lparr>d_group = demo_group, d_pes = [7, 4]\<rparr> (replicate GROUPTAB_SIZE [])"
  let ?x = "new_multi 1 [0] demo_group [5, 6]" and ?at = "\<lambda>i. ([7, 4] ! i, (new_multi 1 [0] demo_group [5, 6])\<lparr>m_pos := int i\<rparr>)"
  have tab: "CmiLookupGroup demo_group ?tab = Some [7, 4]" by (simp add: lookup_after_define)
  have len: "length ?tab = GROUPTAB_SIZE" by simp
  have first: "CmiSyncMulticastFn 1 [0] 0 ?tab demo_group [5, 6] = [Resend 7 (?x\<lparr>m_pos := int 0\<rparr>)]"
    using deliver_first [OF tab, where x = ?x and S = 1 and hdr = "[0]" and m = "[5, 6]" and q = 0] by (simp add: CmiSyncMulticastFn_def)
  have "mc_run 1 demo_group [7, 4] [5, 6] (\<lambda>_. ?tab) (resends [Resend 7 (?x\<lparr>m_pos := int 0\<rparr>)]) (originals 0 [Resend 7 (?x\<lparr>m_pos := int 0\<rparr>)]) 0"
    by (rule mc_run.start [where hdr = "[0]" and p = 0]) (use tab len first in simp_all)
  then have run: "mc_run 1 demo_group [7, 4] [5, 6] (\<lambda>_. ?tab) {#?at 0#} {#} 0" by simp
  note at = deliver_at [OF tab, of "[0]" 1, folded CmiMulticastHandler_def]
  from mc_run.deliver [OF run, of "fst (?at 0)" "snd (?at 0)", OF _ refl] at [of 0 7 "[5, 6]"]
  have "\<exists>k. mc_run 1 demo_group [7, 4] [5, 6] (\<lambda>_. ?tab) {#?at 1#} {#(7, [5, 6])#} k" by auto
  then obtain k where "mc_run 1 demo_group [7, 4] [5, 6] (\<lambda>_. ?tab) {#?at 1#} {#(7, [5, 6])#} k" ..
  from mc_run.deliver [OF this, of "fst (?at 1)" "snd (?at 1)", OF _ refl] at [of 1 4 "[5, 6]"]
  obtain recv k' where run2: "mc_run 1 demo_group [7, 4] [5, 6] (\<lambda>_. ?tab) {#} recv k'" by auto
  from multicast_once [OF this] have "recv = {#(7, [5, 6]), (4, [5, 6])#}" by simp
  then show ?thesis using run2 by blast
qed

end
