(* ===== verification/Reduction.thy ===== *)
theory Reduction
  imports Spantree Multicast
begin

text \<open>
  Reductions over the processors: \<^verbatim>\<open>CmiReduce\<close> and its variants in \<^verbatim>\<open>conv-core/convcore.c\<close>.
  Every processor has a table of the reductions in progress, indexed by the low bits of their numbers.
  A processor contributes its data, collects the messages of its children in the spanning tree in
  whatever order they come, merges all of them and sends the result to its parent; the first
  processor passes it to the destination.

  The data is of an arbitrary type.  The functions given by the application are values of the
  model: a merge function maps the size, the local and the remote data to the merged data and its
  size, a pup function maps data to its packed form and size.  The messages sent, the calls of the
  destination and of the delete function and the messages freed are the effects of an operation.
  The source calls the destination before it clears the entry of the table; here the entry is cleared and the
  call is the last effect, so a destination that starts or continues reductions itself does so on the cleared table.
\<close>

section \<open>The data\<close>

record 'd redops =
  destination :: ptr
  mergeFn :: "int \<Rightarrow> 'd \<Rightarrow> 'd list \<Rightarrow> 'd \<times> int"
  pupFn :: "('d \<Rightarrow> 'd \<times> int) option"
  deleteFn :: ptr

record 'd reduction =
  localData :: "'d option"
  remoteData :: "'d option list"
  localSize :: int
  numRemoteReceived :: int
  numChildren :: int
  red_parent :: int
  seqID :: u16
  localContributed :: bool
  ops :: "'d redops option"

record 'd redstate =
  red_mype :: nat
  red_topo :: topology
  reserved_header :: int
  reduce_info :: "'d reduction option list"
  reduce_info_size :: nat
  seqID_global :: u16
  seqID_request :: u16
  seqID_dynamic :: u16

datatype 'd effect = SyncSend int u16 int 'd | Destination ptr 'd | DeleteData ptr 'd | FreeMsg 'd

definition CmiReductionID_multiplier :: u16 where "CmiReductionID_multiplier = 3"

text \<open>The conversion to \<^verbatim>\<open>short int\<close>.\<close>

definition short :: "int \<Rightarrow> int" where "short x = signed_take_bit 15 x"

section \<open>The table of reductions\<close>

definition red_index :: "u16 \<Rightarrow> nat \<Rightarrow> nat" where
  "red_index rid n = unat (ucast rid AND NOT (push_bit n (- 1)) :: u32)"

definition store_red :: "'d reduction \<Rightarrow> 'd redstate \<Rightarrow> 'd redstate" where
  "store_red red st = st\<lparr>reduce_info := (reduce_info st)[red_index (seqID red) (reduce_info_size st) := Some red]\<rparr>"

definition resize :: "nat \<Rightarrow> nat \<Rightarrow> 'a option list \<Rightarrow> 'a option list" where
  "resize old new xs = take old xs @ replicate (new - length (take old xs)) None"

definition CmiGetReductionCreate :: "u16 \<Rightarrow> int \<Rightarrow> 'd redstate \<Rightarrow> ('d reduction \<times> 'd redstate) result" where
  "CmiGetReductionCreate rid n st =
     (let n' = (if n = 0 then 4 else n)
      in case reduce_info st ! red_index rid (reduce_info_size st) of
           None \<Rightarrow>
             let red = \<lparr>localData = None, remoteData = replicate (nat n') None, localSize = 0, numRemoteReceived = 0,
                        numChildren = n', red_parent = 0, seqID = rid, localContributed = False, ops = None\<rparr>
             in Inr (red, store_red red st)
         | Some red \<Rightarrow>
             if seqID red \<noteq> rid then Inl (Abort ''Too many simultaneous reductions'')
             else if numChildren red < n
             then rbind (CmiAssert (\<not> localContributed red) ''red == NULL || red->localContributed == 0'') (\<lambda>_.
                    let red1 = red\<lparr>remoteData := resize (nat (numChildren red)) (nat n') (remoteData red), numChildren := n'\<rparr>
                    in Inr (red1, store_red red1 st))
             else Inr (red, st))"

definition CmiGetReduction :: "u16 \<Rightarrow> 'd redstate \<Rightarrow> ('d reduction \<times> 'd redstate) result" where
  "CmiGetReduction rid st = CmiGetReductionCreate rid 0 st"

definition CmiClearReduction :: "u16 \<Rightarrow> 'd redstate \<Rightarrow> 'd redstate" where
  "CmiClearReduction rid st = st\<lparr>reduce_info := (reduce_info st)[red_index rid (reduce_info_size st) := None]\<rparr>"

definition CmiGetNextReduction :: "int \<Rightarrow> 'd redstate \<Rightarrow> ('d reduction \<times> 'd redstate) result" where
  "CmiGetNextReduction n st =
     (let rid = seqID_global st
      in CmiGetReductionCreate rid n
           (st\<lparr>seqID_global := (if 0xFFF0 < rid then 0 else rid + CmiReductionID_multiplier)\<rparr>))"

definition CmiGetGlobalReduction :: "'d redstate \<Rightarrow> u16 \<times> 'd redstate" where
  "CmiGetGlobalReduction st =
     (let rid = seqID_request st + CmiReductionID_multiplier in (rid, st\<lparr>seqID_request := rid\<rparr>))"

definition CmiGetDynamicReduction :: "'d redstate \<Rightarrow> (u16 \<times> 'd redstate) result" where
  "CmiGetDynamicReduction st =
     (if red_mype st \<noteq> 0 then Inl (Abort ''Cannot call CmiGetDynamicReduction on processors other than zero!'')
      else let rid = seqID_dynamic st + CmiReductionID_multiplier in Inr (rid, st\<lparr>seqID_dynamic := rid\<rparr>))"

text \<open>A request for a number: the processor to answer (negative for all), the handler and the data of the answer.\<close>

datatype 'b dyn_effect = DynRequest int ptr 'b | DynReply nat ptr u16 'b | DynReplyAll ptr u16 'b

definition CmiReductionHandleDynamicRequest ::
  "int \<Rightarrow> ptr \<Rightarrow> 'b \<Rightarrow> 'd redstate \<Rightarrow> ('d redstate \<times> 'b dyn_effect) result" where
  "CmiReductionHandleDynamicRequest pe xhdl data st =
     rbind (CmiGetDynamicReduction st) (\<lambda>(rid, st1).
       Inr (st1, if 0 \<le> pe then DynReply (nat pe) xhdl rid data else DynReplyAll xhdl rid data))"

definition CmiGetDynamicReductionRemote ::
  "ptr \<Rightarrow> int \<Rightarrow> 'b \<Rightarrow> 'd redstate \<Rightarrow> ('d redstate \<times> 'b dyn_effect) result" where
  "CmiGetDynamicReductionRemote handlerIdx pe data st =
     (if red_mype st = 0 then CmiReductionHandleDynamicRequest pe handlerIdx data st
      else Inr (st, DynRequest pe handlerIdx data))"

section \<open>Merging and sending\<close>

text \<open>The cells of the array of messages that the merge function is given.\<close>

fun read_remote :: "nat \<Rightarrow> 'd option list \<Rightarrow> 'd list result" where
  "read_remote 0 xs = Inr []"
| "read_remote (Suc n) (Some x # xs) = rbind (read_remote n xs) (\<lambda>ys. Inr (x # ys))"
| "read_remote (Suc n) xs = Inl (Fault ''remoteData'')"

definition reduce_send :: "'d reduction \<Rightarrow> 'd redops \<Rightarrow> 'd \<Rightarrow> 'd \<Rightarrow> int \<Rightarrow> int \<Rightarrow> 'd effect list" where
  "reduce_send red ro local merged msg_size hdr =
     (if red_parent red \<noteq> - 1
      then case pupFn ro of
             None \<Rightarrow> [SyncSend (red_parent red) (seqID red) msg_size merged]
           | Some pup \<Rightarrow>
               (if deleteFn ro \<noteq> NULL then [DeleteData (deleteFn ro) local] else []) @
               [SyncSend (red_parent red) (seqID red) (snd (pup merged) + hdr) (fst (pup merged))]
      else [Destination (destination ro) merged])"

definition CmiSendReduce :: "'d reduction \<Rightarrow> 'd redstate \<Rightarrow> ('d redstate \<times> 'd effect list) result" where
  "CmiSendReduce red st =
     (if \<not> localContributed red \<or> numChildren red \<noteq> numRemoteReceived red then Inr (st, [])
      else case (localData red, ops red) of
             (Some local, Some ro) \<Rightarrow>
               if 0 < numChildren red
               then rbind (read_remote (nat (numChildren red)) (remoteData red)) (\<lambda>remote.
                      let (merged, msg_size) = mergeFn ro (localSize red) local remote
                      in Inr (CmiClearReduction (seqID red) st,
                              map FreeMsg remote @ reduce_send red ro local merged msg_size (reserved_header st)))
               else Inr (CmiClearReduction (seqID red) st,
                         reduce_send red ro local local (localSize red) (reserved_header st))
           | _ \<Rightarrow> Inl (Fault ''localData''))"

definition CmiReduceMergeFn_random :: "int \<Rightarrow> 'd \<Rightarrow> 'd list \<Rightarrow> 'd \<times> int" where
  "CmiReduceMergeFn_random msg_size data remote = (data, msg_size)"

definition CmiResetGlobalReduceSeqID :: "'d redstate \<Rightarrow> 'd redstate" where
  "CmiResetGlobalReduceSeqID st = st\<lparr>seqID_global := 0\<rparr>"

section \<open>Contributions\<close>

text \<open>What all variants do once they have the reduction and know the tree: \<open>nch\<close> children and the parent \<open>par\<close>.\<close>

definition red_contribute ::
  "'d \<Rightarrow> int \<Rightarrow> int \<Rightarrow> int \<Rightarrow> 'd redops \<Rightarrow> 'd reduction \<Rightarrow> 'd redstate \<Rightarrow> ('d redstate \<times> 'd effect list) result" where
  "red_contribute data sz nch par ro red st =
     rbind (CmiAssert (\<not> localContributed red) ''red->localContributed == 0'') (\<lambda>_.
       let red1 = red\<lparr>localContributed := True, localData := Some data, localSize := sz,
                      numChildren := nch, red_parent := par, ops := Some ro\<rparr>
       in CmiSendReduce red1 (store_red red1 st))"

definition my_children :: "'d redstate \<Rightarrow> int" where
  "my_children st = short (int (CmiNumSpanTreeChildren (red_topo st) (red_mype st)))"

definition CmiGlobalReduce where
  "CmiGlobalReduce msg sz merge dest red st =
     red_contribute msg sz (my_children st) (CmiSpanTreeParent (red_topo st) (red_mype st))
       \<lparr>destination = dest, mergeFn = merge, pupFn = None, deleteFn = NULL\<rparr> red st"

definition CmiGlobalReduceStruct where
  "CmiGlobalReduceStruct data pup merge dest del red st =
     red_contribute data 0 (my_children st) (CmiSpanTreeParent (red_topo st) (red_mype st))
       \<lparr>destination = dest, mergeFn = merge, pupFn = Some pup, deleteFn = del\<rparr> red st"

definition CmiReduce where
  "CmiReduce msg sz merge dest st =
     rbind (CmiGetNextReduction (my_children st) st) (\<lambda>(red, st1). CmiGlobalReduce msg sz merge dest red st1)"

definition CmiReduceStruct where
  "CmiReduceStruct data pup merge dest del st =
     rbind (CmiGetNextReduction (my_children st) st) (\<lambda>(red, st1). CmiGlobalReduceStruct data pup merge dest del red st1)"

definition CmiReduceID where
  "CmiReduceID msg sz merge dest rid st =
     rbind (CmiGetReductionCreate rid (my_children st) st) (\<lambda>(red, st1). CmiGlobalReduce msg sz merge dest red st1)"

definition CmiReduceStructID where
  "CmiReduceStructID data pup merge dest del rid st =
     rbind (CmiGetReductionCreate rid (my_children st) st) (\<lambda>(red, st1). CmiGlobalReduceStruct data pup merge dest del red st1)"

text \<open>The reductions over a list of processors, as a tree of width four over the positions in the list.\<close>

fun list_pos :: "nat \<Rightarrow> nat list \<Rightarrow> nat" where
  "list_pos p [] = 0"
| "list_pos p (q # qs) = (if q = p then 0 else Suc (list_pos p qs))"

definition list_children :: "nat \<Rightarrow> nat \<Rightarrow> int" where
  "list_children npes pos = max 0 (min 4 (short (int npes - 4 * int pos - 1)))"

definition CmiListReduce where
  "CmiListReduce pes msg sz merge dest rid st =
     rbind (CmiGetReductionCreate rid (my_children st) st) (\<lambda>(red, st1).
       let pos = list_pos (red_mype st) pes
       in rbind (CmiAssert (pos < length pes) ''myPos < npes'') (\<lambda>_.
            red_contribute msg sz (list_children (length pes) pos) (if pos = 0 then - 1 else int (pes ! ((pos - 1) div 4)))
              \<lparr>destination = dest, mergeFn = merge, pupFn = None, deleteFn = NULL\<rparr> red st1))"

definition CmiListReduceStruct where
  "CmiListReduceStruct pes data pup merge dest del rid st =
     rbind (CmiGetReductionCreate rid (my_children st) st) (\<lambda>(red, st1).
       let pos = list_pos (red_mype st) pes
       in rbind (CmiAssert (pos < length pes) ''myPos < npes'') (\<lambda>_.
            red_contribute data 0 (list_children (length pes) pos) (if pos = 0 then - 1 else int ((pos - 1) div 4))
              \<lparr>destination = dest, mergeFn = merge, pupFn = Some pup, deleteFn = del\<rparr> red st1))"

text \<open>A group that is not known has no members.\<close>

definition group_pes :: "CmiGroup \<Rightarrow> group_table \<Rightarrow> nat list" where
  "group_pes grp table = (case CmiLookupGroup grp table of None \<Rightarrow> [] | Some pes \<Rightarrow> pes)"

definition CmiGroupReduce where
  "CmiGroupReduce grp table msg sz merge dest rid st = CmiListReduce (group_pes grp table) msg sz merge dest rid st"

definition CmiGroupReduceStruct where
  "CmiGroupReduceStruct grp table data pup merge dest del rid st =
     CmiListReduceStruct (group_pes grp table) data pup merge dest del rid st"

section \<open>Messages\<close>

definition CmiHandleReductionMessage :: "u16 \<Rightarrow> 'd \<Rightarrow> 'd redstate \<Rightarrow> ('d redstate \<times> 'd effect list) result" where
  "CmiHandleReductionMessage rid msg st =
     rbind (CmiGetReduction rid st) (\<lambda>(red0, st0).
       rbind (if numRemoteReceived red0 = numChildren red0
              then CmiGetReductionCreate rid (short (numChildren red0 + 4)) st0 else Inr (red0, st0)) (\<lambda>(red, st1).
         if 0 \<le> numRemoteReceived red \<and> nat (numRemoteReceived red) < length (remoteData red)
         then let red1 = red\<lparr>remoteData := (remoteData red)[nat (numRemoteReceived red) := Some msg],
                             numRemoteReceived := short (numRemoteReceived red + 1)\<rparr>
              in CmiSendReduce red1 (store_red red1 st1)
         else Inl (Fault ''remoteData'')))"

definition CmiReductionsInit :: "topology \<Rightarrow> nat \<Rightarrow> int \<Rightarrow> 'd redstate" where
  "CmiReductionsInit T p hdr =
     \<lparr>red_mype = p, red_topo = T, reserved_header = hdr, reduce_info = replicate 16 None, reduce_info_size = 4,
      seqID_global = 0, seqID_request = 1, seqID_dynamic = 2\<rparr>"

end
