(* ===== verification/ReductionSystem.thy ===== *)
theory ReductionSystem
  imports Reduction
begin

text \<open>
  The reductions of \<^verbatim>\<open>convcore.c\<close> on all processors together: contributions, and messages delivered
  in any order.  Every reduction ends, and its result holds the contribution of every processor once.
\<close>

section \<open>One reduction on one processor\<close>

fun sends_of :: "'d effect list \<Rightarrow> (nat \<times> u16 \<times> 'd) list" where
  "sends_of [] = []"
| "sends_of (SyncSend q i n d # es) = (nat q, i, d) # sends_of es"
| "sends_of (e # es) = sends_of es"

fun dests_of :: "'d effect list \<Rightarrow> (ptr \<times> 'd) list" where
  "dests_of [] = []"
| "dests_of (Destination f d # es) = (f, d) # dests_of es"
| "dests_of (e # es) = dests_of es"

lemma effects_free [simp]: "sends_of (map FreeMsg xs @ es) = sends_of es" "dests_of (map FreeMsg xs @ es) = dests_of es"
  by (induction xs) auto

text \<open>What a data item stands for is kept by merging and packing.\<close>

definition ops_ok :: "('d \<Rightarrow> 'c :: cancel_comm_monoid_add) \<Rightarrow> 'd redops \<Rightarrow> bool" where
  "ops_ok content ro \<longleftrightarrow>
     (\<forall>n d rs. content (fst (mergeFn ro n d rs)) = content d + sum_list (map content rs)) \<and>
     (\<forall>pup d. pupFn ro = Some pup \<longrightarrow> content (fst (pup d)) = content d)"

definition st_ok :: "topology \<Rightarrow> nat \<Rightarrow> 'd redstate \<Rightarrow> bool" where
  "st_ok T p st \<longleftrightarrow> red_topo st = T \<and> red_mype st = p \<and> reduce_info_size st = 4 \<and> length (reduce_info st) = 16"

abbreviation slot :: "'d redstate \<Rightarrow> u16 \<Rightarrow> 'd reduction option" where
  "slot st rid \<equiv> reduce_info st ! red_index rid (reduce_info_size st)"

definition red_of :: "'d redstate \<Rightarrow> u16 \<Rightarrow> 'd reduction option" where
  "red_of st rid = (case slot st rid of None \<Rightarrow> None | Some r \<Rightarrow> if seqID r = rid then Some r else None)"

text \<open>The entry of the table is not taken by another reduction.\<close>

definition slot_free :: "'d redstate \<Rightarrow> u16 \<Rightarrow> bool" where
  "slot_free st rid \<longleftrightarrow> (case slot st rid of None \<Rightarrow> True | Some r \<Rightarrow> seqID r = rid)"

definition stored :: "'d multiset \<Rightarrow> 'd reduction \<Rightarrow> bool" where
  "stored rs red \<longleftrightarrow> (\<exists>xs. mset xs = rs \<and> take (length xs) (remoteData red) = map Some xs \<and> numRemoteReceived red = int (length xs))"

definition red_core ::
  "('d \<Rightarrow> 'c :: cancel_comm_monoid_add) \<Rightarrow> nat \<Rightarrow> int \<Rightarrow> 'd option \<Rightarrow> 'd multiset \<Rightarrow> 'd reduction \<Rightarrow> bool" where
  "red_core content nch par local rs red \<longleftrightarrow>
     localContributed red = (local \<noteq> None) \<and> stored rs red \<and>
     (case local of
        None \<Rightarrow> numChildren red = int (length (remoteData red))
      | Some d \<Rightarrow> localData red = Some d \<and> numChildren red = int nch \<and> nch \<le> length (remoteData red) \<and>
          red_parent red = par \<and> (\<exists>ro. ops red = Some ro \<and> ops_ok content ro))"

definition red_inv ::
  "('d \<Rightarrow> 'c :: cancel_comm_monoid_add) \<Rightarrow> nat \<Rightarrow> int \<Rightarrow> 'd option \<Rightarrow> 'd multiset \<Rightarrow> 'd reduction option \<Rightarrow> bool" where
  "red_inv content nch par local rs mr \<longleftrightarrow>
     (case mr of
        None \<Rightarrow> local = None \<and> rs = {#}
      | Some red \<Rightarrow> red_core content nch par local rs red \<and> (local \<noteq> None \<longrightarrow> size rs < nch))"

text \<open>
  The state after an operation that leaves the contribution \<open>local\<close> and the messages \<open>rs\<close>: the
  reduction waits, or it is complete, has been sent on and is gone.
\<close>

definition outcome ::
  "('d \<Rightarrow> 'c :: cancel_comm_monoid_add) \<Rightarrow> topology \<Rightarrow> nat \<Rightarrow> nat \<Rightarrow> int \<Rightarrow> u16 \<Rightarrow> 'd option \<Rightarrow> 'd multiset \<Rightarrow> 'd redstate \<Rightarrow>
   ('d redstate \<times> 'd effect list) result \<Rightarrow> bool" where
  "outcome content T p nch par rid local rs st r \<longleftrightarrow>
     (\<exists>st' es. r = Inr (st', es) \<and> st_ok T p st' \<and> (\<forall>rid'. rid' \<noteq> rid \<longrightarrow> red_of st' rid' = red_of st rid') \<and>
       (if local \<noteq> None \<and> size rs = nch
        then red_of st' rid = None \<and>
          (\<exists>v f. content v = content (the local) + (\<Sum>x \<in># rs. content x) \<and>
             sends_of es = (if par = - 1 then [] else [(nat par, rid, v)]) \<and> dests_of es = (if par = - 1 then [(f, v)] else []))
        else red_inv content nch par local rs (red_of st' rid) \<and> sends_of es = [] \<and> dests_of es = []))"

lemma red_index_less [simp]: "red_index rid 4 < 16"
proof -
  have "ucast rid AND NOT (push_bit 4 (- 1)) = (take_bit 4 (ucast rid) :: u32)"
    by (rule bit_word_eqI) (auto simp: bit_simps)
  then have "red_index rid 4 = take_bit 4 (unat (ucast rid :: u32))" by (simp add: red_index_def unsigned_take_bit_eq)
  then show ?thesis using take_bit_nat_less_exp [of 4 "unat (ucast rid :: u32)"] by simp
qed

lemma short_id [simp]: "0 \<le> x \<Longrightarrow> x < 32768 \<Longrightarrow> short x = x"
  by (simp add: short_def signed_take_bit_int_eq_self)

lemma read_remote_stored:
  "take (length xs) l = map Some xs \<Longrightarrow> read_remote (length xs) l = Inr xs"
proof (induction xs arbitrary: l)
  case (Cons x xs)
  then show ?case by (cases l) auto
qed simp

lemma slot_store [simp]:
  assumes "st_ok T p st"
  shows "st_ok T p (store_red red st)" "st_ok T p (CmiClearReduction rid st)"
    "reduce_info (store_red red st) = (reduce_info st)[red_index (seqID red) 4 := Some red]"
    "reduce_info (CmiClearReduction rid st) = (reduce_info st)[red_index rid 4 := None]"
    "reduce_info_size (store_red red st) = 4" "reduce_info_size (CmiClearReduction rid st) = 4"
  using assms by (simp_all add: st_ok_def store_red_def CmiClearReduction_def)

lemma red_of_store:
  assumes "st_ok T p st" "slot_free st rid" "seqID red = rid"
  shows "red_of (store_red red st) rid' = (if rid' = rid then Some red else red_of st rid')"
proof -
  have ok: "reduce_info_size st = 4" "length (reduce_info st) = 16" using assms(1) by (simp_all add: st_ok_def)
  show ?thesis
  proof (cases "red_index rid' 4 = red_index rid 4")
    case True
    then have "rid' \<noteq> rid \<Longrightarrow> red_of st rid' = None" using assms(2) ok by (cases "slot st rid") (auto simp: red_of_def slot_free_def)
    then show ?thesis using True assms(3) ok by (simp add: red_of_def store_red_def)
  next
    case False
    then show ?thesis using assms(3) ok by (auto simp: red_of_def store_red_def)
  qed
qed

lemma red_of_clear:
  assumes "st_ok T p st" "slot_free st rid"
  shows "red_of (CmiClearReduction rid st) rid' = (if rid' = rid then None else red_of st rid')"
proof -
  have ok: "reduce_info_size st = 4" "length (reduce_info st) = 16" using assms(1) by (simp_all add: st_ok_def)
  show ?thesis
  proof (cases "red_index rid' 4 = red_index rid 4")
    case True
    then have "rid' \<noteq> rid \<Longrightarrow> red_of st rid' = None" using assms(2) ok by (cases "slot st rid") (auto simp: red_of_def slot_free_def)
    then show ?thesis using True ok by (simp add: red_of_def CmiClearReduction_def)
  next
    case False
    then show ?thesis using ok by (auto simp: red_of_def CmiClearReduction_def)
  qed
qed

lemma slot_free_store [simp]:
  assumes "st_ok T p st" "seqID red = rid"
  shows "slot_free (store_red red st) rid"
  using assms by (simp add: slot_free_def st_ok_def store_red_def)

lemma reduce_send_effects:
  assumes "ops_ok content ro"
  shows "\<exists>v f. content v = content merged \<and>
    sends_of (reduce_send red ro local merged n hdr) = (if red_parent red = - 1 then [] else [(nat (red_parent red), seqID red, v)]) \<and>
    dests_of (reduce_send red ro local merged n hdr) = (if red_parent red = - 1 then [(f, v)] else [])"
proof (cases "pupFn ro")
  case None
  then show ?thesis by (auto simp: reduce_send_def)
next
  case (Some pup)
  then have "content (fst (pup merged)) = content merged" using assms by (simp add: ops_ok_def)
  then show ?thesis using Some
    by (cases "red_parent red = - 1") (auto simp: reduce_send_def intro!: exI [of _ "fst (pup merged)"])
qed

lemma send_outcome:
  assumes st: "st_ok T p st" "slot_free st rid" and red: "seqID red = rid" "red_core content nch par local rs red"
    and few: "local \<noteq> None \<Longrightarrow> size rs \<le> nch"
  shows "outcome content T p nch par rid local rs st (CmiSendReduce red (store_red red st))"
proof (cases local)
  case None
  then have "CmiSendReduce red (store_red red st) = Inr (store_red red st, [])"
    using red(2) by (simp add: CmiSendReduce_def red_core_def)
  then show ?thesis using None st red by (simp add: outcome_def red_of_store red_inv_def)
next
  case (Some d)
  obtain xs where xs: "mset xs = rs" "take (length xs) (remoteData red) = map Some xs" "numRemoteReceived red = int (length xs)"
    using red(2) by (auto simp: red_core_def stored_def)
  obtain ro where r: "localContributed red" "localData red = Some d" "numChildren red = int nch" "red_parent red = par"
    "ops red = Some ro" "ops_ok content ro" using red(2) Some by (auto simp: red_core_def)
  have len: "length xs = size rs" using xs(1) by auto
  have core: "red_core content nch par (Some d) rs red" using red(2) Some by simp
  show ?thesis
  proof (cases "size rs = nch")
    case False
    then have "CmiSendReduce red (store_red red st) = Inr (store_red red st, [])"
      using r xs(3) len by (simp add: CmiSendReduce_def)
    moreover have "size rs < nch" using False few Some by simp
    ultimately show ?thesis using False Some st red(1) core by (simp add: outcome_def red_of_store red_inv_def)
  next
    case True
    obtain merged n es where send: "CmiSendReduce red (store_red red st) = Inr (CmiClearReduction rid (store_red red st), es)"
      "sends_of es = sends_of (reduce_send red ro d merged n (reserved_header st))"
      "dests_of es = dests_of (reduce_send red ro d merged n (reserved_header st))"
      "content merged = content d + (\<Sum>x \<in># rs. content x)"
    proof (cases "nch = 0")
      case True
      then have "rs = {#}" using len xs(1) \<open>size rs = nch\<close> by auto
      then show thesis using that [of "reduce_send red ro d d (localSize red) (reserved_header st)" d "localSize red"] True r xs len red(1)
        by (simp add: CmiSendReduce_def store_red_def)
    next
      case False
      obtain m n where m: "mergeFn ro (localSize red) d xs = (m, n)" by (cases "mergeFn ro (localSize red) d xs")
      have "content (fst (mergeFn ro (localSize red) d xs)) = content d + sum_list (map content xs)" using r(6) by (simp add: ops_ok_def)
      moreover have "sum_list (map content xs) = (\<Sum>x \<in># rs. content x)" using xs(1) by (metis mset_map sum_mset_sum_list)
      ultimately show thesis
        using that [of "map FreeMsg xs @ reduce_send red ro d m n (reserved_header st)" m n] False r xs True len m red(1)
          read_remote_stored [OF xs(2)] by (simp add: CmiSendReduce_def store_red_def)
    qed
    obtain v f where vf: "content v = content merged"
      "sends_of es = (if red_parent red = - 1 then [] else [(nat (red_parent red), seqID red, v)])"
      "dests_of es = (if red_parent red = - 1 then [(f, v)] else [])"
      using reduce_send_effects [OF r(6), of merged red d n "reserved_header st"] send(2,3) by metis
    have clear: "st_ok T p (CmiClearReduction rid (store_red red st))"
      "red_of (CmiClearReduction rid (store_red red st)) rid' = (if rid' = rid then None else red_of st rid')" for rid'
      using st red(1) red_of_clear [of T p "store_red red st" rid] by (simp_all add: red_of_store)
    show ?thesis unfolding outcome_def
      using send(1,4) clear vf True Some r(4) red(1) by (intro exI [of _ "CmiClearReduction rid (store_red red st)"] exI [of _ es]) auto
  qed
qed

lemma stored_resize:
  assumes "stored rs red" "numChildren red = int (length (remoteData red))" "numChildren red < n"
  shows "stored rs (red\<lparr>remoteData := resize (nat (numChildren red)) (nat n) (remoteData red), numChildren := n\<rparr>)"
    "length (resize (nat (numChildren red)) (nat n) (remoteData red)) = nat n"
proof -
  obtain xs where xs: "mset xs = rs" "take (length xs) (remoteData red) = map Some xs" "numRemoteReceived red = int (length xs)"
    using assms(1) by (auto simp: stored_def)
  have "length xs \<le> length (remoteData red)" using arg_cong [OF xs(2), of length] by simp
  then show "stored rs (red\<lparr>remoteData := resize (nat (numChildren red)) (nat n) (remoteData red), numChildren := n\<rparr>)"
    using xs assms(2) by (auto simp: stored_def resize_def intro!: exI [of _ xs])
  show "length (resize (nat (numChildren red)) (nat n) (remoteData red)) = nat n"
    using assms(2,3) by (simp add: resize_def)
qed

lemma create_outcome:
  assumes st: "st_ok T p st" "slot_free st rid" and inv: "red_inv content nch par None rs (red_of st rid)" and n: "0 \<le> n"
  shows "\<exists>red st'. CmiGetReductionCreate rid n st = Inr (red, st') \<and> st_ok T p st' \<and> seqID red = rid \<and>
    red_core content nch par None rs red \<and> n \<le> numChildren red \<and> slot_free st' rid \<and>
    red_of st' = (red_of st)(rid \<mapsto> red)"
proof (cases "slot st rid")
  case None
  let ?n = "if n = 0 then 4 else n"
  let ?red = "\<lparr>localData = None, remoteData = replicate (nat ?n) None, localSize = 0, numRemoteReceived = 0,
    numChildren = ?n, red_parent = 0, seqID = rid, localContributed = False, ops = None\<rparr>"
  have "CmiGetReductionCreate rid n st = Inr (?red, store_red ?red st)" using None by (simp add: CmiGetReductionCreate_def Let_def)
  moreover have "rs = {#}" using inv None by (simp add: red_inv_def red_of_def)
  moreover have "red_of (store_red ?red st) = (red_of st)(rid \<mapsto> ?red)" by (rule ext) (simp add: red_of_store [OF st])
  ultimately show ?thesis using st n by (intro exI [of _ ?red] exI [of _ "store_red ?red st"]) (simp add: red_core_def stored_def)
next
  case (Some red)
  then have sq: "seqID red = rid" using st(2) by (simp add: slot_free_def)
  then have core: "red_core content nch par None rs red" using inv Some by (simp add: red_inv_def red_of_def)
  then have loc: "\<not> localContributed red" "stored rs red" "numChildren red = int (length (remoteData red))" by (simp_all add: red_core_def)
  show ?thesis
  proof (cases "numChildren red < n")
    case True
    then have "n \<noteq> 0" using loc by simp
    let ?red = "red\<lparr>remoteData := resize (nat (numChildren red)) (nat n) (remoteData red), numChildren := n\<rparr>"
    have "CmiGetReductionCreate rid n st = Inr (?red, store_red ?red st)"
      using Some sq True loc(1) \<open>n \<noteq> 0\<close> by (simp add: CmiGetReductionCreate_def Let_def)
    moreover have "red_core content nch par None rs ?red"
      using stored_resize [OF loc(2,3) True] loc(1) n by (simp add: red_core_def)
    moreover have "red_of (store_red ?red st) = (red_of st)(rid \<mapsto> ?red)"
      using red_of_store [OF st, of ?red] sq by (intro ext) simp
    ultimately show ?thesis using st sq n \<open>n \<noteq> 0\<close> by (intro exI [of _ ?red] exI [of _ "store_red ?red st"]) simp
  next
    case False
    have "CmiGetReductionCreate rid n st = Inr (red, st)" using Some sq False by (simp add: CmiGetReductionCreate_def Let_def)
    moreover have "(red_of st)(rid \<mapsto> red) = red_of st" using Some sq by (auto simp: red_of_def)
    ultimately show ?thesis using st sq core False Some by (intro exI [of _ red] exI [of _ st]) auto
  qed
qed

lemma outcome_frame:
  assumes "outcome content T p nch par rid local rs st r" "\<And>rid'. rid' \<noteq> rid \<Longrightarrow> red_of st rid' = red_of st0 rid'"
  shows "outcome content T p nch par rid local rs st0 r"
  using assms unfolding outcome_def by (elim exE conjE) (intro exI conjI; simp)

lemma contribute_outcome:
  assumes st: "st_ok T p st" "slot_free st rid" and inv: "red_inv content nch par None rs (red_of st rid)"
    and few: "size rs \<le> nch" and ro: "ops_ok content ro"
  shows "outcome content T p nch par rid (Some d) rs st
    (rbind (CmiGetReductionCreate rid (int nch) st) (\<lambda>(red, st1). red_contribute d sz (int nch) par ro red st1))"
proof -
  obtain red st1 where c: "CmiGetReductionCreate rid (int nch) st = Inr (red, st1)" "st_ok T p st1" "seqID red = rid"
    "red_core content nch par None rs red" "int nch \<le> numChildren red" "slot_free st1 rid" "red_of st1 = (red_of st)(rid \<mapsto> red)"
    using create_outcome [OF st inv, of "int nch"] by auto
  let ?red = "red\<lparr>localContributed := True, localData := Some d, localSize := sz, numChildren := int nch, red_parent := par, ops := Some ro\<rparr>"
  have "red_core content nch par (Some d) rs ?red" using c(4,5) ro by (auto simp: red_core_def stored_def)
  then have "outcome content T p nch par rid (Some d) rs st1 (CmiSendReduce ?red (store_red ?red st1))"
    using send_outcome [OF c(2,6), of ?red content nch par "Some d" rs] c(3) few by simp
  then have "outcome content T p nch par rid (Some d) rs st (CmiSendReduce ?red (store_red ?red st1))"
    by (rule outcome_frame) (simp add: c(7))
  moreover have "\<not> localContributed red" using c(4) by (simp add: red_core_def)
  ultimately show ?thesis using c(1) by (simp add: red_contribute_def Let_def)
qed

lemma deliver_stored:
  assumes st: "st_ok T p st" "slot_free st rid" and red: "seqID red = rid" "red_core content nch par local rs red"
    "numRemoteReceived red < int (length (remoteData red))" and few: "size rs < nch" "nch < 32000"
  shows "outcome content T p nch par rid local (add_mset v rs) st
    (if 0 \<le> numRemoteReceived red \<and> nat (numRemoteReceived red) < length (remoteData red)
     then let red1 = red\<lparr>remoteData := (remoteData red)[nat (numRemoteReceived red) := Some v],
                         numRemoteReceived := short (numRemoteReceived red + 1)\<rparr>
          in CmiSendReduce red1 (store_red red1 st)
     else Inl (Fault ''remoteData''))"
proof -
  obtain xs where xs: "mset xs = rs" "take (length xs) (remoteData red) = map Some xs" "numRemoteReceived red = int (length xs)"
    using red(2) by (auto simp: red_core_def stored_def)
  have len: "length xs = size rs" "length xs < length (remoteData red)" using xs(1,3) red(3) by auto
  let ?red = "red\<lparr>remoteData := (remoteData red)[length xs := Some v], numRemoteReceived := int (length (xs @ [v]))\<rparr>"
  have "stored (add_mset v rs) ?red" unfolding stored_def
    by (rule exI [of _ "xs @ [v]"]) (use xs(1,2) take_Suc_update [OF len(2), of "Some v"] in simp)
  then have "red_core content nch par local (add_mset v rs) ?red"
    using red(2) by (auto simp: red_core_def split: option.splits)
  then have "outcome content T p nch par rid local (add_mset v rs) st (CmiSendReduce ?red (store_red ?red st))"
    using send_outcome [OF st, of ?red content nch par local "add_mset v rs"] red(1) few by simp
  moreover have "short (int (length xs) + 1) = int (length (xs @ [v]))" using len few by simp
  ultimately show ?thesis using xs(3) len by (simp add: Let_def)
qed

lemma deliver_outcome:
  assumes st: "st_ok T p st" "slot_free st rid" and inv: "red_inv content nch par local rs (red_of st rid)"
    and few: "size rs < nch" "nch < 32000"
  shows "outcome content T p nch par rid local (add_mset v rs) st (CmiHandleReductionMessage rid v st)"
proof (cases local)
  case None
  note inv0 = inv [unfolded None]
  obtain red0 st0 where c: "CmiGetReductionCreate rid 0 st = Inr (red0, st0)" "st_ok T p st0" "seqID red0 = rid"
    "red_core content nch par None rs red0" "slot_free st0 rid" "red_of st0 = (red_of st)(rid \<mapsto> red0)"
    using create_outcome [OF st inv0, of 0] by auto
  have rec: "numRemoteReceived red0 = int (size rs)" "numChildren red0 = int (length (remoteData red0))"
    using c(4) by (auto simp: red_core_def stored_def)
  obtain red st1 where r: "(if numRemoteReceived red0 = numChildren red0 then CmiGetReductionCreate rid (short (numChildren red0 + 4)) st0
       else Inr (red0, st0)) = Inr (red, st1)" "st_ok T p st1" "slot_free st1 rid" "seqID red = rid" "red_core content nch par None rs red"
    "numRemoteReceived red < int (length (remoteData red))" "\<And>rid'. rid' \<noteq> rid \<Longrightarrow> red_of st1 rid' = red_of st rid'"
  proof (cases "numRemoteReceived red0 = numChildren red0")
    case True
    then have n: "short (numChildren red0 + 4) = int (size rs) + 4" using rec few by simp
    have "red_inv content nch par None rs (red_of st0 rid)" using c(4,6) by (simp add: red_inv_def)
    from create_outcome [OF c(2,5) this, of "int (size rs) + 4"] obtain red st1 where
      r: "CmiGetReductionCreate rid (int (size rs) + 4) st0 = Inr (red, st1)" "st_ok T p st1" "seqID red = rid"
      "red_core content nch par None rs red" "int (size rs) + 4 \<le> numChildren red" "slot_free st1 rid" "red_of st1 = (red_of st0)(rid \<mapsto> red)"
      by auto
    have "numRemoteReceived red < int (length (remoteData red))" using r(4,5) by (auto simp: red_core_def stored_def)
    then show thesis using that [of red st1] r True n c(6) by simp
  next
    case False
    have "numRemoteReceived red0 < int (length (remoteData red0))"
    proof -
      obtain xs where xs: "mset xs = rs" "take (length xs) (remoteData red0) = map Some xs"
        using c(4) by (auto simp: red_core_def stored_def)
      have "length xs \<le> length (remoteData red0)" using arg_cong [OF xs(2), of length] by simp
      then show ?thesis using xs(1) rec False by auto
    qed
    then show thesis using that [of red0 st0] c False by simp
  qed
  have "outcome content T p nch par rid local (add_mset v rs) st1 (CmiHandleReductionMessage rid v st)"
    using deliver_stored [OF r(2,3,4,5,6) few, of v] c(1) r(1) None
    by (simp add: CmiHandleReductionMessage_def CmiGetReduction_def)
  then show ?thesis by (rule outcome_frame) (rule r(7))
next
  case (Some d)
  obtain red where red: "slot st rid = Some red" "seqID red = rid" "red_core content nch par (Some d) rs red"
    using inv Some by (auto simp: red_inv_def red_of_def split: option.splits if_splits)
  have n: "numChildren red = int nch" "numRemoteReceived red = int (size rs)" "nch \<le> length (remoteData red)"
    using red(3) by (auto simp: red_core_def stored_def)
  have "CmiGetReduction rid st = Inr (red, st)" using red n by (simp add: CmiGetReduction_def CmiGetReductionCreate_def)
  then show ?thesis using deliver_stored [OF st red(2,3) _ few, of v] n few Some by (simp add: CmiHandleReductionMessage_def)
qed

section \<open>All processors\<close>

record 'd redsys =
  red_pe :: "nat \<Rightarrow> 'd redstate"
  red_net :: "(nat \<times> u16 \<times> 'd) multiset"
  red_results :: "u16 \<Rightarrow> (ptr \<times> 'd) list"

definition red_step :: "nat \<Rightarrow> u16 \<Rightarrow> 'd redstate \<times> 'd effect list \<Rightarrow> 'd redsys \<Rightarrow> 'd redsys" where
  "red_step p rid r s =
     s\<lparr>red_pe := (red_pe s)(p := fst r), red_net := red_net s + mset (sends_of (snd r)),
       red_results := (red_results s)(rid := red_results s rid @ dests_of (snd r))\<rparr>"

abbreviation of_red :: "u16 \<Rightarrow> nat \<times> u16 \<times> 'd \<Rightarrow> bool" where
  "of_red rid m \<equiv> fst (snd m) = rid"

context span_tree
begin

definition par :: "nat \<Rightarrow> int" where "par p = (if p = 0 then - 1 else int (parent p))"

text \<open>
  The progress of one reduction: \<open>S\<close> are the processors that have sent their part, \<open>D\<close> those whose message
  has been delivered, and \<open>v\<close> are the values sent.
\<close>

definition red_wave where
  "red_wave content s c S D v rid \<longleftrightarrow>
     D \<subseteq> S \<and> S \<subseteq> {..<npes} \<and> 0 \<notin> D \<and>
     (\<forall>j \<in> S. c j \<noteq> None \<and> set (children j) \<subseteq> D \<and>
        content (v j) = content (the (c j)) + (\<Sum>i \<in> set (children j). content (v i))) \<and>
     filter_mset (of_red rid) (red_net s) = image_mset (\<lambda>j. (parent j, rid, v j)) (mset_set (S - D - {0})) \<and>
     map snd (red_results s rid) = (if 0 \<in> S then [v 0] else []) \<and>
     (\<forall>p < npes. if p \<in> S then red_of (red_pe s p) rid = None
        else red_inv content (length (children p)) (par p) (c p) (image_mset v (mset_set (set (children p) \<inter> D))) (red_of (red_pe s p) rid))"

lemma red_waveD:
  assumes "red_wave content s c S D v rid"
  shows "D \<subseteq> S" "S \<subseteq> {..<npes}" "0 \<notin> D"
    "j \<in> S \<Longrightarrow> c j \<noteq> None" "j \<in> S \<Longrightarrow> set (children j) \<subseteq> D"
    "j \<in> S \<Longrightarrow> content (v j) = content (the (c j)) + (\<Sum>i \<in> set (children j). content (v i))"
    "filter_mset (of_red rid) (red_net s) = image_mset (\<lambda>j. (parent j, rid, v j)) (mset_set (S - D - {0}))"
    "map snd (red_results s rid) = (if 0 \<in> S then [v 0] else [])"
    "p < npes \<Longrightarrow> p \<in> S \<Longrightarrow> red_of (red_pe s p) rid = None"
    "p < npes \<Longrightarrow> p \<notin> S \<Longrightarrow>
       red_inv content (length (children p)) (par p) (c p) (image_mset v (mset_set (set (children p) \<inter> D))) (red_of (red_pe s p) rid)"
  using assms unfolding red_wave_def by (simp_all split: if_splits)

lemma finite_wave: "S \<subseteq> {..<npes} \<Longrightarrow> finite S"
  by (rule finite_subset) auto

text \<open>An operation on one processor, with the message \<open>J\<close> of a child taken from the network or none.\<close>

lemma wave_step:
  assumes w: "red_wave content s c S D v rid" and p: "p < npes" "p \<notin> S"
    and J: "J \<subseteq> S - D - {0}" "\<forall>j \<in> J. parent j = p"
    and c': "\<forall>q. q \<noteq> p \<longrightarrow> c' q = c q"
    and net: "filter_mset (of_red rid) (red_net s1) + image_mset (\<lambda>j. (parent j, rid, v j)) (mset_set J) = filter_mset (of_red rid) (red_net s)"
    and same: "red_pe s1 = red_pe s" "red_results s1 = red_results s"
    and out: "outcome content T p (length (children p)) (par p) rid (c' p) (image_mset v (mset_set (set (children p) \<inter> (D \<union> J)))) (red_pe s p) (Inr r)"
  shows "\<exists>S' v'. red_wave content (red_step p rid r s1) c' S' (D \<union> J) v' rid"
proof -
  note W = red_waveD [OF w]
  let ?D = "D \<union> J" and ?rs = "image_mset v (mset_set (set (children p) \<inter> (D \<union> J)))"
  obtain st' es where r: "r = (st', es)" by (cases r)
  have fin: "finite S" "finite D" "finite J" using finite_wave [OF W(2)] W(1) J(1) by (auto intro: finite_subset)
  have sizes: "size ?rs = card (set (children p) \<inter> ?D)" by simp
  have full: "size ?rs = length (children p) \<longleftrightarrow> set (children p) \<subseteq> ?D"
  proof -
    have "length (children p) = card (set (children p))" using children_distinct [OF p(1)] by (simp add: distinct_card)
    then show ?thesis unfolding sizes by (metis List.finite_set card_subset_eq inf.absorb_iff1 inf_le1)
  qed
  have other: "children q = children q \<and> set (children q) \<inter> ?D = set (children q) \<inter> D" if "q < npes" "q \<noteq> p" for q
    using J(2) child_iff [OF that(1)] that(2) by auto
  have remain: "S - ?D - {0} = (S - D - {0}) - J" "J \<subseteq> S - D - {0}" using J(1) by auto
  have netJ: "filter_mset (of_red rid) (red_net s1) = image_mset (\<lambda>j. (parent j, rid, v j)) (mset_set (S - ?D - {0}))"
  proof -
    have "mset_set (S - D - {0}) = mset_set (S - ?D - {0}) + mset_set J"
      unfolding remain(1) using fin remain(2) by (simp add: mset_set_Diff)
    then show ?thesis using net W(7) by simp
  qed
  show ?thesis
  proof (cases "c' p \<noteq> None \<and> set (children p) \<subseteq> ?D")
    case False
    then have o: "st_ok T p st'" "red_inv content (length (children p)) (par p) (c' p) ?rs (red_of st' rid)" "sends_of es = []" "dests_of es = []"
      using out full r unfolding outcome_def by auto
    have "red_wave content (red_step p rid r s1) c' S ?D v rid" unfolding red_wave_def
    proof (intro conjI ballI allI impI)
      show "?D \<subseteq> S" "S \<subseteq> {..<npes}" "0 \<notin> ?D" using W(1-3) J(1) by auto
      fix j assume j: "j \<in> S"
      then have "j \<noteq> p" using p(2) by auto
      then show "c' j \<noteq> None" "set (children j) \<subseteq> ?D"
        "content (v j) = content (the (c' j)) + (\<Sum>i \<in> set (children j). content (v i))" using W(4,5,6) [OF j] c' by auto
    next
      show "filter_mset (of_red rid) (red_net (red_step p rid r s1)) = image_mset (\<lambda>j. (parent j, rid, v j)) (mset_set (S - ?D - {0}))"
        "map snd (red_results (red_step p rid r s1) rid) = (if 0 \<in> S then [v 0] else [])"
        using netJ o(3,4) r same W(8) by (simp_all add: red_step_def)
    next
      fix q assume q: "q < npes"
      show "if q \<in> S then red_of (red_pe (red_step p rid r s1) q) rid = None
        else red_inv content (length (children q)) (par q) (c' q) (image_mset v (mset_set (set (children q) \<inter> ?D))) (red_of (red_pe (red_step p rid r s1) q) rid)"
        using W(9,10) [OF q] o(2) p(2) c' other [OF q] r same by (cases "q = p") (auto simp: red_step_def)
    qed
    then show ?thesis by blast
  next
    case True
    then obtain x f where o: "st_ok T p st'" "red_of st' rid = None" "content x = content (the (c' p)) + (\<Sum>y \<in># ?rs. content y)"
      "sends_of es = (if par p = - 1 then [] else [(nat (par p), rid, x)])" "dests_of es = (if par p = - 1 then [(f, x)] else [])"
      using out full r unfolding outcome_def by auto
    define v' where "v' = v(p := x)"
    have agree: "v' i = v i" if "i \<in> S" for i using that p(2) by (auto simp: v'_def)
    have pD: "p \<notin> ?D" using p(2) W(1) J(1) by auto
    have kids: "set (children p) \<inter> ?D = set (children p)" using True by blast
    have sums: "(\<Sum>i \<in> set (children q). content (v' i)) = (\<Sum>i \<in> set (children q). content (v i))" if "set (children q) \<subseteq> ?D" for q
    proof (rule sum.cong)
      fix i assume "i \<in> set (children q)"
      then have "i \<in> S" using that W(1) J(1) by blast
      then show "content (v' i) = content (v i)" by (simp add: agree)
    qed simp
    have images: "image_mset v' (mset_set (set (children q) \<inter> ?D)) = image_mset v (mset_set (set (children q) \<inter> ?D))" for q
      using W(1) J(1) agree by (intro image_mset_cong) auto
    have "red_wave content (red_step p rid r s1) c' (insert p S) ?D v' rid" unfolding red_wave_def
    proof (intro conjI ballI allI impI)
      show "?D \<subseteq> insert p S" "insert p S \<subseteq> {..<npes}" "0 \<notin> ?D" using W(1-3) J(1) p(1) by auto
      fix j assume j: "j \<in> insert p S"
      then show "c' j \<noteq> None" "set (children j) \<subseteq> ?D" using True W(4,5) [of j] c' by (cases "j = p"; auto)+
      show "content (v' j) = content (the (c' j)) + (\<Sum>i \<in> set (children j). content (v' i))"
      proof (cases "j = p")
        case True
        have "(\<Sum>y \<in># ?rs. content y) = (\<Sum>i \<in> set (children p). content (v i))"
          unfolding kids by (simp add: sum_unfold_sum_mset multiset.map_comp comp_def)
        moreover have "set (children p) \<subseteq> ?D" using kids by blast
        ultimately show ?thesis using True o(3) sums [of p] by (simp add: v'_def)
      next
        case False
        then have jS: "j \<in> S" using j by simp
        then have "set (children j) \<subseteq> ?D" using W(5) by blast
        from sums [OF this] show ?thesis using False jS W(6) [OF jS] c' by (simp add: agree)
      qed
    next
      have "insert p S - ?D - {0} = (if p = 0 then S - ?D - {0} else insert p (S - ?D - {0}))" using pD by auto
      moreover have "image_mset (\<lambda>j. (parent j, rid, v' j)) (mset_set (S - ?D - {0})) = image_mset (\<lambda>j. (parent j, rid, v j)) (mset_set (S - ?D - {0}))"
        using agree fin by (intro image_mset_cong) auto
      moreover have "filter_mset (of_red rid) (mset (sends_of es)) = (if p = 0 then {#} else {#(parent p, rid, x)#})"
        using o(4) by (simp add: par_def)
      moreover have "p \<notin> S - ?D - {0}" "finite (S - ?D - {0})" "v' p = x" using p(2) fin by (simp_all add: v'_def)
      ultimately show "filter_mset (of_red rid) (red_net (red_step p rid r s1)) = image_mset (\<lambda>j. (parent j, rid, v' j)) (mset_set (insert p S - ?D - {0}))"
        using netJ r by (cases "p = 0") (simp_all add: red_step_def)
      have "0 \<in> S \<Longrightarrow> p \<noteq> 0" using p(2) by metis
      then show "map snd (red_results (red_step p rid r s1) rid) = (if 0 \<in> insert p S then [v' 0] else [])"
        using o(5) r same W(8) agree p(2) by (auto simp: red_step_def par_def v'_def)
    next
      fix q assume q: "q < npes"
      show "if q \<in> insert p S then red_of (red_pe (red_step p rid r s1) q) rid = None
        else red_inv content (length (children q)) (par q) (c' q) (image_mset v' (mset_set (set (children q) \<inter> ?D))) (red_of (red_pe (red_step p rid r s1) q) rid)"
        unfolding images using W(9,10) [OF q] o(2) p(2) c' other [OF q] r same by (cases "q = p") (auto simp: red_step_def)
    qed
    then show ?thesis by blast
  qed
qed

lemma wave_frame:
  assumes w: "red_wave content s c S D v rid'" and rid: "rid' \<noteq> rid"
    and net: "filter_mset (of_red rid') (red_net s1) = filter_mset (of_red rid') (red_net s)"
    and same: "red_pe s1 = red_pe s" "red_results s1 = red_results s"
    and out: "outcome content' T p nch pa rid local rs (red_pe s p) (Inr r)"
  shows "red_wave content (red_step p rid r s1) c S D v rid'"
proof -
  obtain st' es where r: "r = (st', es)" by (cases r)
  have "red_of st' rid' = red_of (red_pe s p) rid'" "filter_mset (of_red rid') (mset (sends_of es)) = {#}"
    using out rid r unfolding outcome_def by (auto split: if_splits)
  then have "red_of (red_pe (red_step p rid r s1) q) rid' = red_of (red_pe s q) rid'"
    "filter_mset (of_red rid') (red_net (red_step p rid r s1)) = filter_mset (of_red rid') (red_net s)"
    "red_results (red_step p rid r s1) rid' = red_results s rid'" for q
    using net same r rid by (simp_all add: red_step_def)
  then show ?thesis using w unfolding red_wave_def by simp
qed

lemma wave_bound:
  assumes "red_wave content s c S D v rid"
  shows "card D \<le> npes - 1"
proof -
  have "x \<in> {1..<npes}" if "x \<in> D" for x using red_waveD(1-3) [OF assms] that by (cases x) auto
  then have "D \<subseteq> {1..<npes}" by blast
  from card_mono [OF _ this] show ?thesis by simp
qed

lemma wave_root:
  assumes w: "red_wave content s c S D v rid" and root: "0 \<in> S"
  shows "S = {..<npes}" "D = {1..<npes}" "content (v 0) = (\<Sum>j < npes. content (the (c j)))"
proof -
  note W = red_waveD [OF w]
  have all: "j \<in> S" if "j < npes" for j
    using that
  proof (rule tree_induct)
    fix j assume j: "j < npes" "j \<noteq> 0" "parent j \<in> S"
    then have "j \<in> set (children (parent j))" using child_iff [OF parent_npes [OF j(1,2)], of j] by simp
    then show "j \<in> S" using W(1) W(5) [OF j(3)] by blast
  qed (rule root)
  then show "S = {..<npes}" using W(2) by blast
  have "j \<in> D" if "j < npes" "j \<noteq> 0" for j
  proof -
    have "j \<in> set (children (parent j))" using that child_iff [OF parent_npes [OF that], of j] by simp
    then show ?thesis using W(5) [OF all [OF parent_npes [OF that]]] by blast
  qed
  then show "D = {1..<npes}" using W(1-3) by (fastforce simp: Suc_le_eq)
  have "content (the (c 0)) + (\<Sum>i \<in> set (children 0). content (v i)) = (\<Sum>j < npes. content (the (c j)))"
    by (rule sum_children) (use W(6) all in auto)
  then show "content (v 0) = (\<Sum>j < npes. content (the (c j)))" using W(6) [OF root] by simp
qed

text \<open>When all have contributed and nothing is in flight, the root has sent.\<close>

lemma wave_idle:
  assumes w: "red_wave content s c S D v rid" and all: "\<forall>p < npes. c p \<noteq> None" and idle: "S - D - {0} = {}"
  shows "0 \<in> S"
proof -
  note W = red_waveD [OF w]
  have "j \<in> S" if "j < npes" for j
    using that
  proof (induction "npes - j" arbitrary: j rule: less_induct)
    case less
    have kids: "i \<in> D" if i: "i \<in> set (children j)" for i
    proof -
      have "i < npes" "i \<noteq> 0" "parent i = j" using child_iff [OF less.prems] i by auto
      then have "j < i" using parent_less by blast
      then have "i \<in> S" using less.hyps [of i] \<open>i < npes\<close> by simp
      then show ?thesis using idle \<open>i \<noteq> 0\<close> by blast
    qed
    show ?case
    proof (rule ccontr)
      assume j: "j \<notin> S"
      have "set (children j) \<inter> D = set (children j)" using kids by blast
      then have "size (image_mset v (mset_set (set (children j) \<inter> D))) = length (children j)"
        using children_distinct [OF less.prems] by (simp add: distinct_card)
      moreover obtain d where "c j = Some d" using all less.prems by blast
      ultimately show False using W(10) [OF less.prems j] by (auto simp: red_inv_def split: option.splits)
    qed
  qed
  then show ?thesis using npes_pos by blast
qed

lemma wave_message:
  assumes w: "red_wave content s c S D v rid" and m: "(q, rid, d) \<in># red_net s"
  obtains j where "j \<in> S - D - {0}" "q = parent j" "d = v j" "q < npes" "q \<notin> S" "j \<in> set (children q)"
proof -
  note W = red_waveD [OF w]
  have "(q, rid, d) \<in># filter_mset (of_red rid) (red_net s)" using m by simp
  moreover have "finite (S - D - {0})" using finite_wave [OF W(2)] by simp
  ultimately obtain j where j: "j \<in> S - D - {0}" "q = parent j" "d = v j"
    unfolding W(7) by (auto simp del: Diff_iff Diff_insert0 insert_iff)
  then have "j < npes" "j \<noteq> 0" using W(2) by auto
  then have q: "q < npes" "j \<in> set (children q)" using parent_npes [of j] child_iff [of q j] j(2) by auto
  then have "q \<notin> S" using W(5) [of q] j(1) by auto
  then show thesis using that j q by blast
qed

lemma wave_deliver:
  assumes w: "red_wave content s c S D v rid" and m: "(q, rid, d) \<in># red_net s"
    and st: "st_ok T q (red_pe s q)" "slot_free (red_pe s q) rid" and few: "length (children q) < 32000"
  shows "\<exists>r nch pa local rs. CmiHandleReductionMessage rid d (red_pe s q) = Inr r \<and> q < npes \<and>
    outcome content T q nch pa rid local rs (red_pe s q) (Inr r) \<and>
    (\<exists>S' D' v'. red_wave content (red_step q rid r (s\<lparr>red_net := red_net s - {#(q, rid, d)#}\<rparr>)) c S' D' v' rid \<and> card D' = Suc (card D))"
proof -
  note W = red_waveD [OF w]
  obtain j where j: "j \<in> S - D - {0}" "q = parent j" "d = v j" "q < npes" "q \<notin> S" "j \<in> set (children q)"
    using wave_message [OF w m] by blast
  let ?rs = "image_mset v (mset_set (set (children q) \<inter> D))"
  have fin: "finite D" using W(1) finite_wave [OF W(2)] by (rule finite_subset)
  have "card (set (children q) \<inter> D) < card (set (children q))" using j(1,6) by (intro psubset_card_mono) auto
  then have small: "size ?rs < length (children q)" using children_distinct [OF j(4)] by (simp add: distinct_card)
  have "set (children q) \<inter> (D \<union> {j}) = insert j (set (children q) \<inter> D)" using j(6) by blast
  then have rs: "image_mset v (mset_set (set (children q) \<inter> (D \<union> {j}))) = add_mset d ?rs" using j(1,3) by simp
  have out: "outcome content T q (length (children q)) (par q) rid (c q) (add_mset d ?rs) (red_pe s q) (CmiHandleReductionMessage rid d (red_pe s q))"
    by (rule deliver_outcome [OF st W(10) [OF j(4,5)] small few])
  then obtain r where r: "CmiHandleReductionMessage rid d (red_pe s q) = Inr r" unfolding outcome_def by blast
  have "\<exists>S' v'. red_wave content (red_step q rid r (s\<lparr>red_net := red_net s - {#(q, rid, d)#}\<rparr>)) c S' (D \<union> {j}) v' rid"
    by (rule wave_step [OF w j(4,5)]) (use j m out r rs in auto)
  moreover have "card (D \<union> {j}) = Suc (card D)" using j(1) fin by simp
  moreover have "outcome content T q (length (children q)) (par q) rid (c q) (add_mset d ?rs) (red_pe s q) (Inr r)"
    using out r by simp
  ultimately show ?thesis using r j(4) by blast
qed

end

section \<open>Runs\<close>

text \<open>All contributions are of this form.\<close>

definition contribution where
  "contribution rid d sz ro st =
     rbind (CmiGetReductionCreate rid (my_children st) st) (\<lambda>(red, st1).
       red_contribute d sz (my_children st1) (CmiSpanTreeParent (red_topo st1) (red_mype st1)) ro red st1)"

lemma contributions:
  "CmiReduceID d sz merge dest rid st =
     contribution rid d sz \<lparr>destination = dest, mergeFn = merge, pupFn = None, deleteFn = NULL\<rparr> st"
  "CmiReduceStructID d pup merge dest del rid st =
     contribution rid d 0 \<lparr>destination = dest, mergeFn = merge, pupFn = Some pup, deleteFn = del\<rparr> st"
  "\<exists>x. CmiReduce d sz merge dest st =
     contribution (seqID_global st) d sz \<lparr>destination = dest, mergeFn = merge, pupFn = None, deleteFn = NULL\<rparr> (st\<lparr>seqID_global := x\<rparr>)"
  "\<exists>x. CmiReduceStruct d pup merge dest del st =
     contribution (seqID_global st) d 0 \<lparr>destination = dest, mergeFn = merge, pupFn = Some pup, deleteFn = del\<rparr> (st\<lparr>seqID_global := x\<rparr>)"
  by (auto simp: contribution_def CmiReduceID_def CmiReduceStructID_def CmiReduce_def CmiReduceStruct_def CmiGlobalReduce_def
      CmiGlobalReduceStruct_def CmiGetNextReduction_def my_children_def Let_def)

text \<open>
  Every processor contributes to a reduction once.  \<open>c\<close> records the contributions and \<open>n\<close> the
  number of messages delivered for each reduction.
\<close>

inductive red_run ::
  "topology \<Rightarrow> ('d \<Rightarrow> 'c :: cancel_comm_monoid_add) \<Rightarrow> 'd redsys \<Rightarrow> (nat \<Rightarrow> u16 \<Rightarrow> 'd option) \<Rightarrow> (u16 \<Rightarrow> nat) \<Rightarrow> bool"
  for T content where
  start: "red_run T content \<lparr>red_pe = (\<lambda>p. CmiReductionsInit T p hdr), red_net = {#}, red_results = (\<lambda>_. [])\<rparr> (\<lambda>_ _. None) (\<lambda>_. 0)"
| reduceID: "red_run T content s c n \<Longrightarrow> p < CmiNumPes T \<Longrightarrow> c p rid = None \<Longrightarrow>
    ops_ok content \<lparr>destination = dest, mergeFn = merge, pupFn = None, deleteFn = NULL\<rparr> \<Longrightarrow>
    CmiReduceID d sz merge dest rid (red_pe s p) = Inr r \<Longrightarrow>
    red_run T content (red_step p rid r s) (c(p := (c p)(rid \<mapsto> d))) n"
| reduceStructID: "red_run T content s c n \<Longrightarrow> p < CmiNumPes T \<Longrightarrow> c p rid = None \<Longrightarrow>
    ops_ok content \<lparr>destination = dest, mergeFn = merge, pupFn = Some pup, deleteFn = del\<rparr> \<Longrightarrow>
    CmiReduceStructID d pup merge dest del rid (red_pe s p) = Inr r \<Longrightarrow>
    red_run T content (red_step p rid r s) (c(p := (c p)(rid \<mapsto> d))) n"
| reduce: "red_run T content s c n \<Longrightarrow> p < CmiNumPes T \<Longrightarrow> rid = seqID_global (red_pe s p) \<Longrightarrow> c p rid = None \<Longrightarrow>
    ops_ok content \<lparr>destination = dest, mergeFn = merge, pupFn = None, deleteFn = NULL\<rparr> \<Longrightarrow>
    CmiReduce d sz merge dest (red_pe s p) = Inr r \<Longrightarrow>
    red_run T content (red_step p rid r s) (c(p := (c p)(rid \<mapsto> d))) n"
| reduceStruct: "red_run T content s c n \<Longrightarrow> p < CmiNumPes T \<Longrightarrow> rid = seqID_global (red_pe s p) \<Longrightarrow> c p rid = None \<Longrightarrow>
    ops_ok content \<lparr>destination = dest, mergeFn = merge, pupFn = Some pup, deleteFn = del\<rparr> \<Longrightarrow>
    CmiReduceStruct d pup merge dest del (red_pe s p) = Inr r \<Longrightarrow>
    red_run T content (red_step p rid r s) (c(p := (c p)(rid \<mapsto> d))) n"
| deliver: "red_run T content s c n \<Longrightarrow> (q, rid, d) \<in># red_net s \<Longrightarrow> CmiHandleReductionMessage rid d (red_pe s q) = Inr r \<Longrightarrow>
    red_run T content (red_step q rid r (s\<lparr>red_net := red_net s - {#(q, rid, d)#}\<rparr>)) c (n(rid := n rid + 1))"

abbreviation topo_wave where
  "topo_wave T \<equiv> span_tree.red_wave (CmiNumPes T) (\<lambda>p. nat (CmiSpanTreeParent T p)) (CmiSpanTreeChildren T)"

definition red_sys_inv where
  "red_sys_inv T content s c n \<longleftrightarrow>
     (\<forall>p < CmiNumPes T. st_ok T p (red_pe s p)) \<and>
     (\<forall>rid. \<exists>S D v. topo_wave T content s (\<lambda>p. c p rid) S D v rid \<and> card D = n rid)"

lemma num_children_small: "CmiNumSpanTreeChildren T p \<le> 8"
  by (auto simp: CmiNumSpanTreeChildren_def CmiNumNodeSpanTreeChildren_def CST_C_def num_tree_children_def CST_W_def)

lemma create_free: "CmiGetReductionCreate rid n st = Inr x \<Longrightarrow> slot_free st rid"
  by (auto simp: CmiGetReductionCreate_def slot_free_def Let_def split: option.splits if_splits)

lemma create_st_ok:
  "CmiGetReductionCreate rid n st = Inr (red, st1) \<Longrightarrow> red_topo st1 = red_topo st \<and> red_mype st1 = red_mype st"
  by (auto simp: CmiGetReductionCreate_def Let_def CmiAssert_def store_red_def split: option.splits if_splits)

lemma contribution_outcome:
  assumes wf: "topo_wf T" and p: "p < CmiNumPes T" and st: "st_ok T p st"
    and inv: "red_inv content (length (CmiSpanTreeChildren T p)) (CmiSpanTreeParent T p) None rs (red_of st rid)"
    and few: "size rs \<le> length (CmiSpanTreeChildren T p)" and ro: "ops_ok content ro" and r: "contribution rid d sz ro st = Inr r"
  shows "outcome content T p (length (CmiSpanTreeChildren T p)) (CmiSpanTreeParent T p) rid (Some d) rs st (Inr r)"
proof -
  have len: "length (CmiSpanTreeChildren T p) = CmiNumSpanTreeChildren T p" by (rule spantree_distinct(2) [OF wf p])
  then have my: "my_children st' = int (length (CmiSpanTreeChildren T p))" if "red_topo st' = T" "red_mype st' = p" for st' :: "'a redstate"
    using num_children_small [of T p] that by (simp add: my_children_def)
  have id: "red_topo st = T" "red_mype st = p" using st by (simp_all add: st_ok_def)
  obtain red st1 where c: "CmiGetReductionCreate rid (my_children st) st = Inr (red, st1)"
    using r by (cases "CmiGetReductionCreate rid (my_children st) st") (auto simp: contribution_def)
  have id1: "red_topo st1 = T" "red_mype st1 = p" using create_st_ok [OF c] id by simp_all
  have "rbind (CmiGetReductionCreate rid (int (length (CmiSpanTreeChildren T p))) st)
      (\<lambda>(red, st1). red_contribute d sz (int (length (CmiSpanTreeChildren T p))) (CmiSpanTreeParent T p) ro red st1) = Inr r"
    using r c by (simp add: contribution_def my [OF id] my [OF id1] id1)
  then show ?thesis using contribute_outcome [OF st create_free [OF c] inv few ro, of d sz] by simp
qed

lemma sys_inv_step:
  assumes t: "span_tree (CmiNumPes T) (\<lambda>p. nat (CmiSpanTreeParent T p)) (CmiSpanTreeChildren T)"
    and inv: "red_sys_inv T content s c n" and p: "p < CmiNumPes T"
    and out: "outcome content T p nch pa rid local rs (red_pe s p) (Inr r)"
    and new: "\<exists>S D v. topo_wave T content (red_step p rid r s1) (\<lambda>p. c' p rid) S D v rid \<and> card D = n' rid"
    and net: "\<And>rid'. rid' \<noteq> rid \<Longrightarrow> filter_mset (of_red rid') (red_net s1) = filter_mset (of_red rid') (red_net s)"
    and same: "red_pe s1 = red_pe s" "red_results s1 = red_results s"
    and rest: "\<And>rid' q. rid' \<noteq> rid \<Longrightarrow> c' q rid' = c q rid'" "\<And>rid'. rid' \<noteq> rid \<Longrightarrow> n' rid' = n rid'"
  shows "red_sys_inv T content (red_step p rid r s1) c' n'"
  unfolding red_sys_inv_def
proof (intro conjI allI impI)
  fix q assume q: "q < CmiNumPes T"
  have "st_ok T p (fst r)" using out unfolding outcome_def by auto
  then show "st_ok T q (red_pe (red_step p rid r s1) q)" using inv q same(1) by (simp add: red_sys_inv_def red_step_def)
next
  fix rid'
  show "\<exists>S D v. topo_wave T content (red_step p rid r s1) (\<lambda>p. c' p rid') S D v rid' \<and> card D = n' rid'"
  proof (cases "rid' = rid")
    case False
    obtain S D v where w: "topo_wave T content s (\<lambda>p. c p rid') S D v rid'" "card D = n rid'"
      using inv unfolding red_sys_inv_def by blast
    from span_tree.wave_frame [OF t w(1) False net [OF False] same out]
    have "topo_wave T content (red_step p rid r s1) (\<lambda>p. c p rid') S D v rid'" .
    moreover have "(\<lambda>q. c' q rid') = (\<lambda>q. c q rid')" using rest(1) [OF False] by blast
    ultimately show ?thesis using w(2) rest(2) [OF False] by metis
  qed (use new in simp)
qed

lemma par_topo:
  assumes "topo_wf T" "0 < CmiNumPes T" "p < CmiNumPes T"
  shows "span_tree.par (\<lambda>p. nat (CmiSpanTreeParent T p)) p = CmiSpanTreeParent T p"
proof (cases "p = 0")
  case True
  then show ?thesis by (simp add: span_tree.par_def [OF span_tree_topology [OF assms(1,2)]] CmiSpanTreeParent_def [of T 0])
next
  case False
  then show ?thesis using spantree_parent_less [OF assms(1,3)]
    by (simp add: span_tree.par_def [OF span_tree_topology [OF assms(1,2)]])
qed

lemma inv_contribution:
  assumes wf: "topo_wf T" "0 < CmiNumPes T" and inv: "red_sys_inv T content s c n" and p: "p < CmiNumPes T" "c p rid = None"
    and ro: "ops_ok content ro" and r: "contribution rid d sz ro ((red_pe s p)\<lparr>seqID_global := x\<rparr>) = Inr r"
  shows "red_sys_inv T content (red_step p rid r s) (c(p := (c p)(rid \<mapsto> d))) n"
proof -
  note t = span_tree_topology [OF wf]
  obtain S D v where w: "topo_wave T content s (\<lambda>p. c p rid) S D v rid" "card D = n rid"
    using inv unfolding red_sys_inv_def by blast
  note W = span_tree.red_waveD [OF t w(1)]
  have pS: "p \<notin> S" using W(4) [of p] p(2) by blast
  let ?st = "(red_pe s p)\<lparr>seqID_global := x\<rparr>" and ?rs = "image_mset v (mset_set (set (CmiSpanTreeChildren T p) \<inter> D))"
  have st: "st_ok T p ?st" using inv p(1) by (simp add: red_sys_inv_def st_ok_def)
  have same: "red_of ?st = red_of (red_pe s p)" by (rule ext) (simp add: red_of_def)
  have "card (set (CmiSpanTreeChildren T p) \<inter> D) \<le> card (set (CmiSpanTreeChildren T p))" by (intro card_mono) auto
  then have few: "size ?rs \<le> length (CmiSpanTreeChildren T p)" using card_length [of "CmiSpanTreeChildren T p"] by simp
  have "red_inv content (length (CmiSpanTreeChildren T p)) (CmiSpanTreeParent T p) None ?rs (red_of ?st rid)"
    using W(10) [OF p(1) pS] p(2) par_topo [OF wf p(1)] same by simp
  from contribution_outcome [OF wf(1) p(1) st this few ro r]
  have out: "outcome content T p (length (CmiSpanTreeChildren T p)) (CmiSpanTreeParent T p) rid (Some d) ?rs (red_pe s p) (Inr r)"
    by (rule outcome_frame) (simp add: same)
  have "\<exists>S' v'. topo_wave T content (red_step p rid r s) (\<lambda>q. (c(p := (c p)(rid \<mapsto> d))) q rid) S' (D \<union> {}) v' rid"
    by (rule span_tree.wave_step [OF t w(1) p(1) pS, where T = T])
      (use out in \<open>simp_all add: par_topo [OF wf p(1)]\<close>)
  then show ?thesis using w(2) by (intro sys_inv_step [OF t inv p(1) out]) auto
qed

lemma inv_deliver:
  assumes wf: "topo_wf T" "0 < CmiNumPes T" and inv: "red_sys_inv T content s c n" and m: "(q, rid, d) \<in># red_net s"
    and free: "slot_free (red_pe s q) rid"
  shows "\<exists>r. CmiHandleReductionMessage rid d (red_pe s q) = Inr r \<and>
    red_sys_inv T content (red_step q rid r (s\<lparr>red_net := red_net s - {#(q, rid, d)#}\<rparr>)) c (n(rid := n rid + 1))"
proof -
  note t = span_tree_topology [OF wf]
  obtain S D v where w: "topo_wave T content s (\<lambda>p. c p rid) S D v rid" "card D = n rid"
    using inv unfolding red_sys_inv_def by blast
  obtain j where q: "q < CmiNumPes T" using span_tree.wave_message [OF t w(1) m] by metis
  then have st: "st_ok T q (red_pe s q)" using inv by (simp add: red_sys_inv_def)
  have "length (CmiSpanTreeChildren T q) < 32000" using spantree_distinct(2) [OF wf(1) q] num_children_small [of T q] by simp
  from span_tree.wave_deliver [OF t w(1) m st free this] obtain r nch pa local rs where
    r: "CmiHandleReductionMessage rid d (red_pe s q) = Inr r" "outcome content T q nch pa rid local rs (red_pe s q) (Inr r)"
    "\<exists>S' D' v'. topo_wave T content (red_step q rid r (s\<lparr>red_net := red_net s - {#(q, rid, d)#}\<rparr>)) (\<lambda>p. c p rid) S' D' v' rid \<and> card D' = Suc (card D)"
    by blast
  have "red_sys_inv T content (red_step q rid r (s\<lparr>red_net := red_net s - {#(q, rid, d)#}\<rparr>)) c (n(rid := n rid + 1))"
    by (rule sys_inv_step [OF t inv q r(2)]) (use r(3) w(2) m in auto)
  then show ?thesis using r(1) by blast
qed

lemma handle_free: "CmiHandleReductionMessage rid d st = Inr r \<Longrightarrow> slot_free st rid"
  by (cases "CmiGetReduction rid st") (auto simp: CmiHandleReductionMessage_def CmiGetReduction_def intro: create_free)

lemma red_run_inv:
  assumes "red_run T content s c n" "topo_wf T" "0 < CmiNumPes T"
  shows "red_sys_inv T content s c n"
  using assms(1)
proof (induction rule: red_run.induct)
  case (start hdr)
  note t = span_tree_topology [OF assms(2,3)]
  have none: "red_of (CmiReductionsInit T p hdr) rid = None" for p rid by (simp add: red_of_def CmiReductionsInit_def)
  have "topo_wave T content \<lparr>red_pe = (\<lambda>p. CmiReductionsInit T p hdr), red_net = {#}, red_results = (\<lambda>_. [])\<rparr> (\<lambda>p. None) {} {} v rid" for v rid
    unfolding span_tree.red_wave_def [OF t] by (simp add: none) (simp add: red_inv_def)
  then show ?case by (auto simp: red_sys_inv_def st_ok_def CmiReductionsInit_def intro!: exI [of _ "{}"])
next
  case (reduceID s c n p rid dest merge d sz r)
  show ?case
    by (rule inv_contribution [OF assms(2,3) reduceID.IH reduceID.hyps(2,3,4), where x = "seqID_global (red_pe s p)"])
      (use reduceID.hyps(5) in \<open>simp add: contributions(1)\<close>)
next
  case (reduceStructID s c n p rid dest merge pup del d r)
  show ?case
    by (rule inv_contribution [OF assms(2,3) reduceStructID.IH reduceStructID.hyps(2,3,4), where x = "seqID_global (red_pe s p)"])
      (use reduceStructID.hyps(5) in \<open>simp add: contributions(2)\<close>)
next
  case (reduce s c n p rid dest merge d sz r)
  then show ?case using inv_contribution [OF assms(2,3) reduce.IH] contributions(3) by metis
next
  case (reduceStruct s c n p rid dest merge pup del d r)
  then show ?case using inv_contribution [OF assms(2,3) reduceStruct.IH] contributions(4) by metis
next
  case (deliver s c n q rid d r)
  then show ?case using inv_deliver [OF assms(2,3) deliver.IH deliver.hyps(2) handle_free] by fastforce
qed

section \<open>Property\<close>

text \<open>
  C36.  Reductions end with the right result.  On every topology, whatever the interleaving of
  contributions and deliveries to any number of reductions: at most one message per processor but
  the first is delivered for a reduction; a message in flight can be delivered unless its entry in the
  table of the receiver is taken by another reduction; once all processors have contributed there is
  a message in flight until all these messages have been delivered, and then the destination has been
  called exactly once, with data that stands for all contributions together.  The destination is
  never called before.
\<close>

theorem reduction_completes:
  fixes rid :: u16
  assumes "topo_wf T" "0 < CmiNumPes T" "red_run T content s c n"
  shows "n rid \<le> CmiNumPes T - 1 \<and>
    (\<forall>q d. (q, rid, d) \<in># red_net s \<and> slot_free (red_pe s q) rid \<longrightarrow> (\<exists>r. CmiHandleReductionMessage rid d (red_pe s q) = Inr r)) \<and>
    ((\<forall>p < CmiNumPes T. c p rid \<noteq> None) \<longrightarrow>
       (if n rid < CmiNumPes T - 1 then \<exists>q d. (q, rid, d) \<in># red_net s
        else \<exists>f d. red_results s rid = [(f, d)] \<and> content d = (\<Sum>p < CmiNumPes T. content (the (c p rid))))) \<and>
    (red_results s rid \<noteq> [] \<longrightarrow> n rid = CmiNumPes T - 1 \<and> (\<forall>p < CmiNumPes T. c p rid \<noteq> None))"
proof -
  note t = span_tree_topology [OF assms(1,2)]
  have inv: "red_sys_inv T content s c n" by (rule red_run_inv [OF assms(3,1,2)])
  then obtain S D v where w: "topo_wave T content s (\<lambda>p. c p rid) S D v rid" "card D = n rid"
    unfolding red_sys_inv_def by blast
  note W = span_tree.red_waveD [OF t w(1)] and bound = span_tree.wave_bound [OF t w(1)]
  have root: "n rid = CmiNumPes T - 1 \<and> (\<forall>p < CmiNumPes T. c p rid \<noteq> None) \<and>
      (\<exists>f d. red_results s rid = [(f, d)] \<and> content d = (\<Sum>p < CmiNumPes T. content (the (c p rid))))" if "0 \<in> S"
    using span_tree.wave_root [OF t w(1) that] W(4,8) w(2) that by (auto simp: map_eq_Cons_conv)
  have flight: "\<exists>q d. (q, rid, d) \<in># red_net s" if "j \<in> S - D - {0}" for j
  proof -
    have "finite (S - D - {0})" using span_tree.finite_wave [OF t W(2)] by simp
    then have "(nat (CmiSpanTreeParent T j), rid, v j) \<in># filter_mset (of_red rid) (red_net s)" unfolding W(7) using that by auto
    then show ?thesis by auto
  qed
  show ?thesis
  proof (intro conjI allI impI)
    show "n rid \<le> CmiNumPes T - 1" using bound w(2) by simp
  next
    fix q d assume "(q, rid, d) \<in># red_net s \<and> slot_free (red_pe s q) rid"
    then show "\<exists>r. CmiHandleReductionMessage rid d (red_pe s q) = Inr r" using inv_deliver [OF assms(1,2) inv] by blast
  next
    assume all: "\<forall>p < CmiNumPes T. c p rid \<noteq> None"
    show "if n rid < CmiNumPes T - 1 then \<exists>q d. (q, rid, d) \<in># red_net s
        else \<exists>f d. red_results s rid = [(f, d)] \<and> content d = (\<Sum>p < CmiNumPes T. content (the (c p rid)))"
    proof (cases "S - D - {0} = {}")
      case True
      from span_tree.wave_idle [OF t w(1) all this] root show ?thesis by simp
    next
      case False
      then obtain j where j: "j \<in> S - D - {0}" by blast
      have "D \<noteq> {1..<CmiNumPes T}" using j W(2) by auto
      then have "0 \<notin> S" using span_tree.wave_root(2) [OF t w(1)] by blast
      have "x \<in> {1..<CmiNumPes T}" if "x \<in> insert j D" for x using that j W(1-3) by (cases x) auto
      then have "insert j D \<subseteq> {1..<CmiNumPes T}" by blast
      then have "card (insert j D) \<le> card {1..<CmiNumPes T}" by (intro card_mono) simp
      moreover have "finite D" using W(1) span_tree.finite_wave [OF t W(2)] by (rule finite_subset)
      ultimately have "n rid < CmiNumPes T - 1" using j w(2) by simp
      then show ?thesis using flight [OF j] by simp
    qed
  next
    assume "red_results s rid \<noteq> []"
    then have "0 \<in> S" using W(8) by (auto split: if_splits)
    from root [OF this] show "n rid = CmiNumPes T - 1" "\<And>p. p < CmiNumPes T \<Longrightarrow> c p rid \<noteq> None" by simp_all
  qed
qed

definition add_merge :: "int \<Rightarrow> nat \<Rightarrow> nat list \<Rightarrow> nat \<times> int" where
  "add_merge n d rs = (d + sum_list rs, n)"

definition demo_init :: "nat redsys" where
  "demo_init = \<lparr>red_pe = (\<lambda>p. CmiReductionsInit (single_topology 2) p 0), red_net = {#}, red_results = (\<lambda>_. [])\<rparr>"

lemma demo_contributions:
  "CmiReduceID 5 8 add_merge 3 0 (CmiReductionsInit (single_topology 2) 1 0) =
     Inr (CmiReductionsInit (single_topology 2) 1 0, [SyncSend 0 0 8 5])"
  "\<exists>st. CmiReduceID 7 8 add_merge 3 0 (CmiReductionsInit (single_topology 2) 0 0) = Inr (st, []) \<and> slot_free st 0"
proof -
  have tree: "CmiNumSpanTreeChildren (single_topology 2) 1 = 0" "CmiSpanTreeParent (single_topology 2) 1 = 0"
    "CmiNumSpanTreeChildren (single_topology 2) 0 = 1" by code_simp+
  have z: "red_index 0 4 = 0" by (simp add: red_index_def)
  note defs = CmiReduceID_def CmiGlobalReduce_def my_children_def CmiReductionsInit_def CmiGetReductionCreate_def Let_def store_red_def
    red_contribute_def CmiSendReduce_def reduce_send_def CmiClearReduction_def slot_free_def
  show "CmiReduceID 5 8 add_merge 3 0 (CmiReductionsInit (single_topology 2) 1 0) =
     Inr (CmiReductionsInit (single_topology 2) 1 0, [SyncSend 0 0 8 5])"
    using tree z by (simp add: defs list_update_same_conv)
  show "\<exists>st. CmiReduceID 7 8 add_merge 3 0 (CmiReductionsInit (single_topology 2) 0 0) = Inr (st, []) \<and> slot_free st 0"
    using tree z by (simp add: defs)
qed

theorem reduction_completes_witness:
  "\<exists>s c n. red_run (single_topology 2) (\<lambda>x :: nat. x) s c n \<and> (\<exists>f. red_results s 0 = [(f, 12)])"
proof -
  let ?T = "single_topology 2" and ?id = "\<lambda>x :: nat. x"
  have T: "topo_wf ?T" "0 < CmiNumPes ?T" "CmiNumPes ?T = 2" using topo_wf_instances(1) [of 2] by (simp_all add: single_topology_def)
  have ops: "ops_ok ?id \<lparr>destination = 3, mergeFn = add_merge, pupFn = None, deleteFn = NULL\<rparr>" by (simp add: ops_ok_def add_merge_def)
  have "red_run ?T ?id demo_init (\<lambda>_ _. None) (\<lambda>_. 0)" unfolding demo_init_def by (rule red_run.start)
  from red_run.reduceID [OF this _ _ ops, where p = 1 and rid = 0 and d = 5 and sz = 8] obtain s1 c1 where
    run1: "red_run ?T ?id s1 c1 (\<lambda>_. 0)" "c1 = (\<lambda>_ _. None)(1 := Map.empty(0 \<mapsto> 5))" "red_pe s1 0 = CmiReductionsInit ?T 0 0"
    using demo_contributions(1) T(3) by (auto simp: demo_init_def red_step_def)
  obtain st where st: "CmiReduceID 7 8 add_merge 3 0 (red_pe s1 0) = Inr (st, [])" "slot_free st 0" using demo_contributions(2) run1(3) by auto
  from red_run.reduceID [OF run1(1) _ _ ops st(1)] obtain s2 c2 where
    run2: "red_run ?T ?id s2 c2 (\<lambda>_. 0)" "c2 0 0 = Some 7" "c2 1 0 = Some 5" "red_pe s2 0 = st"
    using T(3) run1(2) by (auto simp: red_step_def)
  have all: "\<forall>p < CmiNumPes ?T. c2 p 0 \<noteq> None" using run2 T(3) by (auto simp: less_2_cases_iff)
  note claim = reduction_completes [OF T(1,2)]
  from claim [OF run2(1), of 0, THEN conjunct2, THEN conjunct2, THEN conjunct1, rule_format, OF all [rule_format]]
  obtain q d where m: "(q, 0, d) \<in># red_net s2" using T(3) by auto
  have "q = 0"
  proof -
    obtain S D v where w: "topo_wave ?T ?id s2 (\<lambda>p. c2 p 0) S D v 0"
      using red_run_inv [OF run2(1) T(1,2)] unfolding red_sys_inv_def by blast
    obtain j where "j \<in> S - D - {0}" "q = nat (CmiSpanTreeParent ?T j)"
      using span_tree.wave_message [OF span_tree_topology [OF T(1,2)] w m] by metis
    moreover have "j < 2" if "j \<in> S" for j using span_tree.red_waveD(2) [OF span_tree_topology [OF T(1,2)] w] that T(3) by auto
    ultimately have "j = 1" by (auto simp: less_2_cases_iff)
    then show ?thesis using \<open>q = nat (CmiSpanTreeParent ?T j)\<close> by (simp add: CmiSpanTreeParent_def single_topology_def CmiNodeSpanTreeParent_def)
  qed
  then obtain r where r: "CmiHandleReductionMessage 0 d (red_pe s2 q) = Inr r"
    using claim [OF run2(1), of 0, THEN conjunct2, THEN conjunct1, rule_format, of q d] m st(2) run2(4) by auto
  note run3 = red_run.deliver [OF run2(1) m r]
  from claim [OF run3, of 0, THEN conjunct2, THEN conjunct2, THEN conjunct1, rule_format, OF all [rule_format]]
  show ?thesis using run3 run2(2,3) T(3) by (auto simp: numeral_2_eq_2)
qed

end
