(* ===== verification/Multisend.thy ===== *)
theory Multisend
  imports Pup
begin

text \<open>
  Memory blocks with reference counts (\<^verbatim>\<open>CmiAlloc\<close>, \<^verbatim>\<open>CmiReference\<close>, \<^verbatim>\<open>CmiFree\<close>) and the bundling of
  several messages into one (\<^verbatim>\<open>CmiMultipleSend\<close>), from \<^verbatim>\<open>conv-core/convcore.c\<close>.  The parts of a bundle are
  delivered as messages inside the received block: their reference field is the negative distance to
  the enclosing block.

  A block is the list of its bytes, beginning with its chunk header, and a flag that it has been
  given back to the system; an address is an offset into it, and an access outside of the block or
  after its release is an error.  The layout is that of a 64-bit machine: a chunk header has sixteen
  bytes, the size and the reference field first.  The length of a message header and its bytes
  depend on the machine and are parameters.
\<close>

section \<open>Memory blocks\<close>

definition CHUNK :: int where "CHUNK = 16"

record block =
  mem :: "u8 list"
  freed :: bool

definition load :: "block \<Rightarrow> int \<Rightarrow> u32 result" where
  "load b a =
     (if freed b \<or> a < 0 \<or> int (length (mem b)) < a + 4 then Inl (Fault ''load'')
      else Inr (bytes_int (take 4 (drop (nat a) (mem b)))))"

definition memcpy :: "int \<Rightarrow> u8 list \<Rightarrow> block \<Rightarrow> block result" where
  "memcpy a bs b =
     (if freed b \<or> a < 0 \<or> int (length (mem b)) < a + int (length bs) then Inl (Fault ''store'')
      else Inr (b\<lparr>mem := take (nat a) (mem b) @ bs @ drop (nat a + length bs) (mem b)\<rparr>))"

definition SIZEFIELD :: "int \<Rightarrow> int" where "SIZEFIELD m = m - CHUNK"
definition REFFIELD :: "int \<Rightarrow> int" where "REFFIELD m = m - CHUNK + 4"

definition CmiAlloc :: "u32 \<Rightarrow> block" where
  "CmiAlloc sz = \<lparr>mem = int_bytes sz @ int_bytes 1 @ replicate 8 0 @ replicate (unat sz) 0, freed = False\<rparr>"

function CmiAllocFindEnclosing :: "block \<Rightarrow> int \<Rightarrow> int result" where
  "CmiAllocFindEnclosing b blk =
     (case load b (REFFIELD blk) of
        Inl e \<Rightarrow> Inl e
      | Inr refCount \<Rightarrow> if sint refCount < 0 then CmiAllocFindEnclosing b (blk + sint refCount) else Inr blk)"
  by auto
termination
  by (relation "measure (\<lambda>(b, blk). nat blk)") (auto simp: load_def REFFIELD_def CHUNK_def split: if_splits)

declare CmiAllocFindEnclosing.simps [simp del]

definition CmiGetReference :: "int \<Rightarrow> block \<Rightarrow> u32 result" where
  "CmiGetReference blk b = rbind (CmiAllocFindEnclosing b blk) (\<lambda>p. load b (REFFIELD p))"

definition CmiReference :: "int \<Rightarrow> block \<Rightarrow> block result" where
  "CmiReference blk b =
     rbind (CmiAllocFindEnclosing b blk) (\<lambda>p.
       rbind (load b (REFFIELD p)) (\<lambda>r. memcpy (REFFIELD p) (int_bytes (r + 1)) b))"

definition CmiSize :: "int \<Rightarrow> block \<Rightarrow> u32 result" where
  "CmiSize blk b = load b (SIZEFIELD blk)"

definition CmiFree :: "int \<Rightarrow> block \<Rightarrow> block result" where
  "CmiFree blk b =
     rbind (CmiAllocFindEnclosing b blk) (\<lambda>p.
       rbind (load b (REFFIELD p)) (\<lambda>refCount.
         if refCount = 0 then Inl (Abort ''CmiFree reference count was zero-- is this a duplicate free?'')
         else rbind (memcpy (REFFIELD p) (int_bytes (refCount - 1)) b) (\<lambda>b1.
                Inr (if refCount - 1 = 0 then b1\<lparr>freed := True\<rparr> else b1))))"

section \<open>Vectors of pieces\<close>

text \<open>
  \<^verbatim>\<open>VECTOR_COMPACT\<close> for a number of pieces that is not negative: the pieces with their sizes are copied one
  after the other into a new block.
\<close>

fun copy_loop :: "int \<Rightarrow> (nat \<times> u8 list) list \<Rightarrow> block \<Rightarrow> block result" where
  "copy_loop tmp [] b = Inr b"
| "copy_loop tmp ((n, bs) # ps) b = rbind (memcpy tmp (take n bs) b) (\<lambda>b1. copy_loop (tmp + int n) ps b1)"

definition VECTOR_COMPACT :: "(nat \<times> u8 list) list \<Rightarrow> block result" where
  "VECTOR_COMPACT ps = copy_loop CHUNK ps (CmiAlloc (of_nat (sum_list (map fst ps))))"

section \<open>Bundles of messages\<close>

definition roundUpSize :: "u32 \<Rightarrow> u32" where
  "roundUpSize s = ucast ((ucast s + 7 :: u64) AND NOT 7)"

definition paddingSize :: "u32 \<Rightarrow> u32" where
  "paddingSize s = roundUpSize s - s"

text \<open>The struct of a bundle's header: the message header, the number of messages, a number to align what follows.\<close>

definition nMessages_offset :: "nat \<Rightarrow> nat" where "nMessages_offset h = (h + 3) div 4 * 4"
definition pad_offset :: "nat \<Rightarrow> nat" where "pad_offset h = (nMessages_offset h + 4 + 7) div 8 * 8"
definition sizeof_header :: "nat \<Rightarrow> nat" where "sizeof_header h = pad_offset h + 8"

definition header_bytes :: "u8 list \<Rightarrow> u32 \<Rightarrow> u8 list" where
  "header_bytes conv n =
     conv @ replicate (nMessages_offset (length conv) - length conv) 0 @ int_bytes n @
     replicate (pad_offset (length conv) - (nMessages_offset (length conv) + 4)) 0 @
     [0x3d, 0x0a, 0xd7, 0xe3, 0x87, 0xd6, 0x32, 0x41]"

definition chunk_bytes :: "u32 \<Rightarrow> u32 \<Rightarrow> u8 list" where
  "chunk_bytes sz ref = int_bytes sz @ int_bytes ref @ replicate 8 0"

definition message_pieces :: "u8 list \<Rightarrow> (nat \<times> u8 list) list" where
  "message_pieces m =
     (let s = of_nat (length m)
      in [(nat CHUNK, chunk_bytes (roundUpSize s) 0), (length m, m), (unat (paddingSize s), replicate 8 0)])"

text \<open>\<open>conv\<close> are the bytes of the message header, with the handler of bundles set.\<close>

definition CmiMultipleSend :: "u8 list \<Rightarrow> u8 list list \<Rightarrow> block result" where
  "CmiMultipleSend conv msgs =
     VECTOR_COMPACT ((sizeof_header (length conv), header_bytes conv (of_nat (length msgs))) # concat (map message_pieces msgs))"

text \<open>Unpacking at the receiver: the messages sent to the processor itself, as addresses with their sizes.\<close>

fun multi_loop :: "nat \<Rightarrow> int \<Rightarrow> int \<Rightarrow> block \<Rightarrow> (block \<times> (int \<times> int) list) result" where
  "multi_loop 0 whole offset b = Inr (b, [])"
| "multi_loop (Suc m) whole offset b =
     (let ch = whole + offset; msg = whole + offset + CHUNK
      in rbind (load b ch) (\<lambda>msgSize.
           rbind (memcpy (ch + 4) (int_bytes (of_int (whole - msg))) b) (\<lambda>b1.
             rbind (CmiReference msg b1) (\<lambda>b2.
               rbind (multi_loop m whole (offset + CHUNK + sint msgSize) b2) (\<lambda>(b3, out).
                 Inr (b3, (msg, sint msgSize) # out))))))"

definition CmiMultiMsgHandler :: "nat \<Rightarrow> int \<Rightarrow> block \<Rightarrow> (block \<times> (int \<times> int) list) result" where
  "CmiMultiMsgHandler h whole b =
     rbind (load b (whole + int (nMessages_offset h))) (\<lambda>len.
       rbind (multi_loop (nat (sint len)) whole (int (sizeof_header h)) b) (\<lambda>(b1, out).
         rbind (CmiFree whole b1) (\<lambda>b2. Inr (b2, out))))"

section \<open>Sizes\<close>

definition round8 :: "nat \<Rightarrow> nat" where "round8 n = (n + 7) div 8 * 8"

lemma round8_bounds: "n \<le> round8 n" "round8 n < n + 8"
  unfolding round8_def by linarith+

lemma clear_low: "(x :: u64) AND NOT 7 = push_bit 3 (drop_bit 3 x)"
proof -
  have m: "(7 :: u64) = mask 3" by (simp add: mask_eq_exp_minus_1)
  show ?thesis unfolding m by (rule bit_word_eqI) (auto simp: bit_simps)
qed

lemma unat_clear_low: "unat ((x :: u64) AND NOT 7) = unat x div 8 * 8"
proof -
  have "unat x div 8 * 8 < 2 ^ 64" using unsigned_less [of x] by (intro le_less_trans [OF div_times_less_eq_dividend]) simp
  then show ?thesis unfolding clear_low by (simp add: push_bit_eq_mult drop_bit_eq_div unat_word_ariths unat_div)
qed

lemma unat_roundUpSize:
  assumes "n < 2 ^ 31 - 8"
  shows "unat (roundUpSize (of_nat n)) = round8 n"
proof -
  have n: "unat (of_nat n :: u32) = n" using assms by (simp add: unat_of_nat take_bit_nat_eq_self)
  then have "unat (ucast (of_nat n :: u32) + 7 :: u64) = n + 7" using assms
    by (simp add: unat_word_ariths unsigned_ucast_eq take_bit_nat_eq_self)
  then have "unat ((ucast (of_nat n :: u32) + 7 :: u64) AND NOT 7) = round8 n"
    unfolding unat_clear_low by (simp only: round8_def)
  moreover have "round8 n < 2 ^ 31" using round8_bounds(2) [of n] assms by simp
  ultimately show ?thesis unfolding roundUpSize_def unsigned_ucast_eq by (simp add: take_bit_nat_eq_self)
qed

lemma unat_paddingSize:
  assumes "n < 2 ^ 31 - 8"
  shows "unat (paddingSize (of_nat n)) = round8 n - n"
proof -
  have "unat (of_nat n :: u32) = n" using assms by (simp add: unat_of_nat take_bit_nat_eq_self)
  then show ?thesis using unat_roundUpSize [OF assms] round8_bounds(1) [of n] by (simp add: paddingSize_def unat_sub word_le_nat_alt)
qed
section \<open>Access to the bytes\<close>

lemma load_at:
  assumes "mem b = pre @ int_bytes v @ post" "\<not> freed b" "a = int (length pre)"
  shows "load b a = Inr v"
  using assms by (simp add: load_def)

lemma memcpy_at:
  assumes "mem b = pre @ old @ post" "\<not> freed b" "a = int (length pre)" "length old = length bs"
  shows "memcpy a bs b = Inr (b\<lparr>mem := pre @ bs @ post\<rparr>)"
  using assms by (simp add: memcpy_def)

text \<open>A block with size field \<open>sz\<close> and reference count \<open>r\<close>; a message in a bundle with its reference field.\<close>

definition whole :: "u32 \<Rightarrow> u32 \<Rightarrow> u8 list \<Rightarrow> block" where
  "whole sz r rest = \<lparr>mem = chunk_bytes sz r @ rest, freed = False\<rparr>"

definition padded :: "u8 list \<Rightarrow> u8 list" where
  "padded m = m @ replicate (round8 (length m) - length m) 0"

definition chunk :: "u32 \<Rightarrow> u8 list \<Rightarrow> u8 list" where
  "chunk r m = chunk_bytes (roundUpSize (of_nat (length m))) r @ padded m"

definition back_ref :: "nat \<Rightarrow> u32" where "back_ref n = of_int (- (16 + int n))"

lemma length_chunk_bytes [simp]: "length (chunk_bytes sz r) = 16"
  by (simp add: chunk_bytes_def)

lemma length_padded [simp]: "length (padded m) = round8 (length m)"
  using round8_bounds(1) [of "length m"] by (simp add: padded_def)

lemma length_chunk [simp]: "length (chunk r m) = 16 + round8 (length m)"
  by (simp add: chunk_def)

lemma length_header [simp]: "length (header_bytes conv n) = sizeof_header (length conv)"
proof -
  have "length conv \<le> nMessages_offset (length conv)" "nMessages_offset (length conv) + 4 \<le> pad_offset (length conv)"
    unfolding nMessages_offset_def pad_offset_def by linarith+
  then show ?thesis by (simp add: header_bytes_def sizeof_header_def)
qed

lemma copy_loop_concat:
  assumes "mem b = pre @ old" "\<not> freed b" "tmp = int (length pre)" "\<forall>(n, bs) \<in> set ps. n \<le> length bs" "length old = sum_list (map fst ps)"
  shows "copy_loop tmp ps b = Inr (b\<lparr>mem := pre @ concat (map (\<lambda>(n, bs). take n bs) ps)\<rparr>)"
  using assms
proof (induction ps arbitrary: pre old b tmp)
  case (Cons x ps)
  obtain n bs where x: "x = (n, bs)" by (cases x)
  have n: "length (take n bs) = n" using Cons.prems(4) x by simp
  have "mem b = pre @ take n old @ drop n old" using Cons.prems(1) by simp
  from memcpy_at [OF this Cons.prems(2,3), of "take n bs"]
  have cp: "memcpy tmp (take n bs) b = Inr (b\<lparr>mem := pre @ take n bs @ drop n old\<rparr>)" using n Cons.prems(5) x by simp
  have "copy_loop (tmp + int n) ps (b\<lparr>mem := pre @ take n bs @ drop n old\<rparr>) =
      Inr ((b\<lparr>mem := pre @ take n bs @ drop n old\<rparr>)\<lparr>mem := (pre @ take n bs) @ concat (map (\<lambda>(n, bs). take n bs) ps)\<rparr>)"
    by (rule Cons.IH [where old = "drop n old"]) (use Cons.prems x n in auto)
  then show ?case using cp x by simp
qed simp

lemma vector_compact:
  assumes "\<forall>(n, bs) \<in> set ps. n \<le> length bs" "sum_list (map fst ps) < 2 ^ 32"
  shows "VECTOR_COMPACT ps = Inr (whole (of_nat (sum_list (map fst ps))) 1 (concat (map (\<lambda>(n, bs). take n bs) ps)))"
proof -
  let ?n = "sum_list (map fst ps)"
  have "unat (of_nat ?n :: u32) = ?n" using assms(2) by (simp add: unat_of_nat take_bit_nat_eq_self)
  then have "copy_loop CHUNK ps (CmiAlloc (of_nat ?n)) =
      Inr ((CmiAlloc (of_nat ?n))\<lparr>mem := chunk_bytes (of_nat ?n) 1 @ concat (map (\<lambda>(n, bs). take n bs) ps)\<rparr>)"
    by (intro copy_loop_concat [where old = "replicate ?n 0"]) (use assms(1) in \<open>simp_all add: CmiAlloc_def chunk_bytes_def CHUNK_def\<close>)
  then show ?thesis by (simp add: VECTOR_COMPACT_def whole_def CmiAlloc_def)
qed

definition bundle_bytes :: "u8 list \<Rightarrow> u8 list list \<Rightarrow> u8 list" where
  "bundle_bytes conv msgs = header_bytes conv (of_nat (length msgs)) @ concat (map (chunk 0) msgs)"

text \<open>The bundle fits in the 32-bit sizes.\<close>

definition fits32 :: "u8 list \<Rightarrow> u8 list list \<Rightarrow> bool" where
  "fits32 conv msgs \<longleftrightarrow> 16 + sizeof_header (length conv) + (\<Sum>m \<leftarrow> msgs. 16 + round8 (length m)) < 2 ^ 31 - 8"

lemma fits32_each: "fits32 conv msgs \<Longrightarrow> m \<in> set msgs \<Longrightarrow> length m < 2 ^ 31 - 8"
  using member_le_sum_list [of "16 + round8 (length m)" "map (\<lambda>m. 16 + round8 (length m)) msgs"] round8_bounds(1) [of "length m"]
  by (fastforce simp: fits32_def)

lemma pieces:
  assumes "length m < 2 ^ 31 - 8"
  shows "concat (map (\<lambda>(n, bs). take n bs) (message_pieces m)) = chunk 0 m"
    "sum_list (map fst (message_pieces m)) = 16 + round8 (length m)" "\<forall>(n, bs) \<in> set (message_pieces m). n \<le> length bs"
proof -
  have p: "unat (paddingSize (of_nat (length m))) = round8 (length m) - length m" by (rule unat_paddingSize [OF assms])
  have b: "length m \<le> round8 (length m)" "round8 (length m) - length m \<le> 8" using round8_bounds [of "length m"] by simp_all
  then show "concat (map (\<lambda>(n, bs). take n bs) (message_pieces m)) = chunk 0 m"
    "sum_list (map fst (message_pieces m)) = 16 + round8 (length m)" "\<forall>(n, bs) \<in> set (message_pieces m). n \<le> length bs"
    by (simp_all add: message_pieces_def Let_def p chunk_def padded_def CHUNK_def min_def)
qed

lemma all_pieces:
  assumes "\<forall>m \<in> set msgs. length m < 2 ^ 31 - 8"
  shows "concat (map (\<lambda>(n, bs). take n bs) (concat (map message_pieces msgs))) = concat (map (chunk 0) msgs) \<and>
    sum_list (map fst (concat (map message_pieces msgs))) = (\<Sum>m \<leftarrow> msgs. 16 + round8 (length m)) \<and>
    (\<forall>(n, bs) \<in> set (concat (map message_pieces msgs)). n \<le> length bs)"
  using assms
proof (induction msgs)
  case (Cons m msgs)
  then show ?case using pieces [of m] by (simp add: ball_Un)
qed simp

lemma send_bundle:
  assumes "fits32 conv msgs"
  shows "\<exists>sz. CmiMultipleSend conv msgs = Inr (whole sz 1 (bundle_bytes conv msgs))"
proof -
  note all = all_pieces [of msgs, OF ballI, OF fits32_each [OF assms]]
  show ?thesis unfolding CmiMultipleSend_def
    by (subst vector_compact) (use all assms in \<open>auto simp: fits32_def bundle_bytes_def\<close>)
qed

section \<open>References\<close>

lemma sint_small:
  assumes "unat (x :: u32) < 2 ^ 31"
  shows "sint x = int (unat x)"
proof -
  have "int (unat x) < 2 ^ 31" using assms by (simp only: of_nat_less_iff [symmetric, where 'a = int] of_nat_power of_nat_numeral)
  then have "uint x < 2 ^ 31" by simp
  moreover have "- (2 ^ 31) \<le> uint x" by (rule order_trans [OF _ uint_ge_0]) simp
  ultimately show ?thesis unfolding sint_uint by (simp add: signed_take_bit_int_eq_self)
qed

lemma sint_back_ref: "n + 16 < 2 ^ 31 \<Longrightarrow> sint (back_ref n) = - (16 + int n)"
  unfolding back_ref_def signed_of_int by (subst signed_take_bit_int_eq_self) simp_all

lemma whole_count:
  "load (whole sz r rest) 4 = Inr r"
  "memcpy 4 (int_bytes r') (whole sz r rest) = Inr (whole sz r' rest)"
proof -
  have m: "mem (whole sz r rest) = int_bytes sz @ int_bytes r @ (replicate 8 0 @ rest)" "\<not> freed (whole sz r rest)"
    by (simp_all add: whole_def chunk_bytes_def)
  show "load (whole sz r rest) 4 = Inr r" by (rule load_at [OF m]) simp
  show "memcpy 4 (int_bytes r') (whole sz r rest) = Inr (whole sz r' rest)"
    by (subst memcpy_at [OF m]) (simp_all add: whole_def chunk_bytes_def)
qed

lemma find_whole:
  assumes "unat r < 2 ^ 31"
  shows "CmiAllocFindEnclosing (whole sz r rest) 16 = Inr 16"
  using whole_count(1) [of sz r rest] sint_small [OF assms]
  by (subst CmiAllocFindEnclosing.simps) (simp add: REFFIELD_def CHUNK_def)

lemma find_chunk:
  assumes r: "unat r < 2 ^ 31" and rest: "rest = pre @ chunk (back_ref (length pre)) m @ post" "length pre + 16 < 2 ^ 31"
  shows "CmiAllocFindEnclosing (whole sz r rest) (32 + int (length pre)) = Inr 16"
proof -
  have "mem (whole sz r rest) = (chunk_bytes sz r @ pre @ int_bytes (roundUpSize (of_nat (length m)))) @ int_bytes (back_ref (length pre)) @
      (replicate 8 0 @ padded m @ post)" "\<not> freed (whole sz r rest)"
    by (simp_all add: whole_def rest chunk_def chunk_bytes_def [of "roundUpSize _"])
  from load_at [OF this, of "20 + int (length pre)"]
  have "load (whole sz r rest) (20 + int (length pre)) = Inr (back_ref (length pre))" by simp
  then show ?thesis using sint_back_ref [OF rest(2)] find_whole [OF r, of sz rest]
    by (subst CmiAllocFindEnclosing.simps) (simp add: REFFIELD_def CHUNK_def)
qed

lemma reference_effect:
  "CmiAllocFindEnclosing (whole sz r rest) p = Inr 16 \<Longrightarrow> CmiReference p (whole sz r rest) = Inr (whole sz (r + 1) rest)"
  using whole_count [where sz = sz and rest = rest] by (simp add: CmiReference_def REFFIELD_def CHUNK_def)

lemma free_effect:
  "CmiAllocFindEnclosing (whole sz r rest) p = Inr 16 \<Longrightarrow> r \<noteq> 0 \<Longrightarrow>
   CmiFree p (whole sz r rest) = Inr ((whole sz (r - 1) rest)\<lparr>freed := r = 1\<rparr>)"
  using whole_count [where sz = sz and rest = rest] by (auto simp: CmiFree_def REFFIELD_def CHUNK_def whole_def)

section \<open>Unpacking\<close>

text \<open>The messages of a bundle linked to it, and where they are; \<open>n\<close> bytes of the block come before.\<close>

fun linked :: "nat \<Rightarrow> u8 list list \<Rightarrow> u8 list" where
  "linked n [] = []"
| "linked n (m # ms) = chunk (back_ref n) m @ linked (n + 16 + round8 (length m)) ms"

fun places :: "nat \<Rightarrow> u8 list list \<Rightarrow> (int \<times> int) list" where
  "places n [] = []"
| "places n (m # ms) = (32 + int n, int (round8 (length m))) # places (n + 16 + round8 (length m)) ms"

lemma multi_loop_linked:
  assumes "length pre + (\<Sum>m \<leftarrow> ms. 16 + round8 (length m)) < 2 ^ 31 - 24" "unat r + length ms < 2 ^ 31"
  shows "multi_loop (length ms) 16 (int (length pre)) (whole sz r (pre @ concat (map (chunk 0) ms))) =
    Inr (whole sz (r + of_nat (length ms)) (pre @ linked (length pre) ms), places (length pre) ms)"
  using assms
proof (induction ms arbitrary: pre r)
  case (Cons m ms)
  let ?sz = "roundUpSize (of_nat (length m))" and ?post = "concat (map (chunk 0) ms)" and ?n = "length pre"
  let ?b = "whole sz r (pre @ concat (map (chunk 0) (m # ms)))"
  have small: "length m < 2 ^ 31 - 8" "round8 (length m) < 2 ^ 31" using Cons.prems(1) round8_bounds(1) [of "length m"] by simp_all
  then have size: "sint ?sz = int (round8 (length m))" using unat_roundUpSize [OF small(1)] sint_small [of ?sz] by simp
  have "mem ?b = (chunk_bytes sz r @ pre) @ int_bytes ?sz @ (int_bytes 0 @ replicate 8 0 @ padded m @ ?post)" "\<not> freed ?b"
    by (simp_all add: whole_def chunk_def chunk_bytes_def [of ?sz])
  from load_at [OF this, of "16 + int ?n"] have ld: "load ?b (16 + int ?n) = Inr ?sz" by simp
  have m: "mem ?b = (chunk_bytes sz r @ pre @ int_bytes ?sz) @ int_bytes 0 @ (replicate 8 0 @ padded m @ ?post)" "\<not> freed ?b"
    by (simp_all add: whole_def chunk_def chunk_bytes_def [of ?sz])
  let ?b1 = "whole sz r (pre @ chunk (back_ref ?n) m @ ?post)"
  have "?b\<lparr>mem := (chunk_bytes sz r @ pre @ int_bytes ?sz) @ int_bytes (back_ref ?n) @ (replicate 8 0 @ padded m @ ?post)\<rparr> = ?b1"
    by (simp add: whole_def chunk_def chunk_bytes_def [of ?sz])
  then have cp: "memcpy (20 + int ?n) (int_bytes (back_ref ?n)) ?b = Inr ?b1"
    using memcpy_at [OF m, of "20 + int ?n" "int_bytes (back_ref ?n)"] by simp
  have ref: "CmiReference (32 + int ?n) ?b1 = Inr (whole sz (r + 1) (pre @ chunk (back_ref ?n) m @ ?post))"
    by (rule reference_effect, rule find_chunk) (use Cons.prems in auto)
  have r1: "unat (r + 1) = unat r + 1" using Cons.prems(2) by (simp add: unat_word_ariths)
  have "multi_loop (length ms) 16 (int (length (pre @ chunk (back_ref ?n) m))) (whole sz (r + 1) ((pre @ chunk (back_ref ?n) m) @ ?post)) =
      Inr (whole sz (r + 1 + of_nat (length ms)) ((pre @ chunk (back_ref ?n) m) @ linked (length (pre @ chunk (back_ref ?n) m)) ms),
           places (length (pre @ chunk (back_ref ?n) m)) ms)"
    by (rule Cons.IH) (use Cons.prems r1 in simp_all)
  then show ?case using ld cp ref size
    by (simp add: CHUNK_def back_ref_def add.assoc add.commute [of "int ?n"] add.left_commute)
qed simp

lemma place_split:
  assumes "i < length ms"
  shows "\<exists>pre post. linked n ms = pre @ chunk (back_ref (n + length pre)) (ms ! i) @ post \<and> fst (places n ms ! i) = 32 + int (n + length pre)"
  using assms
proof (induction ms arbitrary: n i)
  case (Cons m ms)
  show ?case
  proof (cases i)
    case 0
    then show ?thesis by (intro exI [of _ "[]"] exI [of _ "linked (n + 16 + round8 (length m)) ms"]) simp
  next
    case (Suc j)
    from Cons.IH [of j "n + 16 + round8 (length m)"] Cons.prems Suc obtain pre post where
      "linked (n + 16 + round8 (length m)) ms = pre @ chunk (back_ref (n + 16 + round8 (length m) + length pre)) (ms ! j) @ post"
      "fst (places (n + 16 + round8 (length m)) ms ! j) = 32 + int (n + 16 + round8 (length m) + length pre)" by auto
    then show ?thesis using Suc by (intro exI [of _ "chunk (back_ref n) m @ pre"] exI [of _ post]) (simp add: add.assoc)
  qed
qed simp

lemma length_places [simp]: "length (places n ms) = length ms" "map snd (places n ms) = map (\<lambda>m. int (round8 (length m))) ms"
  by (induction ms arbitrary: n) auto

lemma length_linked: "length (linked n ms) = (\<Sum>m \<leftarrow> ms. 16 + round8 (length m))"
  by (induction ms arbitrary: n) auto

fun free_all :: "int list \<Rightarrow> block \<Rightarrow> block result" where
  "free_all [] b = Inr b"
| "free_all (p # ps) b = rbind (CmiFree p b) (free_all ps)"

lemma free_all_effect:
  assumes "\<And>p r'. p \<in> set qs \<Longrightarrow> unat r' < 2 ^ 31 \<Longrightarrow> CmiAllocFindEnclosing (whole sz r' rest) p = Inr 16"
    "unat r = k" "k < 2 ^ 31" "length qs \<le> k"
  shows "free_all qs ((whole sz r rest)\<lparr>freed := k = 0\<rparr>) = Inr ((whole sz (r - of_nat (length qs)) rest)\<lparr>freed := length qs = k\<rparr>)"
  using assms
proof (induction qs arbitrary: r k)
  case (Cons p qs)
  obtain k' where k': "k = Suc k'" using Cons.prems(4) by (cases k) auto
  then have "r \<noteq> 0" "(r = 1) = (k' = 0)" using Cons.prems(2) by (auto simp: word_unat_eq_iff)
  moreover from this have "unat (r - 1) = k'" using Cons.prems(2) k' by (simp add: unat_minus_one)
  moreover have w: "(whole sz r rest)\<lparr>freed := False\<rparr> = whole sz r rest" by (simp add: whole_def)
  ultimately have "CmiFree p (whole sz r rest) = Inr ((whole sz (r - 1) rest)\<lparr>freed := k' = 0\<rparr>)"
    using free_effect [of sz r rest p] Cons.prems(1) [of p r] Cons.prems(2,3) by simp
  moreover have "free_all qs ((whole sz (r - 1) rest)\<lparr>freed := k' = 0\<rparr>) =
      Inr ((whole sz (r - 1 - of_nat (length qs)) rest)\<lparr>freed := length qs = k'\<rparr>)"
    by (rule Cons.IH) (use Cons.prems k' \<open>unat (r - 1) = k'\<close> in auto)
  ultimately show ?case using k' w by (simp add: algebra_simps)
qed simp

lemma handler_effect:
  assumes fit: "fits32 conv msgs"
  shows "CmiMultiMsgHandler (length conv) 16 (whole sz 1 (bundle_bytes conv msgs)) =
    Inr ((whole sz (of_nat (length msgs)) (header_bytes conv (of_nat (length msgs)) @ linked (sizeof_header (length conv)) msgs))
           \<lparr>freed := length msgs = 0\<rparr>, places (sizeof_header (length conv)) msgs)"
    "length msgs < 2 ^ 31 - 8"
proof -
  let ?b = "whole sz 1 (bundle_bytes conv msgs)" and ?n = "length msgs" and ?o = "nMessages_offset (length conv)"
  let ?h = "header_bytes conv (of_nat ?n)" and ?s = "sizeof_header (length conv)"
  have "?n \<le> (\<Sum>m \<leftarrow> msgs. 16 + round8 (length m))" by (induction msgs) auto
  then show few: "?n < 2 ^ 31 - 8" using fit by (simp add: fits32_def)
  have o: "length conv + (?o - length conv) = ?o" unfolding nMessages_offset_def by linarith
  define tl where "tl = replicate (pad_offset (length conv) - (?o + 4)) 0 @ [0x3d, 0x0a, 0xd7, 0xe3, 0x87, 0xd6, 0x32, 0x41 :: u8] @ concat (map (chunk 0) msgs)"
  have m: "mem ?b = (chunk_bytes sz 1 @ conv @ replicate (?o - length conv) 0) @ int_bytes (of_nat ?n) @ tl" "\<not> freed ?b"
    by (simp_all add: whole_def bundle_bytes_def header_bytes_def tl_def)
  have "load ?b (16 + int ?o) = Inr (of_nat ?n)" by (rule load_at [OF m]) (use o in simp)
  moreover have un: "unat (of_nat ?n :: u32) = ?n" using few by (simp add: unat_of_nat take_bit_nat_eq_self)
  then have "nat (sint (of_nat ?n :: u32)) = ?n" using sint_small [of "of_nat ?n"] few by simp
  moreover have "multi_loop ?n 16 (int (length ?h)) (whole sz 1 (?h @ concat (map (chunk 0) msgs))) =
      Inr (whole sz (1 + of_nat ?n) (?h @ linked (length ?h) msgs), places (length ?h) msgs)"
    by (rule multi_loop_linked) (use fit few in \<open>simp_all add: fits32_def\<close>)
  moreover have "CmiFree 16 (whole sz (1 + of_nat ?n) (?h @ linked ?s msgs)) = Inr ((whole sz (of_nat ?n) (?h @ linked ?s msgs))\<lparr>freed := ?n = 0\<rparr>)"
  proof -
    define r :: u32 where "r = 1 + of_nat ?n"
    have "unat r = Suc ?n" using un few unfolding r_def by (simp add: unat_word_ariths)
    then have "unat r < 2 ^ 31" "r \<noteq> 0" "(r = 1) = (?n = 0)" using few by (auto simp: word_unat_eq_iff)
    moreover have "r - 1 = of_nat ?n" by (simp add: r_def)
    ultimately show ?thesis using free_effect [OF find_whole, of r sz "?h @ linked ?s msgs"] unfolding r_def [symmetric] by simp
  qed
  ultimately show "CmiMultiMsgHandler (length conv) 16 ?b =
    Inr ((whole sz (of_nat ?n) (?h @ linked ?s msgs))\<lparr>freed := ?n = 0\<rparr>, places ?s msgs)"
    by (simp add: CmiMultiMsgHandler_def bundle_bytes_def)
qed

section \<open>Property\<close>

text \<open>
  C37.  Messages survive being bundled.  If the bundle is smaller than 2 GB, the handler at the receiver
  delivers the messages in order, each with its size rounded up to a multiple of eight and with all
  its bytes; the bundle then holds one reference for each message, so that it lives until as many
  releases as there are messages have been made, in whatever order, and is given back at the last of
  them.
\<close>

theorem multisend_roundtrip:
  assumes "fits32 conv msgs"
  shows "\<exists>b b' out. CmiMultipleSend conv msgs = Inr b \<and> CmiMultiMsgHandler (length conv) CHUNK b = Inr (b', out) \<and>
    map snd out = map (\<lambda>m. int (round8 (length m))) msgs \<and>
    (\<forall>i < length msgs. take (length (msgs ! i)) (drop (nat (fst (out ! i))) (mem b')) = msgs ! i) \<and>
    (\<forall>qs. set qs \<subseteq> fst ` set out \<and> length qs \<le> length msgs \<longrightarrow>
       (\<exists>b''. free_all qs b' = Inr b'' \<and> (freed b'' \<longleftrightarrow> length qs = length msgs)))"
proof -
  let ?n = "length msgs" and ?s = "sizeof_header (length conv)"
  let ?h = "header_bytes conv (of_nat ?n)"
  let ?rest = "?h @ linked ?s msgs" and ?out = "places ?s msgs"
  obtain sz where send: "CmiMultipleSend conv msgs = Inr (whole sz 1 (bundle_bytes conv msgs))" using send_bundle [OF assms] by blast
  let ?b' = "(whole sz (of_nat ?n) ?rest)\<lparr>freed := ?n = 0\<rparr>"
  note few = handler_effect(2) [OF assms]
  have place: "\<exists>pre post. ?rest = pre @ chunk (back_ref (length pre)) (msgs ! i) @ post \<and> fst (?out ! i) = 32 + int (length pre) \<and> length pre + 16 < 2 ^ 31"
    if i: "i < ?n" for i
  proof -
    obtain pre post where p: "linked ?s msgs = pre @ chunk (back_ref (?s + length pre)) (msgs ! i) @ post" "fst (?out ! i) = 32 + int (?s + length pre)"
      using place_split [OF i] by blast
    have "?s + length pre + 16 < 2 ^ 31" using assms length_linked [of ?s msgs] arg_cong [OF p(1), of length] by (simp add: fits32_def)
    then show ?thesis using p by (intro exI [of _ "?h @ pre"] exI [of _ post]) simp
  qed
  have data: "take (length (msgs ! i)) (drop (nat (fst (?out ! i))) (mem ?b')) = msgs ! i" if i: "i < ?n" for i
  proof -
    obtain pre post where "?rest = pre @ chunk (back_ref (length pre)) (msgs ! i) @ post" "fst (?out ! i) = 32 + int (length pre)"
      using place [OF i] by blast
    then show ?thesis by (simp add: whole_def chunk_def padded_def nat_add_distrib)
  qed
  have frees: "\<exists>b''. free_all qs ?b' = Inr b'' \<and> (freed b'' \<longleftrightarrow> length qs = ?n)"
    if qs: "set qs \<subseteq> fst ` set ?out" "length qs \<le> ?n" for qs
  proof -
    have "CmiAllocFindEnclosing (whole sz r ?rest) p = Inr 16" if p: "p \<in> set qs" and r: "unat r < 2 ^ 31" for p r
    proof -
      obtain i where i: "i < ?n" "p = fst (?out ! i)" using p qs(1) by (fastforce simp: in_set_conv_nth)
      obtain pre post where "?rest = pre @ chunk (back_ref (length pre)) (msgs ! i) @ post" "p = 32 + int (length pre)" "length pre + 16 < 2 ^ 31"
        using place [OF i(1)] i(2) by blast
      then show ?thesis using find_chunk [OF r] by metis
    qed
    moreover have "unat (of_nat ?n :: u32) = ?n" using few by (simp add: unat_of_nat take_bit_nat_eq_self)
    ultimately have "free_all qs ?b' = Inr ((whole sz (of_nat ?n - of_nat (length qs)) ?rest)\<lparr>freed := length qs = ?n\<rparr>)"
      by (rule free_all_effect) (use few qs(2) in simp_all)
    then show ?thesis by simp
  qed
  show ?thesis
    by (rule exI [of _ "whole sz 1 (bundle_bytes conv msgs)"], rule exI [of _ ?b'], rule exI [of _ ?out])
      (use send handler_effect(1) [OF assms, of sz] data frees in \<open>auto simp: CHUNK_def\<close>)
qed

theorem multisend_roundtrip_witness:
  "\<exists>b b' out. CmiMultipleSend [1, 2, 3] [[4, 5], [6]] = Inr b \<and> CmiMultiMsgHandler 3 CHUNK b = Inr (b', out) \<and>
     take 2 (drop (nat (fst (out ! 0))) (mem b')) = [4, 5]"
proof -
  have "fits32 [1, 2, 3] [[4, 5], [6]]"
    by (simp add: fits32_def sizeof_header_def pad_offset_def nMessages_offset_def round8_def)
  from multisend_roundtrip [OF this] obtain b b' out where
    "CmiMultipleSend [1, 2, 3] [[4, 5], [6]] = Inr b" "CmiMultiMsgHandler (length [1, 2, 3 :: u8]) CHUNK b = Inr (b', out)"
    "\<forall>i < length [[4, 5], [6 :: u8]]. take (length ([[4, 5], [6 :: u8]] ! i)) (drop (nat (fst (out ! i))) (mem b')) = [[4, 5], [6]] ! i"
    by blast
  moreover from this(3) have "take 2 (drop (nat (fst (out ! 0))) (mem b')) = [4, 5]" by (auto dest: spec [of _ 0] simp: numeral_2_eq_2)
  ultimately show ?thesis by (simp add: numeral_3_eq_3)
qed

end
