(* ===== verification/Handlers.thy ===== *)
theory Handlers
  imports Prelude
begin

text \<open>
  The table of message handlers of \<^verbatim>\<open>conv-core/convcore.c\<close>.  A handler is registered under the
  next free number, which senders write into the header of their messages; the table grows when a
  number lies beyond its end.  Functions are pointers; the handler of number 0, which stops the
  program, is a value of its own, and an entry that has never been written is a null pointer.
  \<^verbatim>\<open>CMI_LOCAL_GLOBAL_AVAILABLE\<close> is not defined by any machine, so that numbers follow each other
  without gaps and the local and global registrations are not compiled.
\<close>

section \<open>State and operations\<close>

datatype CmiHandlerEx = NullHandler | ZeroHandler | Handler ptr

record CmiHandlerInfo =
  hdlr :: CmiHandlerEx
  userPtr :: ptr

record handlers =
  CmiHandlerTable :: "CmiHandlerInfo list"
  CmiHandlerCount :: int
  CmiHandlerLocal :: int
  CmiHandlerGlobal :: int
  CmiHandlerMax :: int

definition no_info :: CmiHandlerInfo where
  "no_info = \<lparr>hdlr = NullHandler, userPtr = NULL\<rparr>"

definition CmiExtendHandlerTable :: "int \<Rightarrow> handlers \<Rightarrow> handlers" where
  "CmiExtendHandlerTable atLeastLen t =
     (let max = CmiHandlerMax t;
          newmax = atLeastLen + atLeastLen div 4 + 32;
          nu = take (nat max) (CmiHandlerTable t) @ replicate (nat (newmax - max)) no_info
      in t\<lparr>CmiHandlerTable := nu, CmiHandlerMax := newmax\<rparr>)"

definition CmiNumberHandlerEx :: "int \<Rightarrow> CmiHandlerEx \<Rightarrow> ptr \<Rightarrow> handlers \<Rightarrow> handlers result" where
  "CmiNumberHandlerEx n h u t0 =
     (let t = (if CmiHandlerMax t0 \<le> n then CmiExtendHandlerTable n t0 else t0)
      in if n < 0 \<or> int (length (CmiHandlerTable t)) \<le> n then Inl (Fault ''handler table'')
         else Inr (t\<lparr>CmiHandlerTable := (CmiHandlerTable t)[nat n := \<lparr>hdlr = h, userPtr = u\<rparr>]\<rparr>))"

definition CmiNumberHandler :: "int \<Rightarrow> CmiHandlerEx \<Rightarrow> handlers \<Rightarrow> handlers result" where
  "CmiNumberHandler n h t0 =
     (let t = (if CmiHandlerMax t0 \<le> n then CmiExtendHandlerTable n t0 else t0)
      in if n < 0 \<or> int (length (CmiHandlerTable t)) \<le> n then Inl (Fault ''handler table'')
         else Inr (t\<lparr>CmiHandlerTable := (CmiHandlerTable t)[nat n := \<lparr>hdlr = h, userPtr = NULL\<rparr>]\<rparr>))"

definition DIST_BETWEEN_HANDLERS :: int where "DIST_BETWEEN_HANDLERS = 1"

definition CmiRegisterHandler :: "CmiHandlerEx \<Rightarrow> handlers \<Rightarrow> (int \<times> handlers) result" where
  "CmiRegisterHandler h t =
     (let Count = CmiHandlerCount t
      in rbind (CmiNumberHandler Count h t)
           (\<lambda>t1. Inr (Count, t1\<lparr>CmiHandlerCount := Count + DIST_BETWEEN_HANDLERS\<rparr>)))"

definition CmiRegisterHandlerEx :: "CmiHandlerEx \<Rightarrow> ptr \<Rightarrow> handlers \<Rightarrow> (int \<times> handlers) result" where
  "CmiRegisterHandlerEx h u t =
     (let Count = CmiHandlerCount t
      in rbind (CmiNumberHandlerEx Count h u t)
           (\<lambda>t1. Inr (Count, t1\<lparr>CmiHandlerCount := Count + DIST_BETWEEN_HANDLERS\<rparr>)))"

definition CmiHandlerInit :: "handlers result" where
  "CmiHandlerInit =
     rbind (CmiRegisterHandler ZeroHandler
              \<lparr>CmiHandlerTable = [], CmiHandlerCount = 0, CmiHandlerLocal = 1, CmiHandlerGlobal = 2, CmiHandlerMax = 0\<rparr>)
       (\<lambda>(_, t). Inr t)"

text \<open>\<^verbatim>\<open>CmiHandlerToInfo\<close>; a number beyond the table reads outside of its memory.\<close>

definition CmiHandlerToInfo :: "handlers \<Rightarrow> nat \<Rightarrow> CmiHandlerInfo result" where
  "CmiHandlerToInfo t n =
     (if n < length (CmiHandlerTable t) then Inr (CmiHandlerTable t ! n) else Inl (Fault ''handler table''))"

section \<open>Registered handlers\<close>

definition handlers_ok :: "handlers \<Rightarrow> bool" where
  "handlers_ok t \<longleftrightarrow> 0 < CmiHandlerCount t \<and> CmiHandlerMax t = int (length (CmiHandlerTable t)) \<and>
     CmiHandlerCount t \<le> CmiHandlerMax t \<and> hdlr (CmiHandlerTable t ! 0) = ZeroHandler"

lemma number_is_ex: "CmiNumberHandler n h t = CmiNumberHandlerEx n h NULL t"
  by (simp add: CmiNumberHandler_def CmiNumberHandlerEx_def)

lemma register_is_ex: "CmiRegisterHandler h t = CmiRegisterHandlerEx h NULL t"
  by (simp add: CmiRegisterHandler_def CmiRegisterHandlerEx_def number_is_ex)

lemma extend_effect:
  assumes "CmiHandlerMax t = int (length (CmiHandlerTable t))" "CmiHandlerMax t \<le> n"
  defines "t' \<equiv> CmiExtendHandlerTable n t"
  shows "CmiHandlerMax t' = int (length (CmiHandlerTable t'))" "n < CmiHandlerMax t'"
    "i < length (CmiHandlerTable t) \<Longrightarrow> CmiHandlerTable t' ! i = CmiHandlerTable t ! i"
    "length (CmiHandlerTable t) \<le> length (CmiHandlerTable t')" "CmiHandlerCount t' = CmiHandlerCount t"
  using assms(1,2) by (auto simp: t'_def CmiExtendHandlerTable_def Let_def nth_append)

lemma number_effect:
  assumes ok: "CmiHandlerMax t = int (length (CmiHandlerTable t))" and n: "0 \<le> n"
  shows "\<exists>t'. CmiNumberHandlerEx n h u t = Inr t' \<and> CmiHandlerMax t' = int (length (CmiHandlerTable t')) \<and>
     n < CmiHandlerMax t' \<and> CmiHandlerMax t \<le> CmiHandlerMax t' \<and> CmiHandlerCount t' = CmiHandlerCount t \<and>
     CmiHandlerTable t' ! nat n = \<lparr>hdlr = h, userPtr = u\<rparr> \<and>
     (\<forall>i < length (CmiHandlerTable t). int i \<noteq> n \<longrightarrow> CmiHandlerTable t' ! i = CmiHandlerTable t ! i)"
proof (cases "CmiHandlerMax t \<le> n")
  case True
  note E = extend_effect [OF ok True]
  show ?thesis using True n E(1,2,4,5) E(3) ok by (auto simp: CmiNumberHandlerEx_def Let_def)
next
  case False
  then show ?thesis using ok n by (auto simp: CmiNumberHandlerEx_def Let_def)
qed

lemma register_handler_effect:
  assumes ok: "handlers_ok t"
  shows "\<exists>t'. CmiRegisterHandlerEx h u t = Inr (CmiHandlerCount t, t') \<and> handlers_ok t' \<and>
     CmiHandlerCount t' = CmiHandlerCount t + 1 \<and>
     CmiHandlerToInfo t' (nat (CmiHandlerCount t)) = Inr \<lparr>hdlr = h, userPtr = u\<rparr> \<and>
     (\<forall>i. int i < CmiHandlerCount t \<longrightarrow> CmiHandlerToInfo t' i = CmiHandlerToInfo t i)"
proof -
  have max: "CmiHandlerMax t = int (length (CmiHandlerTable t))" and c: "0 \<le> CmiHandlerCount t" "0 < CmiHandlerCount t"
    and le: "CmiHandlerCount t \<le> CmiHandlerMax t" and z: "hdlr (CmiHandlerTable t ! 0) = ZeroHandler"
    using ok by (simp_all add: handlers_ok_def)
  obtain t1 where t1: "CmiNumberHandlerEx (CmiHandlerCount t) h u t = Inr t1"
    "CmiHandlerMax t1 = int (length (CmiHandlerTable t1))" "CmiHandlerCount t < CmiHandlerMax t1"
    "CmiHandlerMax t \<le> CmiHandlerMax t1" "CmiHandlerCount t1 = CmiHandlerCount t"
    "CmiHandlerTable t1 ! nat (CmiHandlerCount t) = \<lparr>hdlr = h, userPtr = u\<rparr>"
    "\<forall>i < length (CmiHandlerTable t). int i \<noteq> CmiHandlerCount t \<longrightarrow> CmiHandlerTable t1 ! i = CmiHandlerTable t ! i"
    using number_effect [OF max c(1)] by blast
  let ?t = "t1\<lparr>CmiHandlerCount := CmiHandlerCount t + 1\<rparr>"
  have same: "CmiHandlerTable t1 ! i = CmiHandlerTable t ! i" if "int i < CmiHandlerCount t" for i
    using t1(7) that le max by simp
  have "handlers_ok ?t" using t1 c z same [of 0] by (simp add: handlers_ok_def)
  moreover have "CmiHandlerToInfo ?t i = CmiHandlerToInfo t i" if "int i < CmiHandlerCount t" for i
    using that same le max t1(2,4) by (simp add: CmiHandlerToInfo_def)
  moreover have "CmiHandlerToInfo ?t (nat (CmiHandlerCount t)) = Inr \<lparr>hdlr = h, userPtr = u\<rparr>"
    using t1(2,3,6) c by (simp add: CmiHandlerToInfo_def)
  ultimately show ?thesis using t1(1) by (auto simp: CmiRegisterHandlerEx_def DIST_BETWEEN_HANDLERS_def Let_def)
qed

lemma init_handlers: "\<exists>t. CmiHandlerInit = Inr t \<and> handlers_ok t \<and> CmiHandlerCount t = 1"
  by (simp add: CmiHandlerInit_def CmiRegisterHandler_def CmiNumberHandler_def CmiExtendHandlerTable_def
      handlers_ok_def DIST_BETWEEN_HANDLERS_def rbind_def)

end
