(* ===== verification/Args.thy ===== *)
theory Args
  imports Prelude "HOL-Library.Sublist"
begin

text \<open>
  Command-line arguments: the routines of \<^verbatim>\<open>conv-core/convcore.c\<close> that look for options in
  \<^verbatim>\<open>argv\<close> and remove them.  \<^verbatim>\<open>argv\<close> is an array of strings, \<open>None\<close> a null pointer; the arguments are
  the strings before the first null pointer.  The descriptions of the options that are kept or printed
  are part of the state \<open>cla\<close>.  Numbers are read as \<^verbatim>\<open>sscanf\<close> does, without a bound on their size.
\<close>

section \<open>Numbers\<close>

definition is_space :: "char \<Rightarrow> bool" where
  "is_space c \<longleftrightarrow> of_char c \<in> {9 :: nat, 10, 11, 12, 13, 32}"

definition digit_value :: "char \<Rightarrow> nat" where
  "digit_value c =
     (let n = of_char c :: nat
      in if 48 \<le> n \<and> n \<le> 57 then n - 48
         else if 97 \<le> n \<and> n \<le> 102 then n - 87
         else if 65 \<le> n \<and> n \<le> 70 then n - 55 else 99)"

fun scan_digits :: "nat \<Rightarrow> int \<Rightarrow> string \<Rightarrow> int" where
  "scan_digits base acc [] = acc"
| "scan_digits base acc (c # cs) =
     (if digit_value c < base then scan_digits base (acc * int base + int (digit_value c)) cs else acc)"

definition scan_base :: "nat \<Rightarrow> string \<Rightarrow> int option" where
  "scan_base base s = (case s of [] \<Rightarrow> None | c # cs \<Rightarrow> if digit_value c < base then Some (scan_digits base 0 s) else None)"

fun scan_sign :: "(string \<Rightarrow> int option) \<Rightarrow> string \<Rightarrow> int option" where
  "scan_sign f (c # cs) = (if c = CHR ''-'' then map_option uminus (f cs) else if c = CHR ''+'' then f cs else f (c # cs))"
| "scan_sign f [] = None"

text \<open>The conversions \<^verbatim>\<open>%i\<close>, which recognises octal and hexadecimal numbers, and \<^verbatim>\<open>%ld\<close>.\<close>

definition scan_i :: "string \<Rightarrow> int option" where
  "scan_i s =
     scan_sign (\<lambda>t. case t of
        CHR ''0'' # x # u \<Rightarrow> if x = CHR ''x'' \<or> x = CHR ''X'' then scan_base 16 u else scan_base 8 t
      | _ \<Rightarrow> if t = ''0'' then Some 0 else scan_base 10 t) (dropWhile is_space s)"

definition scan_ld :: "string \<Rightarrow> int option" where
  "scan_ld s = scan_sign (scan_base 10) (dropWhile is_space s)"

section \<open>Descriptions of the options\<close>

datatype usage_line = UsageLine string string string | UsageText string

record cla =
  cla_mype :: nat
  usageChecked :: bool
  printUsage :: bool
  CLAlist :: "(string \<times> string \<times> string) list"
  CLAlistMax :: nat
  printed :: "usage_line list"

definition CmiPrintf :: "usage_line list \<Rightarrow> cla \<Rightarrow> cla" where
  "CmiPrintf ls st = st\<lparr>printed := printed st @ ls\<rparr>"

definition CmiAddCLA :: "string \<Rightarrow> string \<Rightarrow> string option \<Rightarrow> cla \<Rightarrow> cla" where
  "CmiAddCLA arg param desc st =
     (if cla_mype st \<noteq> 0 then st
      else case desc of
             None \<Rightarrow> st
           | Some d \<Rightarrow>
               if usageChecked st
               then if printUsage st then CmiPrintf [UsageLine arg param d] st else st
               else let len = length (CLAlist st) + 1
                    in st\<lparr>CLAlistMax := (if CLAlistMax st < len then 16 + 2 * len else CLAlistMax st),
                          CLAlist := CLAlist st @ [(arg, param, d)]\<rparr>)"

definition CmiPrintCLAs :: "cla \<Rightarrow> cla" where
  "CmiPrintCLAs st =
     (if cla_mype st \<noteq> 0 then st
      else CmiPrintf ([UsageText ''Converse Machine Command-line Parameters:'', UsageLine ''Option:'' ''Parameter:'' ''Description:''] @
                      map (\<lambda>(a, p, d). UsageLine a p d) (CLAlist st)) st)"

fun usage_loop :: "string option list \<Rightarrow> cla \<Rightarrow> cla result" where
  "usage_loop [] st = Inl (Fault ''argv'')"
| "usage_loop (None # as) st = Inr st"
| "usage_loop (Some a # as) st =
     usage_loop as (if a \<in> {''-?'', ''-h'', ''--help''} then CmiPrintCLAs (st\<lparr>printUsage := True\<rparr>) else st)"

definition CmiArgInit :: "string option list \<Rightarrow> cla \<Rightarrow> cla result" where
  "CmiArgInit argv st =
     rbind (usage_loop argv st) (\<lambda>st1.
       Inr ((if cla_mype st1 = 0 then st1\<lparr>CLAlist := [], CLAlistMax := 0\<rparr> else st1)\<lparr>usageChecked := True\<rparr>))"

definition CmiArgGivingUsage :: "cla \<Rightarrow> bool" where
  "CmiArgGivingUsage st \<longleftrightarrow> cla_mype st = 0 \<and> printUsage st"

definition CmiArgGroup :: "string \<Rightarrow> string option \<Rightarrow> cla \<Rightarrow> cla" where
  "CmiArgGroup parentName groupName st =
     (if CmiArgGivingUsage st
      then CmiPrintf [UsageText (case groupName of None \<Rightarrow> parentName | Some g \<Rightarrow> g)] st else st)"

section \<open>The array of arguments\<close>

fun CmiGetArgc :: "string option list \<Rightarrow> nat result" where
  "CmiGetArgc [] = Inl (Fault ''argv'')"
| "CmiGetArgc (None # as) = Inr 0"
| "CmiGetArgc (Some a # as) = rbind (CmiGetArgc as) (\<lambda>n. Inr (Suc n))"

definition CmiCopyArgs :: "string option list \<Rightarrow> string option list result" where
  "CmiCopyArgs argv = rbind (CmiGetArgc argv) (\<lambda>argc. Inr (take (argc + 1) argv))"

text \<open>\<open>i\<close> is the position of the first argument to delete.\<close>

function CmiDeleteArgs :: "nat \<Rightarrow> nat \<Rightarrow> string option list \<Rightarrow> string option list result" where
  "CmiDeleteArgs i k argv =
     (if i + k < length argv
      then let argv1 = argv[i := argv ! (i + k)]
           in if argv ! (i + k) = None then Inr argv1 else CmiDeleteArgs (i + 1) k argv1
      else Inl (Fault ''argv''))"
  by auto
termination by (relation "measure (\<lambda>(i, k, argv). length argv - i)") auto

declare CmiDeleteArgs.simps [simp del]

section \<open>Options\<close>

text \<open>The outcome of a search: the option is absent, or its value and the remaining array.\<close>

type_synonym 'v found = "('v \<times> string option list) option"

function string_loop :: "nat \<Rightarrow> string \<Rightarrow> string option list \<Rightarrow> string found result" where
  "string_loop i arg argv =
     (if i < length argv
      then case argv ! i of
             None \<Rightarrow> Inr None
           | Some a \<Rightarrow>
               if a = arg
               then if length argv \<le> i + 1 then Inl (Fault ''argv'')
                    else case argv ! (i + 1) of
                           None \<Rightarrow> Inl (Abort ''Argument not complete!'')
                         | Some v \<Rightarrow> rbind (CmiDeleteArgs i 2 argv) (\<lambda>argv1. Inr (Some (v, argv1)))
               else string_loop (i + 1) arg argv
      else Inl (Fault ''argv''))"
  by auto
termination by (relation "measure (\<lambda>(i, arg, argv). length argv - i)") auto

declare string_loop.simps [simp del]

definition CmiGetArgStringDesc :: "string option list \<Rightarrow> string \<Rightarrow> string option \<Rightarrow> cla \<Rightarrow> (string found \<times> cla) result" where
  "CmiGetArgStringDesc argv arg desc st =
     (let st1 = CmiAddCLA arg ''string'' desc st
      in rbind (string_loop 0 arg argv) (\<lambda>r. Inr (r, st1)))"

definition CmiGetArgString :: "string option list \<Rightarrow> string \<Rightarrow> cla \<Rightarrow> (string found \<times> cla) result" where
  "CmiGetArgString argv arg st = CmiGetArgStringDesc argv arg (Some []) st"

text \<open>The text of the number that an argument gives for an option, and how many arguments it takes.\<close>

definition number_text :: "string \<Rightarrow> string \<Rightarrow> string option \<Rightarrow> (string \<times> nat) option" where
  "number_text arg a rest =
     (if take (length arg) a \<noteq> arg then None
      else case drop (length arg) a of
             [] \<Rightarrow> map_option (\<lambda>v. (v, 2)) rest
           | c # cs \<Rightarrow>
               if c = CHR ''='' then Some (cs, 1)
               else if c \<in> set ''-+0123456789'' then Some (c # cs, 1) else None)"

function number_loop :: "(string \<Rightarrow> int option) \<Rightarrow> nat \<Rightarrow> string \<Rightarrow> string option list \<Rightarrow> int found result" where
  "number_loop scan i arg argv =
     (if i < length argv
      then case argv ! i of
             None \<Rightarrow> Inr None
           | Some a \<Rightarrow>
               if length argv \<le> i + 1 then Inl (Fault ''argv'')
               else case number_text arg a (argv ! (i + 1)) of
                      None \<Rightarrow> number_loop scan (i + 1) arg argv
                    | Some (opt, nDel) \<Rightarrow>
                        (case scan opt of
                           None \<Rightarrow> Inl (Abort ''Bad command-line argument'')
                         | Some n \<Rightarrow> rbind (CmiDeleteArgs i nDel argv) (\<lambda>argv1. Inr (Some (n, argv1))))
      else Inl (Fault ''argv''))"
  by auto
termination by (relation "measure (\<lambda>(scan, i, arg, argv). length argv - i)") auto

declare number_loop.simps [simp del]

definition CmiGetArgIntDesc :: "string option list \<Rightarrow> string \<Rightarrow> string option \<Rightarrow> cla \<Rightarrow> (int found \<times> cla) result" where
  "CmiGetArgIntDesc argv arg desc st =
     (let st1 = CmiAddCLA arg ''integer'' desc st
      in rbind (number_loop scan_i 0 arg argv) (\<lambda>r. Inr (r, st1)))"

definition CmiGetArgInt :: "string option list \<Rightarrow> string \<Rightarrow> cla \<Rightarrow> (int found \<times> cla) result" where
  "CmiGetArgInt argv arg st = CmiGetArgIntDesc argv arg (Some []) st"

definition CmiGetArgLongDesc :: "string option list \<Rightarrow> string \<Rightarrow> string option \<Rightarrow> cla \<Rightarrow> (int found \<times> cla) result" where
  "CmiGetArgLongDesc argv arg desc st =
     (let st1 = CmiAddCLA arg ''integer'' desc st
      in rbind (number_loop scan_ld 0 arg argv) (\<lambda>r. Inr (r, st1)))"

definition CmiGetArgLong :: "string option list \<Rightarrow> string \<Rightarrow> cla \<Rightarrow> (int found \<times> cla) result" where
  "CmiGetArgLong argv arg st = CmiGetArgLongDesc argv arg (Some []) st"

function flag_loop :: "nat \<Rightarrow> string \<Rightarrow> string option list \<Rightarrow> unit found result" where
  "flag_loop i arg argv =
     (if i < length argv
      then case argv ! i of
             None \<Rightarrow> Inr None
           | Some a \<Rightarrow>
               if a = arg then rbind (CmiDeleteArgs i 1 argv) (\<lambda>argv1. Inr (Some ((), argv1)))
               else flag_loop (i + 1) arg argv
      else Inl (Fault ''argv''))"
  by auto
termination by (relation "measure (\<lambda>(i, arg, argv). length argv - i)") auto

declare flag_loop.simps [simp del]

definition CmiGetArgFlagDesc :: "string option list \<Rightarrow> string \<Rightarrow> string option \<Rightarrow> cla \<Rightarrow> (unit found \<times> cla) result" where
  "CmiGetArgFlagDesc argv arg desc st =
     (let st1 = CmiAddCLA arg [] desc st
      in rbind (flag_loop 0 arg argv) (\<lambda>r. Inr (r, st1)))"

definition CmiGetArgFlag :: "string option list \<Rightarrow> string \<Rightarrow> cla \<Rightarrow> (unit found \<times> cla) result" where
  "CmiGetArgFlag argv arg st = CmiGetArgFlagDesc argv arg (Some []) st"

section \<open>The options as operations on the list of arguments\<close>

definition args :: "string option list \<Rightarrow> string list" where
  "args argv = map the (takeWhile (\<lambda>x. x \<noteq> None) argv)"

fun string_spec :: "string \<Rightarrow> string list \<Rightarrow> (string \<times> string list) option result" where
  "string_spec arg [] = Inr None"
| "string_spec arg (a # as) =
     (if a = arg then (case as of [] \<Rightarrow> Inl (Abort ''Argument not complete!'') | v # bs \<Rightarrow> Inr (Some (v, bs)))
      else map_sum (\<lambda>e. e) (map_option (\<lambda>(v, bs). (v, a # bs))) (string_spec arg as))"

fun number_spec :: "(string \<Rightarrow> int option) \<Rightarrow> string \<Rightarrow> string list \<Rightarrow> (int \<times> string list) option result" where
  "number_spec scan arg [] = Inr None"
| "number_spec scan arg (a # as) =
     (case number_text arg a (case as of [] \<Rightarrow> None | v # bs \<Rightarrow> Some v) of
        None \<Rightarrow> map_sum (\<lambda>e. e) (map_option (\<lambda>(v, bs). (v, a # bs))) (number_spec scan arg as)
      | Some (opt, n) \<Rightarrow>
          (case scan opt of None \<Rightarrow> Inl (Abort ''Bad command-line argument'') | Some k \<Rightarrow> Inr (Some (k, drop n (a # as)))))"

fun flag_spec :: "string \<Rightarrow> string list \<Rightarrow> (unit \<times> string list) option result" where
  "flag_spec arg [] = Inr None"
| "flag_spec arg (a # as) =
     (if a = arg then Inr (Some ((), as)) else map_sum (\<lambda>e. e) (map_option (\<lambda>(v, bs). (v, a # bs))) (flag_spec arg as))"

text \<open>An array with the arguments \<open>as\<close>, and what a search leaves behind the arguments \<open>us\<close> it has passed.\<close>

definition array :: "string list \<Rightarrow> string option list \<Rightarrow> string option list" where
  "array as junk = map Some as @ None # junk"

definition agrees :: "string list \<Rightarrow> 'v found result \<Rightarrow> ('v \<times> string list) option result \<Rightarrow> bool" where
  "agrees us r spec \<longleftrightarrow>
     (case spec of
        Inl e \<Rightarrow> r = Inl e
      | Inr None \<Rightarrow> r = Inr None
      | Inr (Some (v, bs)) \<Rightarrow> \<exists>junk. r = Inr (Some (v, array (us @ bs) junk)))"

lemma args_array [simp]: "args (array as junk) = as"
  by (induction as) (simp_all add: args_def array_def)

lemma array_args: "None \<in> set argv \<Longrightarrow> \<exists>junk. argv = array (args argv) junk"
proof (induction argv)
  case (Cons x argv)
  show ?case
  proof (cases x)
    case None
    then show ?thesis by (simp add: array_def args_def)
  next
    case (Some a)
    then show ?thesis using Cons by (auto simp: array_def args_def)
  qed
qed simp

lemma array_nth:
  "array (us @ a # as) junk ! length us = Some a"
  "array (us @ a # as) junk ! Suc (length us) = (case as of [] \<Rightarrow> None | v # bs \<Rightarrow> Some v)"
  "array us junk ! length us = None" "length us < length (array (us @ as) junk)"
  "Suc (length us) < length (array (us @ a # as) junk)"
  by (auto simp: array_def nth_append split: list.splits)

lemma delete_array:
  "0 < length ds \<Longrightarrow> \<exists>junk'. CmiDeleteArgs (length us) (length ds) (array (us @ ds @ vs) junk) = Inr (array (us @ vs) junk')"
proof (induction vs arbitrary: us ds)
  case Nil
  have n: "array (us @ ds) junk ! (length us + length ds) = None" using array_nth(3) [of "us @ ds" junk] by simp
  have "(array (us @ ds) junk)[length us := None] = array us (tl (map Some ds) @ None # junk)"
    using Nil by (cases ds) (auto simp: array_def list_update_append)
  then show ?case using n by (subst CmiDeleteArgs.simps) (auto simp: array_def)
next
  case (Cons v vs)
  obtain d ds' where ds: "ds = d # ds'" using Cons.prems by (cases ds) auto
  have n: "array (us @ ds @ v # vs) junk ! (length us + length ds) = Some v"
    using array_nth(1) [of "us @ ds" v vs junk] by simp
  have "(array (us @ ds @ v # vs) junk)[length us := Some v] = array ((us @ [v]) @ (ds' @ [v]) @ vs) junk"
    by (simp add: array_def ds list_update_append)
  moreover have "length us + length ds < length (array (us @ ds @ v # vs) junk)" by (simp add: array_def)
  ultimately have "CmiDeleteArgs (length us) (length ds) (array (us @ ds @ v # vs) junk) =
      CmiDeleteArgs (length (us @ [v])) (length (ds' @ [v])) (array ((us @ [v]) @ (ds' @ [v]) @ vs) junk)"
    using n ds by (subst CmiDeleteArgs.simps) simp
  then show ?case using Cons.IH [of "ds' @ [v]" "us @ [v]"] by simp
qed

lemma agrees_step: "agrees (us @ [a]) r spec \<Longrightarrow> agrees us r (map_sum (\<lambda>e. e) (map_option (\<lambda>(v, bs). (v, a # bs))) spec)"
  by (auto simp: agrees_def split: sum.splits option.splits)

lemma string_agrees: "agrees us (string_loop (length us) arg (array (us @ as) junk)) (string_spec arg as)"
proof (induction as arbitrary: us)
  case Nil
  then show ?case using array_nth(3,4) [of us] by (subst string_loop.simps) (simp add: agrees_def, simp add: array_def)
next
  case (Cons a as)
  show ?case
  proof (cases "a = arg")
    case False
    have "string_loop (length us) arg (array (us @ a # as) junk) = string_loop (length (us @ [a])) arg (array ((us @ [a]) @ as) junk)"
      using False array_nth(1,4) [of us] by (subst string_loop.simps) (simp add: array_def)
    then show ?thesis using agrees_step [OF Cons.IH [of "us @ [a]"]] False by simp
  next
    case True
    show ?thesis
    proof (cases as)
      case Nil
      then show ?thesis using True array_nth(1,2) [of us a as junk]
        by (subst string_loop.simps) (simp add: agrees_def array_def)
    next
      case (Cons v bs)
      obtain junk' where "CmiDeleteArgs (length us) 2 (array (us @ a # v # bs) junk) = Inr (array (us @ bs) junk')"
        using delete_array [of "[a, v]" us bs junk] by (auto simp: numeral_2_eq_2)
      then show ?thesis using True Cons array_nth(1,2) [of us a as junk]
        by (subst string_loop.simps) (simp add: agrees_def, simp add: array_def)
    qed
  qed
qed

lemma flag_agrees: "agrees us (flag_loop (length us) arg (array (us @ as) junk)) (flag_spec arg as)"
proof (induction as arbitrary: us)
  case Nil
  then show ?case using array_nth(3,4) [of us] by (subst flag_loop.simps) (simp add: agrees_def, simp add: array_def)
next
  case (Cons a as)
  show ?case
  proof (cases "a = arg")
    case False
    have "flag_loop (length us) arg (array (us @ a # as) junk) = flag_loop (length (us @ [a])) arg (array ((us @ [a]) @ as) junk)"
      using False array_nth(1,4) [of us] by (subst flag_loop.simps) (simp add: array_def)
    then show ?thesis using agrees_step [OF Cons.IH [of "us @ [a]"]] False by simp
  next
    case True
    obtain junk' where "CmiDeleteArgs (length us) 1 (array (us @ a # as) junk) = Inr (array (us @ as) junk')"
      using delete_array [of "[a]" us as junk] by auto
    then show ?thesis using True array_nth(1,4) [of us]
      by (subst flag_loop.simps) (simp add: agrees_def, simp add: array_def)
  qed
qed

lemma number_text_takes:
  "number_text arg a rest = Some (opt, n) \<Longrightarrow> n = 1 \<or> n = 2 \<and> rest \<noteq> None"
  by (auto simp: number_text_def split: if_splits list.splits)

lemma number_agrees: "agrees us (number_loop scan (length us) arg (array (us @ as) junk)) (number_spec scan arg as)"
proof (induction as arbitrary: us)
  case Nil
  then show ?case using array_nth(3,4) [of us] by (subst number_loop.simps) (simp add: agrees_def, simp add: array_def)
next
  case (Cons a as)
  let ?rest = "case as of [] \<Rightarrow> None | v # bs \<Rightarrow> Some v" and ?argv = "array (us @ a # as) junk"
  have nth: "?argv ! length us = Some a" "?argv ! Suc (length us) = ?rest" "length us < length ?argv" "Suc (length us) < length ?argv"
    by (rule array_nth)+
  show ?case
  proof (cases "number_text arg a ?rest")
    case None
    have "number_loop scan (length us) arg ?argv = number_loop scan (length (us @ [a])) arg (array ((us @ [a]) @ as) junk)"
      using None nth by (subst number_loop.simps) simp
    then show ?thesis using agrees_step [OF Cons.IH [of "us @ [a]"]] None by simp
  next
    case (Some t)
    obtain opt n where t: "t = (opt, n)" by (cases t)
    have "\<exists>ds. length ds = n \<and> 0 < length ds \<and> a # as = ds @ drop n (a # as)"
      using number_text_takes [OF Some [unfolded t]] by (intro exI [of _ "take n (a # as)"]) (auto split: list.splits)
    then obtain junk' where "CmiDeleteArgs (length us) n ?argv = Inr (array (us @ drop n (a # as)) junk')"
      using delete_array [of _ us "drop n (a # as)" junk] by metis
    then show ?thesis using Some t nth by (subst number_loop.simps) (auto simp: agrees_def split: option.splits)
  qed
qed

lemma agrees_abs:
  assumes "agrees [] r spec"
  shows "map_sum (\<lambda>e. e) (map_option (apsnd args)) r = spec" "r = Inr (Some (v, argv')) \<Longrightarrow> None \<in> set argv'"
  using assms by (auto simp: agrees_def array_def [symmetric] split: sum.splits option.splits) (auto simp: array_def)

section \<open>Property\<close>

text \<open>
  C39.  On every array that ends with a null pointer the search for an option is the search in the
  list of arguments: it returns what the list says, reports an incomplete or malformed option, removes
  exactly the arguments of the first occurrence and leaves an array that ends with a null pointer
  again.  Besides this it only records the description of the option.
\<close>

theorem options_in_argv:
  assumes "None \<in> set argv"
  shows "(\<exists>r. CmiGetArgStringDesc argv arg desc st = rbind r (\<lambda>x. Inr (x, CmiAddCLA arg ''string'' desc st)) \<and>
      map_sum (\<lambda>e. e) (map_option (apsnd args)) r = string_spec arg (args argv) \<and>
      (\<forall>v argv'. r = Inr (Some (v, argv')) \<longrightarrow> None \<in> set argv')) \<and>
    (\<exists>r. CmiGetArgIntDesc argv arg desc st = rbind r (\<lambda>x. Inr (x, CmiAddCLA arg ''integer'' desc st)) \<and>
      map_sum (\<lambda>e. e) (map_option (apsnd args)) r = number_spec scan_i arg (args argv) \<and>
      (\<forall>v argv'. r = Inr (Some (v, argv')) \<longrightarrow> None \<in> set argv')) \<and>
    (\<exists>r. CmiGetArgLongDesc argv arg desc st = rbind r (\<lambda>x. Inr (x, CmiAddCLA arg ''integer'' desc st)) \<and>
      map_sum (\<lambda>e. e) (map_option (apsnd args)) r = number_spec scan_ld arg (args argv) \<and>
      (\<forall>v argv'. r = Inr (Some (v, argv')) \<longrightarrow> None \<in> set argv')) \<and>
    (\<exists>r. CmiGetArgFlagDesc argv arg desc st = rbind r (\<lambda>x. Inr (x, CmiAddCLA arg [] desc st)) \<and>
      map_sum (\<lambda>e. e) (map_option (apsnd args)) r = flag_spec arg (args argv) \<and>
      (\<forall>v argv'. r = Inr (Some (v, argv')) \<longrightarrow> None \<in> set argv'))"
proof -
  obtain junk where j: "argv = array ([] @ args argv) junk" using array_args [OF assms] by auto
  have "agrees [] (string_loop 0 arg argv) (string_spec arg (args argv))"
    "agrees [] (number_loop scan 0 arg argv) (number_spec scan arg (args argv))"
    "agrees [] (flag_loop 0 arg argv) (flag_spec arg (args argv))" for scan
    using string_agrees [of "[]" arg "args argv" junk] number_agrees [of "[]" scan arg "args argv" junk]
      flag_agrees [of "[]" arg "args argv" junk] by (simp_all add: j [symmetric, simplified])
  note a = this [THEN agrees_abs(1)] this [THEN agrees_abs(2)]
  show ?thesis unfolding CmiGetArgStringDesc_def CmiGetArgIntDesc_def CmiGetArgLongDesc_def CmiGetArgFlagDesc_def Let_def
    by (intro conjI exI [of _ "string_loop 0 arg argv"] exI [of _ "number_loop scan_i 0 arg argv"]
        exI [of _ "number_loop scan_ld 0 arg argv"] exI [of _ "flag_loop 0 arg argv"] allI impI refl a)
qed

theorem options_in_argv_witness:
  "\<exists>r st. CmiGetArgIntDesc [Some ''prog'', Some ''-p=0x1b'', Some ''in'', None] ''-p'' None st = rbind r (\<lambda>x. Inr (x, st)) \<and>
     map_sum (\<lambda>e. e) (map_option (apsnd args)) r = Inr (Some (27, [''prog'', ''in'']))"
proof -
  let ?argv = "[Some ''prog'', Some ''-p=0x1b'', Some ''in'', None]"
  let ?st = "\<lparr>cla_mype = 1, usageChecked = False, printUsage = False, CLAlist = [], CLAlistMax = 0, printed = []\<rparr>"
  have "None \<in> set ?argv" by simp
  from options_in_argv [OF this, THEN conjunct2, THEN conjunct1, of "''-p''" None ?st] obtain r where
    "CmiGetArgIntDesc ?argv ''-p'' None ?st = rbind r (\<lambda>x. Inr (x, CmiAddCLA ''-p'' ''integer'' None ?st))"
    "map_sum (\<lambda>e. e) (map_option (apsnd args)) r = number_spec scan_i ''-p'' (args ?argv)" by blast
  moreover have "CmiAddCLA ''-p'' ''integer'' None ?st = ?st" by (simp add: CmiAddCLA_def)
  moreover have "args ?argv = [''prog'', ''-p=0x1b'', ''in'']" by (simp add: args_def)
  moreover have "number_spec scan_i ''-p'' [''prog'', ''-p=0x1b'', ''in''] = Inr (Some (27, [''prog'', ''in'']))" by code_simp
  ultimately show ?thesis by metis
qed

end
