(* ===== verification/Csd.thy ===== *)
theory Csd
  imports CqsCorrect CkQ Quiescence Handlers Args
begin

text \<open>
  The scheduler of \<^verbatim>\<open>conv-core/convcore.c\<close>: the choice of the next message among the queues of a
  processor, the call of its handler, the transitions between busy and idle, and the four
  scheduling loops.  The configuration is the one for shared memory with a communication thread,
  which has the queues of the node; the queues for grids and objects and the accelerators are switched
  off in it.

  The state extends that of the conditions and timers, so that callbacks and message handlers, which
  are code of the application and parameters of the model, act on all of it.  \<open>recv\<close> and
  \<open>NodeRecv\<close> are the producer-consumer queues into which the communication thread puts messages,
  as the lists of messages they hold.  \<open>nodeLock\<close> says whether another processor of the node holds
  the lock of the node's queue when it is tried.  One call of a routine is one step: other processors
  of the node change the shared queues between the calls only.
\<close>

section \<open>State\<close>

record csd = ccd +
  CmiLocalQueue :: ckq
  CsdSchedQueue :: queue
  CsdNodeQueue :: queue
  nodeLock :: bool
  recv :: "ptr list"
  NodeRecv :: "ptr list"
  hasMessages :: bool
  CsdLocalCounter :: u32
  CsdLocalMax :: u32
  cQdState :: qd_state
  CsdStopFlag :: u32
  cmiMyPeIdle :: bool
  CharmLibInterOperate :: bool
  interopExitFlag :: bool
  htab :: handlers
  msg_hdl :: "ptr \<Rightarrow> u16"

type_synonym 'w csd_runner = "ccd_callback \<Rightarrow> time \<Rightarrow> 'w csd_scheme \<Rightarrow> 'w csd_scheme"
type_synonym 'w dispatch = "ptr \<Rightarrow> ptr \<Rightarrow> ptr \<Rightarrow> 'w csd_scheme \<Rightarrow> 'w csd_scheme result"

section \<open>Creation and sends to the processor itself\<close>

definition CSD_LOCAL_MAX_DEFAULT :: u32 where "CSD_LOCAL_MAX_DEFAULT = 0"

text \<open>The processor of rank 0 creates the queue of the node.\<close>

definition CsdInit :: "string option list \<Rightarrow> nat \<Rightarrow> cla \<Rightarrow> 'w csd_scheme \<Rightarrow> (string option list \<times> cla \<times> 'w csd_scheme) result" where
  "CsdInit argv myrank st s =
     rbind (CmiGetArgIntDesc argv ''+csdLocalMax''
              (Some ''Set the max number of local messages to process before forcing a check for remote messages.'') st)
       (\<lambda>(r, st1).
          let (localMax, argv1) = (case r of None \<Rightarrow> (CSD_LOCAL_MAX_DEFAULT, argv) | Some (v, argv1) \<Rightarrow> (word_of_int v, argv1));
              s1 = s\<lparr>CsdLocalMax := localMax, CsdLocalCounter := localMax, CsdSchedQueue := CqsCreate, CsdStopFlag := 0\<rparr>
          in Inr (argv1, st1, if myrank = 0 then s1\<lparr>nodeLock := False, CsdNodeQueue := CqsCreate\<rparr> else s1))"

definition CsdEnqueueGeneral :: "int \<Rightarrow> ptr \<Rightarrow> int \<Rightarrow> u32 \<Rightarrow> u32 list \<Rightarrow> 'w csd_scheme \<Rightarrow> 'w csd_scheme result option" where
  "CsdEnqueueGeneral endian x strategy i p s =
     map_option (\<lambda>r. rbind r (\<lambda>q. Inr (s\<lparr>CsdSchedQueue := q\<rparr>))) (CqsEnqueueGeneral endian (CsdSchedQueue s) x strategy i p)"

definition CsdEnqueueFifo :: "ptr \<Rightarrow> 'w csd_scheme \<Rightarrow> 'w csd_scheme" where
  "CsdEnqueueFifo x s = s\<lparr>CsdSchedQueue := CqsEnqueueFifo (CsdSchedQueue s) x\<rparr>"

definition CsdEnqueueLifo :: "ptr \<Rightarrow> 'w csd_scheme \<Rightarrow> 'w csd_scheme" where
  "CsdEnqueueLifo x s = s\<lparr>CsdSchedQueue := CqsEnqueueLifo (CsdSchedQueue s) x\<rparr>"

definition CsdEnqueue :: "ptr \<Rightarrow> 'w csd_scheme \<Rightarrow> 'w csd_scheme" where
  "CsdEnqueue x s = s\<lparr>CsdSchedQueue := CqsEnqueueFifo (CsdSchedQueue s) x\<rparr>"

definition CsdEmpty :: "'w csd_scheme \<Rightarrow> bool" where
  "CsdEmpty s \<longleftrightarrow> CqsEmpty (CsdSchedQueue s)"

definition CsdLength :: "'w csd_scheme \<Rightarrow> u32" where
  "CsdLength s = CqsLength (CsdSchedQueue s)"

text \<open>The same for the queue of the node, which waits for its lock.\<close>

definition CsdNodeEnqueueGeneral :: "int \<Rightarrow> ptr \<Rightarrow> int \<Rightarrow> u32 \<Rightarrow> u32 list \<Rightarrow> 'w csd_scheme \<Rightarrow> 'w csd_scheme result option" where
  "CsdNodeEnqueueGeneral endian x strategy i p s =
     map_option (\<lambda>r. rbind r (\<lambda>q. Inr (s\<lparr>CsdNodeQueue := q\<rparr>))) (CqsEnqueueGeneral endian (CsdNodeQueue s) x strategy i p)"

definition CsdNodeEnqueueFifo :: "ptr \<Rightarrow> 'w csd_scheme \<Rightarrow> 'w csd_scheme" where
  "CsdNodeEnqueueFifo x s = s\<lparr>CsdNodeQueue := CqsEnqueueFifo (CsdNodeQueue s) x\<rparr>"

definition CsdNodeEnqueue :: "ptr \<Rightarrow> 'w csd_scheme \<Rightarrow> 'w csd_scheme" where
  "CsdNodeEnqueue x s = s\<lparr>CsdNodeQueue := CqsEnqueueFifo (CsdNodeQueue s) x\<rparr>"

section \<open>Handlers of messages\<close>

definition CmiGetHandler :: "ptr \<Rightarrow> 'w csd_scheme \<Rightarrow> u16" where
  "CmiGetHandler msg s = msg_hdl s msg"

definition CmiSetHandler :: "ptr \<Rightarrow> int \<Rightarrow> 'w csd_scheme \<Rightarrow> 'w csd_scheme" where
  "CmiSetHandler msg v s = s\<lparr>msg_hdl := (msg_hdl s)(msg := word_of_int v)\<rparr>"

text \<open>\<open>call f msg u s\<close> is the state after the application function \<open>f\<close> was called with \<open>msg\<close> and \<open>u\<close>.\<close>

definition CmiHandleMessage :: "'w dispatch \<Rightarrow> ptr \<Rightarrow> 'w csd_scheme \<Rightarrow> 'w csd_scheme result" where
  "CmiHandleMessage call msg s =
     rbind (CmiHandlerToInfo (htab s) (unat (CmiGetHandler msg s)))
       (\<lambda>h. case hdlr h of
              NullHandler \<Rightarrow> Inl (Fault ''null handler'')
            | ZeroHandler \<Rightarrow> Inl (Abort ''Converse zero handler executed-- was a message corrupted?'')
            | Handler f \<Rightarrow> call f msg (userPtr h) s)"

section \<open>The next message\<close>

definition CmiGetNonLocal :: "'w csd_scheme \<Rightarrow> ptr \<times> 'w csd_scheme" where
  "CmiGetNonLocal s =
     (case recv s of
        [] \<Rightarrow> (NULL, s\<lparr>hasMessages := False\<rparr>)
      | m # ms \<Rightarrow> (m, s\<lparr>hasMessages := False, recv := ms\<rparr>))"

definition CmiGetNonLocalNodeQ :: "'w csd_scheme \<Rightarrow> ptr \<times> 'w csd_scheme" where
  "CmiGetNonLocalNodeQ s =
     (case NodeRecv s of
        [] \<Rightarrow> (NULL, s\<lparr>hasMessages := False\<rparr>)
      | m # ms \<Rightarrow> (m, s\<lparr>hasMessages := False, NodeRecv := ms\<rparr>))"

definition deq_local :: "'w csd_scheme \<Rightarrow> ptr \<times> 'w csd_scheme" where
  "deq_local s = (let (msg, q) = CdsFifo_Dequeue (CmiLocalQueue s) in (msg, s\<lparr>CmiLocalQueue := q\<rparr>))"

definition deq_sched :: "'w csd_scheme \<Rightarrow> ptr \<times> 'w csd_scheme" where
  "deq_sched s = (let (msg, q) = CqsDequeue (CsdSchedQueue s) in (msg, s\<lparr>CsdSchedQueue := q\<rparr>))"

definition deq_node :: "'w csd_scheme \<Rightarrow> ptr \<times> 'w csd_scheme" where
  "deq_node s = (let (msg, q) = CqsDequeue (CsdNodeQueue s) in (msg, s\<lparr>CsdNodeQueue := q\<rparr>))"

definition count_processed :: "'w csd_scheme \<Rightarrow> 'w csd_scheme" where
  "count_processed s = s\<lparr>cQdState := CQdProcess (cQdState s) 1\<rparr>"

text \<open>The end of the routine: the node's queue, then the scheduler queue if there is no local limit.\<close>

definition next_sched :: "'w csd_scheme \<Rightarrow> ptr \<times> 'w csd_scheme" where
  "next_sched s = (if CsdLocalMax s = 0 then deq_sched s else (NULL, s))"

definition next_node :: "'w csd_scheme \<Rightarrow> ptr \<times> 'w csd_scheme" where
  "next_node s =
     (if \<not> CqsEmpty (CsdNodeQueue s) \<and>
         CqsPrioGT (CqsGetPriority (CsdSchedQueue s)) (CqsGetPriority (CsdNodeQueue s)) \<and> \<not> nodeLock s
      then let (msg, s1) = deq_node s in if msg \<noteq> NULL then (msg, s1) else next_sched s1
      else next_sched s)"

text \<open>The part after the first condition: the messages from outside the processor.\<close>

definition next_remote :: "'w csd_scheme \<Rightarrow> ptr \<times> 'w csd_scheme" where
  "next_remote s0 =
     (let (m1, s1) = CmiGetNonLocal (s0\<lparr>CsdLocalCounter := CsdLocalMax s0\<rparr>)
      in if m1 \<noteq> NULL then (m1, count_processed s1)
         else let (m2, s2) = deq_local s1
         in if m2 \<noteq> NULL then (m2, count_processed s2)
         else let (m3, s3) = CmiGetNonLocalNodeQ s2
         in if m3 \<noteq> NULL then (m3, s3) else next_node s3)"

definition CsdNextMessage :: "'w csd_scheme \<Rightarrow> ptr \<times> 'w csd_scheme" where
  "CsdNextMessage s =
     (let s0 = s\<lparr>CsdLocalCounter := CsdLocalCounter s - 1\<rparr>
      in if 0 < sint (CsdLocalCounter s) then
           (let (m1, s1) = deq_local s0
            in if m1 \<noteq> NULL then (m1, count_processed s1)
               else let (m2, s2) = deq_sched s1
               in if m2 \<noteq> NULL then (m2, s2) else next_remote s2)
         else next_remote s0)"

text \<open>It waits for the lock, so that the other processor has released it when it dequeues.\<close>

definition CsdNextLocalNodeMessage :: "'w csd_scheme \<Rightarrow> ptr \<times> 'w csd_scheme" where
  "CsdNextLocalNodeMessage s = (if \<not> CqsEmpty (CsdNodeQueue s) then deq_node s else (NULL, s))"

section \<open>Busy and idle\<close>

definition ccd_result :: "'a option \<Rightarrow> 'a result" where
  "ccd_result x = (case x of None \<Rightarrow> Inl (Fault ''callback'') | Some s \<Rightarrow> Inr s)"

definition CsdPeriodic :: "'w csd_runner \<Rightarrow> 'w csd_scheme \<Rightarrow> 'w csd_scheme result" where
  "CsdPeriodic run s =
     (let s1 = s\<lparr>numchecks := numchecks s - 1\<rparr>
      in if sint (numchecks s) \<le> 0 then ccd_result (CcdCallBacks run s1) else Inr s1)"

definition CsdBeginIdle :: "'w csd_runner \<Rightarrow> 'w csd_scheme \<Rightarrow> 'w csd_scheme result" where
  "CsdBeginIdle run s =
     rbind (ccd_result (CcdCallBacks run s))
       (\<lambda>s1. ccd_result (CcdRaiseCondition run CcdPROCESSOR_BEGIN_IDLE (s1\<lparr>cmiMyPeIdle := True\<rparr>)))"

definition CsdStillIdle :: "'w csd_runner \<Rightarrow> 'w csd_scheme \<Rightarrow> 'w csd_scheme result" where
  "CsdStillIdle run s = ccd_result (CcdRaiseCondition run CcdPROCESSOR_STILL_IDLE s)"

definition CcdPROCESSOR_BEGIN_BUSY :: nat where "CcdPROCESSOR_BEGIN_BUSY = 0"

definition CsdEndIdle :: "'w csd_runner \<Rightarrow> 'w csd_scheme \<Rightarrow> 'w csd_scheme result" where
  "CsdEndIdle run s = ccd_result (CcdRaiseCondition run CcdPROCESSOR_BEGIN_BUSY (s\<lparr>cmiMyPeIdle := False\<rparr>))"

definition CsdExitScheduler :: "'w csd_scheme \<Rightarrow> 'w csd_scheme" where
  "CsdExitScheduler s = s\<lparr>CsdStopFlag := CsdStopFlag s + 1\<rparr>"

section \<open>The loops\<close>

text \<open>
  One turn of a loop yields the local variable \<open>isIdle\<close> and the state, or \<open>Break\<close> with the
  state when the loop is left.  A loop that never ends is \<open>None\<close>.
\<close>

datatype 's turn = Break 's | Go bool 's

definition SCHEDULE_MESSAGE :: "'w dispatch \<Rightarrow> u32 \<Rightarrow> ptr \<Rightarrow> 'w csd_scheme \<Rightarrow> 'w csd_scheme turn result" where
  "SCHEDULE_MESSAGE call cycle msg s =
     rbind (CmiHandleMessage call msg s)
       (\<lambda>s1. Inr (if CsdStopFlag s1 \<noteq> cycle then Break s1 else Go False s1))"

definition SCHEDULE_IDLE :: "'w csd_runner \<Rightarrow> u32 \<Rightarrow> bool \<Rightarrow> 'w csd_scheme \<Rightarrow> 'w csd_scheme turn result" where
  "SCHEDULE_IDLE run cycle isIdle s =
     rbind (if \<not> isIdle then CsdBeginIdle run s else CsdStillIdle run s)
       (\<lambda>s1. if CsdStopFlag s1 \<noteq> cycle then rbind (CsdEndIdle run s1) (\<lambda>s2. Inr (Break s2))
             else Inr (Go True s1))"

text \<open>\<^verbatim>\<open>if (isIdle) {isIdle=0;CsdEndIdle();}\<close>\<close>

definition end_idle :: "'w csd_runner \<Rightarrow> bool \<Rightarrow> 'w csd_scheme \<Rightarrow> 'w csd_scheme result" where
  "end_idle run isIdle s = (if isIdle then CsdEndIdle run s else Inr s)"

definition schedule_turn :: "'w csd_runner \<Rightarrow> 'w dispatch \<Rightarrow> u32 \<Rightarrow> bool \<Rightarrow> 'w csd_scheme \<Rightarrow> (bool \<times> 'w csd_scheme turn) result" where
  "schedule_turn run call cycle isIdle s =
     (let (msg, s1) = CsdNextMessage s
      in if msg \<noteq> NULL then
           rbind (end_idle run isIdle s1) (\<lambda>s2. rbind (SCHEDULE_MESSAGE call cycle msg s2) (\<lambda>r. Inr (True, r)))
         else rbind (SCHEDULE_IDLE run cycle isIdle s1) (\<lambda>r. Inr (False, r)))"

partial_function (option) forever_loop ::
    "'w csd_runner \<Rightarrow> 'w dispatch \<Rightarrow> u32 \<Rightarrow> bool \<Rightarrow> 'w csd_scheme \<Rightarrow> 'w csd_scheme result option" where
  "forever_loop run call cycle isIdle s =
     (if CharmLibInterOperate s \<and> interopExitFlag s then Some (Inr (s\<lparr>interopExitFlag := False\<rparr>))
      else case schedule_turn run call cycle isIdle s of
             Inl e \<Rightarrow> Some (Inl e)
           | Inr (_, Break s1) \<Rightarrow> Some (Inr s1)
           | Inr (_, Go idle s1) \<Rightarrow>
               (case CsdPeriodic run s1 of
                  Inl e \<Rightarrow> Some (Inl e)
                | Inr s2 \<Rightarrow> forever_loop run call cycle idle s2))"

definition CsdScheduleForever :: "'w csd_runner \<Rightarrow> 'w dispatch \<Rightarrow> 'w csd_scheme \<Rightarrow> 'w csd_scheme result option" where
  "CsdScheduleForever run call s = forever_loop run call (CsdStopFlag s) False s"

partial_function (option) count_loop ::
    "'w csd_runner \<Rightarrow> 'w dispatch \<Rightarrow> u32 \<Rightarrow> u32 \<Rightarrow> bool \<Rightarrow> 'w csd_scheme \<Rightarrow> (u32 \<times> 'w csd_scheme) result option" where
  "count_loop run call cycle maxmsgs isIdle s =
     (case schedule_turn run call cycle isIdle s of
        Inl e \<Rightarrow> Some (Inl e)
      | Inr (handled, turn) \<Rightarrow>
          let left = (if handled then maxmsgs - 1 else maxmsgs)
          in case turn of
               Break s1 \<Rightarrow> Some (Inr (left, s1))
             | Go idle s1 \<Rightarrow>
                 if handled \<and> left = 0 then Some (Inr (left, s1))
                 else (case CsdPeriodic run s1 of
                         Inl e \<Rightarrow> Some (Inl e)
                       | Inr s2 \<Rightarrow> count_loop run call cycle left idle s2))"

definition CsdScheduleCount :: "'w csd_runner \<Rightarrow> 'w dispatch \<Rightarrow> u32 \<Rightarrow> 'w csd_scheme \<Rightarrow> (u32 \<times> 'w csd_scheme) result option" where
  "CsdScheduleCount run call maxmsgs s = count_loop run call (CsdStopFlag s) maxmsgs False s"

partial_function (option) poll_loop ::
    "'w csd_runner \<Rightarrow> 'w dispatch \<Rightarrow> u32 \<Rightarrow> 'w csd_scheme \<Rightarrow> 'w csd_scheme result option" where
  "poll_loop run call cycle s =
     (case CsdPeriodic run s of
        Inl e \<Rightarrow> Some (Inl e)
      | Inr s0 \<Rightarrow>
          (let (msg, s1) = CsdNextMessage s0
           in if msg = NULL then Some (Inr s1)
              else case SCHEDULE_MESSAGE call cycle msg s1 of
                     Inl e \<Rightarrow> Some (Inl e)
                   | Inr (Break s2) \<Rightarrow> Some (Inr s2)
                   | Inr (Go _ s2) \<Rightarrow> poll_loop run call cycle s2))"

definition CsdSchedulePoll :: "'w csd_runner \<Rightarrow> 'w dispatch \<Rightarrow> 'w csd_scheme \<Rightarrow> 'w csd_scheme result option" where
  "CsdSchedulePoll run call s = poll_loop run call (CsdStopFlag s) s"

partial_function (option) node_poll_loop ::
    "'w dispatch \<Rightarrow> u32 \<Rightarrow> 'w csd_scheme \<Rightarrow> 'w csd_scheme result option" where
  "node_poll_loop call cycle s =
     (let (msg, s1) = CsdNextLocalNodeMessage s
      in if msg = NULL then Some (Inr s1)
         else case SCHEDULE_MESSAGE call cycle msg s1 of
                Inl e \<Rightarrow> Some (Inl e)
              | Inr (Break s2) \<Rightarrow> Some (Inr s2)
              | Inr (Go _ s2) \<Rightarrow> node_poll_loop call cycle s2)"

definition CsdScheduleNodePoll :: "'w dispatch \<Rightarrow> 'w csd_scheme \<Rightarrow> 'w csd_scheme result option" where
  "CsdScheduleNodePoll call s = node_poll_loop call (CsdStopFlag s) s"

text \<open>The general entry; its results other than that of the counting loop are 0.\<close>

definition zero_left :: "'s result option \<Rightarrow> (u32 \<times> 's) result option" where
  "zero_left x = map_option (\<lambda>r. rbind r (\<lambda>s. Inr (0, s))) x"

definition CsdScheduler :: "'w csd_runner \<Rightarrow> 'w dispatch \<Rightarrow> u32 \<Rightarrow> 'w csd_scheme \<Rightarrow> (u32 \<times> 'w csd_scheme) result option" where
  "CsdScheduler run call maxmsgs s =
     (if sint maxmsgs < 0 then zero_left (CsdScheduleForever run call s)
      else if maxmsgs = 0 then zero_left (CsdSchedulePoll run call s)
      else CsdScheduleCount run call maxmsgs s)"

definition CmiDeliverMsgs :: "'w csd_runner \<Rightarrow> 'w dispatch \<Rightarrow> u32 \<Rightarrow> 'w csd_scheme \<Rightarrow> (u32 \<times> 'w csd_scheme) result option" where
  "CmiDeliverMsgs run call maxmsgs s = CsdScheduler run call maxmsgs s"

text \<open>The wait for a message with a given handler; others go to the end of the local queue.\<close>

partial_function (option) specific_loop ::
    "'w csd_runner \<Rightarrow> 'w dispatch \<Rightarrow> int \<Rightarrow> bool \<Rightarrow> 'w csd_scheme \<Rightarrow> 'w csd_scheme result option" where
  "specific_loop run call handler side s =
     (case CsdPeriodic run s of
        Inl e \<Rightarrow> Some (Inl e)
      | Inr s0 \<Rightarrow>
          (let (msg, s1) = (if \<not> side then CmiGetNonLocal s0 else deq_local s0)
           in if msg = NULL then specific_loop run call handler (\<not> side) s1
              else if int (unat (CmiGetHandler msg s1)) = handler
                then Some (CmiHandleMessage call msg (count_processed s1))
              else specific_loop run call handler (\<not> side)
                     (s1\<lparr>CmiLocalQueue := CdsFifo_Enqueue (CmiLocalQueue s1) msg\<rparr>)))"

definition CmiDeliverSpecificMsg :: "'w csd_runner \<Rightarrow> 'w dispatch \<Rightarrow> int \<Rightarrow> 'w csd_scheme \<Rightarrow> 'w csd_scheme result option" where
  "CmiDeliverSpecificMsg run call handler s = specific_loop run call handler False s"

end
