(* ===== verification/CsdFair.thy ===== *)
theory CsdFair
  imports Csd "HOL-Library.Sublist"
begin

text \<open>
  What the choice of the next message guarantees: \<open>pending\<close> collects the messages of all queues a
  processor serves, and the lemmas follow a call of \<^verbatim>\<open>CsdNextMessage\<close> through its branches.
\<close>

lemma rbind_Inr: "rbind x f = Inr y \<longleftrightarrow> (\<exists>v. x = Inr v \<and> f v = Inr y)"
  by (cases x) auto

section \<open>Pending messages\<close>

definition pending :: "'w csd_scheme \<Rightarrow> ptr multiset" where
  "pending s = mset (ckq_list (CmiLocalQueue s)) + mset (queue_msgs (CsdSchedQueue s)) +
     mset (queue_msgs (CsdNodeQueue s)) + mset (recv s) + mset (NodeRecv s)"

definition csd_wf :: "'w csd_scheme \<Rightarrow> bool" where
  "csd_wf s \<longleftrightarrow> ckq_ok (CmiLocalQueue s) \<and> queue_wf (CsdSchedQueue s) \<and> queue_wf (CsdNodeQueue s) \<and>
     NULL \<notin># pending s"

definition msg_taken :: "'w csd_scheme \<Rightarrow> ptr \<Rightarrow> 'w csd_scheme \<Rightarrow> bool" where
  "msg_taken s msg s' \<longleftrightarrow> csd_wf s' \<and> pending s = (if msg = NULL then {#} else {#msg#}) + pending s'"

lemma msg_taken_wf: "msg_taken s msg s' \<Longrightarrow> csd_wf s'"
  by (simp add: msg_taken_def)

lemma msg_taken_none: "msg_taken s NULL s1 \<Longrightarrow> msg_taken s1 msg s2 \<Longrightarrow> msg_taken s msg s2"
  by (simp add: msg_taken_def)

lemma msg_taken_counters:
  "msg_taken s msg (count_processed s') \<longleftrightarrow> msg_taken s msg s'"
  "msg_taken (s\<lparr>CsdLocalCounter := c\<rparr>) msg s' \<longleftrightarrow> msg_taken s msg s'"
  by (simp_all add: msg_taken_def csd_wf_def pending_def count_processed_def)

lemma count_processed_sel [simp]:
  "recv (count_processed s) = recv s" "CsdLocalMax (count_processed s) = CsdLocalMax s"
  "CsdLocalCounter (count_processed s) = CsdLocalCounter s"
  by (simp_all add: count_processed_def)

lemma csd_wf_counter [simp]: "csd_wf (s\<lparr>CsdLocalCounter := c\<rparr>) \<longleftrightarrow> csd_wf s"
  by (simp add: csd_wf_def pending_def)

lemma deq_queue:
  assumes wf: "queue_wf q" and null: "NULL \<notin> set (queue_msgs q)" and d: "CqsDequeue q = (m, q')"
  shows "queue_wf q'" "m = NULL \<longleftrightarrow> queue_msgs q = []" "m = NULL \<Longrightarrow> q' = q"
    "m \<noteq> NULL \<Longrightarrow> mset (queue_msgs q) = add_mset m (mset (queue_msgs q'))"
proof -
  have *: "queue_wf q' \<and> (m = NULL \<longleftrightarrow> queue_msgs q = []) \<and> (m = NULL \<longrightarrow> q' = q) \<and>
     (m \<noteq> NULL \<longrightarrow> mset (queue_msgs q) = add_mset m (mset (queue_msgs q')))"
  proof (cases "queue_entries q = []")
    case True
    then have "qlength q = 0" using wf by (simp add: queue_wf_def)
    then show ?thesis using True wf d by (auto simp: CqsDequeue_def queue_msgs_def)
  next
    case False
    obtain x c k q'' where x: "CqsDequeue q = (x, q'')" "queue_wf q''"
      "mset (queue_entries q) = add_mset (c, k, x) (mset (queue_entries q''))"
      by (rule dequeue_ok [OF wf False]) blast
    then have ms: "mset (queue_msgs q) = add_mset m (mset (queue_msgs q'))" using d by (simp add: queue_msgs_def)
    then have "m \<in> set (queue_msgs q)" by (metis union_single_eq_member set_mset_mset)
    then show ?thesis using ms x d null by (auto simp: queue_msgs_def)
  qed
  show "queue_wf q'" "m = NULL \<longleftrightarrow> queue_msgs q = []" "m = NULL \<Longrightarrow> q' = q"
    "m \<noteq> NULL \<Longrightarrow> mset (queue_msgs q) = add_mset m (mset (queue_msgs q'))"
    using * by simp_all
qed

lemma csd_wfD:
  assumes "csd_wf s"
  shows "ckq_ok (CmiLocalQueue s)" "queue_wf (CsdSchedQueue s)" "queue_wf (CsdNodeQueue s)"
    "NULL \<notin> set (ckq_list (CmiLocalQueue s))" "NULL \<notin> set (queue_msgs (CsdSchedQueue s))"
    "NULL \<notin> set (queue_msgs (CsdNodeQueue s))" "NULL \<notin> set (recv s)" "NULL \<notin> set (NodeRecv s)"
  using assms by (simp_all add: csd_wf_def pending_def)

section \<open>The single queues\<close>

lemma deq_local_effect:
  assumes wf: "csd_wf s" and d: "deq_local s = (m, s')"
  shows "msg_taken s m s'" "m = NULL \<longleftrightarrow> ckq_list (CmiLocalQueue s) = []"
    "\<exists>q. s' = s\<lparr>CmiLocalQueue := q\<rparr> \<and> ckq_list q = tl (ckq_list (CmiLocalQueue s))"
proof -
  obtain q where q: "CdsFifo_Dequeue (CmiLocalQueue s) = (m, q)" "s' = s\<lparr>CmiLocalQueue := q\<rparr>"
    using d by (auto simp: deq_local_def split: prod.splits)
  note W = csd_wfD [OF wf]
  have q': "ckq_ok q" "ckq_list q = tl (ckq_list (CmiLocalQueue s))"
    "m = (case ckq_list (CmiLocalQueue s) of [] \<Rightarrow> NULL | x # _ \<Rightarrow> x)"
    using cds.deq [OF W(1)] q(1) by simp_all
  show n: "m = NULL \<longleftrightarrow> ckq_list (CmiLocalQueue s) = []" using q'(3) W(4) by (auto split: list.splits)
  show "\<exists>q. s' = s\<lparr>CmiLocalQueue := q\<rparr> \<and> ckq_list q = tl (ckq_list (CmiLocalQueue s))" using q(2) q'(2) by blast
  show "msg_taken s m s'"
    using q(2) q' wf by (cases "ckq_list (CmiLocalQueue s)") (auto simp: msg_taken_def csd_wf_def pending_def)
qed

lemma deq_sched_effect:
  assumes wf: "csd_wf s" and d: "deq_sched s = (m, s')"
  shows "msg_taken s m s'" "m = NULL \<longleftrightarrow> queue_msgs (CsdSchedQueue s) = []"
    "\<exists>q. s' = s\<lparr>CsdSchedQueue := q\<rparr> \<and> (m = NULL \<longrightarrow> q = CsdSchedQueue s)"
proof -
  obtain q where q: "CqsDequeue (CsdSchedQueue s) = (m, q)" "s' = s\<lparr>CsdSchedQueue := q\<rparr>"
    using d by (auto simp: deq_sched_def split: prod.splits)
  note W = csd_wfD [OF wf] and D = deq_queue [OF csd_wfD(2,5) [OF wf] q(1)]
  show "m = NULL \<longleftrightarrow> queue_msgs (CsdSchedQueue s) = []" by (rule D(2))
  show "\<exists>q. s' = s\<lparr>CsdSchedQueue := q\<rparr> \<and> (m = NULL \<longrightarrow> q = CsdSchedQueue s)" using q(2) D(3) by blast
  show "msg_taken s m s'"
    using q(2) D(1,3,4) wf by (cases "m = NULL") (auto simp: msg_taken_def csd_wf_def pending_def)
qed

lemma deq_node_effect:
  assumes wf: "csd_wf s" and d: "deq_node s = (m, s')"
  shows "msg_taken s m s'" "m = NULL \<longleftrightarrow> queue_msgs (CsdNodeQueue s) = []" "\<exists>q. s' = s\<lparr>CsdNodeQueue := q\<rparr>"
proof -
  obtain q where q: "CqsDequeue (CsdNodeQueue s) = (m, q)" "s' = s\<lparr>CsdNodeQueue := q\<rparr>"
    using d by (auto simp: deq_node_def split: prod.splits)
  note D = deq_queue [OF csd_wfD(3,6) [OF wf] q(1)]
  show "m = NULL \<longleftrightarrow> queue_msgs (CsdNodeQueue s) = []" by (rule D(2))
  show "\<exists>q. s' = s\<lparr>CsdNodeQueue := q\<rparr>" using q(2) by blast
  show "msg_taken s m s'"
    using q(2) D(1,3,4) wf by (cases "m = NULL") (auto simp: msg_taken_def csd_wf_def pending_def)
qed

lemma get_nonlocal_effect:
  assumes "csd_wf s" "CmiGetNonLocal s = (m, s')"
  shows "msg_taken s m s'" "m = NULL \<longleftrightarrow> recv s = []" "recv s = m # recv s' \<or> recv s = [] \<and> recv s' = []"
    "\<exists>ms. s' = s\<lparr>hasMessages := False, recv := ms\<rparr>"
  using assms csd_wfD(7) [OF assms(1)]
  by (auto simp: CmiGetNonLocal_def msg_taken_def csd_wf_def pending_def split: list.splits intro: exI [of _ "recv s"])

lemma get_nonlocal_node_effect:
  assumes "csd_wf s" "CmiGetNonLocalNodeQ s = (m, s')"
  shows "msg_taken s m s'" "m = NULL \<longleftrightarrow> NodeRecv s = []"
    "\<exists>ms. s' = s\<lparr>hasMessages := False, NodeRecv := ms\<rparr>"
  using assms csd_wfD(8) [OF assms(1)]
  by (auto simp: CmiGetNonLocalNodeQ_def msg_taken_def csd_wf_def pending_def split: list.splits intro: exI [of _ "NodeRecv s"])

section \<open>The choice among the queues\<close>

definition node_skipped :: "'w csd_scheme \<Rightarrow> bool" where
  "node_skipped s \<longleftrightarrow> queue_msgs (CsdNodeQueue s) = [] \<or> nodeLock s \<or>
     \<not> CqsPrioGT (CqsGetPriority (CsdSchedQueue s)) (CqsGetPriority (CsdNodeQueue s))"

text \<open>The parts of the state in which the choice leaves the limit, the counter and the network queue alone.\<close>

definition kept :: "'w csd_scheme \<Rightarrow> 'w csd_scheme \<Rightarrow> bool" where
  "kept s s' \<longleftrightarrow> recv s' = recv s \<and> CsdLocalMax s' = CsdLocalMax s \<and> CsdLocalCounter s' = CsdLocalCounter s"

lemma next_sched_effect:
  assumes wf: "csd_wf s" and d: "next_sched s = (m, s')"
  shows "msg_taken s m s'" "kept s s'" "m = NULL \<Longrightarrow> CsdLocalMax s = 0 \<Longrightarrow> queue_msgs (CsdSchedQueue s) = []"
proof -
  show "msg_taken s m s'" "kept s s'" "m = NULL \<Longrightarrow> CsdLocalMax s = 0 \<Longrightarrow> queue_msgs (CsdSchedQueue s) = []"
    using d deq_sched_effect [OF wf, of m s'] wf
    by (auto simp: next_sched_def kept_def msg_taken_def split: if_splits)
qed

lemma queue_empty_msgs: "queue_wf q \<Longrightarrow> CqsEmpty q \<longleftrightarrow> queue_msgs q = []"
  using queue_length [of q] by (auto simp: CqsEmpty_def queue_msgs_def simp flip: unat_eq_0)

lemma next_node_effect:
  assumes wf: "csd_wf s" and d: "next_node s = (m, s')"
  shows "msg_taken s m s'" "kept s s'" "m = NULL \<Longrightarrow> node_skipped s"
    "m = NULL \<Longrightarrow> CsdLocalMax s = 0 \<Longrightarrow> queue_msgs (CsdSchedQueue s) = []"
proof -
  have e: "CqsEmpty (CsdNodeQueue s) \<longleftrightarrow> queue_msgs (CsdNodeQueue s) = []"
    using queue_empty_msgs csd_wfD(3) [OF wf] by blast
  have "msg_taken s m s' \<and> kept s s' \<and> (m = NULL \<longrightarrow> node_skipped s) \<and>
     (m = NULL \<longrightarrow> CsdLocalMax s = 0 \<longrightarrow> queue_msgs (CsdSchedQueue s) = [])"
  proof (cases "node_skipped s")
    case True
    then have "next_sched s = (m, s')" using d e by (auto simp: next_node_def node_skipped_def)
    then show ?thesis using next_sched_effect [OF wf] True by blast
  next
    case False
    obtain m1 s1 where n: "deq_node s = (m1, s1)" by force
    note N = deq_node_effect [OF wf n]
    have "m1 \<noteq> NULL" using N(2) False by (simp add: node_skipped_def)
    then have "m = m1" "s' = s1" using d n False e by (auto simp: next_node_def node_skipped_def)
    then show ?thesis using N \<open>m1 \<noteq> NULL\<close> by (auto simp: kept_def)
  qed
  then show "msg_taken s m s'" "kept s s'" "m = NULL \<Longrightarrow> node_skipped s"
    "m = NULL \<Longrightarrow> CsdLocalMax s = 0 \<Longrightarrow> queue_msgs (CsdSchedQueue s) = []" by simp_all
qed

text \<open>
  What a call reports: a null pointer means that nothing was found where it looked.
  \<open>all\<close> says whether the scheduler queue was among the queues it looked at.
\<close>

definition found_nothing :: "bool \<Rightarrow> 'w csd_scheme \<Rightarrow> bool" where
  "found_nothing all s \<longleftrightarrow> recv s = [] \<and> NodeRecv s = [] \<and> ckq_list (CmiLocalQueue s) = [] \<and>
     node_skipped s \<and> (all \<longrightarrow> queue_msgs (CsdSchedQueue s) = [])"

lemma next_remote_effect:
  assumes wf: "csd_wf s" and d: "next_remote s = (m, s')"
  shows "msg_taken s m s'" "CsdLocalMax s' = CsdLocalMax s" "CsdLocalCounter s' = CsdLocalMax s"
    "recv s = r # rs \<Longrightarrow> m = r \<and> recv s' = rs" "recv s = [] \<Longrightarrow> recv s' = []"
    "m = NULL \<Longrightarrow> found_nothing (CsdLocalMax s = 0) s"
proof -
  let ?s = "s\<lparr>CsdLocalCounter := CsdLocalMax s\<rparr>"
  have wf0: "csd_wf ?s" using wf by simp
  obtain m1 s1 where 1: "CmiGetNonLocal ?s = (m1, s1)" by force
  note A = get_nonlocal_effect [OF wf0 1]
  have s1: "csd_wf s1" using A(1) by (rule msg_taken_wf)
  obtain m2 s2 where 2: "deq_local s1 = (m2, s2)" by force
  note B = deq_local_effect [OF s1 2]
  have s2: "csd_wf s2" using B(1) by (rule msg_taken_wf)
  obtain m3 s3 where 3: "CmiGetNonLocalNodeQ s2 = (m3, s3)" by force
  note C = get_nonlocal_node_effect [OF s2 3]
  have s3: "csd_wf s3" using C(1) by (rule msg_taken_wf)
  obtain ms q ms' where eqs: "s1 = ?s\<lparr>hasMessages := False, recv := ms\<rparr>" "s2 = s1\<lparr>CmiLocalQueue := q\<rparr>"
    "s3 = s2\<lparr>hasMessages := False, NodeRecv := ms'\<rparr>" using A(4) B(3) C(3) by blast
  have K: "CsdLocalMax s1 = CsdLocalMax s" "CsdLocalCounter s1 = CsdLocalMax s" "kept s1 s2" "kept s1 s3"
    "CmiLocalQueue s1 = CmiLocalQueue s" "NodeRecv s2 = NodeRecv s" "CsdSchedQueue s3 = CsdSchedQueue s"
    "node_skipped s3 \<longleftrightarrow> node_skipped s"
    unfolding eqs by (simp_all add: kept_def node_skipped_def)
  have R: "recv s = m1 # recv s1 \<or> recv s = [] \<and> recv s1 = []" "m1 = NULL \<longleftrightarrow> recv s = []" using A(2,3) by simp_all
  have T: "msg_taken s m1 s1" using A(1) by (simp add: msg_taken_counters)
  consider (first) "m1 \<noteq> NULL" "m = m1" "s' = count_processed s1"
    | (second) "m1 = NULL" "m2 \<noteq> NULL" "m = m2" "s' = count_processed s2"
    | (third) "m1 = NULL" "m2 = NULL" "m3 \<noteq> NULL" "m = m3" "s' = s3"
    | (rest) "m1 = NULL" "m2 = NULL" "m3 = NULL" "next_node s3 = (m, s')"
    using d 1 2 3 by (auto simp: next_remote_def split: if_splits)
  then have "msg_taken s m s' \<and> CsdLocalMax s' = CsdLocalMax s \<and> CsdLocalCounter s' = CsdLocalMax s \<and>
     (\<forall>r rs. recv s = r # rs \<longrightarrow> m = r \<and> recv s' = rs) \<and> (recv s = [] \<longrightarrow> recv s' = []) \<and>
     (m = NULL \<longrightarrow> found_nothing (CsdLocalMax s = 0) s)"
  proof cases
    case first
    then show ?thesis using T R K(1,2) by (auto simp: msg_taken_counters)
  next
    case second
    have "msg_taken s m2 s2" using T B(1) second(1) msg_taken_none by blast
    then show ?thesis using second R K(1-3) by (auto simp: msg_taken_counters kept_def)
  next
    case third
    have "msg_taken s m3 s3" using T B(1) C(1) third(1,2) msg_taken_none by blast
    then show ?thesis using third R K(1,2,4) by (auto simp: kept_def)
  next
    case rest
    note N = next_node_effect [OF s3 rest(4)]
    have t: "msg_taken s m s'" using T B(1) C(1) N(1) rest(1-3) msg_taken_none by blast
    have e: "recv s = []" "ckq_list (CmiLocalQueue s) = []" "NodeRecv s = []" "recv s1 = []"
      using R B(2) C(2) rest(1-3) K(5,6) by auto
    have "m = NULL \<longrightarrow> found_nothing (CsdLocalMax s = 0) s"
      using N(3,4) e(1-3) K(1,4,7,8) by (simp add: found_nothing_def kept_def)
    then show ?thesis using t e(1,4) N(2) K(1,2,4) by (simp add: kept_def)
  qed
  then show "msg_taken s m s'" "CsdLocalMax s' = CsdLocalMax s" "CsdLocalCounter s' = CsdLocalMax s"
    "recv s = r # rs \<Longrightarrow> m = r \<and> recv s' = rs" "recv s = [] \<Longrightarrow> recv s' = []"
    "m = NULL \<Longrightarrow> found_nothing (CsdLocalMax s = 0) s" by blast+
qed

text \<open>A call either takes a local message and counts it, or it looks at the network queue first.\<close>

lemma next_message_effect:
  assumes wf: "csd_wf s" and d: "CsdNextMessage s = (m, s')"
  shows "msg_taken s m s'" "CsdLocalMax s' = CsdLocalMax s"
    "m = NULL \<Longrightarrow> CsdLocalCounter s' = CsdLocalMax s \<and>
       found_nothing (CsdLocalMax s = 0 \<or> 0 < sint (CsdLocalCounter s)) s"
    "recv s' = recv s \<and> 0 < sint (CsdLocalCounter s) \<and> CsdLocalCounter s' = CsdLocalCounter s - 1 \<and> m \<noteq> NULL \<or>
     recv s = m # recv s' \<and> CsdLocalCounter s' = CsdLocalMax s \<or>
     recv s = [] \<and> recv s' = [] \<and> CsdLocalCounter s' = CsdLocalMax s"
proof -
  let ?s = "s\<lparr>CsdLocalCounter := CsdLocalCounter s - 1\<rparr>"
  have wf0: "csd_wf ?s" using wf by simp
  obtain m1 s1 where 1: "deq_local ?s = (m1, s1)" by force
  note A = deq_local_effect [OF wf0 1]
  have s1: "csd_wf s1" using A(1) by (rule msg_taken_wf)
  obtain m2 s2 where 2: "deq_sched s1 = (m2, s2)" by force
  note B = deq_sched_effect [OF s1 2]
  have s2: "csd_wf s2" using B(1) by (rule msg_taken_wf)
  obtain q where q: "s1 = ?s\<lparr>CmiLocalQueue := q\<rparr>" using A(3) by blast
  obtain q' where q': "s2 = s1\<lparr>CsdSchedQueue := q'\<rparr>" "m2 = NULL \<longrightarrow> q' = CsdSchedQueue s1" using B(3) by blast
  have K: "recv s1 = recv s" "recv s2 = recv s" "CsdLocalMax s1 = CsdLocalMax s" "CsdLocalMax s2 = CsdLocalMax s"
    "CsdLocalCounter s1 = CsdLocalCounter s - 1" "CsdLocalCounter s2 = CsdLocalCounter s - 1"
    "CsdSchedQueue s1 = CsdSchedQueue s" "NodeRecv s2 = NodeRecv s" "m2 = NULL \<longrightarrow> (node_skipped s2 \<longleftrightarrow> node_skipped s)"
    using q' unfolding q by (auto simp: node_skipped_def)
  have T: "msg_taken s m1 s1" "m1 = NULL \<longleftrightarrow> ckq_list (CmiLocalQueue s) = []" using A(1,2) by (simp_all add: msg_taken_counters)
  consider (skip) "sint (CsdLocalCounter s) \<le> 0" "next_remote ?s = (m, s')"
    | (local) "0 < sint (CsdLocalCounter s)" "m1 \<noteq> NULL" "m = m1" "s' = count_processed s1"
    | (sched) "0 < sint (CsdLocalCounter s)" "m1 = NULL" "m2 \<noteq> NULL" "m = m2" "s' = s2"
    | (rest) "0 < sint (CsdLocalCounter s)" "m1 = NULL" "m2 = NULL" "next_remote s2 = (m, s')"
    using d 1 2 by (auto simp: CsdNextMessage_def Let_def not_less split: if_splits)
  then have "msg_taken s m s' \<and> CsdLocalMax s' = CsdLocalMax s \<and>
    (m = NULL \<longrightarrow> CsdLocalCounter s' = CsdLocalMax s \<and> found_nothing (CsdLocalMax s = 0 \<or> 0 < sint (CsdLocalCounter s)) s) \<and>
    (recv s' = recv s \<and> 0 < sint (CsdLocalCounter s) \<and> CsdLocalCounter s' = CsdLocalCounter s - 1 \<and> m \<noteq> NULL \<or>
     recv s = m # recv s' \<and> CsdLocalCounter s' = CsdLocalMax s \<or>
     recv s = [] \<and> recv s' = [] \<and> CsdLocalCounter s' = CsdLocalMax s)"
  proof cases
    case skip
    note R = next_remote_effect [OF wf0 skip(2)]
    have "recv s = m # recv s' \<or> recv s = [] \<and> recv s' = []" using R(4,5) by (cases "recv s") auto
    moreover have "found_nothing a ?s \<longleftrightarrow> found_nothing a s" for a by (simp add: found_nothing_def node_skipped_def)
    ultimately show ?thesis using R(1-3) R(6) skip(1) by (auto simp: msg_taken_counters)
  next
    case local
    then show ?thesis using T(1) K by (simp add: msg_taken_counters)
  next
    case sched
    have "msg_taken s m2 s2" using T(1) B(1) sched(2) msg_taken_none by blast
    then show ?thesis using sched K by simp
  next
    case rest
    note R = next_remote_effect [OF s2 rest(4)]
    have t: "msg_taken s m s'" using T(1) B(1) R(1) rest(2,3) msg_taken_none by blast
    have r: "recv s = m # recv s' \<or> recv s = [] \<and> recv s' = []" using R(4,5) K(2) by (cases "recv s") auto
    have "m = NULL \<longrightarrow> found_nothing (CsdLocalMax s = 0 \<or> 0 < sint (CsdLocalCounter s)) s"
      using R(6) T(2) B(2) rest(2,3) K(2,7,8,9) by (auto simp: found_nothing_def)
    then show ?thesis using t r R(2,3) K(4) by auto
  qed
  then show "msg_taken s m s'" "CsdLocalMax s' = CsdLocalMax s"
    "m = NULL \<Longrightarrow> CsdLocalCounter s' = CsdLocalMax s \<and>
       found_nothing (CsdLocalMax s = 0 \<or> 0 < sint (CsdLocalCounter s)) s"
    "recv s' = recv s \<and> 0 < sint (CsdLocalCounter s) \<and> CsdLocalCounter s' = CsdLocalCounter s - 1 \<and> m \<noteq> NULL \<or>
     recv s = m # recv s' \<and> CsdLocalCounter s' = CsdLocalMax s \<or>
     recv s = [] \<and> recv s' = [] \<and> CsdLocalCounter s' = CsdLocalMax s" by blast+
qed

section \<open>Sequences of calls\<close>

text \<open>
  Between two calls handlers and other threads add messages (\<open>new\<close>), to the network queue at its
  end, and the other processors of the node take some (\<open>gone\<close>) from the node's two queues.
\<close>

definition between_calls :: "'w csd_scheme \<Rightarrow> ptr multiset \<Rightarrow> ptr multiset \<Rightarrow> 'w csd_scheme \<Rightarrow> bool" where
  "between_calls s new gone s' \<longleftrightarrow> csd_wf s' \<and> pending s + new = pending s' + gone \<and>
     gone \<subseteq># mset (queue_msgs (CsdNodeQueue s)) + mset (NodeRecv s) + new \<and>
     (\<exists>ys. recv s' = recv s @ ys) \<and> CsdLocalMax s' = CsdLocalMax s \<and> CsdLocalCounter s' = CsdLocalCounter s"

inductive csd_calls :: "'w csd_scheme \<Rightarrow> ptr list \<Rightarrow> ptr multiset \<Rightarrow> ptr multiset \<Rightarrow> 'w csd_scheme \<Rightarrow> bool" where
  no_call: "csd_calls s [] {#} {#} s"
| a_call: "CsdNextMessage s = (m, s1) \<Longrightarrow> between_calls s1 new gone s2 \<Longrightarrow> csd_calls s2 ms new' gone' s' \<Longrightarrow>
    csd_calls s (m # ms) (new + new') (gone + gone') s'"

inductive_cases csd_calls_Cons: "csd_calls s (m # ms) new gone s'"










section \<open>Initial state and sends to the processor itself\<close>

lemma init_wf:
  assumes "CsdInit argv 0 st s = Inr (argv', st', s')"
    and "ckq_ok (CmiLocalQueue s)" "NULL \<notin> set (ckq_list (CmiLocalQueue s))" "NULL \<notin> set (recv s)" "NULL \<notin> set (NodeRecv s)"
  shows "csd_wf s'" "CsdLocalCounter s' = CsdLocalMax s'"
  using assms
  by (auto simp: CsdInit_def Let_def rbind_Inr csd_wf_def pending_def queue_wf_create queue_msgs_def split: option.splits)

lemma enqueue_pending:
  assumes wf: "csd_wf s" and m: "m \<noteq> NULL" "valid_request strategy bits p"
    and room: "Suc (length (queue_entries (CsdSchedQueue s))) < 2 ^ 32"
  shows "\<exists>s'. CsdEnqueueGeneral endian m strategy bits p s = Some (Inr s') \<and> csd_wf s' \<and> pending s' = add_mset m (pending s)"
proof -
  obtain q where q: "CqsEnqueueGeneral endian (CsdSchedQueue s) m strategy bits p = Some (Inr q)" "queue_wf q"
    "mset (queue_entries q) = add_mset (fst (msg_class endian strategy bits p), snd (msg_class endian strategy bits p), m)
       (mset (queue_entries (CsdSchedQueue s)))"
    by (rule enqueueGeneral_ok [OF csd_wfD(2) [OF wf] m(2) room]) blast
  have "mset (queue_msgs q) = add_mset m (mset (queue_msgs (CsdSchedQueue s)))" using q(3) by (simp add: queue_msgs_def)
  then have "pending (s\<lparr>CsdSchedQueue := q\<rparr>) = add_mset m (pending s)" by (simp add: pending_def)
  then show ?thesis using q(1,2) wf m(1) by (simp add: CsdEnqueueGeneral_def csd_wf_def)
qed

section \<open>Dispatch\<close>

text \<open>
  A message sent to the number a registration returned reaches that function with its pointer, as
  long as the number fits the 16 bits of the message header; the number after these is that of the
  handler that stops the program.
\<close>

lemma registered_dispatch:
  fixes m :: ptr and s :: "'w csd_scheme"
  assumes ok: "handlers_ok (htab s)" and r: "CmiRegisterHandlerEx (Handler f) u (htab s) = Inr (n, t')" and n: "n < 65536"
  defines "s' \<equiv> CmiSetHandler m n (s\<lparr>htab := t'\<rparr>)"
  shows "CmiHandleMessage call m s' = call f m u s'"
proof -
  have c: "n = CmiHandlerCount (htab s)" "CmiHandlerToInfo t' (nat n) = Inr \<lparr>hdlr = Handler f, userPtr = u\<rparr>"
    using register_handler_effect [OF ok, of "Handler f" u] r by auto
  have "0 \<le> n" using ok c(1) by (simp add: handlers_ok_def)
  then have "unat (word_of_int n :: u16) = nat n" using n by (simp add: unat_eq_nat_uint uint_word_of_int)
  then show ?thesis using c(2) by (simp add: s'_def CmiSetHandler_def CmiHandleMessage_def CmiGetHandler_def)
qed

lemma dispatch_wraps:
  assumes "handlers_ok (htab s)"
  shows "CmiHandleMessage call m (CmiSetHandler m 65536 s) =
    Inl (Abort ''Converse zero handler executed-- was a message corrupted?'')"
  using assms by (auto simp: handlers_ok_def CmiHandleMessage_def CmiGetHandler_def CmiSetHandler_def CmiHandlerToInfo_def)

section \<open>The loops\<close>

text \<open>
  The counting loop returns only after the requested number of messages or when a handler or
  callback has asked the scheduler to stop; it does not return for lack of messages.
\<close>

definition stopped :: "'w csd_runner \<Rightarrow> u32 \<Rightarrow> 'w csd_scheme \<Rightarrow> bool" where
  "stopped run cycle s' \<longleftrightarrow> (\<exists>t. CsdStopFlag t \<noteq> cycle \<and> (s' = t \<or> CsdEndIdle run t = Inr s'))"

lemma turn_break: "schedule_turn run call cycle idle s = Inr (h, Break s') \<Longrightarrow> stopped run cycle s'"
  by (auto simp: schedule_turn_def SCHEDULE_MESSAGE_def SCHEDULE_IDLE_def stopped_def rbind_Inr split: prod.splits if_splits)

lemma count_loop_returns:
  "count_loop run call cycle n idle s = Some r \<Longrightarrow> \<forall>left s'. r = Inr (left, s') \<longrightarrow> left = 0 \<or> stopped run cycle s'"
proof (erule count_loop.raw_induct [rotated])
  fix loop :: "'w csd_runner \<Rightarrow> 'w dispatch \<Rightarrow> u32 \<Rightarrow> u32 \<Rightarrow> bool \<Rightarrow> 'w csd_scheme \<Rightarrow> (u32 \<times> 'w csd_scheme) result option"
    and run call cycle n idle s r
  assume IH: "\<And>run call cycle n idle s r. loop run call cycle n idle s = Some r \<Longrightarrow>
      \<forall>left s'. r = Inr (left, s') \<longrightarrow> left = 0 \<or> stopped run cycle s'"
    and eq: "(case schedule_turn run call cycle idle s of Inl e \<Rightarrow> Some (Inl e)
      | Inr (handled, turn) \<Rightarrow> let left = (if handled then n - 1 else n)
          in case turn of Break s1 \<Rightarrow> Some (Inr (left, s1))
             | Go idle s1 \<Rightarrow> if handled \<and> left = 0 then Some (Inr (left, s1))
                 else (case CsdPeriodic run s1 of Inl e \<Rightarrow> Some (Inl e)
                       | Inr s2 \<Rightarrow> loop run call cycle left idle s2)) = Some r"
  show "\<forall>left s'. r = Inr (left, s') \<longrightarrow> left = 0 \<or> stopped run cycle s'"
  proof (cases "schedule_turn run call cycle idle s")
    case (Inr p)
    obtain h t where p: "p = (h, t)" by force
    show ?thesis
    proof (cases t)
      case (Break s1)
      then have "stopped run cycle s1" using turn_break Inr p by blast
      then show ?thesis using eq Inr p Break by (auto simp: Let_def)
    next
      case (Go idle' s1)
      then show ?thesis using eq Inr p IH by (auto simp: Let_def split: if_splits sum.splits)
    qed
  qed (use eq in auto)
qed

lemma count_returns:
  "CsdScheduleCount run call n s = Some (Inr (left, s')) \<Longrightarrow> left = 0 \<or> stopped run (CsdStopFlag s) s'"
  using count_loop_returns unfolding CsdScheduleCount_def by blast

text \<open>
  Polling ends when all handlers together send finitely many messages, as bounded by \<open>work\<close>, and
  callbacks do not add to it; what is then left, if no handler stopped it, is nothing.
\<close>

lemma poll_ends:
  fixes I :: "'w csd_scheme \<Rightarrow> bool" and work :: "'w csd_scheme \<Rightarrow> nat"
  assumes wf: "\<And>s. I s \<Longrightarrow> csd_wf s"
    and periodic: "\<And>s. I s \<Longrightarrow> \<exists>s'. CsdPeriodic run s = Inr s' \<and> I s' \<and> work s' \<le> work s"
    and handle: "\<And>s m s1. I s \<Longrightarrow> CsdNextMessage s = (m, s1) \<Longrightarrow> m \<noteq> NULL \<Longrightarrow>
      \<exists>s2. CmiHandleMessage call m s1 = Inr s2 \<and> I s2 \<and> work s2 < work s"
  shows "I s \<Longrightarrow> \<exists>s'. poll_loop run call cycle s = Some (Inr s') \<and>
    (CsdStopFlag s' \<noteq> cycle \<or> (\<exists>t. I t \<and> CsdNextMessage t = (NULL, s') \<and>
       found_nothing (CsdLocalMax t = 0 \<or> 0 < sint (CsdLocalCounter t)) t))"
proof (induction "work s" arbitrary: s rule: less_induct)
  case less
  obtain s0 where s0: "CsdPeriodic run s = Inr s0" "I s0" "work s0 \<le> work s" using periodic [OF less.prems] by blast
  obtain m s1 where m: "CsdNextMessage s0 = (m, s1)" by force
  show ?case
  proof (cases "m = NULL")
    case True
    then have "poll_loop run call cycle s = Some (Inr s1)" using s0(1) m by (subst poll_loop.simps) simp
    then show ?thesis using next_message_effect(3) [OF wf [OF s0(2)] m True] s0(2) m True by blast
  next
    case False
    obtain s2 where s2: "CmiHandleMessage call m s1 = Inr s2" "I s2" "work s2 < work s0"
      using handle [OF s0(2) m False] by blast
    show ?thesis
    proof (cases "CsdStopFlag s2 = cycle")
      case True
      then have "poll_loop run call cycle s = poll_loop run call cycle s2"
        using s0(1) m False s2(1) by (subst poll_loop.simps) (simp add: SCHEDULE_MESSAGE_def)
      then show ?thesis using less.hyps [OF _ s2(2)] s2(3) s0(3) by simp
    next
      case stop: False
      then have "poll_loop run call cycle s = Some (Inr s2)"
        using s0(1) m False s2(1) by (subst poll_loop.simps) (simp add: SCHEDULE_MESSAGE_def)
      then show ?thesis using stop by blast
    qed
  qed
qed

section \<open>Priorities of node and processor\<close>

text \<open>
  The priority reported for a queue has the words of a least entry.  A message of the node is
  preferred if its words are less.  As a message without priority has no words at all, it counts
  as more urgent here than one of negative priority, and as the priority reported for an empty queue
  is that of the largest integer, node messages of that priority are not taken.
\<close>

lemma prioq_root_entry:
  assumes wf: "prioq_wf {} p" and ne: "prioq_entries p \<noteq> []"
  shows "\<exists>x. (prio_key (elt_pri (elts p) (heap p ! 1)), x) \<in> set (prioq_entries p)"
    "(k, y) \<in> set (prioq_entries p) \<Longrightarrow> prio_key (elt_pri (elts p) (heap p ! 1)) \<le> k"
proof -
  have n: "heapnext p \<noteq> 1" using prioq_empty_iff [OF wf] ne by simp
  obtain x p' where "mset (prioq_entries p) = add_mset (elt_key (elts p) (heap p ! 1), x) (mset (prioq_entries p'))"
    by (rule prioq_dequeue_ok [OF wf n]) blast
  then have "(elt_key (elts p) (heap p ! 1), x) \<in> set (prioq_entries p)" by (metis union_single_eq_member set_mset_mset)
  then show "\<exists>x. (prio_key (elt_pri (elts p) (heap p ! 1)), x) \<in> set (prioq_entries p)" by (auto simp: elt_key_def)
  show "(k, y) \<in> set (prioq_entries p) \<Longrightarrow> prio_key (elt_pri (elts p) (heap p ! 1)) \<le> k"
    using prioq_wf_root(4) [OF wf n] unfolding set_entries [OF wf] elt_key_def by blast
qed

lemma priority_key:
  assumes wf: "queue_wf q" and ne: "queue_entries q \<noteq> []"
  shows "\<exists>c x. (c, prio_key (CqsGetPriority q), x) \<in> set (queue_entries q) \<and>
    (\<forall>e \<in> set (queue_entries q). entry_le (c, prio_key (CqsGetPriority q), x) e)"
proof -
  have parts: "prioq_wf {} (negprioq q)" "prioq_wf {} (posprioq q)" using wf by (auto simp: queue_wf_def)
  note P = prioq_parts_entries [OF wf] and N = prioq_root_entry [OF parts(1)] and M = prioq_root_entry [OF parts(2)]
  consider (neg) "prioq_entries (negprioq q) \<noteq> []"
    | (zero) "prioq_entries (negprioq q) = []" "deq_list (zeroprio q) \<noteq> []"
    | (pos) "prioq_entries (negprioq q) = []" "deq_list (zeroprio q) = []" "prioq_entries (posprioq q) \<noteq> []"
    using ne by (auto simp: queue_entries_def)
  then show ?thesis
  proof cases
    case neg
    then obtain x where "(prio_key (elt_pri (elts (negprioq q)) (heap (negprioq q) ! 1)), x) \<in> set (prioq_entries (negprioq q))"
      using N(1) by blast
    then show ?thesis using neg P(1) N(2) [OF neg]
      by (intro exI [of _ 0] exI [of _ x]) (auto simp: CqsGetPriority_def queue_entries_def entry_le_def)
  next
    case zero
    have z: "prio_key kprio_zero = []" by (simp add: prio_key_def kprio_zero_def)
    show ?thesis using zero P hd_in_set [OF zero(2)]
      by (intro exI [of _ 1] exI [of _ "hd (deq_list (zeroprio q))"]) (auto simp: CqsGetPriority_def queue_entries_def entry_le_def z)
  next
    case pos
    then obtain x where "(prio_key (elt_pri (elts (posprioq q)) (heap (posprioq q) ! 1)), x) \<in> set (prioq_entries (posprioq q))"
      using M(1) by blast
    then show ?thesis using pos P M(2) [OF pos(3)]
      by (intro exI [of _ 2] exI [of _ x]) (auto simp: CqsGetPriority_def queue_entries_def entry_le_def)
  qed
qed

lemma node_before_urgent:
  assumes q: "queue_wf q" and n: "queue_wf n" "queue_entries n \<noteq> []" "\<forall>e \<in> set (queue_entries n). fst (snd e) = []"
    and urgent: "queue_entries q \<noteq> []" "\<forall>e \<in> set (queue_entries q). fst (snd e) \<noteq> []"
  shows "CqsPrioGT (CqsGetPriority q) (CqsGetPriority n)"
proof -
  have "prio_key (CqsGetPriority n) = []" using priority_key [OF n(1,2)] n(3) by fastforce
  moreover have "prio_key (CqsGetPriority q) \<noteq> []" using priority_key [OF q urgent(1)] urgent(2) by fastforce
  ultimately show ?thesis by (cases "prio_key (CqsGetPriority q)") (simp_all add: CqsPrioGT_iff)
qed

lemma largest_priority_waits:
  assumes n: "queue_wf n" "queue_entries n \<noteq> []" "\<forall>e \<in> set (queue_entries n). fst (snd e) = [0x7FFFFFFF + 2 ^ 31]"
  shows "\<not> CqsPrioGT kprio_max (CqsGetPriority n)"
proof -
  have "prio_key (CqsGetPriority n) = [0x7FFFFFFF + 2 ^ 31]" using priority_key [OF n(1,2)] n(3) by fastforce
  moreover have "prio_key kprio_max = [- 1]" by (simp add: prio_key_def kprio_max_def)
  ultimately show ?thesis by (simp add: CqsPrioGT_iff)
qed

section \<open>Property\<close>






end
