(* ===== verification/Futures.thy ===== *)
theory Futures
  imports Cth
begin

text \<open>
  Futures, \<^verbatim>\<open>conv-core/futures.c\<close>: a value that is stored once, possibly from another processor, and
  that user-level threads wait for.  The waiting threads form a list linked through the field
  \<^verbatim>\<open>next\<close> of the threads.  A value travels in a message; the application sees the address of the
  last field of that message, which is 40 bytes from its start (24 bytes of header, a pointer
  and an aligned integer).  A call that suspends its thread is split at the suspension.
\<close>

section \<open>State and operations\<close>

record Cfuture_data =
  fvalue :: ptr
  fready :: bool
  fwaiters :: ptr

record CfutureValue =
  vdata :: ptr
  valsize :: int
  vrest :: "u8 list"

record fut = cth +
  my_pe :: nat
  futures :: "ptr \<rightharpoonup> Cfuture_data"
  fvals :: "ptr \<rightharpoonup> CfutureValue"
  sent :: "(nat \<times> CfutureValue) list"

type_synonym Cfuture = "nat \<times> ptr"

definition rest_offset :: nat where "rest_offset = 40"
definition sizeof_CfutureValue :: int where "sizeof_CfutureValue = 48"

definition void_to_value :: "ptr \<Rightarrow> ptr" where
  "void_to_value v = v - rest_offset"

definition get_future :: "ptr \<Rightarrow> 'a fut_scheme \<Rightarrow> Cfuture_data result" where
  "get_future d st = (case futures st d of None \<Rightarrow> Inl (Fault ''future'') | Some f \<Rightarrow> Inr f)"

text \<open>\<open>a\<close> is the address of the new memory.\<close>

definition CfutureCreate :: "ptr \<Rightarrow> 'a fut_scheme \<Rightarrow> Cfuture \<times> 'a fut_scheme" where
  "CfutureCreate a st =
     ((my_pe st, a), st\<lparr>futures := (futures st)(a \<mapsto> \<lparr>fvalue = NULL, fready = False, fwaiters = NULL\<rparr>)\<rparr>)"

partial_function (option) awaken_loop :: "ptr \<Rightarrow> 'a fut_scheme \<Rightarrow> 'a fut_scheme result option" where
  "awaken_loop t st =
     (if t = NULL then Some (Inr st)
      else case CthAwaken t st of
             Inl e \<Rightarrow> Some (Inl e)
           | Inr st1 \<Rightarrow> (case CthGetNext t st1 of Inl e \<Rightarrow> Some (Inl e) | Inr n \<Rightarrow> awaken_loop n st1))"

definition CfutureAwaken :: "ptr \<Rightarrow> ptr \<Rightarrow> 'a fut_scheme \<Rightarrow> 'a fut_scheme result option" where
  "CfutureAwaken data val st =
     (case get_future data st of
        Inl e \<Rightarrow> Some (Inl e)
      | Inr f \<Rightarrow>
          map_option (\<lambda>r. rbind r (\<lambda>st1. rbind (get_future data st1) (\<lambda>g.
              Inr (st1\<lparr>futures := (futures st1)(data \<mapsto> g\<lparr>fwaiters := NULL\<rparr>)\<rparr>))))
            (awaken_loop (fwaiters f) (st\<lparr>futures := (futures st)(data \<mapsto> f\<lparr>fvalue := val, fready := True\<rparr>)\<rparr>)))"

definition CfutureStore :: "ptr \<Rightarrow> 'a fut_scheme \<Rightarrow> 'a fut_scheme result option" where
  "CfutureStore m st =
     (case fvals st m of None \<Rightarrow> Some (Inl (Fault ''message'')) | Some v \<Rightarrow> CfutureAwaken (vdata v) m st)"

definition CfutureCreateBuffer :: "ptr \<Rightarrow> nat \<Rightarrow> 'a fut_scheme \<Rightarrow> ptr \<times> 'a fut_scheme" where
  "CfutureCreateBuffer m bytes st =
     (m + rest_offset,
      st\<lparr>fvals := (fvals st)(m \<mapsto> \<lparr>vdata = NULL, valsize = sizeof_CfutureValue + int bytes, vrest = replicate (8 + bytes) 0\<rparr>)\<rparr>)"

text \<open>\<^verbatim>\<open>CmiFree\<close> needs the address that \<^verbatim>\<open>CmiAlloc\<close> returned.\<close>

definition CfutureDestroyBuffer :: "ptr \<Rightarrow> 'a fut_scheme \<Rightarrow> 'a fut_scheme result" where
  "CfutureDestroyBuffer v st =
     (if v \<in> dom (fvals st) then Inr (st\<lparr>fvals := (fvals st)(v := None)\<rparr>) else Inl (Fault ''CmiFree''))"

definition CfutureStoreBuffer :: "Cfuture \<Rightarrow> ptr \<Rightarrow> 'a fut_scheme \<Rightarrow> 'a fut_scheme result option" where
  "CfutureStoreBuffer f v st =
     (let m = void_to_value v
      in if fst f = my_pe st then CfutureAwaken (snd f) m st
         else case fvals st m of
                None \<Rightarrow> Some (Inl (Fault ''message''))
              | Some x \<Rightarrow> Some (Inr (st\<lparr>fvals := (fvals st)(m := None), sent := sent st @ [(fst f, x\<lparr>vdata := snd f\<rparr>)]\<rparr>)))"

definition CfutureSet :: "ptr \<Rightarrow> Cfuture \<Rightarrow> u8 list \<Rightarrow> 'a fut_scheme \<Rightarrow> 'a fut_scheme result option" where
  "CfutureSet m f value st =
     (let (copy, st1) = CfutureCreateBuffer m (length value) st
      in case fvals st1 (void_to_value copy) of
           None \<Rightarrow> Some (Inl (Fault ''message''))
         | Some x \<Rightarrow> CfutureStoreBuffer f copy
             (st1\<lparr>fvals := (fvals st1)(void_to_value copy \<mapsto> x\<lparr>vrest := value @ drop (length value) (vrest x)\<rparr>)\<rparr>))"

text \<open>The end of a wait, and the wait up to its suspension: a result, or the thread has been suspended.\<close>

definition wait_value :: "ptr \<Rightarrow> 'a fut_scheme \<Rightarrow> ptr result" where
  "wait_value data st = rbind (get_future data st) (\<lambda>f. Inr (fvalue f + rest_offset))"

definition CfutureWait :: "Cfuture \<Rightarrow> 'a fut_scheme \<Rightarrow> (ptr option \<times> 'a fut_scheme) result" where
  "CfutureWait f st =
     (if fst f \<noteq> my_pe st then Inl (Exit 1)
      else rbind (get_future (snd f) st) (\<lambda>d.
        if \<not> fready d then
          rbind (CthSetNext (CthCurrent st) (fwaiters d) st) (\<lambda>st1.
            rbind (CthSuspend (st1\<lparr>futures := (futures st1)(snd f \<mapsto> d\<lparr>fwaiters := CthCurrent st\<rparr>)\<rparr>))
              (\<lambda>st2. Inr (None, st2)))
        else rbind (wait_value (snd f) st) (\<lambda>p. Inr (Some p, st))))"

definition CfutureDestroy :: "Cfuture \<Rightarrow> 'a fut_scheme \<Rightarrow> 'a fut_scheme result" where
  "CfutureDestroy f st =
     (if fst f \<noteq> my_pe st then Inl (Exit 1)
      else rbind (get_future (snd f) st) (\<lambda>d.
        if fwaiters d \<noteq> NULL then Inl (Exit 1)
        else if fvalue d \<noteq> NULL \<and> fvalue d \<notin> dom (fvals st) then Inl (Fault ''CmiFree'')
        else Inr (st\<lparr>fvals := (if fvalue d \<noteq> NULL then (fvals st)(fvalue d := None) else fvals st),
                     futures := (futures st)(snd f := None)\<rparr>)))"

section \<open>Waiting threads\<close>

fun waiting_list :: "(ptr \<rightharpoonup> CthThreadBase) \<Rightarrow> ptr \<Rightarrow> ptr list \<Rightarrow> bool" where
  "waiting_list ths p [] \<longleftrightarrow> p = NULL"
| "waiting_list ths p (t # ts) \<longleftrightarrow> p = t \<and> t \<noteq> NULL \<and> (\<exists>th. ths t = Some th \<and> waiting_list ths (nxt th) ts)"

definition tok :: "'a cth_scheme \<Rightarrow> ptr \<Rightarrow> ptr" where
  "tok st t = token (the (threads st t))"

lemma waiting_list_cong:
  "(\<And>t. t \<in> set ts \<Longrightarrow> map_option nxt (ths' t) = map_option nxt (ths t)) \<Longrightarrow> waiting_list ths p ts \<Longrightarrow> waiting_list ths' p ts"
proof (induction ts arbitrary: p)
  case (Cons t ts)
  then obtain th where th: "ths t = Some th" "waiting_list ths (nxt th) ts" by auto
  then obtain th' where "ths' t = Some th'" "nxt th' = nxt th" using Cons.prems(1) [of t] by (auto simp: map_option_eq_Some)
  then show ?case using Cons th by auto
qed simp

lemma awaken_keeps:
  assumes "CthAwaken t st = Inr st1"
  shows "map_option nxt (threads st1 u) = map_option nxt (threads st u)" "tok st1 u = tok st u"
    "schedq st1 = schedq st @ [tok st t]" "futures st1 = futures st" "fvals st1 = fvals st" "my_pe st1 = my_pe st"
    "CthCurrent st1 = CthCurrent st"
  using assms
  by (auto simp: CthAwaken_def get_thread_def set_thread_def CthEnqueueNormalThread_def tok_def split: option.splits)

lemma awaken_loop_effect:
  "waiting_list (threads st) p ts \<Longrightarrow>
   \<exists>st'. awaken_loop p st = Some (Inr st') \<and> schedq st' = schedq st @ map (tok st) ts \<and> futures st' = futures st \<and>
     fvals st' = fvals st \<and> my_pe st' = my_pe st \<and> CthCurrent st' = CthCurrent st"
proof (induction ts arbitrary: p st)
  case Nil
  then show ?case by (subst awaken_loop.simps) simp
next
  case (Cons t ts)
  then obtain th where th: "p = t" "t \<noteq> NULL" "threads st t = Some th" "waiting_list (threads st) (nxt th) ts" by auto
  obtain st1 where st1: "CthAwaken t st = Inr st1" using th(3) by (simp add: CthAwaken_def get_thread_def)
  note A = awaken_keeps [OF st1]
  have "CthGetNext t st1 = Inr (nxt th)" using A(1) [of t] th(3) by (auto simp: CthGetNext_def get_thread_def map_option_eq_Some)
  then have step: "awaken_loop p st = awaken_loop (nxt th) st1"
    using th(1,2) st1 by (subst awaken_loop.simps) simp
  have "waiting_list (threads st1) (nxt th) ts" using waiting_list_cong [OF A(1) th(4)] .
  from Cons.IH [OF this] obtain st' where "awaken_loop (nxt th) st1 = Some (Inr st')"
    "schedq st' = schedq st1 @ map (tok st1) ts" "futures st' = futures st1" "fvals st' = fvals st1" "my_pe st' = my_pe st1"
    "CthCurrent st' = CthCurrent st1" by blast
  then show ?case using step A by auto
qed

text \<open>Storing a value awakens all waiting threads, the last to wait first, and each of them finds the value.\<close>

lemma store_awakens_all:
  assumes f: "futures st d = Some f" and w: "waiting_list (threads st) (fwaiters f) ts"
  shows "\<exists>st'. CfutureAwaken d m st = Some (Inr st') \<and> schedq st' = schedq st @ map (tok st) ts \<and>
     futures st' = (futures st)(d \<mapsto> \<lparr>fvalue = m, fready = True, fwaiters = NULL\<rparr>) \<and>
     wait_value d st' = Inr (m + rest_offset) \<and> CfutureWait (my_pe st, d) st' = Inr (Some (m + rest_offset), st')"
proof -
  let ?st = "st\<lparr>futures := (futures st)(d \<mapsto> f\<lparr>fvalue := m, fready := True\<rparr>)\<rparr>"
  have "waiting_list (threads ?st) (fwaiters f) ts" using w by simp
  from awaken_loop_effect [OF this] obtain st1 where st1: "awaken_loop (fwaiters f) ?st = Some (Inr st1)"
    "schedq st1 = schedq st @ map (tok ?st) ts" "futures st1 = futures ?st" "my_pe st1 = my_pe st" by auto
  let ?st' = "st1\<lparr>futures := (futures st1)(d \<mapsto> \<lparr>fvalue = m, fready = True, fwaiters = NULL\<rparr>)\<rparr>"
  have "CfutureAwaken d m st = Some (Inr ?st')" using f st1 by (cases f) (simp add: CfutureAwaken_def get_future_def)
  moreover have "tok ?st = tok st" by (simp add: tok_def fun_eq_iff)
  ultimately show ?thesis using st1 by (intro exI [of _ ?st']) (simp add: wait_value_def CfutureWait_def get_future_def)
qed

text \<open>A wait for a value not yet stored puts the running thread before the others and gives control to the scheduler.\<close>

lemma wait_queues:
  assumes f: "futures st d = Some f" "\<not> fready f" and w: "waiting_list (threads st) (fwaiters f) ts"
    and self: "CthCurrent st \<noteq> NULL" "CthCurrent st \<notin> set ts" "threads st (CthCurrent st) = Some me" "suspendable me" "\<not> exiting me"
    and sched: "threads st (CthSchedulingThread st) = Some sc" "CthSchedulingThread st \<noteq> CthCurrent st"
  shows "\<exists>st'. CfutureWait (my_pe st, d) st = Inr (None, st') \<and> CthCurrent st' = CthSchedulingThread st \<and> schedq st' = schedq st \<and>
    futures st' = (futures st)(d \<mapsto> f\<lparr>fwaiters := CthCurrent st\<rparr>) \<and> waiting_list (threads st') (CthCurrent st) (CthCurrent st # ts)"
proof -
  let ?c = "CthCurrent st" and ?s = "CthSchedulingThread st"
  let ?me = "me\<lparr>nxt := fwaiters f, scheduled := (if 0 < scheduled me then scheduled me - 1 else scheduled me)\<rparr>"
  let ?ths = "(threads st)(?c \<mapsto> ?me, ?s \<mapsto> CthFixData (CthDatasize st) sc)"
  let ?st' = "st\<lparr>threads := ?ths, futures := (futures st)(d \<mapsto> f\<lparr>fwaiters := ?c\<rparr>), numSwitches := numSwitches st + 1, CthCurrent := ?s\<rparr>"
  have n: "nxt (CthFixData k sc) = nxt sc" for k by (simp add: CthFixData_def)
  have "CfutureWait (my_pe st, d) st = Inr (None, ?st')"
    using f self sched
    by (simp add: CfutureWait_def get_future_def CthSetNext_def get_thread_def set_thread_def CthSuspend_def CthResume_def CthBaseResume_def Let_def
        fun_upd_twist fun_upd_upd)
  moreover have "map_option nxt (?ths t) = map_option nxt (threads st t)" if "t \<in> set ts" for t
    using that self(2) sched(1) n by auto
  then have "waiting_list ?ths (fwaiters f) ts" using waiting_list_cong w by blast
  then have "waiting_list ?ths ?c (?c # ts)" using self(1) sched(2) by simp
  ultimately show ?thesis by (intro exI [of _ ?st']) simp
qed

text \<open>
  The way of a value from another processor: it is sent with its bytes to the processor of the future,
  where the handler \<^verbatim>\<open>CfutureStore\<close> awakens the waiting threads.
\<close>

lemma set_remote:
  assumes "pe \<noteq> my_pe st"
  shows "\<exists>x. CfutureSet m (pe, d) value st = Some (Inr (st\<lparr>fvals := (fvals st)(m := None), sent := sent st @ [(pe, x)]\<rparr>)) \<and>
    vdata x = d \<and> take (length value) (vrest x) = value \<and> valsize x = sizeof_CfutureValue + int (length value)"
  using assms
  by (intro exI [of _ "\<lparr>vdata = d, valsize = sizeof_CfutureValue + int (length value), vrest = value @ replicate 8 0\<rparr>"])
    (simp add: CfutureSet_def CfutureCreateBuffer_def CfutureStoreBuffer_def void_to_value_def Let_def)

lemma arrival_awakens:
  assumes "futures st d = Some f" "waiting_list (threads st) (fwaiters f) ts" "vdata x = d"
  shows "\<exists>st'. CfutureStore m (st\<lparr>fvals := (fvals st)(m \<mapsto> x)\<rparr>) = Some (Inr st') \<and> schedq st' = schedq st @ map (tok st) ts \<and>
    wait_value d st' = Inr (m + rest_offset)"
proof -
  let ?st = "st\<lparr>fvals := (fvals st)(m \<mapsto> x)\<rparr>"
  have "futures ?st d = Some f" "waiting_list (threads ?st) (fwaiters f) ts" using assms by simp_all
  from store_awakens_all [OF this, of m] obtain st' where "CfutureAwaken d m ?st = Some (Inr st')"
    "schedq st' = schedq st @ map (tok ?st) ts" "wait_value d st' = Inr (m + rest_offset)" by auto
  moreover have "tok ?st = tok st" by (simp add: tok_def fun_eq_iff)
  ultimately show ?thesis using assms(3) by (simp add: CfutureStore_def)
qed

text \<open>A buffer handed out by \<^verbatim>\<open>CfutureCreateBuffer\<close> cannot be returned: its address is not that of a block.\<close>

lemma destroy_buffer_faults:
  assumes "m + rest_offset \<notin> dom (fvals st)" "CfutureCreateBuffer m n st = (v, st')"
  shows "CfutureDestroyBuffer v st' = Inl (Fault ''CmiFree'')"
  using assms by (auto simp: CfutureCreateBuffer_def CfutureDestroyBuffer_def rest_offset_def)

end
