(* ===== verification/DLists.thy ===== *)
theory DLists
  imports Prelude
begin

text \<open>
  Arrays of doubly linked lists, as the isomalloc slot sets and the memory pools keep them: a head for
  every index, and for every node the next and the previous one.  \<open>lists_ok\<close> ties heads and links to
  the lists of nodes; putting a node first in a list and taking one out of it are the two changes the
  code makes.
\<close>

section \<open>Doubly linked lists\<close>

fun dchain :: "(ptr \<Rightarrow> ptr) \<Rightarrow> (ptr \<Rightarrow> ptr) \<Rightarrow> ptr \<Rightarrow> ptr \<Rightarrow> ptr list \<Rightarrow> bool" where
  "dchain nx pv q p [] \<longleftrightarrow> p = NULL"
| "dchain nx pv q p (x # xs) \<longleftrightarrow> p = x \<and> x \<noteq> NULL \<and> pv x = q \<and> dchain nx pv x (nx x) xs"

lemma dchain_cong:
  "(\<And>x. x \<in> set xs \<Longrightarrow> nx' x = nx x \<and> pv' x = pv x) \<Longrightarrow> dchain nx' pv' q p xs \<longleftrightarrow> dchain nx pv q p xs"
  by (induction xs arbitrary: p q) auto

lemma dchain_first: "dchain nx pv q p xs \<Longrightarrow> p = (case xs of [] \<Rightarrow> NULL | x # _ \<Rightarrow> x)"
  by (cases xs) auto

text \<open>What surrounds a node in the middle of a list.\<close>

lemma dchain_mid:
  "dchain nx pv q p (xs @ x # ys) \<Longrightarrow>
   pv x = (if xs = [] then q else last xs) \<and> nx x = (case ys of [] \<Rightarrow> NULL | y # _ \<Rightarrow> y) \<and> x \<noteq> NULL \<and>
   (xs \<noteq> [] \<longrightarrow> last xs \<noteq> NULL) \<and> (ys \<noteq> [] \<longrightarrow> hd ys \<noteq> NULL)"
proof (induction xs arbitrary: q p)
  case Nil
  then show ?case using dchain_first [of nx pv x "nx x" ys] by (cases ys) auto
next
  case (Cons a xs)
  then show ?case by (cases xs) auto
qed

lemma dchain_remove:
  "dchain nx pv q p (xs @ x # ys) \<Longrightarrow> distinct (xs @ x # ys) \<Longrightarrow> q \<notin> set (xs @ x # ys) \<Longrightarrow>
   dchain (if xs = [] then nx else nx(last xs := nx x)) (if ys = [] then pv else pv(hd ys := pv x))
     q (if xs = [] then nx x else p) (xs @ ys)"
proof (induction xs arbitrary: q p)
  case Nil
  show ?case
  proof (cases ys)
    case (Cons y zs)
    then have "dchain nx (pv(y := q)) y (nx y) zs = dchain nx pv y (nx y) zs" using Nil.prems by (intro dchain_cong) auto
    then show ?thesis using Nil.prems Cons by (auto simp: fun_upd_def)
  qed (use Nil in simp)
next
  case (Cons a xs)
  have IH: "dchain (if xs = [] then nx else nx(last xs := nx x)) (if ys = [] then pv else pv(hd ys := pv x))
     a (if xs = [] then nx x else nx a) (xs @ ys)"
    using Cons.prems by (intro Cons.IH) auto
  have a: "p = a" "a \<noteq> NULL" "pv a = q" using Cons.prems by auto
  have hd: "ys \<noteq> [] \<Longrightarrow> hd ys \<noteq> a" using Cons.prems(2) by (cases ys) auto
  show ?case
  proof (cases "xs = []")
    case True
    have "dchain (nx(a := nx x)) (if ys = [] then pv else pv(hd ys := pv x)) a (nx x) ys"
      using IH True Cons.prems(2) by (subst dchain_cong [where nx = nx and pv = "if ys = [] then pv else pv(hd ys := pv x)"]) auto
    then show ?thesis using True a hd by (auto simp: fun_upd_def)
  next
    case False
    then have "last xs \<noteq> a" using Cons.prems(2) by auto
    then show ?thesis using IH False a hd by (auto simp: fun_upd_def)
  qed
qed

lemma dchain_push:
  assumes "dchain nx pv NULL p xs" "x \<notin> set xs" "x \<noteq> NULL" "distinct xs"
  shows "dchain (nx(x := p)) (if p \<noteq> NULL then pv(x := NULL, p := x) else pv(x := NULL)) NULL x (x # xs)"
proof (cases xs)
  case (Cons y ys)
  then have y: "p = y" "y \<noteq> NULL" "dchain nx pv y (nx y) ys" using assms(1) by auto
  have "dchain (nx(x := p)) (pv(x := NULL, p := x)) y (nx y) ys = dchain nx pv y (nx y) ys"
    using assms(2,4) Cons y(1) by (intro dchain_cong) auto
  then show ?thesis using assms(2,3) Cons y by auto
qed (use assms in simp)

section \<open>The array\<close>

text \<open>\<open>F k\<close> are the nodes of list \<open>k\<close>.\<close>

definition lists_ok :: "nat \<Rightarrow> (ptr \<Rightarrow> ptr) \<Rightarrow> (ptr \<Rightarrow> ptr) \<Rightarrow> ptr list \<Rightarrow> (nat \<Rightarrow> ptr list) \<Rightarrow> bool" where
  "lists_ok N nx pv hs F \<longleftrightarrow> length hs = N \<and>
     (\<forall>k < N. dchain nx pv NULL (hs ! k) (F k) \<and> distinct (F k) \<and> (\<forall>j < N. j \<noteq> k \<longrightarrow> set (F j) \<inter> set (F k) = {}))"

lemma dchain_not_null: "dchain nx pv q p xs \<Longrightarrow> NULL \<notin> set xs"
  by (induction xs arbitrary: q p) auto

lemma lists_okD:
  assumes "lists_ok N nx pv hs F" "k < N"
  shows "dchain nx pv NULL (hs ! k) (F k)" "distinct (F k)" "j < N \<Longrightarrow> j \<noteq> k \<Longrightarrow> set (F j) \<inter> set (F k) = {}"
    "NULL \<notin> set (F k)" "length hs = N"
  using assms dchain_not_null by (auto simp: lists_ok_def)

lemma lists_ok_frame:
  assumes ok: "lists_ok N nx pv hs F" and len: "length hs' = N"
    and chg: "\<And>i. i < N \<Longrightarrow> i = k \<Longrightarrow> dchain nx' pv' NULL (hs' ! i) (F' i) \<and> distinct (F' i)"
    and same: "\<And>i. i < N \<Longrightarrow> i \<noteq> k \<Longrightarrow> F' i = F i \<and> hs' ! i = hs ! i \<and> (\<forall>x \<in> set (F i). nx' x = nx x \<and> pv' x = pv x)"
    and disj: "\<And>i j. i < N \<Longrightarrow> j < N \<Longrightarrow> i \<noteq> j \<Longrightarrow> set (F' i) \<inter> set (F' j) = {}"
  shows "lists_ok N nx' pv' hs' F'"
proof -
  have "dchain nx' pv' NULL (hs' ! i) (F' i) \<and> distinct (F' i)" if i: "i < N" for i
  proof (cases "i = k")
    case False
    note S = same [OF i False]
    have "dchain nx' pv' NULL (hs' ! i) (F i) = dchain nx pv NULL (hs' ! i) (F i)" using S by (intro dchain_cong) blast
    then show ?thesis using lists_okD(1,2) [OF ok i] S by simp
  qed (use chg i in blast)
  then show ?thesis using len disj unfolding lists_ok_def by blast
qed

lemma lists_ok_cong:
  assumes "lists_ok N nx pv hs F" "\<And>k x. k < N \<Longrightarrow> x \<in> set (F k) \<Longrightarrow> nx' x = nx x \<and> pv' x = pv x"
  shows "lists_ok N nx' pv' hs F"
  using assms dchain_cong [of _ nx' nx pv' pv] unfolding lists_ok_def by blast

text \<open>What is next to a node in its list is in that list.\<close>

lemma lists_neighbours:
  assumes ok: "lists_ok N nx pv hs F" "k < N" and x: "x \<in> set (F k)"
  shows "nx x \<noteq> NULL \<Longrightarrow> nx x \<in> set (F k) - {x}" "pv x \<noteq> NULL \<Longrightarrow> pv x \<in> set (F k) - {x}"
proof -
  obtain xs ys where split: "F k = xs @ x # ys" using x by (metis split_list)
  note M = dchain_mid [OF lists_okD(1) [OF ok, unfolded split]] and D = lists_okD(2) [OF ok, unfolded split]
  show "nx x \<in> set (F k) - {x}" if "nx x \<noteq> NULL" using M D that by (cases ys) (auto simp: split)
  show "pv x \<in> set (F k) - {x}" if "pv x \<noteq> NULL" using M D that by (cases xs rule: rev_cases) (auto simp: split)
qed

lemma lists_head:
  assumes "lists_ok N nx pv hs F" "k < N" "hs ! k \<noteq> NULL"
  shows "hs ! k \<in> set (F k)" "F k = hs ! k # tl (F k)" "pv (hs ! k) = NULL"
  using lists_okD(1) [OF assms(1,2)] assms(3) by (cases "F k"; auto)+

lemma lists_empty:
  assumes "lists_ok N nx pv hs F" "k < N"
  shows "hs ! k = NULL \<longleftrightarrow> F k = []"
  using lists_okD(1) [OF assms] by (cases "F k") auto

lemma lists_push:
  assumes ok: "lists_ok N nx pv hs F" and k: "k < N" and x: "x \<noteq> NULL" "\<And>j. j < N \<Longrightarrow> x \<notin> set (F j)"
  shows "lists_ok N (nx(x := hs ! k)) (if hs ! k \<noteq> NULL then pv(x := NULL, hs ! k := x) else pv(x := NULL)) (hs[k := x]) (F(k := x # F k))"
proof (rule lists_ok_frame [OF ok, where k = k])
  note L = lists_okD [OF ok k]
  have h: "hs ! k \<noteq> NULL \<Longrightarrow> hs ! k \<in> set (F k)" by (rule lists_head(1) [OF ok k])
  show "length (hs[k := x]) = N" using L(5) by simp
  fix i assume i: "i < N"
  show "dchain (nx(x := hs ! k)) (if hs ! k \<noteq> NULL then pv(x := NULL, hs ! k := x) else pv(x := NULL)) NULL (hs[k := x] ! i)
      ((F(k := x # F k)) i) \<and> distinct ((F(k := x # F k)) i)" if "i = k"
    using dchain_push [OF L(1) x(2) [OF k] x(1) L(2)] L(2,5) x(2) [OF k] k that by simp
  show "(F(k := x # F k)) i = F i \<and> hs[k := x] ! i = hs ! i \<and> (\<forall>y \<in> set (F i). (nx(x := hs ! k)) y = nx y \<and>
      (if hs ! k \<noteq> NULL then pv(x := NULL, hs ! k := x) else pv(x := NULL)) y = pv y)" if "i \<noteq> k"
    using that h x(2) [OF i] L(3) [OF i that] by auto
  fix j assume "j < N" "i \<noteq> j"
  then show "set ((F(k := x # F k)) i) \<inter> set ((F(k := x # F k)) j) = {}"
    using lists_okD(3) [OF ok, of j i] x(2) i by (cases "j = k"; cases "i = k") auto
qed

lemma lists_unlink:
  assumes ok: "lists_ok N nx pv hs F" and k: "k < N" and x: "x \<in> set (F k)"
  shows "lists_ok N (if pv x \<noteq> NULL then nx(pv x := nx x) else nx) (if nx x \<noteq> NULL then pv(nx x := pv x) else pv)
    (if pv x \<noteq> NULL then hs else hs[k := nx x]) (F(k := remove1 x (F k)))"
proof -
  note L = lists_okD [OF ok k]
  obtain xs ys where split: "F k = xs @ x # ys" using x by (metis split_list)
  have r: "remove1 x (F k) = xs @ ys" using L(2) by (simp add: split remove1_append)
  note M = dchain_mid [OF L(1) [unfolded split]] and R = dchain_remove [OF L(1,2,4) [unfolded split]]
  have nx: "nx x \<noteq> NULL \<longleftrightarrow> ys \<noteq> []" "ys \<noteq> [] \<Longrightarrow> nx x = hd ys" using M by (auto split: list.splits)
  have pr: "pv x \<noteq> NULL \<longleftrightarrow> xs \<noteq> []" "xs \<noteq> [] \<Longrightarrow> pv x = last xs" using M by auto
  let ?nx = "if xs = [] then nx else nx(last xs := nx x)" and ?pv = "if ys = [] then pv else pv(hd ys := pv x)"
  have "lists_ok N ?nx ?pv (if xs = [] then hs[k := nx x] else hs) (F(k := xs @ ys))"
  proof (rule lists_ok_frame [OF ok, where k = k])
    show "length (if xs = [] then hs[k := nx x] else hs) = N" using L(5) by simp
    fix i assume i: "i < N"
    show "dchain ?nx ?pv NULL ((if xs = [] then hs[k := nx x] else hs) ! i) ((F(k := xs @ ys)) i) \<and> distinct ((F(k := xs @ ys)) i)"
      if "i = k" using R L(2,5) k that by (auto simp: split)
    show "(F(k := xs @ ys)) i = F i \<and> (if xs = [] then hs[k := nx x] else hs) ! i = hs ! i \<and>
        (\<forall>y \<in> set (F i). ?nx y = nx y \<and> ?pv y = pv y)" if "i \<noteq> k"
    proof -
      have "ys \<noteq> [] \<Longrightarrow> hd ys \<in> set (F k)" "xs \<noteq> [] \<Longrightarrow> last xs \<in> set (F k)" by (auto simp: split)
      then show ?thesis using L(3) [OF i that] that by auto
    qed
    fix j assume "j < N" "i \<noteq> j"
    then show "set ((F(k := xs @ ys)) i) \<inter> set ((F(k := xs @ ys)) j) = {}"
      using lists_okD(3) [OF ok, of j i] i split by (cases "j = k"; cases "i = k") auto
  qed
  moreover have "?nx = (if pv x \<noteq> NULL then nx(pv x := nx x) else nx)" "?pv = (if nx x \<noteq> NULL then pv(nx x := pv x) else pv)"
    "(if xs = [] then hs[k := nx x] else hs) = (if pv x \<noteq> NULL then hs else hs[k := nx x])" using nx pr by auto
  ultimately show ?thesis unfolding r by simp
qed

end
