(* ===== verification/IsoBins.thy ===== *)
theory IsoBins
  imports DLists
begin

text \<open>
  The lists of free slots by size in \<^verbatim>\<open>conv-core/isomalloc.c\<close>: \<open>list_array\<close> has a doubly linked list
  for every power of two, and list \<open>b\<close> holds the slotblocks of more than \<open>2\<^sup>b\<^sup>-\<^sup>1\<close> and at most
  \<open>2\<^sup>b\<close> slots.  The nodes of these lists (\<^verbatim>\<open>dllnode\<close>) are addresses, with one function for each of
  their link fields and the set of nodes that are allocated.

  A node points to a slotblock and that slotblock points back to it, wherever the B-tree moves it.  The
  model uses the node as the identity of its slotblock: the field \<^verbatim>\<open>sb\<close> of a node stands for the slotblock
  of the tree whose field \<^verbatim>\<open>listblock\<close> is that node, and a pointer to a slotblock is the node in its
  \<^verbatim>\<open>listblock\<close>.  The assignments to \<^verbatim>\<open>listblock->sb\<close> after a slotblock was moved within the tree are then
  no change of the state.
\<close>

section \<open>State\<close>

record slotblock =
  startslot :: int
  nslots :: int
  listblock :: ptr

record slotlists =
  list_array :: "ptr list"
  dprevious :: "ptr \<Rightarrow> ptr"
  dnext :: "ptr \<Rightarrow> ptr"
  dalloc :: "ptr set"
  dfresh :: ptr

definition LIST_ARRAY_SIZE :: nat where "LIST_ARRAY_SIZE = 64"

section \<open>The list of a number of slots\<close>

text \<open>
  The loop moves \<open>list_bin\<close> up and down and keeps \<open>comp_num\<close> at \<open>2\<^sup>l\<^sup>i\<^sup>s\<^sup>t\<^sup>_\<^sup>b\<^sup>i\<^sup>n\<close>.  It never ends for
  a number of slots below 1.
\<close>

definition halve_inc :: "nat \<Rightarrow> nat" where
  "halve_inc inc = (if inc div 2 = 0 then 1 else inc div 2)"

partial_function (option) bin_loop :: "int \<Rightarrow> int \<Rightarrow> int \<Rightarrow> nat \<Rightarrow> int option" where
  "bin_loop n list_bin comp_num inc =
     (if comp_num div 2 < n \<and> n \<le> comp_num then Some list_bin
      else if n < comp_num then bin_loop n (list_bin - int inc) (drop_bit inc comp_num) (halve_inc inc)
      else bin_loop n (list_bin + int inc) (push_bit inc comp_num) (halve_inc inc))"

declare bin_loop.simps [code]

definition find_list_bin :: "int \<Rightarrow> nat option" where
  "find_list_bin n = map_option nat (bin_loop n 32 0x100000000 16)"

section \<open>Operations\<close>

definition list_insert :: "int \<Rightarrow> 'a slotlists_scheme \<Rightarrow> (ptr \<times> 'a slotlists_scheme) option" where
  "list_insert n ss =
     (case find_list_bin n of
        None \<Rightarrow> None
      | Some list_bin \<Rightarrow>
          if length (list_array ss) \<le> list_bin then None
          else let new_dlln = dfresh ss; head = list_array ss ! list_bin;
                   pv = (dprevious ss)(new_dlln := NULL)
               in Some (new_dlln, ss\<lparr>dprevious := (if head \<noteq> NULL then pv(head := new_dlln) else pv),
                    dnext := (dnext ss)(new_dlln := head), list_array := (list_array ss)[list_bin := new_dlln],
                    dalloc := insert new_dlln (dalloc ss), dfresh := dfresh ss + 1\<rparr>))"

definition list_delete :: "slotblock \<Rightarrow> 'a slotlists_scheme \<Rightarrow> 'a slotlists_scheme option" where
  "list_delete sb ss =
     (let x = listblock sb; nx = dnext ss x; pr = dprevious ss x;
          ss1 = (if nx \<noteq> NULL then ss\<lparr>dprevious := (dprevious ss)(nx := pr)\<rparr> else ss)
      in if x \<notin> dalloc ss then None
         else if pr \<noteq> NULL then Some (ss1\<lparr>dnext := (dnext ss1)(pr := nx), dalloc := dalloc ss1 - {x}\<rparr>)
         else case find_list_bin (nslots sb) of
                None \<Rightarrow> None
              | Some k \<Rightarrow>
                  if length (list_array ss1) \<le> k then None
                  else Some (ss1\<lparr>list_array := (list_array ss1)[k := nx], dalloc := dalloc ss1 - {x}\<rparr>))"

text \<open>\<open>n\<close> is the new number of slots, \<^verbatim>\<open>dlln->sb->nslots\<close>.\<close>

definition list_move :: "ptr \<Rightarrow> int \<Rightarrow> int \<Rightarrow> 'a slotlists_scheme \<Rightarrow> 'a slotlists_scheme option" where
  "list_move x n old_nslots ss =
     (case (find_list_bin old_nslots, find_list_bin n) of
        (Some old_bin, Some new_bin) \<Rightarrow>
          if new_bin = old_bin then Some ss
          else if x \<notin> dalloc ss \<or> length (list_array ss) \<le> old_bin \<or> length (list_array ss) \<le> new_bin then None
          else let nx = dnext ss x; pr = dprevious ss x;
                   ss1 = (if pr = NULL
                          then (if nx \<noteq> NULL then ss\<lparr>dprevious := (dprevious ss)(nx := NULL)\<rparr> else ss)
                                 \<lparr>list_array := (list_array ss)[old_bin := nx]\<rparr>
                          else (if nx \<noteq> NULL then ss\<lparr>dprevious := (dprevious ss)(nx := pr)\<rparr> else ss)
                                 \<lparr>dnext := (dnext ss)(pr := nx)\<rparr>);
                   head = list_array ss1 ! new_bin;
                   pv = (dprevious ss1)(x := NULL)
               in Some (ss1\<lparr>dnext := (dnext ss1)(x := head),
                            dprevious := (if head \<noteq> NULL then pv(head := x) else pv),
                            list_array := (list_array ss1)[new_bin := x]\<rparr>)
      | _ \<Rightarrow> None)"

section \<open>The list of a number of slots, continued\<close>

text \<open>The same loop over exponents, for a number of slots of list \<open>e\<close>.\<close>

fun exp_loop :: "nat \<Rightarrow> nat \<Rightarrow> nat \<Rightarrow> nat \<Rightarrow> nat option" where
  "exp_loop 0 e c inc = None"
| "exp_loop (Suc k) e c inc =
     (if e = c then Some c else if c < inc \<and> e < c \<or> 62 < c + inc \<and> c < e then None
      else if e < c then exp_loop k e (c - inc) (halve_inc inc) else exp_loop k e (c + inc) (halve_inc inc))"

definition in_bin :: "int \<Rightarrow> nat \<Rightarrow> bool" where
  "in_bin n e \<longleftrightarrow> (2 :: int) ^ e div 2 < n \<and> n \<le> 2 ^ e"

lemma in_bin_less: "in_bin n e \<Longrightarrow> e < c \<Longrightarrow> n \<le> 2 ^ c div 2"
proof -
  assume n: "in_bin n e" and "e < c"
  then obtain m where c: "c = Suc m" "e \<le> m" by (metis less_eq_Suc_le Suc_le_D Suc_le_mono)
  have "(2::int) ^ e \<le> 2 ^ m" using c(2) by (intro power_increasing) simp_all
  moreover have "n \<le> 2 ^ e" using n by (simp add: in_bin_def)
  ultimately have "n \<le> 2 ^ m" by (rule order_trans [rotated])
  then show ?thesis using c(1) by simp
qed

lemma in_bin_greater: "in_bin n e \<Longrightarrow> c < e \<Longrightarrow> 2 ^ c < n"
proof -
  assume n: "in_bin n e" and "c < e"
  then obtain m where e: "e = Suc m" "c \<le> m" by (metis less_eq_Suc_le Suc_le_D Suc_le_mono)
  have "(2::int) ^ c \<le> 2 ^ m" using e(2) by (intro power_increasing) simp_all
  moreover have "2 ^ m < n" using n e(1) by (simp add: in_bin_def)
  ultimately show ?thesis by (rule order_le_less_trans)
qed

lemma bin_loop_step:
  "cn div 2 < n \<Longrightarrow> n \<le> cn \<Longrightarrow> bin_loop n b cn inc = Some b"
  "n \<le> cn div 2 \<Longrightarrow> n < cn \<Longrightarrow> bin_loop n b cn inc = bin_loop n (b - int inc) (drop_bit inc cn) (halve_inc inc)"
  "cn < n \<Longrightarrow> bin_loop n b cn inc = bin_loop n (b + int inc) (push_bit inc cn) (halve_inc inc)"
  by (subst bin_loop.simps; simp)+

lemma bin_loop_exp:
  assumes "in_bin n e"
  shows "exp_loop k e c inc = Some r \<Longrightarrow> bin_loop n (int c) (2 ^ c) inc = Some (int r)"
proof (induction k arbitrary: c inc)
  case (Suc k)
  consider "e = c" | "e < c" | "c < e" by linarith
  then show ?case
  proof cases
    case 1
    then show ?thesis using Suc.prems assms bin_loop_step(1) by (simp add: in_bin_def)
  next
    case 2
    then have i: "inc \<le> c" "exp_loop k e (c - inc) (halve_inc inc) = Some r" using Suc.prems by (auto split: if_splits)
    have n: "n \<le> 2 ^ c div 2" "0 < n" using in_bin_less [OF assms 2] assms by (auto simp: in_bin_def)
    then have n': "n < 2 ^ c" by linarith
    have d: "drop_bit inc (2 ^ c :: int) = 2 ^ (c - inc)" "int c - int inc = int (c - inc)"
      using i(1) by (simp_all add: drop_bit_eq_div power_diff)
    show ?thesis unfolding bin_loop_step(2) [OF n(1) n'] d by (rule Suc.IH [OF i(2)])
  next
    case 3
    then have i: "exp_loop k e (c + inc) (halve_inc inc) = Some r" using Suc.prems by (auto split: if_splits)
    have n: "2 ^ c < n" using in_bin_greater [OF assms 3] .
    have d: "push_bit inc (2 ^ c :: int) = 2 ^ (c + inc)" "int c + int inc = int (c + inc)"
      by (simp_all add: push_bit_eq_mult power_add)
    show ?thesis unfolding bin_loop_step(3) [OF n] d by (rule Suc.IH [OF i])
  qed
qed simp

lemma exp_loop_finds: "\<forall>e \<in> set [0..<63]. exp_loop 16 e 32 16 = Some e"
  by code_simp

definition lbin :: "int \<Rightarrow> nat" where
  "lbin n = (LEAST e. n \<le> 2 ^ e)"

definition nslots_ok :: "int \<Rightarrow> bool" where
  "nslots_ok n \<longleftrightarrow> 0 < n \<and> n \<le> 2 ^ 62"

lemma in_bin_lbin: "0 < n \<Longrightarrow> in_bin n (lbin n)"
proof -
  assume n: "0 < n"
  have "int (nat n) < 2 ^ nat n" by (rule of_nat_less_two_power)
  then have "n \<le> 2 ^ nat n" using n by linarith
  then have le: "n \<le> 2 ^ lbin n" unfolding lbin_def by (rule LeastI [of "\<lambda>e. n \<le> 2 ^ e"])
  have "2 ^ lbin n div 2 < n"
  proof (cases "lbin n")
    case (Suc m)
    then have "\<not> n \<le> 2 ^ m" using not_less_Least [of m "\<lambda>e. n \<le> 2 ^ e"] by (simp add: lbin_def)
    then show ?thesis using Suc by simp
  qed (use n in simp)
  then show ?thesis using le by (simp add: in_bin_def)
qed

lemma find_list_bin_ok:
  assumes "nslots_ok n"
  shows "find_list_bin n = Some (lbin n)" "lbin n < 63"
proof -
  have b: "in_bin n (lbin n)" using assms in_bin_lbin by (simp add: nslots_ok_def)
  have "lbin n \<le> 62" using assms Least_le [of "\<lambda>e. n \<le> 2 ^ e" 62] by (simp add: lbin_def nslots_ok_def)
  then show l: "lbin n < 63" by simp
  then have "exp_loop 16 (lbin n) 32 16 = Some (lbin n)" using exp_loop_finds by simp
  from bin_loop_exp [OF b this] show "find_list_bin n = Some (lbin n)" by (simp add: find_list_bin_def)
qed

lemma lbin_mono: "m \<le> n \<Longrightarrow> 0 < m \<Longrightarrow> lbin m \<le> lbin n"
  using in_bin_lbin [of n] Least_le [of "\<lambda>e. m \<le> 2 ^ e" "lbin n"] by (simp add: in_bin_def lbin_def [of m])

section \<open>The array of lists\<close>

definition bins_ok :: "'a slotlists_scheme \<Rightarrow> (nat \<Rightarrow> ptr list) \<Rightarrow> bool" where
  "bins_ok ss F \<longleftrightarrow> lists_ok LIST_ARRAY_SIZE (dnext ss) (dprevious ss) (list_array ss) F \<and>
     (\<forall>k < LIST_ARRAY_SIZE. set (F k) \<subseteq> dalloc ss) \<and> NULL \<notin> dalloc ss \<and> 0 < dfresh ss \<and> (\<forall>x \<in> dalloc ss. x < dfresh ss)"

lemma bins_okD:
  assumes "bins_ok ss F" "k < LIST_ARRAY_SIZE"
  shows "dchain (dnext ss) (dprevious ss) NULL (list_array ss ! k) (F k)" "distinct (F k)" "set (F k) \<subseteq> dalloc ss"
    "j < LIST_ARRAY_SIZE \<Longrightarrow> j \<noteq> k \<Longrightarrow> set (F j) \<inter> set (F k) = {}" "NULL \<notin> set (F k)" "dfresh ss \<notin> set (F k)"
    "k < length (list_array ss)" "length (list_array ss) = LIST_ARRAY_SIZE"
proof -
  have L: "lists_ok LIST_ARRAY_SIZE (dnext ss) (dprevious ss) (list_array ss) F" using assms(1) by (simp add: bins_ok_def)
  note D = lists_okD [OF L assms(2)]
  show "dchain (dnext ss) (dprevious ss) NULL (list_array ss ! k) (F k)" "distinct (F k)" "NULL \<notin> set (F k)" by (rule D)+
  show "j < LIST_ARRAY_SIZE \<Longrightarrow> j \<noteq> k \<Longrightarrow> set (F j) \<inter> set (F k) = {}" by (rule D(3))
  show "k < length (list_array ss)" "length (list_array ss) = LIST_ARRAY_SIZE" using D(5) assms(2) by simp_all
  show sub: "set (F k) \<subseteq> dalloc ss" using assms by (simp add: bins_ok_def)
  have "dfresh ss \<notin> dalloc ss" using assms(1) unfolding bins_ok_def by blast
  then show "dfresh ss \<notin> set (F k)" using sub by blast
qed

text \<open>The two halves of the operations: putting a node first in a list, and taking it out of one.\<close>

definition push_node :: "ptr \<Rightarrow> nat \<Rightarrow> 'a slotlists_scheme \<Rightarrow> 'a slotlists_scheme" where
  "push_node x k ss =
     (let head = list_array ss ! k; pv = (dprevious ss)(x := NULL)
      in ss\<lparr>dprevious := (if head \<noteq> NULL then pv(head := x) else pv), dnext := (dnext ss)(x := head),
            list_array := (list_array ss)[k := x]\<rparr>)"

definition unlink_node :: "ptr \<Rightarrow> nat \<Rightarrow> 'a slotlists_scheme \<Rightarrow> 'a slotlists_scheme" where
  "unlink_node x k ss =
     (let nx = dnext ss x; pr = dprevious ss x;
          ss1 = (if nx \<noteq> NULL then ss\<lparr>dprevious := (dprevious ss)(nx := pr)\<rparr> else ss)
      in if pr \<noteq> NULL then ss1\<lparr>dnext := (dnext ss1)(pr := nx)\<rparr> else ss1\<lparr>list_array := (list_array ss1)[k := nx]\<rparr>)"

lemma push_node_ok:
  assumes ok: "bins_ok ss F" and k: "k < LIST_ARRAY_SIZE" and x: "x \<in> dalloc ss" "\<And>j. j < LIST_ARRAY_SIZE \<Longrightarrow> x \<notin> set (F j)"
  shows "bins_ok (push_node x k ss) (F(k := x # F k))"
proof -
  have B: "lists_ok LIST_ARRAY_SIZE (dnext ss) (dprevious ss) (list_array ss) F" "NULL \<notin> dalloc ss" using ok by (simp_all add: bins_ok_def)
  have "x \<noteq> NULL" using x(1) B(2) by metis
  note P = lists_push [OF B(1) k this x(2)]
  show ?thesis using ok P x(1) by (auto simp: bins_ok_def push_node_def Let_def)
qed

lemma unlink_node_ok:
  assumes ok: "bins_ok ss F" and k: "k < LIST_ARRAY_SIZE" and x: "x \<in> set (F k)"
  shows "bins_ok (unlink_node x k ss) (F(k := remove1 x (F k)))"
proof -
  have "lists_ok LIST_ARRAY_SIZE (dnext ss) (dprevious ss) (list_array ss) F" using ok by (simp add: bins_ok_def)
  note P = lists_unlink [OF this k x]
  have "set (remove1 x (F k)) \<subseteq> dalloc ss" using bins_okD(3) [OF ok k] set_remove1_subset by fastforce
  then show ?thesis using ok P by (auto simp: bins_ok_def unlink_node_def Let_def)
qed

lemma node_sel [simp]:
  "dalloc (push_node x k ss) = dalloc ss" "dfresh (push_node x k ss) = dfresh ss" "slotlists.more (push_node x k ss) = slotlists.more ss"
  "dalloc (unlink_node x k ss) = dalloc ss" "dfresh (unlink_node x k ss) = dfresh ss" "slotlists.more (unlink_node x k ss) = slotlists.more ss"
  "length (list_array (unlink_node x k ss)) = length (list_array ss)"
  by (simp_all add: push_node_def unlink_node_def Let_def)

lemma bin_less: "nslots_ok n \<Longrightarrow> lbin n < LIST_ARRAY_SIZE" "nslots_ok n \<Longrightarrow> find_list_bin n = Some (lbin n)"
  using find_list_bin_ok [of n] by (simp_all add: LIST_ARRAY_SIZE_def)

lemma list_insert_ok:
  assumes ok: "bins_ok ss F" and n: "nslots_ok n"
  shows "\<exists>ss'. list_insert n ss = Some (dfresh ss, ss') \<and> bins_ok ss' (F(lbin n := dfresh ss # F (lbin n))) \<and>
    slotlists.more ss' = slotlists.more ss"
proof -
  let ?ss = "ss\<lparr>dalloc := insert (dfresh ss) (dalloc ss), dfresh := dfresh ss + 1\<rparr>"
  have "bins_ok ?ss F" using ok by (auto simp: bins_ok_def)
  moreover have "\<And>j. j < LIST_ARRAY_SIZE \<Longrightarrow> dfresh ss \<notin> set (F j)" using bins_okD(6) [OF ok] by blast
  ultimately have "bins_ok (push_node (dfresh ss) (lbin n) ?ss) (F(lbin n := dfresh ss # F (lbin n)))"
    using bin_less(1) [OF n] by (intro push_node_ok) auto
  moreover have "list_insert n ss = Some (dfresh ss, push_node (dfresh ss) (lbin n) ?ss)"
    using bin_less [OF n] bins_okD(7) [OF ok] by (simp add: list_insert_def push_node_def Let_def not_le)
  ultimately show ?thesis by (intro exI [of _ "push_node (dfresh ss) (lbin n) ?ss"]) simp
qed

lemma list_delete_ok:
  assumes ok: "bins_ok ss F" and n: "nslots_ok (nslots sb)" and x: "listblock sb \<in> set (F (lbin (nslots sb)))"
  shows "\<exists>ss'. list_delete sb ss = Some ss' \<and>
    bins_ok ss' (F(lbin (nslots sb) := remove1 (listblock sb) (F (lbin (nslots sb))))) \<and> slotlists.more ss' = slotlists.more ss"
proof -
  let ?k = "lbin (nslots sb)" and ?x = "listblock sb"
  let ?u = "unlink_node ?x ?k ss"
  have k: "?k < LIST_ARRAY_SIZE" "find_list_bin (nslots sb) = Some ?k" by (rule bin_less [OF n])+
  have u: "bins_ok ?u (F(?k := remove1 ?x (F ?k)))" by (rule unlink_node_ok [OF ok k(1) x])
  have gone: "?x \<notin> set ((F(?k := remove1 ?x (F ?k))) j)" if "j < LIST_ARRAY_SIZE" for j
    using bins_okD(2) [OF ok k(1)] bins_okD(4) [OF ok k(1) that] x by (cases "j = ?k") auto
  have "bins_ok (?u\<lparr>dalloc := dalloc ss - {?x}\<rparr>) (F(?k := remove1 ?x (F ?k)))"
  proof -
    have "set ((F(?k := remove1 ?x (F ?k))) j) \<subseteq> dalloc ss - {?x}" if "j < LIST_ARRAY_SIZE" for j
      using bins_okD(3) [OF u that] gone [OF that] by auto
    then show ?thesis using u by (simp add: bins_ok_def)
  qed
  moreover have "?x \<in> dalloc ss" using bins_okD(3) [OF ok k(1)] x by blast
  then have "list_delete sb ss = Some (?u\<lparr>dalloc := dalloc ss - {?x}\<rparr>)"
    using k bins_okD(7) [OF ok k(1)] by (auto simp: list_delete_def unlink_node_def Let_def)
  ultimately show ?thesis by auto
qed

lemma list_move_ok:
  assumes ok: "bins_ok ss F" and n: "nslots_ok n" "nslots_ok old" and x: "x \<in> set (F (lbin old))"
  shows "\<exists>ss'. list_move x n old ss = Some ss' \<and> slotlists.more ss' = slotlists.more ss \<and>
    bins_ok ss' (if lbin n = lbin old then F else F(lbin old := remove1 x (F (lbin old)), lbin n := x # F (lbin n)))"
proof (cases "lbin n = lbin old")
  case True
  then show ?thesis using ok bin_less(2) n by (simp add: list_move_def)
next
  case False
  note k = bin_less [OF n(2)] and k' = bin_less [OF n(1)]
  let ?F = "F(lbin old := remove1 x (F (lbin old)))" and ?u = "unlink_node x (lbin old) ss"
  have u: "bins_ok ?u ?F" by (rule unlink_node_ok [OF ok k(1) x])
  have gone: "x \<notin> set (?F j)" if "j < LIST_ARRAY_SIZE" for j
    using bins_okD(2) [OF ok k(1)] bins_okD(4) [OF ok k(1) that] x by (cases "j = lbin old") auto
  have al: "x \<in> dalloc ss" using bins_okD(3) [OF ok k(1)] x by blast
  have "bins_ok (push_node x (lbin n) ?u) (?F(lbin n := x # ?F (lbin n)))"
    using al by (intro push_node_ok [OF u k'(1)] gone) simp_all
  moreover have "list_move x n old ss = Some (push_node x (lbin n) ?u)"
    using k k' bins_okD(7) [OF ok k(1)] bins_okD(7) [OF ok k'(1)] al False
    by (auto simp: list_move_def unlink_node_def push_node_def Let_def)
  ultimately show ?thesis using False by (intro exI [of _ "push_node x (lbin n) ?u"]) simp
qed

end
