(* ===== verification/IsoTree.thy ===== *)
theory IsoTree
  imports IsoBins
begin

text \<open>
  The B-tree of free slots in \<^verbatim>\<open>conv-core/isomalloc.c\<close>.  A node has its blocks and its children as lists,
  whose lengths are \<^verbatim>\<open>num_blocks\<close> and, for an inner node, one more; a leaf, whose children are all
  \<^verbatim>\<open>NULL\<close>, has the empty list.  \<open>None\<close> stands for a search that leaves its node or does not end and for
  a \<^verbatim>\<open>NULL\<close> pointer that the code follows.

  The contents of a tree are its blocks in order (\<open>inorder\<close>), and its shape is right when all leaves
  are at the same depth and every node but the root has at least \<^verbatim>\<open>TREE_NODE_MID\<close> and at most
  \<^verbatim>\<open>TREE_NODE_SIZE - 1\<close> blocks (\<open>balanced\<close>).
\<close>

section \<open>Nodes\<close>

definition TREE_NODE_SIZE :: nat where "TREE_NODE_SIZE = 128"

definition TREE_NODE_MID :: nat where "TREE_NODE_MID = 63"

datatype btreenode = Node (blocks: "slotblock list") (child: "btreenode list")

abbreviation num_blocks :: "btreenode \<Rightarrow> nat" where
  "num_blocks t \<equiv> length (blocks t)"

definition create_btree_node :: btreenode where
  "create_btree_node = Node [] []"

definition child_at :: "nat \<Rightarrow> btreenode \<Rightarrow> btreenode option" where
  "child_at i t = (if i < length (child t) then Some (child t ! i) else None)"

lemma child_at_size: "child_at i t = Some c \<Longrightarrow> size c < size t"
proof -
  assume "child_at i t = Some c"
  then have "c \<in> set (child t)" by (auto simp: child_at_def split: if_splits)
  then have "size c \<le> size_list size (child t)" by (intro size_list_estimation') auto
  then show ?thesis by (cases t) simp
qed

section \<open>The binary searches of a node\<close>

text \<open>
  The three functions search a node with the same loop and different tests.  A test ends the loop at the block
  of an index, or with the child on one side of it, or says where to go on.
\<close>

datatype spot = Here nat | LeftOf nat | RightOf nat

datatype direction = Found spot | GoLeft | GoRight

partial_function (option) search_loop :: "(nat \<Rightarrow> direction) \<Rightarrow> nat \<Rightarrow> int \<Rightarrow> nat \<Rightarrow> spot option" where
  "search_loop test n index inc =
     (if index < 0 \<or> int n \<le> index then None
      else case test (nat index) of
             Found r \<Rightarrow> Some r
           | GoLeft \<Rightarrow> search_loop test n (index - int inc) (halve_inc inc)
           | GoRight \<Rightarrow> search_loop test n (index + int inc) (halve_inc inc))"

declare search_loop.simps [code]

definition search_node :: "(nat \<Rightarrow> direction) \<Rightarrow> nat \<Rightarrow> spot option" where
  "search_node test n = search_loop test n (int (n div 2)) (n div 2 div 2 + n mod 2)"

definition endslot :: "slotblock \<Rightarrow> int" where
  "endslot b = startslot b + nslots b - 1"

definition find_test :: "slotblock list \<Rightarrow> int \<Rightarrow> nat \<Rightarrow> direction" where
  "find_test bs s i =
     (if startslot (bs ! i) \<le> s \<and> s \<le> endslot (bs ! i) then Found (Here i)
      else if s < startslot (bs ! i)
      then if i = 0 then Found (LeftOf i)
           else if endslot (bs ! (i - 1)) < s then Found (LeftOf i) else GoLeft
      else if i = length bs - 1 then Found (RightOf i)
      else if s < startslot (bs ! (i + 1)) then Found (RightOf i) else GoRight)"

definition insert_test :: "slotblock list \<Rightarrow> int \<Rightarrow> nat \<Rightarrow> direction" where
  "insert_test bs s i =
     (if s < startslot (bs ! i)
      then if i = 0 \<or> startslot (bs ! (i - 1)) < s then Found (LeftOf i) else GoLeft
      else if i = length bs - 1 \<or> s < startslot (bs ! (i + 1)) then Found (RightOf i) else GoRight)"

definition delete_test :: "slotblock list \<Rightarrow> int \<Rightarrow> nat \<Rightarrow> direction" where
  "delete_test bs s i =
     (if s = startslot (bs ! i) then Found (Here i)
      else if s < startslot (bs ! i)
      then if i = 0 \<or> startslot (bs ! (i - 1)) < s then Found (LeftOf i) else GoLeft
      else if i = length bs - 1 \<or> s < startslot (bs ! (i + 1)) then Found (RightOf i) else GoRight)"

text \<open>The child on the side where a search ended.\<close>

fun gap :: "spot \<Rightarrow> nat" where
  "gap (Here i) = i"
| "gap (LeftOf i) = i"
| "gap (RightOf i) = i + 1"

section \<open>Finding the block of a slot\<close>

function find_btree_slotblock :: "btreenode \<Rightarrow> int \<Rightarrow> slotblock option option" where
  "find_btree_slotblock node s =
     (if s < 0 \<or> num_blocks node = 0 then Some None
      else case search_node (find_test (blocks node) s) (num_blocks node) of
             None \<Rightarrow> None
           | Some (Here i) \<Rightarrow> Some (Some (blocks node ! i))
           | Some sp \<Rightarrow> (case child_at (gap sp) node of None \<Rightarrow> Some None | Some c \<Rightarrow> find_btree_slotblock c s))"
  by pat_completeness auto
termination by (relation "measure (\<lambda>(t, s). size t)") (auto dest: child_at_size)

declare find_btree_slotblock.simps [simp del]

section \<open>Insertion\<close>

definition insert_at :: "nat \<Rightarrow> 'b \<Rightarrow> 'b list \<Rightarrow> 'b list" where
  "insert_at p x xs = take p xs @ x # drop p xs"

type_synonym insert_ret_val = "(slotblock \<times> btreenode) option"

text \<open>The node that got too many blocks keeps its lower half; the middle block and a new node are returned.\<close>

definition split_node :: "btreenode \<Rightarrow> btreenode \<times> insert_ret_val" where
  "split_node t =
     (if num_blocks t = TREE_NODE_SIZE
      then (Node (take TREE_NODE_MID (blocks t)) (take (TREE_NODE_MID + 1) (child t)),
            Some (blocks t ! TREE_NODE_MID,
                  Node (drop (TREE_NODE_MID + 1) (blocks t)) (drop (TREE_NODE_MID + 1) (child t))))
      else (t, None))"

text \<open>
  A new block, and the node to the right of it, enter an inner node at the place where the search ended: at
  the index where the child to its left was taken and after it where the child to its right was.
\<close>

function btree_insert_int :: "'a slotlists_scheme \<Rightarrow> btreenode \<Rightarrow> int \<Rightarrow> int \<Rightarrow>
    ('a slotlists_scheme \<times> btreenode \<times> insert_ret_val) option" where
  "btree_insert_int ss node s n =
     (case search_node (insert_test (blocks node) s) (num_blocks node) of
        None \<Rightarrow> None
      | Some sp \<Rightarrow>
          let p = gap sp in
          case child_at p node of
            Some c \<Rightarrow>
              (case btree_insert_int ss c s n of
                 None \<Rightarrow> None
               | Some (ss1, c1, None) \<Rightarrow> Some (ss1, Node (blocks node) ((child node)[p := c1]), None)
               | Some (ss1, c1, Some (sb, btn)) \<Rightarrow>
                   Some (ss1, split_node (Node (insert_at p sb (blocks node)) (insert_at (p + 1) btn ((child node)[p := c1])))))
          | None \<Rightarrow>
              (case list_insert n ss of
                 None \<Rightarrow> None
               | Some (x, ss1) \<Rightarrow>
                   Some (ss1, split_node (Node (insert_at p \<lparr>startslot = s, nslots = n, listblock = x\<rparr> (blocks node))
                     (child node)))))"
  by pat_completeness auto
termination by (relation "measure (\<lambda>(ss, t, s, n). size t)") (auto dest: child_at_size)

declare btree_insert_int.simps [simp del]

definition btree_insert :: "'a slotlists_scheme \<Rightarrow> btreenode \<Rightarrow> int \<Rightarrow> int \<Rightarrow> ('a slotlists_scheme \<times> btreenode) option" where
  "btree_insert ss node s n =
     (if num_blocks node = 0
      then (case list_insert n ss of
              None \<Rightarrow> None
            | Some (x, ss1) \<Rightarrow> Some (ss1, Node [\<lparr>startslot = s, nslots = n, listblock = x\<rparr>] (child node)))
      else case btree_insert_int ss node s n of
             None \<Rightarrow> None
           | Some (ss1, node1, None) \<Rightarrow> Some (ss1, node1)
           | Some (ss1, node1, Some (sb, btn)) \<Rightarrow> Some (ss1, Node [sb] [node1, btn]))"

section \<open>Deletion\<close>

definition remove_at :: "nat \<Rightarrow> 'b list \<Rightarrow> 'b list" where
  "remove_at i xs = take i xs @ drop (i + 1) xs"

text \<open>Rotations and merging of the children of a node; \<open>d\<close> is the deficient child.\<close>

definition rotate_right :: "nat \<Rightarrow> btreenode \<Rightarrow> btreenode" where
  "rotate_right d node =
     (let l = child node ! (d - 1); c = child node ! d; i = num_blocks l in
      Node ((blocks node)[d - 1 := blocks l ! (i - 1)])
        ((child node)[d := Node (blocks node ! (d - 1) # blocks c) (drop i (child l) @ child c),
                      d - 1 := Node (take (i - 1) (blocks l)) (take i (child l))]))"

definition rotate_left :: "nat \<Rightarrow> btreenode \<Rightarrow> btreenode" where
  "rotate_left d node =
     (let c = child node ! d; r = child node ! (d + 1) in
      Node ((blocks node)[d := blocks r ! 0])
        ((child node)[d := Node (blocks c @ [blocks node ! d]) (child c @ take 1 (child r)),
                      d + 1 := Node (drop 1 (blocks r)) (drop 1 (child r))]))"

definition merge_children :: "nat \<Rightarrow> btreenode \<Rightarrow> btreenode" where
  "merge_children index node =
     (let l = child node ! index; r = child node ! (index + 1) in
      Node (remove_at index (blocks node))
        (remove_at (index + 1) ((child node)[index := Node (blocks l @ blocks node ! index # blocks r) (child l @ child r)])))"

definition rebalance :: "nat \<Rightarrow> btreenode \<Rightarrow> btreenode option" where
  "rebalance index node =
     (if num_blocks node \<le> index \<or> length (child node) \<le> index + 1 then None
      else let def_child = (if num_blocks (child node ! index) < TREE_NODE_MID then int index
                            else if num_blocks (child node ! (index + 1)) < TREE_NODE_MID then int index + 1 else -1);
               d = nat def_child in
           if def_child < 0 then Some node
           else if d \<noteq> 0 \<and> TREE_NODE_MID < num_blocks (child node ! (d - 1)) then Some (rotate_right d node)
           else if d + 1 \<le> num_blocks node \<and> d + 1 < length (child node) \<and> TREE_NODE_MID < num_blocks (child node ! (d + 1))
           then Some (rotate_left d node)
           else Some (merge_children index node))"

text \<open>
  The block passed down is returned with its new contents.  Where the search ends to the left or to the
  right of an index, the index stays and the child is the one before or after it.
\<close>

function btree_delete_int :: "'a slotlists_scheme \<Rightarrow> btreenode \<Rightarrow> int \<Rightarrow> slotblock option \<Rightarrow>
    ('a slotlists_scheme \<times> btreenode \<times> slotblock option) option" where
  "btree_delete_int ss node s sbo =
     (case sbo of
        Some sb \<Rightarrow>
          (case child_at 0 node of
             Some c \<Rightarrow>
               (case btree_delete_int ss c s (Some sb) of
                  None \<Rightarrow> None
                | Some (ss1, c1, sb1) \<Rightarrow>
                    map_option (\<lambda>t. (ss1, t, sb1)) (rebalance 0 (Node (blocks node) ((child node)[0 := c1]))))
           | None \<Rightarrow>
               (case blocks node of
                  [] \<Rightarrow> None
                | b # bs \<Rightarrow> map_option (\<lambda>ss1. (ss1, Node bs (child node), Some b)) (list_delete sb ss)))
      | None \<Rightarrow>
          (case search_node (delete_test (blocks node) s) (num_blocks node) of
             None \<Rightarrow> None
           | Some (Here i) \<Rightarrow>
               (case child_at (i + 1) node of
                  Some c \<Rightarrow>
                    (case btree_delete_int ss c s (Some (blocks node ! i)) of
                       Some (ss1, c1, Some sb1) \<Rightarrow>
                         map_option (\<lambda>t. (ss1, t, None))
                           (rebalance i (Node ((blocks node)[i := sb1]) ((child node)[i + 1 := c1])))
                     | _ \<Rightarrow> None)
                | None \<Rightarrow>
                    map_option (\<lambda>ss1. (ss1, Node (remove_at i (blocks node)) (child node), None)) (list_delete (blocks node ! i) ss))
           | Some (LeftOf i) \<Rightarrow>
               (case child_at i node of
                  None \<Rightarrow> None
                | Some c \<Rightarrow>
                    (case btree_delete_int ss c s None of
                       None \<Rightarrow> None
                     | Some (ss1, c1, sb1) \<Rightarrow>
                         map_option (\<lambda>t. (ss1, t, None)) (rebalance i (Node (blocks node) ((child node)[i := c1])))))
           | Some (RightOf i) \<Rightarrow>
               (case child_at (i + 1) node of
                  None \<Rightarrow> None
                | Some c \<Rightarrow>
                    (case btree_delete_int ss c s None of
                       None \<Rightarrow> None
                     | Some (ss1, c1, sb1) \<Rightarrow>
                         map_option (\<lambda>t. (ss1, t, None)) (rebalance i (Node (blocks node) ((child node)[i + 1 := c1])))))))"
  by pat_completeness auto
termination by (relation "measure (\<lambda>(ss, t, s, sb). size t)") (auto dest: child_at_size)

declare btree_delete_int.simps [simp del]

definition btree_delete :: "'a slotlists_scheme \<Rightarrow> btreenode \<Rightarrow> int \<Rightarrow> ('a slotlists_scheme \<times> btreenode) option" where
  "btree_delete ss node s =
     (case btree_delete_int ss node s None of
        None \<Rightarrow> None
      | Some (ss1, node1, _) \<Rightarrow>
          Some (ss1, if num_blocks node1 = 0
                     then (case child_at 0 node1 of Some new_root \<Rightarrow> new_root | None \<Rightarrow> node1)
                     else node1))"

section \<open>The searches stay in the node and end\<close>

text \<open>
  A test points to a target \<open>t\<close> when it never sends the search away from it.  The halved increment never
  leads out of the node, so the search ends; this covers the node of two blocks, whose first increment is 0.
\<close>

definition points_to :: "(nat \<Rightarrow> direction) \<Rightarrow> nat \<Rightarrow> nat \<Rightarrow> bool" where
  "points_to test n t \<longleftrightarrow> t < n \<and> (\<forall>i < n. (test i = GoLeft \<longrightarrow> t < i) \<and> (test i = GoRight \<longrightarrow> i < t))"

definition in_reach :: "nat \<Rightarrow> nat \<Rightarrow> nat \<Rightarrow> bool" where
  "in_reach n i inc \<longleftrightarrow> i < n \<and> 2 * inc \<le> i + 2 \<and> 2 * inc + i \<le> n + 1"

lemma halve_inc_eq: "halve_inc inc = (if inc \<le> 1 then 1 else inc div 2)"
  by (auto simp: halve_inc_def)

lemma in_reach_left:
  assumes "in_reach n i inc" "t < i"
  shows "inc \<le> i" "in_reach n (i - inc) (halve_inc inc)"
proof -
  show "inc \<le> i" using assms by (auto simp: in_reach_def)
  then show "in_reach n (i - inc) (halve_inc inc)" using assms by (auto simp: in_reach_def halve_inc_eq)
qed

lemma in_reach_right:
  assumes "in_reach n i inc" "i < t" "t < n"
  shows "in_reach n (i + inc) (halve_inc inc)"
  using assms by (auto simp: in_reach_def halve_inc_eq)

lemma search_loop_ends:
  assumes p: "points_to test n t"
  shows "in_reach n i inc \<Longrightarrow> \<exists>j r. search_loop test n (int i) inc = Some r \<and> j < n \<and> test j = Found r"
proof (induction "(if inc = 0 then 2 else inc, nat \<bar>int i - int t\<bar>)" arbitrary: i inc rule: wf_induct_rule [OF wf_lex_prod [OF wf_less_than wf_less_than]])
  case (1 i inc)
  have i: "i < n" using 1(2) by (simp add: in_reach_def)
  show ?case
  proof (cases "test i")
    case (Found r)
    then show ?thesis using i by (subst search_loop.simps) auto
  next
    case GoLeft
    then have t: "t < i" using p i by (simp add: points_to_def)
    note R = in_reach_left [OF 1(2) t]
    have "((if halve_inc inc = 0 then 2 else halve_inc inc, nat \<bar>int (i - inc) - int t\<bar>),
        (if inc = 0 then 2 else inc, nat \<bar>int i - int t\<bar>)) \<in> less_than <*lex*> less_than"
      using t R(1) by (auto simp: halve_inc_eq)
    from 1(1) [OF this R(2)] show ?thesis using GoLeft i R(1) by (subst search_loop.simps) (simp add: of_nat_diff)
  next
    case GoRight
    then have t: "i < t" "t < n" using p i by (simp_all add: points_to_def)
    note R = in_reach_right [OF 1(2) t]
    have "((if halve_inc inc = 0 then 2 else halve_inc inc, nat \<bar>int (i + inc) - int t\<bar>),
        (if inc = 0 then 2 else inc, nat \<bar>int i - int t\<bar>)) \<in> less_than <*lex*> less_than"
      using t by (auto simp: halve_inc_eq)
    from 1(1) [OF this R] show ?thesis using GoRight i by (subst search_loop.simps) simp
  qed
qed

lemma search_node_ends:
  assumes "points_to test n t"
  shows "\<exists>j r. search_node test n = Some r \<and> j < n \<and> test j = Found r"
proof -
  have "in_reach n (n div 2) (n div 2 div 2 + n mod 2)"
    unfolding in_reach_def
  proof (intro conjI)
    have n: "0 < n" using assms by (simp add: points_to_def)
    then show "n div 2 < n" by simp
    obtain h q m where e: "n div 2 = h" "h div 2 = q" "n mod 2 = m" by blast
    have D: "2 * q \<le> h" "m \<le> 1" "n = 2 * h + m" unfolding e [symmetric] by simp_all
    show "2 * (n div 2 div 2 + n mod 2) \<le> n div 2 + 2" unfolding e using D by simp
    show "2 * (n div 2 div 2 + n mod 2) + n div 2 \<le> n + 1" unfolding e using D by simp
  qed
  from search_loop_ends [OF assms this] show ?thesis by (simp add: search_node_def)
qed

section \<open>What the searches find\<close>

definition starts_sorted :: "slotblock list \<Rightarrow> bool" where
  "starts_sorted = sorted_wrt (\<lambda>a b. startslot a < startslot b)"

definition blocks_disjoint :: "slotblock list \<Rightarrow> bool" where
  "blocks_disjoint bs \<longleftrightarrow> sorted_wrt (\<lambda>a b. endslot a < startslot b) bs \<and> (\<forall>b \<in> set bs. 0 < nslots b)"

definition splits_at :: "nat \<Rightarrow> int \<Rightarrow> slotblock list \<Rightarrow> bool" where
  "splits_at p s bs \<longleftrightarrow> p \<le> length bs \<and> (\<forall>b \<in> set (take p bs). startslot b < s) \<and> (\<forall>b \<in> set (drop p bs). s < startslot b)"

lemma starts_nth: "starts_sorted bs \<Longrightarrow> i \<le> j \<Longrightarrow> j < length bs \<Longrightarrow> startslot (bs ! i) \<le> startslot (bs ! j)"
  using sorted_wrt_nth_less [of "\<lambda>a b. startslot a < startslot b" bs i j] by (cases "i = j") (auto simp: starts_sorted_def)

lemma disjoint_starts: "blocks_disjoint bs \<Longrightarrow> starts_sorted bs"
  unfolding blocks_disjoint_def starts_sorted_def
  by (elim conjE, erule sorted_wrt_mono_rel [rotated]) (auto simp: endslot_def)

lemma disjoint_nth:
  "blocks_disjoint bs \<Longrightarrow> i < j \<Longrightarrow> j < length bs \<Longrightarrow> endslot (bs ! i) < startslot (bs ! j)"
  "blocks_disjoint bs \<Longrightarrow> j < length bs \<Longrightarrow> startslot (bs ! j) \<le> endslot (bs ! j)"
  unfolding blocks_disjoint_def using sorted_wrt_nth_less by (blast, force simp: endslot_def)

lemma splits_atI:
  assumes "starts_sorted bs" "p \<le> length bs"
    and "p = 0 \<or> startslot (bs ! (p - 1)) < s" "p = length bs \<or> s < startslot (bs ! p)"
  shows "splits_at p s bs"
proof -
  have "startslot (bs ! i) < s" if "i < p" for i
    using starts_nth [OF assms(1), of i "p - 1"] assms(2,3) that by simp linarith
  moreover have "s < startslot (bs ! (p + i))" if "p + i < length bs" for i
    using starts_nth [OF assms(1), of p "p + i"] assms(4) that by simp
  ultimately show ?thesis using assms(2) by (auto simp: splits_at_def in_set_conv_nth)
qed

text \<open>The place of a start slot among those of the node; a search for it points there.\<close>

definition rank :: "slotblock list \<Rightarrow> int \<Rightarrow> nat" where
  "rank bs s = length (takeWhile (\<lambda>b. startslot b < s) bs)"

lemma rank_nth:
  assumes "starts_sorted bs" "i < length bs"
  shows "startslot (bs ! i) < s \<longleftrightarrow> i < rank bs s"
proof
  assume l: "startslot (bs ! i) < s"
  show "i < rank bs s"
  proof (rule ccontr)
    assume "\<not> i < rank bs s"
    then have r: "rank bs s \<le> i" by simp
    then have "\<not> startslot (bs ! rank bs s) < s"
      using nth_length_takeWhile [of "\<lambda>b. startslot b < s" bs] assms(2) by (simp add: rank_def)
    then show False using l starts_nth [OF assms(1) r assms(2)] by simp
  qed
qed (auto simp: rank_def dest: nth_mem takeWhile_nth set_takeWhileD, metis nth_mem set_takeWhileD takeWhile_nth)

lemma rank_le: "rank bs s \<le> length bs"
  by (simp add: rank_def length_takeWhile_le)

lemma points_to_rank:
  assumes "starts_sorted bs" "bs \<noteq> []"
    and "\<And>i. i < length bs \<Longrightarrow> test i = GoLeft \<Longrightarrow> 0 < i \<and> s \<le> startslot (bs ! (i - 1))"
    and "\<And>i. i < length bs \<Longrightarrow> test i = GoRight \<Longrightarrow> i < length bs - 1 \<and> startslot (bs ! i) < s"
  shows "points_to test (length bs) (min (rank bs s) (length bs - 1))"
proof -
  have "min (rank bs s) (length bs - 1) < i" if i: "i < length bs" and "test i = GoLeft" for i
  proof -
    have i': "0 < i" "i - 1 < length bs" using assms(3) [OF that] i by simp_all
    then have "rank bs s \<le> i - 1" using assms(3) [OF that] rank_nth [OF assms(1) i'(2), of s] by linarith
    then show ?thesis using i'(1) by linarith
  qed
  moreover have "i < min (rank bs s) (length bs - 1)" if i: "i < length bs" and "test i = GoRight" for i
    using assms(4) [OF that] rank_nth [OF assms(1) i, of s] by simp
  ultimately show ?thesis using assms(2) by (simp add: points_to_def min_less_iff_disj)
qed

lemma insert_search:
  assumes bs: "starts_sorted bs" "bs \<noteq> []" and s: "s \<notin> startslot ` set bs"
  obtains r where "search_node (insert_test bs s) (length bs) = Some r" "splits_at (gap r) s bs"
proof -
  have ne: "startslot (bs ! i) \<noteq> s" if "i < length bs" for i using s that by force
  have "points_to (insert_test bs s) (length bs) (min (rank bs s) (length bs - 1))"
    by (rule points_to_rank [OF bs]) (use ne in \<open>force simp: insert_test_def split: if_splits\<close>)+
  from search_node_ends [OF this] obtain j r where
    r: "search_node (insert_test bs s) (length bs) = Some r" and j: "j < length bs" "insert_test bs s j = Found r" by blast
  have "splits_at (gap r) s bs"
    using j ne by (intro splits_atI [OF bs(1)]) (force simp: insert_test_def split: if_splits)+
  with r show ?thesis by (rule that)
qed

text \<open>A search for a block to delete ends at the block or at the child that may have it.\<close>

definition delete_spot :: "slotblock list \<Rightarrow> int \<Rightarrow> spot \<Rightarrow> bool" where
  "delete_spot bs s r \<longleftrightarrow>
     (case r of Here i \<Rightarrow> i < length bs \<and> startslot (bs ! i) = s
      | LeftOf i \<Rightarrow> i < length bs \<and> splits_at i s bs
      | RightOf i \<Rightarrow> i < length bs \<and> splits_at (i + 1) s bs)"

lemma delete_search:
  assumes bs: "starts_sorted bs" "bs \<noteq> []"
  obtains r where "search_node (delete_test bs s) (length bs) = Some r" "delete_spot bs s r"
proof -
  have "points_to (delete_test bs s) (length bs) (min (rank bs s) (length bs - 1))"
    by (rule points_to_rank [OF bs]) (force simp: delete_test_def split: if_splits)+
  from search_node_ends [OF this] obtain j r where
    r: "search_node (delete_test bs s) (length bs) = Some r" and j: "j < length bs" "delete_test bs s j = Found r" by blast
  have "delete_spot bs s r"
  proof (cases r)
    case (Here i)
    then show ?thesis using j by (auto simp: delete_spot_def delete_test_def split: if_splits)
  next
    case (LeftOf i)
    then have "i = j" "i < length bs" "i = 0 \<or> startslot (bs ! (i - 1)) < s" "s < startslot (bs ! i)"
      using j by (auto simp: delete_test_def split: if_splits)
    then show ?thesis using LeftOf by (auto simp: delete_spot_def intro: splits_atI [OF bs(1)])
  next
    case (RightOf i)
    then have "i < length bs" "startslot (bs ! i) < s" "i + 1 = length bs \<or> s < startslot (bs ! (i + 1))"
      using j by (auto simp: delete_test_def split: if_splits)
    moreover from this have "splits_at (i + 1) s bs" by (intro splits_atI [OF bs(1)]) simp_all
    ultimately show ?thesis using RightOf by (simp add: delete_spot_def)
  qed
  with r show ?thesis by (rule that)
qed

text \<open>A search for a slot ends at the block that has it, or at the child between the blocks around it.\<close>

definition find_spot :: "slotblock list \<Rightarrow> int \<Rightarrow> spot \<Rightarrow> bool" where
  "find_spot bs s r \<longleftrightarrow>
     (case r of Here i \<Rightarrow> i < length bs \<and> startslot (bs ! i) \<le> s \<and> s \<le> endslot (bs ! i)
      | _ \<Rightarrow> splits_at (gap r) s bs \<and> (\<forall>b \<in> set (take (gap r) bs). endslot b < s))"

lemma ends_below:
  assumes "blocks_disjoint bs" "p \<le> length bs" "p = 0 \<or> endslot (bs ! (p - 1)) < s"
  shows "\<forall>b \<in> set (take p bs). endslot b < s"
proof -
  have "endslot (bs ! i) < s" if i: "i < p" for i
  proof (cases "i = p - 1")
    case False
    have "endslot (bs ! i) < startslot (bs ! (p - 1))" using disjoint_nth(1) [OF assms(1)] False i assms(2) by simp
    also have "\<dots> \<le> endslot (bs ! (p - 1))" using disjoint_nth(2) [OF assms(1)] i assms(2) by simp
    finally show ?thesis using assms(3) i by simp
  qed (use assms i in simp)
  then show ?thesis using assms(2) by (auto simp: in_set_conv_nth)
qed

lemma find_points:
  assumes bs: "blocks_disjoint bs" "bs \<noteq> []"
  shows "points_to (find_test bs s) (length bs) (rank bs (s + 1) - 1)"
proof -
  note R = rank_nth [OF disjoint_starts [OF bs(1)], of _ "s + 1"]
  have "rank bs (s + 1) - 1 < i" if i: "i < length bs" "find_test bs s i = GoLeft" for i
  proof -
    have "0 < i" "s < startslot (bs ! i)" using i by (auto simp: find_test_def split: if_splits)
    then show ?thesis using R [OF i(1)] by auto
  qed
  moreover have "i < rank bs (s + 1) - 1" if i: "i < length bs" "find_test bs s i = GoRight" for i
  proof -
    have "i + 1 < length bs" "startslot (bs ! (i + 1)) \<le> s" using i by (auto simp: find_test_def split: if_splits)
    then show ?thesis using R [of "i + 1"] by auto
  qed
  moreover have "rank bs (s + 1) - 1 < length bs" using rank_le [of bs "s + 1"] bs(2) by (cases bs) auto
  ultimately show ?thesis by (simp add: points_to_def)
qed

lemma find_search:
  assumes bs: "blocks_disjoint bs" "bs \<noteq> []"
  obtains r where "search_node (find_test bs s) (length bs) = Some r" "find_spot bs s r"
proof -
  from search_node_ends [OF find_points [OF bs]] obtain j r where
    r: "search_node (find_test bs s) (length bs) = Some r" and j: "j < length bs" "find_test bs s j = Found r" by blast
  note S = disjoint_starts [OF bs(1)] and D = disjoint_nth(2) [OF bs(1)]
  have "find_spot bs s r"
  proof (cases r)
    case (Here i)
    then show ?thesis using j by (auto simp: find_spot_def find_test_def split: if_splits)
  next
    case (LeftOf i)
    then have i: "i < length bs" "i = 0 \<or> endslot (bs ! (i - 1)) < s" "s < startslot (bs ! i)"
      using j by (auto simp: find_test_def split: if_splits)
    have "i - 1 < length bs" using i(1) by simp
    then have "i = 0 \<or> startslot (bs ! (i - 1)) < s" using D i(2) by fastforce
    then have "splits_at i s bs" using i by (intro splits_atI [OF S]) simp_all
    then show ?thesis using LeftOf i ends_below [OF bs(1) _ i(2)] by (simp add: find_spot_def)
  next
    case (RightOf i)
    then have i: "i < length bs" "endslot (bs ! i) < s" "i + 1 = length bs \<or> s < startslot (bs ! (i + 1))"
      using j by (auto simp: find_test_def split: if_splits)
    then have "startslot (bs ! i) < s" using D [of i] by auto
    then have "splits_at (i + 1) s bs" using i by (intro splits_atI [OF S]) simp_all
    then show ?thesis using RightOf i ends_below [OF bs(1), of "i + 1" s] by (simp add: find_spot_def)
  qed
  with r show ?thesis by (rule that)
qed

end
