(* ===== verification/IsoTreeCorrect.thy ===== *)
theory IsoTreeCorrect
  imports IsoTree
begin

text \<open>
  Correctness of the B-tree of \<open>IsoTree\<close>.  On a balanced tree in order, a search ends and finds the block of
  a slot exactly when there is one, insertion puts the new block at its place in order, and deletion takes
  out one block and nothing else; both keep the tree balanced.
\<close>

section \<open>Contents in order\<close>

fun weave :: "slotblock list \<Rightarrow> slotblock list list \<Rightarrow> slotblock list" where
  "weave [] [] = []"
| "weave [] (x # xs) = x"
| "weave (b # bs) [] = b # weave bs []"
| "weave (b # bs) (x # xs) = x @ b # weave bs xs"

fun inorder :: "btreenode \<Rightarrow> slotblock list" where
  "inorder (Node bs cs) = weave bs (map inorder cs)"

fun pre :: "slotblock list \<Rightarrow> slotblock list list \<Rightarrow> slotblock list" where
  "pre (b # bs) (x # xs) = x @ b # pre bs xs"
| "pre _ _ = []"

fun suf :: "slotblock list \<Rightarrow> slotblock list list \<Rightarrow> slotblock list" where
  "suf [] xs = []"
| "suf (b # bs) xs = b # weave bs xs"

lemma weave_leaf [simp]: "weave bs [] = bs"
  by (induction bs) auto

lemma weave_first: "weave bs (x # xs) = x @ suf bs xs"
  by (cases bs) auto

lemma weave_append: "length bs = length xs \<Longrightarrow> weave (bs @ bs') (xs @ xs') = pre bs xs @ weave bs' xs'"
  by (induction bs xs rule: list_induct2) auto

lemma weave_join: "length xs = Suc (length bs) \<Longrightarrow> weave (bs @ b # bs') (xs @ xs') = weave bs xs @ b # weave bs' xs'"
proof (induction bs arbitrary: xs)
  case Nil
  then obtain x where "xs = [x]" by (auto simp: length_Suc_conv)
  then show ?case by simp
next
  case (Cons a bs)
  then show ?case by (cases xs) auto
qed

lemma pre_last: "length bs = length xs \<Longrightarrow> bs \<noteq> [] \<Longrightarrow> pre bs xs \<noteq> [] \<and> last (pre bs xs) = last bs"
  by (induction bs xs rule: list_induct2) (auto simp: neq_Nil_conv length_Suc_conv)

lemma set_weave: "set bs \<subseteq> set (weave bs xs)"
  by (induction bs xs rule: weave.induct) auto

lemma weave_sublist: "length xs = Suc (length bs) \<Longrightarrow> x \<in> set xs \<Longrightarrow> \<exists>us vs. weave bs xs = us @ x @ vs"
proof (induction bs xs rule: weave.induct)
  case (4 b bs x' xs)
  show ?case
  proof (cases "x = x'")
    case True
    then show ?thesis by (metis append_Nil weave.simps(4))
  next
    case False
    then obtain us vs where "weave bs xs = us @ x @ vs" using 4 by auto
    then have "weave (b # bs) (x' # xs) = (x' @ b # us) @ x @ vs" by simp
    then show ?thesis by blast
  qed
qed (auto intro: exI [of _ "[]"])

section \<open>Balance\<close>

fun balanced :: "nat \<Rightarrow> nat \<Rightarrow> btreenode \<Rightarrow> bool" where
  "balanced 0 lo t \<longleftrightarrow> child t = [] \<and> lo \<le> num_blocks t \<and> num_blocks t < TREE_NODE_SIZE"
| "balanced (Suc h) lo t \<longleftrightarrow> length (child t) = Suc (num_blocks t) \<and> lo \<le> num_blocks t \<and> num_blocks t < TREE_NODE_SIZE \<and>
     (\<forall>c \<in> set (child t). balanced h TREE_NODE_MID c)"

lemma balanced_mono: "balanced h lo t \<Longrightarrow> lo' \<le> lo \<Longrightarrow> balanced h lo' t"
  by (cases h) auto

lemma balanced_blocks: "balanced h lo t \<Longrightarrow> lo \<le> num_blocks t \<and> num_blocks t < TREE_NODE_SIZE"
  by (cases h) auto

definition min_root :: "nat \<Rightarrow> nat" where
  "min_root h = (if h = 0 then 0 else 1)"

definition tree_ok :: "btreenode \<Rightarrow> bool" where
  "tree_ok t \<longleftrightarrow> (\<exists>h. balanced h (min_root h) t)"

section \<open>Around a child and around a block\<close>

lemma split_child:
  assumes "length cs = Suc (length bs)" "p \<le> length bs"
  obtains bs1 bs2 cs1 c cs2 where "bs = bs1 @ bs2" "cs = cs1 @ c # cs2" "length bs1 = p" "length cs1 = p" "length cs2 = length bs2"
    "c = cs ! p"
proof
  show "bs = take p bs @ drop p bs" "cs = take p cs @ cs ! p # drop (p + 1) cs"
    using assms id_take_nth_drop [of p cs] by simp_all
qed (use assms in simp_all)

lemma split_pair:
  assumes "length cs = Suc (length bs)" "i < length bs"
  obtains bs1 bs2 cs1 cs2 where "bs = bs1 @ bs ! i # bs2" "cs = cs1 @ cs ! i # cs ! (i + 1) # cs2"
    "length bs1 = i" "length cs1 = i" "length cs2 = length bs2"
proof
  show "bs = take i bs @ bs ! i # drop (i + 1) bs" "cs = take i cs @ cs ! i # cs ! (i + 1) # drop (i + 2) cs"
    using assms id_take_nth_drop [of i bs] id_take_nth_drop [of i cs] Cons_nth_drop_Suc [of "i + 1" cs] by simp_all
qed (use assms in simp_all)

lemma inorder_pair:
  "length bs1 = length cs1 \<Longrightarrow> inorder (Node (bs1 @ b # bs2) (cs1 @ l # r # cs2)) =
   pre bs1 (map inorder cs1) @ inorder l @ b # inorder r @ suf bs2 (map inorder cs2)"
  by (simp add: weave_append weave_first)

lemma inorder_child:
  "length bs1 = length cs1 \<Longrightarrow> inorder (Node (bs1 @ bs2) (cs1 @ c # cs2)) =
   pre bs1 (map inorder cs1) @ inorder c @ suf bs2 (map inorder cs2)"
  by (simp add: weave_append weave_first)

text \<open>What is before and after a child lies on its side of a slot where the blocks of the node do.\<close>

lemma starts_sorted_append:
  "starts_sorted (xs @ ys) \<longleftrightarrow> starts_sorted xs \<and> starts_sorted ys \<and> (\<forall>a \<in> set xs. \<forall>b \<in> set ys. startslot a < startslot b)"
  by (simp add: starts_sorted_def sorted_wrt_append)

lemma starts_last: "starts_sorted xs \<Longrightarrow> a \<in> set xs \<Longrightarrow> startslot a \<le> startslot (last xs)"
  by (induction xs rule: rev_induct) (auto simp: starts_sorted_append less_imp_le)

lemma starts_first: "starts_sorted (x # xs) \<Longrightarrow> a \<in> set (x # xs) \<Longrightarrow> startslot x \<le> startslot a"
  by (auto simp: starts_sorted_def)

lemma around_child:
  assumes so: "starts_sorted (inorder (Node (bs1 @ bs2) (cs1 @ c # cs2)))" and len: "length bs1 = length cs1"
    and sp: "splits_at (length bs1) s (bs1 @ bs2)"
  shows "\<forall>b \<in> set (pre bs1 (map inorder cs1)). startslot b < s" "\<forall>b \<in> set (suf bs2 (map inorder cs2)). s < startslot b"
    "starts_sorted (inorder c)"
proof -
  note so' = so [unfolded inorder_child [OF len] starts_sorted_append]
  show "starts_sorted (inorder c)" using so' by blast
  show "\<forall>b \<in> set (pre bs1 (map inorder cs1)). startslot b < s"
  proof (cases "bs1 = []")
    case False
    then have "startslot (last bs1) < s" using sp by (simp add: splits_at_def)
    moreover have "last (pre bs1 (map inorder cs1)) = last bs1" using pre_last [of bs1 "map inorder cs1"] False len by simp
    moreover have "starts_sorted (pre bs1 (map inorder cs1))" using so' by blast
    ultimately show ?thesis using starts_last by fastforce
  qed (use len in simp)
  show "\<forall>b \<in> set (suf bs2 (map inorder cs2)). s < startslot b"
  proof (cases bs2)
    case (Cons b bs)
    have "starts_sorted (suf bs2 (map inorder cs2))" using so' by blast
    then have "startslot b \<le> startslot a" if "a \<in> set (suf bs2 (map inorder cs2))" for a
      using starts_first that by (simp add: Cons)
    moreover have "s < startslot b" using sp by (simp add: splits_at_def Cons)
    ultimately show ?thesis by fastforce
  qed simp
qed

section \<open>Finding\<close>

definition in_block :: "int \<Rightarrow> slotblock \<Rightarrow> bool" where
  "in_block s b \<longleftrightarrow> startslot b \<le> s \<and> s \<le> endslot b"

lemma disjoint_append:
  "blocks_disjoint (xs @ ys) \<longleftrightarrow>
     blocks_disjoint xs \<and> blocks_disjoint ys \<and> (\<forall>a \<in> set xs. \<forall>b \<in> set ys. endslot a < startslot b)"
  by (auto simp: blocks_disjoint_def sorted_wrt_append)

lemma disjoint_last: "blocks_disjoint xs \<Longrightarrow> a \<in> set xs \<Longrightarrow> endslot a \<le> endslot (last xs)"
proof (induction xs rule: rev_induct)
  case (snoc x xs)
  then have "endslot b < startslot x" if "b \<in> set xs" for b using that by (simp add: disjoint_append)
  moreover have "startslot x \<le> endslot x" using snoc.prems(1) by (simp add: disjoint_append blocks_disjoint_def endslot_def)
  ultimately show ?case using snoc.prems(2) by fastforce
qed simp

lemma blocks_subseq: "balanced h lo t \<Longrightarrow> set (blocks t) \<subseteq> set (inorder t)"
  using set_weave by (cases t) auto

lemma sorted_weave: "sorted_wrt P (weave bs xs) \<Longrightarrow> sorted_wrt P bs"
proof (induction bs xs rule: weave.induct)
  case (4 b bs x xs)
  have "set bs \<subseteq> set (weave bs xs)" by (rule set_weave)
  then show ?case using 4 by (auto simp: sorted_wrt_append)
qed auto

lemma starts_node: "starts_sorted (inorder (Node bs cs)) \<Longrightarrow> starts_sorted bs"
  by (auto simp: starts_sorted_def dest: sorted_weave)

lemma disjoint_node: "blocks_disjoint (inorder (Node bs cs)) \<Longrightarrow> blocks_disjoint bs"
  using set_weave by (fastforce simp: blocks_disjoint_def dest: sorted_weave)

lemma find_btree_slotblock_ok:
  assumes "balanced h lo t" "min_root h \<le> lo" "blocks_disjoint (inorder t)" "0 \<le> s"
  shows "\<exists>r. find_btree_slotblock t s = Some r \<and>
    (case r of None \<Rightarrow> \<forall>b \<in> set (inorder t). \<not> in_block s b | Some b \<Rightarrow> b \<in> set (inorder t) \<and> in_block s b)"
  using assms
proof (induction h arbitrary: t lo)
  case 0
  obtain bs where t: "t = Node bs []" using 0(1) by (cases t) auto
  show ?case
  proof (cases "bs = []")
    case True
    then show ?thesis using t by (subst find_btree_slotblock.simps) simp
  next
    case False
    have d: "blocks_disjoint bs" using 0(3) by (simp add: t)
    obtain r where r: "search_node (find_test bs s) (length bs) = Some r" "find_spot bs s r" by (rule find_search [OF d False])
    have none: "\<not> in_block s b" if g: "splits_at p s bs" "\<forall>b \<in> set (take p bs). endslot b < s" and b: "b \<in> set bs" for p b
    proof -
      have "b \<in> set (take p bs) \<or> b \<in> set (drop p bs)" using b by (metis append_take_drop_id Un_iff set_append)
      then show ?thesis using g by (auto simp: in_block_def splits_at_def)
    qed
    show ?thesis using r False 0(4) none
      by (subst find_btree_slotblock.simps) (auto simp: t find_spot_def child_at_def in_block_def split: spot.splits)
  qed
next
  case (Suc h)
  obtain bs cs where t: "t = Node bs cs" by (cases t)
  have len: "length cs = Suc (length bs)" and ne: "bs \<noteq> []" using Suc.prems(1,2) by (auto simp: t min_root_def)
  have d: "blocks_disjoint bs" using disjoint_node Suc.prems(3) by (simp add: t)
  obtain r where r: "search_node (find_test bs s) (length bs) = Some r" "find_spot bs s r" by (rule find_search [OF d ne])
  have gap: "\<exists>q. find_btree_slotblock (cs ! p) s = Some q \<and>
      (case q of None \<Rightarrow> \<forall>b \<in> set (inorder t). \<not> in_block s b | Some b \<Rightarrow> b \<in> set (inorder t) \<and> in_block s b)"
    if sp: "splits_at p s bs" and lo: "\<forall>b \<in> set (take p bs). endslot b < s" for p
  proof -
    have p: "p \<le> length bs" using sp by (simp add: splits_at_def)
    obtain bs1 bs2 cs1 c cs2 where B: "bs = bs1 @ bs2" "cs = cs1 @ c # cs2" "length bs1 = p" "length cs1 = p" "c = cs ! p"
      by (rule split_child [OF len p])
    have len': "length bs1 = length cs1" using B by simp
    let ?X = "pre bs1 (map inorder cs1)" and ?Y = "suf bs2 (map inorder cs2)"
    note E = inorder_child [OF len', of bs2 c cs2, folded B(1,2)]
    have D: "blocks_disjoint ?X" "blocks_disjoint (inorder c)" "starts_sorted (inorder (Node (bs1 @ bs2) (cs1 @ c # cs2)))"
      using Suc.prems(3) E disjoint_starts [OF Suc.prems(3)] by (auto simp: t disjoint_append B(1,2))
    have "\<forall>b \<in> set ?Y. s < startslot b" using around_child(2) [OF D(3) len'] sp B(1,3) by simp
    moreover have "\<forall>b \<in> set ?X. endslot b < s"
    proof (cases "bs1 = []")
      case False
      then have "endslot (last bs1) < s" using lo B(1,3) by simp
      then show ?thesis using disjoint_last [OF D(1)] pre_last [of bs1 "map inorder cs1"] len' False by fastforce
    qed (use len' in simp)
    ultimately have out: "\<forall>b \<in> set ?X \<union> set ?Y. \<not> in_block s b" by (auto simp: in_block_def)
    have c: "balanced h TREE_NODE_MID c" using Suc.prems(1) by (simp add: t B(2))
    have "min_root h \<le> TREE_NODE_MID" by (simp add: min_root_def TREE_NODE_MID_def)
    from Suc.IH [OF c this D(2) Suc.prems(4)] obtain q where "find_btree_slotblock c s = Some q"
      "case q of None \<Rightarrow> \<forall>b \<in> set (inorder c). \<not> in_block s b | Some b \<Rightarrow> b \<in> set (inorder c) \<and> in_block s b" by blast
    then show ?thesis using E out by (intro exI [of _ q]) (auto simp: t B(5) split: option.splits)
  qed
  have step: "find_btree_slotblock t s = find_btree_slotblock (cs ! gap r) s" if "\<forall>i. r \<noteq> Here i" "splits_at (gap r) s bs"
    using r(1) ne Suc.prems(4) that len
    by (subst find_btree_slotblock.simps) (cases r, auto simp: t child_at_def splits_at_def)
  show ?case
  proof (cases "\<exists>i. r = Here i")
    case True
    then obtain i where Here: "r = Here i" by blast
    then have "bs ! i \<in> set (inorder t)" "in_block s (bs ! i)"
      using r(2) set_weave [of bs "map inorder cs"] by (auto simp: t find_spot_def in_block_def)
    then show ?thesis using r(1) Here ne Suc.prems(4) by (subst find_btree_slotblock.simps) (simp add: t)
  next
    case False
    then have "splits_at (gap r) s bs" "\<forall>b \<in> set (take (gap r) bs). endslot b < s"
      using r(2) by (auto simp: find_spot_def split: spot.splits)
    then show ?thesis using gap step False by simp
  qed
qed

section \<open>Insertion\<close>

text \<open>The children of a node of height \<open>h\<close>, whatever its number of blocks.\<close>

definition children_ok :: "nat \<Rightarrow> btreenode \<Rightarrow> bool" where
  "children_ok h t \<longleftrightarrow> (case h of 0 \<Rightarrow> child t = []
     | Suc k \<Rightarrow> length (child t) = Suc (num_blocks t) \<and> (\<forall>c \<in> set (child t). balanced k TREE_NODE_MID c))"

lemma balanced_iff: "balanced h lo t \<longleftrightarrow> children_ok h t \<and> lo \<le> num_blocks t \<and> num_blocks t < TREE_NODE_SIZE"
  by (cases h) (auto simp: children_ok_def)

definition insert_result :: "nat \<Rightarrow> nat \<Rightarrow> slotblock list \<Rightarrow> btreenode \<times> insert_ret_val \<Rightarrow> bool" where
  "insert_result h lo zs res \<longleftrightarrow>
     (case res of (t, None) \<Rightarrow> balanced h lo t \<and> inorder t = zs
      | (t, Some (b, r)) \<Rightarrow> balanced h TREE_NODE_MID t \<and> balanced h TREE_NODE_MID r \<and> inorder t @ b # inorder r = zs)"

lemma split_node_ok:
  assumes "children_ok h t" "lo \<le> num_blocks t" "num_blocks t \<le> TREE_NODE_SIZE"
  shows "insert_result h lo (inorder t) (split_node t)"
proof (cases "num_blocks t = TREE_NODE_SIZE")
  case True
  obtain bs cs where t: "t = Node bs cs" by (cases t)
  have bs: "bs = take 63 bs @ bs ! 63 # drop 64 bs" using True id_take_nth_drop [of 63 bs] by (simp add: t TREE_NODE_SIZE_def)
  have len: "length bs = 128" using True by (simp add: t TREE_NODE_SIZE_def)
  have C: "children_ok h (Node (take 63 bs) (take 64 cs))" "children_ok h (Node (drop 64 bs) (drop 64 cs))"
    using assms(1) len by (auto simp: t children_ok_def split: nat.splits dest: in_set_takeD in_set_dropD)
  have "inorder (Node (take 63 bs) (take 64 cs)) @ bs ! 63 # inorder (Node (drop 64 bs) (drop 64 cs)) = inorder t"
  proof (cases h)
    case 0
    then show ?thesis using assms(1) bs by (simp add: t children_ok_def)
  next
    case (Suc k)
    then have "length (map inorder (take 64 cs)) = Suc (length (take 63 bs))" using assms(1) len by (simp add: t children_ok_def)
    from weave_join [OF this, of "bs ! 63" "drop 64 bs" "map inorder (drop 64 cs)"] show ?thesis
      using bs by (simp add: t flip: map_append)
  qed
  then show ?thesis using C True len
    by (simp add: insert_result_def split_node_def t TREE_NODE_SIZE_def TREE_NODE_MID_def balanced_iff)
next
  case False
  then show ?thesis using assms by (simp add: insert_result_def split_node_def balanced_iff)
qed

lemma splits_leaf:
  assumes "splits_at p s bs"
  shows "bs = take p bs @ drop p bs" "\<forall>b \<in> set (take p bs). startslot b < s" "\<forall>b \<in> set (drop p bs). s < startslot b"
  using assms by (simp_all add: splits_at_def)

lemma insert_at_append: "length xs = p \<Longrightarrow> insert_at p x (xs @ ys) = xs @ x # ys"
  by (simp add: insert_at_def)

lemma insert_at_simps [simp]: "length (insert_at p x xs) = Suc (length xs)" "set (insert_at p x xs) = insert x (set xs)"
proof -
  have "set (take p xs) \<union> set (drop p xs) = set xs" by (metis append_take_drop_id set_append)
  then show "set (insert_at p x xs) = insert x (set xs)" by (simp add: insert_at_def)
qed (simp add: insert_at_def)

definition splits_into :: "int \<Rightarrow> slotblock list \<Rightarrow> slotblock list \<Rightarrow> slotblock list \<Rightarrow> bool" where
  "splits_into s zs xs ys \<longleftrightarrow> zs = xs @ ys \<and> (\<forall>b \<in> set xs. startslot b < s) \<and> (\<forall>b \<in> set ys. s < startslot b)"

lemma btree_insert_int_ok:
  assumes "balanced h lo t" "0 < lo" "starts_sorted (inorder t)" "s \<notin> startslot ` set (inorder t)"
    and ins: "list_insert n ss = Some (x, ss1)"
  shows "\<exists>res xs ys. btree_insert_int ss t s n = Some (ss1, res) \<and> splits_into s (inorder t) xs ys \<and>
    insert_result h lo (xs @ \<lparr>startslot = s, nslots = n, listblock = x\<rparr> # ys) res"
  using assms(1-4)
proof (induction h arbitrary: t lo)
  case 0
  obtain bs where t: "t = Node bs []" using 0(1) by (cases t) auto
  have ne: "bs \<noteq> []" using 0(1,2) by (auto simp: t)
  let ?sb = "\<lparr>startslot = s, nslots = n, listblock = x\<rparr>"
  obtain r where r: "search_node (insert_test bs s) (length bs) = Some r" "splits_at (gap r) s bs"
    using insert_search [of bs s] 0(3,4) ne by (auto simp: t)
  let ?t = "Node (insert_at (gap r) ?sb bs) []"
  have "insert_result 0 lo (inorder ?t) (split_node ?t)"
    using 0(1) by (intro split_node_ok) (auto simp: t children_ok_def)
  moreover have "inorder ?t = take (gap r) bs @ ?sb # drop (gap r) bs" by (simp add: insert_at_def)
  moreover have "btree_insert_int ss t s n = Some (ss1, split_node ?t)"
    using r(1) ins by (subst btree_insert_int.simps) (simp add: t child_at_def Let_def)
  moreover have "splits_into s (inorder t) (take (gap r) bs) (drop (gap r) bs)"
    using splits_leaf [OF r(2)] by (simp add: splits_into_def t)
  ultimately show ?case by metis
next
  case (Suc h)
  obtain bs cs where t: "t = Node bs cs" by (cases t)
  let ?sb = "\<lparr>startslot = s, nslots = n, listblock = x\<rparr>"
  have len: "length cs = Suc (length bs)" and ne: "bs \<noteq> []" and cs: "\<forall>c \<in> set cs. balanced h TREE_NODE_MID c"
    and hi: "length bs < TREE_NODE_SIZE" "lo \<le> length bs"
    using Suc.prems(1,2) by (auto simp: t)
  have "s \<notin> startslot ` set bs" using Suc.prems(4) set_weave [of bs "map inorder cs"] by (auto simp: t)
  moreover have "starts_sorted bs" using Suc.prems(3) starts_node by (simp add: t)
  ultimately obtain r where r: "search_node (insert_test bs s) (length bs) = Some r" "splits_at (gap r) s bs"
    using insert_search ne by blast
  define p where "p = gap r"
  have p: "p \<le> length bs" using r(2) by (simp add: splits_at_def p_def)
  obtain bs1 bs2 cs1 c cs2 where B: "bs = bs1 @ bs2" "cs = cs1 @ c # cs2" "length bs1 = p" "length cs1 = p" "c = cs ! p"
    by (rule split_child [OF len p])
  have len': "length bs1 = length cs1" using B by simp
  let ?X = "pre bs1 (map inorder cs1)" and ?Y = "suf bs2 (map inorder cs2)"
  note E = inorder_child [OF len', of bs2 _ cs2]
  note A = around_child [OF Suc.prems(3) [unfolded t B(1,2)] len'] 
  have sp: "splits_at (length bs1) s (bs1 @ bs2)" using r(2) B by (simp add: p_def)
  have c: "balanced h TREE_NODE_MID c" using cs by (simp add: B(2))
  have "s \<notin> startslot ` set (inorder c)" using Suc.prems(4) E [of c] by (auto simp: t B(1,2))
  moreover have "0 < TREE_NODE_MID" by (simp add: TREE_NODE_MID_def)
  ultimately obtain res xs ys where I: "btree_insert_int ss c s n = Some (ss1, res)" "splits_into s (inorder c) xs ys"
    "insert_result h TREE_NODE_MID (xs @ ?sb # ys) res" using Suc.IH [OF c] A(3) [OF sp] by blast
  have spl: "splits_into s (inorder t) (?X @ xs) (ys @ ?Y)"
    using I(2) A(1,2) [OF sp] E [of c] by (auto simp: splits_into_def t B(1,2))
  obtain c1 irv where res: "res = (c1, irv)" by (cases res)
  have step: "child_at p t = Some c" using len p B(5) by (simp add: child_at_def t)
  show ?case
  proof (cases irv)
    case None
    let ?t = "Node bs (cs[p := c1])"
    have c1: "balanced h TREE_NODE_MID c1" "inorder c1 = xs @ ?sb # ys" using I(3) by (simp_all add: insert_result_def res None)
    have "balanced (Suc h) lo ?t" using c1(1) cs len hi set_update_subset_insert [of cs p c1] by auto
    moreover have "inorder ?t = (?X @ xs) @ ?sb # (ys @ ?Y)"
      using E [of c1] c1(2) B(4) by (simp add: B(1,2) list_update_append)
    moreover have "btree_insert_int ss t s n = Some (ss1, ?t, None)"
      using r(1) I(1) step by (subst btree_insert_int.simps) (simp add: t p_def Let_def res None)
    ultimately show ?thesis using spl by (intro exI [of _ "(?t, None)"] exI conjI) (auto simp: insert_result_def)
  next
    case (Some q)
    then obtain b d where irv: "irv = Some (b, d)" by (cases q) auto
    let ?t = "Node (insert_at p b bs) (insert_at (p + 1) d (cs[p := c1]))"
    have c1: "balanced h TREE_NODE_MID c1" "balanced h TREE_NODE_MID d" "inorder c1 @ b # inorder d = xs @ ?sb # ys"
      using I(3) by (simp_all add: insert_result_def res irv)
    have eq: "?t = Node (bs1 @ b # bs2) (cs1 @ c1 # d # cs2)"
      using B(3,4) by (simp add: B(1,2) list_update_append insert_at_def)
    have "inorder ?t = ?X @ (inorder c1 @ b # inorder d) @ ?Y" unfolding eq inorder_pair [OF len'] by simp
    then have "inorder ?t = (?X @ xs) @ ?sb # (ys @ ?Y)" unfolding c1(3) by simp
    moreover have "insert_result (Suc h) lo (inorder ?t) (split_node ?t)"
      unfolding eq using cs c1(1,2) len hi by (intro split_node_ok) (auto simp: children_ok_def B(1,2))
    moreover have "btree_insert_int ss t s n = Some (ss1, split_node ?t)"
      using r(1) I(1) step by (subst btree_insert_int.simps) (simp add: t p_def Let_def res irv)
    ultimately show ?thesis using spl by metis
  qed
qed

text \<open>The new root of a tree that got higher has one block.\<close>

lemma btree_insert_ok:
  assumes "tree_ok t" "starts_sorted (inorder t)" "s \<notin> startslot ` set (inorder t)" "list_insert n ss = Some (x, ss1)"
  shows "\<exists>t1 xs ys. btree_insert ss t s n = Some (ss1, t1) \<and> tree_ok t1 \<and> splits_into s (inorder t) xs ys \<and>
    inorder t1 = xs @ \<lparr>startslot = s, nslots = n, listblock = x\<rparr> # ys"
proof -
  obtain h where b: "balanced h (min_root h) t" using assms(1) by (auto simp: tree_ok_def)
  show ?thesis
  proof (cases "num_blocks t = 0")
    case True
    then have "h = 0" "t = Node [] []" using b by (cases h; cases t; auto simp: min_root_def)+
    then show ?thesis using assms(4)
      by (auto simp: btree_insert_def tree_ok_def splits_into_def min_root_def TREE_NODE_SIZE_def intro!: exI [of _ "0::nat"])
  next
    case False
    have b1: "balanced h 1 t" using b False by (simp add: balanced_iff Suc_le_eq)
    let ?zs = "\<lambda>xs ys. xs @ \<lparr>startslot = s, nslots = n, listblock = x\<rparr> # ys"
    obtain res xs ys where I: "btree_insert_int ss t s n = Some (ss1, res)" "splits_into s (inorder t) xs ys"
      "insert_result h 1 (?zs xs ys) res" using btree_insert_int_ok [OF b1 _ assms(2-4)] by auto
    obtain t1 irv where res: "res = (t1, irv)" by (cases res)
    show ?thesis
    proof (cases irv)
      case None
      then have t1: "balanced h 1 t1" "inorder t1 = ?zs xs ys" using I(3) by (simp_all add: insert_result_def res)
      have "balanced h (min_root h) t1" by (rule balanced_mono [OF t1(1)]) (simp add: min_root_def)
      then have "tree_ok t1" by (auto simp: tree_ok_def)
      then show ?thesis using I t1(2) False by (intro exI [of _ t1] exI [of _ xs] exI [of _ ys]) (simp add: btree_insert_def res None)
    next
      case (Some q)
      then obtain c d where irv: "irv = Some (c, d)" by (cases q) auto
      then have "balanced (Suc h) (min_root (Suc h)) (Node [c] [t1, d])" "inorder (Node [c] [t1, d]) = ?zs xs ys"
        using I(3) by (simp_all add: insert_result_def res min_root_def TREE_NODE_SIZE_def)
      then have "tree_ok (Node [c] [t1, d])" "inorder (Node [c] [t1, d]) = ?zs xs ys" unfolding tree_ok_def by blast+
      then show ?thesis using I False
        by (intro exI [of _ "Node [c] [t1, d]"] exI [of _ xs] exI [of _ ys]) (simp add: btree_insert_def res irv)
    qed
  qed
qed

section \<open>Rotations and merging\<close>

text \<open>Two neighbouring children and the block between them have the same contents before and after.\<close>

lemma shift_right:
  assumes "children_ok h (Node lb lc)" "children_ok h (Node rb rc)" "lb \<noteq> []"
  defines "n \<equiv> length lb"
  shows "inorder (Node (take (n - 1) lb) (take n lc)) @ lb ! (n - 1) # inorder (Node (b # rb) (drop n lc @ rc)) =
    inorder (Node lb lc) @ b # inorder (Node rb rc)"
proof -
  have lb: "lb = take (n - 1) lb @ [lb ! (n - 1)]" using assms(3) by (simp add: n_def take_Suc_conv_app_nth [symmetric])
  show ?thesis
  proof (cases h)
    case 0
    then show ?thesis using assms(1,2) lb by (simp add: children_ok_def)
  next
    case (Suc k)
    then have len: "length lc = Suc n" using assms(1) by (simp add: children_ok_def n_def)
    then have lc: "lc = take n lc @ [lc ! n]" "drop n lc = [lc ! n]"
      by (simp_all add: take_Suc_conv_app_nth [symmetric] Cons_nth_drop_Suc [symmetric])
    have "length (map inorder (take n lc)) = Suc (length (take (n - 1) lb))" using len assms(3) by (simp add: n_def)
    from weave_join [OF this, of "lb ! (n - 1)" "[]" "[inorder (lc ! n)]"]
    have "weave lb (map inorder lc) = weave (take (n - 1) lb) (map inorder (take n lc)) @ lb ! (n - 1) # inorder (lc ! n)"
      using lb lc(1) by (metis (no_types, lifting) list.simps(8,9) map_append weave.simps(2))
    then show ?thesis using lc(2) by simp
  qed
qed

lemma shift_left:
  assumes "children_ok h (Node lb lc)" "children_ok h (Node rb rc)" "rb \<noteq> []"
  shows "inorder (Node (lb @ [b]) (lc @ take 1 rc)) @ rb ! 0 # inorder (Node (drop 1 rb) (drop 1 rc)) =
    inorder (Node lb lc) @ b # inorder (Node rb rc)"
proof -
  obtain b0 rb' where rb: "rb = b0 # rb'" using assms(3) by (cases rb) auto
  show ?thesis
  proof (cases h)
    case 0
    then show ?thesis using assms(1,2) rb by (simp add: children_ok_def)
  next
    case (Suc k)
    then obtain c rc' where rc: "rc = c # rc'" using assms(2) by (cases rc) (auto simp: children_ok_def)
    have "length (map inorder lc) = Suc (length lb)" using assms(1) Suc by (simp add: children_ok_def)
    from weave_join [OF this, of b "[]" "[inorder c]"] show ?thesis by (simp add: rb rc)
  qed
qed

lemma merge_inorder:
  assumes "children_ok h (Node lb lc)" "children_ok h (Node rb rc)"
  shows "inorder (Node (lb @ b # rb) (lc @ rc)) = inorder (Node lb lc) @ b # inorder (Node rb rc)"
  using assms weave_join [of "map inorder lc" lb b rb "map inorder rc"] by (cases h) (simp_all add: children_ok_def)

lemma pair_update:
  assumes len: "length cs = Suc (length bs)" "i < length bs" and eq: "inorder l @ b # inorder r = inorder (cs ! i) @ bs ! i # inorder (cs ! (i + 1))"
  shows "inorder (Node (bs[i := b]) (cs[i := l, i + 1 := r])) = inorder (Node bs cs)"
proof -
  obtain bs1 bs2 cs1 cs2 where B: "bs = bs1 @ bs ! i # bs2" "cs = cs1 @ cs ! i # cs ! (i + 1) # cs2"
    "length bs1 = i" "length cs1 = i" by (rule split_pair [OF len])
  have len': "length bs1 = length cs1" using B by simp
  have u: "bs[i := b] = bs1 @ b # bs2" by (subst B(1)) (simp add: list_update_append B(3))
  have u': "cs[i := l, i + 1 := r] = cs1 @ l # r # cs2" by (subst B(2)) (simp add: list_update_append B(4))
  have "inorder (Node (bs[i := b]) (cs[i := l, i + 1 := r])) =
      pre bs1 (map inorder cs1) @ (inorder l @ b # inorder r) @ suf bs2 (map inorder cs2)"
    unfolding u u' inorder_pair [OF len'] by simp
  also have "\<dots> = inorder (Node (bs1 @ bs ! i # bs2) (cs1 @ cs ! i # cs ! (i + 1) # cs2))"
    unfolding eq inorder_pair [OF len'] by simp
  also have "\<dots> = inorder (Node bs cs)" using B(1,2) by simp
  finally show ?thesis .
qed

lemma rotate_right_ok:
  assumes len: "length cs = Suc (length bs)" "i < length bs"
    and l: "balanced h TREE_NODE_MID (cs ! i)" "TREE_NODE_MID < num_blocks (cs ! i)"
    and r: "balanced h (TREE_NODE_MID - 1) (cs ! (i + 1))" "num_blocks (cs ! (i + 1)) < TREE_NODE_MID"
  obtains b l' r' where "rotate_right (i + 1) (Node bs cs) = Node (bs[i := b]) (cs[i := l', i + 1 := r'])"
    "balanced h TREE_NODE_MID l'" "balanced h TREE_NODE_MID r'"
    "inorder l' @ b # inorder r' = inorder (cs ! i) @ bs ! i # inorder (cs ! (i + 1))"
proof -
  obtain lb lc rb rc where c: "cs ! i = Node lb lc" "cs ! (i + 1) = Node rb rc" by (metis btreenode.exhaust)
  let ?n = "length lb"
  let ?l = "Node (take (?n - 1) lb) (take ?n lc)" and ?r = "Node (bs ! i # rb) (drop ?n lc @ rc)"
  have C: "children_ok h (Node lb lc)" "children_ok h (Node rb rc)" using l(1) r(1) c by (simp_all add: balanced_iff)
  have nb: "lb \<noteq> []" using l(2) c by auto
  have "children_ok h ?l" "children_ok h ?r"
    using C nb by (auto simp: children_ok_def split: nat.splits dest: in_set_takeD in_set_dropD)
  then have "balanced h TREE_NODE_MID ?l" "balanced h TREE_NODE_MID ?r"
    using l r c by (auto simp: balanced_iff TREE_NODE_MID_def TREE_NODE_SIZE_def)
  moreover have "rotate_right (i + 1) (Node bs cs) = Node (bs[i := lb ! (?n - 1)]) (cs[i := ?l, i + 1 := ?r])"
    using c by (simp add: rotate_right_def Let_def list_update_swap)
  moreover have "inorder ?l @ lb ! (?n - 1) # inorder ?r = inorder (cs ! i) @ bs ! i # inorder (cs ! (i + 1))"
    unfolding c by (rule shift_right [OF C nb])
  ultimately show ?thesis using that by blast
qed

lemma rotate_left_ok:
  assumes len: "length cs = Suc (length bs)" "i < length bs"
    and l: "balanced h (TREE_NODE_MID - 1) (cs ! i)" "num_blocks (cs ! i) < TREE_NODE_MID"
    and r: "balanced h TREE_NODE_MID (cs ! (i + 1))" "TREE_NODE_MID < num_blocks (cs ! (i + 1))"
  obtains b l' r' where "rotate_left i (Node bs cs) = Node (bs[i := b]) (cs[i := l', i + 1 := r'])"
    "balanced h TREE_NODE_MID l'" "balanced h TREE_NODE_MID r'"
    "inorder l' @ b # inorder r' = inorder (cs ! i) @ bs ! i # inorder (cs ! (i + 1))"
proof -
  obtain lb lc rb rc where c: "cs ! i = Node lb lc" "cs ! (i + 1) = Node rb rc" by (metis btreenode.exhaust)
  let ?l = "Node (lb @ [bs ! i]) (lc @ take 1 rc)" and ?r = "Node (drop 1 rb) (drop 1 rc)"
  have C: "children_ok h (Node lb lc)" "children_ok h (Node rb rc)" using l(1) r(1) c by (simp_all add: balanced_iff)
  have nb: "rb \<noteq> []" using r(2) c by auto
  have "children_ok h ?l" "children_ok h ?r"
    using C nb by (auto simp: children_ok_def split: nat.splits dest: in_set_takeD in_set_dropD)
  then have "balanced h TREE_NODE_MID ?l" "balanced h TREE_NODE_MID ?r"
    using l r c by (auto simp: balanced_iff TREE_NODE_MID_def TREE_NODE_SIZE_def)
  moreover have "rotate_left i (Node bs cs) = Node (bs[i := rb ! 0]) (cs[i := ?l, i + 1 := ?r])"
    using c by (simp add: rotate_left_def Let_def)
  moreover have "inorder ?l @ rb ! 0 # inorder ?r = inorder (cs ! i) @ bs ! i # inorder (cs ! (i + 1))"
    unfolding c by (rule shift_left [OF C nb])
  ultimately show ?thesis using that by blast
qed

lemma merge_children_ok:
  assumes len: "length cs = Suc (length bs)" "i < length bs"
    and l: "balanced h (TREE_NODE_MID - 1) (cs ! i)" "num_blocks (cs ! i) \<le> TREE_NODE_MID"
    and r: "balanced h (TREE_NODE_MID - 1) (cs ! (i + 1))" "num_blocks (cs ! (i + 1)) \<le> TREE_NODE_MID"
    and o: "\<And>j. j < length cs \<Longrightarrow> j \<noteq> i \<Longrightarrow> j \<noteq> i + 1 \<Longrightarrow> balanced h TREE_NODE_MID (cs ! j)"
    and hi: "length bs < TREE_NODE_SIZE"
  shows "balanced (Suc h) (length bs - 1) (merge_children i (Node bs cs))"
    "inorder (merge_children i (Node bs cs)) = inorder (Node bs cs)"
proof -
  obtain lb lc rb rc where c: "cs ! i = Node lb lc" "cs ! (i + 1) = Node rb rc" by (metis btreenode.exhaust)
  obtain bs1 bs2 cs1 cs2 where B: "bs = bs1 @ bs ! i # bs2" "cs = cs1 @ cs ! i # cs ! (i + 1) # cs2"
    "length bs1 = i" "length cs1 = i" "length cs2 = length bs2" by (rule split_pair [OF len])
  have C: "children_ok h (Node lb lc)" "children_ok h (Node rb rc)" using l(1) r(1) c by (simp_all add: balanced_iff)
  let ?m = "Node (lb @ bs ! i # rb) (lc @ rc)"
  have "children_ok h ?m" using C by (auto simp: children_ok_def split: nat.splits)
  then have m: "balanced h TREE_NODE_MID ?m" using l r c by (auto simp: balanced_iff TREE_NODE_MID_def TREE_NODE_SIZE_def)
  have u: "remove_at i bs = bs1 @ bs2" by (subst B(1)) (simp add: remove_at_def B(3))
  have "cs[i := ?m] = cs1 @ ?m # cs ! (i + 1) # cs2" by (subst B(2)) (simp add: list_update_append B(4))
  then have u': "remove_at (i + 1) (cs[i := ?m]) = cs1 @ ?m # cs2" by (simp add: remove_at_def B(4))
  have eq: "merge_children i (Node bs cs) = Node (bs1 @ bs2) (cs1 @ ?m # cs2)"
    using c u u' by (simp add: merge_children_def Let_def)
  have "balanced h TREE_NODE_MID d" if "d \<in> set cs1 \<union> set cs2" for d
  proof -
    from that consider j where "d = cs1 ! j" "j < i" | j where "d = cs2 ! j" "j < length cs2"
      using B(4) by (auto simp: in_set_conv_nth)
    then show ?thesis
    proof cases
      case 1
      then have "cs ! j = d" using B(4) by (subst B(2)) (simp add: nth_append)
      then show ?thesis using o [of j] 1 len by auto
    next
      case 2
      then have "cs ! (i + 2 + j) = d" using B(4) by (subst B(2)) (simp add: nth_append)
      moreover have "i + 2 + j < length cs" using 2(2) B(4) by (subst B(2)) simp
      ultimately show ?thesis using o [of "i + 2 + j"] by auto
    qed
  qed
  moreover have "length bs = length bs1 + length bs2 + 1" by (subst B(1)) simp
  ultimately show "balanced (Suc h) (length bs - 1) (merge_children i (Node bs cs))"
    using m hi B(3-5) unfolding eq by auto
  have len': "length bs1 = length cs1" using B by simp
  have "inorder (Node (bs1 @ bs2) (cs1 @ ?m # cs2)) =
      pre bs1 (map inorder cs1) @ (inorder (cs ! i) @ bs ! i # inorder (cs ! (i + 1))) @ suf bs2 (map inorder cs2)"
    unfolding inorder_child [OF len'] merge_inorder [OF C] c by simp
  also have "\<dots> = inorder (Node bs cs)" 
    unfolding inorder_pair [OF len', of "bs ! i" bs2 "cs ! i" "cs ! (i + 1)" cs2, folded B(1,2)] by simp
  finally show "inorder (merge_children i (Node bs cs)) = inorder (Node bs cs)" unfolding eq .
qed

lemma rebalance_ok:
  assumes len: "length cs = Suc (length bs)" "i < length bs" and k: "k = i \<or> k = i + 1"
    and c: "balanced h (TREE_NODE_MID - 1) (cs ! k)"
    and o: "\<And>j. j < length cs \<Longrightarrow> j \<noteq> k \<Longrightarrow> balanced h TREE_NODE_MID (cs ! j)"
    and hi: "length bs < TREE_NODE_SIZE"
  shows "\<exists>t. rebalance i (Node bs cs) = Some t \<and> inorder t = inorder (Node bs cs) \<and> balanced (Suc h) (length bs - 1) t"
proof (cases "num_blocks (cs ! k) < TREE_NODE_MID")
  case False
  then have k': "balanced h TREE_NODE_MID (cs ! k)" using c by (simp add: balanced_iff)
  have all: "balanced h TREE_NODE_MID (cs ! j)" if "j < length cs" for j using o [OF that] k' by (cases "j = k") auto
  then have "\<forall>d \<in> set cs. balanced h TREE_NODE_MID d" by (auto simp: in_set_conv_nth)
  moreover have "TREE_NODE_MID \<le> num_blocks (cs ! i)" "TREE_NODE_MID \<le> num_blocks (cs ! (i + 1))"
    using all [of i] all [of "i + 1"] len by (auto dest: balanced_blocks)
  ultimately show ?thesis using len hi by (simp add: rebalance_def Let_def)
next
  case def: True
  have o63: "TREE_NODE_MID \<le> num_blocks (cs ! j)" if "j < length cs" "j \<noteq> k" for j using balanced_blocks [OF o [OF that]] by simp
  have kl: "k < length cs" using k len by auto
  have upd: "\<forall>d \<in> set (cs[j := l, j + 1 := r]). balanced h TREE_NODE_MID d"
    if jk: "j = k \<or> j + 1 = k" "balanced h TREE_NODE_MID l" "balanced h TREE_NODE_MID r" for j l r
  proof -
    have "balanced h TREE_NODE_MID (cs[j := l, j + 1 := r] ! m)" if m: "m < length cs" for m
    proof (cases "m = j \<or> m = j + 1")
      case True
      then show ?thesis using m jk(2,3) by (auto simp: nth_list_update)
    next
      case False
      then have "m \<noteq> k" using jk(1) by auto
      then show ?thesis using o [OF m] False by auto
    qed
    then show ?thesis by (auto simp: in_set_conv_nth)
  qed
  have R: "rebalance i (Node bs cs) =
      (if k \<noteq> 0 \<and> TREE_NODE_MID < num_blocks (cs ! (k - 1)) then Some (rotate_right k (Node bs cs))
       else if k + 1 \<le> length bs \<and> TREE_NODE_MID < num_blocks (cs ! (k + 1)) then Some (rotate_left k (Node bs cs))
       else Some (merge_children i (Node bs cs)))"
  proof (cases "k = i")
    case True
    have "bs \<noteq> []" using len(2) by auto
    then show ?thesis using True def len by (simp add: rebalance_def Let_def)
  next
    case False
    then have ki: "k = i + 1" "\<not> num_blocks (cs ! i) < TREE_NODE_MID" using k o63 [of i] len by auto
    have d: "nat (int i + 1) = i + 1" by simp
    show ?thesis using ki def len unfolding rebalance_def Let_def by (simp add: d)
  qed
  consider (right) "k \<noteq> 0" "TREE_NODE_MID < num_blocks (cs ! (k - 1))"
    | (left) "\<not> (k \<noteq> 0 \<and> TREE_NODE_MID < num_blocks (cs ! (k - 1)))" "k + 1 \<le> length bs" "TREE_NODE_MID < num_blocks (cs ! (k + 1))"
    | (merge) "\<not> (k \<noteq> 0 \<and> TREE_NODE_MID < num_blocks (cs ! (k - 1)))" "\<not> (k + 1 \<le> length bs \<and> TREE_NODE_MID < num_blocks (cs ! (k + 1)))"
    by blast
  then show ?thesis
  proof cases
    case right
    then obtain j where j: "k = j + 1" by (metis Suc_eq_plus1 not0_implies_Suc)
    have jb: "j < length bs" using j kl len by simp
    have P: "balanced h TREE_NODE_MID (cs ! j)" "TREE_NODE_MID < num_blocks (cs ! j)"
      "balanced h (TREE_NODE_MID - 1) (cs ! (j + 1))" "num_blocks (cs ! (j + 1)) < TREE_NODE_MID"
      using o [of j] c j kl right(2) def by simp_all
    obtain b l r where T: "rotate_right (j + 1) (Node bs cs) = Node (bs[j := b]) (cs[j := l, j + 1 := r])"
      "balanced h TREE_NODE_MID l" "balanced h TREE_NODE_MID r"
      "inorder l @ b # inorder r = inorder (cs ! j) @ bs ! j # inorder (cs ! (j + 1))"
      by (rule rotate_right_ok [OF len(1) jb P])
    have "balanced (Suc h) (length bs - 1) (Node (bs[j := b]) (cs[j := l, j + 1 := r]))"
      using upd [of j l r] T(2,3) j len hi by simp
    then show ?thesis using R right T(1) pair_update [OF len(1) jb T(4)] j by simp
  next
    case left
    have kb: "k < length bs" using left(2) by simp
    have P: "balanced h TREE_NODE_MID (cs ! (k + 1))" using o [of "k + 1"] kb len by auto
    obtain b l r where T: "rotate_left k (Node bs cs) = Node (bs[k := b]) (cs[k := l, k + 1 := r])"
      "balanced h TREE_NODE_MID l" "balanced h TREE_NODE_MID r"
      "inorder l @ b # inorder r = inorder (cs ! k) @ bs ! k # inorder (cs ! (k + 1))"
      by (rule rotate_left_ok [OF len(1) kb c def P left(3)])
    have "balanced (Suc h) (length bs - 1) (Node (bs[k := b]) (cs[k := l, k + 1 := r]))"
      using upd [of k l r] T(2,3) len hi by simp
    moreover have "rebalance i (Node bs cs) = Some (rotate_left k (Node bs cs))"
      unfolding R using left by (simp only: if_False if_True simp_thms)
    ultimately show ?thesis using T(1) pair_update [OF len(1) kb T(4)] by (metis T(1))
  next
    case merge
    have m: "balanced h (TREE_NODE_MID - 1) (cs ! j) \<and> num_blocks (cs ! j) \<le> TREE_NODE_MID" if "j = i \<or> j = i + 1" for j
    proof (cases "j = k")
      case False
      then have "j + 1 = k \<or> j = k + 1" "j < length cs" using that k len by auto
      moreover from this have "balanced h (TREE_NODE_MID - 1) (cs ! j)" using o [of j] False balanced_mono by auto
      moreover have "num_blocks (cs ! j) \<le> TREE_NODE_MID" using merge calculation(1,2) len by (auto simp: not_less)
      ultimately show ?thesis by simp
    qed (use c def in simp)
    have o': "balanced h TREE_NODE_MID (cs ! j)" if "j < length cs" "j \<noteq> i" "j \<noteq> i + 1" for j using o [OF that(1)] that k by auto
    have "rebalance i (Node bs cs) = Some (merge_children i (Node bs cs))"
      unfolding R using merge by (simp only: if_False if_True simp_thms)
    moreover note merge_children_ok [OF len _ _ _ _ o' hi]
    ultimately show ?thesis using m [of i] m [of "i + 1"] by blast
  qed
qed

section \<open>Deletion\<close>

text \<open>After a child lost a block, rebalancing gives back a balanced node with at most one block less.\<close>

lemma rebalance_child:
  assumes t: "balanced (Suc h) lo (Node bs cs)" and i: "i < length bs" and k: "k = i \<or> k = i + 1"
    and c: "balanced h (TREE_NODE_MID - 1) c" and bs': "length bs' = length bs"
  shows "\<exists>t. rebalance i (Node bs' (cs[k := c])) = Some t \<and> inorder t = inorder (Node bs' (cs[k := c])) \<and> balanced (Suc h) (lo - 1) t"
proof -
  have len: "length cs = Suc (length bs)" and hi: "length bs < TREE_NODE_SIZE" and lo: "lo \<le> length bs"
    and cs: "\<forall>d \<in> set cs. balanced h TREE_NODE_MID d" using t by auto
  have kl: "k < length cs" using k i len by auto
  have o: "balanced h TREE_NODE_MID (cs[k := c] ! j)" if "j < length (cs[k := c])" "j \<noteq> k" for j using cs that by simp
  have c': "balanced h (TREE_NODE_MID - 1) (cs[k := c] ! k)" using c kl by simp
  have "length (cs[k := c]) = Suc (length bs')" "i < length bs'" "length bs' < TREE_NODE_SIZE" using len bs' i hi by simp_all
  from rebalance_ok [OF this(1,2) k c' o this(3)] obtain t where
    T: "rebalance i (Node bs' (cs[k := c])) = Some t" "inorder t = inorder (Node bs' (cs[k := c]))" "balanced (Suc h) (length bs' - 1) t"
    by blast
  moreover have "balanced (Suc h) (lo - 1) t" by (rule balanced_mono [OF T(3)]) (use lo bs' in simp)
  ultimately show ?thesis by blast
qed

lemma delete_first_ok:
  assumes "balanced h lo t" "0 < lo" and del: "list_delete sb ss = Some ss1"
  shows "\<exists>t1 b. btree_delete_int ss t s (Some sb) = Some (ss1, t1, Some b) \<and> inorder t = b # inorder t1 \<and> balanced h (lo - 1) t1"
  using assms(1,2)
proof (induction h arbitrary: t lo)
  case 0
  then obtain b bs where t: "t = Node (b # bs) []" by (cases t; cases "blocks t") auto
  have "btree_delete_int ss t s (Some sb) = Some (ss1, Node bs [], Some b)"
    using del by (subst btree_delete_int.simps) (simp add: t child_at_def)
  then show ?case using 0 by (auto simp: t)
next
  case (Suc h)
  obtain bs cs where t: "t = Node bs cs" by (cases t)
  obtain c cs' where cs: "cs = c # cs'" using Suc.prems by (cases cs) (auto simp: t)
  have ne: "0 < length bs" using Suc.prems by (auto simp: t)
  have c: "balanced h TREE_NODE_MID c" "0 < TREE_NODE_MID" using Suc.prems(1) by (auto simp: t cs TREE_NODE_MID_def)
  obtain c1 b where I: "btree_delete_int ss c s (Some sb) = Some (ss1, c1, Some b)" "inorder c = b # inorder c1" "balanced h (TREE_NODE_MID - 1) c1"
    using Suc.IH [OF c] by blast
  from rebalance_child [OF Suc.prems(1) [unfolded t] ne _ I(3) refl] obtain t1 where
    T: "rebalance 0 (Node bs (cs[0 := c1])) = Some t1" "inorder t1 = inorder (Node bs (cs[0 := c1]))" "balanced (Suc h) (lo - 1) t1" by blast
  have "inorder t = b # inorder t1" using I(2) T(2) by (simp add: t cs weave_first)
  moreover have "btree_delete_int ss t s (Some sb) = Some (ss1, t1, Some b)"
    using I(1) T(1) by (subst btree_delete_int.simps) (simp add: t cs child_at_def)
  ultimately show ?case using T(3) by blast
qed

lemma inorder_replace:
  assumes "length cs = Suc (length bs)" "i < length bs"
  obtains xs ys where "\<forall>b c. inorder (Node (bs[i := b]) (cs[i + 1 := c])) = xs @ b # inorder c @ ys"
proof -
  obtain bs1 bs2 cs1 cs2 where B: "bs = bs1 @ bs ! i # bs2" "cs = cs1 @ cs ! i # cs ! (i + 1) # cs2"
    "length bs1 = i" "length cs1 = i" by (rule split_pair [OF assms])
  have len': "length bs1 = length cs1" using B by simp
  have u: "bs[i := b] = bs1 @ b # bs2" for b by (subst B(1)) (simp add: list_update_append B(3))
  have u': "cs[i + 1 := c] = cs1 @ cs ! i # c # cs2" for c by (subst B(2)) (simp add: list_update_append B(4))
  show ?thesis
  proof (rule that, intro allI)
    show "inorder (Node (bs[i := b]) (cs[i + 1 := c])) =
        (pre bs1 (map inorder cs1) @ inorder (cs ! i)) @ b # inorder c @ suf bs2 (map inorder cs2)" for b c
      unfolding u u' inorder_pair [OF len'] by simp
  qed
qed

lemma starts_inj: "starts_sorted zs \<Longrightarrow> a \<in> set zs \<Longrightarrow> b \<in> set zs \<Longrightarrow> startslot a = startslot b \<Longrightarrow> a = b"
  by (induction zs) (auto simp: starts_sorted_def)

definition removed :: "slotblock \<Rightarrow> slotblock list \<Rightarrow> slotblock list \<Rightarrow> bool" where
  "removed b zs zs' \<longleftrightarrow> (\<exists>xs ys. zs = xs @ b # ys \<and> zs' = xs @ ys)"

lemma removed_around: "removed b zs zs' \<Longrightarrow> removed b (xs @ zs @ ys) (xs @ zs' @ ys)"
  unfolding removed_def by (elim exE conjE, rule_tac x = "xs @ xsa" in exI, rule_tac x = "ysa @ ys" in exI) simp

text \<open>One level of the descent to a child, on either side of the index where the search ended.\<close>

lemma delete_descend:
  assumes t: "balanced (Suc h) lo (Node bs cs)" and so: "starts_sorted (inorder (Node bs cs))" and i: "i < length bs"
    and k: "k = i \<or> k = i + 1" and sp: "splits_at k s bs"
    and b: "b \<in> set (inorder (Node bs cs))" "startslot b = s"
    and IH: "\<And>c. balanced h TREE_NODE_MID c \<Longrightarrow> starts_sorted (inorder c) \<Longrightarrow> b \<in> set (inorder c) \<Longrightarrow>
      \<exists>c1. P c c1 \<and> removed b (inorder c) (inorder c1) \<and> balanced h (TREE_NODE_MID - 1) c1"
  shows "\<exists>c1 t1. child_at k (Node bs cs) = Some (cs ! k) \<and> P (cs ! k) c1 \<and> rebalance i (Node bs (cs[k := c1])) = Some t1 \<and>
    removed b (inorder (Node bs cs)) (inorder t1) \<and> balanced (Suc h) (lo - 1) t1"
proof -
  have len: "length cs = Suc (length bs)" and cs: "\<forall>d \<in> set cs. balanced h TREE_NODE_MID d" using t by auto
  have kb: "k \<le> length bs" using k i by auto
  obtain bs1 bs2 cs1 c cs2 where B: "bs = bs1 @ bs2" "cs = cs1 @ c # cs2" "length bs1 = k" "length cs1 = k" "c = cs ! k"
    by (rule split_child [OF len kb])
  have len': "length bs1 = length cs1" using B by simp
  note E = inorder_child [OF len', of bs2 _ cs2]
  have sp': "splits_at (length bs1) s (bs1 @ bs2)" using sp B by simp
  note A = around_child [OF so [unfolded B(1,2)] len' sp']
  have "b \<in> set (inorder c)" using b A(1,2) E [of c] by (auto simp: B(1,2))
  moreover have "balanced h TREE_NODE_MID c" using cs by (simp add: B(2))
  ultimately obtain c1 where I: "P c c1" "removed b (inorder c) (inorder c1)" "balanced h (TREE_NODE_MID - 1) c1"
    using IH A(3) by blast
  from rebalance_child [OF t i k I(3) refl] obtain t1 where
    T: "rebalance i (Node bs (cs[k := c1])) = Some t1" "inorder t1 = inorder (Node bs (cs[k := c1]))" "balanced (Suc h) (lo - 1) t1" by blast
  have "inorder t1 = pre bs1 (map inorder cs1) @ inorder c1 @ suf bs2 (map inorder cs2)"
    using T(2) E [of c1] B(4) by (simp add: B(1,2) list_update_append)
  then have "removed b (inorder (Node bs cs)) (inorder t1)" using removed_around [OF I(2)] E [of c] by (simp add: B(1,2))
  moreover have "child_at k (Node bs cs) = Some (cs ! k)" using len kb by (simp add: child_at_def)
  ultimately show ?thesis using I(1) T B(5) by blast
qed

lemma btree_delete_int_ok:
  assumes "balanced h lo t" "0 < lo" "starts_sorted (inorder t)" "b \<in> set (inorder t)" and s: "startslot b = s"
    and del: "list_delete b ss = Some ss1"
  shows "\<exists>t1. btree_delete_int ss t s None = Some (ss1, t1, None) \<and> removed b (inorder t) (inorder t1) \<and> balanced h (lo - 1) t1"
  using assms(1-4)
proof (induction h arbitrary: t lo)
  case 0
  obtain bs where t: "t = Node bs []" using 0(1) by (cases t) auto
  have ne: "bs \<noteq> []" and b: "b \<in> set bs" and so: "starts_sorted bs" using 0 by (auto simp: t)
  obtain r where r: "search_node (delete_test bs s) (length bs) = Some r" "delete_spot bs s r" by (rule delete_search [OF so ne])
  have no: False if "splits_at p s bs" for p
  proof -
    have "b \<in> set (take p bs) \<or> b \<in> set (drop p bs)" using b by (metis append_take_drop_id Un_iff set_append)
    then show False using that s by (auto simp: splits_at_def)
  qed
  then obtain i where i: "r = Here i" "i < length bs" "startslot (bs ! i) = s"
    using r(2) by (cases r) (auto simp: delete_spot_def)
  then have bi: "bs ! i = b" using starts_inj [OF so] b s by (metis nth_mem)
  have "removed b bs (remove_at i bs)" using id_take_nth_drop [OF i(2)] bi by (auto simp: removed_def remove_at_def)
  moreover have "btree_delete_int ss t s None = Some (ss1, Node (remove_at i bs) [], None)"
    using r(1) i(1) bi del by (subst btree_delete_int.simps) (simp add: t child_at_def)
  ultimately show ?case using 0(1,2) i(2) by (intro exI [of _ "Node (remove_at i bs) []"]) (auto simp: t remove_at_def)
next
  case (Suc h)
  obtain bs cs where t: "t = Node bs cs" by (cases t)
  have len: "length cs = Suc (length bs)" and ne: "bs \<noteq> []" and cs: "\<forall>c \<in> set cs. balanced h TREE_NODE_MID c"
    using Suc.prems(1,2) by (auto simp: t)
  have m0: "0 < TREE_NODE_MID" by (simp add: TREE_NODE_MID_def)
  note so = starts_node [OF Suc.prems(3) [unfolded t]]
  obtain r where r: "search_node (delete_test bs s) (length bs) = Some r" "delete_spot bs s r" by (rule delete_search [OF so ne])
  note D = delete_descend [OF Suc.prems(1) [unfolded t] Suc.prems(3) [unfolded t] _ _ _ Suc.prems(4) [unfolded t] s,
    where P = "\<lambda>c c1. btree_delete_int ss c s None = Some (ss1, c1, None)", OF _ _ _ Suc.IH [OF _ m0]]
  show ?case
  proof (cases r)
    case (Here i)
    then have i: "i < length bs" "startslot (bs ! i) = s" using r(2) by (auto simp: delete_spot_def)
    have "bs ! i \<in> set (inorder t)" using i(1) set_weave [of bs "map inorder cs"] by (auto simp: t)
    then have bi: "bs ! i = b" using starts_inj [OF Suc.prems(3) _ Suc.prems(4)] i(2) s by simp
    have c: "balanced h TREE_NODE_MID (cs ! (i + 1))" using cs len i(1) by simp
    obtain c1 b1 where I: "btree_delete_int ss (cs ! (i + 1)) s (Some b) = Some (ss1, c1, Some b1)"
      "inorder (cs ! (i + 1)) = b1 # inorder c1" "balanced h (TREE_NODE_MID - 1) c1" using delete_first_ok [OF c m0 del] by blast
    obtain xs ys where E0: "\<forall>b c. inorder (Node (bs[i := b]) (cs[i + 1 := c])) = xs @ b # inorder c @ ys"
      by (rule inorder_replace [OF len i(1)])
    note E = E0 [rule_format]
    obtain t1 where T: "rebalance i (Node (bs[i := b1]) (cs[i + 1 := c1])) = Some t1"
      "inorder t1 = inorder (Node (bs[i := b1]) (cs[i + 1 := c1]))" "balanced (Suc h) (lo - 1) t1"
      using rebalance_child [OF Suc.prems(1) [unfolded t] i(1) _ I(3), of "i + 1" "bs[i := b1]"] by auto
    have "inorder t = xs @ b # b1 # inorder c1 @ ys" using E [of "bs ! i" "cs ! (i + 1)"] I(2) bi unfolding t list_update_id by simp
    then have "removed b (inorder t) (inorder t1)" using T(2) E [of b1 c1] by (auto simp: removed_def)
    moreover have "btree_delete_int ss t s None = Some (ss1, t1, None)"
      using r(1) Here I(1) T(1) len i(1) bi by (subst btree_delete_int.simps) (simp add: t child_at_def)
    ultimately show ?thesis using T(3) by blast
  next
    case (LeftOf i)
    then have i: "i < length bs" "splits_at i s bs" using r(2) by (auto simp: delete_spot_def)
    from D [OF i(1) _ i(2)] obtain c1 t1 where I: "child_at i (Node bs cs) = Some (cs ! i)"
      "btree_delete_int ss (cs ! i) s None = Some (ss1, c1, None)" "rebalance i (Node bs (cs[i := c1])) = Some t1"
      "removed b (inorder t) (inorder t1)" "balanced (Suc h) (lo - 1) t1" unfolding t by blast
    have "btree_delete_int ss t s None = Some (ss1, t1, None)"
      using r(1) LeftOf I(1-3) by (subst btree_delete_int.simps) (simp add: t)
    then show ?thesis using I(4,5) by blast
  next
    case (RightOf i)
    then have i: "i < length bs" "splits_at (i + 1) s bs" using r(2) by (auto simp: delete_spot_def)
    from D [OF i(1) _ i(2)] obtain c1 t1 where I: "child_at (i + 1) (Node bs cs) = Some (cs ! (i + 1))"
      "btree_delete_int ss (cs ! (i + 1)) s None = Some (ss1, c1, None)" "rebalance i (Node bs (cs[i + 1 := c1])) = Some t1"
      "removed b (inorder t) (inorder t1)" "balanced (Suc h) (lo - 1) t1" unfolding t by blast
    have "btree_delete_int ss t s None = Some (ss1, t1, None)"
      using r(1) RightOf I(1-3) by (subst btree_delete_int.simps) (simp add: t)
    then show ?thesis using I(4,5) by blast
  qed
qed

text \<open>A root that lost its last block to a merge is replaced by its only child.\<close>

lemma btree_delete_ok:
  assumes "tree_ok t" "starts_sorted (inorder t)" "b \<in> set (inorder t)" "list_delete b ss = Some ss1"
  shows "\<exists>t1. btree_delete ss t (startslot b) = Some (ss1, t1) \<and> tree_ok t1 \<and> removed b (inorder t) (inorder t1)"
proof -
  obtain h where bal: "balanced h (min_root h) t" using assms(1) by (auto simp: tree_ok_def)
  have "0 < num_blocks t"
  proof (cases h)
    case 0
    then have "inorder t = blocks t" using bal by (cases t) auto
    then show ?thesis using assms(3) by (metis length_pos_if_in_set)
  qed (use bal in \<open>auto simp: min_root_def\<close>)
  then have b1: "balanced h 1 t" using bal by (simp add: balanced_iff Suc_le_eq)
  from btree_delete_int_ok [OF b1 _ assms(2,3) refl assms(4)] obtain t1 where
    T: "btree_delete_int ss t (startslot b) None = Some (ss1, t1, None)" "removed b (inorder t) (inorder t1)" "balanced h 0 t1" by auto
  show ?thesis
  proof (cases "num_blocks t1 = 0 \<and> child t1 \<noteq> []")
    case True
    then obtain k where h: "h = Suc k" using T(3) by (cases h) auto
    have "length (child t1) = 1" using True T(3) by (simp add: h)
    then obtain c where t1: "t1 = Node [] [c]" using True by (cases t1) (auto simp: length_Suc_conv)
    have "balanced k TREE_NODE_MID c" using T(3) by (simp add: h t1)
    moreover have "min_root k \<le> TREE_NODE_MID" by (simp add: min_root_def TREE_NODE_MID_def)
    ultimately have "tree_ok c" unfolding tree_ok_def by (blast intro: balanced_mono)
    then show ?thesis using T(1,2) by (intro exI [of _ c]) (simp add: btree_delete_def t1 child_at_def)
  next
    case False
    have "tree_ok t1"
    proof (cases "child t1 = []")
      case True
      then have "h = 0" using T(3) by (cases h) auto
      then show ?thesis using T(3) by (auto simp: tree_ok_def min_root_def)
    next
      case ch: False
      then have "1 \<le> num_blocks t1" using False by (simp add: Suc_le_eq)
      then have "balanced h 1 t1" using T(3) by (simp add: balanced_iff)
      then have "balanced h (min_root h) t1" by (rule balanced_mono) (simp add: min_root_def)
      then show ?thesis unfolding tree_ok_def by blast
    qed
    then show ?thesis using T(1,2) False by (intro exI [of _ t1]) (auto simp: btree_delete_def child_at_def)
  qed
qed

section \<open>The tree\<close>

text \<open>
  C29.  A tree whose nodes have 63 to 127 blocks (the root at least one, unless it is a leaf), all leaves at one depth and
  disjoint blocks in order is kept in that shape by insertion and deletion, which never fail: an insertion of a new start
  slot puts the block between those that start before and after it, a deletion removes exactly the block with the start
  slot, and a search ends with the block that contains the slot, or with \<open>NULL\<close> when there is none.
\<close>

theorem btree_well_formed:
  assumes "tree_ok t" "blocks_disjoint (inorder t)" "0 \<le> s"
  shows "(\<exists>r. find_btree_slotblock t s = Some r \<and>
      (case r of None \<Rightarrow> \<forall>b \<in> set (inorder t). \<not> in_block s b | Some b \<Rightarrow> b \<in> set (inorder t) \<and> in_block s b)) \<and>
    (\<forall>n ss x ss1. s \<notin> startslot ` set (inorder t) \<and> list_insert n ss = Some (x, ss1) \<longrightarrow>
      (\<exists>t1 xs ys. btree_insert ss t s n = Some (ss1, t1) \<and> tree_ok t1 \<and> splits_into s (inorder t) xs ys \<and>
        inorder t1 = xs @ \<lparr>startslot = s, nslots = n, listblock = x\<rparr> # ys)) \<and>
    (\<forall>b ss ss1. b \<in> set (inorder t) \<and> list_delete b ss = Some ss1 \<longrightarrow>
      (\<exists>t1. btree_delete ss t (startslot b) = Some (ss1, t1) \<and> tree_ok t1 \<and> removed b (inorder t) (inorder t1)))"
proof -
  obtain h where h: "balanced h (min_root h) t" using assms(1) by (auto simp: tree_ok_def)
  note so = disjoint_starts [OF assms(2)]
  show ?thesis
    using find_btree_slotblock_ok [OF h order_refl assms(2,3)] btree_insert_ok [OF assms(1) so] btree_delete_ok [OF assms(1) so]
    by blast
qed

theorem btree_well_formed_witness:
  "let b = \<lparr>startslot = 4, nslots = 2, listblock = 1\<rparr>; t = Node [b] [];
       ss = \<lparr>list_array = (replicate 64 0)[1 := 1], dprevious = (\<lambda>_. 0), dnext = (\<lambda>_. 0), dalloc = {1}, dfresh = 2\<rparr> in
   tree_ok t \<and> find_btree_slotblock t 5 = Some (Some b) \<and>
   (\<exists>t1 ss1. btree_insert ss t 9 1 = Some (ss1, t1) \<and> tree_ok t1 \<and> inorder t1 = [b, \<lparr>startslot = 9, nslots = 1, listblock = 2\<rparr>]) \<and>
   (\<exists>t1 ss1. btree_delete ss t 4 = Some (ss1, t1) \<and> tree_ok t1 \<and> inorder t1 = [])"
proof -
  define b where "b = \<lparr>startslot = 4, nslots = 2, listblock = 1\<rparr>"
  define ss where "ss = \<lparr>list_array = (replicate 64 0)[1 := 1], dprevious = (\<lambda>_. 0), dnext = (\<lambda>_. 0), dalloc = {1}, dfresh = 2\<rparr>"
  have t: "tree_ok (Node [b] [])" by (auto simp: tree_ok_def min_root_def TREE_NODE_SIZE_def intro!: exI [of _ "0::nat"])
  have d: "blocks_disjoint (inorder (Node [b] []))" by (simp add: blocks_disjoint_def b_def)
  have "find_list_bin 1 = Some 0" "find_list_bin 2 = Some 1" by code_simp+
  then obtain ss1 ss2 where L: "list_insert 1 ss = Some (2, ss1)" "list_delete b ss = Some ss2"
    by (simp add: list_insert_def list_delete_def ss_def b_def Let_def)
  note W = btree_well_formed [OF t d]
  have f: "find_btree_slotblock (Node [b] []) 5 = Some (Some b)" using W [of 5] by (auto simp: in_block_def endslot_def b_def split: option.splits)
  have i: "\<exists>t1 ss1. btree_insert ss (Node [b] []) 9 1 = Some (ss1, t1) \<and> tree_ok t1 \<and> inorder t1 = [b, \<lparr>startslot = 9, nslots = 1, listblock = 2\<rparr>]"
  proof -
    obtain t1 xs ys where "btree_insert ss (Node [b] []) 9 1 = Some (ss1, t1)" "tree_ok t1" "splits_into 9 [b] xs ys"
      "inorder t1 = xs @ \<lparr>startslot = 9, nslots = 1, listblock = 2\<rparr> # ys" 
      using W [of 9, THEN conjunct2, THEN conjunct1, rule_format, OF _ conjI [OF _ L(1)]] by (auto simp: b_def)
    moreover from this(3) have "xs = [b] \<and> ys = []" by (cases xs) (auto simp: splits_into_def b_def append_eq_Cons_conv)
    ultimately show ?thesis by auto
  qed
  have "\<exists>t1 ss1. btree_delete ss (Node [b] []) 4 = Some (ss1, t1) \<and> tree_ok t1 \<and> inorder t1 = []"
  proof -
    obtain t1 where "btree_delete ss (Node [b] []) (startslot b) = Some (ss2, t1)" "tree_ok t1" "removed b [b] (inorder t1)"
      using W [of 0, THEN conjunct2, THEN conjunct2, rule_format, OF _ conjI [OF _ L(2)]] by auto
    moreover from this(3) have "inorder t1 = []" by (auto simp: removed_def Cons_eq_append_conv)
    ultimately show ?thesis by (auto simp: b_def)
  qed
  then show ?thesis using t f i by (simp add: b_def ss_def)
qed

end
