(* ===== verification/Slotset.thy ===== *)
theory Slotset
  imports IsoTreeCorrect
begin

text \<open>
  The set of free slots of a processor in \<^verbatim>\<open>conv-core/isomalloc.c\<close>: a B-tree of the blocks of free slots
  (\<open>IsoTree\<close>) and the lists of the same blocks by size (\<open>IsoBins\<close>).  The invariant \<open>slotset_ok\<close> ties
  the two together; under it the operations implement those of a set of integers, \<open>free_set\<close>.

  A pointer to a slotblock is the list node in its \<^verbatim>\<open>listblock\<close>, so an assignment through such a pointer
  is \<open>update_block\<close>.  A \<open>Fault\<close> is a loop that does not end or a pointer that is not valid.
\<close>

section \<open>Operations\<close>

record slotset = slotlists +
  btree_root :: btreenode

definition faulting :: "string \<Rightarrow> 'b option \<Rightarrow> 'b result" where
  "faulting what x = (case x of None \<Rightarrow> Inl (Fault what) | Some y \<Rightarrow> Inr y)"

fun update_block :: "ptr \<Rightarrow> (slotblock \<Rightarrow> slotblock) \<Rightarrow> btreenode \<Rightarrow> btreenode" where
  "update_block x f (Node bs cs) = Node (map (\<lambda>b. if listblock b = x then f b else b) bs) (map (update_block x f) cs)"

definition block_of :: "slotset \<Rightarrow> ptr \<Rightarrow> slotblock option" where
  "block_of ss x = find (\<lambda>b. listblock b = x) (inorder (btree_root ss))"

definition new_slotset :: "int \<Rightarrow> int \<Rightarrow> slotset result" where
  "new_slotset s n =
     (case find_list_bin n of
        None \<Rightarrow> Inl (Fault ''find_list_bin'')
      | Some list_bin \<Rightarrow>
          Inr \<lparr>list_array = (replicate LIST_ARRAY_SIZE NULL)[list_bin := 1], dprevious = (\<lambda>_. NULL), dnext = (\<lambda>_. NULL),
               dalloc = {1}, dfresh = 2, btree_root = Node [\<lparr>startslot = s, nslots = n, listblock = 1\<rparr>] []\<rparr>)"

partial_function (option) scan_list :: "slotset \<Rightarrow> int \<Rightarrow> ptr \<Rightarrow> int option option" where
  "scan_list ss n dlln =
     (if dlln = NULL then Some None
      else case block_of ss dlln of
             None \<Rightarrow> None
           | Some b \<Rightarrow> if n \<le> nslots b then Some (Some (startslot b)) else scan_list ss n (dnext ss dlln))"

declare scan_list.simps [code]

fun scan_bins :: "slotset \<Rightarrow> int \<Rightarrow> ptr list \<Rightarrow> int option" where
  "scan_bins ss n [] = Some (-1)"
| "scan_bins ss n (x # xs) =
     (case scan_list ss n x of None \<Rightarrow> None | Some (Some s) \<Rightarrow> Some s | Some None \<Rightarrow> scan_bins ss n xs)"

definition get_slots :: "slotset \<Rightarrow> int \<Rightarrow> int result" where
  "get_slots ss n =
     (case find_list_bin n of
        None \<Rightarrow> Inl (Fault ''find_list_bin'')
      | Some start_list \<Rightarrow> faulting ''list'' (scan_bins ss n (drop start_list (list_array ss))))"

text \<open>A change of the range of a block, and the move to the list of its new size.\<close>

definition resize_block :: "slotblock \<Rightarrow> int \<Rightarrow> int \<Rightarrow> slotset \<Rightarrow> slotset result" where
  "resize_block sb s n ss =
     faulting ''list_move'' (list_move (listblock sb) n (nslots sb)
       (ss\<lparr>btree_root := update_block (listblock sb) (\<lambda>b. b\<lparr>startslot := s, nslots := n\<rparr>) (btree_root ss)\<rparr>))"

definition tree_insert :: "int \<Rightarrow> int \<Rightarrow> slotset \<Rightarrow> slotset result" where
  "tree_insert s n ss =
     faulting ''btree_insert'' (map_option (\<lambda>(ss1, t). ss1\<lparr>btree_root := t\<rparr>) (btree_insert ss (btree_root ss) s n))"

definition tree_delete :: "int \<Rightarrow> slotset \<Rightarrow> slotset result" where
  "tree_delete s ss =
     faulting ''btree_delete'' (map_option (\<lambda>(ss1, t). ss1\<lparr>btree_root := t\<rparr>) (btree_delete ss (btree_root ss) s))"

definition grab_slots :: "slotset \<Rightarrow> int \<Rightarrow> int \<Rightarrow> slotset result" where
  "grab_slots ss sslot n =
     rbind (faulting ''search'' (find_btree_slotblock (btree_root ss) sslot)) (\<lambda>r.
       case r of
         None \<Rightarrow> Inl (Abort ''requested a non-existent slotblock'')
       | Some sb \<Rightarrow>
           if startslot sb = sslot
           then if nslots sb = n then tree_delete sslot ss
                else resize_block sb (startslot sb + n) (nslots sb - n) ss
           else if endslot sb = sslot + n - 1 then resize_block sb (startslot sb) (nslots sb - n) ss
           else rbind (resize_block sb (startslot sb) (sslot - startslot sb) ss) (tree_insert (sslot + n) (endslot sb - (sslot + n) + 1)))"

definition free_slots :: "slotset \<Rightarrow> int \<Rightarrow> int \<Rightarrow> slotset result" where
  "free_slots ss sslot n =
     rbind (faulting ''search'' (find_btree_slotblock (btree_root ss) (sslot - 1))) (\<lambda>sb_low.
     rbind (faulting ''search'' (find_btree_slotblock (btree_root ss) (sslot + n))) (\<lambda>sb_high.
       case (sb_low, sb_high) of
         (None, None) \<Rightarrow> tree_insert sslot n ss
       | (None, Some hi) \<Rightarrow> resize_block hi sslot (nslots hi + n) ss
       | (Some lo, None) \<Rightarrow> resize_block lo (startslot lo) (nslots lo + n) ss
       | (Some lo, Some hi) \<Rightarrow>
           rbind (resize_block lo (startslot lo) (nslots lo + n + nslots hi) ss) (tree_delete (startslot hi))))"

section \<open>Invariant and abstraction\<close>

definition apart :: "slotblock list \<Rightarrow> bool" where
  "apart bs \<longleftrightarrow> sorted_wrt (\<lambda>a b. startslot a + nslots a < startslot b) bs"

definition max_slot :: int where "max_slot = 2 ^ 62"

definition range_ok :: "slotblock \<Rightarrow> bool" where
  "range_ok b \<longleftrightarrow> 0 \<le> startslot b \<and> 0 < nslots b \<and> startslot b + nslots b \<le> max_slot"

definition nodes_of :: "nat \<Rightarrow> slotblock list \<Rightarrow> ptr set" where
  "nodes_of k bs = set (map listblock (filter (\<lambda>b. lbin (nslots b) = k) bs))"

definition bins_match :: "(nat \<Rightarrow> ptr list) \<Rightarrow> slotblock list \<Rightarrow> bool" where
  "bins_match F bs \<longleftrightarrow> (\<forall>k < LIST_ARRAY_SIZE. set (F k) = nodes_of k bs)"

definition bins_of :: "slotset \<Rightarrow> slotblock list \<Rightarrow> bool" where
  "bins_of ss bs \<longleftrightarrow> (\<forall>b \<in> set bs. range_ok b) \<and> distinct (map listblock bs) \<and> (\<exists>F. bins_ok ss F \<and> bins_match F bs)"

definition slotset_ok :: "slotset \<Rightarrow> bool" where
  "slotset_ok ss \<longleftrightarrow> tree_ok (btree_root ss) \<and> apart (inorder (btree_root ss)) \<and> bins_of ss (inorder (btree_root ss))"

definition slots_in :: "slotblock list \<Rightarrow> int set" where
  "slots_in bs = {i. \<exists>b \<in> set bs. in_block i b}"

definition free_set :: "slotset \<Rightarrow> int set" where
  "free_set ss = slots_in (inorder (btree_root ss))"

lemma range_slots: "range_ok b \<Longrightarrow> nslots_ok (nslots b)"
  by (simp add: range_ok_def nslots_ok_def max_slot_def)

lemma slots_in_simps [simp]:
  "slots_in [] = {}" "slots_in (b # bs) = {startslot b..endslot b} \<union> slots_in bs" "slots_in (bs @ cs) = slots_in bs \<union> slots_in cs"
  by (auto simp: slots_in_def in_block_def)

lemma nodes_of_simps [simp]:
  "nodes_of k [] = {}" "nodes_of k (xs @ ys) = nodes_of k xs \<union> nodes_of k ys"
  "nodes_of k (b # bs) = (if lbin (nslots b) = k then insert (listblock b) (nodes_of k bs) else nodes_of k bs)"
  by (simp_all add: nodes_of_def)

lemma nodes_of_sub: "nodes_of k bs \<subseteq> listblock ` set bs"
  by (auto simp: nodes_of_def)

lemma nodes_ofI: "b \<in> set bs \<Longrightarrow> listblock b \<in> nodes_of (lbin (nslots b)) bs"
  by (auto simp: nodes_of_def)

lemma apart_append: "apart (xs @ ys) \<longleftrightarrow> apart xs \<and> apart ys \<and> (\<forall>a \<in> set xs. \<forall>b \<in> set ys. startslot a + nslots a < startslot b)"
  by (simp add: apart_def sorted_wrt_append)

lemma apart_Cons: "apart (b # ys) \<longleftrightarrow> apart ys \<and> (\<forall>a \<in> set ys. startslot b + nslots b < startslot a)"
  by (auto simp: apart_def)

lemma apart_disjoint: "apart bs \<Longrightarrow> \<forall>b \<in> set bs. range_ok b \<Longrightarrow> blocks_disjoint bs"
  unfolding apart_def blocks_disjoint_def
  by (auto simp: endslot_def range_ok_def elim!: sorted_wrt_mono_rel [rotated])

section \<open>The lists follow the blocks\<close>

lemma bins_ofD:
  assumes "bins_of ss bs"
  obtains F where "bins_ok ss F" "bins_match F bs" "distinct (map listblock bs)" "\<forall>b \<in> set bs. range_ok b"
    "\<forall>b \<in> set bs. nslots_ok (nslots b) \<and> listblock b \<in> set (F (lbin (nslots b)))"
proof -
  obtain F where F: "bins_ok ss F" "bins_match F bs" "distinct (map listblock bs)" "\<forall>b \<in> set bs. range_ok b"
    using assms by (auto simp: bins_of_def)
  moreover have "nslots_ok (nslots b) \<and> listblock b \<in> set (F (lbin (nslots b)))" if "b \<in> set bs" for b
  proof -
    have "nslots_ok (nslots b)" using F(4) that range_slots by blast
    then show ?thesis using F(2) nodes_ofI [OF that] bin_less(1) by (simp add: bins_match_def)
  qed
  ultimately show ?thesis using that by blast
qed

lemma bins_ofI:
  assumes "bins_ok ss F" "bins_match F bs" "distinct (map listblock bs)" "\<forall>b \<in> set bs. range_ok b"
  shows "bins_of ss bs"
  using assms by (auto simp: bins_of_def)

lemma bins_insert:
  assumes ok: "bins_of ss (xs @ ys)" and b: "range_ok \<lparr>startslot = s, nslots = n, listblock = x\<rparr>" and ins: "list_insert n ss = Some (x, ss1)"
  shows "bins_of ss1 (xs @ \<lparr>startslot = s, nslots = n, listblock = x\<rparr> # ys)"
proof -
  obtain F where F: "bins_ok ss F" "bins_match F (xs @ ys)" "distinct (map listblock (xs @ ys))" "\<forall>b \<in> set (xs @ ys). range_ok b"
    "\<forall>b \<in> set (xs @ ys). nslots_ok (nslots b) \<and> listblock b \<in> set (F (lbin (nslots b)))"
    by (rule bins_ofD [OF ok])
  have n: "nslots_ok n" using range_slots [OF b] by simp
  have x: "x = dfresh ss" "bins_ok ss1 (F(lbin n := dfresh ss # F (lbin n)))" using list_insert_ok [OF F(1) n] ins by auto
  have new: "x \<notin> listblock ` set (xs @ ys)"
  proof
    assume "x \<in> listblock ` set (xs @ ys)"
    then obtain c where c: "c \<in> set (xs @ ys)" "x = listblock c" by blast
    have "nslots_ok (nslots c)" "listblock c \<in> set (F (lbin (nslots c)))" using F(5) c(1) by blast+
    then show False using bins_okD(6) [OF F(1) bin_less(1)] x(1) c(2) by metis
  qed
  show ?thesis
  proof (rule bins_ofI [OF x(2)])
    show "bins_match (F(lbin n := dfresh ss # F (lbin n))) (xs @ \<lparr>startslot = s, nslots = n, listblock = x\<rparr> # ys)"
      using F(2) x(1) by (auto simp: bins_match_def)
  qed (use F(3,4) new b in auto)
qed

lemma bins_delete:
  assumes ok: "bins_of ss (xs @ b # ys)"
  obtains ss1 where "list_delete b ss = Some ss1" "bins_of ss1 (xs @ ys)"
proof -
  obtain F where F: "bins_ok ss F" "bins_match F (xs @ b # ys)" "distinct (map listblock (xs @ b # ys))" "\<forall>b \<in> set (xs @ b # ys). range_ok b"
    "\<forall>c \<in> set (xs @ b # ys). nslots_ok (nslots c) \<and> listblock c \<in> set (F (lbin (nslots c)))"
    by (rule bins_ofD [OF ok])
  let ?k = "lbin (nslots b)" and ?x = "listblock b"
  have b: "nslots_ok (nslots b)" "?x \<in> set (F ?k)" using F(5) by auto
  obtain ss1 where ss1: "list_delete b ss = Some ss1" "bins_ok ss1 (F(?k := remove1 ?x (F ?k)))"
    using list_delete_ok [OF F(1) b] by blast
  have ne: "?x \<notin> nodes_of k (xs @ ys)" for k using F(3) nodes_of_sub [of k "xs @ ys"] by auto
  have "bins_of ss1 (xs @ ys)"
  proof (rule bins_ofI [OF ss1(2)])
    show "bins_match (F(?k := remove1 ?x (F ?k))) (xs @ ys)"
      using F(2) ne bins_okD(2) [OF F(1)] by (auto simp: bins_match_def)
  qed (use F(3,4) in auto)
  with ss1(1) show ?thesis by (rule that)
qed

lemma bins_move:
  assumes ok: "bins_of ss (xs @ b # ys)" and b': "range_ok b'" "listblock b' = listblock b"
  obtains ss1 where "list_move (listblock b) (nslots b') (nslots b) ss = Some ss1" "bins_of ss1 (xs @ b' # ys)"
    "slotlists.more ss1 = slotlists.more ss"
proof -
  obtain F where F: "bins_ok ss F" "bins_match F (xs @ b # ys)" "distinct (map listblock (xs @ b # ys))" "\<forall>b \<in> set (xs @ b # ys). range_ok b"
    "\<forall>c \<in> set (xs @ b # ys). nslots_ok (nslots c) \<and> listblock c \<in> set (F (lbin (nslots c)))"
    by (rule bins_ofD [OF ok])
  let ?k = "lbin (nslots b)" and ?x = "listblock b" and ?m = "lbin (nslots b')"
  let ?F = "if ?m = ?k then F else F(?k := remove1 ?x (F ?k), ?m := ?x # F ?m)"
  have b: "nslots_ok (nslots b)" "?x \<in> set (F ?k)" using F(5) by auto
  obtain ss1 where ss1: "list_move ?x (nslots b') (nslots b) ss = Some ss1" "slotlists.more ss1 = slotlists.more ss" "bins_ok ss1 ?F"
    using list_move_ok [OF F(1) range_slots [OF b'(1)] b] by blast
  have ne: "?x \<notin> nodes_of k (xs @ ys)" for k using F(3) nodes_of_sub [of k "xs @ ys"] by auto
  have "bins_of ss1 (xs @ b' # ys)"
  proof (rule bins_ofI [OF ss1(3)])
    show "bins_match ?F (xs @ b' # ys)" using F(2) b'(2) ne bins_okD(2) [OF F(1)] by (auto simp: bins_match_def)
  qed (use F(3,4) b' in auto)
  with ss1 show ?thesis using that by blast
qed

section \<open>The tree follows\<close>

definition has_blocks :: "slotset \<Rightarrow> slotblock list \<Rightarrow> bool" where
  "has_blocks ss bs \<longleftrightarrow> tree_ok (btree_root ss) \<and> inorder (btree_root ss) = bs \<and> bins_of ss bs"

lemma slotset_ok_iff: "slotset_ok ss \<longleftrightarrow> has_blocks ss (inorder (btree_root ss)) \<and> apart (inorder (btree_root ss))"
  by (auto simp: slotset_ok_def has_blocks_def)

lemma slotset_okI: "has_blocks ss bs \<Longrightarrow> apart bs \<Longrightarrow> slotset_ok ss \<and> free_set ss = slots_in bs"
  by (auto simp: slotset_ok_def has_blocks_def free_set_def)

lemma bins_of_root [simp]: "bins_of (ss\<lparr>btree_root := t\<rparr>) bs = bins_of ss bs"
  by (simp add: bins_of_def bins_ok_def)

lemma more_root: "slotlists.more ss = slotlists.more ss' \<Longrightarrow> btree_root ss = btree_root (ss' :: slotset)"
  by (cases ss; cases ss') simp

lemma weave_map: "weave (map f bs) (map (map f) xs) = map f (weave bs xs)"
  by (induction bs xs rule: weave.induct) auto

lemma inorder_update: "inorder (update_block x f t) = map (\<lambda>b. if listblock b = x then f b else b) (inorder t)"
proof (induction t)
  case (Node bs cs)
  have "map inorder (map (update_block x f) cs) = map (map (\<lambda>b. if listblock b = x then f b else b)) (map inorder cs)"
    using Node by simp
  then show ?case unfolding update_block.simps inorder.simps by (simp only: weave_map)
qed

lemma balanced_update: "balanced h lo t \<Longrightarrow> balanced h lo (update_block x f t)"
proof (induction h arbitrary: lo t)
  case 0
  then show ?case by (cases t) auto
next
  case (Suc h)
  then show ?case by (cases t) auto
qed

lemma tree_ok_update: "tree_ok t \<Longrightarrow> tree_ok (update_block x f t)"
  unfolding tree_ok_def using balanced_update by blast

lemma resize_ok:
  assumes ok: "has_blocks ss (xs @ b # ys)" and r: "range_ok (b\<lparr>startslot := s, nslots := n\<rparr>)"
  shows "\<exists>ss1. resize_block b s n ss = Inr ss1 \<and> has_blocks ss1 (xs @ b\<lparr>startslot := s, nslots := n\<rparr> # ys)"
proof -
  let ?b = "b\<lparr>startslot := s, nslots := n\<rparr>" and ?t = "update_block (listblock b) (\<lambda>b. b\<lparr>startslot := s, nslots := n\<rparr>) (btree_root ss)"
  have B: "bins_of ss (xs @ b # ys)" "inorder (btree_root ss) = xs @ b # ys" "tree_ok (btree_root ss)"
    using ok by (simp_all add: has_blocks_def)
  have "listblock b \<notin> listblock ` set xs" "listblock b \<notin> listblock ` set ys" using B(1) by (simp_all add: bins_of_def)
  then have "\<forall>c \<in> set xs \<union> set ys. listblock c \<noteq> listblock b" by (metis Un_iff image_eqI)
  then have t: "inorder ?t = xs @ ?b # ys" using B(2) by (auto simp: inorder_update intro!: map_idI)
  obtain ss1 where M: "list_move (listblock b) (nslots ?b) (nslots b) (ss\<lparr>btree_root := ?t\<rparr>) = Some ss1" "bins_of ss1 (xs @ ?b # ys)"
    "slotlists.more ss1 = slotlists.more (ss\<lparr>btree_root := ?t\<rparr>)"
    using bins_move [of "ss\<lparr>btree_root := ?t\<rparr>" xs b ys ?b] B(1) r by auto
  have "btree_root ss1 = ?t" using more_root [OF M(3)] by simp
  then have "has_blocks ss1 (xs @ ?b # ys)" using M(2) t tree_ok_update [OF B(3)] by (simp add: has_blocks_def)
  then show ?thesis using M(1) by (simp add: resize_block_def faulting_def)
qed

lemma tree_insert_ok:
  assumes ok: "has_blocks ss (xs @ ys)" and so: "starts_sorted (xs @ ys)"
    and r: "0 \<le> s" "0 < n" "s + n \<le> max_slot" and s: "\<forall>b \<in> set xs. startslot b < s" "\<forall>b \<in> set ys. s < startslot b"
  shows "\<exists>ss1 x. tree_insert s n ss = Inr ss1 \<and> has_blocks ss1 (xs @ \<lparr>startslot = s, nslots = n, listblock = x\<rparr> # ys)"
proof -
  have B: "bins_of ss (xs @ ys)" "inorder (btree_root ss) = xs @ ys" "tree_ok (btree_root ss)"
    using ok by (simp_all add: has_blocks_def)
  obtain F where F: "bins_ok ss F" using B(1) by (auto simp: bins_of_def)
  have n: "nslots_ok n" using r by (simp add: nslots_ok_def max_slot_def)
  obtain x ss1 where I: "list_insert n ss = Some (x, ss1)" using list_insert_ok [OF F n] by blast
  have "s \<notin> startslot ` set (xs @ ys)" using s by auto
  from btree_insert_ok [OF B(3) _ _ I, of s, unfolded B(2), OF so this] obtain t1 us vs where
    T: "btree_insert ss (btree_root ss) s n = Some (ss1, t1)" "tree_ok t1" "splits_into s (xs @ ys) us vs"
    "inorder t1 = us @ \<lparr>startslot = s, nslots = n, listblock = x\<rparr> # vs" by blast
  have "us = xs \<and> vs = ys"
  proof -
    have e: "us @ vs = xs @ ys" and u: "\<forall>b \<in> set us. startslot b < s" "\<forall>b \<in> set vs. s < startslot b"
      using T(3) by (auto simp: splits_into_def)
    have "us = takeWhile (\<lambda>b. startslot b < s) (us @ vs)" using u by (cases vs) (simp_all add: takeWhile_append takeWhile_eq_all_conv [THEN iffD2])
    also have "\<dots> = xs" unfolding e using s by (cases ys) (simp_all add: takeWhile_append takeWhile_eq_all_conv [THEN iffD2])
    finally show ?thesis using e by simp
  qed
  moreover have "bins_of ss1 (xs @ \<lparr>startslot = s, nslots = n, listblock = x\<rparr> # ys)"
    by (rule bins_insert [OF B(1) _ I]) (use r in \<open>simp add: range_ok_def\<close>)
  ultimately have "has_blocks (ss1\<lparr>btree_root := t1\<rparr>) (xs @ \<lparr>startslot = s, nslots = n, listblock = x\<rparr> # ys)"
    using T(2,4) by (simp add: has_blocks_def)
  then show ?thesis using T(1) by (auto simp: tree_insert_def faulting_def)
qed

lemma split_unique: "b \<notin> set xs \<Longrightarrow> b \<notin> set us \<Longrightarrow> xs @ b # ys = us @ b # vs \<Longrightarrow> xs = us \<and> ys = vs"
proof (induction xs arbitrary: us)
  case Nil
  then show ?case by (cases us) auto
next
  case (Cons a xs)
  then show ?case by (cases us) auto
qed

lemma removed_unique: "starts_sorted (xs @ b # ys) \<Longrightarrow> removed b (xs @ b # ys) zs \<Longrightarrow> zs = xs @ ys"
proof -
  assume so: "starts_sorted (xs @ b # ys)" and "removed b (xs @ b # ys) zs"
  then obtain us vs where u: "xs @ b # ys = us @ b # vs" "zs = us @ vs" by (auto simp: removed_def)
  have "b \<notin> set xs" "b \<notin> set us" using so so [unfolded u(1)] by (force simp: starts_sorted_def sorted_wrt_append)+
  then have "xs = us \<and> ys = vs" using split_unique u(1) by metis
  then show ?thesis using u(2) by simp
qed

lemma tree_delete_ok:
  assumes ok: "has_blocks ss (xs @ b # ys)" and so: "starts_sorted (xs @ b # ys)"
  shows "\<exists>ss1. tree_delete (startslot b) ss = Inr ss1 \<and> has_blocks ss1 (xs @ ys)"
proof -
  have B: "bins_of ss (xs @ b # ys)" "inorder (btree_root ss) = xs @ b # ys" "tree_ok (btree_root ss)"
    using ok by (simp_all add: has_blocks_def)
  obtain ss1 where D: "list_delete b ss = Some ss1" "bins_of ss1 (xs @ ys)" by (rule bins_delete [OF B(1)])
  from btree_delete_ok [OF B(3) _ _ D(1), unfolded B(2), OF so] obtain t1 where
    T: "btree_delete ss (btree_root ss) (startslot b) = Some (ss1, t1)" "tree_ok t1" "removed b (xs @ b # ys) (inorder t1)" by auto
  have "has_blocks (ss1\<lparr>btree_root := t1\<rparr>) (xs @ ys)" using T(2) removed_unique [OF so T(3)] D(2) by (simp add: has_blocks_def)
  then show ?thesis using T(1) by (simp add: tree_delete_def faulting_def)
qed

section \<open>The operations on the set of free slots\<close>

lemma has_blocks_range: "has_blocks ss bs \<Longrightarrow> b \<in> set bs \<Longrightarrow> range_ok b"
  by (auto simp: has_blocks_def bins_of_def)

lemma apart_starts: "has_blocks ss bs \<Longrightarrow> apart bs \<Longrightarrow> starts_sorted bs"
  using disjoint_starts apart_disjoint has_blocks_range by blast

lemma apart_around:
  assumes "apart (xs @ b # ys)" "\<forall>c \<in> set (xs @ b # ys). range_ok c"
  shows "\<forall>i \<in> slots_in xs. i + 1 < startslot b" "\<forall>i \<in> slots_in ys. endslot b + 1 < i"
proof -
  have "endslot c + 1 < startslot b" if "c \<in> set xs" for c using assms(1) that by (simp add: apart_append endslot_def)
  then show "\<forall>i \<in> slots_in xs. i + 1 < startslot b" by (fastforce simp: slots_in_def in_block_def)
  have "endslot b + 1 < startslot c" if "c \<in> set ys" for c using assms(1) that by (simp add: apart_append apart_Cons endslot_def)
  then show "\<forall>i \<in> slots_in ys. endslot b + 1 < i" by (fastforce simp: slots_in_def in_block_def)
qed

lemma slots_in_range: "\<forall>b \<in> set bs. range_ok b \<Longrightarrow> i \<in> slots_in bs \<Longrightarrow> 0 \<le> i \<and> i < max_slot"
  by (fastforce simp: slots_in_def in_block_def range_ok_def endslot_def)

lemma find_slot:
  assumes "slotset_ok ss"
  obtains (none) "find_btree_slotblock (btree_root ss) s = Some None" "s \<notin> free_set ss"
    | (some) xs b ys where "find_btree_slotblock (btree_root ss) s = Some (Some b)" "inorder (btree_root ss) = xs @ b # ys"
        "in_block s b" "has_blocks ss (xs @ b # ys)" "apart (xs @ b # ys)"
proof (cases "s < 0")
  case True
  have "\<forall>b \<in> set (inorder (btree_root ss)). range_ok b" using assms by (auto simp: slotset_ok_def bins_of_def)
  from slots_in_range [OF this, of s] have "s \<notin> free_set ss" using True by (auto simp: free_set_def)
  then show ?thesis using True none by (simp add: find_btree_slotblock.simps)
next
  case False
  let ?t = "btree_root ss"
  have R: "\<forall>b \<in> set (inorder ?t). range_ok b" "apart (inorder ?t)" "has_blocks ss (inorder ?t)"
    using assms by (auto simp: slotset_ok_iff has_blocks_def bins_of_def)
  obtain h where "balanced h (min_root h) ?t" using assms by (auto simp: slotset_ok_def tree_ok_def)
  from find_btree_slotblock_ok [OF this order_refl apart_disjoint [OF R(2,1)], of s] False obtain r where
    r: "find_btree_slotblock ?t s = Some r"
    "case r of None \<Rightarrow> \<forall>b \<in> set (inorder ?t). \<not> in_block s b | Some b \<Rightarrow> b \<in> set (inorder ?t) \<and> in_block s b" by auto
  show ?thesis
  proof (cases r)
    case None
    then show ?thesis using r none by (auto simp: free_set_def slots_in_def)
  next
    case (Some b)
    then obtain xs ys where "inorder ?t = xs @ b # ys" using r(2) by (auto dest: split_list)
    then show ?thesis using r Some some R by simp
  qed
qed

text \<open>A block that gets smaller stays apart from the others.\<close>

lemma shrink_ok:
  assumes ok: "has_blocks ss (xs @ b # ys)" and ap: "apart (xs @ b # ys)"
    and m: "0 < m" "startslot b \<le> s" "s + m \<le> startslot b + nslots b"
  shows "\<exists>ss1. resize_block b s m ss = Inr ss1 \<and> has_blocks ss1 (xs @ b\<lparr>startslot := s, nslots := m\<rparr> # ys) \<and>
    apart (xs @ b\<lparr>startslot := s, nslots := m\<rparr> # ys)"
proof -
  have "range_ok b" using has_blocks_range [OF ok] by simp
  then have "range_ok (b\<lparr>startslot := s, nslots := m\<rparr>)" using m by (simp add: range_ok_def)
  moreover have "apart (xs @ b\<lparr>startslot := s, nslots := m\<rparr> # ys)" using ap m by (force simp: apart_append apart_Cons)
  ultimately show ?thesis using resize_ok [OF ok] by blast
qed

lemma grab_slots_ok:
  assumes ok: "slotset_ok ss" and n: "0 < n" and free: "{s..<s + n} \<subseteq> free_set ss"
  shows "\<exists>ss1. grab_slots ss s n = Inr ss1 \<and> slotset_ok ss1 \<and> free_set ss1 = free_set ss - {s..<s + n}"
proof -
  have "s \<in> free_set ss" using n free by auto
  then obtain xs b ys where B: "find_btree_slotblock (btree_root ss) s = Some (Some b)" "inorder (btree_root ss) = xs @ b # ys"
    "in_block s b" "has_blocks ss (xs @ b # ys)" "apart (xs @ b # ys)" using find_slot [OF ok, of s] by metis
  have R: "\<forall>c \<in> set (xs @ b # ys). range_ok c" using has_blocks_range [OF B(4)] by blast
  note A = apart_around [OF B(5) R] and so = apart_starts [OF B(4,5)]
  have F: "free_set ss = slots_in (xs @ b # ys)" by (simp add: free_set_def B(2))
  have b: "startslot b \<le> s" "s \<le> endslot b" "endslot b = startslot b + nslots b - 1" "range_ok b"
    using B(3) R by (simp_all add: in_block_def endslot_def)
  have e: "s + n - 1 \<le> endslot b"
  proof (rule ccontr)
    assume "\<not> s + n - 1 \<le> endslot b"
    then have "endslot b + 1 \<in> free_set ss" using free b by auto
    then show False using A b unfolding F by auto
  qed
  have out: "slots_in xs \<inter> {s..<s + n} = {}" "slots_in ys \<inter> {s..<s + n} = {}" using A b e by fastforce+
  have goal_if: "slotset_ok ss1 \<and> free_set ss1 = free_set ss - {s..<s + n}"
    if "has_blocks ss1 (xs @ zs @ ys)" "apart (xs @ zs @ ys)" "slots_in zs = {startslot b..endslot b} - {s..<s + n}" for ss1 zs
    using slotset_okI [OF that(1,2)] that(3) out unfolding F by auto
  note shrunk = shrink_ok [OF B(4,5)]
  consider (whole) "startslot b = s" "nslots b = n" | (front) "startslot b = s" "nslots b \<noteq> n"
    | (rear) "startslot b \<noteq> s" "endslot b = s + n - 1" | (middle) "startslot b \<noteq> s" "endslot b \<noteq> s + n - 1" by blast
  then show ?thesis
  proof cases
    case whole
    obtain ss1 where 1: "tree_delete s ss = Inr ss1" "has_blocks ss1 (xs @ [] @ ys)"
      using tree_delete_ok [OF B(4) so] whole(1) by auto
    have "slotset_ok ss1 \<and> free_set ss1 = free_set ss - {s..<s + n}"
      by (rule goal_if [OF 1(2)]) (use B(5) whole in \<open>auto simp: apart_append apart_Cons endslot_def\<close>)
    then show ?thesis using B(1) whole 1(1) by (simp add: grab_slots_def faulting_def)
  next
    case front
    let ?b = "b\<lparr>startslot := startslot b + n, nslots := nslots b - n\<rparr>"
    have m: "0 < nslots b - n" using front e b by linarith
    obtain ss1 where 1: "resize_block b (startslot b + n) (nslots b - n) ss = Inr ss1" "has_blocks ss1 (xs @ [?b] @ ys)" "apart (xs @ [?b] @ ys)"
      using shrunk [of "nslots b - n" "startslot b + n"] m n b by auto
    have "slotset_ok ss1 \<and> free_set ss1 = free_set ss - {s..<s + n}"
      by (rule goal_if [OF 1(2,3)]) (use front n b in \<open>auto simp: endslot_def\<close>)
    then show ?thesis using B(1) front 1(1) by (simp add: grab_slots_def faulting_def)
  next
    case rear
    let ?b = "b\<lparr>startslot := startslot b, nslots := nslots b - n\<rparr>"
    have m: "0 < nslots b - n" using rear b by linarith
    obtain ss1 where 1: "resize_block b (startslot b) (nslots b - n) ss = Inr ss1" "has_blocks ss1 (xs @ [?b] @ ys)" "apart (xs @ [?b] @ ys)"
      using shrunk [of "nslots b - n" "startslot b"] m n b by auto
    have "slotset_ok ss1 \<and> free_set ss1 = free_set ss - {s..<s + n}"
      by (rule goal_if [OF 1(2,3)]) (use rear n b in \<open>auto simp: endslot_def\<close>)
    then show ?thesis using B(1) rear 1(1) by (simp add: grab_slots_def faulting_def)
  next
    case middle
    let ?b = "b\<lparr>startslot := startslot b, nslots := s - startslot b\<rparr>"
    have m: "0 < s - startslot b" "s + n \<le> endslot b" using middle b e by linarith+
    obtain ss1 where 1: "resize_block b (startslot b) (s - startslot b) ss = Inr ss1" "has_blocks ss1 ((xs @ [?b]) @ ys)" "apart ((xs @ [?b]) @ ys)"
      using shrunk [of "s - startslot b" "startslot b"] m n b by auto
    have gap: "\<forall>c \<in> set (xs @ [?b]). startslot c < s + n" "\<forall>c \<in> set ys. endslot b + 1 < startslot c"
      using B(5) b m n R by (force simp: apart_append apart_Cons range_ok_def)+
    have "0 \<le> s + n" "0 < endslot b - (s + n) + 1" "s + n + (endslot b - (s + n) + 1) \<le> max_slot"
      using b m n by (simp_all add: range_ok_def)
    moreover have "\<forall>c \<in> set ys. s + n < startslot c" using gap(2) m(2) by fastforce
    ultimately obtain ss2 x where 2: "tree_insert (s + n) (endslot b - (s + n) + 1) ss1 = Inr ss2"
      "has_blocks ss2 (xs @ [?b, \<lparr>startslot = s + n, nslots = endslot b - (s + n) + 1, listblock = x\<rparr>] @ ys)"
      using tree_insert_ok [OF 1(2) apart_starts [OF 1(2,3)] _ _ _ gap(1), of "endslot b - (s + n) + 1"] by auto
    have "slotset_ok ss2 \<and> free_set ss2 = free_set ss - {s..<s + n}"
    proof (rule goal_if [OF 2(2)])
      show "apart (xs @ [?b, \<lparr>startslot = s + n, nslots = endslot b - (s + n) + 1, listblock = x\<rparr>] @ ys)"
        using 1(3) gap m n by (auto simp: apart_append apart_Cons)
    qed (use n b m in \<open>auto simp: endslot_def\<close>)
    then show ?thesis using B(1) middle 1(1) 2(1) by (simp add: grab_slots_def faulting_def)
  qed
qed

lemma grab_slots_abort:
  assumes "slotset_ok ss" "s \<notin> free_set ss"
  shows "grab_slots ss s n = Inl (Abort ''requested a non-existent slotblock'')"
  using assms(1)
proof (cases rule: find_slot [of ss s])
  case none
  then show ?thesis by (simp add: grab_slots_def faulting_def)
next
  case (some xs b ys)
  then show ?thesis using assms(2) by (auto simp: free_set_def slots_in_def)
qed

lemma ends_in:
  assumes "c \<in> set bs" "range_ok c"
  shows "startslot c \<in> slots_in bs" "endslot c \<in> slots_in bs" "startslot c \<le> endslot c"
    "\<And>i. startslot c \<le> i \<Longrightarrow> i \<le> endslot c \<Longrightarrow> i \<in> slots_in bs"
proof -
  show le: "startslot c \<le> endslot c" using assms(2) by (simp add: range_ok_def endslot_def)
  show i: "i \<in> slots_in bs" if "startslot c \<le> i" "i \<le> endslot c" for i using that assms(1) by (auto simp: slots_in_def in_block_def)
  show "startslot c \<in> slots_in bs" "endslot c \<in> slots_in bs" using i le by simp_all
qed

text \<open>A run of slots with no free slot in it and none next to it lies between two blocks.\<close>

lemma between_blocks:
  assumes ok: "has_blocks ss bs" "apart bs" and n: "0 < n"
    and out: "{s..<s + n} \<inter> slots_in bs = {}" "s - 1 \<notin> slots_in bs" "s + n \<notin> slots_in bs"
  obtains xs ys where "bs = xs @ ys" "\<forall>c \<in> set xs. startslot c + nslots c < s" "\<forall>c \<in> set ys. s + n < startslot c"
proof
  let ?P = "\<lambda>c. startslot c < s"
  have so: "starts_sorted bs" by (rule apart_starts [OF ok])
  show "bs = takeWhile ?P bs @ dropWhile ?P bs" by simp
  show "\<forall>c \<in> set (takeWhile ?P bs). startslot c + nslots c < s"
  proof
    fix c assume "c \<in> set (takeWhile ?P bs)"
    then have c: "c \<in> set bs" "startslot c < s" using set_takeWhileD [of c ?P bs] by auto
    then have "\<not> s - 1 \<le> endslot c" using ends_in(4) [OF c(1) has_blocks_range [OF ok(1) c(1)], of "s - 1"] out(2) by auto
    then show "startslot c + nslots c < s" by (simp add: endslot_def)
  qed
  show "\<forall>c \<in> set (dropWhile ?P bs). s + n < startslot c"
  proof
    fix c assume d: "c \<in> set (dropWhile ?P bs)"
    then have c: "c \<in> set bs" by (metis set_dropWhileD)
    have ne: "dropWhile ?P bs \<noteq> []" using d by (metis empty_iff list.set(1))
    have "starts_sorted (dropWhile ?P bs)" using so starts_sorted_append [of "takeWhile ?P bs" "dropWhile ?P bs"] by simp
    then have "startslot (hd (dropWhile ?P bs)) \<le> startslot c" using d ne starts_first by (cases "dropWhile ?P bs") auto
    then have "s \<le> startslot c" using hd_dropWhile [OF ne] by simp
    moreover have "startslot c \<in> slots_in bs" by (rule ends_in(1) [OF c has_blocks_range [OF ok(1) c]])
    moreover from this have "startslot c \<notin> {s..<s + n}" "startslot c \<noteq> s + n" using out by auto
    ultimately show "s + n < startslot c" by auto
  qed
qed

lemma grow_ok:
  assumes ok: "has_blocks ss (xs @ b # ys)" "apart (xs @ b # ys)" and m: "0 \<le> s" "0 < m" "s + m \<le> max_slot"
    and gap: "\<forall>c \<in> set xs. startslot c + nslots c < s" "\<forall>c \<in> set ys. s + m < startslot c"
  shows "\<exists>ss1. resize_block b s m ss = Inr ss1 \<and> slotset_ok ss1 \<and> free_set ss1 = slots_in xs \<union> {s..<s + m} \<union> slots_in ys"
proof -
  let ?b = "b\<lparr>startslot := s, nslots := m\<rparr>"
  have "range_ok ?b" using m by (simp add: range_ok_def)
  from resize_ok [OF ok(1) this] obtain ss1 where 1: "resize_block b s m ss = Inr ss1" "has_blocks ss1 (xs @ ?b # ys)" by blast
  have "apart (xs @ ?b # ys)" using ok(2) gap by (simp add: apart_append apart_Cons)
  moreover have "{s..s + m - 1} = {s..<s + m}" by auto
  ultimately show ?thesis using slotset_okI [OF 1(2)] 1(1) by (simp add: endslot_def Un_assoc)
qed

text \<open>Two blocks with nothing but the freed slots between them become one: the lower is resized over both and the upper deleted.\<close>

lemma join_ok:
  assumes ok: "has_blocks ss (xs @ lo # hi # ys)" "apart (xs @ lo # hi # ys)" and n: "startslot lo + nslots lo + n = startslot hi" "0 < n"
  shows "\<exists>ss2. rbind (resize_block lo (startslot lo) (nslots lo + n + nslots hi) ss) (tree_delete (startslot hi)) = Inr ss2 \<and>
    slotset_ok ss2 \<and> free_set ss2 = slots_in xs \<union> {startslot lo..endslot hi} \<union> slots_in ys"
proof -
  let ?b = "lo\<lparr>startslot := startslot lo, nslots := nslots lo + n + nslots hi\<rparr>"
  have r: "range_ok lo" "range_ok hi" using has_blocks_range [OF ok(1)] by simp_all
  then have "range_ok ?b" using n by (simp add: range_ok_def)
  from resize_ok [OF ok(1) this] obtain ss1 where
    1: "resize_block lo (startslot lo) (nslots lo + n + nslots hi) ss = Inr ss1" "has_blocks ss1 ((xs @ [?b]) @ hi # ys)" by auto
  have "starts_sorted ((xs @ [?b]) @ hi # ys)" using apart_starts [OF ok] by (auto simp: starts_sorted_def sorted_wrt_append)
  from tree_delete_ok [OF 1(2) this] obtain ss2 where 2: "tree_delete (startslot hi) ss1 = Inr ss2" "has_blocks ss2 (xs @ ?b # ys)" by auto
  have "apart (xs @ ?b # ys)" using ok(2) n by (auto simp: apart_append apart_Cons)
  moreover have "endslot ?b = endslot hi" using n by (simp add: endslot_def)
  ultimately show ?thesis using slotset_okI [OF 2(2)] 1(1) 2(1) by auto
qed

lemma free_slots_ok:
  assumes ok: "slotset_ok ss" and n: "0 \<le> s" "0 < n" "s + n \<le> max_slot" and used: "{s..<s + n} \<inter> free_set ss = {}"
  shows "\<exists>ss1. free_slots ss s n = Inr ss1 \<and> slotset_ok ss1 \<and> free_set ss1 = free_set ss \<union> {s..<s + n}"
proof -
  define bs where "bs = inorder (btree_root ss)"
  have H: "has_blocks ss bs" "apart bs" and F: "free_set ss = slots_in bs"
    using ok by (simp_all add: slotset_ok_iff bs_def free_set_def)
  have R: "range_ok c" if "c \<in> set bs" for c using has_blocks_range [OF H(1) that] .
  note so = apart_starts [OF H]
  have out: "i \<in> slots_in bs \<longrightarrow> i < s \<or> s + n \<le> i" for i using used unfolding F by (metis atLeastLessThan_iff disjoint_iff not_le)
  have low: "endslot b = s - 1" if b: "in_block (s - 1) b" "b \<in> set bs" for b
  proof -
    have "\<not> (startslot b \<le> s \<and> s \<le> endslot b)" using out [of s] ends_in(4) [OF b(2) R [OF b(2)], of s] n by auto
    then show ?thesis using b(1) by (auto simp: in_block_def)
  qed
  have high: "startslot b = s + n" if b: "in_block (s + n) b" "b \<in> set bs" for b
  proof -
    have "\<not> (startslot b \<le> s + n - 1 \<and> s + n - 1 \<le> endslot b)"
      using out [of "s + n - 1"] ends_in(4) [OF b(2) R [OF b(2)], of "s + n - 1"] n by auto
    then show ?thesis using b(1) by (auto simp: in_block_def)
  qed
  show ?thesis using ok
  proof (cases rule: find_slot [where s = "s - 1"])
    case lo: none
    show ?thesis using ok
    proof (cases rule: find_slot [where s = "s + n"])
      case hi: none
      obtain xs ys where B: "bs = xs @ ys" "\<forall>c \<in> set xs. startslot c + nslots c < s" "\<forall>c \<in> set ys. s + n < startslot c"
        using between_blocks [OF H n(2), of s] used lo(2) hi(2) unfolding F by blast
      have "\<forall>c \<in> set xs. startslot c < s" "\<forall>c \<in> set ys. s < startslot c" using B R n by (force simp: range_ok_def)+
      then obtain ss1 x where 1: "tree_insert s n ss = Inr ss1" "has_blocks ss1 (xs @ \<lparr>startslot = s, nslots = n, listblock = x\<rparr> # ys)"
        using tree_insert_ok [OF H(1) [unfolded B(1)] so [unfolded B(1)] n] by blast
      have "apart (xs @ \<lparr>startslot = s, nslots = n, listblock = x\<rparr> # ys)" using H(2) B n by (auto simp: apart_append apart_Cons)
      moreover have "{s..s + n - 1} = {s..<s + n}" by auto
      ultimately have "slotset_ok ss1 \<and> free_set ss1 = free_set ss \<union> {s..<s + n}"
        using slotset_okI [OF 1(2)] by (simp add: F B(1) endslot_def Un_ac)
      then show ?thesis using 1(1) lo(1) hi(1) by (simp add: free_slots_def faulting_def)
    next
      case hi: (some xs b ys)
      have B: "bs = xs @ b # ys" using hi(2) by (simp add: bs_def)
      note h = high [OF hi(3), unfolded B, simplified]
      have "\<forall>c \<in> set xs. startslot c + nslots c < s"
      proof
        fix c assume c: "c \<in> set xs"
        then have cb: "c \<in> set bs" by (simp add: B)
        have "endslot c \<in> slots_in bs" by (rule ends_in(2) [OF cb R [OF cb]])
        moreover have "endslot c + 1 < s + n" using c hi(5) h by (simp add: apart_append endslot_def)
        ultimately have "endslot c \<noteq> s - 1" "endslot c < s" using lo(2) out [of "endslot c"] by (auto simp: F)
        then show "startslot c + nslots c < s" by (simp add: endslot_def)
      qed
      moreover have "\<forall>c \<in> set ys. s + (nslots b + n) < startslot c" using hi(5) h by (auto simp: apart_append apart_Cons)
      moreover have "range_ok b" using R B by simp
      ultimately obtain ss1 where "resize_block b s (nslots b + n) ss = Inr ss1" "slotset_ok ss1"
        "free_set ss1 = slots_in xs \<union> {s..<s + (nslots b + n)} \<union> slots_in ys"
        using grow_ok [OF hi(4,5) n(1), of "nslots b + n"] h n by (auto simp: range_ok_def)
      moreover have "{s..<s + (nslots b + n)} = {s..<s + n} \<union> {startslot b..endslot b}" using h n \<open>range_ok b\<close> by (auto simp: endslot_def range_ok_def)
      ultimately show ?thesis using lo(1) hi(1) by (simp add: free_slots_def faulting_def F B Un_ac)
    qed
  next
    case lo: (some xs b ys)
    have B: "bs = xs @ b # ys" using lo(2) by (simp add: bs_def)
    note l = low [OF lo(3), unfolded B, simplified]
    have above: "s + n \<le> startslot c" "startslot c \<in> slots_in bs" if c: "c \<in> set ys" for c
    proof -
      show i: "startslot c \<in> slots_in bs" using R [of c] c by (auto simp: B intro: ends_in(1))
      have "s < startslot c" using lo(5) c l by (auto simp: apart_append apart_Cons endslot_def)
      then show "s + n \<le> startslot c" using out [of "startslot c"] i by auto
    qed
    show ?thesis using ok
    proof (cases rule: find_slot [where s = "s + n"])
      case hi: none
      have "\<forall>c \<in> set ys. startslot b + (nslots b + n) < startslot c"
      proof
        fix c assume "c \<in> set ys"
        from above [OF this] have "s + n < startslot c" using hi(2) unfolding F by (metis order_le_less)
        then show "startslot b + (nslots b + n) < startslot c" using l by (simp add: endslot_def)
      qed
      moreover have "\<forall>c \<in> set xs. startslot c + nslots c < startslot b" using lo(5) by (auto simp: apart_append)
      moreover have r: "range_ok b" using R B by simp
      ultimately obtain ss1 where "resize_block b (startslot b) (nslots b + n) ss = Inr ss1" "slotset_ok ss1"
        "free_set ss1 = slots_in xs \<union> {startslot b..<startslot b + (nslots b + n)} \<union> slots_in ys"
        using grow_ok [OF lo(4,5), of "startslot b" "nslots b + n"] l n by (auto simp: range_ok_def endslot_def)
      moreover have "{startslot b..<startslot b + (nslots b + n)} = {startslot b..endslot b} \<union> {s..<s + n}" using l n r by (auto simp: endslot_def range_ok_def)
      ultimately show ?thesis using lo(1) hi(1) by (simp add: free_slots_def faulting_def F B Un_ac)
    next
      case hi: (some us h vs)
      have hb: "h \<in> set bs" using hi(2) by (simp add: bs_def)
      have h: "startslot h = s + n" by (rule high [OF hi(3) hb])
      have "h \<noteq> b" using l h n R [OF hb] by (auto simp: endslot_def range_ok_def)
      moreover have "h \<notin> set xs"
      proof
        assume "h \<in> set xs"
        then have "startslot h + nslots h < startslot b" using lo(5) by (simp add: apart_append)
        then show False using l h n R [OF hb] R [of b] by (simp add: B endslot_def range_ok_def)
      qed
      ultimately have "h \<in> set ys" using hb by (simp add: B)
      then obtain zs ws where ys: "ys = zs @ h # ws" by (metis split_list)
      have "zs = []"
      proof (rule ccontr)
        assume "zs \<noteq> []"
        then obtain c where c: "c \<in> set zs" by (metis list.set_intros(1) neq_Nil_conv)
        then have "startslot c + nslots c < startslot h" "range_ok c" using lo(5) R [of c] by (auto simp: B ys apart_append apart_Cons)
        then show False using above(1) [of c] c h by (simp add: ys range_ok_def)
      qed
      then have E: "has_blocks ss (xs @ b # h # ws)" "apart (xs @ b # h # ws)" using lo(4,5) by (simp_all add: ys)
      have "startslot b + nslots b + n = startslot h" using l h by (simp add: endslot_def)
      from join_ok [OF E this n(2)] obtain ss2 where
        "rbind (resize_block b (startslot b) (nslots b + n + nslots h) ss) (tree_delete (startslot h)) = Inr ss2" "slotset_ok ss2"
        "free_set ss2 = slots_in xs \<union> {startslot b..endslot h} \<union> slots_in ws" by blast
      moreover have "{startslot b..endslot h} = {startslot b..endslot b} \<union> {s..<s + n} \<union> {startslot h..endslot h}"
        using l h n R [OF hb] R [of b] by (auto simp: B endslot_def range_ok_def)
      ultimately show ?thesis using lo(1) hi(1) \<open>zs = []\<close> by (simp add: free_slots_def faulting_def F B ys Un_ac)
    qed
  qed
qed

section \<open>Finding free slots\<close>

lemma block_of_node: "bins_of ss (inorder (btree_root ss)) \<Longrightarrow> b \<in> set (inorder (btree_root ss)) \<Longrightarrow> block_of ss (listblock b) = Some b"
proof -
  have "find (\<lambda>c. listblock c = listblock b) bs = Some b" if "distinct (map listblock bs)" "b \<in> set bs" for bs
    using that
  proof (induction bs)
    case (Cons a bs)
    then show ?case by (cases "a = b") (auto simp: rev_image_eqI)
  qed simp
  then show "bins_of ss (inorder (btree_root ss)) \<Longrightarrow> b \<in> set (inorder (btree_root ss)) \<Longrightarrow> ?thesis"
    by (simp add: bins_of_def block_of_def)
qed

definition list_answer :: "slotset \<Rightarrow> int \<Rightarrow> ptr set \<Rightarrow> int option \<Rightarrow> bool" where
  "list_answer ss n xs r \<longleftrightarrow>
     (case r of None \<Rightarrow> \<forall>b \<in> set (inorder (btree_root ss)). listblock b \<in> xs \<longrightarrow> nslots b < n
      | Some s \<Rightarrow> \<exists>b \<in> set (inorder (btree_root ss)). s = startslot b \<and> n \<le> nslots b)"

lemma scan_list_ok:
  assumes ok: "bins_of ss (inorder (btree_root ss))"
  shows "dchain (dnext ss) (dprevious ss) q p xs \<Longrightarrow> set xs \<subseteq> listblock ` set (inorder (btree_root ss)) \<Longrightarrow>
    \<exists>r. scan_list ss n p = Some r \<and> list_answer ss n (set xs) r"
proof (induction xs arbitrary: p q)
  case Nil
  then show ?case by (subst scan_list.simps) (simp add: list_answer_def)
next
  case (Cons x xs)
  then obtain b where b: "b \<in> set (inorder (btree_root ss))" "listblock b = x" by auto
  have bo: "block_of ss x = Some b" using block_of_node [OF ok b(1)] b(2) by simp
  have p: "p = x" "x \<noteq> NULL" "dchain (dnext ss) (dprevious ss) x (dnext ss x) xs" using Cons.prems(1) by auto
  show ?case
  proof (cases "n \<le> nslots b")
    case True
    then show ?thesis using p bo b(1) by (subst scan_list.simps) (auto simp: list_answer_def)
  next
    case False
    obtain r where r: "scan_list ss n (dnext ss x) = Some r" "list_answer ss n (set xs) r"
      using Cons.IH [OF p(3)] Cons.prems(2) by auto
    have "c = b" if "c \<in> set (inorder (btree_root ss))" "listblock c = x" for c using block_of_node [OF ok that(1)] that(2) bo by simp
    then have "list_answer ss n (set (x # xs)) r" using r(2) False by (auto simp: list_answer_def split: option.splits)
    then show ?thesis using p(1,2) bo False r(1) by (subst scan_list.simps) auto
  qed
qed

lemma scan_bins_ok:
  assumes ok: "bins_of ss (inorder (btree_root ss))"
  shows "list_all2 (\<lambda>p xs. dchain (dnext ss) (dprevious ss) NULL p xs \<and> set xs \<subseteq> listblock ` set (inorder (btree_root ss))) ps xss \<Longrightarrow>
    \<exists>r. list_answer ss n (\<Union> (set ` set xss)) r \<and> scan_bins ss n ps = Some (case r of None \<Rightarrow> -1 | Some s \<Rightarrow> s)"
proof (induction ps xss rule: list_all2_induct)
  case Nil
  then show ?case by (auto simp: list_answer_def intro!: exI [of _ None])
next
  case (Cons p ps xs xss)
  obtain r where r: "scan_list ss n p = Some r" "list_answer ss n (set xs) r" using scan_list_ok [OF ok] Cons.hyps(1) by blast
  obtain r' where r': "list_answer ss n (\<Union> (set ` set xss)) r'" "scan_bins ss n ps = Some (case r' of None \<Rightarrow> -1 | Some s \<Rightarrow> s)"
    using Cons.IH by blast
  show ?case
  proof (cases r)
    case None
    then have "list_answer ss n (\<Union> (set ` set (xs # xss))) r'" using r(2) r'(1) by (auto simp: list_answer_def split: option.splits)
    then show ?thesis using r(1) r'(2) None by auto
  next
    case (Some s)
    then have "list_answer ss n (\<Union> (set ` set (xs # xss))) (Some s)" using r(2) by (simp add: list_answer_def)
    then show ?thesis using r(1) Some by (intro exI [of _ "Some s"]) simp
  qed
qed

text \<open>A run of free slots lies in one block, since blocks do not touch.\<close>

lemma run_in_block:
  assumes "has_blocks ss bs" "apart bs" "0 < n" "{s..<s + n} \<subseteq> slots_in bs"
  shows "\<exists>b \<in> set bs. startslot b \<le> s \<and> s + n \<le> startslot b + nslots b"
proof -
  have "s \<in> slots_in bs" using assms(3,4) by auto
  then obtain b where b: "b \<in> set bs" "in_block s b" by (auto simp: slots_in_def)
  then obtain xs ys where B: "bs = xs @ b # ys" by (metis split_list)
  have "\<forall>c \<in> set bs. range_ok c" using has_blocks_range [OF assms(1)] by blast
  note A = apart_around [OF assms(2) [unfolded B] this [unfolded B]]
  have "s + n - 1 \<le> endslot b"
  proof (rule ccontr)
    assume "\<not> s + n - 1 \<le> endslot b"
    then have "endslot b + 1 \<in> slots_in bs" using assms(4) b(2) by (auto simp: in_block_def)
    then show False using A b(2) by (auto simp: B in_block_def)
  qed
  then show ?thesis using b by (auto simp: in_block_def endslot_def)
qed

lemma get_slots_ok:
  assumes ok: "slotset_ok ss" and n: "0 < n" "n \<le> max_slot"
  shows "\<exists>s. get_slots ss n = Inr s \<and> (if s = -1 then \<forall>i. \<not> {i..<i + n} \<subseteq> free_set ss else 0 \<le> s \<and> {s..<s + n} \<subseteq> free_set ss)"
proof -
  let ?bs = "inorder (btree_root ss)"
  have H: "has_blocks ss ?bs" "apart ?bs" "bins_of ss ?bs" using ok by (simp_all add: slotset_ok_iff has_blocks_def)
  obtain F where F: "bins_ok ss F" "bins_match F ?bs" "distinct (map listblock ?bs)" "\<forall>b \<in> set ?bs. range_ok b"
    "\<forall>b \<in> set ?bs. nslots_ok (nslots b) \<and> listblock b \<in> set (F (lbin (nslots b)))" by (rule bins_ofD [OF H(3)])
  have sn: "nslots_ok n" using n by (simp add: nslots_ok_def max_slot_def)
  let ?k = "lbin n"
  have len: "length (list_array ss) = LIST_ARRAY_SIZE" using F(1) by (simp add: bins_ok_def lists_ok_def)
  have "list_all2 (\<lambda>p xs. dchain (dnext ss) (dprevious ss) NULL p xs \<and> set xs \<subseteq> listblock ` set ?bs)
      (drop ?k (list_array ss)) (map F [?k..<LIST_ARRAY_SIZE])"
    using bins_okD(1) [OF F(1)] F(2) nodes_of_sub len by (auto simp: list_all2_conv_all_nth bins_match_def)
  from scan_bins_ok [OF H(3) this, of n] obtain r where
    r: "list_answer ss n (\<Union> (set ` set (map F [?k..<LIST_ARRAY_SIZE]))) r"
    "scan_bins ss n (drop ?k (list_array ss)) = Some (case r of None \<Rightarrow> -1 | Some s \<Rightarrow> s)" by blast
  have g: "get_slots ss n = Inr (case r of None \<Rightarrow> -1 | Some s \<Rightarrow> s)" using r(2) bin_less(2) [OF sn] by (simp add: get_slots_def faulting_def)
  show ?thesis
  proof (cases r)
    case None
    have small: "nslots b < n" if b: "b \<in> set ?bs" for b
    proof (rule ccontr)
      assume "\<not> nslots b < n"
      then have "?k \<le> lbin (nslots b)" "lbin (nslots b) < LIST_ARRAY_SIZE" using lbin_mono [of n "nslots b"] n F(5) b bin_less(1) by auto
      then have "listblock b \<in> \<Union> (set ` set (map F [?k..<LIST_ARRAY_SIZE]))" using F(5) b by auto
      then show False using r(1) None b \<open>\<not> nslots b < n\<close> by (auto simp: list_answer_def)
    qed
    have "\<not> {i..<i + n} \<subseteq> free_set ss" for i
      using run_in_block [OF H(1,2) n(1), of i] small unfolding free_set_def by force
    then show ?thesis using g None by simp
  next
    case (Some s)
    then obtain b where b: "b \<in> set ?bs" "s = startslot b" "n \<le> nslots b" using r(1) by (auto simp: list_answer_def)
    have rb: "range_ok b" using F(4) b(1) by blast
    have "{s..<s + n} \<subseteq> free_set ss" using ends_in(4) [OF b(1) rb] b(2,3) by (auto simp: free_set_def endslot_def)
    then show ?thesis using g Some b(2) rb by (simp add: range_ok_def)
  qed
qed

lemma new_slotset_ok:
  assumes "0 \<le> s" "0 < n" "s + n \<le> max_slot"
  shows "\<exists>ss. new_slotset s n = Inr ss \<and> slotset_ok ss \<and> free_set ss = {s..<s + n}"
proof -
  have n: "nslots_ok n" using assms by (simp add: nslots_ok_def max_slot_def)
  let ?k = "lbin n"
  let ?b = "\<lparr>startslot = s, nslots = n, listblock = 1\<rparr>"
  let ?ss = "\<lparr>list_array = (replicate LIST_ARRAY_SIZE NULL)[?k := 1], dprevious = (\<lambda>_. NULL), dnext = (\<lambda>_. NULL),
    dalloc = {1}, dfresh = 2, btree_root = Node [?b] []\<rparr>"
  let ?F = "\<lambda>k. if k = ?k then [1] else []"
  have k: "?k < LIST_ARRAY_SIZE" using bin_less(1) [OF n] .
  have "bins_ok ?ss ?F" using k by (auto simp: bins_ok_def lists_ok_def nth_list_update)
  moreover have "bins_match ?F [?b]" by (simp add: bins_match_def)
  moreover have "range_ok ?b" using assms by (simp add: range_ok_def)
  ultimately have "bins_of ?ss [?b]" by (intro bins_ofI) auto
  moreover have "tree_ok (Node [?b] [])" by (auto simp: tree_ok_def min_root_def TREE_NODE_SIZE_def intro!: exI [of _ "0::nat"])
  ultimately have "has_blocks ?ss [?b]" by (simp add: has_blocks_def)
  from slotset_okI [OF this] have "slotset_ok ?ss \<and> free_set ?ss = slots_in [?b]" by (simp add: apart_def)
  moreover have "slots_in [?b] = {s..<s + n}" by (auto simp: endslot_def)
  ultimately show ?thesis using bin_less(2) [OF n] by (simp add: new_slotset_def)
qed

end
