(* ===== verification/Isomalloc.thy ===== *)
theory Isomalloc
  imports Slotset
begin

text \<open>
  Isomalloc on top of the slot sets (\<^verbatim>\<open>conv-core/isomalloc.c\<close>): the conversions between slots, addresses
  and processors, the allocation function that the memory pools of the threads call, and the requests that
  span several processors.  What a slot set promises its clients is the locale \<open>slot_store\<close>, which
  \<open>Slotset\<close> implements.

  The system call \<^verbatim>\<open>mmap\<close> is a parameter: a function from the number of the attempt, the address and the
  length to the address it returns (0 for failure) and whether \<^verbatim>\<open>errno\<close> is then \<^verbatim>\<open>ENOMEM\<close>.  Calls
  of it and of \<^verbatim>\<open>munmap\<close> are recorded in the state.
\<close>

section \<open>The interface of a slot set\<close>

text \<open>\<open>answers S n i\<close>: \<open>i\<close> is the first of \<open>n\<close> consecutive elements of \<open>S\<close>, or -1 and there are none.\<close>

definition answers :: "int set \<Rightarrow> int \<Rightarrow> int \<Rightarrow> bool" where
  "answers S n i \<longleftrightarrow> (if i = -1 then \<forall>j. \<not> {j..<j + n} \<subseteq> S else 0 \<le> i \<and> {i..<i + n} \<subseteq> S)"

datatype slot_request = Grab int int | Release int int

fun spec_request :: "int \<Rightarrow> slot_request \<Rightarrow> int set \<Rightarrow> int set option" where
  "spec_request high (Grab s n) S = (if 0 < n \<and> {s..<s + n} \<subseteq> S then Some (S - {s..<s + n}) else None)"
| "spec_request high (Release s n) S =
     (if 0 \<le> s \<and> 0 < n \<and> s + n \<le> high \<and> {s..<s + n} \<inter> S = {} then Some (S \<union> {s..<s + n}) else None)"

fun spec_requests :: "int \<Rightarrow> slot_request list \<Rightarrow> int set \<Rightarrow> int set option" where
  "spec_requests high [] S = Some S"
| "spec_requests high (r # rs) S = Option.bind (spec_request high r S) (spec_requests high rs)"

fun run_requests :: "('s \<Rightarrow> int \<Rightarrow> int \<Rightarrow> 's result) \<Rightarrow> ('s \<Rightarrow> int \<Rightarrow> int \<Rightarrow> 's result) \<Rightarrow> slot_request list \<Rightarrow> 's \<Rightarrow> 's result" where
  "run_requests grab free [] ss = Inr ss"
| "run_requests grab free (Grab s n # rs) ss = rbind (grab ss s n) (run_requests grab free rs)"
| "run_requests grab free (Release s n # rs) ss = rbind (free ss s n) (run_requests grab free rs)"

locale slot_store =
  fixes ok :: "'s \<Rightarrow> bool" and contents :: "'s \<Rightarrow> int set" and high :: int
    and get :: "'s \<Rightarrow> int \<Rightarrow> int result" and grab :: "'s \<Rightarrow> int \<Rightarrow> int \<Rightarrow> 's result" and free :: "'s \<Rightarrow> int \<Rightarrow> int \<Rightarrow> 's result"
  assumes get_law: "ok ss \<Longrightarrow> 0 < n \<Longrightarrow> n \<le> high \<Longrightarrow> \<exists>i. get ss n = Inr i \<and> answers (contents ss) n i"
    and grab_law: "ok ss \<Longrightarrow> 0 < n \<Longrightarrow> {s..<s + n} \<subseteq> contents ss \<Longrightarrow>
      \<exists>ss1. grab ss s n = Inr ss1 \<and> ok ss1 \<and> contents ss1 = contents ss - {s..<s + n}"
    and free_law: "ok ss \<Longrightarrow> 0 \<le> s \<Longrightarrow> 0 < n \<Longrightarrow> s + n \<le> high \<Longrightarrow> {s..<s + n} \<inter> contents ss = {} \<Longrightarrow>
      \<exists>ss1. free ss s n = Inr ss1 \<and> ok ss1 \<and> contents ss1 = contents ss \<union> {s..<s + n}"
begin

lemma requests_refine:
  "ok ss \<Longrightarrow> spec_requests high rs (contents ss) = Some S \<Longrightarrow> \<exists>ss1. run_requests grab free rs ss = Inr ss1 \<and> ok ss1 \<and> contents ss1 = S"
proof (induction rs arbitrary: ss)
  case (Cons r rs)
  then obtain S1 where S1: "spec_request high r (contents ss) = Some S1" "spec_requests high rs S1 = Some S"
    by (auto simp: Option.bind_eq_Some_conv)
  show ?case
  proof (cases r)
    case (Grab s n)
    then obtain ss1 where "grab ss s n = Inr ss1" "ok ss1" "contents ss1 = S1"
      using S1(1) grab_law [OF Cons.prems(1), of n s] by (auto split: if_splits)
    then show ?thesis using Cons.IH S1(2) Grab by auto
  next
    case (Release s n)
    then obtain ss1 where "free ss s n = Inr ss1" "ok ss1" "contents ss1 = S1"
      using S1(1) free_law [OF Cons.prems(1), of s n] by (auto split: if_splits)
    then show ?thesis using Cons.IH S1(2) Release by auto
  qed
qed simp

text \<open>What an allocation does: look for a run of slots and take it.\<close>

lemma get_then_grab:
  assumes "ok ss" "0 < n" "n \<le> high"
  obtains (out_of_space) "get ss n = Inr (-1)" "\<forall>j. \<not> {j..<j + n} \<subseteq> contents ss"
    | (taken) i ss1 where "get ss n = Inr i" "i \<noteq> -1" "0 \<le> i" "{i..<i + n} \<subseteq> contents ss" "grab ss i n = Inr ss1" "ok ss1"
        "contents ss1 = contents ss - {i..<i + n}"
proof -
  obtain i where i: "get ss n = Inr i" "answers (contents ss) n i" using get_law [OF assms] by blast
  show ?thesis
  proof (cases "i = -1")
    case True
    then show ?thesis using i out_of_space by (simp add: answers_def)
  next
    case False
    then have "0 \<le> i" "{i..<i + n} \<subseteq> contents ss" using i(2) by (simp_all add: answers_def)
    then show ?thesis using grab_law [OF assms(1,2)] i(1) False taken by blast
  qed
qed

end

interpretation slots: slot_store slotset_ok free_set max_slot get_slots grab_slots free_slots
proof
  show "\<exists>i. get_slots ss n = Inr i \<and> answers (free_set ss) n i" if "slotset_ok ss" "0 < n" "n \<le> max_slot" for ss n
    using get_slots_ok [OF that] by (simp add: answers_def)
qed (fact grab_slots_ok free_slots_ok)+

section \<open>Slots, addresses and processors\<close>

datatype sys_call = Mmap int int | Munmap int int

record isomalloc =
  isomallocStart :: int
  slotsize :: int
  numslots :: int
  myss :: slotset
  sys_calls :: "sys_call list"

definition slot2addr :: "isomalloc \<Rightarrow> int \<Rightarrow> int" where
  "slot2addr st slot = (isomallocStart st + slotsize st * slot) mod 2 ^ 64"

definition slot2pe :: "isomalloc \<Rightarrow> int \<Rightarrow> int" where
  "slot2pe st slot = slot div numslots st"

definition pe2slot :: "isomalloc \<Rightarrow> int \<Rightarrow> int" where
  "pe2slot st pe = pe * numslots st"


section \<open>Mapping memory\<close>


definition unmap_slots :: "int \<Rightarrow> int \<Rightarrow> isomalloc \<Rightarrow> isomalloc" where
  "unmap_slots slot n st = st\<lparr>sys_calls := sys_calls st @ [Munmap (slot2addr st slot) (slotsize st * n)]\<rparr>"



text \<open>The memory of a block goes back to the system, its slots stay taken; \<open>sz\<close> is the one in the header of the block.\<close>

definition isofreefn :: "int \<Rightarrow> int \<Rightarrow> isomalloc \<Rightarrow> isomalloc" where
  "isofreefn p sz st = st\<lparr>sys_calls := sys_calls st @ [Munmap p sz]\<rparr>"

section \<open>Requests to other processors\<close>

datatype remote_idx = grab_remote_idx | free_remote_idx

record slotOP =
  local_op :: "slotset \<Rightarrow> int \<Rightarrow> int \<Rightarrow> slotset result"
  remote :: remote_idx

record slotmsg =
  handler_idx :: remote_idx
  pe :: int
  slot :: int
  msg_nslots :: int

definition grabOP :: slotOP where
  "grabOP = \<lparr>local_op = grab_slots, remote = grab_remote_idx\<rparr>"

definition freeOP :: slotOP where
  "freeOP = \<lparr>local_op = free_slots, remote = free_remote_idx\<rparr>"

definition prepare_slotmsg :: "int \<Rightarrow> int \<Rightarrow> int \<Rightarrow> remote_idx \<Rightarrow> slotmsg" where
  "prepare_slotmsg me s n h = \<lparr>handler_idx = h, pe = me, slot = s, msg_nslots = n\<rparr>"

text \<open>What the handler of a message does on the processor that gets it.\<close>

definition handle_slotmsg :: "slotmsg \<Rightarrow> slotset \<Rightarrow> slotset result" where
  "handle_slotmsg m ss =
     (case handler_idx m of grab_remote_idx \<Rightarrow> grab_slots ss (slot m) (msg_nslots m)
      | free_remote_idx \<Rightarrow> free_slots ss (slot m) (msg_nslots m))"

definition one_slotOP :: "slotOP \<Rightarrow> int \<Rightarrow> int \<Rightarrow> int \<Rightarrow> int \<Rightarrow> isomalloc \<times> (int \<times> slotmsg) list \<Rightarrow>
    (isomalloc \<times> (int \<times> slotmsg) list) result" where
  "one_slotOP oper me p s n = (\<lambda>(st, out).
     let p_s = pe2slot st p; p_e = pe2slot st (p + 1); e = s + n;
         s1 = (if s < p_s then p_s else s); e1 = (if p_e < e then p_e else e); n1 = e1 - s1
     in if p = me then rbind (local_op oper (myss st) s1 n1) (\<lambda>ss. Inr (st\<lparr>myss := ss\<rparr>, out))
        else Inr (st, out @ [(p, prepare_slotmsg me s1 n1 (remote freeOP))]))"

fun slotOP_loop :: "slotOP \<Rightarrow> int \<Rightarrow> int \<Rightarrow> int \<Rightarrow> int list \<Rightarrow> isomalloc \<times> (int \<times> slotmsg) list \<Rightarrow>
    (isomalloc \<times> (int \<times> slotmsg) list) result" where
  "slotOP_loop oper me s n [] x = Inr x"
| "slotOP_loop oper me s n (p # ps) x = rbind (one_slotOP oper me p s n x) (slotOP_loop oper me s n ps)"

definition all_slotOP :: "slotOP \<Rightarrow> int \<Rightarrow> int \<Rightarrow> int \<Rightarrow> isomalloc \<Rightarrow> (isomalloc \<times> (int \<times> slotmsg) list) result" where
  "all_slotOP oper me s n st = slotOP_loop oper me s n [slot2pe st s..slot2pe st (s + n - 1)] (st, [])"

section \<open>Slot sets are sets\<close>

text \<open>
  C33.  A slot set that starts with the slots from \<open>a\<close> to \<open>a + n\<close> (below \<open>2\<^sup>6\<^sup>2\<close>) implements a set of free slots: after every
  sequence of grabs of free slots and releases of used ones, in which no operation faults or aborts, exactly the slots of
  the set are free.  Then a search for \<open>m\<close> slots ends with the first of \<open>m\<close> consecutive free slots, or with -1 if there
  are none, and grabbing from a slot that is not free aborts.
\<close>

theorem slotset_refines_set:
  assumes "0 \<le> a" "0 < n" "a + n \<le> max_slot" "spec_requests max_slot rs {a..<a + n} = Some S"
  shows "\<exists>ss0 ss. new_slotset a n = Inr ss0 \<and> run_requests grab_slots free_slots rs ss0 = Inr ss \<and> free_set ss = S \<and>
    (\<forall>m. 0 < m \<and> m \<le> max_slot \<longrightarrow> (\<exists>i. get_slots ss m = Inr i \<and> answers S m i)) \<and>
    (\<forall>s m. s \<notin> S \<longrightarrow> grab_slots ss s m = Inl (Abort ''requested a non-existent slotblock''))"
proof -
  obtain ss0 where N: "new_slotset a n = Inr ss0" "slotset_ok ss0" "free_set ss0 = {a..<a + n}"
    using new_slotset_ok [OF assms(1-3)] by blast
  obtain ss where R: "run_requests grab_slots free_slots rs ss0 = Inr ss" "slotset_ok ss" "free_set ss = S"
    using slots.requests_refine [OF N(2)] assms(4) N(3) by auto
  show ?thesis using N(1) R slots.get_law [OF R(2)] grab_slots_abort [OF R(2)] by blast
qed

theorem slotset_refines_set_witness:
  "\<exists>ss0 ss. new_slotset 0 10 = Inr ss0 \<and> run_requests grab_slots free_slots [Grab 2 3, Grab 9 1, Release 4 1] ss0 = Inr ss \<and>
    free_set ss = {0..<10} - {2..<5} - {9..<10} \<union> {4..<5}"
proof -
  have sub: "{2..<5} \<subseteq> {0..<10 :: int}" "{9..<10} \<subseteq> {0..<10} - {2..<5 :: int}"
    "{4..<5} \<inter> ({0..<10} - {2..<5} - {9..<10 :: int}) = {}" by auto
  have "spec_requests max_slot [Grab 2 3, Grab 9 1, Release 4 1] {0..<0 + 10} = Some ({0..<10} - {2..<5} - {9..<10} \<union> {4..<5})"
    using sub by (simp add: max_slot_def)
  from slotset_refines_set [OF _ _ _ this] show ?thesis by (auto simp: max_slot_def)
qed

section \<open>Allocations do not overlap\<close>
















section \<open>Requests that span processors\<close>

text \<open>The slots of a request that lie on processor \<open>p\<close>.\<close>

definition share :: "int \<Rightarrow> int \<Rightarrow> int \<Rightarrow> int \<Rightarrow> int set" where
  "share k s n p = {s..<s + n} \<inter> {p * k..<(p + 1) * k}"

definition msg_slots :: "slotmsg \<Rightarrow> int set" where
  "msg_slots m = {slot m..<slot m + msg_nslots m}"

lemma div_bounds:
  fixes x k :: int
  assumes "0 < k"
  shows "x div k * k \<le> x" "x < x div k * k + k"
proof -
  have "x = x div k * k + x mod k" "0 \<le> x mod k" "x mod k < k" using assms by simp_all
  then show "x div k * k \<le> x" "x < x div k * k + k" by linarith+
qed

lemma share_nonempty:
  fixes s n p k :: int
  assumes k: "0 < k" and n: "0 < n" and p: "s div k \<le> p" "p \<le> (s + n - 1) div k"
  shows "max s (p * k) < min (s + n) ((p + 1) * k)"
proof -
  have "p * k \<le> (s + n - 1) div k * k" "s div k * k \<le> p * k" using p k by simp_all
  then have "p * k \<le> s + n - 1" "s < p * k + k" using div_bounds [OF k, of "s + n - 1"] div_bounds [OF k, of s] by linarith+
  then show ?thesis using k n by (simp add: distrib_right)
qed

lemma shares_cover:
  assumes "0 < k" "0 < n"
  shows "(\<Union>p \<in> {s div k..(s + n - 1) div k}. share k s n p) = {s..<s + n}"
proof -
  have "x \<in> share k s n (x div k) \<and> x div k \<in> {s div k..(s + n - 1) div k}" if x: "x \<in> {s..<s + n}" for x
  proof -
    have "x div k * k \<le> x \<and> x < (x div k + 1) * k" using div_bounds [OF assms(1), of x] by (simp add: distrib_right)
    moreover have "s div k \<le> x div k" "x div k \<le> (s + n - 1) div k" using x assms(1) by (auto intro: zdiv_mono1)
    ultimately show ?thesis using x by (simp add: share_def)
  qed
  then have "{s..<s + n} \<subseteq> (\<Union>p \<in> {s div k..(s + n - 1) div k}. share k s n p)" by blast
  moreover have "share k s n p \<subseteq> {s..<s + n}" for p by (auto simp: share_def)
  ultimately show ?thesis by blast
qed

lemma one_slotOP_eq:
  fixes k s n p
  defines "s1 \<equiv> max s (p * k)" and "e1 \<equiv> min (s + n) ((p + 1) * k)"
  assumes "numslots st = k"
  shows "one_slotOP oper me p s n (st, out) =
    (if p = me then rbind (local_op oper (myss st) s1 (e1 - s1)) (\<lambda>ss. Inr (st\<lparr>myss := ss\<rparr>, out))
     else Inr (st, out @ [(p, prepare_slotmsg me s1 (e1 - s1) free_remote_idx)]))"
  using assms(3) by (simp add: one_slotOP_def pe2slot_def Let_def s1_def e1_def max_def min_def freeOP_def)

definition free_request :: "int \<Rightarrow> int \<Rightarrow> int \<Rightarrow> int \<Rightarrow> int \<times> slotmsg \<Rightarrow> bool" where
  "free_request k s n p = (\<lambda>(q, m). q = p \<and> handler_idx m = free_remote_idx \<and> msg_slots m = share k s n p)"

lemma slotOP_loop_free:
  assumes k: "numslots st = k" "0 < k" and n: "0 \<le> s" "0 < n" "s + n \<le> max_slot" and ok: "slotset_ok (myss st)"
  shows "distinct ps \<Longrightarrow> set ps \<subseteq> {s div k..(s + n - 1) div k} \<Longrightarrow> me \<in> set ps \<longrightarrow> share k s n me \<inter> free_set (myss st) = {} \<Longrightarrow>
    \<exists>ss msgs. slotOP_loop freeOP me s n ps (st, out) = Inr (st\<lparr>myss := ss\<rparr>, out @ msgs) \<and> slotset_ok ss \<and>
      free_set ss = free_set (myss st) \<union> (if me \<in> set ps then share k s n me else {}) \<and>
      list_all2 (free_request k s n) (filter (\<lambda>p. p \<noteq> me) ps) msgs"
  using k(1) ok
proof (induction ps arbitrary: st out)
  case (Cons p ps)
  let ?s = "max s (p * k)" and ?e = "min (s + n) ((p + 1) * k)"
  have ne: "?s < ?e" by (rule share_nonempty [OF k(2) n(2)]) (use Cons.prems(2) in simp_all)
  have sh: "share k s n p = {?s..<?s + (?e - ?s)}" by (auto simp: share_def)
  show ?case
  proof (cases "p = me")
    case True
    have rg: "0 \<le> ?s" "0 < ?e - ?s" "?s + (?e - ?s) \<le> max_slot" using n ne by auto
    have dj: "{?s..<?s + (?e - ?s)} \<inter> free_set (myss st) = {}" using Cons.prems(3) True sh by simp
    obtain ss1 where F: "free_slots (myss st) ?s (?e - ?s) = Inr ss1" "slotset_ok ss1" "free_set ss1 = free_set (myss st) \<union> share k s n me"
      using slots.free_law [OF Cons.prems(5) rg dj] sh True by auto
    have me: "me \<notin> set ps" using Cons.prems(1) True by simp
    obtain ss msgs where R: "slotOP_loop freeOP me s n ps (st\<lparr>myss := ss1\<rparr>, out) = Inr (st\<lparr>myss := ss\<rparr>, out @ msgs)" "slotset_ok ss"
      "free_set ss = free_set ss1" "list_all2 (free_request k s n) (filter (\<lambda>p. p \<noteq> me) ps) msgs"
      using Cons.IH [of "st\<lparr>myss := ss1\<rparr>" out] Cons.prems me F(2) by auto
    have "one_slotOP freeOP me p s n (st, out) = Inr (st\<lparr>myss := ss1\<rparr>, out)"
      using F(1) True unfolding one_slotOP_eq [OF Cons.prems(4)] by (simp add: freeOP_def)
    then show ?thesis using R F(3) True by auto
  next
    case False
    let ?m = "(p, prepare_slotmsg me ?s (?e - ?s) free_remote_idx)"
    obtain ss msgs where R: "slotOP_loop freeOP me s n ps (st, out @ [?m]) = Inr (st\<lparr>myss := ss\<rparr>, (out @ [?m]) @ msgs)" "slotset_ok ss"
      "free_set ss = free_set (myss st) \<union> (if me \<in> set ps then share k s n me else {})"
      "list_all2 (free_request k s n) (filter (\<lambda>p. p \<noteq> me) ps) msgs"
      using Cons.IH [of st "out @ [?m]"] Cons.prems by auto
    have "free_request k s n p ?m" using sh by (simp add: free_request_def msg_slots_def prepare_slotmsg_def)
    moreover have "one_slotOP freeOP me p s n (st, out) = Inr (st, out @ [?m])"
      using False unfolding one_slotOP_eq [OF Cons.prems(4)] by simp
    ultimately show ?thesis using R False by (intro exI [of _ ss] exI [of _ "?m # msgs"]) auto
  qed
next
  case Nil
  then show ?case by (intro exI [of _ "myss st"] exI [of _ "[]"]) simp
qed

text \<open>
  Releasing a range of slots frees the share of this processor and asks every other processor it touches to free
  its own; together these are the whole range.
\<close>

theorem all_slotOP_free:
  assumes "0 < numslots st" "0 \<le> s" "0 < n" "s + n \<le> max_slot" "slotset_ok (myss st)"
    and "share (numslots st) s n me \<inter> free_set (myss st) = {}"
  defines "ps \<equiv> [slot2pe st s..slot2pe st (s + n - 1)]"
  shows "\<exists>ss msgs. all_slotOP freeOP me s n st = Inr (st\<lparr>myss := ss\<rparr>, msgs) \<and> slotset_ok ss \<and>
    free_set ss = free_set (myss st) \<union> (if me \<in> set ps then share (numslots st) s n me else {}) \<and>
    list_all2 (free_request (numslots st) s n) (filter (\<lambda>p. p \<noteq> me) ps) msgs \<and>
    (\<Union>p \<in> set ps. share (numslots st) s n p) = {s..<s + n}"
proof -
  have ps: "distinct ps" "set ps = {s div numslots st..(s + n - 1) div numslots st}" by (simp_all add: ps_def slot2pe_def)
  obtain ss msgs where R: "slotOP_loop freeOP me s n ps (st, []) = Inr (st\<lparr>myss := ss\<rparr>, [] @ msgs)" "slotset_ok ss"
    "free_set ss = free_set (myss st) \<union> (if me \<in> set ps then share (numslots st) s n me else {})"
    "list_all2 (free_request (numslots st) s n) (filter (\<lambda>p. p \<noteq> me) ps) msgs"
    using slotOP_loop_free [OF refl assms(1-5) ps(1), of me "[]"] ps(2) assms(6) by auto
  then show ?thesis using shares_cover [OF assms(1,3)] by (auto simp: all_slotOP_def ps_def [symmetric] ps(2))
qed

text \<open>
  A request to grab slots of another processor is sent with the index of the other handler, so that processor frees
  slots that are free already.  With the slots in the middle of one block, it then deletes that block.
\<close>

theorem remote_grab_frees:
  assumes "p \<noteq> me"
  shows "\<exists>m. one_slotOP grabOP me p s n (st, out) = Inr (st, out @ [(p, m)]) \<and> handler_idx m = free_remote_idx"
  using assms by (simp add: one_slotOP_def Let_def prepare_slotmsg_def freeOP_def)

lemma freeing_free_slots:
  "rbind (new_slotset 0 10) (\<lambda>ss. map_sum (\<lambda>e. e) (\<lambda>ss. inorder (btree_root ss))
     (handle_slotmsg (prepare_slotmsg 1 2 3 free_remote_idx) ss)) = Inr []"
  by code_simp

end
