(* ===== verification/Mempool.thy ===== *)
theory Mempool
  imports DLists "HOL-Library.Word"
begin

text \<open>
  The memory pools of the threads, \<^verbatim>\<open>arch/util/mempool.c\<close>.  A pool consists of blocks from the system; the
  first holds the \<^verbatim>\<open>mempool_type\<close>.  A block is divided into slots whose sizes are powers of two.  The header
  of a slot has its size as an index into \<^verbatim>\<open>cutOffPoints\<close>, whether it is free, the slots before and after it in
  the block, and, if it is free, its neighbours in the list of free slots of its size.

  Slots and blocks are named by their distance from the pool, as the code stores them; 0 is \<^verbatim>\<open>NULL\<close> where a slot
  or a next block is meant, and the first block otherwise.  Memory is a function from positions to slot headers;
  headers of slots of a block are at least 64 bytes apart and never overlap.
  The function that gets a block from the system is a parameter that gives the position of the block,
  its size and its handle.  The lock of a pool is a flag; taking it twice is a fault.
\<close>

section \<open>State\<close>

definition cutOffNum :: nat where "cutOffNum = 25"

definition cutOffPoints :: "nat list" where
  "cutOffPoints = [64, 128, 256, 512, 1024, 2048, 4096, 8192, 16384, 32768,
     65536, 131072, 262144, 524288, 1048576, 2097152, 4194304,
     8388608, 16777216, 33554432, 67108864, 134217728, 268435456,
     536870912, 1073741824]"

abbreviation cut :: "nat \<Rightarrow> nat" where "cut i \<equiv> cutOffPoints ! i"

record slot_header =
  block_ptr :: nat
  sh_size :: nat
  sh_status :: nat
  gprev :: nat
  gnext :: nat
  sh_prev :: nat
  sh_next :: nat

record block_header =
  mem_hndl :: int
  bsize :: nat
  bused :: u64
  block_prev :: nat
  block_next :: nat
  freelists :: "nat list"

record mempool =
  heads :: "nat \<Rightarrow> slot_header"
  blks :: "nat \<rightharpoonup> block_header"
  block_tail :: nat
  limit :: nat
  psize :: nat
  mempoolLock :: bool
  freed :: "(nat \<times> int) list"

definition sizeof_block_header :: nat where "sizeof_block_header = 256"
definition sizeof_mempool_type :: nat where "sizeof_mempool_type = 304"
definition sizeof_used_header :: nat where "sizeof_used_header = 32"

type_synonym newblockfn = "nat \<Rightarrow> (nat \<times> nat \<times> int) option"

definition which_pow2 :: "nat \<Rightarrow> nat" where
  "which_pow2 sz = length (takeWhile (\<lambda>c. c < sz) cutOffPoints)"

text \<open>The greatest index whose size is at most \<open>sz\<close>; the table is read at index 25 for a size above its last entry.\<close>

definition top_power :: "nat \<Rightarrow> int result" where
  "top_power sz =
     (let pw = which_pow2 sz in
      if pw = cutOffNum then Inl (Fault ''cutOffPoints'')
      else Inr (if sz < cut pw then int pw - 1 else int pw))"

section \<open>A new block\<close>

text \<open>The loops go from \<open>pw\<close> down to 0; the first argument is one more than the index.\<close>

fun fill_lists :: "nat \<Rightarrow> nat \<Rightarrow> nat \<Rightarrow> nat list \<Rightarrow> nat list" where
  "fill_lists 0 loc left fl = fl"
| "fill_lists (Suc i) loc left fl =
     (if cut i \<le> left then fill_lists i (loc + cut i) (left - cut i) (fl[i := loc]) else fill_lists i loc left fl)"

fun fill_heads :: "nat \<Rightarrow> nat \<Rightarrow> nat \<Rightarrow> nat list \<Rightarrow> nat \<Rightarrow> (nat \<Rightarrow> slot_header) \<Rightarrow> nat \<times> (nat \<Rightarrow> slot_header)" where
  "fill_heads 0 pw b fl pv h = (pv, h)"
| "fill_heads (Suc i) pw b fl pv h =
     (if fl ! i \<noteq> 0
      then let l = fl ! i;
               h1 = h(l := (h l)\<lparr>sh_size := i, sh_status := 1, block_ptr := b, sh_prev := 0, sh_next := 0, gprev := pv\<rparr>);
               h2 = (if i \<noteq> pw then h1(pv := (h1 pv)\<lparr>gnext := l\<rparr>) else h1)
           in fill_heads i pw b fl l h2
      else fill_heads i pw b fl pv h)"

definition fillblock :: "nat \<Rightarrow> nat \<Rightarrow> bool \<Rightarrow> mempool \<Rightarrow> mempool result" where
  "fillblock b pool_size expansion st =
     (case blks st b of
        None \<Rightarrow> Inl (Fault ''block'')
      | Some bh \<Rightarrow>
          let hdr = (if expansion then sizeof_block_header else sizeof_mempool_type);
              left = nat ((signed_take_bit 31 (int pool_size) - int hdr) mod 2 ^ 64);
              loc = b + hdr
          in rbind (top_power left) (\<lambda>pw.
               if pw < 0 then Inl (Fault ''head'')
               else let fl = fill_lists (Suc (nat pw)) loc left (replicate cutOffNum 0);
                        (lst, h) = fill_heads (Suc (nat pw)) (nat pw) b fl 0 (heads st)
                    in Inr (st\<lparr>blks := (blks st)(b \<mapsto> bh\<lparr>freelists := fl\<rparr>), heads := h(lst := (h lst)\<lparr>gnext := 0\<rparr>)\<rparr>)))"

section \<open>Splitting a slot\<close>

fun split_lists :: "nat \<Rightarrow> nat \<Rightarrow> nat \<Rightarrow> nat list \<Rightarrow> nat list" where
  "split_lists 0 i loc fl = fl"
| "split_lists (Suc n) i loc fl = (let loc1 = loc + cut (i - 1) in split_lists n (i + 1) loc1 (fl[i := loc1]))"

fun split_heads :: "nat \<Rightarrow> nat \<Rightarrow> nat \<Rightarrow> nat \<Rightarrow> nat \<Rightarrow> nat \<Rightarrow> (nat \<Rightarrow> slot_header) \<Rightarrow> nat \<times> nat \<times> (nat \<Rightarrow> slot_header)" where
  "split_heads 0 i pw b hd1 pv h = (hd1, pv, h)"
| "split_heads (Suc n) i pw b hd1 pv h =
     (let hd2 = (if i \<noteq> pw then hd1 + cut (i - 1) else hd1);
          h1 = h(hd2 := (h hd2)\<lparr>sh_size := i, sh_status := 1, block_ptr := b, sh_prev := 0, sh_next := 0, gprev := pv\<rparr>);
          h2 = h1(pv := (h1 pv)\<lparr>gnext := hd2\<rparr>)
      in split_heads n (i + 1) pw b hd2 (if i \<noteq> pw then pv + cut (i - 1) else pv + cut i) h2)"

definition split_close :: "nat \<Rightarrow> nat \<Rightarrow> nat \<Rightarrow> nat \<Rightarrow> nat \<Rightarrow> nat \<Rightarrow> (nat \<Rightarrow> slot_header) \<Rightarrow> nat \<Rightarrow> slot_header" where
  "split_close l pos gn hd2 pv nxt h =
     (let h1 = h(pos := (h pos)\<lparr>sh_prev := l\<rparr>);
          h2 = h1(hd2 := (h1 hd2)\<lparr>gnext := gn\<rparr>);
          h3 = (if gn \<noteq> 0 then h2(gn := (h2 gn)\<lparr>gprev := pv\<rparr>) else h2)
      in if nxt \<noteq> 0 then h3(nxt := (h3 nxt)\<lparr>sh_prev := 0\<rparr>) else h3)"

definition split_slot :: "nat \<Rightarrow> nat \<Rightarrow> nat \<Rightarrow> nat list \<Rightarrow> (nat \<Rightarrow> slot_header) \<Rightarrow> nat list \<times> (nat \<Rightarrow> slot_header)" where
  "split_slot b pw powiter fl h =
     (let l = fl ! powiter; gn = gnext (h l);
          fl1 = fl[powiter := sh_next (h l), pw := l];
          fl2 = split_lists (powiter - (pw + 1)) (pw + 1) (l + cut pw) fl1;
          h1 = h(l := (h l)\<lparr>sh_size := pw, sh_next := l + cut pw\<rparr>);
          (hd2, pv, h2) = split_heads (powiter - pw) pw pw b (l + cut pw) l h1
      in (fl2, split_close (fl2 ! pw) (l + cut pw) gn hd2 pv (fl2 ! powiter) h2))"

fun check_lists :: "nat \<Rightarrow> nat \<Rightarrow> nat list \<Rightarrow> nat list \<Rightarrow> (nat \<Rightarrow> slot_header) \<Rightarrow> (nat list \<times> (nat \<Rightarrow> slot_header)) option" where
  "check_lists b pw [] fl h = None"
| "check_lists b pw (powiter # qs) fl h =
     (if fl ! powiter \<noteq> 0 then Some (split_slot b pw powiter fl h) else check_lists b pw qs fl h)"

definition checkblock :: "nat \<Rightarrow> block_header \<Rightarrow> nat \<Rightarrow> mempool \<Rightarrow> bool \<times> mempool" where
  "checkblock b bh pw st =
     (if freelists bh ! pw \<noteq> 0 then (True, st)
      else case check_lists b pw [pw + 1..<cutOffNum] (freelists bh) (heads st) of
             None \<Rightarrow> (False, st)
           | Some (fl, h) \<Rightarrow> (True, st\<lparr>blks := (blks st)(b \<mapsto> bh\<lparr>freelists := fl\<rparr>), heads := h\<rparr>))"

section \<open>Operations\<close>

partial_function (option) remove_loop :: "nat \<Rightarrow> nat \<Rightarrow> nat \<Rightarrow> mempool \<Rightarrow> mempool option" where
  "remove_loop tail pv current st =
     (if current = 0 then Some st
      else case (blks st current, blks st pv) of
             (Some cb, Some pb) \<Rightarrow>
               if bused cb \<le> 0
               then let nxt = block_next cb;
                        st1 = (if tail = current then st\<lparr>block_tail := block_prev cb\<rparr> else st);
                        st2 = st1\<lparr>blks := (blks st1)(pv \<mapsto> pb\<lparr>block_next := nxt\<rparr>)\<rparr>;
                        st3 = (if nxt \<noteq> 0
                               then st2\<lparr>blks := (blks st2)(nxt := map_option (\<lambda>nb. nb\<lparr>block_prev := block_prev cb\<rparr>) (blks st2 nxt))\<rparr>
                               else st2);
                        st4 = st3\<lparr>psize := psize st3 - bsize cb, blks := (blks st3)(current := None),
                                  freed := freed st3 @ [(current, mem_hndl cb)]\<rparr>
                    in if psize st4 < limit st4 then Some st4 else remove_loop tail pv nxt st4
               else remove_loop tail current (block_next cb) st
           | _ \<Rightarrow> None)"

definition removeblocks :: "mempool \<Rightarrow> mempool option" where
  "removeblocks st =
     (case blks st 0 of None \<Rightarrow> None | Some bh \<Rightarrow> remove_loop (block_tail st) 0 (block_next bh) st)"

definition mempool_init :: "nat \<Rightarrow> newblockfn \<Rightarrow> nat \<Rightarrow> (nat \<Rightarrow> slot_header) \<Rightarrow> mempool result" where
  "mempool_init pool_size allocfn lmt h =
     (case allocfn pool_size of
        None \<Rightarrow> Inl (Fault ''pool'')
      | Some (_, sz, hndl) \<Rightarrow>
          fillblock 0 sz False
            \<lparr>heads = h, blks = [0 \<mapsto> \<lparr>mem_hndl = hndl, bsize = sz, bused = 0, block_prev = 0, block_next = 0, freelists = []\<rparr>],
             block_tail = 0, limit = lmt, psize = sz, mempoolLock = False, freed = []\<rparr>)"

partial_function (option) find_block :: "nat \<Rightarrow> nat \<Rightarrow> mempool \<Rightarrow> (nat option \<times> mempool) option" where
  "find_block pw current st =
     (case blks st current of
        None \<Rightarrow> None
      | Some bh \<Rightarrow>
          let (found, st1) = checkblock current bh pw st in
          if found then Some (Some current, st1)
          else if block_next bh \<noteq> 0 then find_block pw (block_next bh) st1
          else Some (None, st1))"

text \<open>The slot at the head of a free list is used from now on; the result is the memory behind its header.\<close>

definition take_slot :: "nat \<Rightarrow> nat \<Rightarrow> mempool \<Rightarrow> (nat \<times> mempool) result" where
  "take_slot current pw st =
     (case blks st current of
        None \<Rightarrow> Inl (Fault ''block'')
      | Some bh \<Rightarrow>
          let l = freelists bh ! pw; nxt = sh_next (heads st l); h = heads st;
              h1 = h(l := (h l)\<lparr>sh_status := 0\<rparr>);
              h2 = (if nxt \<noteq> 0 then h1(nxt := (h1 nxt)\<lparr>sh_prev := 0\<rparr>) else h1);
              h3 = h2(l := (h2 l)\<lparr>block_ptr := current\<rparr>)
          in Inr (l + sizeof_used_header,
                  st\<lparr>heads := h3, blks := (blks st)(current \<mapsto> bh\<lparr>freelists := (freelists bh)[pw := nxt], bused := bused bh + of_nat pw\<rparr>),
                     mempoolLock := False\<rparr>))"

text \<open>The size is doubled as an \<^verbatim>\<open>int\<close> and added as a \<^verbatim>\<open>size_t\<close>.\<close>

definition expand_size :: "nat \<Rightarrow> nat" where
  "expand_size pw = nat ((signed_take_bit 31 (2 * int (cut pw)) + int sizeof_block_header) mod 2 ^ 64)"

text \<open>
  \<open>Inr (None, _)\<close> is the result \<^verbatim>\<open>NULL\<close>.  On these paths the lock stays taken.  The arguments of the code are
  \<^verbatim>\<open>int\<close>s; sizes here are below \<open>2\<^sup>3\<^sup>1\<close>.
\<close>

definition expand_pool :: "nat \<Rightarrow> newblockfn \<Rightarrow> mempool \<Rightarrow> (nat option \<times> mempool) result" where
  "expand_pool pw newblock st0 =
     rbind (case (if limit st0 < psize st0 \<and> 0 < limit st0 then removeblocks st0 else Some st0) of
              None \<Rightarrow> Inl (Fault ''blocks'') | Some st \<Rightarrow> Inr st) (\<lambda>st.
     case newblock (expand_size pw) of
       None \<Rightarrow> Inr (None, st)
     | Some (current, sz, hndl) \<Rightarrow>
         (case blks st (block_tail st) of
            None \<Rightarrow> Inl (Fault ''tail'')
          | Some tb \<Rightarrow>
              let new = \<lparr>mem_hndl = hndl, bsize = sz, bused = 0, block_prev = block_tail st, block_next = 0, freelists = []\<rparr>;
                  st1 = st\<lparr>psize := psize st + sz, blks := (blks st)(block_tail st \<mapsto> tb\<lparr>block_next := current\<rparr>, current \<mapsto> new),
                           block_tail := current\<rparr>
              in rbind (fillblock current sz True st1) (\<lambda>st2.
                   case blks st2 current of
                     None \<Rightarrow> Inl (Fault ''block'')
                   | Some bh \<Rightarrow>
                       let (found, st3) = checkblock current bh pw st2 in
                       if found then map_sum (\<lambda>e. e) (\<lambda>(p, s). (Some p, s)) (take_slot current pw st3) else Inr (None, st3))))"

definition mempool_malloc :: "nat \<Rightarrow> bool \<Rightarrow> newblockfn \<Rightarrow> mempool \<Rightarrow> (nat option \<times> mempool) result" where
  "mempool_malloc sz expand newblock st =
     (if mempoolLock st then Inl (Fault ''CmiLock'')
      else let pw = which_pow2 (sz + sizeof_used_header); st0 = st\<lparr>mempoolLock := True\<rparr> in
           if pw = cutOffNum then Inl (Abort ''Mempool-requested slot is more than what mempool can provide'')
           else case find_block pw 0 st0 of
                  None \<Rightarrow> Inl (Fault ''blocks'')
                | Some (Some current, st1) \<Rightarrow> map_sum (\<lambda>e. e) (\<lambda>(p, s). (Some p, s)) (take_slot current pw st1)
                | Some (None, st1) \<Rightarrow> if \<not> expand then Inr (None, st1) else expand_pool pw newblock st1)"

partial_function (option) walk_back :: "(nat \<Rightarrow> slot_header) \<Rightarrow> nat \<Rightarrow> nat \<Rightarrow> nat \<Rightarrow> (nat \<times> nat) option" where
  "walk_back h current sz fst1 =
     (if sh_status (h current) = 1
      then let sz1 = sz + cut (sh_size (h current)) in
           if gprev (h current) = 0 then Some (sz1, current) else walk_back h (gprev (h current)) sz1 current
      else Some (sz, fst1))"

partial_function (option) walk_fwd :: "(nat \<Rightarrow> slot_header) \<Rightarrow> nat \<Rightarrow> nat \<Rightarrow> (nat \<times> nat) option" where
  "walk_fwd h current sz =
     (if sh_status (h current) = 1
      then let sz1 = sz + cut (sh_size (h current)) in
           if gnext (h current) = 0 then Some (sz1, 0) else walk_fwd h (gnext (h current)) sz1
      else Some (sz, current))"

definition unlink_slot :: "nat \<Rightarrow> nat list \<times> (nat \<Rightarrow> slot_header) \<Rightarrow> nat list \<times> (nat \<Rightarrow> slot_header)" where
  "unlink_slot x = (\<lambda>(fl, h).
     let pv = sh_prev (h x); nx = sh_next (h x); pw = sh_size (h x);
         h1 = (if pv \<noteq> 0 then h(pv := (h pv)\<lparr>sh_next := nx\<rparr>) else h);
         fl1 = (if pv \<noteq> 0 then fl else fl[pw := nx])
     in (fl1, if sh_next (h1 x) \<noteq> 0 then h1(sh_next (h1 x) := (h1 (sh_next (h1 x)))\<lparr>sh_prev := pv\<rparr>) else h1))"

partial_function (option) unlink_run :: "nat \<Rightarrow> nat \<Rightarrow> nat \<Rightarrow> nat list \<times> (nat \<Rightarrow> slot_header) \<Rightarrow> (nat list \<times> (nat \<Rightarrow> slot_header)) option" where
  "unlink_run to_free used_next current x =
     (if current = used_next then Some x
      else let y = (if current \<noteq> to_free then unlink_slot current x else x)
           in unlink_run to_free used_next (gnext (snd y current)) y)"

declare walk_back.simps [code] walk_fwd.simps [code] unlink_run.simps [code] find_block.simps [code] remove_loop.simps [code]

fun refill :: "nat \<Rightarrow> nat \<Rightarrow> nat \<Rightarrow> nat \<Rightarrow> nat \<Rightarrow> nat \<Rightarrow> nat \<Rightarrow> nat list \<times> (nat \<Rightarrow> slot_header) \<Rightarrow>
    nat \<times> nat list \<times> (nat \<Rightarrow> slot_header)" where
  "refill 0 pw b loc left pv current (fl, h) = (current, fl, h)"
| "refill (Suc i) pw b loc left pv current (fl, h) =
     (if cut i \<le> left
      then let c = (h loc)\<lparr>sh_size := i, sh_status := 1, block_ptr := b\<rparr>;
               c1 = (if i \<noteq> pw then c\<lparr>gprev := pv\<rparr> else c);
               h1 = h(loc := c1\<lparr>gnext := loc + cut i, sh_prev := 0, sh_next := fl ! i\<rparr>);
               h2 = (if fl ! i \<noteq> 0 then h1(fl ! i := (h1 (fl ! i))\<lparr>sh_prev := loc\<rparr>) else h1)
           in refill i pw b (loc + cut i) (left - cut i) loc loc (fl[i := loc], h2)
      else refill i pw b loc left pv current (fl, h))"

definition mempool_free :: "nat \<Rightarrow> mempool \<Rightarrow> mempool result" where
  "mempool_free p st =
     (let to_free = p - sizeof_used_header;
          h = (heads st)(to_free := (heads st to_free)\<lparr>sh_status := 1\<rparr>);
          b = block_ptr (h to_free)
      in case blks st b of
           None \<Rightarrow> Inl (Fault ''block'')
         | Some bh \<Rightarrow>
             let bh1 = bh\<lparr>bused := bused bh - of_nat (sh_size (h to_free))\<rparr> in
             (case walk_back h to_free 0 to_free of
                None \<Rightarrow> Inl (Fault ''gprev'')
              | Some (sz0, fst1) \<Rightarrow>
                  (case walk_fwd h to_free (sz0 - cut (sh_size (h to_free))) of
                     None \<Rightarrow> Inl (Fault ''gnext'')
                   | Some (sz, used_next) \<Rightarrow>
                       (case unlink_run to_free used_next fst1 (freelists bh1, h) of
                          None \<Rightarrow> Inl (Fault ''gnext'')
                        | Some (fl1, h1) \<Rightarrow>
                            rbind (top_power sz) (\<lambda>pw.
                              let (current, fl2, h2) = refill (nat (pw + 1)) (nat pw) b fst1 sz 0 0 (fl1, h1);
                                  h3 = (if used_next \<noteq> 0 then h2(used_next := (h2 used_next)\<lparr>gprev := current\<rparr>)
                                        else h2(current := (h2 current)\<lparr>gnext := 0\<rparr>))
                              in Inr (st\<lparr>heads := h3, blks := (blks st)(b \<mapsto> bh1\<lparr>freelists := fl2\<rparr>)\<rparr>))))))"

definition mempool_free_thread :: "nat \<Rightarrow> mempool \<Rightarrow> mempool result" where
  "mempool_free_thread p st =
     (if mempoolLock st then Inl (Fault ''CmiLock'')
      else map_sum (\<lambda>e. e) (\<lambda>st1. st1\<lparr>mempoolLock := False\<rparr>) (mempool_free p (st\<lparr>mempoolLock := True\<rparr>)))"

partial_function (option) destroy_loop :: "nat \<Rightarrow> mempool \<Rightarrow> mempool option" where
  "destroy_loop current st =
     (case blks st current of
        None \<Rightarrow> None
      | Some cb \<Rightarrow>
          let st1 = st\<lparr>blks := (blks st)(current := None), freed := freed st @ [(current, mem_hndl cb)]\<rparr>
          in if block_next cb = 0 then Some st1 else destroy_loop (block_next cb) st1)"

definition mempool_destroy :: "mempool \<Rightarrow> mempool option" where
  "mempool_destroy st = destroy_loop 0 st"

end
