(* ===== verification/MempoolBlock.thy ===== *)
theory MempoolBlock
  imports Mempool
begin

text \<open>
  Correctness of the memory pools of \<open>Mempool\<close>.  The slots of a block are a list of sizes, each free or used
  (\<open>layout\<close>); \<open>gchain\<close> says that the headers in memory describe it, and \<open>lists_ok\<close> of \<open>DLists\<close> that the
  free lists of the block hold exactly its free slots.  Splitting, taking and freeing a slot change the layout
  and keep both.
\<close>

section \<open>Sizes\<close>

definition csize :: "nat \<Rightarrow> nat" where "csize i = 64 * 2 ^ i"

lemma csize_Suc: "csize (Suc i) = 2 * csize i"
  by (simp add: csize_def)

lemma csize_pos [simp]: "0 < csize i"
  by (simp add: csize_def)

lemma csize_ge [simp]: "64 \<le> csize i"
  by (simp add: csize_def)

lemma csize_mono: "i \<le> j \<Longrightarrow> csize i \<le> csize j"
  by (simp add: csize_def)

lemma csize_less: "i < j \<Longrightarrow> csize i < csize j"
  by (simp add: csize_def)

lemma csize_dvd: "i \<le> j \<Longrightarrow> csize i dvd csize j"
  by (simp add: csize_def le_imp_power_dvd)

lemma cutOffPoints_eq: "cutOffPoints = map csize [0..<25]"
  by (simp add: cutOffPoints_def upt_rec csize_def)

lemma cut_eq [simp]: "i < 25 \<Longrightarrow> cut i = csize i"
  by (simp add: cutOffPoints_eq)

lemma which_pow2_le: "which_pow2 sz \<le> 25"
  unfolding which_pow2_def by (rule order_trans [OF length_takeWhile_le]) (simp add: cutOffPoints_eq)

lemma which_pow2_fits: "which_pow2 sz < 25 \<Longrightarrow> sz \<le> csize (which_pow2 sz)"
  using nth_length_takeWhile [of "\<lambda>c. c < sz" cutOffPoints] by (auto simp: which_pow2_def cutOffPoints_eq not_less)

lemma which_pow2_below: "i < which_pow2 sz \<Longrightarrow> csize i < sz"
proof -
  assume i: "i < which_pow2 sz"
  then have "i < 25" using which_pow2_le [of sz] by simp
  then have "csize i = takeWhile (\<lambda>c. c < sz) cutOffPoints ! i" using i by (simp add: takeWhile_nth which_pow2_def cutOffPoints_eq)
  moreover have "takeWhile (\<lambda>c. c < sz) cutOffPoints ! i \<in> set (takeWhile (\<lambda>c. c < sz) cutOffPoints)"
    using i by (simp add: which_pow2_def)
  ultimately show "csize i < sz" using set_takeWhileD by metis
qed

lemma which_pow2_small: "sz \<le> csize 24 \<Longrightarrow> which_pow2 sz < 25"
  using which_pow2_le [of sz] which_pow2_below [of 24 sz] by (cases "which_pow2 sz = 25") auto

lemma top_power_ok:
  assumes "64 \<le> sz" "sz \<le> csize 24"
  obtains p where "top_power sz = Inr (int p)" "p < 25" "csize p \<le> sz" "sz < csize (Suc p)"
proof (cases "sz < csize (which_pow2 sz)")
  case True
  let ?w = "which_pow2 sz"
  have w: "?w < 25" by (rule which_pow2_small [OF assms(2)])
  have "?w \<noteq> 0"
  proof
    assume "?w = 0"
    then show False using True assms(1) by (simp add: csize_def)
  qed
  then obtain p where p: "?w = Suc p" by (cases ?w) auto
  have "csize p < sz" using which_pow2_below [of p sz] p by simp
  then show ?thesis using that [of p] True w p by (simp add: top_power_def cutOffNum_def Let_def)
next
  case False
  let ?w = "which_pow2 sz"
  have w: "?w < 25" by (rule which_pow2_small [OF assms(2)])
  have "sz = csize ?w" using False which_pow2_fits [OF w] by simp
  then show ?thesis using that [of ?w] False w assms(1) by (simp add: top_power_def cutOffNum_def Let_def csize_Suc)
qed

section \<open>Layouts\<close>

type_synonym layout = "(nat \<times> bool) list"

fun span :: "layout \<Rightarrow> nat" where
  "span [] = 0"
| "span ((p, f) # ps) = csize p + span ps"

fun slots_at :: "nat \<Rightarrow> layout \<Rightarrow> (nat \<times> nat \<times> bool) list" where
  "slots_at l [] = []"
| "slots_at l ((p, f) # ps) = (l, p, f) # slots_at (l + csize p) ps"

definition locs :: "nat \<Rightarrow> layout \<Rightarrow> nat set" where
  "locs l ps = fst ` set (slots_at l ps)"

definition free_locs :: "nat \<Rightarrow> nat \<Rightarrow> layout \<Rightarrow> nat set" where
  "free_locs k l ps = {x. (x, k, True) \<in> set (slots_at l ps)}"

lemma span_append [simp]: "span (xs @ ys) = span xs + span ys"
  by (induction xs rule: span.induct) auto

lemma slots_at_append [simp]: "slots_at l (xs @ ys) = slots_at l xs @ slots_at (l + span xs) ys"
  by (induction l xs rule: slots_at.induct) (auto simp: add.assoc)

lemma locs_simps [simp]:
  "locs l [] = {}" "locs l ((p, f) # ps) = insert l (locs (l + csize p) ps)" "locs l (xs @ ys) = locs l xs \<union> locs (l + span xs) ys"
  by (simp_all add: locs_def image_Un)

lemma free_locs_simps [simp]:
  "free_locs k l [] = {}"
  "free_locs k l ((p, f) # ps) = (if p = k \<and> f then insert l (free_locs k (l + csize p) ps) else free_locs k (l + csize p) ps)"
  "free_locs k l (xs @ ys) = free_locs k l xs \<union> free_locs k (l + span xs) ys"
  by (auto simp: free_locs_def)

lemma free_locs_sub: "free_locs k l ps \<subseteq> locs l ps"
  by (force simp: free_locs_def locs_def)

lemma slot_bounds: "(x, p, f) \<in> set (slots_at l ps) \<Longrightarrow> l \<le> x \<and> x + csize p \<le> l + span ps"
  by (induction l ps rule: slots_at.induct) fastforce+

lemma locs_bounds: "x \<in> locs l ps \<Longrightarrow> l \<le> x \<and> x < l + span ps"
proof -
  assume "x \<in> locs l ps"
  then obtain p f where "(x, p, f) \<in> set (slots_at l ps)" by (auto simp: locs_def)
  from slot_bounds [OF this] show "l \<le> x \<and> x < l + span ps" using csize_pos [of p] by linarith
qed

lemma free_locs_disjoint: "j \<noteq> k \<Longrightarrow> free_locs j l ps \<inter> free_locs k l ps = {}"
proof (induction l ps rule: slots_at.induct)
  case (2 l p f ps)
  have "l \<notin> locs (l + csize p) ps" using locs_bounds [of l "l + csize p" ps] csize_pos [of p] by linarith
  then show ?case using 2 free_locs_sub [of _ "l + csize p" ps] by auto
qed simp

lemma slot_split:
  "(x, p, f) \<in> set (slots_at l ps) \<Longrightarrow> \<exists>as bs. ps = as @ (p, f) # bs \<and> x = l + span as"
proof (induction l ps rule: slots_at.induct)
  case (2 l q g ps)
  show ?case
  proof (cases "(x, p, f) = (l, q, g)")
    case True
    then show ?thesis by (intro exI [of _ "[]"] exI [of _ ps]) simp
  next
    case False
    then obtain as bs where "ps = as @ (p, f) # bs" "x = l + csize q + span as" using 2 by auto
    then show ?thesis by (intro exI [of _ "(q, g) # as"] exI [of _ bs]) simp
  qed
qed simp

text \<open>The slots in use; nothing starts inside a slot.\<close>

definition used :: "nat \<Rightarrow> layout \<Rightarrow> (nat \<times> nat) set" where
  "used l ps = {(x, p). (x, p, False) \<in> set (slots_at l ps)}"

lemma used_simps [simp]:
  "used l [] = {}"
  "used l ((p, f) # ps) = (if f then used (l + csize p) ps else insert (l, p) (used (l + csize p) ps))"
  "used l (xs @ ys) = used l xs \<union> used (l + span xs) ys"
  by (auto simp: used_def)

lemma used_locs: "(x, p) \<in> used l ps \<Longrightarrow> x \<in> locs l ps"
  by (force simp: used_def locs_def)

lemma used_bounds: "(x, p) \<in> used l ps \<Longrightarrow> l \<le> x \<and> x + csize p \<le> l + span ps"
  using slot_bounds by (auto simp: used_def)

lemma slot_inside: "(x, p, f) \<in> set (slots_at l ps) \<Longrightarrow> y \<in> locs l ps \<Longrightarrow> y \<le> x \<or> x + csize p \<le> y"
proof (induction l ps rule: slots_at.induct)
  case (2 l q g ps)
  have "l + csize q \<le> x" if "(x, p, f) \<in> set (slots_at (l + csize q) ps)" using slot_bounds [OF that] by simp
  moreover have "l + csize q \<le> y" if "y \<in> locs (l + csize q) ps" using locs_bounds [OF that] by simp
  ultimately show ?case using 2 by auto
qed simp

lemma slot_unique: "(x, p, f) \<in> set (slots_at l ps) \<Longrightarrow> (x, q, g) \<in> set (slots_at l ps) \<Longrightarrow> p = q \<and> f = g"
proof (induction l ps rule: slots_at.induct)
  case (2 l r e ps)
  have "x \<noteq> l" if "(x, a, b) \<in> set (slots_at (l + csize r) ps)" for a b using slot_bounds [OF that] csize_pos [of r] by linarith
  then show ?case using 2 by auto
qed simp

lemma used_not_free: "(x, p) \<in> used l ps \<Longrightarrow> x \<notin> free_locs k l ps"
  using slot_unique [of x p False l ps k True] by (auto simp: used_def free_locs_def)

text \<open>Slots in use do not overlap.\<close>

lemma used_disjoint:
  assumes "(x, p) \<in> used l ps" "(y, q) \<in> used l ps" "(x, p) \<noteq> (y, q)"
  shows "x + csize p \<le> y \<or> y + csize q \<le> x"
proof -
  have s: "(x, p, False) \<in> set (slots_at l ps)" "(y, q, False) \<in> set (slots_at l ps)" using assms(1,2) by (simp_all add: used_def)
  have "x \<noteq> y" using slot_unique [OF s(1), of q False] s(2) assms(3) by blast
  moreover have "y \<le> x \<or> x + csize p \<le> y" by (rule slot_inside [OF s(1) used_locs [OF assms(2)]])
  moreover have "x \<le> y \<or> y + csize q \<le> x" by (rule slot_inside [OF s(2) used_locs [OF assms(1)]])
  ultimately show ?thesis by linarith
qed

section \<open>Headers\<close>

fun gchain :: "(nat \<Rightarrow> slot_header) \<Rightarrow> nat \<Rightarrow> nat \<Rightarrow> nat \<Rightarrow> layout \<Rightarrow> nat \<Rightarrow> bool" where
  "gchain h b q l [] e \<longleftrightarrow> True"
| "gchain h b q l ((p, f) # ps) e \<longleftrightarrow>
     p < 25 \<and> sh_size (h l) = p \<and> sh_status (h l) = (if f then 1 else 0) \<and> block_ptr (h l) = b \<and> gprev (h l) = q \<and>
     gnext (h l) = (if ps = [] then e else l + csize p) \<and> gchain h b l (l + csize p) ps e"

fun last_loc :: "nat \<Rightarrow> nat \<Rightarrow> layout \<Rightarrow> nat" where
  "last_loc q l [] = q"
| "last_loc q l ((p, f) # ps) = last_loc l (l + csize p) ps"

definition same_slot :: "slot_header \<Rightarrow> slot_header \<Rightarrow> bool" where
  "same_slot a b \<longleftrightarrow> sh_size a = sh_size b \<and> sh_status a = sh_status b \<and> block_ptr a = block_ptr b \<and> gprev a = gprev b \<and> gnext a = gnext b"

lemma same_slot_simps [simp]: "same_slot a a" "same_slot (a\<lparr>sh_prev := x\<rparr>) a" "same_slot (a\<lparr>sh_next := x\<rparr>) a"
  by (simp_all add: same_slot_def)

text \<open>
  The memory a user of a slot may write: the links of the free list, which lie behind \<^verbatim>\<open>used_header\<close>, and
  everything up to the next slot.
\<close>

definition data_same :: "(nat \<Rightarrow> slot_header) \<Rightarrow> (nat \<Rightarrow> slot_header) \<Rightarrow> nat \<Rightarrow> nat \<Rightarrow> bool" where
  "data_same h h' x p \<longleftrightarrow> sh_next (h' x) = sh_next (h x) \<and> sh_prev (h' x) = sh_prev (h x) \<and> (\<forall>y. x < y \<and> y < x + csize p \<longrightarrow> h' y = h y)"

lemma data_same_refl [simp]: "data_same h h x p"
  by (simp add: data_same_def)

lemma data_same_trans: "data_same h h1 x p \<Longrightarrow> data_same h1 h2 x p \<Longrightarrow> data_same h h2 x p"
  by (simp add: data_same_def)

lemma data_sameI:
  assumes "(x, p) \<in> used l ps" "(x, p) \<in> used l ps'" "\<And>y. y \<notin> locs l ps \<Longrightarrow> y \<notin> locs l ps' \<Longrightarrow> h' y = h y"
    "sh_next (h' x) = sh_next (h x)" "sh_prev (h' x) = sh_prev (h x)"
  shows "data_same h h' x p"
proof -
  have "(x, p, False) \<in> set (slots_at l ps)" "(x, p, False) \<in> set (slots_at l ps')" using assms(1,2) by (simp_all add: used_def)
  then have "h' y = h y" if "x < y" "y < x + csize p" for y
    using slot_inside [of x p False l ps y] slot_inside [of x p False l ps' y] that by (intro assms(3)) linarith+
  then show ?thesis using assms(4,5) by (simp add: data_same_def)
qed

text \<open>An operation on a block: it stays in the block and does not touch what is and remains in use.\<close>

definition blk_kept :: "(nat \<Rightarrow> slot_header) \<Rightarrow> (nat \<Rightarrow> slot_header) \<Rightarrow> nat \<Rightarrow> layout \<Rightarrow> layout \<Rightarrow> bool" where
  "blk_kept h h' l ps ps' \<longleftrightarrow> span ps' = span ps \<and> (\<forall>y. y < l \<or> l + span ps \<le> y \<longrightarrow> h' y = h y) \<and>
     (\<forall>(x, p) \<in> used l ps \<inter> used l ps'. data_same h h' x p)"

lemma kept_refl: "blk_kept h h l ps ps"
  by (auto simp: blk_kept_def)

lemma kept_trans:
  assumes "blk_kept h h1 l ps ps1" "blk_kept h1 h2 l ps1 ps2" "used l ps \<inter> used l ps2 \<subseteq> used l ps1"
  shows "blk_kept h h2 l ps ps2"
proof -
  have "data_same h h2 x p" if "(x, p) \<in> used l ps \<inter> used l ps2" for x p
  proof (rule data_same_trans)
    show "data_same h h1 x p" "data_same h1 h2 x p" using assms that unfolding blk_kept_def by blast+
  qed
  then show ?thesis using assms(1,2) by (auto simp: blk_kept_def)
qed

lemma keptI:
  assumes "span ps' = span ps" "\<And>y. y \<notin> locs l ps \<Longrightarrow> y \<notin> locs l ps' \<Longrightarrow> h' y = h y"
    "\<And>x p. (x, p) \<in> used l ps \<Longrightarrow> (x, p) \<in> used l ps' \<Longrightarrow> sh_next (h' x) = sh_next (h x) \<and> sh_prev (h' x) = sh_prev (h x)"
  shows "blk_kept h h' l ps ps'"
proof -
  have "h' y = h y" if "y < l \<or> l + span ps \<le> y" for y
    using assms(1) locs_bounds [of y l ps] locs_bounds [of y l ps'] that by (intro assms(2)) linarith+
  moreover have "data_same h h' x p" if "(x, p) \<in> used l ps \<inter> used l ps'" for x p
    using that assms(3) by (intro data_sameI [of x p l ps ps'] assms(2)) auto
  ultimately show ?thesis using assms(1) by (auto simp: blk_kept_def)
qed

lemma gchain_cong: "(\<And>x. x \<in> locs l ps \<Longrightarrow> same_slot (h' x) (h x)) \<Longrightarrow> gchain h' b q l ps e = gchain h b q l ps e"
proof (induction ps arbitrary: q l)
  case (Cons s ps)
  obtain p f where s: "s = (p, f)" by (cases s)
  have "same_slot (h' l) (h l)" using Cons.prems s by simp
  moreover have "gchain h' b l (l + csize p) ps e = gchain h b l (l + csize p) ps e" using Cons s by simp
  ultimately show ?case by (auto simp: s same_slot_def)
qed simp

lemma gchain_append:
  "gchain h b q l (xs @ ys) e \<longleftrightarrow>
     gchain h b q l xs (if ys = [] then e else l + span xs) \<and> gchain h b (last_loc q l xs) (l + span xs) ys e"
proof (induction xs arbitrary: q l)
  case (Cons s xs)
  obtain p f where s: "s = (p, f)" by (cases s)
  show ?case using Cons [of l "l + csize p"] by (auto simp: s add.assoc)
qed simp

lemma last_loc_in: "ps \<noteq> [] \<Longrightarrow> last_loc q l ps \<in> locs l ps"
proof (induction ps arbitrary: q l)
  case (Cons s ps)
  obtain p f where s: "s = (p, f)" by (cases s)
  show ?case using Cons.IH [of l "l + csize p"] by (cases "ps = []") (auto simp: s)
qed simp

lemma gchain_last: "gchain h b q l ps e \<Longrightarrow> ps \<noteq> [] \<Longrightarrow> gnext (h (last_loc q l ps)) = e"
proof (induction ps arbitrary: q l)
  case (Cons s ps)
  obtain p f where s: "s = (p, f)" by (cases s)
  show ?case using Cons.IH [of l "l + csize p"] Cons.prems by (cases "ps = []") (simp_all add: s)
qed simp

text \<open>A part of a chain in which the outer links have changed.\<close>

lemma gchain_change:
  assumes "gchain h b q l ps e"
    "\<And>x. x \<in> locs l ps \<Longrightarrow> same_slot (h' x) ((h x)\<lparr>gprev := (if x = l then q' else gprev (h x)), gnext := (if x = last_loc q l ps then e' else gnext (h x))\<rparr>)"
  shows "gchain h' b q' l ps e'"
  using assms
proof (induction ps arbitrary: q l q')
  case (Cons s ps)
  obtain p f where s: "s = (p, f)" by (cases s)
  have S: "same_slot (h' l) ((h l)\<lparr>gprev := q', gnext := (if l = last_loc l (l + csize p) ps then e' else gnext (h l))\<rparr>)"
    using Cons.prems(2) [of l] by (simp add: s)
  show ?case
  proof (cases "ps = []")
    case True
    then show ?thesis using S Cons.prems(1) by (simp add: s same_slot_def)
  next
    case False
    then obtain p2 f2 ps2 where ps: "ps = (p2, f2) # ps2" by (cases ps) auto
    have out: "l \<notin> locs (l + csize p) ps" using locs_bounds [of l "l + csize p" ps] csize_pos [of p] by linarith
    then have "l \<noteq> last_loc l (l + csize p) ps" using last_loc_in [OF False, of l "l + csize p"] by metis
    moreover have "gchain h' b l (l + csize p) ps e'"
    proof (rule Cons.IH)
      show "gchain h b l (l + csize p) ps e" using Cons.prems(1) by (simp add: s)
      have g: "gprev (h (l + csize p)) = l" using Cons.prems(1) by (simp add: s ps)
      fix x assume "x \<in> locs (l + csize p) ps"
      then show "same_slot (h' x) ((h x)\<lparr>gprev := (if x = l + csize p then l else gprev (h x)), gnext := (if x = last_loc l (l + csize p) ps then e' else gnext (h x))\<rparr>)"
        using Cons.prems(2) [of x] out g by (auto simp: s same_slot_def)
    qed
    ultimately show ?thesis using S Cons.prems(1) False by (simp add: s same_slot_def)
  qed
qed simp

lemma last_loc_append [simp]: "last_loc q l (xs @ ys) = last_loc (last_loc q l xs) (l + span xs) ys"
  by (induction q l xs rule: last_loc.induct) (auto simp: add.assoc)

section \<open>A block and its free lists\<close>

text \<open>
  \<open>X\<close> are free slots that are not in the lists, while a slot is being freed.
\<close>

definition lists_of :: "(nat \<Rightarrow> slot_header) \<Rightarrow> nat list \<Rightarrow> nat \<Rightarrow> layout \<Rightarrow> nat set \<Rightarrow> bool" where
  "lists_of h fl l ps X \<longleftrightarrow> (\<exists>F. lists_ok 25 (\<lambda>x. sh_next (h x)) (\<lambda>x. sh_prev (h x)) fl F \<and> (\<forall>k < 25. set (F k) = free_locs k l ps - X))"

definition rep :: "(nat \<Rightarrow> slot_header) \<Rightarrow> nat list \<Rightarrow> nat \<Rightarrow> nat \<Rightarrow> layout \<Rightarrow> bool" where
  "rep h fl b l ps \<longleftrightarrow> 0 < l \<and> gchain h b 0 l ps 0 \<and> lists_of h fl l ps {}"

lemma lists_of_cong:
  assumes "lists_of h fl l ps X" "\<And>k x. x \<in> free_locs k l ps \<Longrightarrow> sh_next (h' x) = sh_next (h x) \<and> sh_prev (h' x) = sh_prev (h x)"
  shows "lists_of h' fl l ps X"
proof -
  obtain F where F: "lists_ok 25 (\<lambda>x. sh_next (h x)) (\<lambda>x. sh_prev (h x)) fl F" "\<forall>k < 25. set (F k) = free_locs k l ps - X"
    using assms(1) by (auto simp: lists_of_def)
  have "lists_ok 25 (\<lambda>x. sh_next (h' x)) (\<lambda>x. sh_prev (h' x)) fl F"
    using F(2) assms(2) by (intro lists_ok_cong [OF F(1)]) blast
  then show ?thesis using F(2) by (auto simp: lists_of_def)
qed

text \<open>Everything that a block depends on is in the headers of its slots.\<close>

lemma rep_cong:
  assumes "rep h fl b l ps" "\<And>x. x \<in> locs l ps \<Longrightarrow> same_slot (h' x) (h x)"
    "\<And>k x. x \<in> free_locs k l ps \<Longrightarrow> sh_next (h' x) = sh_next (h x) \<and> sh_prev (h' x) = sh_prev (h x)"
  shows "rep h' fl b l ps"
proof -
  have "gchain h' b 0 l ps 0 = gchain h b 0 l ps 0" using assms(2) by (rule gchain_cong)
  moreover have "lists_of h fl l ps {}" using assms(1) by (simp add: rep_def)
  then have "lists_of h' fl l ps {}" using assms(3) by (rule lists_of_cong)
  ultimately show ?thesis using assms(1) by (simp add: rep_def)
qed

lemma lists_of_length: "lists_of h fl l ps X \<Longrightarrow> length fl = 25"
  by (auto simp: lists_of_def lists_ok_def)

lemma lists_of_head:
  assumes "lists_of h fl l ps X" "k < 25" "fl ! k \<noteq> 0"
  shows "fl ! k \<in> free_locs k l ps - X" "sh_prev (h (fl ! k)) = 0"
  using assms lists_head [OF _ assms(2)] unfolding lists_of_def by blast+

lemma lists_of_empty:
  assumes "lists_of h fl l ps X" "k < 25"
  shows "fl ! k = 0 \<longleftrightarrow> free_locs k l ps - X = {}"
proof -
  obtain F where F: "lists_ok 25 (\<lambda>x. sh_next (h x)) (\<lambda>x. sh_prev (h x)) fl F" "set (F k) = free_locs k l ps - X"
    using assms by (auto simp: lists_of_def)
  show ?thesis using lists_empty [OF F(1) assms(2)] F(2) by (metis set_empty)
qed

lemma lists_of_links:
  assumes "lists_of h fl l ps X" "k < 25" "x \<in> free_locs k l ps - X"
  shows "sh_next (h x) \<noteq> 0 \<Longrightarrow> sh_next (h x) \<in> free_locs k l ps - X - {x}" "sh_prev (h x) \<noteq> 0 \<Longrightarrow> sh_prev (h x) \<in> free_locs k l ps - X - {x}"
proof -
  obtain F where F: "lists_ok 25 (\<lambda>x. sh_next (h x)) (\<lambda>x. sh_prev (h x)) fl F" "set (F k) = free_locs k l ps - X"
    using assms by (auto simp: lists_of_def)
  show "sh_next (h x) \<noteq> 0 \<Longrightarrow> sh_next (h x) \<in> free_locs k l ps - X - {x}" "sh_prev (h x) \<noteq> 0 \<Longrightarrow> sh_prev (h x) \<in> free_locs k l ps - X - {x}"
    using lists_neighbours [OF F(1) assms(2), of x] assms(3) F(2) by auto
qed

text \<open>Taking a slot out of its list and putting one into a list, whatever else changes in the headers.\<close>

lemma lists_of_unlink:
  assumes L: "lists_of h fl l ps X" and k: "k < 25" and x: "x \<in> free_locs k l ps - X"
    and nx: "\<And>y. y \<in> locs l ps \<Longrightarrow> y \<noteq> x \<Longrightarrow> sh_next (h' y) = (if sh_prev (h x) \<noteq> 0 \<and> y = sh_prev (h x) then sh_next (h x) else sh_next (h y))"
    and pv: "\<And>y. y \<in> locs l ps \<Longrightarrow> y \<noteq> x \<Longrightarrow> sh_prev (h' y) = (if sh_next (h x) \<noteq> 0 \<and> y = sh_next (h x) then sh_prev (h x) else sh_prev (h y))"
    and fl': "fl' = (if sh_prev (h x) \<noteq> 0 then fl else fl[k := sh_next (h x)])"
    and ps': "\<And>j. j < 25 \<Longrightarrow> free_locs j l' ps' - X' = (if j = k then free_locs j l ps - X - {x} else free_locs j l ps - X)"
  shows "lists_of h' fl' l' ps' X'"
proof -
  obtain F where F: "lists_ok 25 (\<lambda>x. sh_next (h x)) (\<lambda>x. sh_prev (h x)) fl F" "\<forall>k < 25. set (F k) = free_locs k l ps - X"
    using L by (auto simp: lists_of_def)
  have xk: "x \<in> set (F k)" using x F(2) k by simp
  let ?F = "F(k := remove1 x (F k))"
  have S: "set (?F j) = free_locs j l' ps' - X'" if "j < 25" for j
    using F(2) ps' [OF that] that lists_okD(2) [OF F(1) k] by (auto simp: k)
  have out: "y \<in> locs l ps \<and> y \<noteq> x" if j: "j < 25" and y: "y \<in> set (?F j)" for j y
  proof -
    have "y \<in> free_locs j l ps" using S [OF j] y ps' [OF j] by (auto split: if_splits)
    moreover have "y \<noteq> x" using S [OF j] y ps' [OF j] x free_locs_disjoint [of j k l ps] by (auto split: if_splits)
    ultimately show ?thesis using free_locs_sub by blast
  qed
  have "lists_ok 25 (\<lambda>x. sh_next (h' x)) (\<lambda>x. sh_prev (h' x)) fl' ?F"
    unfolding fl' by (rule lists_ok_cong [OF lists_unlink [OF F(1) k xk]]) (use out nx pv in auto)
  then show ?thesis using S unfolding lists_of_def by blast
qed

lemma lists_of_push:
  assumes L: "lists_of h fl l ps X" and k: "k < 25" and x: "x \<noteq> 0" "\<And>j. j < 25 \<Longrightarrow> x \<notin> free_locs j l ps - X"
    and nx: "sh_next (h' x) = fl ! k" "\<And>j y. j < 25 \<Longrightarrow> y \<in> free_locs j l ps - X \<Longrightarrow> sh_next (h' y) = sh_next (h y)"
    and pv: "sh_prev (h' x) = 0" "\<And>j y. j < 25 \<Longrightarrow> y \<in> free_locs j l ps - X \<Longrightarrow> sh_prev (h' y) = (if fl ! k \<noteq> 0 \<and> y = fl ! k then x else sh_prev (h y))"
    and ps': "\<And>j. j < 25 \<Longrightarrow> free_locs j l' ps' - X' = (if j = k then insert x (free_locs j l ps - X) else free_locs j l ps - X)"
  shows "lists_of h' (fl[k := x]) l' ps' X'"
proof -
  obtain F where F: "lists_ok 25 (\<lambda>x. sh_next (h x)) (\<lambda>x. sh_prev (h x)) fl F" "\<forall>k < 25. set (F k) = free_locs k l ps - X"
    using L by (auto simp: lists_of_def)
  have xF: "x \<notin> set (F j)" if "j < 25" for j using x(2) [OF that] F(2) that by simp
  have hd: "fl ! k \<noteq> 0 \<Longrightarrow> fl ! k \<noteq> x" using lists_head(1) [OF F(1) k] xF [OF k] by auto
  have "lists_ok 25 (\<lambda>x. sh_next (h' x)) (\<lambda>x. sh_prev (h' x)) (fl[k := x]) (F(k := x # F k))"
  proof (rule lists_ok_cong [OF lists_push [OF F(1) k x(1) xF]])
    fix j y assume j: "j < 25" and "y \<in> set ((F(k := x # F k)) j)"
    then consider "y = x" | "y \<noteq> x" "y \<in> free_locs j l ps - X" using F(2) by (auto split: if_splits)
    then show "sh_next (h' y) = ((\<lambda>x. sh_next (h x))(x := fl ! k)) y \<and>
        sh_prev (h' y) = (if fl ! k \<noteq> NULL then (\<lambda>x. sh_prev (h x))(x := NULL, fl ! k := x) else (\<lambda>x. sh_prev (h x))(x := NULL)) y"
      by cases (use nx pv hd j in auto)
  qed simp
  moreover have "set ((F(k := x # F k)) j) = free_locs j l' ps' - X'" if "j < 25" for j using F(2) ps' [OF that] that by auto
  ultimately show ?thesis unfolding lists_of_def by blast
qed

text \<open>Slots that are in no list become lists of their own.\<close>

lemma lists_of_add:
  assumes L: "lists_of h fl l ps X" and fl': "length fl' = 25" "\<And>j. j < 25 \<Longrightarrow> j \<notin> J \<Longrightarrow> fl' ! j = fl ! j \<and> X \<inter> free_locs j l ps = {}"
    and G: "\<And>j. j \<in> J \<Longrightarrow> dchain (\<lambda>x. sh_next (h x)) (\<lambda>x. sh_prev (h x)) 0 (fl' ! j) (G j) \<and> distinct (G j) \<and> set (G j) = free_locs j l ps"
  shows "lists_of h fl' l ps {}"
proof -
  obtain F where F: "lists_ok 25 (\<lambda>x. sh_next (h x)) (\<lambda>x. sh_prev (h x)) fl F" "\<forall>k < 25. set (F k) = free_locs k l ps - X"
    using L by (auto simp: lists_of_def)
  let ?F = "\<lambda>j. if j \<in> J then G j else F j"
  have S: "set (?F j) = free_locs j l ps" if j: "j < 25" for j
  proof (cases "j \<in> J")
    case False
    have "set (F j) = free_locs j l ps - X" using F(2) j by blast
    then show ?thesis using fl'(2) [OF j False] False by auto
  qed (simp add: G)
  have "dchain (\<lambda>x. sh_next (h x)) (\<lambda>x. sh_prev (h x)) 0 (fl' ! j) (?F j) \<and> distinct (?F j)" if j: "j < 25" for j
  proof (cases "j \<in> J")
    case False
    then show ?thesis using fl'(2) [OF j False] lists_okD(1,2) [OF F(1) j] by simp
  qed (simp add: G)
  moreover have "set (?F i) \<inter> set (?F j) = {}" if "i < 25" "j < 25" "i \<noteq> j" for i j
    unfolding S [OF that(1)] S [OF that(2)] by (rule free_locs_disjoint [OF that(3)])
  ultimately have "lists_ok 25 (\<lambda>x. sh_next (h x)) (\<lambda>x. sh_prev (h x)) fl' ?F" using fl'(1) unfolding lists_ok_def by blast
  moreover have "\<forall>k < 25. set (?F k) = free_locs k l ps - {}" using S by simp
  ultimately show ?thesis unfolding lists_of_def by (intro exI [of _ ?F] conjI)
qed

section \<open>Taking a slot\<close>

definition take_heads :: "nat \<Rightarrow> nat \<Rightarrow> nat list \<Rightarrow> (nat \<Rightarrow> slot_header) \<Rightarrow> nat \<Rightarrow> slot_header" where
  "take_heads b k fl h =
     (let x = fl ! k; nxt = sh_next (h x); h1 = h(x := (h x)\<lparr>sh_status := 0\<rparr>);
          h2 = (if nxt \<noteq> 0 then h1(nxt := (h1 nxt)\<lparr>sh_prev := 0\<rparr>) else h1)
      in h2(x := (h2 x)\<lparr>block_ptr := b\<rparr>))"

lemma gchain_status:
  assumes "gchain h b q l (as @ (p, f) # bs) e" "\<And>y. y \<in> locs l (as @ (p, f) # bs) \<Longrightarrow> y \<noteq> l + span as \<Longrightarrow> same_slot (h' y) (h y)"
    and x: "same_slot (h' (l + span as)) ((h (l + span as))\<lparr>sh_status := (if g then 1 else 0)\<rparr>)"
  shows "gchain h' b q l (as @ (p, g) # bs) e"
proof -
  let ?x = "l + span as"
  have A: "?x \<notin> locs l as" using locs_bounds by fastforce
  have B: "?x \<notin> locs (?x + csize p) bs" using locs_bounds [of ?x "?x + csize p" bs] csize_pos [of p] by linarith
  have "gchain h' b q l as ?x = gchain h b q l as ?x" using assms(2) A by (intro gchain_cong) auto
  moreover have "gchain h' b ?x (?x + csize p) bs e = gchain h b ?x (?x + csize p) bs e" using assms(2) B by (intro gchain_cong) auto
  ultimately show ?thesis using assms(1) x by (auto simp: gchain_append same_slot_def)
qed

lemma take_heads_ok:
  assumes R: "rep h fl b l ps" and k: "k < 25" "fl ! k \<noteq> 0"
  obtains as bs where "ps = as @ (k, True) # bs" "fl ! k = l + span as"
    "rep (take_heads b k fl h) (fl[k := sh_next (h (fl ! k))]) b l (as @ (k, False) # bs)"
    "blk_kept h (take_heads b k fl h) l ps (as @ (k, False) # bs)"
proof -
  let ?x = "fl ! k" and ?h = "take_heads b k fl h" and ?n = "sh_next (h (fl ! k))"
  have L: "lists_of h fl l ps {}" and G: "gchain h b 0 l ps 0" and l: "0 < l" using R by (simp_all add: rep_def)
  have x: "?x \<in> free_locs k l ps - {}" "sh_prev (h ?x) = 0" by (rule lists_of_head [OF L k])+
  then obtain as bs where ps: "ps = as @ (k, True) # bs" "?x = l + span as" using slot_split by (fastforce simp: free_locs_def)
  have n: "?n \<noteq> 0 \<Longrightarrow> ?n \<in> locs l ps" "?n \<noteq> 0 \<Longrightarrow> ?n \<noteq> ?x"
    using lists_of_links(1) [OF L k(1) x(1)] free_locs_sub [of k l ps] by auto
  have H: "?h y = (if y = ?x then (h y)\<lparr>sh_status := 0, block_ptr := b\<rparr> else if ?n \<noteq> 0 \<and> y = ?n then (h y)\<lparr>sh_prev := 0\<rparr> else h y)" for y
    using n(2) by (simp add: take_heads_def Let_def)
  have b: "block_ptr (h ?x) = b" using G by (simp add: ps gchain_append)
  have "gchain ?h b 0 l (as @ (k, False) # bs) 0"
    by (rule gchain_status [OF G [unfolded ps(1)]]) (use b in \<open>simp_all add: H ps(2) [symmetric] same_slot_def\<close>)
  moreover have "lists_of ?h (fl[k := ?n]) l (as @ (k, False) # bs) {}"
  proof (rule lists_of_unlink [OF L k(1) x(1)])
    have "?x \<notin> locs l as" using locs_bounds [of ?x l as] ps(2) by fastforce
    moreover have "?x \<notin> locs (?x + csize k) bs" using locs_bounds [of ?x "?x + csize k" bs] csize_pos [of k] by linarith
    ultimately show "free_locs j l (as @ (k, False) # bs) - {} = (if j = k then free_locs j l ps - {} - {?x} else free_locs j l ps - {})" for j
      using free_locs_sub [of j l as] free_locs_sub [of j "?x + csize k" bs] by (auto simp: ps(1) ps(2) [symmetric])
  qed (use x(2) in \<open>auto simp: H\<close>)
  ultimately have "rep ?h (fl[k := ?n]) b l (as @ (k, False) # bs)" using l by (simp add: rep_def)
  moreover have "blk_kept h ?h l ps (as @ (k, False) # bs)"
  proof (rule keptI)
    have "locs l (as @ (k, False) # bs) = locs l ps" by (simp add: ps(1))
    moreover have "?x \<in> locs l ps" using x(1) free_locs_sub by blast
    ultimately show "?h y = h y" if "y \<notin> locs l (as @ (k, False) # bs)" for y using n(1) that by (auto simp: H)
    show "sh_next (?h y) = sh_next (h y) \<and> sh_prev (?h y) = sh_prev (h y)" if "(y, p) \<in> used l ps" for y p
      using lists_of_links(1) [OF L k(1) x(1)] used_not_free [OF that, of k] by (auto simp: H)
  qed (simp add: ps(1))
  ultimately show ?thesis using that ps by blast
qed

end
