(* ===== verification/MempoolSplit.thy ===== *)
theory MempoolSplit
  imports MempoolBlock
begin

text \<open>
  Splitting a free slot of a block: \<open>checkblock\<close> turns a slot into one of the requested size and slots of the
  sizes in between, and keeps the block well formed.
\<close>

section \<open>Pieces\<close>

text \<open>A slot of size \<open>q\<close> splits into one of size \<open>p\<close> and slots of the sizes from \<open>p\<close> to \<open>q - 1\<close>.\<close>

definition pieces :: "nat \<Rightarrow> nat \<Rightarrow> layout" where
  "pieces i q = map (\<lambda>j. (j, True)) [i..<q]"

lemma pieces_Suc: "i < q \<Longrightarrow> pieces i q = (i, True) # pieces (Suc i) q"
  by (simp add: pieces_def upt_rec)

lemma pieces_self [simp]: "pieces q q = []"
  by (simp add: pieces_def)

lemma pieces_empty [simp]: "pieces i q = [] \<longleftrightarrow> q \<le> i"
  by (auto simp: pieces_def)

lemma pieces_slots: "i \<le> q \<Longrightarrow> slots_at (x + csize i) (pieces i q) = map (\<lambda>j. (x + csize j, j, True)) [i..<q]"
proof (induction rule: inc_induct)
  case (step i)
  have e: "x + csize i + csize i = x + csize (Suc i)" by (simp add: csize_Suc)
  have "slots_at (x + csize i + csize i) (pieces (Suc i) q) = map (\<lambda>j. (x + csize j, j, True)) [Suc i..<q]" unfolding e using step by simp
  then show ?case using step(2) by (simp add: pieces_Suc upt_rec [of i q])
qed simp

lemma pieces_span: "i \<le> q \<Longrightarrow> csize i + span (pieces i q) = csize q"
proof (induction rule: inc_induct)
  case (step i)
  then show ?case using csize_Suc [of i] by (simp add: pieces_Suc)
qed simp

lemma pieces_locs: "i \<le> q \<Longrightarrow> locs (x + csize i) (pieces i q) = (\<lambda>j. x + csize j) ` {i..<q}"
  by (simp add: locs_def pieces_slots image_image)

lemma pieces_free: "i \<le> q \<Longrightarrow> free_locs k (x + csize i) (pieces i q) = (if i \<le> k \<and> k < q then {x + csize k} else {})"
  by (auto simp: free_locs_def pieces_slots)

lemma pieces_used: "used x (pieces i q) = {}"
proof -
  have "\<forall>s \<in> set ps. snd s \<Longrightarrow> used x ps = {}" for ps :: layout and x by (induction x ps rule: slots_at.induct) auto
  then show ?thesis by (auto simp: pieces_def)
qed

section \<open>The loops\<close>

lemma split_heads_ok:
  assumes "split_heads n i p b hd1 pv h = (hd2, pv2, h')" "0 < n" "p \<le> i" "i + n \<le> 25"
    and "pos = (if i \<noteq> p then hd1 + csize (i - 1) else hd1)" "pos = pv + (if i \<noteq> p then csize (i - 1) else csize i)"
  shows "hd2 = last_loc pv pos (pieces i (i + n)) \<and> pv2 = hd2 \<and> gchain h' b pv pos (pieces i (i + n)) (gnext (h' hd2)) \<and>
    h' pv = (h pv)\<lparr>gnext := pos\<rparr> \<and> (\<forall>x. x \<noteq> pv \<longrightarrow> x \<notin> locs pos (pieces i (i + n)) \<longrightarrow> h' x = h x) \<and>
    (\<forall>x \<in> locs pos (pieces i (i + n)). sh_prev (h' x) = 0 \<and> sh_next (h' x) = 0)"
  using assms
proof (induction n arbitrary: i hd1 pv h pos)
  case (Suc m)
  let ?h1 = "h(pos := (h pos)\<lparr>sh_size := i, sh_status := 1, block_ptr := b, sh_prev := 0, sh_next := 0, gprev := pv\<rparr>)"
  let ?h2 = "?h1(pv := (?h1 pv)\<lparr>gnext := pos\<rparr>)"
  have i: "i < 25" "pv < pos" using Suc.prems(4,6) by (auto simp: csize_def)
  have pv2: "(if i \<noteq> p then pv + cut (i - 1) else pv + cut i) = pos" "(if i \<noteq> p then hd1 + cut (i - 1) else hd1) = pos"
    using Suc.prems(5,6) i(1) by auto
  have R: "split_heads m (i + 1) p b pos pos ?h2 = (hd2, pv2, h')" using Suc.prems(1) unfolding split_heads.simps Let_def pv2 .
  have H: "?h2 pv = (h pv)\<lparr>gnext := pos\<rparr>" "?h2 pos = (h pos)\<lparr>sh_size := i, sh_status := 1, block_ptr := b, sh_prev := 0, sh_next := 0, gprev := pv\<rparr>"
    "x \<noteq> pv \<Longrightarrow> x \<noteq> pos \<Longrightarrow> ?h2 x = h x" for x
    using i(2) by auto
  show ?case
  proof (cases "m = 0")
    case True
    have D: "pieces i (i + Suc m) = [(i, True)]" using True by (simp add: pieces_Suc)
    have "(pos, pos, ?h2) = (hd2, pv2, h')" using R unfolding True split_heads.simps .
    then have E: "hd2 = pos" "pv2 = pos" "h' = ?h2" by blast+
    show ?thesis unfolding D E(1,2) using H [folded E(3)] i by simp
  next
    case False
    have D: "pieces i (i + Suc m) = (i, True) # pieces (i + 1) (i + 1 + m)" by (simp add: pieces_Suc)
    let ?D = "pieces (i + 1) (i + 1 + m)" and ?pos = "pos + csize i"
    have "?D \<noteq> []" using False by simp
    have IH: "hd2 = last_loc pos ?pos ?D \<and> pv2 = hd2 \<and> gchain h' b pos ?pos ?D (gnext (h' hd2)) \<and>
        h' pos = (?h2 pos)\<lparr>gnext := ?pos\<rparr> \<and> (\<forall>x. x \<noteq> pos \<longrightarrow> x \<notin> locs ?pos ?D \<longrightarrow> h' x = ?h2 x) \<and>
        (\<forall>x \<in> locs ?pos ?D. sh_prev (h' x) = 0 \<and> sh_next (h' x) = 0)"
      by (rule Suc.IH [OF R]) (use Suc.prems(3,4) False in simp_all)
    have "pv \<notin> locs ?pos ?D" using locs_bounds [of pv ?pos ?D] i(2) by linarith
    then have a: "h' pv = (h pv)\<lparr>gnext := pos\<rparr>" using IH i(2) H(1) by (metis less_irrefl)
    have b: "h' x = h x" if "x \<noteq> pv" "x \<noteq> pos" "x \<notin> locs ?pos ?D" for x using IH H(3) [OF that(1,2)] that by metis
    have "h' pos = (h pos)\<lparr>sh_size := i, sh_status := 1, block_ptr := b, sh_prev := 0, sh_next := 0, gprev := pv, gnext := ?pos\<rparr>"
      using IH H(2) by simp
    then show ?thesis unfolding D using IH a b i(1) \<open>?D \<noteq> []\<close> by auto
  qed
qed simp

lemma split_lists_nth:
  "0 < i \<Longrightarrow> i + n \<le> 25 \<Longrightarrow> length fl = 25 \<Longrightarrow>
   length (split_lists n i (x + csize (i - 1)) fl) = 25 \<and>
   (\<forall>j < 25. split_lists n i (x + csize (i - 1)) fl ! j = (if i \<le> j \<and> j < i + n then x + csize j else fl ! j))"
proof (induction n arbitrary: i fl)
  case (Suc n)
  have e: "x + csize (i - 1) + cut (i - 1) = x + csize (i + 1 - 1)" using Suc.prems(1,2) csize_Suc [of "i - 1"] by simp
  have "length (split_lists n (i + 1) (x + csize (i + 1 - 1)) (fl[i := x + csize (i + 1 - 1)])) = 25 \<and>
     (\<forall>j < 25. split_lists n (i + 1) (x + csize (i + 1 - 1)) (fl[i := x + csize (i + 1 - 1)]) ! j =
        (if i + 1 \<le> j \<and> j < i + 1 + n then x + csize j else fl[i := x + csize (i + 1 - 1)] ! j))"
    by (rule Suc.IH) (use Suc.prems in simp_all)
  then show ?case unfolding split_lists.simps Let_def e using Suc.prems by (auto simp: nth_list_update le_Suc_eq not_less_eq_eq)
qed simp

section \<open>Splitting\<close>

lemma split_close_fields [simp]:
  "sh_size (split_close l pos gn hd2 pv nxt h y) = sh_size (h y)" "sh_status (split_close l pos gn hd2 pv nxt h y) = sh_status (h y)"
  "block_ptr (split_close l pos gn hd2 pv nxt h y) = block_ptr (h y)" "sh_next (split_close l pos gn hd2 pv nxt h y) = sh_next (h y)"
  "gprev (split_close l pos gn hd2 pv nxt h y) = (if gn \<noteq> 0 \<and> y = gn then pv else gprev (h y))"
  "gnext (split_close l pos gn hd2 pv nxt h y) = (if y = hd2 then gn else gnext (h y))"
  "sh_prev (split_close l pos gn hd2 pv nxt h y) = (if nxt \<noteq> 0 \<and> y = nxt then 0 else if y = pos then l else sh_prev (h y))"
  by (simp_all add: split_close_def Let_def)

lemma split_close_same: "y \<notin> {pos, hd2} \<Longrightarrow> gn = 0 \<or> y \<noteq> gn \<Longrightarrow> nxt = 0 \<or> y \<noteq> nxt \<Longrightarrow> split_close l pos gn hd2 pv nxt h y = h y"
  by (auto simp: split_close_def Let_def)

text \<open>The headers and lists after a split; \<open>x\<close> is the slot, \<open>pos\<close> the first piece.\<close>

lemma split_slot_heads:
  assumes x: "x = fl ! q" "x \<noteq> 0" and pq: "p < q" "q < 25" "length fl = 25"
    and nxt: "sh_next (h x) \<noteq> 0 \<longrightarrow> sh_next (h x) \<notin> insert x (locs (x + csize p) (pieces p q))"
    and gn: "gnext (h x) \<noteq> 0 \<longrightarrow> gnext (h x) \<notin> insert x (locs (x + csize p) (pieces p q))"
    and S: "split_slot b p q fl h = (fl', h')"
  shows "length fl' = 25"
    "\<And>j. j < 25 \<Longrightarrow> fl' ! j = (if j = q then sh_next (h x) else if j = p then x else if p < j \<and> j < q then x + csize j else fl ! j)"
    "gchain h' b x (x + csize p) (pieces p q) (gnext (h x))"
    "h' x = (h x)\<lparr>sh_size := p, sh_next := x + csize p, gnext := x + csize p\<rparr>"
    "\<And>y. y \<notin> insert x (locs (x + csize p) (pieces p q)) \<Longrightarrow>
       same_slot (h' y) ((h y)\<lparr>gprev := (if gnext (h x) \<noteq> 0 \<and> y = gnext (h x) then last_loc x (x + csize p) (pieces p q) else gprev (h y))\<rparr>) \<and>
       sh_next (h' y) = sh_next (h y) \<and> sh_prev (h' y) = (if sh_next (h x) \<noteq> 0 \<and> y = sh_next (h x) then 0 else sh_prev (h y))"
    "\<And>y. y \<notin> insert x (locs (x + csize p) (pieces p q)) \<Longrightarrow> gnext (h x) = 0 \<or> y \<noteq> gnext (h x) \<Longrightarrow>
       sh_next (h x) = 0 \<or> y \<noteq> sh_next (h x) \<Longrightarrow> h' y = h y"
    "\<And>y. y \<in> locs (x + csize p) (pieces p q) \<Longrightarrow> sh_next (h' y) = 0 \<and> sh_prev (h' y) = (if y = x + csize p then x else 0)"
proof -
  let ?P = "locs (x + csize p) (pieces p q)" and ?pos = "x + csize p" and ?nxt = "sh_next (h x)" and ?gn = "gnext (h x)"
  let ?fl1 = "fl[q := ?nxt, p := x]" and ?h1 = "h(x := (h x)\<lparr>sh_size := p, sh_next := ?pos\<rparr>)"
  let ?fl2 = "split_lists (q - (p + 1)) (p + 1) ?pos ?fl1"
  obtain hd2 pv h2 where E: "split_heads (q - p) p p b ?pos x ?h1 = (hd2, pv, h2)" by (metis prod_cases3)
  have e: "p + (q - p) = q" "cut p = csize p" using pq by simp_all
  have H: "hd2 = last_loc x ?pos (pieces p q) \<and> pv = hd2 \<and> gchain h2 b x ?pos (pieces p q) (gnext (h2 hd2)) \<and>
    h2 x = (?h1 x)\<lparr>gnext := ?pos\<rparr> \<and> (\<forall>y. y \<noteq> x \<longrightarrow> y \<notin> ?P \<longrightarrow> h2 y = ?h1 y) \<and> (\<forall>y \<in> ?P. sh_prev (h2 y) = 0 \<and> sh_next (h2 y) = 0)"
    by (rule split_heads_ok [OF E, of ?pos, unfolded e(1)]) (use pq in simp_all)
  then have pv: "pv = hd2" by blast
  have hd2: "hd2 \<in> ?P" using H last_loc_in [of "pieces p q" x ?pos] pq(1) by simp
  have pos: "?pos \<in> ?P" using pq by (simp add: pieces_locs)
  have xP: "x \<notin> ?P" using locs_bounds [of x ?pos "pieces p q"] csize_pos [of p] by linarith
  have N: "length ?fl2 = 25 \<and> (\<forall>j < 25. ?fl2 ! j = (if p + 1 \<le> j \<and> j < p + 1 + (q - (p + 1)) then x + csize j else ?fl1 ! j))"
    using split_lists_nth [of "p + 1" "q - (p + 1)" ?fl1 x] pq by simp
  then have nth: "j < 25 \<Longrightarrow> ?fl2 ! j = (if j = q then ?nxt else if j = p then x else if p < j \<and> j < q then x + csize j else fl ! j)" for j
    using pq by (auto simp: nth_list_update)
  have n: "?fl2 ! p = x" "?fl2 ! q = ?nxt" using nth [of p] nth [of q] pq by simp_all
  have "split_slot b p q fl h = (?fl2, split_close x ?pos ?gn hd2 hd2 ?nxt h2)"
    unfolding split_slot_def Let_def x(1) [symmetric] e(2) E split_conv n pv by (rule refl)
  then have fl': "fl' = ?fl2" and h': "h' = split_close x ?pos ?gn hd2 hd2 ?nxt h2" using S by simp_all
  show "length fl' = 25" "\<And>j. j < 25 \<Longrightarrow> fl' ! j = (if j = q then ?nxt else if j = p then x else if p < j \<and> j < q then x + csize j else fl ! j)"
    unfolding fl' using N nth by blast+
  have "h' x = h2 x" unfolding h' by (rule split_close_same) (use xP hd2 pos nxt gn in auto)
  then show "h' x = (h x)\<lparr>sh_size := p, sh_next := x + csize p, gnext := x + csize p\<rparr>" using H by simp
  show "gchain h' b x ?pos (pieces p q) ?gn"
  proof (rule gchain_change)
    show "gchain h2 b x ?pos (pieces p q) (gnext (h2 hd2))" using H by blast
    have g: "gprev (h2 ?pos) = x" using H pq by (simp add: pieces_Suc)
    have l: "last_loc x ?pos (pieces p q) = hd2" using H by blast
    show "same_slot (h' y) ((h2 y)\<lparr>gprev := (if y = ?pos then x else gprev (h2 y)), gnext := (if y = last_loc x ?pos (pieces p q) then ?gn else gnext (h2 y))\<rparr>)"
      if "y \<in> ?P" for y using that gn g unfolding h' l by (auto simp: same_slot_def)
  qed
  show "sh_next (h' y) = 0 \<and> sh_prev (h' y) = (if y = ?pos then x else 0)" if "y \<in> ?P" for y
    using that nxt H unfolding h' by auto
  fix y assume y: "y \<notin> insert x ?P"
  then have Y: "h2 y = h y" "y \<noteq> hd2" "y \<noteq> ?pos" using H hd2 pos by auto
  have l: "last_loc x ?pos (pieces p q) = hd2" using H by blast
  show "same_slot (h' y) ((h y)\<lparr>gprev := (if ?gn \<noteq> 0 \<and> y = ?gn then last_loc x ?pos (pieces p q) else gprev (h y))\<rparr>) \<and>
       sh_next (h' y) = sh_next (h y) \<and> sh_prev (h' y) = (if ?nxt \<noteq> 0 \<and> y = ?nxt then 0 else sh_prev (h y))"
    using Y(2,3) unfolding h' l Y(1) [symmetric] by (simp add: same_slot_def)
  show "h' y = h y" if "?gn = 0 \<or> y \<noteq> ?gn" "?nxt = 0 \<or> y \<noteq> ?nxt"
    unfolding h' Y(1) [symmetric] by (rule split_close_same) (use Y that in auto)
qed

text \<open>A split keeps the block well formed.\<close>

lemma split_slot_ok:
  assumes R: "rep h fl b l ps" and pq: "p < q" "q < 25" "fl ! q \<noteq> 0" and empty: "\<And>j. p \<le> j \<Longrightarrow> j < q \<Longrightarrow> fl ! j = 0"
    and S: "split_slot b p q fl h = (fl', h')"
  obtains as bs where "ps = as @ (q, True) # bs" "fl' ! p = l + span as" "rep h' fl' b l (as @ (p, True) # pieces p q @ bs)"
    "blk_kept h h' l ps (as @ (p, True) # pieces p q @ bs)" "used l (as @ (p, True) # pieces p q @ bs) = used l ps"
proof -
  define x where "x = fl ! q"
  let ?P = "locs (x + csize p) (pieces p q)" and ?pos = "x + csize p" and ?nxt = "sh_next (h x)" and ?gn = "gnext (h x)"
  have L: "lists_of h fl l ps {}" and G: "gchain h b 0 l ps 0" and l: "0 < l" using R by (simp_all add: rep_def)
  have x: "x \<in> free_locs q l ps - {}" "sh_prev (h x) = 0" using lists_of_head [OF L pq(2,3)] by (simp_all add: x_def)
  then obtain as bs where ps: "ps = as @ (q, True) # bs" "x = l + span as" using slot_split by (fastforce simp: free_locs_def)
  define ps' where "ps' = as @ (p, True) # pieces p q @ bs"
  have sp: "?pos + span (pieces p q) = x + csize q" using pieces_span [of p q] pq(1) by simp
  have P: "\<forall>y \<in> ?P. x < y \<and> y < x + csize q" 
  proof
    fix y assume "y \<in> ?P"
    from locs_bounds [OF this] show "x < y \<and> y < x + csize q" using sp csize_pos [of p] by linarith
  qed
  have A: "\<forall>y \<in> locs l as. y < x" using locs_bounds ps(2) by fastforce
  have B: "\<forall>y \<in> locs (x + csize q) bs. x + csize q \<le> y \<and> x < y" using locs_bounds csize_pos [of q] by (meson less_add_same_cancel1 order_less_le_trans)
  have locs_ps: "locs l ps = insert x (locs l as \<union> locs (x + csize q) bs)" "locs l ps' = insert x (locs l as \<union> ?P \<union> locs (x + csize q) bs)"
    using ps(2) sp by (auto simp: ps(1) ps'_def add.assoc)
  have out: "y \<notin> insert x ?P" if "y \<in> locs l ps" "y \<noteq> x" for y using that A B P csize_pos [of q] unfolding locs_ps(1) by fastforce
  have Gs: "gchain h b 0 l as x" "gchain h b x (x + csize q) bs 0" "block_ptr (h x) = b" "sh_status (h x) = 1" "gprev (h x) = last_loc 0 l as"
    "?gn = (if bs = [] then 0 else x + csize q)"
    using G by (simp_all add: ps(1) gchain_append ps(2) [symmetric])
  have nxt: "?nxt \<noteq> 0 \<longrightarrow> ?nxt \<in> locs l ps \<and> ?nxt \<noteq> x" using lists_of_links(1) [OF L pq(2) x(1)] free_locs_sub [of q l ps] by auto
  have gn: "?gn \<noteq> 0 \<longrightarrow> ?gn \<in> locs (x + csize q) bs" using Gs(6) by (cases bs) (auto split: if_splits)
  have gn': "?gn \<noteq> 0 \<longrightarrow> ?gn \<in> locs l ps \<and> ?gn \<noteq> x" using gn B unfolding locs_ps(1) by (metis UnI2 insertI2 less_irrefl)
  have disj: "x \<notin> locs l as" "x \<notin> locs (x + csize q) bs" "locs l as \<inter> ?P = {}" "locs (x + csize q) bs \<inter> ?P = {}"
    using A B P by (metis less_irrefl, metis less_irrefl, metis disjoint_iff less_asym, metis disjoint_iff not_less)
  note H = split_slot_heads [OF x_def _ pq(1,2) lists_of_length [OF L] _ _ S]
  have c: "x \<noteq> 0" "?nxt \<noteq> 0 \<longrightarrow> ?nxt \<notin> insert x ?P" "?gn \<noteq> 0 \<longrightarrow> ?gn \<notin> insert x ?P" using pq(3) nxt gn' out by (auto simp: x_def)
  note H = H [OF c]
  have "gchain h' b 0 l ps' 0"
  proof -
    have as: "gchain h' b 0 l as x = gchain h b 0 l as x"
    proof (rule gchain_cong)
      fix y assume y: "y \<in> locs l as"
      have yx: "y < x" using A y by blast
      have "y \<notin> insert x ?P" using P yx by (metis insertE less_asym less_irrefl)
      moreover have "y \<noteq> ?gn \<or> ?gn = 0" using gn B yx by (metis less_asym)
      ultimately show "same_slot (h' y) (h y)" using H(5) [of y] by (auto simp: same_slot_def)
    qed
    have bs: "gchain h' b (last_loc x ?pos (pieces p q)) (x + csize q) bs 0"
    proof (rule gchain_change [OF Gs(2)])
      fix y assume y: "y \<in> locs (x + csize q) bs"
      have "y \<notin> insert x ?P" using B P y by (metis insertE less_irrefl not_less)
      moreover have "bs \<noteq> []" using y by auto
      moreover have "gnext (h y) = 0" if "y = last_loc x (x + csize q) bs" using gchain_last [OF Gs(2)] \<open>bs \<noteq> []\<close> that by simp
      ultimately show "same_slot (h' y) ((h y)\<lparr>gprev := (if y = x + csize q then last_loc x ?pos (pieces p q) else gprev (h y)), gnext := (if y = last_loc x (x + csize q) bs then 0 else gnext (h y))\<rparr>)"
        using H(5) [of y] Gs(6) pq(3) by (auto simp: same_slot_def)
    qed
    have "gchain h' b x ?pos (pieces p q @ bs) 0" using bs H(3) unfolding gchain_append sp Gs(6) by auto
    then show ?thesis using as H(4) Gs(1,3,4,5) pq by (simp add: ps'_def gchain_append [of _ _ _ _ as] ps(2) [symmetric])
  qed
  moreover have "lists_of h' fl' l ps' {}"
  proof -
    have fr: "free_locs j l ps = free_locs j l as \<union> (if j = q then {x} else {}) \<union> free_locs j (x + csize q) bs" for j
      using ps(2) by (auto simp: ps(1))
    have fr': "free_locs j l ps' = free_locs j l as \<union> (if j = p then {x} else {}) \<union> (if p \<le> j \<and> j < q then {x + csize j} else {}) \<union> free_locs j (x + csize q) bs" for j
      unfolding ps'_def free_locs_simps ps(2) [symmetric] sp pieces_free [OF less_imp_le [OF pq(1)]] by auto
    have xx: "x \<notin> free_locs j l as" "x \<notin> free_locs j (x + csize q) bs" "free_locs j l as \<inter> ?P = {}" "free_locs j (x + csize q) bs \<inter> ?P = {}" for j
      using disj free_locs_sub [of j l as] free_locs_sub [of j "x + csize q" bs] by blast+
    have L1: "lists_of h' (fl[q := ?nxt]) l ps' (insert x ?P)"
    proof (rule lists_of_unlink [OF L pq(2) x(1)])
      fix j :: nat
      have "(if p \<le> j \<and> j < q then {x + csize j} else {}) \<subseteq> ?P" using pq(1) by (simp add: pieces_locs)
      then show "free_locs j l ps' - insert x ?P = (if j = q then free_locs j l ps - {} - {x} else free_locs j l ps - {})"
        using xx [of j] unfolding fr fr' by auto
    qed (use H(5) out x(2) in auto)
    have em: "free_locs j l as = {} \<and> free_locs j (x + csize q) bs = {}" if "p \<le> j" "j < q" for j
      using lists_of_empty [OF L, of j] empty [OF that] that pq(2) unfolding fr by auto
    show ?thesis
    proof (rule lists_of_add [OF L1 H(1), where J = "{p..<q}" and G = "\<lambda>j. if j = p then [x, x + csize p] else [x + csize j]"])
      fix j :: nat assume j: "j < 25" "j \<notin> {p..<q}"
      then show "fl' ! j = fl[q := ?nxt] ! j \<and> insert x ?P \<inter> free_locs j l ps' = {}"
        using H(2) [OF j(1)] xx [of j] lists_of_length [OF L] pq(1) unfolding fr' by (auto simp: nth_list_update)
    next
      fix j assume j: "j \<in> {p..<q}"
      then have "x + csize j \<in> ?P" using pq(1) by (simp add: pieces_locs)
      then show "dchain (\<lambda>x. sh_next (h' x)) (\<lambda>x. sh_prev (h' x)) 0 (fl' ! j) (if j = p then [x, x + csize p] else [x + csize j]) \<and>
          distinct (if j = p then [x, x + csize p] else [x + csize j]) \<and> set (if j = p then [x, x + csize p] else [x + csize j]) = free_locs j l ps'"
        using H(2) [of j] H(4) H(7) [of "x + csize j"] j em [of j] c(1) x(2) pq csize_less [of p j] unfolding fr' by (auto simp: le_less)
    qed
  qed
  moreover have "fl' ! p = x" using H(2) [of p] pq by simp
  moreover have us: "used l ps' = used l ps"
    unfolding ps'_def ps(1) used_simps ps(2) [symmetric] sp using pieces_used by simp
  moreover have "blk_kept h h' l ps ps'"
  proof (rule keptI)
    show "span ps' = span ps" using pieces_span [of p q] pq(1) by (simp add: ps'_def ps(1))
    show "h' y = h y" if "y \<notin> locs l ps'" for y using that H(6) [of y] locs_ps nxt gn' by auto
    fix u r assume u: "(u, r) \<in> used l ps"
    then have "u \<in> locs l ps" "u \<noteq> x" "u \<noteq> ?nxt \<or> ?nxt = 0"
      using used_locs used_not_free [OF u, of q] x(1) lists_of_links(1) [OF L pq(2) x(1)] by auto
    then show "sh_next (h' u) = sh_next (h u) \<and> sh_prev (h' u) = sh_prev (h u)" using H(5) [of u] out [of u] by auto
  qed
  ultimately show ?thesis using that [OF ps(1)] l ps(2) by (simp add: rep_def ps'_def)
qed

section \<open>Searching a block\<close>

lemma check_lists_upt:
  "i \<le> 25 \<Longrightarrow> \<forall>j. p \<le> j \<and> j < i \<longrightarrow> fl ! j = 0 \<Longrightarrow>
   check_lists b p [i..<25] fl h = None \<and> (\<forall>j. p \<le> j \<and> j < 25 \<longrightarrow> fl ! j = 0) \<or>
   (\<exists>q. i \<le> q \<and> q < 25 \<and> fl ! q \<noteq> 0 \<and> (\<forall>j. p \<le> j \<and> j < q \<longrightarrow> fl ! j = 0) \<and> check_lists b p [i..<25] fl h = Some (split_slot b p q fl h))"
proof (induction rule: inc_induct)
  case (step i)
  have u: "[i..<25] = i # [Suc i..<25]" using step.hyps(2) by (rule upt_conv_Cons)
  show ?case
  proof (cases "fl ! i = 0")
    case True
    then have "\<forall>j. p \<le> j \<and> j < Suc i \<longrightarrow> fl ! j = 0" using step.prems by (auto simp: less_Suc_eq)
    from step.IH [OF this] True show ?thesis unfolding u by (auto simp del: upt_Suc dest: Suc_leD)
  next
    case False
    then show ?thesis using step.hyps(2) step.prems unfolding u by (intro disjI2 exI [of _ i]) simp
  qed
qed simp

lemma checkblock_ok:
  assumes R: "rep (heads st) (freelists bh) b l ps" and pw: "pw < 25" and bh: "blks st b = Some bh"
  obtains (none) "checkblock b bh pw st = (False, st)" "\<forall>k. pw \<le> k \<and> k < 25 \<longrightarrow> free_locs k l ps = {}"
    | (found) fl h ps' where "checkblock b bh pw st = (True, st\<lparr>blks := (blks st)(b \<mapsto> bh\<lparr>freelists := fl\<rparr>), heads := h\<rparr>)"
        "rep h fl b l ps'" "fl ! pw \<noteq> 0" "blk_kept (heads st) h l ps ps'" "used l ps' = used l ps"
proof (cases "freelists bh ! pw = 0")
  case False
  have "(blks st)(b \<mapsto> bh\<lparr>freelists := freelists bh\<rparr>) = blks st" using bh by (simp add: fun_upd_idem)
  then have "checkblock b bh pw st = (True, st\<lparr>blks := (blks st)(b \<mapsto> bh\<lparr>freelists := freelists bh\<rparr>), heads := heads st\<rparr>)"
    using False by (simp add: checkblock_def)
  from found [OF this R False kept_refl refl] show ?thesis .
next
  case True
  let ?fl = "freelists bh"
  have L: "lists_of (heads st) ?fl l ps {}" and l: "0 < l" using R by (simp_all add: rep_def)
  have "\<forall>j. pw \<le> j \<and> j < pw + 1 \<longrightarrow> ?fl ! j = 0" using True by (auto simp: less_Suc_eq)
  from check_lists_upt [OF _ this, of b "heads st"] pw consider
      (a) "check_lists b pw [pw + 1..<25] ?fl (heads st) = None" "\<forall>j. pw \<le> j \<and> j < 25 \<longrightarrow> ?fl ! j = 0"
    | (b) q where "pw + 1 \<le> q" "q < 25" "?fl ! q \<noteq> 0" "\<forall>j. pw \<le> j \<and> j < q \<longrightarrow> ?fl ! j = 0"
        "check_lists b pw [pw + 1..<25] ?fl (heads st) = Some (split_slot b pw q ?fl (heads st))"
    by force
  then show ?thesis
  proof cases
    case a
    show ?thesis
    proof (rule none)
      show "checkblock b bh pw st = (False, st)" using True a(1) by (simp add: checkblock_def cutOffNum_def)
      show "\<forall>k. pw \<le> k \<and> k < 25 \<longrightarrow> free_locs k l ps = {}" using a(2) lists_of_empty [OF L] by simp
    qed
  next
    case b
    obtain fl h where S: "split_slot b pw q ?fl (heads st) = (fl, h)" by (metis surj_pair)
    have pq: "pw < q" using b(1) by simp
    from split_slot_ok [OF R pq b(2,3) _ S] b(4) obtain as bs
      where o: "fl ! pw = l + span as" "rep h fl b l (as @ (pw, True) # pieces pw q @ bs)"
        "blk_kept (heads st) h l ps (as @ (pw, True) # pieces pw q @ bs)" "used l (as @ (pw, True) # pieces pw q @ bs) = used l ps" by metis
    have "checkblock b bh pw st = (True, st\<lparr>blks := (blks st)(b \<mapsto> bh\<lparr>freelists := fl\<rparr>), heads := h\<rparr>)"
      using True b(5) S by (simp add: checkblock_def cutOffNum_def)
    moreover have "fl ! pw \<noteq> 0" using o(1) l by simp
    ultimately show ?thesis using o by (intro found)
  qed
qed

end
