(* ===== verification/MempoolFill.thy ===== *)
theory MempoolFill
  imports MempoolBlock
begin

text \<open>
  Dividing memory into free slots: the greatest power of two that fits, then the greatest that fits into the
  rest.  \<open>fillblock\<close> does it for a new block and \<open>mempool_free\<close> for the free slots around the one it frees.
\<close>

section \<open>Decomposition into powers of two\<close>

fun decomp :: "nat \<Rightarrow> nat \<Rightarrow> layout" where
  "decomp 0 left = []"
| "decomp (Suc i) left = (if csize i \<le> left then (i, True) # decomp i (left - csize i) else decomp i left)"

lemma decomp_span_le: "span (decomp n left) \<le> left"
proof (induction n arbitrary: left)
  case (Suc n)
  show ?case using Suc [of left] Suc [of "left - csize n"] by auto
qed simp

text \<open>What is left over is less than the smallest slot, and nothing if the size is a multiple of it.\<close>

lemma decomp_rest: "left < csize n \<Longrightarrow> left < span (decomp n left) + 64"
proof (induction n arbitrary: left)
  case 0
  then show ?case by (simp add: csize_def)
next
  case (Suc n)
  show ?case
  proof (cases "csize n \<le> left")
    case True
    have "left - csize n < csize n" using Suc.prems csize_Suc [of n] True by simp
    from Suc.IH [OF this] show ?thesis using True by simp
  qed (use Suc.IH [of left] in simp)
qed

lemma span_dvd: "64 dvd span ps"
proof (induction ps rule: span.induct)
  case (2 p f ps)
  have "64 dvd csize p" by (simp add: csize_def)
  then show ?case using 2 by simp
qed simp

lemma decomp_exact:
  assumes "left < csize n" "64 dvd left"
  shows "span (decomp n left) = left"
proof -
  have "64 dvd left - span (decomp n left)" using assms(2) span_dvd by (rule dvd_diff_nat)
  moreover have "left - span (decomp n left) < 64" using decomp_rest [OF assms(1)] by simp
  ultimately have "left - span (decomp n left) = 0" using nat_dvd_not_less by blast
  then show ?thesis using decomp_span_le [of n left] by simp
qed

lemma decomp_sizes: "(p, f) \<in> set (decomp n left) \<Longrightarrow> p < n \<and> f"
  by (induction n arbitrary: left) (auto split: if_splits, fastforce+)

lemma decomp_used: "used x (decomp n left) = {}"
proof (induction n arbitrary: x left)
  case (Suc n)
  then show ?case by simp
qed simp

section \<open>The slot of a size\<close>

fun slot_of :: "nat \<Rightarrow> nat \<Rightarrow> layout \<Rightarrow> nat" where
  "slot_of j l [] = 0"
| "slot_of j l ((p, f) # ps) = (if p = j then l else slot_of j (l + csize p) ps)"

lemma slot_of_decomp: "n \<le> j \<Longrightarrow> slot_of j loc (decomp n left) = 0"
  by (induction n arbitrary: loc left) auto

lemma decomp_free_empty: "n \<le> j \<Longrightarrow> free_locs j loc (decomp n left) = {}"
  by (induction n arbitrary: loc left) auto

lemma decomp_free:
  "0 < loc \<Longrightarrow> free_locs j loc (decomp n left) = (if slot_of j loc (decomp n left) = 0 then {} else {slot_of j loc (decomp n left)})"
proof (induction n arbitrary: loc left)
  case (Suc n)
  show ?case
  proof (cases "csize n \<le> left \<and> j = n")
    case True
    then show ?thesis using Suc.prems decomp_free_empty [of n n] by simp
  next
    case False
    then show ?thesis using Suc.IH [of loc left] Suc.IH [of "loc + csize n" "left - csize n"] Suc.prems by auto
  qed
qed simp

section \<open>The loops of \<open>fillblock\<close>\<close>

lemma fill_lists_nth:
  "n \<le> 25 \<Longrightarrow> 0 < loc \<Longrightarrow> length fl = 25 \<Longrightarrow> length (fill_lists n loc left fl) = 25 \<and>
   (\<forall>j < 25. fill_lists n loc left fl ! j = (if slot_of j loc (decomp n left) \<noteq> 0 then slot_of j loc (decomp n left) else fl ! j))"
proof (induction n arbitrary: loc left fl)
  case (Suc i)
  have i: "i < 25" "i \<le> 25" using Suc.prems(1) by simp_all
  have len: "length (fl[i := loc]) = 25" using Suc.prems(3) by simp
  show ?case
  proof (cases "csize i \<le> left")
    case True
    have e: "fill_lists (Suc i) loc left fl = fill_lists i (loc + csize i) (left - csize i) (fl[i := loc])" using True i by simp
    have "0 < loc + csize i" using Suc.prems(2) by simp
    note IH = Suc.IH [OF i(2) this len, of "left - csize i"]
    show ?thesis unfolding e using IH True Suc.prems i slot_of_decomp [of i i] by (auto simp: nth_list_update)
  next
    case False
    then show ?thesis using Suc.IH [OF i(2) Suc.prems(2,3), of left] i by simp
  qed
qed simp

lemma fill_heads_ok:
  assumes "fill_heads n pw b fl pv h = (lst, h')" "n \<le> pw" "pw < 25" "0 < loc" "pv < loc" "\<forall>j < n. fl ! j = slot_of j loc (decomp n left)"
  shows "lst = last_loc pv loc (decomp n left) \<and> gchain h' b pv loc (decomp n left) (gnext (h' lst)) \<and>
    h' pv = (if decomp n left = [] then h pv else (h pv)\<lparr>gnext := loc\<rparr>) \<and>
    (\<forall>x. x \<noteq> pv \<longrightarrow> x \<notin> locs loc (decomp n left) \<longrightarrow> h' x = h x) \<and>
    (\<forall>x \<in> locs loc (decomp n left). sh_prev (h' x) = 0 \<and> sh_next (h' x) = 0)"
  using assms
proof (induction n arbitrary: pv h loc left)
  case (Suc i)
  show ?case
  proof (cases "csize i \<le> left")
    case False
    then have "fl ! i = 0" using Suc.prems(6) slot_of_decomp [of i i] by auto
    then have "fill_heads i pw b fl pv h = (lst, h')" using Suc.prems(1) by simp
    moreover have D: "decomp (Suc i) left = decomp i left" using False by simp
    ultimately show ?thesis using Suc.prems(2,6) unfolding D by (intro Suc.IH [OF _ _ Suc.prems(3,4,5)]) simp_all
  next
    case True
    let ?D = "decomp i (left - csize i)" and ?loc = "loc + csize i"
    have D: "decomp (Suc i) left = (i, True) # ?D" using True by simp
    have fl: "fl ! i = loc" "\<forall>j < i. fl ! j = slot_of j ?loc ?D" using Suc.prems(6) True by auto
    let ?h1 = "h(loc := (h loc)\<lparr>sh_size := i, sh_status := 1, block_ptr := b, sh_prev := 0, sh_next := 0, gprev := pv\<rparr>)"
    let ?h2 = "?h1(pv := (?h1 pv)\<lparr>gnext := loc\<rparr>)"
    have R: "fill_heads i pw b fl loc ?h2 = (lst, h')"
      using Suc.prems(1,2,4) unfolding fill_heads.simps Let_def fl(1) by simp
    have H: "?h2 pv = (h pv)\<lparr>gnext := loc\<rparr>" "?h2 loc = (h loc)\<lparr>sh_size := i, sh_status := 1, block_ptr := b, sh_prev := 0, sh_next := 0, gprev := pv\<rparr>"
      "x \<noteq> pv \<Longrightarrow> x \<noteq> loc \<Longrightarrow> ?h2 x = h x" for x
      using Suc.prems(5) by auto
    have IH: "lst = last_loc loc ?loc ?D \<and> gchain h' b loc ?loc ?D (gnext (h' lst)) \<and> h' loc = (if ?D = [] then ?h2 loc else (?h2 loc)\<lparr>gnext := ?loc\<rparr>) \<and>
        (\<forall>x. x \<noteq> loc \<longrightarrow> x \<notin> locs ?loc ?D \<longrightarrow> h' x = ?h2 x) \<and> (\<forall>x \<in> locs ?loc ?D. sh_prev (h' x) = 0 \<and> sh_next (h' x) = 0)"
      by (rule Suc.IH [OF R]) (use Suc.prems(2,3,4) fl(2) in simp_all)
    have "pv \<notin> locs ?loc ?D" using locs_bounds [of pv ?loc ?D] Suc.prems(5) by linarith
    then have a: "h' pv = (h pv)\<lparr>gnext := loc\<rparr>" using IH Suc.prems(5) H(1) by (metis less_irrefl)
    have b: "h' x = h x" if "x \<noteq> pv" "x \<noteq> loc" "x \<notin> locs ?loc ?D" for x using IH H(3) [OF that(1,2)] that by metis
    have c: "h' loc = (if ?D = [] then (h loc)\<lparr>sh_size := i, sh_status := 1, block_ptr := b, sh_prev := 0, sh_next := 0, gprev := pv\<rparr>
        else (h loc)\<lparr>sh_size := i, sh_status := 1, block_ptr := b, sh_prev := 0, sh_next := 0, gprev := pv, gnext := ?loc\<rparr>)"
      using IH unfolding H(2) by simp
    note I = IH [THEN conjunct1] IH [THEN conjunct2, THEN conjunct1] IH [THEN conjunct2, THEN conjunct2, THEN conjunct2, THEN conjunct2]
    have i: "i < 25" using Suc.prems(2,3) by simp
    have "sh_size (h' loc) = i \<and> sh_status (h' loc) = 1 \<and> block_ptr (h' loc) = b \<and> gprev (h' loc) = pv \<and> sh_prev (h' loc) = 0 \<and> sh_next (h' loc) = 0 \<and>
        gnext (h' loc) = (if ?D = [] then gnext (h' lst) else ?loc)"
    proof (cases "?D = []")
      case True
      have "lst = loc" using I(1) unfolding True by simp
      then show ?thesis using c True by simp
    qed (simp add: c)
    note loc1 = this
    have "gchain h' b pv loc ((i, True) # ?D) (gnext (h' lst))" using loc1 I(2) i by simp
    moreover have "\<forall>x \<in> locs loc ((i, True) # ?D). sh_prev (h' x) = 0 \<and> sh_next (h' x) = 0" using loc1 I(3) by simp
    moreover have "lst = last_loc pv loc ((i, True) # ?D)" using I(1) by simp
    moreover have "\<forall>x. x \<noteq> pv \<longrightarrow> x \<notin> locs loc ((i, True) # ?D) \<longrightarrow> h' x = h x" using b by simp
    ultimately show ?thesis unfolding D using a by (metis list.distinct(1))
  qed
qed simp

section \<open>A new block\<close>

lemma fill_all_heads:
  assumes E: "fill_heads (Suc pw) pw b fl 0 h = (lst, h1)" and pw: "pw < 25" "0 < loc" "csize pw \<le> left"
    and fl: "\<forall>j < 25. fl ! j = slot_of j loc (decomp (Suc pw) left)"
  defines "D \<equiv> decomp (Suc pw) left" and "h2 \<equiv> h1(lst := (h1 lst)\<lparr>gnext := 0\<rparr>)"
  shows "gchain h2 b 0 loc D 0" "\<And>x. x \<notin> locs loc D \<Longrightarrow> h2 x = h x" "\<And>x. x \<in> locs loc D \<Longrightarrow> sh_prev (h2 x) = 0 \<and> sh_next (h2 x) = 0"
proof -
  let ?D = "decomp pw (left - csize pw)" and ?loc = "loc + csize pw"
  have D: "D = (pw, True) # ?D" using pw(3) by (simp add: D_def)
  have f: "fl ! pw = loc" "\<forall>j < pw. fl ! j = slot_of j ?loc ?D" using fl pw by (simp_all)
  let ?h1 = "h(loc := (h loc)\<lparr>sh_size := pw, sh_status := 1, block_ptr := b, sh_prev := 0, sh_next := 0, gprev := 0\<rparr>)"
  have R: "fill_heads pw pw b fl loc ?h1 = (lst, h1)" using E pw(2) unfolding fill_heads.simps Let_def f(1) by simp
  have H: "lst = last_loc loc ?loc ?D \<and> gchain h1 b loc ?loc ?D (gnext (h1 lst)) \<and> h1 loc = (if ?D = [] then ?h1 loc else (?h1 loc)\<lparr>gnext := ?loc\<rparr>) \<and>
      (\<forall>x. x \<noteq> loc \<longrightarrow> x \<notin> locs ?loc ?D \<longrightarrow> h1 x = ?h1 x) \<and> (\<forall>x \<in> locs ?loc ?D. sh_prev (h1 x) = 0 \<and> sh_next (h1 x) = 0)"
    by (rule fill_heads_ok [OF R]) (use pw f(2) in simp_all)
  have lst: "lst = last_loc 0 loc D" using H by (simp add: D)
  have loc1: "sh_size (h1 loc) = pw \<and> sh_status (h1 loc) = 1 \<and> block_ptr (h1 loc) = b \<and> gprev (h1 loc) = 0 \<and> sh_prev (h1 loc) = 0 \<and> sh_next (h1 loc) = 0
      \<and> gnext (h1 loc) = (if ?D = [] then gnext (h1 lst) else ?loc)"
    using H by auto
  have "gchain h1 b 0 loc D (gnext (h1 lst))" unfolding D using loc1 H [THEN conjunct2, THEN conjunct1] pw(1) by simp
  then show "gchain h2 b 0 loc D 0"
  proof (rule gchain_change)
    fix x assume "x \<in> locs loc D"
    then show "same_slot (h2 x) ((h1 x)\<lparr>gprev := (if x = loc then 0 else gprev (h1 x)), gnext := (if x = last_loc 0 loc D then 0 else gnext (h1 x))\<rparr>)"
      using loc1 by (simp add: h2_def same_slot_def lst)
  qed
  have lD: "lst \<in> locs loc D" unfolding lst by (rule last_loc_in) (simp add: D)
  have "h1 x = h x" if "x \<notin> locs loc D" for x using that H by (simp add: D)
  then show "h2 x = h x" if "x \<notin> locs loc D" for x using that lD by (auto simp: h2_def)
  have "sh_prev (h1 x) = 0 \<and> sh_next (h1 x) = 0" if "x \<in> locs loc D" for x using that H [THEN conjunct2, THEN conjunct2, THEN conjunct2, THEN conjunct2] loc1 by (auto simp: D)
  then show "sh_prev (h2 x) = 0 \<and> sh_next (h2 x) = 0" if "x \<in> locs loc D" for x using that by (auto simp: h2_def)
qed

lemma fillblock_ok:
  assumes bh: "blks st b = Some bh" and hdr: "hdr = (if expansion then 256 else 304)" and sz: "hdr + 64 \<le> sz" "sz \<le> hdr + csize 24"
  obtains fl h D where "fillblock b sz expansion st = Inr (st\<lparr>blks := (blks st)(b \<mapsto> bh\<lparr>freelists := fl\<rparr>), heads := h\<rparr>)"
    "rep h fl b (b + hdr) D" "used (b + hdr) D = {}" "hdr + span D \<le> sz"
    "\<forall>y. y < b + hdr \<or> b + hdr + span D \<le> y \<longrightarrow> h y = heads st y"
    "\<forall>k < 25. hdr + csize k \<le> sz \<longrightarrow> (\<exists>j \<ge> k. j < 25 \<and> free_locs j (b + hdr) D \<noteq> {})"
proof -
  let ?left = "sz - hdr" and ?loc = "b + hdr"
  have "sz < 2 ^ 31" using sz(2) hdr by (simp add: csize_def split: if_splits)
  then have a: "signed_take_bit 31 (int sz) = int sz" by (simp add: signed_take_bit_int_eq_self)
  have b: "int sz - int hdr = int ?left" using sz(1) by simp
  have "int ?left mod 2 ^ 64 = int ?left" using \<open>sz < 2 ^ 31\<close> by simp
  then have left: "nat ((signed_take_bit 31 (int sz) - int hdr) mod 2 ^ 64) = ?left" unfolding a b by (simp only: nat_int)
  obtain p where p: "top_power ?left = Inr (int p)" "p < 25" "csize p \<le> ?left" "?left < csize (Suc p)"
    by (rule top_power_ok [of ?left]) (use sz in auto)
  define fl where "fl = fill_lists (Suc p) ?loc ?left (replicate 25 0)"
  define D where "D = decomp (Suc p) ?left"
  obtain lst h1 where E: "fill_heads (Suc p) p b fl 0 (heads st) = (lst, h1)" by (metis surj_pair)
  define h where "h = h1(lst := (h1 lst)\<lparr>gnext := 0\<rparr>)"
  have hd: "(if expansion then sizeof_block_header else sizeof_mempool_type) = hdr" by (simp add: hdr sizeof_block_header_def sizeof_mempool_type_def)
  have "fillblock b sz expansion st = Inr (st\<lparr>blks := (blks st)(b \<mapsto> bh\<lparr>freelists := fl\<rparr>), heads := h\<rparr>)"
    unfolding fillblock_def bh Let_def hd left p(1) by (simp del: fill_lists.simps fill_heads.simps add: cutOffNum_def fl_def [symmetric] E h_def)
  moreover have loc: "0 < ?loc" using hdr by (simp split: if_splits)
  have F: "length fl = 25" "\<forall>j < 25. fl ! j = slot_of j ?loc D"
    using fill_lists_nth [of "Suc p" ?loc "replicate 25 0" ?left, folded fl_def D_def] p(2) loc by simp_all
  note H = fill_all_heads [OF E p(2) loc p(3), folded D_def h_def, OF F(2)]
  have "lists_of h fl ?loc D {}"
  proof (rule lists_of_add [OF _ F(1), where J = "{..<25}" and G = "\<lambda>j. if slot_of j ?loc D = 0 then [] else [slot_of j ?loc D]"])
    have "lists_ok 25 (\<lambda>x. sh_next (h x)) (\<lambda>x. sh_prev (h x)) (replicate 25 0) (\<lambda>_. [])" by (simp add: lists_ok_def)
    moreover have "set [] = free_locs k ?loc D - locs ?loc D" for k using free_locs_sub [of k ?loc D] by auto
    ultimately show "lists_of h (replicate 25 0) ?loc D (locs ?loc D)" unfolding lists_of_def by blast
    fix j :: nat assume "j \<in> {..<25}"
    then have j: "fl ! j = slot_of j ?loc D" using F(2) by simp
    have fr: "free_locs j ?loc D = (if slot_of j ?loc D = 0 then {} else {slot_of j ?loc D})" unfolding D_def by (rule decomp_free [OF loc])
    have "slot_of j ?loc D \<noteq> 0 \<Longrightarrow> slot_of j ?loc D \<in> locs ?loc D" using fr free_locs_sub [of j ?loc D] by auto
    then show "dchain (\<lambda>x. sh_next (h x)) (\<lambda>x. sh_prev (h x)) 0 (fl ! j) (if slot_of j ?loc D = 0 then [] else [slot_of j ?loc D]) \<and>
        distinct (if slot_of j ?loc D = 0 then [] else [slot_of j ?loc D]) \<and> set (if slot_of j ?loc D = 0 then [] else [slot_of j ?loc D]) = free_locs j ?loc D"
      using H(3) j fr by auto
  qed simp
  then have "rep h fl b ?loc D" using H(1) loc by (simp add: rep_def)
  moreover have "used ?loc D = {}" unfolding D_def by (rule decomp_used)
  moreover have "hdr + span D \<le> sz" using decomp_span_le [of "Suc p" ?left] sz(1) by (simp add: D_def)
  moreover have "\<forall>y. y < ?loc \<or> ?loc + span D \<le> y \<longrightarrow> h y = heads st y" using H(2) locs_bounds [of _ ?loc D] by (meson not_less)
  moreover have "\<exists>j \<ge> k. j < 25 \<and> free_locs j ?loc D \<noteq> {}" if "hdr + csize k \<le> sz" for k
  proof (intro exI [of _ p] conjI)
    have "csize k < csize (Suc p)" using that p(4) by linarith
    then show "k \<le> p" using csize_mono [of "Suc p" k] by (metis not_less not_less_eq_eq)
    show "free_locs p ?loc D \<noteq> {}" using p(3) by (simp add: D_def)
  qed (rule p(2))
  ultimately show ?thesis using that by blast
qed

end
