(* ===== verification/MempoolFree.thy ===== *)
theory MempoolFree
  imports MempoolFill
begin

text \<open>
  Freeing a slot: \<open>mempool_free\<close> finds the free slots around it, takes them out of their lists and divides the
  memory they cover anew.
\<close>

section \<open>The free slots around a slot\<close>

definition all_free :: "layout \<Rightarrow> bool" where "all_free ps \<longleftrightarrow> (\<forall>s \<in> set ps. snd s)"

lemma all_free_simps [simp]: "all_free []" "all_free (s # ps) \<longleftrightarrow> snd s \<and> all_free ps" "all_free (xs @ ys) \<longleftrightarrow> all_free xs \<and> all_free ys"
  by (auto simp: all_free_def)

lemma all_free_used: "all_free ps \<Longrightarrow> used l ps = {}"
  by (induction l ps rule: slots_at.induct) auto

lemma last_free_run:
  obtains as R where "ps = as @ R" "all_free R" "as = [] \<or> \<not> snd (last as)"
proof
  show "ps = rev (dropWhile snd (rev ps)) @ rev (takeWhile snd (rev ps))" by (metis rev_append rev_rev_ident takeWhile_dropWhile_id)
  show "all_free (rev (takeWhile snd (rev ps)))" by (auto simp: all_free_def dest: set_takeWhileD)
  show "rev (dropWhile snd (rev ps)) = [] \<or> \<not> snd (last (rev (dropWhile snd (rev ps))))" by (metis hd_dropWhile last_rev rev_is_Nil_conv)
qed

lemma first_free_run:
  obtains R bs where "ps = R @ bs" "all_free R" "bs = [] \<or> \<not> snd (hd bs)"
proof
  show "ps = takeWhile snd ps @ dropWhile snd ps" by simp
  show "all_free (takeWhile snd ps)" by (auto simp: all_free_def dest: set_takeWhileD)
  show "dropWhile snd ps = [] \<or> \<not> snd (hd (dropWhile snd ps))" by (metis hd_dropWhile)
qed

lemma gchain_last_status: "gchain h b q l ps e \<Longrightarrow> ps \<noteq> [] \<Longrightarrow> sh_status (h (last_loc q l ps)) = (if snd (last ps) then 1 else 0)"
proof (induction ps arbitrary: q l)
  case (Cons s ps)
  obtain p f where s: "s = (p, f)" by (cases s)
  show ?case using Cons.IH [of l "l + csize p"] Cons.prems by (cases "ps = []") (simp_all add: s)
qed simp

lemma walk_back_ok:
  "gchain h b 0 l (as @ R @ (p, True) # T) e \<Longrightarrow> 0 < l \<Longrightarrow> all_free R \<Longrightarrow> as = [] \<or> \<not> snd (last as) \<Longrightarrow>
   walk_back h (l + span as + span R) sz f = Some (sz + csize p + span R, l + span as)"
proof (induction R arbitrary: p T sz f rule: rev_induct)
  case Nil
  let ?x = "l + span as"
  have x: "sh_status (h ?x) = 1" "gprev (h ?x) = last_loc 0 l as" "sh_size (h ?x) = p" "p < 25" "gchain h b 0 l as ?x"
    using Nil.prems(1) by (simp_all add: gchain_append)
  show ?case
  proof (cases "as = []")
    case True
    then show ?thesis using x by (simp add: walk_back.simps [of h l])
  next
    case False
    let ?y = "last_loc 0 l as"
    have "?y \<noteq> 0" using last_loc_in [OF False, of 0 l] locs_bounds [of ?y l as] Nil.prems(2) by auto
    moreover have "sh_status (h ?y) = 0" using gchain_last_status [OF x(5) False] Nil.prems(4) False by simp
    ultimately show ?thesis using x by (simp add: walk_back.simps [of h ?x] walk_back.simps [of h ?y] Let_def)
  qed
next
  case (snoc r R)
  obtain p2 f2 where r: "r = (p2, f2)" by (cases r)
  have f2: "f2" "all_free R" using snoc.prems(3) by (simp_all add: r)
  let ?x = "l + span as + span (R @ [r])" and ?y = "l + span as + span R"
  have x: "sh_status (h ?x) = 1" "gprev (h ?x) = ?y" "sh_size (h ?x) = p" "p < 25"
    using snoc.prems(1) by (simp_all add: gchain_append r add.assoc)
  have "gchain h b 0 l (as @ R @ (p2, True) # (p, True) # T) e" using snoc.prems(1) f2 by (simp add: r)
  note IH = snoc.IH [OF this snoc.prems(2) f2(2) snoc.prems(4), of "sz + csize p" ?x]
  have "walk_back h ?x sz f = walk_back h ?y (sz + csize p) ?x"
    unfolding walk_back.simps [of h ?x] Let_def x(2,3) using x(1,4) snoc.prems(2) by simp
  then show ?case unfolding IH by (simp add: r)
qed

lemma walk_fwd_ok:
  "gchain h b q x ((p, True) # R @ bs) 0 \<Longrightarrow> 0 < x \<Longrightarrow> all_free R \<Longrightarrow> bs = [] \<or> \<not> snd (hd bs) \<Longrightarrow>
   walk_fwd h x sz = Some (sz + csize p + span R, if bs = [] then 0 else x + csize p + span R)"
proof (induction R arbitrary: q x p sz)
  case Nil
  have x: "sh_status (h x) = 1" "gnext (h x) = (if bs = [] then 0 else x + csize p)" "sh_size (h x) = p" "p < 25"
    "gchain h b x (x + csize p) bs 0" using Nil.prems(1) by simp_all
  show ?case
  proof (cases bs)
    case Nil
    then show ?thesis using x by (simp add: walk_fwd.simps [of h x])
  next
    case (Cons s cs)
    then have "sh_status (h (x + csize p)) = 0" using x(5) Nil.prems(4) by (cases s) simp
    then show ?thesis using x Cons by (simp add: walk_fwd.simps [of h x] walk_fwd.simps [of h "x + csize p"] Let_def)
  qed
next
  case (Cons r R)
  obtain p2 f2 where r: "r = (p2, f2)" by (cases r)
  have x: "sh_status (h x) = 1" "gnext (h x) = x + csize p" "sh_size (h x) = p" "p < 25" using Cons.prems(1) by simp_all
  have "gchain h b x (x + csize p) ((p2, True) # R @ bs) 0" using Cons.prems(1,3) by (simp add: r)
  from Cons.IH [OF this _ _ Cons.prems(4), of "sz + csize p"]
  show ?case using x Cons.prems(2,3) by (simp add: walk_fwd.simps [of h x] Let_def r add.assoc)
qed

section \<open>Taking them out of their lists\<close>

lemma unlink_slot_ok:
  assumes L: "lists_of h fl l ps X" and k: "k < 25" "sh_size (h x) = k" and x: "x \<in> free_locs k l ps - X"
    and S: "unlink_slot x (fl, h) = (fl', h')"
  shows "lists_of h' fl' l ps (insert x X)" "\<And>y. same_slot (h' y) (h y)" "\<And>y. y \<notin> (\<Union>k < 25. free_locs k l ps - X) \<Longrightarrow> h' y = h y"
proof -
  let ?pv = "sh_prev (h x)" and ?nx = "sh_next (h x)"
  have pv: "?pv \<noteq> 0 \<Longrightarrow> ?pv \<in> free_locs k l ps - X - {x}" and nx: "?nx \<noteq> 0 \<Longrightarrow> ?nx \<in> free_locs k l ps - X - {x}"
    using lists_of_links [OF L k(1) x] by simp_all
  have e: "sh_next ((if ?pv \<noteq> 0 then h(?pv := (h ?pv)\<lparr>sh_next := ?nx\<rparr>) else h) x) = ?nx" using pv by auto
  have fl': "fl' = (if ?pv \<noteq> 0 then fl else fl[k := ?nx])"
    and h': "h' = (let h1 = (if ?pv \<noteq> 0 then h(?pv := (h ?pv)\<lparr>sh_next := ?nx\<rparr>) else h)
        in if ?nx \<noteq> 0 then h1(?nx := (h1 ?nx)\<lparr>sh_prev := ?pv\<rparr>) else h1)"
    using S unfolding unlink_slot_def Let_def split_conv e k(2) by simp_all
  have f: "sh_next (h' y) = (if ?pv \<noteq> 0 \<and> y = ?pv then ?nx else sh_next (h y))" "sh_prev (h' y) = (if ?nx \<noteq> 0 \<and> y = ?nx then ?pv else sh_prev (h y))" for y
    unfolding h' Let_def by simp_all
  show "lists_of h' fl' l ps (insert x X)"
  proof (rule lists_of_unlink [OF L k(1) x _ _ fl'])
    fix j :: nat
    show "free_locs j l ps - insert x X = (if j = k then free_locs j l ps - X - {x} else free_locs j l ps - X)"
      using free_locs_disjoint [of j k l ps] x by auto
  qed (simp_all add: f)
  show "same_slot (h' y) (h y)" for y unfolding h' Let_def by (simp add: same_slot_def)
  show "h' y = h y" if "y \<notin> (\<Union>k < 25. free_locs k l ps - X)" for y
    using that pv nx k(1) unfolding h' Let_def by auto
qed

lemma unlink_run_ok:
  assumes "gchain h b q x (R @ bs) 0" "all_free R" "0 < x" "lists_of h fl l ps X" "to_free \<in> X"
    "\<forall>y k. (y, k, True) \<in> set (slots_at x R) \<longrightarrow> y = to_free \<or> y \<in> free_locs k l ps - X"
    "cur = (if R @ bs = [] then 0 else x)" "un = (if bs = [] then 0 else x + span R)"
  shows "\<exists>fl' h'. unlink_run to_free un cur (fl, h) = Some (fl', h') \<and> lists_of h' fl' l ps (X \<union> locs x R) \<and>
    (\<forall>y. same_slot (h' y) (h y)) \<and> (\<forall>y. y \<notin> (\<Union>k < 25. free_locs k l ps - X) \<longrightarrow> h' y = h y)"
  using assms
proof (induction R arbitrary: q x h fl X cur)
  case Nil
  then have "cur = un" by simp
  then have "unlink_run to_free un cur (fl, h) = Some (fl, h)" by (simp add: unlink_run.simps [of _ un un])
  then show ?case using Nil.prems(4) by (intro exI [of _ fl] exI [of _ h]) simp
next
  case (Cons r R)
  obtain k f where r: "r = (k, f)" by (cases r)
  have f: "f" "all_free R" using Cons.prems(2) by (simp_all add: r)
  have cur: "cur = x" "cur \<noteq> un" using Cons.prems(7,8) Cons.prems(3) csize_pos [of k] by (auto simp: r)
  let ?x = "x + csize k" and ?cur = "if R @ bs = [] then 0 else x + csize k"
  have g: "gnext (h x) = ?cur" "sh_size (h x) = k" "k < 25" "gchain h b x ?x (R @ bs) 0" using Cons.prems(1) by (simp_all add: r)
  have un: "un = (if bs = [] then 0 else ?x + span R)" using Cons.prems(8) by (simp add: r add.assoc)
  have rest: "\<forall>y k. (y, k, True) \<in> set (slots_at ?x R) \<longrightarrow> y \<noteq> x \<and> (y = to_free \<or> y \<in> free_locs k l ps - X)"

  proof (intro allI impI conjI)
    fix y j assume y: "(y, j, True) \<in> set (slots_at ?x R)"
    show "y \<noteq> x" using slot_bounds [OF y] csize_pos [of k] by linarith
    show "y = to_free \<or> y \<in> free_locs j l ps - X" using Cons.prems(6) y by (simp add: r)
  qed
  show ?case
  proof (cases "x = to_free")
    case True
    have "unlink_run to_free un cur (fl, h) = unlink_run to_free un ?cur (fl, h)"
      unfolding unlink_run.simps [of to_free un cur] Let_def using cur g(1) True by simp
    moreover have "X \<union> locs x (r # R) = X \<union> locs ?x R" using True Cons.prems(5) by (auto simp: r)
    moreover have "\<exists>fl' h'. unlink_run to_free un ?cur (fl, h) = Some (fl', h') \<and> lists_of h' fl' l ps (X \<union> locs ?x R) \<and>
        (\<forall>y. same_slot (h' y) (h y)) \<and> (\<forall>y. y \<notin> (\<Union>k < 25. free_locs k l ps - X) \<longrightarrow> h' y = h y)"
      by (rule Cons.IH [OF g(4) f(2) _ Cons.prems(4,5)]) (use rest un in auto)
    ultimately show ?thesis by simp
  next
    case False
    obtain fl1 h1 where S: "unlink_slot x (fl, h) = (fl1, h1)" by (metis surj_pair)
    have xk: "x \<in> free_locs k l ps - X" using Cons.prems(6) False f(1) by (simp add: r)
    note U = unlink_slot_ok [OF Cons.prems(4) g(3,2) xk S]
    have n: "gnext (h1 x) = ?cur" using U(2) [of x] g(1) by (simp add: same_slot_def)
    have "gchain h1 b x ?x (R @ bs) 0" using g(4) gchain_cong [of ?x "R @ bs" h1 h] U(2) by simp
    then have "\<exists>fl' h'. unlink_run to_free un ?cur (fl1, h1) = Some (fl', h') \<and> lists_of h' fl' l ps (insert x X \<union> locs ?x R) \<and>
        (\<forall>y. same_slot (h' y) (h1 y)) \<and> (\<forall>y. y \<notin> (\<Union>k < 25. free_locs k l ps - insert x X) \<longrightarrow> h' y = h1 y)"
      by (rule Cons.IH [OF _ f(2) _ U(1)]) (use rest un Cons.prems(5) in auto)
    then obtain fl' h' where o: "unlink_run to_free un ?cur (fl1, h1) = Some (fl', h')" "lists_of h' fl' l ps (insert x X \<union> locs ?x R)"
      "\<forall>y. same_slot (h' y) (h1 y)" "\<forall>y. y \<notin> (\<Union>k < 25. free_locs k l ps - insert x X) \<longrightarrow> h' y = h1 y" by blast
    have "unlink_run to_free un cur (fl, h) = Some (fl', h')" 
      unfolding unlink_run.simps [of to_free un cur] Let_def using cur False S n o(1) by simp
    moreover have "insert x X \<union> locs ?x R = X \<union> locs x (r # R)" by (auto simp: r)
    moreover have "\<forall>y. same_slot (h' y) (h y)" using o(3) U(2) by (simp add: same_slot_def)
    moreover have "\<forall>y. y \<notin> (\<Union>k < 25. free_locs k l ps - X) \<longrightarrow> h' y = h y" using o(4) U(3) by auto
    ultimately show ?thesis using o(2) by auto
  qed
qed

section \<open>Dividing the memory anew\<close>

lemma refill_ok:
  assumes "refill n pw b loc left pv cur (fl, h) = (cur', fl', h')" "n \<le> 25" "n \<le> Suc pw" "0 < loc"
    "lists_of h fl l ps (locs loc (decomp n left))" "\<forall>j < 25. free_locs j loc (decomp n left) \<subseteq> free_locs j l ps"
    "\<forall>i D. decomp n left = (i, True) # D \<longrightarrow> (if i \<noteq> pw then pv else gprev (h loc)) = q"
  shows "cur' = last_loc cur loc (decomp n left) \<and> lists_of h' fl' l ps {} \<and> gchain h' b q loc (decomp n left) (loc + span (decomp n left)) \<and>
    (\<forall>y. y \<notin> locs loc (decomp n left) \<longrightarrow> same_slot (h' y) (h y) \<and> sh_next (h' y) = sh_next (h y)) \<and>
    (\<forall>y. y \<notin> (\<Union>k < 25. free_locs k l ps) \<longrightarrow> h' y = h y)"
  using assms
proof (induction n arbitrary: loc left pv cur fl h q)
  case 0
  then show ?case by simp
next
  case (Suc i)
  have i: "i < 25" "i \<le> pw" using Suc.prems(2,3) by simp_all
  show ?case
  proof (cases "csize i \<le> left")
    case False
    then have D: "decomp (Suc i) left = decomp i left" by simp
    have R: "refill i pw b loc left pv cur (fl, h) = (cur', fl', h')" using Suc.prems(1) False i(1) by simp
    show ?thesis unfolding D by (rule Suc.IH [OF R _ _ Suc.prems(4-7) [unfolded D]]) (use i in auto)
  next
    case True
    let ?D = "decomp i (left - csize i)" and ?loc = "loc + csize i" and ?hd = "fl ! i"
    have D: "decomp (Suc i) left = (i, True) # ?D" using True by simp
    note L = Suc.prems(5) [unfolded D]
    let ?X = "locs ?loc ?D"
    have X: "locs loc ((i, True) # ?D) = insert loc ?X" by simp
    have out: "loc \<notin> ?X" using locs_bounds [of loc ?loc ?D] csize_pos [of i] by linarith
    have hd: "?hd \<noteq> 0 \<Longrightarrow> ?hd \<in> free_locs i l ps - insert loc ?X" using lists_of_head(1) [OF L i(1)] by simp
    have fr: "loc \<in> free_locs i l ps" using Suc.prems(6) [unfolded D, rule_format, OF i(1)] by auto
    define q1 where "q1 = (if i \<noteq> pw then pv else gprev (h loc))"
    define c where "c = (h loc)\<lparr>sh_size := i, sh_status := 1, block_ptr := b, gprev := q1, gnext := ?loc, sh_prev := 0, sh_next := ?hd\<rparr>"
    define h2 where "h2 = (if ?hd \<noteq> 0 then h(loc := c, ?hd := (h ?hd)\<lparr>sh_prev := loc\<rparr>) else h(loc := c))"
    have R: "refill i pw b ?loc (left - csize i) loc loc (fl[i := loc], h2) = (cur', fl', h')"
      using Suc.prems(1) True i(1) hd unfolding h2_def c_def q1_def by (auto simp: Let_def)
    have h2: "h2 loc = c" "y \<noteq> loc \<Longrightarrow> same_slot (h2 y) (h y) \<and> sh_next (h2 y) = sh_next (h y)"
      "y \<noteq> loc \<Longrightarrow> sh_prev (h2 y) = (if ?hd \<noteq> 0 \<and> y = ?hd then loc else sh_prev (h y))"
      "y \<noteq> loc \<Longrightarrow> ?hd = 0 \<or> y \<noteq> ?hd \<Longrightarrow> h2 y = h y" for y
      using hd by (auto simp: h2_def)
    have L2: "lists_of h2 (fl[i := loc]) l ps ?X"
    proof (rule lists_of_push [OF L i(1)])
      fix j :: nat
      show "free_locs j l ps - ?X = (if j = i then insert loc (free_locs j l ps - locs loc ((i, True) # ?D)) else free_locs j l ps - locs loc ((i, True) # ?D))"
        using fr out free_locs_disjoint [of j i l ps] by auto
    qed (use Suc.prems(4) h2 in \<open>auto simp: c_def\<close>)
    have IH: "cur' = last_loc loc ?loc ?D \<and> lists_of h' fl' l ps {} \<and> gchain h' b loc ?loc ?D (?loc + span ?D) \<and>
        (\<forall>y. y \<notin> locs ?loc ?D \<longrightarrow> same_slot (h' y) (h2 y) \<and> sh_next (h' y) = sh_next (h2 y)) \<and>
        (\<forall>y. y \<notin> (\<Union>k < 25. free_locs k l ps) \<longrightarrow> h' y = h2 y)"
    proof (rule Suc.IH [OF R _ _ _ L2])
      show "\<forall>j < 25. free_locs j ?loc ?D \<subseteq> free_locs j l ps" using Suc.prems(6) [unfolded D] by (auto split: if_splits)
      show "\<forall>i' D. ?D = (i', True) # D \<longrightarrow> (if i' \<noteq> pw then loc else gprev (h2 ?loc)) = loc"
        using decomp_sizes [of _ True i "left - csize i"] i(2) by fastforce
    qed (use i in auto)
    have q: "q1 = q" using Suc.prems(7) [unfolded D] by (simp add: q1_def)
    have "same_slot (h' loc) c" using IH out h2(1) by metis
    then have "gchain h' b q loc ((i, True) # ?D) (loc + span ((i, True) # ?D))"
      using IH [THEN conjunct2, THEN conjunct2, THEN conjunct1] i(1) by (simp add: c_def same_slot_def q add.assoc)
    moreover have "same_slot (h' y) (h y) \<and> sh_next (h' y) = sh_next (h y)" if "y \<notin> locs loc ((i, True) # ?D)" for y
      using that IH [THEN conjunct2, THEN conjunct2, THEN conjunct2, THEN conjunct1, rule_format, of y] h2(2) [of y] by (simp add: same_slot_def)
    moreover have "h' y = h y" if "y \<notin> (\<Union>k < 25. free_locs k l ps)" for y
    proof -
      have "y \<noteq> loc" "?hd = 0 \<or> y \<noteq> ?hd" using that fr hd i(1) by auto
      then show ?thesis using that IH [THEN conjunct2, THEN conjunct2, THEN conjunct2, THEN conjunct2, rule_format, of y] h2(4) [of y] by simp
    qed
    ultimately show ?thesis unfolding D using IH [THEN conjunct1] IH [THEN conjunct2, THEN conjunct1] by simp
  qed
qed

section \<open>Freeing a slot of a block\<close>

text \<open>\<open>mempool_free\<close> on the headers and lists of the block.\<close>

definition free_block :: "nat \<Rightarrow> nat \<Rightarrow> nat list \<Rightarrow> (nat \<Rightarrow> slot_header) \<Rightarrow> (nat list \<times> (nat \<Rightarrow> slot_header)) result" where
  "free_block b x fl h0 =
     (let h = h0(x := (h0 x)\<lparr>sh_status := 1\<rparr>) in
      case walk_back h x 0 x of
        None \<Rightarrow> Inl (Fault ''gprev'')
      | Some (sz0, fst1) \<Rightarrow>
          (case walk_fwd h x (sz0 - cut (sh_size (h x))) of
             None \<Rightarrow> Inl (Fault ''gnext'')
           | Some (sz, used_next) \<Rightarrow>
               (case unlink_run x used_next fst1 (fl, h) of
                  None \<Rightarrow> Inl (Fault ''gnext'')
                | Some (fl1, h1) \<Rightarrow>
                    rbind (top_power sz) (\<lambda>pw.
                      let (current, fl2, h2) = refill (nat (pw + 1)) (nat pw) b fst1 sz 0 0 (fl1, h1);
                          h3 = (if used_next \<noteq> 0 then h2(used_next := (h2 used_next)\<lparr>gprev := current\<rparr>)
                                else h2(current := (h2 current)\<lparr>gnext := 0\<rparr>))
                      in Inr (fl2, h3)))))"

lemma mempool_free_block:
  assumes "block_ptr (heads st (p - 32)) = b" "blks st b = Some bh" "free_block b (p - 32) (freelists bh) (heads st) = Inr (fl, h)"
  shows "mempool_free p st = Inr (st\<lparr>heads := h, blks := (blks st)(b \<mapsto> bh\<lparr>bused := bused bh - of_nat (sh_size (heads st (p - 32))), freelists := fl\<rparr>)\<rparr>)"
  using assms unfolding mempool_free_def free_block_def rbind_def
  by (auto simp: sizeof_used_header_def Let_def split: option.splits prod.splits sum.splits)

lemma locs_middle:
  "locs l as \<inter> locs (l + span as) M = {} \<and> locs (l + span as + span M) bs \<inter> locs (l + span as) M = {} \<and> locs l as \<inter> locs (l + span as + span M) bs = {}"
proof -
  have a: "z \<in> locs l as \<Longrightarrow> z < l + span as" for z using locs_bounds [of z l as] by simp
  have m: "z \<in> locs (l + span as) M \<Longrightarrow> l + span as \<le> z \<and> z < l + span as + span M" for z using locs_bounds [of z "l + span as" M] by simp
  have b: "z \<in> locs (l + span as + span M) bs \<Longrightarrow> l + span as + span M \<le> z" for z using locs_bounds [of z "l + span as + span M" bs] by simp
  show ?thesis by (intro conjI equals0I) (auto dest!: a m b)
qed

lemma free_locs_middle:
  "free_locs j l (as @ M @ bs) - locs (l + span as) M = free_locs j l as \<union> free_locs j (l + span as + span M) bs"
  using locs_middle [of l as M bs] free_locs_sub [of j l as] free_locs_sub [of j "l + span as" M] free_locs_sub [of j "l + span as + span M" bs]
  unfolding free_locs_simps by blast

text \<open>Marking a slot free, and the walk to both ends of the free slots around it.\<close>

lemma free_flip:
  assumes "x = l + span as"
  shows "free_locs j l (as @ (k, True) # bs) - {x} = free_locs j l (as @ (k, False) # bs)"
proof -
  have "x \<notin> locs l as" using locs_bounds [of x l as] assms by fastforce
  moreover have "x \<notin> locs (x + csize k) bs" using locs_bounds [of x "x + csize k" bs] csize_pos [of k] by linarith
  ultimately have "x \<notin> free_locs j l as" "x \<notin> free_locs j (x + csize k) bs" using free_locs_sub by blast+
  then show ?thesis using assms by auto
qed

lemma walks_ok:
  assumes G: "gchain h b 0 l (as @ (R1 @ (k, True) # R2) @ bs) 0" "0 < l" and k: "k < 25" "sh_size (h x) = k" and y: "y = l + span as" "x = y + span R1"
    and R: "all_free R1" "as = [] \<or> \<not> snd (last as)" "all_free R2" "bs = [] \<or> \<not> snd (hd bs)"
  defines "RR \<equiv> R1 @ (k, True) # R2"
  shows "walk_back h x 0 x = Some (csize k + span R1, y)"
    "walk_fwd h x (csize k + span R1 - cut (sh_size (h x))) = Some (span RR, if bs = [] then 0 else y + span RR)"
proof -
  show "walk_back h x 0 x = Some (csize k + span R1, y)"
    using walk_back_ok [of h b l as R1 k "R2 @ bs" 0 0 x] G R(1,2) by (simp add: y)
  have g: "gchain h b (last_loc 0 l (as @ R1)) x ((k, True) # R2 @ bs) 0"
    using G(1) by (simp add: gchain_append [of _ _ _ _ as] gchain_append [of _ _ _ _ R1] y)
  have e: "0 < x" "csize k + span R1 - cut (sh_size (h x)) = span R1" "y + span RR = x + csize k + span R2" "span RR = span R1 + csize k + span R2"
    using G(2) k by (simp_all add: RR_def y)
  show "walk_fwd h x (csize k + span R1 - cut (sh_size (h x))) = Some (span RR, if bs = [] then 0 else y + span RR)"
    unfolding e(2,3) unfolding e(4) by (rule walk_fwd_ok [OF g e(1) R(3,4)])
qed

text \<open>The links at both ends of the new slots.\<close>

definition relink :: "nat \<Rightarrow> nat \<Rightarrow> (nat \<Rightarrow> slot_header) \<Rightarrow> nat \<Rightarrow> slot_header" where
  "relink un cur h = (if un \<noteq> 0 then h(un := (h un)\<lparr>gprev := cur\<rparr>) else h(cur := (h cur)\<lparr>gnext := 0\<rparr>))"

lemma relink_fields [simp]:
  "sh_size (relink un cur h z) = sh_size (h z)" "sh_status (relink un cur h z) = sh_status (h z)" "block_ptr (relink un cur h z) = block_ptr (h z)"
  "sh_next (relink un cur h z) = sh_next (h z)" "sh_prev (relink un cur h z) = sh_prev (h z)"
  "gprev (relink un cur h z) = (if un \<noteq> 0 \<and> z = un then cur else gprev (h z))" "gnext (relink un cur h z) = (if un = 0 \<and> z = cur then 0 else gnext (h z))"
  by (simp_all add: relink_def)

lemma relink_same: "z \<noteq> cur \<Longrightarrow> un = 0 \<or> z \<noteq> un \<Longrightarrow> relink un cur h z = h z"
  by (auto simp: relink_def)

lemma relink_gchain:
  assumes as: "gchain h b 0 l as y" and bs: "gchain h b q (y + span D) bs 0" and D: "gchain h2 b (last_loc 0 l as) y D (y + span D)" "D \<noteq> []"
    and same: "\<And>z. z \<notin> locs y D \<Longrightarrow> same_slot (h2 z) (h z)" and y: "y = l + span as" "0 < y" and cur: "cur = last_loc 0 y D"
    and un: "un = (if bs = [] then 0 else y + span D)"
  shows "gchain (relink un cur h2) b 0 l (as @ D @ bs) 0"
proof -
  let ?h = "relink un cur h2"
  have M: "locs l as \<inter> locs y D = {}" "locs (y + span D) bs \<inter> locs y D = {}" "locs l as \<inter> locs (y + span D) bs = {}"
    using locs_middle [of l as D bs] by (simp_all add: y(1))
  have cD: "cur \<in> locs y D" unfolding cur by (rule last_loc_in [OF D(2)])
  have uB: "un \<noteq> 0 \<Longrightarrow> un \<in> locs (y + span D) bs" using un by (cases bs) auto
  have u0: "un = 0 \<longleftrightarrow> bs = []" using un y(2) by simp
  have lD: "last_loc (last_loc 0 l as) y D = cur" using D(2) unfolding cur by (cases D) auto
  have "gchain ?h b 0 l as y = gchain h b 0 l as y"
  proof (rule gchain_cong)
    fix z assume "z \<in> locs l as"
    then have "z \<notin> locs y D" "z \<noteq> cur" "un = 0 \<or> z \<noteq> un" using M cD uB by auto
    then show "same_slot (?h z) (h z)" using same [of z] by (auto simp: same_slot_def)
  qed
  moreover have "gchain ?h b (last_loc 0 l as) y D (if bs = [] then 0 else y + span D)"
  proof (rule gchain_change [OF D(1)])
    fix z assume z: "z \<in> locs y D"
    then have "un = 0 \<or> z \<noteq> un" using M uB by auto
    moreover have "gprev (h2 y) = last_loc 0 l as" "gnext (h2 cur) = y + span D" using D gchain_last [OF D] lD by (cases D; auto)+
    ultimately show "same_slot (?h z) ((h2 z)\<lparr>gprev := (if z = y then last_loc 0 l as else gprev (h2 z)),
        gnext := (if z = last_loc (last_loc 0 l as) y D then if bs = [] then 0 else y + span D else gnext (h2 z))\<rparr>)"
      unfolding lD using u0 by (auto simp: same_slot_def)
  qed
  moreover have "gchain ?h b cur (y + span D) bs 0"
  proof (rule gchain_change [OF bs])
    fix z assume z: "z \<in> locs (y + span D) bs"
    then have "z \<notin> locs y D" "z \<noteq> cur" "bs \<noteq> []" using M cD by auto
    then show "same_slot (?h z) ((h z)\<lparr>gprev := (if z = y + span D then cur else gprev (h z)), gnext := (if z = last_loc q (y + span D) bs then 0 else gnext (h z))\<rparr>)"
      using same [of z] gchain_last [OF bs] u0 un by (auto simp: same_slot_def)
  qed
  ultimately have "gchain ?h b (last_loc 0 l as) y (D @ bs) 0" "gchain ?h b 0 l as y" using lD as by (simp_all add: gchain_append)
  then show ?thesis using D(2) by (simp add: gchain_append [of _ _ _ _ as] y(1) [symmetric])
qed

text \<open>The slot with the free slots around it, and what replaces them.\<close>

lemma free_block_ok:
  assumes R: "rep h0 fl b l ps" and ps: "ps = as0 @ (k, False) # bs0" and x: "x = l + span as0" and sp: "span ps \<le> csize 24"
  obtains fl' h' ps' where "free_block b x fl h0 = Inr (fl', h')" "rep h' fl' b l ps'" "used l ps' = used l ps - {(x, k)}" "blk_kept h0 h' l ps ps'"
proof -
  obtain as R1 where as0: "as0 = as @ R1" "all_free R1" "as = [] \<or> \<not> snd (last as)" by (rule last_free_run)
  obtain R2 bs where bs0: "bs0 = R2 @ bs" "all_free R2" "bs = [] \<or> \<not> snd (hd bs)" by (rule first_free_run)
  define h where "h = h0(x := (h0 x)\<lparr>sh_status := 1\<rparr>)"
  define RR where "RR = R1 @ (k, True) # R2"
  define ps1 where "ps1 = as @ RR @ bs"
  define y where "y = l + span as"
  have l: "0 < l" and G0: "gchain h0 b 0 l ps 0" and L0: "lists_of h0 fl l ps {}" using R by (simp_all add: rep_def)
  have G: "gchain h b 0 l ps1 0"
    using gchain_status [OF G0 [unfolded ps], of h True] by (simp add: h_def x same_slot_def ps1_def RR_def as0 bs0)
  have k: "k < 25" "sh_size (h x) = k" using G0 by (simp_all add: ps gchain_append x h_def)
  have sR: "span RR = span R1 + csize k + span R2" "64 dvd span RR" by (simp add: RR_def) (rule span_dvd)
  have sR': "64 \<le> span RR" "span RR \<le> csize 24" using sR(1) csize_ge [of k] sp by (linarith, simp add: RR_def ps as0 bs0)
  have xR: "x = y + span R1" by (simp add: x as0 y_def)
  let ?un = "if bs = [] then 0 else y + span RR"
  note W = walks_ok [OF G [unfolded ps1_def RR_def] l k y_def xR as0(2,3) bs0(2,3), folded RR_def]
  have fr0: "free_locs j l ps1 - {x} = free_locs j l ps" for j
    using free_flip [OF x, of j k bs0] by (simp add: ps1_def RR_def ps as0 bs0)
  have "lists_of h fl l ps {}" by (rule lists_of_cong [OF L0]) (simp add: h_def)
  then have lo: "lists_of h fl l ps1 {x}" using fr0 by (auto simp: lists_of_def)
  have y: "0 < y" using l by (simp add: y_def)
  have "RR @ bs \<noteq> []" by (simp add: RR_def)
  then have GR: "gchain h b 0 l as y" "gchain h b (last_loc 0 l as) y (RR @ bs) 0"
    using G by (simp_all add: ps1_def gchain_append [of _ _ _ _ as] y_def del: append_is_Nil_conv)
  have xRR: "x \<in> locs y RR" by (simp add: RR_def xR)
  have "\<exists>fl' h'. unlink_run x ?un y (fl, h) = Some (fl', h') \<and> lists_of h' fl' l ps1 ({x} \<union> locs y RR) \<and>
      (\<forall>z. same_slot (h' z) (h z)) \<and> (\<forall>z. z \<notin> (\<Union>k < 25. free_locs k l ps1 - {x}) \<longrightarrow> h' z = h z)"
  proof (rule unlink_run_ok [OF GR(2) _ y lo])
    show "all_free RR" using as0(2) bs0(2) by (simp add: RR_def)
    show "\<forall>z j. (z, j, True) \<in> set (slots_at y RR) \<longrightarrow> z = x \<or> z \<in> free_locs j l ps1 - {x}"
      by (auto simp: free_locs_def ps1_def y_def)
  qed (simp_all add: RR_def)
  then obtain fl1 h1 where ul: "unlink_run x ?un y (fl, h) = Some (fl1, h1)" "lists_of h1 fl1 l ps1 ({x} \<union> locs y RR)"
    "\<forall>z. same_slot (h1 z) (h z)" "\<forall>z. z \<notin> (\<Union>k < 25. free_locs k l ps1 - {x}) \<longrightarrow> h1 z = h z" by blast
  obtain p where p: "top_power (span RR) = Inr (int p)" "p < 25" "csize p \<le> span RR" "span RR < csize (Suc p)"
    by (rule top_power_ok [OF sR'])
  define D where "D = decomp (Suc p) (span RR)"
  define ps' where "ps' = as @ D @ bs"
  obtain cur fl2 h2 where rf: "refill (Suc p) p b y (span RR) 0 0 (fl1, h1) = (cur, fl2, h2)" by (metis prod_cases3)
  have sD: "span D = span RR" unfolding D_def by (rule decomp_exact [OF p(4) sR(2)])
  have D1: "D = (p, True) # decomp p (span RR - csize p)" using p(3) by (simp add: D_def)
  have sps: "span ps' = span ps" "span ps1 = span ps" using sR(1) sD by (simp_all add: ps'_def ps1_def RR_def ps as0 bs0)
  have fr1: "free_locs j l ps1 - ({x} \<union> locs y RR) = free_locs j l as \<union> free_locs j (y + span RR) bs" for j
    using free_locs_middle [of j l as RR bs] xRR by (simp add: ps1_def y_def insert_absorb)
  have fr': "free_locs j l ps' - locs y D = free_locs j l as \<union> free_locs j (y + span RR) bs" for j
    using free_locs_middle [of j l as D bs] by (simp add: ps'_def y_def sD)
  have R': "cur = last_loc 0 y D \<and> lists_of h2 fl2 l ps' {} \<and> gchain h2 b (last_loc 0 l as) y D (y + span D) \<and>
      (\<forall>z. z \<notin> locs y D \<longrightarrow> same_slot (h2 z) (h1 z) \<and> sh_next (h2 z) = sh_next (h1 z)) \<and> (\<forall>z. z \<notin> (\<Union>k < 25. free_locs k l ps') \<longrightarrow> h2 z = h1 z)"
  proof (rule refill_ok [OF rf, folded D_def])
    show "lists_of h1 fl1 l ps' (locs y D)" using ul(2) unfolding lists_of_def fr1 fr' .
    show "\<forall>j < 25. free_locs j y D \<subseteq> free_locs j l ps'" by (auto simp: ps'_def y_def)
    have "gprev (h1 y) = gprev (h y)" using ul(3) by (simp add: same_slot_def)
    also have "\<dots> = last_loc 0 l as" using GR(2) by (cases "R1") (auto simp: RR_def)
    finally show "\<forall>i E. D = (i, True) # E \<longrightarrow> (if i \<noteq> p then 0 else gprev (h1 y)) = last_loc 0 l as" by (simp add: D1)
  qed (use p(2) y in simp_all)
  note r1 = R' [THEN conjunct1] and r2 = R' [THEN conjunct2, THEN conjunct1] and r3 = R' [THEN conjunct2, THEN conjunct2, THEN conjunct1]
    and r4 = R' [THEN conjunct2, THEN conjunct2, THEN conjunct2, THEN conjunct1, rule_format] and r5 = R' [THEN conjunct2, THEN conjunct2, THEN conjunct2, THEN conjunct2, rule_format]
  define h3 where "h3 = relink ?un cur h2"
  have "free_block b x fl h0 = Inr (fl2, h3)"
    unfolding free_block_def h_def [symmetric] Let_def W option.case prod.case ul(1) p(1) using rf by (simp add: h3_def relink_def nat_add_distrib)
  moreover have cur: "cur \<in> locs y D" unfolding r1 by (rule last_loc_in) (simp add: D1)
  have un: "?un \<noteq> 0 \<Longrightarrow> ?un \<in> locs (y + span RR) bs" by (cases bs) auto
  have "gchain h3 b 0 l ps' 0"
    unfolding h3_def ps'_def
  proof (rule relink_gchain [OF GR(1) _ r3 _ _ y_def y r1])
    show "gchain h b (last_loc (last_loc 0 l as) y RR) (y + span D) bs 0" using GR(2) by (simp add: gchain_append sD)
    show "same_slot (h2 z) (h z)" if "z \<notin> locs y D" for z using r4 [OF that] ul(3) by (simp add: same_slot_def)
    show "D \<noteq> []" by (simp add: D1)
  qed (simp add: sD)
  then have "rep h3 fl2 b l ps'" using l lists_of_cong [OF r2, of h3] by (simp add: rep_def h3_def)
  moreover have us: "used l ps' = used l ps - {(x, k)}"
  proof -
    have "used l ps' = used l as \<union> used (y + span RR) bs" using decomp_used [of y "Suc p" "span RR", folded D_def] by (simp add: ps'_def y_def [symmetric] sD)
    moreover have "used l ps = used l as \<union> insert (x, k) (used (y + span RR) bs)"
      using all_free_used as0(2) bs0(2) by (simp add: ps as0 bs0 xR sR(1) y_def add.assoc)
    moreover have "(x, k) \<notin> used l as" "(x, k) \<notin> used (y + span RR) bs"
      using used_locs [of x k] locs_middle [of l as RR bs] xRR by (auto simp: y_def)
    ultimately show ?thesis by auto
  qed
  moreover have "blk_kept h0 h3 l ps ps'"
  proof (rule keptI [OF sps(1)])
    have ul4: "h1 z = h z" if "z \<notin> (\<Union>k < 25. free_locs k l ps)" for z using ul(4) that unfolding fr0 by blast
    fix z assume z: "z \<notin> locs l ps" "z \<notin> locs l ps'"
    have lps': "locs l ps' = locs l as \<union> (locs y D \<union> locs (y + span RR) bs)" by (simp add: ps'_def y_def sD)
    have "z \<noteq> cur" "z \<noteq> x" using z cur by (auto simp: lps' ps x)
    moreover have "?un = 0 \<or> z \<noteq> ?un" using z(2) un unfolding lps' by blast
    ultimately have "h3 z = h2 z" "h z = h0 z" by (simp_all add: h3_def h_def relink_same)
    moreover have "h2 z = h1 z" using z(2) free_locs_sub by (intro r5) blast
    moreover have "h1 z = h z" using z(1) free_locs_sub by (intro ul4) blast
    ultimately show "h3 z = h0 z" by simp
  next
    have ul4: "h1 z = h z" if "z \<notin> (\<Union>k < 25. free_locs k l ps)" for z using ul(4) that unfolding fr0 by blast
    fix u r assume u: "(u, r) \<in> used l ps" "(u, r) \<in> used l ps'"
    have "h2 u = h1 u" "h1 u = h u" using used_not_free [OF u(1)] used_not_free [OF u(2)] by (auto intro: r5 ul4)
    then show "sh_next (h3 u) = sh_next (h0 u) \<and> sh_prev (h3 u) = sh_prev (h0 u)" by (simp add: h3_def h_def)
  qed
  ultimately show ?thesis using that by blast
qed

end
