(* ===== verification/MempoolPool.thy ===== *)
theory MempoolPool
  imports MempoolSplit MempoolFree
begin

text \<open>
  The blocks of a memory pool form a list, each has a layout, and they do not overlap.  An operation on one block
  keeps the others; the search through the blocks finds a slot if there is one, and taking it is all that changes.
\<close>

section \<open>The blocks of a pool\<close>

definition slots_start :: "nat \<Rightarrow> nat" where "slots_start b = (if b = 0 then 304 else b + 256)"

fun chained :: "(nat \<rightharpoonup> block_header) \<Rightarrow> nat list \<Rightarrow> bool" where
  "chained B [] \<longleftrightarrow> True"
| "chained B [b] \<longleftrightarrow> map_option block_next (B b) = Some 0"
| "chained B (b # c # ds) \<longleftrightarrow> c \<noteq> 0 \<and> map_option block_next (B b) = Some c \<and> chained B (c # ds)"

definition blk_ok :: "mempool \<Rightarrow> nat \<Rightarrow> layout \<Rightarrow> bool" where
  "blk_ok st b ps \<longleftrightarrow> (\<exists>bh. blks st b = Some bh \<and> rep (heads st) (freelists bh) b (slots_start b) ps \<and> span ps \<le> csize 24 \<and>
     slots_start b + span ps \<le> b + bsize bh)"

definition region :: "mempool \<Rightarrow> nat \<Rightarrow> nat set" where
  "region st b = (case blks st b of None \<Rightarrow> {} | Some bh \<Rightarrow> {b..<b + bsize bh})"

definition pool_ok :: "mempool \<Rightarrow> nat list \<Rightarrow> (nat \<Rightarrow> layout) \<Rightarrow> bool" where
  "pool_ok st ds lay \<longleftrightarrow> limit st = 0 \<and> ds \<noteq> [] \<and> hd ds = 0 \<and> distinct ds \<and> dom (blks st) = set ds \<and> block_tail st = last ds \<and> chained (blks st) ds \<and>
     (\<forall>b \<in> set ds. blk_ok st b (lay b)) \<and> (\<forall>b \<in> set ds. \<forall>c \<in> set ds. b \<noteq> c \<longrightarrow> region st b \<inter> region st c = {})"

definition used_all :: "nat list \<Rightarrow> (nat \<Rightarrow> layout) \<Rightarrow> (nat \<times> nat) set" where
  "used_all ds lay = (\<Union>b \<in> set ds. used (slots_start b) (lay b))"

text \<open>No slot in use before and after is touched.\<close>

definition pool_kept :: "mempool \<Rightarrow> mempool \<Rightarrow> (nat \<times> nat) set \<Rightarrow> bool" where
  "pool_kept st st' S \<longleftrightarrow> (\<forall>(x, p) \<in> S. data_same (heads st) (heads st') x p)"

lemma chained_cong: "(\<And>b. b \<in> set ds \<Longrightarrow> map_option block_next (B' b) = map_option block_next (B b)) \<Longrightarrow> chained B' ds = chained B ds"
  by (induction B ds rule: chained.induct) auto

lemma pool_ok_lock [simp]: "pool_ok (st\<lparr>mempoolLock := v\<rparr>) ds lay = pool_ok st ds lay"
  by (simp add: pool_ok_def blk_ok_def region_def)

lemma slots_start_le: "b + 256 \<le> slots_start b" "0 < slots_start b"
  by (simp_all add: slots_start_def)

lemma pool_okD:
  assumes "pool_ok st ds lay" "b \<in> set ds"
  obtains bh where "blks st b = Some bh" "rep (heads st) (freelists bh) b (slots_start b) (lay b)" "span (lay b) \<le> csize 24"
    "slots_start b + span (lay b) \<le> b + bsize bh" "region st b = {b..<b + bsize bh}"
  using assms unfolding pool_ok_def blk_ok_def region_def by fastforce

lemma slots_region: "pool_ok st ds lay \<Longrightarrow> b \<in> set ds \<Longrightarrow> {slots_start b..<slots_start b + span (lay b)} \<subseteq> region st b"
  by (erule (1) pool_okD) (use slots_start_le(1) [of b] in auto)

lemma used_region:
  assumes "pool_ok st ds lay" "b \<in> set ds" "(x, p) \<in> used (slots_start b) (lay b)"
  shows "{x..<x + csize p} \<subseteq> region st b" "b + 256 \<le> x"
  using slots_region [OF assms(1,2)] used_bounds [OF assms(3)] slots_start_le(1) [of b] by auto

lemma used_all_disjoint:
  assumes P: "pool_ok st ds lay" and u: "(x, p) \<in> used_all ds lay" "(y, q) \<in> used_all ds lay" "(x, p) \<noteq> (y, q)"
  shows "x + csize p \<le> y \<or> y + csize q \<le> x"
proof -
  obtain b c where b: "b \<in> set ds" "(x, p) \<in> used (slots_start b) (lay b)" and c: "c \<in> set ds" "(y, q) \<in> used (slots_start c) (lay c)"
    using u(1,2) by (auto simp: used_all_def)
  show ?thesis
  proof (cases "b = c")
    case True
    then show ?thesis using used_disjoint [of x p "slots_start b" "lay b" y q] b c u(3) by simp
  next
    case False
    then have "region st b \<inter> region st c = {}" using P b(1) c(1) by (auto simp: pool_ok_def)
    then have "{x..<x + csize p} \<inter> {y..<y + csize q} = {}" using used_region(1) [OF P b] used_region(1) [OF P c] by blast
    moreover have "x \<in> {x..<x + csize p}" "y \<in> {y..<y + csize q}" by simp_all
    ultimately have "x \<notin> {y..<y + csize q}" "y \<notin> {x..<x + csize p}" by blast+
    then show ?thesis by auto
  qed
qed

text \<open>An operation on one block.\<close>

lemma pool_block_step:
  assumes P: "pool_ok st ds lay" and b: "b \<in> set ds" "blks st b = Some bh"
    and bh': "bsize bh' = bsize bh" "block_next bh' = block_next bh" "rep h' (freelists bh') b (slots_start b) ps'"
    and K: "blk_kept (heads st) h' (slots_start b) (lay b) ps'"
    and st': "heads st' = h'" "blks st' = (blks st)(b \<mapsto> bh')" "block_tail st' = block_tail st" "limit st' = limit st"
  shows "pool_ok st' ds (lay(b := ps'))" "pool_kept st st' (used_all ds lay \<inter> used_all ds (lay(b := ps')))"
proof -
  obtain bh0 where B: "blks st b = Some bh0" "rep (heads st) (freelists bh0) b (slots_start b) (lay b)" "span (lay b) \<le> csize 24"
    "slots_start b + span (lay b) \<le> b + bsize bh0" "region st b = {b..<b + bsize bh0}" by (rule pool_okD [OF P b(1)])
  have reg: "region st' c = region st c" for c using bh'(1) b(2) by (simp add: region_def st'(2))
  have out: "h' y = heads st y" if "y \<notin> region st b" for y
    using K that B slots_start_le(1) [of b] by (auto simp: blk_kept_def)
  have dis: "region st b \<inter> region st c = {}" if "c \<in> set ds" "c \<noteq> b" for c using P b(1) that by (auto simp: pool_ok_def)
  have oth: "h' y = heads st y" if c: "c \<in> set ds" "c \<noteq> b" "slots_start c \<le> y" "y < slots_start c + span (lay c)" for c y
  proof -
    have "y \<in> region st c" using slots_region [OF P c(1)] c(3,4) by auto
    then show ?thesis using dis [OF c(1,2)] by (intro out) blast
  qed
  have "blk_ok st' c ((lay(b := ps')) c)" if c: "c \<in> set ds" for c
  proof (cases "c = b")
    case True
    have "span ps' = span (lay b)" using K by (simp add: blk_kept_def)
    then show ?thesis using True B b(2) bh' by (simp add: blk_ok_def st')
  next
    case False
    obtain ch where C: "blks st c = Some ch" "rep (heads st) (freelists ch) c (slots_start c) (lay c)" "span (lay c) \<le> csize 24"
      "slots_start c + span (lay c) \<le> c + bsize ch" "region st c = {c..<c + bsize ch}" by (rule pool_okD [OF P c])
    have "rep h' (freelists ch) c (slots_start c) (lay c)"
    proof (rule rep_cong [OF C(2)])
      have same: "h' y = heads st y" if "y \<in> locs (slots_start c) (lay c)" for y using locs_bounds [OF that] oth [OF c False] by blast
      show "same_slot (h' y) (heads st y)" if "y \<in> locs (slots_start c) (lay c)" for y using same [OF that] by simp
      show "sh_next (h' y) = sh_next (heads st y) \<and> sh_prev (h' y) = sh_prev (heads st y)" if "y \<in> free_locs k (slots_start c) (lay c)" for k y
        using same [of y] that free_locs_sub [of k "slots_start c" "lay c"] by auto
    qed
    then show ?thesis using C False by (simp add: blk_ok_def st')
  qed
  moreover have "chained (blks st') ds = chained (blks st) ds" using bh'(2) b(2) by (intro chained_cong) (simp add: st')
  moreover have "dom (blks st') = dom (blks st)" using b(2) by (auto simp: st')
  ultimately show "pool_ok st' ds (lay(b := ps'))" using P by (simp add: pool_ok_def reg st')
  have "data_same (heads st) h' x p" if x: "(x, p) \<in> used_all ds lay" "(x, p) \<in> used_all ds (lay(b := ps'))" for x p
  proof -
    obtain c where c: "c \<in> set ds" "(x, p) \<in> used (slots_start c) (lay c)" using x(1) by (auto simp: used_all_def)
    show ?thesis
    proof (cases "c = b")
      case True
      obtain d where d: "d \<in> set ds" "(x, p) \<in> used (slots_start d) ((lay(b := ps')) d)" using x(2) by (auto simp: used_all_def)
      have "d = b"
      proof (rule ccontr)
        assume "d \<noteq> b"
        then have "x \<in> region st d" "x \<in> region st b" using used_region(1) [OF P d(1), of x p] used_region(1) [OF P b(1), of x p] d c True csize_pos [of p] by auto
        then show False using dis [OF d(1) \<open>d \<noteq> b\<close>] by blast
      qed
      then show ?thesis using K c(2) d(2) True by (auto simp: blk_kept_def)
    next
      case False
      have "h' y = heads st y" if "x \<le> y" "y < x + csize p" for y using used_bounds [OF c(2)] that by (intro oth [OF c(1) False]) auto
      then show ?thesis by (simp add: data_same_def)
    qed
  qed
  then show "pool_kept st st' (used_all ds lay \<inter> used_all ds (lay(b := ps')))" by (auto simp: pool_kept_def st')
qed

section \<open>Taking a slot of the pool\<close>

lemma used_all_upd: "b \<in> set ds \<Longrightarrow> used_all ds (lay(b := ps)) = used (slots_start b) ps \<union> (\<Union>c \<in> set ds - {b}. used (slots_start c) (lay c))"
  by (auto simp: used_all_def split: if_splits)

lemma used_all_split: "b \<in> set ds \<Longrightarrow> used_all ds lay = used (slots_start b) (lay b) \<union> (\<Union>c \<in> set ds - {b}. used (slots_start c) (lay c))"
  using used_all_upd [of b ds lay "lay b"] by simp

lemma used_other_block:
  assumes P: "pool_ok st ds lay" and b: "b \<in> set ds" "x \<in> region st b"
  shows "(x, p) \<notin> (\<Union>c \<in> set ds - {b}. used (slots_start c) (lay c))"
proof
  assume "(x, p) \<in> (\<Union>c \<in> set ds - {b}. used (slots_start c) (lay c))"
  then obtain c where c: "c \<in> set ds" "c \<noteq> b" "(x, p) \<in> used (slots_start c) (lay c)" by blast
  have "x \<in> region st c" using used_region(1) [OF P c(1,3)] csize_pos [of p] by auto
  moreover have "region st b \<inter> region st c = {}" using P b(1) c(1,2) by (auto simp: pool_ok_def)
  ultimately show False using b(2) by blast
qed

text \<open>A slot \<open>(x, k)\<close> has come into use and nothing else has changed for the users.\<close>

definition slot_taken :: "mempool \<Rightarrow> (nat \<times> nat) set \<Rightarrow> nat \<Rightarrow> nat \<Rightarrow> mempool \<Rightarrow> bool" where
  "slot_taken st S x k st' \<longleftrightarrow> \<not> mempoolLock st' \<and> (x, k) \<notin> S \<and> pool_kept st st' S \<and> (\<exists>ds lay. pool_ok st' ds lay \<and> used_all ds lay = insert (x, k) S)"

lemma pool_kept_refl [simp]: "heads st' = heads st \<Longrightarrow> pool_kept st st' S"
  by (auto simp: pool_kept_def)

lemma pool_kept_trans: "pool_kept st st1 S \<Longrightarrow> pool_kept st1 st2 S \<Longrightarrow> pool_kept st st2 S"
  unfolding pool_kept_def using data_same_trans by blast

lemma take_slot_eq:
  "blks st c = Some bh \<Longrightarrow> take_slot c k st = Inr (freelists bh ! k + 32,
     st\<lparr>heads := take_heads c k (freelists bh) (heads st), mempoolLock := False,
        blks := (blks st)(c \<mapsto> bh\<lparr>freelists := (freelists bh)[k := sh_next (heads st (freelists bh ! k))], bused := bused bh + of_nat k\<rparr>)\<rparr>)"
  by (simp add: take_slot_def take_heads_def Let_def sizeof_used_header_def)

lemma take_slot_ok:
  assumes P: "pool_ok st ds lay" and c: "c \<in> set ds" "blks st c = Some bh" and k: "k < 25" "freelists bh ! k \<noteq> 0"
  obtains x st' where "take_slot c k st = Inr (x + 32, st')" "slot_taken st (used_all ds lay) x k st'"
proof -
  obtain bh0 where B: "blks st c = Some bh0" "rep (heads st) (freelists bh0) c (slots_start c) (lay c)" "span (lay c) \<le> csize 24"
    "slots_start c + span (lay c) \<le> c + bsize bh0" "region st c = {c..<c + bsize bh0}" by (rule pool_okD [OF P c(1)])
  have R: "rep (heads st) (freelists bh) c (slots_start c) (lay c)" using B(1,2) c(2) by simp
  let ?x = "freelists bh ! k" and ?h = "take_heads c k (freelists bh) (heads st)" and ?bh = "bh\<lparr>freelists := (freelists bh)[k := sh_next (heads st (freelists bh ! k))], bused := bused bh + of_nat k\<rparr>"
  obtain as bs where T: "lay c = as @ (k, True) # bs" "?x = slots_start c + span as"
    "rep ?h ((freelists bh)[k := sh_next (heads st ?x)]) c (slots_start c) (as @ (k, False) # bs)" "blk_kept (heads st) ?h (slots_start c) (lay c) (as @ (k, False) # bs)"
    by (rule take_heads_ok [OF R k])
  let ?ps = "as @ (k, False) # bs"
  define st' where "st' = st\<lparr>heads := ?h, mempoolLock := False, blks := (blks st)(c \<mapsto> ?bh)\<rparr>"
  have S: "pool_ok st' ds (lay(c := ?ps))" "pool_kept st st' (used_all ds lay \<inter> used_all ds (lay(c := ?ps)))"
    using pool_block_step [OF P c, of ?bh ?h ?ps st'] T(3,4) by (simp_all add: st'_def)
  have "used (slots_start c) ?ps = insert (?x, k) (used (slots_start c) (lay c))" using T(2) by (simp add: T(1))
  then have U: "used_all ds (lay(c := ?ps)) = insert (?x, k) (used_all ds lay)" unfolding used_all_upd [OF c(1)] used_all_split [OF c(1), of lay] by simp
  have "?x \<in> free_locs k (slots_start c) (lay c)" using T(1,2) by simp
  then have "(?x, k) \<notin> used (slots_start c) (lay c)" using used_not_free by blast
  moreover have "?x \<in> region st c" using slots_region [OF P c(1)] T(2) csize_pos [of k] by (auto simp: T(1))
  ultimately have "(?x, k) \<notin> used_all ds lay" using used_other_block [OF P c(1)] unfolding used_all_split [OF c(1), of lay] by blast
  moreover have "pool_kept st st' (used_all ds lay)" using S(2) unfolding U by (simp add: Int_absorb2 subset_insertI)
  moreover have "\<not> mempoolLock st'" by (simp add: st'_def)
  ultimately have "slot_taken st (used_all ds lay) ?x k st'" using S(1) U unfolding slot_taken_def by blast
  moreover have "take_slot c k st = Inr (?x + 32, st')" unfolding st'_def by (rule take_slot_eq [OF c(2)])
  ultimately show ?thesis using that by blast
qed

text \<open>The search through the blocks.\<close>

definition block_found :: "mempool \<Rightarrow> (nat \<Rightarrow> layout) \<Rightarrow> nat \<Rightarrow> nat \<Rightarrow> mempool \<Rightarrow> bool" where
  "block_found st lay k c st1 \<longleftrightarrow> (\<exists>bh fl h ps. blks st c = Some bh \<and> st1 = st\<lparr>blks := (blks st)(c \<mapsto> bh\<lparr>freelists := fl\<rparr>), heads := h\<rparr> \<and>
     rep h fl c (slots_start c) ps \<and> fl ! k \<noteq> 0 \<and> blk_kept (heads st) h (slots_start c) (lay c) ps \<and> used (slots_start c) ps = used (slots_start c) (lay c))"

lemma checkblock_found:
  assumes "blk_ok st b (lay b)" "k < 25" "blks st b = Some bh"
  obtains (none) "checkblock b bh k st = (False, st)" "\<forall>j. k \<le> j \<and> j < 25 \<longrightarrow> free_locs j (slots_start b) (lay b) = {}"
    | (found) st1 where "checkblock b bh k st = (True, st1)" "block_found st lay k b st1"
proof -
  have R: "rep (heads st) (freelists bh) b (slots_start b) (lay b)" using assms(1,3) by (auto simp: blk_ok_def)
  from R assms(2,3) show ?thesis
  proof (cases rule: checkblock_ok)
    case (found fl h ps')
    then have "block_found st lay k b (st\<lparr>blks := (blks st)(b \<mapsto> bh\<lparr>freelists := fl\<rparr>), heads := h\<rparr>)" using assms(3) unfolding block_found_def by blast
    with found(1) show ?thesis by (rule that(2))
  qed (rule that(1))
qed

lemma find_block_ok:
  assumes "chained (blks st) (d # ds)" "\<forall>b \<in> set (d # ds). blk_ok st b (lay b)" "k < 25"
  shows "(find_block k d st = Some (None, st) \<and> (\<forall>b \<in> set (d # ds). \<forall>j. k \<le> j \<and> j < 25 \<longrightarrow> free_locs j (slots_start b) (lay b) = {})) \<or>
    (\<exists>c \<in> set (d # ds). \<exists>st1. find_block k d st = Some (Some c, st1) \<and> block_found st lay k c st1)"
  using assms
proof (induction ds arbitrary: d)
  case Nil
  have b: "blk_ok st d (lay d)" using Nil.prems(2) by simp
  then obtain bh where B: "blks st d = Some bh" by (auto simp: blk_ok_def)
  from b Nil.prems(3) B show ?case
  proof (cases rule: checkblock_found)
    case none
    then show ?thesis using B Nil.prems(1) by (simp add: find_block.simps [of k d])
  next
    case (found st1)
    then show ?thesis using B by (simp add: find_block.simps [of k d])
  qed
next
  case (Cons e ds)
  have b: "blk_ok st d (lay d)" using Cons.prems(2) by simp
  then obtain bh where B: "blks st d = Some bh" by (auto simp: blk_ok_def)
  have n: "block_next bh = e" "e \<noteq> 0" "chained (blks st) (e # ds)" using Cons.prems(1) B by simp_all
  from b Cons.prems(3) B show ?case
  proof (cases rule: checkblock_found)
    case none
    then have "find_block k d st = find_block k e st" using B n by (simp add: find_block.simps [of k d])
    then show ?thesis using Cons.IH [OF n(3) _ Cons.prems(3)] Cons.prems(2) none(2) by auto
  next
    case (found st1)
    then show ?thesis using B by (simp add: find_block.simps [of k d])
  qed
qed

lemma found_take:
  assumes P: "pool_ok st ds lay" and c: "c \<in> set ds" and k: "k < 25" and F: "block_found st lay k c st1"
  obtains x st' where "take_slot c k st1 = Inr (x + 32, st')" "slot_taken st (used_all ds lay) x k st'"
proof -
  obtain bh fl h ps where f: "blks st c = Some bh" "st1 = st\<lparr>blks := (blks st)(c \<mapsto> bh\<lparr>freelists := fl\<rparr>), heads := h\<rparr>"
    "rep h fl c (slots_start c) ps" "fl ! k \<noteq> 0" "blk_kept (heads st) h (slots_start c) (lay c) ps" "used (slots_start c) ps = used (slots_start c) (lay c)"
    using F unfolding block_found_def by blast
  have S: "pool_ok st1 ds (lay(c := ps))" "pool_kept st st1 (used_all ds lay \<inter> used_all ds (lay(c := ps)))"
    using pool_block_step [OF P c f(1), of "bh\<lparr>freelists := fl\<rparr>" h ps st1] f(3,5) by (simp_all add: f(2))
  have U: "used_all ds (lay(c := ps)) = used_all ds lay" unfolding used_all_upd [OF c] used_all_split [OF c, of lay] f(6) by simp
  have b: "blks st1 c = Some (bh\<lparr>freelists := fl\<rparr>)" "freelists (bh\<lparr>freelists := fl\<rparr>) ! k \<noteq> 0" using f(4) by (simp_all add: f(2))
  obtain x st' where T: "take_slot c k st1 = Inr (x + 32, st')" "slot_taken st1 (used_all ds (lay(c := ps))) x k st'"
    by (rule take_slot_ok [OF S(1) c b(1) k b(2)])
  have "slot_taken st (used_all ds lay) x k st'" using T(2) S(2) pool_kept_trans unfolding U slot_taken_def by auto
  with T(1) show ?thesis by (rule that)
qed

end
