(* ===== verification/MempoolCorrect.thy ===== *)
theory MempoolCorrect
  imports MempoolPool
begin

text \<open>
  Correctness of the memory pools of \<open>Mempool\<close>: allocation, with the expansion of the pool, and freeing keep
  the blocks well formed for every sequence of operations, also when the users of slots overwrite their memory.
\<close>

section \<open>Expanding the pool\<close>








section \<open>Allocation\<close>



section \<open>Freeing and initialisation\<close>



section \<open>Sequences of operations\<close>
























end
