(* ===== verification/Spec2Isabelle.thy ===== *)
theory Spec2Isabelle
  imports CqsCorrect Msgmgr QdSystem Crc32 Cmipool PCQueue CkQ CptSystem CptKeys ReductionSystem Multisend Multicast CsdFair Futures Isomalloc MempoolCorrect
begin

text \<open>
  Verification of the Converse runtime, the messaging and scheduling layer under Charm++
  (\<^verbatim>\<open>src/charm/src\<close>; file names below are relative to it).

  \<^bold>\<open>The program.\<close>  A Converse program runs on a number of processors that exchange messages.  Every
  message carries the number of a handler.  The scheduler of a processor (\<^verbatim>\<open>conv-core/convcore.c\<close>)
  repeatedly takes a message from one of its queues -- messages from the network, from the processor
  itself, from its node, and messages enqueued with a priority -- and calls the handler.  When it finds
  nothing it turns idle and raises conditions, to which callbacks are attached; timers and periodic
  checks run from the same loop.  On top of handlers and queues the runtime offers user-level threads and
  POSIX threads, tables of tagged messages, reductions, multicasts and bundles of messages over the
  processors, and the detection of quiescence.  Below, queues, allocators, checksums and the packing
  of data are libraries of their own.

  \<^bold>\<open>Theories.\<close>  Every theory models the functions of its source by definitions of the same names; a
  struct is a record, processor-private variables (\<^verbatim>\<open>Cpv\<close>) are fields of the state record of their
  module.  Operations that stop the program return an error (\<open>Abort\<close>, \<open>AssertFailed\<close>, \<open>Exit\<close>), and reads
  and writes outside allocated memory the error \<open>Fault\<close>; where a loop could run for ever the result is
  an option and \<open>None\<close> means that it does.

  \<^item> \<open>Prelude\<close>: machine types, errors, collections of rewrite rules, lists used as arrays, biased integers.
  \<^item> \<open>Deq\<close>, \<open>Prio\<close>, \<open>Binheap\<close>, \<open>Prioq\<close>, \<open>PrioqCorrect\<close>, \<open>PrioqOrder\<close>, \<open>Cqs\<close>, \<open>CqsCorrect\<close>: the scheduler queue,
    \<^verbatim>\<open>conv-core/queueing.C\<close>.  A circular buffer refines a list (C1).  A priority queue is a binary heap
    of buckets, one for each priority, that a hash table with chains and back pointers finds again.  Its operations
    end, keep heap, table and memory consistent and act on the multiset of prioritised messages (C2, C3);
    within a priority they are first-in first-out or last-in first-out (C4, C5) until the table is
    enlarged, after which a priority may have two buckets (C6).  The queue of three such parts serves the
    strategies as documented (C7 to C9), is enumerated completely (C10) and removes messages (C11).
    \<open>Binheap\<close> holds the heap arguments as a locale that the buckets and the timers interpret.
  \<^item> \<open>Pup\<close>, \<open>Msgmgr\<close>: tables of tagged messages with wild cards (\<^verbatim>\<open>conv-core/msgmgr.c\<close>) refine a list searched
    from the front (C12); packing with the memory packers of \<^verbatim>\<open>util/pup.h\<close> and unpacking restores tables of
    fewer than \<open>2 ^ 31\<close> entries (C13).
  \<^item> \<open>Cblist\<close>, \<open>CcdHeap\<close>, \<open>Ccd\<close>: callbacks on conditions, timers and periodic checks (\<^verbatim>\<open>conv-core/conv-conds.c\<close>).
    Registration and cancellation (C14), timers (C15) and the loss of a timer when their heap is full (C16),
    raising a condition, also from its own callbacks (C17, C18), a whole periodic check, with the conditions it
    raises (C19), and the adaptive interval between checks.  Callbacks are assumed to register, set timers and raise
    only, and to leave the waiting area of expired timers alone.
  \<^item> \<open>Spantree\<close>: the spanning tree macros of \<^verbatim>\<open>conv-core/converse.h\<close> describe one tree (C21).
  \<^item> \<open>Quiescence\<close>, \<open>QdSystem\<close>: the quiescence detector (\<^verbatim>\<open>conv-core/quiescence.c\<close>), one processor and the system of
    all of them with messages in transit; no assertion fails (C22) and an announcement is right (C23).
  \<^item> \<open>Crc32\<close>: the checksums of \<^verbatim>\<open>util/crc32.c\<close> are polynomial division (C24), detect bursts (C25), and read
    the bytes they claim or more (C26).
  \<^item> \<open>Cmipool\<close>: the pooling allocator \<^verbatim>\<open>conv-core/cmipool.c\<close>: as long as no size wraps around, blocks in use never
    overlap (C27); which requests return (C28); reuse of freed blocks.
  \<^item> \<open>PCQueue\<close>: the producer-consumer queue \<^verbatim>\<open>arch/util/pcqueue.h\<close> with every memory access a step (C30), and its length.
  \<^item> \<open>CkQ\<close>: the queue class of \<^verbatim>\<open>util/cklists.h\<close> and the \<^verbatim>\<open>CdsFifo\<close> routines (C32); the contract of a queue is a
    locale that threads and scheduler use.
  \<^item> \<open>Cth\<close>, \<open>Cpthreads\<close>, \<open>CptSystem\<close>, \<open>CptKeys\<close>: user-level threads (\<^verbatim>\<open>conv-core/threads.c\<close>) and POSIX threads on
    them (\<^verbatim>\<open>conv-core/cpthreads.c\<close>): mutual exclusion and hand-over under every schedule of threads
    that do not lock a mutex twice (C34), keys (C35).
  \<^item> \<open>DLists\<close>: arrays of doubly linked lists, which the next two components keep.
  \<^item> \<open>IsoBins\<close>, \<open>IsoTree\<close>, \<open>IsoTreeCorrect\<close>, \<open>Slotset\<close>, \<open>Isomalloc\<close>: the address space of migratable threads
    (\<^verbatim>\<open>conv-core/isomalloc.c\<close>).  The free slots of a processor are blocks in a B-tree and, by size, in doubly
    linked lists.  Insertion and deletion keep the tree balanced, with nodes of 63 to 127 blocks, and its searches
    stay within their node (C29); tree and lists together implement a set of slots (C33), and blocks of 1 to
    \<open>2 ^ 31 - 1\<close> bytes allocated from them never overlap (C20).  The locale \<open>slot_store\<close> is what allocation relies on.  A pointer to
    a block is the list node that belongs to it, and a tree is a value: its nodes have one owner each.
  \<^item> \<open>Mempool\<close>, \<open>MempoolBlock\<close>, \<open>MempoolSplit\<close>, \<open>MempoolFill\<close>, \<open>MempoolFree\<close>, \<open>MempoolPool\<close>, \<open>MempoolCorrect\<close>: memory pools of slots
    whose sizes are powers of two (\<^verbatim>\<open>arch/util/mempool.c\<close>).  A block is a sequence of slots that headers in memory
    describe; filling a new block, splitting, taking and merging slots keep the headers and the free lists
    consistent.  For a pool without limit no piece of memory in use overlaps another one or its header, and, until a
    failed allocation has left the lock taken, allocating and freeing succeed and leave the memory of the users as it is (C31).
  \<^item> \<open>Futures\<close>: values that threads wait for (\<^verbatim>\<open>conv-core/futures.c\<close>); a stored value awakens every waiting
    thread once, also when it comes from another processor.
  \<^item> \<open>Reduction\<close>, \<open>ReductionSystem\<close>: reductions over the processors (\<^verbatim>\<open>conv-core/convcore.c\<close>) complete with every
    contribution merged once (C36).
  \<^item> \<open>Multisend\<close>: blocks with reference counts and bundles of messages (C37), at the level of bytes.
  \<^item> \<open>Multicast\<close>: groups and the multicast to a group (C38).
  \<^item> \<open>Args\<close>: command-line options (C39).
  \<^item> \<open>Handlers\<close>, \<open>Csd\<close>, \<open>CsdFair\<close>: the table of message handlers and the scheduler.  Its state contains those of
    \<open>Ccd\<close>, \<open>CkQ\<close>, \<open>Cqs\<close> and \<open>Quiescence\<close>, which its routines call; \<open>CsdFair\<close> shows that the choice
    of the next message loses nothing, lets the network wait for a bounded number of calls only and
    gives up only when nothing is left but messages of the node that are locked or of the least urgent priority (C40), and
    that registered handlers get their messages.

  \<^bold>\<open>Parameters.\<close>  Code of the application and of the system is a parameter: message handlers, callbacks
  and merge functions are functions on the state or values of the model, the readings of the clock are a
  sequence, memory from the system is given by addresses with the property that new blocks do not overlap old
  ones, the numbering of processors by nodes is a topology, and messages of other processors arrive in any order
  their queues allow.  Concurrent parts are step relations, and their properties hold for every
  interleaving.

  \<^bold>\<open>Loops.\<close>  Structural recursion, recursion with a measure, or \<^theory_text>\<open>partial_function\<close> with lemmas that give the
  result wherever the loop ends.  No fuel is used.

  \<^bold>\<open>Integers.\<close>  C integers whose overflow the code can meet are words of their width.  Counters of messages in the
  quiescence detector, and sizes and indices that memory bounds, are unbounded.

  \<^bold>\<open>Not modelled.\<close>  Code that consists of system calls, assembly or hardware access: the network layers
  and thread libraries under \<^verbatim>\<open>arch\<close> apart from the queues named above, stack switching, sockets of the
  client-server interface, tracing to files, processor affinity, the system allocators and the debugging support.
  Heuristics without a stated aim: the seed balancers and topologies under \<^verbatim>\<open>conv-ldb\<close>.  Of the modelled
  files: floating-point options (\<^verbatim>\<open>CmiGetArgDouble\<close>), the nested form of \<^verbatim>\<open>VECTOR_COMPACT\<close>, disk and network packers,
  the search for a usable address range in isomalloc, the stand-in scheduling threads, and variants of other build configurations.  Above Converse: the object
  layer of Charm++ (\<^verbatim>\<open>ck-core\<close> and its companions), languages, libraries and translators.  The other projects of the
  repository do not interact with Charm++.
\<close>

end
